(* ===== verification/Prelude.thy ===== *)
theory Prelude
  imports Main "HOL-Library.Word" "HOL-Library.List_Lexorder" "HOL-Library.Product_Lexorder"
    "HOL-Library.Monad_Syntax"
begin

text \<open>
  Shared vocabulary of the development: Rust's machine integers with their checked, saturating and
  wrapping operations, \<open>Result\<close> and the question-mark operator, big-endian integer encodings,
  the byte cursor that every decoder of the program is built on, ordered maps as strictly sorted
  association lists, and the interfaces (locales) that the components interpret.
\<close>

section \<open>Types\<close>

type_synonym u8 = "8 word"
type_synonym u16 = "16 word"
type_synonym u32 = "32 word"
type_synonym u64 = "64 word"
type_synonym u128 = "128 word"
type_synonym bytes = "u8 list"

text \<open>
  Fixed-width arrays are byte lists; the width the Rust type carries is a premise or a conclusion
  where it matters. \<open>Hash\<close> is 32 bytes, \<open>Address\<close> 20 bytes.
\<close>

type_synonym hash = bytes
type_synonym address = bytes

text \<open>Rust strings are UTF-8 byte sequences; the model keeps the bytes.\<close>

type_synonym text_bytes = bytes

named_theorems wf_simps \<open>unfolding rules of the well-formedness predicates\<close>
named_theorems codec_simps \<open>decoding an encoded prefix\<close>

section \<open>Result and the question-mark operator\<close>

definition try_res :: "'e + 'a \<Rightarrow> ('a \<Rightarrow> 'e + 'b) \<Rightarrow> 'e + 'b" where
  "try_res m f = (case m of Inl e \<Rightarrow> Inl e | Inr x \<Rightarrow> f x)"

definition ok_or :: "'e \<Rightarrow> 'a option \<Rightarrow> 'e + 'a" where
  "ok_or e m = (case m of None \<Rightarrow> Inl e | Some x \<Rightarrow> Inr x)"

definition map_err :: "('e \<Rightarrow> 'f) \<Rightarrow> 'e + 'a \<Rightarrow> 'f + 'a" where
  "map_err g m = (case m of Inl e \<Rightarrow> Inl (g e) | Inr x \<Rightarrow> Inr x)"

definition ok :: "'e + 'a \<Rightarrow> 'a option" where
  "ok m = (case m of Inl e \<Rightarrow> None | Inr x \<Rightarrow> Some x)"

definition is_ok :: "'e + 'a \<Rightarrow> bool" where
  "is_ok m = (case m of Inl e \<Rightarrow> False | Inr x \<Rightarrow> True)"

lemma try_res_simps [simp]:
  "try_res (Inl e) f = Inl e" "try_res (Inr x) f = f x"
  by (simp_all add: try_res_def)

lemma try_res_Inr_iff: "try_res m f = Inr y \<longleftrightarrow> (\<exists>x. m = Inr x \<and> f x = Inr y)"
  by (cases m) auto

lemma try_res_Inl_iff:
  "try_res m f = Inl e \<longleftrightarrow> m = Inl e \<or> (\<exists>x. m = Inr x \<and> f x = Inl e)"
  by (cases m) auto

lemma ok_or_simps [simp]: "ok_or e None = Inl e" "ok_or e (Some x) = Inr x"
  by (simp_all add: ok_or_def)

lemma ok_or_Inr_iff [simp]: "ok_or e m = Inr x \<longleftrightarrow> m = Some x"
  by (cases m) auto

lemma ok_or_Inl_iff [simp]: "ok_or e m = Inl e' \<longleftrightarrow> m = None \<and> e' = e"
  by (cases m) auto

lemma map_err_simps [simp]: "map_err g (Inl e) = Inl (g e)" "map_err g (Inr x) = Inr x"
  by (simp_all add: map_err_def)

lemma map_err_Inr_iff [simp]: "map_err g m = Inr x \<longleftrightarrow> m = Inr x"
  by (cases m) auto

lemma map_err_Inl_iff: "map_err g m = Inl f \<longleftrightarrow> (\<exists>e. m = Inl e \<and> f = g e)"
  by (cases m) auto

lemma ok_simps [simp]: "ok (Inl e) = None" "ok (Inr x) = Some x"
  by (simp_all add: ok_def)

lemma ok_Some_iff [simp]: "ok m = Some x \<longleftrightarrow> m = Inr x"
  by (cases m) auto

text \<open>Elimination rules that follow the success path of a checked sequence.\<close>

lemma try_res_InrE:
  assumes "try_res m f = Inr y"
  obtains x where "m = Inr x" "f x = Inr y"
  using assms by (auto simp: try_res_Inr_iff)

lemma guard_InrE:
  assumes "(if b then Inl e else m) = Inr y"
  obtains "\<not> b" "m = Inr y"
  using assms by (auto split: if_splits)

lemma pair_InrE:
  assumes "(case x of (a, b) \<Rightarrow> g a b) = Inr y"
  obtains a b where "x = (a, b)" "g a b = Inr y"
  using assms by (cases x) auto

lemmas success_path = try_res_InrE guard_InrE pair_InrE

lemma is_ok_iff: "is_ok m \<longleftrightarrow> (\<exists>x. m = Inr x)"
  by (auto simp: is_ok_def split: sum.splits)

lemma is_ok_simps [simp]: "\<not> is_ok (Inl e)" "is_ok (Inr x)"
  by (simp_all add: is_ok_def)

text \<open>
  \<open>iter().enumerate().map(f).collect::<Result<_, _>>()\<close>: the first failure ends the traversal.
\<close>

fun traverse :: "(nat \<Rightarrow> 'a \<Rightarrow> 'e + 'b) \<Rightarrow> nat \<Rightarrow> 'a list \<Rightarrow> 'e + 'b list" where
  "traverse f i [] = Inr []"
| "traverse f i (x # xs) =
     try_res (f i x) (\<lambda>y. try_res (traverse f (Suc i) xs) (\<lambda>ys. Inr (y # ys)))"

lemma traverse_Inr_iff:
  "traverse f i xs = Inr ys \<longleftrightarrow>
     length ys = length xs \<and> (\<forall>k < length xs. f (i + k) (xs ! k) = Inr (ys ! k))"
proof (induction xs arbitrary: i ys)
  case Nil
  then show ?case by auto
next
  case (Cons x xs)
  show ?case (is "?l = ?r")
  proof
    assume ?l
    then obtain y ys' where y: "f i x = Inr y" and ys: "ys = y # ys'"
      and r: "traverse f (Suc i) xs = Inr ys'"
      by (auto simp: try_res_Inr_iff)
    then show ?r
      using Cons.IH [of "Suc i" ys'] by (auto simp: nth_Cons less_Suc_eq_0_disj split: nat.splits)
  next
    assume r: ?r
    then obtain y ys' where ys: "ys = y # ys'" and len: "length ys' = length xs"
      by (cases ys) auto
    from r ys have y: "f i x = Inr y"
      by auto
    from r ys len have "\<forall>k < length xs. f (Suc i + k) (xs ! k) = Inr (ys' ! k)"
      by (metis Suc_less_eq add_Suc_shift length_Cons nth_Cons_Suc)
    with len have "traverse f (Suc i) xs = Inr ys'"
      using Cons.IH by blast
    with y ys show ?l by simp
  qed
qed

lemma traverse_Inl_iff:
  "traverse f i xs = Inl e \<longleftrightarrow>
     (\<exists>k < length xs. f (i + k) (xs ! k) = Inl e \<and> (\<forall>j < k. is_ok (f (i + j) (xs ! j))))"
proof (induction xs arbitrary: i)
  case Nil
  then show ?case by simp
next
  case (Cons x xs)
  show ?case
  proof (cases "f i x")
    case (Inl e')
    then show ?thesis
      by (auto intro!: exI [of _ 0]) (metis Inl Nat.add_0_right is_ok_simps(1) neq0_conv nth_Cons_0 sum.inject(1))
  next
    case (Inr y)
    have "traverse f i (x # xs) = Inl e \<longleftrightarrow> traverse f (Suc i) xs = Inl e"
      using Inr by (auto simp: try_res_Inl_iff)
    also have "\<dots> \<longleftrightarrow> (\<exists>k < length xs. f (i + Suc k) ((x # xs) ! Suc k) = Inl e \<and>
        (\<forall>j < k. is_ok (f (i + Suc j) ((x # xs) ! Suc j))))"
      using Cons.IH [of "Suc i"] by simp
    also have "\<dots> \<longleftrightarrow> (\<exists>k < length (x # xs). f (i + k) ((x # xs) ! k) = Inl e \<and>
        (\<forall>j < k. is_ok (f (i + j) ((x # xs) ! j))))" (is "?l = ?r")
    proof
      assume ?l
      then obtain k where k: "k < length xs" "f (i + Suc k) ((x # xs) ! Suc k) = Inl e"
        "\<forall>j < k. is_ok (f (i + Suc j) ((x # xs) ! Suc j))" by blast
      have "is_ok (f (i + j) ((x # xs) ! j))" if "j < Suc k" for j
        using that k(3) Inr by (cases j) auto
      with k show ?r by (intro exI [of _ "Suc k"]) auto
    next
      assume ?r
      then obtain k where k: "k < length (x # xs)" "f (i + k) ((x # xs) ! k) = Inl e"
        "\<forall>j < k. is_ok (f (i + j) ((x # xs) ! j))" by blast
      with Inr obtain k' where "k = Suc k'" by (cases k) auto
      with k show ?l by (auto intro!: exI [of _ k'])
    qed
    finally show ?thesis .
  qed
qed

lemma traverse_length: "traverse f i xs = Inr ys \<Longrightarrow> length ys = length xs"
  by (simp add: traverse_Inr_iff)

lemma list_all2_witness:
  assumes "\<forall>x \<in> set xs. \<exists>y. R x y"
  obtains ys where "list_all2 R xs ys"
  using assms by (induction xs arbitrary: thesis) (auto intro: list_all2_Cons [THEN iffD2])

section \<open>Machine integers\<close>

definition checked_add :: "'a::len word \<Rightarrow> 'a word \<Rightarrow> 'a word option" where
  "checked_add a b = (if unat a + unat b < 2 ^ LENGTH('a) then Some (a + b) else None)"

definition checked_sub :: "'a::len word \<Rightarrow> 'a word \<Rightarrow> 'a word option" where
  "checked_sub a b = (if b \<le> a then Some (a - b) else None)"

definition saturating_add :: "'a::len word \<Rightarrow> 'a word \<Rightarrow> 'a word" where
  "saturating_add a b = (if unat a + unat b < 2 ^ LENGTH('a) then a + b else - 1)"

definition saturating_sub :: "'a::len word \<Rightarrow> 'a word \<Rightarrow> 'a word" where
  "saturating_sub a b = (if b \<le> a then a - b else 0)"

definition saturating_mul :: "'a::len word \<Rightarrow> 'a word \<Rightarrow> 'a word" where
  "saturating_mul a b = (if unat a * unat b < 2 ^ LENGTH('a) then a * b else - 1)"

text \<open>\<open>uN::try_from(len)\<close> and the widening casts.\<close>

definition try_from_nat :: "nat \<Rightarrow> 'a::len word option" where
  "try_from_nat n = (if n < 2 ^ LENGTH('a) then Some (of_nat n) else None)"

lemma unat_bound: "unat (w :: 'a::len word) < 2 ^ LENGTH('a)"
  by (rule unsigned_less)

lemma unat_u8_bound: "unat (b :: u8) < 256"
  using unat_bound [of b] by simp

lemma unat_of_nat_small: "n < 2 ^ LENGTH('a) \<Longrightarrow> unat (of_nat n :: 'a::len word) = n"
  by (simp add: unat_of_nat)

lemma checked_add_Some:
  fixes a b c :: "'a::len word"
  assumes "checked_add a b = Some c"
  shows "unat c = unat a + unat b"
proof -
  from assms have "unat a + unat b < 2 ^ LENGTH('a)" and "c = a + b"
    by (auto simp: checked_add_def split: if_splits)
  then show ?thesis by (simp add: unat_word_ariths)
qed

lemma checked_add_fits:
  fixes a b :: "'a::len word"
  assumes "unat a + unat b < 2 ^ LENGTH('a)"
  obtains c where "checked_add a b = Some c" and "unat c = unat a + unat b"
proof
  show c: "checked_add a b = Some (a + b)"
    using assms by (simp add: checked_add_def)
  show "unat (a + b) = unat a + unat b"
    by (rule checked_add_Some [OF c])
qed

lemma checked_add_None_iff:
  fixes a b :: "'a::len word"
  shows "checked_add a b = None \<longleftrightarrow> 2 ^ LENGTH('a) \<le> unat a + unat b"
  by (auto simp: checked_add_def)

lemma checked_add_eq_Some_iff:
  fixes a b c :: "'a::len word"
  shows "checked_add a b = Some c \<longleftrightarrow> unat c = unat a + unat b"
proof
  assume "checked_add a b = Some c"
  then show "unat c = unat a + unat b" by (rule checked_add_Some)
next
  assume eq: "unat c = unat a + unat b"
  then have lt: "unat a + unat b < 2 ^ LENGTH('a)"
    by (metis unat_bound)
  then have "unat (a + b) = unat c"
    using eq by (simp add: unat_word_ariths)
  then have "a + b = c"
    by (simp add: word_unat_eq_iff)
  with lt show "checked_add a b = Some c"
    by (simp add: checked_add_def)
qed

lemma checked_sub_Some:
  fixes a b c :: "'a::len word"
  assumes "checked_sub a b = Some c"
  shows "unat a = unat c + unat b"
proof -
  from assms have "b \<le> a" and "c = a - b"
    by (auto simp: checked_sub_def split: if_splits)
  then show ?thesis
    by (simp add: unat_sub word_le_nat_alt)
qed

lemma checked_sub_None_iff: "checked_sub a b = None \<longleftrightarrow> a < b"
  by (auto simp: checked_sub_def)

lemma saturating_add_unat:
  fixes a b :: "'a::len word"
  shows "unat (saturating_add a b) = min (unat a + unat b) (2 ^ LENGTH('a) - 1)"
proof (cases "unat a + unat b < 2 ^ LENGTH('a)")
  case True
  then show ?thesis
    by (simp add: saturating_add_def unat_word_ariths min_absorb1)
next
  case False
  then show ?thesis
    by (simp add: saturating_add_def unsigned_minus_1_eq_mask mask_eq_exp_minus_1 min_absorb2)
qed

lemma saturating_sub_unat: "unat (saturating_sub a b) = unat a - unat b"
  by (simp add: saturating_sub_def unat_sub word_le_nat_alt)

lemma saturating_mul_unat:
  fixes a b :: "'a::len word"
  shows "unat (saturating_mul a b) = min (unat a * unat b) (2 ^ LENGTH('a) - 1)"
proof (cases "unat a * unat b < 2 ^ LENGTH('a)")
  case True
  then show ?thesis
    by (simp add: saturating_mul_def unat_word_ariths min_absorb1)
next
  case False
  then show ?thesis
    by (simp add: saturating_mul_def unsigned_minus_1_eq_mask mask_eq_exp_minus_1 min_absorb2)
qed

lemma try_from_nat_Some: "try_from_nat n = Some (w :: 'a::len word) \<Longrightarrow> unat w = n"
  by (auto simp: try_from_nat_def unat_of_nat_small split: if_splits)

section \<open>Big-endian integer encodings\<close>

fun to_be :: "nat \<Rightarrow> nat \<Rightarrow> bytes" where
  "to_be 0 v = []"
| "to_be (Suc n) v = to_be n (v div 256) @ [of_nat (v mod 256)]"

definition from_be :: "bytes \<Rightarrow> nat" where
  "from_be bs = foldl (\<lambda>a b. a * 256 + unat b) 0 bs"

text \<open>\<open>w.to_be_bytes()\<close> and \<open>uN::from_be_bytes\<close>.\<close>

definition be_bytes :: "'a::len word \<Rightarrow> bytes" where
  "be_bytes w = to_be (LENGTH('a) div 8) (unat w)"

definition be_word :: "bytes \<Rightarrow> 'a::len word" where
  "be_word bs = of_nat (from_be bs)"

lemma length_to_be [simp]: "length (to_be n v) = n"
  by (induction n arbitrary: v) auto

lemma from_be_Nil [simp]: "from_be [] = 0"
  by (simp add: from_be_def)

lemma from_be_snoc [simp]: "from_be (bs @ [b]) = from_be bs * 256 + unat b"
  by (simp add: from_be_def)

lemma from_be_to_be: "from_be (to_be n v) = v mod 256 ^ n"
proof (induction n arbitrary: v)
  case 0
  then show ?case by simp
next
  case (Suc n)
  have b: "unat (of_nat (v mod 256) :: u8) = v mod 256"
    by (simp add: unat_of_nat)
  have "v mod 256 ^ Suc n = 256 * ((v div 256) mod 256 ^ n) + v mod 256"
    by (metis mod_mult2_eq mult.commute power_Suc)
  with Suc b show ?case by (simp add: mult.commute)
qed

lemma from_be_less: "from_be bs < 256 ^ length bs"
proof (induction bs rule: rev_induct)
  case Nil
  then show ?case by simp
next
  case (snoc b bs)
  have "unat b < 256"
    by (rule unat_u8_bound)
  with snoc show ?case by simp
qed

lemma to_be_from_be: "to_be (length bs) (from_be bs) = bs"
proof (induction bs rule: rev_induct)
  case Nil
  then show ?case by simp
next
  case (snoc b bs)
  have "unat b < 256"
    by (rule unat_u8_bound)
  with snoc show ?case by simp
qed

lemma length_be_bytes [simp]: "length (be_bytes (w :: 'a::len word)) = LENGTH('a) div 8"
  by (simp add: be_bytes_def)

lemma be_bytes_eq_Nil_iff [simp]: "be_bytes (w :: 'a::len word) = [] \<longleftrightarrow> LENGTH('a) div 8 = 0"
  by (metis length_be_bytes length_0_conv)

lemma pow_256: "(256::nat) ^ n = 2 ^ (8 * n)"
  by (simp add: power_mult)

lemma be_word_be_bytes [simp]:
  fixes w :: "'a::len word"
  assumes "8 dvd LENGTH('a)"
  shows "be_word (be_bytes w) = w"
proof -
  from assms have "(256::nat) ^ (LENGTH('a) div 8) = 2 ^ LENGTH('a)"
    by (simp add: pow_256)
  then have "from_be (be_bytes w) = unat w"
    by (simp add: be_bytes_def from_be_to_be)
  then show ?thesis
    by (simp add: be_word_def)
qed

lemma be_bytes_be_word:
  assumes "8 dvd LENGTH('a::len)" and "length bs = LENGTH('a) div 8"
  shows "be_bytes (be_word bs :: 'a word) = bs"
proof -
  have "from_be bs < 2 ^ LENGTH('a)"
    using from_be_less [of bs] assms by (simp add: pow_256)
  then have "unat (be_word bs :: 'a word) = from_be bs"
    by (simp add: be_word_def unat_of_nat_small)
  with assms(2) show ?thesis
    by (metis be_bytes_def to_be_from_be)
qed

lemma be_bytes_inject [simp]:
  fixes v w :: "'a::len word"
  assumes "8 dvd LENGTH('a)"
  shows "be_bytes v = be_bytes w \<longleftrightarrow> v = w"
  using be_word_be_bytes [OF assms] by metis

section \<open>Fixed buffers\<close>

text \<open>
  \<open>buf[off..off + xs.len()].copy_from_slice(xs)\<close> on an array that is long enough, and
  \<open>field::<N>(bytes, off)\<close>.
\<close>

definition copy_at :: "nat \<Rightarrow> bytes \<Rightarrow> bytes \<Rightarrow> bytes" where
  "copy_at off xs buf = take off buf @ xs @ drop (off + length xs) buf"

definition field :: "nat \<Rightarrow> bytes \<Rightarrow> nat \<Rightarrow> bytes" where
  "field n b off = take n (drop off b)"

text \<open>A zeroed buffer that has been filled from the left up to \<open>p\<close>.\<close>

definition filled :: "bytes \<Rightarrow> nat \<Rightarrow> bytes" where
  "filled p k = p @ replicate k 0"

lemma replicate_filled: "replicate k 0 = filled [] k"
  by (simp add: filled_def)

lemma copy_at_filled:
  "off = length p \<Longrightarrow> length xs \<le> k \<Longrightarrow> copy_at off xs (filled p k) = filled (p @ xs) (k - length xs)"
  by (simp add: copy_at_def filled_def)

lemma filled_full: "filled p 0 = p"
  by (simp add: filled_def)

lemma length_field [simp]: "off + n \<le> length b \<Longrightarrow> length (field n b off) = n"
  by (simp add: field_def)

lemma field_skip: "length p \<le> off \<Longrightarrow> field n (p @ r) off = field n r (off - length p)"
  by (simp add: field_def)

lemma field_prefix: "length xs = n \<Longrightarrow> field n (xs @ r) 0 = xs"
  by (simp add: field_def)

lemma field_exact: "length xs = n \<Longrightarrow> field n xs 0 = xs"
  by (simp add: field_def)

lemmas fixed_buffer_simps = replicate_filled copy_at_filled filled_full

lemma field_skip_Cons: "0 < off \<Longrightarrow> field n (x # r) off = field n r (off - 1)"
  by (simp add: field_def drop_Cons')

lemmas field_simps_at = field_skip field_skip_Cons field_prefix field_exact

text \<open>Adjacent fields tile a buffer: read from the right, they join up to the whole of it.\<close>

lemma field_last: "length b = off + n \<Longrightarrow> field n b off = drop off b"
  by (simp add: field_def)

lemma field_drop: "k = off + n \<Longrightarrow> field n b off @ drop k b = drop off b"
  by (metis append_take_drop_id drop_drop add.commute field_def)

lemma nth_drop_join: "k = Suc i \<Longrightarrow> i < length b \<Longrightarrow> b ! i # drop k b = drop i b"
  by (simp add: Cons_nth_drop_Suc)

lemmas field_tile_simps = field_last field_drop nth_drop_join

section \<open>The byte cursor behind the decoders\<close>

text \<open>
  Each decoder of the program is a struct of the input slice and an offset. \<open>cur p q\<close> is the cursor
  that has consumed \<open>p\<close> and still has \<open>q\<close> ahead of it; every cursor the decoders build
  has this shape.
\<close>

record cursor =
  cbytes :: bytes
  at :: nat

definition cur :: "bytes \<Rightarrow> bytes \<Rightarrow> cursor" where
  "cur p q = \<lparr>cbytes = p @ q, at = length p\<rparr>"

definition start_cursor :: "bytes \<Rightarrow> cursor" where
  "start_cursor b = \<lparr>cbytes = b, at = 0\<rparr>"

text \<open>The slice read \<open>bytes.get(at..at + n)\<close>.\<close>

definition slice_read :: "nat \<Rightarrow> cursor \<Rightarrow> (bytes \<times> cursor) option" where
  "slice_read n d =
     (if at d + n \<le> length (cbytes d)
      then Some (take n (drop (at d) (cbytes d)), d\<lparr>at := at d + n\<rparr>) else None)"

definition finished :: "cursor \<Rightarrow> bool" where
  "finished d \<longleftrightarrow> at d = length (cbytes d)"

lemma start_cursor_cur: "start_cursor b = cur [] b"
  by (simp add: start_cursor_def cur_def)

lemma finished_cur [simp]: "finished (cur p q) \<longleftrightarrow> q = []"
  by (simp add: finished_def cur_def)

lemma at_cur [simp]: "at (cur p q) = length p"
  by (simp add: cur_def)

lemma cbytes_cur [simp]: "cbytes (cur p q) = p @ q"
  by (simp add: cur_def)

lemma cur_eq_iff [simp]: "cur p q = cur p' q' \<longleftrightarrow> p @ q = p' @ q' \<and> length p = length p'"
  by (simp add: cur_def)

lemma slice_read_cur:
  "slice_read n (cur p q) =
     (if n \<le> length q then Some (take n q, cur (p @ take n q) (drop n q)) else None)"
  by (auto simp: slice_read_def cur_def)

text \<open>\<open>usize\<close> arithmetic on a 64-bit target.\<close>

definition usize_limit :: nat where
  "usize_limit = 2 ^ 64"

definition usize_checked_add :: "nat \<Rightarrow> nat \<Rightarrow> nat option" where
  "usize_checked_add a b = (if a + b < usize_limit then Some (a + b) else None)"

text \<open>
  What a client of any decoder relies on: reading a prefix of known width returns it and moves
  past it, and a successful read consumed exactly what it returned.
\<close>

locale byte_reader =
  fixes rd :: "nat \<Rightarrow> cursor \<Rightarrow> 'e + bytes \<times> cursor"
  assumes rd_ok: "n \<le> length q \<Longrightarrow> length p + n < usize_limit \<Longrightarrow>
      rd n (cur p q) = Inr (take n q, cur (p @ take n q) (drop n q))"
    and rd_dest: "rd n (cur p q) = Inr (x, d) \<Longrightarrow>
      n \<le> length q \<and> x = take n q \<and> d = cur (p @ x) (drop n q)"
begin

lemma rd_prefix:
  assumes "length xs = n" and "length p + n < usize_limit"
  shows "rd n (cur p (xs @ rest)) = Inr (xs, cur (p @ xs) rest)"
  using rd_ok [of n "xs @ rest" p] assms by simp

lemma rd_all:
  assumes "length xs = n" and "length p + n < usize_limit"
  shows "rd n (cur p xs) = Inr (xs, cur (p @ xs) [])"
  using rd_prefix [of xs n p "[]"] assms by simp

lemma rd_cases:
  assumes "rd n (cur p q) = Inr (x, d)"
  obtains rest where "q = x @ rest" and "length x = n" and "d = cur (p @ x) rest"
proof
  show "q = x @ drop n q" and "length x = n" and "d = cur (p @ x) (drop n q)"
    using rd_dest [OF assms] by auto
qed

lemma rd_short: "length q < n \<Longrightarrow> \<exists>e. rd n (cur p q) = Inl e"
  using rd_dest [of n p q] by (cases "rd n (cur p q)") fastforce+

end

section \<open>Ordered maps\<close>

text \<open>
  \<open>BTreeMap\<close> as a strictly sorted association list: the order of iteration is the key order, which
  the snapshot encodings depend on.
\<close>

fun bm_insert :: "'k::linorder \<Rightarrow> 'v \<Rightarrow> ('k \<times> 'v) list \<Rightarrow> ('k \<times> 'v) list" where
  "bm_insert k v [] = [(k, v)]"
| "bm_insert k v ((k', v') # m) =
     (if k < k' then (k, v) # (k', v') # m
      else if k = k' then (k, v) # m
      else (k', v') # bm_insert k v m)"

definition bm_wf :: "('k::linorder \<times> 'v) list \<Rightarrow> bool" where
  "bm_wf m \<longleftrightarrow> sorted_wrt (<) (map fst m)"

lemma map_of_bm_insert: "map_of (bm_insert k v m) = (map_of m)(k \<mapsto> v)"
  by (induction m) (auto simp: fun_upd_twist split: if_splits)

lemma set_fst_bm_insert: "fst ` set (bm_insert k v m) = insert k (fst ` set m)"
  using arg_cong [OF map_of_bm_insert [of k v m], of dom]
  by (simp add: dom_map_of_conv_image_fst)

lemma bm_insert_last: "\<forall>x \<in> fst ` set m. x < k \<Longrightarrow> bm_insert k v m = m @ [(k, v)]"
  by (induction m) auto

lemma bm_wf_insert: "bm_wf m \<Longrightarrow> bm_wf (bm_insert k v m)"
proof (induction m)
  case Nil
  then show ?case by (simp add: bm_wf_def)
next
  case (Cons e m)
  obtain k' v' where e: "e = (k', v')" by (cases e)
  from Cons.prems e have m: "bm_wf m" and lt: "\<forall>x \<in> fst ` set m. k' < x"
    by (auto simp: bm_wf_def)
  from Cons.IH [OF m] have "sorted_wrt (<) (map fst (bm_insert k v m))"
    by (simp add: bm_wf_def)
  moreover have "\<forall>x \<in> fst ` set (bm_insert k v m). k' < x" if "k' < k"
    using lt that by (simp add: set_fst_bm_insert)
  ultimately show ?case
    using Cons.prems e lt by (auto simp: bm_wf_def)
qed

lemma bm_wf_distinct: "bm_wf m \<Longrightarrow> distinct (map fst m)"
  by (simp add: bm_wf_def strict_sorted_iff)

text \<open>The weight of a map is additive: an insertion replaces the old weight of its key.\<close>

definition bm_sum :: "('v \<Rightarrow> nat) \<Rightarrow> ('k \<times> 'v) list \<Rightarrow> nat" where
  "bm_sum f m = sum_list (map (f \<circ> snd) m)"

lemma bm_sum_simps [simp]:
  "bm_sum f [] = 0" "bm_sum f (e # m) = f (snd e) + bm_sum f m"
  by (simp_all add: bm_sum_def)

lemma bm_sum_insert:
  assumes "bm_wf m"
  shows "bm_sum f (bm_insert k v m) + (case map_of m k of None \<Rightarrow> 0 | Some w \<Rightarrow> f w)
       = bm_sum f m + f v"
  using assms
proof (induction m)
  case Nil
  then show ?case by simp
next
  case (Cons e m)
  obtain k' v' where e: "e = (k', v')" by (cases e)
  from Cons.prems e have m: "bm_wf m" and lt: "\<forall>x \<in> fst ` set m. k' < x"
    by (auto simp: bm_wf_def)
  have "map_of m k = None" if "k \<le> k'"
    using lt that by (auto simp: map_of_eq_None_iff)
  with Cons.IH [OF m] e show ?case
    by auto
qed

locale ordered_map =
  fixes get :: "'m \<Rightarrow> 'k \<Rightarrow> 'v option"
    and ins :: "'k \<Rightarrow> 'v \<Rightarrow> 'm \<Rightarrow> 'm"
    and ok_map :: "'m \<Rightarrow> bool"
    and weigh :: "('v \<Rightarrow> nat) \<Rightarrow> 'm \<Rightarrow> nat"
  assumes get_ins: "get (ins k v m) = (get m)(k \<mapsto> v)"
    and ok_ins: "ok_map m \<Longrightarrow> ok_map (ins k v m)"
    and weigh_ins: "ok_map m \<Longrightarrow>
      weigh f (ins k v m) + (case get m k of None \<Rightarrow> 0 | Some w \<Rightarrow> f w) = weigh f m + f v"
begin

text \<open>
  Two insertions at different keys move weight between them: this is the accounting argument
  behind every transfer.
\<close>

lemma weigh_replace:
  assumes "ok_map m" and "get m k = Some w"
  shows "weigh f (ins k v m) + f w = weigh f m + f v"
  using weigh_ins [OF assms(1), of f k v] assms(2) by simp

lemma weigh_two:
  assumes "ok_map m" and "k \<noteq> k'"
  shows "weigh f (ins k' v' (ins k v m))
           + (case get m k of None \<Rightarrow> 0 | Some w \<Rightarrow> f w)
           + (case get m k' of None \<Rightarrow> 0 | Some w \<Rightarrow> f w)
         = weigh f m + f v + f v'"
  using weigh_ins [OF assms(1), of f k v] weigh_ins [OF ok_ins [OF assms(1), of k v], of f k' v']
    assms(2) by (simp add: get_ins)

text \<open>Two different keys never weigh more than the whole map.\<close>

lemma weigh_two_le:
  assumes "ok_map m" and "k \<noteq> k'" and "f z = 0"
  shows "(case get m k of None \<Rightarrow> 0 | Some w \<Rightarrow> f w) + (case get m k' of None \<Rightarrow> 0 | Some w \<Rightarrow> f w)
    \<le> weigh f m"
  using weigh_two [OF assms(1,2), of f z z] assms(3) by simp

end

interpretation bm: ordered_map "map_of" bm_insert bm_wf bm_sum
  by unfold_locales (simp_all add: map_of_bm_insert bm_wf_insert bm_sum_insert)

section \<open>Codecs\<close>

text \<open>
  A canonical codec: decoding inverts encoding on well-formed values, and whatever decodes is the
  encoding of a well-formed value. The second law is what makes an encoding usable as an identity:
  no two byte strings decode to the same value.
\<close>

locale canonical_codec =
  fixes enc :: "'a \<Rightarrow> bytes"
    and dec :: "bytes \<Rightarrow> 'a option"
    and wf :: "'a \<Rightarrow> bool"
  assumes dec_enc: "wf x \<Longrightarrow> dec (enc x) = Some x"
    and enc_dec: "dec b = Some x \<Longrightarrow> wf x \<and> enc x = b"
begin

lemma enc_inj: "wf x \<Longrightarrow> wf y \<Longrightarrow> enc x = enc y \<Longrightarrow> x = y"
  using dec_enc by (metis option.inject)

lemma dec_inj: "dec b = Some x \<Longrightarrow> dec c = Some x \<Longrightarrow> b = c"
  using enc_dec by blast

lemma dec_Some_iff: "dec b = Some x \<longleftrightarrow> wf x \<and> enc x = b"
  using dec_enc enc_dec by blast

lemma dec_None_iff: "dec b = None \<longleftrightarrow> (\<forall>x. wf x \<longrightarrow> enc x \<noteq> b)"
  using dec_Some_iff by (metis not_Some_eq)

end

section \<open>Text\<close>

text \<open>Byte-string literals \<open>b"..."\<close> and string literals, as their UTF-8 bytes.\<close>

definition str :: "string \<Rightarrow> bytes" where
  "str s = map (\<lambda>c. of_nat (of_char c)) s"

lemma length_str [simp]: "length (str s) = length s"
  by (simp add: str_def)

definition utf8_cont :: "u8 \<Rightarrow> bool" where
  "utf8_cont b \<longleftrightarrow> 0x80 \<le> b \<and> b \<le> 0xBF"

text \<open>\<open>String::from_utf8\<close>: the well-formed sequences of the Unicode standard (no overlong forms,
  no surrogates, nothing above U+10FFFF).\<close>

fun utf8_valid :: "bytes \<Rightarrow> bool" where
  "utf8_valid [] = True"
| "utf8_valid (a # r) =
     (if a < 0x80 then utf8_valid r
      else if a < 0xC2 then False
      else if a < 0xE0 then
        (case r of b # r' \<Rightarrow> utf8_cont b \<and> utf8_valid r' | [] \<Rightarrow> False)
      else if a < 0xF0 then
        (case r of b # c # r' \<Rightarrow>
           (if a = 0xE0 then 0xA0 \<le> b \<and> b \<le> 0xBF
            else if a = 0xED then 0x80 \<le> b \<and> b \<le> 0x9F else utf8_cont b) \<and>
           utf8_cont c \<and> utf8_valid r' | _ \<Rightarrow> False)
      else if a < 0xF5 then
        (case r of b # c # d # r' \<Rightarrow>
           (if a = 0xF0 then 0x90 \<le> b \<and> b \<le> 0xBF
            else if a = 0xF4 then 0x80 \<le> b \<and> b \<le> 0x8F else utf8_cont b) \<and>
           utf8_cont c \<and> utf8_cont d \<and> utf8_valid r' | _ \<Rightarrow> False)
      else False)"

section \<open>Lists\<close>

text \<open>\<open>iter().find(p)\<close> with the element it returns.\<close>

lemma find_Some_D: "List.find p xs = Some x \<Longrightarrow> x \<in> set xs \<and> p x"
  by (auto simp: find_Some_iff)

text \<open>\<open>iter_mut().find(p)\<close> followed by an update in place: only the first match changes.\<close>

fun update_first :: "('a \<Rightarrow> bool) \<Rightarrow> ('a \<Rightarrow> 'a) \<Rightarrow> 'a list \<Rightarrow> 'a list" where
  "update_first p f [] = []"
| "update_first p f (x # xs) = (if p x then f x # xs else x # update_first p f xs)"

lemma length_update_first [simp]: "length (update_first p f xs) = length xs"
  by (induction xs) auto

lemma update_first_none: "\<forall>x \<in> set xs. \<not> p x \<Longrightarrow> update_first p f xs = xs"
  by (induction xs) auto

lemma map_update_first:
  "(\<And>x. g (f x) = g x) \<Longrightarrow> map g (update_first p f xs) = map g xs"
  by (induction xs) auto

lemma update_first_sum:
  fixes w :: "'a \<Rightarrow> nat"
  assumes "List.find p xs = Some x"
  shows "sum_list (map w (update_first p f xs)) + w x = sum_list (map w xs) + w (f x)"
  using assms by (induction xs) (auto split: if_splits)

lemma find_update_first:
  assumes "List.find p xs = Some x" and "p (f x)"
  shows "List.find p (update_first p f xs) = Some (f x)"
  using assms by (induction xs) (auto split: if_splits)

text \<open>Cutting concatenations apart at known widths.\<close>

lemma append_eq_split:
  "length a = length c \<Longrightarrow> a @ b = c @ d \<longleftrightarrow> a = c \<and> b = d"
  by (rule append_eq_append_conv) simp

end
