(* ===== verification/Block_Commitment.thy ===== *)
theory Block_Commitment
  imports Prelude
begin

text \<open>
  \<open>src/src/block_commitment.rs\<close>: the commitments and fixed-layout codecs that every block profile
  shares. Keccak-256 comes from a third-party package, so it is the parameter \<open>K\<close> of the
  definitions that hash; what the program relies on (32-byte digests, and collision resistance for
  identities) appears as a hypothesis where a property needs it.
\<close>

section \<open>Constants and hashes\<close>

definition BLOCK_HEADER_LEN :: nat where "BLOCK_HEADER_LEN = 229"
definition BLOCK_HEADER_DOMAIN :: bytes where "BLOCK_HEADER_DOMAIN = str ''ETERNIX_BLOCK_HEADER_V1''"
definition TX_LIST_DOMAIN :: bytes where "TX_LIST_DOMAIN = str ''ETERNIX_TX_LIST_V1''"
definition PROTOCOL_DATA_DOMAIN :: bytes where
  "PROTOCOL_DATA_DOMAIN = str ''ETERNIX_PROTOCOL_DATA_V1''"
definition RECEIPT_LIST_DOMAIN :: bytes where
  "RECEIPT_LIST_DOMAIN = str ''ETERNIX_RECEIPT_LIST_V1''"
definition PROPOSER_ID_DOMAIN :: bytes where "PROPOSER_ID_DOMAIN = str ''ETERNIX_PROPOSER_ID_V1''"
definition PLACEHOLDER_STATE_ROOT :: hash where "PLACEHOLDER_STATE_ROOT = replicate 32 0"

type_synonym hasher = "bytes \<Rightarrow> hash"

text \<open>The documented output width of Keccak-256.\<close>

definition digest32 :: "hasher \<Rightarrow> bool" where
  "digest32 K \<longleftrightarrow> (\<forall>b. length (K b) = 32)"

definition keccak256 :: "hasher \<Rightarrow> bytes \<Rightarrow> hash" where
  "keccak256 K b = K b"

definition hash_with_domain :: "hasher \<Rightarrow> bytes \<Rightarrow> bytes \<Rightarrow> hash" where
  "hash_with_domain K domain b = K (domain @ b)"

definition EMPTY_TX_ROOT :: "hasher \<Rightarrow> hash" where
  "EMPTY_TX_ROOT K = keccak256 K (TX_LIST_DOMAIN @ be_bytes (0 :: u64))"

definition EMPTY_RECEIPTS_ROOT :: "hasher \<Rightarrow> hash" where
  "EMPTY_RECEIPTS_ROOT K = keccak256 K (RECEIPT_LIST_DOMAIN @ be_bytes (0 :: u64))"

definition ordered_transaction_root :: "hasher \<Rightarrow> hash list \<Rightarrow> hash option" where
  "ordered_transaction_root K ids = do {
     count \<leftarrow> (try_from_nat (length ids) :: u64 option);
     Some (K (TX_LIST_DOMAIN @ be_bytes count @ concat ids)) }"

definition proposer_id :: "hasher \<Rightarrow> text_bytes \<Rightarrow> hash" where
  "proposer_id K p = hash_with_domain K PROPOSER_ID_DOMAIN (be_bytes (of_nat (length p) :: u64) @ p)"

section \<open>Block kinds\<close>

datatype block_kind = Validator | ProtocolMiss | ProtocolCollision | ProtocolNoTickets

fun consensus_code :: "block_kind \<Rightarrow> u8" where
  "consensus_code Validator = 0"
| "consensus_code ProtocolMiss = 1"
| "consensus_code ProtocolNoTickets = 2"
| "consensus_code ProtocolCollision = 3"

definition from_consensus_code :: "u8 \<Rightarrow> block_kind option" where
  "from_consensus_code c =
     (if c = 0 then Some Validator
      else if c = 1 then Some ProtocolMiss
      else if c = 2 then Some ProtocolNoTickets
      else if c = 3 then Some ProtocolCollision
      else None)"

lemma from_consensus_code_consensus_code [simp]: "from_consensus_code (consensus_code k) = Some k"
  by (cases k) (simp_all add: from_consensus_code_def)

lemma from_consensus_code_Some: "from_consensus_code c = Some k \<Longrightarrow> consensus_code k = c"
  by (auto simp: from_consensus_code_def split: if_splits)

section \<open>The decoder\<close>

definition bc_take :: "nat \<Rightarrow> cursor \<Rightarrow> (bytes \<times> cursor) option" where
  "bc_take n d = do { _ \<leftarrow> usize_checked_add (at d) n; slice_read n d }"

definition bc_u8 :: "cursor \<Rightarrow> (u8 \<times> cursor) option" where
  "bc_u8 d = do { (b, d) \<leftarrow> bc_take 1 d; Some (hd b, d) }"

definition bc_u32 :: "cursor \<Rightarrow> (u32 \<times> cursor) option" where
  "bc_u32 d = do { (b, d) \<leftarrow> bc_take 4 d; Some (be_word b, d) }"

definition bc_u64 :: "cursor \<Rightarrow> (u64 \<times> cursor) option" where
  "bc_u64 d = do { (b, d) \<leftarrow> bc_take 8 d; Some (be_word b, d) }"

interpretation bc: byte_reader "\<lambda>n d. ok_or () (bc_take n d)"
  by unfold_locales
    (auto simp: bc_take_def usize_checked_add_def slice_read_cur split: if_splits)

lemmas bc_take_prefix [codec_simps] = bc.rd_prefix [unfolded ok_or_Inr_iff]
lemmas bc_take_all [codec_simps] = bc.rd_all [unfolded ok_or_Inr_iff]
lemmas bc_take_cases = bc.rd_cases [unfolded ok_or_Inr_iff]

lemma bc_u8_prefix [codec_simps]:
  "length p + 1 < usize_limit \<Longrightarrow> bc_u8 (cur p (b # rest)) = Some (b, cur (p @ [b]) rest)"
  using bc_take_prefix [of "[b]" 1 p rest] by (simp add: bc_u8_def)

lemma bc_u32_prefix [codec_simps]:
  "length p + 4 < usize_limit \<Longrightarrow>
     bc_u32 (cur p (be_bytes w @ rest)) = Some (w, cur (p @ be_bytes w) rest)"
  by (simp add: bc_u32_def bc_take_prefix)

lemma bc_u64_prefix [codec_simps]:
  "length p + 8 < usize_limit \<Longrightarrow>
     bc_u64 (cur p (be_bytes w @ rest)) = Some (w, cur (p @ be_bytes w) rest)"
  by (simp add: bc_u64_def bc_take_prefix)

lemma bc_u8_cases:
  assumes "bc_u8 (cur p q) = Some (b, d)"
  obtains rest where "q = [b] @ rest" and "d = cur (p @ [b]) rest"
proof -
  from assms obtain x d' where t: "bc_take 1 (cur p q) = Some (x, d')" and b: "b = hd x" "d = d'"
    by (auto simp: bc_u8_def bind_eq_Some_conv)
  from t obtain rest where "q = x @ rest" "length x = 1" "d' = cur (p @ x) rest"
    by (rule bc_take_cases)
  with b that show thesis
    by (auto simp: length_Suc_conv)
qed

lemma bc_u32_cases:
  assumes "bc_u32 (cur p q) = Some (w, d)"
  obtains rest where "q = be_bytes w @ rest" and "d = cur (p @ be_bytes w) rest"
proof -
  from assms obtain x d' where t: "bc_take 4 (cur p q) = Some (x, d')" and w: "w = be_word x" "d = d'"
    by (auto simp: bc_u32_def bind_eq_Some_conv)
  from t obtain rest where "q = x @ rest" "length x = 4" "d' = cur (p @ x) rest"
    by (rule bc_take_cases)
  with w that show thesis
    by (simp add: be_bytes_be_word)
qed

lemma bc_u64_cases:
  assumes "bc_u64 (cur p q) = Some (w, d)"
  obtains rest where "q = be_bytes w @ rest" and "d = cur (p @ be_bytes w) rest"
proof -
  from assms obtain x d' where t: "bc_take 8 (cur p q) = Some (x, d')" and w: "w = be_word x" "d = d'"
    by (auto simp: bc_u64_def bind_eq_Some_conv)
  from t obtain rest where "q = x @ rest" "length x = 8" "d' = cur (p @ x) rest"
    by (rule bc_take_cases)
  with w that show thesis
    by (simp add: be_bytes_be_word)
qed

section \<open>Block headers\<close>

record block_header =
  bh_protocol_version :: u32
  bh_chain_id :: u64
  bh_slot :: u64
  bh_block_kind :: block_kind
  bh_parent_hash :: hash
  bh_proposer_id :: hash
  bh_ticket_id :: u64
  bh_transaction_root :: hash
  bh_state_root :: hash
  bh_receipts_root :: hash
  bh_gas_used :: u64
  bh_protocol_data_root :: hash

text \<open>The widths the Rust types carry.\<close>

definition header_wf :: "block_header \<Rightarrow> bool" where
  [wf_simps]: "header_wf h \<longleftrightarrow> length (bh_parent_hash h) = 32 \<and> length (bh_proposer_id h) = 32 \<and>
     length (bh_transaction_root h) = 32 \<and> length (bh_state_root h) = 32 \<and>
     length (bh_receipts_root h) = 32 \<and> length (bh_protocol_data_root h) = 32"

definition header_bytes :: "block_header \<Rightarrow> bytes" where
  "header_bytes h =
     be_bytes (bh_protocol_version h) @ be_bytes (bh_chain_id h) @ be_bytes (bh_slot h) @
     [consensus_code (bh_block_kind h)] @ bh_parent_hash h @ bh_proposer_id h @
     be_bytes (bh_ticket_id h) @ bh_transaction_root h @ bh_state_root h @ bh_receipts_root h @
     be_bytes (bh_gas_used h) @ bh_protocol_data_root h"

definition header_from_bytes :: "bytes \<Rightarrow> block_header option" where
  "header_from_bytes b =
     (if length b \<noteq> BLOCK_HEADER_LEN then None else do {
       (version, d) \<leftarrow> bc_u32 (start_cursor b);
       (chain, d) \<leftarrow> bc_u64 d;
       (slot, d) \<leftarrow> bc_u64 d;
       (code, d) \<leftarrow> bc_u8 d;
       kind \<leftarrow> from_consensus_code code;
       (parent, d) \<leftarrow> bc_take 32 d;
       (proposer, d) \<leftarrow> bc_take 32 d;
       (ticket, d) \<leftarrow> bc_u64 d;
       (txroot, d) \<leftarrow> bc_take 32 d;
       (stroot, d) \<leftarrow> bc_take 32 d;
       (rcroot, d) \<leftarrow> bc_take 32 d;
       (gas, d) \<leftarrow> bc_u64 d;
       (pdroot, d) \<leftarrow> bc_take 32 d;
       if finished d then Some \<lparr>bh_protocol_version = version, bh_chain_id = chain, bh_slot = slot,
         bh_block_kind = kind, bh_parent_hash = parent, bh_proposer_id = proposer,
         bh_ticket_id = ticket, bh_transaction_root = txroot, bh_state_root = stroot,
         bh_receipts_root = rcroot, bh_gas_used = gas, bh_protocol_data_root = pdroot\<rparr>
       else None })"

definition header_hash :: "hasher \<Rightarrow> block_header \<Rightarrow> hash" where
  "header_hash K h = hash_with_domain K BLOCK_HEADER_DOMAIN (header_bytes h)"

lemma length_header_bytes: "header_wf h \<Longrightarrow> length (header_bytes h) = BLOCK_HEADER_LEN"
  by (simp add: header_bytes_def wf_simps BLOCK_HEADER_LEN_def)

lemma header_dec_enc:
  assumes "header_wf h"
  shows "header_from_bytes (header_bytes h) = Some h"
  using assms length_header_bytes [OF assms]
  by (simp add: header_from_bytes_def header_bytes_def start_cursor_cur codec_simps wf_simps
      usize_limit_def)

lemma header_enc_dec:
  assumes "header_from_bytes b = Some h"
  shows "header_wf h \<and> header_bytes h = b"
  using assms unfolding header_from_bytes_def start_cursor_cur
  by (auto simp: bind_eq_Some_conv header_bytes_def wf_simps from_consensus_code_Some
      split: if_splits prod.splits
      elim!: bc_u32_cases bc_u64_cases bc_u8_cases bc_take_cases)

interpretation header_codec: canonical_codec header_bytes header_from_bytes header_wf
  by unfold_locales (simp_all add: header_dec_enc header_enc_dec)

section \<open>Protocol data\<close>

record protocol_data =
  pd_missed_proposer :: "text_bytes option"
  pd_fees_burned :: u64

definition protocol_data_empty :: protocol_data where
  "protocol_data_empty = \<lparr>pd_missed_proposer = None, pd_fees_burned = 0\<rparr>"

text \<open>
  The encoder converts the length of a missed proposer to \<open>u32\<close> and panics where it does not fit;
  \<open>protocol_data_wf\<close> is the domain where it returns (and where the text is a Rust string).
\<close>

definition protocol_data_wf :: "protocol_data \<Rightarrow> bool" where
  [wf_simps]: "protocol_data_wf pd \<longleftrightarrow> (case pd_missed_proposer pd of None \<Rightarrow> True
     | Some p \<Rightarrow> length p < 2 ^ 32 \<and> utf8_valid p)"

definition protocol_data_bytes :: "protocol_data \<Rightarrow> bytes" where
  "protocol_data_bytes pd = [1] @ be_bytes (pd_fees_burned pd) @
     (case pd_missed_proposer pd of
        Some p \<Rightarrow> [1] @ be_bytes (of_nat (length p) :: u32) @ p
      | None \<Rightarrow> [0])"

definition protocol_data_from_bytes :: "bytes \<Rightarrow> protocol_data option" where
  "protocol_data_from_bytes b = do {
     (version, d) \<leftarrow> bc_u8 (start_cursor b);
     if version \<noteq> 1 then None else do {
       (fees, d) \<leftarrow> bc_u64 d;
       (flag, d) \<leftarrow> bc_u8 d;
       (missed, d) \<leftarrow>
         (if flag = 0 then Some (None, d)
          else if flag = 1 then do {
            (len, d) \<leftarrow> bc_u32 d;
            (p, d) \<leftarrow> bc_take (unat len) d;
            if utf8_valid p then Some (Some p, d) else None }
          else None);
       if finished d then Some \<lparr>pd_missed_proposer = missed, pd_fees_burned = fees\<rparr> else None } }"

definition protocol_data_root :: "hasher \<Rightarrow> protocol_data \<Rightarrow> hash" where
  "protocol_data_root K pd = hash_with_domain K PROTOCOL_DATA_DOMAIN (protocol_data_bytes pd)"

definition EMPTY_PROTOCOL_DATA_ROOT :: "hasher \<Rightarrow> hash" where
  "EMPTY_PROTOCOL_DATA_ROOT K =
     hash_with_domain K PROTOCOL_DATA_DOMAIN (protocol_data_bytes protocol_data_empty)"

lemma protocol_data_dec_enc:
  assumes "protocol_data_wf pd"
  shows "protocol_data_from_bytes (protocol_data_bytes pd) = Some pd"
proof (cases "pd_missed_proposer pd")
  case None
  then show ?thesis
    by (simp add: protocol_data_from_bytes_def protocol_data_bytes_def start_cursor_cur codec_simps
        usize_limit_def)
next
  case (Some p)
  with assms have "length p < 2 ^ 32" and "utf8_valid p"
    by (simp_all add: wf_simps)
  then have "unat (of_nat (length p) :: u32) = length p"
    by (simp add: unat_of_nat_small)
  with Some \<open>length p < 2 ^ 32\<close> \<open>utf8_valid p\<close> show ?thesis
    by (simp add: protocol_data_from_bytes_def protocol_data_bytes_def start_cursor_cur codec_simps
        usize_limit_def)
qed

lemma protocol_data_enc_dec:
  assumes "protocol_data_from_bytes b = Some pd"
  shows "protocol_data_wf pd \<and> protocol_data_bytes pd = b"
  using assms unfolding protocol_data_from_bytes_def start_cursor_cur
  by (auto simp: bind_eq_Some_conv protocol_data_bytes_def wf_simps
      split: if_splits prod.splits
      elim!: bc_u32_cases bc_u64_cases bc_u8_cases bc_take_cases)
    (use unat_bound [where 'a = 32] in auto)

interpretation protocol_data_codec:
  canonical_codec protocol_data_bytes protocol_data_from_bytes protocol_data_wf
  by unfold_locales (simp_all add: protocol_data_dec_enc protocol_data_enc_dec)

lemma length_protocol_data_bytes:
  "length (protocol_data_bytes pd) = 10 + (case pd_missed_proposer pd of None \<Rightarrow> 0 | Some p \<Rightarrow> 4 + length p)"
  by (simp add: protocol_data_bytes_def split: option.splits)

end
