(* ===== verification/Native_Transaction.thy ===== *)
theory Native_Transaction
  imports Block_Commitment
begin

text \<open>
  \<open>src/src/native_transaction.rs\<close>: canonical bytes and user authentication of native transfers.
  The elliptic-curve backend (\<open>k256\<close>) and Keccak (\<open>sha3\<close>) are third-party packages; the record
  \<open>crypto\<close> collects the calls the program makes into them and is a parameter of the model. A
  \<open>Signature\<close> is its 64 compact bytes, a key is a value of an arbitrary type.
\<close>

section \<open>The cryptographic backend as a parameter\<close>

record 'k crypto =
  c_keccak :: hasher
  c_signature_from_slice :: "bytes \<Rightarrow> bool"           \<comment> \<open>\<open>Signature::from_slice(..).is_ok()\<close>\<close>
  c_normalize_s :: "bytes \<Rightarrow> bool"                     \<comment> \<open>\<open>normalize_s().is_some()\<close>: the signature is high-s\<close>
  c_recover_from_prehash :: "hash \<Rightarrow> bytes \<Rightarrow> u8 \<Rightarrow> 'k option"
  c_to_encoded_point :: "'k \<Rightarrow> bool \<Rightarrow> bytes"        \<comment> \<open>the flag asks for the compressed form\<close>
  c_from_sec1_bytes :: "bytes \<Rightarrow> 'k option"

text \<open>Documented widths: a digest has 32 bytes, SEC1 points have 65 or 33.\<close>

definition crypto_widths :: "'k crypto \<Rightarrow> bool" where
  "crypto_widths C \<longleftrightarrow> digest32 (c_keccak C) \<and>
     (\<forall>k. length (c_to_encoded_point C k False) = 65 \<and> length (c_to_encoded_point C k True) = 33)"

section \<open>Constants\<close>

definition ENCODING_VERSION :: u8 where "ENCODING_VERSION = 2"
definition NATIVE_RULES_VERSION :: u32 where "NATIVE_RULES_VERSION = 1"
definition TRANSFER_KIND :: u8 where "TRANSFER_KIND = 0"
definition ETX_TOKEN_ID :: u64 where "ETX_TOKEN_ID = 0"
definition INTRINSIC_GAS :: u64 where "INTRINSIC_GAS = 1000"
definition GAS_PRICE_QUARKS :: u64 where "GAS_PRICE_QUARKS = 10"
definition TRANSFER_FEE_QUARKS :: u64 where "TRANSFER_FEE_QUARKS = 10000"
definition UNSIGNED_LEN :: nat where "UNSIGNED_LEN = 134"
definition SIGNATURE_LEN :: nat where "SIGNATURE_LEN = 65"
definition SIGNED_LEN :: nat where "SIGNED_LEN = UNSIGNED_LEN + SIGNATURE_LEN"
definition SIGNING_DOMAIN :: bytes where
  "SIGNING_DOMAIN = [0x19] @ str ''ETERNIX'' @ [0] @ str ''NATIVE_TX_SIGN'' @ [0]"
definition ID_DOMAIN :: bytes where
  "ID_DOMAIN = [0x19] @ str ''ETERNIX'' @ [0] @ str ''NATIVE_TX_ID'' @ [0]"
definition SIGNING_PREIMAGE_LEN :: nat where
  "SIGNING_PREIMAGE_LEN = length SIGNING_DOMAIN + UNSIGNED_LEN"

lemmas native_lens = UNSIGNED_LEN_def SIGNATURE_LEN_def SIGNED_LEN_def SIGNING_PREIMAGE_LEN_def

datatype tx_error =
    InvalidLength (expected: nat) (actual: nat)
  | UnsupportedEncoding u8
  | UnsupportedKind u8
  | UnsupportedRules u32
  | RulesMismatch
  | ChainMismatch
  | NetworkMismatch
  | GasBelowIntrinsic u64
  | NonceExhausted
  | UnsupportedToken u64
  | InvalidParity u8
  | InvalidScalar
  | HighS
  | RecoveryFailed
  | SenderMismatch
  | ClaimedIdMismatch
  | SigningFailed

section \<open>Authentication context\<close>

record auth_context =
  ac_chain_id :: u64
  ac_network_id :: hash
  ac_native_rules_version :: u32

definition auth_context_new :: "u64 \<Rightarrow> hash \<Rightarrow> u32 \<Rightarrow> tx_error + auth_context" where
  "auth_context_new chain network rules =
     (if rules \<noteq> NATIVE_RULES_VERSION then Inl (UnsupportedRules rules)
      else Inr \<lparr>ac_chain_id = chain, ac_network_id = network, ac_native_rules_version = rules\<rparr>)"

definition network_id_from_genesis_bytes :: "'k crypto \<Rightarrow> bytes \<Rightarrow> hash" where
  "network_id_from_genesis_bytes C b = c_keccak C b"

section \<open>Unsigned transactions\<close>

record unsigned_tx =
  ut_encoding_version :: u8
  ut_native_rules_version :: u32
  ut_chain_id :: u64
  ut_network_id :: hash
  ut_kind :: u8
  ut_sender :: address
  ut_nonce :: u64
  ut_recipient :: address
  ut_token_id :: u64
  ut_value :: u128
  ut_gas_limit :: u64
  ut_valid_after_slot :: u64

text \<open>The widths of the Rust array types.\<close>

definition unsigned_widths :: "unsigned_tx \<Rightarrow> bool" where
  "unsigned_widths t \<longleftrightarrow> length (ut_network_id t) = 32 \<and> length (ut_sender t) = 20 \<and>
     length (ut_recipient t) = 20"

definition validate_layout :: "unsigned_tx \<Rightarrow> tx_error + unit" where
  "validate_layout t =
     (if ut_encoding_version t \<noteq> ENCODING_VERSION
        then Inl (UnsupportedEncoding (ut_encoding_version t))
      else if ut_kind t \<noteq> TRANSFER_KIND then Inl (UnsupportedKind (ut_kind t))
      else Inr ())"

definition validate_profile :: "unsigned_tx \<Rightarrow> auth_context \<Rightarrow> tx_error + unit" where
  "validate_profile t ctx =
     try_res (validate_layout t) (\<lambda>_.
       if ut_native_rules_version t \<noteq> ac_native_rules_version ctx then Inl RulesMismatch
       else if ut_chain_id t \<noteq> ac_chain_id ctx then Inl ChainMismatch
       else if ut_network_id t \<noteq> ac_network_id ctx then Inl NetworkMismatch
       else if ut_gas_limit t < INTRINSIC_GAS then Inl (GasBelowIntrinsic (ut_gas_limit t))
       else if ut_nonce t = - 1 then Inl NonceExhausted
       else if ut_token_id t \<noteq> ETX_TOKEN_ID then Inl (UnsupportedToken (ut_token_id t))
       else Inr ())"

definition require_length :: "bytes \<Rightarrow> nat \<Rightarrow> tx_error + unit" where
  "require_length b n = (if length b \<noteq> n then Inl (InvalidLength n (length b)) else Inr ())"

definition unsigned_bytes :: "unsigned_tx \<Rightarrow> tx_error + bytes" where
  "unsigned_bytes t =
     try_res (validate_layout t) (\<lambda>_. Inr (
       let b = replicate UNSIGNED_LEN 0;
           b = copy_at 0 [ut_encoding_version t] b;
           b = copy_at 1 (be_bytes (ut_native_rules_version t)) b;
           b = copy_at 5 (be_bytes (ut_chain_id t)) b;
           b = copy_at 13 (ut_network_id t) b;
           b = copy_at 45 [ut_kind t] b;
           b = copy_at 46 (ut_sender t) b;
           b = copy_at 66 (be_bytes (ut_nonce t)) b;
           b = copy_at 74 (ut_recipient t) b;
           b = copy_at 94 (be_bytes (ut_token_id t)) b;
           b = copy_at 102 (be_bytes (ut_value t)) b;
           b = copy_at 118 (be_bytes (ut_gas_limit t)) b;
           b = copy_at 126 (be_bytes (ut_valid_after_slot t)) b
       in b))"

definition unsigned_from_bytes :: "bytes \<Rightarrow> tx_error + unsigned_tx" where
  "unsigned_from_bytes b =
     try_res (require_length b UNSIGNED_LEN) (\<lambda>_.
       let t = \<lparr>ut_encoding_version = b ! 0,
                ut_native_rules_version = be_word (field 4 b 1),
                ut_chain_id = be_word (field 8 b 5),
                ut_network_id = field 32 b 13,
                ut_kind = b ! 45,
                ut_sender = field 20 b 46,
                ut_nonce = be_word (field 8 b 66),
                ut_recipient = field 20 b 74,
                ut_token_id = be_word (field 8 b 94),
                ut_value = be_word (field 16 b 102),
                ut_gas_limit = be_word (field 8 b 118),
                ut_valid_after_slot = be_word (field 8 b 126)\<rparr>
       in try_res (validate_layout t) (\<lambda>_. Inr t))"

definition signing_preimage :: "unsigned_tx \<Rightarrow> tx_error + bytes" where
  "signing_preimage t = try_res (unsigned_bytes t) (\<lambda>u. Inr (
     let b = replicate SIGNING_PREIMAGE_LEN 0;
         b = copy_at 0 SIGNING_DOMAIN b;
         b = copy_at (length SIGNING_DOMAIN) u b
     in b))"

definition signing_digest :: "'k crypto \<Rightarrow> unsigned_tx \<Rightarrow> tx_error + hash" where
  "signing_digest C t = try_res (signing_preimage t) (\<lambda>p. Inr (c_keccak C p))"

subsection \<open>The layout tiles the buffer\<close>

text \<open>The fields in wire order; \<open>unsigned_bytes\<close> writes exactly this.\<close>

definition unsigned_concat :: "unsigned_tx \<Rightarrow> bytes" where
  "unsigned_concat t = [ut_encoding_version t] @ be_bytes (ut_native_rules_version t) @
     be_bytes (ut_chain_id t) @ ut_network_id t @ [ut_kind t] @ ut_sender t @
     be_bytes (ut_nonce t) @ ut_recipient t @ be_bytes (ut_token_id t) @ be_bytes (ut_value t) @
     be_bytes (ut_gas_limit t) @ be_bytes (ut_valid_after_slot t)"

lemma length_unsigned_concat: "unsigned_widths t \<Longrightarrow> length (unsigned_concat t) = UNSIGNED_LEN"
  by (simp add: unsigned_concat_def unsigned_widths_def native_lens)

lemma unsigned_bytes_layout:
  assumes "unsigned_widths t"
  shows "unsigned_bytes t = try_res (validate_layout t) (\<lambda>_. Inr (unsigned_concat t))"
  using assms
  by (simp add: unsigned_bytes_def unsigned_widths_def unsigned_concat_def native_lens
      fixed_buffer_simps)

lemma validate_layout_Inr_iff:
  "validate_layout t = Inr u \<longleftrightarrow> ut_encoding_version t = ENCODING_VERSION \<and> ut_kind t = TRANSFER_KIND"
  by (auto simp: validate_layout_def)

lemma unsigned_dec_concat:
  assumes "unsigned_widths t"
  shows "unsigned_from_bytes (unsigned_concat t) = try_res (validate_layout t) (\<lambda>_. Inr t)"
  using assms length_unsigned_concat [OF assms]
  by (cases t) (simp add: unsigned_from_bytes_def require_length_def unsigned_concat_def
      unsigned_widths_def native_lens field_simps_at nth_append Let_def)

definition unsigned_wf :: "unsigned_tx \<Rightarrow> bool" where
  "unsigned_wf t \<longleftrightarrow> unsigned_widths t \<and> ut_encoding_version t = ENCODING_VERSION \<and>
     ut_kind t = TRANSFER_KIND"

lemma unsigned_concat_dec:
  assumes "unsigned_from_bytes b = Inr t"
  shows "unsigned_wf t \<and> unsigned_concat t = b"
proof -
  from assms have len: "length b = 134"
    by (simp add: unsigned_from_bytes_def require_length_def native_lens split: if_splits)
  with assms have t: "t = \<lparr>ut_encoding_version = b ! 0,
      ut_native_rules_version = be_word (field 4 b 1), ut_chain_id = be_word (field 8 b 5),
      ut_network_id = field 32 b 13, ut_kind = b ! 45, ut_sender = field 20 b 46,
      ut_nonce = be_word (field 8 b 66), ut_recipient = field 20 b 74,
      ut_token_id = be_word (field 8 b 94), ut_value = be_word (field 16 b 102),
      ut_gas_limit = be_word (field 8 b 118), ut_valid_after_slot = be_word (field 8 b 126)\<rparr>"
    and lay: "validate_layout t = Inr ()"
    by (auto simp: unsigned_from_bytes_def require_length_def native_lens try_res_Inr_iff Let_def)
  have "unsigned_concat t = drop 0 b"
    using len by (simp add: t unsigned_concat_def be_bytes_be_word field_tile_simps
        del: drop0)
  moreover have "unsigned_widths t"
    using len by (simp add: t unsigned_widths_def)
  ultimately show ?thesis
    using lay by (simp add: unsigned_wf_def validate_layout_Inr_iff)
qed

text \<open>
  The codec of \<open>UnsignedTransaction\<close> is canonical. \<open>unsigned_bytes\<close> can fail, so the
  interpretation uses the bytes it returns on well-formed values.
\<close>

lemma unsigned_bytes_wf: "unsigned_wf t \<Longrightarrow> unsigned_bytes t = Inr (unsigned_concat t)"
  by (simp add: unsigned_wf_def unsigned_bytes_layout validate_layout_def)

interpretation unsigned_codec:
  canonical_codec unsigned_concat "\<lambda>b. ok (unsigned_from_bytes b)" unsigned_wf
proof
  show "ok (unsigned_from_bytes (unsigned_concat t)) = Some t" if "unsigned_wf t" for t
    using that by (simp add: unsigned_dec_concat unsigned_wf_def validate_layout_def)
  show "unsigned_wf t \<and> unsigned_concat t = b" if "ok (unsigned_from_bytes b) = Some t" for b t
    using that by (simp add: unsigned_concat_dec)
qed

lemma signing_preimage_wf:
  assumes "unsigned_wf t"
  shows "signing_preimage t = Inr (SIGNING_DOMAIN @ unsigned_concat t)"
proof -
  have "length (unsigned_concat t) = 134"
    using assms length_unsigned_concat by (simp add: unsigned_wf_def native_lens)
  then show ?thesis
    by (simp add: signing_preimage_def unsigned_bytes_wf [OF assms] native_lens fixed_buffer_simps)
qed

section \<open>Signatures\<close>

text \<open>A canonical compact signature: the 65 bytes \<open>r || s || y_parity\<close>.\<close>

type_synonym native_signature = bytes

definition signature_from_bytes :: "'k crypto \<Rightarrow> bytes \<Rightarrow> tx_error + native_signature" where
  "signature_from_bytes C b =
     try_res (require_length b SIGNATURE_LEN) (\<lambda>_.
       if b ! 64 > 1 then Inl (InvalidParity (b ! 64))
       else if \<not> c_signature_from_slice C (take 64 b) then Inl InvalidScalar
       else if c_normalize_s C (take 64 b) then Inl HighS
       else Inr (field 65 b 0))"

text \<open>
  \<open>RecoveryId::from_byte\<close> accepts 0 to 3; the scalar check is repeated as in the source.
\<close>

definition recover_public_key :: "'k crypto \<Rightarrow> native_signature \<Rightarrow> hash \<Rightarrow> tx_error + 'k" where
  "recover_public_key C s digest =
     (if \<not> c_signature_from_slice C (take 64 s) then Inl InvalidScalar
      else if s ! 64 > 3 then Inl (InvalidParity (s ! 64))
      else ok_or RecoveryFailed (c_recover_from_prehash C digest (take 64 s) (s ! 64)))"

definition signature_wf :: "'k crypto \<Rightarrow> native_signature \<Rightarrow> bool" where
  "signature_wf C s \<longleftrightarrow> length s = SIGNATURE_LEN \<and> s ! 64 \<le> 1 \<and>
     c_signature_from_slice C (take 64 s) \<and> \<not> c_normalize_s C (take 64 s)"

lemma signature_from_bytes_Inr_iff: "signature_from_bytes C b = Inr s \<longleftrightarrow> s = b \<and> signature_wf C b"
  by (auto simp: signature_from_bytes_def signature_wf_def require_length_def native_lens
      field_exact not_less split: if_splits)

lemma signature_from_bytes_wf [simp]: "signature_wf C b \<Longrightarrow> signature_from_bytes C b = Inr b"
  by (simp add: signature_from_bytes_Inr_iff)

section \<open>Signed transactions\<close>

record signed_tx =
  st_unsigned :: unsigned_tx
  st_signature :: native_signature

definition signed_from_parts :: "unsigned_tx \<Rightarrow> native_signature \<Rightarrow> tx_error + signed_tx" where
  "signed_from_parts u s =
     try_res (validate_layout u) (\<lambda>_. Inr \<lparr>st_unsigned = u, st_signature = s\<rparr>)"

definition signed_bytes :: "signed_tx \<Rightarrow> tx_error + bytes" where
  "signed_bytes t = try_res (unsigned_bytes (st_unsigned t)) (\<lambda>u. Inr (
     let b = replicate SIGNED_LEN 0;
         b = copy_at 0 u b;
         b = copy_at UNSIGNED_LEN (st_signature t) b
     in b))"

definition signed_from_bytes :: "'k crypto \<Rightarrow> bytes \<Rightarrow> tx_error + signed_tx" where
  "signed_from_bytes C b =
     try_res (require_length b SIGNED_LEN) (\<lambda>_.
     try_res (unsigned_from_bytes (take UNSIGNED_LEN b)) (\<lambda>u.
     try_res (signature_from_bytes C (drop UNSIGNED_LEN b)) (\<lambda>s.
       signed_from_parts u s)))"

definition transaction_id :: "'k crypto \<Rightarrow> signed_tx \<Rightarrow> tx_error + hash" where
  "transaction_id C t = try_res (signed_bytes t) (\<lambda>b. Inr (c_keccak C (ID_DOMAIN @ b)))"

definition signed_concat :: "signed_tx \<Rightarrow> bytes" where
  "signed_concat t = unsigned_concat (st_unsigned t) @ st_signature t"

definition signed_wf :: "'k crypto \<Rightarrow> signed_tx \<Rightarrow> bool" where
  "signed_wf C t \<longleftrightarrow> unsigned_wf (st_unsigned t) \<and> signature_wf C (st_signature t)"

lemma signed_bytes_wf:
  assumes "signed_wf C t"
  shows "signed_bytes t = Inr (signed_concat t)"
proof -
  have "length (unsigned_concat (st_unsigned t)) = 134" and "length (st_signature t) = 65"
    using assms length_unsigned_concat
    by (simp_all add: signed_wf_def signature_wf_def unsigned_wf_def native_lens)
  then show ?thesis
    using assms
    by (simp add: signed_wf_def signed_bytes_def unsigned_bytes_wf native_lens fixed_buffer_simps
        signed_concat_def)
qed

lemma signed_dec_enc:
  assumes "signed_wf C t"
  shows "signed_from_bytes C (signed_concat t) = Inr t"
proof -
  have "length (unsigned_concat (st_unsigned t)) = 134" and "length (st_signature t) = 65"
    using assms length_unsigned_concat
    by (simp_all add: signed_wf_def signature_wf_def unsigned_wf_def native_lens)
  then show ?thesis
    using assms
    by (simp add: signed_wf_def signed_from_bytes_def signed_concat_def require_length_def native_lens
        unsigned_dec_concat unsigned_wf_def validate_layout_def signed_from_parts_def)
qed

lemma signed_enc_dec:
  assumes "signed_from_bytes C b = Inr t"
  shows "signed_wf C t \<and> signed_concat t = b"
proof -
  from assms obtain u s where u: "unsigned_from_bytes (take UNSIGNED_LEN b) = Inr u"
    and s: "signature_from_bytes C (drop UNSIGNED_LEN b) = Inr s"
    and t: "t = \<lparr>st_unsigned = u, st_signature = s\<rparr>"
    by (auto simp: signed_from_bytes_def signed_from_parts_def try_res_Inr_iff)
  from unsigned_concat_dec [OF u] s show ?thesis
    by (simp add: t signed_wf_def signed_concat_def signature_from_bytes_Inr_iff)
qed

interpretation signed_codec:
  canonical_codec signed_concat "\<lambda>b. ok (signed_from_bytes C b)" "signed_wf C" for C :: "'k crypto"
  by unfold_locales (simp_all add: signed_dec_enc signed_enc_dec)

section \<open>Authentication\<close>

record authenticated_tx =
  at_transaction :: signed_tx
  at_transaction_id :: hash
  at_signing_digest :: hash
  at_public_key :: bytes

definition address_from_public_key :: "'k crypto \<Rightarrow> 'k \<Rightarrow> address" where
  "address_from_public_key C key = field 20 (c_keccak C (tl (c_to_encoded_point C key False))) 12"

definition authenticate ::
  "'k crypto \<Rightarrow> bytes \<Rightarrow> auth_context \<Rightarrow> hash option \<Rightarrow> tx_error + authenticated_tx" where
  "authenticate C b ctx claimed_id =
     try_res (signed_from_bytes C b) (\<lambda>t.
     try_res (validate_profile (st_unsigned t) ctx) (\<lambda>_.
     try_res (transaction_id C t) (\<lambda>i.
     if (case claimed_id of None \<Rightarrow> False | Some claimed \<Rightarrow> claimed \<noteq> i) then Inl ClaimedIdMismatch
     else try_res (signing_digest C (st_unsigned t)) (\<lambda>digest.
     try_res (recover_public_key C (st_signature t) digest) (\<lambda>key.
     if address_from_public_key C key \<noteq> ut_sender (st_unsigned t) then Inl SenderMismatch
     else Inr \<lparr>at_transaction = t, at_transaction_id = i, at_signing_digest = digest,
               at_public_key = field 65 (c_to_encoded_point C key False) 0\<rparr>)))))"

lemma transaction_id_wf:
  "signed_wf C t \<Longrightarrow> transaction_id C t = Inr (c_keccak C (ID_DOMAIN @ signed_concat t))"
  by (simp add: transaction_id_def signed_bytes_wf)

lemma signing_digest_wf:
  "unsigned_wf t \<Longrightarrow> signing_digest C t = Inr (c_keccak C (SIGNING_DOMAIN @ unsigned_concat t))"
  by (simp add: signing_digest_def signing_preimage_wf)

lemma recover_public_key_wf:
  "signature_wf C s \<Longrightarrow> recover_public_key C s d =
     ok_or RecoveryFailed (c_recover_from_prehash C d (take 64 s) (s ! 64))"
  by (auto simp: recover_public_key_def signature_wf_def word_le_nat_alt word_less_nat_alt)

text \<open>The two hashes of a decoded transaction, over the received bytes.\<close>

lemma decoded_hashes:
  assumes "signed_from_bytes C b = Inr t"
  shows "transaction_id C t = Inr (c_keccak C (ID_DOMAIN @ b))"
    and "signing_digest C (st_unsigned t) = Inr (c_keccak C (SIGNING_DOMAIN @ take UNSIGNED_LEN b))"
    and "st_signature t = drop UNSIGNED_LEN b" and "signature_wf C (st_signature t)"
    and "length b = SIGNED_LEN"
proof -
  from signed_enc_dec [OF assms] have wf: "signed_wf C t" and b: "signed_concat t = b"
    by auto
  from wf have u: "unsigned_wf (st_unsigned t)" and s: "signature_wf C (st_signature t)"
    by (auto simp: signed_wf_def)
  have lu: "length (unsigned_concat (st_unsigned t)) = UNSIGNED_LEN"
    using u length_unsigned_concat by (simp add: unsigned_wf_def)
  show "transaction_id C t = Inr (c_keccak C (ID_DOMAIN @ b))"
    using transaction_id_wf [OF wf] b by simp
  show "signing_digest C (st_unsigned t) = Inr (c_keccak C (SIGNING_DOMAIN @ take UNSIGNED_LEN b))"
    using signing_digest_wf [OF u] b lu by (auto simp: signed_concat_def)
  show "st_signature t = drop UNSIGNED_LEN b"
    using b lu by (auto simp: signed_concat_def)
  show "signature_wf C (st_signature t)" by (rule s)
  show "length b = SIGNED_LEN"
    using b lu s by (auto simp: signed_concat_def signature_wf_def native_lens)
qed

text \<open>Everything the profile check asks of a transaction.\<close>

lemma validate_profile_Inr_iff:
  "validate_profile t ctx = Inr u \<longleftrightarrow> ut_encoding_version t = ENCODING_VERSION \<and> ut_kind t = TRANSFER_KIND \<and>
     ut_native_rules_version t = ac_native_rules_version ctx \<and> ut_chain_id t = ac_chain_id ctx \<and>
     ut_network_id t = ac_network_id ctx \<and> INTRINSIC_GAS \<le> ut_gas_limit t \<and> ut_nonce t \<noteq> - 1 \<and>
     ut_token_id t = ETX_TOKEN_ID"
  by (auto simp: validate_profile_def try_res_Inr_iff validate_layout_Inr_iff not_less)

text \<open>Acceptance of bytes that decode, over the received bytes.\<close>

lemma authenticate_decoded:
  assumes "signed_from_bytes C b = Inr t"
  shows "authenticate C b ctx claimed = Inr a \<longleftrightarrow>
     validate_profile (st_unsigned t) ctx = Inr () \<and>
     claimed \<in> {None, Some (c_keccak C (ID_DOMAIN @ b))} \<and>
     (\<exists>key.
        c_recover_from_prehash C (c_keccak C (SIGNING_DOMAIN @ take 134 b)) (field 64 b 134) (b ! 198)
          = Some key \<and>
        address_from_public_key C key = ut_sender (st_unsigned t) \<and>
        a = \<lparr>at_transaction = t, at_transaction_id = c_keccak C (ID_DOMAIN @ b),
             at_signing_digest = c_keccak C (SIGNING_DOMAIN @ take 134 b),
             at_public_key = field 65 (c_to_encoded_point C key False) 0\<rparr>)"
  using assms decoded_hashes [OF assms] signed_enc_dec [OF assms]
  by (auto simp: authenticate_def try_res_Inr_iff recover_public_key_wf native_lens field_def
      split: option.splits if_splits)

section \<open>Signing\<close>

text \<open>
  The backend's attempts are a parameter: \<open>candidate n\<close> is what the closure of \<open>sign\<close> returns on its
  call number \<open>n\<close> (call 0 is deterministic RFC 6979, later calls draw fresh entropy). The loop ends
  when an attempt has a recovery id without the x-overflow bit; \<open>None\<close> means it never ends.
\<close>

partial_function (option) sign_with_retry ::
  "'k crypto \<Rightarrow> (nat \<Rightarrow> tx_error + bytes \<times> u8) \<Rightarrow> nat \<Rightarrow> (tx_error + native_signature) option" where
  "sign_with_retry C candidate n =
     (case candidate n of
        Inl e \<Rightarrow> Some (Inl e)
      | Inr (signature, i) \<Rightarrow>
          if bit i 1 then sign_with_retry C candidate (Suc n)
          else Some (signature_from_bytes C
                 (let b = replicate SIGNATURE_LEN 0;
                      b = copy_at 0 signature b;
                      b = copy_at 64 [i] b
                  in b)))"

definition sign ::
  "'k crypto \<Rightarrow> unsigned_tx \<Rightarrow> 'k \<Rightarrow> (hash \<Rightarrow> nat \<Rightarrow> tx_error + bytes \<times> u8) \<Rightarrow> auth_context \<Rightarrow>
   (tx_error + signed_tx) option" where
  "sign C u verifying_key candidate ctx =
     (case validate_profile u ctx of Inl e \<Rightarrow> Some (Inl e) | Inr _ \<Rightarrow>
      if address_from_public_key C verifying_key \<noteq> ut_sender u then Some (Inl SenderMismatch)
      else case signing_digest C u of Inl e \<Rightarrow> Some (Inl e) | Inr digest \<Rightarrow>
        map_option (\<lambda>r. try_res r (\<lambda>s. signed_from_parts u s))
          (sign_with_retry C (candidate digest) 0))"

text \<open>The retry loop returns as soon as some attempt is usable.\<close>

lemma sign_with_retry_returns:
  assumes "\<And>k. m \<le> k \<Longrightarrow> k < n \<Longrightarrow> \<exists>s i. candidate k = Inr (s, i) \<and> bit i 1"
    and "candidate n = Inr (s, i)" and "\<not> bit i 1" and "m \<le> n" and "length s = 64"
  shows "sign_with_retry C candidate m = Some (signature_from_bytes C (s @ [i]))"
  using assms(4,1)
proof (induction "n - m" arbitrary: m)
  case 0
  then have "m = n" by simp
  with assms(2,3,5) show ?case
    by (subst sign_with_retry.simps) (simp add: native_lens fixed_buffer_simps)
next
  case (Suc j)
  then have "m < n" by simp
  with Suc.prems(2) obtain s' i' where c: "candidate m = Inr (s', i')" and b: "bit i' 1"
    by blast
  have "sign_with_retry C candidate (Suc m) = Some (signature_from_bytes C (s @ [i]))"
    using Suc.hyps(1) [of "Suc m"] Suc.hyps(2) Suc.prems \<open>m < n\<close> by simp
  with c b show ?case
    by (subst sign_with_retry.simps) simp
qed

section \<open>Properties\<close>

subsection \<open>A concrete backend for the witnesses\<close>

text \<open>
  The digest of \<open>b\<close> is its first 32 bytes (zero-padded) and every signature recovers to one key,
  the point of 65 bytes 7, whose address is therefore 20 bytes 7.
\<close>

definition demo_crypto :: "bytes crypto" where
  "demo_crypto = \<lparr>c_keccak = (\<lambda>b. take 32 (b @ replicate 32 0)),
     c_signature_from_slice = (\<lambda>s. length s = 64),
     c_normalize_s = (\<lambda>_. False),
     c_recover_from_prehash = (\<lambda>_ _ _. Some (replicate 65 7)),
     c_to_encoded_point = (\<lambda>k compressed. if compressed then take 33 k else k),
     c_from_sec1_bytes = (\<lambda>b. Some b)\<rparr>"

definition demo_context :: auth_context where
  "demo_context = \<lparr>ac_chain_id = 1162, ac_network_id = replicate 32 1, ac_native_rules_version = 1\<rparr>"

definition demo_unsigned :: "u64 \<Rightarrow> u128 \<Rightarrow> unsigned_tx" where
  "demo_unsigned nonce amount = \<lparr>ut_encoding_version = 2, ut_native_rules_version = 1,
     ut_chain_id = 1162, ut_network_id = replicate 32 1, ut_kind = 0, ut_sender = replicate 20 7,
     ut_nonce = nonce, ut_recipient = replicate 20 8, ut_token_id = 0, ut_value = amount,
     ut_gas_limit = 1000, ut_valid_after_slot = 0\<rparr>"

definition demo_signed :: "u64 \<Rightarrow> u128 \<Rightarrow> signed_tx" where
  "demo_signed nonce amount = \<lparr>st_unsigned = demo_unsigned nonce amount,
     st_signature = replicate 64 5 @ [0]\<rparr>"

lemma demo_signed_wf: "signed_wf demo_crypto (demo_signed n v)"
  by (simp add: signed_wf_def demo_signed_def demo_unsigned_def unsigned_wf_def unsigned_widths_def
      signature_wf_def demo_crypto_def native_lens ENCODING_VERSION_def TRANSFER_KIND_def nth_append)

lemma demo_address [simp]: "address_from_public_key demo_crypto (replicate 65 7) = replicate 20 7"
  by (simp add: address_from_public_key_def demo_crypto_def field_def)

lemma demo_profile:
  "n \<noteq> - 1 \<Longrightarrow> validate_profile (demo_unsigned n v) demo_context = Inr ()"
  by (simp add: validate_profile_def validate_layout_def demo_unsigned_def demo_context_def
      ENCODING_VERSION_def TRANSFER_KIND_def INTRINSIC_GAS_def ETX_TOKEN_ID_def)

subsection \<open>Statements\<close>

text \<open>C14. \<open>authenticate\<close> accepts a byte string exactly when it is the canonical encoding of a
  transfer (encoding version and kind supported, a canonical low-s signature) made for the native rules
  version, the chain and the network of the context, in the native token, with at least the intrinsic gas
  and a nonce that is not exhausted, whose claimed identifier (if any) is the ID-domain hash of these bytes,
  and whose signature recovers, over the signing-domain hash of the first 134 bytes, a key of which the
  hash of the uncompressed point without its tag ends in the 20 bytes of the signed sender; the proof it
  returns then holds exactly those values. The equivalence also says that no byte string has two readings.\<close>

theorem authenticate_accepts_iff:
  "authenticate C b ctx claimed = Inr a \<longleftrightarrow>
     (\<exists>t key. signed_wf C t \<and> b = signed_concat t \<and>
        ut_encoding_version (st_unsigned t) = ENCODING_VERSION \<and> ut_kind (st_unsigned t) = TRANSFER_KIND \<and>
        ut_native_rules_version (st_unsigned t) = ac_native_rules_version ctx \<and>
        ut_chain_id (st_unsigned t) = ac_chain_id ctx \<and> ut_network_id (st_unsigned t) = ac_network_id ctx \<and>
        INTRINSIC_GAS \<le> ut_gas_limit (st_unsigned t) \<and> ut_nonce (st_unsigned t) \<noteq> - 1 \<and>
        ut_token_id (st_unsigned t) = ETX_TOKEN_ID \<and>
        claimed \<in> {None, Some (c_keccak C (ID_DOMAIN @ b))} \<and>
        c_recover_from_prehash C (c_keccak C (SIGNING_DOMAIN @ take 134 b)) (field 64 b 134) (b ! 198)
          = Some key \<and>
        ut_sender (st_unsigned t) = take 20 (drop 12 (c_keccak C (tl (c_to_encoded_point C key False)))) \<and>
        a = \<lparr>at_transaction = t, at_transaction_id = c_keccak C (ID_DOMAIN @ b),
             at_signing_digest = c_keccak C (SIGNING_DOMAIN @ take 134 b),
             at_public_key = take 65 (c_to_encoded_point C key False)\<rparr>)"
  (is "?l = (\<exists>t key. ?r t key)")
proof
  assume l: ?l
  then obtain t where t: "signed_from_bytes C b = Inr t"
    by (auto simp: authenticate_def try_res_Inr_iff)
  with l authenticate_decoded [OF t] signed_enc_dec [OF t] show "\<exists>t key. ?r t key"
    by (auto simp: validate_profile_Inr_iff address_from_public_key_def field_def [of 20] field_def [of 65])
next
  assume "\<exists>t key. ?r t key"
  then obtain t key where r: "?r t key" by blast
  then have "signed_from_bytes C b = Inr t"
    by (simp add: signed_dec_enc)
  with r show ?l
    by (auto simp: authenticate_decoded validate_profile_Inr_iff address_from_public_key_def field_def [of 20] field_def [of 65])
qed

text \<open>Layout, profile and claimed-identifier failures are decided before any public-key
  recovery: an error other than a failed recovery or a foreign sender is the same whatever the
  recovery routine of the backend answers.\<close>

theorem authenticate_rejects_before_recovery:
  assumes "authenticate C b ctx claimed = Inl e"
    and "e \<notin> {RecoveryFailed, SenderMismatch}"
  shows "authenticate (C\<lparr>c_recover_from_prehash := f\<rparr>) b ctx claimed = Inl e"
proof -
  let ?D = "C\<lparr>c_recover_from_prehash := f\<rparr>"
  have same: "signed_from_bytes ?D = signed_from_bytes C" "transaction_id ?D = transaction_id C"
    "signing_digest ?D = signing_digest C"
    by (auto simp: fun_eq_iff signed_from_bytes_def signature_from_bytes_def transaction_id_def
        signing_digest_def)
  show ?thesis
  proof (cases "signed_from_bytes C b")
    case (Inl e')
    with assms same show ?thesis by (simp add: authenticate_def)
  next
    case (Inr t)
    note h = decoded_hashes [OF Inr]
    have "signature_wf ?D (st_signature t)"
      using h(4) by (simp add: signature_wf_def)
    with h assms Inr same show ?thesis
      by (auto simp: authenticate_def try_res_Inl_iff recover_public_key_wf split: if_splits)
  qed
qed

theorem authenticate_rejects_before_recovery_witness:
  "authenticate (demo_crypto\<lparr>c_recover_from_prehash := (\<lambda>_ _ _. None)\<rparr>) [] demo_context None
     = Inl (InvalidLength 199 0)"
  by (rule authenticate_rejects_before_recovery)
    (simp_all add: authenticate_def signed_from_bytes_def require_length_def native_lens)

text \<open>C37. What \<open>sign\<close> returns authenticates: if the backend's attempts on the digest overflow
  \<open>n\<close> times and then yield a canonical low-s signature that recovers to the signing key, then
  \<open>sign\<close> terminates with a transaction over the given payload, and \<open>authenticate\<close> accepts its bytes
  under the same context, with the transaction's own identifier as the claim.\<close>

theorem sign_then_authenticate:
  assumes profile: "validate_profile u ctx = Inr ()" and widths: "unsigned_widths u"
    and sender: "address_from_public_key C vk = ut_sender u"
    and digest: "d = c_keccak C (SIGNING_DOMAIN @ unsigned_concat u)"
    and retries: "\<And>k. k < n \<Longrightarrow> \<exists>s i. candidate d k = Inr (s, i) \<and> bit i 1"
    and final: "candidate d n = Inr (s, i)" "\<not> bit i 1" "signature_wf C (s @ [i])" "length s = 64"
    and backend: "c_recover_from_prehash C d s i = Some vk"
  shows "\<exists>t a. sign C u vk candidate ctx = Some (Inr t) \<and> st_unsigned t = u \<and>
     signed_bytes t = Inr (signed_concat t) \<and>
     authenticate C (signed_concat t) ctx (Some (at_transaction_id a)) = Inr a \<and>
     at_transaction a = t"
proof -
  let ?t = "\<lparr>st_unsigned = u, st_signature = s @ [i]\<rparr>"
  let ?b = "signed_concat ?t"
  from profile have layout: "validate_layout u = Inr ()"
    by (cases "validate_layout u") (auto simp: validate_profile_def)
  with widths have u: "unsigned_wf u"
    by (simp add: unsigned_wf_def validate_layout_Inr_iff)
  with final(3) have wf: "signed_wf C ?t"
    by (simp add: signed_wf_def)
  have len: "length (unsigned_concat u) = 134"
    using length_unsigned_concat [OF widths] by (simp add: native_lens)
  have "sign C u vk candidate ctx = Some (Inr ?t)"
    using profile sender final(3) layout
      sign_with_retry_returns [of 0 n "candidate d" s i C, OF _ final(1,2) _ final(4)] retries
    by (simp add: sign_def signing_digest_wf [OF u] digest [symmetric] signed_from_parts_def)
  moreover have "authenticate C ?b ctx (Some (c_keccak C (ID_DOMAIN @ ?b))) =
      Inr \<lparr>at_transaction = ?t, at_transaction_id = c_keccak C (ID_DOMAIN @ ?b),
           at_signing_digest = d,
           at_public_key = field 65 (c_to_encoded_point C vk False) 0\<rparr>"
  proof (subst authenticate_decoded [OF signed_dec_enc [OF wf]], intro conjI exI)
    have "take 134 ?b = unsigned_concat u" and "field 64 ?b 134 = s" and "?b ! 198 = i"
      using final(4) len by (simp_all add: signed_concat_def field_def nth_append)
    with backend digest show "c_recover_from_prehash C (c_keccak C (SIGNING_DOMAIN @ take 134 ?b))
        (field 64 ?b 134) (?b ! 198) = Some vk"
      and "\<lparr>at_transaction = ?t, at_transaction_id = c_keccak C (ID_DOMAIN @ ?b),
           at_signing_digest = d, at_public_key = field 65 (c_to_encoded_point C vk False) 0\<rparr> =
        \<lparr>at_transaction = ?t, at_transaction_id = c_keccak C (ID_DOMAIN @ ?b),
           at_signing_digest = c_keccak C (SIGNING_DOMAIN @ take 134 ?b),
           at_public_key = field 65 (c_to_encoded_point C vk False) 0\<rparr>"
      by simp_all
  qed (use profile sender in simp_all)
  ultimately show ?thesis
    using signed_bytes_wf [OF wf]
    by (intro exI [of _ ?t] exI [of _ "\<lparr>at_transaction = ?t,
        at_transaction_id = c_keccak C (ID_DOMAIN @ ?b), at_signing_digest = d,
        at_public_key = field 65 (c_to_encoded_point C vk False) 0\<rparr>"]) simp
qed

theorem sign_then_authenticate_witness:
  "\<exists>t a. sign demo_crypto (demo_unsigned 3 9) (replicate 65 7)
       (\<lambda>_ k. if k = 0 then Inr (replicate 64 5, 2) else Inr (replicate 64 5, 0)) demo_context
       = Some (Inr t) \<and> st_unsigned t = demo_unsigned 3 9 \<and>
     signed_bytes t = Inr (signed_concat t) \<and>
     authenticate demo_crypto (signed_concat t) demo_context (Some (at_transaction_id a)) = Inr a \<and>
     at_transaction a = t"
proof (rule sign_then_authenticate [where n = 1 and s = "replicate 64 5" and i = 0])
  show "validate_profile (demo_unsigned 3 9) demo_context = Inr ()"
    by (simp add: demo_profile)
  show "unsigned_widths (demo_unsigned 3 9)"
    by (simp add: unsigned_widths_def demo_unsigned_def)
  show "address_from_public_key demo_crypto (replicate 65 7) = ut_sender (demo_unsigned 3 9)"
    by (simp add: demo_unsigned_def)
  show "signature_wf demo_crypto (replicate 64 5 @ [0])"
    by (simp add: signature_wf_def demo_crypto_def native_lens nth_append)
qed (simp_all add: demo_crypto_def bit_numeral_rec)

text \<open>Signing and identification never hash the same bytes: no signing preimage of a
  payload equals the identifier preimage of any byte string, so a signature cannot be read as a
  transaction identifier or the other way round.\<close>

theorem signing_and_id_domains_separate:
  assumes "signing_preimage u = Inr p"
  shows "p \<noteq> ID_DOMAIN @ b"
proof -
  from assms obtain v where "p = copy_at (length SIGNING_DOMAIN) v
      (copy_at 0 SIGNING_DOMAIN (replicate SIGNING_PREIMAGE_LEN 0))"
    by (auto simp: signing_preimage_def try_res_Inr_iff Let_def)
  then have "take 24 p = SIGNING_DOMAIN"
    by (simp add: copy_at_def native_lens SIGNING_DOMAIN_def str_def)
  then have "p ! 19 = SIGNING_DOMAIN ! 19"
    using nth_take [of 19 24 p] by simp
  moreover have "(ID_DOMAIN @ b) ! 19 \<noteq> SIGNING_DOMAIN ! 19"
    by (simp add: ID_DOMAIN_def SIGNING_DOMAIN_def str_def)
  ultimately show ?thesis by auto
qed

theorem signing_and_id_domains_separate_witness:
  "SIGNING_DOMAIN @ unsigned_concat (demo_unsigned 0 0) \<noteq> ID_DOMAIN @ [1]"
proof (rule signing_and_id_domains_separate)
  have "unsigned_wf (demo_unsigned 0 0)"
    using demo_signed_wf [of 0 0] by (simp add: signed_wf_def demo_signed_def)
  then show "signing_preimage (demo_unsigned 0 0) = Inr (SIGNING_DOMAIN @ unsigned_concat (demo_unsigned 0 0))"
    by (rule signing_preimage_wf)
qed

text \<open>The decoder of signed transactions accepts exactly the byte strings that the encoder
  produces for well-formed values, and returns the value that was encoded: encoding and decoding
  are inverse in both directions, so neither truncation, trailing bytes nor an alternative
  encoding of the same transfer is accepted.\<close>

theorem signed_codec_canonical:
  "signed_from_bytes C b = Inr t \<longleftrightarrow> signed_wf C t \<and> signed_bytes t = Inr b"
  using signed_codec.dec_Some_iff [of C b t] by (auto simp: signed_bytes_wf)

end
