(* ===== verification/Native_Transfer.thy ===== *)
theory Native_Transfer
  imports Native_Transaction
begin

text \<open>
  \<open>src/src/native_transfer.rs\<close>: the shared application of native transfer bodies (authenticate all,
  then execute in order on an owned candidate, then persist and install), and
  \<open>src/examples/native_transfer_replay.rs\<close>: its in-memory store. Balances are \<open>u128\<close>, nonces and gas
  \<open>u64\<close>, with the checked arithmetic of the source.
\<close>

section \<open>State\<close>

record transfer_account =
  ta_balance_quarks :: u128
  ta_nonce :: u64

record transfer_state =
  ts_accounts :: "(address \<times> transfer_account) list"
  ts_gas_used_total :: u64
  ts_fees_burned_total :: u128

definition default_account :: transfer_account where
  "default_account = \<lparr>ta_balance_quarks = 0, ta_nonce = 0\<rparr>"

definition account :: "transfer_state \<Rightarrow> address \<Rightarrow> transfer_account" where
  "account s a = (case map_of (ts_accounts s) a of None \<Rightarrow> default_account | Some x \<Rightarrow> x)"

record body_outcome =
  bo_transaction_ids :: "hash list"
  bo_gas_used :: u64
  bo_fees_burned :: u64

definition default_outcome :: body_outcome where
  "default_outcome = \<lparr>bo_transaction_ids = [], bo_gas_used = 0, bo_fees_burned = 0\<rparr>"

datatype arithmetic_field =
    CombinedDebit | RecipientBalance | Nonce | TotalGas | TotalBurn | BodyGas | BodyBurn

datatype transfer_error =
    Authentication tx_error
  | UnsupportedKind u8
  | UnsupportedAsset u64
  | UnsupportedRules u32
  | GasBelowIntrinsic u64
  | NonceMismatch (nm_expected: u64) (nm_actual: u64)
  | NotMature (nmt_slot: u64) (nmt_valid_after_slot: u64)
  | InsufficientCombinedFunds (icf_available: u128) (icf_required: u128)
  | Overflow arithmetic_field

record body_error =
  bx_transaction_index :: nat
  bx_cause :: transfer_error

record applied_body =
  ab_context :: auth_context
  ab_slot :: u64
  ab_transactions :: "bytes list"
  ab_outcome :: body_outcome

record staged_body =
  sb_base :: transfer_state
  sb_candidate :: transfer_state
  sb_record :: applied_body

datatype 'e apply_error = Body body_error | StaleBase | Persistence 'e

section \<open>Execution of one authenticated transfer\<close>

definition credit_recipient ::
  "transfer_state \<Rightarrow> unsigned_tx \<Rightarrow> transfer_account \<Rightarrow>
   transfer_error + transfer_account \<times> transfer_account option" where
  "credit_recipient s t next_sender =
     (if ut_sender t = ut_recipient t then
        try_res (ok_or (Overflow RecipientBalance)
                   (checked_add (ta_balance_quarks next_sender) (ut_value t))) (\<lambda>b.
        Inr (next_sender\<lparr>ta_balance_quarks := b\<rparr>, None))
      else if ut_value t \<noteq> 0 then
        let recipient = account s (ut_recipient t) in
        try_res (ok_or (Overflow RecipientBalance)
                   (checked_add (ta_balance_quarks recipient) (ut_value t))) (\<lambda>b.
        Inr (next_sender, Some \<lparr>ta_balance_quarks = b, ta_nonce = ta_nonce recipient\<rparr>))
      else Inr (next_sender, None))"

definition apply_transfer ::
  "transfer_state \<Rightarrow> body_outcome \<Rightarrow> authenticated_tx \<Rightarrow> u64 \<Rightarrow>
   transfer_error + transfer_state \<times> body_outcome" where
  "apply_transfer s out p slot =
     (let t = st_unsigned (at_transaction p); sender = account s (ut_sender t) in
      if ut_native_rules_version t \<noteq> 1 then Inl (UnsupportedRules (ut_native_rules_version t))
      else if ut_kind t \<noteq> TRANSFER_KIND then Inl (UnsupportedKind (ut_kind t))
      else if ut_token_id t \<noteq> ETX_TOKEN_ID then Inl (UnsupportedAsset (ut_token_id t))
      else if ut_gas_limit t < INTRINSIC_GAS then Inl (GasBelowIntrinsic (ut_gas_limit t))
      else if ut_nonce t \<noteq> ta_nonce sender then Inl (NonceMismatch (ta_nonce sender) (ut_nonce t))
      else if slot < ut_valid_after_slot t then Inl (NotMature slot (ut_valid_after_slot t))
      else
        try_res (ok_or (Overflow CombinedDebit)
                   (checked_add (ut_value t) (ucast TRANSFER_FEE_QUARKS))) (\<lambda>debit.
        try_res (ok_or (InsufficientCombinedFunds (ta_balance_quarks sender) debit)
                   (checked_sub (ta_balance_quarks sender) debit)) (\<lambda>debited_balance.
        try_res (ok_or (Overflow Nonce) (checked_add (ta_nonce sender) 1)) (\<lambda>next_nonce.
        try_res (credit_recipient s t \<lparr>ta_balance_quarks = debited_balance, ta_nonce = next_nonce\<rparr>)
          (\<lambda>(next_sender, next_recipient).
        try_res (ok_or (Overflow TotalGas) (checked_add (ts_gas_used_total s) INTRINSIC_GAS))
          (\<lambda>total_gas.
        try_res (ok_or (Overflow TotalBurn)
                   (checked_add (ts_fees_burned_total s) (ucast TRANSFER_FEE_QUARKS))) (\<lambda>total_burn.
        try_res (ok_or (Overflow BodyGas) (checked_add (bo_gas_used out) INTRINSIC_GAS)) (\<lambda>body_gas.
        try_res (ok_or (Overflow BodyBurn) (checked_add (bo_fees_burned out) TRANSFER_FEE_QUARKS))
          (\<lambda>body_burn.
        let accounts = bm_insert (ut_sender t) next_sender (ts_accounts s);
            accounts = (case next_recipient of None \<Rightarrow> accounts
                        | Some r \<Rightarrow> bm_insert (ut_recipient t) r accounts)
        in Inr (\<lparr>ts_accounts = accounts, ts_gas_used_total = total_gas,
                 ts_fees_burned_total = total_burn\<rparr>,
                \<lparr>bo_transaction_ids = bo_transaction_ids out @ [at_transaction_id p],
                 bo_gas_used = body_gas, bo_fees_burned = body_burn\<rparr>))))))))))"

section \<open>Staging and committing a body\<close>

text \<open>The execution loop: the first failure, with its position, discards everything.\<close>

fun execute_proofs ::
  "nat \<Rightarrow> transfer_state \<Rightarrow> body_outcome \<Rightarrow> u64 \<Rightarrow> authenticated_tx list \<Rightarrow>
   body_error + transfer_state \<times> body_outcome" where
  "execute_proofs i s out slot [] = Inr (s, out)"
| "execute_proofs i s out slot (p # ps) =
     try_res (map_err (\<lambda>e. \<lparr>bx_transaction_index = i, bx_cause = e\<rparr>) (apply_transfer s out p slot))
       (\<lambda>(s', out'). execute_proofs (Suc i) s' out' slot ps)"

definition stage_body ::
  "'k crypto \<Rightarrow> transfer_state \<Rightarrow> auth_context \<Rightarrow> u64 \<Rightarrow> bytes list \<Rightarrow> body_error + staged_body" where
  "stage_body C base ctx slot body =
     try_res (traverse (\<lambda>i b. map_err (\<lambda>e. \<lparr>bx_transaction_index = i, bx_cause = Authentication e\<rparr>)
                (authenticate C b ctx None)) 0 body) (\<lambda>proofs.
     try_res (execute_proofs 0 base default_outcome slot proofs) (\<lambda>(candidate, outcome).
     Inr \<lparr>sb_base = base, sb_candidate = candidate,
          sb_record = \<lparr>ab_context = ctx, ab_slot = slot, ab_transactions = body,
                       ab_outcome = outcome\<rparr>\<rparr>))"

text \<open>
  \<open>AtomicBodyStore::persist\<close> is a parameter of \<open>commit\<close>: it takes the store, the expected base, the
  candidate and the record, and returns a result with the new store. \<open>commit\<close> returns the result,
  the live state and the store.
\<close>

type_synonym ('s, 'e) persister =
  "'s \<Rightarrow> transfer_state \<Rightarrow> transfer_state \<Rightarrow> applied_body \<Rightarrow> ('e + unit) \<times> 's"

definition commit ::
  "('s, 'e) persister \<Rightarrow> staged_body \<Rightarrow> transfer_state \<Rightarrow> 's \<Rightarrow>
   ('e apply_error + body_outcome) \<times> transfer_state \<times> 's" where
  "commit persist staged live store =
     (if live \<noteq> sb_base staged then (Inl StaleBase, live, store)
      else case persist store (sb_base staged) (sb_candidate staged) (sb_record staged) of
        (Inl e, store') \<Rightarrow> (Inl (Persistence e), live, store')
      | (Inr _, store') \<Rightarrow> (Inr (ab_outcome (sb_record staged)), sb_candidate staged, store'))"

definition apply_body ::
  "'k crypto \<Rightarrow> ('s, 'e) persister \<Rightarrow> transfer_state \<Rightarrow> auth_context \<Rightarrow> u64 \<Rightarrow> bytes list \<Rightarrow> 's \<Rightarrow>
   ('e apply_error + body_outcome) \<times> transfer_state \<times> 's" where
  "apply_body C persist live ctx slot body store =
     (case stage_body C live ctx slot body of
        Inl e \<Rightarrow> (Inl (Body e), live, store)
      | Inr staged \<Rightarrow> commit persist staged live store)"

section \<open>The in-memory store of the replay example\<close>

datatype store_error = InjectedFailure | StaleStoredBase

record memory_store =
  ms_snapshot :: transfer_state
  ms_records :: "applied_body list"
  ms_fail_next :: bool

definition memory_store_new :: "transfer_state \<Rightarrow> memory_store" where
  "memory_store_new initial = \<lparr>ms_snapshot = initial, ms_records = [], ms_fail_next = False\<rparr>"

definition memory_persist :: "(memory_store, store_error) persister" where
  "memory_persist st expected_base candidate record =
     (if ms_snapshot st \<noteq> expected_base then (Inl StaleStoredBase, st)
      else let records = ms_records st @ [record]
           in if ms_fail_next st then (Inl InjectedFailure, st\<lparr>ms_fail_next := False\<rparr>)
              else (Inr (), st\<lparr>ms_snapshot := candidate, ms_records := records\<rparr>))"

section \<open>The ledger that the transfers refine\<close>

text \<open>
  The abstract ledger has unbounded balances and nonces. A transfer takes value and fee from the
  sender, advances its nonce, and then credits the recipient; a self-transfer needs no special case.
\<close>

type_synonym ledger = "address \<Rightarrow> nat \<times> nat"

definition ledger_of :: "transfer_state \<Rightarrow> ledger" where
  "ledger_of s a = (unat (ta_balance_quarks (account s a)), unat (ta_nonce (account s a)))"

definition spec_transfer :: "ledger \<Rightarrow> address \<Rightarrow> address \<Rightarrow> nat \<Rightarrow> ledger" where
  "spec_transfer L from to v =
     (let L' = L(from := (fst (L from) - (v + 10000), Suc (snd (L from))))
      in L'(to := (fst (L' to) + v, snd (L' to))))"

definition total_balance :: "transfer_state \<Rightarrow> nat" where
  "total_balance s = bm_sum (\<lambda>a. unat (ta_balance_quarks a)) (ts_accounts s)"

text \<open>When a transfer may run, over the abstract ledger.\<close>

definition spec_enabled :: "ledger \<Rightarrow> unsigned_tx \<Rightarrow> u64 \<Rightarrow> bool" where
  "spec_enabled L t slot \<longleftrightarrow>
     ut_native_rules_version t = 1 \<and> ut_kind t = TRANSFER_KIND \<and> ut_token_id t = ETX_TOKEN_ID \<and>
     INTRINSIC_GAS \<le> ut_gas_limit t \<and> unat (ut_nonce t) = snd (L (ut_sender t)) \<and>
     ut_valid_after_slot t \<le> slot \<and> unat (ut_value t) + 10000 \<le> fst (L (ut_sender t))"

text \<open>Where the fixed widths stop short of the abstract ledger.\<close>

definition widths_suffice :: "transfer_state \<Rightarrow> body_outcome \<Rightarrow> unsigned_tx \<Rightarrow> bool" where
  "widths_suffice s out t \<longleftrightarrow>
     unat (ut_nonce t) + 1 < 2 ^ 64 \<and>
     (ut_sender t \<noteq> ut_recipient t \<longrightarrow>
        unat (ta_balance_quarks (account s (ut_recipient t))) + unat (ut_value t) < 2 ^ 128) \<and>
     unat (ts_gas_used_total s) + 1000 < 2 ^ 64 \<and>
     unat (ts_fees_burned_total s) + 10000 < 2 ^ 128 \<and>
     unat (bo_gas_used out) + 1000 < 2 ^ 64 \<and> unat (bo_fees_burned out) + 10000 < 2 ^ 64"

lemma fee_unat [simp]:
  "unat (ucast TRANSFER_FEE_QUARKS :: u128) = 10000" "unat TRANSFER_FEE_QUARKS = 10000"
  "unat INTRINSIC_GAS = 1000"
  by (simp_all add: TRANSFER_FEE_QUARKS_def INTRINSIC_GAS_def)

text \<open>
  What a successful transfer did, read off the source's branches: the guards held, and the new
  records are determined by exact (unwrapped) arithmetic.
\<close>

lemma apply_transfer_elim:
  assumes "apply_transfer s out p slot = Inr (s', out')"
    and t: "t = st_unsigned (at_transaction p)"
  obtains ns nr where
    "ut_native_rules_version t = 1" "ut_kind t = TRANSFER_KIND" "ut_token_id t = ETX_TOKEN_ID"
    "INTRINSIC_GAS \<le> ut_gas_limit t" "ut_nonce t = ta_nonce (account s (ut_sender t))"
    "ut_valid_after_slot t \<le> slot"
    "unat (ta_nonce ns) = Suc (unat (ut_nonce t))"
    "ut_sender t = ut_recipient t \<Longrightarrow> nr = None \<and>
       unat (ta_balance_quarks ns) + 10000 = unat (ta_balance_quarks (account s (ut_sender t))) \<and>
       unat (ut_value t) + 10000 \<le> unat (ta_balance_quarks (account s (ut_sender t)))"
    "ut_sender t \<noteq> ut_recipient t \<Longrightarrow>
       unat (ta_balance_quarks ns) + unat (ut_value t) + 10000 =
         unat (ta_balance_quarks (account s (ut_sender t)))"
    "ut_sender t \<noteq> ut_recipient t \<Longrightarrow> ut_value t = 0 \<Longrightarrow> nr = None"
    "ut_sender t \<noteq> ut_recipient t \<Longrightarrow> ut_value t \<noteq> 0 \<Longrightarrow> \<exists>r. nr = Some r \<and>
       unat (ta_balance_quarks r) =
         unat (ta_balance_quarks (account s (ut_recipient t))) + unat (ut_value t) \<and>
       ta_nonce r = ta_nonce (account s (ut_recipient t))"
    "unat (ts_gas_used_total s') = unat (ts_gas_used_total s) + 1000"
    "unat (ts_fees_burned_total s') = unat (ts_fees_burned_total s) + 10000"
    "unat (bo_gas_used out') = unat (bo_gas_used out) + 1000"
    "unat (bo_fees_burned out') = unat (bo_fees_burned out) + 10000"
    "bo_transaction_ids out' = bo_transaction_ids out @ [at_transaction_id p]"
    "ts_accounts s' = (case nr of None \<Rightarrow> bm_insert (ut_sender t) ns (ts_accounts s)
       | Some r \<Rightarrow> bm_insert (ut_recipient t) r (bm_insert (ut_sender t) ns (ts_accounts s)))"
proof -
  let ?sender = "account s (ut_sender t)"
  from assms obtain debit bal nn ns nr tg tb bg bb where
    guards: "ut_native_rules_version t = 1" "ut_kind t = TRANSFER_KIND"
      "ut_token_id t = ETX_TOKEN_ID" "INTRINSIC_GAS \<le> ut_gas_limit t"
      "ut_nonce t = ta_nonce ?sender" "ut_valid_after_slot t \<le> slot"
    and arith: "checked_add (ut_value t) (ucast TRANSFER_FEE_QUARKS) = Some debit"
      "checked_sub (ta_balance_quarks ?sender) debit = Some bal"
      "checked_add (ta_nonce ?sender) 1 = Some nn"
      "checked_add (ts_gas_used_total s) INTRINSIC_GAS = Some tg"
      "checked_add (ts_fees_burned_total s) (ucast TRANSFER_FEE_QUARKS) = Some tb"
      "checked_add (bo_gas_used out) INTRINSIC_GAS = Some bg"
      "checked_add (bo_fees_burned out) TRANSFER_FEE_QUARKS = Some bb"
    and cr: "credit_recipient s t \<lparr>ta_balance_quarks = bal, ta_nonce = nn\<rparr> = Inr (ns, nr)"
    and s': "s' = \<lparr>ts_accounts = (case nr of None \<Rightarrow> bm_insert (ut_sender t) ns (ts_accounts s)
       | Some r \<Rightarrow> bm_insert (ut_recipient t) r (bm_insert (ut_sender t) ns (ts_accounts s))),
       ts_gas_used_total = tg, ts_fees_burned_total = tb\<rparr>"
    and out': "out' = \<lparr>bo_transaction_ids = bo_transaction_ids out @ [at_transaction_id p],
       bo_gas_used = bg, bo_fees_burned = bb\<rparr>"
    unfolding apply_transfer_def Let_def
    by (auto simp: try_res_Inr_iff not_less split: if_splits)
  note nat = checked_add_Some [OF arith(1)] checked_sub_Some [OF arith(2)]
    checked_add_Some [OF arith(3)] checked_add_Some [OF arith(4)] checked_add_Some [OF arith(5)]
    checked_add_Some [OF arith(6)] checked_add_Some [OF arith(7)]
  have ns: "unat (ta_nonce ns) = Suc (unat (ut_nonce t))"
    using cr nat(3) guards(5)
    by (auto simp: credit_recipient_def try_res_Inr_iff Let_def split: if_splits)
  have self: "nr = None \<and> unat (ta_balance_quarks ns) + 10000 = unat (ta_balance_quarks ?sender) \<and>
       unat (ut_value t) + 10000 \<le> unat (ta_balance_quarks ?sender)"
    if "ut_sender t = ut_recipient t"
    using that cr nat(1,2)
    by (auto simp: credit_recipient_def try_res_Inr_iff Let_def dest!: checked_add_Some split: if_splits)
  have other: "unat (ta_balance_quarks ns) + unat (ut_value t) + 10000 = unat (ta_balance_quarks ?sender)"
    if "ut_sender t \<noteq> ut_recipient t"
    using that cr nat(1,2)
    by (auto simp: credit_recipient_def try_res_Inr_iff Let_def split: if_splits)
  have zero: "nr = None" if "ut_sender t \<noteq> ut_recipient t" "ut_value t = 0"
    using that cr by (simp add: credit_recipient_def)
  have credit: "\<exists>r. nr = Some r \<and> unat (ta_balance_quarks r) =
         unat (ta_balance_quarks (account s (ut_recipient t))) + unat (ut_value t) \<and>
       ta_nonce r = ta_nonce (account s (ut_recipient t))"
    if "ut_sender t \<noteq> ut_recipient t" "ut_value t \<noteq> 0"
    using that cr
    by (auto simp: credit_recipient_def try_res_Inr_iff Let_def dest!: checked_add_Some split: if_splits)
  show thesis
    by (rule that [OF guards ns self other zero credit]) (simp_all add: nat s' out')
qed

lemma apply_transfer_totals:
  assumes "apply_transfer s out p slot = Inr (s', out')"
  shows "unat (ts_gas_used_total s') = unat (ts_gas_used_total s) + 1000"
    and "unat (ts_fees_burned_total s') = unat (ts_fees_burned_total s) + 10000"
    and "unat (bo_gas_used out') = unat (bo_gas_used out) + 1000"
    and "unat (bo_fees_burned out') = unat (bo_fees_burned out) + 10000"
    and "bo_transaction_ids out' = bo_transaction_ids out @ [at_transaction_id p]"
  by (rule apply_transfer_elim [OF assms refl], assumption)+

lemma apply_transfer_enabled:
  assumes "apply_transfer s out p slot = Inr (s', out')"
  shows "spec_enabled (ledger_of s) (st_unsigned (at_transaction p)) slot"
proof (rule apply_transfer_elim [OF assms refl])
  let ?t = "st_unsigned (at_transaction p)"
  fix ns nr
  assume g: "ut_native_rules_version ?t = 1" "ut_kind ?t = TRANSFER_KIND" "ut_token_id ?t = ETX_TOKEN_ID"
    "INTRINSIC_GAS \<le> ut_gas_limit ?t" "ut_nonce ?t = ta_nonce (account s (ut_sender ?t))"
    "ut_valid_after_slot ?t \<le> slot"
    and self: "ut_sender ?t = ut_recipient ?t \<Longrightarrow> nr = None \<and>
       unat (ta_balance_quarks ns) + 10000 = unat (ta_balance_quarks (account s (ut_sender ?t))) \<and>
       unat (ut_value ?t) + 10000 \<le> unat (ta_balance_quarks (account s (ut_sender ?t)))"
    and other: "ut_sender ?t \<noteq> ut_recipient ?t \<Longrightarrow>
       unat (ta_balance_quarks ns) + unat (ut_value ?t) + 10000 =
         unat (ta_balance_quarks (account s (ut_sender ?t)))"
  have "unat (ut_value ?t) + 10000 \<le> unat (ta_balance_quarks (account s (ut_sender ?t)))"
    using self other by (cases "ut_sender ?t = ut_recipient ?t") linarith+
  with g show ?thesis
    by (simp add: spec_enabled_def ledger_of_def)
qed

text \<open>The new accounts: the sender's record, and the recipient's where it changes.\<close>

lemma apply_transfer_account:
  assumes "apply_transfer s out p slot = Inr (s', out')"
  shows "ledger_of s' = (let t = st_unsigned (at_transaction p) in
    spec_transfer (ledger_of s) (ut_sender t) (ut_recipient t) (unat (ut_value t)))"
proof (rule apply_transfer_elim [OF assms refl])
  let ?t = "st_unsigned (at_transaction p)"
  let ?f = "ut_sender ?t" and ?r = "ut_recipient ?t"
  fix ns nr
  assume nonce: "ut_nonce ?t = ta_nonce (account s ?f)" "unat (ta_nonce ns) = Suc (unat (ut_nonce ?t))"
    and self: "?f = ?r \<Longrightarrow> nr = None \<and>
       unat (ta_balance_quarks ns) + 10000 = unat (ta_balance_quarks (account s ?f)) \<and>
       unat (ut_value ?t) + 10000 \<le> unat (ta_balance_quarks (account s ?f))"
    and other: "?f \<noteq> ?r \<Longrightarrow> unat (ta_balance_quarks ns) + unat (ut_value ?t) + 10000 =
         unat (ta_balance_quarks (account s ?f))"
    and zero: "?f \<noteq> ?r \<Longrightarrow> ut_value ?t = 0 \<Longrightarrow> nr = None"
    and credit: "?f \<noteq> ?r \<Longrightarrow> ut_value ?t \<noteq> 0 \<Longrightarrow> \<exists>r. nr = Some r \<and>
       unat (ta_balance_quarks r) = unat (ta_balance_quarks (account s ?r)) + unat (ut_value ?t) \<and>
       ta_nonce r = ta_nonce (account s ?r)"
    and acc: "ts_accounts s' = (case nr of None \<Rightarrow> bm_insert ?f ns (ts_accounts s)
       | Some r \<Rightarrow> bm_insert ?r r (bm_insert ?f ns (ts_accounts s)))"
  have acct: "account s' a = (case nr of Some r \<Rightarrow> if a = ?r then r else if a = ?f then ns else account s a
      | None \<Rightarrow> if a = ?f then ns else account s a)" for a
    using acc by (cases nr) (auto simp: account_def map_of_bm_insert)
  consider "?f = ?r" | "?f \<noteq> ?r" "ut_value ?t = 0" | "?f \<noteq> ?r" "ut_value ?t \<noteq> 0"
    by blast
  then show ?thesis
  proof cases
    case 1
    with self nonce acct show ?thesis
      by (auto simp: fun_eq_iff ledger_of_def spec_transfer_def Let_def)
  next
    case 2
    with other zero nonce acct show ?thesis
      by (auto simp: fun_eq_iff ledger_of_def spec_transfer_def Let_def)
  next
    case 3
    with other credit nonce acct show ?thesis
      by (fastforce simp: fun_eq_iff ledger_of_def spec_transfer_def Let_def)
  qed
qed

lemma apply_transfer_wf:
  assumes "apply_transfer s out p slot = Inr (s', out')" and "bm_wf (ts_accounts s)"
  shows "bm_wf (ts_accounts s')"
  by (rule apply_transfer_elim [OF assms(1) refl])
    (use assms(2) in \<open>auto simp: bm_wf_insert split: option.splits\<close>)

lemma account_weight:
  "(case map_of (ts_accounts s) a of None \<Rightarrow> 0 | Some x \<Rightarrow> unat (ta_balance_quarks x)) =
   unat (ta_balance_quarks (account s a))"
  by (simp add: account_def default_account_def split: option.splits)

lemma apply_transfer_total:
  assumes "apply_transfer s out p slot = Inr (s', out')" and "bm_wf (ts_accounts s)"
  shows "total_balance s' + 10000 = total_balance s"
proof (rule apply_transfer_elim [OF assms(1) refl])
  let ?t = "st_unsigned (at_transaction p)" and ?w = "\<lambda>a. unat (ta_balance_quarks a)"
  let ?f = "ut_sender ?t" and ?r = "ut_recipient ?t"
  fix ns nr
  assume self: "?f = ?r \<Longrightarrow> nr = None \<and> ?w ns + 10000 = ?w (account s ?f) \<and>
       unat (ut_value ?t) + 10000 \<le> ?w (account s ?f)"
    and other: "?f \<noteq> ?r \<Longrightarrow> ?w ns + unat (ut_value ?t) + 10000 = ?w (account s ?f)"
    and zero: "?f \<noteq> ?r \<Longrightarrow> ut_value ?t = 0 \<Longrightarrow> nr = None"
    and credit: "?f \<noteq> ?r \<Longrightarrow> ut_value ?t \<noteq> 0 \<Longrightarrow> \<exists>r. nr = Some r \<and>
       ?w r = ?w (account s ?r) + unat (ut_value ?t) \<and> ta_nonce r = ta_nonce (account s ?r)"
    and acc: "ts_accounts s' = (case nr of None \<Rightarrow> bm_insert ?f ns (ts_accounts s)
       | Some r \<Rightarrow> bm_insert ?r r (bm_insert ?f ns (ts_accounts s)))"
  note one = bm.weigh_ins [OF assms(2), of ?w ?f ns, unfolded account_weight]
  consider "nr = None" "?w ns + 10000 = ?w (account s ?f)"
    | r where "?f \<noteq> ?r" "nr = Some r" "?w r = ?w (account s ?r) + unat (ut_value ?t)"
    using self other zero credit by fastforce
  then show ?thesis
  proof cases
    case 1
    with one acc show ?thesis by (simp add: total_balance_def)
  next
    case 2
    with other acc bm.weigh_two [OF assms(2) 2(1), of ?w r ns, unfolded account_weight] show ?thesis
      by (simp add: total_balance_def)
  qed
qed

lemma credit_recipient_progress:
  assumes "unat (ta_balance_quarks ns) + unat (ut_value t) < 2 ^ 128"
    and "ut_sender t \<noteq> ut_recipient t \<Longrightarrow>
      unat (ta_balance_quarks (account s (ut_recipient t))) + unat (ut_value t) < 2 ^ 128"
  shows "\<exists>ns' nr. credit_recipient s t ns = Inr (ns', nr)"
  using assms by (auto simp: credit_recipient_def checked_add_def Let_def)

lemma apply_transfer_progress:
  assumes en: "spec_enabled (ledger_of s) (st_unsigned (at_transaction p)) slot"
    and w: "widths_suffice s out (st_unsigned (at_transaction p))"
  shows "\<exists>s' out'. apply_transfer s out p slot = Inr (s', out')"
proof -
  let ?t = "st_unsigned (at_transaction p)"
  let ?a = "account s (ut_sender ?t)"
  have funds: "unat (ut_value ?t) + 10000 \<le> unat (ta_balance_quarks ?a)"
    using en by (simp add: spec_enabled_def ledger_of_def)
  moreover have "unat (ta_balance_quarks ?a) < 2 ^ 128"
    using unat_bound [of "ta_balance_quarks ?a"] by simp
  ultimately have "unat (ut_value ?t) + 10000 < 2 ^ 128" by linarith
  then obtain debit where debit: "checked_add (ut_value ?t) (ucast TRANSFER_FEE_QUARKS) = Some debit"
    and du: "unat debit = unat (ut_value ?t) + 10000"
    using checked_add_fits [of "ut_value ?t" "ucast TRANSFER_FEE_QUARKS"] by auto
  then obtain bal where bal: "checked_sub (ta_balance_quarks ?a) debit = Some bal"
    using funds by (auto simp: checked_sub_def word_le_nat_alt)
  from checked_sub_Some [OF bal] du \<open>unat (ta_balance_quarks ?a) < 2 ^ 128\<close>
  have fits: "unat bal + unat (ut_value ?t) < 2 ^ 128" by linarith
  have nonce: "ut_nonce ?t = ta_nonce ?a"
    using en by (simp add: spec_enabled_def ledger_of_def word_unat_eq_iff)
  with w obtain nn where nn: "checked_add (ta_nonce ?a) 1 = Some nn"
    by (auto simp: widths_suffice_def checked_add_def)
  obtain ns nr where "credit_recipient s ?t \<lparr>ta_balance_quarks = bal, ta_nonce = nn\<rparr> = Inr (ns, nr)"
    using credit_recipient_progress [of "\<lparr>ta_balance_quarks = bal, ta_nonce = nn\<rparr>" ?t s] fits w
    by (auto simp: widths_suffice_def)
  moreover obtain tg where "checked_add (ts_gas_used_total s) INTRINSIC_GAS = Some tg"
    using checked_add_fits [of "ts_gas_used_total s" INTRINSIC_GAS] w
    by (auto simp: widths_suffice_def)
  moreover obtain tb where "checked_add (ts_fees_burned_total s) (ucast TRANSFER_FEE_QUARKS) = Some tb"
    using checked_add_fits [of "ts_fees_burned_total s" "ucast TRANSFER_FEE_QUARKS"] w
    by (auto simp: widths_suffice_def)
  moreover obtain bg where "checked_add (bo_gas_used out) INTRINSIC_GAS = Some bg"
    using checked_add_fits [of "bo_gas_used out" INTRINSIC_GAS] w by (auto simp: widths_suffice_def)
  moreover obtain bb where "checked_add (bo_fees_burned out) TRANSFER_FEE_QUARKS = Some bb"
    using checked_add_fits [of "bo_fees_burned out" TRANSFER_FEE_QUARKS] w
    by (auto simp: widths_suffice_def)
  moreover have "\<not> ut_gas_limit ?t < INTRINSIC_GAS" "\<not> slot < ut_valid_after_slot ?t"
    using en by (simp_all add: spec_enabled_def not_less)
  ultimately show ?thesis
    using en debit bal nonce nn by (simp add: apply_transfer_def spec_enabled_def Let_def)
qed

section \<open>Bodies\<close>

lemma execute_proofs_append:
  "execute_proofs i s out slot (ps @ qs) =
     try_res (execute_proofs i s out slot ps)
       (\<lambda>(s', out'). execute_proofs (i + length ps) s' out' slot qs)"
proof (induction ps arbitrary: i s out)
  case Nil
  then show ?case by simp
next
  case (Cons p ps)
  then show ?case by (cases "apply_transfer s out p slot") auto
qed

abbreviation tx_of :: "authenticated_tx \<Rightarrow> unsigned_tx" where
  "tx_of p \<equiv> st_unsigned (at_transaction p)"

definition spec_body :: "ledger \<Rightarrow> authenticated_tx list \<Rightarrow> ledger" where
  "spec_body L ps = foldl (\<lambda>L p. spec_transfer L (ut_sender (tx_of p)) (ut_recipient (tx_of p))
     (unat (ut_value (tx_of p)))) L ps"

lemma execute_proofs_refines:
  assumes "execute_proofs i s out slot ps = Inr (s', out')"
  shows "ledger_of s' = spec_body (ledger_of s) ps \<and>
    unat (ts_gas_used_total s') = unat (ts_gas_used_total s) + 1000 * length ps \<and>
    unat (ts_fees_burned_total s') = unat (ts_fees_burned_total s) + 10000 * length ps \<and>
    unat (bo_gas_used out') = unat (bo_gas_used out) + 1000 * length ps \<and>
    unat (bo_fees_burned out') = unat (bo_fees_burned out) + 10000 * length ps \<and>
    bo_transaction_ids out' = bo_transaction_ids out @ map at_transaction_id ps"
  using assms
proof (induction ps arbitrary: i s out)
  case Nil
  then show ?case by (simp add: spec_body_def)
next
  case (Cons p ps)
  then obtain s1 out1 where a: "apply_transfer s out p slot = Inr (s1, out1)"
    and r: "execute_proofs (Suc i) s1 out1 slot ps = Inr (s', out')"
    by (auto simp: try_res_Inr_iff)
  from Cons.IH [OF r] apply_transfer_account [OF a] apply_transfer_totals [OF a] show ?case
    by (simp add: spec_body_def Let_def)
qed

lemma execute_proofs_total:
  assumes "execute_proofs i s out slot ps = Inr (s', out')" and "bm_wf (ts_accounts s)"
  shows "bm_wf (ts_accounts s') \<and> total_balance s' + 10000 * length ps = total_balance s"
  using assms
proof (induction ps arbitrary: i s out)
  case Nil
  then show ?case by simp
next
  case (Cons p ps)
  then obtain s1 out1 where a: "apply_transfer s out p slot = Inr (s1, out1)"
    and r: "execute_proofs (Suc i) s1 out1 slot ps = Inr (s', out')"
    by (auto simp: try_res_Inr_iff)
  from Cons.IH [OF r apply_transfer_wf [OF a Cons.prems(2)]] apply_transfer_total [OF a Cons.prems(2)]
  show ?case by simp
qed

lemma apply_transfer_widths:
  assumes "apply_transfer s out p slot = Inr (s', out')"
  shows "widths_suffice s out (tx_of p)"
proof (rule apply_transfer_elim [OF assms refl])
  let ?f = "ut_sender (tx_of p)" and ?r = "ut_recipient (tx_of p)" and ?v = "ut_value (tx_of p)"
  fix ns nr
  assume nonce: "unat (ta_nonce ns) = Suc (unat (ut_nonce (tx_of p)))"
    and credit: "?f \<noteq> ?r \<Longrightarrow> ?v \<noteq> 0 \<Longrightarrow> \<exists>r :: transfer_account. nr = Some r \<and>
       unat (ta_balance_quarks r) = unat (ta_balance_quarks (account s ?r)) + unat ?v \<and>
       ta_nonce r = ta_nonce (account s ?r)"
  have "unat (ta_balance_quarks (account s ?r)) + unat ?v < 2 ^ 128" if "?f \<noteq> ?r"
  proof (cases "?v = 0")
    case True
    then show ?thesis using unat_bound [of "ta_balance_quarks (account s ?r)"] by simp
  next
    case False
    with credit that obtain r :: transfer_account where "unat (ta_balance_quarks r) =
        unat (ta_balance_quarks (account s ?r)) + unat ?v" by blast
    with unat_bound [of "ta_balance_quarks r"] show ?thesis by simp
  qed
  moreover have "unat (ut_nonce (tx_of p)) + 1 < 2 ^ 64"
    using nonce unat_bound [of "ta_nonce ns"] by simp
  ultimately show ?thesis
    using apply_transfer_totals [OF assms] unat_bound [of "ts_gas_used_total s'"]
      unat_bound [of "ts_fees_burned_total s'"] unat_bound [of "bo_gas_used out'"]
      unat_bound [of "bo_fees_burned out'"]
    by (simp add: widths_suffice_def)
qed

text \<open>
  Transfers run in turn: each one's nonce is its sender's current one, which it advances. \<open>turns\<close>
  is the nonce of every account after a sequence of transfers.
\<close>

fun in_turn :: "(address \<Rightarrow> nat) \<Rightarrow> signed_tx list \<Rightarrow> bool" where
  "in_turn N [] \<longleftrightarrow> True"
| "in_turn N (t # ts) \<longleftrightarrow> unat (ut_nonce (st_unsigned t)) = N (ut_sender (st_unsigned t)) \<and>
     in_turn (N(ut_sender (st_unsigned t) := Suc (N (ut_sender (st_unsigned t))))) ts"

fun turns :: "(address \<Rightarrow> nat) \<Rightarrow> signed_tx list \<Rightarrow> address \<Rightarrow> nat" where
  "turns N [] = N"
| "turns N (t # ts) = turns (N(ut_sender (st_unsigned t) := Suc (N (ut_sender (st_unsigned t))))) ts"

lemma in_turn_append: "in_turn N (ts @ us) \<longleftrightarrow> in_turn N ts \<and> in_turn (turns N ts) us"
  by (induction ts arbitrary: N) auto

lemma turns_append: "turns N (ts @ us) = turns (turns N ts) us"
  by (induction ts arbitrary: N) auto

lemma in_turn_bound:
  assumes "in_turn N ts" "t \<in> set ts"
  shows "N (ut_sender (st_unsigned t)) \<le> unat (ut_nonce (st_unsigned t))"
  using assms
proof (induction ts arbitrary: N)
  case (Cons u ts)
  then show ?case
    by (cases "t = u") (force split: if_splits)+
qed simp

text \<open>A sequence in which every transfer has its turn has no transfer twice.\<close>

lemma in_turn_distinct: "in_turn N ts \<Longrightarrow> distinct ts"
proof (induction ts arbitrary: N)
  case (Cons t ts)
  have "t \<notin> set ts"
  proof
    assume "t \<in> set ts"
    with Cons.prems in_turn_bound
      [of "N(ut_sender (st_unsigned t) := Suc (N (ut_sender (st_unsigned t))))" ts t]
    show False by simp
  qed
  with Cons show ?case by auto
qed simp

abbreviation nonces :: "transfer_state \<Rightarrow> address \<Rightarrow> nat" where
  "nonces s \<equiv> \<lambda>a. snd (ledger_of s a)"

lemma spec_transfer_nonce:
  "(\<lambda>a. snd (spec_transfer L f t v a)) = (\<lambda>a. snd (L a))(f := Suc (snd (L f)))"
  by (auto simp: spec_transfer_def Let_def fun_eq_iff)

lemma execute_proofs_in_turn:
  assumes "execute_proofs i s out slot ps = Inr (s', out')"
  shows "in_turn (nonces s) (map at_transaction ps) \<and> nonces s' = turns (nonces s) (map at_transaction ps)"
  using assms
proof (induction ps arbitrary: i s out)
  case (Cons p ps)
  then obtain s1 out1 where a: "apply_transfer s out p slot = Inr (s1, out1)"
    and r: "execute_proofs (Suc i) s1 out1 slot ps = Inr (s', out')"
    by (auto simp: try_res_Inr_iff)
  have "nonces s1 = (nonces s)(ut_sender (tx_of p) := Suc (nonces s (ut_sender (tx_of p))))"
    using apply_transfer_account [OF a] by (simp add: Let_def spec_transfer_nonce)
  with Cons.IH [OF r] apply_transfer_enabled [OF a] show ?case
    by (simp add: spec_enabled_def)
qed simp

section \<open>Staged bodies\<close>

abbreviation body_proofs :: "'k crypto \<Rightarrow> auth_context \<Rightarrow> bytes list \<Rightarrow> body_error + authenticated_tx list" where
  "body_proofs C ctx body \<equiv> traverse (\<lambda>i b. map_err (\<lambda>e. \<lparr>bx_transaction_index = i,
     bx_cause = Authentication e\<rparr>) (authenticate C b ctx None)) 0 body"

lemma body_proofs_Inr_iff:
  "body_proofs C ctx body = Inr ps \<longleftrightarrow>
     list_all2 (\<lambda>b p. authenticate C b ctx None = Inr p) body ps"
  by (auto simp: traverse_Inr_iff list_all2_conv_all_nth)

lemma stage_body_elim:
  assumes "stage_body C base ctx slot body = Inr sb"
  obtains ps out where "list_all2 (\<lambda>b p. authenticate C b ctx None = Inr p) body ps"
    "execute_proofs 0 base default_outcome slot ps = Inr (sb_candidate sb, out)"
    "sb_base sb = base"
    "sb_record sb = \<lparr>ab_context = ctx, ab_slot = slot, ab_transactions = body, ab_outcome = out\<rparr>"
  using assms that
  by (auto simp: stage_body_def try_res_Inr_iff body_proofs_Inr_iff)

lemma stage_body_intro:
  assumes "list_all2 (\<lambda>b p. authenticate C b ctx None = Inr p) body ps"
    "execute_proofs 0 base default_outcome slot ps = Inr (s, out)"
  shows "stage_body C base ctx slot body = Inr \<lparr>sb_base = base, sb_candidate = s,
     sb_record = \<lparr>ab_context = ctx, ab_slot = slot, ab_transactions = body, ab_outcome = out\<rparr>\<rparr>"
proof -
  have "body_proofs C ctx body = Inr ps"
    using assms(1) by (simp add: body_proofs_Inr_iff)
  then show ?thesis
    using assms(2) by (simp add: stage_body_def)
qed

section \<open>Stores\<close>

text \<open>
  The contract of \<open>AtomicBodyStore\<close>: a failed \<open>persist\<close> leaves what is committed unchanged, a
  successful one was offered the committed state as its base and commits candidate and record
  together.
\<close>

locale atomic_body_store =
  fixes persist :: "('s, 'e) persister"
    and committed :: "'s \<Rightarrow> transfer_state \<times> applied_body list"
  assumes persist_err: "persist st b c r = (Inl e, st') \<Longrightarrow> committed st' = committed st"
    and persist_ok: "persist st b c r = (Inr u, st') \<Longrightarrow>
      fst (committed st) = b \<and> committed st' = (c, snd (committed st) @ [r])"
begin

lemma apply_body_cases:
  assumes "apply_body C persist live ctx slot body st = (res, live', st')"
  obtains (failed) e where "res = Inl e" "live' = live" "committed st' = committed st"
  | (applied) sb where "res = Inr (ab_outcome (sb_record sb))"
      "stage_body C live ctx slot body = Inr sb" "fst (committed st) = live"
      "live' = sb_candidate sb" "committed st' = (live', snd (committed st) @ [sb_record sb])"
proof (cases "stage_body C live ctx slot body")
  case (Inl e)
  with assms have "res = Inl (Body e)" "live' = live" "st' = st"
    by (auto simp: apply_body_def)
  then show thesis by (auto intro: failed)
next
  case (Inr sb)
  then have base: "sb_base sb = live"
    by (rule stage_body_elim) simp
  obtain r st2 where p: "persist st live (sb_candidate sb) (sb_record sb) = (r, st2)"
    by fastforce
  show thesis
  proof (cases r)
    case (Inl e)
    with assms Inr base p have "res = Inl (Persistence e)" "live' = live" "st' = st2"
      by (auto simp: apply_body_def commit_def)
    with persist_err p Inl show thesis by (auto intro: failed)
  next
    case (Inr u)
    with assms \<open>stage_body C live ctx slot body = Inr sb\<close> base p
    have "res = Inr (ab_outcome (sb_record sb))" "live' = sb_candidate sb" "st' = st2"
      by (auto simp: apply_body_def commit_def)
    with persist_ok p Inr \<open>stage_body C live ctx slot body = Inr sb\<close> show thesis
      by (auto intro: applied)
  qed
qed

text \<open>The live state and the committed one never diverge.\<close>

lemma apply_body_in_sync:
  assumes "apply_body C persist live ctx slot body st = (res, live', st')"
    and "fst (committed st) = live"
  shows "fst (committed st') = live'"
  using assms(1) by (rule apply_body_cases) (use assms(2) in auto)

end

interpretation memory: atomic_body_store memory_persist "\<lambda>st. (ms_snapshot st, ms_records st)"
  by unfold_locales (auto simp: memory_persist_def Let_def split: if_splits)

section \<open>Failures\<close>

text \<open>
  After authentication the executor can only fail for state reasons: the profile guards of
  \<open>apply_transfer\<close> repeat what the authentication has established, and the nonce can be advanced.
\<close>

lemma authenticated_profile:
  assumes "authenticate C b ctx claimed = Inr p"
  shows "validate_profile (tx_of p) ctx = Inr ()" and "signed_from_bytes C b = Inr (at_transaction p)"
  using assms by (auto simp: authenticate_def try_res_Inr_iff split: if_splits)

lemma profile_fields:
  assumes "validate_profile t ctx = Inr ()"
  shows "ut_native_rules_version t = ac_native_rules_version ctx" "ut_kind t = TRANSFER_KIND"
    "ut_token_id t = ETX_TOKEN_ID" "\<not> ut_gas_limit t < INTRINSIC_GAS" "ut_nonce t \<noteq> - 1"
  using assms by (auto simp: validate_profile_def try_res_Inr_iff validate_layout_Inr_iff split: if_splits)

lemma checked_add_one: "(n :: u64) \<noteq> - 1 \<Longrightarrow> checked_add n 1 \<noteq> None"
proof
  assume "n \<noteq> - 1" and "checked_add n 1 = None"
  then have "2 ^ 64 \<le> unat n + 1"
    by (simp add: checked_add_None_iff)
  with unat_bound [of n] have "unat n = unat (- 1 :: u64)"
    by (simp add: unsigned_minus_1_eq_mask mask_eq_exp_minus_1)
  with \<open>n \<noteq> - 1\<close> show False
    by (simp only: word_unat_eq_iff)
qed

lemma credit_recipient_fails:
  assumes "credit_recipient s t ns = Inl e"
  shows "e = Overflow RecipientBalance"
  using assms by (auto simp: credit_recipient_def try_res_Inl_iff Let_def split: if_splits)

text \<open>The failures that remain.\<close>

definition state_failure :: "transfer_error \<Rightarrow> bool" where
  "state_failure e = (case e of NonceMismatch _ _ \<Rightarrow> True | NotMature _ _ \<Rightarrow> True
     | InsufficientCombinedFunds _ _ \<Rightarrow> True | Overflow Nonce \<Rightarrow> False | Overflow _ \<Rightarrow> True
     | _ \<Rightarrow> False)"

lemma apply_transfer_fails:
  assumes "apply_transfer s out p slot = Inl e" and "validate_profile (tx_of p) ctx = Inr ()"
    and "ac_native_rules_version ctx = 1"
  shows "state_failure e"
  using assms(1,3) profile_fields [OF assms(2)] checked_add_one [of "ut_nonce (tx_of p)"]
  unfolding apply_transfer_def Let_def
  by (auto simp: try_res_Inl_iff state_failure_def dest!: credit_recipient_fails split: if_splits)

text \<open>Two accounts never hold more than the supply, so the credit cannot overflow below 2 ^ 128.\<close>

lemma account_pair_le_total:
  assumes "bm_wf (ts_accounts s)" "a \<noteq> b"
  shows "unat (ta_balance_quarks (account s a)) + unat (ta_balance_quarks (account s b)) \<le> total_balance s"
  using bm.weigh_two_le [OF assms, of "\<lambda>x. unat (ta_balance_quarks x)" default_account,
      unfolded account_weight]
  by (simp add: total_balance_def default_account_def)

lemma apply_transfer_no_recipient_overflow:
  assumes "bm_wf (ts_accounts s)" "total_balance s < 2 ^ 128"
  shows "apply_transfer s out p slot \<noteq> Inl (Overflow RecipientBalance)"
proof
  let ?t = "tx_of p" and ?sender = "account s (ut_sender (tx_of p))"
  assume "apply_transfer s out p slot = Inl (Overflow RecipientBalance)"
  then obtain debit bal nn where
    arith: "checked_add (ut_value ?t) (ucast TRANSFER_FEE_QUARKS) = Some debit"
      "checked_sub (ta_balance_quarks ?sender) debit = Some bal"
    and cr: "credit_recipient s ?t \<lparr>ta_balance_quarks = bal, ta_nonce = nn\<rparr> =
      Inl (Overflow RecipientBalance)"
    unfolding apply_transfer_def Let_def
    by (auto simp: try_res_Inl_iff split: if_splits)
  note nat = checked_add_Some [OF arith(1)] checked_sub_Some [OF arith(2)]
  have "unat bal + unat (ut_value ?t) < 2 ^ 128"
    using nat unat_bound [of "ta_balance_quarks ?sender"] by simp
  moreover have "unat (ta_balance_quarks (account s (ut_recipient ?t))) + unat (ut_value ?t) < 2 ^ 128"
    if "ut_sender ?t \<noteq> ut_recipient ?t"
    using account_pair_le_total [OF assms(1) that] nat assms(2) by simp
  ultimately show False
    using credit_recipient_progress [of "\<lparr>ta_balance_quarks = bal, ta_nonce = nn\<rparr>" ?t s] cr by auto
qed

lemma execute_proofs_Inl:
  assumes "execute_proofs i s out slot ps = Inl x"
  obtains k s1 out1 where "k < length ps" "bx_transaction_index x = i + k"
    "execute_proofs i s out slot (take k ps) = Inr (s1, out1)"
    "apply_transfer s1 out1 (ps ! k) slot = Inl (bx_cause x)"
  using assms
proof (induction ps arbitrary: i s out thesis)
  case Nil
  then show ?case by simp
next
  case (Cons p ps)
  show ?case
  proof (cases "apply_transfer s out p slot")
    case (Inl e)
    with Cons.prems(2) have "x = \<lparr>bx_transaction_index = i, bx_cause = e\<rparr>" by simp
    with Inl show ?thesis
      by (intro Cons.prems(1) [of 0 s out]) simp_all
  next
    case (Inr r)
    obtain s' out' where r: "r = (s', out')" by fastforce
    with Inr Cons.prems(2) have "execute_proofs (Suc i) s' out' slot ps = Inl x" by simp
    then obtain k s1 out1 where "k < length ps" "bx_transaction_index x = Suc i + k"
      "execute_proofs (Suc i) s' out' slot (take k ps) = Inr (s1, out1)"
      "apply_transfer s1 out1 (ps ! k) slot = Inl (bx_cause x)"
      using Cons.IH by blast
    with Inr r show ?thesis
      by (intro Cons.prems(1) [of "Suc k" s1 out1]) simp_all
  qed
qed

section \<open>Replay of a stored history\<close>

text \<open>
  A receiver that starts from the same state applies the recorded bodies again; \<open>None\<close> when one
  fails or gives another record.
\<close>

fun replay :: "'k crypto \<Rightarrow> transfer_state \<Rightarrow> applied_body list \<Rightarrow> transfer_state option" where
  "replay C s [] = Some s"
| "replay C s (r # rs) =
     (case stage_body C s (ab_context r) (ab_slot r) (ab_transactions r) of
        Inl _ \<Rightarrow> None
      | Inr sb \<Rightarrow> if sb_record sb = r then replay C (sb_candidate sb) rs else None)"

lemma replay_append:
  "replay C s (rs @ qs) = (case replay C s rs of None \<Rightarrow> None | Some s' \<Rightarrow> replay C s' qs)"
  by (induction rs arbitrary: s) (auto split: sum.splits)

lemma replay_step:
  assumes "replay C s (r # rs) = Some s'"
  obtains sb where "stage_body C s (ab_context r) (ab_slot r) (ab_transactions r) = Inr sb"
    "sb_record sb = r" "replay C (sb_candidate sb) rs = Some s'"
  using assms that by (auto split: sum.splits if_splits)

lemma stage_body_replays:
  "stage_body C s ctx slot body = Inr sb \<Longrightarrow> replay C s [sb_record sb] = Some (sb_candidate sb)"
  by (frule stage_body_elim) auto

lemma stage_body_conserves:
  assumes "stage_body C s ctx slot body = Inr sb" and "bm_wf (ts_accounts s)"
  shows "bm_wf (ts_accounts (sb_candidate sb))"
    and "total_balance (sb_candidate sb) + unat (ts_fees_burned_total (sb_candidate sb)) =
       total_balance s + unat (ts_fees_burned_total s)"
proof -
  from assms(1) obtain ps out where
    "execute_proofs 0 s default_outcome slot ps = Inr (sb_candidate sb, out)"
    by (rule stage_body_elim)
  note e = execute_proofs_total [OF this assms(2)] execute_proofs_refines [OF this]
  then show "bm_wf (ts_accounts (sb_candidate sb))"
    "total_balance (sb_candidate sb) + unat (ts_fees_burned_total (sb_candidate sb)) =
       total_balance s + unat (ts_fees_burned_total s)"
    by simp_all
qed

lemma replay_conserves:
  assumes "replay C s rs = Some s'" and "bm_wf (ts_accounts s)"
  shows "bm_wf (ts_accounts s') \<and> total_balance s' + unat (ts_fees_burned_total s') =
     total_balance s + unat (ts_fees_burned_total s)"
  using assms
proof (induction rs arbitrary: s)
  case (Cons r rs)
  from Cons.prems(1) obtain sb where
    "stage_body C s (ab_context r) (ab_slot r) (ab_transactions r) = Inr sb"
    and "replay C (sb_candidate sb) rs = Some s'"
    by (rule replay_step)
  with Cons.IH stage_body_conserves [OF this(1) Cons.prems(2)] show ?case by simp
qed simp

text \<open>The transfers of a stored history all had their turn, across bodies too.\<close>

lemma list_all2_functional_map:
  assumes "list_all2 (\<lambda>b p. f b = Inr (g p)) bs ps"
  shows "map f bs = map Inr (map g ps)"
  using assms by (induction rule: list_all2_induct) auto

lemma stage_body_in_turn:
  assumes "stage_body C s ctx slot body = Inr sb"
  obtains ts where "map (signed_from_bytes C) body = map Inr ts"
    "in_turn (nonces s) ts" "nonces (sb_candidate sb) = turns (nonces s) ts"
proof (rule stage_body_elim [OF assms])
  fix ps out
  assume l: "list_all2 (\<lambda>b p. authenticate C b ctx None = Inr p) body ps"
    and e: "execute_proofs 0 s default_outcome slot ps = Inr (sb_candidate sb, out)"
  have "list_all2 (\<lambda>b p. signed_from_bytes C b = Inr (at_transaction p)) body ps"
    using l by (rule list_all2_mono) (rule authenticated_profile(2))
  then have "map (signed_from_bytes C) body = map Inr (map at_transaction ps)"
    by (rule list_all2_functional_map)
  with execute_proofs_in_turn [OF e] show thesis
    by (intro that) simp_all
qed

lemma replay_in_turn:
  assumes "replay C s rs = Some s'"
  shows "\<exists>ts. map (signed_from_bytes C) (concat (map ab_transactions rs)) = map Inr ts \<and>
     in_turn (nonces s) ts \<and> nonces s' = turns (nonces s) ts"
  using assms
proof (induction rs arbitrary: s)
  case Nil
  then show ?case by auto
next
  case (Cons r rs)
  from Cons.prems obtain sb where
    st: "stage_body C s (ab_context r) (ab_slot r) (ab_transactions r) = Inr sb"
    and "replay C (sb_candidate sb) rs = Some s'"
    by (rule replay_step)
  with Cons.IH obtain us where us: "map (signed_from_bytes C) (concat (map ab_transactions rs)) = map Inr us"
    "in_turn (nonces (sb_candidate sb)) us" "nonces s' = turns (nonces (sb_candidate sb)) us"
    by blast
  from st obtain ts where "map (signed_from_bytes C) (ab_transactions r) = map Inr ts"
    "in_turn (nonces s) ts" "nonces (sb_candidate sb) = turns (nonces s) ts"
    by (rule stage_body_in_turn)
  with us have "map (signed_from_bytes C) (concat (map ab_transactions (r # rs))) = map Inr (ts @ us)"
    "in_turn (nonces s) (ts @ us)" "nonces s' = turns (nonces s) (ts @ us)"
    by (simp_all add: in_turn_append turns_append)
  then show ?case by blast
qed

section \<open>The node of the replay example as a state machine\<close>

text \<open>
  A configuration is the live state with its store. A step applies any body, or arms the injected
  failure of the store.
\<close>

inductive node_step :: "'k crypto \<Rightarrow> transfer_state \<times> memory_store \<Rightarrow> transfer_state \<times> memory_store \<Rightarrow> bool"
  for C where
  applied: "apply_body C memory_persist live ctx slot body st = (res, live', st') \<Longrightarrow>
     node_step C (live, st) (live', st')"
| armed: "node_step C (live, st) (live, st\<lparr>ms_fail_next := True\<rparr>)"

inductive_cases node_stepE: "node_step C (live, st) c"

inductive reachable :: "'k crypto \<Rightarrow> transfer_state \<Rightarrow> transfer_state \<times> memory_store \<Rightarrow> bool"
  for C initial where
  start: "reachable C initial (initial, memory_store_new initial)"
| step: "reachable C initial c \<Longrightarrow> node_step C c c' \<Longrightarrow> reachable C initial c'"

definition store_inv :: "'k crypto \<Rightarrow> transfer_state \<Rightarrow> transfer_state \<times> memory_store \<Rightarrow> bool" where
  "store_inv C initial c \<longleftrightarrow> ms_snapshot (snd c) = fst c \<and>
     replay C initial (ms_records (snd c)) = Some (fst c)"

lemma node_step_inv:
  assumes "store_inv C initial c" "node_step C c c'"
  shows "store_inv C initial c'"
  using assms(2,1)
proof cases
  case (applied live ctx slot body st res live' st')
  from applied(3) show ?thesis
  proof (rule memory.apply_body_cases)
    fix sb
    assume "stage_body C live ctx slot body = Inr sb" "live' = sb_candidate sb"
      "(ms_snapshot st', ms_records st') =
         (live', snd (ms_snapshot st, ms_records st) @ [sb_record sb])"
    with assms(1) applied stage_body_replays show ?thesis
      by (auto simp: store_inv_def replay_append simp del: replay.simps(2))
  qed (use assms(1) applied in \<open>auto simp: store_inv_def\<close>)
qed (auto simp: store_inv_def)

lemma reachable_inv: "reachable C initial c \<Longrightarrow> store_inv C initial c"
  by (induction rule: reachable.induct)
    (auto simp: memory_store_new_def store_inv_def [of _ _ "(_, _)"] intro: node_step_inv)

section \<open>Properties\<close>

text \<open>A concrete state, proof and body for the witnesses.\<close>

definition demo_proof :: "u64 \<Rightarrow> u128 \<Rightarrow> authenticated_tx" where
  "demo_proof n v = (let b = signed_concat (demo_signed n v) in
     \<lparr>at_transaction = demo_signed n v, at_transaction_id = c_keccak demo_crypto (ID_DOMAIN @ b),
      at_signing_digest = c_keccak demo_crypto (SIGNING_DOMAIN @ take 134 b),
      at_public_key = replicate 65 7\<rparr>)"

definition demo_state :: transfer_state where
  "demo_state = \<lparr>ts_accounts = [(replicate 20 7, \<lparr>ta_balance_quarks = 100000, ta_nonce = 0\<rparr>)],
     ts_gas_used_total = 0, ts_fees_burned_total = 0\<rparr>"

lemma demo_authenticates:
  assumes "n \<noteq> - 1"
  shows "authenticate demo_crypto (signed_concat (demo_signed n v)) demo_context None = Inr (demo_proof n v)"
proof -
  have "field 65 (replicate 65 (7 :: u8)) 0 = replicate 65 7" by (simp add: field_def)
  moreover have "c_recover_from_prehash demo_crypto d sig i = Some (replicate 65 7)"
    "c_to_encoded_point demo_crypto k False = k" for d sig i k
    by (simp_all add: demo_crypto_def)
  moreover have "validate_profile (st_unsigned (demo_signed n v)) demo_context = Inr ()"
    "ut_sender (st_unsigned (demo_signed n v)) = replicate 20 7"
    using assms by (simp_all add: demo_signed_def demo_profile) (simp add: demo_unsigned_def)
  ultimately show ?thesis
    by (subst authenticate_decoded [OF signed_dec_enc [OF demo_signed_wf]])
      (simp add: demo_proof_def Let_def)
qed

lemma demo_state_wf: "bm_wf (ts_accounts demo_state)"
  by (simp add: demo_state_def bm_wf_def)

lemma demo_account [simp]:
  "account demo_state (replicate 20 7) = \<lparr>ta_balance_quarks = 100000, ta_nonce = 0\<rparr>"
  "account demo_state (replicate 20 8) = \<lparr>ta_balance_quarks = 0, ta_nonce = 0\<rparr>"
  by (simp_all add: account_def demo_state_def default_account_def)

lemma demo_applies: "\<exists>s out. apply_transfer demo_state default_outcome (demo_proof 0 5) 0 = Inr (s, out)"
  by (rule apply_transfer_progress)
    (simp_all add: spec_enabled_def widths_suffice_def demo_proof_def Let_def demo_signed_def
      demo_unsigned_def ledger_of_def default_outcome_def demo_state_def [THEN arg_cong, of ts_gas_used_total]
      demo_state_def [THEN arg_cong, of ts_fees_burned_total] TRANSFER_KIND_def ETX_TOKEN_ID_def
      INTRINSIC_GAS_def)

lemma demo_stages:
  "\<exists>sb. stage_body demo_crypto demo_state demo_context 0 [signed_concat (demo_signed 0 5)] = Inr sb"
proof -
  obtain s out where "apply_transfer demo_state default_outcome (demo_proof 0 5) 0 = Inr (s, out)"
    using demo_applies by blast
  then have "execute_proofs 0 demo_state default_outcome 0 [demo_proof 0 5] = Inr (s, out)"
    by simp
  then show ?thesis
    using stage_body_intro [of demo_crypto demo_context "[signed_concat (demo_signed 0 5)]" "[demo_proof 0 5]"]
      demo_authenticates [of 0 5] by (intro exI) simp
qed

lemma demo_reachable:
  obtains live st where "reachable demo_crypto demo_state (live, st)"
    "map ab_transactions (ms_records st) = [[signed_concat (demo_signed 0 5)]]"
proof -
  obtain sb where sb: "stage_body demo_crypto demo_state demo_context 0 [signed_concat (demo_signed 0 5)] = Inr sb"
    using demo_stages by blast
  let ?st = "(memory_store_new demo_state)\<lparr>ms_snapshot := sb_candidate sb, ms_records := [sb_record sb]\<rparr>"
  from sb have rec: "sb_base sb = demo_state"
    "ab_transactions (sb_record sb) = [signed_concat (demo_signed 0 5)]"
    by (rule stage_body_elim, simp)+
  with sb have "node_step demo_crypto (demo_state, memory_store_new demo_state) (sb_candidate sb, ?st)"
    by (intro node_step.applied [of _ _ demo_context 0 "[signed_concat (demo_signed 0 5)]" _
          "Inr (ab_outcome (sb_record sb))"])
      (simp add: apply_body_def commit_def memory_persist_def memory_store_new_def)
  then have "reachable demo_crypto demo_state (sb_candidate sb, ?st)"
    by (rule reachable.step [OF reachable.start])
  with rec show thesis
    by (intro that [of "sb_candidate sb" ?st]) simp_all
qed

text \<open>C8. \<open>apply_transfer\<close> accepts a transfer exactly when the abstract ledger allows it (rules,
  kind, asset, gas, current nonce, maturity, value plus the fixed fee covered by the balance) and no
  fixed-width total overflows; what it returns is then the abstract transfer, computed with exact
  arithmetic: value and fee leave the sender, its nonce advances by one, the recipient is credited,
  no other account changes, and the identifier is appended to the outcome.\<close>

theorem apply_transfer_spec:
  "case apply_transfer s out p slot of
     Inr (s', out') \<Rightarrow> spec_enabled (ledger_of s) (tx_of p) slot \<and> widths_suffice s out (tx_of p) \<and>
       ledger_of s' = spec_transfer (ledger_of s) (ut_sender (tx_of p)) (ut_recipient (tx_of p))
         (unat (ut_value (tx_of p))) \<and>
       unat (ts_gas_used_total s') = unat (ts_gas_used_total s) + 1000 \<and>
       unat (ts_fees_burned_total s') = unat (ts_fees_burned_total s) + 10000 \<and>
       bo_transaction_ids out' = bo_transaction_ids out @ [at_transaction_id p]
   | Inl e \<Rightarrow> \<not> (spec_enabled (ledger_of s) (tx_of p) slot \<and> widths_suffice s out (tx_of p))"
proof (cases "apply_transfer s out p slot")
  case (Inl e)
  then show ?thesis using apply_transfer_progress [of s p slot out] by auto
next
  case (Inr r)
  obtain s' out' where r: "r = (s', out')" by fastforce
  with Inr have a: "apply_transfer s out p slot = Inr (s', out')" by simp
  show ?thesis
    using apply_transfer_enabled [OF a] apply_transfer_widths [OF a] apply_transfer_account [OF a]
      apply_transfer_totals [OF a] Inr r by (simp add: Let_def)
qed

text \<open>C36. A staged body refines the abstract ledger: every entry of the body authenticates, the
  candidate's ledger is the abstract result of the entries in body order, the record names exactly
  the given bytes, the outcome lists their identifiers in order with 1000 gas and 10000 burned
  quarks each, and the base the body was staged on is kept.\<close>

theorem stage_body_refines:
  assumes "stage_body C base ctx slot body = Inr sb"
  shows "\<exists>ps. list_all2 (\<lambda>b p. authenticate C b ctx None = Inr p) body ps \<and>
     ledger_of (sb_candidate sb) = spec_body (ledger_of base) ps \<and> sb_base sb = base \<and>
     ab_transactions (sb_record sb) = body \<and>
     bo_transaction_ids (ab_outcome (sb_record sb)) = map at_transaction_id ps \<and>
     unat (bo_gas_used (ab_outcome (sb_record sb))) = 1000 * length body \<and>
     unat (bo_fees_burned (ab_outcome (sb_record sb))) = 10000 * length body"
proof (rule stage_body_elim [OF assms])
  fix ps out
  assume l: "list_all2 (\<lambda>b p. authenticate C b ctx None = Inr p) body ps"
    and e: "execute_proofs 0 base default_outcome slot ps = Inr (sb_candidate sb, out)"
    and rest: "sb_base sb = base"
      "sb_record sb = \<lparr>ab_context = ctx, ab_slot = slot, ab_transactions = body, ab_outcome = out\<rparr>"
  from l have "length body = length ps" by (rule list_all2_lengthD)
  with l rest execute_proofs_refines [OF e] show ?thesis
    by (intro exI [of _ ps]) (simp add: default_outcome_def)
qed

theorem stage_body_refines_witness:
  "\<exists>sb. stage_body demo_crypto demo_state demo_context 0 [signed_concat (demo_signed 0 5)] = Inr sb \<and>
     unat (bo_gas_used (ab_outcome (sb_record sb))) = 1000"
proof -
  obtain sb where sb: "stage_body demo_crypto demo_state demo_context 0 [signed_concat (demo_signed 0 5)] = Inr sb"
    using demo_stages by blast
  from stage_body_refines [OF sb] sb show ?thesis by auto
qed

text \<open>Every configuration that the replay node can reach, through any sequence of applied or
  rejected bodies and injected store failures, has its live state equal to the stored snapshot, and
  a receiver that starts from the initial state and replays the stored records, each authenticated
  and executed again, accepts all of them and ends in the same state.\<close>

theorem reachable_store_replays:
  assumes "reachable C initial (live, st)"
  shows "ms_snapshot st = live \<and> replay C initial (ms_records st) = Some live"
  using reachable_inv [OF assms] by (simp add: store_inv_def)

theorem reachable_store_replays_witness:
  "\<exists>live st. reachable demo_crypto demo_state (live, st) \<and> length (ms_records st) = 1 \<and>
     ms_snapshot st = live \<and> replay demo_crypto demo_state (ms_records st) = Some live"
proof -
  obtain live st where r: "reachable demo_crypto demo_state (live, st)"
    and "map ab_transactions (ms_records st) = [[signed_concat (demo_signed 0 5)]]"
    by (rule demo_reachable)
  with reachable_store_replays [OF r] show ?thesis
    by (metis length_map One_nat_def list.size(3,4) Suc_eq_plus1 add.commute)
qed

text \<open>No transfer is ever applied twice: in the records of any reachable store, across all
  bodies, no signed transaction occurs more than once, and each entry carried the nonce that its
  sender had at that point.\<close>

theorem reachable_records_distinct:
  assumes "reachable C initial (live, st)"
  shows "distinct (concat (map ab_transactions (ms_records st)))"
proof -
  have "replay C initial (ms_records st) = Some live"
    using reachable_inv [OF assms] by (simp add: store_inv_def)
  then obtain ts where ts: "map (signed_from_bytes C) (concat (map ab_transactions (ms_records st))) = map Inr ts"
    and "in_turn (nonces initial) ts"
    using replay_in_turn by blast
  then have "distinct ts" using in_turn_distinct by blast
  then have "distinct (map (Inr :: _ \<Rightarrow> tx_error + _) ts)" by (simp add: distinct_map)
  then show ?thesis unfolding ts [symmetric] by (simp add: distinct_map)
qed

theorem reachable_records_distinct_witness:
  "\<exists>live st. reachable demo_crypto demo_state (live, st) \<and> ms_records st \<noteq> [] \<and>
     distinct (concat (map ab_transactions (ms_records st)))"
proof -
  obtain live st where r: "reachable demo_crypto demo_state (live, st)"
    and "map ab_transactions (ms_records st) = [[signed_concat (demo_signed 0 5)]]"
    by (rule demo_reachable)
  with reachable_records_distinct [OF r] show ?thesis by (metis list.map_disc_iff not_Cons_self2)
qed

text \<open>Supply is conserved: in every reachable configuration, the sum of all balances plus the
  total of burned fees is what it was initially, and the account map stays sorted without
  duplicate addresses.\<close>

theorem reachable_supply_conserved:
  assumes "reachable C initial (live, st)" and "bm_wf (ts_accounts initial)"
  shows "bm_wf (ts_accounts live) \<and>
     total_balance live + unat (ts_fees_burned_total live) =
       total_balance initial + unat (ts_fees_burned_total initial)"
  using reachable_inv [OF assms(1)] replay_conserves [OF _ assms(2), of C "ms_records st" live]
  by (simp add: store_inv_def)

theorem reachable_supply_conserved_witness:
  "\<exists>live st. reachable demo_crypto demo_state (live, st) \<and> ms_records st \<noteq> [] \<and>
     total_balance live + unat (ts_fees_burned_total live) = 100000"
proof -
  obtain live st where r: "reachable demo_crypto demo_state (live, st)"
    and "map ab_transactions (ms_records st) = [[signed_concat (demo_signed 0 5)]]"
    by (rule demo_reachable)
  moreover from this(2) have "ms_records st \<noteq> []" by auto
  moreover have "total_balance demo_state + unat (ts_fees_burned_total demo_state) = 100000"
    by (simp add: total_balance_def demo_state_def bm_sum_def)
  ultimately show ?thesis
    using reachable_supply_conserved [OF r demo_state_wf] by auto
qed

text \<open>Authentication comes first: \<open>stage_body\<close> fails with an authentication error at index \<open>i\<close>
  exactly when entry \<open>i\<close> is the first one of the whole body that does not authenticate, whatever the
  state and the execution of the entries before it would have given.\<close>

theorem stage_body_authenticates_first:
  "stage_body C base ctx slot body = Inl \<lparr>bx_transaction_index = i, bx_cause = Authentication e\<rparr> \<longleftrightarrow>
     i < length body \<and> authenticate C (body ! i) ctx None = Inl e \<and>
     (\<forall>j < i. \<exists>p. authenticate C (body ! j) ctx None = Inr p)"
proof -
  have "execute_proofs 0 base default_outcome slot ps \<noteq>
      Inl \<lparr>bx_transaction_index = i, bx_cause = Authentication e\<rparr>" for ps
  proof
    assume "execute_proofs 0 base default_outcome slot ps =
      Inl \<lparr>bx_transaction_index = i, bx_cause = Authentication e\<rparr>"
    then obtain k s1 out1 where "apply_transfer s1 out1 (ps ! k) slot = Inl (Authentication e)"
      by (rule execute_proofs_Inl) simp
    then show False
      unfolding apply_transfer_def Let_def
      by (auto simp: try_res_Inl_iff dest!: credit_recipient_fails split: if_splits)
  qed
  then have "stage_body C base ctx slot body = Inl \<lparr>bx_transaction_index = i, bx_cause = Authentication e\<rparr> \<longleftrightarrow>
      body_proofs C ctx body = Inl \<lparr>bx_transaction_index = i, bx_cause = Authentication e\<rparr>"
    by (auto simp: stage_body_def try_res_Inl_iff)
  also have "\<dots> \<longleftrightarrow> i < length body \<and> authenticate C (body ! i) ctx None = Inl e \<and>
     (\<forall>j < i. \<exists>p. authenticate C (body ! j) ctx None = Inr p)"
    by (auto simp: traverse_Inl_iff map_err_Inl_iff is_ok_iff)
  finally show ?thesis .
qed

theorem stage_body_authenticates_first_witness:
  "stage_body demo_crypto demo_state demo_context 0 [signed_concat (demo_signed 9 5), []] =
     Inl \<lparr>bx_transaction_index = 1, bx_cause = Authentication (InvalidLength 199 0)\<rparr>"
proof (subst stage_body_authenticates_first, intro conjI allI impI)
  show "authenticate demo_crypto ([signed_concat (demo_signed 9 5), []] ! 1) demo_context None =
      Inl (InvalidLength 199 0)"
    by (simp add: authenticate_def signed_from_bytes_def require_length_def native_lens)
qed (use demo_authenticates [of 9 5] in auto)

text \<open>Once every entry has authenticated under rules version 1, the executor can only fail for
  state reasons (nonce, maturity, funds, or an accounting total at its width), at the reported index
  and after executing exactly the entries before it; and while the supply fits \<open>u128\<close>, a recipient's
  balance never overflows.\<close>

theorem stage_body_execution_failures:
  assumes "stage_body C base ctx slot body = Inl x"
    and "\<forall>b \<in> set body. \<exists>p. authenticate C b ctx None = Inr p"
    and "ac_native_rules_version ctx = 1"
    and "bm_wf (ts_accounts base)" and "total_balance base < 2 ^ 128"
  shows "state_failure (bx_cause x) \<and> bx_cause x \<noteq> Overflow RecipientBalance \<and>
     bx_transaction_index x < length body \<and>
     (\<exists>sb. stage_body C base ctx slot (take (bx_transaction_index x) body) = Inr sb)"
proof -
  from assms(2) obtain ps where l: "list_all2 (\<lambda>b p. authenticate C b ctx None = Inr p) body ps"
    by (rule list_all2_witness)
  with assms(1) have "execute_proofs 0 base default_outcome slot ps = Inl x"
    by (auto simp: stage_body_def try_res_Inl_iff body_proofs_Inr_iff [symmetric])
  then obtain k s1 out1 where k: "k < length ps" "bx_transaction_index x = k"
    and pre: "execute_proofs 0 base default_outcome slot (take k ps) = Inr (s1, out1)"
    and f: "apply_transfer s1 out1 (ps ! k) slot = Inl (bx_cause x)"
    by (rule execute_proofs_Inl) simp
  from l k have au: "authenticate C (body ! k) ctx None = Inr (ps ! k)" and len: "k < length body"
    by (auto simp: list_all2_conv_all_nth)
  from l have "list_all2 (\<lambda>b p. authenticate C b ctx None = Inr p) (take k body) (take k ps)"
    by (rule list_all2_takeI)
  from stage_body_intro [OF this pre] have "\<exists>sb. stage_body C base ctx slot (take k body) = Inr sb"
    by blast
  moreover have "state_failure (bx_cause x)"
    using apply_transfer_fails [OF f authenticated_profile(1) [OF au] assms(3)] .
  moreover have "bx_cause x \<noteq> Overflow RecipientBalance"
    using apply_transfer_no_recipient_overflow [of s1] f execute_proofs_total [OF pre assms(4)] assms(5)
    by fastforce
  ultimately show ?thesis using k len by simp
qed

theorem stage_body_execution_failures_witness:
  "\<exists>x. stage_body demo_crypto demo_state demo_context 0 [signed_concat (demo_signed 9 5)] = Inl x \<and>
     state_failure (bx_cause x)"
proof -
  let ?b = "[signed_concat (demo_signed 9 5)]"
  obtain x where x: "stage_body demo_crypto demo_state demo_context 0 ?b = Inl x"
    using demo_authenticates [of 9 5]
    by (simp add: stage_body_def apply_transfer_def demo_proof_def demo_signed_def demo_unsigned_def
        Let_def TRANSFER_KIND_def ETX_TOKEN_ID_def INTRINSIC_GAS_def)
  moreover have "total_balance demo_state < 2 ^ 128"
    by (simp add: total_balance_def demo_state_def bm_sum_def)
  ultimately have "state_failure (bx_cause x)"
    using stage_body_execution_failures [OF x _ _ demo_state_wf] demo_authenticates [of 9 5]
    by (simp add: demo_context_def)
  with x show ?thesis by blast
qed

end
