(* ===== verification/Native_Block.thy ===== *)
theory Native_Block
  imports Block_Commitment Native_Transfer
begin

text \<open>
  \<open>src/src/native_block.rs\<close>: the bounded wire envelope of a native block, its structural preflight
  and the comparison with a staged outcome. The entries of the body stay opaque here; they are
  authenticated by \<open>stage_body\<close>.
\<close>

section \<open>Constants and errors\<close>

definition EXPERIMENTAL_WIRE_VERSION :: u8 where "EXPERIMENTAL_WIRE_VERSION = 2"
definition EXPERIMENTAL_HEADER_PROFILE :: u32 where "EXPERIMENTAL_HEADER_PROFILE = 2"
definition MAX_TRANSACTIONS :: nat where "MAX_TRANSACTIONS = 3000"
definition MAX_GAS :: u64 where "MAX_GAS = 16000000"
definition MAX_PROPOSER_BYTES :: nat where "MAX_PROPOSER_BYTES = 256"
definition MAX_WIRE_BYTES :: nat where
  "MAX_WIRE_BYTES = 288 + MAX_PROPOSER_BYTES + (4 + SIGNED_LEN) * MAX_TRANSACTIONS"

lemmas block_bounds = MAX_TRANSACTIONS_def MAX_PROPOSER_BYTES_def MAX_WIRE_BYTES_def native_lens
  BLOCK_HEADER_LEN_def usize_limit_def

datatype block_error =
    Frame (be_reason: string) (be_position: "nat option")
  | ProfileError | ChainError | KindError | ProposerError | TicketError | StateRootError
  | ReceiptRootError | GasCap | ProtocolDataError | ClaimedHashError | ProtocolRootError
  | TransactionRootError | StagedIdentity | ActualGas | ActualBurn

record native_block =
  nb_header :: block_header
  nb_claimed_hash :: hash
  nb_proposer :: text_bytes
  nb_protocol_data :: protocol_data
  nb_transactions :: "bytes list"

definition nb_hash :: "hasher \<Rightarrow> native_block \<Rightarrow> hash" where
  "nb_hash K b = header_hash K (nb_header b)"

section \<open>Construction\<close>

definition nb_from_parts ::
  "hasher \<Rightarrow> block_header \<Rightarrow> text_bytes \<Rightarrow> protocol_data \<Rightarrow> bytes list \<Rightarrow> block_error + native_block" where
  "nb_from_parts K header proposer pd txs =
     (if length proposer > MAX_PROPOSER_BYTES then Inl (Frame ''proposer length'' None)
      else if pd_missed_proposer pd \<noteq> None then Inl (Frame ''protocol data length'' None)
      else if length txs > MAX_TRANSACTIONS then Inl (Frame ''transaction count'' None)
      else Inr \<lparr>nb_header = header, nb_claimed_hash = header_hash K header, nb_proposer = proposer,
                nb_protocol_data = pd, nb_transactions = txs\<rparr>)"

text \<open>The structural checks, in the order of the source; it returns the raw identifiers.\<close>

definition preflight :: "hasher \<Rightarrow> native_block \<Rightarrow> auth_context \<Rightarrow> block_error + hash list" where
  "preflight K b ctx =
     (let h = nb_header b in
      if bh_protocol_version h \<noteq> EXPERIMENTAL_HEADER_PROFILE then Inl ProfileError
      else if bh_chain_id h \<noteq> ac_chain_id ctx then Inl ChainError
      else if bh_block_kind h \<noteq> Validator then Inl KindError
      else if nb_proposer b = [] \<or> nb_proposer b = str ''protocol'' \<or>
              bh_proposer_id h = replicate 32 0 \<or> bh_proposer_id h \<noteq> proposer_id K (nb_proposer b)
        then Inl ProposerError
      else if bh_ticket_id h = 0 then Inl TicketError
      else if bh_state_root h \<noteq> PLACEHOLDER_STATE_ROOT then Inl StateRootError
      else if bh_receipts_root h \<noteq> EMPTY_RECEIPTS_ROOT K then Inl ReceiptRootError
      else if bh_gas_used h > MAX_GAS then Inl GasCap
      else if pd_missed_proposer (nb_protocol_data b) \<noteq> None then Inl ProtocolDataError
      else if nb_claimed_hash b \<noteq> nb_hash K b then Inl ClaimedHashError
      else if bh_protocol_data_root h \<noteq> protocol_data_root K (nb_protocol_data b)
        then Inl ProtocolRootError
      else
        let ids = map (hash_with_domain K ID_DOMAIN) (nb_transactions b) in
        if Some (bh_transaction_root h) \<noteq> ordered_transaction_root K ids
          then Inl TransactionRootError
        else Inr ids)"

definition build ::
  "hasher \<Rightarrow> auth_context \<Rightarrow> u64 \<Rightarrow> hash \<Rightarrow> text_bytes \<Rightarrow> u64 \<Rightarrow> bytes list \<Rightarrow> body_outcome \<Rightarrow>
   block_error + native_block" where
  "build K ctx slot parent proposer ticket txs outcome =
     (let pd = \<lparr>pd_missed_proposer = None, pd_fees_burned = bo_fees_burned outcome\<rparr> in
      try_res (ok_or (Frame ''count width'' None)
                 (ordered_transaction_root K (bo_transaction_ids outcome))) (\<lambda>root.
      let header = \<lparr>bh_protocol_version = EXPERIMENTAL_HEADER_PROFILE, bh_chain_id = ac_chain_id ctx,
            bh_slot = slot, bh_block_kind = Validator, bh_parent_hash = parent,
            bh_proposer_id = proposer_id K proposer, bh_ticket_id = ticket,
            bh_transaction_root = root, bh_state_root = PLACEHOLDER_STATE_ROOT,
            bh_receipts_root = EMPTY_RECEIPTS_ROOT K, bh_gas_used = bo_gas_used outcome,
            bh_protocol_data_root = protocol_data_root K pd\<rparr>
      in try_res (nb_from_parts K header proposer pd txs) (\<lambda>block.
         try_res (preflight K block ctx) (\<lambda>_. Inr block))))"

definition empty_fixture_anchor ::
  "hasher \<Rightarrow> auth_context \<Rightarrow> u64 \<Rightarrow> hash \<Rightarrow> text_bytes \<Rightarrow> u64 \<Rightarrow> block_error + native_block" where
  "empty_fixture_anchor K ctx slot parent proposer ticket =
     build K ctx slot parent proposer ticket [] default_outcome"

definition match_outcome ::
  "native_block \<Rightarrow> bytes list \<Rightarrow> hash list \<Rightarrow> body_outcome \<Rightarrow> block_error + unit" where
  "match_outcome b txs ids outcome =
     (if txs \<noteq> nb_transactions b \<or> ids \<noteq> bo_transaction_ids outcome then Inl StagedIdentity
      else if bh_gas_used (nb_header b) \<noteq> bo_gas_used outcome then Inl ActualGas
      else if pd_fees_burned (nb_protocol_data b) \<noteq> bo_fees_burned outcome then Inl ActualBurn
      else Inr ())"

section \<open>The wire envelope\<close>

definition nb_wire_bytes :: "native_block \<Rightarrow> bytes" where
  "nb_wire_bytes b =
     [EXPERIMENTAL_WIRE_VERSION] @ nb_claimed_hash b @ header_bytes (nb_header b) @
     be_bytes (of_nat (length (nb_proposer b)) :: u32) @ nb_proposer b @
     (let pd = protocol_data_bytes (nb_protocol_data b) in be_bytes (of_nat (length pd) :: u32) @ pd) @
     be_bytes (of_nat (length (nb_transactions b)) :: u64) @
     concat (map (\<lambda>tx. be_bytes (of_nat SIGNED_LEN :: u32) @ tx) (nb_transactions b))"

definition nb_take :: "nat \<Rightarrow> nat option \<Rightarrow> cursor \<Rightarrow> block_error + bytes \<times> cursor" where
  "nb_take n position d =
     try_res (ok_or (Frame ''offset overflow'' position) (usize_checked_add (at d) n)) (\<lambda>_.
     ok_or (Frame ''truncation'' position) (slice_read n d))"

text \<open>The loop over the entries of the body.\<close>

fun read_entries :: "nat \<Rightarrow> nat \<Rightarrow> cursor \<Rightarrow> block_error + bytes list \<times> cursor" where
  "read_entries i 0 d = Inr ([], d)"
| "read_entries i (Suc n) d =
     try_res (nb_take 4 (Some i) d) (\<lambda>(len, d).
     if be_word len \<noteq> (of_nat SIGNED_LEN :: u32) then Inl (Frame ''signed length'' (Some i))
     else try_res (nb_take SIGNED_LEN (Some i) d) (\<lambda>(tx, d).
       try_res (read_entries (Suc i) n d) (\<lambda>(txs, d). Inr (tx # txs, d))))"

definition nb_from_wire_bytes :: "bytes \<Rightarrow> block_error + native_block" where
  "nb_from_wire_bytes bs =
     (if length bs > MAX_WIRE_BYTES then Inl (Frame ''envelope size'' None)
      else try_res (nb_take 1 None (start_cursor bs)) (\<lambda>(version, d).
      if hd version \<noteq> EXPERIMENTAL_WIRE_VERSION then Inl (Frame ''wire version'' None)
      else try_res (nb_take 32 None d) (\<lambda>(claimed, d).
      try_res (nb_take BLOCK_HEADER_LEN None d) (\<lambda>(hb, d).
      try_res (ok_or (Frame ''header'' None) (header_from_bytes hb)) (\<lambda>header.
      try_res (nb_take 4 None d) (\<lambda>(lb, d).
      let len = unat (be_word lb :: u32) in
      if len > MAX_PROPOSER_BYTES then Inl (Frame ''proposer length'' None)
      else try_res (nb_take len None d) (\<lambda>(proposer, d).
      if \<not> utf8_valid proposer then Inl (Frame ''proposer UTF-8'' None)
      else try_res (nb_take 4 None d) (\<lambda>(pl, d).
      if be_word pl \<noteq> (10 :: u32) then Inl (Frame ''protocol data length'' None)
      else try_res (nb_take 10 None d) (\<lambda>(pb, d).
      try_res (ok_or (Frame ''protocol data'' None) (protocol_data_from_bytes pb)) (\<lambda>pd.
      try_res (nb_take 8 None d) (\<lambda>(cb, d).
      let count = unat (be_word cb :: u64) in
      if count > MAX_TRANSACTIONS then Inl (Frame ''transaction count'' None)
      else let body_size = count * (4 + SIGNED_LEN) in
      if body_size \<ge> usize_limit then Inl (Frame ''body size overflow'' None)
      else if body_size > length bs - at d
        then Inl (Frame ''truncated body'' (Some ((length bs - at d) div (4 + SIGNED_LEN))))
      else try_res (read_entries 0 count d) (\<lambda>(txs, d).
      if at d \<noteq> length bs then Inl (Frame ''trailing bytes'' None)
      else Inr \<lparr>nb_header = header, nb_claimed_hash = claimed, nb_proposer = proposer,
                nb_protocol_data = pd, nb_transactions = txs\<rparr>))))))))))))"

text \<open>The blocks that Rust can hold and the envelope can carry.\<close>

definition nb_wf :: "native_block \<Rightarrow> bool" where
  "nb_wf b \<longleftrightarrow> header_wf (nb_header b) \<and> length (nb_claimed_hash b) = 32 \<and>
     length (nb_proposer b) \<le> MAX_PROPOSER_BYTES \<and> utf8_valid (nb_proposer b) \<and>
     pd_missed_proposer (nb_protocol_data b) = None \<and>
     length (nb_transactions b) \<le> MAX_TRANSACTIONS \<and>
     (\<forall>tx \<in> set (nb_transactions b). length tx = SIGNED_LEN)"

interpretation nb_reader: byte_reader "\<lambda>n d. nb_take n position d" for position
  by unfold_locales
    (auto simp: nb_take_def usize_checked_add_def slice_read_cur try_res_Inr_iff split: if_splits)

lemmas nb_take_prefix [codec_simps] = nb_reader.rd_prefix

lemma nb_take_one [codec_simps]:
  "length p + 1 < usize_limit \<Longrightarrow>
     nb_take (Suc 0) position (cur p (b # rest)) = Inr ([b], cur (p @ [b]) rest)"
  using nb_take_prefix [of "[b]" 1 p position rest] by simp

text \<open>An entry of the body, and the whole body, as the encoder writes them.\<close>

abbreviation entry_bytes :: "bytes \<Rightarrow> bytes" where
  "entry_bytes tx \<equiv> be_bytes (of_nat SIGNED_LEN :: u32) @ tx"

lemma length_entries:
  "\<forall>tx \<in> set txs. length tx = SIGNED_LEN \<Longrightarrow> length (concat (map entry_bytes txs)) = 203 * length txs"
  by (induction txs) (auto simp: native_lens)

lemma read_entries_enc:
  assumes "\<forall>tx \<in> set txs. length tx = SIGNED_LEN"
    and "length p + 203 * length txs < usize_limit"
  shows "read_entries i (length txs) (cur p (concat (map entry_bytes txs) @ rest)) =
     Inr (txs, cur (p @ concat (map entry_bytes txs)) rest)"
  using assms
proof (induction txs arbitrary: i p)
  case (Cons tx txs)
  then have "nb_take 4 (Some i) (cur p (be_bytes (of_nat SIGNED_LEN :: u32) @ tx @ concat (map entry_bytes txs) @ rest)) =
      Inr (be_bytes (of_nat SIGNED_LEN :: u32), cur (p @ be_bytes (of_nat SIGNED_LEN :: u32)) (tx @ concat (map entry_bytes txs) @ rest))"
    by (intro nb_take_prefix) simp_all
  moreover have "nb_take SIGNED_LEN (Some i) (cur (p @ be_bytes (of_nat SIGNED_LEN :: u32)) (tx @ concat (map entry_bytes txs) @ rest)) =
      Inr (tx, cur ((p @ be_bytes (of_nat SIGNED_LEN :: u32)) @ tx) (concat (map entry_bytes txs) @ rest))"
    using Cons.prems by (intro nb_take_prefix) (simp_all add: native_lens)
  ultimately show ?case
    using Cons.IH [where i = "Suc i" and p = "(p @ be_bytes (of_nat SIGNED_LEN :: u32)) @ tx"] Cons.prems
    by (simp add: native_lens)
qed simp

lemma read_entries_dec:
  assumes "read_entries i n (cur p q) = Inr (txs, d)"
  obtains rest where "q = concat (map entry_bytes txs) @ rest" "d = cur (p @ concat (map entry_bytes txs)) rest"
    "length txs = n" "\<forall>tx \<in> set txs. length tx = SIGNED_LEN"
  using assms
proof (induction n arbitrary: i p q txs thesis)
  case 0
  then show ?case by auto
next
  case (Suc n)
  from Suc.prems(2) obtain lb d1 tx d2 txs' where 1: "nb_take 4 (Some i) (cur p q) = Inr (lb, d1)"
    and lb: "be_word lb = (of_nat SIGNED_LEN :: u32)"
    and 2: "nb_take SIGNED_LEN (Some i) d1 = Inr (tx, d2)"
    and 3: "read_entries (Suc i) n d2 = Inr (txs', d)" and txs: "txs = tx # txs'"
    by (auto simp: try_res_Inr_iff split: if_splits prod.splits)
  from 1 obtain q1 where q1: "q = lb @ q1" "length lb = 4" "d1 = cur (p @ lb) q1"
    by (rule nb_reader.rd_cases)
  from 2 [unfolded q1(3)] obtain q2 where q2: "q1 = tx @ q2" "length tx = SIGNED_LEN"
    "d2 = cur ((p @ lb) @ tx) q2"
    by (rule nb_reader.rd_cases)
  from Suc.IH [OF _ 3 [unfolded q2(3)]] obtain rest where rest: "q2 = concat (map entry_bytes txs') @ rest"
    "d = cur (((p @ lb) @ tx) @ concat (map entry_bytes txs')) rest" "length txs' = n"
    "\<forall>tx \<in> set txs'. length tx = SIGNED_LEN"
    by blast
  have "lb = be_bytes (of_nat SIGNED_LEN :: u32)"
    using lb q1(2) be_bytes_be_word [of lb, where 'a = 32] by simp
  with q1 q2 rest txs show ?case
    by (intro Suc.prems(1)) auto
qed

lemma length_nb_wire_bytes:
  assumes "nb_wf b"
  shows "length (nb_wire_bytes b) = 288 + length (nb_proposer b) + 203 * length (nb_transactions b)"
  using assms length_entries [of "nb_transactions b"]
  by (simp add: nb_wire_bytes_def nb_wf_def Let_def length_header_bytes length_protocol_data_bytes block_bounds)

lemma nb_dec_enc:
  assumes "nb_wf b"
  shows "nb_from_wire_bytes (nb_wire_bytes b) = Inr b"
proof -
  note wf = assms [unfolded nb_wf_def]
  let ?p = "nb_proposer b" and ?txs = "nb_transactions b"
  have lp: "unat (of_nat (length ?p) :: u32) = length ?p"
    and lt: "unat (of_nat (length ?txs) :: u64) = length ?txs"
    using wf by (auto intro!: unat_of_nat_small simp: block_bounds)
  have pd: "protocol_data_from_bytes (protocol_data_bytes (nb_protocol_data b)) = Some (nb_protocol_data b)"
    "length (protocol_data_bytes (nb_protocol_data b)) = 10"
    using wf by (simp_all add: protocol_data_dec_enc wf_simps length_protocol_data_bytes)
  have h: "length (header_bytes (nb_header b)) = BLOCK_HEADER_LEN"
    using wf by (simp add: length_header_bytes)
  have e: "length (concat (map entry_bytes ?txs)) = 203 * length ?txs"
    using wf by (intro length_entries) auto
  have r: "read_entries 0 (length ?txs) (cur q (concat (map entry_bytes ?txs))) =
      Inr (?txs, cur (q @ concat (map entry_bytes ?txs)) [])" if "length q \<le> 1000" for q
    using read_entries_enc [of ?txs q 0 "[]"] wf that by (simp add: block_bounds)
  have "length (nb_wire_bytes b) \<le> MAX_WIRE_BYTES"
    using length_nb_wire_bytes [OF assms] wf by (simp add: block_bounds)
  then show ?thesis
    using wf lp lt pd h e r
    by (simp add: nb_from_wire_bytes_def nb_wire_bytes_def Let_def start_cursor_cur codec_simps
        header_dec_enc block_bounds)
qed

text \<open>Reading backwards: what the decoder accepted is what the encoder writes.\<close>

lemma nb_word_field:
  assumes "length b = LENGTH('a::len) div 8" "8 dvd LENGTH('a)" "(be_word b :: 'a word) = w"
  shows "b = be_bytes w"
  using be_bytes_be_word [OF assms(2,1)] assms(3) by simp

lemma protocol_data_10:
  assumes "protocol_data_from_bytes pb = Some pd" "length pb = 10"
  shows "pd_missed_proposer pd = None \<and> protocol_data_bytes pd = pb"
  using protocol_data_enc_dec [OF assms(1)] length_protocol_data_bytes [of pd] assms(2)
  by (auto split: option.splits)

lemma nb_enc_dec:
  assumes "nb_from_wire_bytes bs = Inr b"
  shows "nb_wf b \<and> nb_wire_bytes b = bs"
proof -
  from assms obtain version d1 claimed d2 hb d3 header lb d4 proposer d5 pl d6 pb d7 pd cb d8 txs d9 where
    1: "nb_take 1 None (start_cursor bs) = Inr (version, d1)" "hd version = EXPERIMENTAL_WIRE_VERSION"
    and 2: "nb_take 32 None d1 = Inr (claimed, d2)"
    and 3: "nb_take BLOCK_HEADER_LEN None d2 = Inr (hb, d3)" "header_from_bytes hb = Some header"
    and 4: "nb_take 4 None d3 = Inr (lb, d4)" "unat (be_word lb :: u32) \<le> MAX_PROPOSER_BYTES"
    and 5: "nb_take (unat (be_word lb :: u32)) None d4 = Inr (proposer, d5)" "utf8_valid proposer"
    and 6: "nb_take 4 None d5 = Inr (pl, d6)" "be_word pl = (10 :: u32)"
    and 7: "nb_take 10 None d6 = Inr (pb, d7)" "protocol_data_from_bytes pb = Some pd"
    and 8: "nb_take 8 None d7 = Inr (cb, d8)" "unat (be_word cb :: u64) \<le> MAX_TRANSACTIONS"
    and 9: "read_entries 0 (unat (be_word cb :: u64)) d8 = Inr (txs, d9)" "at d9 = length bs"
    and b: "b = \<lparr>nb_header = header, nb_claimed_hash = claimed, nb_proposer = proposer,
                nb_protocol_data = pd, nb_transactions = txs\<rparr>"
    unfolding nb_from_wire_bytes_def Let_def
    by (auto simp: try_res_Inr_iff not_less split: if_splits prod.splits)
  from 1(1) [unfolded start_cursor_cur] obtain q1 where
    q1: "bs = version @ q1" "length version = 1" "d1 = cur ([] @ version) q1"
    by (rule nb_reader.rd_cases)
  from 2 [unfolded q1] obtain q2 where
    q2: "q1 = claimed @ q2" "length claimed = 32" "d2 = cur (([] @ version) @ claimed) q2"
    by (rule nb_reader.rd_cases)
  from 3(1) [unfolded q2] obtain q3 where q3: "q2 = hb @ q3" "length hb = BLOCK_HEADER_LEN"
    "d3 = cur ((([] @ version) @ claimed) @ hb) q3"
    by (rule nb_reader.rd_cases)
  from 4(1) [unfolded q3] obtain q4 where q4: "q3 = lb @ q4" "length lb = 4"
    "d4 = cur (((([] @ version) @ claimed) @ hb) @ lb) q4"
    by (rule nb_reader.rd_cases)
  from 5(1) [unfolded q4] obtain q5 where q5: "q4 = proposer @ q5"
    "length proposer = unat (be_word lb :: u32)"
    "d5 = cur ((((([] @ version) @ claimed) @ hb) @ lb) @ proposer) q5"
    by (rule nb_reader.rd_cases)
  from 6(1) [unfolded q5] obtain q6 where q6: "q5 = pl @ q6" "length pl = 4"
    "d6 = cur (((((([] @ version) @ claimed) @ hb) @ lb) @ proposer) @ pl) q6"
    by (rule nb_reader.rd_cases)
  from 7(1) [unfolded q6] obtain q7 where q7: "q6 = pb @ q7" "length pb = 10"
    "d7 = cur ((((((([] @ version) @ claimed) @ hb) @ lb) @ proposer) @ pl) @ pb) q7"
    by (rule nb_reader.rd_cases)
  from 8(1) [unfolded q7] obtain q8 where q8: "q7 = cb @ q8" "length cb = 8"
    "d8 = cur (((((((([] @ version) @ claimed) @ hb) @ lb) @ proposer) @ pl) @ pb) @ cb) q8"
    by (rule nb_reader.rd_cases)
  from 9(1) [unfolded q8] obtain q9 where q9: "q8 = concat (map entry_bytes txs) @ q9"
    "d9 = cur ((((((((([] @ version) @ claimed) @ hb) @ lb) @ proposer) @ pl) @ pb) @ cb) @
        concat (map entry_bytes txs)) q9"
    "length txs = unat (be_word cb :: u64)" "\<forall>tx \<in> set txs. length tx = SIGNED_LEN"
    by (rule read_entries_dec)
  have nil: "q9 = []"
    using 9(2) q9 q8(1) q7(1) q6(1) q5(1) q4(1) q3(1) q2(1) q1(1) by (simp add: cur_def)
  have v: "version = [EXPERIMENTAL_WIRE_VERSION]"
    using 1(2) q1(2) by (cases version) auto
  have h: "header_wf header" "header_bytes header = hb"
    using header_enc_dec [OF 3(2)] by auto
  have pd: "pd_missed_proposer pd = None" "protocol_data_bytes pd = pb"
    using protocol_data_10 [OF 7(2) q7(2)] by auto
  have w: "lb = be_bytes (of_nat (length proposer) :: u32)" "cb = be_bytes (of_nat (length txs) :: u64)"
      "pl = be_bytes (10 :: u32)"
    using q4(2) q8(2) q6(2) q5(2) q9(3) 6(2)
    by (auto intro!: nb_word_field simp: be_word_def)
  show ?thesis
    using b h pd w v nil q1(1,2) q2(1,2) q3(1) q4(1) q5(1,2) q6(1) q7(1,2) q8(1) q9(1,3,4) 4(2) 5(2) 8(2)
    by (simp add: nb_wf_def nb_wire_bytes_def Let_def)
qed

interpretation nb_codec: canonical_codec nb_wire_bytes "\<lambda>b. ok (nb_from_wire_bytes b)" nb_wf
  by unfold_locales (simp_all add: nb_dec_enc nb_enc_dec)

section \<open>Preflight\<close>

lemma preflight_Inr_iff:
  "preflight K b ctx = Inr ids \<longleftrightarrow>
     bh_protocol_version (nb_header b) = EXPERIMENTAL_HEADER_PROFILE \<and>
     bh_chain_id (nb_header b) = ac_chain_id ctx \<and> bh_block_kind (nb_header b) = Validator \<and>
     nb_proposer b \<notin> {[], str ''protocol''} \<and> bh_proposer_id (nb_header b) \<noteq> replicate 32 0 \<and>
     bh_proposer_id (nb_header b) = proposer_id K (nb_proposer b) \<and> bh_ticket_id (nb_header b) \<noteq> 0 \<and>
     bh_state_root (nb_header b) = PLACEHOLDER_STATE_ROOT \<and>
     bh_receipts_root (nb_header b) = EMPTY_RECEIPTS_ROOT K \<and> bh_gas_used (nb_header b) \<le> MAX_GAS \<and>
     pd_missed_proposer (nb_protocol_data b) = None \<and> nb_claimed_hash b = nb_hash K b \<and>
     bh_protocol_data_root (nb_header b) = protocol_data_root K (nb_protocol_data b) \<and>
     ids = map (hash_with_domain K ID_DOMAIN) (nb_transactions b) \<and>
     ordered_transaction_root K ids = Some (bh_transaction_root (nb_header b))"
  by (auto simp: preflight_def Let_def not_less)

text \<open>The preimages that a block's commitments hash.\<close>

definition root_preimage :: "hash list \<Rightarrow> bytes" where
  "root_preimage ids = TX_LIST_DOMAIN @ be_bytes (of_nat (length ids) :: u64) @ concat ids"

definition committed_preimages :: "hasher \<Rightarrow> native_block \<Rightarrow> bytes set" where
  "committed_preimages K b =
     {BLOCK_HEADER_DOMAIN @ header_bytes (nb_header b),
      PROPOSER_ID_DOMAIN @ be_bytes (of_nat (length (nb_proposer b)) :: u64) @ nb_proposer b,
      PROTOCOL_DATA_DOMAIN @ protocol_data_bytes (nb_protocol_data b),
      root_preimage (map (hash_with_domain K ID_DOMAIN) (nb_transactions b))} \<union>
     (\<lambda>tx. ID_DOMAIN @ tx) ` set (nb_transactions b)"

lemma concat_fixed_width_inject:
  assumes "\<forall>x \<in> set xs. length x = n" "\<forall>y \<in> set ys. length y = n" "length xs = length ys"
    "concat xs = concat ys"
  shows "xs = ys"
  using assms(3,1,2,4) by (induction rule: list_induct2) auto

lemma map_inj_on_eq:
  assumes "map f xs = map f ys" "inj_on f (set xs \<union> set ys)"
  shows "xs = ys"
  using assms by (metis inj_on_map_eq_map)

lemma ordered_transaction_root_small:
  assumes "length ids \<le> MAX_TRANSACTIONS"
  shows "ordered_transaction_root K ids = Some (K (root_preimage ids))"
  using assms by (simp add: ordered_transaction_root_def try_from_nat_def root_preimage_def block_bounds)

lemma root_preimage_inject:
  assumes "root_preimage xs = root_preimage ys" "length xs \<le> MAX_TRANSACTIONS" "length ys \<le> MAX_TRANSACTIONS"
    "\<forall>x \<in> set xs. length x = 32" "\<forall>y \<in> set ys. length y = 32"
  shows "xs = ys"
proof (rule concat_fixed_width_inject)
  from assms(1) have eq: "(of_nat (length xs) :: u64) = of_nat (length ys)" "concat xs = concat ys"
    by (auto simp: root_preimage_def append_eq_append_conv dest: be_bytes_inject [THEN iffD1])
  from arg_cong [OF eq(1), of unat] assms(2,3) show "length xs = length ys"
    by (simp add: unat_of_nat_small block_bounds)
  show "concat xs = concat ys" by (rule eq)
qed (use assms in auto)

lemma preflight_commits:
  assumes K: "digest32 K" and wf: "nb_wf b" "nb_wf b'"
    and pre: "preflight K b ctx = Inr ids" "preflight K b' ctx' = Inr ids'"
    and inj: "inj_on K (committed_preimages K b \<union> committed_preimages K b')"
    and hash: "nb_hash K b = nb_hash K b'"
  shows "b = b'"
proof -
  note pre' = pre [unfolded preflight_Inr_iff]
  have eq: "x = y" if "K x = K y" "x \<in> committed_preimages K b" "y \<in> committed_preimages K b'" for x y
    using that inj by (auto dest: inj_onD)
  have "header_bytes (nb_header b) = header_bytes (nb_header b')"
    using hash eq [of "BLOCK_HEADER_DOMAIN @ header_bytes (nb_header b)"
        "BLOCK_HEADER_DOMAIN @ header_bytes (nb_header b')"]
    by (simp add: nb_hash_def header_hash_def hash_with_domain_def committed_preimages_def)
  with wf have h: "nb_header b = nb_header b'"
    using header_codec.enc_inj by (simp add: nb_wf_def)
  have p: "nb_proposer b = nb_proposer b'"
    using pre' h eq [of "PROPOSER_ID_DOMAIN @ be_bytes (of_nat (length (nb_proposer b)) :: u64) @ nb_proposer b"
        "PROPOSER_ID_DOMAIN @ be_bytes (of_nat (length (nb_proposer b')) :: u64) @ nb_proposer b'"]
    by (simp add: proposer_id_def hash_with_domain_def committed_preimages_def)
  have "protocol_data_bytes (nb_protocol_data b) = protocol_data_bytes (nb_protocol_data b')"
    using pre' h eq [of "PROTOCOL_DATA_DOMAIN @ protocol_data_bytes (nb_protocol_data b)"
        "PROTOCOL_DATA_DOMAIN @ protocol_data_bytes (nb_protocol_data b')"]
    by (simp add: protocol_data_root_def hash_with_domain_def committed_preimages_def)
  with wf have pd: "nb_protocol_data b = nb_protocol_data b'"
    using protocol_data_codec.enc_inj by (simp add: nb_wf_def protocol_data_wf_def)
  have len: "length ids \<le> MAX_TRANSACTIONS" "length ids' \<le> MAX_TRANSACTIONS"
    using wf pre' by (auto simp: nb_wf_def)
  have "root_preimage ids = root_preimage ids'"
  proof (rule eq)
    have "ordered_transaction_root K ids = Some (bh_transaction_root (nb_header b))"
      "ordered_transaction_root K ids' = Some (bh_transaction_root (nb_header b'))"
      using pre' by blast+
    with h len show "K (root_preimage ids) = K (root_preimage ids')"
      by (simp add: ordered_transaction_root_small)
  qed (use pre' in \<open>auto simp: committed_preimages_def\<close>)
  with len K pre' have "ids = ids'"
    by (intro root_preimage_inject) (auto simp: hash_with_domain_def digest32_def)
  with pre' have "map (hash_with_domain K ID_DOMAIN) (nb_transactions b) =
      map (hash_with_domain K ID_DOMAIN) (nb_transactions b')"
    by simp
  moreover have "inj_on (hash_with_domain K ID_DOMAIN) (set (nb_transactions b) \<union> set (nb_transactions b'))"
  proof (rule inj_onI)
    fix x y
    assume "x \<in> set (nb_transactions b) \<union> set (nb_transactions b')"
      "y \<in> set (nb_transactions b) \<union> set (nb_transactions b')"
      and e: "hash_with_domain K ID_DOMAIN x = hash_with_domain K ID_DOMAIN y"
    then have "ID_DOMAIN @ x \<in> committed_preimages K b \<union> committed_preimages K b'"
      "ID_DOMAIN @ y \<in> committed_preimages K b \<union> committed_preimages K b'"
      by (auto simp: committed_preimages_def)
    with inj_onD [OF inj e [unfolded hash_with_domain_def]] show "x = y" by simp
  qed
  ultimately have "nb_transactions b = nb_transactions b'"
    by (rule map_inj_on_eq)
  with h p pd pre' hash show ?thesis by simp
qed

section \<open>Properties\<close>

text \<open>
  A producer's block: the conditions on the caller's arguments under which \<open>build\<close> succeeds, beside
  the staged body.
\<close>

definition buildable :: "hasher \<Rightarrow> hash \<Rightarrow> text_bytes \<Rightarrow> u64 \<Rightarrow> bytes list \<Rightarrow> bool" where
  "buildable K parent proposer ticket body \<longleftrightarrow> length parent = 32 \<and>
     proposer \<notin> {[], str ''protocol''} \<and> length proposer \<le> MAX_PROPOSER_BYTES \<and> utf8_valid proposer \<and>
     proposer_id K proposer \<noteq> replicate 32 0 \<and> ticket \<noteq> 0 \<and> length body \<le> MAX_TRANSACTIONS"

lemma authenticated_entry:
  assumes "authenticate C b ctx None = Inr p"
  shows "length b = SIGNED_LEN" "at_transaction_id p = c_keccak C (ID_DOMAIN @ b)"
proof -
  from assms obtain t where t: "signed_from_bytes C b = Inr t"
    by (auto simp: authenticate_def try_res_Inr_iff)
  show "length b = SIGNED_LEN"
    using t by (auto simp: signed_from_bytes_def require_length_def try_res_Inr_iff split: if_splits)
  show "at_transaction_id p = c_keccak C (ID_DOMAIN @ b)"
    using assms unfolding authenticate_decoded [OF t] by auto
qed

lemma staged_body_entries:
  assumes "stage_body C base ctx slot body = Inr sb"
  shows "\<forall>tx \<in> set body. length tx = SIGNED_LEN"
    and "bo_transaction_ids (ab_outcome (sb_record sb)) = map (hash_with_domain (c_keccak C) ID_DOMAIN) body"
    and "unat (bo_gas_used (ab_outcome (sb_record sb))) = 1000 * length body"
proof -
  from assms obtain ps out where l: "list_all2 (\<lambda>b p. authenticate C b ctx None = Inr p) body ps"
    and e: "execute_proofs 0 base default_outcome slot ps = Inr (sb_candidate sb, out)"
    and r: "ab_outcome (sb_record sb) = out"
    by (rule stage_body_elim) simp
  have "length tx = SIGNED_LEN" if "tx \<in> set body" for tx
    using l that authenticated_entry(1) by (induction rule: list_all2_induct) auto
  then show "\<forall>tx \<in> set body. length tx = SIGNED_LEN" by blast
  have "map at_transaction_id ps = map (hash_with_domain (c_keccak C) ID_DOMAIN) body"
    using l by (induction rule: list_all2_induct) (auto simp: hash_with_domain_def authenticated_entry(2))
  with execute_proofs_refines [OF e] list_all2_lengthD [OF l] r
  show "bo_transaction_ids (ab_outcome (sb_record sb)) = map (hash_with_domain (c_keccak C) ID_DOMAIN) body"
    "unat (bo_gas_used (ab_outcome (sb_record sb))) = 1000 * length body"
    by (simp_all add: default_outcome_def)
qed

lemma build_returns:
  assumes K: "digest32 (c_keccak C)" and st: "stage_body C base ctx slot body = Inr sb"
    and args: "buildable (c_keccak C) parent proposer ticket body"
  obtains b where "build (c_keccak C) ctx slot parent proposer ticket body (ab_outcome (sb_record sb)) = Inr b"
    "nb_wf b" "nb_transactions b = body"
    "preflight (c_keccak C) b ctx = Inr (bo_transaction_ids (ab_outcome (sb_record sb)))"
    "bh_gas_used (nb_header b) = bo_gas_used (ab_outcome (sb_record sb))"
    "pd_fees_burned (nb_protocol_data b) = bo_fees_burned (ab_outcome (sb_record sb))"
    "bh_parent_hash (nb_header b) = parent" "bh_slot (nb_header b) = slot"
    "nb_proposer b = proposer" "bh_ticket_id (nb_header b) = ticket"
proof -
  let ?K = "c_keccak C" and ?out = "ab_outcome (sb_record sb)"
  let ?pd = "\<lparr>pd_missed_proposer = None, pd_fees_burned = bo_fees_burned ?out\<rparr>"
  note entries = staged_body_entries [OF st]
  have n: "length (bo_transaction_ids ?out) \<le> MAX_TRANSACTIONS"
    using args entries(2) by (simp add: buildable_def)
  define root where "root = ?K (root_preimage (bo_transaction_ids ?out))"
  have root: "ordered_transaction_root ?K (bo_transaction_ids ?out) = Some root"
    unfolding root_def by (rule ordered_transaction_root_small [OF n])
  define h where "h = \<lparr>bh_protocol_version = EXPERIMENTAL_HEADER_PROFILE, bh_chain_id = ac_chain_id ctx,
     bh_slot = slot, bh_block_kind = Validator, bh_parent_hash = parent,
     bh_proposer_id = proposer_id ?K proposer, bh_ticket_id = ticket, bh_transaction_root = root,
     bh_state_root = PLACEHOLDER_STATE_ROOT, bh_receipts_root = EMPTY_RECEIPTS_ROOT ?K,
     bh_gas_used = bo_gas_used ?out, bh_protocol_data_root = protocol_data_root ?K ?pd\<rparr>"
  define b where "b = \<lparr>nb_header = h, nb_claimed_hash = header_hash ?K h, nb_proposer = proposer,
     nb_protocol_data = ?pd, nb_transactions = body\<rparr>"
  have gas: "bo_gas_used ?out \<le> MAX_GAS"
    using entries(3) args by (simp add: word_le_nat_alt MAX_GAS_def buildable_def MAX_TRANSACTIONS_def)
  have pre: "preflight ?K b ctx = Inr (bo_transaction_ids ?out)"
    using args entries(2) root gas by (simp add: preflight_Inr_iff b_def h_def nb_hash_def buildable_def)
  have wf: "nb_wf b"
    using args entries(1) K
    by (simp add: nb_wf_def b_def h_def header_wf_def buildable_def digest32_def root_def
        proposer_id_def protocol_data_root_def hash_with_domain_def header_hash_def
        EMPTY_RECEIPTS_ROOT_def keccak256_def PLACEHOLDER_STATE_ROOT_def)
  have "build ?K ctx slot parent proposer ticket body ?out = Inr b"
    using args root pre
    by (simp add: build_def Let_def nb_from_parts_def buildable_def h_def [symmetric] b_def [symmetric])
  then show thesis
    by (rule that [OF _ wf _ pre]) (simp_all add: b_def h_def)
qed

lemma demo_digest32: "digest32 (c_keccak demo_crypto)"
  by (auto simp: digest32_def demo_crypto_def min_def)

lemma demo_buildable:
  assumes "length body \<le> MAX_TRANSACTIONS"
  shows "buildable (c_keccak demo_crypto) (replicate 32 9) [65] 1 body"
proof -
  have "proposer_id (c_keccak demo_crypto) [65] ! 0 = 69"
    by (simp add: proposer_id_def hash_with_domain_def demo_crypto_def PROPOSER_ID_DOMAIN_def str_def)
  then have "proposer_id (c_keccak demo_crypto) [65] \<noteq> replicate 32 0"
    by auto
  with assms show ?thesis
    by (simp add: buildable_def str_def block_bounds)
qed

lemma demo_no_collision:
  assumes "nb_transactions b = []"
  shows "inj_on (c_keccak demo_crypto) (committed_preimages (c_keccak demo_crypto) b)"
proof -
  have "take 12 (c_keccak demo_crypto (d @ x)) = take 12 d" if "12 \<le> length d" for d x
    using that by (simp add: demo_crypto_def)
  note t = this [of BLOCK_HEADER_DOMAIN] this [of PROPOSER_ID_DOMAIN] this [of PROTOCOL_DATA_DOMAIN]
    this [of TX_LIST_DOMAIN]
  have "inj_on (take 12 \<circ> c_keccak demo_crypto) (committed_preimages (c_keccak demo_crypto) b)"
    using t assms by (auto simp: inj_on_def committed_preimages_def root_preimage_def BLOCK_HEADER_DOMAIN_def
        PROPOSER_ID_DOMAIN_def PROTOCOL_DATA_DOMAIN_def TX_LIST_DOMAIN_def str_def)
  then show ?thesis
    by (rule inj_on_imageI2)
qed

text \<open>The block envelope is canonical: the decoder accepts exactly the encodings of blocks
  within the declared bounds (proposer of at most 256 UTF-8 bytes, at most 3000 entries of 199
  bytes, no missed proposer) and returns the encoded block; truncation, trailing bytes and
  oversized envelopes are refused.\<close>

theorem nb_codec_canonical:
  "nb_from_wire_bytes bs = Inr b \<longleftrightarrow> nb_wf b \<and> nb_wire_bytes b = bs"
  using nb_codec.dec_Some_iff [of bs b] by simp

text \<open>What a producer builds from a staged body, every receiver accepts: with arguments in
  the documented ranges \<open>build\<close> succeeds, the block survives the wire unchanged, its preflight
  passes under the producer's context with the identifiers of the staged outcome, and its claimed
  gas and burn match that outcome.\<close>

theorem build_then_receive:
  assumes "digest32 (c_keccak C)" and "stage_body C base ctx slot body = Inr sb"
    and "buildable (c_keccak C) parent proposer ticket body"
  shows "\<exists>b ids. build (c_keccak C) ctx slot parent proposer ticket body (ab_outcome (sb_record sb)) = Inr b \<and>
     nb_from_wire_bytes (nb_wire_bytes b) = Inr b \<and> preflight (c_keccak C) b ctx = Inr ids \<and>
     match_outcome b (nb_transactions b) ids (ab_outcome (sb_record sb)) = Inr () \<and>
     nb_transactions b = body \<and> bh_slot (nb_header b) = slot \<and> bh_parent_hash (nb_header b) = parent"
  using build_returns [OF assms]
  by (metis nb_dec_enc match_outcome_def)

theorem build_then_receive_witness:
  "\<exists>sb b. stage_body demo_crypto demo_state demo_context 0 [signed_concat (demo_signed 0 5)] = Inr sb \<and>
     build (c_keccak demo_crypto) demo_context 0 (replicate 32 9) [65] 1
       [signed_concat (demo_signed 0 5)] (ab_outcome (sb_record sb)) = Inr b \<and>
     nb_from_wire_bytes (nb_wire_bytes b) = Inr b"
proof -
  obtain sb where sb: "stage_body demo_crypto demo_state demo_context 0 [signed_concat (demo_signed 0 5)] = Inr sb"
    using demo_stages by blast
  have "digest32 (c_keccak demo_crypto)"
    by (rule demo_digest32)
  moreover have "buildable (c_keccak demo_crypto) (replicate 32 9) [65] 1 [signed_concat (demo_signed 0 5)]"
    by (rule demo_buildable) (simp add: block_bounds)
  ultimately show ?thesis
    using build_then_receive [OF _ sb] sb by blast
qed

text \<open>C38. The block hash commits to the whole block: two blocks that pass preflight and have the
  same hash are equal, header, claimed hash, proposer text, protocol data and every transaction
  byte, unless two of the byte strings that their commitments hash collide.\<close>

theorem block_hash_commits:
  assumes "digest32 K" and "nb_wf b" "nb_wf b'"
    and "preflight K b ctx = Inr ids" "preflight K b' ctx' = Inr ids'"
    and "inj_on K (committed_preimages K b \<union> committed_preimages K b')"
    and "nb_hash K b = nb_hash K b'"
  shows "b = b'"
  by (rule preflight_commits [OF assms])

theorem block_hash_commits_witness:
  "\<exists>b b'. build (c_keccak demo_crypto) demo_context 0 (replicate 32 9) [65] 1 [] default_outcome = Inr b \<and>
     nb_from_wire_bytes (nb_wire_bytes b) = Inr b' \<and> b = b'"
proof -
  let ?K = "c_keccak demo_crypto"
  have st: "stage_body demo_crypto demo_state demo_context 0 [] = Inr \<lparr>sb_base = demo_state,
      sb_candidate = demo_state, sb_record = \<lparr>ab_context = demo_context, ab_slot = 0,
      ab_transactions = [], ab_outcome = default_outcome\<rparr>\<rparr>"
    by (simp add: stage_body_def)
  obtain b where b: "build ?K demo_context 0 (replicate 32 9) [65] 1 [] default_outcome = Inr b"
    and wf: "nb_wf b" and tx: "nb_transactions b = []"
    and pre: "preflight ?K b demo_context = Inr (bo_transaction_ids default_outcome)"
    by (rule build_returns [OF demo_digest32 st demo_buildable]) (simp_all add: block_bounds)
  have "b = b"
    by (rule block_hash_commits [OF demo_digest32 wf wf pre pre]) (simp_all add: demo_no_collision tx)
  with b nb_dec_enc [OF wf] show ?thesis by blast
qed

end
