(* ===== verification/Block_Authentication.thy ===== *)
theory Block_Authentication
  imports Native_Block
begin

text \<open>
  \<open>src/src/block_authentication.rs\<close>: the signed outer envelope of a native block. The caller trusts
  one context and one producer binding; \<open>authenticate_block\<close> attributes an envelope to that producer
  and \<open>sign_block\<close> makes one. The ECDSA backend is the \<open>crypto\<close> record of the transaction theory.
\<close>

section \<open>Constants, errors and context\<close>

definition OUTER_WIRE_VERSION :: u8 where "OUTER_WIRE_VERSION = 3"
definition AUTH_ENCODING_VERSION :: u8 where "AUTH_ENCODING_VERSION = 1"
definition AUTH_RULES_VERSION :: u32 where "AUTH_RULES_VERSION = 1"
definition BLOCK_SIGNING_DOMAIN :: bytes where
  "BLOCK_SIGNING_DOMAIN = [0x19] @ str ''ETERNIX'' @ [0] @ str ''BLOCK_SIGN'' @ [0]"
definition ENVELOPE_ID_DOMAIN :: bytes where
  "ENVELOPE_ID_DOMAIN = [0x19] @ str ''ETERNIX'' @ [0] @ str ''BLOCK_ENVELOPE_ID'' @ [0]"
definition PAYLOAD_LEN :: nat where "PAYLOAD_LEN = 82"
definition BLOCK_SIGNING_PREIMAGE_LEN :: nat where "BLOCK_SIGNING_PREIMAGE_LEN = 102"
definition ENVELOPE_OVERHEAD :: nat where "ENVELOPE_OVERHEAD = 107"
definition MAX_ENVELOPE_BYTES :: nat where "MAX_ENVELOPE_BYTES = MAX_WIRE_BYTES + ENVELOPE_OVERHEAD"

lemmas envelope_bounds = PAYLOAD_LEN_def BLOCK_SIGNING_PREIMAGE_LEN_def ENVELOPE_OVERHEAD_def
  MAX_ENVELOPE_BYTES_def block_bounds

datatype auth_error =
    AuthFrame string
  | UnsupportedWire u8
  | UnsupportedAuthEncoding u8
  | UnsupportedAuthRules u32
  | UnsupportedProfile u32
  | InvalidProducerId
  | InvalidPublicKey
  | ProducerMismatch
  | KeyMismatch
  | EnvelopeNetworkMismatch
  | BlockFailure block_error
  | SignatureFailure tx_error
  | ProducerRecoveryFailed
  | ClaimedEnvelopeIdMismatch
  | BlockSigningFailed

record block_auth_context =
  bac_native :: auth_context
  bac_header_profile :: u32
  bac_auth_rules :: u32

definition block_auth_context_new ::
  "auth_context \<Rightarrow> u32 \<Rightarrow> u32 \<Rightarrow> auth_error + block_auth_context" where
  "block_auth_context_new native header_profile auth_rules =
     (if header_profile \<noteq> EXPERIMENTAL_HEADER_PROFILE then Inl (UnsupportedProfile header_profile)
      else if auth_rules \<noteq> AUTH_RULES_VERSION then Inl (UnsupportedAuthRules auth_rules)
      else Inr \<lparr>bac_native = native, bac_header_profile = header_profile, bac_auth_rules = auth_rules\<rparr>)"

record producer_binding =
  pb_producer_id :: text_bytes
  pb_public_key :: bytes

definition binding_new :: "'k crypto \<Rightarrow> text_bytes \<Rightarrow> bytes \<Rightarrow> auth_error + producer_binding" where
  "binding_new C producer key_bytes =
     (if producer = [] \<or> producer = str ''protocol'' \<or> length producer > MAX_PROPOSER_BYTES
        then Inl InvalidProducerId
      else if length key_bytes \<noteq> 33 \<or> key_bytes ! 0 \<notin> {2, 3} then Inl InvalidPublicKey
      else try_res (ok_or InvalidPublicKey (c_from_sec1_bytes C key_bytes)) (\<lambda>key.
        if c_to_encoded_point C key True \<noteq> key_bytes then Inl InvalidPublicKey
        else Inr \<lparr>pb_producer_id = producer, pb_public_key = key_bytes\<rparr>))"

definition binding_matches :: "'k crypto \<Rightarrow> producer_binding \<Rightarrow> native_block \<Rightarrow> auth_error + unit" where
  "binding_matches C binding b =
     (if nb_proposer b \<noteq> pb_producer_id binding \<or>
         bh_proposer_id (nb_header b) \<noteq> proposer_id (c_keccak C) (pb_producer_id binding)
      then Inl ProducerMismatch else Inr ())"

section \<open>Signatures\<close>

type_synonym block_signature = native_signature

definition block_signature_from_bytes :: "'k crypto \<Rightarrow> bytes \<Rightarrow> auth_error + block_signature" where
  "block_signature_from_bytes C b = map_err SignatureFailure (signature_from_bytes C b)"

definition block_signature_recover :: "'k crypto \<Rightarrow> block_signature \<Rightarrow> hash \<Rightarrow> auth_error + 'k" where
  "block_signature_recover C s digest = map_err (\<lambda>_. ProducerRecoveryFailed) (recover_public_key C s digest)"

section \<open>The signed envelope\<close>

record signed_envelope =
  se_network :: hash
  se_block :: native_block
  se_signature :: bytes

definition envelope_from_parts ::
  "native_block \<Rightarrow> hash \<Rightarrow> bytes \<Rightarrow> auth_error + signed_envelope" where
  "envelope_from_parts b network signature =
     (let len = length (nb_wire_bytes b) in
      if \<not> (289 \<le> len \<and> len \<le> MAX_WIRE_BYTES) then Inl (AuthFrame ''inner length'')
      else Inr \<lparr>se_network = network, se_block = b, se_signature = signature\<rparr>)"

definition ba_field :: "nat \<Rightarrow> bytes \<Rightarrow> nat \<Rightarrow> auth_error + bytes" where
  "ba_field n b off =
     (if off + n \<ge> usize_limit then Inl (AuthFrame ''offset overflow'')
      else if off + n \<le> length b then Inr (field n b off)
      else Inl (AuthFrame ''truncation''))"

definition envelope_from_wire_bytes :: "bytes \<Rightarrow> auth_error + signed_envelope" where
  "envelope_from_wire_bytes bs =
     (if length bs > MAX_ENVELOPE_BYTES then Inl (AuthFrame ''envelope size'')
      else try_res (ba_field 1 bs 0) (\<lambda>wb. let wire = hd wb in
      if wire \<noteq> OUTER_WIRE_VERSION then Inl (UnsupportedWire wire)
      else try_res (ba_field 1 bs 1) (\<lambda>eb. let encoding = hd eb in
      if encoding \<noteq> AUTH_ENCODING_VERSION then Inl (UnsupportedAuthEncoding encoding)
      else try_res (ba_field 4 bs 2) (\<lambda>rb. let rules = be_word rb :: u32 in
      if rules \<noteq> AUTH_RULES_VERSION then Inl (UnsupportedAuthRules rules)
      else try_res (ba_field 32 bs 6) (\<lambda>network.
      try_res (ba_field 4 bs 38) (\<lambda>lb. let len = unat (be_word lb :: u32) in
      if \<not> (289 \<le> len \<and> len \<le> MAX_WIRE_BYTES) then Inl (AuthFrame ''inner length'')
      else if len + ENVELOPE_OVERHEAD \<ge> usize_limit then Inl (AuthFrame ''total overflow'')
      else if len + ENVELOPE_OVERHEAD \<noteq> length bs then Inl (AuthFrame ''exact envelope length'')
      else try_res (map_err BlockFailure (nb_from_wire_bytes (take len (drop 42 bs)))) (\<lambda>b.
      try_res (ba_field SIGNATURE_LEN bs (42 + len)) (\<lambda>signature.
      Inr \<lparr>se_network = network, se_block = b, se_signature = signature\<rparr>))))))))"

definition envelope_wire_bytes :: "signed_envelope \<Rightarrow> bytes" where
  "envelope_wire_bytes e =
     (let inner = nb_wire_bytes (se_block e) in
      [OUTER_WIRE_VERSION, AUTH_ENCODING_VERSION] @ be_bytes AUTH_RULES_VERSION @ se_network e @
      be_bytes (of_nat (length inner) :: u32) @ inner @ se_signature e)"

definition signing_payload :: "'k crypto \<Rightarrow> signed_envelope \<Rightarrow> bytes" where
  "signing_payload C e =
     (let out = replicate PAYLOAD_LEN 0;
          out = copy_at 0 [OUTER_WIRE_VERSION] out;
          out = copy_at 1 [AUTH_ENCODING_VERSION] out;
          out = copy_at 2 (be_bytes AUTH_RULES_VERSION) out;
          out = copy_at 6 (be_bytes (bh_chain_id (nb_header (se_block e)))) out;
          out = copy_at 14 (se_network e) out;
          out = copy_at 46 (be_bytes (bh_protocol_version (nb_header (se_block e)))) out;
          out = copy_at 50 (nb_hash (c_keccak C) (se_block e)) out
      in out)"

definition block_signing_preimage :: "'k crypto \<Rightarrow> signed_envelope \<Rightarrow> bytes" where
  "block_signing_preimage C e =
     (let out = replicate BLOCK_SIGNING_PREIMAGE_LEN 0;
          out = copy_at 0 BLOCK_SIGNING_DOMAIN out;
          out = copy_at 20 (signing_payload C e) out
      in out)"

definition block_signing_digest :: "'k crypto \<Rightarrow> signed_envelope \<Rightarrow> hash" where
  "block_signing_digest C e = keccak256 (c_keccak C) (block_signing_preimage C e)"

definition envelope_id :: "'k crypto \<Rightarrow> signed_envelope \<Rightarrow> hash" where
  "envelope_id C e = hash_with_domain (c_keccak C) ENVELOPE_ID_DOMAIN (envelope_wire_bytes e)"

definition envelope_preflight ::
  "'k crypto \<Rightarrow> signed_envelope \<Rightarrow> block_auth_context \<Rightarrow> auth_error + unit" where
  "envelope_preflight C e ctx =
     (if se_network e \<noteq> ac_network_id (bac_native ctx) then Inl EnvelopeNetworkMismatch
      else try_res (map_err BlockFailure (preflight (c_keccak C) (se_block e) (bac_native ctx))) (\<lambda>_. Inr ()))"

section \<open>Authentication and signing\<close>

record authenticated_block =
  apb_envelope :: signed_envelope
  apb_context :: block_auth_context
  apb_binding :: producer_binding
  apb_signature :: block_signature
  apb_digest :: hash
  apb_envelope_id :: hash

definition authenticate_block ::
  "'k crypto \<Rightarrow> bytes \<Rightarrow> block_auth_context \<Rightarrow> producer_binding \<Rightarrow> hash option \<Rightarrow>
   auth_error + authenticated_block" where
  "authenticate_block C bs ctx binding claimed =
     try_res (envelope_from_wire_bytes bs) (\<lambda>e.
     try_res (envelope_preflight C e ctx) (\<lambda>_.
     if envelope_wire_bytes e \<noteq> bs then Inl (AuthFrame ''noncanonical reconstruction'')
     else try_res (binding_matches C binding (se_block e)) (\<lambda>_.
     try_res (block_signature_from_bytes C (se_signature e)) (\<lambda>signature.
     let digest = block_signing_digest C e;
         eid = hash_with_domain (c_keccak C) ENVELOPE_ID_DOMAIN bs in
     if (case claimed of None \<Rightarrow> False | Some i \<Rightarrow> i \<noteq> eid) then Inl ClaimedEnvelopeIdMismatch
     else try_res (block_signature_recover C signature digest) (\<lambda>key.
     if c_to_encoded_point C key True \<noteq> pb_public_key binding then Inl KeyMismatch
     else Inr \<lparr>apb_envelope = e, apb_context = ctx, apb_binding = binding, apb_signature = signature,
               apb_digest = digest, apb_envelope_id = eid\<rparr>)))))"

text \<open>
  The signing key is its verifying key with the backend's answers to the successive attempts:
  attempt 0 is deterministic, the later ones use fresh entropy. \<open>None\<close> means that the loop never ends.
\<close>

type_synonym signer = "hash \<Rightarrow> nat \<Rightarrow> auth_error + bytes \<times> u8"

partial_function (option) block_sign_with_retry ::
  "'k crypto \<Rightarrow> (nat \<Rightarrow> auth_error + bytes \<times> u8) \<Rightarrow> nat \<Rightarrow> (auth_error + block_signature) option" where
  "block_sign_with_retry C candidate n =
     (case candidate n of
        Inl e \<Rightarrow> Some (Inl e)
      | Inr (signature, i) \<Rightarrow>
          if bit i 1 then block_sign_with_retry C candidate (Suc n)
          else Some (block_signature_from_bytes C
                 (let b = replicate SIGNATURE_LEN 0;
                      b = copy_at 0 signature b;
                      b = copy_at 64 [i] b
                  in b)))"

definition sign_digest :: "'k crypto \<Rightarrow> signer \<Rightarrow> hash \<Rightarrow> (auth_error + bytes) option" where
  "sign_digest C signer digest = block_sign_with_retry C (signer digest) 0"

definition sign_block ::
  "'k crypto \<Rightarrow> native_block \<Rightarrow> 'k \<Rightarrow> signer \<Rightarrow> block_auth_context \<Rightarrow> producer_binding \<Rightarrow>
   (auth_error + signed_envelope) option" where
  "sign_block C b verifying_key signer ctx binding =
     (case envelope_from_parts b (ac_network_id (bac_native ctx)) (replicate SIGNATURE_LEN 0) of
        Inl e \<Rightarrow> Some (Inl e)
      | Inr envelope \<Rightarrow>
     (case envelope_preflight C envelope ctx of Inl e \<Rightarrow> Some (Inl e) | Inr _ \<Rightarrow>
     (case binding_matches C binding b of Inl e \<Rightarrow> Some (Inl e) | Inr _ \<Rightarrow>
      if c_to_encoded_point C verifying_key True \<noteq> pb_public_key binding then Some (Inl KeyMismatch)
      else map_option (\<lambda>r. try_res r (\<lambda>s. Inr (envelope\<lparr>se_signature := s\<rparr>)))
             (sign_digest C signer (block_signing_digest C envelope)))))"

section \<open>The envelope codec\<close>

definition envelope_wf :: "signed_envelope \<Rightarrow> bool" where
  "envelope_wf e \<longleftrightarrow> length (se_network e) = 32 \<and> nb_wf (se_block e) \<and>
     length (se_signature e) = SIGNATURE_LEN \<and> 289 \<le> length (nb_wire_bytes (se_block e))"

lemma nb_wire_bytes_bound: "nb_wf b \<Longrightarrow> length (nb_wire_bytes b) \<le> MAX_WIRE_BYTES"
  by (simp add: length_nb_wire_bytes nb_wf_def block_bounds)

lemma length_envelope_wire_bytes:
  "envelope_wf e \<Longrightarrow> length (envelope_wire_bytes e) = 107 + length (nb_wire_bytes (se_block e))"
  by (simp add: envelope_wire_bytes_def envelope_wf_def Let_def native_lens)

lemma envelope_dec_enc:
  assumes "envelope_wf e"
  shows "envelope_from_wire_bytes (envelope_wire_bytes e) = Inr e"
proof -
  let ?inner = "nb_wire_bytes (se_block e)" and ?bs = "envelope_wire_bytes e"
  have wf: "length (se_network e) = 32" "nb_wf (se_block e)" "length (se_signature e) = 65"
    "289 \<le> length ?inner"
    using assms by (simp_all add: envelope_wf_def native_lens)
  have len: "length ?bs = 107 + length ?inner"
    by (rule length_envelope_wire_bytes [OF assms])
  have max: "length ?inner \<le> 609544"
    using nb_wire_bytes_bound [OF wf(2)] by (simp add: block_bounds)
  then have u: "unat (of_nat (length ?inner) :: u32) = length ?inner"
    by (intro unat_of_nat_small) simp
  have f: "field 1 ?bs 0 = [OUTER_WIRE_VERSION]" "field 1 ?bs 1 = [AUTH_ENCODING_VERSION]"
    "field 4 ?bs 2 = be_bytes AUTH_RULES_VERSION" "field 32 ?bs 6 = se_network e"
    "field 4 ?bs 38 = be_bytes (of_nat (length ?inner) :: u32)"
    "take (length ?inner) (drop 42 ?bs) = ?inner"
    "field 65 ?bs (42 + length ?inner) = se_signature e"
    using wf by (simp_all add: envelope_wire_bytes_def Let_def field_def drop_Cons')
  show ?thesis
    unfolding envelope_from_wire_bytes_def ba_field_def
    using len max u f wf nb_dec_enc [OF wf(2)]
    by (simp add: envelope_bounds)
qed

lemma envelope_enc_dec:
  assumes "envelope_from_wire_bytes bs = Inr e"
  shows "envelope_wf e \<and> envelope_wire_bytes e = bs"
proof -
  from assms obtain len where
    1: "hd (field 1 bs 0) = OUTER_WIRE_VERSION" "1 \<le> length bs"
    and 2: "hd (field 1 bs 1) = AUTH_ENCODING_VERSION" "2 \<le> length bs"
    and 3: "be_word (field 4 bs 2) = AUTH_RULES_VERSION" "6 \<le> length bs"
    and 4: "se_network e = field 32 bs 6" "38 \<le> length bs"
    and 5: "len = unat (be_word (field 4 bs 38) :: u32)" "42 \<le> length bs" "289 \<le> len"
    and 6: "len + 107 = length bs"
    and 7: "nb_from_wire_bytes (take len (drop 42 bs)) = Inr (se_block e)"
    and 8: "se_signature e = field 65 bs (42 + len)"
    unfolding envelope_from_wire_bytes_def Let_def
    by (auto simp: try_res_Inr_iff ba_field_def native_lens ENVELOPE_OVERHEAD_def split: if_splits)
  note inner = nb_enc_dec [OF 7]
  have lw: "length (nb_wire_bytes (se_block e)) = len"
    using inner 6 by simp
  have w: "field 4 bs 2 = be_bytes AUTH_RULES_VERSION" "field 4 bs 38 = be_bytes (of_nat len :: u32)"
    using 3 5 by (auto intro!: nb_word_field simp: be_word_def)
  have h: "bs ! 0 = OUTER_WIRE_VERSION"
    using 1 by (cases bs) (simp_all add: field_def)
  have h': "bs ! 1 = AUTH_ENCODING_VERSION"
    using 2 by (simp add: field_def hd_drop_conv_nth)
  have wf: "envelope_wf e"
    using 4 6 8 5(3) inner lw by (simp add: envelope_wf_def native_lens)
  have "envelope_wire_bytes e = bs ! 0 # bs ! 1 # field 4 bs 2 @ field 32 bs 6 @ field 4 bs 38 @
      field len bs 42 @ field 65 bs (42 + len)"
    using inner lw h h' w 4 8 by (simp add: envelope_wire_bytes_def Let_def field_def)
  also have "\<dots> = bs ! 0 # drop 1 bs"
    using 6 by (simp add: field_tile_simps)
  also have "\<dots> = bs"
    using 6 by (cases bs) simp_all
  finally show ?thesis using wf by simp
qed

interpretation envelope_codec:
  canonical_codec envelope_wire_bytes "\<lambda>b. ok (envelope_from_wire_bytes b)" envelope_wf
  by unfold_locales (simp_all add: envelope_dec_enc envelope_enc_dec)

text \<open>The statement that is signed, laid out.\<close>

lemma signing_payload_layout:
  assumes "length (se_network e) = 32" "digest32 (c_keccak C)"
  shows "signing_payload C e = [OUTER_WIRE_VERSION, AUTH_ENCODING_VERSION] @ be_bytes AUTH_RULES_VERSION @
     be_bytes (bh_chain_id (nb_header (se_block e))) @ se_network e @
     be_bytes (bh_protocol_version (nb_header (se_block e))) @ nb_hash (c_keccak C) (se_block e)"
  using assms
  by (simp add: signing_payload_def Let_def PAYLOAD_LEN_def fixed_buffer_simps digest32_def nb_hash_def
      header_hash_def hash_with_domain_def)

lemma length_domains [simp]:
  "length BLOCK_SIGNING_DOMAIN = 20" "length ENVELOPE_ID_DOMAIN = 27"
  by (simp_all add: BLOCK_SIGNING_DOMAIN_def ENVELOPE_ID_DOMAIN_def)

lemma block_signing_preimage_layout:
  assumes "length (se_network e) = 32" "digest32 (c_keccak C)"
  shows "block_signing_preimage C e = BLOCK_SIGNING_DOMAIN @ signing_payload C e"
    and "length (block_signing_preimage C e) = 102"
proof -
  have len: "length (signing_payload C e) = 82"
    using assms by (simp add: signing_payload_layout digest32_def nb_hash_def header_hash_def
        hash_with_domain_def)
  then show "block_signing_preimage C e = BLOCK_SIGNING_DOMAIN @ signing_payload C e"
    by (simp add: block_signing_preimage_def Let_def BLOCK_SIGNING_PREIMAGE_LEN_def fixed_buffer_simps)
  with len show "length (block_signing_preimage C e) = 102" by simp
qed

section \<open>Properties\<close>

lemma envelope_preflight_Inr_iff:
  "envelope_preflight C e ctx = Inr u \<longleftrightarrow> se_network e = ac_network_id (bac_native ctx) \<and>
     (\<exists>ids. preflight (c_keccak C) (se_block e) (bac_native ctx) = Inr ids)"
  by (auto simp: envelope_preflight_def try_res_Inr_iff)

lemma block_signature_from_bytes_Inr_iff:
  "block_signature_from_bytes C b = Inr s \<longleftrightarrow> s = b \<and> signature_wf C b"
  by (auto simp: block_signature_from_bytes_def signature_from_bytes_Inr_iff)

lemma block_signature_recover_wf:
  assumes "signature_wf C s"
  shows "block_signature_recover C s d = ok_or ProducerRecoveryFailed
     (c_recover_from_prehash C d (take 64 s) (s ! 64))"
  using recover_public_key_wf [OF assms, of d]
  by (auto simp: block_signature_recover_def ok_or_def split: option.splits)

lemma authenticate_block_iff:
  "authenticate_block C bs ctx binding claimed = Inr a \<longleftrightarrow>
     (\<exists>e key ids. envelope_wf e \<and> bs = envelope_wire_bytes e \<and>
        se_network e = ac_network_id (bac_native ctx) \<and>
        preflight (c_keccak C) (se_block e) (bac_native ctx) = Inr ids \<and>
        binding_matches C binding (se_block e) = Inr () \<and> signature_wf C (se_signature e) \<and>
        claimed \<in> {None, Some (c_keccak C (ENVELOPE_ID_DOMAIN @ bs))} \<and>
        c_recover_from_prehash C (block_signing_digest C e) (take 64 (se_signature e)) (se_signature e ! 64)
          = Some key \<and>
        c_to_encoded_point C key True = pb_public_key binding \<and>
        a = \<lparr>apb_envelope = e, apb_context = ctx, apb_binding = binding, apb_signature = se_signature e,
             apb_digest = block_signing_digest C e,
             apb_envelope_id = c_keccak C (ENVELOPE_ID_DOMAIN @ bs)\<rparr>)"
  (is "?l = (\<exists>e key ids. ?r e key ids)")
proof
  assume l: ?l
  then obtain e where e: "envelope_from_wire_bytes bs = Inr e"
    by (auto simp: authenticate_block_def try_res_Inr_iff)
  from envelope_enc_dec [OF e] l show "\<exists>e key ids. ?r e key ids"
    by (auto simp: authenticate_block_def try_res_Inr_iff e envelope_preflight_Inr_iff hash_with_domain_def
        block_signature_from_bytes_Inr_iff Let_def block_signature_recover_wf
        split: if_splits option.splits)
next
  assume "\<exists>e key ids. ?r e key ids"
  then obtain e key ids where r: "?r e key ids" by blast
  then have "envelope_from_wire_bytes bs = Inr e" and "envelope_preflight C e ctx = Inr ()"
    "block_signature_from_bytes C (se_signature e) = Inr (se_signature e)"
    by (auto simp: envelope_dec_enc envelope_preflight_Inr_iff block_signature_from_bytes_Inr_iff)
  with r show ?l
    by (auto simp: authenticate_block_def hash_with_domain_def Let_def block_signature_recover_wf)
qed

lemma block_sign_with_retry_returns:
  assumes "\<And>k. m \<le> k \<Longrightarrow> k < n \<Longrightarrow> \<exists>s i. candidate k = Inr (s, i) \<and> bit i 1"
    and "candidate n = Inr (s, i)" and "\<not> bit i 1" and "m \<le> n" and "length s = 64"
  shows "block_sign_with_retry C candidate m = Some (block_signature_from_bytes C (s @ [i]))"
  using assms(4,1)
proof (induction "n - m" arbitrary: m)
  case 0
  then have "m = n" by simp
  with assms(2,3,5) show ?case
    by (subst block_sign_with_retry.simps) (simp add: native_lens fixed_buffer_simps)
next
  case (Suc j)
  then have "m < n" by simp
  with Suc.prems(2) obtain s' i' where c: "candidate m = Inr (s', i')" and b: "bit i' 1"
    by blast
  have "block_sign_with_retry C candidate (Suc m) = Some (block_signature_from_bytes C (s @ [i]))"
    using Suc.hyps(1) [of "Suc m"] Suc.hyps(2) Suc.prems \<open>m < n\<close> by simp
  with c b show ?case
    by (subst block_sign_with_retry.simps) simp
qed

text \<open>The signature is not part of what is signed.\<close>

lemma block_signing_digest_signature [simp]:
  "block_signing_digest C (e\<lparr>se_signature := s\<rparr>) = block_signing_digest C e"
  by (simp add: block_signing_digest_def block_signing_preimage_def signing_payload_def)

lemma preflighted_inner_length:
  assumes "nb_wf b" "preflight K b ctx = Inr ids"
  shows "289 \<le> length (nb_wire_bytes b)" "length (nb_wire_bytes b) \<le> MAX_WIRE_BYTES"
proof -
  have "nb_proposer b \<noteq> []" using assms(2) by (simp add: preflight_Inr_iff)
  then have "1 \<le> length (nb_proposer b)" by (cases "nb_proposer b") simp_all
  then show "289 \<le> length (nb_wire_bytes b)" by (simp add: length_nb_wire_bytes [OF assms(1)])
qed (rule nb_wire_bytes_bound [OF assms(1)])

text \<open>The empty block of the witnesses, its producer, and the envelope around it.\<close>

definition demo_binding :: producer_binding where
  "demo_binding = \<lparr>pb_producer_id = [65], pb_public_key = replicate 33 7\<rparr>"

definition demo_block_context :: block_auth_context where
  "demo_block_context = \<lparr>bac_native = demo_context, bac_header_profile = 2, bac_auth_rules = 1\<rparr>"

lemma demo_block:
  obtains b where "build (c_keccak demo_crypto) demo_context 0 (replicate 32 9) [65] 1 [] default_outcome = Inr b"
    "nb_wf b" "nb_transactions b = []" "preflight (c_keccak demo_crypto) b (bac_native demo_block_context) = Inr []"
    "binding_matches demo_crypto demo_binding b = Inr ()"
proof -
  have st: "stage_body demo_crypto demo_state demo_context 0 [] = Inr \<lparr>sb_base = demo_state,
      sb_candidate = demo_state, sb_record = \<lparr>ab_context = demo_context, ab_slot = 0,
      ab_transactions = [], ab_outcome = default_outcome\<rparr>\<rparr>"
    by (simp add: stage_body_def)
  obtain b where b: "build (c_keccak demo_crypto) demo_context 0 (replicate 32 9) [65] 1 [] default_outcome = Inr b"
    "nb_wf b" "nb_transactions b = []" "nb_proposer b = [65]"
    and pre: "preflight (c_keccak demo_crypto) b demo_context = Inr []"
    by (rule build_returns [OF demo_digest32 st demo_buildable]) (simp_all add: default_outcome_def)
  moreover have "bh_proposer_id (nb_header b) = proposer_id (c_keccak demo_crypto) [65]"
    using pre b(4) by (simp add: preflight_Inr_iff)
  ultimately show thesis
    by (intro that [of b]) (simp_all add: demo_block_context_def binding_matches_def demo_binding_def)
qed

lemma demo_signature: "signature_wf demo_crypto (replicate 64 5 @ [0])"
  by (simp add: signature_wf_def demo_crypto_def native_lens nth_append)

lemma demo_signer_key: "c_to_encoded_point demo_crypto (replicate 65 7) True = pb_public_key demo_binding"
  by (simp add: demo_crypto_def demo_binding_def)

lemma demo_envelope:
  obtains bs a where "authenticate_block demo_crypto bs demo_block_context demo_binding None = Inr a"
    "nb_transactions (se_block (apb_envelope a)) = []" "envelope_wf (apb_envelope a)"
proof -
  obtain b where b: "nb_wf b" "nb_transactions b = []"
    "preflight (c_keccak demo_crypto) b (bac_native demo_block_context) = Inr []"
    "binding_matches demo_crypto demo_binding b = Inr ()"
    by (rule demo_block)
  let ?e = "\<lparr>se_network = replicate 32 1, se_block = b, se_signature = replicate 64 5 @ [0]\<rparr>"
  have wf: "envelope_wf ?e"
    using b preflighted_inner_length [OF b(1,3)] by (simp add: envelope_wf_def native_lens)
  show thesis
  proof (rule that)
    show "authenticate_block demo_crypto (envelope_wire_bytes ?e) demo_block_context demo_binding None =
        Inr \<lparr>apb_envelope = ?e, apb_context = demo_block_context, apb_binding = demo_binding,
             apb_signature = se_signature ?e, apb_digest = block_signing_digest demo_crypto ?e,
             apb_envelope_id = c_keccak demo_crypto (ENVELOPE_ID_DOMAIN @ envelope_wire_bytes ?e)\<rparr>"
      unfolding authenticate_block_iff
      using wf b demo_signature demo_signer_key
      by (intro exI [of _ ?e] exI [of _ "replicate 65 7"] exI [of _ "[]"])
        (simp add: demo_block_context_def demo_context_def demo_crypto_def)
  qed (use wf b in simp_all)
qed

lemma binding_matches_Inr_iff:
  "binding_matches C binding b = Inr u \<longleftrightarrow> nb_proposer b = pb_producer_id binding \<and>
     bh_proposer_id (nb_header b) = proposer_id (c_keccak C) (pb_producer_id binding)"
  by (auto simp: binding_matches_def)

text \<open>The digest a producer signs, over the bytes of the statement.\<close>

lemma block_signing_digest_layout:
  assumes "length (se_network e) = 32" "digest32 (c_keccak C)"
  shows "block_signing_digest C e = c_keccak C (BLOCK_SIGNING_DOMAIN @ [OUTER_WIRE_VERSION, AUTH_ENCODING_VERSION] @
     be_bytes AUTH_RULES_VERSION @ be_bytes (bh_chain_id (nb_header (se_block e))) @ se_network e @
     be_bytes (bh_protocol_version (nb_header (se_block e))) @
     c_keccak C (BLOCK_HEADER_DOMAIN @ header_bytes (nb_header (se_block e))))"
  using assms
  by (simp add: block_signing_digest_def keccak256_def block_signing_preimage_layout signing_payload_layout
      nb_hash_def header_hash_def hash_with_domain_def)

text \<open>C39. \<open>authenticate_block\<close> accepts a byte string exactly when it is the canonical encoding of an
  envelope of the trusted network around a well-formed block such that: the block names the trusted producer
  (which is neither empty nor the reserved protocol name) by its text and by the hash of that text; its
  header has the supported profile, the trusted chain, the validator kind, a ticket, the placeholder state
  root, the empty receipts root and at most the maximal gas; its claimed hash is the hash of its header and
  the header commits to its protocol data and to the identifiers of its transactions; the signature is a
  canonical low-s one; the claimed envelope identifier (if any) is the domain hash of the bytes; and the
  signature recovers, over the digest of the versions, chain, network, profile and header hash, to exactly
  the trusted public key. The returned attribution then holds exactly those values. In particular the
  reconstruction check of the source never fails for a decoded envelope.\<close>

theorem authenticate_block_accepts_iff:
  assumes "digest32 (c_keccak C)"
  shows "authenticate_block C bs ctx binding claimed = Inr a \<longleftrightarrow>
     (\<exists>e b h key digest. envelope_wf e \<and> bs = envelope_wire_bytes e \<and> b = se_block e \<and> h = nb_header b \<and>
        se_network e = ac_network_id (bac_native ctx) \<and>
        nb_proposer b = pb_producer_id binding \<and> nb_proposer b \<notin> {[], str ''protocol''} \<and>
        bh_proposer_id h = c_keccak C (PROPOSER_ID_DOMAIN @ be_bytes (of_nat (length (nb_proposer b)) :: u64) @ nb_proposer b) \<and>
        bh_proposer_id h \<noteq> replicate 32 0 \<and>
        bh_protocol_version h = EXPERIMENTAL_HEADER_PROFILE \<and> bh_chain_id h = ac_chain_id (bac_native ctx) \<and>
        bh_block_kind h = Validator \<and> bh_ticket_id h \<noteq> 0 \<and> bh_state_root h = PLACEHOLDER_STATE_ROOT \<and>
        bh_receipts_root h = c_keccak C (RECEIPT_LIST_DOMAIN @ be_bytes (0 :: u64)) \<and> bh_gas_used h \<le> MAX_GAS \<and>
        pd_missed_proposer (nb_protocol_data b) = None \<and>
        nb_claimed_hash b = c_keccak C (BLOCK_HEADER_DOMAIN @ header_bytes h) \<and>
        bh_protocol_data_root h = c_keccak C (PROTOCOL_DATA_DOMAIN @ protocol_data_bytes (nb_protocol_data b)) \<and>
        bh_transaction_root h = c_keccak C (TX_LIST_DOMAIN @ be_bytes (of_nat (length (nb_transactions b)) :: u64) @
          concat (map (\<lambda>tx. c_keccak C (ID_DOMAIN @ tx)) (nb_transactions b))) \<and>
        length (se_signature e) = 65 \<and> se_signature e ! 64 \<le> 1 \<and> c_signature_from_slice C (take 64 (se_signature e)) \<and>
        \<not> c_normalize_s C (take 64 (se_signature e)) \<and>
        claimed \<in> {None, Some (c_keccak C (ENVELOPE_ID_DOMAIN @ bs))} \<and>
        digest = c_keccak C (BLOCK_SIGNING_DOMAIN @ [OUTER_WIRE_VERSION, AUTH_ENCODING_VERSION] @
          be_bytes AUTH_RULES_VERSION @ be_bytes (bh_chain_id h) @ se_network e @ be_bytes (bh_protocol_version h) @
          c_keccak C (BLOCK_HEADER_DOMAIN @ header_bytes h)) \<and>
        c_recover_from_prehash C digest (take 64 (se_signature e)) (se_signature e ! 64) = Some key \<and>
        c_to_encoded_point C key True = pb_public_key binding \<and>
        a = \<lparr>apb_envelope = e, apb_context = ctx, apb_binding = binding, apb_signature = se_signature e,
             apb_digest = digest, apb_envelope_id = c_keccak C (ENVELOPE_ID_DOMAIN @ bs)\<rparr>)"
proof -
  have parts: "block_signing_digest C e = c_keccak C (BLOCK_SIGNING_DOMAIN @ [OUTER_WIRE_VERSION, AUTH_ENCODING_VERSION] @
      be_bytes AUTH_RULES_VERSION @ be_bytes (bh_chain_id (nb_header (se_block e))) @ se_network e @
      be_bytes (bh_protocol_version (nb_header (se_block e))) @ c_keccak C (BLOCK_HEADER_DOMAIN @ header_bytes (nb_header (se_block e))))"
    "ordered_transaction_root (c_keccak C) (map (hash_with_domain (c_keccak C) ID_DOMAIN) (nb_transactions (se_block e))) =
      Some (c_keccak C (TX_LIST_DOMAIN @ be_bytes (of_nat (length (nb_transactions (se_block e))) :: u64) @
        concat (map (\<lambda>tx. c_keccak C (ID_DOMAIN @ tx)) (nb_transactions (se_block e)))))"
    if "envelope_wf e" for e
    using that block_signing_digest_layout [OF _ assms]
    by (simp_all add: envelope_wf_def nb_wf_def ordered_transaction_root_small root_preimage_def hash_with_domain_def [abs_def])
  show ?thesis
    unfolding authenticate_block_iff preflight_Inr_iff binding_matches_Inr_iff signature_wf_def
    by (auto simp: parts proposer_id_def nb_hash_def header_hash_def protocol_data_root_def EMPTY_RECEIPTS_ROOT_def
        keccak256_def hash_with_domain_def native_lens)
qed

theorem authenticate_block_accepts_iff_witness:
  "\<exists>bs a. authenticate_block demo_crypto bs demo_block_context demo_binding None = Inr a \<and>
     nb_proposer (se_block (apb_envelope a)) = [65] \<and> bs = envelope_wire_bytes (apb_envelope a)"
proof -
  obtain bs a where a: "authenticate_block demo_crypto bs demo_block_context demo_binding None = Inr a"
    by (rule demo_envelope)
  with authenticate_block_accepts_iff [OF demo_digest32, of bs demo_block_context demo_binding None a]
  have "nb_proposer (se_block (apb_envelope a)) = [65] \<and> bs = envelope_wire_bytes (apb_envelope a)"
    by (auto simp: demo_binding_def)
  with a show ?thesis by blast
qed

text \<open>What \<open>sign_block\<close> returns authenticates: for a well-formed block that passes preflight and
  names the binding's producer, if the backend's attempts overflow \<open>n\<close> times and then yield a
  canonical signature that recovers to the signing key, then \<open>sign_block\<close> terminates with an
  envelope around that very block, and \<open>authenticate_block\<close> accepts its bytes under the same policy
  with the envelope's own identifier.\<close>

theorem sign_block_then_authenticate:
  assumes block: "nb_wf b" "preflight (c_keccak C) b (bac_native ctx) = Inr ids"
    and network: "length (ac_network_id (bac_native ctx)) = 32"
    and binding: "binding_matches C binding b = Inr ()" "c_to_encoded_point C vk True = pb_public_key binding"
    and digest: "d = block_signing_digest C \<lparr>se_network = ac_network_id (bac_native ctx), se_block = b,
       se_signature = replicate 65 0\<rparr>"
    and retries: "\<And>k. k < n \<Longrightarrow> \<exists>s i. signer d k = Inr (s, i) \<and> bit i 1"
    and final: "signer d n = Inr (s, i)" "\<not> bit i 1" "signature_wf C (s @ [i])" "length s = 64"
    and backend: "c_recover_from_prehash C d s i = Some vk"
  shows "\<exists>e a. sign_block C b vk signer ctx binding = Some (Inr e) \<and> se_block e = b \<and>
     authenticate_block C (envelope_wire_bytes e) ctx binding (Some (envelope_id C e)) = Inr a \<and>
     apb_envelope a = e"
proof -
  let ?e0 = "\<lparr>se_network = ac_network_id (bac_native ctx), se_block = b, se_signature = replicate 65 0\<rparr>"
  let ?e = "?e0\<lparr>se_signature := s @ [i]\<rparr>"
  note len = preflighted_inner_length [OF block]
  have wf: "envelope_wf ?e"
    using block network final(4) len by (simp add: envelope_wf_def native_lens)
  have d: "block_signing_digest C ?e = d"
    unfolding digest by (rule block_signing_digest_signature)
  have pre: "envelope_preflight C \<lparr>se_network = ac_network_id (bac_native ctx), se_block = b,
      se_signature = replicate 65 0\<rparr> ctx = Inr ()"
    using block by (auto simp: envelope_preflight_Inr_iff)
  have "sign_digest C signer d = Some (block_signature_from_bytes C (s @ [i]))"
    unfolding sign_digest_def
    by (rule block_sign_with_retry_returns [where n = n]) (use retries final in auto)
  then have "sign_digest C signer d = Some (Inr (s @ [i]))"
    using final(3) by (simp add: block_signature_from_bytes_def)
  with pre binding len digest have "sign_block C b vk signer ctx binding = Some (Inr ?e)"
    by (simp add: sign_block_def envelope_from_parts_def Let_def native_lens)
  moreover obtain a where "authenticate_block C (envelope_wire_bytes ?e) ctx binding
      (Some (envelope_id C ?e)) = Inr a" "apb_envelope a = ?e"
  proof (rule that)
    show "authenticate_block C (envelope_wire_bytes ?e) ctx binding (Some (envelope_id C ?e)) =
       Inr \<lparr>apb_envelope = ?e, apb_context = ctx, apb_binding = binding, apb_signature = s @ [i],
             apb_digest = d, apb_envelope_id = c_keccak C (ENVELOPE_ID_DOMAIN @ envelope_wire_bytes ?e)\<rparr>"
      unfolding authenticate_block_iff
      using wf block binding final d backend
      by (intro exI [of _ ?e] exI [of _ vk] exI [of _ ids])
        (simp add: envelope_id_def hash_with_domain_def nth_append)
  qed simp
  ultimately show ?thesis by fastforce
qed

theorem sign_block_then_authenticate_witness:
  "\<exists>b e a. build (c_keccak demo_crypto) demo_context 0 (replicate 32 9) [65] 1 [] default_outcome = Inr b \<and>
     sign_block demo_crypto b (replicate 65 7)
       (\<lambda>_ k. if k < 2 then Inr (replicate 64 5, 3) else Inr (replicate 64 5, 0))
       demo_block_context demo_binding = Some (Inr e) \<and> se_block e = b \<and>
     authenticate_block demo_crypto (envelope_wire_bytes e) demo_block_context demo_binding
       (Some (envelope_id demo_crypto e)) = Inr a \<and> apb_envelope a = e"
proof -
  obtain b where b: "build (c_keccak demo_crypto) demo_context 0 (replicate 32 9) [65] 1 [] default_outcome = Inr b"
    "nb_wf b" "preflight (c_keccak demo_crypto) b (bac_native demo_block_context) = Inr []"
    "binding_matches demo_crypto demo_binding b = Inr ()"
    by (rule demo_block)
  have "\<exists>e a. sign_block demo_crypto b (replicate 65 7)
       (\<lambda>_ k. if k < 2 then Inr (replicate 64 5, 3) else Inr (replicate 64 5, 0))
       demo_block_context demo_binding = Some (Inr e) \<and> se_block e = b \<and>
     authenticate_block demo_crypto (envelope_wire_bytes e) demo_block_context demo_binding
       (Some (envelope_id demo_crypto e)) = Inr a \<and> apb_envelope a = e"
    by (rule sign_block_then_authenticate [OF b(2,3) _ b(4) demo_signer_key refl,
          where n = 2 and s = "replicate 64 5" and i = 0])
      (simp_all add: demo_signature, simp_all add: demo_block_context_def demo_context_def demo_crypto_def bit_numeral_rec)
  with b(1) show ?thesis by blast
qed

text \<open>A producer's signature binds one block: two envelopes that are attributed under one
  backend with the same signing digest carry the same block and the same network, unless two of the
  byte strings hashed on the way collide.\<close>

theorem attribution_binds_block:
  assumes K: "digest32 (c_keccak C)"
    and auth: "authenticate_block C bs ctx binding claimed = Inr a"
      "authenticate_block C bs' ctx' binding' claimed' = Inr a'"
    and digest: "apb_digest a = apb_digest a'"
    and inj: "inj_on (c_keccak C) ({block_signing_preimage C (apb_envelope a),
         block_signing_preimage C (apb_envelope a')} \<union>
       (committed_preimages (c_keccak C) (se_block (apb_envelope a)) \<union>
        committed_preimages (c_keccak C) (se_block (apb_envelope a'))))"
  shows "se_block (apb_envelope a) = se_block (apb_envelope a') \<and>
     se_network (apb_envelope a) = se_network (apb_envelope a')"
proof -
  from auth(1) obtain ids where a: "envelope_wf (apb_envelope a)"
    "preflight (c_keccak C) (se_block (apb_envelope a)) (bac_native ctx) = Inr ids"
    "apb_digest a = c_keccak C (block_signing_preimage C (apb_envelope a))"
    unfolding authenticate_block_iff by (auto simp: block_signing_digest_def keccak256_def)
  from auth(2) obtain ids' where a': "envelope_wf (apb_envelope a')"
    "preflight (c_keccak C) (se_block (apb_envelope a')) (bac_native ctx') = Inr ids'"
    "apb_digest a' = c_keccak C (block_signing_preimage C (apb_envelope a'))"
    unfolding authenticate_block_iff by (auto simp: block_signing_digest_def keccak256_def)
  have wf: "nb_wf (se_block (apb_envelope a))" "length (se_network (apb_envelope a)) = 32"
    "nb_wf (se_block (apb_envelope a'))" "length (se_network (apb_envelope a')) = 32"
    using a(1) a'(1) by (simp_all add: envelope_wf_def)
  have "block_signing_preimage C (apb_envelope a) = block_signing_preimage C (apb_envelope a')"
    using inj digest a(3) a'(3) by (auto dest: inj_onD)
  then have "nb_hash (c_keccak C) (se_block (apb_envelope a)) = nb_hash (c_keccak C) (se_block (apb_envelope a'))"
    "se_network (apb_envelope a) = se_network (apb_envelope a')"
    using wf K by (simp_all add: block_signing_preimage_layout signing_payload_layout)
  moreover have "inj_on (c_keccak C) (committed_preimages (c_keccak C) (se_block (apb_envelope a)) \<union>
        committed_preimages (c_keccak C) (se_block (apb_envelope a')))"
    by (rule inj_on_subset [OF inj]) blast
  ultimately show ?thesis
    using preflight_commits [OF K wf(1,3) a(2) a'(2)] by simp
qed

theorem attribution_binds_block_witness:
  "\<exists>bs a a'. authenticate_block demo_crypto bs demo_block_context demo_binding None = Inr a \<and>
     authenticate_block demo_crypto bs demo_block_context demo_binding (Some (apb_envelope_id a)) = Inr a' \<and>
     se_block (apb_envelope a) = se_block (apb_envelope a')"
proof -
  obtain bs a where a: "authenticate_block demo_crypto bs demo_block_context demo_binding None = Inr a"
    and tx: "nb_transactions (se_block (apb_envelope a)) = []" and wf: "envelope_wf (apb_envelope a)"
    by (rule demo_envelope)
  let ?e = "apb_envelope a" and ?K = "c_keccak demo_crypto"
  from a have a': "authenticate_block demo_crypto bs demo_block_context demo_binding (Some (apb_envelope_id a)) = Inr a"
    unfolding authenticate_block_iff by auto
  have p: "block_signing_preimage demo_crypto ?e = BLOCK_SIGNING_DOMAIN @ signing_payload demo_crypto ?e"
    using wf demo_digest32 by (simp add: block_signing_preimage_layout envelope_wf_def)
  have k: "?K (y # ys) ! 0 = y" for y ys
    by (simp add: demo_crypto_def)
  have "inj_on ?K (insert (block_signing_preimage demo_crypto ?e) (committed_preimages ?K (se_block ?e)))"
  proof (rule inj_on_insert [THEN iffD2], intro conjI demo_no_collision [OF tx])
    have ne: "?K (block_signing_preimage demo_crypto ?e) ! 0 \<noteq> ?K x ! 0"
      if "x \<in> committed_preimages ?K (se_block ?e)" for x
      using that tx by (auto simp: p committed_preimages_def root_preimage_def k str_def
          BLOCK_SIGNING_DOMAIN_def BLOCK_HEADER_DOMAIN_def PROPOSER_ID_DOMAIN_def PROTOCOL_DATA_DOMAIN_def
          TX_LIST_DOMAIN_def)
    show "?K (block_signing_preimage demo_crypto ?e) \<notin>
        ?K ` (committed_preimages ?K (se_block ?e) - {block_signing_preimage demo_crypto ?e})"
    proof
      assume "?K (block_signing_preimage demo_crypto ?e) \<in>
        ?K ` (committed_preimages ?K (se_block ?e) - {block_signing_preimage demo_crypto ?e})"
      then obtain x where "?K (block_signing_preimage demo_crypto ?e) = ?K x"
        and "x \<in> committed_preimages ?K (se_block ?e)"
        by (elim imageE) simp
      with ne [of x] show False by simp
    qed
  qed
  then have "se_block ?e = se_block ?e \<and> se_network ?e = se_network ?e"
    by (rule attribution_binds_block [OF demo_digest32 a a' refl, unfolded Un_absorb insert_absorb2
          insert_is_Un [symmetric]])
  with a a' show ?thesis by blast
qed

text \<open>A signature over a block cannot be replayed as one over a transaction, nor its digest as
  an identity: the block-signing preimage of an envelope differs from every transaction-signing,
  transaction-identifier, envelope-identifier and block-header preimage.\<close>

theorem block_signing_domain_separate:
  assumes "digest32 (c_keccak C)" and "envelope_wf e"
  shows "block_signing_preimage C e \<notin> {SIGNING_DOMAIN @ x, ID_DOMAIN @ x, ENVELOPE_ID_DOMAIN @ x,
     BLOCK_HEADER_DOMAIN @ x}"
proof -
  have p: "block_signing_preimage C e = BLOCK_SIGNING_DOMAIN @ signing_payload C e"
    using assms by (simp add: block_signing_preimage_layout envelope_wf_def)
  show ?thesis
    unfolding p
    by (simp add: BLOCK_SIGNING_DOMAIN_def SIGNING_DOMAIN_def ID_DOMAIN_def ENVELOPE_ID_DOMAIN_def
        BLOCK_HEADER_DOMAIN_def str_def)
qed

theorem block_signing_domain_separate_witness:
  "\<exists>bs a. authenticate_block demo_crypto bs demo_block_context demo_binding None = Inr a \<and>
     block_signing_preimage demo_crypto (apb_envelope a) \<noteq> SIGNING_DOMAIN @ [1]"
proof -
  obtain bs a where a: "authenticate_block demo_crypto bs demo_block_context demo_binding None = Inr a"
    and wf: "envelope_wf (apb_envelope a)"
    by (rule demo_envelope)
  with block_signing_domain_separate [OF demo_digest32 wf, of "[1]"] show ?thesis by blast
qed

end
