(* ===== verification/Poash_Selection.thy ===== *)
theory Poash_Selection
  imports Block_Authentication "HOL-Library.Multiset"
begin

text \<open>
  \<open>src/src/native_poash.rs\<close> (constants, errors, the small decoder), the row types and the eligibility
  checks of \<open>src/src/native_poash/state.rs\<close>, and \<open>src/src/native_poash/selection.rs\<close>: the two-stage
  leader selection (a uniform draw of a bucket by rejection sampling, then the lowest score in it).
\<close>

section \<open>Profile constants and errors\<close>

definition HEADER_PROFILE :: u32 where "HEADER_PROFILE = 3"
definition OUTER_WIRE :: u8 where "OUTER_WIRE = 4"
definition INNER_WIRE :: u8 where "INNER_WIRE = 4"
definition AUTH_ENCODING :: u8 where "AUTH_ENCODING = 1"
definition AUTH_RULES :: u32 where "AUTH_RULES = 2"
definition POASH_RULES :: u32 where "POASH_RULES = 1"
definition CHAIN_ID :: u64 where "CHAIN_ID = 1162"
definition MAX_SLOTS :: u64 where "MAX_SLOTS = 200"
definition MAX_ENTRIES :: u64 where "MAX_ENTRIES = 16"
definition MAX_TICKETS :: nat where "MAX_TICKETS = 256"
definition MAX_ACCOUNTS :: nat where "MAX_ACCOUNTS = 3 + unat MAX_SLOTS * unat MAX_ENTRIES"
definition LOOKBACK :: u64 where "LOOKBACK = 32"
definition TICKET_COST :: u128 where "TICKET_COST = 10000000000000"
definition INITIAL_SUPPLY :: u128 where "INITIAL_SUPPLY = 1752000000000000"
definition INITIAL_VAULT :: u128 where "INITIAL_VAULT = 60000000000000"
definition YEAR_SLOTS :: u64 where "YEAR_SLOTS = 10512000"
definition REWARD_HOLD_EPOCHS :: u64 where "REWARD_HOLD_EPOCHS = 4"

datatype poash_error =
    PEncoding string
  | PProfile string
  | PDuplicate string
  | PState string
  | InsufficientCollateral text_bytes
  | MissingHistory u64
  | PContext string
  | ExperimentLimit
  | NoEligibleTickets
  | UnknownProducer
  | PSignature tx_error
  | PKeyMismatch
  | NotSelected
  | PlanMismatch
  | POverflow

definition text_field :: "text_bytes \<Rightarrow> bytes" where
  "text_field s = be_bytes (of_nat (length s) :: u16) @ s"

definition optional_field :: "u64 option \<Rightarrow> bytes" where
  "optional_field n = (case n of None \<Rightarrow> [0] | Some n \<Rightarrow> 1 # be_bytes n)"

section \<open>Rows of the closed state\<close>

record position =
  po_slot :: u64
  po_hash :: hash

record poash_account =
  pa_address :: address
  pa_balance :: u128
  pa_nonce :: u64

datatype validator_status = VActive | PausedLowVault | Cooldown | Inactive | Jailed

fun validator_status_code :: "validator_status \<Rightarrow> u8" where
  "validator_status_code VActive = 0"
| "validator_status_code PausedLowVault = 1"
| "validator_status_code Cooldown = 2"
| "validator_status_code Inactive = 3"
| "validator_status_code Jailed = 4"

record validator =
  va_id :: text_bytes
  va_status :: validator_status
  va_vault :: u128
  va_locked :: u128
  va_misses :: u32
  va_offenses :: u32
  va_produced :: u64
  va_cooldown_until :: "u64 option"

datatype ticket_status = TActive | Muted | Dead | Retiring

fun ticket_status_code :: "ticket_status \<Rightarrow> u8" where
  "ticket_status_code TActive = 0"
| "ticket_status_code Muted = 1"
| "ticket_status_code Dead = 2"
| "ticket_status_code Retiring = 3"

record ticket =
  tk_id :: u64
  tk_owner :: text_bytes
  tk_bucket :: u8
  tk_status :: ticket_status
  tk_retire_start :: "u64 option"
  tk_retire_effective :: "u64 option"

definition home_bucket :: "u64 \<Rightarrow> u8" where
  "home_bucket i = 2 + ucast (i mod 254)"

definition ticket_active :: "u64 \<Rightarrow> text_bytes \<Rightarrow> ticket" where
  "ticket_active i owner = \<lparr>tk_id = i, tk_owner = owner, tk_bucket = home_bucket i, tk_status = TActive,
     tk_retire_start = None, tk_retire_effective = None\<rparr>"

section \<open>Eligibility checks\<close>

fun check_validators :: "text_bytes list \<Rightarrow> validator list \<Rightarrow> poash_error + unit" where
  "check_validators seen [] = Inr ()"
| "check_validators seen (v # vs) =
     (if va_id v \<notin> {str ''trial-A'', str ''trial-B''} then Inl (PState ''validator identity'')
      else if va_id v \<in> set seen then Inl (PDuplicate ''validator'')
      else if va_locked v > va_vault v then Inl (PState ''locked exceeds vault'')
      else if (va_status v = Cooldown) \<noteq> (va_cooldown_until v \<noteq> None)
        then Inl (PState ''cooldown metadata'')
      else check_validators (va_id v # seen) vs)"

definition check_ticket :: "validator list \<Rightarrow> ticket \<Rightarrow> poash_error + unit" where
  "check_ticket vs t =
     try_res (ok_or (PState ''ticket owner'') (find (\<lambda>v. va_id v = tk_owner t) vs)) (\<lambda>v.
     try_res (case tk_status t of
         TActive \<Rightarrow> if va_status v \<noteq> VActive then Inl (PState ''active ticket/inactive owner'')
                   else Inr (home_bucket (tk_id t))
       | Muted \<Rightarrow> Inr 1
       | Retiring \<Rightarrow> Inr 1
       | Dead \<Rightarrow> Inr 0) (\<lambda>bucket.
     if tk_bucket t \<noteq> bucket \<or> va_status v = Jailed \<and> tk_status t \<noteq> Dead
       then Inl (PState ''ticket category/bucket'')
     else case (tk_retire_start t, tk_retire_effective t) of
       (None, None) \<Rightarrow> if tk_status t \<noteq> Retiring then Inr () else Inl (PState ''retirement metadata'')
     | (Some a, Some b) \<Rightarrow> if a < b \<and> tk_status t \<noteq> TActive then Inr ()
                          else Inl (PState ''retirement metadata'')
     | _ \<Rightarrow> Inl (PState ''retirement metadata'')))"

fun check_tickets :: "validator list \<Rightarrow> u64 list \<Rightarrow> ticket list \<Rightarrow> poash_error + unit" where
  "check_tickets vs seen [] = Inr ()"
| "check_tickets vs seen (t # ts) =
     (if tk_id t = 0 then Inl (PState ''zero ticket'')
      else if tk_id t \<in> set seen then Inl (PDuplicate ''ticket'')
      else try_res (check_ticket vs t) (\<lambda>_. check_tickets vs (tk_id t # seen) ts))"

definition minimum_vault :: "ticket list \<Rightarrow> validator \<Rightarrow> u128" where
  "minimum_vault ts v =
     5 * TICKET_COST + (TICKET_COST div 2) *
       of_nat (length (filter (\<lambda>t. tk_owner t = va_id v \<and> tk_status t \<noteq> Dead) ts))"

fun check_backing :: "ticket list \<Rightarrow> validator list \<Rightarrow> poash_error + unit" where
  "check_backing ts [] = Inr ()"
| "check_backing ts (v # vs) =
     (if va_status v \<noteq> VActive then check_backing ts vs
      else if \<not> (\<exists>t \<in> set ts. tk_owner t = va_id v \<and> tk_status t = TActive)
        then Inl (PState ''ACTIVE validator without active ticket'')
      else if va_vault v < minimum_vault ts v then Inl (InsufficientCollateral (va_id v))
      else check_backing ts vs)"

definition validate_eligibility :: "validator list \<Rightarrow> ticket list \<Rightarrow> poash_error + unit" where
  "validate_eligibility vs ts =
     (if length vs \<noteq> 2 \<or> length ts > MAX_TICKETS then Inl (PState ''eligibility bounds'')
      else try_res (check_validators [] vs) (\<lambda>_.
           try_res (check_tickets vs [] ts) (\<lambda>_.
           check_backing ts vs)))"

section \<open>Selection\<close>

record selection =
  sl_slot :: u64
  sl_reference :: hash
  sl_seed :: hash
  sl_total :: u64
  sl_bucket :: u8
  sl_retry :: u64
  sl_raw :: u64
  sl_offset :: u64
  sl_owner :: text_bytes
  sl_ticket :: u64
  sl_score :: hash

text \<open>A checked counter moves towards the top of its range.\<close>

lemma retry_decreases:
  "checked_add (r :: u64) 1 = Some r' \<Longrightarrow> 2 ^ 64 - unat r' < 2 ^ 64 - unat r"
  using checked_add_Some [of r 1 r'] unat_bound [of r] unat_bound [of r'] by simp

text \<open>The rejection-sampling loop ends: the retry counter is checked.\<close>

function draw_loop :: "u64 \<Rightarrow> u64 \<Rightarrow> (u64 \<Rightarrow> u64) \<Rightarrow> u64 \<Rightarrow> poash_error + u64 \<times> u64 \<times> u64" where
  "draw_loop threshold amount raw retry =
     (let n = raw retry in
      if n \<ge> threshold then Inr (retry, n, n mod amount)
      else case checked_add retry 1 of
        None \<Rightarrow> Inl POverflow
      | Some retry' \<Rightarrow> draw_loop threshold amount raw retry')"
  by pat_completeness auto

termination
  by (relation "measure (\<lambda>(_, _, _, retry). 2 ^ 64 - unat retry)")
    (simp_all add: retry_decreases del: power_numeral)

declare draw_loop.simps [simp del]

definition draw_with :: "u64 \<Rightarrow> (u64 \<Rightarrow> u64) \<Rightarrow> poash_error + u64 \<times> u64 \<times> u64" where
  "draw_with amount raw =
     (if amount = 0 then Inl NoEligibleTickets
      else draw_loop ((- amount) mod amount) amount raw 0)"

definition draw :: "hasher \<Rightarrow> hash \<Rightarrow> u64 \<Rightarrow> poash_error + u64 \<times> u64 \<times> u64" where
  "draw K seed amount = draw_with amount (\<lambda>retry.
     be_word (take 8 (hash_with_domain K (str ''eternix:bucket-selection:v1'') (seed @ be_bytes retry))))"

text \<open>\<open>min_by_key\<close>: the first of the candidates with the least key.\<close>

definition candidate_key :: "hash \<times> u64 \<times> text_bytes \<Rightarrow> hash \<times> u64" where
  "candidate_key c = (fst c, fst (snd c))"

fun best :: "(hash \<times> u64 \<times> text_bytes) list \<Rightarrow> (hash \<times> u64 \<times> text_bytes) option" where
  "best [] = None"
| "best (c # cs) = (case best cs of None \<Rightarrow> Some c
     | Some d \<Rightarrow> if candidate_key c \<le> candidate_key d then Some c else Some d)"

definition eligible_tickets :: "validator list \<Rightarrow> ticket list \<Rightarrow> ticket list" where
  "eligible_tickets vs ts = filter (\<lambda>t. tk_status t = TActive \<and>
     (\<exists>v \<in> set vs. va_id v = tk_owner t \<and> va_status v = VActive)) ts"

fun count_buckets :: "u64 list \<Rightarrow> ticket list \<Rightarrow> poash_error + u64 list" where
  "count_buckets counts [] = Inr counts"
| "count_buckets counts (t # ts) =
     try_res (ok_or POverflow (checked_add (counts ! unat (tk_bucket t)) 1)) (\<lambda>n.
     count_buckets (counts[unat (tk_bucket t) := n]) ts)"

fun sum_counts :: "u64 list \<Rightarrow> nat list \<Rightarrow> u64 \<Rightarrow> poash_error + u64" where
  "sum_counts counts [] acc = Inr acc"
| "sum_counts counts (b # bs) acc =
     try_res (ok_or POverflow (checked_add acc (counts ! b))) (\<lambda>acc. sum_counts counts bs acc)"

fun walk_buckets :: "u64 list \<Rightarrow> nat list \<Rightarrow> u64 \<Rightarrow> poash_error + u8 option" where
  "walk_buckets counts [] remaining = Inr None"
| "walk_buckets counts (b # bs) remaining =
     (if remaining < counts ! b then Inr (Some (of_nat b))
      else try_res (ok_or POverflow (checked_sub remaining (counts ! b)))
        (\<lambda>remaining. walk_buckets counts bs remaining))"

definition ticket_candidate :: "hasher \<Rightarrow> hash \<Rightarrow> ticket \<Rightarrow> hash \<times> u64 \<times> text_bytes" where
  "ticket_candidate K seed t =
     (hash_with_domain K (str ''eternix:ticket-selection:v1'') (seed @ be_bytes (tk_id t)),
      tk_id t, tk_owner t)"

definition slot_seed :: "hasher \<Rightarrow> hash \<Rightarrow> u64 \<Rightarrow> hash" where
  "slot_seed K reference slot =
     hash_with_domain K (str ''eternix:leader-selection:v1'') (reference @ be_bytes slot)"

definition select_inputs ::
  "hasher \<Rightarrow> hash \<Rightarrow> u64 \<Rightarrow> validator list \<Rightarrow> ticket list \<Rightarrow> poash_error + selection" where
  "select_inputs K reference slot vs ts =
     try_res (validate_eligibility vs ts) (\<lambda>_.
     if \<not> (1 \<le> slot \<and> slot \<le> MAX_SLOTS) then Inl ExperimentLimit
     else
       let seed = slot_seed K reference slot;
           eligible = eligible_tickets vs ts in
       try_res (count_buckets (replicate 256 0) eligible) (\<lambda>counts.
       try_res (sum_counts counts [2..<256] 0) (\<lambda>amount.
       if amount = 0 then Inl NoEligibleTickets
       else try_res (draw K seed amount) (\<lambda>(retry, raw, offset).
       try_res (walk_buckets counts [2..<256] offset) (\<lambda>bucket.
       try_res (ok_or (PState ''cumulative bucket'') bucket) (\<lambda>bucket.
       try_res (ok_or (PState ''chosen bucket empty'')
           (best (map (ticket_candidate K seed) (filter (\<lambda>t. tk_bucket t = bucket) eligible))))
         (\<lambda>(score, ticket, owner).
       Inr \<lparr>sl_slot = slot, sl_reference = reference, sl_seed = seed, sl_total = amount,
            sl_bucket = bucket, sl_retry = retry, sl_raw = raw, sl_offset = offset,
            sl_owner = owner, sl_ticket = ticket, sl_score = score\<rparr>)))))))"

section \<open>The draw\<close>

text \<open>The loop returns the first accepted raw value, and fails only after 2 ^ 64 refusals.\<close>

lemma draw_loop_Inr:
  assumes "draw_loop threshold amount raw retry = Inr (r, n, k)"
  shows "n = raw r \<and> threshold \<le> n \<and> k = n mod amount \<and> unat retry \<le> unat r \<and>
     (\<forall>q. unat retry \<le> unat q \<and> unat q < unat r \<longrightarrow> raw q < threshold)"
  using assms
proof (induction threshold amount raw retry rule: draw_loop.induct)
  case (1 threshold amount raw retry)
  show ?case
  proof (cases "threshold \<le> raw retry")
    case True
    with 1(2) show ?thesis by (auto simp: draw_loop.simps [of threshold amount raw retry] Let_def)
  next
    case False
    with 1(2) obtain retry' where c: "checked_add retry 1 = Some retry'"
      and rec: "draw_loop threshold amount raw retry' = Inr (r, n, k)"
      by (auto simp: draw_loop.simps [of threshold amount raw retry] Let_def split: option.splits)
    have u: "unat retry' = Suc (unat retry)"
      using checked_add_Some [OF c] by simp
    have "raw q < threshold" if q: "unat retry \<le> unat q" "unat q < unat r" for q
    proof (cases "unat q = unat retry")
      case True
      then have "q = retry" by (simp add: word_unat_eq_iff)
      with False show ?thesis by simp
    next
      case False
      with q u 1(1) [OF refl \<open>\<not> threshold \<le> raw retry\<close> c rec] show ?thesis by auto
    qed
    with u 1(1) [OF refl False c rec] show ?thesis by auto
  qed
qed

lemma draw_loop_progress:
  assumes "threshold \<le> raw r" "unat retry \<le> unat r"
  shows "\<exists>r n k. draw_loop threshold amount raw retry = Inr (r, n, k)"
  using assms
proof (induction threshold amount raw retry rule: draw_loop.induct)
  case (1 threshold amount raw retry)
  show ?case
  proof (cases "threshold \<le> raw retry")
    case True
    then show ?thesis by (simp add: draw_loop.simps [of threshold amount raw retry] Let_def)
  next
    case False
    with 1(2,3) have "unat retry < unat r"
      by (metis le_neq_implies_less word_unat_eq_iff)
    with unat_bound [of r] have "unat retry + unat (1 :: u64) < 2 ^ LENGTH(64)" by simp
    then obtain retry' where c: "checked_add retry 1 = Some retry'" and "unat retry' = Suc (unat retry)"
      using checked_add_fits [of retry 1] by auto
    with 1(1) [OF refl False c 1(2)] \<open>unat retry < unat r\<close> False show ?thesis
      by (simp add: draw_loop.simps [of threshold amount raw retry] Let_def)
  qed
qed

lemma draw_loop_not_empty: "draw_loop threshold amount raw retry \<noteq> Inl NoEligibleTickets"
proof (induction threshold amount raw retry rule: draw_loop.induct)
  case (1 threshold amount raw retry)
  then show ?case
    by (simp add: draw_loop.simps [of threshold amount raw retry] Let_def split: option.splits)
qed

text \<open>The threshold is 2 ^ 64 modulo the number of tickets.\<close>

lemma draw_threshold:
  assumes "(amount :: u64) \<noteq> 0"
  shows "unat ((- amount) mod amount) = 2 ^ 64 mod unat amount"
proof -
  have "unat (- amount) = 2 ^ 64 - unat amount"
    using unat_sub_if' [of 0 amount] assms by (simp add: unat_eq_0)
  then have "unat ((- amount) mod amount) = (2 ^ 64 - unat amount) mod unat amount"
    by (simp add: unat_mod)
  also have "\<dots> = 2 ^ 64 mod unat amount"
    using unat_bound [of amount] by (intro le_mod_geq [symmetric]) simp
  finally show ?thesis .
qed

text \<open>Residues are equally frequent in an interval whose length is a multiple of the modulus.\<close>

lemma residue_block:
  assumes "k < t"
  shows "card {m :: nat. a \<le> m \<and> m < a + t \<and> m mod t = k} = 1"
proof -
  define m where "m = a + (k + t - a mod t) mod t"
  have "m mod t = (a mod t + (k + t - a mod t)) mod t"
    unfolding m_def by (simp add: mod_simps)
  also have "a mod t < t" using assms by simp
  then have "a mod t + (k + t - a mod t) = k + t" by linarith
  also have "(k + t) mod t = k" using assms by simp
  finally have m: "m mod t = k" .
  have "m' = m" if "a \<le> m'" "m' < a + t" "m' mod t = k" for m'
  proof -
    have "a \<le> m" "m < a + t" using assms by (simp_all add: m_def)
    have "m = m'" if "x \<le> y" "y < x + t" "x mod t = y mod t" "{x, y} = {m, m'}" for x y
    proof -
      have "t dvd y - x" using that(1,3) by (metis mod_eq_dvd_iff_nat)
      moreover have "y - x < t" using that(1,2) by simp
      ultimately have "y = x" using that(1) by (metis dvd_imp_le le_antisym diff_is_0_eq linorder_not_le neq0_conv)
      with that(4) show ?thesis by (simp add: doubleton_eq_iff)
    qed
    from this [of m m'] this [of m' m] show ?thesis
      using \<open>a \<le> m\<close> \<open>m < a + t\<close> that m by (cases "m \<le> m'") auto
  qed
  then have "{m'. a \<le> m' \<and> m' < a + t \<and> m' mod t = k} = {m}"
    using m assms by (auto simp: m_def)
  then show ?thesis by simp
qed

lemma residue_count:
  assumes "k < t"
  shows "card {m :: nat. a \<le> m \<and> m < a + q * t \<and> m mod t = k} = q"
proof (induction q)
  case (Suc q)
  let ?A = "{m. a \<le> m \<and> m < a + q * t \<and> m mod t = k}"
    and ?B = "{m. a + q * t \<le> m \<and> m < a + q * t + t \<and> m mod t = k}"
  have "{m. a \<le> m \<and> m < a + Suc q * t \<and> m mod t = k} = ?A \<union> ?B"
    by auto
  moreover have "finite ?A" "finite ?B"
    by (auto intro: finite_subset [OF _ finite_lessThan [of "a + Suc q * t"]])
  moreover have "?A \<inter> ?B = {}" by auto
  ultimately show ?case
    using Suc residue_block [OF assms, of "a + q * t"] by (simp add: card_Un_disjoint)
qed simp

lemma card_word_residues:
  fixes threshold amount :: u64
  assumes "amount \<noteq> 0" "threshold = (- amount) mod amount" "k < amount"
  shows "card {n. threshold \<le> n \<and> n mod amount = k} = 2 ^ 64 div unat amount"
proof -
  let ?t = "unat amount" and ?a = "2 ^ 64 mod unat amount" and ?q = "2 ^ 64 div unat amount"
  have th: "unat threshold = ?a" using draw_threshold [OF assms(1)] assms(2) by simp
  have len: "?a + ?q * ?t = 2 ^ 64" by (rule mod_div_mult_eq)
  have "unat ` {n :: u64. threshold \<le> n \<and> n mod amount = k} =
      {m. ?a \<le> m \<and> m < ?a + ?q * ?t \<and> m mod ?t = unat k}"
  proof (intro equalityI subsetI)
    fix m assume m: "m \<in> {m. ?a \<le> m \<and> m < ?a + ?q * ?t \<and> m mod ?t = unat k}"
    then have "m < 2 ^ 64" using len by auto
    then have "m = unat (of_nat m :: u64)" by (simp add: unat_of_nat_small)
    moreover from this m th have "of_nat m \<in> {n :: u64. threshold \<le> n \<and> n mod amount = k}"
      by (simp add: word_le_nat_alt word_unat_eq_iff unat_mod)
    ultimately show "m \<in> unat ` {n :: u64. threshold \<le> n \<and> n mod amount = k}" by blast
  next
    fix m assume "m \<in> unat ` {n :: u64. threshold \<le> n \<and> n mod amount = k}"
    then obtain n :: u64 where "m = unat n" "threshold \<le> n" "n mod amount = k" by auto
    then show "m \<in> {m. ?a \<le> m \<and> m < ?a + ?q * ?t \<and> m mod ?t = unat k}"
      using th len unat_bound [of n] by (auto simp: word_le_nat_alt unat_mod)
  qed
  moreover have "inj_on unat {n :: u64. threshold \<le> n \<and> n mod amount = k}"
    by (auto simp: inj_on_def word_unat_eq_iff)
  ultimately show ?thesis
    using residue_count [of "unat k" ?t ?a ?q] assms(3) by (simp add: card_image [symmetric] word_less_nat_alt)
qed

section \<open>Counting and walking the buckets\<close>

definition in_bucket :: "ticket list \<Rightarrow> nat \<Rightarrow> nat" where
  "in_bucket ts b = length (filter (\<lambda>t. unat (tk_bucket t) = b) ts)"

lemma in_bucket_le: "in_bucket ts b \<le> length ts"
  by (simp add: in_bucket_def)

lemma count_buckets_ok:
  assumes "length counts = 256" "\<forall>b < 256. unat (counts ! b) + in_bucket ts b < 2 ^ 64"
  shows "\<exists>cs. count_buckets counts ts = Inr cs \<and> length cs = 256 \<and>
     (\<forall>b < 256. unat (cs ! b) = unat (counts ! b) + in_bucket ts b)"
  using assms
proof (induction ts arbitrary: counts)
  case Nil
  then show ?case by (simp add: in_bucket_def)
next
  case (Cons t ts)
  let ?b = "unat (tk_bucket t)"
  have b: "?b < 256" by (rule unat_u8_bound)
  have bucket: "in_bucket (t # ts) c = (if c = ?b then Suc (in_bucket ts c) else in_bucket ts c)" for c
    by (simp add: in_bucket_def)
  from Cons.prems(2) b have "unat (counts ! ?b) + unat (1 :: u64) < 2 ^ LENGTH(64)"
    by (auto simp: bucket)
  then obtain n where n: "checked_add (counts ! ?b) 1 = Some n" and un: "unat n = Suc (unat (counts ! ?b))"
    using checked_add_fits [of "counts ! ?b" 1] by auto
  have "\<forall>c < 256. unat (counts[?b := n] ! c) + in_bucket ts c < 2 ^ 64"
  proof (intro allI impI)
    fix c :: nat assume "c < 256"
    then show "unat (counts[?b := n] ! c) + in_bucket ts c < 2 ^ 64"
      using Cons.prems un b by (cases "c = ?b") (auto simp: bucket nth_list_update split: if_splits)
  qed
  with Cons.IH [of "counts[?b := n]"] Cons.prems(1) obtain cs where cs:
    "count_buckets (counts[?b := n]) ts = Inr cs" "length cs = 256"
    "\<forall>c < 256. unat (cs ! c) = unat (counts[?b := n] ! c) + in_bucket ts c" by auto
  have "unat (cs ! c) = unat (counts ! c) + in_bucket (t # ts) c" if "c < 256" for c
    using cs(3) that un Cons.prems(1) by (auto simp: bucket nth_list_update)
  with cs n show ?case by simp
qed

lemma sum_counts_ok:
  assumes "unat acc + (\<Sum>b\<leftarrow>bs. unat (counts ! b)) < 2 ^ 64"
  shows "\<exists>n. sum_counts counts bs acc = Inr n \<and> unat n = unat acc + (\<Sum>b\<leftarrow>bs. unat (counts ! b))"
  using assms
proof (induction bs arbitrary: acc)
  case (Cons b bs)
  then have "unat acc + unat (counts ! b) < 2 ^ LENGTH(64)" by simp
  then obtain n where "checked_add acc (counts ! b) = Some n" "unat n = unat acc + unat (counts ! b)"
    using checked_add_fits [of acc "counts ! b"] by auto
  with Cons.prems Cons.IH [of n] show ?case by (auto simp: add.assoc)
qed simp

text \<open>An offset below the sum of the counts lands in a bucket with at least one ticket.\<close>

lemma walk_buckets_ok:
  assumes "unat remaining < (\<Sum>b\<leftarrow>bs. unat (counts ! b))" "\<forall>b \<in> set bs. b < 256"
  shows "\<exists>b \<in> set bs. walk_buckets counts bs remaining = Inr (Some (of_nat b)) \<and> 0 < unat (counts ! b)"
  using assms
proof (induction bs arbitrary: remaining)
  case (Cons b bs)
  show ?case
  proof (cases "remaining < counts ! b")
    case True
    then show ?thesis by (auto simp: word_less_nat_alt)
  next
    case False
    then have le: "counts ! b \<le> remaining" by simp
    then obtain r where r: "checked_sub remaining (counts ! b) = Some r"
      by (simp add: checked_sub_def)
    with checked_sub_Some [OF r] Cons.prems Cons.IH [of r] False show ?thesis
      by auto
  qed
qed simp

lemma sum_buckets:
  assumes "distinct bs" "\<forall>t \<in> set ts. unat (tk_bucket t) \<in> set bs"
  shows "(\<Sum>b\<leftarrow>bs. in_bucket ts b) = length ts"
  using assms(2)
proof (induction ts)
  case Nil
  then show ?case by (simp add: in_bucket_def sum_list_0)
next
  case (Cons t ts)
  let ?b = "unat (tk_bucket t)"
  have "in_bucket (t # ts) b = in_bucket ts b + (if b = ?b then 1 else 0)" for b
    by (simp add: in_bucket_def)
  then have "(\<Sum>b\<leftarrow>bs. in_bucket (t # ts) b) =
      (\<Sum>b\<leftarrow>bs. in_bucket ts b) + (\<Sum>b\<leftarrow>bs. if b = ?b then 1 else 0)"
    by (simp add: sum_list_addf)
  also have "(\<Sum>b\<leftarrow>bs. if b = ?b then 1 else 0 :: nat) = 1"
    using Cons.prems assms(1) by (simp add: sum_list_distinct_conv_sum_set sum.delta)
  finally show ?case using Cons by simp
qed

section \<open>Valid inputs, without an order\<close>

definition ticket_fits :: "validator \<Rightarrow> ticket \<Rightarrow> bool" where
  "ticket_fits v t \<longleftrightarrow>
     (tk_status t = TActive \<longrightarrow> va_status v = VActive \<and> tk_bucket t = home_bucket (tk_id t)) \<and>
     (tk_status t = Muted \<or> tk_status t = Retiring \<longrightarrow> tk_bucket t = 1) \<and>
     (tk_status t = Dead \<longrightarrow> tk_bucket t = 0) \<and>
     (va_status v = Jailed \<longrightarrow> tk_status t = Dead) \<and>
     (case (tk_retire_start t, tk_retire_effective t) of
        (None, None) \<Rightarrow> tk_status t \<noteq> Retiring
      | (Some a, Some b) \<Rightarrow> a < b \<and> tk_status t \<noteq> TActive
      | _ \<Rightarrow> False)"

definition validator_ok :: "validator \<Rightarrow> bool" where
  "validator_ok v \<longleftrightarrow> va_id v \<in> {str ''trial-A'', str ''trial-B''} \<and> va_locked v \<le> va_vault v \<and>
     (va_status v = Cooldown \<longleftrightarrow> va_cooldown_until v \<noteq> None)"

definition eligibility_valid :: "validator list \<Rightarrow> ticket list \<Rightarrow> bool" where
  "eligibility_valid vs ts \<longleftrightarrow>
     length vs = 2 \<and> length ts \<le> MAX_TICKETS \<and> distinct (map va_id vs) \<and> distinct (map tk_id ts) \<and>
     (\<forall>v \<in> set vs. validator_ok v) \<and>
     (\<forall>t \<in> set ts. tk_id t \<noteq> 0 \<and> (\<exists>v \<in> set vs. va_id v = tk_owner t \<and> ticket_fits v t)) \<and>
     (\<forall>v \<in> set vs. va_status v = VActive \<longrightarrow>
        (\<exists>t \<in> set ts. tk_owner t = va_id v \<and> tk_status t = TActive) \<and> minimum_vault ts v \<le> va_vault v)"

lemma check_validators_iff:
  "check_validators seen vs = Inr u \<longleftrightarrow> distinct (map va_id vs) \<and>
     (\<forall>v \<in> set vs. va_id v \<notin> set seen) \<and> (\<forall>v \<in> set vs. validator_ok v)"
proof (induction vs arbitrary: seen)
  case (Cons v vs)
  have "check_validators seen (v # vs) = Inr u \<longleftrightarrow> validator_ok v \<and> va_id v \<notin> set seen \<and>
      check_validators (va_id v # seen) vs = Inr u"
    by (auto simp: validator_ok_def not_less)
  also have "\<dots> \<longleftrightarrow> distinct (map va_id (v # vs)) \<and> (\<forall>v \<in> set (v # vs). va_id v \<notin> set seen) \<and>
      (\<forall>v \<in> set (v # vs). validator_ok v)"
    unfolding Cons.IH by (auto simp: image_iff)
  finally show ?case .
qed simp

lemma check_ticket_iff:
  assumes "distinct (map va_id vs)"
  shows "check_ticket vs t = Inr u \<longleftrightarrow> (\<exists>v \<in> set vs. va_id v = tk_owner t \<and> ticket_fits v t)"
proof (cases "find (\<lambda>v. va_id v = tk_owner t) vs")
  case None
  then have "check_ticket vs t = Inl (PState ''ticket owner'')" by (simp add: check_ticket_def)
  moreover have "\<forall>v \<in> set vs. va_id v \<noteq> tk_owner t" using None by (auto simp: find_None_iff)
  ultimately show ?thesis by auto
next
  case (Some v)
  then have v: "v \<in> set vs" "va_id v = tk_owner t"
    by (auto dest: find_Some_D)
  have uniq: "w = v" if "w \<in> set vs" "va_id w = tk_owner t" for w
    using assms v that by (metis distinct_map inj_onD)
  have "check_ticket vs t = Inr u \<longleftrightarrow> ticket_fits v t"
    using Some by (cases "tk_status t")
      (auto simp: check_ticket_def ticket_fits_def split: option.splits if_splits)
  with v uniq show ?thesis by blast
qed

lemma check_tickets_iff:
  assumes "distinct (map va_id vs)"
  shows "check_tickets vs seen ts = Inr u \<longleftrightarrow> distinct (map tk_id ts) \<and> set seen \<inter> tk_id ` set ts = {} \<and>
     (\<forall>t \<in> set ts. tk_id t \<noteq> 0 \<and> (\<exists>v \<in> set vs. va_id v = tk_owner t \<and> ticket_fits v t))"
  by (induction ts arbitrary: seen) (auto simp: try_res_Inr_iff check_ticket_iff [OF assms])

lemma check_backing_iff:
  "check_backing ts vs = Inr u \<longleftrightarrow> (\<forall>v \<in> set vs. va_status v = VActive \<longrightarrow>
     (\<exists>t \<in> set ts. tk_owner t = va_id v \<and> tk_status t = TActive) \<and> minimum_vault ts v \<le> va_vault v)"
  by (induction ts vs rule: check_backing.induct) (auto simp: not_less)

lemma validate_eligibility_iff:
  "validate_eligibility vs ts = Inr u \<longleftrightarrow> eligibility_valid vs ts"
  by (auto simp: validate_eligibility_def eligibility_valid_def try_res_Inr_iff check_validators_iff
      check_backing_iff check_tickets_iff)

lemma eligible_bucket:
  assumes "eligibility_valid vs ts" "t \<in> set (eligible_tickets vs ts)"
  shows "2 \<le> unat (tk_bucket t)" "tk_bucket t = home_bucket (tk_id t)"
proof -
  from assms show h: "tk_bucket t = home_bucket (tk_id t)"
    by (auto simp: eligibility_valid_def eligible_tickets_def ticket_fits_def)
  have "unat (tk_id t mod 254) < 254"
    by (simp add: unat_mod)
  then have "unat (home_bucket (tk_id t)) = 2 + unat (tk_id t mod 254)"
    by (simp add: home_bucket_def unat_word_ariths(1) unsigned_ucast_eq take_bit_eq_mod)
  with h show "2 \<le> unat (tk_bucket t)" by simp
qed

section \<open>The least candidate\<close>

lemma best_None [simp]: "best cs = None \<longleftrightarrow> cs = []"
  by (cases cs) (auto split: option.splits)

lemma best_Some:
  "best cs = Some c \<Longrightarrow> c \<in> set cs \<and> (\<forall>d \<in> set cs. candidate_key c \<le> candidate_key d)"
  by (induction cs arbitrary: c) (auto split: option.splits if_splits intro: order_trans)

lemma best_set:
  assumes "set cs = set ds" "inj_on candidate_key (set cs)"
  shows "best cs = best ds"
proof (cases "best cs")
  case None
  with assms have "ds = []" by simp
  with None show ?thesis by simp
next
  case (Some c)
  with assms have "ds \<noteq> []" by (cases cs) auto
  then obtain d where d: "best ds = Some d" by (cases "best ds") auto
  have "candidate_key c = candidate_key d"
    using best_Some [OF Some] best_Some [OF d] assms(1) by (auto intro: order_antisym)
  then have "c = d"
    using best_Some [OF Some] best_Some [OF d] assms by (auto dest: inj_onD)
  with Some d show ?thesis by simp
qed

section \<open>Selection on valid inputs\<close>

lemma eligible_length: "length (eligible_tickets vs ts) \<le> length ts"
  by (simp add: eligible_tickets_def)

lemma select_counts:
  assumes "eligibility_valid vs ts"
  obtains counts amount where
    "count_buckets (replicate 256 0) (eligible_tickets vs ts) = Inr counts"
    "length counts = 256" "\<forall>b < 256. unat (counts ! b) = in_bucket (eligible_tickets vs ts) b"
    "sum_counts counts [2..<256] 0 = Inr amount"
    "unat amount = length (eligible_tickets vs ts)"
    "(\<Sum>b\<leftarrow>[2..<256]. unat (counts ! b)) = length (eligible_tickets vs ts)"
proof -
  let ?E = "eligible_tickets vs ts"
  have small: "length ?E \<le> 256"
    using eligible_length [of vs ts] assms by (simp add: eligibility_valid_def MAX_TICKETS_def)
  have "unat (replicate 256 (0 :: u64) ! b) + in_bucket ?E b < 2 ^ 64" if "b < 256" for b
    using in_bucket_le [of ?E b] small that by simp
  then obtain counts where c: "count_buckets (replicate 256 0) ?E = Inr counts" "length counts = 256"
    "\<forall>b < 256. unat (counts ! b) = unat (replicate 256 (0 :: u64) ! b) + in_bucket ?E b"
    using count_buckets_ok [of "replicate 256 0" ?E] by auto
  then have cb: "\<forall>b < 256. unat (counts ! b) = in_bucket ?E b" by simp
  have "(\<Sum>b\<leftarrow>[2..<256]. unat (counts ! b)) = (\<Sum>b\<leftarrow>[2..<256]. in_bucket ?E b)"
    by (rule arg_cong [of _ _ sum_list], rule map_cong) (use cb in \<open>auto simp del: upt_rec_numeral\<close>)
  also have "\<dots> = length ?E"
  proof (rule sum_buckets)
    show "\<forall>t \<in> set ?E. unat (tk_bucket t) \<in> set [2..<256]"
      using eligible_bucket(1) [OF assms] unat_u8_bound by (auto simp del: upt_rec_numeral)
  qed (rule distinct_upt)
  finally have sum: "(\<Sum>b\<leftarrow>[2..<256]. unat (counts ! b)) = length ?E" .
  with small sum_counts_ok [where acc = 0 and bs = "[2..<256]" and counts = counts] obtain amount where
    "sum_counts counts [2..<256] 0 = Inr amount" "unat amount = length ?E"
    by (auto simp del: upt_rec_numeral)
  with c(1,2) cb sum show thesis by (intro that)
qed

text \<open>The raw values that the hash yields for a slot.\<close>

definition draw_source :: "hasher \<Rightarrow> hash \<Rightarrow> u64 \<Rightarrow> u64" where
  "draw_source K seed retry =
     be_word (take 8 (hash_with_domain K (str ''eternix:bucket-selection:v1'') (seed @ be_bytes retry)))"

lemma draw_unfold:
  "amount \<noteq> 0 \<Longrightarrow> draw K seed amount = draw_loop ((- amount) mod amount) amount (draw_source K seed) 0"
  by (simp add: draw_def draw_with_def draw_source_def [abs_def])

lemma bucket_of_walk:
  assumes "eligibility_valid vs ts" "count_buckets (replicate 256 0) (eligible_tickets vs ts) = Inr counts"
    "\<forall>b < 256. unat (counts ! b) = in_bucket (eligible_tickets vs ts) b"
    "(\<Sum>b\<leftarrow>[2..<256]. unat (counts ! b)) = length (eligible_tickets vs ts)"
    "unat offset < length (eligible_tickets vs ts)"
  obtains bucket where "walk_buckets counts [2..<256] offset = Inr (Some bucket)"
    "filter (\<lambda>t. tk_bucket t = bucket) (eligible_tickets vs ts) \<noteq> []"
proof -
  let ?E = "eligible_tickets vs ts"
  have "\<exists>b \<in> set [2..<256]. walk_buckets counts [2..<256] offset = Inr (Some (of_nat b)) \<and> 0 < unat (counts ! b)"
    by (rule walk_buckets_ok) (use assms(4,5) in \<open>simp_all del: upt_rec_numeral\<close>)
  then obtain b where b: "2 \<le> b" "b < 256"
    and w: "walk_buckets counts [2..<256] offset = Inr (Some (of_nat b))" "0 < unat (counts ! b)"
    by (auto simp del: upt_rec_numeral)
  have u: "unat (of_nat b :: u8) = b" using b by (intro unat_of_nat_small) simp
  have "0 < in_bucket ?E b" using w(2) b assms(3) by simp
  then have "\<exists>t \<in> set ?E. unat (tk_bucket t) = b"
    by (auto simp: in_bucket_def filter_empty_conv)
  then have "\<exists>t \<in> set ?E. tk_bucket t = of_nat b"
    using u by (metis word_unat_eq_iff)
  with w show thesis by (intro that) (auto simp: filter_empty_conv)
qed

text \<open>The walk stops at the bucket in whose cumulative interval the offset lies.\<close>

lemma walk_buckets_interval:
  assumes "walk_buckets counts bs remaining = Inr (Some bucket)"
  obtains xs b ys where "bs = xs @ b # ys" "bucket = of_nat b" "(\<Sum>i\<leftarrow>xs. unat (counts ! i)) \<le> unat remaining"
    "unat remaining < (\<Sum>i\<leftarrow>xs. unat (counts ! i)) + unat (counts ! b)"
  using assms
proof (induction bs arbitrary: remaining thesis)
  case (Cons b bs)
  show ?case
  proof (cases "remaining < counts ! b")
    case True
    with Cons.prems show ?thesis by (intro Cons.prems(1) [of "[]" b bs]) (auto simp: word_less_nat_alt)
  next
    case False
    with Cons.prems(2) obtain r where r: "checked_sub remaining (counts ! b) = Some r" "walk_buckets counts bs r = Inr (Some bucket)"
      by (auto simp: try_res_Inr_iff)
    from Cons.IH [OF _ r(2)] obtain xs c ys where "bs = xs @ c # ys" "bucket = of_nat c"
      "(\<Sum>i\<leftarrow>xs. unat (counts ! i)) \<le> unat r" "unat r < (\<Sum>i\<leftarrow>xs. unat (counts ! i)) + unat (counts ! c)" by blast
    with checked_sub_Some [OF r(1)] show ?thesis by (intro Cons.prems(1) [of "b # xs" c ys]) auto
  qed
qed simp

lemma sum_lower_buckets:
  assumes "\<forall>t \<in> set ts. 2 \<le> unat (tk_bucket t)"
  shows "(\<Sum>b\<leftarrow>[2..<n]. in_bucket ts b) = length (filter (\<lambda>t. unat (tk_bucket t) < n) ts)"
proof -
  let ?us = "filter (\<lambda>t. unat (tk_bucket t) < n) ts"
  have "in_bucket ts b = in_bucket ?us b" if "b < n" for b
    using that by (auto simp: in_bucket_def intro!: arg_cong [of _ _ length] filter_cong)
  then have "(\<Sum>b\<leftarrow>[2..<n]. in_bucket ts b) = (\<Sum>b\<leftarrow>[2..<n]. in_bucket ?us b)"
    by (intro arg_cong [of _ _ sum_list] map_cong) simp_all
  also have "\<dots> = length ?us" by (rule sum_buckets) (use assms in auto)
  finally show ?thesis .
qed

lemma selected_bucket:
  assumes "eligibility_valid vs ts" "\<forall>b < 256. unat (counts ! b) = in_bucket (eligible_tickets vs ts) b"
    and "walk_buckets counts [2..<256] offset = Inr (Some bucket)"
  shows "length (filter (\<lambda>t. tk_bucket t < bucket) (eligible_tickets vs ts)) \<le> unat offset \<and>
     unat offset < length (filter (\<lambda>t. tk_bucket t \<le> bucket) (eligible_tickets vs ts))"
proof -
  let ?E = "eligible_tickets vs ts"
  obtain xs b ys where b: "[2..<256] = xs @ b # ys" "bucket = of_nat b" "(\<Sum>i\<leftarrow>xs. unat (counts ! i)) \<le> unat offset"
    "unat offset < (\<Sum>i\<leftarrow>xs. unat (counts ! i)) + unat (counts ! b)"
    using assms(3) by (rule walk_buckets_interval)
  have k: "length xs < 254" using arg_cong [OF b(1), of length] by (simp del: upt_rec_numeral)
  have "xs = take (length xs) [2..<256]" "b = [2..<256] ! length xs" using b(1) by (simp_all del: upt_rec_numeral)
  with k have xs: "xs = [2..<b]" "2 \<le> b" "b < 256" by (simp_all add: take_upt nth_upt add.commute del: upt_rec_numeral)
  have u: "unat bucket = b" using b(2) xs(3) by (simp add: unat_of_nat_small)
  have "(\<Sum>i\<leftarrow>xs. unat (counts ! i)) = (\<Sum>i\<leftarrow>[2..<b]. in_bucket ?E i)"
    unfolding xs(1) by (rule arg_cong [of _ _ sum_list], rule map_cong) (use assms(2) xs(3) in auto)
  moreover have "(\<Sum>i\<leftarrow>[2..<b]. in_bucket ?E i) + in_bucket ?E b = (\<Sum>i\<leftarrow>[2..<Suc b]. in_bucket ?E i)"
    using xs(2) by simp
  moreover have "\<forall>t \<in> set ?E. 2 \<le> unat (tk_bucket t)" using eligible_bucket(1) [OF assms(1)] by blast
  note sum_lower_buckets [OF this, of b] sum_lower_buckets [OF this, of "Suc b"]
  ultimately show ?thesis
    using assms(2) xs(3) b(3,4) unfolding word_less_nat_alt word_le_nat_alt u less_Suc_eq_le by simp
qed

text \<open>What a selection is: the first accepted output of the hash, reduced; the bucket in whose cumulative
  interval the offset lies (the eligible tickets of the lower buckets come first); the least candidate of it.\<close>

definition selects :: "hasher \<Rightarrow> validator list \<Rightarrow> ticket list \<Rightarrow> selection \<Rightarrow> bool" where
  "selects K vs ts sel \<longleftrightarrow>
     sl_total sel = of_nat (length (eligible_tickets vs ts)) \<and> sl_offset sel = sl_raw sel mod sl_total sel \<and>
     sl_raw sel = draw_source K (sl_seed sel) (sl_retry sel) \<and>
     (- sl_total sel) mod sl_total sel \<le> sl_raw sel \<and>
     (\<forall>q < sl_retry sel. draw_source K (sl_seed sel) q < (- sl_total sel) mod sl_total sel) \<and>
     length (filter (\<lambda>t. tk_bucket t < sl_bucket sel) (eligible_tickets vs ts)) \<le> unat (sl_offset sel) \<and>
     unat (sl_offset sel) < length (filter (\<lambda>t. tk_bucket t \<le> sl_bucket sel) (eligible_tickets vs ts)) \<and>
     (\<exists>t \<in> set (eligible_tickets vs ts). tk_id t = sl_ticket sel \<and> tk_owner t = sl_owner sel \<and>
        tk_bucket t = sl_bucket sel \<and> ticket_candidate K (sl_seed sel) t = (sl_score sel, tk_id t, tk_owner t) \<and>
        (\<forall>t' \<in> set (eligible_tickets vs ts). tk_bucket t' = sl_bucket sel \<longrightarrow>
           (sl_score sel, tk_id t) \<le> candidate_key (ticket_candidate K (sl_seed sel) t')))"

lemma select_inputs_sound:
  assumes "select_inputs K reference slot vs ts = Inr sel"
  shows "eligibility_valid vs ts \<and> 1 \<le> slot \<and> slot \<le> MAX_SLOTS \<and> sl_slot sel = slot \<and>
     sl_reference sel = reference \<and> sl_seed sel = slot_seed K reference slot \<and> selects K vs ts sel"
proof -
  let ?E = "eligible_tickets vs ts" and ?s = "slot_seed K reference slot"
  from assms have valid: "eligibility_valid vs ts" and slot: "1 \<le> slot" "slot \<le> MAX_SLOTS"
    by (auto simp: select_inputs_def try_res_Inr_iff validate_eligibility_iff split: if_splits)
  from valid obtain counts amount where c: "count_buckets (replicate 256 0) ?E = Inr counts"
    "sum_counts counts [2..<256] 0 = Inr amount" and am: "unat amount = length ?E"
    and counts: "\<forall>b < 256. unat (counts ! b) = in_bucket ?E b"
    by (rule select_counts)
  with assms obtain retry raw offset bucket score ticket owner where
    nz: "amount \<noteq> 0" and d: "draw K ?s amount = Inr (retry, raw, offset)"
    and w: "walk_buckets counts [2..<256] offset = Inr (Some bucket)"
    and b: "best (map (ticket_candidate K ?s) (filter (\<lambda>t. tk_bucket t = bucket) ?E)) =
      Some (score, ticket, owner)"
    and sel: "sel = \<lparr>sl_slot = slot, sl_reference = reference, sl_seed = ?s, sl_total = amount,
            sl_bucket = bucket, sl_retry = retry, sl_raw = raw, sl_offset = offset,
            sl_owner = owner, sl_ticket = ticket, sl_score = score\<rparr>"
    by (auto simp: select_inputs_def try_res_Inr_iff Let_def simp del: upt_rec_numeral
        split: if_splits prod.splits)
  from best_Some [OF b] obtain t where t: "t \<in> set ?E" "tk_bucket t = bucket"
    "ticket_candidate K ?s t = (score, ticket, owner)"
    and min: "\<forall>t' \<in> set ?E. tk_bucket t' = bucket \<longrightarrow>
      candidate_key (score, ticket, owner) \<le> candidate_key (ticket_candidate K ?s t')"
    by auto
  have to: "ticket = tk_id t" "owner = tk_owner t" using t(3) by (simp_all add: ticket_candidate_def)
  have "amount = of_nat (length ?E)" using am [symmetric] by simp
  moreover note draw_loop_Inr [OF d [unfolded draw_unfold [OF nz]]] selected_bucket [OF valid counts w]
  ultimately have "selects K vs ts sel"
    using sel t min to by (auto simp: selects_def candidate_key_def word_less_nat_alt)
  with valid slot sel show ?thesis by simp
qed

lemma select_inputs_complete:
  assumes valid: "eligibility_valid vs ts" and slot: "1 \<le> slot" "slot \<le> MAX_SLOTS"
    and some: "eligible_tickets vs ts \<noteq> []"
    and accepted: "(- of_nat (length (eligible_tickets vs ts))) mod of_nat (length (eligible_tickets vs ts))
      \<le> draw_source K (slot_seed K reference slot) r"
  shows "\<exists>sel. select_inputs K reference slot vs ts = Inr sel"
proof -
  let ?E = "eligible_tickets vs ts" and ?s = "slot_seed K reference slot"
  from valid obtain counts amount where c: "count_buckets (replicate 256 0) ?E = Inr counts"
    "\<forall>b < 256. unat (counts ! b) = in_bucket ?E b"
    "sum_counts counts [2..<256] 0 = Inr amount" "unat amount = length ?E"
    "(\<Sum>b\<leftarrow>[2..<256]. unat (counts ! b)) = length ?E"
    by (rule select_counts)
  have am: "amount = of_nat (length ?E)" using c(4) [symmetric] by simp
  have nz: "amount \<noteq> 0" using c(4) some by auto
  obtain retry raw offset where d: "draw K ?s amount = Inr (retry, raw, offset)"
    using draw_loop_progress [of "(- amount) mod amount" "draw_source K ?s" r 0 amount] accepted
    unfolding draw_unfold [OF nz] am [symmetric] by auto
  have "offset = raw mod amount"
    using draw_loop_Inr [OF d [unfolded draw_unfold [OF nz]]] by simp
  then have "unat offset < length ?E"
    using c(4) some by (simp add: unat_mod)
  then obtain bucket where w: "walk_buckets counts [2..<256] offset = Inr (Some bucket)"
    and ne: "filter (\<lambda>t. tk_bucket t = bucket) ?E \<noteq> []"
    using bucket_of_walk [OF valid c(1,2,5)] by blast
  then obtain score ticket owner where
    "best (map (ticket_candidate K ?s) (filter (\<lambda>t. tk_bucket t = bucket) ?E)) = Some (score, ticket, owner)"
    by (cases "best (map (ticket_candidate K ?s) (filter (\<lambda>t. tk_bucket t = bucket) ?E))") auto
  moreover have "validate_eligibility vs ts = Inr ()"
    using valid by (simp add: validate_eligibility_iff)
  ultimately show ?thesis
    using slot c(1,3) nz d w by (simp add: select_inputs_def Let_def del: upt_rec_numeral)
qed

lemma select_inputs_empty:
  assumes "eligibility_valid vs ts" "1 \<le> slot" "slot \<le> MAX_SLOTS" "eligible_tickets vs ts = []"
  shows "select_inputs K reference slot vs ts = Inl NoEligibleTickets"
proof -
  have "validate_eligibility vs ts = Inr ()"
    using assms(1) by (simp add: validate_eligibility_iff)
  moreover obtain counts amount where "count_buckets (replicate 256 0) (eligible_tickets vs ts) = Inr counts"
    "sum_counts counts [2..<256] 0 = Inr amount" "unat amount = length (eligible_tickets vs ts)"
    using assms(1) by (rule select_counts)
  moreover from this(3) assms(4) have "amount = 0" by (simp add: unat_eq_0)
  ultimately show ?thesis
    using assms(2,3) by (simp add: select_inputs_def Let_def del: upt_rec_numeral)
qed

text \<open>Rearranged rows: the same validity, the same counts, the same least candidate.\<close>

lemma length_filter_mset:
  assumes "mset xs = mset ys"
  shows "length (filter P xs) = length (filter P ys)"
  using arg_cong [OF assms, of "\<lambda>m. size (filter_mset P m)"] by (simp flip: mset_filter)

lemma eligibility_valid_mset:
  assumes "mset vs = mset vs'" "mset ts = mset ts'" "eligibility_valid vs ts"
  shows "eligibility_valid vs' ts'"
proof -
  have s: "set vs = set vs'" "set ts = set ts'"
    using assms(1,2) by (metis set_mset_mset)+
  have "length vs = length vs'" "length ts = length ts'"
    using assms(1,2) by (metis size_mset)+
  moreover have "distinct (map va_id vs) = distinct (map va_id vs')" "distinct (map tk_id ts) = distinct (map tk_id ts')"
    using assms(1,2) by (metis mset_map mset_eq_imp_distinct_iff)+
  moreover have "minimum_vault ts v = minimum_vault ts' v" for v
    by (simp add: minimum_vault_def length_filter_mset [OF assms(2)])
  ultimately show ?thesis
    using assms(3) by (simp add: eligibility_valid_def s)
qed

lemma eligible_tickets_mset:
  assumes "mset vs = mset vs'" "mset ts = mset ts'"
  shows "mset (eligible_tickets vs ts) = mset (eligible_tickets vs' ts')"
proof -
  have "set vs = set vs'" using assms(1) by (metis set_mset_mset)
  with assms(2) show ?thesis by (simp add: eligible_tickets_def)
qed

lemma count_buckets_mset:
  assumes "mset ts = mset us" "length ts \<le> 256"
  shows "count_buckets (replicate 256 0) ts = count_buckets (replicate 256 0) us"
proof -
  have b: "in_bucket ts b = in_bucket us b" for b
    by (simp add: in_bucket_def length_filter_mset [OF assms(1)])
  have small: "unat (replicate 256 (0 :: u64) ! b) + in_bucket ts b < 2 ^ 64" if "b < 256" for b
    using in_bucket_le [of ts b] assms(2) that by simp
  then obtain c where c: "count_buckets (replicate 256 0) ts = Inr c" "length c = 256"
    "\<forall>b < 256. unat (c ! b) = unat (replicate 256 (0 :: u64) ! b) + in_bucket ts b"
    using count_buckets_ok [of "replicate 256 0" ts] by auto
  from small obtain d where d: "count_buckets (replicate 256 0) us = Inr d" "length d = 256"
    "\<forall>b < 256. unat (d ! b) = unat (replicate 256 (0 :: u64) ! b) + in_bucket us b"
    using count_buckets_ok [of "replicate 256 0" us] b by auto
  have "c = d"
    by (rule nth_equalityI) (use c d b in \<open>auto simp: word_unat_eq_iff\<close>)
  with c d show ?thesis by simp
qed

lemma best_tickets_mset:
  assumes "mset E = mset E'" "distinct (map tk_id E)"
  shows "best (map (ticket_candidate K seed) (filter P E)) = best (map (ticket_candidate K seed) (filter P E'))"
proof (rule best_set)
  have s: "set E = set E'" using assms(1) by (metis set_mset_mset)
  then show "set (map (ticket_candidate K seed) (filter P E)) = set (map (ticket_candidate K seed) (filter P E'))"
    by auto
  show "inj_on candidate_key (set (map (ticket_candidate K seed) (filter P E)))"
  proof (rule inj_onI)
    fix x y
    assume "x \<in> set (map (ticket_candidate K seed) (filter P E))" "y \<in> set (map (ticket_candidate K seed) (filter P E))"
      and k: "candidate_key x = candidate_key y"
    then obtain t u where "t \<in> set E" "u \<in> set E" "x = ticket_candidate K seed t" "y = ticket_candidate K seed u"
      by auto
    with k assms(2) show "x = y"
      by (auto simp: candidate_key_def ticket_candidate_def distinct_map dest: inj_onD)
  qed
qed

lemma select_inputs_mset:
  assumes "mset vs = mset vs'" "mset ts = mset ts'" "eligibility_valid vs ts"
  shows "select_inputs K reference slot vs ts = select_inputs K reference slot vs' ts'"
proof -
  let ?E = "eligible_tickets vs ts" and ?E' = "eligible_tickets vs' ts'"
  have v: "validate_eligibility vs ts = Inr ()" "validate_eligibility vs' ts' = Inr ()"
    using assms(3) eligibility_valid_mset [OF assms] by (simp_all add: validate_eligibility_iff)
  have m: "mset ?E = mset ?E'" by (rule eligible_tickets_mset [OF assms(1,2)])
  have "length ?E \<le> 256"
    using eligible_length [of vs ts] assms(3) by (simp add: eligibility_valid_def MAX_TICKETS_def)
  note c = count_buckets_mset [OF m this]
  have "distinct (map tk_id ?E)"
    using assms(3) by (simp add: eligibility_valid_def eligible_tickets_def distinct_map_filter)
  note b = best_tickets_mset [OF m this]
  show ?thesis
    unfolding select_inputs_def v Let_def c b ..
qed

section \<open>Properties\<close>

text \<open>The two validators of the closed profile with their first tickets.\<close>

definition demo_validator :: "text_bytes \<Rightarrow> validator" where
  "demo_validator i = \<lparr>va_id = i, va_status = VActive, va_vault = INITIAL_VAULT, va_locked = 0, va_misses = 0,
     va_offenses = 0, va_produced = 0, va_cooldown_until = None\<rparr>"

abbreviation demo_validators :: "validator list" where
  "demo_validators \<equiv> [demo_validator (str ''trial-A''), demo_validator (str ''trial-B'')]"

abbreviation demo_tickets :: "ticket list" where
  "demo_tickets \<equiv> [ticket_active 1 (str ''trial-A''), ticket_active 255 (str ''trial-B'')]"

lemma demo_eligible: "eligible_tickets demo_validators demo_tickets = demo_tickets"
  by (simp add: eligible_tickets_def demo_validator_def ticket_active_def str_def)

lemma demo_valid: "eligibility_valid demo_validators demo_tickets"
  by (simp add: eligibility_valid_def demo_validator_def ticket_active_def str_def MAX_TICKETS_def
      validator_ok_def ticket_fits_def home_bucket_def minimum_vault_def TICKET_COST_def INITIAL_VAULT_def)

lemma demo_accepted: "(- of_nat (length (eligible_tickets demo_validators demo_tickets)) :: u64) mod
     of_nat (length (eligible_tickets demo_validators demo_tickets)) \<le> x"
  by (simp add: demo_eligible)

text \<open>C35. A successful selection is exactly the documented one: the inputs were valid and the slot in
  range; the draw is the first hash output (by retry number: every lower retry number gives an output below the
  threshold) at or above the rejection threshold, reduced modulo the number of eligible tickets; with the
  eligible tickets laid out by ascending bucket, the chosen bucket is the one that holds the place of the
  offset; the winner is an ACTIVE ticket of an ACTIVE owner in that bucket, and no eligible ticket of that bucket has a lower score, ties going to the lower
  ticket identifier.\<close>

theorem select_inputs_selects:
  assumes "select_inputs K reference slot vs ts = Inr sel"
  shows "eligibility_valid vs ts \<and> 1 \<le> slot \<and> slot \<le> MAX_SLOTS \<and> sl_slot sel = slot \<and>
     sl_reference sel = reference \<and> sl_seed sel = slot_seed K reference slot \<and>
     sl_total sel = of_nat (length (eligible_tickets vs ts)) \<and> sl_offset sel = sl_raw sel mod sl_total sel \<and>
     sl_raw sel = draw_source K (sl_seed sel) (sl_retry sel) \<and>
     (- sl_total sel) mod sl_total sel \<le> sl_raw sel \<and>
     (\<forall>q < sl_retry sel. draw_source K (sl_seed sel) q < (- sl_total sel) mod sl_total sel) \<and>
     length (filter (\<lambda>t. tk_bucket t < sl_bucket sel) (eligible_tickets vs ts)) \<le> unat (sl_offset sel) \<and>
     unat (sl_offset sel) < length (filter (\<lambda>t. tk_bucket t \<le> sl_bucket sel) (eligible_tickets vs ts)) \<and>
     (\<exists>t \<in> set (eligible_tickets vs ts). tk_id t = sl_ticket sel \<and> tk_owner t = sl_owner sel \<and>
        tk_bucket t = sl_bucket sel \<and> ticket_candidate K (sl_seed sel) t = (sl_score sel, tk_id t, tk_owner t) \<and>
        (\<forall>t' \<in> set (eligible_tickets vs ts). tk_bucket t' = sl_bucket sel \<longrightarrow>
           (sl_score sel, tk_id t) \<le> candidate_key (ticket_candidate K (sl_seed sel) t')))"
  using select_inputs_sound [OF assms] unfolding selects_def .

theorem select_inputs_selects_witness:
  "\<exists>sel. select_inputs (c_keccak demo_crypto) (replicate 32 1) 1 demo_validators demo_tickets = Inr sel \<and>
     sl_ticket sel \<in> {1, 255}"
proof -
  obtain sel where sel: "select_inputs (c_keccak demo_crypto) (replicate 32 1) 1 demo_validators demo_tickets = Inr sel"
    using select_inputs_complete [OF demo_valid _ _ _ demo_accepted, of 1]
    by (auto simp: MAX_SLOTS_def demo_eligible)
  from select_inputs_selects [OF sel] have "sl_ticket sel \<in> tk_id ` set demo_tickets"
    unfolding demo_eligible by fastforce
  with sel show ?thesis by (auto simp: ticket_active_def)
qed

text \<open>On valid inputs and a slot in range the selector decides: it reports that there is no
  eligible ticket exactly when there is none, and it selects as soon as one retry number yields an
  accepted hash output; the counting, the cumulative walk and the choice within the bucket never
  fail.\<close>

theorem select_inputs_outcome:
  assumes "eligibility_valid vs ts" "1 \<le> slot" "slot \<le> MAX_SLOTS"
  shows "(eligible_tickets vs ts = [] \<longleftrightarrow> select_inputs K reference slot vs ts = Inl NoEligibleTickets) \<and>
     (eligible_tickets vs ts \<noteq> [] \<and>
        (\<exists>r. (- of_nat (length (eligible_tickets vs ts))) mod of_nat (length (eligible_tickets vs ts))
          \<le> draw_source K (slot_seed K reference slot) r) \<longrightarrow>
      (\<exists>sel. select_inputs K reference slot vs ts = Inr sel))"
proof -
  have "select_inputs K reference slot vs ts \<noteq> Inl NoEligibleTickets" if "eligible_tickets vs ts \<noteq> []"
  proof
    assume a: "select_inputs K reference slot vs ts = Inl NoEligibleTickets"
    have v: "validate_eligibility vs ts = Inr ()" using assms by (simp add: validate_eligibility_iff)
    obtain counts amount where c: "count_buckets (replicate 256 0) (eligible_tickets vs ts) = Inr counts"
      "sum_counts counts [2..<256] 0 = Inr amount" "unat amount = length (eligible_tickets vs ts)"
      using assms(1) by (rule select_counts)
    then have nz: "amount \<noteq> 0" using that by auto
    have "draw K s amount \<noteq> Inl NoEligibleTickets" for s
      unfolding draw_unfold [OF nz] by (rule draw_loop_not_empty)
    moreover have "walk_buckets cs bs o' \<noteq> Inl NoEligibleTickets" for cs bs o'
      by (induction cs bs o' rule: walk_buckets.induct) (auto simp: try_res_Inl_iff)
    ultimately show False
      using a v c(1,2) nz assms(2,3)
      by (auto simp: select_inputs_def try_res_Inl_iff Let_def simp del: upt_rec_numeral split: prod.splits if_splits)
  qed
  with select_inputs_empty [OF assms] select_inputs_complete [OF assms] show ?thesis by blast
qed

theorem select_inputs_outcome_witness:
  "\<exists>sel. select_inputs (c_keccak demo_crypto) (replicate 32 1) 200 demo_validators demo_tickets = Inr sel"
  using select_inputs_outcome [OF demo_valid, of 200 "c_keccak demo_crypto" "replicate 32 1"] demo_accepted
  by (simp add: MAX_SLOTS_def demo_eligible)

text \<open>The order in which validators and tickets are supplied does not matter: on a valid input
  every rearrangement of the rows gives the same selection.\<close>

theorem select_inputs_order_independent:
  assumes "mset vs = mset vs'" "mset ts = mset ts'" "eligibility_valid vs ts"
  shows "select_inputs K reference slot vs ts = select_inputs K reference slot vs' ts'"
  by (rule select_inputs_mset [OF assms])

theorem select_inputs_order_independent_witness:
  "select_inputs (c_keccak demo_crypto) (replicate 32 1) 7 demo_validators demo_tickets =
   select_inputs (c_keccak demo_crypto) (replicate 32 1) 7 (rev demo_validators) (rev demo_tickets)"
  by (rule select_inputs_order_independent) (simp_all only: mset_rev demo_valid)

text \<open>The bucket draw is unbiased: of the 2 ^ 64 possible hash outputs, every offset below the
  number of tickets is drawn by the same number, so rejection sampling removes the modulo bias.\<close>

theorem draw_with_uniform:
  assumes "amount \<noteq> 0" and "k < amount"
  shows "card {n. draw_with amount (\<lambda>_. n) = Inr (0, n, k)} = 2 ^ 64 div unat amount"
proof -
  have "draw_with amount (\<lambda>_. n) = Inr (0, n, k) \<longleftrightarrow> (- amount) mod amount \<le> n \<and> n mod amount = k" for n
    using assms(1) draw_loop_Inr [of "(- amount) mod amount" amount "\<lambda>_. n" 0 0 n k]
    by (auto simp: draw_with_def draw_loop.simps [of _ _ _ 0] Let_def)
  then show ?thesis
    using card_word_residues [OF assms(1) refl assms(2)] by simp
qed

theorem draw_with_uniform_witness:
  "card {n. draw_with 3 (\<lambda>_. n) = Inr (0, n, 2)} = 6148914691236517205"
  using draw_with_uniform [of 3 2] by simp

end
