(* ===== verification/Poash_State.thy ===== *)
theory Poash_State
  imports Poash_Selection
begin

text \<open>
  \<open>src/src/native_poash/state.rs\<close> (the checked snapshot and its encoding) and
  \<open>src/src/native_poash/genesis.rs\<close> (the closed initialization). The published account addresses
  and keys appear as their byte values, which is what \<open>hex::decode\<close> of the source's literals yields.
\<close>

section \<open>Snapshots\<close>

record reward_credit =
  rc_slot :: u64
  rc_validator :: text_bytes
  rc_amount :: u128

record snapshot_input =
  si_position :: position
  si_accounts :: "poash_account list"
  si_validators :: "validator list"
  si_tickets :: "ticket list"
  si_credits :: "reward_credit list"
  si_gas_used :: u64
  si_fees_burned :: u128
  si_base_issuance :: u128

record validator_config =
  vc_id :: text_bytes
  vc_public_key :: bytes
  vc_owner :: address
  vc_reward :: address
  vc_initial_vault :: u128

record year_zero =
  yz_supply :: u128
  yz_numerator :: u128
  yz_denominator :: u128
  yz_reward :: u128
  yz_remainder :: u128

definition year_zero_approved :: year_zero where
  "year_zero_approved =
     (let total' = INITIAL_SUPPLY * 3; divisor = 50 * ucast YEAR_SLOTS in
      \<lparr>yz_supply = INITIAL_SUPPLY, yz_numerator = 3, yz_denominator = 50,
       yz_reward = total' div divisor, yz_remainder = total' mod divisor\<rparr>)"

definition year_zero_encode :: "year_zero \<Rightarrow> bytes" where
  "year_zero_encode y =
     be_bytes (0 :: u64) @ be_bytes (0 :: u64) @ be_bytes (1 :: u64) @
     concat (map be_bytes [yz_supply y, yz_numerator y, yz_denominator y, yz_reward y, yz_remainder y,
       50 * ucast YEAR_SLOTS])"

record policy =
  pol_run_id :: text_bytes
  pol_network :: hash
  pol_anchor :: block_header
  pol_configs :: "validator_config list"
  pol_tickets :: "ticket list"
  pol_seeds :: "address list"

record closed_state =
  cs_policy :: policy
  cs_data :: snapshot_input
  cs_bytes :: bytes
  cs_id :: hash

section \<open>Encoding\<close>

definition encode_account :: "poash_account \<Rightarrow> bytes" where
  "encode_account a = pa_address a @ be_bytes (pa_balance a) @ be_bytes (pa_nonce a)"

definition encode_validator :: "validator \<Rightarrow> bytes" where
  "encode_validator v =
     text_field (va_id v) @ [validator_status_code (va_status v)] @
     be_bytes (va_vault v) @ be_bytes (va_locked v) @ be_bytes (va_misses v) @
     be_bytes (va_offenses v) @ be_bytes (va_produced v) @ optional_field (va_cooldown_until v)"

definition encode_ticket :: "ticket \<Rightarrow> bytes" where
  "encode_ticket t =
     be_bytes (tk_id t) @ text_field (tk_owner t) @ [tk_bucket t, ticket_status_code (tk_status t)] @
     optional_field (tk_retire_start t) @ optional_field (tk_retire_effective t)"

definition encode_credit :: "reward_credit \<Rightarrow> bytes" where
  "encode_credit c =
     be_bytes (rc_slot c) @ text_field (rc_validator c) @ be_bytes (rc_amount c) @
     be_bytes (0 :: u64) @ be_bytes REWARD_HOLD_EPOCHS"

definition encode_snapshot :: "snapshot_input \<Rightarrow> bytes" where
  "encode_snapshot d =
     be_bytes (1 :: u32) @ be_bytes (po_slot (si_position d)) @ po_hash (si_position d) @
     be_bytes (of_nat (length (si_accounts d)) :: u32) @ concat (map encode_account (si_accounts d)) @
     be_bytes (of_nat (length (si_validators d)) :: u16) @ concat (map encode_validator (si_validators d)) @
     be_bytes (of_nat (length (si_tickets d)) :: u16) @ concat (map encode_ticket (si_tickets d)) @
     be_bytes (of_nat (length (si_credits d)) :: u16) @ concat (map encode_credit (si_credits d)) @
     be_bytes (si_gas_used d) @
     concat (map be_bytes [si_fees_burned d, 2 * TICKET_COST, si_base_issuance d, 0, 0, 0, 0]) @
     replicate 24 0 @ year_zero_encode year_zero_approved"

section \<open>The snapshot checks\<close>

definition sort_snapshot :: "snapshot_input \<Rightarrow> snapshot_input" where
  "sort_snapshot d = d\<lparr>si_accounts := sort_key pa_address (si_accounts d),
     si_validators := sort_key va_id (si_validators d), si_tickets := sort_key tk_id (si_tickets d),
     si_credits := sort_key rc_slot (si_credits d)\<rparr>"

fun adjacent_equal :: "'a list \<Rightarrow> bool" where
  "adjacent_equal (x # y # zs) \<longleftrightarrow> x = y \<or> adjacent_equal (y # zs)"
| "adjacent_equal _ \<longleftrightarrow> False"

fun sum_accounts :: "u128 \<Rightarrow> u64 \<Rightarrow> poash_account list \<Rightarrow> poash_error + u128 \<times> u64" where
  "sum_accounts supply nonce_sum [] = Inr (supply, nonce_sum)"
| "sum_accounts supply nonce_sum (a # as) =
     try_res (ok_or POverflow (checked_add supply (pa_balance a))) (\<lambda>supply.
     try_res (ok_or POverflow (checked_add nonce_sum (pa_nonce a))) (\<lambda>nonce_sum.
     sum_accounts supply nonce_sum as))"

fun sum_validators :: "u64 \<Rightarrow> u128 \<Rightarrow> validator list \<Rightarrow> poash_error + u64 \<times> u128" where
  "sum_validators produced supply [] = Inr (produced, supply)"
| "sum_validators produced supply (v # vs) =
     try_res (ok_or POverflow (checked_add produced (va_produced v))) (\<lambda>produced.
     try_res (ok_or POverflow (checked_add supply (va_vault v))) (\<lambda>supply.
     sum_validators produced supply vs))"

type_synonym credit_sums = "(text_bytes \<times> u64 \<times> u128) list"

definition credit_sum :: "credit_sums \<Rightarrow> text_bytes \<Rightarrow> u64 \<times> u128" where
  "credit_sum sums v = (case map_of sums v of None \<Rightarrow> (0, 0) | Some e \<Rightarrow> e)"

fun check_credits ::
  "policy \<Rightarrow> u64 \<Rightarrow> u64 \<Rightarrow> credit_sums \<Rightarrow> reward_credit list \<Rightarrow> poash_error + credit_sums" where
  "check_credits pol slot prior sums [] = Inr sums"
| "check_credits pol slot prior sums (c # cs) =
     (if rc_slot c = 0 \<or> rc_slot c > slot \<or> rc_slot c = prior \<or> rc_amount c \<noteq> yz_reward year_zero_approved
        then Inl (PState ''earning credit slot/amount'')
      else if \<not> (\<exists>v \<in> set (pol_configs pol). vc_id v = rc_validator c)
        then Inl (PState ''credit identity'')
      else let (n, amount) = credit_sum sums (rc_validator c) in
        try_res (ok_or POverflow (checked_add amount (rc_amount c))) (\<lambda>amount.
        check_credits pol slot (rc_slot c) (bm_insert (rc_validator c) (n + 1, amount) sums) cs))"

fun check_vaults :: "credit_sums \<Rightarrow> validator list \<Rightarrow> poash_error + unit" where
  "check_vaults sums [] = Inr ()"
| "check_vaults sums (v # vs) =
     (let (n, amount) = credit_sum sums (va_id v) in
      if n \<noteq> va_produced v \<or> amount \<noteq> va_locked v then Inl (PState ''locked credit reconciliation'')
      else try_res (ok_or POverflow (checked_add INITIAL_VAULT amount)) (\<lambda>vault.
        if va_vault v \<noteq> vault then Inl (PState ''C1 vault/retained credits'')
        else check_vaults sums vs))"

definition check_identities :: "policy \<Rightarrow> snapshot_input \<Rightarrow> poash_error + unit" where
  "check_identities pol d =
     (if \<exists>(v, c) \<in> set (zip (si_validators d) (pol_configs pol)). va_id v \<noteq> vc_id c
        then Inl (PState ''closed validator identity'')
      else if \<exists>(t, i) \<in> set (zip (si_tickets d) (pol_tickets pol)). tk_id t \<noteq> tk_id i \<or> tk_owner t \<noteq> tk_owner i
        then Inl (PState ''closed ticket identity/ownership'')
      else Inr ())"

definition check_supply :: "policy \<Rightarrow> snapshot_input \<Rightarrow> poash_error + u64" where
  "check_supply pol d =
     (if si_gas_used d > MAX_SLOTS * MAX_ENTRIES * 1000 \<or> si_gas_used d mod 1000 \<noteq> 0 \<or>
         si_fees_burned d \<noteq> ucast (si_gas_used d) * 10
        then Inl (PState ''native cumulative gas/fees'')
      else try_res (sum_accounts 0 0 (si_accounts d)) (\<lambda>(supply, nonce_sum).
      if nonce_sum \<noteq> si_gas_used d div 1000 then Inl (PState ''canonical nonce/gas total'')
      else try_res (sum_validators 0 supply (si_validators d)) (\<lambda>(produced, supply).
      if produced \<noteq> po_slot (si_position d) \<or>
         si_base_issuance d \<noteq> yz_reward year_zero_approved * ucast produced
        then Inl (PState ''participation/base record'')
      else try_res (ok_or POverflow (do { s \<leftarrow> checked_add INITIAL_SUPPLY (si_base_issuance d);
                                         checked_sub s (si_fees_burned d) })) (\<lambda>expected.
      if supply \<noteq> expected then Inl (PState ''ETX supply conservation'')
      else Inr produced))))"

definition checked :: "hasher \<Rightarrow> policy \<Rightarrow> snapshot_input \<Rightarrow> poash_error + closed_state" where
  "checked K pol input =
     (if po_slot (si_position input) > MAX_SLOTS \<or> length (si_accounts input) > MAX_ACCOUNTS \<or>
         length (si_accounts input) < 3 \<or> length (si_validators input) \<noteq> 2 \<or>
         length (si_tickets input) \<noteq> 2 \<or> length (si_credits input) > unat MAX_SLOTS
        then Inl (PState ''C1 snapshot bounds'')
      else let d = sort_snapshot input in
        if adjacent_equal (map pa_address (si_accounts d)) then Inl (PDuplicate ''account'')
        else try_res (validate_eligibility (si_validators d) (si_tickets d)) (\<lambda>_.
        try_res (check_identities pol d) (\<lambda>_.
        try_res (check_supply pol d) (\<lambda>produced.
        try_res (check_credits pol (po_slot (si_position d)) 0 [] (si_credits d)) (\<lambda>sums.
        if of_nat (length (si_credits d)) \<noteq> produced then Inl (PState ''missing earning event'')
        else try_res (check_vaults sums (si_validators d)) (\<lambda>_.
        if \<exists>seed \<in> set (pol_seeds pol). \<forall>a \<in> set (si_accounts d). pa_address a \<noteq> seed
          then Inl (PState ''initial account omitted'')
        else let bs = encode_snapshot d in
          Inr \<lparr>cs_policy = pol, cs_data = d, cs_bytes = bs,
               cs_id = hash_with_domain K (str ''ETERNIX_POASH_C1_SNAPSHOT'' @ [0]) (pol_network pol @ bs)\<rparr>))))))"

section \<open>Genesis\<close>

definition GENESIS_DESCRIPTOR :: bytes where
  "GENESIS_DESCRIPTOR = str ''ETERNIX_POASH_C1_GENESIS'' @ [0]"
definition MAX_GENESIS_BYTES :: nat where "MAX_GENESIS_BYTES = 16 * 1024"

record genesis_input =
  gi_run_id :: text_bytes
  gi_accounts :: "poash_account list"
  gi_validators :: "validator_config list"
  gi_tickets :: "ticket list"

record genesis =
  ge_policy :: policy
  ge_initial :: closed_state
  ge_bytes :: bytes

definition alice :: address where
  "alice = [0x7e, 0x5f, 0x45, 0x52, 0x09, 0x1a, 0x69, 0x12, 0x5d, 0x5d, 0xfc, 0xb7, 0xb8, 0xc2, 0x65,
     0x90, 0x29, 0x39, 0x5b, 0xdf]"
definition bob :: address where
  "bob = [0x68, 0x13, 0xeb, 0x93, 0x62, 0x37, 0x2e, 0xef, 0x62, 0x00, 0xf3, 0xb1, 0xdb, 0xc3, 0xf8,
     0x19, 0x67, 0x1c, 0xba, 0x69]"
definition carol :: address where
  "carol = [0x1e, 0xff, 0x47, 0xbc, 0x3a, 0x10, 0xa4, 0x5d, 0x4b, 0x23, 0x0b, 0x5d, 0x10, 0xe3, 0x77,
     0x51, 0xfe, 0x6a, 0xa7, 0x18]"
definition key_a :: bytes where
  "key_a = [0x02, 0xc6, 0x04, 0x7f, 0x94, 0x41, 0xed, 0x7d, 0x6d, 0x30, 0x45, 0x40, 0x6e, 0x95, 0xc0,
     0x7c, 0xd8, 0x5c, 0x77, 0x8e, 0x4b, 0x8c, 0xef, 0x3c, 0xa7, 0xab, 0xac, 0x09, 0xb9, 0x5c, 0x70,
     0x9e, 0xe5]"
definition key_b :: bytes where
  "key_b = [0x02, 0x2f, 0x8b, 0xde, 0x4d, 0x1a, 0x07, 0x20, 0x93, 0x55, 0xb4, 0xa7, 0x25, 0x0a, 0x5c,
     0x51, 0x28, 0xe8, 0x8b, 0x84, 0xbd, 0xdc, 0x61, 0x9a, 0xb7, 0xcb, 0xa8, 0xd5, 0x69, 0xb2, 0x40,
     0xef, 0xe4]"

definition anchor :: "hasher \<Rightarrow> block_header" where
  "anchor K = \<lparr>bh_protocol_version = HEADER_PROFILE, bh_chain_id = CHAIN_ID, bh_slot = 0,
     bh_block_kind = Validator, bh_parent_hash = replicate 32 0,
     bh_proposer_id = proposer_id K (str ''c1-anchor''), bh_ticket_id = 1,
     bh_transaction_root = EMPTY_TX_ROOT K, bh_state_root = replicate 32 0,
     bh_receipts_root = EMPTY_RECEIPTS_ROOT K, bh_gas_used = 0,
     bh_protocol_data_root = protocol_data_root K protocol_data_empty\<rparr>"

definition parameters :: bytes where
  "parameters =
     be_bytes CHAIN_ID @ [2] @ be_bytes (1 :: u32) @ be_bytes POASH_RULES @ be_bytes HEADER_PROFILE @
     [INNER_WIRE, OUTER_WIRE, AUTH_ENCODING] @ be_bytes AUTH_RULES @
     concat (map be_bytes [3000 :: u32, 2000, 2100]) @
     concat (map be_bytes [1200 :: u64, 24, LOOKBACK, 20, 20, REWARD_HOLD_EPOCHS, YEAR_SLOTS]) @
     concat (map be_bytes [TICKET_COST, 5, 2, 3, 50, 9, 10, 1, 200]) @
     be_bytes MAX_SLOTS @ be_bytes MAX_ENTRIES @ be_bytes (3000 :: u32) @ be_bytes (16000000 :: u64) @ [1]"

definition label_byte :: "u8 \<Rightarrow> bool" where
  "label_byte b \<longleftrightarrow> (48 \<le> b \<and> b \<le> 57) \<or> (65 \<le> b \<and> b \<le> 90) \<or> (97 \<le> b \<and> b \<le> 122) \<or> b = 45 \<or> b = 95"

definition expected_accounts :: "poash_account list" where
  "expected_accounts = sort_key pa_address
     [\<lparr>pa_address = alice, pa_balance = 1600000000000000, pa_nonce = 0\<rparr>,
      \<lparr>pa_address = bob, pa_balance = 32000000000000, pa_nonce = 0\<rparr>,
      \<lparr>pa_address = carol, pa_balance = 0, pa_nonce = 0\<rparr>]"

definition check_config ::
  "'k crypto \<Rightarrow> validator_config \<Rightarrow> text_bytes \<Rightarrow> bytes \<Rightarrow> address \<Rightarrow> poash_error + unit" where
  "check_config C v i key owner =
     try_res (map_err (\<lambda>_. PProfile ''producer binding'') (binding_new C (vc_id v) (vc_public_key v))) (\<lambda>_.
     if vc_id v \<noteq> i \<or> vc_public_key v \<noteq> key \<or> vc_owner v \<noteq> owner \<or> vc_reward v \<noteq> owner \<or>
        vc_initial_vault v \<noteq> INITIAL_VAULT
     then Inl (PProfile ''closed producer/collateral association'') else Inr ())"

definition initial_ticket :: "ticket \<Rightarrow> u64 \<Rightarrow> text_bytes \<Rightarrow> bool" where
  "initial_ticket t i owner \<longleftrightarrow> tk_id t = i \<and> tk_owner t = owner \<and> tk_bucket t = 3 \<and>
     tk_status t = TActive \<and> tk_retire_start t = None \<and> tk_retire_effective t = None"

definition encode_config :: "validator_config \<Rightarrow> bytes" where
  "encode_config v = text_field (vc_id v) @ vc_public_key v @ vc_owner v @ vc_reward v @
     be_bytes (vc_initial_vault v)"

definition initial_validator :: "validator_config \<Rightarrow> validator" where
  "initial_validator v = \<lparr>va_id = vc_id v, va_status = VActive, va_vault = vc_initial_vault v,
     va_locked = 0, va_misses = 0, va_offenses = 0, va_produced = 0, va_cooldown_until = None\<rparr>"

definition initial_snapshot ::
  "hasher \<Rightarrow> poash_account list \<Rightarrow> validator_config list \<Rightarrow> ticket list \<Rightarrow> snapshot_input" where
  "initial_snapshot K accounts configs tickets =
     \<lparr>si_position = \<lparr>po_slot = 0, po_hash = header_hash K (anchor K)\<rparr>, si_accounts = accounts,
      si_validators = map initial_validator configs, si_tickets = tickets, si_credits = [],
      si_gas_used = 0, si_fees_burned = 0, si_base_issuance = 0\<rparr>"

definition genesis_encode ::
  "hasher \<Rightarrow> text_bytes \<Rightarrow> validator_config list \<Rightarrow> snapshot_input \<Rightarrow> bytes" where
  "genesis_encode K run_id configs d =
     GENESIS_DESCRIPTOR @ be_bytes (1 :: u32) @ text_field run_id @ parameters @
     header_bytes (anchor K) @ be_bytes (2 :: u16) @ concat (map encode_config configs) @
     (let payload = encode_snapshot d in be_bytes (of_nat (length payload) :: u32) @ payload)"

definition genesis_new :: "'k crypto \<Rightarrow> genesis_input \<Rightarrow> poash_error + genesis" where
  "genesis_new C input =
     (let K = c_keccak C in
      if gi_run_id input = [] \<or> length (gi_run_id input) > 64 \<or> \<not> list_all label_byte (gi_run_id input)
        then Inl (PProfile ''run label'')
      else if length (gi_accounts input) \<noteq> 3 \<or> length (gi_validators input) \<noteq> 2 \<or> length (gi_tickets input) \<noteq> 2
        then Inl (PProfile ''closed genesis counts'')
      else
        let accounts = sort_key pa_address (gi_accounts input);
            configs = sort_key vc_id (gi_validators input);
            tickets = sort_key tk_id (gi_tickets input) in
        if accounts \<noteq> expected_accounts then Inl (PProfile ''closed initial account seeds'')
        else try_res (check_config C (configs ! 0) (str ''trial-A'') key_a alice) (\<lambda>_.
        try_res (check_config C (configs ! 1) (str ''trial-B'') key_b bob) (\<lambda>_.
        if \<not> initial_ticket (tickets ! 0) 1 (str ''trial-A'') \<or> \<not> initial_ticket (tickets ! 1) 255 (str ''trial-B'')
          then Inl (PProfile ''closed initial ticket'')
        else
          let d = initial_snapshot K accounts configs tickets;
              bs = genesis_encode K (gi_run_id input) configs d in
          if length bs > MAX_GENESIS_BYTES then Inl (PEncoding ''genesis bound'')
          else
            let pol = \<lparr>pol_run_id = gi_run_id input, pol_network = keccak256 K bs, pol_anchor = anchor K,
                  pol_configs = configs, pol_tickets = tickets, pol_seeds = map pa_address accounts\<rparr> in
            try_res (checked K pol d) (\<lambda>initial.
            Inr \<lparr>ge_policy = pol, ge_initial = initial, ge_bytes = bs\<rparr>))))"

section \<open>Decoding a genesis\<close>

definition poash_take :: "nat \<Rightarrow> cursor \<Rightarrow> poash_error + bytes \<times> cursor" where
  "poash_take n d =
     try_res (ok_or POverflow (usize_checked_add (at d) n)) (\<lambda>_.
     ok_or (PEncoding ''truncation'') (slice_read n d))"

definition poash_u16 :: "cursor \<Rightarrow> poash_error + u16 \<times> cursor" where
  "poash_u16 d = try_res (poash_take 2 d) (\<lambda>(b, d). Inr (be_word b, d))"

definition poash_u32 :: "cursor \<Rightarrow> poash_error + u32 \<times> cursor" where
  "poash_u32 d = try_res (poash_take 4 d) (\<lambda>(b, d). Inr (be_word b, d))"

definition poash_u64 :: "cursor \<Rightarrow> poash_error + u64 \<times> cursor" where
  "poash_u64 d = try_res (poash_take 8 d) (\<lambda>(b, d). Inr (be_word b, d))"

definition poash_u128 :: "cursor \<Rightarrow> poash_error + u128 \<times> cursor" where
  "poash_u128 d = try_res (poash_take 16 d) (\<lambda>(b, d). Inr (be_word b, d))"

definition poash_text :: "nat \<Rightarrow> cursor \<Rightarrow> poash_error + text_bytes \<times> cursor" where
  "poash_text bound d =
     try_res (poash_u16 d) (\<lambda>(n, d).
     if unat n > bound then Inl (PEncoding ''text bound'')
     else try_res (poash_take (unat n) d) (\<lambda>(b, d).
       if utf8_valid b then Inr (b, d) else Inl (PEncoding ''text UTF-8'')))"

definition read_config :: "cursor \<Rightarrow> poash_error + validator_config \<times> cursor" where
  "read_config d =
     try_res (poash_text 7 d) (\<lambda>(i, d).
     try_res (poash_take 33 d) (\<lambda>(key, d).
     try_res (poash_take 20 d) (\<lambda>(owner, d).
     try_res (poash_take 20 d) (\<lambda>(reward, d).
     try_res (poash_u128 d) (\<lambda>(vault, d).
     Inr (\<lparr>vc_id = i, vc_public_key = key, vc_owner = owner, vc_reward = reward,
          vc_initial_vault = vault\<rparr>, d))))))"

definition read_account :: "cursor \<Rightarrow> poash_error + poash_account \<times> cursor" where
  "read_account d =
     try_res (poash_take 20 d) (\<lambda>(a, d).
     try_res (poash_u128 d) (\<lambda>(b, d).
     try_res (poash_u64 d) (\<lambda>(n, d).
     Inr (\<lparr>pa_address = a, pa_balance = b, pa_nonce = n\<rparr>, d))))"

fun read_many :: "(cursor \<Rightarrow> poash_error + 'a \<times> cursor) \<Rightarrow> nat \<Rightarrow> cursor \<Rightarrow> poash_error + 'a list \<times> cursor" where
  "read_many rd 0 d = Inr ([], d)"
| "read_many rd (Suc n) d =
     try_res (rd d) (\<lambda>(x, d). try_res (read_many rd n d) (\<lambda>(xs, d). Inr (x # xs, d)))"

definition genesis_from_bytes :: "'k crypto \<Rightarrow> bytes \<Rightarrow> poash_error + genesis" where
  "genesis_from_bytes C bs =
     (if length bs > MAX_GENESIS_BYTES then Inl (PEncoding ''genesis bound'')
      else try_res (poash_take (length GENESIS_DESCRIPTOR) (start_cursor bs)) (\<lambda>(desc, d).
      if desc \<noteq> GENESIS_DESCRIPTOR then Inl (PEncoding ''genesis descriptor/version'')
      else try_res (poash_u32 d) (\<lambda>(version, d).
      if version \<noteq> 1 then Inl (PEncoding ''genesis descriptor/version'')
      else try_res (poash_text 64 d) (\<lambda>(run_id, d).
      try_res (poash_take (length parameters) d) (\<lambda>(params, d).
      if params \<noteq> parameters then Inl (PProfile ''C1 parameters'')
      else try_res (poash_take 229 d) (\<lambda>(hb, d).
      if hb \<noteq> header_bytes (anchor (c_keccak C)) then Inl (PProfile ''trusted anchor'')
      else try_res (poash_u16 d) (\<lambda>(n, d).
      if n \<noteq> 2 then Inl (PProfile ''closed registry count'')
      else try_res (read_many read_config 2 d) (\<lambda>(validators, d).
      try_res (poash_u32 d) (\<lambda>(plen, d).
      if unat plen > MAX_GENESIS_BYTES then Inl (PEncoding ''initial payload bound'')
      else try_res (poash_take (unat plen) d) (\<lambda>(payload, d).
      try_res (poash_u32 (start_cursor payload)) (\<lambda>(enc, s).
      if enc \<noteq> 1 then Inl (PEncoding ''state encoding'')
      else try_res (poash_take 40 s) (\<lambda>(_, s).
      try_res (poash_u32 s) (\<lambda>(count, s).
      if count \<noteq> 3 then Inl (PProfile ''initial account count'')
      else try_res (read_many read_account 3 s) (\<lambda>(accounts, s).
      try_res (genesis_new C \<lparr>gi_run_id = run_id, gi_accounts = accounts, gi_validators = validators,
          gi_tickets = [ticket_active 1 (str ''trial-A''), ticket_active 255 (str ''trial-B'')]\<rparr>) (\<lambda>g.
      if at d \<noteq> length bs \<or> ge_bytes g \<noteq> bs then Inl (PEncoding ''noncanonical/trailing genesis'')
      else Inr g)))))))))))))))"

section \<open>The sums as natural numbers\<close>

abbreviation balances :: "poash_account list \<Rightarrow> nat" where
  "balances as \<equiv> (\<Sum>a\<leftarrow>as. unat (pa_balance a))"

abbreviation nonce_total :: "poash_account list \<Rightarrow> nat" where
  "nonce_total as \<equiv> (\<Sum>a\<leftarrow>as. unat (pa_nonce a))"

abbreviation production :: "validator list \<Rightarrow> nat" where
  "production vs \<equiv> (\<Sum>v\<leftarrow>vs. unat (va_produced v))"

abbreviation vaults :: "validator list \<Rightarrow> nat" where
  "vaults vs \<equiv> (\<Sum>v\<leftarrow>vs. unat (va_vault v))"

lemma checked_add_unat_iff:
  "checked_add (a :: 'a::len word) b = Some c \<longleftrightarrow> unat c = unat a + unat b"
proof
  assume "unat c = unat a + unat b"
  then have "unat a + unat b < 2 ^ LENGTH('a)" using unat_bound [of c] by simp
  then obtain c' where "checked_add a b = Some c'" "unat c' = unat a + unat b"
    using checked_add_fits by blast
  with \<open>unat c = unat a + unat b\<close> show "checked_add a b = Some c"
    by (simp add: word_unat_eq_iff)
qed (rule checked_add_Some)

lemma unat_step: "(\<exists>x :: 'a::len word. unat x = k \<and> unat (c :: 'a word) = unat x + n) \<longleftrightarrow> unat c = k + n"
proof
  assume "unat c = k + n"
  then have "k < 2 ^ LENGTH('a)" using unat_bound [of c] by simp
  then have "unat (of_nat k :: 'a word) = k" by (simp add: unat_of_nat_small)
  with \<open>unat c = k + n\<close> show "\<exists>x :: 'a word. unat x = k \<and> unat c = unat x + n" by metis
qed auto

lemma sum_accounts_iff:
  "sum_accounts s n as = Inr (s', n') \<longleftrightarrow>
     unat s' = unat s + balances as \<and> unat n' = unat n + nonce_total as"
proof (induction as arbitrary: s n)
  case Nil
  then show ?case by (auto simp: word_unat_eq_iff)
next
  case (Cons a as)
  have "sum_accounts s n (a # as) = Inr (s', n') \<longleftrightarrow>
      (\<exists>x :: u128. unat x = unat s + unat (pa_balance a) \<and> unat s' = unat x + balances as) \<and>
      (\<exists>y :: u64. unat y = unat n + unat (pa_nonce a) \<and> unat n' = unat y + nonce_total as)"
    by (simp add: try_res_Inr_iff checked_add_unat_iff Cons.IH) blast
  then show ?case by (simp add: unat_step add.assoc)
qed

lemma sum_validators_iff:
  "sum_validators n s vs = Inr (n', s') \<longleftrightarrow>
     unat n' = unat n + production vs \<and> unat s' = unat s + vaults vs"
proof (induction vs arbitrary: s n)
  case Nil
  then show ?case by (auto simp: word_unat_eq_iff)
next
  case (Cons v vs)
  have "sum_validators n s (v # vs) = Inr (n', s') \<longleftrightarrow>
      (\<exists>x :: u64. unat x = unat n + unat (va_produced v) \<and> unat n' = unat x + production vs) \<and>
      (\<exists>y :: u128. unat y = unat s + unat (va_vault v) \<and> unat s' = unat y + vaults vs)"
    by (simp add: try_res_Inr_iff checked_add_unat_iff Cons.IH) blast
  then show ?case by (simp add: unat_step add.assoc)
qed

lemma reward_value: "yz_reward year_zero_approved = 10000000" "yz_remainder year_zero_approved = 0"
  by (simp_all add: year_zero_approved_def Let_def INITIAL_SUPPLY_def YEAR_SLOTS_def)

text \<open>The accounting that a snapshot must satisfy, in exact arithmetic.\<close>

definition supply_ok :: "snapshot_input \<Rightarrow> bool" where
  "supply_ok d \<longleftrightarrow>
     unat (si_gas_used d) \<le> 3200000 \<and> unat (si_gas_used d) = 1000 * nonce_total (si_accounts d) \<and>
     unat (si_fees_burned d) = 10 * unat (si_gas_used d) \<and>
     production (si_validators d) = unat (po_slot (si_position d)) \<and>
     unat (si_base_issuance d) = 10000000 * unat (po_slot (si_position d)) \<and>
     balances (si_accounts d) + vaults (si_validators d) + unat (si_fees_burned d) =
       1752000000000000 + unat (si_base_issuance d)"

lemma unat_ucast_up: "unat (ucast (w :: u64) :: u128) = unat w"
  using unat_bound [of w] by (simp add: unsigned_ucast_eq take_bit_eq_mod)

lemma fees_iff:
  assumes "gas \<le> (3200000 :: u64)"
  shows "fees = (ucast gas * 10 :: u128) \<longleftrightarrow> unat fees = 10 * unat gas"
proof -
  have "unat gas \<le> 3200000" using assms by (simp add: word_le_nat_alt)
  then have "unat (ucast gas * 10 :: u128) = 10 * unat gas"
    by (simp add: unat_word_ariths(2) unat_ucast_up)
  then show ?thesis by (simp add: word_unat_eq_iff)
qed

lemma base_iff:
  assumes "unat produced \<le> 200"
  shows "base = (yz_reward year_zero_approved * ucast (produced :: u64)) \<longleftrightarrow> unat base = 10000000 * unat produced"
proof -
  have "unat (10000000 * ucast produced :: u128) = 10000000 * unat produced"
    using assms by (simp add: unat_word_ariths(2) unat_ucast_up)
  then show ?thesis by (simp add: word_unat_eq_iff reward_value)
qed

lemma expected_iff:
  assumes "unat base \<le> 10000000 * 200"
  shows "(do { s \<leftarrow> checked_add INITIAL_SUPPLY base; checked_sub s fees }) = Some (x :: u128) \<longleftrightarrow>
    unat x + unat fees = 1752000000000000 + unat base"
proof -
  have "unat INITIAL_SUPPLY + unat base < 2 ^ LENGTH(128)"
    using assms by (simp add: INITIAL_SUPPLY_def)
  then obtain s where s: "checked_add INITIAL_SUPPLY base = Some s" "unat s = 1752000000000000 + unat base"
    using checked_add_fits [of INITIAL_SUPPLY base] by (auto simp: INITIAL_SUPPLY_def)
  have "checked_sub s fees = Some x \<longleftrightarrow> unat x + unat fees = unat s"
  proof
    assume "unat x + unat fees = unat s"
    moreover from this have "fees \<le> s" by (simp add: word_le_nat_alt)
    then obtain y where "checked_sub s fees = Some y" by (simp add: checked_sub_def)
    moreover from checked_sub_Some [OF this] have "unat y + unat fees = unat s" by simp
    ultimately show "checked_sub s fees = Some x" by (simp add: word_unat_eq_iff)
  qed (use checked_sub_Some [of s fees x] in simp)
  with s show ?thesis by simp
qed

lemma gas_guard:
  "\<not> ((gas :: u64) > MAX_SLOTS * MAX_ENTRIES * 1000 \<or> gas mod 1000 \<noteq> 0) \<longleftrightarrow>
     unat gas \<le> 3200000 \<and> 1000 dvd unat gas"
proof -
  have "gas mod 1000 = 0 \<longleftrightarrow> 1000 dvd unat gas"
    by (simp add: word_unat_eq_iff unat_mod dvd_eq_mod_eq_0)
  then show ?thesis
    by (simp add: MAX_SLOTS_def MAX_ENTRIES_def word_less_nat_alt not_less)
qed

lemma check_supply_iff:
  assumes "po_slot (si_position d) \<le> MAX_SLOTS"
  shows "check_supply pol d = Inr p \<longleftrightarrow> supply_ok d \<and> p = po_slot (si_position d)"
proof
  let ?g = "unat (si_gas_used d)" and ?s = "po_slot (si_position d)"
  have slot: "unat ?s \<le> 200" using assms by (simp add: word_le_nat_alt MAX_SLOTS_def)
  {
    assume "check_supply pol d = Inr p"
    then obtain supply0 ns sup2 x where
      guard: "\<not> (si_gas_used d > MAX_SLOTS * MAX_ENTRIES * 1000 \<or> si_gas_used d mod 1000 \<noteq> 0 \<or>
         si_fees_burned d \<noteq> ucast (si_gas_used d) * 10)"
      and acc: "sum_accounts 0 0 (si_accounts d) = Inr (supply0, ns)"
      and ns: "\<not> ns \<noteq> si_gas_used d div 1000"
      and val: "sum_validators 0 supply0 (si_validators d) = Inr (p, sup2)"
      and pb: "\<not> (p \<noteq> ?s \<or> si_base_issuance d \<noteq> yz_reward year_zero_approved * ucast p)"
      and ex: "ok_or POverflow (do { s \<leftarrow> checked_add INITIAL_SUPPLY (si_base_issuance d);
        checked_sub s (si_fees_burned d) }) = Inr x"
      and x: "\<not> sup2 \<noteq> x"
      unfolding check_supply_def
      by (elim success_path) (simp only: sum.inject, rule that; assumption)
    have gas: "\<not> (si_gas_used d > MAX_SLOTS * MAX_ENTRIES * 1000 \<or> si_gas_used d mod 1000 \<noteq> 0)"
      and fees: "si_fees_burned d = ucast (si_gas_used d) * 10"
      and p: "p = ?s" and base: "si_base_issuance d = yz_reward year_zero_approved * ucast p"
      using guard pb by blast+
    note g = gas [unfolded gas_guard]
    have f: "unat (si_fees_burned d) = 10 * ?g"
      using fees fees_iff [of "si_gas_used d"] g by (simp add: word_le_nat_alt)
    have "nonce_total (si_accounts d) = ?g div 1000"
      using acc ns by (auto simp: sum_accounts_iff unat_div)
    moreover have b: "unat (si_base_issuance d) = 10000000 * unat ?s"
      using base p base_iff [of p] slot by simp
    ultimately show "supply_ok d \<and> p = ?s"
      using g f val acc p x ex expected_iff [of "si_base_issuance d"] slot
      by (simp add: supply_ok_def sum_accounts_iff sum_validators_iff)
  next
    assume ok: "supply_ok d \<and> p = ?s"
    then have g: "?g \<le> 3200000" "?g = 1000 * nonce_total (si_accounts d)"
      and f: "unat (si_fees_burned d) = 10 * ?g"
      and pr: "production (si_validators d) = unat ?s" "p = ?s"
      and b: "unat (si_base_issuance d) = 10000000 * unat ?s"
      and total': "balances (si_accounts d) + vaults (si_validators d) + unat (si_fees_burned d) =
        1752000000000000 + unat (si_base_issuance d)"
      by (simp_all add: supply_ok_def)
    have gd: "\<not> (si_gas_used d > MAX_SLOTS * MAX_ENTRIES * 1000 \<or> si_gas_used d mod 1000 \<noteq> 0)"
      unfolding gas_guard using g by simp
    have fees: "si_fees_burned d = ucast (si_gas_used d) * 10"
      using f fees_iff [of "si_gas_used d"] g(1) by (simp add: word_le_nat_alt)
    have small: "balances (si_accounts d) + vaults (si_validators d) < 2 ^ 128"
      using total' b slot by simp
    have acc: "sum_accounts 0 0 (si_accounts d) =
        Inr (of_nat (balances (si_accounts d)), si_gas_used d div 1000)"
      using small g(2) by (simp add: sum_accounts_iff unat_of_nat_small unat_div)
    have val: "sum_validators 0 (of_nat (balances (si_accounts d))) (si_validators d) =
        Inr (?s, of_nat (balances (si_accounts d) + vaults (si_validators d)))"
      using small pr by (simp add: sum_validators_iff unat_of_nat_small del: of_nat_add)
    have base: "si_base_issuance d = yz_reward year_zero_approved * ucast ?s"
      using b base_iff [of ?s] slot by simp
    have ex: "do { s \<leftarrow> checked_add INITIAL_SUPPLY (si_base_issuance d); checked_sub s (si_fees_burned d) } =
        Some (of_nat (balances (si_accounts d) + vaults (si_validators d)))"
      using small total' b slot expected_iff [of "si_base_issuance d"]
      by (simp add: unat_of_nat_small del: of_nat_add)
    show "check_supply pol d = Inr p"
      unfolding check_supply_def using gd fees acc val base ex pr by simp
  }
qed

section \<open>Sorting\<close>

lemma sort_key_id: "sorted (map f xs) \<Longrightarrow> sort_key f xs = xs"
  by (induction xs) (auto simp: insort_is_Cons)

lemma adjacent_equal_sorted:
  "sorted (xs :: 'a::linorder list) \<Longrightarrow> \<not> adjacent_equal xs \<longleftrightarrow> distinct xs"
proof (induction xs rule: adjacent_equal.induct)
  case (1 x y zs)
  then show ?case by (auto simp: order_le_less)
qed auto

lemma sort_snapshot_sorted [simp]:
  "sorted (map pa_address (si_accounts (sort_snapshot d)))"
  "sorted (map va_id (si_validators (sort_snapshot d)))"
  "sorted (map tk_id (si_tickets (sort_snapshot d)))"
  "sorted (map rc_slot (si_credits (sort_snapshot d)))"
  by (simp_all add: sort_snapshot_def)

definition sorted_snapshot :: "snapshot_input \<Rightarrow> bool" where
  "sorted_snapshot d \<longleftrightarrow> sorted (map pa_address (si_accounts d)) \<and> sorted (map va_id (si_validators d)) \<and>
     sorted (map tk_id (si_tickets d)) \<and> sorted (map rc_slot (si_credits d))"

lemma sort_snapshot_id: "sorted_snapshot d \<Longrightarrow> sort_snapshot d = d"
  by (simp add: sorted_snapshot_def sort_snapshot_def sort_key_id)

lemma sorted_sort_snapshot: "sorted_snapshot (sort_snapshot d)"
  by (simp add: sorted_snapshot_def)

section \<open>Credits\<close>

fun last_slot :: "u64 \<Rightarrow> reward_credit list \<Rightarrow> u64" where
  "last_slot prior [] = prior"
| "last_slot prior (c # cs) = last_slot (rc_slot c) cs"

lemma check_credits_append:
  "check_credits pol slot prior sums (cs @ ds) =
     try_res (check_credits pol slot prior sums cs) (\<lambda>sums'. check_credits pol slot (last_slot prior cs) sums' ds)"
  by (induction cs arbitrary: prior sums) (auto simp: Let_def try_res_def split: prod.splits sum.splits)

lemma check_credits_mono:
  assumes "check_credits pol slot prior sums cs = Inr s" "slot \<le> slot'"
  shows "check_credits pol slot' prior sums cs = Inr s"
  using assms(1)
proof (induction cs arbitrary: prior sums)
  case (Cons c cs)
  then show ?case using assms(2)
    by (auto simp: Let_def try_res_Inr_iff split: if_splits prod.splits)
qed simp

lemma check_credits_slots:
  assumes "check_credits pol slot prior sums cs = Inr s" "c \<in> set cs"
  shows "rc_slot c \<noteq> 0 \<and> rc_slot c \<le> slot \<and> rc_amount c = 10000000"
  using assms
proof (induction cs arbitrary: prior sums)
  case (Cons d cs)
  then show ?case
    by (auto simp: Let_def try_res_Inr_iff reward_value not_less split: if_splits prod.splits)
qed simp

lemma last_slot_in: "last_slot prior cs = prior \<or> (\<exists>c \<in> set cs. last_slot prior cs = rc_slot c)"
proof (induction cs arbitrary: prior)
  case (Cons c cs)
  from Cons [of "rc_slot c"] show ?case by auto
qed simp

lemma credit_sum_insert:
  "credit_sum (bm_insert k e sums) v = (if v = k then e else credit_sum sums v)"
  by (simp add: credit_sum_def map_of_bm_insert)

text \<open>The vault checks hold of every validator alone.\<close>

definition vault_ok :: "credit_sums \<Rightarrow> validator \<Rightarrow> bool" where
  "vault_ok sums v \<longleftrightarrow> credit_sum sums (va_id v) = (va_produced v, va_locked v) \<and>
     checked_add INITIAL_VAULT (va_locked v) = Some (va_vault v)"

lemma check_vaults_iff: "check_vaults sums vs = Inr u \<longleftrightarrow> (\<forall>v \<in> set vs. vault_ok sums v)"
proof (induction vs)
  case (Cons v vs)
  have "check_vaults sums (v # vs) = Inr u \<longleftrightarrow> vault_ok sums v \<and> check_vaults sums vs = Inr u"
    by (cases "credit_sum sums (va_id v)") (auto simp: vault_ok_def try_res_Inr_iff split: if_splits)
  with Cons show ?case by simp
qed simp

section \<open>The whole check\<close>

text \<open>The conditions on a snapshot whose rows are sorted.\<close>

definition snapshot_ok :: "policy \<Rightarrow> snapshot_input \<Rightarrow> bool" where
  "snapshot_ok pol d \<longleftrightarrow>
     po_slot (si_position d) \<le> MAX_SLOTS \<and> length (si_accounts d) \<le> MAX_ACCOUNTS \<and>
     3 \<le> length (si_accounts d) \<and> length (si_tickets d) = 2 \<and> sorted_snapshot d \<and>
     distinct (map pa_address (si_accounts d)) \<and>
     eligibility_valid (si_validators d) (si_tickets d) \<and> check_identities pol d = Inr () \<and>
     supply_ok d \<and> length (si_credits d) = unat (po_slot (si_position d)) \<and>
     (\<exists>sums. check_credits pol (po_slot (si_position d)) 0 [] (si_credits d) = Inr sums \<and>
        (\<forall>v \<in> set (si_validators d). vault_ok sums v)) \<and>
     set (pol_seeds pol) \<subseteq> pa_address ` set (si_accounts d)"

definition sealed :: "hasher \<Rightarrow> policy \<Rightarrow> snapshot_input \<Rightarrow> closed_state" where
  "sealed K pol d = \<lparr>cs_policy = pol, cs_data = d, cs_bytes = encode_snapshot d,
     cs_id = hash_with_domain K (str ''ETERNIX_POASH_C1_SNAPSHOT'' @ [0]) (pol_network pol @ encode_snapshot d)\<rparr>"

lemma sort_snapshot_lengths [simp]:
  "length (si_accounts (sort_snapshot d)) = length (si_accounts d)"
  "length (si_validators (sort_snapshot d)) = length (si_validators d)"
  "length (si_tickets (sort_snapshot d)) = length (si_tickets d)"
  "length (si_credits (sort_snapshot d)) = length (si_credits d)"
  "si_position (sort_snapshot d) = si_position d"
  by (simp_all add: sort_snapshot_def)

lemma credit_count:
  assumes "n \<le> 200" "unat slot \<le> 200"
  shows "of_nat n = (slot :: u64) \<longleftrightarrow> n = unat slot"
proof -
  have "unat (of_nat n :: u64) = n" using assms(1) by (simp add: unat_of_nat_small)
  then show ?thesis by (auto simp: word_unat_eq_iff)
qed

lemma checked_Inr_iff:
  "checked K pol input = Inr cs \<longleftrightarrow>
     snapshot_ok pol (sort_snapshot input) \<and> cs = sealed K pol (sort_snapshot input)"
proof -
  let ?d = "sort_snapshot input" and ?s = "po_slot (si_position input)"
  define bounds where "bounds \<longleftrightarrow> \<not> (?s > MAX_SLOTS \<or> length (si_accounts input) > MAX_ACCOUNTS \<or>
      length (si_accounts input) < 3 \<or> length (si_validators input) \<noteq> 2 \<or>
      length (si_tickets input) \<noteq> 2 \<or> length (si_credits input) > unat MAX_SLOTS)"
  have "checked K pol input = Inr cs \<longleftrightarrow> bounds \<and> \<not> adjacent_equal (map pa_address (si_accounts ?d)) \<and>
     validate_eligibility (si_validators ?d) (si_tickets ?d) = Inr () \<and> check_identities pol ?d = Inr () \<and>
     (\<exists>p sums. check_supply pol ?d = Inr p \<and> check_credits pol ?s 0 [] (si_credits ?d) = Inr sums \<and>
        of_nat (length (si_credits input)) = p \<and> check_vaults sums (si_validators ?d) = Inr ()) \<and>
     set (pol_seeds pol) \<subseteq> pa_address ` set (si_accounts ?d) \<and> cs = sealed K pol ?d"
    by (auto simp: checked_def bounds_def Let_def try_res_Inr_iff sealed_def split: if_splits)
  also have "\<dots> \<longleftrightarrow> snapshot_ok pol ?d \<and> cs = sealed K pol ?d"
    using check_supply_iff [of ?d pol] credit_count [of "length (si_credits input)" ?s]
    by (auto simp: snapshot_ok_def bounds_def sorted_sort_snapshot adjacent_equal_sorted check_vaults_iff
        validate_eligibility_iff eligibility_valid_def not_less MAX_SLOTS_def word_le_nat_alt)
  finally show ?thesis .
qed

section \<open>The approved genesis\<close>

definition approved_configs :: "validator_config list" where
  "approved_configs =
     [\<lparr>vc_id = str ''trial-A'', vc_public_key = key_a, vc_owner = alice, vc_reward = alice, vc_initial_vault = INITIAL_VAULT\<rparr>,
      \<lparr>vc_id = str ''trial-B'', vc_public_key = key_b, vc_owner = bob, vc_reward = bob, vc_initial_vault = INITIAL_VAULT\<rparr>]"

definition approved_snapshot :: "hasher \<Rightarrow> snapshot_input" where
  "approved_snapshot K = initial_snapshot K expected_accounts approved_configs demo_tickets"

definition approved_policy :: "hasher \<Rightarrow> text_bytes \<Rightarrow> policy" where
  "approved_policy K run_id = \<lparr>pol_run_id = run_id,
     pol_network = keccak256 K (genesis_encode K run_id approved_configs (approved_snapshot K)),
     pol_anchor = anchor K, pol_configs = approved_configs, pol_tickets = demo_tickets,
     pol_seeds = map pa_address expected_accounts\<rparr>"

definition approved_genesis :: "hasher \<Rightarrow> text_bytes \<Rightarrow> genesis" where
  "approved_genesis K run_id = \<lparr>ge_policy = approved_policy K run_id,
     ge_initial = sealed K (approved_policy K run_id) (approved_snapshot K),
     ge_bytes = genesis_encode K run_id approved_configs (approved_snapshot K)\<rparr>"

lemma expected_accounts_sorted:
  "expected_accounts = [\<lparr>pa_address = carol, pa_balance = 0, pa_nonce = 0\<rparr>,
     \<lparr>pa_address = bob, pa_balance = 32000000000000, pa_nonce = 0\<rparr>,
     \<lparr>pa_address = alice, pa_balance = 1600000000000000, pa_nonce = 0\<rparr>]"
  by (simp add: expected_accounts_def alice_def bob_def carol_def)

lemma approved_snapshot_ok:
  assumes "pol_configs pol = approved_configs" "pol_tickets pol = demo_tickets"
    "pol_seeds pol = map pa_address expected_accounts"
  shows "snapshot_ok pol (approved_snapshot K)"
proof -
  have v: "si_validators (approved_snapshot K) = demo_validators"
    by (simp add: approved_snapshot_def initial_snapshot_def approved_configs_def initial_validator_def
        demo_validator_def)
  have t: "si_tickets (approved_snapshot K) = demo_tickets" "si_credits (approved_snapshot K) = []"
    "si_accounts (approved_snapshot K) = expected_accounts" "po_slot (si_position (approved_snapshot K)) = 0"
    "si_gas_used (approved_snapshot K) = 0" "si_fees_burned (approved_snapshot K) = 0"
    "si_base_issuance (approved_snapshot K) = 0"
    by (simp_all add: approved_snapshot_def initial_snapshot_def)
  have "sorted_snapshot (approved_snapshot K)"
    by (simp add: sorted_snapshot_def v t expected_accounts_sorted alice_def bob_def carol_def
        demo_validator_def ticket_active_def str_def)
  moreover have "supply_ok (approved_snapshot K)"
    by (simp add: supply_ok_def v t expected_accounts_sorted demo_validator_def INITIAL_VAULT_def)
  moreover have "check_identities pol (approved_snapshot K) = Inr ()"
    by (simp add: check_identities_def v t assms approved_configs_def demo_validator_def)
  moreover have "\<forall>v \<in> set demo_validators. vault_ok [] v"
    by (simp add: vault_ok_def credit_sum_def demo_validator_def checked_add_def INITIAL_VAULT_def)
  moreover have "distinct (map pa_address expected_accounts)"
    by (simp add: expected_accounts_sorted alice_def bob_def carol_def)
  ultimately show ?thesis
    using demo_valid assms
    by (simp add: snapshot_ok_def v t expected_accounts_sorted MAX_ACCOUNTS_def)
qed

lemma check_config_iff:
  "check_config C v i key owner = Inr u \<longleftrightarrow>
     v = \<lparr>vc_id = i, vc_public_key = key, vc_owner = owner, vc_reward = owner, vc_initial_vault = INITIAL_VAULT\<rparr> \<and>
     (\<exists>b. binding_new C i key = Inr b)"
  by (cases v) (auto simp: check_config_def try_res_Inr_iff split: if_splits)

lemma initial_ticket_iff:
  "initial_ticket t 1 owner \<longleftrightarrow> t = ticket_active 1 owner"
  "initial_ticket t 255 owner \<longleftrightarrow> t = ticket_active 255 owner"
  by (cases t; auto simp: initial_ticket_def ticket_active_def home_bucket_def)+

lemma length_two: "length xs = 2 \<longleftrightarrow> xs = [xs ! 0, xs ! 1]"
  by (cases xs rule: list.exhaust; cases "tl xs") (auto simp: Suc_length_conv numeral_2_eq_2)

text \<open>The published keys are accepted by the backend.\<close>

definition keys_bound :: "'k crypto \<Rightarrow> bool" where
  "keys_bound C \<longleftrightarrow> (\<exists>a b. binding_new C (str ''trial-A'') key_a = Inr a \<and> binding_new C (str ''trial-B'') key_b = Inr b)"

definition valid_label :: "text_bytes \<Rightarrow> bool" where
  "valid_label l \<longleftrightarrow> l \<noteq> [] \<and> length l \<le> 64 \<and> list_all label_byte l"

lemma length_concat_fixed:
  "(\<And>x. x \<in> set xs \<Longrightarrow> length (f x) = n) \<Longrightarrow> length (concat (map f xs)) = n * length xs"
  by (induction xs) auto

lemma key_lengths [simp]:
  "length key_a = 33" "length key_b = 33" "length alice = 20" "length bob = 20" "length carol = 20"
  by (simp_all add: key_a_def key_b_def alice_def bob_def carol_def)

lemma length_anchor:
  assumes "digest32 K"
  shows "header_wf (anchor K)" "length (header_bytes (anchor K)) = 229" "length (header_hash K (anchor K)) = 32"
  using assms length_header_bytes [of "anchor K"]
  by (simp_all add: anchor_def header_wf_def digest32_def proposer_id_def hash_with_domain_def
      EMPTY_TX_ROOT_def EMPTY_RECEIPTS_ROOT_def keccak256_def protocol_data_root_def header_hash_def
      BLOCK_HEADER_LEN_def)

lemma length_parameters: "length parameters = 269"
  by (simp add: parameters_def)

lemma length_approved_snapshot:
  assumes "digest32 K"
  shows "length (encode_snapshot (approved_snapshot K)) = 610"
  using length_anchor [OF assms]
  by (simp add: encode_snapshot_def approved_snapshot_def initial_snapshot_def expected_accounts_sorted
      approved_configs_def encode_account_def encode_validator_def initial_validator_def text_field_def
      optional_field_def encode_ticket_def ticket_active_def year_zero_encode_def)

lemma length_genesis_encode:
  assumes "digest32 K" "length run_id \<le> 64"
  shows "length (genesis_encode K run_id approved_configs (approved_snapshot K)) = 1341 + length run_id"
  using length_anchor [OF assms(1)] length_approved_snapshot [OF assms(1)] assms(2)
  by (simp add: genesis_encode_def GENESIS_DESCRIPTOR_def text_field_def length_parameters
      approved_configs_def encode_config_def Let_def)

lemma genesis_new_iff:
  assumes "digest32 (c_keccak C)"
  shows "genesis_new C input = Inr g \<longleftrightarrow>
     valid_label (gi_run_id input) \<and> keys_bound C \<and>
     sort_key pa_address (gi_accounts input) = expected_accounts \<and>
     sort_key vc_id (gi_validators input) = approved_configs \<and>
     sort_key tk_id (gi_tickets input) = demo_tickets \<and>
     g = approved_genesis (c_keccak C) (gi_run_id input)"
proof -
  let ?K = "c_keccak C" and ?l = "gi_run_id input"
  let ?a = "sort_key pa_address (gi_accounts input)" and ?c = "sort_key vc_id (gi_validators input)"
    and ?t = "sort_key tk_id (gi_tickets input)"
  define rows where "rows \<longleftrightarrow> ?a = expected_accounts \<and> ?c = approved_configs \<and> ?t = demo_tickets"
  have len: "length (gi_accounts input) = length ?a" "length (gi_validators input) = length ?c"
    "length (gi_tickets input) = length ?t" by simp_all
  have la: "length (gi_accounts input) = 3" if "?a = expected_accounts"
    using arg_cong [OF that, of length] by (simp add: expected_accounts_sorted)
  have rows: "rows \<and> keys_bound C \<longleftrightarrow> length (gi_accounts input) = 3 \<and> length (gi_validators input) = 2 \<and>
      length (gi_tickets input) = 2 \<and> ?a = expected_accounts \<and>
      check_config C (?c ! 0) (str ''trial-A'') key_a alice = Inr () \<and>
      check_config C (?c ! 1) (str ''trial-B'') key_b bob = Inr () \<and>
      initial_ticket (?t ! 0) 1 (str ''trial-A'') \<and> initial_ticket (?t ! 1) 255 (str ''trial-B'')"
    unfolding rows_def len check_config_iff initial_ticket_iff
    using length_two [of ?c] length_two [of ?t] la
    by (auto simp: approved_configs_def keys_bound_def)
  have step: "genesis_new C input = Inr g \<longleftrightarrow> g = approved_genesis ?K ?l"
    if l: "valid_label ?l" and r: "rows" "keys_bound C"
  proof -
    have ok: "snapshot_ok (approved_policy ?K ?l) (approved_snapshot ?K)"
      by (rule approved_snapshot_ok) (simp_all add: approved_policy_def)
    then have "sort_snapshot (approved_snapshot ?K) = approved_snapshot ?K"
      by (simp add: snapshot_ok_def sort_snapshot_id)
    with ok have ch: "checked ?K (approved_policy ?K ?l) (approved_snapshot ?K) =
        Inr (sealed ?K (approved_policy ?K ?l) (approved_snapshot ?K))"
      by (simp add: checked_Inr_iff)
    have "length (genesis_encode ?K ?l approved_configs (approved_snapshot ?K)) \<le> MAX_GENESIS_BYTES"
      using length_genesis_encode [OF assms, of ?l] l by (simp add: valid_label_def MAX_GENESIS_BYTES_def)
    with rows r l ch show ?thesis
      by (auto simp: genesis_new_def valid_label_def rows_def Let_def approved_genesis_def
          approved_policy_def [symmetric] approved_snapshot_def [symmetric])
  qed
  have "valid_label ?l \<and> rows \<and> keys_bound C" if "genesis_new C input = Inr g"
    using that unfolding rows valid_label_def genesis_new_def Let_def
    by (elim success_path) (simp add: check_config_iff [of _ _ _ _ _ "()"], blast?)
  with step show ?thesis unfolding rows_def by blast
qed

section \<open>The genesis codec\<close>

interpretation poash_reader: byte_reader poash_take
  by unfold_locales
    (auto simp: poash_take_def usize_checked_add_def slice_read_cur try_res_Inr_iff split: if_splits)

lemmas poash_take_prefix [codec_simps] = poash_reader.rd_prefix

lemma poash_word_prefix [codec_simps]:
  "length p + 2 < usize_limit \<Longrightarrow> poash_u16 (cur p (be_bytes a @ rest)) = Inr (a, cur (p @ be_bytes a) rest)"
  "length p + 4 < usize_limit \<Longrightarrow> poash_u32 (cur p (be_bytes b @ rest)) = Inr (b, cur (p @ be_bytes b) rest)"
  "length p + 8 < usize_limit \<Longrightarrow> poash_u64 (cur p (be_bytes c @ rest)) = Inr (c, cur (p @ be_bytes c) rest)"
  "length p + 16 < usize_limit \<Longrightarrow> poash_u128 (cur p (be_bytes e @ rest)) = Inr (e, cur (p @ be_bytes e) rest)"
  by (simp_all add: poash_u16_def poash_u32_def poash_u64_def poash_u128_def poash_take_prefix)

lemma poash_text_prefix [codec_simps]:
  assumes "length t \<le> bound" "utf8_valid t" "length t < 65536" "length p + length t + 2 < usize_limit"
  shows "poash_text bound (cur p (text_field t @ rest)) = Inr (t, cur (p @ text_field t) rest)"
proof -
  have "unat (of_nat (length t) :: u16) = length t"
    using assms(3) by (intro unat_of_nat_small) simp
  with assms show ?thesis
    by (simp add: poash_text_def text_field_def codec_simps)
qed

lemma length_text_field [simp]: "length (text_field t) = 2 + length t"
  by (simp add: text_field_def)

lemma read_config_prefix:
  assumes "length (vc_id v) \<le> 7" "utf8_valid (vc_id v)" "length (vc_public_key v) = 33"
    "length (vc_owner v) = 20" "length (vc_reward v) = 20" "length p < 100000"
  shows "read_config (cur p (encode_config v @ rest)) = Inr (v, cur (p @ encode_config v) rest)"
  using assms
  by (simp add: read_config_def encode_config_def codec_simps usize_limit_def)

lemma read_account_prefix:
  assumes "length (pa_address a) = 20" "length p < 100000"
  shows "read_account (cur p (encode_account a @ rest)) = Inr (a, cur (p @ encode_account a) rest)"
  using assms
  by (simp add: read_account_def encode_account_def codec_simps usize_limit_def)

lemma label_utf8: "list_all label_byte l \<Longrightarrow> utf8_valid l"
proof (induction l)
  case (Cons b l)
  then have "b < 0x80" by (auto simp: label_byte_def word_le_nat_alt word_less_nat_alt)
  with Cons show ?case by simp
qed simp

text \<open>The payload behind its account rows.\<close>

definition payload_tail :: "snapshot_input \<Rightarrow> bytes" where
  "payload_tail d =
     be_bytes (of_nat (length (si_validators d)) :: u16) @ concat (map encode_validator (si_validators d)) @
     be_bytes (of_nat (length (si_tickets d)) :: u16) @ concat (map encode_ticket (si_tickets d)) @
     be_bytes (of_nat (length (si_credits d)) :: u16) @ concat (map encode_credit (si_credits d)) @
     be_bytes (si_gas_used d) @
     concat (map be_bytes [si_fees_burned d, 2 * TICKET_COST, si_base_issuance d, 0, 0, 0, 0]) @
     replicate 24 0 @ year_zero_encode year_zero_approved"

lemma approved_payload:
  "encode_snapshot (approved_snapshot K) = be_bytes (1 :: u32) @
     (be_bytes (0 :: u64) @ header_hash K (anchor K)) @ be_bytes (3 :: u32) @
     concat (map encode_account expected_accounts) @ payload_tail (approved_snapshot K)"
  by (simp add: encode_snapshot_def payload_tail_def approved_snapshot_def initial_snapshot_def
      expected_accounts_sorted)

lemma read_payload_accounts:
  assumes "length p < 1000"
  shows "read_many read_account 3 (cur p (concat (map encode_account expected_accounts) @ rest)) =
     Inr (expected_accounts, cur (p @ concat (map encode_account expected_accounts)) rest)"
proof -
  obtain x y z where e: "expected_accounts = [x, y, z]"
    and a: "length (pa_address x) = 20" "length (pa_address y) = 20" "length (pa_address z) = 20"
    by (simp add: expected_accounts_sorted)
  have l: "length (encode_account x) = 44" "length (encode_account y) = 44"
    using a by (simp_all add: encode_account_def)
  show ?thesis
    using assms a l by (simp add: e numeral_3_eq_3 read_account_prefix)
qed

lemma read_approved_configs:
  assumes "length p < 1000"
  shows "read_many read_config 2 (cur p (concat (map encode_config approved_configs) @ rest)) =
     Inr (approved_configs, cur (p @ concat (map encode_config approved_configs)) rest)"
proof -
  obtain v w where vw: "approved_configs = [v, w]"
    and wf: "length (vc_id v) = 7" "utf8_valid (vc_id v)" "length (vc_public_key v) = 33"
    "length (vc_owner v) = 20" "length (vc_reward v) = 20"
    "length (vc_id w) = 7" "utf8_valid (vc_id w)" "length (vc_public_key w) = 33"
    "length (vc_owner w) = 20" "length (vc_reward w) = 20"
    by (simp add: approved_configs_def str_def)
  have l: "length (encode_config v) = 98" using wf by (simp add: encode_config_def)
  show ?thesis
    using assms wf l by (simp add: vw numeral_2_eq_2 read_config_prefix)
qed

lemma genesis_dec_enc:
  assumes K: "digest32 (c_keccak C)" and l: "valid_label l" and keys: "keys_bound C"
  shows "genesis_from_bytes C (ge_bytes (approved_genesis (c_keccak C) l)) = Inr (approved_genesis (c_keccak C) l)"
proof -
  let ?K = "c_keccak C" and ?g = "approved_genesis (c_keccak C) l"
  let ?payload = "encode_snapshot (approved_snapshot ?K)"
  have bs: "ge_bytes ?g = GENESIS_DESCRIPTOR @ be_bytes (1 :: u32) @ text_field l @ parameters @
     header_bytes (anchor ?K) @ be_bytes (2 :: u16) @ concat (map encode_config approved_configs) @
     be_bytes (610 :: u32) @ ?payload"
    using length_approved_snapshot [OF K] by (simp add: approved_genesis_def genesis_encode_def Let_def)
  have lens: "length GENESIS_DESCRIPTOR = 25" "length (header_bytes (anchor ?K)) = 229" "length l \<le> 64"
    "utf8_valid l" "length (concat (map encode_config approved_configs)) = 196" "length ?payload = 610"
    "length (header_hash ?K (anchor ?K)) = 32"
    using l length_anchor [OF K] length_approved_snapshot [OF K] label_utf8 [of l]
    by (simp_all add: GENESIS_DESCRIPTOR_def valid_label_def approved_configs_def encode_config_def str_def)
  have pay: "poash_u32 (cur [] ?payload) = Inr (1, cur (be_bytes (1 :: u32)) ((be_bytes (0 :: u64) @
      header_hash ?K (anchor ?K)) @ be_bytes (3 :: u32) @ concat (map encode_account expected_accounts) @
      payload_tail (approved_snapshot ?K)))"
    unfolding approved_payload using poash_word_prefix(2) [of "[]" 1] by (simp add: usize_limit_def)
  have mid: "poash_take 40 (cur (be_bytes (1 :: u32)) ((be_bytes (0 :: u64) @ header_hash ?K (anchor ?K)) @ rest)) =
      Inr (be_bytes (0 :: u64) @ header_hash ?K (anchor ?K),
        cur (be_bytes (1 :: u32) @ be_bytes (0 :: u64) @ header_hash ?K (anchor ?K)) rest)" for rest
    using poash_take_prefix [of "be_bytes (0 :: u64) @ header_hash ?K (anchor ?K)" 40] lens
    by (simp add: usize_limit_def)
  have new: "genesis_new C \<lparr>gi_run_id = l, gi_accounts = expected_accounts, gi_validators = approved_configs,
      gi_tickets = demo_tickets\<rparr> = Inr ?g"
    using l keys by (simp add: genesis_new_iff [OF K] expected_accounts_sorted approved_configs_def
        alice_def bob_def carol_def str_def ticket_active_def)
  show ?thesis
    unfolding genesis_from_bytes_def start_cursor_cur
    using lens pay mid new
    by (simp add: bs codec_simps usize_limit_def length_parameters read_approved_configs read_payload_accounts
        MAX_GENESIS_BYTES_def poash_reader.rd_all)
qed

section \<open>Properties\<close>

text \<open>A backend that accepts the published keys, for the witnesses.\<close>

lemma demo_keys: "keys_bound demo_crypto"
proof -
  have "binding_new (demo_crypto :: bytes crypto) (str ''trial-A'') key_a = Inr \<lparr>pb_producer_id = str ''trial-A'', pb_public_key = key_a\<rparr>"
    "binding_new (demo_crypto :: bytes crypto) (str ''trial-B'') key_b = Inr \<lparr>pb_producer_id = str ''trial-B'', pb_public_key = key_b\<rparr>"
    by (simp_all add: binding_new_def demo_crypto_def str_def MAX_PROPOSER_BYTES_def) (simp_all add: key_a_def key_b_def)
  then show ?thesis by (auto simp: keys_bound_def)
qed

text \<open>A snapshot is accepted exactly when, once its rows are sorted, it satisfies the invariants of
  the closed experiment in exact arithmetic: bounds, distinct addresses, eligibility, fixed
  identities, gas and fees tied to the nonces, base issuance and production tied to the slot, the sum
  of all balances and vaults equal to the initial supply plus issuance minus burned fees, one
  earning credit per slot reconciled with every vault, and the initial accounts present. What is
  returned is the sorted snapshot with its encoding and network-scoped identifier.\<close>

theorem checked_accepts_iff:
  "checked K pol input = Inr cs \<longleftrightarrow>
     snapshot_ok pol (sort_snapshot input) \<and> cs = sealed K pol (sort_snapshot input)"
  by (rule checked_Inr_iff)

text \<open>The closed genesis leaves only its label free: \<open>genesis_new\<close> succeeds exactly on a valid
  label with the published accounts, validators and tickets in any order (and keys the backend
  accepts), and its result, bytes, network identifier and initial state included, is determined by
  the label.\<close>

theorem genesis_new_accepts_iff:
  assumes "digest32 (c_keccak C)"
  shows "genesis_new C input = Inr g \<longleftrightarrow>
     valid_label (gi_run_id input) \<and> keys_bound C \<and>
     sort_key pa_address (gi_accounts input) = expected_accounts \<and>
     sort_key vc_id (gi_validators input) = approved_configs \<and>
     sort_key tk_id (gi_tickets input) = demo_tickets \<and>
     g = approved_genesis (c_keccak C) (gi_run_id input)"
  by (rule genesis_new_iff [OF assms])

lemma demo_genesis_rows:
  "sort_key pa_address expected_accounts = expected_accounts"
  "sort_key vc_id (rev approved_configs) = approved_configs"
  "sort_key tk_id (rev demo_tickets) = demo_tickets"
  by (simp_all add: expected_accounts_sorted approved_configs_def alice_def bob_def carol_def str_def ticket_active_def)
    (simp add: word_le_nat_alt)

theorem genesis_new_accepts_iff_witness:
  "genesis_new demo_crypto \<lparr>gi_run_id = [65], gi_accounts = expected_accounts,
     gi_validators = rev approved_configs, gi_tickets = rev demo_tickets\<rparr> =
   Inr (approved_genesis (c_keccak demo_crypto) [65])"
  unfolding genesis_new_accepts_iff [OF demo_digest32]
  using demo_keys demo_genesis_rows by (simp add: valid_label_def label_byte_def del: rev.simps)

text \<open>The genesis descriptor is canonical: decoding accepts exactly the bytes that some
  initialization produces, and returns that very genesis; no reordering, truncation or trailing byte
  is normalized into a network identity.\<close>

theorem genesis_codec_canonical:
  assumes "digest32 (c_keccak C)"
  shows "genesis_from_bytes C bs = Inr g \<longleftrightarrow> (\<exists>input. genesis_new C input = Inr g \<and> ge_bytes g = bs)"
proof
  assume "genesis_from_bytes C bs = Inr g"
  then show "\<exists>input. genesis_new C input = Inr g \<and> ge_bytes g = bs"
    unfolding genesis_from_bytes_def by (elim success_path) auto
next
  assume "\<exists>input. genesis_new C input = Inr g \<and> ge_bytes g = bs"
  then obtain input where "genesis_new C input = Inr g" "ge_bytes g = bs" by blast
  with genesis_dec_enc [OF assms] show "genesis_from_bytes C bs = Inr g"
    by (auto simp: genesis_new_iff [OF assms])
qed

theorem genesis_codec_canonical_witness:
  "genesis_from_bytes demo_crypto (ge_bytes (approved_genesis (c_keccak demo_crypto) [65])) =
     Inr (approved_genesis (c_keccak demo_crypto) [65])"
proof -
  have "genesis_new demo_crypto \<lparr>gi_run_id = [65], gi_accounts = expected_accounts,
     gi_validators = rev approved_configs, gi_tickets = rev demo_tickets\<rparr> =
     Inr (approved_genesis (c_keccak demo_crypto) [65])"
    unfolding genesis_new_iff [OF demo_digest32]
    using demo_keys demo_genesis_rows by (simp add: valid_label_def label_byte_def del: rev.simps)
  then show ?thesis
    unfolding genesis_codec_canonical [OF demo_digest32] by blast
qed

end
