(* ===== verification/Poash_History.thy ===== *)
theory Poash_History
  imports Poash_State
begin

text \<open>
  \<open>src/src/native_poash/history.rs\<close> (linked header prefixes and slot-start views) and
  \<open>src/src/native_poash/admission.rs\<close> (header claims, producer attribution and eligibility plans).
\<close>

section \<open>Header claims\<close>

record header_claim =
  hc_header :: block_header
  hc_producer :: text_bytes
  hc_count :: u16

definition header_claim_new ::
  "hasher \<Rightarrow> block_header \<Rightarrow> text_bytes \<Rightarrow> u16 \<Rightarrow> poash_error + header_claim" where
  "header_claim_new K h producer entries =
     (if bh_protocol_version h \<noteq> HEADER_PROFILE \<or> bh_chain_id h \<noteq> CHAIN_ID \<or> bh_block_kind h \<noteq> Validator
        then Inl (PProfile ''C1 header interpretation'')
      else if \<not> (1 \<le> bh_slot h \<and> bh_slot h \<le> MAX_SLOTS) \<or> (ucast entries :: u64) > MAX_ENTRIES
        then Inl ExperimentLimit
      else if producer \<notin> {str ''trial-A'', str ''trial-B''} \<or> bh_proposer_id h \<noteq> proposer_id K producer
        then Inl UnknownProducer
      else if bh_ticket_id h = 0 \<or> bh_state_root h \<noteq> replicate 32 0 \<or>
              bh_receipts_root h \<noteq> EMPTY_RECEIPTS_ROOT K
        then Inl (PProfile ''C1 ticket/reserved roots'')
      else if bh_gas_used h \<noteq> ucast entries * 1000 \<or>
              bh_protocol_data_root h \<noteq> protocol_data_root K
                \<lparr>pd_missed_proposer = None, pd_fees_burned = ucast entries * 10000\<rparr>
        then Inl (PProfile ''C1 gas/fee claim'')
      else if entries = 0 \<and> bh_transaction_root h \<noteq> EMPTY_TX_ROOT K
        then Inl (PProfile ''empty transaction root'')
      else Inr \<lparr>hc_header = h, hc_producer = producer, hc_count = entries\<rparr>)"

definition claim_hash :: "hasher \<Rightarrow> header_claim \<Rightarrow> hash" where
  "claim_hash K c = header_hash K (hc_header c)"

definition claim_signing_preimage :: "hasher \<Rightarrow> header_claim \<Rightarrow> hash \<Rightarrow> bytes" where
  "claim_signing_preimage K c network =
     (let p = replicate 102 0;
          p = copy_at 0 BLOCK_SIGNING_DOMAIN p;
          p = copy_at 20 [OUTER_WIRE] p;
          p = copy_at 21 [AUTH_ENCODING] p;
          p = copy_at 22 (be_bytes AUTH_RULES) p;
          p = copy_at 26 (be_bytes (bh_chain_id (hc_header c))) p;
          p = copy_at 34 network p;
          p = copy_at 66 (be_bytes (bh_protocol_version (hc_header c))) p;
          p = copy_at 70 (claim_hash K c) p
      in p)"

definition claim_signing_digest :: "hasher \<Rightarrow> header_claim \<Rightarrow> hash \<Rightarrow> hash" where
  "claim_signing_digest K c network = keccak256 K (claim_signing_preimage K c network)"

record authenticated_header =
  ah_claim :: header_claim
  ah_network :: hash
  ah_signature :: native_signature
  ah_digest :: hash
  ah_key :: bytes

definition claim_authenticate ::
  "'k crypto \<Rightarrow> header_claim \<Rightarrow> genesis \<Rightarrow> hash \<Rightarrow> bytes \<Rightarrow> poash_error + authenticated_header" where
  "claim_authenticate C c g network_claim bs =
     (if network_claim \<noteq> pol_network (ge_policy g) then Inl (PContext ''candidate network'')
      else try_res (ok_or UnknownProducer (find (\<lambda>v. vc_id v = hc_producer c) (pol_configs (ge_policy g)))) (\<lambda>binding.
      try_res (map_err PSignature (signature_from_bytes C bs)) (\<lambda>signature.
      let digest = claim_signing_digest (c_keccak C) c (pol_network (ge_policy g)) in
      try_res (map_err PSignature (recover_public_key C signature digest)) (\<lambda>key.
      if c_to_encoded_point C key True \<noteq> vc_public_key binding then Inl PKeyMismatch
      else Inr \<lparr>ah_claim = c, ah_network = pol_network (ge_policy g), ah_signature = signature,
                ah_digest = digest, ah_key = vc_public_key binding\<rparr>))))"

section \<open>Prefixes\<close>

record historical_header =
  hh_header :: block_header
  hh_hash :: hash

definition historical_header_new :: "hasher \<Rightarrow> block_header \<Rightarrow> hash \<Rightarrow> poash_error + historical_header" where
  "historical_header_new K h claimed =
     (if bh_protocol_version h \<noteq> HEADER_PROFILE \<or> bh_chain_id h \<noteq> CHAIN_ID \<or> bh_block_kind h \<noteq> Validator
        then Inl (PProfile ''historical header'')
      else if bh_slot h > MAX_SLOTS then Inl ExperimentLimit
      else if header_hash K h \<noteq> claimed then Inl (PContext ''historical claimed H'')
      else Inr \<lparr>hh_header = h, hh_hash = claimed\<rparr>)"

record prefix_context =
  pc_genesis :: genesis
  pc_headers :: "historical_header list"
  pc_state :: closed_state
  pc_id :: hash

text \<open>The running totals of the scan: headers per validator, gas and fees.\<close>

record prefix_totals =
  pt_counts :: "u64 list"
  pt_gas :: u64
  pt_fees :: u128

fun position_of :: "('a \<Rightarrow> bool) \<Rightarrow> 'a list \<Rightarrow> nat option" where
  "position_of P [] = None"
| "position_of P (x # xs) = (if P x then Some 0 else map_option Suc (position_of P xs))"

definition check_successor ::
  "hasher \<Rightarrow> genesis \<Rightarrow> historical_header \<Rightarrow> reward_credit \<Rightarrow> u64 \<Rightarrow> historical_header \<Rightarrow> prefix_totals \<Rightarrow>
   poash_error + prefix_totals" where
  "check_successor K g prev credit slot h acc =
     (if bh_parent_hash (hh_header h) \<noteq> hh_hash prev then Inl (PContext ''historical parent link'')
      else let configs = pol_configs (ge_policy g) in
      try_res (ok_or UnknownProducer
          (position_of (\<lambda>v. proposer_id K (vc_id v) = bh_proposer_id (hh_header h)) configs)) (\<lambda>i.
      let count = bh_gas_used (hh_header h) div 1000; producer = vc_id (configs ! i) in
      if \<not> (\<exists>t \<in> set (pol_tickets (ge_policy g)). tk_id t = bh_ticket_id (hh_header h) \<and> tk_owner t = producer)
        then Inl (PContext ''historical closed ticket association'')
      else try_res (ok_or POverflow (try_from_nat (unat count))) (\<lambda>n.
      try_res (header_claim_new K (hh_header h) producer n) (\<lambda>_.
      try_res (ok_or POverflow (checked_add (pt_gas acc) (bh_gas_used (hh_header h)))) (\<lambda>gas.
      try_res (ok_or POverflow (checked_add (pt_fees acc) (ucast count * 10000))) (\<lambda>fees.
      if rc_slot credit \<noteq> slot \<or> rc_validator credit \<noteq> producer then Inl (PContext ''earning event/header'')
      else Inr \<lparr>pt_counts = (pt_counts acc)[i := pt_counts acc ! i + 1], pt_gas = gas, pt_fees = fees\<rparr>))))))"

definition check_slot ::
  "hasher \<Rightarrow> genesis \<Rightarrow> historical_header list \<Rightarrow> reward_credit list \<Rightarrow> nat \<Rightarrow> prefix_totals \<Rightarrow>
   poash_error + prefix_totals" where
  "check_slot K g headers credits slot acc =
     (if slot \<ge> length headers then Inl (MissingHistory (of_nat slot))
      else let h = headers ! slot in
      if bh_slot (hh_header h) \<noteq> of_nat slot then Inl (MissingHistory (of_nat slot))
      else if slot = 0 then
        (if hh_header h \<noteq> pol_anchor (ge_policy g) then Inl (PContext ''independent anchor'') else Inr acc)
      else check_successor K g (headers ! (slot - 1)) (credits ! (slot - 1)) (of_nat slot) h acc)"

fun check_slots ::
  "hasher \<Rightarrow> genesis \<Rightarrow> historical_header list \<Rightarrow> reward_credit list \<Rightarrow> nat list \<Rightarrow> prefix_totals \<Rightarrow>
   poash_error + prefix_totals" where
  "check_slots K g headers credits [] acc = Inr acc"
| "check_slots K g headers credits (s # ss) acc =
     try_res (check_slot K g headers credits s acc) (\<lambda>acc. check_slots K g headers credits ss acc)"

definition prefix_id :: "hasher \<Rightarrow> genesis \<Rightarrow> historical_header list \<Rightarrow> hash" where
  "prefix_id K g headers = hash_with_domain K (str ''ETERNIX_POASH_C1_PREFIX'' @ [0])
     (pol_network (ge_policy g) @ be_bytes (of_nat (length headers) :: u16) @
      concat (map (\<lambda>h. header_bytes (hh_header h)) headers))"

definition from_trusted_history ::
  "hasher \<Rightarrow> genesis \<Rightarrow> historical_header list \<Rightarrow> closed_state \<Rightarrow> poash_error + prefix_context" where
  "from_trusted_history K g headers st =
     (if length headers > unat MAX_SLOTS + 1 then Inl ExperimentLimit
      else if cs_policy st \<noteq> ge_policy g then Inl (PContext ''snapshot genesis'')
      else let parent = si_position (cs_data st) in
      try_res (check_slots K g headers (si_credits (cs_data st)) [0..<Suc (unat (po_slot parent))]
          \<lparr>pt_counts = [0, 0], pt_gas = 0, pt_fees = 0\<rparr>) (\<lambda>acc.
      if length headers \<noteq> unat (po_slot parent) + 1 then Inl (PContext ''extra historical headers'')
      else if (if headers = [] then None else Some (hh_hash (last headers))) \<noteq> Some (po_hash parent)
        then Inl (PContext ''post-parent position'')
      else if po_slot parent = 0 \<and> st \<noteq> ge_initial g then Inl (PContext ''initial snapshot differs'')
      else if pt_gas acc \<noteq> si_gas_used (cs_data st) \<or> pt_fees acc \<noteq> si_fees_burned (cs_data st) \<or>
              (\<exists>(n, v) \<in> set (zip (pt_counts acc) (si_validators (cs_data st))). n \<noteq> va_produced v)
        then Inl (PContext ''prefix/snapshot accounting'')
      else Inr \<lparr>pc_genesis = g, pc_headers = headers, pc_state = st, pc_id = prefix_id K g headers\<rparr>))"

definition prefix_initial :: "hasher \<Rightarrow> genesis \<Rightarrow> poash_error + prefix_context" where
  "prefix_initial K g =
     try_res (historical_header_new K (pol_anchor (ge_policy g)) (header_hash K (pol_anchor (ge_policy g)))) (\<lambda>h.
     from_trusted_history K g [h] (ge_initial g))"

definition historical_hash :: "prefix_context \<Rightarrow> u64 \<Rightarrow> poash_error + hash" where
  "historical_hash pc slot =
     (if unat slot < length (pc_headers pc) \<and> bh_slot (hh_header (pc_headers pc ! unat slot)) = slot
      then Inr (hh_hash (pc_headers pc ! unat slot)) else Inl (MissingHistory slot))"

section \<open>Slot-start views and plans\<close>

record slot_start_view =
  sv_prefix :: prefix_context
  sv_slot :: u64
  sv_reference :: hash
  sv_id :: hash

definition slot_start :: "hasher \<Rightarrow> prefix_context \<Rightarrow> poash_error + slot_start_view" where
  "slot_start K pc =
     try_res (ok_or POverflow (checked_add (po_slot (si_position (cs_data (pc_state pc)))) 1)) (\<lambda>slot.
     if slot > MAX_SLOTS then Inl ExperimentLimit
     else try_res (if slot < LOOKBACK then Inr (pol_network (ge_policy (pc_genesis pc)))
                   else historical_hash pc (slot - LOOKBACK)) (\<lambda>reference.
     Inr \<lparr>sv_prefix = pc, sv_slot = slot, sv_reference = reference,
          sv_id = hash_with_domain K (str ''ETERNIX_POASH_C1_SLOT_START'' @ [0])
            (pol_network (ge_policy (pc_genesis pc)) @ pc_id pc @ cs_id (pc_state pc) @ be_bytes slot @
             po_hash (si_position (cs_data (pc_state pc))) @ reference)\<rparr>))"

abbreviation sv_state :: "slot_start_view \<Rightarrow> closed_state" where
  "sv_state view \<equiv> pc_state (sv_prefix view)"

abbreviation sv_parent :: "slot_start_view \<Rightarrow> position" where
  "sv_parent view \<equiv> si_position (cs_data (sv_state view))"

abbreviation sv_genesis :: "slot_start_view \<Rightarrow> genesis" where
  "sv_genesis view \<equiv> pc_genesis (sv_prefix view)"

definition view_select :: "hasher \<Rightarrow> slot_start_view \<Rightarrow> poash_error + selection" where
  "view_select K view = select_inputs K (sv_reference view) (sv_slot view)
     (si_validators (cs_data (sv_state view))) (si_tickets (cs_data (sv_state view)))"

record admission_plan =
  ap_view :: slot_start_view
  ap_proof :: authenticated_header
  ap_selection :: selection

definition view_plan :: "hasher \<Rightarrow> slot_start_view \<Rightarrow> authenticated_header \<Rightarrow> poash_error + admission_plan" where
  "view_plan K view proof =
     (if ah_network proof \<noteq> pol_network (ge_policy (sv_genesis view)) then Inl (PContext ''proof genesis'')
      else let h = hc_header (ah_claim proof) in
      if bh_slot h \<noteq> sv_slot view \<or> bh_parent_hash h \<noteq> po_hash (sv_parent view)
        then Inl (PContext ''planned slot/parent'')
      else try_res (view_select K view) (\<lambda>sel.
      if hc_producer (ah_claim proof) \<noteq> sl_owner sel \<or> bh_ticket_id h \<noteq> sl_ticket sel then Inl NotSelected
      else Inr \<lparr>ap_view = view, ap_proof = proof, ap_selection = sel\<rparr>))"

definition plan_check :: "admission_plan \<Rightarrow> slot_start_view \<Rightarrow> authenticated_header \<Rightarrow> poash_error + unit" where
  "plan_check p view proof =
     (if sv_id (ap_view p) \<noteq> sv_id view \<or> ap_proof p \<noteq> proof then Inl PlanMismatch else Inr ())"

section \<open>The scan\<close>

lemma check_slots_append:
  "check_slots K g hs cs (ss @ ts) acc =
     try_res (check_slots K g hs cs ss acc) (\<lambda>acc'. check_slots K g hs cs ts acc')"
  by (induction ss arbitrary: acc) (auto simp: try_res_def split: sum.splits)

text \<open>Earlier slots do not see later headers or credits.\<close>

lemma check_slots_extend:
  assumes "\<forall>s \<in> set ss. s < length hs \<and> s \<le> length cs"
  shows "check_slots K g (hs @ hs') (cs @ cs') ss acc = check_slots K g hs cs ss acc"
  using assms
proof (induction ss arbitrary: acc)
  case (Cons s ss)
  then have "check_slot K g (hs @ hs') (cs @ cs') s acc = check_slot K g hs cs s acc"
    by (cases s) (auto simp: check_slot_def nth_append Let_def)
  with Cons show ?case by (simp add: try_res_def split: sum.splits)
qed simp

text \<open>What the scan has established about every header it passed.\<close>

definition linked :: "hasher \<Rightarrow> genesis \<Rightarrow> historical_header list \<Rightarrow> reward_credit list \<Rightarrow> nat \<Rightarrow> bool" where
  "linked K g hs cs s \<longleftrightarrow> s < length hs \<and> bh_slot (hh_header (hs ! s)) = of_nat s \<and>
     (s = 0 \<longrightarrow> hh_header (hs ! 0) = pol_anchor (ge_policy g)) \<and>
     (0 < s \<longrightarrow> bh_parent_hash (hh_header (hs ! s)) = hh_hash (hs ! (s - 1)) \<and>
        rc_slot (cs ! (s - 1)) = of_nat s \<and>
        (\<exists>n. header_claim_new K (hh_header (hs ! s)) (rc_validator (cs ! (s - 1))) n =
           Inr \<lparr>hc_header = hh_header (hs ! s), hc_producer = rc_validator (cs ! (s - 1)), hc_count = n\<rparr>) \<and>
        (\<exists>t \<in> set (pol_tickets (ge_policy g)). tk_id t = bh_ticket_id (hh_header (hs ! s)) \<and>
           tk_owner t = rc_validator (cs ! (s - 1))))"

lemma header_claim_new_Inr:
  "header_claim_new K h p n = Inr c \<Longrightarrow> c = \<lparr>hc_header = h, hc_producer = p, hc_count = n\<rparr>"
  by (auto simp: header_claim_new_def split: if_splits)

lemma check_slot_linked:
  assumes "check_slot K g hs cs s acc = Inr acc'"
  shows "linked K g hs cs s \<and> length (pt_counts acc') = length (pt_counts acc)"
proof (cases "s = 0")
  case True
  with assms show ?thesis
    by (auto simp: check_slot_def linked_def Let_def split: if_splits)
next
  case False
  with assms have s: "s < length hs" "bh_slot (hh_header (hs ! s)) = of_nat s"
    and c: "check_successor K g (hs ! (s - 1)) (cs ! (s - 1)) (of_nat s) (hs ! s) acc = Inr acc'"
    by (auto simp: check_slot_def Let_def split: if_splits)
  from c obtain i where
    p: "bh_parent_hash (hh_header (hs ! s)) = hh_hash (hs ! (s - 1))"
    and i: "position_of (\<lambda>v. proposer_id K (vc_id v) = bh_proposer_id (hh_header (hs ! s)))
      (pol_configs (ge_policy g)) = Some i"
    by (auto simp: check_successor_def Let_def try_res_Inr_iff split: if_splits)
  with c obtain n cl where
    t: "\<exists>t \<in> set (pol_tickets (ge_policy g)). tk_id t = bh_ticket_id (hh_header (hs ! s)) \<and>
       tk_owner t = vc_id (pol_configs (ge_policy g) ! i)"
    and cl: "header_claim_new K (hh_header (hs ! s)) (vc_id (pol_configs (ge_policy g) ! i)) n = Inr cl"
    and cr: "rc_slot (cs ! (s - 1)) = of_nat s" "rc_validator (cs ! (s - 1)) = vc_id (pol_configs (ge_policy g) ! i)"
    and len: "length (pt_counts acc') = length (pt_counts acc)"
    by (auto simp: check_successor_def Let_def try_res_Inr_iff split: if_splits)
  from header_claim_new_Inr [OF cl] cl cr(2)
  have "header_claim_new K (hh_header (hs ! s)) (rc_validator (cs ! (s - 1))) n =
      Inr \<lparr>hc_header = hh_header (hs ! s), hc_producer = rc_validator (cs ! (s - 1)), hc_count = n\<rparr>"
    by simp
  with False s p t cr len show ?thesis unfolding linked_def by auto
qed

lemma check_slots_linked:
  assumes "check_slots K g hs cs ss acc = Inr acc'"
  shows "(\<forall>s \<in> set ss. linked K g hs cs s) \<and> length (pt_counts acc') = length (pt_counts acc)"
  using assms
proof (induction ss arbitrary: acc)
  case (Cons s ss)
  then obtain acc1 where "check_slot K g hs cs s acc = Inr acc1" "check_slots K g hs cs ss acc1 = Inr acc'"
    by (auto simp: try_res_Inr_iff)
  with check_slot_linked [of K g hs cs s acc acc1] Cons.IH [of acc1] show ?case by auto
qed simp

section \<open>Accepted prefixes\<close>

abbreviation state_slot :: "closed_state \<Rightarrow> nat" where
  "state_slot st \<equiv> unat (po_slot (si_position (cs_data st)))"

abbreviation no_totals :: prefix_totals where
  "no_totals \<equiv> \<lparr>pt_counts = [0, 0], pt_gas = 0, pt_fees = 0\<rparr>"

lemma from_trusted_history_Inr_iff:
  "from_trusted_history K g hs st = Inr pc \<longleftrightarrow>
     length hs \<le> unat MAX_SLOTS + 1 \<and> cs_policy st = ge_policy g \<and> length hs = state_slot st + 1 \<and>
     hh_hash (last hs) = po_hash (si_position (cs_data st)) \<and>
     (po_slot (si_position (cs_data st)) = 0 \<longrightarrow> st = ge_initial g) \<and>
     (\<exists>acc. check_slots K g hs (si_credits (cs_data st)) [0..<Suc (state_slot st)] no_totals = Inr acc \<and>
        pt_gas acc = si_gas_used (cs_data st) \<and> pt_fees acc = si_fees_burned (cs_data st) \<and>
        (\<forall>(n, v) \<in> set (zip (pt_counts acc) (si_validators (cs_data st))). n = va_produced v)) \<and>
     pc = \<lparr>pc_genesis = g, pc_headers = hs, pc_state = st, pc_id = prefix_id K g hs\<rparr>"
  by (auto simp: from_trusted_history_def Let_def try_res_Inr_iff not_less simp del: upt_Suc
      split: if_splits)

text \<open>Gas and fees of a scan, in exact arithmetic.\<close>

abbreviation scan_gas :: "historical_header list \<Rightarrow> nat list \<Rightarrow> nat" where
  "scan_gas hs ss \<equiv> (\<Sum>s\<leftarrow>ss. if s = 0 then 0 else unat (bh_gas_used (hh_header (hs ! s))))"

lemma header_claim_new_gas:
  assumes "header_claim_new K h p n = Inr c"
  shows "unat (bh_gas_used h) = 1000 * unat n" "unat n \<le> 16"
proof -
  from assms have g: "bh_gas_used h = ucast n * 1000" and n: "\<not> (ucast n :: u64) > MAX_ENTRIES"
    by (auto simp: header_claim_new_def split: if_splits)
  have u: "unat (ucast n :: u64) = unat n"
    using unat_bound [of n] by (simp add: unsigned_ucast_eq take_bit_eq_mod)
  with n show "unat n \<le> 16" by (simp add: MAX_ENTRIES_def word_less_nat_alt not_less)
  with u g show "unat (bh_gas_used h) = 1000 * unat n"
    by (simp add: unat_word_ariths(2))
qed

lemma check_slot_gas:
  assumes "check_slot K g hs cs s acc = Inr acc'"
  shows "unat (pt_gas acc') = unat (pt_gas acc) + scan_gas hs [s] \<and>
     unat (pt_fees acc') = unat (pt_fees acc) + 10 * scan_gas hs [s]"
proof (cases "s = 0")
  case True
  with assms show ?thesis by (auto simp: check_slot_def Let_def split: if_splits)
next
  case False
  let ?h = "hh_header (hs ! s)"
  from assms False obtain p n cl where
    cl: "header_claim_new K ?h p n = Inr cl"
    and g: "checked_add (pt_gas acc) (bh_gas_used ?h) = Some (pt_gas acc')"
    and f: "checked_add (pt_fees acc) (ucast (bh_gas_used ?h div 1000) * 10000) = Some (pt_fees acc')"
    by (auto simp: check_slot_def check_successor_def Let_def try_res_Inr_iff split: if_splits)
  have n: "unat (bh_gas_used ?h) = 1000 * unat n" "unat n \<le> 16"
    using header_claim_new_gas [OF cl] by simp_all
  then have "unat (ucast (bh_gas_used ?h div 1000) * 10000 :: u128) = 10 * unat (bh_gas_used ?h)"
    by (simp add: unat_word_ariths(2) unat_ucast_up unat_div)
  with g f False show ?thesis by (simp add: checked_add_unat_iff)
qed

lemma check_slots_gas:
  assumes "check_slots K g hs cs ss acc = Inr acc'"
  shows "unat (pt_gas acc') = unat (pt_gas acc) + scan_gas hs ss \<and>
     unat (pt_fees acc') = unat (pt_fees acc) + 10 * scan_gas hs ss"
  using assms
proof (induction ss arbitrary: acc)
  case (Cons s ss)
  then obtain acc1 where "check_slot K g hs cs s acc = Inr acc1" "check_slots K g hs cs ss acc1 = Inr acc'"
    by (auto simp: try_res_Inr_iff)
  with check_slot_gas [of K g hs cs s acc acc1] Cons.IH [of acc1] show ?case by auto
qed simp

lemma prefix_slot_bound:
  "from_trusted_history K g hs st = Inr pc \<Longrightarrow> state_slot st \<le> 200"
  by (auto simp: from_trusted_history_Inr_iff MAX_SLOTS_def)

lemma prefix_linked:
  assumes "from_trusted_history K g hs st = Inr pc" "s \<le> state_slot st"
  shows "linked K g hs (si_credits (cs_data st)) s"
  using assms check_slots_linked
  by (fastforce simp: from_trusted_history_Inr_iff simp del: upt_Suc)

lemma historical_hash_linked:
  assumes "from_trusted_history K g hs st = Inr pc" "unat slot \<le> state_slot st"
  shows "historical_hash pc slot = Inr (hh_hash (hs ! unat slot))"
proof -
  have "pc_headers pc = hs" using assms(1) by (simp add: from_trusted_history_Inr_iff)
  with prefix_linked [OF assms] show ?thesis
    by (simp add: historical_hash_def linked_def)
qed

text \<open>The view of the next slot.\<close>

definition next_view :: "hasher \<Rightarrow> prefix_context \<Rightarrow> slot_start_view" where
  "next_view K pc =
     (let st = pc_state pc; slot = po_slot (si_position (cs_data st)) + 1;
          reference = (if state_slot st < 31 then pol_network (ge_policy (pc_genesis pc))
                       else hh_hash (pc_headers pc ! (state_slot st - 31))) in
      \<lparr>sv_prefix = pc, sv_slot = slot, sv_reference = reference,
       sv_id = hash_with_domain K (str ''ETERNIX_POASH_C1_SLOT_START'' @ [0])
            (pol_network (ge_policy (pc_genesis pc)) @ pc_id pc @ cs_id st @ be_bytes slot @
             po_hash (si_position (cs_data st)) @ reference)\<rparr>)"

lemma slot_start_next:
  assumes "from_trusted_history K g hs st = Inr pc"
  shows "slot_start K pc = (if state_slot st < 200 then Inr (next_view K pc) else Inl ExperimentLimit)"
proof -
  let ?p = "po_slot (si_position (cs_data st))"
  have pc: "pc_headers pc = hs" "pc_state pc = st" "pc_genesis pc = g"
    using assms by (simp_all add: from_trusted_history_Inr_iff)
  have b: "unat ?p \<le> 200" by (rule prefix_slot_bound [OF assms])
  then have u: "unat (?p + 1) = unat ?p + 1" by (simp add: unat_word_ariths(1))
  then have add: "checked_add ?p 1 = Some (?p + 1)" by (simp add: checked_add_unat_iff)
  have lim: "?p + 1 > MAX_SLOTS \<longleftrightarrow> \<not> unat ?p < 200"
    using u by (auto simp: MAX_SLOTS_def word_less_nat_alt)
  have lb: "?p + 1 < LOOKBACK \<longleftrightarrow> unat ?p < 31" using u by (simp add: LOOKBACK_def word_less_nat_alt)
  have "historical_hash pc (?p + 1 - LOOKBACK) = Inr (hh_hash (hs ! (unat ?p - 31)))" if "\<not> unat ?p < 31"
  proof -
    have "LOOKBACK \<le> ?p + 1" using lb that by (simp add: not_less)
    from unat_sub [OF this] have e: "unat (?p + 1 - LOOKBACK) = unat ?p - 31"
      unfolding u by (simp add: LOOKBACK_def)
    then show ?thesis using historical_hash_linked [OF assms, of "?p + 1 - LOOKBACK"] by simp
  qed
  then show ?thesis
    by (simp add: slot_start_def pc add lim lb next_view_def Let_def)
qed

section \<open>The first prefix\<close>

lemma initial_prefix:
  "\<exists>pc. prefix_initial K (approved_genesis K l) = Inr pc \<and> pc_state pc = ge_initial (approved_genesis K l) \<and>
     from_trusted_history K (approved_genesis K l)
       [\<lparr>hh_header = anchor K, hh_hash = header_hash K (anchor K)\<rparr>] (ge_initial (approved_genesis K l)) = Inr pc"
proof -
  let ?g = "approved_genesis K l" and ?h = "\<lparr>hh_header = anchor K, hh_hash = header_hash K (anchor K)\<rparr>"
  have h: "historical_header_new K (anchor K) (header_hash K (anchor K)) = Inr ?h"
    by (simp add: historical_header_new_def anchor_def)
  have "from_trusted_history K ?g [?h] (ge_initial ?g) =
      Inr \<lparr>pc_genesis = ?g, pc_headers = [?h], pc_state = ge_initial ?g, pc_id = prefix_id K ?g [?h]\<rparr>"
    by (simp add: from_trusted_history_Inr_iff approved_genesis_def sealed_def approved_policy_def
        approved_snapshot_def initial_snapshot_def check_slot_def approved_configs_def initial_validator_def)
      (simp add: anchor_def)
  with h show ?thesis
    by (simp add: prefix_initial_def approved_genesis_def approved_policy_def)
qed

section \<open>Extending a prefix\<close>

lemma zip_all_eq:
  "length xs = length ys \<Longrightarrow> (\<forall>(n, v) \<in> set (zip xs ys). n = f v) \<longleftrightarrow> xs = map f ys"
  by (induction xs ys rule: list_induct2) auto

abbreviation snapshot_totals :: "snapshot_input \<Rightarrow> prefix_totals" where
  "snapshot_totals d \<equiv> \<lparr>pt_counts = map va_produced (si_validators d), pt_gas = si_gas_used d,
     pt_fees = si_fees_burned d\<rparr>"

lemma prefix_accepts_iff:
  assumes "length (si_validators (cs_data st)) = 2"
  shows "from_trusted_history K g hs st = Inr pc \<longleftrightarrow>
     length hs \<le> unat MAX_SLOTS + 1 \<and> cs_policy st = ge_policy g \<and> length hs = state_slot st + 1 \<and>
     hh_hash (last hs) = po_hash (si_position (cs_data st)) \<and>
     (po_slot (si_position (cs_data st)) = 0 \<longrightarrow> st = ge_initial g) \<and>
     check_slots K g hs (si_credits (cs_data st)) [0..<Suc (state_slot st)] no_totals =
       Inr (snapshot_totals (cs_data st)) \<and>
     pc = \<lparr>pc_genesis = g, pc_headers = hs, pc_state = st, pc_id = prefix_id K g hs\<rparr>"
proof -
  have "(\<forall>(n, v) \<in> set (zip (pt_counts acc) (si_validators (cs_data st))). n = va_produced v) \<longleftrightarrow>
      pt_counts acc = map va_produced (si_validators (cs_data st))"
    if "check_slots K g hs cs ss no_totals = Inr acc" for cs ss acc
    using check_slots_linked [OF that] assms by (intro zip_all_eq) simp
  then show ?thesis
    unfolding from_trusted_history_Inr_iff by (auto simp: zip_map1 zip_same_conv_map simp del: upt_Suc)
qed

lemma prefix_extend:
  assumes pre: "from_trusted_history K g hs st = Inr pc" and lt: "state_slot st < 200"
    and len: "length (si_validators (cs_data st)) = 2" "length (si_credits (cs_data st)) = state_slot st"
      "length (si_validators (cs_data st')) = 2"
    and pol: "cs_policy st' = ge_policy g"
    and pos: "si_position (cs_data st') = \<lparr>po_slot = po_slot (si_position (cs_data st)) + 1, po_hash = hh_hash h\<rparr>"
      "bh_slot (hh_header h) = po_slot (si_position (cs_data st)) + 1"
    and cr: "si_credits (cs_data st') = si_credits (cs_data st) @ [c]"
    and step: "check_successor K g (last hs) c (po_slot (si_position (cs_data st)) + 1) h
      (snapshot_totals (cs_data st)) = Inr (snapshot_totals (cs_data st'))"
  shows "from_trusted_history K g (hs @ [h]) st' =
     Inr \<lparr>pc_genesis = g, pc_headers = hs @ [h], pc_state = st', pc_id = prefix_id K g (hs @ [h])\<rparr>"
proof -
  let ?n = "state_slot st" and ?slot = "po_slot (si_position (cs_data st)) + 1"
  let ?hs = "hs @ [h]" and ?cs = "si_credits (cs_data st) @ [c]"
  have l: "length hs = Suc ?n" and scan: "check_slots K g hs (si_credits (cs_data st)) [0..<Suc ?n] no_totals =
      Inr (snapshot_totals (cs_data st))"
    using pre by (simp_all add: prefix_accepts_iff [OF len(1)] del: upt_Suc)
  have u: "unat ?slot = Suc ?n" using lt by (simp add: unat_word_ariths(1))
  then have nz: "?slot \<noteq> 0" by auto
  have o: "of_nat (Suc ?n) = ?slot" by simp
  have old: "check_slots K g ?hs ?cs [0..<Suc ?n] no_totals = Inr (snapshot_totals (cs_data st))"
    using scan check_slots_extend [of "[0..<Suc ?n]" hs "si_credits (cs_data st)" K g "[h]" "[c]" no_totals] l len(2)
    by (simp del: upt_Suc)
  have "hs \<noteq> []" using l by auto
  then have "last hs = ?hs ! ?n" using l by (simp add: last_conv_nth nth_append)
  moreover have "?hs ! Suc ?n = h" "?cs ! ?n = c" using l len(2) by (simp_all add: nth_append)
  ultimately have "check_slot K g ?hs ?cs (Suc ?n) (snapshot_totals (cs_data st)) =
      Inr (snapshot_totals (cs_data st'))"
    using step o pos(2) l by (simp add: check_slot_def add.commute)
  with old have "check_slots K g ?hs ?cs [0..<Suc (Suc ?n)] no_totals = Inr (snapshot_totals (cs_data st'))"
    using check_slots_append [of K g ?hs ?cs "[0..<Suc ?n]" "[Suc ?n]"] by simp
  then show ?thesis
    using l lt pol pos(1) u nz cr by (simp add: prefix_accepts_iff [OF len(3)] MAX_SLOTS_def del: upt_Suc)
qed

section \<open>Properties\<close>

lemma demo_prefix:
  obtains pc where "from_trusted_history K (approved_genesis K l)
      [\<lparr>hh_header = anchor K, hh_hash = header_hash K (anchor K)\<rparr>] (ge_initial (approved_genesis K l)) = Inr pc"
    "state_slot (ge_initial (approved_genesis K l)) = 0"
  using initial_prefix [of K l]
  by (auto simp: approved_genesis_def sealed_def approved_snapshot_def initial_snapshot_def)

text \<open>An accepted prefix is one unbroken chain from the independent anchor to the parent of the
  snapshot: a header for every slot, each linked to its predecessor's hash, each a valid header
  claim of the validator that the snapshot credits for that slot and of a ticket it owns, with the
  snapshot's cumulative gas and fees the exact sums of the headers'.\<close>

theorem accepted_prefix_linked:
  assumes "from_trusted_history K g hs st = Inr pc"
  shows "pc_headers pc = hs \<and> pc_state pc = st \<and> pc_genesis pc = g \<and> cs_policy st = ge_policy g \<and>
     length hs = state_slot st + 1 \<and> state_slot st \<le> 200 \<and>
     hh_hash (last hs) = po_hash (si_position (cs_data st)) \<and>
     (\<forall>s \<le> state_slot st. linked K g hs (si_credits (cs_data st)) s) \<and>
     unat (si_gas_used (cs_data st)) = scan_gas hs [0..<length hs] \<and>
     unat (si_fees_burned (cs_data st)) = 10 * scan_gas hs [0..<length hs]"
proof -
  obtain acc where "check_slots K g hs (si_credits (cs_data st)) [0..<Suc (state_slot st)] no_totals = Inr acc"
    and acc: "pt_gas acc = si_gas_used (cs_data st)" "pt_fees acc = si_fees_burned (cs_data st)"
    and l: "length hs = Suc (state_slot st)"
    using assms by (auto simp: from_trusted_history_Inr_iff simp del: upt_Suc)
  from check_slots_gas [OF this(1)] acc l
  have "unat (si_gas_used (cs_data st)) = scan_gas hs [0..<length hs]"
    "unat (si_fees_burned (cs_data st)) = 10 * scan_gas hs [0..<length hs]" by simp_all
  then show ?thesis
    using assms prefix_linked [OF assms] prefix_slot_bound [OF assms]
    by (simp add: from_trusted_history_Inr_iff)
qed

theorem accepted_prefix_linked_witness:
  "linked (c_keccak demo_crypto) (approved_genesis (c_keccak demo_crypto) [65])
     [\<lparr>hh_header = anchor (c_keccak demo_crypto), hh_hash = header_hash (c_keccak demo_crypto) (anchor (c_keccak demo_crypto))\<rparr>]
     (si_credits (cs_data (ge_initial (approved_genesis (c_keccak demo_crypto) [65])))) 0"
proof -
  obtain pc where "from_trusted_history (c_keccak demo_crypto) (approved_genesis (c_keccak demo_crypto) [65])
      [\<lparr>hh_header = anchor (c_keccak demo_crypto), hh_hash = header_hash (c_keccak demo_crypto) (anchor (c_keccak demo_crypto))\<rparr>]
      (ge_initial (approved_genesis (c_keccak demo_crypto) [65])) = Inr pc"
    by (rule demo_prefix)
  from accepted_prefix_linked [OF this] show ?thesis by blast
qed

text \<open>The next slot of an accepted prefix always starts, until the experiment's last slot: its
  randomness reference is the network identifier before slot 32 and afterwards the hash of the header
  exactly 32 slots earlier, so history is never reported missing; after slot 200 the bound of the
  experiment is reported.\<close>

theorem slot_start_outcome:
  assumes "from_trusted_history K g hs st = Inr pc"
  shows "(state_slot st = 200 \<longrightarrow> slot_start K pc = Inl ExperimentLimit) \<and>
     (state_slot st < 200 \<longrightarrow> (\<exists>view. slot_start K pc = Inr view \<and> sv_prefix view = pc \<and>
        unat (sv_slot view) = state_slot st + 1 \<and>
        sv_reference view = (if state_slot st + 1 < 32 then pol_network (ge_policy g)
          else hh_hash (hs ! (state_slot st + 1 - 32)))))"
proof -
  have "unat (po_slot (si_position (cs_data st)) + 1) = state_slot st + 1" if "state_slot st < 200"
    using that by (simp add: unat_word_ariths(1))
  then show ?thesis
    using slot_start_next [OF assms] assms
    by (auto simp: next_view_def Let_def from_trusted_history_Inr_iff)
qed

theorem slot_start_outcome_witness:
  "\<exists>pc view. prefix_initial (c_keccak demo_crypto) (approved_genesis (c_keccak demo_crypto) [65]) = Inr pc \<and>
     slot_start (c_keccak demo_crypto) pc = Inr view \<and> unat (sv_slot view) = 1"
proof -
  obtain pc where pc: "prefix_initial (c_keccak demo_crypto) (approved_genesis (c_keccak demo_crypto) [65]) = Inr pc"
    "from_trusted_history (c_keccak demo_crypto) (approved_genesis (c_keccak demo_crypto) [65])
      [\<lparr>hh_header = anchor (c_keccak demo_crypto), hh_hash = header_hash (c_keccak demo_crypto) (anchor (c_keccak demo_crypto))\<rparr>]
      (ge_initial (approved_genesis (c_keccak demo_crypto) [65])) = Inr pc"
    using initial_prefix by blast
  have "state_slot (ge_initial (approved_genesis (c_keccak demo_crypto) [65])) = 0"
    by (rule demo_prefix)
  with slot_start_outcome [OF pc(2)] pc(1) show ?thesis by auto
qed

lemma demo_start:
  obtains pc view sel where "prefix_initial K (approved_genesis K l) = Inr pc" "slot_start K pc = Inr view"
    "sv_genesis view = approved_genesis K l" "sv_state view = ge_initial (approved_genesis K l)"
    "view_select K view = Inr sel" "sl_owner sel \<in> {str ''trial-A'', str ''trial-B''}"
proof -
  let ?g = "approved_genesis K l"
  obtain pc where pc: "prefix_initial K ?g = Inr pc" "pc_state pc = ge_initial ?g"
    and tr: "from_trusted_history K ?g [\<lparr>hh_header = anchor K, hh_hash = header_hash K (anchor K)\<rparr>] (ge_initial ?g) = Inr pc"
    using initial_prefix by blast
  have z: "po_slot (si_position (cs_data (ge_initial ?g))) = 0"
    and v: "si_validators (cs_data (ge_initial ?g)) = demo_validators"
    and t: "si_tickets (cs_data (ge_initial ?g)) = demo_tickets"
    by (simp_all add: approved_genesis_def sealed_def approved_snapshot_def initial_snapshot_def
        approved_configs_def initial_validator_def demo_validator_def)
  have g: "pc_genesis pc = ?g" using tr by (simp add: from_trusted_history_Inr_iff)
  from slot_start_next [OF tr] z have st: "slot_start K pc = Inr (next_view K pc)" by simp
  have nv: "sv_prefix (next_view K pc) = pc" "sv_slot (next_view K pc) = 1"
    using pc z by (simp_all add: next_view_def Let_def)
  obtain sel where sel: "view_select K (next_view K pc) = Inr sel"
    using select_inputs_complete [OF demo_valid, of 1 K "sv_reference (next_view K pc)" 0] demo_accepted
    by (auto simp: view_select_def nv pc v t MAX_SLOTS_def demo_eligible)
  have "sl_owner sel \<in> {str ''trial-A'', str ''trial-B''}"
  proof -
    have "\<exists>x \<in> set demo_tickets. tk_owner x = sl_owner sel"
      using select_inputs_sound [OF sel [unfolded view_select_def]]
      unfolding selects_def nv pc v t demo_eligible by blast
    then show ?thesis by (auto simp: ticket_active_def)
  qed
  with pc st nv g sel show thesis by (intro that [of pc "next_view K pc" sel]) simp_all
qed

text \<open>A plan exists only for the selected producer's own signed header: the signature over the
  digest of the network and the header recovers to the key that genesis registers for the producer,
  the header extends the view's parent at the view's slot, and producer and ticket are those the
  selection rule picks from the frozen state; a correctly signed header of any other producer has no
  plan.\<close>

theorem plan_selected_and_signed:
  assumes "claim_authenticate C c g network bs = Inr proof" and "view_plan (c_keccak C) view proof = Inr p"
  shows "(\<exists>key v. signature_wf C bs \<and>
       c_recover_from_prehash C (claim_signing_digest (c_keccak C) c network) (take 64 bs) (bs ! 64) = Some key \<and>
       v \<in> set (pol_configs (ge_policy g)) \<and> vc_id v = hc_producer c \<and>
       c_to_encoded_point C key True = vc_public_key v) \<and>
     network = pol_network (ge_policy g) \<and> network = pol_network (ge_policy (sv_genesis view)) \<and>
     bh_slot (hc_header c) = sv_slot view \<and> bh_parent_hash (hc_header c) = po_hash (sv_parent view) \<and>
     ap_view p = view \<and> sl_seed (ap_selection p) = slot_seed (c_keccak C) (sv_reference view) (sv_slot view) \<and>
     selects (c_keccak C) (si_validators (cs_data (sv_state view))) (si_tickets (cs_data (sv_state view))) (ap_selection p) \<and>
     hc_producer c = sl_owner (ap_selection p) \<and> bh_ticket_id (hc_header c) = sl_ticket (ap_selection p)"
proof -
  from assms(1) obtain v key where
    net: "network = pol_network (ge_policy g)" and v: "List.find (\<lambda>v. vc_id v = hc_producer c) (pol_configs (ge_policy g)) = Some v"
    and s: "signature_wf C bs"
    and k: "recover_public_key C bs (claim_signing_digest (c_keccak C) c network) = Inr key"
      "c_to_encoded_point C key True = vc_public_key v"
    and pf: "ah_claim proof = c" "ah_network proof = network"
    by (auto simp: claim_authenticate_def try_res_Inr_iff Let_def signature_from_bytes_Inr_iff split: if_splits)
  from assms(2) have sel: "view_select (c_keccak C) view = Inr (ap_selection p)"
    and rest: "network = pol_network (ge_policy (sv_genesis view))"
     "bh_slot (hc_header c) = sv_slot view" "bh_parent_hash (hc_header c) = po_hash (sv_parent view)"
     "ap_view p = view" "hc_producer c = sl_owner (ap_selection p)"
     "bh_ticket_id (hc_header c) = sl_ticket (ap_selection p)"
    by (auto simp: view_plan_def try_res_Inr_iff Let_def pf split: if_splits)
  from k(1) have "c_recover_from_prehash C (claim_signing_digest (c_keccak C) c network) (take 64 bs) (bs ! 64) = Some key"
    by (simp add: recover_public_key_wf [OF s])
  with s k(2) find_Some_D [OF v] have "\<exists>key v. signature_wf C bs \<and>
       c_recover_from_prehash C (claim_signing_digest (c_keccak C) c network) (take 64 bs) (bs ! 64) = Some key \<and>
       v \<in> set (pol_configs (ge_policy g)) \<and> vc_id v = hc_producer c \<and>
       c_to_encoded_point C key True = vc_public_key v" by blast
  with net rest select_inputs_sound [OF sel [unfolded view_select_def]] show ?thesis by blast
qed

lemma claim_authenticate_intro:
  assumes "List.find (\<lambda>v. vc_id v = hc_producer c) (pol_configs (ge_policy g)) = Some v" "signature_wf C bs"
    "c_recover_from_prehash C (claim_signing_digest (c_keccak C) c (pol_network (ge_policy g))) (take 64 bs) (bs ! 64) = Some key"
    "c_to_encoded_point C key True = vc_public_key v"
  obtains a where "claim_authenticate C c g (pol_network (ge_policy g)) bs = Inr a" "ah_claim a = c"
    "ah_network a = pol_network (ge_policy g)"
  using assms by (auto simp: claim_authenticate_def Let_def recover_public_key_wf)

theorem plan_selected_and_signed_witness:
  "\<exists>pc view c proof p (C :: bytes crypto).
     prefix_initial (c_keccak C) (approved_genesis (c_keccak C) [65]) = Inr pc \<and>
     slot_start (c_keccak C) pc = Inr view \<and> view_plan (c_keccak C) view proof = Inr p \<and>
     ah_claim proof = c \<and> bh_parent_hash (hc_header c) = po_hash (sv_parent view)"
proof -
  let ?K = "c_keccak demo_crypto"
  obtain pc view sel where pc: "prefix_initial ?K (approved_genesis ?K [65]) = Inr pc" "slot_start ?K pc = Inr view"
    and g: "sv_genesis view = approved_genesis ?K [65]"
    and sel: "view_select ?K view = Inr sel" "sl_owner sel \<in> {str ''trial-A'', str ''trial-B''}"
    by (rule demo_start)
  define C :: "bytes crypto" where
    "C = demo_crypto\<lparr>c_to_encoded_point := (\<lambda>_ _. if sl_owner sel = str ''trial-A'' then key_a else key_b)\<rparr>"
  define c where "c = \<lparr>hc_header = (anchor ?K)\<lparr>bh_slot := sv_slot view, bh_parent_hash := po_hash (sv_parent view),
     bh_ticket_id := sl_ticket sel\<rparr>, hc_producer = sl_owner sel, hc_count = 0\<rparr>"
  have K: "c_keccak C = ?K" by (simp add: C_def)
  have s: "signature_wf C (replicate 64 5 @ [0])"
    using demo_signature by (simp add: C_def signature_wf_def)
  obtain v where v: "List.find (\<lambda>v. vc_id v = hc_producer c) (pol_configs (ge_policy (approved_genesis ?K [65]))) = Some v"
    "vc_public_key v = (if sl_owner sel = str ''trial-A'' then key_a else key_b)"
    using sel(2) by (auto simp: c_def approved_genesis_def approved_policy_def approved_configs_def str_def)
  obtain ph where pf: "claim_authenticate C c (approved_genesis ?K [65])
      (pol_network (ge_policy (approved_genesis ?K [65]))) (replicate 64 5 @ [0]) = Inr ph"
    "ah_claim ph = c" "ah_network ph = pol_network (ge_policy (approved_genesis ?K [65]))"
    by (rule claim_authenticate_intro [OF v(1) s]) (simp_all add: C_def demo_crypto_def v(2))
  then obtain p where p: "view_plan (c_keccak C) view ph = Inr p"
    using sel by (auto simp: view_plan_def K g c_def)
  from plan_selected_and_signed [OF pf(1) p] pc pf(2) p K show ?thesis by metis
qed

lemma claim_preimage_layout:
  assumes "length network = 32" "digest32 K"
  shows "claim_signing_preimage K c network = BLOCK_SIGNING_DOMAIN @ [OUTER_WIRE, AUTH_ENCODING] @
     be_bytes AUTH_RULES @ be_bytes (bh_chain_id (hc_header c)) @ network @
     be_bytes (bh_protocol_version (hc_header c)) @ claim_hash K c"
  using assms
  by (simp add: claim_signing_preimage_def Let_def fixed_buffer_simps digest32_def claim_hash_def
      header_hash_def hash_with_domain_def)

text \<open>The bytes a producer signs for a header fix what is signed: two claims with the same signing
  bytes name the same network and the same header hash, and no envelope of the earlier profile
  has the same signing bytes, so a signature never carries over between the two profiles.\<close>

theorem claim_signing_binds:
  assumes "digest32 (c_keccak C)" "length network = 32" "length network' = 32" "envelope_wf e"
  shows "(claim_signing_preimage (c_keccak C) c network = claim_signing_preimage (c_keccak C) c' network' \<longrightarrow>
       network = network' \<and> claim_hash (c_keccak C) c = claim_hash (c_keccak C) c') \<and>
     claim_signing_preimage (c_keccak C) c network \<noteq> block_signing_preimage C e"
  using assms
  by (auto simp: claim_preimage_layout block_signing_preimage_layout(1) signing_payload_layout envelope_wf_def
      OUTER_WIRE_def OUTER_WIRE_VERSION_def)

theorem claim_signing_binds_witness:
  "\<exists>bs a. authenticate_block demo_crypto bs demo_block_context demo_binding None = Inr a \<and>
     claim_signing_preimage (c_keccak demo_crypto)
       \<lparr>hc_header = anchor (c_keccak demo_crypto), hc_producer = str ''trial-A'', hc_count = 0\<rparr> (replicate 32 1) \<noteq>
     block_signing_preimage demo_crypto (apb_envelope a)"
proof -
  obtain bs a where a: "authenticate_block demo_crypto bs demo_block_context demo_binding None = Inr a"
    and wf: "envelope_wf (apb_envelope a)"
    by (rule demo_envelope)
  have "length (replicate 32 (1 :: u8)) = 32" by simp
  from claim_signing_binds [OF demo_digest32 this this wf] a show ?thesis by blast
qed

end
