(* ===== verification/Poash_Application.thy ===== *)
theory Poash_Application
  imports Poash_History
begin

text \<open>
  \<open>src/src/native_poash/application.rs\<close>: the complete unsigned block of the closed experiment and its
  signed envelope, with their wire codecs, and the compound transition that applies a staged native
  body, the reward of the selected producer and the new position to the closed state.
  \<open>Decoder\<close> is the one of \<open>Poash_State\<close>; \<open>String::from_utf8\<close> is \<open>utf8_valid\<close>.
\<close>

section \<open>Errors\<close>

text \<open>\<open>StoreError\<close> of \<open>src/src/durable_fixture.rs\<close>, without the text of its messages.\<close>

datatype durable_error =
    DAlreadyExists | DMissing | DUninitialized | DInvalid | DStale | DBlocked | DBody | DAborted
  | DRecoveryRequired

datatype app_error =
    AProtocol poash_error
  | ACodec string
  | ABody body_error
  | AStorage durable_error
  | ABlocked
  | AStale
  | AlreadyCommitted (ac_position: position) (ac_retained: hash) (ac_submitted: hash)
  | ConflictHalt
  | PreparedIdentity
  | ADuplicateTransaction nat
  | AInvalid string

section \<open>Blocks\<close>

definition C1_MAX_BLOCK_BYTES :: nat where "C1_MAX_BLOCK_BYTES = 288 + 7 + 203 * unat MAX_ENTRIES"
definition C1_MAX_ENVELOPE_BYTES :: nat where "C1_MAX_ENVELOPE_BYTES = C1_MAX_BLOCK_BYTES + 107"

record c1_block =
  cb_claim :: header_claim
  cb_protocol :: protocol_data
  cb_transactions :: "bytes list"

definition block_from_parts ::
  "hasher \<Rightarrow> block_header \<Rightarrow> text_bytes \<Rightarrow> protocol_data \<Rightarrow> bytes list \<Rightarrow> app_error + c1_block" where
  "block_from_parts K header producer protocol transactions =
     (if length transactions > unat MAX_ENTRIES then Inl (ACodec ''body bound'')
      else try_res (map_err AProtocol
          (header_claim_new K header producer (of_nat (length transactions)))) (\<lambda>claim.
      let ids = map (hash_with_domain K ID_DOMAIN) transactions in
      if pd_missed_proposer protocol \<noteq> None \<or>
         protocol_data_root K protocol \<noteq> bh_protocol_data_root (hc_header claim) \<or>
         Some (bh_transaction_root (hc_header claim)) \<noteq> ordered_transaction_root K ids
        then Inl (ACodec ''protocol/body commitment'')
      else Inr \<lparr>cb_claim = claim, cb_protocol = protocol, cb_transactions = transactions\<rparr>))"

definition block_build ::
  "hasher \<Rightarrow> slot_start_view \<Rightarrow> selection \<Rightarrow> bytes list \<Rightarrow> body_outcome \<Rightarrow> app_error + c1_block" where
  "block_build K view sel transactions outcome =
     (let protocol = \<lparr>pd_missed_proposer = None, pd_fees_burned = bo_fees_burned outcome\<rparr> in
      try_res (ok_or (AProtocol POverflow) (ordered_transaction_root K (bo_transaction_ids outcome))) (\<lambda>root.
      block_from_parts K
        \<lparr>bh_protocol_version = HEADER_PROFILE, bh_chain_id = CHAIN_ID, bh_slot = sv_slot view,
         bh_block_kind = Validator, bh_parent_hash = po_hash (sv_parent view),
         bh_proposer_id = proposer_id K (sl_owner sel), bh_ticket_id = sl_ticket sel,
         bh_transaction_root = root, bh_state_root = replicate 32 0,
         bh_receipts_root = EMPTY_RECEIPTS_ROOT K, bh_gas_used = bo_gas_used outcome,
         bh_protocol_data_root = protocol_data_root K protocol\<rparr>
        (sl_owner sel) protocol transactions))"

definition c1_block_hash :: "hasher \<Rightarrow> c1_block \<Rightarrow> hash" where
  "c1_block_hash K b = claim_hash K (cb_claim b)"

definition block_wire_bytes :: "hasher \<Rightarrow> c1_block \<Rightarrow> bytes" where
  "block_wire_bytes K b =
     [INNER_WIRE] @ c1_block_hash K b @ header_bytes (hc_header (cb_claim b)) @
     be_bytes (of_nat (length (hc_producer (cb_claim b))) :: u32) @ hc_producer (cb_claim b) @
     be_bytes (10 :: u32) @ protocol_data_bytes (cb_protocol b) @
     be_bytes (of_nat (length (cb_transactions b)) :: u64) @
     concat (map (\<lambda>tx. be_bytes (of_nat SIGNED_LEN :: u32) @ tx) (cb_transactions b))"

definition app_take :: "nat \<Rightarrow> cursor \<Rightarrow> app_error + bytes \<times> cursor" where
  "app_take n d = map_err AProtocol (poash_take n d)"

fun block_entries :: "nat \<Rightarrow> cursor \<Rightarrow> app_error + bytes list \<times> cursor" where
  "block_entries 0 d = Inr ([], d)"
| "block_entries (Suc n) d =
     try_res (app_take 4 d) (\<lambda>(len, d).
     if be_word len \<noteq> (of_nat SIGNED_LEN :: u32) then Inl (ACodec ''entry length'')
     else try_res (app_take SIGNED_LEN d) (\<lambda>(tx, d).
       try_res (block_entries n d) (\<lambda>(txs, d). Inr (tx # txs, d))))"

definition block_from_wire_bytes :: "hasher \<Rightarrow> bytes \<Rightarrow> app_error + c1_block" where
  "block_from_wire_bytes K bs =
     (if length bs > C1_MAX_BLOCK_BYTES then Inl (ACodec ''block size'')
      else try_res (app_take 1 (start_cursor bs)) (\<lambda>(wire, d).
      if wire \<noteq> [INNER_WIRE] then Inl (ACodec ''inner wire'')
      else try_res (app_take 32 d) (\<lambda>(claimed, d).
      try_res (app_take 229 d) (\<lambda>(hb, d).
      try_res (ok_or (ACodec ''header'') (header_from_bytes hb)) (\<lambda>header.
      try_res (app_take 4 d) (\<lambda>(pl, d).
      if be_word pl \<noteq> (7 :: u32) then Inl (ACodec ''closed producer length'')
      else try_res (app_take 7 d) (\<lambda>(producer, d).
      if \<not> utf8_valid producer then Inl (ACodec ''producer ASCII'')
      else try_res (app_take 4 d) (\<lambda>(dl, d).
      if be_word dl \<noteq> (10 :: u32) then Inl (ACodec ''protocol length'')
      else try_res (app_take 10 d) (\<lambda>(pb, d).
      try_res (ok_or (ACodec ''protocol'') (protocol_data_from_bytes pb)) (\<lambda>protocol.
      try_res (app_take 8 d) (\<lambda>(cb, d).
      let entries = be_word cb :: u64 in
      if entries > MAX_ENTRIES \<or> length bs - at d \<noteq> unat entries * 203 then Inl (ACodec ''exact body size'')
      else try_res (block_entries (unat entries) d) (\<lambda>(transactions, d).
      try_res (block_from_parts K header producer protocol transactions) (\<lambda>block.
      if c1_block_hash K block \<noteq> claimed then Inl (ACodec ''claimed H'')
      else Inr block)))))))))))))"

definition block_match_outcome :: "hasher \<Rightarrow> c1_block \<Rightarrow> body_outcome \<Rightarrow> app_error + unit" where
  "block_match_outcome K b outcome =
     (if map (hash_with_domain K ID_DOMAIN) (cb_transactions b) \<noteq> bo_transaction_ids outcome \<or>
         bo_gas_used outcome \<noteq> bh_gas_used (hc_header (cb_claim b)) \<or>
         bo_fees_burned outcome \<noteq> pd_fees_burned (cb_protocol b)
      then Inl (ACodec ''native outcome'') else Inr ())"

section \<open>Envelopes\<close>

record c1_envelope =
  ce_block :: c1_block
  ce_network :: hash
  ce_signature :: bytes

definition c1_envelope_from_wire_bytes :: "hasher \<Rightarrow> bytes \<Rightarrow> app_error + c1_envelope" where
  "c1_envelope_from_wire_bytes K bs =
     (if length bs > C1_MAX_ENVELOPE_BYTES then Inl (ACodec ''envelope size'')
      else try_res (app_take 1 (start_cursor bs)) (\<lambda>(wire, d).
      if wire \<noteq> [OUTER_WIRE] then Inl (ACodec ''outer/auth profile'')
      else try_res (app_take 1 d) (\<lambda>(enc, d).
      if enc \<noteq> [AUTH_ENCODING] then Inl (ACodec ''outer/auth profile'')
      else try_res (app_take 4 d) (\<lambda>(rules, d).
      if be_word rules \<noteq> AUTH_RULES then Inl (ACodec ''outer/auth profile'')
      else try_res (app_take 32 d) (\<lambda>(network, d).
      try_res (app_take 4 d) (\<lambda>(lb, d).
      let len = unat (be_word lb :: u32) in
      if \<not> (295 \<le> len \<and> len \<le> C1_MAX_BLOCK_BYTES) \<or> usize_checked_add len 107 \<noteq> Some (length bs)
        then Inl (ACodec ''exact envelope length'')
      else try_res (app_take len d) (\<lambda>(inner, d).
      try_res (block_from_wire_bytes K inner) (\<lambda>block.
      try_res (app_take 65 d) (\<lambda>(signature, d).
      Inr \<lparr>ce_block = block, ce_network = network, ce_signature = signature\<rparr>)))))))))"

definition c1_envelope_wire_bytes :: "hasher \<Rightarrow> c1_envelope \<Rightarrow> bytes" where
  "c1_envelope_wire_bytes K e =
     (let inner = block_wire_bytes K (ce_block e) in
      [OUTER_WIRE, AUTH_ENCODING] @ be_bytes AUTH_RULES @ ce_network e @
      be_bytes (of_nat (length inner) :: u32) @ inner @ ce_signature e)"

definition c1_envelope_id :: "hasher \<Rightarrow> c1_envelope \<Rightarrow> hash" where
  "c1_envelope_id K e = hash_with_domain K ENVELOPE_ID_DOMAIN (c1_envelope_wire_bytes K e)"

record authenticated_envelope =
  ae_envelope :: c1_envelope
  ae_header :: authenticated_header

definition c1_envelope_authenticate ::
  "'k crypto \<Rightarrow> c1_envelope \<Rightarrow> genesis \<Rightarrow> app_error + authenticated_envelope" where
  "c1_envelope_authenticate C e g =
     try_res (map_err AProtocol (claim_authenticate C (cb_claim (ce_block e)) g (ce_network e) (ce_signature e)))
       (\<lambda>header. Inr \<lparr>ae_envelope = e, ae_header = header\<rparr>)"

section \<open>The compound transition\<close>

text \<open>The \<open>expect\<close> of the source never fires: the constructor accepts these fixed values.\<close>

definition native_context :: "genesis \<Rightarrow> auth_context" where
  "native_context g = projr (auth_context_new CHAIN_ID (pol_network (ge_policy g)) 1)"

definition native_state :: "closed_state \<Rightarrow> transfer_state" where
  "native_state s =
     \<lparr>ts_accounts = foldl (\<lambda>m a. bm_insert (pa_address a)
          \<lparr>ta_balance_quarks = pa_balance a, ta_nonce = pa_nonce a\<rparr> m) [] (si_accounts (cs_data s)),
      ts_gas_used_total = si_gas_used (cs_data s), ts_fees_burned_total = si_fees_burned (cs_data s)\<rparr>"

definition supported :: "closed_state \<Rightarrow> app_error + unit" where
  "supported s =
     (if (\<exists>v \<in> set (si_validators (cs_data s)). va_status v \<noteq> VActive \<or> va_misses v \<noteq> 0 \<or> va_offenses v \<noteq> 0 \<or>
            va_cooldown_until v \<noteq> None) \<or>
         (\<exists>t \<in> set (si_tickets (cs_data s)). tk_status t \<noteq> TActive \<or> tk_retire_start t \<noteq> None \<or>
            tk_retire_effective t \<noteq> None)
      then Inl (AInvalid ''unsupported C1 pre-state transition'') else Inr ())"

definition stage_native ::
  "'k crypto \<Rightarrow> slot_start_view \<Rightarrow> bytes list \<Rightarrow> app_error + transfer_state \<times> applied_body" where
  "stage_native C view body =
     try_res (supported (sv_state view)) (\<lambda>_.
     if length body > unat MAX_ENTRIES then Inl (ACodec ''body bound'')
     else try_res (map_err ABody (stage_body C (native_state (sv_state view))
          (native_context (sv_genesis view)) (sv_slot view) body)) (\<lambda>sb.
       Inr (sb_candidate sb, sb_record sb)))"

definition compound ::
  "hasher \<Rightarrow> slot_start_view \<Rightarrow> c1_block \<Rightarrow> transfer_state \<Rightarrow> body_outcome \<Rightarrow> app_error + closed_state" where
  "compound K view block native outcome =
     try_res (supported (sv_state view)) (\<lambda>_.
     try_res (map_err AProtocol (view_select K view)) (\<lambda>sel.
     let h = hc_header (cb_claim block) in
     if bh_slot h \<noteq> sv_slot view \<or> bh_parent_hash h \<noteq> po_hash (sv_parent view)
       then Inl (AProtocol (PContext ''compound parent/slot''))
     else if hc_producer (cb_claim block) \<noteq> sl_owner sel \<or> bh_ticket_id h \<noteq> sl_ticket sel
       then Inl (AProtocol NotSelected)
     else try_res (block_match_outcome K block outcome) (\<lambda>_.
     let d = cs_data (sv_state view);
         reward = yz_reward year_zero_approved;
         mine = (\<lambda>v. va_id v = sl_owner sel) in
     try_res (ok_or (AInvalid ''selected registry'') (List.find mine (si_validators d))) (\<lambda>v.
     try_res (ok_or (AProtocol POverflow) (checked_add (va_vault v) reward)) (\<lambda>vault.
     try_res (ok_or (AProtocol POverflow) (checked_add (va_locked v) reward)) (\<lambda>locked.
     try_res (ok_or (AProtocol POverflow) (checked_add (va_produced v) 1)) (\<lambda>produced.
     try_res (ok_or (AProtocol POverflow) (checked_add (si_base_issuance d) reward)) (\<lambda>issuance.
     map_err AProtocol (checked K (ge_policy (sv_genesis view)) (d\<lparr>
       si_position := \<lparr>po_slot = sv_slot view, po_hash = c1_block_hash K block\<rparr>,
       si_accounts := map (\<lambda>(address, a). \<lparr>pa_address = address, pa_balance = ta_balance_quarks a,
          pa_nonce = ta_nonce a\<rparr>) (ts_accounts native),
       si_gas_used := ts_gas_used_total native, si_fees_burned := ts_fees_burned_total native,
       si_validators := update_first mine (\<lambda>v. v\<lparr>va_vault := vault, va_locked := locked,
          va_produced := produced\<rparr>) (si_validators d),
       si_base_issuance := issuance,
       si_credits := si_credits d @ [\<lparr>rc_slot = sv_slot view, rc_validator = va_id v, rc_amount = reward\<rparr>]
     \<rparr>))))))))))"

section \<open>The wire codecs\<close>

interpretation app_reader: byte_reader app_take
  by unfold_locales
    (auto simp: app_take_def poash_take_def usize_checked_add_def slice_read_cur try_res_Inr_iff split: if_splits)

lemmas app_take_prefix [codec_simps] = app_reader.rd_prefix

lemma app_take_one [codec_simps]:
  "length p + 1 < usize_limit \<Longrightarrow> app_take (Suc 0) (cur p (b # rest)) = Inr ([b], cur (p @ [b]) rest)"
  using app_take_prefix [of "[b]" 1 p rest] by simp

lemma block_entries_enc:
  assumes "\<forall>tx \<in> set txs. length tx = SIGNED_LEN"
    and "length p + 203 * length txs < usize_limit"
  shows "block_entries (length txs) (cur p (concat (map entry_bytes txs) @ rest)) =
     Inr (txs, cur (p @ concat (map entry_bytes txs)) rest)"
  using assms
proof (induction txs arbitrary: p)
  case (Cons tx txs)
  then show ?case
    using Cons.IH [where p = "(p @ be_bytes (of_nat SIGNED_LEN :: u32)) @ tx"]
    by (simp add: codec_simps native_lens)
qed simp

lemma block_entries_dec:
  assumes "block_entries n (cur p q) = Inr (txs, d)"
  obtains rest where "q = concat (map entry_bytes txs) @ rest" "d = cur (p @ concat (map entry_bytes txs)) rest"
    "length txs = n" "\<forall>tx \<in> set txs. length tx = SIGNED_LEN"
  using assms
proof (induction n arbitrary: p q txs thesis)
  case 0
  then show ?case by auto
next
  case (Suc n)
  from Suc.prems(2) obtain lb d1 tx d2 txs' where 1: "app_take 4 (cur p q) = Inr (lb, d1)"
    and lb: "be_word lb = (of_nat SIGNED_LEN :: u32)"
    and 2: "app_take SIGNED_LEN d1 = Inr (tx, d2)"
    and 3: "block_entries n d2 = Inr (txs', d)" and txs: "txs = tx # txs'"
    by (auto simp: try_res_Inr_iff split: if_splits prod.splits)
  from 1 obtain q1 where q1: "q = lb @ q1" "length lb = 4" "d1 = cur (p @ lb) q1"
    by (rule app_reader.rd_cases)
  from 2 [unfolded q1(3)] obtain q2 where q2: "q1 = tx @ q2" "length tx = SIGNED_LEN"
    "d2 = cur ((p @ lb) @ tx) q2"
    by (rule app_reader.rd_cases)
  from Suc.IH [OF _ 3 [unfolded q2(3)]] obtain rest where rest: "q2 = concat (map entry_bytes txs') @ rest"
    "d = cur (((p @ lb) @ tx) @ concat (map entry_bytes txs')) rest" "length txs' = n"
    "\<forall>tx \<in> set txs'. length tx = SIGNED_LEN"
    by blast
  have "lb = be_bytes (of_nat SIGNED_LEN :: u32)"
    using lb q1(2) by (auto intro!: nb_word_field)
  with q1 q2 rest txs show ?case
    by (intro Suc.prems(1)) auto
qed

text \<open>The blocks that the constructor returns, with the array widths of the source.\<close>

definition c1_block_ok :: "hasher \<Rightarrow> c1_block \<Rightarrow> bool" where
  "c1_block_ok K b \<longleftrightarrow> header_wf (hc_header (cb_claim b)) \<and>
     (\<forall>tx \<in> set (cb_transactions b). length tx = SIGNED_LEN) \<and>
     block_from_parts K (hc_header (cb_claim b)) (hc_producer (cb_claim b)) (cb_protocol b) (cb_transactions b) = Inr b"

lemma block_from_parts_Inr:
  assumes "block_from_parts K h p pd txs = Inr b"
  shows "cb_claim b = \<lparr>hc_header = h, hc_producer = p, hc_count = of_nat (length txs)\<rparr>" "cb_protocol b = pd"
    "cb_transactions b = txs" "pd_missed_proposer pd = None" "length txs \<le> 16"
    "p \<in> {str ''trial-A'', str ''trial-B''}" "ordered_transaction_root K (map (hash_with_domain K ID_DOMAIN) txs) = Some (bh_transaction_root h)"
    "header_claim_new K h p (of_nat (length txs)) = Inr (cb_claim b)"
proof -
  from assms obtain c where c: "header_claim_new K h p (of_nat (length txs)) = Inr c" "length txs \<le> unat MAX_ENTRIES"
    "b = \<lparr>cb_claim = c, cb_protocol = pd, cb_transactions = txs\<rparr>" "pd_missed_proposer pd = None"
    "Some (bh_transaction_root (hc_header c)) = ordered_transaction_root K (map (hash_with_domain K ID_DOMAIN) txs)"
    by (auto simp: block_from_parts_def try_res_Inr_iff Let_def split: if_splits)
  from header_claim_new_Inr [OF c(1)] c
  show "cb_claim b = \<lparr>hc_header = h, hc_producer = p, hc_count = of_nat (length txs)\<rparr>" "cb_protocol b = pd"
    "cb_transactions b = txs" "pd_missed_proposer pd = None" "length txs \<le> 16"
    "ordered_transaction_root K (map (hash_with_domain K ID_DOMAIN) txs) = Some (bh_transaction_root h)"
    "header_claim_new K h p (of_nat (length txs)) = Inr (cb_claim b)"
    by (simp_all add: MAX_ENTRIES_def)
  from c(1) show "p \<in> {str ''trial-A'', str ''trial-B''}"
    by (auto simp: header_claim_new_def split: if_splits)
qed

lemma c1_block_okD:
  assumes "c1_block_ok K b"
  shows "header_wf (hc_header (cb_claim b))" "\<forall>tx \<in> set (cb_transactions b). length tx = SIGNED_LEN"
    "length (cb_transactions b) \<le> 16" "length (hc_producer (cb_claim b)) = 7"
    "utf8_valid (hc_producer (cb_claim b))" "pd_missed_proposer (cb_protocol b) = None"
proof -
  note ok = assms [unfolded c1_block_ok_def]
  from ok show "header_wf (hc_header (cb_claim b))" "\<forall>tx \<in> set (cb_transactions b). length tx = SIGNED_LEN"
    by simp_all
  from ok have "block_from_parts K (hc_header (cb_claim b)) (hc_producer (cb_claim b)) (cb_protocol b)
      (cb_transactions b) = Inr b" by simp
  note p = block_from_parts_Inr [OF this]
  from p(4,5,6) show "length (cb_transactions b) \<le> 16" "length (hc_producer (cb_claim b)) = 7"
    "utf8_valid (hc_producer (cb_claim b))" "pd_missed_proposer (cb_protocol b) = None"
    by (auto simp: str_def)
qed

lemma length_block_wire_bytes:
  assumes "c1_block_ok K b" "digest32 K"
  shows "length (block_wire_bytes K b) = 295 + 203 * length (cb_transactions b)"
  using c1_block_okD [OF assms(1)] assms(2) length_entries [of "cb_transactions b"]
  by (simp add: block_wire_bytes_def length_header_bytes length_protocol_data_bytes BLOCK_HEADER_LEN_def
      c1_block_hash_def claim_hash_def header_hash_def hash_with_domain_def digest32_def)

lemma block_dec_enc:
  assumes "c1_block_ok K b" "digest32 K"
  shows "block_from_wire_bytes K (block_wire_bytes K b) = Inr b"
proof -
  note wf = c1_block_okD [OF assms(1)]
  let ?txs = "cb_transactions b" and ?p = "hc_producer (cb_claim b)"
  have lt: "unat (of_nat (length ?txs) :: u64) = length ?txs"
    using wf by (auto intro!: unat_of_nat_small)
  have pd: "protocol_data_from_bytes (protocol_data_bytes (cb_protocol b)) = Some (cb_protocol b)"
    "length (protocol_data_bytes (cb_protocol b)) = 10"
    using wf by (simp_all add: protocol_data_dec_enc wf_simps length_protocol_data_bytes)
  have h: "length (header_bytes (hc_header (cb_claim b))) = 229"
    using wf by (simp add: length_header_bytes BLOCK_HEADER_LEN_def)
  have e: "length (concat (map entry_bytes ?txs)) = 203 * length ?txs"
    using wf by (intro length_entries) auto
  have r: "block_entries (length ?txs) (cur q (concat (map entry_bytes ?txs))) =
      Inr (?txs, cur (q @ concat (map entry_bytes ?txs)) [])" if "length q \<le> 1000" for q
    using block_entries_enc [of ?txs q "[]"] wf that by (simp add: usize_limit_def)
  have ch: "length (c1_block_hash K b) = 32"
    using assms(2) by (simp add: c1_block_hash_def claim_hash_def header_hash_def hash_with_domain_def digest32_def)
  have ok: "block_from_parts K (hc_header (cb_claim b)) ?p (cb_protocol b) ?txs = Inr b"
    using assms(1) by (simp add: c1_block_ok_def)
  have "length (block_wire_bytes K b) \<le> C1_MAX_BLOCK_BYTES"
    using length_block_wire_bytes [OF assms] wf by (simp add: C1_MAX_BLOCK_BYTES_def MAX_ENTRIES_def)
  then show ?thesis
    using wf lt pd h e r ok ch
    by (simp add: block_from_wire_bytes_def block_wire_bytes_def Let_def start_cursor_cur codec_simps
        header_dec_enc usize_limit_def MAX_ENTRIES_def word_less_nat_alt)
qed

lemma block_enc_dec:
  assumes "block_from_wire_bytes K bs = Inr b"
  shows "c1_block_ok K b \<and> block_wire_bytes K b = bs"
proof -
  from assms obtain wire d1 claimed d2 hb d3 header pl d4 producer d5 dl d6 pb d7 pd cb d8 txs d9 where
    1: "app_take 1 (start_cursor bs) = Inr (wire, d1)" "wire = [INNER_WIRE]"
    and 2: "app_take 32 d1 = Inr (claimed, d2)"
    and 3: "app_take 229 d2 = Inr (hb, d3)" "header_from_bytes hb = Some header"
    and 4: "app_take 4 d3 = Inr (pl, d4)" "be_word pl = (7 :: u32)"
    and 5: "app_take 7 d4 = Inr (producer, d5)"
    and 6: "app_take 4 d5 = Inr (dl, d6)" "be_word dl = (10 :: u32)"
    and 7: "app_take 10 d6 = Inr (pb, d7)" "protocol_data_from_bytes pb = Some pd"
    and 8: "app_take 8 d7 = Inr (cb, d8)" "length bs - at d8 = unat (be_word cb :: u64) * 203"
    and 9: "block_entries (unat (be_word cb :: u64)) d8 = Inr (txs, d9)"
    and b: "block_from_parts K header producer pd txs = Inr b" "c1_block_hash K b = claimed"
    unfolding block_from_wire_bytes_def Let_def
    by (auto simp: try_res_Inr_iff not_less split: if_splits prod.splits)
  from 1 2 3(1) 4(1) 5 6(1) 7(1) 8(1) 9 obtain rest where
    bs: "bs = [INNER_WIRE] @ claimed @ hb @ pl @ producer @ dl @ pb @ cb @ concat (map entry_bytes txs) @ rest"
    and d8: "at d8 = 1 + 32 + 229 + 4 + 7 + 4 + 10 + 8"
    and len: "length claimed = 32" "length hb = 229" "length pl = 4" "length producer = 7" "length dl = 4"
      "length pb = 10" "length cb = 8" "length txs = unat (be_word cb :: u64)"
      "\<forall>tx \<in> set txs. length tx = SIGNED_LEN"
    unfolding start_cursor_cur
    by (auto elim!: app_reader.rd_cases block_entries_dec)
  have rest: "rest = []"
    using 8(2) length_entries [OF len(9)] unfolding d8 len(8) [symmetric] by (simp add: bs len)
  have h: "header_wf header" "header_bytes header = hb"
    using header_enc_dec [OF 3(2)] by auto
  have pd: "protocol_data_bytes pd = pb" using protocol_data_10 [OF 7(2) len(6)] by auto
  have w: "pl = be_bytes (7 :: u32)" "dl = be_bytes (10 :: u32)" "cb = be_bytes (of_nat (length txs) :: u64)"
    using len 4(2) 6(2) by (auto intro!: nb_word_field simp: be_word_def)
  note p = block_from_parts_Inr [OF b(1)]
  show ?thesis
    using h pd w b p len(4,9) rest
    by (simp add: c1_block_ok_def block_wire_bytes_def bs)
qed

definition c1_envelope_ok :: "hasher \<Rightarrow> c1_envelope \<Rightarrow> bool" where
  "c1_envelope_ok K e \<longleftrightarrow> c1_block_ok K (ce_block e) \<and> length (ce_network e) = 32 \<and> length (ce_signature e) = 65"

lemma c1_envelope_dec_enc:
  assumes "c1_envelope_ok K e" "digest32 K"
  shows "c1_envelope_from_wire_bytes K (c1_envelope_wire_bytes K e) = Inr e"
proof -
  let ?inner = "block_wire_bytes K (ce_block e)"
  have wf: "c1_block_ok K (ce_block e)" "length (ce_network e) = 32" "length (ce_signature e) = 65"
    using assms(1) by (simp_all add: c1_envelope_ok_def)
  have l: "length ?inner = 295 + 203 * length (cb_transactions (ce_block e))"
    by (rule length_block_wire_bytes [OF wf(1) assms(2)])
  have n: "length (cb_transactions (ce_block e)) \<le> 16" using c1_block_okD [OF wf(1)] by simp
  then have u: "unat (of_nat (length ?inner) :: u32) = length ?inner"
    using l by (intro unat_of_nat_small) simp
  have t: "app_take 65 (cur p (ce_signature e)) = Inr (ce_signature e, cur (p @ ce_signature e) [])"
    if "length p < 10000" for p
    using app_reader.rd_all [of "ce_signature e" 65 p] wf that by (simp add: usize_limit_def)
  show ?thesis
    using wf u n block_dec_enc [OF wf(1) assms(2)] l t
    by (simp add: c1_envelope_from_wire_bytes_def c1_envelope_wire_bytes_def Let_def start_cursor_cur codec_simps
        usize_limit_def C1_MAX_ENVELOPE_BYTES_def C1_MAX_BLOCK_BYTES_def MAX_ENTRIES_def usize_checked_add_def)
qed

lemma c1_envelope_enc_dec:
  assumes "c1_envelope_from_wire_bytes K bs = Inr e"
  shows "c1_envelope_ok K e \<and> c1_envelope_wire_bytes K e = bs"
proof -
  from assms obtain wire d1 enc d2 rules d3 network d4 lb d5 inner d6 block signature d7 where
    1: "app_take 1 (start_cursor bs) = Inr (wire, d1)" "wire = [OUTER_WIRE]"
    and 2: "app_take 1 d1 = Inr (enc, d2)" "enc = [AUTH_ENCODING]"
    and 3: "app_take 4 d2 = Inr (rules, d3)" "be_word rules = AUTH_RULES"
    and 4: "app_take 32 d3 = Inr (network, d4)"
    and 5: "app_take 4 d4 = Inr (lb, d5)"
      "usize_checked_add (unat (be_word lb :: u32)) 107 = Some (length bs)"
    and 6: "app_take (unat (be_word lb :: u32)) d5 = Inr (inner, d6)"
    and 7: "block_from_wire_bytes K inner = Inr block"
    and 8: "app_take 65 d6 = Inr (signature, d7)"
    and e: "e = \<lparr>ce_block = block, ce_network = network, ce_signature = signature\<rparr>"
    unfolding c1_envelope_from_wire_bytes_def Let_def
    by (auto simp: try_res_Inr_iff not_less split: if_splits prod.splits)
  from 1 2 3(1) 4 5(1) 6 8 obtain rest where
    bs: "bs = [OUTER_WIRE, AUTH_ENCODING] @ rules @ network @ lb @ inner @ signature @ rest"
    and len: "length rules = 4" "length network = 32" "length lb = 4" "length inner = unat (be_word lb :: u32)"
      "length signature = 65"
    unfolding start_cursor_cur by (auto elim!: app_reader.rd_cases)
  have rest: "rest = []"
    using 5(2) len by (auto simp: bs usize_checked_add_def split: if_splits)
  note b = block_enc_dec [OF 7]
  have w: "rules = be_bytes AUTH_RULES" "lb = be_bytes (of_nat (length inner) :: u32)"
    using len 3(2) by (auto intro!: nb_word_field simp: be_word_def)
  show ?thesis
    using b w len rest e by (simp add: c1_envelope_ok_def c1_envelope_wire_bytes_def bs Let_def)
qed

lemma c1_envelope_canonical:
  assumes "digest32 K"
  shows "c1_envelope_from_wire_bytes K bs = Inr e \<longleftrightarrow> c1_envelope_ok K e \<and> c1_envelope_wire_bytes K e = bs"
  using c1_envelope_dec_enc [OF _ assms] c1_envelope_enc_dec by blast

end
