(* ===== verification/Poash_Chain.thy ===== *)
theory Poash_Chain
  imports Poash_Application
begin

text \<open>
  The chain that the transitions of the closed experiment build, slot by slot: start the slot, stage
  the native body, select the producer, build its block, apply the compound transition and extend the
  trusted prefix. Nothing here models further code; the theorems compose
  \<open>Native_Transfer\<close>, \<open>Poash_Selection\<close>, \<open>Poash_State\<close>, \<open>Poash_History\<close> and \<open>Poash_Application\<close>.
\<close>

section \<open>What a body does to the accounts\<close>

abbreviation nonce_weight :: "transfer_state \<Rightarrow> nat" where
  "nonce_weight s \<equiv> bm_sum (\<lambda>a. unat (ta_nonce a)) (ts_accounts s)"

lemma account_nonce_weight:
  "(case map_of (ts_accounts s) a of None \<Rightarrow> 0 | Some x \<Rightarrow> unat (ta_nonce x)) = unat (ta_nonce (account s a))"
  by (simp add: account_def default_account_def split: option.splits)

lemma length_bm_insert:
  "bm_wf m \<Longrightarrow> length (bm_insert k v m) = (if k \<in> fst ` set m then length m else Suc (length m))"
proof (induction m)
  case (Cons e m)
  then show ?case by (cases e) (auto simp: bm_wf_def)
qed simp

lemma apply_transfer_growth:
  assumes "apply_transfer s out p slot = Inr (s', out')" and "bm_wf (ts_accounts s)"
  shows "nonce_weight s' = Suc (nonce_weight s) \<and> length (ts_accounts s') \<le> Suc (length (ts_accounts s)) \<and>
     length (ts_accounts s) \<le> length (ts_accounts s') \<and> fst ` set (ts_accounts s) \<subseteq> fst ` set (ts_accounts s')"
proof (rule apply_transfer_elim [OF assms(1) refl])
  let ?t = "st_unsigned (at_transaction p)" and ?w = "\<lambda>a. unat (ta_nonce a)" and ?m = "ts_accounts s"
  let ?f = "ut_sender ?t" and ?r = "ut_recipient ?t"
  fix ns nr
  assume nonce: "ut_nonce ?t = ta_nonce (account s ?f)" "unat (ta_nonce ns) = Suc (unat (ut_nonce ?t))"
    and self: "?f = ?r \<Longrightarrow> nr = None \<and> unat (ta_balance_quarks ns) + 10000 = unat (ta_balance_quarks (account s ?f)) \<and>
       unat (ut_value ?t) + 10000 \<le> unat (ta_balance_quarks (account s ?f))"
    and other: "?f \<noteq> ?r \<Longrightarrow> unat (ta_balance_quarks ns) + unat (ut_value ?t) + 10000 = unat (ta_balance_quarks (account s ?f))"
    and zero: "?f \<noteq> ?r \<Longrightarrow> ut_value ?t = 0 \<Longrightarrow> nr = None"
    and credit: "?f \<noteq> ?r \<Longrightarrow> ut_value ?t \<noteq> 0 \<Longrightarrow> \<exists>r. nr = Some r \<and>
       unat (ta_balance_quarks r) = unat (ta_balance_quarks (account s ?r)) + unat (ut_value ?t) \<and>
       ta_nonce r = ta_nonce (account s ?r)"
    and acc: "ts_accounts s' = (case nr of None \<Rightarrow> bm_insert ?f ns ?m | Some r \<Rightarrow> bm_insert ?r r (bm_insert ?f ns ?m))"
  have "map_of ?m ?f \<noteq> None"
    using self other by (cases "?f = ?r") (auto simp: account_def default_account_def split: option.splits)
  then have mem: "?f \<in> fst ` set ?m" by (simp add: map_of_eq_None_iff)
  note one = bm.weigh_ins [OF assms(2), of ?w ?f ns, unfolded account_nonce_weight]
  have wf: "bm_wf (bm_insert ?f ns ?m)" by (rule bm_wf_insert [OF assms(2)])
  consider "nr = None" | r where "?f \<noteq> ?r" "nr = Some r" "ta_nonce r = ta_nonce (account s ?r)"
    using self zero credit by fastforce
  then show ?thesis
  proof cases
    case 1
    with one acc nonce mem show ?thesis
      by (auto simp: length_bm_insert [OF assms(2)] set_fst_bm_insert)
  next
    case 2
    with acc nonce mem bm.weigh_two [OF assms(2) 2(1), of ?w r ns, unfolded account_nonce_weight] show ?thesis
      by (auto simp: length_bm_insert [OF assms(2)] length_bm_insert [OF wf] set_fst_bm_insert)
  qed
qed

lemma execute_proofs_growth:
  assumes "execute_proofs i s out slot ps = Inr (s', out')" and "bm_wf (ts_accounts s)"
  shows "nonce_weight s' = nonce_weight s + length ps \<and>
     length (ts_accounts s') \<le> length (ts_accounts s) + length ps \<and>
     length (ts_accounts s) \<le> length (ts_accounts s') \<and> fst ` set (ts_accounts s) \<subseteq> fst ` set (ts_accounts s')"
  using assms
proof (induction ps arbitrary: i s out)
  case (Cons p ps)
  then obtain s1 out1 where a: "apply_transfer s out p slot = Inr (s1, out1)"
    and r: "execute_proofs (Suc i) s1 out1 slot ps = Inr (s', out')"
    by (auto simp: try_res_Inr_iff)
  from Cons.IH [OF r apply_transfer_wf [OF a Cons.prems(2)]] apply_transfer_growth [OF a Cons.prems(2)]
  show ?case by simp (blast intro: order_trans)
qed simp

text \<open>Everything a staged body guarantees about its candidate.\<close>

lemma stage_body_growth:
  assumes "stage_body C s ctx slot body = Inr sb" and wf: "bm_wf (ts_accounts s)"
  shows "bm_wf (ts_accounts (sb_candidate sb)) \<and>
     total_balance (sb_candidate sb) + 10000 * length body = total_balance s \<and>
     nonce_weight (sb_candidate sb) = nonce_weight s + length body \<and>
     length (ts_accounts (sb_candidate sb)) \<le> length (ts_accounts s) + length body \<and>
     length (ts_accounts s) \<le> length (ts_accounts (sb_candidate sb)) \<and>
     fst ` set (ts_accounts s) \<subseteq> fst ` set (ts_accounts (sb_candidate sb)) \<and>
     unat (ts_gas_used_total (sb_candidate sb)) = unat (ts_gas_used_total s) + 1000 * length body \<and>
     unat (ts_fees_burned_total (sb_candidate sb)) = unat (ts_fees_burned_total s) + 10000 * length body \<and>
     unat (bo_gas_used (ab_outcome (sb_record sb))) = 1000 * length body \<and>
     unat (bo_fees_burned (ab_outcome (sb_record sb))) = 10000 * length body \<and>
     ab_transactions (sb_record sb) = body"
proof -
  from assms(1) obtain ps out where l: "list_all2 (\<lambda>b p. authenticate C b ctx None = Inr p) body ps"
    and e: "execute_proofs 0 s default_outcome slot ps = Inr (sb_candidate sb, out)"
    and r: "sb_record sb = \<lparr>ab_context = ctx, ab_slot = slot, ab_transactions = body, ab_outcome = out\<rparr>"
    by (rule stage_body_elim)
  show ?thesis
    using execute_proofs_total [OF e wf] execute_proofs_refines [OF e] execute_proofs_growth [OF e wf]
      list_all2_lengthD [OF l] r by (simp add: default_outcome_def)
qed

section \<open>The native view of a snapshot\<close>

abbreviation account_of :: "poash_account \<Rightarrow> address \<times> transfer_account" where
  "account_of a \<equiv> (pa_address a, \<lparr>ta_balance_quarks = pa_balance a, ta_nonce = pa_nonce a\<rparr>)"

abbreviation row_of :: "address \<times> transfer_account \<Rightarrow> poash_account" where
  "row_of \<equiv> (\<lambda>(address, a). \<lparr>pa_address = address, pa_balance = ta_balance_quarks a, pa_nonce = ta_nonce a\<rparr>)"

lemma native_accounts:
  assumes "sorted (map pa_address (si_accounts (cs_data s)))" "distinct (map pa_address (si_accounts (cs_data s)))"
  shows "ts_accounts (native_state s) = map account_of (si_accounts (cs_data s))"
    and "bm_wf (ts_accounts (native_state s))"
proof -
  have "foldl (\<lambda>m a. bm_insert (pa_address a) \<lparr>ta_balance_quarks = pa_balance a, ta_nonce = pa_nonce a\<rparr> m) [] as =
      map account_of as" if "sorted_wrt (<) (map pa_address as)" for as
    using that
  proof (induction as rule: rev_induct)
    case (snoc a as)
    then show ?case
      using bm_insert_last [of "map account_of as" "pa_address a"] by (auto simp: sorted_wrt_append)
  qed simp
  moreover have lt: "sorted_wrt (<) (map pa_address (si_accounts (cs_data s)))"
    using assms by (simp add: strict_sorted_iff)
  ultimately show eq: "ts_accounts (native_state s) = map account_of (si_accounts (cs_data s))"
    by (simp add: native_state_def)
  show "bm_wf (ts_accounts (native_state s))"
    using lt by (simp add: eq bm_wf_def comp_def)
qed

lemma account_sums:
  "balances (map row_of m) = bm_sum (\<lambda>a. unat (ta_balance_quarks a)) m"
  "nonce_total (map row_of m) = bm_sum (\<lambda>a. unat (ta_nonce a)) m"
  "bm_sum (\<lambda>a. unat (ta_balance_quarks a)) (map account_of as) = balances as"
  "bm_sum (\<lambda>a. unat (ta_nonce a)) (map account_of as) = nonce_total as"
  "map pa_address (map row_of m) = map fst m"
  by (induction m) (auto simp: bm_sum_def comp_def intro: arg_cong)

section \<open>Rewarding the producer\<close>

lemma update_first_map:
  "distinct (map g xs) \<Longrightarrow> update_first (\<lambda>x. g x = k) f xs = map (\<lambda>x. if g x = k then f x else x) xs"
proof (induction xs)
  case (Cons x xs)
  then have "\<forall>y \<in> set xs. g y \<noteq> g x" using imageI [of _ "set xs" g] by (metis distinct.simps(2) list.set_map list.simps(9))
  then have "map (\<lambda>y. if g y = g x then f y else y) xs = xs" by (intro map_idI) simp
  with Cons show ?case by auto
qed simp

definition rewarded :: "validator \<Rightarrow> validator" where
  "rewarded v = v\<lparr>va_vault := va_vault v + 10000000, va_locked := va_locked v + 10000000, va_produced := va_produced v + 1\<rparr>"

text \<open>The widths that a validator of an accepted snapshot leaves for one more reward.\<close>

lemma reward_fits:
  assumes ok: "snapshot_ok pol d" and v: "v \<in> set (si_validators d)"
  shows "unat (va_vault (rewarded v)) = unat (va_vault v) + 10000000"
    "unat (va_locked (rewarded v)) = unat (va_locked v) + 10000000"
    "unat (va_produced (rewarded v)) = unat (va_produced v) + 1"
    "unat (si_base_issuance d + 10000000) = unat (si_base_issuance d) + 10000000"
proof -
  note s = ok [unfolded snapshot_ok_def]
  have slot: "unat (po_slot (si_position d)) \<le> 200" using s by (simp add: word_le_nat_alt MAX_SLOTS_def)
  have "unat (va_vault v) \<le> vaults (si_validators d)" "unat (va_produced v) \<le> production (si_validators d)"
    using v by (simp_all add: member_le_sum_list)
  moreover have "va_locked v \<le> va_vault v"
    using s v by (simp add: eligibility_valid_def validator_ok_def)
  ultimately have "unat (va_vault v) \<le> 1752000000000000 + 2000000000" "unat (va_locked v) \<le> unat (va_vault v)"
    "unat (va_produced v) \<le> 200" "unat (si_base_issuance d) \<le> 2000000000"
    using s slot by (simp_all add: supply_ok_def word_le_nat_alt)
  then show "unat (va_vault (rewarded v)) = unat (va_vault v) + 10000000"
    "unat (va_locked (rewarded v)) = unat (va_locked v) + 10000000"
    "unat (va_produced (rewarded v)) = unat (va_produced v) + 1"
    "unat (si_base_issuance d + 10000000) = unat (si_base_issuance d) + 10000000"
    by (simp_all add: rewarded_def unat_word_ariths(1))
qed

lemma rewarded_fields [simp]:
  "va_id (rewarded v) = va_id v" "va_status (rewarded v) = va_status v" "va_misses (rewarded v) = va_misses v"
  "va_offenses (rewarded v) = va_offenses v" "va_cooldown_until (rewarded v) = va_cooldown_until v"
  by (simp_all add: rewarded_def)

abbreviation reward_one :: "text_bytes \<Rightarrow> validator list \<Rightarrow> validator list" where
  "reward_one i vs \<equiv> map (\<lambda>v. if va_id v = i then rewarded v else v) vs"

lemma eligibility_map:
  assumes e: "eligibility_valid vs ts"
    and u: "\<And>v. v \<in> set vs \<Longrightarrow> va_id (u v) = va_id v \<and> va_status (u v) = va_status v \<and>
      va_cooldown_until (u v) = va_cooldown_until v \<and> va_vault v \<le> va_vault (u v) \<and> va_locked (u v) \<le> va_vault (u v)"
  shows "eligibility_valid (map u vs) ts"
proof -
  have ids: "map va_id (map u vs) = map va_id vs" using u by simp
  have fit: "ticket_fits (u v) t \<longleftrightarrow> ticket_fits v t" "minimum_vault ts (u v) = minimum_vault ts v" if "v \<in> set vs" for v t
    using u [OF that] by (simp_all add: ticket_fits_def minimum_vault_def)
  have 1: "\<forall>v \<in> set (map u vs). validator_ok v"
    using e u by (simp add: eligibility_valid_def validator_ok_def)
  have 2: "\<exists>v \<in> set (map u vs). va_id v = tk_owner t \<and> ticket_fits v t" if "t \<in> set ts" for t
  proof -
    from e that obtain v where "v \<in> set vs" "va_id v = tk_owner t" "ticket_fits v t"
      by (auto simp: eligibility_valid_def)
    with u fit show ?thesis by auto
  qed
  have 3: "(\<exists>t \<in> set ts. tk_owner t = va_id (u v) \<and> tk_status t = TActive) \<and> minimum_vault ts (u v) \<le> va_vault (u v)"
    if v: "v \<in> set vs" "va_status (u v) = VActive" for v
  proof -
    have "va_status v = VActive" using u v by simp
    with e v(1) have "(\<exists>t \<in> set ts. tk_owner t = va_id v \<and> tk_status t = TActive) \<and> minimum_vault ts v \<le> va_vault v"
      by (simp add: eligibility_valid_def)
    with u [OF v(1)] fit(2) [OF v(1)] show ?thesis by (auto intro: order_trans)
  qed
  from e 1 2 3 show ?thesis unfolding eligibility_valid_def ids by simp
qed

lemma reward_eligible:
  assumes ok: "snapshot_ok pol d"
  shows "eligibility_valid (reward_one i (si_validators d)) (si_tickets d)"
proof (rule eligibility_map)
  show e: "eligibility_valid (si_validators d) (si_tickets d)" using ok by (simp add: snapshot_ok_def)
  fix v assume v: "v \<in> set (si_validators d)"
  then have "va_locked v \<le> va_vault v" using e by (simp add: eligibility_valid_def validator_ok_def)
  with reward_fits [OF ok v]
  show "va_id (if va_id v = i then rewarded v else v) = va_id v \<and>
      va_status (if va_id v = i then rewarded v else v) = va_status v \<and>
      va_cooldown_until (if va_id v = i then rewarded v else v) = va_cooldown_until v \<and>
      va_vault v \<le> va_vault (if va_id v = i then rewarded v else v) \<and>
      va_locked (if va_id v = i then rewarded v else v) \<le> va_vault (if va_id v = i then rewarded v else v)"
    by (simp add: word_le_nat_alt)
qed

text \<open>Sums over the validators change at the rewarded one only.\<close>

lemma reward_sum:
  fixes w :: "validator \<Rightarrow> nat"
  assumes "distinct (map va_id vs)" "v \<in> set vs" "va_id v = i" "w (rewarded v) = w v + k"
  shows "sum_list (map w (reward_one i vs)) = sum_list (map w vs) + k"
  using assms
proof (induction vs)
  case (Cons x vs)
  have same: "map w (reward_one i vs) = map w vs" if "i \<notin> va_id ` set vs"
    using that by (auto intro!: map_cong)
  show ?case
  proof (cases "x = v")
    case True
    with Cons.prems have "i \<notin> va_id ` set vs" by auto
    with True Cons.prems(3,4) same show ?thesis by (simp del: map_map)
  next
    case False
    with Cons.prems have "va_id x \<noteq> i" by (metis distinct.simps(2) imageI list.set_map list.simps(9) set_ConsD)
    with False Cons show ?thesis by simp
  qed
qed simp

lemma reward_credits:
  assumes ok: "snapshot_ok pol d" and slot: "unat (po_slot (si_position d)) < 200"
    and v: "v \<in> set (si_validators d)" and known: "\<exists>c \<in> set (pol_configs pol). vc_id c = va_id v"
  defines "s' \<equiv> po_slot (si_position d) + 1"
  shows "\<exists>sums. check_credits pol s' 0 [] (si_credits d @ [\<lparr>rc_slot = s', rc_validator = va_id v, rc_amount = 10000000\<rparr>]) =
       Inr sums \<and> (\<forall>w \<in> set (reward_one (va_id v) (si_validators d)). vault_ok sums w)"
    and "sorted (map rc_slot (si_credits d @ [\<lparr>rc_slot = s', rc_validator = va_id v, rc_amount = 10000000\<rparr>]))"
proof -
  note s = ok [unfolded snapshot_ok_def]
  let ?s = "po_slot (si_position d)"
  have u: "unat s' = Suc (unat ?s)" using slot by (simp add: s'_def unat_word_ariths(1))
  then have lt: "?s < s'" "s' \<noteq> 0" by (auto simp: word_less_nat_alt)
  from s obtain sums where sums: "check_credits pol ?s 0 [] (si_credits d) = Inr sums"
    "\<forall>w \<in> set (si_validators d). vault_ok sums w" by blast
  note old = check_credits_mono [OF sums(1), of s'] check_credits_slots [OF sums(1)]
  have last: "last_slot 0 (si_credits d) \<noteq> s'"
    using last_slot_in [of 0 "si_credits d"] old(2) lt by fastforce
  have cs: "credit_sum sums (va_id v) = (va_produced v, va_locked v)"
    using sums(2) v by (simp add: vault_ok_def)
  note fits = reward_fits [OF ok v]
  define sums' where "sums' = bm_insert (va_id v) (va_produced v + 1, va_locked v + 10000000) sums"
  have add: "checked_add (va_locked v) 10000000 = Some (va_locked v + 10000000)"
    using fits(2) by (simp add: checked_add_unat_iff rewarded_def)
  have "check_credits pol s' 0 [] (si_credits d @ [\<lparr>rc_slot = s', rc_validator = va_id v, rc_amount = 10000000\<rparr>]) = Inr sums'"
    using old(1) lt last known cs add
    by (simp add: check_credits_append reward_value sums'_def)
  moreover have "vault_ok sums' (if va_id w = va_id v then rewarded w else w)" if w: "w \<in> set (si_validators d)" for w
  proof (cases "va_id w = va_id v")
    case True
    have "distinct (map va_id (si_validators d))" using s by (simp add: eligibility_valid_def)
    with True w v have wv: "w = v" by (metis distinct_map inj_onD)
    have "checked_add INITIAL_VAULT (va_locked v) = Some (va_vault v)" using sums(2) v by (simp add: vault_ok_def)
    then have "unat (va_vault (rewarded v)) = unat INITIAL_VAULT + unat (va_locked (rewarded v))"
      using fits by (simp add: checked_add_unat_iff)
    then show ?thesis
      by (simp add: wv vault_ok_def sums'_def credit_sum_insert checked_add_unat_iff) (simp add: rewarded_def)
  next
    case False
    with sums(2) w show ?thesis by (simp add: vault_ok_def sums'_def credit_sum_insert)
  qed
  ultimately show "\<exists>sums. check_credits pol s' 0 [] (si_credits d @ [\<lparr>rc_slot = s', rc_validator = va_id v, rc_amount = 10000000\<rparr>]) =
       Inr sums \<and> (\<forall>w \<in> set (reward_one (va_id v) (si_validators d)). vault_ok sums w)"
    unfolding set_map ball_simps by blast
  show "sorted (map rc_slot (si_credits d @ [\<lparr>rc_slot = s', rc_validator = va_id v, rc_amount = 10000000\<rparr>]))"
    using s old(2) lt by (fastforce simp: sorted_snapshot_def sorted_append)
qed

section \<open>The producer's block\<close>

lemma ordered_root_16:
  "length ids \<le> 16 \<Longrightarrow> ordered_transaction_root K ids = Some (K (root_preimage ids))"
  by (rule ordered_transaction_root_small) (simp add: MAX_TRANSACTIONS_def)

lemma build_block:
  assumes st: "stage_body C s ctx slot body = Inr sb" and wf: "bm_wf (ts_accounts s)" and n: "length body \<le> 16"
    and slot: "1 \<le> sv_slot view" "sv_slot view \<le> MAX_SLOTS"
    and sel: "sl_owner sel \<in> {str ''trial-A'', str ''trial-B''}" "sl_ticket sel \<noteq> 0"
  obtains block where "block_build (c_keccak C) view sel body (ab_outcome (sb_record sb)) = Inr block"
    "block_match_outcome (c_keccak C) block (ab_outcome (sb_record sb)) = Inr ()"
    "cb_transactions block = body" "hc_producer (cb_claim block) = sl_owner sel"
    "header_claim_new (c_keccak C) (hc_header (cb_claim block)) (sl_owner sel) (of_nat (length body)) = Inr (cb_claim block)"
    "bh_slot (hc_header (cb_claim block)) = sv_slot view"
    "bh_parent_hash (hc_header (cb_claim block)) = po_hash (sv_parent view)"
    "bh_ticket_id (hc_header (cb_claim block)) = sl_ticket sel"
    "bh_proposer_id (hc_header (cb_claim block)) = proposer_id (c_keccak C) (sl_owner sel)"
    "unat (bh_gas_used (hc_header (cb_claim block))) = 1000 * length body"
proof -
  let ?K = "c_keccak C" and ?out = "ab_outcome (sb_record sb)" and ?n = "of_nat (length body) :: u16"
  note g = stage_body_growth [OF st wf] and ids = staged_body_entries(2) [OF st]
  define pd where "pd = \<lparr>pd_missed_proposer = None, pd_fees_burned = bo_fees_burned ?out\<rparr>"
  define root where "root = ?K (root_preimage (bo_transaction_ids ?out))"
  define h where "h = \<lparr>bh_protocol_version = HEADER_PROFILE, bh_chain_id = CHAIN_ID, bh_slot = sv_slot view,
         bh_block_kind = Validator, bh_parent_hash = po_hash (sv_parent view),
         bh_proposer_id = proposer_id ?K (sl_owner sel), bh_ticket_id = sl_ticket sel,
         bh_transaction_root = root, bh_state_root = replicate 32 0,
         bh_receipts_root = EMPTY_RECEIPTS_ROOT ?K, bh_gas_used = bo_gas_used ?out,
         bh_protocol_data_root = protocol_data_root ?K pd\<rparr>"
  have root: "ordered_transaction_root ?K (bo_transaction_ids ?out) = Some root"
    unfolding root_def by (rule ordered_root_16) (simp add: ids n)
  have un: "unat (ucast ?n :: u64) = length body" "unat ?n = length body"
    using n by (simp_all add: unsigned_ucast_eq take_bit_eq_mod unat_of_nat_small)
  have gas: "bo_gas_used ?out = ucast ?n * 1000" "bo_fees_burned ?out = ucast ?n * 10000"
    using g un n by (simp_all add: word_unat_eq_iff unat_word_ariths(2))
  have empty: "root = EMPTY_TX_ROOT ?K" if "?n = 0"
  proof -
    from that un(2) have "body = []" by simp
    then show ?thesis using ids
      by (simp add: root_def root_preimage_def EMPTY_TX_ROOT_def keccak256_def)
  qed
  have claim: "header_claim_new ?K h (sl_owner sel) ?n = Inr \<lparr>hc_header = h, hc_producer = sl_owner sel, hc_count = ?n\<rparr>"
    using slot sel un n gas empty
    by (auto simp: header_claim_new_def h_def pd_def MAX_ENTRIES_def word_less_nat_alt not_less)
  define block where "block = \<lparr>cb_claim = \<lparr>hc_header = h, hc_producer = sl_owner sel, hc_count = ?n\<rparr>,
     cb_protocol = pd, cb_transactions = body\<rparr>"
  have parts: "block_from_parts ?K h (sl_owner sel) pd body = Inr block"
    using claim n root by (simp add: block_from_parts_def block_def h_def pd_def ids MAX_ENTRIES_def Let_def)
  then have "block_build ?K view sel body ?out = Inr block"
    using root by (simp add: block_build_def Let_def h_def pd_def)
  then show thesis
    by (rule that) (use claim g in \<open>simp_all add: block_def block_match_outcome_def ids h_def pd_def\<close>)
qed

section \<open>The invariant of the chain\<close>

definition chain_state :: "hasher \<Rightarrow> genesis \<Rightarrow> closed_state \<Rightarrow> bool" where
  "chain_state K g st \<longleftrightarrow> snapshot_ok (ge_policy g) (cs_data st) \<and> st = sealed K (ge_policy g) (cs_data st) \<and>
     supported st = Inr () \<and> length (si_accounts (cs_data st)) \<le> 3 + 16 * state_slot st \<and>
     unat (si_gas_used (cs_data st)) \<le> 16000 * state_slot st"

lemma approved_policy_fields [simp]:
  "pol_configs (ge_policy (approved_genesis K l)) = approved_configs"
  "pol_tickets (ge_policy (approved_genesis K l)) = demo_tickets"
  "pol_seeds (ge_policy (approved_genesis K l)) = map pa_address expected_accounts"
  by (simp_all add: approved_genesis_def approved_policy_def)

lemma initial_chain_state: "chain_state K (approved_genesis K l) (ge_initial (approved_genesis K l))"
proof -
  have "snapshot_ok (ge_policy (approved_genesis K l)) (approved_snapshot K)"
    by (rule approved_snapshot_ok) simp_all
  then show ?thesis
    by (simp add: chain_state_def approved_genesis_def sealed_def supported_def)
      (simp add: approved_snapshot_def initial_snapshot_def expected_accounts_sorted approved_configs_def
        initial_validator_def ticket_active_def)
qed

definition next_data :: "snapshot_input \<Rightarrow> transfer_state \<Rightarrow> validator \<Rightarrow> hash \<Rightarrow> snapshot_input" where
  "next_data d native v h =
     (let s' = po_slot (si_position d) + 1 in d\<lparr>
       si_position := \<lparr>po_slot = s', po_hash = h\<rparr>, si_accounts := map row_of (ts_accounts native),
       si_gas_used := ts_gas_used_total native, si_fees_burned := ts_fees_burned_total native,
       si_validators := reward_one (va_id v) (si_validators d),
       si_base_issuance := si_base_issuance d + 10000000,
       si_credits := si_credits d @ [\<lparr>rc_slot = s', rc_validator = va_id v, rc_amount = 10000000\<rparr>]\<rparr>)"

lemma next_data_fields [simp]:
  "si_position (next_data d native v h) = \<lparr>po_slot = po_slot (si_position d) + 1, po_hash = h\<rparr>"
  "si_accounts (next_data d native v h) = map row_of (ts_accounts native)"
  "si_validators (next_data d native v h) = reward_one (va_id v) (si_validators d)"
  "si_tickets (next_data d native v h) = si_tickets d"
  "si_credits (next_data d native v h) = si_credits d @
     [\<lparr>rc_slot = po_slot (si_position d) + 1, rc_validator = va_id v, rc_amount = 10000000\<rparr>]"
  "si_gas_used (next_data d native v h) = ts_gas_used_total native"
  "si_fees_burned (next_data d native v h) = ts_fees_burned_total native"
  "si_base_issuance (next_data d native v h) = si_base_issuance d + 10000000"
  by (simp_all add: next_data_def Let_def)

lemma next_supply_ok:
  assumes ok: "snapshot_ok pol d" and slot: "unat (po_slot (si_position d)) < 200"
    and v: "v \<in> set (si_validators d)" and gas: "unat (si_gas_used d) \<le> 16000 * unat (po_slot (si_position d))"
    and n: "n \<le> 16" "total_balance native + 10000 * n = balances (si_accounts d)"
      "nonce_weight native = nonce_total (si_accounts d) + n"
      "unat (ts_gas_used_total native) = unat (si_gas_used d) + 1000 * n"
      "unat (ts_fees_burned_total native) = unat (si_fees_burned d) + 10000 * n"
  shows "supply_ok (next_data d native v h)"
proof -
  note s = ok [unfolded snapshot_ok_def]
  have dist: "distinct (map va_id (si_validators d))" using s by (simp add: eligibility_valid_def)
  note fits = reward_fits [OF ok v]
  have u: "unat (po_slot (si_position d) + 1) = unat (po_slot (si_position d)) + 1"
    using slot by (simp add: unat_word_ariths(1))
  have p: "production (reward_one (va_id v) (si_validators d)) = production (si_validators d) + 1"
    by (rule reward_sum [OF dist v refl]) (simp add: fits)
  have q: "vaults (reward_one (va_id v) (si_validators d)) = vaults (si_validators d) + 10000000"
    by (rule reward_sum [OF dist v refl]) (simp add: fits)
  have "supply_ok d" using s by simp
  then show ?thesis
    unfolding supply_ok_def next_data_fields p q account_sums fits(4)
    using n gas slot u unfolding total_balance_def by simp
qed

lemma next_snapshot_ok:
  assumes ok: "snapshot_ok pol d" and slot: "unat (po_slot (si_position d)) < 200"
    and v: "v \<in> set (si_validators d)" and known: "\<exists>c \<in> set (pol_configs pol). vc_id c = va_id v"
    and gas: "unat (si_gas_used d) \<le> 16000 * unat (po_slot (si_position d))"
    and n: "n \<le> 16" "total_balance native + 10000 * n = balances (si_accounts d)"
      "nonce_weight native = nonce_total (si_accounts d) + n"
      "unat (ts_gas_used_total native) = unat (si_gas_used d) + 1000 * n"
      "unat (ts_fees_burned_total native) = unat (si_fees_burned d) + 10000 * n"
    and acc: "bm_wf (ts_accounts native)" "3 \<le> length (ts_accounts native)"
      "length (ts_accounts native) \<le> 3 + 16 * (unat (po_slot (si_position d)) + 1)"
      "pa_address ` set (si_accounts d) \<subseteq> fst ` set (ts_accounts native)"
  shows "snapshot_ok pol (next_data d native v h)"
proof -
  note s = ok [unfolded snapshot_ok_def]
  let ?d = "next_data d native v h"
  have u: "unat (po_slot (si_position d) + 1) = unat (po_slot (si_position d)) + 1"
    using slot by (simp add: unat_word_ariths(1))
  have ids: "map va_id (reward_one (va_id v) (si_validators d)) = map va_id (si_validators d)" by simp
  have addr: "map pa_address (si_accounts ?d) = map fst (ts_accounts native)"
    using account_sums(5) by simp
  have lt: "sorted (map fst (ts_accounts native))" "distinct (map fst (ts_accounts native))"
    using acc(1) by (simp_all add: bm_wf_def strict_sorted_iff)
  have z: "(\<exists>(v, c) \<in> set (zip vs cs). va_id v \<noteq> vc_id c) \<longleftrightarrow> (\<exists>(i, c) \<in> set (zip (map va_id vs) cs). i \<noteq> vc_id c)"
    for vs and cs :: "validator_config list"
    by (auto simp: zip_map1 image_iff) force
  have "(\<exists>(v, c) \<in> set (zip (reward_one (va_id v) (si_validators d)) (pol_configs pol)). va_id v \<noteq> vc_id c) \<longleftrightarrow>
      (\<exists>(v, c) \<in> set (zip (si_validators d) (pol_configs pol)). va_id v \<noteq> vc_id c)"
    by (simp only: z ids)
  then have "check_identities pol ?d = check_identities pol d"
    unfolding check_identities_def next_data_fields by (simp only:)
  moreover have "sorted_snapshot ?d"
    using s reward_credits(2) [OF ok slot v known] lt
    unfolding sorted_snapshot_def addr unfolding next_data_fields ids by simp
  moreover have "\<exists>sums. check_credits pol (po_slot (si_position ?d)) 0 [] (si_credits ?d) = Inr sums \<and>
        (\<forall>v \<in> set (si_validators ?d). vault_ok sums v)"
    using reward_credits(1) [OF ok slot v known] by simp
  moreover have "pa_address ` set (si_accounts ?d) = fst ` set (ts_accounts native)"
    using addr by (metis list.set_map)
  moreover have "unat (po_slot (si_position ?d)) \<le> 200" "length (si_credits ?d) = unat (po_slot (si_position ?d))"
    "3 \<le> length (si_accounts ?d)" "length (si_accounts ?d) \<le> MAX_ACCOUNTS" "length (si_tickets ?d) = 2"
    "eligibility_valid (si_validators ?d) (si_tickets ?d)"
    using s acc u slot reward_eligible [OF ok] by (simp_all add: MAX_ACCOUNTS_def MAX_ENTRIES_def MAX_SLOTS_def)
  moreover have "set (pol_seeds pol) \<subseteq> fst ` set (ts_accounts native)" using s acc(4) by blast
  moreover have "check_identities pol d = Inr ()" using s by simp
  ultimately show ?thesis
    using next_supply_ok [OF ok slot v gas n] lt(2)
    unfolding snapshot_ok_def addr
    by (simp only: simp_thms MAX_SLOTS_def word_le_nat_alt) simp
qed

section \<open>Rows, selection and linkage of a chain state\<close>

abbreviation trial_A :: text_bytes where "trial_A \<equiv> str ''trial-A''"
abbreviation trial_B :: text_bytes where "trial_B \<equiv> str ''trial-B''"

lemma trial_names_differ [simp]: "trial_A \<noteq> trial_B" "trial_B \<noteq> trial_A"
  by (simp_all add: str_def)

lemma chain_rows:
  assumes "snapshot_ok (ge_policy (approved_genesis K l)) d"
  obtains a b t u where "si_validators d = [a, b]" "va_id a = trial_A" "va_id b = trial_B"
    "si_tickets d = [t, u]" "tk_id t = 1" "tk_owner t = trial_A" "tk_id u = 255" "tk_owner u = trial_B"
proof -
  have l: "length (si_validators d) = 2" "length (si_tickets d) = 2"
    and i: "check_identities (ge_policy (approved_genesis K l)) d = Inr ()"
    using assms by (simp_all add: snapshot_ok_def eligibility_valid_def)
  from l obtain a b t u where ab: "si_validators d = [a, b]" "si_tickets d = [t, u]"
    by (auto simp: length_two)
  with i show thesis
    by (intro that [of a b t u]) (auto simp: check_identities_def approved_configs_def ticket_active_def split: if_splits)
qed

lemma chain_selects:
  assumes ch: "chain_state K (approved_genesis K l) (sv_state view)"
    and slot: "1 \<le> sv_slot view" "sv_slot view \<le> MAX_SLOTS"
  obtains sel where "view_select K view = Inr sel"
    "(sl_owner sel, sl_ticket sel) \<in> {(trial_A, 1), (trial_B, 255)}"
proof -
  let ?d = "cs_data (sv_state view)"
  have ok: "snapshot_ok (ge_policy (approved_genesis K l)) ?d" and sup: "supported (sv_state view) = Inr ()"
    using ch by (simp_all add: chain_state_def)
  obtain a b t u where r: "si_validators ?d = [a, b]" "va_id a = trial_A" "va_id b = trial_B"
    "si_tickets ?d = [t, u]" "tk_id t = 1" "tk_owner t = trial_A" "tk_id u = 255" "tk_owner u = trial_B"
    using ok by (rule chain_rows)
  have el: "eligible_tickets (si_validators ?d) (si_tickets ?d) = [t, u]"
    using sup r by (auto simp: eligible_tickets_def supported_def split: if_splits)
  have valid: "eligibility_valid (si_validators ?d) (si_tickets ?d)" using ok by (simp add: snapshot_ok_def)
  obtain sel where sel: "view_select K view = Inr sel"
    using select_inputs_complete [OF valid slot, of K "sv_reference view" 0]
    unfolding view_select_def el by auto
  have "\<exists>x \<in> {t, u}. tk_id x = sl_ticket sel \<and> tk_owner x = sl_owner sel"
    using select_inputs_sound [OF sel [unfolded view_select_def]] unfolding selects_def el by auto
  with sel r show thesis by (intro that) auto
qed

lemma chain_successor:
  assumes ok: "snapshot_ok (ge_policy (approved_genesis K l)) d"
    and ids: "proposer_id K trial_A \<noteq> proposer_id K trial_B"
    and owner: "(va_id v, bh_ticket_id h) \<in> {(trial_A, 1), (trial_B, 255)}" "v \<in> set (si_validators d)"
    and h: "bh_parent_hash h = hh_hash prev" "bh_proposer_id h = proposer_id K (va_id v)"
      "header_claim_new K h (va_id v) (of_nat n) = Inr c" "unat (bh_gas_used h) = 1000 * n" "n \<le> 16"
    and native: "unat (ts_gas_used_total native) = unat (si_gas_used d) + 1000 * n"
      "unat (ts_fees_burned_total native) = unat (si_fees_burned d) + 10000 * n"
  shows "check_successor K (approved_genesis K l) prev
       \<lparr>rc_slot = po_slot (si_position d) + 1, rc_validator = va_id v, rc_amount = 10000000\<rparr>
       (po_slot (si_position d) + 1) \<lparr>hh_header = h, hh_hash = hash\<rparr> (snapshot_totals d) =
     Inr (snapshot_totals (next_data d native v hash'))"
proof -
  let ?i = "if va_id v = trial_A then 0 else 1 :: nat"
  have two: "va_id v = trial_A \<or> va_id v = trial_B" using owner(1) by auto
  have pos: "position_of (\<lambda>v. proposer_id K (vc_id v) = bh_proposer_id h) approved_configs = Some ?i"
    using two ids by (elim disjE) (simp_all add: approved_configs_def h(2))
  have name: "vc_id (approved_configs ! ?i) = va_id v"
    using two by (elim disjE) (simp_all add: approved_configs_def)
  have tick: "\<exists>t \<in> set demo_tickets. tk_id t = bh_ticket_id h \<and> tk_owner t = va_id v"
    using owner(1) by (auto simp: ticket_active_def)
  have cnt: "unat (bh_gas_used h div 1000) = n" using h(4) by (simp add: unat_div)
  have tn: "try_from_nat (unat (bh_gas_used h div 1000)) = Some (of_nat n :: u16)"
    using h(5) by (simp add: cnt try_from_nat_def)
  have gas: "checked_add (si_gas_used d) (bh_gas_used h) = Some (ts_gas_used_total native)"
    using native(1) h(4) by (simp add: checked_add_unat_iff)
  have "unat (ucast (bh_gas_used h div 1000) * 10000 :: u128) = 10000 * n"
    using cnt h(5) by (simp add: unat_word_ariths(2) unat_ucast_up)
  then have fees: "checked_add (si_fees_burned d) (ucast (bh_gas_used h div 1000) * 10000) = Some (ts_fees_burned_total native)"
    using native(2) by (simp add: checked_add_unat_iff)
  obtain a b where r: "si_validators d = [a, b]" "va_id a = trial_A" "va_id b = trial_B"
    using ok by (rule chain_rows)
  have counts: "(map va_produced (si_validators d))[?i := map va_produced (si_validators d) ! ?i + 1] =
      map va_produced (reward_one (va_id v) (si_validators d))"
    using owner r by (auto simp: rewarded_def)
  show ?thesis
    unfolding check_successor_def
    using h(1,3) pos name tick tn gas fees counts
    by (simp add: Let_def del: list.map)
qed

section \<open>One slot\<close>

lemma compound_next:
  assumes ok: "snapshot_ok (ge_policy (sv_genesis view)) (cs_data (sv_state view))"
    and sup: "supported (sv_state view) = Inr ()"
    and sel: "view_select K view = Inr sel"
    and v: "List.find (\<lambda>v. va_id v = sl_owner sel) (si_validators (cs_data (sv_state view))) = Some v"
    and slot: "sv_slot view = po_slot (sv_parent view) + 1"
    and b: "bh_slot (hc_header (cb_claim block)) = sv_slot view"
      "bh_parent_hash (hc_header (cb_claim block)) = po_hash (sv_parent view)"
      "hc_producer (cb_claim block) = sl_owner sel" "bh_ticket_id (hc_header (cb_claim block)) = sl_ticket sel"
      "block_match_outcome K block outcome = Inr ()"
    and new: "snapshot_ok (ge_policy (sv_genesis view)) (next_data (cs_data (sv_state view)) native v (c1_block_hash K block))"
  shows "compound K view block native outcome =
    Inr (sealed K (ge_policy (sv_genesis view)) (next_data (cs_data (sv_state view)) native v (c1_block_hash K block)))"
proof -
  let ?d = "cs_data (sv_state view)" and ?pol = "ge_policy (sv_genesis view)"
  have vd: "v \<in> set (si_validators ?d)" "va_id v = sl_owner sel" using find_Some_D [OF v] by auto
  have dist: "distinct (map va_id (si_validators ?d))" using ok by (simp add: snapshot_ok_def eligibility_valid_def)
  note fits = reward_fits [OF ok vd(1)]
  have adds: "checked_add (va_vault v) 10000000 = Some (va_vault v + 10000000)"
    "checked_add (va_locked v) 10000000 = Some (va_locked v + 10000000)"
    "checked_add (va_produced v) 1 = Some (va_produced v + 1)"
    "checked_add (si_base_issuance ?d) 10000000 = Some (si_base_issuance ?d + 10000000)"
    using fits by (simp_all add: checked_add_unat_iff rewarded_def)
  have upd: "update_first (\<lambda>v. va_id v = sl_owner sel) (\<lambda>x. x\<lparr>va_vault := va_vault v + 10000000,
      va_locked := va_locked v + 10000000, va_produced := va_produced v + 1\<rparr>) (si_validators ?d) =
      reward_one (sl_owner sel) (si_validators ?d)"
  proof -
    have "x = v" if "x \<in> set (si_validators ?d)" "va_id x = sl_owner sel" for x
      using that vd dist by (metis distinct_map inj_onD)
    then show ?thesis unfolding update_first_map [OF dist] by (auto simp: rewarded_def)
  qed
  have "checked K ?pol (next_data ?d native v (c1_block_hash K block)) =
      Inr (sealed K ?pol (next_data ?d native v (c1_block_hash K block)))"
    using new by (simp add: checked_Inr_iff sort_snapshot_id snapshot_ok_def)
  then show ?thesis
    using sup sel v b adds upd slot vd
    by (simp add: compound_def Let_def reward_value next_data_def)
qed

text \<open>What a staged native body means for the snapshot it started from.\<close>

lemma stage_native_effect:
  assumes ch: "chain_state K g (sv_state view)" and staged: "stage_native C view body = Inr (native, record)"
  defines "d \<equiv> cs_data (sv_state view)"
  obtains sb where
    "stage_body C (native_state (sv_state view)) (native_context (sv_genesis view)) (sv_slot view) body = Inr sb"
    "bm_wf (ts_accounts (native_state (sv_state view)))" "record = sb_record sb" "length body \<le> 16"
    "total_balance native + 10000 * length body = balances (si_accounts d)"
    "nonce_weight native = nonce_total (si_accounts d) + length body"
    "unat (ts_gas_used_total native) = unat (si_gas_used d) + 1000 * length body"
    "unat (ts_fees_burned_total native) = unat (si_fees_burned d) + 10000 * length body"
    "bm_wf (ts_accounts native)" "3 \<le> length (ts_accounts native)"
    "length (ts_accounts native) \<le> 3 + 16 * (state_slot (sv_state view) + 1)"
    "pa_address ` set (si_accounts d) \<subseteq> fst ` set (ts_accounts native)"
    "unat (ts_gas_used_total native) \<le> 16000 * (state_slot (sv_state view) + 1)"
proof -
  let ?st = "sv_state view"
  note inv = ch [unfolded chain_state_def]
  have srt: "sorted (map pa_address (si_accounts d))" "distinct (map pa_address (si_accounts d))" "3 \<le> length (si_accounts d)"
    using inv by (simp_all add: snapshot_ok_def sorted_snapshot_def d_def)
  note na = native_accounts [OF srt(1,2) [unfolded d_def], folded d_def]
  from staged obtain sb where sb: "stage_body C (native_state ?st) (native_context (sv_genesis view)) (sv_slot view) body = Inr sb"
    "native = sb_candidate sb" "record = sb_record sb" and n: "length body \<le> 16"
    by (auto simp: stage_native_def try_res_Inr_iff MAX_ENTRIES_def split: if_splits)
  note gr = stage_body_growth [OF sb(1) na(2)]
  have "total_balance (native_state ?st) = balances (si_accounts d)" "nonce_weight (native_state ?st) = nonce_total (si_accounts d)"
    "length (ts_accounts (native_state ?st)) = length (si_accounts d)"
    "fst ` set (ts_accounts (native_state ?st)) = pa_address ` set (si_accounts d)"
    "ts_gas_used_total (native_state ?st) = si_gas_used d" "ts_fees_burned_total (native_state ?st) = si_fees_burned d"
    unfolding total_balance_def na(1) account_sums by (simp_all add: image_image native_state_def d_def)
  with gr n inv srt show thesis
    by (intro that [OF sb(1) na(2) sb(3) n]) (simp_all add: sb(2) d_def)
qed

lemma chain_step:
  assumes pre: "from_trusted_history (c_keccak C) (approved_genesis (c_keccak C) l) hs st = Inr pc"
    and ch: "chain_state (c_keccak C) (approved_genesis (c_keccak C) l) st" and lt: "state_slot st < 200"
    and ids: "proposer_id (c_keccak C) trial_A \<noteq> proposer_id (c_keccak C) trial_B"
    and start: "slot_start (c_keccak C) pc = Inr view"
    and staged: "stage_native C view body = Inr (native, record)"
  obtains sel block st' pc' where "view_select (c_keccak C) view = Inr sel"
    "block_build (c_keccak C) view sel body (ab_outcome record) = Inr block"
    "compound (c_keccak C) view block native (ab_outcome record) = Inr st'"
    "from_trusted_history (c_keccak C) (approved_genesis (c_keccak C) l)
       (hs @ [\<lparr>hh_header = hc_header (cb_claim block), hh_hash = c1_block_hash (c_keccak C) block\<rparr>]) st' = Inr pc'"
    "chain_state (c_keccak C) (approved_genesis (c_keccak C) l) st'" "state_slot st' = Suc (state_slot st)"
    "\<exists>v \<in> set (si_validators (cs_data st)). st' = sealed (c_keccak C) (ge_policy (approved_genesis (c_keccak C) l))
       (next_data (cs_data st) native v (c1_block_hash (c_keccak C) block))"
    "pa_address ` set (si_accounts (cs_data st)) \<subseteq> fst ` set (ts_accounts native)"
proof -
  let ?K = "c_keccak C" and ?g = "approved_genesis (c_keccak C) l" and ?d = "cs_data st"
  have pc: "pc_state pc = st" "pc_genesis pc = ?g" and hsl: "hh_hash (last hs) = po_hash (si_position ?d)"
    using pre by (simp_all add: from_trusted_history_Inr_iff)
  have view: "sv_state view = st" "sv_genesis view = ?g" "sv_slot view = po_slot (si_position ?d) + 1"
    using start slot_start_next [OF pre] lt pc by (auto simp: next_view_def Let_def)
  have u: "unat (po_slot (si_position ?d) + 1) = Suc (state_slot st)" using lt by (simp add: unat_word_ariths(1))
  have slot: "1 \<le> sv_slot view" "sv_slot view \<le> MAX_SLOTS"
    using u lt by (simp_all add: view word_le_nat_alt MAX_SLOTS_def)
  note inv = ch [unfolded chain_state_def]
  have ok: "snapshot_ok (ge_policy ?g) ?d" using inv by blast
  then have len: "length (si_validators ?d) = 2" "length (si_credits ?d) = state_slot st"
    by (simp_all add: snapshot_ok_def eligibility_valid_def)
  obtain sb where sb: "stage_body C (native_state st) (native_context ?g) (sv_slot view) body = Inr sb"
    "bm_wf (ts_accounts (native_state st))" "record = sb_record sb" and n: "length body \<le> 16"
    and eff: "total_balance native + 10000 * length body = balances (si_accounts ?d)"
      "nonce_weight native = nonce_total (si_accounts ?d) + length body"
      "unat (ts_gas_used_total native) = unat (si_gas_used ?d) + 1000 * length body"
      "unat (ts_fees_burned_total native) = unat (si_fees_burned ?d) + 10000 * length body"
    and acc: "bm_wf (ts_accounts native)" "3 \<le> length (ts_accounts native)"
      "length (ts_accounts native) \<le> 3 + 16 * (state_slot st + 1)"
      "pa_address ` set (si_accounts ?d) \<subseteq> fst ` set (ts_accounts native)"
    and gas: "unat (ts_gas_used_total native) \<le> 16000 * (state_slot st + 1)"
    using ch by (rule stage_native_effect [OF _ staged, unfolded view(1,2)])
  obtain sel where sel: "view_select ?K view = Inr sel" "(sl_owner sel, sl_ticket sel) \<in> {(trial_A, 1), (trial_B, 255)}"
    by (rule chain_selects [of ?K l view]) (use ch slot view in simp_all)
  have sel': "sl_owner sel \<in> {trial_A, trial_B}" "sl_ticket sel \<noteq> 0" using sel(2) by auto
  obtain block where b: "block_build ?K view sel body (ab_outcome record) = Inr block"
    "block_match_outcome ?K block (ab_outcome record) = Inr ()"
    "hc_producer (cb_claim block) = sl_owner sel"
    "header_claim_new ?K (hc_header (cb_claim block)) (sl_owner sel) (of_nat (length body)) = Inr (cb_claim block)"
    "bh_slot (hc_header (cb_claim block)) = sv_slot view"
    "bh_parent_hash (hc_header (cb_claim block)) = po_hash (sv_parent view)"
    "bh_ticket_id (hc_header (cb_claim block)) = sl_ticket sel"
    "bh_proposer_id (hc_header (cb_claim block)) = proposer_id ?K (sl_owner sel)"
    "unat (bh_gas_used (hc_header (cb_claim block))) = 1000 * length body"
    unfolding sb(3) by (rule build_block [OF sb(1,2) n slot sel'])
  obtain va vb where r: "si_validators ?d = [va, vb]" "va_id va = trial_A" "va_id vb = trial_B"
    using ok by (rule chain_rows)
  obtain v where v: "List.find (\<lambda>v. va_id v = sl_owner sel) (si_validators ?d) = Some v"
    using sel'(1) r by fastforce
  then have vd: "v \<in> set (si_validators ?d)" "va_id v = sl_owner sel" by (auto dest: find_Some_D)
  let ?n = "next_data ?d native v (c1_block_hash ?K block)" and ?hh = "\<lparr>hh_header = hc_header (cb_claim block), hh_hash = c1_block_hash ?K block\<rparr>"
  define st' where "st' = sealed ?K (ge_policy ?g) ?n"
  have data: "cs_data st' = ?n" "cs_policy st' = ge_policy ?g" by (simp_all add: st'_def sealed_def)
  have known: "\<exists>c \<in> set (pol_configs (ge_policy ?g)). vc_id c = va_id v"
    using sel'(1) vd(2) by (auto simp: approved_configs_def)
  have new: "snapshot_ok (ge_policy ?g) ?n"
    using inv by (intro next_snapshot_ok [OF ok lt vd(1) known _ n eff acc]) simp
  have comp: "compound ?K view block native (ab_outcome record) = Inr st'"
    using compound_next [of view ?K sel v block "ab_outcome record" native] ok inv sel(1) v b new
    by (simp add: view st'_def)
  have "check_successor ?K ?g (last hs) \<lparr>rc_slot = po_slot (si_position ?d) + 1, rc_validator = va_id v, rc_amount = 10000000\<rparr>
      (po_slot (si_position ?d) + 1) ?hh (snapshot_totals ?d) = Inr (snapshot_totals ?n)"
    by (rule chain_successor [OF ok ids _ vd(1) _ _ _ b(9) n eff(3,4)]) (use sel(2) vd b hsl view in simp_all)
  then have ext: "from_trusted_history ?K ?g (hs @ [?hh]) st' =
      Inr \<lparr>pc_genesis = ?g, pc_headers = hs @ [?hh], pc_state = st', pc_id = prefix_id ?K ?g (hs @ [?hh])\<rparr>"
    by (intro prefix_extend [OF pre lt len]) (use b len view in \<open>simp_all add: data\<close>)
  have "supported st' = Inr ()" using inv by (auto simp: supported_def data split: if_splits)
  then have "chain_state ?K ?g st'"
    using new acc gas u unfolding chain_state_def data by (simp add: st'_def sealed_def)
  moreover have "\<exists>v \<in> set (si_validators ?d). st' = sealed ?K (ge_policy ?g) (next_data ?d native v (c1_block_hash ?K block))"
    using vd(1) st'_def by blast
  ultimately show thesis using u acc(4) by (intro that [OF sel(1) b(1) comp ext]) (simp_all add: data)
qed

section \<open>The chain\<close>

text \<open>Every prefix that initialization and whole slots of the closed experiment can produce.\<close>

inductive c1_chain :: "'k crypto \<Rightarrow> genesis \<Rightarrow> prefix_context \<Rightarrow> bool" for C g where
  chain_start: "prefix_initial (c_keccak C) g = Inr pc \<Longrightarrow> c1_chain C g pc"
| chain_slot: "c1_chain C g pc \<Longrightarrow> slot_start (c_keccak C) pc = Inr view \<Longrightarrow>
     stage_native C view body = Inr (native, ab) \<Longrightarrow> view_select (c_keccak C) view = Inr sel \<Longrightarrow>
     block_build (c_keccak C) view sel body (ab_outcome ab) = Inr block \<Longrightarrow>
     compound (c_keccak C) view block native (ab_outcome ab) = Inr st \<Longrightarrow>
     from_trusted_history (c_keccak C) g
       (pc_headers pc @ [\<lparr>hh_header = hc_header (cb_claim block), hh_hash = c1_block_hash (c_keccak C) block\<rparr>]) st = Inr pc' \<Longrightarrow>
     c1_chain C g pc'"

lemma chain_prefix:
  assumes "c1_chain C g pc"
  shows "from_trusted_history (c_keccak C) g (pc_headers pc) (pc_state pc) = Inr pc"
proof -
  from assms obtain hs st where "from_trusted_history (c_keccak C) g hs st = Inr pc"
    by cases (auto simp: prefix_initial_def try_res_Inr_iff)
  moreover from this have "pc_headers pc = hs" "pc_state pc = st" by (simp_all add: from_trusted_history_Inr_iff)
  ultimately show ?thesis by simp
qed

lemma chain_invariant:
  assumes "c1_chain C (approved_genesis (c_keccak C) l) pc"
    and ids: "proposer_id (c_keccak C) trial_A \<noteq> proposer_id (c_keccak C) trial_B"
  shows "chain_state (c_keccak C) (approved_genesis (c_keccak C) l) (pc_state pc)"
  using assms(1)
proof induction
  case (chain_start pc)
  then show ?case using initial_prefix [of "c_keccak C" l] initial_chain_state [of "c_keccak C" l] by auto
next
  case (chain_slot pc view body native ab sel block st pc')
  let ?K = "c_keccak C" and ?g = "approved_genesis (c_keccak C) l"
  have pre: "from_trusted_history ?K ?g (pc_headers pc) (pc_state pc) = Inr pc"
    by (rule chain_prefix [OF chain_slot.hyps(1)])
  have lt: "state_slot (pc_state pc) < 200"
    using slot_start_next [OF pre] chain_slot.hyps(2) by (auto split: if_splits)
  obtain sel' block' st' where "view_select ?K view = Inr sel'"
    "block_build ?K view sel' body (ab_outcome ab) = Inr block'"
    "compound ?K view block' native (ab_outcome ab) = Inr st'" "chain_state ?K ?g st'"
    by (rule chain_step [OF pre chain_slot.IH lt ids chain_slot.hyps(2,3)])
  with chain_slot.hyps have "chain_state ?K ?g st" by simp
  moreover have "pc_state pc' = st" using chain_slot.hyps(7) by (simp add: from_trusted_history_Inr_iff)
  ultimately show ?case by simp
qed

text \<open>A hash whose producer identifiers differ, for the witnesses.\<close>

definition tail_crypto :: "bytes crypto" where
  "tail_crypto = demo_crypto\<lparr>c_keccak := (\<lambda>b. drop (length b) (replicate 32 0 @ b))\<rparr>"

lemma tail_ids: "proposer_id (c_keccak tail_crypto) trial_A \<noteq> proposer_id (c_keccak tail_crypto) trial_B"
  by (simp add: tail_crypto_def proposer_id_def hash_with_domain_def PROPOSER_ID_DOMAIN_def str_def)

lemma stage_native_empty:
  assumes "supported (sv_state view) = Inr ()"
  shows "\<exists>native ab. stage_native C view [] = Inr (native, ab)"
  using assms by (simp add: stage_native_def stage_body_def)

lemma chain_extends:
  assumes "c1_chain C (approved_genesis (c_keccak C) l) pc"
    and ids: "proposer_id (c_keccak C) trial_A \<noteq> proposer_id (c_keccak C) trial_B"
    and "state_slot (pc_state pc) < 200"
  shows "\<exists>view. slot_start (c_keccak C) pc = Inr view \<and> supported (sv_state view) = Inr () \<and>
     (\<forall>body native ab. stage_native C view body = Inr (native, ab) \<longrightarrow>
       (\<exists>sel block st pc'. view_select (c_keccak C) view = Inr sel \<and>
          block_build (c_keccak C) view sel body (ab_outcome ab) = Inr block \<and>
          compound (c_keccak C) view block native (ab_outcome ab) = Inr st \<and>
          from_trusted_history (c_keccak C) (approved_genesis (c_keccak C) l)
            (pc_headers pc @ [\<lparr>hh_header = hc_header (cb_claim block), hh_hash = c1_block_hash (c_keccak C) block\<rparr>]) st = Inr pc' \<and>
          c1_chain C (approved_genesis (c_keccak C) l) pc' \<and>
          state_slot (pc_state pc') = Suc (state_slot (pc_state pc))))"
proof -
  let ?K = "c_keccak C" and ?g = "approved_genesis (c_keccak C) l"
  have pre: "from_trusted_history ?K ?g (pc_headers pc) (pc_state pc) = Inr pc" by (rule chain_prefix [OF assms(1)])
  have inv: "chain_state ?K ?g (pc_state pc)" by (rule chain_invariant [OF assms(1) ids])
  have start: "slot_start ?K pc = Inr (next_view ?K pc)" using slot_start_next [OF pre] assms(3) by simp
  have sup: "supported (sv_state (next_view ?K pc)) = Inr ()"
    using inv by (simp add: next_view_def Let_def chain_state_def)
  show ?thesis
  proof (intro exI [of _ "next_view ?K pc"] conjI allI impI start sup)
    fix body native ab assume st: "stage_native C (next_view ?K pc) body = Inr (native, ab)"
    obtain sel block st' pc' where r: "view_select ?K (next_view ?K pc) = Inr sel"
      "block_build ?K (next_view ?K pc) sel body (ab_outcome ab) = Inr block"
      "compound ?K (next_view ?K pc) block native (ab_outcome ab) = Inr st'"
      "from_trusted_history ?K ?g
         (pc_headers pc @ [\<lparr>hh_header = hc_header (cb_claim block), hh_hash = c1_block_hash ?K block\<rparr>]) st' = Inr pc'"
      and n: "state_slot st' = Suc (state_slot (pc_state pc))"
      by (rule chain_step [OF pre inv assms(3) ids start st])
    have "c1_chain C ?g pc'" by (rule chain_slot [OF assms(1) start st r])
    moreover have "pc_state pc' = st'" using r(4) by (simp add: from_trusted_history_Inr_iff)
    ultimately show "\<exists>sel block st pc'. view_select ?K (next_view ?K pc) = Inr sel \<and>
          block_build ?K (next_view ?K pc) sel body (ab_outcome ab) = Inr block \<and>
          compound ?K (next_view ?K pc) block native (ab_outcome ab) = Inr st \<and>
          from_trusted_history ?K ?g
            (pc_headers pc @ [\<lparr>hh_header = hc_header (cb_claim block), hh_hash = c1_block_hash ?K block\<rparr>]) st = Inr pc' \<and>
          c1_chain C ?g pc' \<and> state_slot (pc_state pc') = Suc (state_slot (pc_state pc))"
      using r n by blast
  qed
qed

lemma chain_reaches:
  assumes ids: "proposer_id (c_keccak C) trial_A \<noteq> proposer_id (c_keccak C) trial_B" and "n \<le> 200"
  shows "\<exists>pc. c1_chain C (approved_genesis (c_keccak C) l) pc \<and> state_slot (pc_state pc) = n"
  using assms(2)
proof (induction n)
  case 0
  obtain pc where pc: "prefix_initial (c_keccak C) (approved_genesis (c_keccak C) l) = Inr pc"
    "pc_state pc = ge_initial (approved_genesis (c_keccak C) l)"
    using initial_prefix by blast
  have "state_slot (ge_initial (approved_genesis (c_keccak C) l)) = 0" by (rule demo_prefix)
  with pc chain_start [OF pc(1)] show ?case by auto
next
  case (Suc n)
  then obtain pc where pc: "c1_chain C (approved_genesis (c_keccak C) l) pc" "state_slot (pc_state pc) = n" by auto
  from chain_extends [OF pc(1) ids] pc(2) Suc.prems obtain view where
    v: "supported (sv_state view) = Inr ()"
    and e: "\<forall>body native ab. stage_native C view body = Inr (native, ab) \<longrightarrow>
       (\<exists>pc'. c1_chain C (approved_genesis (c_keccak C) l) pc' \<and> state_slot (pc_state pc') = Suc n)"
    by fastforce
  from stage_native_empty [OF v, of C] e show ?case by blast
qed

section \<open>Properties\<close>

text \<open>C6. Supply is conserved along the whole experiment: in every state that initialization and whole
  slots reach, balances, vaults and burned fees add up to the initial supply plus one fixed reward per
  slot; every slot has exactly one producer, whose vault grew by its locked rewards; one unit of gas price
  was burned per accepted nonce; and the account table stays within its declared bound. All sums are
  in exact arithmetic, so no width is ever exceeded.\<close>

theorem chain_conserves_supply:
  assumes "c1_chain C (approved_genesis (c_keccak C) l) pc"
    and "proposer_id (c_keccak C) trial_A \<noteq> proposer_id (c_keccak C) trial_B"
  defines "d \<equiv> cs_data (pc_state pc)"
  shows "balances (si_accounts d) + vaults (si_validators d) + unat (si_fees_burned d) =
       1752000000000000 + 10000000 * state_slot (pc_state pc) \<and>
     production (si_validators d) = state_slot (pc_state pc) \<and>
     length (si_credits d) = state_slot (pc_state pc) \<and>
     (\<forall>v \<in> set (si_validators d). unat (va_vault v) = 60000000000000 + unat (va_locked v)) \<and>
     unat (si_fees_burned d) = 10000 * nonce_total (si_accounts d) \<and>
     length (si_accounts d) \<le> 3 + 16 * state_slot (pc_state pc) \<and> state_slot (pc_state pc) \<le> 200"
proof -
  have "chain_state (c_keccak C) (approved_genesis (c_keccak C) l) (pc_state pc)"
    by (rule chain_invariant [OF assms(1,2)])
  then have ok: "snapshot_ok (ge_policy (approved_genesis (c_keccak C) l)) d"
    and len: "length (si_accounts d) \<le> 3 + 16 * state_slot (pc_state pc)"
    by (simp_all add: chain_state_def d_def)
  then have s: "supply_ok d" "length (si_credits d) = unat (po_slot (si_position d))" "po_slot (si_position d) \<le> MAX_SLOTS"
    and "\<exists>sums. \<forall>v \<in> set (si_validators d). vault_ok sums v"
    by (auto simp: snapshot_ok_def)
  then have "\<forall>v \<in> set (si_validators d). checked_add INITIAL_VAULT (va_locked v) = Some (va_vault v)"
    by (auto simp: vault_ok_def)
  then have v: "\<forall>v \<in> set (si_validators d). unat (va_vault v) = 60000000000000 + unat (va_locked v)"
    by (simp add: checked_add_unat_iff INITIAL_VAULT_def)
  have "unat (si_fees_burned d) = 10000 * nonce_total (si_accounts d)"
    using s(1) by (simp add: supply_ok_def)
  with s v len show ?thesis
    by (simp add: supply_ok_def d_def MAX_SLOTS_def word_le_nat_alt)
qed

theorem chain_conserves_supply_witness:
  "\<exists>pc. c1_chain tail_crypto (approved_genesis (c_keccak tail_crypto) [65]) pc \<and>
     balances (si_accounts (cs_data (pc_state pc))) + vaults (si_validators (cs_data (pc_state pc))) +
       unat (si_fees_burned (cs_data (pc_state pc))) = 1752000000000000 + 10000000 * 3"
proof -
  obtain pc where pc: "c1_chain tail_crypto (approved_genesis (c_keccak tail_crypto) [65]) pc" "state_slot (pc_state pc) = 3"
    using chain_reaches [OF tail_ids, of 3 "[65]"] by auto
  from chain_conserves_supply [OF pc(1) tail_ids] pc show ?thesis by auto
qed

text \<open>C24. The chain never gets stuck before its last slot: from every reachable prefix the next slot
  starts on a supported state, and whatever body of at most sixteen entries passes native staging, the
  selection succeeds, the selected producer can build its block, the compound transition accepts it and
  the extended history is accepted as a trusted prefix one slot further. The only step that can
  refuse is the staging of the body itself.\<close>

theorem chain_progress:
  assumes "c1_chain C (approved_genesis (c_keccak C) l) pc"
    and "proposer_id (c_keccak C) trial_A \<noteq> proposer_id (c_keccak C) trial_B"
    and "state_slot (pc_state pc) < 200"
  shows "\<exists>view. slot_start (c_keccak C) pc = Inr view \<and> supported (sv_state view) = Inr () \<and>
     (\<forall>body native ab. stage_native C view body = Inr (native, ab) \<longrightarrow>
       (\<exists>sel block st pc'. view_select (c_keccak C) view = Inr sel \<and>
          block_build (c_keccak C) view sel body (ab_outcome ab) = Inr block \<and>
          compound (c_keccak C) view block native (ab_outcome ab) = Inr st \<and>
          from_trusted_history (c_keccak C) (approved_genesis (c_keccak C) l)
            (pc_headers pc @ [\<lparr>hh_header = hc_header (cb_claim block), hh_hash = c1_block_hash (c_keccak C) block\<rparr>]) st = Inr pc' \<and>
          c1_chain C (approved_genesis (c_keccak C) l) pc' \<and>
          state_slot (pc_state pc') = Suc (state_slot (pc_state pc))))"
  by (rule chain_extends [OF assms])

theorem chain_progress_witness:
  "\<exists>pc view sel. c1_chain tail_crypto (approved_genesis (c_keccak tail_crypto) [65]) pc \<and>
     state_slot (pc_state pc) = 199 \<and> slot_start (c_keccak tail_crypto) pc = Inr view \<and>
     view_select (c_keccak tail_crypto) view = Inr sel"
proof -
  obtain pc where pc: "c1_chain tail_crypto (approved_genesis (c_keccak tail_crypto) [65]) pc" "state_slot (pc_state pc) = 199"
    using chain_reaches [OF tail_ids, of 199 "[65]"] by auto
  from chain_progress [OF pc(1) tail_ids] pc(2) obtain view where v: "slot_start (c_keccak tail_crypto) pc = Inr view"
    "supported (sv_state view) = Inr ()"
    and e: "\<forall>body native ab. stage_native tail_crypto view body = Inr (native, ab) \<longrightarrow>
       (\<exists>sel. view_select (c_keccak tail_crypto) view = Inr sel)" by fastforce
  from stage_native_empty [OF v(2), of tail_crypto] e v(1) pc show ?thesis by blast
qed

text \<open>The envelope of the closed experiment is canonical: the decoder accepts exactly the encodings of
  envelopes around a block that its constructor accepts, and returns that envelope; sizes, trailing
  bytes, a wrong claimed hash or a foreign profile are refused.\<close>

theorem c1_envelope_codec_canonical:
  assumes "digest32 K"
  shows "c1_envelope_from_wire_bytes K bs = Inr e \<longleftrightarrow> c1_envelope_ok K e \<and> c1_envelope_wire_bytes K e = bs"
  by (rule c1_envelope_canonical [OF assms])

theorem c1_envelope_codec_canonical_witness:
  "\<exists>e. c1_envelope_ok (c_keccak tail_crypto) e \<and>
     c1_envelope_from_wire_bytes (c_keccak tail_crypto) (c1_envelope_wire_bytes (c_keccak tail_crypto) e) = Inr e"
proof -
  let ?K = "c_keccak tail_crypto"
  have dg: "digest32 ?K" by (auto simp: tail_crypto_def digest32_def)
  let ?h = "(anchor ?K)\<lparr>bh_slot := 1, bh_proposer_id := proposer_id ?K trial_A\<rparr>"
  have "\<exists>b. block_from_parts ?K ?h trial_A protocol_data_empty [] = Inr b"
    by (simp add: block_from_parts_def header_claim_new_def anchor_def MAX_SLOTS_def MAX_ENTRIES_def
        protocol_data_empty_def ordered_transaction_root_def EMPTY_TX_ROOT_def keccak256_def try_from_nat_def)
  then obtain b where b: "block_from_parts ?K ?h trial_A protocol_data_empty [] = Inr b" by blast
  have "header_wf ?h" using length_anchor(1) [OF dg] dg
    by (simp add: header_wf_def proposer_id_def hash_with_domain_def digest32_def)
  with b block_from_parts_Inr [OF b] have ok: "c1_block_ok ?K b" by (simp add: c1_block_ok_def)
  define e where "e = \<lparr>ce_block = b, ce_network = replicate 32 1, ce_signature = replicate 65 0\<rparr>"
  have "c1_envelope_ok ?K e" using ok by (simp add: c1_envelope_ok_def e_def)
  with c1_envelope_codec_canonical [OF dg] show ?thesis by blast
qed

end
