(* ===== verification/Poash_Snapshot.thy ===== *)
theory Poash_Snapshot
  imports Poash_Chain "HOL-Library.Product_Lexorder"
begin

text \<open>
  The in-memory half of \<open>src/src/native_poash/storage.rs\<close>: records, snapshots with their two indexes,
  preparations, admission and the owner that holds them. The SQLite half is in \<open>Poash_Sql\<close> and
  \<open>Poash_Storage\<close>. The test hooks (\<open>point\<close>) are compiled out of the program and have no counterpart.
  An operation that takes \<open>&mut self\<close> returns the changed owner beside its result.
\<close>

section \<open>Records and snapshots\<close>

record membership =
  me_position :: position
  me_index :: u64

record c1_record =
  rd_proof :: authenticated_envelope
  rd_outcome :: body_outcome
  rd_state :: closed_state

record c1_snapshot =
  sn_state :: closed_state
  sn_records :: "c1_record list"
  sn_transactions :: "(hash \<times> membership) list"
  sn_sender_nonces :: "((address \<times> u64) \<times> membership) list"

abbreviation rd_envelope :: "c1_record \<Rightarrow> c1_envelope" where
  "rd_envelope r \<equiv> ae_envelope (rd_proof r)"

abbreviation rd_block :: "c1_record \<Rightarrow> c1_block" where
  "rd_block r \<equiv> ce_block (rd_envelope r)"

abbreviation rd_position :: "c1_record \<Rightarrow> position" where
  "rd_position r \<equiv> si_position (cs_data (rd_state r))"

definition sn_tip :: "c1_snapshot \<Rightarrow> position" where
  "sn_tip s = si_position (cs_data (sn_state s))"

definition snapshot_initial :: "genesis \<Rightarrow> c1_snapshot" where
  "snapshot_initial g = \<lparr>sn_state = ge_initial g, sn_records = [], sn_transactions = [], sn_sender_nonces = []\<rparr>"

definition snapshot_prefix :: "hasher \<Rightarrow> c1_snapshot \<Rightarrow> genesis \<Rightarrow> app_error + prefix_context" where
  "snapshot_prefix K s g =
     try_res (map_err AProtocol (historical_header_new K (pol_anchor (ge_policy g))
          (header_hash K (pol_anchor (ge_policy g))))) (\<lambda>h0.
     try_res (traverse (\<lambda>_ r. map_err AProtocol (historical_header_new K
          (hc_header (cb_claim (rd_block r))) (c1_block_hash K (rd_block r)))) 0 (sn_records s)) (\<lambda>hs.
     map_err AProtocol (from_trusted_history K g (h0 # hs) (sn_state s))))"

definition sender_nonce :: "bytes \<Rightarrow> address \<times> u64" where
  "sender_nonce b = (field 20 b 46, be_word (field 8 b 66))"

text \<open>The loop of \<open>insert\<close>: a \<open>BTreeMap::insert\<close> that returns an old value is a duplicate.\<close>

fun insert_entries :: "position \<Rightarrow> nat \<Rightarrow> (bytes \<times> hash) list \<Rightarrow> (hash \<times> membership) list \<Rightarrow>
    ((address \<times> u64) \<times> membership) list \<Rightarrow>
    app_error + (hash \<times> membership) list \<times> ((address \<times> u64) \<times> membership) list" where
  "insert_entries p i [] ts ns = Inr (ts, ns)"
| "insert_entries p i ((tx, ident) # es) ts ns =
     (let m = \<lparr>me_position = p, me_index = of_nat i\<rparr> in
      if map_of ts ident \<noteq> None \<or> map_of ns (sender_nonce tx) \<noteq> None then Inl (ADuplicateTransaction i)
      else insert_entries p (Suc i) es (bm_insert ident m ts) (bm_insert (sender_nonce tx) m ns))"

definition record_entries :: "c1_block \<Rightarrow> body_outcome \<Rightarrow> (bytes \<times> hash) list" where
  "record_entries b outcome = zip (cb_transactions b) (bo_transaction_ids outcome)"

definition snapshot_insert :: "hasher \<Rightarrow> c1_record \<Rightarrow> c1_snapshot \<Rightarrow> app_error + c1_snapshot" where
  "snapshot_insert K r s =
     (let b = rd_block r; position = rd_position r in
      try_res (ok_or (AProtocol POverflow) (checked_add (po_slot (sn_tip s)) 1)) (\<lambda>slot.
      if po_slot position \<noteq> slot \<or> bh_parent_hash (hc_header (cb_claim b)) \<noteq> po_hash (sn_tip s) \<or>
         po_hash position \<noteq> c1_block_hash K b
      then Inl (AInvalid ''record successor'')
      else try_res (insert_entries position 0 (record_entries b (rd_outcome r)) (sn_transactions s) (sn_sender_nonces s))
        (\<lambda>(ts, ns).
      Inr \<lparr>sn_state = rd_state r, sn_records = sn_records s @ [r], sn_transactions = ts, sn_sender_nonces = ns\<rparr>)))"

fun insert_records :: "hasher \<Rightarrow> c1_record list \<Rightarrow> c1_snapshot \<Rightarrow> app_error + c1_snapshot" where
  "insert_records K [] s = Inr s"
| "insert_records K (r # rs) s = try_res (snapshot_insert K r s) (insert_records K rs)"

section \<open>The owner\<close>

record base =
  ba_generation :: u64
  ba_genesis :: genesis
  ba_snapshot :: c1_snapshot

record prepared_block =
  pb_base :: base
  pb_block :: c1_block
  pb_candidate :: closed_state
  pb_outcome :: body_outcome

record staged_block =
  sg_base :: base
  sg_record :: c1_record

record attempt =
  tr_base :: base
  tr_record :: c1_record

datatype append_outcome =
    Committed position hash body_outcome
  | Aborted app_error
  | RecoveryRequired app_error

record recovery_report =
  rr_position :: position
  rr_attempted_present :: "bool option"

text \<open>\<open>ow_connected\<close> is \<open>connection.is_some()\<close>; the connection itself belongs to the SQLite state.\<close>

record owner =
  ow_genesis :: genesis
  ow_connected :: bool
  ow_snapshot :: c1_snapshot
  ow_generation :: u64
  ow_poisoned :: bool
  ow_halted :: bool
  ow_attempt :: "attempt option"

definition owner_ready :: "owner \<Rightarrow> app_error + unit" where
  "owner_ready ow = (if ow_poisoned ow then Inl ABlocked else Inr ())"

definition work_ready :: "owner \<Rightarrow> app_error + unit" where
  "work_ready ow = try_res (owner_ready ow) (\<lambda>_. if ow_halted ow then Inl ConflictHalt else Inr ())"

definition owner_view :: "owner \<Rightarrow> app_error + c1_snapshot" where
  "owner_view ow = try_res (owner_ready ow) (\<lambda>_. Inr (ow_snapshot ow))"

definition snapshot_start :: "hasher \<Rightarrow> c1_snapshot \<Rightarrow> genesis \<Rightarrow> app_error + slot_start_view" where
  "snapshot_start K s g = try_res (snapshot_prefix K s g) (\<lambda>pc. map_err AProtocol (slot_start K pc))"

definition owner_slot_start :: "hasher \<Rightarrow> owner \<Rightarrow> app_error + slot_start_view" where
  "owner_slot_start K ow = try_res (work_ready ow) (\<lambda>_. snapshot_start K (ow_snapshot ow) (ow_genesis ow))"

definition SIGN_BASE_DOMAIN :: bytes where
  "SIGN_BASE_DOMAIN = str ''ETERNIX_C1_SIGN_BASE_EVIDENCE'' @ [0]"

definition signing_history :: "hasher \<Rightarrow> owner \<Rightarrow> u64 \<Rightarrow> app_error + slot_start_view \<times> hash" where
  "signing_history K ow slot =
     try_res (work_ready ow) (\<lambda>_.
     if \<not> (1 \<le> slot \<and> slot \<le> MAX_SLOTS) \<or> slot > po_slot (sn_tip (ow_snapshot ow)) + 1
       then Inl (AProtocol (MissingHistory (saturating_sub slot 1)))
     else let rs = take (unat (slot - 1)) (sn_records (ow_snapshot ow)) in
     try_res (insert_records K rs (snapshot_initial (ow_genesis ow))) (\<lambda>prior.
     try_res (snapshot_start K prior (ow_genesis ow)) (\<lambda>view.
     Inr (view, hash_with_domain K SIGN_BASE_DOMAIN
       (pol_network (ge_policy (ow_genesis ow)) @ be_bytes (ucast (slot - 1) :: u16) @
        concat (map (\<lambda>r. c1_envelope_id K (rd_envelope r)) rs))))))"

definition export_envelope :: "hasher \<Rightarrow> owner \<Rightarrow> u64 \<Rightarrow> app_error + bytes" where
  "export_envelope K ow slot =
     try_res (owner_ready ow) (\<lambda>_.
     try_res (ok_or (AInvalid ''unsigned anchor'') (checked_sub slot 1)) (\<lambda>i.
     let rs = sn_records (ow_snapshot ow) in
     if unat i < length rs \<and> po_slot (rd_position (rs ! unat i)) = slot
     then Inr (c1_envelope_wire_bytes K (rd_envelope (rs ! unat i)))
     else Inl (AInvalid ''missing canonical record'')))"

definition owner_base :: "owner \<Rightarrow> base" where
  "owner_base ow = \<lparr>ba_generation = ow_generation ow, ba_genesis = ow_genesis ow, ba_snapshot = ow_snapshot ow\<rparr>"

definition check_base :: "owner \<Rightarrow> base \<Rightarrow> app_error + unit" where
  "check_base ow b =
     try_res (work_ready ow) (\<lambda>_.
     if ba_generation b \<noteq> ow_generation ow \<or> ba_genesis b \<noteq> ow_genesis ow \<or> ba_snapshot b \<noteq> ow_snapshot ow
     then Inl AStale else Inr ())"

fun check_entries :: "c1_snapshot \<Rightarrow> nat \<Rightarrow> (bytes \<times> hash) list \<Rightarrow> hash set \<Rightarrow> (address \<times> u64) set \<Rightarrow>
    app_error + unit" where
  "check_entries s i [] ids used = Inr ()"
| "check_entries s i ((tx, ident) # es) ids used =
     (let nonce = sender_nonce tx in
      if map_of (sn_transactions s) ident \<noteq> None \<or> ident \<in> ids \<or> map_of (sn_sender_nonces s) nonce \<noteq> None \<or>
         nonce \<in> used
      then Inl (ADuplicateTransaction i)
      else check_entries s (Suc i) es (insert ident ids) (insert nonce used))"

definition check_transactions :: "owner \<Rightarrow> c1_block \<Rightarrow> body_outcome \<Rightarrow> app_error + unit" where
  "check_transactions ow block outcome = check_entries (ow_snapshot ow) 0 (record_entries block outcome) {} {}"

definition prepare_next ::
  "'k crypto \<Rightarrow> owner \<Rightarrow> text_bytes \<Rightarrow> u64 \<Rightarrow> bytes list \<Rightarrow> app_error + prepared_block" where
  "prepare_next C ow producer ticket body =
     (let K = c_keccak C in
      try_res (owner_slot_start K ow) (\<lambda>view.
      try_res (map_err AProtocol (view_select K view)) (\<lambda>sel.
      if producer \<noteq> sl_owner sel \<or> ticket \<noteq> sl_ticket sel then Inl (AProtocol NotSelected)
      else try_res (stage_native C view body) (\<lambda>(native, applied).
      try_res (block_build K view sel (ab_transactions applied) (ab_outcome applied)) (\<lambda>block.
      try_res (check_transactions ow block (ab_outcome applied)) (\<lambda>_.
      try_res (compound K view block native (ab_outcome applied)) (\<lambda>candidate.
      Inr \<lparr>pb_base = owner_base ow, pb_block = block, pb_candidate = candidate, pb_outcome = ab_outcome applied\<rparr>)))))))"

text \<open>Only a conflicting statement of the historically selected key halts the owner.\<close>

definition admit :: "hasher \<Rightarrow> owner \<Rightarrow> authenticated_envelope \<Rightarrow> (app_error + unit) \<times> owner" where
  "admit K ow proof =
     (case work_ready ow of Inl e \<Rightarrow> (Inl e, ow) | Inr _ \<Rightarrow>
      let block = ce_block (ae_envelope proof); h = hc_header (cb_claim block) in
      (case List.find (\<lambda>r. po_hash (rd_position r) = c1_block_hash K block) (sn_records (ow_snapshot ow)) of
         Some old \<Rightarrow>
           (if rd_block old \<noteq> block then Inl (AInvalid ''known H exact content'')
            else Inl (AlreadyCommitted (rd_position old) (c1_envelope_id K (rd_envelope old))
                   (c1_envelope_id K (ae_envelope proof))), ow)
       | None \<Rightarrow>
           if bh_slot h \<le> po_slot (sn_tip (ow_snapshot ow)) then
             (case try_res (insert_records K (take (unat (saturating_sub (bh_slot h) 1)) (sn_records (ow_snapshot ow)))
                      (snapshot_initial (ow_genesis ow))) (\<lambda>prior.
                   try_res (snapshot_start K prior (ow_genesis ow)) (\<lambda>view.
                   map_err AProtocol (view_plan K view (ae_header proof)))) of
                Inl e \<Rightarrow> (Inl e, ow)
              | Inr _ \<Rightarrow> (Inl ConflictHalt, ow\<lparr>ow_halted := True\<rparr>))
           else (try_res (owner_slot_start K ow) (\<lambda>view.
                 try_res (map_err AProtocol (view_plan K view (ae_header proof))) (\<lambda>_. Inr ())), ow)))"

definition seal_prepared ::
  "'k crypto \<Rightarrow> owner \<Rightarrow> prepared_block \<Rightarrow> bytes \<Rightarrow> (app_error + staged_block) \<times> owner" where
  "seal_prepared C ow prepared bs =
     (let K = c_keccak C in
      case try_res (check_base ow (pb_base prepared)) (\<lambda>_.
           try_res (c1_envelope_from_wire_bytes K bs) (\<lambda>e.
           try_res (c1_envelope_authenticate C e (ow_genesis ow)) (\<lambda>proof.
           if ce_block (ae_envelope proof) \<noteq> pb_block prepared then Inl PreparedIdentity else Inr proof))) of
        Inl e \<Rightarrow> (Inl e, ow)
      | Inr proof \<Rightarrow>
          (let (admitted, ow') = admit K ow proof in
           (try_res admitted (\<lambda>_. Inr \<lparr>sg_base = pb_base prepared,
              sg_record = \<lparr>rd_proof = proof, rd_outcome = pb_outcome prepared, rd_state = pb_candidate prepared\<rparr>\<rparr>), ow')))"

definition stage_received :: "'k crypto \<Rightarrow> owner \<Rightarrow> bytes \<Rightarrow> (app_error + staged_block) \<times> owner" where
  "stage_received C ow bs =
     (let K = c_keccak C in
      case try_res (work_ready ow) (\<lambda>_.
           try_res (c1_envelope_from_wire_bytes K bs) (\<lambda>e.
           c1_envelope_authenticate C e (ow_genesis ow))) of
        Inl e \<Rightarrow> (Inl e, ow)
      | Inr proof \<Rightarrow>
          (let (admitted, ow') = admit K ow proof in
           (try_res admitted (\<lambda>_.
            try_res (owner_slot_start K ow') (\<lambda>view.
            let block = ce_block (ae_envelope proof) in
            try_res (stage_native C view (cb_transactions block)) (\<lambda>(native, applied).
            try_res (check_transactions ow' block (ab_outcome applied)) (\<lambda>_.
            try_res (compound K view block native (ab_outcome applied)) (\<lambda>st.
            Inr \<lparr>sg_base = owner_base ow',
                 sg_record = \<lparr>rd_proof = proof, rd_outcome = ab_outcome applied, rd_state = st\<rparr>\<rparr>))))), ow')))"

definition uncertain :: app_error where
  "uncertain = AStorage DRecoveryRequired"

definition reconcile :: "attempt option \<Rightarrow> c1_snapshot \<Rightarrow> c1_snapshot \<Rightarrow> app_error + bool option" where
  "reconcile att known loaded =
     (case att of
        None \<Rightarrow>
          if take (length (sn_records known)) (sn_records loaded) \<noteq> sn_records known \<or>
             length (sn_records loaded) = length (sn_records known) \<and> loaded \<noteq> known
          then Inl uncertain else Inr None
      | Some a \<Rightarrow>
          let bs = ba_snapshot (tr_base a); n = length (sn_records bs) in
          if length (sn_records loaded) < n \<or> take n (sn_records loaded) \<noteq> sn_records bs \<or>
             n > 0 \<and> rd_state (sn_records loaded ! (n - 1)) \<noteq> sn_state bs
          then Inl uncertain
          else if n < length (sn_records loaded) then
            (if sn_records loaded ! n \<noteq> tr_record a then Inl uncertain else Inr (Some True))
          else if loaded = bs then Inr (Some False)
          else Inl uncertain)"

section \<open>Replay\<close>

text \<open>One block of the audit of \<open>storage/sql.rs\<close>, from the envelope on: authenticate, plan against the
  replayed prefix, stage the body, compound, insert.\<close>

definition replay_step :: "'k crypto \<Rightarrow> genesis \<Rightarrow> c1_envelope \<Rightarrow> c1_snapshot \<Rightarrow> app_error + c1_snapshot" where
  "replay_step C g e s =
     (let K = c_keccak C in
      try_res (c1_envelope_authenticate C e g) (\<lambda>proof.
      try_res (snapshot_start K s g) (\<lambda>view.
      try_res (map_err AProtocol (view_plan K view (ae_header proof))) (\<lambda>_.
      let block = ce_block (ae_envelope proof) in
      try_res (stage_native C view (cb_transactions block)) (\<lambda>(native, applied).
      try_res (compound K view block native (ab_outcome applied)) (\<lambda>st.
      snapshot_insert K \<lparr>rd_proof = proof, rd_outcome = ab_outcome applied, rd_state = st\<rparr> s))))))"

section \<open>What a replayed block is\<close>

text \<open>The snapshots that the audit can produce, one replayed envelope at a time.\<close>

inductive replayed :: "'k crypto \<Rightarrow> genesis \<Rightarrow> c1_snapshot \<Rightarrow> bool" for C g where
  replay_start: "replayed C g (snapshot_initial g)"
| replay_append: "replayed C g s \<Longrightarrow> c1_envelope_ok (c_keccak C) e \<Longrightarrow> replay_step C g e s = Inr s' \<Longrightarrow> replayed C g s'"

lemma replay_step_Inr:
  assumes "replay_step C g e s = Inr s'"
  obtains pf view native applied st plan where
    "c1_envelope_authenticate C e g = Inr pf" "ae_envelope pf = e"
    "snapshot_start (c_keccak C) s g = Inr view"
    "view_plan (c_keccak C) view (ae_header pf) = Inr plan"
    "stage_native C view (cb_transactions (ce_block e)) = Inr (native, applied)"
    "compound (c_keccak C) view (ce_block e) native (ab_outcome applied) = Inr st"
    "snapshot_insert (c_keccak C) \<lparr>rd_proof = pf, rd_outcome = ab_outcome applied, rd_state = st\<rparr> s = Inr s'"
  using assms
  by (auto simp: replay_step_def Let_def try_res_Inr_iff c1_envelope_authenticate_def)

lemma snapshot_insert_Inr:
  assumes "snapshot_insert K r s = Inr s'"
  obtains ts ns where "insert_entries (rd_position r) 0 (record_entries (rd_block r) (rd_outcome r))
       (sn_transactions s) (sn_sender_nonces s) = Inr (ts, ns)"
    "s' = \<lparr>sn_state = rd_state r, sn_records = sn_records s @ [r], sn_transactions = ts, sn_sender_nonces = ns\<rparr>"
    "checked_add (po_slot (sn_tip s)) 1 = Some (po_slot (rd_position r))"
    "bh_parent_hash (hc_header (cb_claim (rd_block r))) = po_hash (sn_tip s)"
    "po_hash (rd_position r) = c1_block_hash K (rd_block r)"
  using assms by (auto simp: snapshot_insert_def Let_def try_res_Inr_iff split: if_splits)

lemma insert_records_append:
  "insert_records K (rs @ rs') s = try_res (insert_records K rs s) (insert_records K rs')"
  by (induction rs arbitrary: s) (auto simp: try_res_def split: sum.splits)

text \<open>A replayed snapshot is rebuilt by inserting its own records, and so is each of its prefixes.\<close>

lemma replayed_insert_records:
  assumes "replayed C g s"
  shows "insert_records (c_keccak C) (sn_records s) (snapshot_initial g) = Inr s"
  using assms
proof induction
  case replay_start
  then show ?case by (simp add: snapshot_initial_def)
next
  case (replay_append s e s')
  from replay_append.hyps(3) obtain r where "snapshot_insert (c_keccak C) r s = Inr s'" by (rule replay_step_Inr)
  moreover from this have "sn_records s' = sn_records s @ [r]" by (auto elim: snapshot_insert_Inr)
  ultimately show ?case using replay_append.IH by (simp add: insert_records_append)
qed

lemma replayed_take:
  assumes "replayed C g s"
  shows "\<exists>p. insert_records (c_keccak C) (take n (sn_records s)) (snapshot_initial g) = Inr p \<and> replayed C g p \<and>
     sn_records p = take n (sn_records s)"
  using assms
proof (induction arbitrary: n)
  case replay_start
  then show ?case using replayed.replay_start by (auto simp: snapshot_initial_def)
next
  case (replay_append s e s')
  from replay_append.hyps(3) obtain r where r: "snapshot_insert (c_keccak C) r s = Inr s'" by (rule replay_step_Inr)
  then have rs: "sn_records s' = sn_records s @ [r]" by (auto elim: snapshot_insert_Inr)
  have new: "replayed C g s'" by (rule replayed.replay_append [OF replay_append.hyps])
  show ?case
  proof (cases "n \<le> length (sn_records s)")
    case True
    with replay_append.IH [of n] rs show ?thesis by simp
  next
    case False
    then have "take n (sn_records s') = sn_records s'" by (simp add: rs)
    with replayed_insert_records [OF new] new show ?thesis by auto
  qed
qed

section \<open>The canonical block of a body\<close>

text \<open>Everything in an accepted block is determined by the slot view and the body: it is the block the
  selected producer would have built.\<close>

lemma header_claim_new_fields:
  assumes "header_claim_new K h p n = Inr c"
  shows "bh_protocol_version h = HEADER_PROFILE" "bh_chain_id h = CHAIN_ID" "bh_block_kind h = Validator"
    "1 \<le> bh_slot h" "bh_slot h \<le> MAX_SLOTS" "bh_proposer_id h = proposer_id K p" "bh_state_root h = replicate 32 0"
    "bh_receipts_root h = EMPTY_RECEIPTS_ROOT K"
  using assms by (auto simp: header_claim_new_def split: if_splits)

lemma compound_Inr:
  assumes "compound K view block native outcome = Inr st"
  obtains sel where "view_select K view = Inr sel"
    "bh_slot (hc_header (cb_claim block)) = sv_slot view"
    "bh_parent_hash (hc_header (cb_claim block)) = po_hash (sv_parent view)"
    "hc_producer (cb_claim block) = sl_owner sel" "bh_ticket_id (hc_header (cb_claim block)) = sl_ticket sel"
    "block_match_outcome K block outcome = Inr ()"
  using assms unfolding compound_def Let_def
  by (auto simp: try_res_Inr_iff split: if_splits)

lemma compound_canonical:
  assumes "compound K view block native outcome = Inr st" and "c1_block_ok K block"
  shows "\<exists>sel. view_select K view = Inr sel \<and> block_build K view sel (cb_transactions block) outcome = Inr block"
proof -
  let ?h = "hc_header (cb_claim block)"
  obtain sel where s: "view_select K view = Inr sel" "bh_slot ?h = sv_slot view" "bh_parent_hash ?h = po_hash (sv_parent view)"
    "hc_producer (cb_claim block) = sl_owner sel" "bh_ticket_id ?h = sl_ticket sel"
    "block_match_outcome K block outcome = Inr ()"
    using assms(1) by (rule compound_Inr)
  have parts: "block_from_parts K ?h (sl_owner sel) (cb_protocol block) (cb_transactions block) = Inr block"
    using assms(2) s(4) by (simp add: c1_block_ok_def)
  note p = block_from_parts_Inr [OF parts]
  note f = header_claim_new_fields [OF p(8)]
  have m: "bo_transaction_ids outcome = map (hash_with_domain K ID_DOMAIN) (cb_transactions block)"
    "bo_gas_used outcome = bh_gas_used ?h" "bo_fees_burned outcome = pd_fees_burned (cb_protocol block)"
    using s(6) by (auto simp: block_match_outcome_def split: if_splits)
  have pd: "\<lparr>pd_missed_proposer = None, pd_fees_burned = bo_fees_burned outcome\<rparr> = cb_protocol block"
    using p(4) m(3) by simp
  have root: "protocol_data_root K (cb_protocol block) = bh_protocol_data_root ?h"
    using parts by (auto simp: block_from_parts_def try_res_Inr_iff Let_def dest!: header_claim_new_Inr split: if_splits)
  have "\<lparr>bh_protocol_version = HEADER_PROFILE, bh_chain_id = CHAIN_ID, bh_slot = sv_slot view,
         bh_block_kind = Validator, bh_parent_hash = po_hash (sv_parent view),
         bh_proposer_id = proposer_id K (sl_owner sel), bh_ticket_id = sl_ticket sel,
         bh_transaction_root = bh_transaction_root ?h, bh_state_root = replicate 32 0,
         bh_receipts_root = EMPTY_RECEIPTS_ROOT K, bh_gas_used = bo_gas_used outcome,
         bh_protocol_data_root = protocol_data_root K (cb_protocol block)\<rparr> = ?h"
    using f s m(2) root by simp
  then have "block_build K view sel (cb_transactions block) outcome = Inr block"
    using parts p(7) m(1) by (simp add: block_build_def pd)
  with s(1) show ?thesis by blast
qed

section \<open>Replayed snapshots lie on the chain\<close>

definition record_header :: "hasher \<Rightarrow> c1_record \<Rightarrow> historical_header" where
  "record_header K r = \<lparr>hh_header = hc_header (cb_claim (rd_block r)), hh_hash = c1_block_hash K (rd_block r)\<rparr>"

lemma record_header_new:
  assumes "c1_block_ok K (rd_block r)"
  shows "historical_header_new K (hc_header (cb_claim (rd_block r))) (c1_block_hash K (rd_block r)) =
     Inr (record_header K r)"
proof -
  have "block_from_parts K (hc_header (cb_claim (rd_block r))) (hc_producer (cb_claim (rd_block r)))
      (cb_protocol (rd_block r)) (cb_transactions (rd_block r)) = Inr (rd_block r)"
    using assms by (simp add: c1_block_ok_def)
  note f = header_claim_new_fields [OF block_from_parts_Inr(8) [OF this]]
  then show ?thesis
    by (simp add: historical_header_new_def record_header_def c1_block_hash_def claim_hash_def)
qed

lemma traverse_map: "\<forall>x \<in> set xs. f x = Inr (h x) \<Longrightarrow> traverse (\<lambda>_. f) i xs = Inr (map h xs)"
  by (induction xs arbitrary: i) auto

lemma anchor_header_new:
  "historical_header_new K (pol_anchor (ge_policy (approved_genesis K l)))
     (header_hash K (pol_anchor (ge_policy (approved_genesis K l)))) =
   Inr \<lparr>hh_header = pol_anchor (ge_policy (approved_genesis K l)),
        hh_hash = header_hash K (pol_anchor (ge_policy (approved_genesis K l)))\<rparr>"
  using initial_prefix [of K l] by (auto simp: prefix_initial_def try_res_Inr_iff historical_header_new_def split: if_splits)

definition snapshot_headers :: "hasher \<Rightarrow> genesis \<Rightarrow> c1_snapshot \<Rightarrow> historical_header list" where
  "snapshot_headers K g s =
     \<lparr>hh_header = pol_anchor (ge_policy g), hh_hash = header_hash K (pol_anchor (ge_policy g))\<rparr> #
     map (record_header K) (sn_records s)"

lemma snapshot_prefix_headers:
  assumes "\<forall>r \<in> set (sn_records s). c1_block_ok K (rd_block r)"
  shows "snapshot_prefix K s (approved_genesis K l) =
     map_err AProtocol (from_trusted_history K (approved_genesis K l) (snapshot_headers K (approved_genesis K l) s) (sn_state s))"
proof -
  have "traverse (\<lambda>_ r. map_err AProtocol (historical_header_new K (hc_header (cb_claim (rd_block r)))
      (c1_block_hash K (rd_block r)))) 0 (sn_records s) = Inr (map (record_header K) (sn_records s))"
    using assms by (intro traverse_map) (simp add: record_header_new)
  then show ?thesis
    by (simp add: snapshot_prefix_def snapshot_headers_def anchor_header_new)
qed

lemma replayed_records:
  assumes "replayed C g s"
  shows "\<forall>r \<in> set (sn_records s). c1_envelope_ok (c_keccak C) (rd_envelope r) \<and>
     c1_envelope_authenticate C (rd_envelope r) g = Inr (rd_proof r) \<and>
     block_match_outcome (c_keccak C) (rd_block r) (rd_outcome r) = Inr ()"
  using assms
proof induction
  case (replay_append s e s')
  from replay_append.hyps(3) show ?case
  proof (rule replay_step_Inr)
    fix pf view native applied st plan
    assume a: "c1_envelope_authenticate C e g = Inr pf" "ae_envelope pf = e"
      and c: "compound (c_keccak C) view (ce_block e) native (ab_outcome applied) = Inr st"
      and i: "snapshot_insert (c_keccak C) \<lparr>rd_proof = pf, rd_outcome = ab_outcome applied, rd_state = st\<rparr> s = Inr s'"
    from c have "block_match_outcome (c_keccak C) (ce_block e) (ab_outcome applied) = Inr ()" by (rule compound_Inr)
    with i replay_append.IH replay_append.hyps(2) a show ?thesis by (auto elim!: snapshot_insert_Inr)
  qed
qed (simp add: snapshot_initial_def)

lemma replayed_block_ok:
  "replayed C g s \<Longrightarrow> r \<in> set (sn_records s) \<Longrightarrow> c1_block_ok (c_keccak C) (rd_block r)"
  using replayed_records by (auto simp: c1_envelope_ok_def)

lemma replayed_chain:
  assumes "replayed C (approved_genesis (c_keccak C) l) s"
    and ids: "proposer_id (c_keccak C) trial_A \<noteq> proposer_id (c_keccak C) trial_B"
  shows "\<exists>pc. snapshot_prefix (c_keccak C) s (approved_genesis (c_keccak C) l) = Inr pc \<and>
     c1_chain C (approved_genesis (c_keccak C) l) pc \<and> pc_state pc = sn_state s \<and>
     pc_headers pc = snapshot_headers (c_keccak C) (approved_genesis (c_keccak C) l) s"
  using assms(1)
proof induction
  case replay_start
  let ?K = "c_keccak C" and ?g = "approved_genesis (c_keccak C) l"
  obtain pc where pc: "prefix_initial ?K ?g = Inr pc" using initial_prefix by blast
  then have f: "from_trusted_history ?K ?g (snapshot_headers ?K ?g (snapshot_initial ?g)) (ge_initial ?g) = Inr pc"
    by (simp add: prefix_initial_def anchor_header_new snapshot_headers_def snapshot_initial_def)
  then have "snapshot_prefix ?K (snapshot_initial ?g) ?g = Inr pc"
    by (subst snapshot_prefix_headers) (simp_all add: snapshot_initial_def)
  with chain_start [OF pc] f show ?case
    by (auto simp: from_trusted_history_Inr_iff snapshot_initial_def)
next
  case (replay_append s e s')
  let ?K = "c_keccak C" and ?g = "approved_genesis (c_keccak C) l"
  from replay_append.IH obtain pc where pc: "snapshot_prefix ?K s ?g = Inr pc" "c1_chain C ?g pc"
    "pc_state pc = sn_state s" "pc_headers pc = snapshot_headers ?K ?g s" by blast
  from replay_append.hyps(3) obtain pf view native applied st where
    st: "snapshot_start ?K s ?g = Inr view" and n: "stage_native C view (cb_transactions (ce_block e)) = Inr (native, applied)"
    and c: "compound ?K view (ce_block e) native (ab_outcome applied) = Inr st"
    and i: "snapshot_insert ?K \<lparr>rd_proof = pf, rd_outcome = ab_outcome applied, rd_state = st\<rparr> s = Inr s'"
    and pf: "ae_envelope pf = e"
    by (rule replay_step_Inr)
  from st pc(1) have v: "slot_start ?K pc = Inr view" by (simp add: snapshot_start_def)
  have lt: "state_slot (pc_state pc) < 200"
    using slot_start_next [OF chain_prefix [OF pc(2)]] v by (auto split: if_splits)
  have ok: "c1_block_ok ?K (ce_block e)" using replay_append.hyps(2) by (simp add: c1_envelope_ok_def)
  obtain sel where sel: "view_select ?K view = Inr sel"
    "block_build ?K view sel (cb_transactions (ce_block e)) (ab_outcome applied) = Inr (ce_block e)"
    using compound_canonical [OF c ok] by blast
  from chain_extends [OF pc(2) ids lt] v n sel c obtain pc' where
    ext: "from_trusted_history ?K ?g (pc_headers pc @ [\<lparr>hh_header = hc_header (cb_claim (ce_block e)),
         hh_hash = c1_block_hash ?K (ce_block e)\<rparr>]) st = Inr pc'" "c1_chain C ?g pc'"
    by fastforce
  have s': "sn_records s' = sn_records s @ [\<lparr>rd_proof = pf, rd_outcome = ab_outcome applied, rd_state = st\<rparr>]" "sn_state s' = st"
    using i by (auto elim: snapshot_insert_Inr)
  have hd: "snapshot_headers ?K ?g s' = pc_headers pc @ [\<lparr>hh_header = hc_header (cb_claim (ce_block e)),
         hh_hash = c1_block_hash ?K (ce_block e)\<rparr>]"
    by (simp add: snapshot_headers_def s' pc(4) record_header_def pf)
  have "\<forall>r \<in> set (sn_records s'). c1_block_ok ?K (rd_block r)"
    using replayed_block_ok [OF replayed.replay_append [OF replay_append.hyps]] by blast
  then have "snapshot_prefix ?K s' ?g = Inr pc'"
    using ext(1) by (simp add: snapshot_prefix_headers s' hd)
  with ext hd s' show ?case by (auto simp: from_trusted_history_Inr_iff)
qed

section \<open>The indexes\<close>

fun located :: "position \<Rightarrow> nat \<Rightarrow> (bytes \<times> hash) list \<Rightarrow> (bytes \<times> hash \<times> membership) list" where
  "located p i [] = []"
| "located p i ((tx, ident) # es) = (tx, ident, \<lparr>me_position = p, me_index = of_nat i\<rparr>) # located p (Suc i) es"

definition snapshot_entries :: "c1_snapshot \<Rightarrow> (bytes \<times> hash \<times> membership) list" where
  "snapshot_entries s = concat (map (\<lambda>r. located (rd_position r) 0 (record_entries (rd_block r) (rd_outcome r))) (sn_records s))"

definition index_ok ::
  "(hash \<times> membership) list \<Rightarrow> ((address \<times> u64) \<times> membership) list \<Rightarrow> (bytes \<times> hash \<times> membership) list \<Rightarrow> bool" where
  "index_ok ts ns es \<longleftrightarrow> bm_wf ts \<and> bm_wf ns \<and>
     distinct (map (\<lambda>(tx, ident, m). ident) es) \<and> distinct (map (\<lambda>(tx, ident, m). sender_nonce tx) es) \<and>
     map_of ts = map_of (map (\<lambda>(tx, ident, m). (ident, m)) es) \<and>
     map_of ns = map_of (map (\<lambda>(tx, ident, m). (sender_nonce tx, m)) es)"

lemma map_add_fresh: "m k = None \<Longrightarrow> [k \<mapsto> v] ++ m = m(k \<mapsto> v)"
  by (auto simp: map_add_def fun_eq_iff split: option.splits)

lemma map_of_None_keys:
  "map_of (map (\<lambda>(tx, ident, m). (ident, m)) es) k = None \<longleftrightarrow> k \<notin> set (map (\<lambda>(tx, ident, m). ident) es)"
  "map_of (map (\<lambda>(tx, ident, m). (sender_nonce tx, m)) es) n = None \<longleftrightarrow> n \<notin> set (map (\<lambda>(tx, ident, m). sender_nonce tx) es)"
  by (induction es) auto

lemma index_ok_snoc:
  assumes "index_ok ts ns es" "map_of ts ident = None" "map_of ns (sender_nonce tx) = None"
  shows "index_ok (bm_insert ident m ts) (bm_insert (sender_nonce tx) m ns) (es @ [(tx, ident, m)])"
  using assms map_of_None_keys(1) [of es ident] map_of_None_keys(2) [of es "sender_nonce tx"]
  unfolding index_ok_def by (simp add: map_add_fresh map_of_bm_insert bm_wf_insert)

lemma insert_entries_index:
  assumes "insert_entries p i es ts ns = Inr (ts', ns')" "index_ok ts ns old"
  shows "index_ok ts' ns' (old @ located p i es)"
  using assms
proof (induction es arbitrary: i ts ns old)
  case (Cons e es)
  obtain tx ident where e: "e = (tx, ident)" by force
  let ?m = "\<lparr>me_position = p, me_index = of_nat i\<rparr>"
  from Cons.prems(1) have "map_of ts ident = None" "map_of ns (sender_nonce tx) = None"
    and r: "insert_entries p (Suc i) es (bm_insert ident ?m ts) (bm_insert (sender_nonce tx) ?m ns) = Inr (ts', ns')"
    by (auto simp: e Let_def split: if_splits)
  from Cons.IH [OF r index_ok_snoc [OF Cons.prems(2) this(1,2)]] show ?case by (simp add: e)
qed simp

lemma replayed_index:
  assumes "replayed C g s"
  shows "index_ok (sn_transactions s) (sn_sender_nonces s) (snapshot_entries s)"
  using assms
proof induction
  case replay_start
  then show ?case by (simp add: index_ok_def snapshot_initial_def snapshot_entries_def bm_wf_def)
next
  case (replay_append s e s')
  from replay_append.hyps(3) obtain r where "snapshot_insert (c_keccak C) r s = Inr s'" by (rule replay_step_Inr)
  then obtain ts ns where i: "insert_entries (rd_position r) 0 (record_entries (rd_block r) (rd_outcome r))
       (sn_transactions s) (sn_sender_nonces s) = Inr (ts, ns)"
    and s': "s' = \<lparr>sn_state = rd_state r, sn_records = sn_records s @ [r], sn_transactions = ts, sn_sender_nonces = ns\<rparr>"
    by (rule snapshot_insert_Inr)
  from insert_entries_index [OF i replay_append.IH] s' show ?case by (simp add: snapshot_entries_def)
qed

text \<open>The check before staging and the insertion agree on what a duplicate is.\<close>

abbreviation fresh_entries :: "(hash \<Rightarrow> bool) \<Rightarrow> (address \<times> u64 \<Rightarrow> bool) \<Rightarrow> (bytes \<times> hash) list \<Rightarrow> bool" where
  "fresh_entries P Q es \<equiv> distinct (map snd es) \<and> distinct (map (\<lambda>e. sender_nonce (fst e)) es) \<and>
     (\<forall>e \<in> set es. P (snd e) \<and> Q (sender_nonce (fst e)))"

lemma check_entries_iff:
  "check_entries s i es ids used = Inr () \<longleftrightarrow>
     fresh_entries (\<lambda>ident. map_of (sn_transactions s) ident = None \<and> ident \<notin> ids)
       (\<lambda>n. map_of (sn_sender_nonces s) n = None \<and> n \<notin> used) es"
proof (induction es arbitrary: i ids used)
  case (Cons e es)
  then show ?case by (cases e) (auto simp: Let_def image_iff)
qed simp

lemma insert_entries_ok_iff:
  "(\<exists>r. insert_entries p i es ts ns = Inr r) \<longleftrightarrow>
     fresh_entries (\<lambda>ident. map_of ts ident = None) (\<lambda>n. map_of ns n = None) es"
proof (induction es arbitrary: i ts ns)
  case (Cons e es)
  then show ?case by (cases e) (auto simp: Let_def image_iff map_of_bm_insert)
qed simp

lemma check_transactions_insert:
  assumes "check_transactions ow block outcome = Inr ()"
  shows "\<exists>ts ns. insert_entries p i (record_entries block outcome) (sn_transactions (ow_snapshot ow))
     (sn_sender_nonces (ow_snapshot ow)) = Inr (ts, ns)"
  using assms insert_entries_ok_iff [of p i "record_entries block outcome" "sn_transactions (ow_snapshot ow)"
      "sn_sender_nonces (ow_snapshot ow)"]
  by (simp add: check_transactions_def check_entries_iff)

section \<open>Staging replays\<close>

lemma compound_position:
  assumes "compound K view block native outcome = Inr st"
  shows "si_position (cs_data st) = \<lparr>po_slot = sv_slot view, po_hash = c1_block_hash K block\<rparr>"
proof -
  from assms obtain pol d where "checked K pol d = Inr st" "si_position d = \<lparr>po_slot = sv_slot view, po_hash = c1_block_hash K block\<rparr>"
    unfolding compound_def Let_def by (auto simp: try_res_Inr_iff split: if_splits)
  then show ?thesis by (auto simp: checked_Inr_iff sealed_def sort_snapshot_def)
qed

lemma snapshot_start_Inr:
  assumes "snapshot_start K s g = Inr view"
  shows "sv_parent view = sn_tip s" "checked_add (po_slot (sn_tip s)) 1 = Some (sv_slot view)" "sv_genesis view = g"
    "sv_state view = sn_state s"
proof -
  from assms obtain pc where pc: "snapshot_prefix K s g = Inr pc" "slot_start K pc = Inr view"
    by (auto simp: snapshot_start_def try_res_Inr_iff)
  then have "pc_state pc = sn_state s" "pc_genesis pc = g"
    by (auto simp: snapshot_prefix_def try_res_Inr_iff from_trusted_history_Inr_iff)
  with pc(2) show "sv_parent view = sn_tip s" "checked_add (po_slot (sn_tip s)) 1 = Some (sv_slot view)" "sv_genesis view = g"
    "sv_state view = sn_state s"
    by (auto simp: slot_start_def try_res_Inr_iff sn_tip_def split: if_splits)
qed

text \<open>What one accepted body makes of a snapshot, whichever way it was accepted.\<close>

lemma accepted_insert:
  assumes view: "snapshot_start K s g = Inr view"
    and comp: "compound K view (rd_block r) native (rd_outcome r) = Inr (rd_state r)"
    and ent: "insert_entries (rd_position r) 0 (record_entries (rd_block r) (rd_outcome r)) (sn_transactions s)
       (sn_sender_nonces s) = Inr (ts, ns)"
  shows "snapshot_insert K r s =
     Inr \<lparr>sn_state = rd_state r, sn_records = sn_records s @ [r], sn_transactions = ts, sn_sender_nonces = ns\<rparr>"
proof -
  have "bh_parent_hash (hc_header (cb_claim (rd_block r))) = po_hash (sn_tip s)"
    using comp snapshot_start_Inr(1) [OF view] by (auto elim: compound_Inr)
  then show ?thesis
    using snapshot_start_Inr(2) [OF view] compound_position [OF comp] ent by (simp add: snapshot_insert_def)
qed

lemma replay_accepted:
  assumes "c1_envelope_authenticate C e g = Inr (rd_proof r)" "rd_envelope r = e"
    and "snapshot_start (c_keccak C) s g = Inr view" "view_plan (c_keccak C) view (ae_header (rd_proof r)) = Inr plan"
    and "stage_native C view (cb_transactions (ce_block e)) = Inr (native, applied)" "rd_outcome r = ab_outcome applied"
    and "compound (c_keccak C) view (ce_block e) native (ab_outcome applied) = Inr (rd_state r)"
  shows "replay_step C g e s = snapshot_insert (c_keccak C) r s"
  using assms by (cases r) (simp add: replay_step_def)

lemma admit_Inr:
  assumes "admit K ow pf = (Inr (), ow')"
  obtains view plan where "ow' = ow" "work_ready ow = Inr ()" "owner_slot_start K ow = Inr view"
    "view_plan K view (ae_header pf) = Inr plan"
    "\<not> bh_slot (hc_header (cb_claim (ce_block (ae_envelope pf)))) \<le> po_slot (sn_tip (ow_snapshot ow))"
  using assms
  by (auto simp: admit_def Let_def try_res_Inr_iff split: sum.splits option.splits if_splits)

definition stage_ok :: "'k crypto \<Rightarrow> owner \<Rightarrow> staged_block \<Rightarrow> bool" where
  "stage_ok C ow sg \<longleftrightarrow> sg_base sg = owner_base ow \<and> c1_envelope_ok (c_keccak C) (rd_envelope (sg_record sg)) \<and>
     (\<exists>s'. snapshot_insert (c_keccak C) (sg_record sg) (ow_snapshot ow) = Inr s' \<and>
        replay_step C (ow_genesis ow) (rd_envelope (sg_record sg)) (ow_snapshot ow) = Inr s')"

lemma stage_received_replays:
  assumes "stage_received C ow bs = (Inr sg, ow')"
  shows "ow' = ow \<and> stage_ok C ow sg \<and> c1_envelope_from_wire_bytes (c_keccak C) bs = Inr (rd_envelope (sg_record sg))"
proof -
  let ?K = "c_keccak C" and ?g = "ow_genesis ow"
  from assms obtain e pf u view plan native applied st where e: "c1_envelope_from_wire_bytes ?K bs = Inr e"
    and a: "c1_envelope_authenticate C e ?g = Inr pf"
    and ad: "admit ?K ow pf = (Inr (), ow')"
    and v: "owner_slot_start ?K ow' = Inr view"
    and n: "stage_native C view (cb_transactions (ce_block (ae_envelope pf))) = Inr (native, applied)"
    and t: "check_transactions ow' (ce_block (ae_envelope pf)) (ab_outcome applied) = Inr ()"
    and c: "compound ?K view (ce_block (ae_envelope pf)) native (ab_outcome applied) = Inr st"
    and sg: "sg = \<lparr>sg_base = owner_base ow', sg_record = \<lparr>rd_proof = pf, rd_outcome = ab_outcome applied, rd_state = st\<rparr>\<rparr>"
    by (auto simp: stage_received_def Let_def try_res_Inr_iff split: sum.splits prod.splits)
  have pe: "ae_envelope pf = e" using a by (auto simp: c1_envelope_authenticate_def try_res_Inr_iff)
  obtain plan where o: "ow' = ow" "view_plan ?K view (ae_header pf) = Inr plan"
    using ad v by (auto elim!: admit_Inr)
  have vs: "snapshot_start ?K (ow_snapshot ow) ?g = Inr view"
    using v o by (auto simp: owner_slot_start_def try_res_Inr_iff)
  obtain ts ns where i: "insert_entries (si_position (cs_data st)) 0 (record_entries (ce_block e) (ab_outcome applied))
      (sn_transactions (ow_snapshot ow)) (sn_sender_nonces (ow_snapshot ow)) = Inr (ts, ns)"
    using check_transactions_insert [OF t] o pe by blast
  have ins: "\<exists>s'. snapshot_insert ?K (sg_record sg) (ow_snapshot ow) = Inr s'"
    using accepted_insert [of ?K "ow_snapshot ow" ?g view "sg_record sg" native ts ns] vs c i by (simp add: sg pe)
  have "replay_step C ?g e (ow_snapshot ow) = snapshot_insert ?K (sg_record sg) (ow_snapshot ow)"
    by (rule replay_accepted [OF _ _ vs]) (use a pe o n c in \<open>simp_all add: sg\<close>)
  with ins e c1_envelope_enc_dec [OF e] o show ?thesis by (auto simp: stage_ok_def sg pe)
qed

lemma stage_native_body: "stage_native C view body = Inr (native, applied) \<Longrightarrow> ab_transactions applied = body"
  by (auto simp: stage_native_def try_res_Inr_iff split: if_splits elim!: stage_body_elim)

lemma block_build_transactions: "block_build K view sel txs outcome = Inr b \<Longrightarrow> cb_transactions b = txs"
  unfolding block_build_def Let_def by (auto simp: try_res_Inr_iff dest: block_from_parts_Inr(3))

lemma check_base_Inr:
  assumes "check_base ow b = Inr ()"
  shows "b = owner_base ow" "work_ready ow = Inr ()"
  using assms by (auto simp: check_base_def owner_base_def try_res_Inr_iff split: if_splits)

lemma seal_prepared_replays:
  assumes prep: "prepare_next C ow0 producer ticket body = Inr pb"
    and seal: "seal_prepared C ow pb bs = (Inr sg, ow')"
  shows "ow' = ow \<and> stage_ok C ow sg \<and> c1_envelope_from_wire_bytes (c_keccak C) bs = Inr (rd_envelope (sg_record sg))"
proof -
  let ?K = "c_keccak C" and ?g = "ow_genesis ow"
  from prep obtain view0 sel native applied block st where v0: "owner_slot_start ?K ow0 = Inr view0"
    and n: "stage_native C view0 body = Inr (native, applied)"
    and b: "block_build ?K view0 sel (ab_transactions applied) (ab_outcome applied) = Inr block"
    and t: "check_transactions ow0 block (ab_outcome applied) = Inr ()"
    and c: "compound ?K view0 block native (ab_outcome applied) = Inr st"
    and pb: "pb = \<lparr>pb_base = owner_base ow0, pb_block = block, pb_candidate = st, pb_outcome = ab_outcome applied\<rparr>"
    by (auto simp: prepare_next_def Let_def try_res_Inr_iff split: if_splits)
  have body: "cb_transactions block = body"
    using block_build_transactions [OF b] stage_native_body [OF n] by simp
  from seal obtain e pf where base: "check_base ow (owner_base ow0) = Inr ()"
    and e: "c1_envelope_from_wire_bytes ?K bs = Inr e" and a: "c1_envelope_authenticate C e ?g = Inr pf"
    and eq: "ce_block (ae_envelope pf) = block" and ad: "admit ?K ow pf = (Inr (), ow')"
    and sg: "sg = \<lparr>sg_base = owner_base ow0, sg_record = \<lparr>rd_proof = pf, rd_outcome = ab_outcome applied, rd_state = st\<rparr>\<rparr>"
    by (auto simp: seal_prepared_def Let_def try_res_Inr_iff pb split: sum.splits prod.splits if_splits)
  have pe: "ae_envelope pf = e" using a by (auto simp: c1_envelope_authenticate_def try_res_Inr_iff)
  note same = check_base_Inr(1) [OF base]
  then have s0: "ow_snapshot ow0 = ow_snapshot ow" "ow_genesis ow0 = ?g" by (simp_all add: owner_base_def)
  have vs: "snapshot_start ?K (ow_snapshot ow) ?g = Inr view0"
    using v0 s0 by (auto simp: owner_slot_start_def try_res_Inr_iff)
  obtain plan where o: "ow' = ow" "view_plan ?K view0 (ae_header pf) = Inr plan"
    using ad vs by (auto simp: owner_slot_start_def elim!: admit_Inr)
  obtain ts ns where i: "insert_entries (si_position (cs_data st)) 0 (record_entries block (ab_outcome applied))
      (sn_transactions (ow_snapshot ow)) (sn_sender_nonces (ow_snapshot ow)) = Inr (ts, ns)"
    using check_transactions_insert [OF t, of "si_position (cs_data st)" 0] s0 by auto
  have ins: "\<exists>s'. snapshot_insert ?K (sg_record sg) (ow_snapshot ow) = Inr s'"
    using accepted_insert [of ?K "ow_snapshot ow" ?g view0 "sg_record sg" native ts ns] vs c i eq by (simp add: sg)
  have "replay_step C ?g e (ow_snapshot ow) = snapshot_insert ?K (sg_record sg) (ow_snapshot ow)"
    by (rule replay_accepted [OF _ _ vs]) (use a pe o n c eq body in \<open>simp_all add: sg\<close>)
  with ins e c1_envelope_enc_dec [OF e] o same show ?thesis by (auto simp: stage_ok_def sg pe)
qed

section \<open>Positions and equivocation\<close>

lemma replayed_tip:
  assumes "replayed C (approved_genesis (c_keccak C) l) s"
  shows "unat (po_slot (sn_tip s)) = length (sn_records s)"
  using assms
proof induction
  case replay_start
  have "state_slot (ge_initial (approved_genesis (c_keccak C) l)) = 0" by (rule demo_prefix)
  then show ?case by (simp add: snapshot_initial_def sn_tip_def)
next
  case (replay_append s e s')
  from replay_append.hyps(3) obtain r where "snapshot_insert (c_keccak C) r s = Inr s'" by (rule replay_step_Inr)
  with replay_append.IH show ?case by (auto elim!: snapshot_insert_Inr simp: sn_tip_def checked_add_unat_iff)
qed

lemma replayed_nth:
  assumes "replayed C g s" "i < length (sn_records s)"
  shows "\<exists>p p'. insert_records (c_keccak C) (take i (sn_records s)) (snapshot_initial g) = Inr p \<and> replayed C g p \<and>
     sn_records p = take i (sn_records s) \<and> replay_step C g (rd_envelope (sn_records s ! i)) p = Inr p' \<and>
     sn_records p' = take (Suc i) (sn_records s)"
  using assms
proof (induction arbitrary: i)
  case (replay_append s e s')
  from replay_append.hyps(3) obtain pf outcome st where
    r: "snapshot_insert (c_keccak C) \<lparr>rd_proof = pf, rd_outcome = outcome, rd_state = st\<rparr> s = Inr s'" "ae_envelope pf = e"
    by (rule replay_step_Inr)
  then have rs: "sn_records s' = sn_records s @ [\<lparr>rd_proof = pf, rd_outcome = outcome, rd_state = st\<rparr>]"
    by (auto elim: snapshot_insert_Inr)
  show ?case
  proof (cases "i < length (sn_records s)")
    case True
    from replay_append.IH [OF this] True show ?thesis by (simp add: rs nth_append)
  next
    case False
    with replay_append.prems rs have "i = length (sn_records s)" by simp
    with replay_append.hyps replayed_insert_records [OF replay_append.hyps(1)] r(2) show ?thesis
      by (intro exI [of _ s] exI [of _ s']) (simp add: rs)
  qed
qed (simp add: snapshot_initial_def)

text \<open>The statement of a record: the fields a producer commits to for a slot.\<close>

definition statement :: "c1_block \<Rightarrow> u64 \<times> hash \<times> text_bytes \<times> u64" where
  "statement b = (bh_slot (hc_header (cb_claim b)), bh_parent_hash (hc_header (cb_claim b)), hc_producer (cb_claim b),
     bh_ticket_id (hc_header (cb_claim b)))"

lemma view_plan_again:
  assumes "view_plan K view a = Inr plan" "ah_network a' = ah_network a"
  shows "(\<exists>q. view_plan K view a' = Inr q) \<longleftrightarrow>
    bh_slot (hc_header (ah_claim a)) = bh_slot (hc_header (ah_claim a')) \<and>
    bh_parent_hash (hc_header (ah_claim a)) = bh_parent_hash (hc_header (ah_claim a')) \<and>
    hc_producer (ah_claim a) = hc_producer (ah_claim a') \<and> bh_ticket_id (hc_header (ah_claim a)) = bh_ticket_id (hc_header (ah_claim a'))"
proof -
  from assms(1) obtain sel where "view_select K view = Inr sel" by (auto simp: view_plan_def Let_def try_res_Inr_iff split: if_splits)
  with assms show ?thesis by (auto simp: view_plan_def Let_def split: if_splits)
qed

lemma authenticate_claim:
  assumes "c1_envelope_authenticate C e g = Inr pf"
  shows "ae_envelope pf = e" "ah_claim (ae_header pf) = cb_claim (ce_block e)" "ah_network (ae_header pf) = pol_network (ge_policy g)"
  using assms by (auto simp: c1_envelope_authenticate_def claim_authenticate_def Let_def try_res_Inr_iff split: if_splits)

lemma checked_add_Suc: "checked_add a 1 = Some b \<Longrightarrow> b = of_nat (Suc (unat a))"
  by (auto simp: checked_add_def split: if_splits)

lemma unat_of_nat_le: "unat (of_nat n :: 'a::len word) \<le> n"
  by (simp add: unat_of_nat)

text \<open>Where the \<open>i\<close>-th record of a replayed snapshot stands, and the plan it was admitted under.\<close>

lemma replayed_record:
  assumes "replayed C (approved_genesis (c_keccak C) l) s" "i < length (sn_records s)"
  obtains p view plan where
    "insert_records (c_keccak C) (take i (sn_records s)) (snapshot_initial (approved_genesis (c_keccak C) l)) = Inr p"
    "snapshot_start (c_keccak C) p (approved_genesis (c_keccak C) l) = Inr view"
    "view_plan (c_keccak C) view (ae_header (rd_proof (sn_records s ! i))) = Inr plan"
    "rd_position (sn_records s ! i) =
       \<lparr>po_slot = of_nat (Suc i), po_hash = c1_block_hash (c_keccak C) (rd_block (sn_records s ! i))\<rparr>"
    "bh_slot (hc_header (cb_claim (rd_block (sn_records s ! i)))) = of_nat (Suc i)" "sv_slot view = of_nat (Suc i)"
proof -
  let ?K = "c_keccak C" and ?g = "approved_genesis (c_keccak C) l"
  obtain p p' where p: "insert_records ?K (take i (sn_records s)) (snapshot_initial ?g) = Inr p" "replayed C ?g p"
    "sn_records p = take i (sn_records s)" "replay_step C ?g (rd_envelope (sn_records s ! i)) p = Inr p'"
    "sn_records p' = take (Suc i) (sn_records s)"
    using replayed_nth [OF assms] by blast
  from p(4) obtain pf view native applied st plan where
    v: "snapshot_start ?K p ?g = Inr view" "view_plan ?K view (ae_header pf) = Inr plan"
    and "stage_native C view (cb_transactions (rd_block (sn_records s ! i))) = Inr (native, applied)"
    and c: "compound ?K view (rd_block (sn_records s ! i)) native (ab_outcome applied) = Inr st"
    and ins: "snapshot_insert ?K \<lparr>rd_proof = pf, rd_outcome = ab_outcome applied, rd_state = st\<rparr> p = Inr p'"
    by (rule replay_step_Inr)
  from ins have "sn_records p' = sn_records p @ [\<lparr>rd_proof = pf, rd_outcome = ab_outcome applied, rd_state = st\<rparr>]"
    by (auto elim: snapshot_insert_Inr)
  with p(3,5) assms(2) have r: "sn_records s ! i = \<lparr>rd_proof = pf, rd_outcome = ab_outcome applied, rd_state = st\<rparr>"
    by (simp add: take_Suc_conv_app_nth)
  have "unat (po_slot (sn_tip p)) = i" using replayed_tip [OF p(2)] p(3) assms(2) by simp
  then have slot: "sv_slot view = of_nat (Suc i)"
    using checked_add_Suc [OF snapshot_start_Inr(2) [OF v(1)]] by simp
  have "bh_slot (hc_header (cb_claim (rd_block (sn_records s ! i)))) = sv_slot view" using c by (rule compound_Inr)
  with slot compound_position [OF c] v p(1) show thesis by (intro that [of p view plan]) (simp_all add: r)
qed

lemma find_None_iff_records:
  assumes "replayed C (approved_genesis (c_keccak C) l) s"
  shows "List.find (\<lambda>r. po_hash (rd_position r) = h) (sn_records s) = None \<longleftrightarrow>
     (\<forall>r \<in> set (sn_records s). c1_block_hash (c_keccak C) (rd_block r) \<noteq> h)"
proof -
  have "po_hash (rd_position r) = c1_block_hash (c_keccak C) (rd_block r)" if "r \<in> set (sn_records s)" for r
    using that replayed_record [OF assms] by (metis in_set_conv_nth position.select_convs(2))
  then show ?thesis by (auto simp: find_None_iff)
qed

lemma admit_conflict:
  assumes rep: "replayed C (approved_genesis (c_keccak C) l) (ow_snapshot ow)"
    and g: "ow_genesis ow = approved_genesis (c_keccak C) l"
    and auth: "c1_envelope_authenticate C e (ow_genesis ow) = Inr pf" and env: "c1_envelope_ok (c_keccak C) e"
    and ready: "work_ready ow = Inr ()"
  shows "ow_halted (snd (admit (c_keccak C) ow pf)) \<longleftrightarrow>
     (\<exists>r \<in> set (sn_records (ow_snapshot ow)). statement (rd_block r) = statement (ce_block e)) \<and>
     (\<forall>r \<in> set (sn_records (ow_snapshot ow)). c1_block_hash (c_keccak C) (rd_block r) \<noteq> c1_block_hash (c_keccak C) (ce_block e))"
    (is "_ \<longleftrightarrow> ?same \<and> ?new")
proof -
  let ?K = "c_keccak C" and ?s = "ow_snapshot ow" and ?h = "hc_header (cb_claim (ce_block e))"
  define i where "i = unat (bh_slot ?h) - 1"
  note a = authenticate_claim [OF auth]
  have idle: "\<not> ow_halted ow" using ready by (auto simp: work_ready_def try_res_Inr_iff split: if_splits)
  have "block_from_parts ?K ?h (hc_producer (cb_claim (ce_block e))) (cb_protocol (ce_block e)) (cb_transactions (ce_block e)) = Inr (ce_block e)"
    using env by (simp add: c1_envelope_ok_def c1_block_ok_def)
  then have slot: "1 \<le> bh_slot ?h" using header_claim_new_fields(4) block_from_parts_Inr(8) by blast
  then have pos: "unat (bh_slot ?h) = Suc i" "unat (saturating_sub (bh_slot ?h) 1) = i"
    by (simp_all add: i_def word_le_nat_alt saturating_sub_unat)
  show ?thesis
  proof (cases "?new \<and> bh_slot ?h \<le> po_slot (sn_tip ?s)")
    case True
    then have il: "i < length (sn_records ?s)"
      using replayed_tip [OF rep] pos(1) by (auto simp: word_le_nat_alt)
    obtain p view plan where p: "insert_records ?K (take i (sn_records ?s)) (snapshot_initial (ow_genesis ow)) = Inr p"
      "snapshot_start ?K p (ow_genesis ow) = Inr view" "view_plan ?K view (ae_header (rd_proof (sn_records ?s ! i))) = Inr plan"
      "bh_slot (hc_header (cb_claim (rd_block (sn_records ?s ! i)))) = of_nat (Suc i)"
      unfolding g by (rule replayed_record [OF rep il])
    let ?r = "sn_records ?s ! i"
    have ra: "ah_claim (ae_header (rd_proof ?r)) = cb_claim (rd_block ?r)"
      "ah_network (ae_header (rd_proof ?r)) = pol_network (ge_policy (ow_genesis ow))"
      using replayed_records [OF rep] il authenticate_claim g by (metis nth_mem)+
    have only: "r = ?r" if "r \<in> set (sn_records ?s)" "bh_slot (hc_header (cb_claim (rd_block r))) = bh_slot ?h" for r
    proof -
      from that(1) obtain j where j: "j < length (sn_records ?s)" "r = sn_records ?s ! j" by (auto simp: in_set_conv_nth)
      from replayed_record [OF rep j(1)] j(2) have "bh_slot (hc_header (cb_claim (rd_block r))) = of_nat (Suc j)" by metis
      moreover have "unat (of_nat (Suc j) :: u64) = Suc j"
        using j(1) replayed_tip [OF rep] unat_bound [of "po_slot (sn_tip ?s)"] by (intro unat_of_nat_small) simp
      ultimately have "unat (bh_slot ?h) = Suc j" using that(2) by simp
      with j(2) pos show ?thesis by simp
    qed
    have plan: "(\<exists>q. view_plan ?K view (ae_header pf) = Inr q) \<longleftrightarrow> statement (rd_block ?r) = statement (ce_block e)"
      by (subst view_plan_again [OF p(3)]) (simp_all add: ra a statement_def)
    have "?same \<longleftrightarrow> statement (rd_block ?r) = statement (ce_block e)"
      using only il p(4) by (auto simp: statement_def) 
    moreover have "ow_halted (snd (admit ?K ow pf)) \<longleftrightarrow> (\<exists>q. view_plan ?K view (ae_header pf) = Inr q)"
      using True idle p(1,2) ready a pos(2) find_None_iff_records [OF rep, of "c1_block_hash ?K (ce_block e)"]
      by (auto simp: admit_def Let_def split: option.splits sum.splits)
    ultimately show ?thesis using True plan by simp
  next
    case False
    then have "\<not> ow_halted (snd (admit ?K ow pf))"
      using idle ready a find_None_iff_records [OF rep, of "c1_block_hash ?K (ce_block e)"]
      by (auto simp: admit_def Let_def split: option.splits sum.splits)
    moreover have "\<not> ?same" if ?new
    proof -
      from False that have gt: "po_slot (sn_tip ?s) < bh_slot ?h" by simp
      show ?thesis
      proof
        assume ?same
        then obtain j where j: "j < length (sn_records ?s)" "statement (rd_block (sn_records ?s ! j)) = statement (ce_block e)"
          by (auto simp: in_set_conv_nth)
        from replayed_record [OF rep j(1)] have "bh_slot (hc_header (cb_claim (rd_block (sn_records ?s ! j)))) = of_nat (Suc j)" by metis
        with j have "bh_slot ?h = of_nat (Suc j)" by (simp add: statement_def)
        moreover have "unat (of_nat (Suc j) :: u64) \<le> Suc j" by (rule unat_of_nat_le)
        ultimately show False using gt j(1) replayed_tip [OF rep] by (simp add: word_less_nat_alt)
      qed
    qed
    ultimately show ?thesis by blast
  qed
qed

end
