(* ===== verification/Poash_Admission.thy ===== *)
theory Poash_Admission
  imports Poash_Snapshot
begin

text \<open>
  What the owner of \<open>Poash_Snapshot\<close> guarantees: an honest producer's block is accepted, on the producing
  side and on the receiving side, with the same staged result; only an equivocation halts an owner; and the
  membership indexes are exact.
\<close>

section \<open>An honest producer's envelope\<close>

lemma built_block_ok:
  assumes b: "block_build K view sel txs outcome = Inr b" and dg: "digest32 K"
    and len: "length (po_hash (sv_parent view)) = 32" "\<forall>tx \<in> set txs. length tx = SIGNED_LEN"
  shows "c1_block_ok K b"
proof -
  from b obtain root pd where root: "ordered_transaction_root K (bo_transaction_ids outcome) = Some root"
    and parts: "block_from_parts K
        \<lparr>bh_protocol_version = HEADER_PROFILE, bh_chain_id = CHAIN_ID, bh_slot = sv_slot view,
         bh_block_kind = Validator, bh_parent_hash = po_hash (sv_parent view),
         bh_proposer_id = proposer_id K (sl_owner sel), bh_ticket_id = sl_ticket sel,
         bh_transaction_root = root, bh_state_root = replicate 32 0,
         bh_receipts_root = EMPTY_RECEIPTS_ROOT K, bh_gas_used = bo_gas_used outcome,
         bh_protocol_data_root = protocol_data_root K pd\<rparr> (sl_owner sel) pd txs = Inr b"
    unfolding block_build_def Let_def by (auto simp: try_res_Inr_iff)
  have l: "length root = 32"
    using root dg by (auto simp: ordered_transaction_root_def keccak256_def digest32_def bind_eq_Some_conv split: if_splits)
  have "length (proposer_id K p) = 32" "length (EMPTY_RECEIPTS_ROOT K) = 32" "length (protocol_data_root K pd) = 32" for p
    using dg by (simp_all add: proposer_id_def hash_with_domain_def EMPTY_RECEIPTS_ROOT_def protocol_data_root_def
        keccak256_def digest32_def)
  with l len block_from_parts_Inr [OF parts] parts show ?thesis
    by (simp add: c1_block_ok_def header_wf_def)
qed

lemma replayed_tip_hash:
  assumes "replayed C (approved_genesis (c_keccak C) l) s" "digest32 (c_keccak C)"
  shows "length (po_hash (sn_tip s)) = 32"
  using assms(1)
proof cases
  case replay_start
  then show ?thesis using assms(2)
    by (simp add: snapshot_initial_def sn_tip_def approved_genesis_def sealed_def approved_snapshot_def initial_snapshot_def
        header_hash_def hash_with_domain_def digest32_def)
next
  case (replay_append s0 e)
  from replay_append(3) obtain r where "snapshot_insert (c_keccak C) r s0 = Inr s" by (rule replay_step_Inr)
  then show ?thesis using assms(2)
    by (auto elim!: snapshot_insert_Inr simp: sn_tip_def c1_block_hash_def claim_hash_def header_hash_def
        hash_with_domain_def digest32_def)
qed

lemma prepare_next_Inr:
  assumes "prepare_next C ow producer ticket body = Inr pb"
  obtains view sel native applied where "work_ready ow = Inr ()"
    "snapshot_start (c_keccak C) (ow_snapshot ow) (ow_genesis ow) = Inr view"
    "view_select (c_keccak C) view = Inr sel" "producer = sl_owner sel" "ticket = sl_ticket sel"
    "stage_native C view body = Inr (native, applied)"
    "block_build (c_keccak C) view sel body (ab_outcome applied) = Inr (pb_block pb)"
    "check_transactions ow (pb_block pb) (ab_outcome applied) = Inr ()"
    "compound (c_keccak C) view (pb_block pb) native (ab_outcome applied) = Inr (pb_candidate pb)"
    "pb = \<lparr>pb_base = owner_base ow, pb_block = pb_block pb, pb_candidate = pb_candidate pb, pb_outcome = ab_outcome applied\<rparr>"
    "cb_transactions (pb_block pb) = body"
proof -
  from assms obtain view sel native applied where a: "owner_slot_start (c_keccak C) ow = Inr view"
    "view_select (c_keccak C) view = Inr sel" "producer = sl_owner sel" "ticket = sl_ticket sel"
    "stage_native C view body = Inr (native, applied)"
    "block_build (c_keccak C) view sel (ab_transactions applied) (ab_outcome applied) = Inr (pb_block pb)"
    "check_transactions ow (pb_block pb) (ab_outcome applied) = Inr ()"
    "compound (c_keccak C) view (pb_block pb) native (ab_outcome applied) = Inr (pb_candidate pb)"
    "pb = \<lparr>pb_base = owner_base ow, pb_block = pb_block pb, pb_candidate = pb_candidate pb, pb_outcome = ab_outcome applied\<rparr>"
    by (auto simp: prepare_next_def Let_def try_res_Inr_iff split: if_splits)
  then have "ab_transactions applied = body" "cb_transactions (pb_block pb) = body"
    using stage_native_body [OF a(5)] block_build_transactions [OF a(6)] by simp_all
  with a show thesis
    by (intro that [of view sel native applied]) (auto simp: owner_slot_start_def try_res_Inr_iff)
qed

lemma prepared_block_ok:
  assumes "prepare_next C ow producer ticket body = Inr pb"
    and "replayed C (approved_genesis (c_keccak C) l) (ow_snapshot ow)" "digest32 (c_keccak C)"
  shows "c1_block_ok (c_keccak C) (pb_block pb)"
  using assms(1)
proof (rule prepare_next_Inr)
  fix view sel native applied
  assume v: "snapshot_start (c_keccak C) (ow_snapshot ow) (ow_genesis ow) = Inr view"
    and n: "stage_native C view body = Inr (native, applied)"
    and b: "block_build (c_keccak C) view sel body (ab_outcome applied) = Inr (pb_block pb)"
  have "\<forall>tx \<in> set body. length tx = SIGNED_LEN"
    using n by (auto simp: stage_native_def try_res_Inr_iff split: if_splits dest: staged_body_entries(1))
  with built_block_ok [OF b assms(3)] replayed_tip_hash [OF assms(2,3)] snapshot_start_Inr(1) [OF v] show ?thesis by simp
qed

lemma admit_next:
  assumes "work_ready ow = Inr ()" "snapshot_start K (ow_snapshot ow) (ow_genesis ow) = Inr view"
    and "view_plan K view (ae_header pf) = Inr plan"
    and "List.find (\<lambda>r. po_hash (rd_position r) = c1_block_hash K (ce_block (ae_envelope pf))) (sn_records (ow_snapshot ow)) = None"
    and "ah_claim (ae_header pf) = cb_claim (ce_block (ae_envelope pf))"
  shows "admit K ow pf = (Inr (), ow)"
proof -
  have "bh_slot (hc_header (cb_claim (ce_block (ae_envelope pf)))) = sv_slot view"
    using assms(3,5) by (auto simp: view_plan_def Let_def try_res_Inr_iff split: if_splits)
  moreover have "unat (sv_slot view) = Suc (unat (po_slot (sn_tip (ow_snapshot ow))))"
    using snapshot_start_Inr(2) [OF assms(2)] by (simp add: checked_add_unat_iff)
  ultimately show ?thesis using assms
    by (simp add: admit_def Let_def owner_slot_start_def word_le_nat_alt)
qed

lemma honest_accepted:
  assumes prep: "prepare_next C ow producer ticket body = Inr pb"
    and rep: "replayed C (approved_genesis (c_keccak C) l) (ow_snapshot ow)"
    and g: "ow_genesis ow = approved_genesis (c_keccak C) l" and dg: "digest32 (c_keccak C)"
    and fresh: "\<forall>r \<in> set (sn_records (ow_snapshot ow)). c1_block_hash (c_keccak C) (rd_block r) \<noteq> c1_block_hash (c_keccak C) (pb_block pb)"
    and sig: "claim_authenticate C (cb_claim (pb_block pb)) (ow_genesis ow) (pol_network (ge_policy (ow_genesis ow))) signature = Inr ah"
  defines "e \<equiv> \<lparr>ce_block = pb_block pb, ce_network = pol_network (ge_policy (ow_genesis ow)), ce_signature = signature\<rparr>"
  shows "stage_received C ow (c1_envelope_wire_bytes (c_keccak C) e) =
      (Inr \<lparr>sg_base = owner_base ow, sg_record = \<lparr>rd_proof = \<lparr>ae_envelope = e, ae_header = ah\<rparr>,
           rd_outcome = pb_outcome pb, rd_state = pb_candidate pb\<rparr>\<rparr>, ow)"
    and "seal_prepared C ow pb (c1_envelope_wire_bytes (c_keccak C) e) =
      (Inr \<lparr>sg_base = owner_base ow, sg_record = \<lparr>rd_proof = \<lparr>ae_envelope = e, ae_header = ah\<rparr>,
           rd_outcome = pb_outcome pb, rd_state = pb_candidate pb\<rparr>\<rparr>, ow)"
proof -
  let ?K = "c_keccak C" and ?pf = "\<lparr>ae_envelope = e, ae_header = ah\<rparr>"
  obtain view sel native applied where ready: "work_ready ow = Inr ()" and v: "snapshot_start ?K (ow_snapshot ow) (ow_genesis ow) = Inr view"
    and sel: "view_select ?K view = Inr sel" and n: "stage_native C view body = Inr (native, applied)"
    and t: "check_transactions ow (pb_block pb) (ab_outcome applied) = Inr ()"
    and c: "compound ?K view (pb_block pb) native (ab_outcome applied) = Inr (pb_candidate pb)"
    and pb: "pb = \<lparr>pb_base = owner_base ow, pb_block = pb_block pb, pb_candidate = pb_candidate pb, pb_outcome = ab_outcome applied\<rparr>"
    and body: "cb_transactions (pb_block pb) = body"
    using prep by (rule prepare_next_Inr)
  have po: "pb_outcome pb = ab_outcome applied" "pb_base pb = owner_base ow" by (subst pb, simp)+
  have "length signature = 65" "length (pol_network (ge_policy (ow_genesis ow))) = 32"
    using sig dg by (auto simp: g claim_authenticate_def Let_def try_res_Inr_iff signature_from_bytes_Inr_iff signature_wf_def
        native_lens approved_genesis_def approved_policy_def keccak256_def digest32_def split: if_splits)
  with prepared_block_ok [OF prep rep dg] have "c1_envelope_ok ?K e" by (simp add: e_def c1_envelope_ok_def)
  then have dec: "c1_envelope_from_wire_bytes ?K (c1_envelope_wire_bytes ?K e) = Inr e"
    by (rule c1_envelope_dec_enc [OF _ dg])
  have auth: "c1_envelope_authenticate C e (ow_genesis ow) = Inr ?pf"
    using sig by (simp add: c1_envelope_authenticate_def e_def)
  note a = authenticate_claim [OF auth]
  have "\<exists>plan. view_plan ?K view ah = Inr plan"
    using c sel a snapshot_start_Inr(3) [OF v]
    by (auto elim!: compound_Inr simp: view_plan_def Let_def e_def)
  then obtain plan where plan: "view_plan ?K view ah = Inr plan" by blast
  have ad: "admit ?K ow ?pf = (Inr (), ow)"
    using find_None_iff_records [OF rep, of "c1_block_hash ?K (pb_block pb)"] fresh a plan ready v
    by (intro admit_next) (simp_all add: e_def)
  have cb: "check_base ow (owner_base ow) = Inr ()" using ready by (simp add: check_base_def owner_base_def)
  show "stage_received C ow (c1_envelope_wire_bytes ?K e) =
      (Inr \<lparr>sg_base = owner_base ow, sg_record = \<lparr>rd_proof = ?pf, rd_outcome = pb_outcome pb, rd_state = pb_candidate pb\<rparr>\<rparr>, ow)"
    using ready dec auth ad v n t c body po
    by (simp add: stage_received_def owner_slot_start_def) (simp add: e_def)
  show "seal_prepared C ow pb (c1_envelope_wire_bytes ?K e) =
      (Inr \<lparr>sg_base = owner_base ow, sg_record = \<lparr>rd_proof = ?pf, rd_outcome = pb_outcome pb, rd_state = pb_candidate pb\<rparr>\<rparr>, ow)"
    using cb dec auth ad po by (simp add: seal_prepared_def) (simp add: e_def)
qed

section \<open>Progress of an owner\<close>

lemma prepare_progress:
  assumes rep: "replayed C (approved_genesis (c_keccak C) l) (ow_snapshot ow)"
    and g: "ow_genesis ow = approved_genesis (c_keccak C) l"
    and ids: "proposer_id (c_keccak C) trial_A \<noteq> proposer_id (c_keccak C) trial_B"
    and ready: "work_ready ow = Inr ()" and n: "length (sn_records (ow_snapshot ow)) < 200"
  shows "\<exists>view sel. owner_slot_start (c_keccak C) ow = Inr view \<and> view_select (c_keccak C) view = Inr sel \<and>
     supported (sv_state view) = Inr () \<and>
     (\<forall>body native applied. stage_native C view body = Inr (native, applied) \<longrightarrow>
        check_entries (ow_snapshot ow) 0 (zip body (bo_transaction_ids (ab_outcome applied))) {} {} = Inr () \<longrightarrow>
        (\<exists>pb. prepare_next C ow (sl_owner sel) (sl_ticket sel) body = Inr pb))"
proof -
  let ?K = "c_keccak C" and ?g = "approved_genesis (c_keccak C) l"
  obtain pc where pc: "snapshot_prefix ?K (ow_snapshot ow) ?g = Inr pc" "c1_chain C ?g pc" "pc_state pc = sn_state (ow_snapshot ow)"
    using replayed_chain [OF rep ids] by blast
  have lt: "state_slot (pc_state pc) < 200" using replayed_tip [OF rep] n pc(3) by (simp add: sn_tip_def)
  obtain view where v: "slot_start ?K pc = Inr view" "supported (sv_state view) = Inr ()"
    and ext: "\<And>body native ab. stage_native C view body = Inr (native, ab) \<Longrightarrow>
       \<exists>sel block st. view_select ?K view = Inr sel \<and> block_build ?K view sel body (ab_outcome ab) = Inr block \<and>
          compound ?K view block native (ab_outcome ab) = Inr st"
    using chain_extends [OF pc(2) ids lt] by blast
  have vo: "owner_slot_start ?K ow = Inr view" using ready g pc(1) v(1) by (simp add: owner_slot_start_def snapshot_start_def)
  obtain sel where sel: "view_select ?K view = Inr sel" using ext stage_native_empty [OF v(2), of C] by blast
  have "\<exists>pb. prepare_next C ow (sl_owner sel) (sl_ticket sel) body = Inr pb"
    if st: "stage_native C view body = Inr (native, applied)"
      and fr: "check_entries (ow_snapshot ow) 0 (zip body (bo_transaction_ids (ab_outcome applied))) {} {} = Inr ()"
    for body native applied
  proof -
    obtain block st' where "block_build ?K view sel body (ab_outcome applied) = Inr block"
      "compound ?K view block native (ab_outcome applied) = Inr st'"
      using ext [OF st] sel by auto
    with st fr sel vo stage_native_body [OF st] block_build_transactions show ?thesis
      by (simp add: prepare_next_def check_transactions_def record_entries_def)
  qed
  with vo sel v(2) show ?thesis by blast
qed

section \<open>A concrete signer\<close>

text \<open>For the witnesses: the recovered key is the signature, and its first byte names the signer. The digest of a header is its
  slot and the end of its last root, so that headers of different slots do not collide; any other digest is the end of
  the string.\<close>

definition trial_crypto :: "bytes crypto" where
  "trial_crypto = tail_crypto\<lparr>c_keccak := (\<lambda>b. if length b = 252 then field 8 b 35 @ drop 228 b else c_keccak tail_crypto b),
     c_recover_from_prehash := (\<lambda>_ s _. Some s),
     c_to_encoded_point := (\<lambda>k _. if k ! 0 = 1 then key_a else key_b)\<rparr>"

abbreviation trial_genesis :: genesis where
  "trial_genesis \<equiv> approved_genesis (c_keccak trial_crypto) [65]"

abbreviation trial_signature :: "text_bytes \<Rightarrow> bytes" where
  "trial_signature p \<equiv> replicate 64 (if p = trial_A then 1 else 2) @ [0]"

definition idle_owner :: "c1_snapshot \<Rightarrow> owner" where
  "idle_owner s = \<lparr>ow_genesis = trial_genesis, ow_connected = True, ow_snapshot = s, ow_generation = 7,
     ow_poisoned = False, ow_halted = False, ow_attempt = None\<rparr>"

lemma idle_owner_simps [simp]:
  "ow_snapshot (idle_owner s) = s" "ow_genesis (idle_owner s) = trial_genesis" "work_ready (idle_owner s) = Inr ()"
  by (simp_all add: idle_owner_def work_ready_def owner_ready_def)

lemma trial_facts:
  "digest32 (c_keccak trial_crypto)" "proposer_id (c_keccak trial_crypto) trial_A \<noteq> proposer_id (c_keccak trial_crypto) trial_B"
  using tail_ids by (auto simp: trial_crypto_def tail_crypto_def digest32_def proposer_id_def hash_with_domain_def PROPOSER_ID_DOMAIN_def str_def)

lemma trial_signs:
  assumes "hc_producer c \<in> {trial_A, trial_B}"
  shows "\<exists>ah. claim_authenticate trial_crypto c trial_genesis (pol_network (ge_policy trial_genesis)) (trial_signature (hc_producer c)) = Inr ah"
proof -
  obtain v where v: "List.find (\<lambda>v. vc_id v = hc_producer c) (pol_configs (ge_policy trial_genesis)) = Some v"
    "vc_public_key v = (if hc_producer c = trial_A then key_a else key_b)"
    using assms by (auto simp: approved_configs_def)
  have s: "signature_wf trial_crypto (trial_signature (hc_producer c))"
    by (simp add: signature_wf_def trial_crypto_def tail_crypto_def demo_crypto_def native_lens nth_append)
  show ?thesis
    by (rule claim_authenticate_intro [OF v(1) s]) (auto simp: trial_crypto_def v(2))
qed

lemma trial_extends:
  assumes rep: "replayed trial_crypto trial_genesis s" and n: "length (sn_records s) < 200"
    and fresh: "\<And>b. c1_block_ok (c_keccak trial_crypto) b \<Longrightarrow> bh_slot (hc_header (cb_claim b)) = of_nat (Suc (length (sn_records s))) \<Longrightarrow>
       \<forall>r \<in> set (sn_records s). c1_block_hash (c_keccak trial_crypto) (rd_block r) \<noteq> c1_block_hash (c_keccak trial_crypto) b"
  obtains producer ticket pb e sg s' where
    "prepare_next trial_crypto (idle_owner s) producer ticket [] = Inr pb" "ce_block e = pb_block pb"
    "ce_network e = pol_network (ge_policy trial_genesis)" "ce_signature e = trial_signature (hc_producer (cb_claim (pb_block pb)))"
    "seal_prepared trial_crypto (idle_owner s) pb (c1_envelope_wire_bytes (c_keccak trial_crypto) e) = (Inr sg, idle_owner s)"
    "stage_received trial_crypto (idle_owner s) (c1_envelope_wire_bytes (c_keccak trial_crypto) e) = (Inr sg, idle_owner s)"
    "snapshot_insert (c_keccak trial_crypto) (sg_record sg) s = Inr s'" "replayed trial_crypto trial_genesis s'"
    "length (sn_records s') = Suc (length (sn_records s))" "rd_envelope (sg_record sg) = e"
proof -
  let ?C = trial_crypto and ?K = "c_keccak trial_crypto" and ?ow = "idle_owner s"
  obtain view sel where v: "owner_slot_start ?K ?ow = Inr view" "supported (sv_state view) = Inr ()"
      "view_select ?K view = Inr sel"
    and pr: "\<And>body native applied. stage_native ?C view body = Inr (native, applied) \<Longrightarrow>
        check_entries s 0 (zip body (bo_transaction_ids (ab_outcome applied))) {} {} = Inr () \<Longrightarrow>
        \<exists>pb. prepare_next ?C ?ow (sl_owner sel) (sl_ticket sel) body = Inr pb"
    using prepare_progress [of ?C "[65]" ?ow, unfolded idle_owner_simps, OF rep refl trial_facts(2) refl n] by blast
  obtain pb where pb: "prepare_next ?C ?ow (sl_owner sel) (sl_ticket sel) [] = Inr pb"
    using pr [of "[]"] stage_native_empty [OF v(2), of ?C] by auto
  have ok: "c1_block_ok ?K (pb_block pb)"
    using prepared_block_ok [OF pb, of "[65]"] rep trial_facts by simp
  then have "hc_producer (cb_claim (pb_block pb)) \<in> {trial_A, trial_B}"
    unfolding c1_block_ok_def using block_from_parts_Inr(6) by blast
  then obtain ah where ah: "claim_authenticate ?C (cb_claim (pb_block pb)) trial_genesis (pol_network (ge_policy trial_genesis))
      (trial_signature (hc_producer (cb_claim (pb_block pb)))) = Inr ah"
    using trial_signs by blast
  have "bh_slot (hc_header (cb_claim (pb_block pb))) = of_nat (Suc (length (sn_records s)))"
    using pb
  proof (rule prepare_next_Inr)
    fix view sel native and applied :: applied_body
    assume "snapshot_start ?K (ow_snapshot ?ow) (ow_genesis ?ow) = Inr view"
      "compound ?K view (pb_block pb) native (ab_outcome applied) = Inr (pb_candidate pb)"
    with checked_add_Suc [OF snapshot_start_Inr(2)] show ?thesis
      by (auto elim!: compound_Inr simp flip: replayed_tip [OF rep])
  qed
  note h = honest_accepted [OF pb, of "[65]", simplified, OF rep trial_facts(1) fresh [OF ok this] ah]
  note r = stage_received_replays [OF h(1)]
  obtain s' where s': "snapshot_insert ?K \<lparr>rd_proof = \<lparr>ae_envelope = \<lparr>ce_block = pb_block pb,
      ce_network = pol_network (ge_policy trial_genesis), ce_signature = trial_signature (hc_producer (cb_claim (pb_block pb)))\<rparr>,
      ae_header = ah\<rparr>, rd_outcome = pb_outcome pb, rd_state = pb_candidate pb\<rparr> s = Inr s'"
    and rp: "replay_step ?C trial_genesis \<lparr>ce_block = pb_block pb,
      ce_network = pol_network (ge_policy trial_genesis), ce_signature = trial_signature (hc_producer (cb_claim (pb_block pb)))\<rparr> s = Inr s'"
    and eo: "c1_envelope_ok ?K \<lparr>ce_block = pb_block pb,
      ce_network = pol_network (ge_policy trial_genesis), ce_signature = trial_signature (hc_producer (cb_claim (pb_block pb)))\<rparr>"
    using r by (auto simp: stage_ok_def)
  have "replayed ?C trial_genesis s'" by (rule replay_append [OF rep eo rp])
  moreover have "length (sn_records s') = Suc (length (sn_records s))" using s' by (auto elim: snapshot_insert_Inr)
  ultimately show thesis using s' by (intro that [OF pb _ _ _ h(2,1)]) simp_all
qed

lemma trial_first:
  obtains producer ticket pb e sg s' where
    "prepare_next trial_crypto (idle_owner (snapshot_initial trial_genesis)) producer ticket [] = Inr pb" "ce_block e = pb_block pb"
    "ce_network e = pol_network (ge_policy trial_genesis)" "ce_signature e = trial_signature (hc_producer (cb_claim (pb_block pb)))"
    "seal_prepared trial_crypto (idle_owner (snapshot_initial trial_genesis)) pb (c1_envelope_wire_bytes (c_keccak trial_crypto) e) =
       (Inr sg, idle_owner (snapshot_initial trial_genesis))"
    "stage_received trial_crypto (idle_owner (snapshot_initial trial_genesis)) (c1_envelope_wire_bytes (c_keccak trial_crypto) e) =
       (Inr sg, idle_owner (snapshot_initial trial_genesis))"
    "snapshot_insert (c_keccak trial_crypto) (sg_record sg) (snapshot_initial trial_genesis) = Inr s'"
    "replayed trial_crypto trial_genesis s'" "length (sn_records s') = 1" "rd_envelope (sg_record sg) = e"
proof (rule trial_extends [of "snapshot_initial trial_genesis"])
  show "replayed trial_crypto trial_genesis (snapshot_initial trial_genesis)" by (rule replay_start)
qed (use that in \<open>simp_all add: snapshot_initial_def\<close>)

section \<open>An equivocation\<close>

lemma trial_header_hash:
  assumes "header_wf h"
  shows "header_hash (c_keccak trial_crypto) h = be_bytes (bh_slot h) @ drop 8 (bh_protocol_data_root h)"
proof -
  have r: "length (bh_protocol_data_root h) = 32" "length (header_bytes h) = 229" using assms length_header_bytes [OF assms] by (simp_all add: header_wf_def BLOCK_HEADER_LEN_def)
  obtain y where y: "header_bytes h = y @ bh_protocol_data_root h" by (simp add: header_bytes_def)
  have "field 8 (header_bytes h) 12 = be_bytes (bh_slot h)" by (simp add: header_bytes_def field_def)
  then have "field 8 (BLOCK_HEADER_DOMAIN @ header_bytes h) 35 = be_bytes (bh_slot h)" by (simp add: BLOCK_HEADER_DOMAIN_def str_def field_def)
  moreover have "drop 228 (BLOCK_HEADER_DOMAIN @ header_bytes h) = drop 8 (bh_protocol_data_root h)"
    using r y by (simp add: BLOCK_HEADER_DOMAIN_def str_def)
  ultimately show ?thesis
    using r by (simp add: header_hash_def hash_with_domain_def trial_crypto_def) (simp add: BLOCK_HEADER_DOMAIN_def str_def)
qed

lemma trial_block_hash:
  assumes "c1_block_ok (c_keccak trial_crypto) b"
  shows "c1_block_hash (c_keccak trial_crypto) b =
     be_bytes (bh_slot (hc_header (cb_claim b))) @ drop 8 (bh_protocol_data_root (hc_header (cb_claim b)))"
  by (simp add: c1_block_hash_def claim_hash_def trial_header_hash [OF c1_block_okD(1) [OF assms]])

text \<open>A second block for the slot of an empty one, by the same producer, with one entry.\<close>

lemma trial_rival:
  assumes ok: "c1_block_ok (c_keccak trial_crypto) b" and empty: "cb_transactions b = []"
  obtains b' where "c1_block_ok (c_keccak trial_crypto) b'" "statement b' = statement b"
    "c1_block_hash (c_keccak trial_crypto) b' \<noteq> c1_block_hash (c_keccak trial_crypto) b"
    "hc_producer (cb_claim b') \<in> {trial_A, trial_B}"
proof -
  let ?K = "c_keccak trial_crypto" and ?p = "hc_producer (cb_claim b)" and ?tx = "replicate SIGNED_LEN (3 :: u8)"
  define pd where "pd = \<lparr>pd_missed_proposer = None, pd_fees_burned = 10000\<rparr>"
  define h where "h = (hc_header (cb_claim b))\<lparr>bh_gas_used := 1000, bh_protocol_data_root := protocol_data_root ?K pd,
     bh_transaction_root := ?K (root_preimage [hash_with_domain ?K ID_DOMAIN ?tx])\<rparr>"
  have parts: "block_from_parts ?K (hc_header (cb_claim b)) ?p (cb_protocol b) [] = Inr b" and wf: "header_wf (hc_header (cb_claim b))"
    using ok empty by (simp_all add: c1_block_ok_def)
  note p = block_from_parts_Inr [OF parts] and f = header_claim_new_fields [OF block_from_parts_Inr(8) [OF parts]]
  have nz: "bh_ticket_id (hc_header (cb_claim b)) \<noteq> 0"
    using p(8) by (auto simp: header_claim_new_def split: if_splits)
  have claim: "header_claim_new ?K h ?p (of_nat (length [?tx])) = Inr \<lparr>hc_header = h, hc_producer = ?p, hc_count = 1\<rparr>"
    using f p(6) nz by (auto simp: header_claim_new_def h_def pd_def MAX_ENTRIES_def)
  have root: "ordered_transaction_root ?K [hash_with_domain ?K ID_DOMAIN ?tx] = Some (bh_transaction_root h)"
    unfolding h_def by (subst ordered_root_16) simp_all
  define b' where "b' = \<lparr>cb_claim = \<lparr>hc_header = h, hc_producer = ?p, hc_count = 1\<rparr>, cb_protocol = pd, cb_transactions = [?tx]\<rparr>"
  have dg: "length (?K x) = 32" for x using trial_facts(1) by (simp add: digest32_def)
  have "header_wf h"
    using wf dg by (simp add: header_wf_def h_def protocol_data_root_def hash_with_domain_def)
  moreover have "block_from_parts ?K h ?p pd [?tx] = Inr b'"
    using claim root by (simp add: block_from_parts_def b'_def MAX_ENTRIES_def) (simp add: h_def pd_def)
  ultimately have ok': "c1_block_ok ?K b'" by (simp add: c1_block_ok_def b'_def)
  have "bh_protocol_data_root (hc_header (cb_claim b)) = protocol_data_root ?K \<lparr>pd_missed_proposer = None, pd_fees_burned = 0\<rparr>"
    using p(8) by (auto simp: header_claim_new_def split: if_splits)
  moreover have "drop 8 (protocol_data_root ?K \<lparr>pd_missed_proposer = None, pd_fees_burned = 0\<rparr>) \<noteq> drop 8 (protocol_data_root ?K pd)"
    by (simp add: protocol_data_root_def protocol_data_bytes_def hash_with_domain_def pd_def trial_crypto_def tail_crypto_def
        PROTOCOL_DATA_DOMAIN_def)
  ultimately have "c1_block_hash ?K b' \<noteq> c1_block_hash ?K b"
    by (simp add: trial_block_hash [OF ok] trial_block_hash [OF ok']) (simp add: b'_def h_def)
  with ok' p(6) show thesis by (intro that [of b']) (simp_all add: b'_def statement_def h_def)
qed

section \<open>Properties\<close>

text \<open>C12. An honest block always gets in, and both roads lead to the same stage. When the selected producer
  prepares a body on an owner and signs the prepared block with its registered key, sealing the preparation on
  the producing side and receiving the same bytes on the receiving side both succeed, leave the owner as it
  was, and yield the identical staged block; committing it extends the replayed history by exactly that record.
  The only assumption on the hash is that the new block does not collide with a retained one.\<close>

theorem honest_block_admitted:
  assumes prep: "prepare_next C ow producer ticket body = Inr pb"
    and "replayed C (approved_genesis (c_keccak C) l) (ow_snapshot ow)"
    and "ow_genesis ow = approved_genesis (c_keccak C) l" and "digest32 (c_keccak C)"
    and "\<forall>r \<in> set (sn_records (ow_snapshot ow)). c1_block_hash (c_keccak C) (rd_block r) \<noteq> c1_block_hash (c_keccak C) (pb_block pb)"
    and "claim_authenticate C (cb_claim (pb_block pb)) (ow_genesis ow) (pol_network (ge_policy (ow_genesis ow))) signature = Inr ah"
  defines "e \<equiv> \<lparr>ce_block = pb_block pb, ce_network = pol_network (ge_policy (ow_genesis ow)), ce_signature = signature\<rparr>"
  shows "\<exists>sg s'. seal_prepared C ow pb (c1_envelope_wire_bytes (c_keccak C) e) = (Inr sg, ow) \<and>
     stage_received C ow (c1_envelope_wire_bytes (c_keccak C) e) = (Inr sg, ow) \<and>
     snapshot_insert (c_keccak C) (sg_record sg) (ow_snapshot ow) = Inr s' \<and>
     replayed C (approved_genesis (c_keccak C) l) s' \<and>
     sn_records s' = sn_records (ow_snapshot ow) @ [sg_record sg] \<and> sn_state s' = pb_candidate pb"
proof -
  note h = honest_accepted [OF assms(1-6), folded e_def]
  from stage_received_replays [OF h(1)] obtain s' where
    i: "snapshot_insert (c_keccak C) \<lparr>rd_proof = \<lparr>ae_envelope = e, ae_header = ah\<rparr>, rd_outcome = pb_outcome pb,
       rd_state = pb_candidate pb\<rparr> (ow_snapshot ow) = Inr s'"
    and r: "replay_step C (ow_genesis ow) e (ow_snapshot ow) = Inr s'" "c1_envelope_ok (c_keccak C) e"
    by (auto simp: stage_ok_def)
  have "replayed C (approved_genesis (c_keccak C) l) s'"
    by (rule replay_append [OF assms(2) r(2)]) (use r(1) assms(3) in simp)
  moreover have "sn_records s' = sn_records (ow_snapshot ow) @ [\<lparr>rd_proof = \<lparr>ae_envelope = e, ae_header = ah\<rparr>,
       rd_outcome = pb_outcome pb, rd_state = pb_candidate pb\<rparr>]" "sn_state s' = pb_candidate pb"
    using i by (auto elim: snapshot_insert_Inr)
  ultimately show ?thesis using h i by (intro exI conjI) auto
qed

theorem honest_block_admitted_witness:
  "\<exists>producer ticket pb signature sg. prepare_next trial_crypto (idle_owner (snapshot_initial trial_genesis)) producer ticket [] = Inr pb \<and>
     stage_received trial_crypto (idle_owner (snapshot_initial trial_genesis)) (c1_envelope_wire_bytes (c_keccak trial_crypto)
       \<lparr>ce_block = pb_block pb, ce_network = pol_network (ge_policy trial_genesis), ce_signature = signature\<rparr>) =
     (Inr sg, idle_owner (snapshot_initial trial_genesis))"
proof -
  obtain producer ticket pb where pb: "prepare_next trial_crypto (idle_owner (snapshot_initial trial_genesis)) producer ticket [] = Inr pb"
    by (rule trial_first)
  have rep: "replayed trial_crypto trial_genesis (ow_snapshot (idle_owner (snapshot_initial trial_genesis)))"
    by (simp add: replay_start)
  have "hc_producer (cb_claim (pb_block pb)) \<in> {trial_A, trial_B}"
    using prepared_block_ok [OF pb rep trial_facts(1)] block_from_parts_Inr(6) unfolding c1_block_ok_def by blast
  then obtain ah where "claim_authenticate trial_crypto (cb_claim (pb_block pb)) trial_genesis (pol_network (ge_policy trial_genesis))
      (trial_signature (hc_producer (cb_claim (pb_block pb)))) = Inr ah" using trial_signs by blast
  with honest_block_admitted [OF pb rep _ trial_facts(1)] pb show ?thesis
    by (simp add: snapshot_initial_def) blast
qed

text \<open>C13. Only an equivocation halts an owner, and every equivocation does. For an authenticated envelope
  offered to a ready owner, the owner halts exactly when a retained record of its history makes the same
  statement (slot, parent, producer, ticket) and no retained record has the offered block's hash: the
  selected key has signed two different blocks for one slot. Unselected or unrelated signed traffic cannot
  freeze progress.\<close>

theorem equivocation_halts:
  assumes "replayed C (approved_genesis (c_keccak C) l) (ow_snapshot ow)"
    and "ow_genesis ow = approved_genesis (c_keccak C) l"
    and "c1_envelope_authenticate C e (ow_genesis ow) = Inr pf" and "c1_envelope_ok (c_keccak C) e"
    and "work_ready ow = Inr ()"
  shows "ow_halted (snd (admit (c_keccak C) ow pf)) \<longleftrightarrow>
     (\<exists>r \<in> set (sn_records (ow_snapshot ow)). statement (rd_block r) = statement (ce_block e)) \<and>
     (\<forall>r \<in> set (sn_records (ow_snapshot ow)). c1_block_hash (c_keccak C) (rd_block r) \<noteq> c1_block_hash (c_keccak C) (ce_block e))"
  by (rule admit_conflict [OF assms])

theorem equivocation_halts_witness:
  "\<exists>s e pf. replayed trial_crypto trial_genesis s \<and> length (sn_records s) = 1 \<and>
     c1_envelope_authenticate trial_crypto e trial_genesis = Inr pf \<and>
     ow_halted (snd (admit (c_keccak trial_crypto) (idle_owner s) pf))"
proof -
  let ?C = trial_crypto and ?K = "c_keccak trial_crypto"
  obtain producer ticket pb e s' and sg :: staged_block where pb: "prepare_next ?C (idle_owner (snapshot_initial trial_genesis)) producer ticket [] = Inr pb"
    "ce_block e = pb_block pb" and s': "replayed ?C trial_genesis s'" "length (sn_records s') = 1"
    and i: "snapshot_insert ?K (sg_record sg) (snapshot_initial trial_genesis) = Inr s'" "rd_envelope (sg_record sg) = e"
    by (rule trial_first)
  have rs: "sn_records s' = [sg_record sg]" using i(1) by (auto elim!: snapshot_insert_Inr simp: snapshot_initial_def)
  have ok: "c1_block_ok ?K (pb_block pb)"
    by (rule prepared_block_ok [OF pb(1) _ trial_facts(1), of "[65]"]) (simp add: replay_start)
  have "cb_transactions (pb_block pb) = []" using pb(1) by (rule prepare_next_Inr)
  then obtain b' where b': "c1_block_ok ?K b'" "statement b' = statement (pb_block pb)"
    "c1_block_hash ?K b' \<noteq> c1_block_hash ?K (pb_block pb)" "hc_producer (cb_claim b') \<in> {trial_A, trial_B}"
    using trial_rival [OF ok] by blast
  define e' where "e' = \<lparr>ce_block = b', ce_network = pol_network (ge_policy trial_genesis), ce_signature = trial_signature (hc_producer (cb_claim b'))\<rparr>"
  obtain pf where pf: "c1_envelope_authenticate ?C e' trial_genesis = Inr pf"
    using trial_signs [OF b'(4)] by (auto simp: c1_envelope_authenticate_def e'_def)
  have ne: "length (pol_network (ge_policy trial_genesis)) = 32"
    using trial_facts(1) by (simp add: approved_genesis_def approved_policy_def keccak256_def digest32_def)
  have "ow_halted (snd (admit ?K (idle_owner s') pf))"
    using equivocation_halts [of ?C "[65]" "idle_owner s'" e' pf] s' pf b' rs i(2) pb(2) ne
    by (simp add: c1_envelope_ok_def e'_def)
  with s' pf show ?thesis by blast
qed

text \<open>C28. The membership indexes of a replayed history are exact: the identifier index knows precisely the
  transactions of the retained blocks, each at its block and body position, and so does the
  sender and nonce index; no identifier and no sender and nonce pair occurs twice in the whole history.\<close>

theorem membership_index_exact:
  assumes "replayed C g s"
  shows "(\<forall>ident m. map_of (sn_transactions s) ident = Some m \<longleftrightarrow> (\<exists>tx. (tx, ident, m) \<in> set (snapshot_entries s))) \<and>
     (\<forall>n m. map_of (sn_sender_nonces s) n = Some m \<longleftrightarrow> (\<exists>tx ident. (tx, ident, m) \<in> set (snapshot_entries s) \<and> sender_nonce tx = n)) \<and>
     distinct (map (\<lambda>(tx, ident, m). ident) (snapshot_entries s)) \<and>
     distinct (map (\<lambda>(tx, ident, m). sender_nonce tx) (snapshot_entries s))"
proof -
  let ?es = "snapshot_entries s" and ?f = "\<lambda>(tx, ident, m). (ident, m)" and ?g = "\<lambda>(tx, ident, m). (sender_nonce tx, m)"
  have i: "index_ok (sn_transactions s) (sn_sender_nonces s) ?es" by (rule replayed_index [OF assms])
  then have d: "distinct (map fst (map ?f ?es))" "distinct (map fst (map ?g ?es))"
    by (simp_all add: index_ok_def comp_def case_prod_beta')
  have "map_of (sn_transactions s) ident = Some m \<longleftrightarrow> (\<exists>tx. (tx, ident, m) \<in> set ?es)" for ident m
    using i map_of_eq_Some_iff [OF d(1), of ident m] by (force simp: index_ok_def)
  moreover have "map_of (sn_sender_nonces s) n = Some m \<longleftrightarrow> (\<exists>tx ident. (tx, ident, m) \<in> set ?es \<and> sender_nonce tx = n)" for n m
    using i map_of_eq_Some_iff [OF d(2), of n m] by (force simp: index_ok_def)
  ultimately show ?thesis using i by (simp add: index_ok_def)
qed

theorem membership_index_exact_witness:
  "\<exists>s. replayed trial_crypto trial_genesis s \<and> length (sn_records s) = 1 \<and>
     distinct (map (\<lambda>(tx, ident, m). ident) (snapshot_entries s))"
proof -
  obtain s' where s': "replayed trial_crypto trial_genesis s'" "length (sn_records s') = 1" by (rule trial_first)
  with membership_index_exact [OF s'(1)] show ?thesis by blast
qed

end
