(* ===== verification/Poash_Sql.thy ===== *)
theory Poash_Sql
  imports Poash_Admission
begin

text \<open>
  \<open>src/src/native_poash/storage/sql.rs\<close>: the rows in which a snapshot is materialized, the exact check of a
  stored base, the audit that replays a stored history from its blocks, and the writes of a commit.

  SQLite is a parameter. A value of type \<open>'w\<close> is the state of the database file and of the connection, and
  the record \<open>sqlite\<close> holds what the source calls: each of its functions may fail, with \<open>None\<close> for a
  \<open>rusqlite::Error\<close>. A query yields a cursor, which may fail at any row. What the statements mean is the
  interface \<open>sqlite_engine\<close> of \<open>Poash_Storage\<close>. The texts of the table and trigger declarations enter as \<open>ddl\<close>.
\<close>

section \<open>SQLite\<close>

datatype cell = Null | Integer int | Text bytes | Blob bytes | Real

datatype sql_table =
    Metadata | Accounts | Accounting | Year_zero | Blocks | Bodies | Transactions | Rewards | States | Canonical_tip

text \<open>The write statements of the source, with their bound parameters.\<close>

datatype sql_write =
    Execute string
  | Insert_metadata bytes bytes bytes bytes
  | Set_initialized
  | Upsert sql_table "bytes list"
  | Insert sql_table "bytes list"
  | Update_revision bytes bytes
  | Update_tip bytes bytes bytes bytes
  | Update_barrier bytes bytes

record 'w sqlite =
  sq_schema_present :: "'w \<Rightarrow> bool option"
  sq_schema_rows :: "'w \<Rightarrow> ((string \<times> string) \<times> string) list option"
  sq_integrity :: "'w \<Rightarrow> string option"
  sq_foreign_key_violation :: "'w \<Rightarrow> bool option"
  sq_count_metadata :: "'w \<Rightarrow> int option"
  sq_select :: "sql_table \<Rightarrow> 'w \<Rightarrow> cell list option list option"
  sq_write :: "sql_write \<Rightarrow> 'w \<Rightarrow> nat option \<times> 'w"
  sq_begin :: "bool \<Rightarrow> 'w \<Rightarrow> unit option \<times> 'w"        \<comment> \<open>the flag is \<open>BEGIN IMMEDIATE\<close>\<close>
  sq_commit :: "'w \<Rightarrow> unit option \<times> 'w"
  sq_rollback :: "'w \<Rightarrow> unit option \<times> 'w"
  sq_autocommit :: "'w \<Rightarrow> bool"

definition sql_error :: app_error where
  "sql_error = AStorage DInvalid"

text \<open>Calls that change the database, in sequence with early return.\<close>

definition then_do :: "('e + 'a) \<times> 'w \<Rightarrow> ('a \<Rightarrow> 'w \<Rightarrow> ('e + 'b) \<times> 'w) \<Rightarrow> ('e + 'b) \<times> 'w" where
  "then_do m f = (case m of (Inl e, w) \<Rightarrow> (Inl e, w) | (Inr x, w) \<Rightarrow> f x w)"

definition sql_exec :: "'w sqlite \<Rightarrow> sql_write \<Rightarrow> 'w \<Rightarrow> (app_error + nat) \<times> 'w" where
  "sql_exec S st w = (let (r, w') = sq_write S st w in (ok_or sql_error r, w'))"

section \<open>Schema and policy\<close>

definition TABLES :: "string list" where
  "TABLES = [''metadata'', ''accounts'', ''accounting'', ''year_zero'', ''blocks'', ''bodies'', ''transactions'',
     ''rewards'', ''states'', ''canonical_tip'']"

definition triggers :: "string list" where
  "triggers = concat (map (\<lambda>t. [''immutable_'' @ t @ ''_update'', ''immutable_'' @ t @ ''_delete'', ''no_replace_'' @ t])
       [''blocks'', ''bodies'', ''transactions'', ''rewards'', ''states'', ''year_zero'']) @
     [''metadata_policy'', ''metadata_delete'', ''metadata_replace'']"

definition expected_schema :: "(string \<Rightarrow> string) \<Rightarrow> ((string \<times> string) \<times> string) list" where
  "expected_schema ddl = map (\<lambda>n. ((''table'', n), ddl n)) TABLES @ map (\<lambda>n. ((''trigger'', n), ddl n)) triggers"

definition schema :: "'w sqlite \<Rightarrow> (string \<Rightarrow> string) \<Rightarrow> 'w \<Rightarrow> app_error + unit" where
  "schema S ddl w =
     try_res (ok_or sql_error (sq_schema_present S w)) (\<lambda>present.
     if \<not> present then Inl (AStorage DUninitialized)
     else try_res (ok_or sql_error (sq_schema_rows S w)) (\<lambda>actual.
     if set actual \<noteq> set (expected_schema ddl) then Inl (AInvalid ''exact schema4 tables/indexes/triggers'')
     else try_res (ok_or sql_error (sq_integrity S w)) (\<lambda>integrity.
     if integrity \<noteq> ''ok'' then Inl (AInvalid ''integrity'')
     else try_res (ok_or sql_error (sq_foreign_key_violation S w)) (\<lambda>violated.
     if violated then Inl (AInvalid ''foreign keys'') else Inr ()))))"

definition blob_cell :: "cell \<Rightarrow> nat \<Rightarrow> nat \<Rightarrow> app_error + bytes" where
  "blob_cell c lo hi = (case c of
     Blob b \<Rightarrow> if lo \<le> length b \<and> length b \<le> hi then Inr b else Inl (AInvalid ''bounded unsigned BLOB'')
   | _ \<Rightarrow> Inl (AInvalid ''bounded unsigned BLOB''))"

definition row_blobs :: "(nat \<times> nat) list \<Rightarrow> cell list \<Rightarrow> app_error + bytes list" where
  "row_blobs widths cells =
     (if length cells \<noteq> length widths then Inl sql_error
      else traverse (\<lambda>_ (c, lo, hi). blob_cell c lo hi) 0 (zip cells widths))"

fun collect_rows :: "string \<Rightarrow> (nat \<times> nat) list \<Rightarrow> nat \<Rightarrow> cell list option list \<Rightarrow> app_error + bytes list list" where
  "collect_rows name widths n [] = Inr []"
| "collect_rows name widths n (None # rs) = Inl sql_error"
| "collect_rows name widths n (Some cells # rs) =
     (if n = 0 then Inl (AInvalid (name @ '' row bound''))
      else try_res (row_blobs widths cells) (\<lambda>row.
        try_res (collect_rows name widths (n - 1) rs) (\<lambda>out. Inr (row # out))))"

fun table_name :: "sql_table \<Rightarrow> string" where
  "table_name Metadata = ''metadata''"
| "table_name Accounts = ''accounts''"
| "table_name Accounting = ''accounting''"
| "table_name Year_zero = ''year_zero''"
| "table_name Blocks = ''blocks''"
| "table_name Bodies = ''bodies''"
| "table_name Transactions = ''transactions''"
| "table_name Rewards = ''rewards''"
| "table_name States = ''states''"
| "table_name Canonical_tip = ''canonical_tip''"

definition sql_rows :: "'w sqlite \<Rightarrow> 'w \<Rightarrow> sql_table \<Rightarrow> (nat \<times> nat) list \<Rightarrow> nat \<Rightarrow> app_error + bytes list list" where
  "sql_rows S w t widths limit =
     try_res (ok_or sql_error (sq_select S t w)) (\<lambda>cursor. collect_rows (table_name t) widths limit cursor)"

definition sql_version :: bytes where "sql_version = be_bytes (4 :: u32)"
definition sql_mode :: bytes where "sql_mode = str ''native-poash-c1''"

definition policy_row :: "genesis \<Rightarrow> cell list \<Rightarrow> app_error + u64" where
  "policy_row g r = (case r of
     [version, mode, gen, revision, barrier, initialized] \<Rightarrow>
       try_res (blob_cell version 4 4) (\<lambda>v.
       if v \<noteq> sql_version \<or> mode \<noteq> Text sql_mode then Inl (AInvalid ''independent exact genesis/schema policy'')
       else try_res (blob_cell gen 1 MAX_GENESIS_BYTES) (\<lambda>gb.
       if gb \<noteq> ge_bytes g then Inl (AInvalid ''independent exact genesis/schema policy'')
       else (case initialized of Integer i \<Rightarrow>
         if i \<noteq> 1 then Inl (AInvalid ''independent exact genesis/schema policy'')
         else try_res (blob_cell barrier 8 8) (\<lambda>_. try_res (blob_cell revision 8 8) (\<lambda>rev. Inr (be_word rev)))
       | _ \<Rightarrow> Inl sql_error)))
   | _ \<Rightarrow> Inl sql_error)"

definition sql_policy :: "'w sqlite \<Rightarrow> genesis \<Rightarrow> 'w \<Rightarrow> app_error + u64" where
  "sql_policy S g w =
     try_res (ok_or sql_error (sq_count_metadata S w)) (\<lambda>n.
     if n \<noteq> 1 then Inl (AStorage DUninitialized)
     else try_res (ok_or sql_error (sq_select S Metadata w)) (\<lambda>cursor.
     case cursor of [] \<Rightarrow> Inl (AInvalid ''metadata singleton'') | None # _ \<Rightarrow> Inl sql_error
     | Some r # _ \<Rightarrow> policy_row g r))"

section \<open>Rows\<close>

definition year_bytes :: bytes where
  "year_bytes = year_zero_encode year_zero_approved"

abbreviation state_position :: "closed_state \<Rightarrow> position" where
  "state_position st \<equiv> si_position (cs_data st)"

definition state_row :: "closed_state \<Rightarrow> bytes list" where
  "state_row st = [be_bytes (po_slot (state_position st)), po_hash (state_position st), cs_bytes st, cs_id st]"

definition block_row :: "hasher \<Rightarrow> c1_record \<Rightarrow> bytes list" where
  "block_row K r =
     (let e = rd_envelope r; b = ce_block e; h = hc_header (cb_claim b) in
      [be_bytes (bh_slot h), c1_block_hash K b, bh_parent_hash h, header_bytes h, hc_producer (cb_claim b),
       protocol_data_bytes (cb_protocol b), ce_signature e, c1_envelope_id K e])"

definition body_row :: "c1_record \<Rightarrow> bytes list" where
  "body_row r =
     [be_bytes (po_slot (rd_position r)), be_bytes (of_nat (length (cb_transactions (rd_block r))) :: u64),
      be_bytes (bo_gas_used (rd_outcome r)), be_bytes (bo_fees_burned (rd_outcome r))]"

text \<open>The \<open>expect\<close> on the last credit never fires: the compound transition has appended one.\<close>

definition reward_row :: "c1_record \<Rightarrow> bytes list" where
  "reward_row r =
     (let c = last (si_credits (cs_data (rd_state r))) in
      [be_bytes (rc_slot c), rc_validator c, be_bytes (rc_amount c), be_bytes (0 :: u64), be_bytes REWARD_HOLD_EPOCHS])"

definition transaction_row :: "c1_record \<Rightarrow> nat \<Rightarrow> bytes \<times> hash \<Rightarrow> bytes list" where
  "transaction_row r i = (\<lambda>(tx, ident). let (sender, nonce) = sender_nonce tx in
     [ident, be_bytes (po_slot (rd_position r)), be_bytes (of_nat i :: u64), sender, be_bytes nonce, tx])"

definition transaction_rows :: "c1_record \<Rightarrow> bytes list list" where
  "transaction_rows r = map (\<lambda>(i, e). transaction_row r i e)
     (List.enumerate 0 (record_entries (rd_block r) (rd_outcome r)))"

definition account_row :: "poash_account \<Rightarrow> bytes list" where
  "account_row a = [pa_address a, be_bytes (pa_balance a), be_bytes (pa_nonce a)]"

definition accounting_row :: "closed_state \<Rightarrow> app_error + bytes list" where
  "accounting_row st =
     (let d = cs_data st in
      try_res (ok_or (AProtocol POverflow) (Option.bind (checked_add INITIAL_SUPPLY (si_base_issuance d))
          (\<lambda>n. checked_sub n (si_fees_burned d)))) (\<lambda>supply.
      Inr [be_bytes (si_gas_used d), be_bytes (si_fees_burned d), be_bytes (si_base_issuance d), be_bytes supply,
           be_bytes (po_slot (si_position d)), be_bytes (si_fees_burned d)]))"

section \<open>The exact check of a stored base\<close>

fun table_widths :: "sql_table \<Rightarrow> (nat \<times> nat) list" where
  "table_widths Metadata = []"
| "table_widths Accounts = [(20, 20), (16, 16), (8, 8)]"
| "table_widths Accounting = [(8, 8), (16, 16), (16, 16), (16, 16), (8, 8), (16, 16)]"
| "table_widths Year_zero = [(120, 120)]"
| "table_widths Blocks = [(8, 8), (32, 32), (32, 32), (229, 229), (7, 7), (10, 10), (65, 65), (32, 32)]"
| "table_widths Bodies = replicate 4 (8, 8)"
| "table_widths Transactions = [(32, 32), (8, 8), (8, 8), (20, 20), (8, 8), (199, 199)]"
| "table_widths Rewards = [(8, 8), (7, 7), (16, 16), (8, 8), (8, 8)]"
| "table_widths States = [(8, 8), (32, 32), (610, 200000), (32, 32)]"
| "table_widths Canonical_tip = [(8, 8), (32, 32)]"

fun table_limit :: "sql_table \<Rightarrow> nat" where
  "table_limit Accounts = MAX_ACCOUNTS"
| "table_limit Blocks = unat MAX_SLOTS"
| "table_limit Bodies = unat MAX_SLOTS"
| "table_limit Rewards = unat MAX_SLOTS"
| "table_limit States = unat MAX_SLOTS + 1"
| "table_limit Transactions = unat (MAX_SLOTS * MAX_ENTRIES)"
| "table_limit _ = 1"

fun expected_rows :: "hasher \<Rightarrow> genesis \<Rightarrow> c1_snapshot \<Rightarrow> bytes list \<Rightarrow> sql_table \<Rightarrow> bytes list list" where
  "expected_rows K g s acc Metadata = []"
| "expected_rows K g s acc Accounts = map account_row (si_accounts (cs_data (sn_state s)))"
| "expected_rows K g s acc Accounting = [acc]"
| "expected_rows K g s acc Year_zero = [[year_bytes]]"
| "expected_rows K g s acc Blocks = map (block_row K) (sn_records s)"
| "expected_rows K g s acc Bodies = map body_row (sn_records s)"
| "expected_rows K g s acc States = state_row (ge_initial g) # map (\<lambda>r. state_row (rd_state r)) (sn_records s)"
| "expected_rows K g s acc Rewards = map reward_row (sn_records s)"
| "expected_rows K g s acc Canonical_tip = [[be_bytes (po_slot (sn_tip s)), po_hash (sn_tip s)]]"
| "expected_rows K g s acc Transactions = concat (map transaction_rows (sn_records s))"

definition read_table :: "'w sqlite \<Rightarrow> 'w \<Rightarrow> sql_table \<Rightarrow> app_error + bytes list list" where
  "read_table S w t = sql_rows S w t (table_widths t) (table_limit t)"

fun verify_tables :: "'w sqlite \<Rightarrow> 'w \<Rightarrow> (sql_table \<Rightarrow> bytes list list) \<Rightarrow> sql_table list \<Rightarrow> app_error + unit" where
  "verify_tables S w want [] = Inr ()"
| "verify_tables S w want (t # ts) =
     try_res (read_table S w t) (\<lambda>found.
     if found \<noteq> want t then Inl (AInvalid (if t = Transactions then ''exact native indexes/body''
        else ''exact '' @ table_name t @ '' materialization''))
     else verify_tables S w want ts)"

definition verified_tables :: "sql_table list" where
  "verified_tables = [Accounts, Accounting, Year_zero, Blocks, Bodies, States, Rewards, Canonical_tip, Transactions]"

definition sql_verify :: "'w sqlite \<Rightarrow> (string \<Rightarrow> string) \<Rightarrow> hasher \<Rightarrow> genesis \<Rightarrow> c1_snapshot \<Rightarrow> 'w \<Rightarrow> app_error + unit" where
  "sql_verify S ddl K g s w =
     try_res (schema S ddl w) (\<lambda>_.
     try_res (sql_policy S g w) (\<lambda>revision.
     if revision \<noteq> po_slot (sn_tip s) then Inl (AInvalid ''revision/base'')
     else try_res (accounting_row (sn_state s)) (\<lambda>acc.
       verify_tables S w (expected_rows K g s acc) verified_tables)))"

section \<open>Writes\<close>

fun write_accounts :: "'w sqlite \<Rightarrow> poash_account list \<Rightarrow> 'w \<Rightarrow> (app_error + unit) \<times> 'w" where
  "write_accounts S [] w = (Inr (), w)"
| "write_accounts S (a # as) w = then_do (sql_exec S (Upsert Accounts (account_row a)) w) (\<lambda>_ w. write_accounts S as w)"

definition write_accounting :: "'w sqlite \<Rightarrow> closed_state \<Rightarrow> 'w \<Rightarrow> (app_error + unit) \<times> 'w" where
  "write_accounting S st w =
     then_do (accounting_row st, w) (\<lambda>row w.
     then_do (sql_exec S (Upsert Accounting row) w) (\<lambda>_ w. (Inr (), w)))"

definition sql_insert :: "'w sqlite \<Rightarrow> sql_table \<Rightarrow> bytes list \<Rightarrow> 'w \<Rightarrow> (app_error + unit) \<times> 'w" where
  "sql_insert S t row w = then_do (sql_exec S (Insert t row) w) (\<lambda>_ w. (Inr (), w))"

fun insert_rows :: "'w sqlite \<Rightarrow> sql_table \<Rightarrow> bytes list list \<Rightarrow> 'w \<Rightarrow> (app_error + unit) \<times> 'w" where
  "insert_rows S t [] w = (Inr (), w)"
| "insert_rows S t (row # rows) w = then_do (sql_insert S t row w) (\<lambda>_ w. insert_rows S t rows w)"

text \<open>A compare-and-set statement that must change exactly one row.\<close>

definition sql_cas :: "'w sqlite \<Rightarrow> sql_write \<Rightarrow> string \<Rightarrow> 'w \<Rightarrow> (app_error + unit) \<times> 'w" where
  "sql_cas S st message w =
     then_do (sql_exec S st w) (\<lambda>n w. (if n \<noteq> 1 then Inl (AInvalid message) else Inr (), w))"

fun exec_all :: "'w sqlite \<Rightarrow> sql_write list \<Rightarrow> 'w \<Rightarrow> (app_error + unit) \<times> 'w" where
  "exec_all S [] w = (Inr (), w)"
| "exec_all S (st # sts) w = then_do (sql_exec S st w) (\<lambda>_ w. exec_all S sts w)"

definition sql_initialize :: "'w sqlite \<Rightarrow> (string \<Rightarrow> string) \<Rightarrow> hasher \<Rightarrow> genesis \<Rightarrow> 'w \<Rightarrow> (app_error + unit) \<times> 'w" where
  "sql_initialize S ddl K g w =
     then_do (exec_all S (map (\<lambda>n. Execute (ddl n)) (TABLES @ triggers)) w) (\<lambda>_ w.
     then_do (sql_exec S (Insert_metadata sql_mode (ge_bytes g) (be_bytes (0 :: u64)) (be_bytes (0 :: u64))) w) (\<lambda>_ w.
     then_do (sql_insert S Year_zero [year_bytes] w) (\<lambda>_ w.
     then_do (write_accounts S (si_accounts (cs_data (ge_initial g))) w) (\<lambda>_ w.
     then_do (write_accounting S (ge_initial g) w) (\<lambda>_ w.
     then_do (sql_insert S States (state_row (ge_initial g)) w) (\<lambda>_ w.
     then_do (sql_insert S Canonical_tip [be_bytes (0 :: u64), header_hash K (pol_anchor (ge_policy g))] w) (\<lambda>_ w.
     then_do (sql_exec S Set_initialized w) (\<lambda>_ w. (Inr (), w)))))))))"

section \<open>The audit\<close>

text \<open>One stored block: decode its columns, collect its body from the transaction rows, rebuild the
  envelope and replay it.\<close>

definition replay_row ::
  "'k crypto \<Rightarrow> genesis \<Rightarrow> bytes list list \<Rightarrow> bytes list \<Rightarrow> c1_snapshot \<Rightarrow> app_error + c1_snapshot" where
  "replay_row C g txs row s =
     (let K = c_keccak C; slot = be_word (row ! 0) :: u64 in
      if slot \<noteq> po_slot (sn_tip s) + 1 then Inl (AProtocol (MissingHistory (po_slot (sn_tip s) + 1)))
      else try_res (ok_or (AInvalid ''header'') (header_from_bytes (row ! 3))) (\<lambda>header.
      try_res (ok_or (AInvalid ''protocol'') (protocol_data_from_bytes (row ! 5))) (\<lambda>protocol.
      let body = map (\<lambda>tx. tx ! 5) (filter (\<lambda>tx. tx ! 1 = row ! 0) txs) in
      if \<not> utf8_valid (row ! 4) then Inl (AInvalid ''utf8'')
      else try_res (block_from_parts K header (row ! 4) protocol body) (\<lambda>b.
      replay_step C g \<lparr>ce_block = b, ce_network = pol_network (ge_policy g), ce_signature = row ! 6\<rparr> s))))"

fun replay_rows ::
  "'k crypto \<Rightarrow> genesis \<Rightarrow> bytes list list \<Rightarrow> bytes list list \<Rightarrow> c1_snapshot \<Rightarrow> app_error + c1_snapshot" where
  "replay_rows C g txs [] s = Inr s"
| "replay_rows C g txs (row # rows) s = try_res (replay_row C g txs row s) (replay_rows C g txs rows)"

definition audit_body :: "'w sqlite \<Rightarrow> (string \<Rightarrow> string) \<Rightarrow> 'k crypto \<Rightarrow> genesis \<Rightarrow> 'w \<Rightarrow> app_error + c1_snapshot" where
  "audit_body S ddl C g w =
     try_res (schema S ddl w) (\<lambda>_.
     try_res (sql_policy S g w) (\<lambda>revision.
     if revision > MAX_SLOTS then Inl (AProtocol ExperimentLimit)
     else try_res (read_table S w Blocks) (\<lambda>blocks.
     try_res (read_table S w Transactions) (\<lambda>txs.
     try_res (replay_rows C g txs blocks (snapshot_initial g)) (\<lambda>s.
     if revision \<noteq> po_slot (sn_tip s) then Inl (AProtocol (MissingHistory (po_slot (sn_tip s) + 1)))
     else try_res (sql_verify S ddl (c_keccak C) g s w) (\<lambda>_. Inr s))))))"

definition sql_audit :: "'w sqlite \<Rightarrow> (string \<Rightarrow> string) \<Rightarrow> 'k crypto \<Rightarrow> genesis \<Rightarrow> 'w \<Rightarrow> (app_error + c1_snapshot) \<times> 'w" where
  "sql_audit S ddl C g w =
     (case sq_begin S False w of
        (None, w) \<Rightarrow> (Inl sql_error, w)
      | (Some _, w) \<Rightarrow>
          let result = audit_body S ddl C g w; (end_r, w) = sq_rollback S w in
          (try_res result (\<lambda>s. try_res (ok_or sql_error end_r) (\<lambda>_. Inr s)), w))"

definition read_barrier :: "'w sqlite \<Rightarrow> 'w \<Rightarrow> app_error + bytes" where
  "read_barrier S w =
     try_res (ok_or sql_error (sq_select S Metadata w)) (\<lambda>cursor.
     case cursor of Some [_, _, _, _, Blob old, _] # _ \<Rightarrow> (if length old = 8 then Inr old else Inl sql_error)
     | _ \<Rightarrow> Inl sql_error)"

definition sql_barrier ::
  "'w sqlite \<Rightarrow> (string \<Rightarrow> string) \<Rightarrow> hasher \<Rightarrow> genesis \<Rightarrow> c1_snapshot \<Rightarrow> ('w \<Rightarrow> unit option \<times> 'w) \<Rightarrow> 'w \<Rightarrow>
   (app_error + unit) \<times> 'w" where
  "sql_barrier S ddl K g s sync_path w =
     (case sq_begin S True w of
        (None, w) \<Rightarrow> (Inl uncertain, w)
      | (Some _, w) \<Rightarrow>
          let (r, w) = then_do (sql_verify S ddl K g s w, w) (\<lambda>_ w.
            then_do (read_barrier S w, w) (\<lambda>old w.
            then_do (ok_or (AProtocol POverflow) (checked_add (be_word old :: u64) 1), w) (\<lambda>next w.
            then_do (sql_cas S (Update_barrier (be_bytes next) old) ''barrier CAS'' w) (\<lambda>_ w.
            then_do (let (r, w) = sq_commit S w in (ok_or sql_error r, w)) (\<lambda>_ w.
            let (r, w) = sync_path w in (ok_or (AStorage DInvalid) r, w))))))
          in (map_err (\<lambda>_. uncertain) r, w))"

end
