(* ===== verification/Poash_Storage.thy ===== *)
theory Poash_Storage
  imports Poash_Sql
begin

text \<open>
  The durable owner of \<open>src/src/native_poash/storage.rs\<close>: creation, loading, atomic commit, abort, poisoning
  and recovery, over the statements of \<open>Poash_Sql\<close>, with \<open>open\<close>, \<open>configure\<close>, \<open>sync_path\<close> and
  \<open>next_generation\<close> of \<open>src/src/durable_fixture.rs\<close>. The file system and SQLite are the parameter \<open>disk\<close>;
  what they promise is the interface \<open>sqlite_engine\<close>, with the meaning of each statement given by \<open>apply_write\<close>.
\<close>

section \<open>The disk\<close>

record pragmas =
  pg_journal_mode :: "string option"
  pg_synchronous :: "int option"
  pg_foreign_keys :: "int option"
  pg_page_size :: "int option"
  pg_cache_size :: "int option"
  pg_cache_spill :: "int option"

datatype created = Created | Already_exists | Not_created

record 'w disk = "'w sqlite" +
  dk_ddl :: "string \<Rightarrow> string"
  dk_create_new :: "'w \<Rightarrow> created \<times> 'w"
  dk_exists :: "'w \<Rightarrow> bool option"
  dk_open :: "'w \<Rightarrow> unit option \<times> 'w"
  dk_close :: "'w \<Rightarrow> 'w"
  dk_busy_timeout :: "'w \<Rightarrow> unit option \<times> 'w"
  dk_set_pragmas :: "'w \<Rightarrow> unit option \<times> 'w"
  dk_pragmas :: "'w \<Rightarrow> pragmas"
  dk_sync_path :: "'w \<Rightarrow> unit option \<times> 'w"

abbreviation sql_of :: "'w disk \<Rightarrow> 'w sqlite" where
  "sql_of D \<equiv> sqlite.truncate D"

lemma sql_of_simps [simp]:
  "sq_schema_present (sql_of D) = sq_schema_present D" "sq_schema_rows (sql_of D) = sq_schema_rows D"
  "sq_integrity (sql_of D) = sq_integrity D" "sq_foreign_key_violation (sql_of D) = sq_foreign_key_violation D"
  "sq_count_metadata (sql_of D) = sq_count_metadata D" "sq_select (sql_of D) = sq_select D"
  "sq_write (sql_of D) = sq_write D" "sq_begin (sql_of D) = sq_begin D" "sq_commit (sql_of D) = sq_commit D"
  "sq_rollback (sql_of D) = sq_rollback D" "sq_autocommit (sql_of D) = sq_autocommit D"
  by (simp_all add: sqlite.defs)

definition disk_call :: "app_error \<Rightarrow> unit option \<times> 'w \<Rightarrow> (app_error + unit) \<times> 'w" where
  "disk_call e m = (case m of (None, w) \<Rightarrow> (Inl e, w) | (Some _, w) \<Rightarrow> (Inr (), w))"

definition next_generation :: "u64 \<Rightarrow> (app_error + u64) \<times> u64" where
  "next_generation counter = (case checked_add counter 1 of
     None \<Rightarrow> (Inl (AStorage DInvalid), counter) | Some n \<Rightarrow> (Inr counter, n))"

definition disk_open :: "'w disk \<Rightarrow> 'w \<Rightarrow> (app_error + unit) \<times> 'w" where
  "disk_open D w = (case dk_exists D w of
     None \<Rightarrow> (Inl (AStorage DInvalid), w)
   | Some False \<Rightarrow> (Inl (AStorage DMissing), w)
   | Some True \<Rightarrow> disk_call (AStorage DInvalid) (dk_open D w))"

definition disk_configure :: "'w disk \<Rightarrow> 'w \<Rightarrow> (app_error + unit) \<times> 'w" where
  "disk_configure D w =
     then_do (disk_call (AStorage DInvalid) (dk_busy_timeout D w)) (\<lambda>_ w.
     then_do (disk_call (AStorage DInvalid) (dk_set_pragmas D w)) (\<lambda>_ w.
     (try_res (ok_or (AStorage DInvalid) (pg_journal_mode (dk_pragmas D w))) (\<lambda>mode.
      try_res (ok_or (AStorage DInvalid) (pg_synchronous (dk_pragmas D w))) (\<lambda>sync.
      try_res (ok_or (AStorage DInvalid) (pg_foreign_keys (dk_pragmas D w))) (\<lambda>keys.
      if mode \<noteq> ''delete'' \<or> sync \<noteq> 3 \<or> keys \<noteq> 1 then Inl (AStorage DInvalid) else Inr ()))), w)))"

definition sql_configure :: "'w disk \<Rightarrow> 'w \<Rightarrow> (app_error + unit) \<times> 'w" where
  "sql_configure D w =
     then_do (disk_configure D w) (\<lambda>_ w.
     (try_res (ok_or sql_error (pg_cache_size (dk_pragmas D w))) (\<lambda>cache.
      try_res (ok_or sql_error (pg_cache_spill (dk_pragmas D w))) (\<lambda>spill.
      if cache \<noteq> -2000 \<or> spill \<le> 0 then Inl (AInvalid ''required default cache/spill'') else Inr ())), w))"

record storage_settings =
  ss_journal_mode :: string
  ss_synchronous :: int
  ss_foreign_keys :: bool
  ss_page_size :: int
  ss_cache_size :: int

definition sql_settings :: "'w disk \<Rightarrow> 'w \<Rightarrow> app_error + storage_settings" where
  "sql_settings D w =
     try_res (ok_or sql_error (pg_journal_mode (dk_pragmas D w))) (\<lambda>mode.
     try_res (ok_or sql_error (pg_synchronous (dk_pragmas D w))) (\<lambda>sync.
     try_res (ok_or sql_error (pg_foreign_keys (dk_pragmas D w))) (\<lambda>keys.
     try_res (ok_or sql_error (pg_page_size (dk_pragmas D w))) (\<lambda>page.
     try_res (ok_or sql_error (pg_cache_size (dk_pragmas D w))) (\<lambda>cache.
     Inr \<lparr>ss_journal_mode = mode, ss_synchronous = sync, ss_foreign_keys = (keys = 1), ss_page_size = page,
          ss_cache_size = cache\<rparr>)))))"

section \<open>The owner's durable operations\<close>

definition owner_settings :: "'w disk \<Rightarrow> owner \<Rightarrow> 'w \<Rightarrow> app_error + storage_settings" where
  "owner_settings D ow w = try_res (owner_ready ow) (\<lambda>_. sql_settings D w)"

abbreviation disk_verify :: "'w disk \<Rightarrow> hasher \<Rightarrow> genesis \<Rightarrow> c1_snapshot \<Rightarrow> 'w \<Rightarrow> app_error + unit" where
  "disk_verify D K g s w \<equiv> sql_verify (sql_of D) (dk_ddl D) K g s w"

text \<open>\<open>checked.and(end)?\<close>: the result of the check first, then that of the \<open>ROLLBACK\<close>.\<close>

definition signing_view :: "hasher \<Rightarrow> 'w disk \<Rightarrow> owner \<Rightarrow> prepared_block \<Rightarrow> 'w \<Rightarrow> (app_error + slot_start_view) \<times> 'w" where
  "signing_view K D ow prepared w =
     then_do (check_base ow (pb_base prepared), w) (\<lambda>_ w.
     then_do (disk_call sql_error (sq_begin D False w)) (\<lambda>_ w.
     let checked' = disk_verify D K (ow_genesis ow) (ow_snapshot ow) w;
         (end_r, w) = disk_call sql_error (sq_rollback D w) in
     then_do (try_res checked' (\<lambda>_. end_r), w) (\<lambda>_ w. (owner_slot_start K ow, w))))"

definition poison :: "owner \<Rightarrow> app_error \<Rightarrow> append_outcome \<times> owner" where
  "poison ow e = (RecoveryRequired uncertain, ow\<lparr>ow_poisoned := True\<rparr>)"

text \<open>The writes of a commit, under the write lock: the stored base is checked before the first one.\<close>

definition commit_writes ::
  "hasher \<Rightarrow> 'w disk \<Rightarrow> genesis \<Rightarrow> staged_block \<Rightarrow> c1_snapshot \<Rightarrow> 'w \<Rightarrow> (app_error + unit) \<times> 'w" where
  "commit_writes K D g stage next w =
     (let S = sql_of D; r = sg_record stage; old = sn_tip (ba_snapshot (sg_base stage)); tip = sn_tip next in
      then_do (map_err (\<lambda>_. AStale) (disk_verify D K g (ba_snapshot (sg_base stage)) w), w) (\<lambda>_ w.
      then_do (write_accounts S (si_accounts (cs_data (sn_state next))) w) (\<lambda>_ w.
      then_do (write_accounting S (sn_state next) w) (\<lambda>_ w.
      then_do (sql_insert S Blocks (block_row K r) w) (\<lambda>_ w.
      then_do (sql_insert S Bodies (body_row r) w) (\<lambda>_ w.
      then_do (insert_rows S Transactions (transaction_rows r) w) (\<lambda>_ w.
      then_do (sql_insert S Rewards (reward_row r) w) (\<lambda>_ w.
      then_do (sql_insert S States (state_row (sn_state next)) w) (\<lambda>_ w.
      then_do (sql_cas S (Update_revision (be_bytes (po_slot tip)) (be_bytes (po_slot old))) ''revision CAS'' w) (\<lambda>_ w.
      sql_cas S (Update_tip (be_bytes (po_slot tip)) (po_hash tip) (be_bytes (po_slot old)) (po_hash old)) ''tip CAS'' w))))))))))"

definition abort :: "hasher \<Rightarrow> 'w disk \<Rightarrow> owner \<Rightarrow> app_error \<Rightarrow> 'w \<Rightarrow> append_outcome \<times> owner \<times> 'w" where
  "abort K D ow e w =
     (let (failed, w) = (if sq_autocommit D w then (False, w)
        else case sq_rollback D w of (None, w) \<Rightarrow> (True, w) | (Some _, w) \<Rightarrow> (False, w)) in
      if failed \<or> \<not> sq_autocommit D w \<or> \<not> is_ok (disk_verify D K (ow_genesis ow) (ow_snapshot ow) w)
      then (let (out, ow) = poison ow e in (out, ow, w))
      else (Aborted e, ow\<lparr>ow_attempt := None\<rparr>, w))"

definition commit :: "hasher \<Rightarrow> 'w disk \<Rightarrow> owner \<Rightarrow> staged_block \<Rightarrow> 'w \<Rightarrow> append_outcome \<times> owner \<times> 'w" where
  "commit K D ow stage w =
     (case check_base ow (sg_base stage) of Inl e \<Rightarrow> (Aborted e, ow, w) | Inr _ \<Rightarrow>
     (case snapshot_insert K (sg_record stage) (ow_snapshot ow) of Inl e \<Rightarrow> (Aborted e, ow, w) | Inr next \<Rightarrow>
     (case sq_begin D True w of (None, w) \<Rightarrow> (Aborted sql_error, ow, w) | (Some _, w) \<Rightarrow>
      let ow = ow\<lparr>ow_attempt := Some \<lparr>tr_base = sg_base stage, tr_record = sg_record stage\<rparr>\<rparr> in
     (case commit_writes K D (ow_genesis ow) stage next w of
        (Inl e, w) \<Rightarrow>
          if e = AStale then
            (let (r, w) = sq_rollback D w in
             if r \<noteq> None \<and> sq_autocommit D w then (Aborted e, ow\<lparr>ow_attempt := None, ow_poisoned := True\<rparr>, w)
             else (let (out, ow) = poison ow e in (out, ow, w)))
          else abort K D ow e w
      | (Inr _, w) \<Rightarrow>
          (case sq_commit D w of
             (None, w) \<Rightarrow> (let (out, ow) = poison ow sql_error in (out, ow, w))
           | (Some _, w) \<Rightarrow>
               (Committed (sn_tip next) (c1_envelope_id K (rd_envelope (sg_record stage))) (rd_outcome (sg_record stage)),
                ow\<lparr>ow_snapshot := next, ow_attempt := None\<rparr>, w))))))"

text \<open>Recovery, over the owner, the process-wide generation counter and the disk. Everything up to the
  installation leaves the owner poisoned.\<close>

definition recover ::
  "'k crypto \<Rightarrow> 'w disk \<Rightarrow> owner \<Rightarrow> u64 \<Rightarrow> 'w \<Rightarrow> (app_error + recovery_report) \<times> owner \<times> u64 \<times> 'w" where
  "recover C D ow counter w =
     (let K = c_keccak C; ow = ow\<lparr>ow_poisoned := True\<rparr>; (gen, counter) = next_generation counter in
      case gen of Inl e \<Rightarrow> (Inl e, ow, counter, w) | Inr gen \<Rightarrow>
      let ow = ow\<lparr>ow_generation := gen, ow_connected := False\<rparr> in
      (case then_do (disk_open D (dk_close D w)) (\<lambda>_ w. sql_configure D w) of
         (Inl e, w) \<Rightarrow> (Inl e, ow, counter, w)
       | (Inr _, w) \<Rightarrow>
         let ow = ow\<lparr>ow_connected := True\<rparr> in
         (case then_do (sql_audit (sql_of D) (dk_ddl D) C (ow_genesis ow) w) (\<lambda>loaded w.
               then_do (reconcile (ow_attempt ow) (ow_snapshot ow) loaded, w) (\<lambda>present w.
               then_do (sql_barrier (sql_of D) (dk_ddl D) K (ow_genesis ow) loaded (dk_sync_path D) w) (\<lambda>_ w.
               (Inr (loaded, present), w)))) of
            (Inl e, w) \<Rightarrow> (Inl e, ow, counter, w)
          | (Inr (loaded, present), w) \<Rightarrow>
              (Inr \<lparr>rr_position = sn_tip loaded, rr_attempted_present = present\<rparr>,
               ow\<lparr>ow_snapshot := loaded, ow_attempt := None, ow_poisoned := False\<rparr>, counter, w))))"

definition new_owner :: "genesis \<Rightarrow> c1_snapshot \<Rightarrow> u64 \<Rightarrow> (app_error + owner) \<times> u64" where
  "new_owner g s counter =
     (let (gen, counter) = next_generation counter in
      (try_res gen (\<lambda>gen. Inr \<lparr>ow_genesis = g, ow_connected = True, ow_snapshot = s, ow_generation = gen,
         ow_poisoned = False, ow_halted = False, ow_attempt = None\<rparr>), counter))"

definition create_inner :: "hasher \<Rightarrow> 'w disk \<Rightarrow> genesis \<Rightarrow> u64 \<Rightarrow> 'w \<Rightarrow> (app_error + owner) \<times> u64 \<times> 'w" where
  "create_inner K D g counter w =
     (case dk_create_new D w of
        (Already_exists, w) \<Rightarrow> (Inl (AStorage DAlreadyExists), counter, w)
      | (Not_created, w) \<Rightarrow> (Inl (AStorage DInvalid), counter, w)
      | (Created, w) \<Rightarrow>
     (case then_do (disk_open D w) (\<lambda>_ w. then_do (sql_configure D w) (\<lambda>_ w. disk_call sql_error (sq_begin D True w))) of
        (Inl e, w) \<Rightarrow> (Inl e, counter, w)
      | (Inr _, w) \<Rightarrow>
     (case sql_initialize (sql_of D) (dk_ddl D) K g w of
        (Inl e, w) \<Rightarrow>
          if sq_autocommit D w then (Inl (AStorage DAborted), counter, w)
          else (case sq_rollback D w of
             (None, w) \<Rightarrow> (Inl uncertain, counter, w) | (Some _, w) \<Rightarrow> (Inl (AStorage DAborted), counter, w))
      | (Inr _, w) \<Rightarrow>
     (case then_do (disk_call uncertain (sq_commit D w)) (\<lambda>_ w. disk_call uncertain (dk_sync_path D w)) of
        (Inl e, w) \<Rightarrow> (Inl e, counter, w)
      | (Inr _, w) \<Rightarrow> let (ow, counter) = new_owner g (snapshot_initial g) counter in (ow, counter, w)))))"

definition load :: "'k crypto \<Rightarrow> 'w disk \<Rightarrow> genesis \<Rightarrow> u64 \<Rightarrow> 'w \<Rightarrow> (app_error + owner) \<times> u64 \<times> 'w" where
  "load C D g counter w =
     (case then_do (disk_open D w) (\<lambda>_ w. then_do (sql_configure D w) (\<lambda>_ w.
           then_do (sql_audit (sql_of D) (dk_ddl D) C g w) (\<lambda>s w.
           then_do (sql_barrier (sql_of D) (dk_ddl D) (c_keccak C) g s (dk_sync_path D) w) (\<lambda>_ w. (Inr s, w))))) of
        (Inl e, w) \<Rightarrow> (Inl e, counter, w)
      | (Inr s, w) \<Rightarrow> let (ow, counter) = new_owner g s counter in (ow, counter, w))"

section \<open>What the statements mean\<close>

text \<open>A table is the list of its rows in the order in which the source reads it; that order's columns
  identify a row (\<open>PRIMARY KEY\<close>, \<open>UNIQUE(slot,position)\<close>, \<open>CHECK(id=1)\<close>), and blobs compare
  bytewise.\<close>

type_synonym sqldb = "sql_table \<Rightarrow> cell list list"

fun cell_bytes :: "cell \<Rightarrow> bytes" where
  "cell_bytes (Blob b) = b"
| "cell_bytes _ = []"

fun row_key :: "sql_table \<Rightarrow> cell list \<Rightarrow> bytes list" where
  "row_key Transactions row = [cell_bytes (row ! 1), cell_bytes (row ! 2)]"
| "row_key Accounts row = [cell_bytes (row ! 0)]"
| "row_key Blocks row = [cell_bytes (row ! 0)]"
| "row_key Bodies row = [cell_bytes (row ! 0)]"
| "row_key Rewards row = [cell_bytes (row ! 0)]"
| "row_key States row = [cell_bytes (row ! 0)]"
| "row_key _ row = []"

fun put_row :: "('r \<Rightarrow> 'k::linorder) \<Rightarrow> 'r \<Rightarrow> 'r list \<Rightarrow> 'r list" where
  "put_row k r [] = [r]"
| "put_row k r (x # xs) = (if k r < k x then r # x # xs else if k r = k x then r # xs else x # put_row k r xs)"

fun apply_write :: "sql_write \<Rightarrow> sqldb \<Rightarrow> sqldb" where
  "apply_write (Execute _) db = db"
| "apply_write (Insert_metadata mode g revision bar) db =
     db(Metadata := db Metadata @ [[Blob sql_version, Text mode, Blob g, Blob revision, Blob bar, Integer 0]])"
| "apply_write Set_initialized db = db(Metadata := map (\<lambda>r. r[5 := Integer 1]) (db Metadata))"
| "apply_write (Upsert t row) db = db(t := put_row (row_key t) (map Blob row) (db t))"
| "apply_write (Insert t row) db = db(t := put_row (row_key t) (map Blob row) (db t))"
| "apply_write (Update_revision new old) db =
     db(Metadata := map (\<lambda>r. if r ! 3 = Blob old then r[3 := Blob new] else r) (db Metadata))"
| "apply_write (Update_tip slot h oslot oh) db =
     db(Canonical_tip := map (\<lambda>r. if r = [Blob oslot, Blob oh] then [Blob slot, Blob h] else r) (db Canonical_tip))"
| "apply_write (Update_barrier new old) db =
     db(Metadata := map (\<lambda>r. if r ! 4 = Blob old then r[4 := Blob new] else r) (db Metadata))"

fun affected :: "sql_write \<Rightarrow> sqldb \<Rightarrow> nat" where
  "affected (Update_revision new old) db = length (filter (\<lambda>r. r ! 3 = Blob old) (db Metadata))"
| "affected (Update_tip slot h oslot oh) db = length (filter (\<lambda>r. r = [Blob oslot, Blob oh]) (db Canonical_tip))"
| "affected (Update_barrier new old) db = length (filter (\<lambda>r. r ! 4 = Blob old) (db Metadata))"
| "affected _ db = 1"

text \<open>What the source relies on: queries return the content of the database as the connection sees it;
  inside a transaction writes change that view and nothing durable; \<open>COMMIT\<close> makes the view durable at once,
  and when it reports an error the database holds the old content or the new; \<open>ROLLBACK\<close>, closing
  and opening keep the durable content. A statement that reports an error may have done anything else.\<close>

locale sqlite_engine =
  fixes D :: "'w disk" and content :: "'w \<Rightarrow> sqldb" and durable :: "'w \<Rightarrow> sqldb"
  assumes select_row: "sq_select D t w = Some rows \<Longrightarrow> i < length rows \<Longrightarrow> rows ! i = Some row \<Longrightarrow>
      i < length (content w t) \<and> content w t ! i = row"
    and select_all: "sq_select D t w = Some rows \<Longrightarrow> None \<notin> set rows \<Longrightarrow> length rows = length (content w t)"
    and count_rows: "sq_count_metadata D w = Some cnt \<Longrightarrow> cnt = int (length (content w Metadata))"
    and write_effect: "\<not> sq_autocommit D w \<Longrightarrow> sq_write D st w = (changed, w') \<Longrightarrow> durable w' = durable w \<and>
      (\<forall>n. changed = Some n \<longrightarrow> \<not> sq_autocommit D w' \<and> content w' = apply_write st (content w) \<and> n = affected st (content w))"
    and begin_effect: "sq_autocommit D w \<Longrightarrow> sq_begin D b w = (r, w') \<Longrightarrow> durable w' = durable w \<and>
      (r = None \<longrightarrow> sq_autocommit D w') \<and> (r = Some () \<longrightarrow> \<not> sq_autocommit D w' \<and> content w' = durable w')"
    and commit_effect: "\<not> sq_autocommit D w \<Longrightarrow> sq_commit D w = (r, w') \<Longrightarrow>
      (r = Some () \<longrightarrow> durable w' = content w \<and> sq_autocommit D w') \<and>
      (r = None \<longrightarrow> durable w' = durable w \<or> durable w' = content w)"
    and rollback_effect: "sq_rollback D w = (r, w') \<Longrightarrow> durable w' = durable w \<and> (r = Some () \<longrightarrow> sq_autocommit D w')"
    and idle_content: "sq_autocommit D w \<Longrightarrow> content w = durable w"
    and close_effect: "durable (dk_close D w) = durable w"
    and open_effect: "dk_open D w = (r, w') \<Longrightarrow> durable w' = durable w \<and> (r = Some () \<longrightarrow> sq_autocommit D w')"
    and settings_effect: "dk_busy_timeout D w = (r, w') \<or> dk_set_pragmas D w = (r, w') \<or> dk_sync_path D w = (r, w') \<Longrightarrow>
      durable w' = durable w \<and> sq_autocommit D w' = sq_autocommit D w"

section \<open>Ordered tables\<close>

lemma from_be_Cons: "from_be (b # bs) = unat b * 256 ^ length bs + from_be bs"
proof (induction bs rule: rev_induct)
  case (snoc x bs)
  have "from_be (b # bs @ [x]) = from_be ((b # bs) @ [x])" by simp
  also have "\<dots> = from_be (b # bs) * 256 + unat x" by (simp only: from_be_snoc)
  finally show ?case using snoc by (simp add: algebra_simps)
qed (simp add: from_be_def)

lemma from_be_order: "length xs = length ys \<Longrightarrow> from_be xs < from_be ys \<Longrightarrow> xs < ys"
proof (induction xs ys rule: list_induct2)
  case (Cons x xs y ys)
  have l: "from_be xs < 256 ^ length xs" "from_be ys < 256 ^ length ys" by (rule from_be_less)+
  have "unat x \<le> unat y"
  proof (rule ccontr)
    assume "\<not> unat x \<le> unat y"
    then have "Suc (unat y) * 256 ^ length xs \<le> unat x * 256 ^ length xs" by (intro mult_right_mono) simp_all
    with Cons.prems Cons.hyps l show False by (simp add: from_be_Cons)
  qed
  with Cons show ?case by (auto simp: from_be_Cons word_less_nat_alt word_unat_eq_iff)
qed simp

lemma be_bytes_less: "a < b \<Longrightarrow> be_bytes (a :: u64) < be_bytes b"
proof (rule from_be_order)
  have "from_be (be_bytes w) = unat w" for w :: u64
    using unat_bound [of w] by (simp add: be_bytes_def from_be_to_be)
  then show "a < b \<Longrightarrow> from_be (be_bytes a) < from_be (be_bytes b)" by (simp add: word_less_nat_alt)
qed simp

lemma put_row_last: "\<forall>x \<in> set xs. k x < k r \<Longrightarrow> put_row k r xs = xs @ [r]"
  by (induction xs) auto

text \<open>Writing all rows of an ordered table whose keys cover the old ones leaves exactly those rows.\<close>

lemma put_row_bm: "map (\<lambda>x. (k x, x)) (put_row k r xs) = bm_insert (k r) r (map (\<lambda>x. (k x, x)) xs)"
  by (induction xs) auto

lemma foldl_put_bm:
  "map (\<lambda>x. (k x, x)) (foldl (\<lambda>xs r. put_row k r xs) xs rs) = foldl (\<lambda>m r. bm_insert (k r) r m) (map (\<lambda>x. (k x, x)) xs) rs"
  by (induction rs arbitrary: xs) (simp_all add: put_row_bm)

lemma map_add_upd_fresh: "n a = None \<Longrightarrow> m(a \<mapsto> b) ++ n = m ++ n(a \<mapsto> b)"
  by (auto simp: map_add_def fun_eq_iff split: option.splits)

lemma foldl_bm_insert:
  assumes "bm_wf m" "distinct (map k rs)"
  shows "bm_wf (foldl (\<lambda>m r. bm_insert (k r) r m) m rs) \<and>
     map_of (foldl (\<lambda>m r. bm_insert (k r) r m) m rs) = map_of m ++ map_of (map (\<lambda>x. (k x, x)) rs)"
  using assms
proof (induction rs arbitrary: m)
  case (Cons r rs)
  have fresh: "map_of (map (\<lambda>x. (k x, x)) rs) (k r) = None"
    using Cons.prems(2) by (auto simp: map_of_eq_None_iff image_image)
  have d: "distinct (map k rs)" using Cons.prems(2) by simp
  have eq: "map_of (bm_insert (k r) r m) ++ map_of (map (\<lambda>x. (k x, x)) rs) = map_of m ++ map_of (map (\<lambda>x. (k x, x)) (r # rs))"
    unfolding map_of_bm_insert map_add_upd_fresh [of "map_of (map (\<lambda>x. (k x, x)) rs)", OF fresh] by simp
  show ?case
    unfolding foldl_Cons eq [symmetric] by (rule Cons.IH [OF bm_wf_insert [OF Cons.prems(1)] d])
qed simp

lemma bm_unique:
  assumes "bm_wf m" "bm_wf n" "map_of m = map_of n"
  shows "m = n"
proof -
  have d: "distinct (map fst m)" "distinct (map fst n)" using assms bm_wf_distinct by auto
  then have eq: "set m = set n" using assms(3) by (simp add: map_of_inject_set)
  show ?thesis
  proof (rule map_sorted_distinct_set_unique)
    show "inj_on fst (set m \<union> set n)" using d(1) eq by (simp add: distinct_map)
  qed (use assms d eq in \<open>simp_all add: bm_wf_def strict_sorted_iff\<close>)
qed

lemma put_all_rows:
  assumes xs: "sorted_wrt (<) (map k xs)" and rs: "sorted_wrt (<) (map k rs)" and cover: "set (map k xs) \<subseteq> set (map k rs)"
  shows "foldl (\<lambda>xs r. put_row k r xs) xs rs = rs"
proof -
  let ?f = "\<lambda>xs. map (\<lambda>x. (k x, x)) xs" and ?out = "foldl (\<lambda>m r. bm_insert (k r) r m) (map (\<lambda>x. (k x, x)) xs) rs"
  have wf: "bm_wf (?f xs)" "bm_wf (?f rs)" using xs rs by (simp_all add: bm_wf_def comp_def)
  have d: "distinct (map fst (?f rs))" using bm_wf_distinct [OF wf(2)] .
  have "map_of (?f xs) ++ map_of (?f rs) = map_of (?f rs)"
  proof
    fix x show "(map_of (?f xs) ++ map_of (?f rs)) x = map_of (?f rs) x"
    proof (cases "x \<in> set (map k rs)")
      case True
      then have "map_of (?f rs) x \<noteq> None" by (auto simp: map_of_eq_None_iff image_image)
      then show ?thesis by (auto simp: map_add_def)
    next
      case False
      with cover have "map_of (?f xs) x = None" by (auto simp: map_of_eq_None_iff image_image)
      then show ?thesis by (simp add: map_add_def split: option.splits)
    qed
  qed
  then have "?out = ?f rs"
    using foldl_bm_insert [OF wf(1), of k rs] d wf(2) by (intro bm_unique) (simp_all add: comp_def)
  then have "map snd (?f (foldl (\<lambda>xs r. put_row k r xs) xs rs)) = map snd (?f rs)" by (simp only: foldl_put_bm)
  then show ?thesis by (simp add: comp_def)
qed

section \<open>Stored snapshots\<close>

definition stored :: "hasher \<Rightarrow> genesis \<Rightarrow> c1_snapshot \<Rightarrow> sqldb \<Rightarrow> bool" where
  "stored K g s db \<longleftrightarrow> (\<exists>acc barrier. accounting_row (sn_state s) = Inr acc \<and> length barrier = 8 \<and>
     db Metadata = [[Blob sql_version, Text sql_mode, Blob (ge_bytes g), Blob (be_bytes (po_slot (sn_tip s))), Blob barrier, Integer 1]] \<and>
     (\<forall>t. t \<noteq> Metadata \<longrightarrow> db t = map (map Blob) (expected_rows K g s acc t)))"

text \<open>The three places that name the slot of a record agree, and records come in slot order.\<close>

definition slots_agree :: "c1_record \<Rightarrow> bool" where
  "slots_agree r \<longleftrightarrow> bh_slot (hc_header (cb_claim (rd_block r))) = po_slot (rd_position r) \<and>
     rc_slot (last (si_credits (cs_data (rd_state r)))) = po_slot (rd_position r)"

definition successor_ok :: "genesis \<Rightarrow> c1_snapshot \<Rightarrow> c1_record \<Rightarrow> bool" where
  "successor_ok g s r \<longleftrightarrow> slots_agree r \<and> po_slot (state_position (ge_initial g)) < po_slot (rd_position r) \<and>
     (\<forall>r' \<in> set (sn_records s). slots_agree r' \<and> po_slot (rd_position r') < po_slot (rd_position r)) \<and>
     sorted_wrt (<) (map pa_address (si_accounts (cs_data (sn_state s)))) \<and>
     sorted_wrt (<) (map pa_address (si_accounts (cs_data (rd_state r)))) \<and>
     pa_address ` set (si_accounts (cs_data (sn_state s))) \<subseteq> pa_address ` set (si_accounts (cs_data (rd_state r))) \<and>
     length (record_entries (rd_block r) (rd_outcome r)) \<le> 16"

lemma upsert_all:
  "foldl (\<lambda>db row. apply_write (Upsert t row) db) db rows =
     db(t := foldl (\<lambda>xs r. put_row (row_key t) r xs) (db t) (map (map Blob) rows))"
  by (induction rows arbitrary: db) simp_all

lemma insert_all:
  "foldl (\<lambda>db row. apply_write (Insert t row) db) db rows =
     db(t := foldl (\<lambda>xs r. put_row (row_key t) r xs) (db t) (map (map Blob) rows))"
  by (induction rows arbitrary: db) simp_all

lemma put_rows_last:
  "sorted_wrt (<) (map k rs) \<Longrightarrow> \<forall>x \<in> set xs. \<forall>r \<in> set rs. k x < k r \<Longrightarrow>
     foldl (\<lambda>xs r. put_row k r xs) xs rs = xs @ rs"
  by (induction rs arbitrary: xs) (auto simp: put_row_last)

lemma transaction_row_simps:
  "row_key Transactions (map Blob (transaction_row r i e)) = [be_bytes (po_slot (rd_position r)), be_bytes (of_nat i :: u64)]"
  by (simp add: transaction_row_def split: prod.splits)

lemma transaction_rows_sorted:
  assumes "length (record_entries (rd_block r) (rd_outcome r)) \<le> 16"
  shows "sorted_wrt (<) (map (row_key Transactions) (map (map Blob) (transaction_rows r)))"
proof -
  have lt: "be_bytes (of_nat i :: u64) < be_bytes (of_nat j :: u64)" if "i < j" "j < 16" for i j :: nat
    using that by (intro be_bytes_less) (simp add: word_less_nat_alt unat_of_nat_small)
  show ?thesis
    using assms unfolding sorted_wrt_iff_nth_less
    by (auto simp: transaction_rows_def transaction_row_simps nth_enumerate_eq lt simp del: row_key.simps)
qed

lemma transaction_rows_keys:
  "x \<in> set (map (map Blob) (transaction_rows r)) \<Longrightarrow> \<exists>i :: u64. row_key Transactions x = [be_bytes (po_slot (rd_position r)), be_bytes i]"
  by (auto simp: transaction_rows_def transaction_row_simps simp del: row_key.simps)

text \<open>The database after the writes of a commit.\<close>

definition committed_db :: "hasher \<Rightarrow> c1_record \<Rightarrow> position \<Rightarrow> bytes list \<Rightarrow> sqldb \<Rightarrow> sqldb" where
  "committed_db K r old acc db =
     (let tip = rd_position r in
      apply_write (Update_tip (be_bytes (po_slot tip)) (po_hash tip) (be_bytes (po_slot old)) (po_hash old))
       (apply_write (Update_revision (be_bytes (po_slot tip)) (be_bytes (po_slot old)))
       (apply_write (Insert States (state_row (rd_state r)))
       (apply_write (Insert Rewards (reward_row r))
       (foldl (\<lambda>db row. apply_write (Insert Transactions row) db)
       (apply_write (Insert Bodies (body_row r))
       (apply_write (Insert Blocks (block_row K r))
       (apply_write (Upsert Accounting acc)
       (foldl (\<lambda>db row. apply_write (Upsert Accounts row) db) db (map account_row (si_accounts (cs_data (rd_state r)))))))) (transaction_rows r))))))"

lemma stored_next:
  assumes st: "stored K g s db" and acc: "accounting_row (rd_state r) = Inr acc" and ok: "successor_ok g s r"
    and s': "sn_state s' = rd_state r" "sn_records s' = sn_records s @ [r]"
  shows "stored K g s' (committed_db K r (sn_tip s) acc db)"
proof -
  from st obtain acc0 barrier where bar: "length barrier = 8"
    and meta: "db Metadata = [[Blob sql_version, Text sql_mode, Blob (ge_bytes g), Blob (be_bytes (po_slot (sn_tip s))), Blob barrier, Integer 1]]"
    and tabs: "\<And>t. t \<noteq> Metadata \<Longrightarrow> db t = map (map Blob) (expected_rows K g s acc0 t)"
    by (auto simp: stored_def)
  note o = ok [unfolded successor_ok_def]
  have tip: "sn_tip s' = rd_position r" by (simp add: sn_tip_def s'(1))
  have lt: "be_bytes (po_slot (rd_position r')) < be_bytes (po_slot (rd_position r))" if "r' \<in> set (sn_records s)" for r'
    using o that by (intro be_bytes_less) blast
  have slots: "bh_slot (hc_header (cb_claim (rd_block r'))) = po_slot (rd_position r')"
    "rc_slot (last (si_credits (cs_data (rd_state r')))) = po_slot (rd_position r')"
    if "r' \<in> set (sn_records s) \<or> r' = r" for r'
    using o that by (auto simp: slots_agree_def)
  have accounts: "foldl (\<lambda>xs r. put_row (row_key Accounts) r xs) (db Accounts)
      (map (map Blob) (map account_row (si_accounts (cs_data (rd_state r))))) =
      map (map Blob) (map account_row (si_accounts (cs_data (rd_state r))))"
    using o by (intro put_all_rows) (auto simp: tabs account_row_def sorted_wrt_map)
  have blocks: "put_row (row_key Blocks) (map Blob (block_row K r)) (db Blocks) = db Blocks @ [map Blob (block_row K r)]"
    using lt slots by (intro put_row_last) (auto simp: tabs block_row_def Let_def)
  have bodies: "put_row (row_key Bodies) (map Blob (body_row r)) (db Bodies) = db Bodies @ [map Blob (body_row r)]"
    using lt by (intro put_row_last) (auto simp: tabs body_row_def)
  have rewards: "put_row (row_key Rewards) (map Blob (reward_row r)) (db Rewards) = db Rewards @ [map Blob (reward_row r)]"
    using lt slots by (intro put_row_last) (auto simp: tabs reward_row_def Let_def)
  have states: "put_row (row_key States) (map Blob (state_row (rd_state r))) (db States) = db States @ [map Blob (state_row (rd_state r))]"
    using lt o by (intro put_row_last) (auto simp: tabs state_row_def intro!: be_bytes_less)
  have txs: "foldl (\<lambda>xs r. put_row (row_key Transactions) r xs) (db Transactions) (map (map Blob) (transaction_rows r)) =
      db Transactions @ map (map Blob) (transaction_rows r)"
  proof (rule put_rows_last)
    show "sorted_wrt (<) (map (row_key Transactions) (map (map Blob) (transaction_rows r)))"
      using o by (intro transaction_rows_sorted) simp
    show "\<forall>x \<in> set (db Transactions). \<forall>y \<in> set (map (map Blob) (transaction_rows r)). row_key Transactions x < row_key Transactions y"
    proof (intro ballI)
      fix x y assume x: "x \<in> set (db Transactions)" and y: "y \<in> set (map (map Blob) (transaction_rows r))"
      from x obtain r' where r': "r' \<in> set (sn_records s)" "x \<in> set (map (map Blob) (transaction_rows r'))"
        by (auto simp: tabs)
      from transaction_rows_keys [OF r'(2)] transaction_rows_keys [OF y] lt [OF r'(1)]
      show "row_key Transactions x < row_key Transactions y" by auto
    qed
  qed
  have "committed_db K r (sn_tip s) acc db t = map (map Blob) (expected_rows K g s' acc t)" if "t \<noteq> Metadata" for t
    unfolding committed_db_def Let_def upsert_all insert_all using that
    by (cases t) (simp_all add: s' tip accounts blocks bodies rewards states txs
        del: row_key.simps put_row.simps map_map, simp_all add: tabs)
  moreover have "committed_db K r (sn_tip s) acc db Metadata =
      [[Blob sql_version, Text sql_mode, Blob (ge_bytes g), Blob (be_bytes (po_slot (sn_tip s'))), Blob barrier, Integer 1]]"
    unfolding committed_db_def Let_def upsert_all insert_all using meta by (simp add: tip)
  ultimately show ?thesis using acc bar by (auto simp: stored_def s'(1))
qed

section \<open>Reading back\<close>

lemma blob_cell_Inr: "blob_cell c lo hi = Inr b \<longleftrightarrow> c = Blob b \<and> lo \<le> length b \<and> length b \<le> hi"
  by (auto simp: blob_cell_def split: cell.splits)

lemma row_blobs_Inr: "row_blobs widths cells = Inr row \<Longrightarrow> cells = map Blob row"
proof (rule nth_equalityI)
  assume "row_blobs widths cells = Inr row"
  then have l: "length cells = length widths" "length row = length widths"
    and t: "\<And>i. i < length widths \<Longrightarrow> (case widths ! i of (lo, hi) \<Rightarrow> blob_cell (cells ! i) lo hi) = Inr (row ! i)"
    by (auto simp: row_blobs_def traverse_Inr_iff list_all2_conv_all_nth split: if_splits)
  show "length cells = length (map Blob row)" using l by simp
  show "cells ! i = map Blob row ! i" if "i < length cells" for i
    using t [of i] that l by (auto simp: blob_cell_Inr split: prod.splits)
qed

lemma collect_rows_Inr: "collect_rows name widths n rs = Inr rows \<Longrightarrow> rs = map (\<lambda>row. Some (map Blob row)) rows"
proof (induction name widths n rs arbitrary: rows rule: collect_rows.induct)
  case (3 name widths n cells rs)
  then show ?case by (auto simp: try_res_Inr_iff dest!: row_blobs_Inr split: if_splits)
qed (auto simp: try_res_Inr_iff)

lemma policy_row_Inr:
  assumes "policy_row g row = Inr rn"
  obtains revision barrier where "length barrier = 8" "length revision = 8" "rn = be_word revision"
    "row = [Blob sql_version, Text sql_mode, Blob (ge_bytes g), Blob revision, Blob barrier, Integer 1]"
  using assms
  by (auto simp: policy_row_def blob_cell_Inr try_res_Inr_iff split: list.splits cell.splits if_splits)

text \<open>A statement or a sequence of statements inside a transaction: durable content is untouched, and on
  success the content as seen changes as described and the transaction is still open.\<close>

definition does :: "('w \<Rightarrow> bool) \<Rightarrow> ('w \<Rightarrow> 'db) \<Rightarrow> ('w \<Rightarrow> 'db) \<Rightarrow> ('e + 'a) \<times> 'w \<Rightarrow> 'w \<Rightarrow>
    ('a \<Rightarrow> 'db \<Rightarrow> 'db \<Rightarrow> bool) \<Rightarrow> bool" where
  "does idle durable content m w F \<longleftrightarrow> durable (snd m) = durable w \<and>
     (\<forall>x. fst m = Inr x \<longrightarrow> \<not> idle (snd m) \<and> F x (content w) (content (snd m)))"

lemma does_then:
  assumes m: "does idle durable content m w F"
    and f: "\<And>x w1. \<not> idle w1 \<Longrightarrow> does idle durable content (f x w1) w1 (G x)"
  shows "does idle durable content (then_do m f) w (\<lambda>y db db''. \<exists>x db'. F x db db' \<and> G x y db' db'')"
proof (cases m)
  case (Pair r w1)
  show ?thesis
  proof (cases r)
    case (Inl e)
    with Pair m show ?thesis by (simp add: does_def then_do_def)
  next
    case (Inr x)
    with Pair m have "\<not> idle w1" "F x (content w) (content w1)" "durable w1 = durable w" by (simp_all add: does_def)
    with f [of w1 x] Pair Inr show ?thesis by (auto simp: does_def then_do_def)
  qed
qed

lemma does_pure: "\<not> idle w \<Longrightarrow> does idle durable content (r, w) w (\<lambda>x db db'. r = Inr x \<and> db' = db)"
  by (simp add: does_def)

lemma does_mono: "does idle durable content m w F \<Longrightarrow> (\<And>x db db'. F x db db' \<Longrightarrow> G x db db') \<Longrightarrow> does idle durable content m w G"
  by (auto simp: does_def)

context sqlite_engine
begin

abbreviation tx :: "('e + 'a) \<times> 'w \<Rightarrow> 'w \<Rightarrow> ('a \<Rightarrow> sqldb \<Rightarrow> sqldb \<Rightarrow> bool) \<Rightarrow> bool" where
  "tx \<equiv> does (sq_autocommit D) durable content"

lemma rows_content:
  assumes "read_table (sql_of D) w t = Inr rows"
  shows "content w t = map (map Blob) rows"
proof -
  from assms obtain cursor where c: "sq_select D t w = Some cursor"
    "cursor = map (\<lambda>row. Some (map Blob row)) rows"
    by (auto simp: read_table_def sql_rows_def try_res_Inr_iff dest: collect_rows_Inr)
  have "None \<notin> set cursor" by (auto simp: c(2))
  then have l: "length (content w t) = length rows" using select_all [OF c(1)] c(2) by simp
  show ?thesis
    using select_row [OF c(1)] c(2) l by (intro nth_equalityI) auto
qed

lemma policy_content:
  assumes "sql_policy (sql_of D) g w = Inr rn"
  obtains barrier where "length barrier = 8"
    "content w Metadata = [[Blob sql_version, Text sql_mode, Blob (ge_bytes g), Blob (be_bytes rn), Blob barrier, Integer 1]]"
proof -
  from assms obtain cursor where n: "sq_count_metadata D w = Some 1" and c0: "sq_select D Metadata w = Some cursor"
    and p0: "(case cursor of [] \<Rightarrow> Inl (AInvalid ''metadata singleton'') | None # _ \<Rightarrow> Inl sql_error
       | Some r # _ \<Rightarrow> policy_row g r) = Inr rn"
    by (auto simp: sql_policy_def try_res_Inr_iff split: if_splits)
  from p0 obtain row rest where cursor: "cursor = Some row # rest" and p: "policy_row g row = Inr rn"
    by (cases cursor; cases "hd cursor") auto
  note c = c0 [unfolded cursor]
  have "length (content w Metadata) = 1" using count_rows [OF n] by simp
  moreover have "content w Metadata ! 0 = row" using select_row [OF c, of 0 row] by simp
  ultimately have "content w Metadata = [row]" by (cases "content w Metadata") auto
  moreover obtain revision barrier where "length barrier = 8" "length revision = 8" "rn = be_word revision"
    "row = [Blob sql_version, Text sql_mode, Blob (ge_bytes g), Blob revision, Blob barrier, Integer 1]"
    using p by (rule policy_row_Inr)
  ultimately show thesis by (intro that [of barrier]) (simp_all add: be_bytes_be_word)
qed

lemma verify_tables_content:
  "verify_tables (sql_of D) w want ts = Inr () \<Longrightarrow> t \<in> set ts \<Longrightarrow> content w t = map (map Blob) (want t)"
  by (induction ts) (auto simp: try_res_Inr_iff rows_content split: if_splits)

lemma verify_stored:
  assumes "sql_verify (sql_of D) ddl K g s w = Inr ()"
  shows "stored K g s (content w)"
proof -
  from assms obtain acc where p: "sql_policy (sql_of D) g w = Inr (po_slot (sn_tip s))"
    and a: "accounting_row (sn_state s) = Inr acc"
    and v: "verify_tables (sql_of D) w (expected_rows K g s acc) verified_tables = Inr ()"
    by (auto simp: sql_verify_def try_res_Inr_iff split: if_splits)
  have "t \<in> set verified_tables" if "t \<noteq> Metadata" for t using that by (cases t) (simp_all add: verified_tables_def)
  with verify_tables_content [OF v] a policy_content [OF p] show ?thesis unfolding stored_def by metis
qed

lemma tx_exec:
  "\<not> sq_autocommit D w \<Longrightarrow> tx (sql_exec (sql_of D) st w) w (\<lambda>n db db'. db' = apply_write st db \<and> n = affected st db)"
  using write_effect [of w st] by (auto simp: does_def sql_exec_def split: prod.splits)

lemma tx_insert:
  "\<not> sq_autocommit D w \<Longrightarrow> tx (sql_insert (sql_of D) t row w) w (\<lambda>_ db db'. db' = apply_write (Insert t row) db)"
  unfolding sql_insert_def by (rule does_mono [OF does_then [OF tx_exec does_pure]]) auto

lemma tx_accounts:
  "\<not> sq_autocommit D w \<Longrightarrow> tx (write_accounts (sql_of D) as w) w
     (\<lambda>_ db db'. db' = foldl (\<lambda>db row. apply_write (Upsert Accounts row) db) db (map account_row as))"
proof (induction as arbitrary: w)
  case (Cons a as)
  show ?case unfolding write_accounts.simps
    by (rule does_mono [OF does_then [OF tx_exec [OF Cons.prems] Cons.IH]]) (auto simp del: apply_write.simps)
qed (simp add: does_def)

lemma tx_rows:
  "\<not> sq_autocommit D w \<Longrightarrow> tx (insert_rows (sql_of D) t rows w) w
     (\<lambda>_ db db'. db' = foldl (\<lambda>db row. apply_write (Insert t row) db) db rows)"
proof (induction rows arbitrary: w)
  case (Cons a as)
  show ?case unfolding insert_rows.simps
    by (rule does_mono [OF does_then [OF tx_insert [OF Cons.prems] Cons.IH]]) (auto simp del: apply_write.simps)
qed (simp add: does_def)

lemma tx_accounting:
  "\<not> sq_autocommit D w \<Longrightarrow> tx (write_accounting (sql_of D) st w) w
     (\<lambda>_ db db'. \<exists>acc. accounting_row st = Inr acc \<and> db' = apply_write (Upsert Accounting acc) db)"
  unfolding write_accounting_def
  by (rule does_mono [OF does_then [OF does_pure does_then [OF tx_exec does_pure]]]) auto

lemma tx_cas:
  "\<not> sq_autocommit D w \<Longrightarrow> tx (sql_cas (sql_of D) st msg w) w (\<lambda>_ db db'. db' = apply_write st db \<and> affected st db = 1)"
  unfolding sql_cas_def by (rule does_mono [OF does_then [OF tx_exec does_pure]]) (auto split: if_splits)

lemma tx_commit_writes:
  assumes "\<not> sq_autocommit D w" "sn_state next = rd_state (sg_record stage)"
  shows "tx (commit_writes K D g stage next w) w (\<lambda>_ db db'. stored K g (ba_snapshot (sg_base stage)) db \<and>
     (\<exists>acc. accounting_row (rd_state (sg_record stage)) = Inr acc \<and>
        db' = committed_db K (sg_record stage) (sn_tip (ba_snapshot (sg_base stage))) acc db))"
proof -
  let ?S = "sql_of D" and ?r = "sg_record stage" and ?s = "ba_snapshot (sg_base stage)"
  have v: "tx (map_err (\<lambda>_. AStale) (disk_verify D K g ?s w), w) w (\<lambda>_ db db'. stored K g ?s db \<and> db' = db)"
    using assms(1) verify_stored by (auto simp: does_def)
  show ?thesis
    unfolding commit_writes_def Let_def committed_db_def assms(2) sn_tip_def [of "next"]
    by (rule does_mono [OF does_then [OF v does_then [OF tx_accounts does_then [OF tx_accounting
            does_then [OF tx_insert does_then [OF tx_insert does_then [OF tx_rows does_then [OF tx_insert
            does_then [OF tx_insert does_then [OF tx_cas tx_cas]]]]]]]]]]) (auto simp del: apply_write.simps)
qed

end

section \<open>Replayed records succeed one another\<close>

lemma chain_state_sorted:
  assumes "chain_state K g st"
  shows "sorted_wrt (<) (map pa_address (si_accounts (cs_data st)))"
  using assms by (simp add: chain_state_def snapshot_ok_def sorted_snapshot_def strict_sorted_iff)

lemma replayed_chain_state:
  assumes "replayed C (approved_genesis (c_keccak C) l) s"
    and "proposer_id (c_keccak C) trial_A \<noteq> proposer_id (c_keccak C) trial_B"
  shows "chain_state (c_keccak C) (approved_genesis (c_keccak C) l) (sn_state s)"
  using replayed_chain [OF assms] chain_invariant [OF _ assms(2)] by metis

lemma replay_step_facts:
  assumes rep: "replayed C (approved_genesis (c_keccak C) l) s"
    and ids: "proposer_id (c_keccak C) trial_A \<noteq> proposer_id (c_keccak C) trial_B"
    and env: "c1_envelope_ok (c_keccak C) e" and step: "replay_step C (approved_genesis (c_keccak C) l) e s = Inr s'"
  obtains r view native applied v h where "snapshot_insert (c_keccak C) r s = Inr s'" "rd_envelope r = e" "slots_agree r"
    "pa_address ` set (si_accounts (cs_data (sn_state s))) \<subseteq> pa_address ` set (si_accounts (cs_data (rd_state r)))"
    "length (record_entries (rd_block r) (rd_outcome r)) \<le> 16"
    "stage_native C view (cb_transactions (ce_block e)) = Inr (native, applied)" "sv_state view = sn_state s"
    "v \<in> set (si_validators (cs_data (sn_state s)))" "cs_data (rd_state r) = next_data (cs_data (sn_state s)) native v h"
proof -
  let ?K = "c_keccak C" and ?g = "approved_genesis (c_keccak C) l"
  from step obtain pf view native applied st where v: "snapshot_start ?K s ?g = Inr view"
    and n: "stage_native C view (cb_transactions (ce_block e)) = Inr (native, applied)"
    and c: "compound ?K view (ce_block e) native (ab_outcome applied) = Inr st"
    and i: "snapshot_insert ?K \<lparr>rd_proof = pf, rd_outcome = ab_outcome applied, rd_state = st\<rparr> s = Inr s'"
    and pf: "ae_envelope pf = e"
    by (rule replay_step_Inr)
  obtain pc where pc: "snapshot_prefix ?K s ?g = Inr pc" "c1_chain C ?g pc" "pc_state pc = sn_state s"
    using replayed_chain [OF rep ids] by blast
  have vw: "slot_start ?K pc = Inr view" using v pc(1) by (simp add: snapshot_start_def)
  note pre = chain_prefix [OF pc(2)] and ch = replayed_chain_state [OF rep ids]
  have lt: "state_slot (pc_state pc) < 200" using slot_start_next [OF pre] vw by (auto split: if_splits)
  obtain sel block st' where u: "view_select ?K view = Inr sel"
    "block_build ?K view sel (cb_transactions (ce_block e)) (ab_outcome applied) = Inr block"
    "compound ?K view block native (ab_outcome applied) = Inr st'"
    and nx: "\<exists>v \<in> set (si_validators (cs_data (pc_state pc))). st' = sealed ?K (ge_policy ?g) (next_data (cs_data (pc_state pc)) native v (c1_block_hash ?K block))"
    and sub: "pa_address ` set (si_accounts (cs_data (pc_state pc))) \<subseteq> fst ` set (ts_accounts native)"
    by (rule chain_step [OF pre ch [folded pc(3)] lt ids vw n])
  have "block = ce_block e"
    using compound_canonical [OF c] env u(1,2) by (auto simp: c1_envelope_ok_def)
  with c u(3) have st: "st' = st" by simp
  from nx obtain v where data: "cs_data st = next_data (cs_data (sn_state s)) native v (c1_block_hash ?K block)"
    and vs: "v \<in> set (si_validators (cs_data (sn_state s)))"
    by (auto simp: st sealed_def pc(3))
  have "bh_slot (hc_header (cb_claim (ce_block e))) = sv_slot view" using c by (rule compound_Inr)
  with compound_position [OF c] have "slots_agree \<lparr>rd_proof = pf, rd_outcome = ab_outcome applied, rd_state = st\<rparr>"
    by (simp add: slots_agree_def pf) (simp add: data)
  moreover have "pa_address ` set (si_accounts (cs_data st)) = fst ` set (ts_accounts native)"
    unfolding data next_data_fields by (simp add: image_image case_prod_beta')
  moreover have "length (record_entries (ce_block e) (ab_outcome applied)) \<le> 16"
    using c1_block_okD(3) [of ?K "ce_block e"] env by (simp add: c1_envelope_ok_def record_entries_def)
  ultimately show thesis using i pf sub snapshot_start_Inr(4) [OF v]
    by (intro that [of "\<lparr>rd_proof = pf, rd_outcome = ab_outcome applied, rd_state = st\<rparr>", OF _ _ _ _ _ n _ vs])
      (simp_all add: pc(3) data)
qed

lemma replayed_slots_agree:
  assumes "replayed C (approved_genesis (c_keccak C) l) s"
    and ids: "proposer_id (c_keccak C) trial_A \<noteq> proposer_id (c_keccak C) trial_B"
  shows "\<forall>r \<in> set (sn_records s). slots_agree r"
  using assms(1)
proof induction
  case (replay_append s e s')
  obtain r view native applied where "snapshot_insert (c_keccak C) r s = Inr s'" "slots_agree r"
    "stage_native C view (cb_transactions (ce_block e)) = Inr (native, applied)"
    by (rule replay_step_facts [OF replay_append.hyps(1) ids replay_append.hyps(2,3)])
  with replay_append.IH show ?case by (auto elim!: snapshot_insert_Inr)
qed (simp add: snapshot_initial_def)

lemma replayed_successor:
  assumes rep: "replayed C (approved_genesis (c_keccak C) l) s"
    and ids: "proposer_id (c_keccak C) trial_A \<noteq> proposer_id (c_keccak C) trial_B"
    and env: "c1_envelope_ok (c_keccak C) e" and step: "replay_step C (approved_genesis (c_keccak C) l) e s = Inr s'"
    and ins: "snapshot_insert (c_keccak C) r s = Inr s'"
  shows "successor_ok (approved_genesis (c_keccak C) l) s r" "sn_state s' = rd_state r" "sn_records s' = sn_records s @ [r]"
proof -
  let ?K = "c_keccak C" and ?g = "approved_genesis (c_keccak C) l"
  show s': "sn_state s' = rd_state r" "sn_records s' = sn_records s @ [r]" using ins by (auto elim: snapshot_insert_Inr)
  obtain r0 view native applied where r0: "snapshot_insert ?K r0 s = Inr s'" "slots_agree r0"
    "pa_address ` set (si_accounts (cs_data (sn_state s))) \<subseteq> pa_address ` set (si_accounts (cs_data (rd_state r0)))"
    "length (record_entries (rd_block r0) (rd_outcome r0)) \<le> 16"
    "stage_native C view (cb_transactions (ce_block e)) = Inr (native, applied)"
    by (rule replay_step_facts [OF rep ids env step])
  have r: "r0 = r" using r0(1) s'(2) by (auto elim!: snapshot_insert_Inr)
  have rep': "replayed C ?g s'" by (rule replay_append [OF rep env step])
  have lt: "unat (po_slot (rd_position r)) = Suc (length (sn_records s))"
    using replayed_tip [OF rep'] by (simp add: sn_tip_def s')
  have "unat (po_slot (rd_position r')) \<le> length (sn_records s)" if "r' \<in> set (sn_records s)" for r'
  proof -
    from that obtain i where i: "i < length (sn_records s)" "r' = sn_records s ! i" by (auto simp: in_set_conv_nth)
    from replayed_record [OF rep i(1)] i(2) have "po_slot (rd_position r') = of_nat (Suc i)" by (metis position.select_convs(1))
    with i(1) unat_of_nat_le [of "Suc i"] show ?thesis by (metis Suc_leI le_trans)
  qed
  moreover have "state_slot (ge_initial ?g) = 0" by (rule demo_prefix)
  ultimately show "successor_ok ?g s r"
    using replayed_slots_agree [OF rep ids] r0(2-4) lt
      chain_state_sorted [OF replayed_chain_state [OF rep ids]] chain_state_sorted [OF replayed_chain_state [OF rep' ids]]
    by (fastforce simp: successor_ok_def r s'(1) word_less_nat_alt)
qed

section \<open>Crash consistency of a commit\<close>

context sqlite_engine
begin

lemma commit_cases:
  assumes idle: "sq_autocommit D w" and base: "sg_base stage = owner_base ow"
    and ins: "snapshot_insert K (sg_record stage) (ow_snapshot ow) = Inr s'"
    and nxt: "\<And>db acc. stored K (ow_genesis ow) (ow_snapshot ow) db \<Longrightarrow> accounting_row (rd_state (sg_record stage)) = Inr acc \<Longrightarrow>
       stored K (ow_genesis ow) s' (committed_db K (sg_record stage) (sn_tip (ow_snapshot ow)) acc db)"
    and run: "commit K D ow stage w = (out, ow', w')"
  shows "case out of
     Committed p ident outcome \<Rightarrow> stored K (ow_genesis ow) (ow_snapshot ow) (durable w) \<and> stored K (ow_genesis ow) s' (durable w') \<and>
       ow' = ow\<lparr>ow_snapshot := s', ow_attempt := None\<rparr> \<and> p = sn_tip s' \<and> ident = c1_envelope_id K (rd_envelope (sg_record stage)) \<and>
       outcome = rd_outcome (sg_record stage) \<and> sq_autocommit D w'
   | Aborted e \<Rightarrow> durable w' = durable w \<and> sq_autocommit D w' \<and>
       (ow' = ow \<or> ow' = ow\<lparr>ow_attempt := None\<rparr> \<or> ow' = ow\<lparr>ow_attempt := None, ow_poisoned := True\<rparr>)
   | RecoveryRequired e \<Rightarrow> ow' = ow\<lparr>ow_attempt := Some \<lparr>tr_base = sg_base stage, tr_record = sg_record stage\<rparr>, ow_poisoned := True\<rparr> \<and>
       (durable w' = durable w \<or> stored K (ow_genesis ow) (ow_snapshot ow) (durable w) \<and> stored K (ow_genesis ow) s' (durable w'))"
proof (cases "check_base ow (sg_base stage)")
  case (Inl e)
  with run idle show ?thesis by (auto simp: commit_def)
next
  case (Inr u)
  let ?ow = "ow\<lparr>ow_attempt := Some \<lparr>tr_base = sg_base stage, tr_record = sg_record stage\<rparr>\<rparr>"
  obtain r1 w1 where b: "sq_begin D True w = (r1, w1)" by force
  note be = begin_effect [OF idle b]
  show ?thesis
  proof (cases r1)
    case None
    with run Inr ins b be show ?thesis by (auto simp: commit_def)
  next
    case (Some u1)
    then have w1: "\<not> sq_autocommit D w1" "content w1 = durable w" "durable w1 = durable w" using be by simp_all
    have ss: "sn_state s' = rd_state (sg_record stage)" using ins by (auto elim: snapshot_insert_Inr)
    obtain r2 w2 where cw: "commit_writes K D (ow_genesis ow) stage s' w1 = (r2, w2)" by force
    have bs: "ba_snapshot (sg_base stage) = ow_snapshot ow" by (simp add: base owner_base_def)
    from tx_commit_writes [OF w1(1) ss, of K "ow_genesis ow"] cw w1
    have d2: "durable w2 = durable w"
      and c2: "\<And>x. r2 = Inr x \<Longrightarrow> \<not> sq_autocommit D w2 \<and> stored K (ow_genesis ow) (ow_snapshot ow) (durable w) \<and>
        stored K (ow_genesis ow) s' (content w2)"
      using nxt by (auto simp: does_def bs)
    show ?thesis
    proof (cases r2)
      case (Inl e)
      have rb: "durable w3 = durable w \<and> (r3 = Some () \<longrightarrow> sq_autocommit D w3)" if "sq_rollback D w2 = (r3, w3)" for r3 w3
        using rollback_effect [OF that] d2 by simp
      show ?thesis
        using run Inr ins b Some cw Inl rb d2
        by (auto simp: commit_def abort_def poison_def Let_def split: prod.splits if_splits option.splits)
    next
      case (Inr x)
      obtain r3 w3 where c3: "sq_commit D w2 = (r3, w3)" by force
      from c2 [OF Inr] commit_effect [OF _ c3] d2 have
        "r3 = Some () \<Longrightarrow> stored K (ow_genesis ow) s' (durable w3) \<and> sq_autocommit D w3"
        "r3 = None \<Longrightarrow> durable w3 = durable w \<or> stored K (ow_genesis ow) s' (durable w3)"
        by auto
      with run \<open>check_base ow (sg_base stage) = Inr u\<close> ins b Some cw Inr c3 c2 [OF Inr] show ?thesis
        by (cases r3) (auto simp: commit_def poison_def Let_def)
    qed
  qed
qed

end

end
