(* ===== verification/Poash_Recovery.thy ===== *)
theory Poash_Recovery
  imports Poash_Storage
begin

text \<open>
  The audit of a stored history and the recovery of an owner: what the audit accepts is a replayed history that
  the database holds exactly, a replayed history is determined by what is stored of it, and the database
  written by commits is accepted again. Together with the crash consistency of \<open>Poash_Storage\<close> this
  makes recovery report exactly what happened to an interrupted commit.
\<close>

section \<open>A history is determined by its envelopes\<close>

fun replay_all :: "'k crypto \<Rightarrow> genesis \<Rightarrow> c1_envelope list \<Rightarrow> c1_snapshot \<Rightarrow> app_error + c1_snapshot" where
  "replay_all C g [] s = Inr s"
| "replay_all C g (e # es) s = try_res (replay_step C g e s) (replay_all C g es)"

lemma replay_all_append:
  "replay_all C g (es @ es') s = try_res (replay_all C g es s) (replay_all C g es')"
  by (induction es arbitrary: s) (auto simp: try_res_def split: sum.splits)

lemma replay_step_records:
  assumes "replay_step C g e s = Inr s'"
  shows "map rd_envelope (sn_records s') = map rd_envelope (sn_records s) @ [e]"
  using assms by (rule replay_step_Inr) (auto elim!: snapshot_insert_Inr)

lemma replayed_all:
  assumes "replayed C g s"
  shows "replay_all C g (map rd_envelope (sn_records s)) (snapshot_initial g) = Inr s"
  using assms
proof induction
  case replay_start
  then show ?case by (simp add: snapshot_initial_def)
next
  case (replay_append s e s')
  then show ?case by (simp add: replay_step_records replay_all_append)
qed

section \<open>What the rows say\<close>

lemma filter_concat_key:
  assumes "distinct (map key rs)" "r \<in> set rs" "\<And>r t. r \<in> set rs \<Longrightarrow> t \<in> set (f r) \<Longrightarrow> h t = key r"
  shows "filter (\<lambda>t. h t = key r) (concat (map f rs)) = f r"
  using assms
proof (induction rs)
  case (Cons x rs)
  have out: "filter (\<lambda>t. h t = key r) (concat (map f rs)) = []" if "r = x"
    using that Cons.prems by (auto simp: filter_empty_conv) (metis imageI)
  show ?case
  proof (cases "r = x")
    case True
    with Cons.prems(3) have "filter (\<lambda>t. h t = key r) (f x) = f x" by (simp add: filter_id_conv)
    with out True show ?thesis by simp
  next
    case False
    with Cons.prems(2) have "r \<in> set rs" by simp
    moreover have "key x \<notin> key ` set rs" using Cons.prems(1) by simp
    ultimately have "r \<in> set rs" "key r \<noteq> key x" by (metis imageI)+
    with Cons.prems(3) [of x] have "filter (\<lambda>t. h t = key r) (f x) = []" by (auto simp: filter_empty_conv)
    with Cons False show ?thesis by simp
  qed
qed simp

lemma transaction_rows_body:
  assumes "length (bo_transaction_ids (rd_outcome r)) = length (cb_transactions (rd_block r))"
  shows "map (\<lambda>t. t ! 5) (transaction_rows r) = cb_transactions (rd_block r)"
    and "t \<in> set (transaction_rows r) \<Longrightarrow> t ! 1 = be_bytes (po_slot (rd_position r))"
proof -
  have "map (\<lambda>t. t ! 5) (transaction_rows r) = map (\<lambda>p. fst (snd p)) (List.enumerate 0 (record_entries (rd_block r) (rd_outcome r)))"
    unfolding transaction_rows_def map_map comp_def by (intro map_cong) (auto simp: transaction_row_def split: prod.splits)
  also have "\<dots> = map fst (map snd (List.enumerate 0 (record_entries (rd_block r) (rd_outcome r))))" by (simp only: map_map comp_def)
  finally show "map (\<lambda>t. t ! 5) (transaction_rows r) = cb_transactions (rd_block r)"
    using assms by (simp add: record_entries_def)
  show "t \<in> set (transaction_rows r) \<Longrightarrow> t ! 1 = be_bytes (po_slot (rd_position r))"
    by (auto simp: transaction_rows_def transaction_row_def split: prod.splits)
qed

lemma replayed_positions:
  assumes "replayed C (approved_genesis (c_keccak C) l) s"
  shows "map (\<lambda>r. po_slot (rd_position r)) (sn_records s) = map (\<lambda>i. of_nat (Suc i)) [0..<length (sn_records s)]"
    and "distinct (map (\<lambda>r. be_bytes (po_slot (rd_position r))) (sn_records s))"
proof -
  show eq: "map (\<lambda>r. po_slot (rd_position r)) (sn_records s) = map (\<lambda>i. of_nat (Suc i)) [0..<length (sn_records s)]"
  proof (rule nth_equalityI)
    fix i assume "i < length (map (\<lambda>r. po_slot (rd_position r)) (sn_records s))"
    then have i: "i < length (sn_records s)" by simp
    show "map (\<lambda>r. po_slot (rd_position r)) (sn_records s) ! i = map (\<lambda>i. of_nat (Suc i)) [0..<length (sn_records s)] ! i"
      using i by (rule replayed_record [OF assms]) (simp add: i)
  qed simp
  have "length (sn_records s) < 2 ^ 64"
    using replayed_tip [OF assms] unat_bound [of "po_slot (sn_tip s)"] by simp
  then have "inj_on (\<lambda>i. of_nat (Suc i) :: u64) {0..<length (sn_records s)}"
    by (intro inj_on_inverseI [where g = "\<lambda>w. unat w - 1"]) (simp add: unat_of_nat_small del: of_nat_Suc)
  then have "distinct (map (\<lambda>r. po_slot (rd_position r)) (sn_records s))" by (simp add: eq distinct_map)
  then have "distinct (map be_bytes (map (\<lambda>r. po_slot (rd_position r)) (sn_records s)))"
    by (subst distinct_map) (simp add: inj_on_def)
  then show "distinct (map (\<lambda>r. be_bytes (po_slot (rd_position r))) (sn_records s))" by (simp add: comp_def)
qed

lemma replayed_ids:
  assumes "replayed C g s" "r \<in> set (sn_records s)"
  shows "length (bo_transaction_ids (rd_outcome r)) = length (cb_transactions (rd_block r))"
proof -
  have "block_match_outcome (c_keccak C) (rd_block r) (rd_outcome r) = Inr ()"
    using replayed_records [OF assms(1)] assms(2) by blast
  then show ?thesis by (auto simp: block_match_outcome_def split: if_splits) (metis length_map)
qed

lemma stored_body:
  assumes "replayed C (approved_genesis (c_keccak C) l) s" "r \<in> set (sn_records s)"
  shows "map (\<lambda>t. t ! 5) (filter (\<lambda>t. t ! 1 = be_bytes (po_slot (rd_position r))) (concat (map transaction_rows (sn_records s)))) =
     cb_transactions (rd_block r)"
  using filter_concat_key [OF replayed_positions(2) [OF assms(1)] assms(2), of transaction_rows "\<lambda>t. t ! 1"]
    transaction_rows_body replayed_ids [OF assms(1)] assms(2) by simp

lemma envelope_of_rows:
  assumes ok: "c1_block_ok K (rd_block r)" "c1_block_ok K (rd_block r')"
    and net: "ce_network (rd_envelope r) = ce_network (rd_envelope r')"
    and row: "block_row K r = block_row K r'" and body: "cb_transactions (rd_block r) = cb_transactions (rd_block r')"
  shows "rd_envelope r = rd_envelope r'"
proof -
  let ?b = "rd_block r" and ?b' = "rd_block r'"
  from row have h: "header_bytes (hc_header (cb_claim ?b)) = header_bytes (hc_header (cb_claim ?b'))"
    and p: "hc_producer (cb_claim ?b) = hc_producer (cb_claim ?b')"
    and d: "protocol_data_bytes (cb_protocol ?b) = protocol_data_bytes (cb_protocol ?b')"
    and s: "ce_signature (rd_envelope r) = ce_signature (rd_envelope r')"
    by (simp_all add: block_row_def Let_def)
  note k = c1_block_okD [OF ok(1)] and k' = c1_block_okD [OF ok(2)]
  have he: "hc_header (cb_claim ?b) = hc_header (cb_claim ?b')"
    using header_dec_enc [OF k(1)] header_dec_enc [OF k'(1)] h by (metis option.inject)
  have "protocol_data_wf (cb_protocol ?b)" "protocol_data_wf (cb_protocol ?b')"
    using k(6) k'(6) by (simp_all add: wf_simps)
  then have pe: "cb_protocol ?b = cb_protocol ?b'" using d protocol_data_dec_enc by (metis option.inject)
  note parts = ok [unfolded c1_block_ok_def, THEN conjunct2, THEN conjunct2]
  have "?b = ?b'" using parts(1) parts(2) unfolding he p pe body by simp
  with net s show ?thesis by (simp add: c1_envelope.equality)
qed

text \<open>Two replayed histories with the same block and transaction rows are the same.\<close>

lemma stored_unique:
  assumes rep: "replayed C (approved_genesis (c_keccak C) l) s" "replayed C (approved_genesis (c_keccak C) l) s'"
    and blocks: "map (block_row (c_keccak C)) (sn_records s) = map (block_row (c_keccak C)) (sn_records s')"
    and txs: "concat (map transaction_rows (sn_records s)) = concat (map transaction_rows (sn_records s'))"
  shows "s = s'"
proof -
  let ?K = "c_keccak C" and ?g = "approved_genesis (c_keccak C) l"
  have len: "length (sn_records s) = length (sn_records s')" using blocks by (metis length_map)
  have "map rd_envelope (sn_records s) = map rd_envelope (sn_records s')"
  proof (rule nth_equalityI)
    fix i assume "i < length (map rd_envelope (sn_records s))"
    then have i: "i < length (sn_records s)" "i < length (sn_records s')" using len by simp_all
    let ?r = "sn_records s ! i" and ?r' = "sn_records s' ! i"
    have m: "?r \<in> set (sn_records s)" "?r' \<in> set (sn_records s')" using i by simp_all
    have "po_slot (rd_position ?r) = po_slot (rd_position ?r')"
      using replayed_positions(1) [OF rep(1)] replayed_positions(1) [OF rep(2)] len i by (metis nth_map)
    then have body: "cb_transactions (rd_block ?r) = cb_transactions (rd_block ?r')"
      using stored_body [OF rep(1) m(1)] stored_body [OF rep(2) m(2)] txs by simp
    have "ce_network (rd_envelope ?r) = ce_network (rd_envelope ?r')"
      using replayed_records [OF rep(1)] replayed_records [OF rep(2)] m
      by (auto simp: c1_envelope_authenticate_def claim_authenticate_def try_res_Inr_iff split: if_splits)
    then have "rd_envelope ?r = rd_envelope ?r'"
      using blocks i len body
      by (intro envelope_of_rows [OF replayed_block_ok [OF rep(1) m(1)] replayed_block_ok [OF rep(2) m(2)]]) (metis nth_map)+
    with i show "map rd_envelope (sn_records s) ! i = map rd_envelope (sn_records s') ! i" by simp
  qed (simp add: len)
  with replayed_all [OF rep(1)] replayed_all [OF rep(2)] show ?thesis by (metis sum.inject(2))
qed

lemma map_Blob_inj: "map (map Blob) xs = map (map Blob) ys \<Longrightarrow> xs = ys"
  by (metis (no_types, lifting) cell.inject(3) inj_onI inj_on_mapI list.inj_map_strong)

lemma stored_same:
  assumes "stored (c_keccak C) g s db" "stored (c_keccak C) g s' db" and g: "g = approved_genesis (c_keccak C) l"
    and "replayed C g s" "replayed C g s'"
  shows "s = s'"
proof (rule stored_unique [OF assms(4,5) [unfolded g]])
  from assms(1) obtain acc where 1: "db Blocks = map (map Blob) (expected_rows (c_keccak C) g s acc Blocks)"
    "db Transactions = map (map Blob) (expected_rows (c_keccak C) g s acc Transactions)" by (auto simp: stored_def)
  from assms(2) obtain acc' where 2: "db Blocks = map (map Blob) (expected_rows (c_keccak C) g s' acc' Blocks)"
    "db Transactions = map (map Blob) (expected_rows (c_keccak C) g s' acc' Transactions)" by (auto simp: stored_def)
  show "map (block_row (c_keccak C)) (sn_records s) = map (block_row (c_keccak C)) (sn_records s')"
    by (rule map_Blob_inj) (use 1(1) 2(1) in \<open>simp only: expected_rows.simps\<close>)
  show "concat (map transaction_rows (sn_records s)) = concat (map transaction_rows (sn_records s'))"
    by (rule map_Blob_inj) (use 1(2) 2(2) in \<open>simp only: expected_rows.simps\<close>)
qed

section \<open>What the audit accepts\<close>

abbreviation fits :: "(nat \<times> nat) list \<Rightarrow> bytes list \<Rightarrow> bool" where
  "fits widths row \<equiv> list_all2 (\<lambda>b (lo, hi). lo \<le> length b \<and> length b \<le> hi) row widths"

lemma row_blobs_iff: "row_blobs widths cells = Inr row \<longleftrightarrow> cells = map Blob row \<and> fits widths row"
proof
  assume a: "row_blobs widths cells = Inr row"
  then have t: "length row = length widths"
    "\<And>i. i < length widths \<Longrightarrow> (case widths ! i of (lo, hi) \<Rightarrow> blob_cell (cells ! i) lo hi) = Inr (row ! i)"
    by (auto simp: row_blobs_def traverse_Inr_iff list_all2_conv_all_nth split: if_splits)
  have "fits widths row"
    unfolding list_all2_conv_all_nth
  proof (intro conjI allI impI)
    fix i assume "i < length row"
    then show "case widths ! i of (lo, hi) \<Rightarrow> lo \<le> length (row ! i) \<and> length (row ! i) \<le> hi"
      using t(2) [of i] t(1) by (auto simp: blob_cell_Inr split: prod.splits)
  qed (simp add: t)
  with row_blobs_Inr [OF a] show "cells = map Blob row \<and> fits widths row" by blast
next
  assume "cells = map Blob row \<and> fits widths row"
  then show "row_blobs widths cells = Inr row"
    by (auto simp: row_blobs_def traverse_Inr_iff list_all2_conv_all_nth blob_cell_Inr split: prod.splits)
qed

lemma collect_rows_iff:
  "collect_rows name widths n rs = Inr rows \<longleftrightarrow>
     rs = map (\<lambda>row. Some (map Blob row)) rows \<and> length rows \<le> n \<and> (\<forall>row \<in> set rows. fits widths row)"
proof (induction name widths n rs arbitrary: rows rule: collect_rows.induct)
  case (3 name widths n cells rs)
  then show ?case by (cases rows) (auto simp: try_res_Inr_iff row_blobs_iff)
qed auto

lemma read_table_fits:
  assumes "read_table S w t = Inr rows"
  shows "\<forall>row \<in> set rows. fits (table_widths t) row"
  using assms by (auto simp: read_table_def sql_rows_def try_res_Inr_iff collect_rows_iff)

lemma fits_nth: "fits ws row \<Longrightarrow> i < length ws \<Longrightarrow> fst (ws ! i) \<le> length (row ! i) \<and> length (row ! i) \<le> snd (ws ! i)"
  by (drule list_all2_nthD2) (auto split: prod.splits)

lemma replay_row_step:
  assumes step: "replay_row C g txs row s = Inr s'" and row: "fits (table_widths Blocks) row"
    and txs: "\<forall>t \<in> set txs. fits (table_widths Transactions) t" and net: "length (pol_network (ge_policy g)) = 32"
  shows "\<exists>e. c1_envelope_ok (c_keccak C) e \<and> replay_step C g e s = Inr s'"
proof -
  let ?K = "c_keccak C"
  let ?body = "map (\<lambda>tx. tx ! 5) (filter (\<lambda>tx. tx ! 1 = row ! 0) txs)"
  from step obtain header protocol b where h: "header_from_bytes (row ! 3) = Some header"
    and b: "block_from_parts ?K header (row ! 4) protocol ?body = Inr b"
    and r: "replay_step C g \<lparr>ce_block = b, ce_network = pol_network (ge_policy g), ce_signature = row ! 6\<rparr> s = Inr s'"
    by (auto simp: replay_row_def Let_def try_res_Inr_iff split: if_splits)
  have "\<forall>t \<in> set ?body. length t = SIGNED_LEN"
  proof -
    have "length (t ! 5) = 199" if "t \<in> set txs" for t
      using fits_nth [of t "table_widths Transactions" 5] txs that by simp
    then show ?thesis by (simp add: native_lens)
  qed
  moreover have "header_wf header" using header_enc_dec [OF h] by blast
  ultimately have "c1_block_ok ?K b" using b block_from_parts_Inr [OF b] by (simp add: c1_block_ok_def)
  moreover have "length (row ! 6) = 65" using fits_nth [OF row, where i = 6] by simp
  ultimately show ?thesis using r net by (intro exI conjI) (auto simp: c1_envelope_ok_def)
qed

lemma replay_rows_replayed:
  assumes "replay_rows C g txs rows s = Inr s'" "replayed C g s" "\<forall>row \<in> set rows. fits (table_widths Blocks) row"
    "\<forall>t \<in> set txs. fits (table_widths Transactions) t" "length (pol_network (ge_policy g)) = 32"
  shows "replayed C g s'"
  using assms
proof (induction rows arbitrary: s)
  case (Cons row rows)
  from Cons.prems(1) obtain s1 where 1: "replay_row C g txs row s = Inr s1" "replay_rows C g txs rows s1 = Inr s'"
    by (auto simp: try_res_Inr_iff)
  from replay_row_step [OF 1(1)] Cons.prems obtain e where "c1_envelope_ok (c_keccak C) e" "replay_step C g e s = Inr s1" by auto
  then have "replayed C g s1" by (rule replay_append [OF Cons.prems(2)])
  with Cons 1(2) show ?case by simp
qed simp

lemma audit_body_sound:
  assumes "audit_body S ddl C g w = Inr s" "length (pol_network (ge_policy g)) = 32"
  shows "replayed C g s" "sql_verify S ddl (c_keccak C) g s w = Inr ()"
proof -
  from assms(1) obtain blocks txs where r: "read_table S w Blocks = Inr blocks" "read_table S w Transactions = Inr txs"
    "replay_rows C g txs blocks (snapshot_initial g) = Inr s"
    and v: "sql_verify S ddl (c_keccak C) g s w = Inr ()"
    by (auto simp: audit_body_def try_res_Inr_iff split: if_splits)
  show "replayed C g s"
    by (rule replay_rows_replayed [OF r(3) replay_start read_table_fits [OF r(1)] read_table_fits [OF r(2)] assms(2)])
  show "sql_verify S ddl (c_keccak C) g s w = Inr ()" by (rule v)
qed

lemma approved_network: "digest32 K \<Longrightarrow> length (pol_network (ge_policy (approved_genesis K l))) = 32"
  by (simp add: approved_genesis_def approved_policy_def keccak256_def digest32_def)

context sqlite_engine
begin

lemma audit_sound:
  assumes "sql_audit (sql_of D) ddl C g w = (r, w')" "sq_autocommit D w" "length (pol_network (ge_policy g)) = 32"
  shows "durable w' = durable w \<and> (\<forall>s. r = Inr s \<longrightarrow> replayed C g s \<and> stored (c_keccak C) g s (durable w) \<and> sq_autocommit D w')"
proof -
  obtain r1 w1 where b: "sq_begin D False w = (r1, w1)" by force
  obtain r2 w2 where e: "sq_rollback D w1 = (r2, w2)" by force
  note be = begin_effect [OF assms(2) b] and re = rollback_effect [OF e]
  show ?thesis
  proof (cases r1)
    case None
    with assms(1) b be show ?thesis by (auto simp: sql_audit_def )
  next
    case (Some u)
    with assms(1) b e have w': "w' = w2" and r: "r = try_res (audit_body (sql_of D) ddl C g w1) (\<lambda>s. try_res (ok_or sql_error r2) (\<lambda>_. Inr s))"
      by (simp_all add: sql_audit_def Let_def )
    have "replayed C g s \<and> stored (c_keccak C) g s (durable w) \<and> sq_autocommit D w2" if "r = Inr s" for s
    proof -
      from that r have a: "audit_body (sql_of D) ddl C g w1 = Inr s" and "r2 = Some ()" by (auto simp: try_res_Inr_iff)
      with audit_body_sound [OF a assms(3)] verify_stored be re Some show ?thesis by fastforce
    qed
    with be re w' show ?thesis by auto
  qed
qed

lemma barrier_sound:
  assumes run: "sql_barrier (sql_of D) ddl K g s (dk_sync_path D) w = (r, w')" and idle: "sq_autocommit D w"
    and st: "stored K g s (durable w)"
  shows "stored K g s (durable w')" and "\<forall>u. r = Inr u \<longrightarrow> sq_autocommit D w'"
proof -
  obtain r1 w1 where b: "sq_begin D True w = (r1, w1)" by force
  note be = begin_effect [OF idle b]
  from st obtain acc bar where bar: "length bar = 8" "accounting_row (sn_state s) = Inr acc"
    "durable w Metadata = [[Blob sql_version, Text sql_mode, Blob (ge_bytes g), Blob (be_bytes (po_slot (sn_tip s))), Blob bar, Integer 1]]"
    and tabs: "\<forall>t. t \<noteq> Metadata \<longrightarrow> durable w t = map (map Blob) (expected_rows K g s acc t)"
    by (auto simp: stored_def)
  have upd: "stored K g s (apply_write (Update_barrier (be_bytes (n :: u64)) old) (durable w))" for n old
    unfolding stored_def
    by (intro exI [of _ acc] exI [of _ "if bar = old then be_bytes n else bar"]) (use bar tabs in auto)
  have "stored K g s (durable w') \<and> (\<forall>u. r = Inr u \<longrightarrow> sq_autocommit D w')"
  proof (cases r1)
    case None
    with run b be st show ?thesis by (auto simp: sql_barrier_def )
  next
    case (Some u)
    then have w1: "\<not> sq_autocommit D w1" "content w1 = durable w" "durable w1 = durable w" using be by simp_all
    let ?cas = "\<lambda>next old. sql_cas (sql_of D) (Update_barrier (be_bytes (next :: u64)) old) ''barrier CAS'' w1"
    have step: "durable w2 = durable w \<and> (\<forall>u. r2 = Inr u \<longrightarrow> \<not> sq_autocommit D w2 \<and> stored K g s (content w2))"
      if "?cas next old = (r2, w2)" for "next" old r2 w2
      using tx_cas [OF w1(1), of "Update_barrier (be_bytes next) old" "''barrier CAS''"] that upd [of "next" old] w1
      by (auto simp: does_def simp del: apply_write.simps)
    have com: "stored K g s (durable w3) \<and> (r3 = Some () \<longrightarrow> sq_autocommit D w3)"
      if "\<not> sq_autocommit D w2" "durable w2 = durable w" "stored K g s (content w2)" "sq_commit D w2 = (r3, w3)" for w2 r3 w3
      using that commit_effect [OF that(1,4)] st by (cases r3) auto
    have syn: "stored K g s (durable w4) \<and> (r3 = Some () \<longrightarrow> sq_autocommit D w4)"
      if "\<not> sq_autocommit D w2" "durable w2 = durable w" "stored K g s (content w2)" "sq_commit D w2 = (r3, w3)"
        "dk_sync_path D w3 = (r4, w4)" for w2 r3 w3 r4 w4
      using com [OF that(1-4)] settings_effect [of w3 r4 w4] that(5) by simp
    show ?thesis
      using run b Some st w1
      by (auto simp: sql_barrier_def then_do_def try_res_def Let_def split: sum.splits prod.splits if_splits
          dest!: step dest: com syn)
  qed
  then show "stored K g s (durable w')" "\<forall>u. r = Inr u \<longrightarrow> sq_autocommit D w'" by blast+
qed

end

section \<open>Recovery\<close>

lemma next_generation_Inr:
  "next_generation counter = (Inr gen, counter') \<Longrightarrow> gen = counter \<and> checked_add counter 1 = Some counter'"
  by (auto simp: next_generation_def split: option.splits)

context sqlite_engine
begin

lemma open_keeps:
  assumes "then_do (disk_open D (dk_close D w)) (\<lambda>_ w. sql_configure D w) = (r, w')"
  shows "durable w' = durable w \<and> (\<forall>u. r = Inr u \<longrightarrow> sq_autocommit D w')"
proof -
  have o: "durable w2 = durable w1 \<and> (r2 = Some () \<longrightarrow> sq_autocommit D w2)" if "dk_open D w1 = (r2, w2)" for w1 r2 w2
    using open_effect [OF that] .
  have s: "durable w2 = durable w1 \<and> sq_autocommit D w2 = sq_autocommit D w1"
    if "dk_busy_timeout D w1 = (r2, w2)" for w1 r2 w2
    using settings_effect [of w1 r2 w2] that by blast
  have p: "durable w2 = durable w1 \<and> sq_autocommit D w2 = sq_autocommit D w1"
    if "dk_set_pragmas D w1 = (r2, w2)" for w1 r2 w2
    using settings_effect [of w1 r2 w2] that by blast
  have c: "durable w2 = durable w1 \<and> sq_autocommit D w2 = sq_autocommit D w1" if "sql_configure D w1 = (r2, w2)" for w1 r2 w2
    using that
    by (auto simp: sql_configure_def disk_configure_def disk_call_def then_do_def
        split: sum.splits prod.splits option.splits dest!: s p)
  show ?thesis
    using assms close_effect [of w]
    by (auto simp: disk_open_def disk_call_def then_do_def split: sum.splits prod.splits option.splits bool.splits
        dest!: c o)
qed

lemma recover_sound:
  assumes run: "recover C D ow counter w = (r, ow', counter', w')"
    and net: "length (pol_network (ge_policy (ow_genesis ow))) = 32"
  shows "case r of Inl e \<Rightarrow> ow_poisoned ow' \<and> ow_snapshot ow' = ow_snapshot ow \<and> ow_attempt ow' = ow_attempt ow \<and>
      ow_genesis ow' = ow_genesis ow \<and> (durable w' = durable w \<or> (\<exists>s. replayed C (ow_genesis ow) s \<and>
         stored (c_keccak C) (ow_genesis ow) s (durable w) \<and> stored (c_keccak C) (ow_genesis ow) s (durable w')))
   | Inr rep \<Rightarrow> \<exists>s present. ow' = ow\<lparr>ow_generation := counter, ow_connected := True, ow_snapshot := s, ow_attempt := None, ow_poisoned := False\<rparr> \<and>
      checked_add counter 1 = Some counter' \<and> replayed C (ow_genesis ow) s \<and>
      stored (c_keccak C) (ow_genesis ow) s (durable w) \<and> stored (c_keccak C) (ow_genesis ow) s (durable w') \<and>
      sq_autocommit D w' \<and> reconcile (ow_attempt ow) (ow_snapshot ow) s = Inr present \<and> rep = \<lparr>rr_position = sn_tip s, rr_attempted_present = present\<rparr>"
proof -
  let ?g = "ow_genesis ow" and ?K = "c_keccak C"
  obtain gen cnt where n: "next_generation counter = (gen, cnt)" by force
  obtain r1 w1 where o: "then_do (disk_open D (dk_close D w)) (\<lambda>_ w. sql_configure D w) = (r1, w1)" by force
  obtain r2 w2 where a: "sql_audit (sql_of D) (dk_ddl D) C ?g w1 = (r2, w2)" by force
  note ok = open_keeps [OF o]
  show ?thesis
  proof (cases "\<exists>gn u s p. gen = Inr gn \<and> r1 = Inr u \<and> r2 = Inr s \<and> reconcile (ow_attempt ow) (ow_snapshot ow) s = Inr p")
    case True
    then obtain gn u s p where t: "gen = Inr gn" "r1 = Inr u" "r2 = Inr s" "reconcile (ow_attempt ow) (ow_snapshot ow) s = Inr p" by blast
    from ok t have w1: "durable w1 = durable w" "sq_autocommit D w1" by simp_all
    from audit_sound [OF a w1(2) net] t w1 have s: "replayed C ?g s" "stored ?K ?g s (durable w)" "durable w2 = durable w" "sq_autocommit D w2"
      by auto
    obtain r3 w3 where b: "sql_barrier (sql_of D) (dk_ddl D) ?K ?g s (dk_sync_path D) w2 = (r3, w3)" by force
    have "stored ?K ?g s (durable w3)" "\<forall>u. r3 = Inr u \<longrightarrow> sq_autocommit D w3" using barrier_sound [OF b s(4)] s by simp_all
    moreover have "gn = counter" "checked_add counter 1 = Some cnt" using next_generation_Inr n t by auto
    ultimately show ?thesis
      using run n o a b t s by (cases r3) (auto simp: recover_def Let_def then_do_def)
  next
    case False
    have "durable w2 = durable w" if "r1 = Inr u" for u
      using ok that audit_sound [OF a _ net] by auto
    with False run n o a ok show ?thesis
      by (auto simp: recover_def Let_def then_do_def split: sum.splits prod.splits)
  qed
qed

end

text \<open>What reconciliation says about the two databases an interrupted commit can leave.\<close>

lemma reconcile_attempt:
  assumes "reconcile (Some \<lparr>tr_base = b, tr_record = r\<rparr>) known loaded = Inr present" "ba_snapshot b = s"
  shows "loaded = s \<Longrightarrow> present = Some False"
    and "sn_records loaded = sn_records s @ [r] \<Longrightarrow> present = Some True"
  using assms by (auto simp: reconcile_def Let_def split: if_splits)

section \<open>Widths of what is stored\<close>

lemma authenticated_widths:
  assumes "authenticate C b ctx None = Inr p"
  shows "length (ut_sender (st_unsigned (at_transaction p))) = 20" "length (ut_recipient (st_unsigned (at_transaction p))) = 20"
proof -
  from assms obtain t where t: "signed_from_bytes C b = Inr t" by (auto simp: authenticate_def try_res_Inr_iff)
  then have "signed_wf C t" using signed_enc_dec by blast
  moreover have "at_transaction p = t" using assms unfolding authenticate_decoded [OF t] by (auto split: if_splits)
  ultimately show "length (ut_sender (st_unsigned (at_transaction p))) = 20" "length (ut_recipient (st_unsigned (at_transaction p))) = 20"
    by (simp_all add: signed_wf_def unsigned_wf_def unsigned_widths_def)
qed

lemma apply_transfer_keys:
  assumes "apply_transfer s out p slot = Inr (s', out')"
  shows "fst ` set (ts_accounts s') \<subseteq> {ut_sender (st_unsigned (at_transaction p)), ut_recipient (st_unsigned (at_transaction p))} \<union>
     fst ` set (ts_accounts s)"
  by (rule apply_transfer_elim [OF assms refl]) (auto simp: set_fst_bm_insert split: option.splits)

lemma execute_proofs_keys:
  assumes "execute_proofs i s out slot ps = Inr (s', out')" "list_all2 (\<lambda>b p. authenticate C b ctx None = Inr p) body ps"
  shows "\<forall>a \<in> fst ` set (ts_accounts s'). a \<in> fst ` set (ts_accounts s) \<or> length a = 20"
  using assms
proof (induction ps arbitrary: i s out body)
  case (Cons p ps)
  from Cons.prems obtain s1 out1 where a: "apply_transfer s out p slot = Inr (s1, out1)"
    and r: "execute_proofs (Suc i) s1 out1 slot ps = Inr (s', out')" by (auto simp: try_res_Inr_iff)
  from Cons.prems(2) obtain b bs where b: "authenticate C b ctx None = Inr p" "list_all2 (\<lambda>b p. authenticate C b ctx None = Inr p) bs ps"
    by (auto simp: list_all2_Cons2)
  note ks = apply_transfer_keys [OF a] and ws = authenticated_widths [OF b(1)]
  show ?case
  proof
    fix x assume "x \<in> fst ` set (ts_accounts s')"
    with Cons.IH [OF r b(2)] consider "x \<in> fst ` set (ts_accounts s1)" | "length x = 20" by blast
    then show "x \<in> fst ` set (ts_accounts s) \<or> length x = 20"
      using subsetD [OF ks, of x] ws by cases auto
  qed
qed simp

lemma stage_native_keys:
  assumes "stage_native C view body = Inr (native, applied)"
  shows "\<forall>a \<in> fst ` set (ts_accounts native). a \<in> fst ` set (ts_accounts (native_state (sv_state view))) \<or> length a = 20"
proof -
  from assms obtain sb where sb: "stage_body C (native_state (sv_state view)) (native_context (sv_genesis view)) (sv_slot view) body = Inr sb"
    "native = sb_candidate sb" by (auto simp: stage_native_def try_res_Inr_iff split: if_splits)
  from sb(1) show ?thesis by (rule stage_body_elim) (use sb(2) in \<open>auto dest!: execute_proofs_keys\<close>)
qed

definition state_wide :: "closed_state \<Rightarrow> bool" where
  "state_wide st \<longleftrightarrow> (\<forall>a \<in> set (si_accounts (cs_data st)). length (pa_address a) = 20) \<and>
     (\<forall>c \<in> set (si_credits (cs_data st)). length (rc_validator c) = 7) \<and> length (po_hash (state_position st)) = 32"

lemma initial_state_wide: "digest32 K \<Longrightarrow> state_wide (ge_initial (approved_genesis K l))"
  by (simp add: state_wide_def approved_genesis_def sealed_def approved_snapshot_def initial_snapshot_def expected_accounts_sorted
      alice_def bob_def carol_def header_hash_def hash_with_domain_def digest32_def)

lemma length_state_payload:
  assumes ch: "chain_state K (approved_genesis K l) st" and wide: "state_wide st"
  shows "length (cs_bytes st) = 478 + 44 * length (si_accounts (cs_data st)) + 49 * length (si_credits (cs_data st))"
proof -
  let ?d = "cs_data st"
  have ok: "snapshot_ok (ge_policy (approved_genesis K l)) ?d" and sup: "supported st = Inr ()"
    and st: "st = sealed K (ge_policy (approved_genesis K l)) ?d"
    using ch unfolding chain_state_def by blast+
  have enc: "cs_bytes st = encode_snapshot ?d" by (subst st) (simp add: sealed_def)
  obtain a b t u where r: "si_validators ?d = [a, b]" "va_id a = trial_A" "va_id b = trial_B"
    "si_tickets ?d = [t, u]" "tk_owner t = trial_A" "tk_owner u = trial_B"
    using ok by (rule chain_rows)
  have s: "va_cooldown_until a = None" "va_cooldown_until b = None" "tk_retire_start t = None" "tk_retire_effective t = None"
    "tk_retire_start u = None" "tk_retire_effective u = None"
    using sup r by (auto simp: supported_def split: if_splits)
  have acc: "length (concat (map encode_account (si_accounts ?d))) = 44 * length (si_accounts ?d)"
    using wide by (intro length_concat_fixed) (auto simp: encode_account_def state_wide_def)
  have cr: "length (concat (map encode_credit (si_credits ?d))) = 49 * length (si_credits ?d)"
    using wide by (intro length_concat_fixed) (auto simp: encode_credit_def text_field_def state_wide_def)
  show ?thesis
    using wide r s acc cr unfolding enc
    by (simp add: encode_snapshot_def encode_validator_def encode_ticket_def text_field_def optional_field_def
        state_wide_def year_zero_encode_def)
qed

lemma replayed_wide:
  assumes "replayed C (approved_genesis (c_keccak C) l) s"
    and ids: "proposer_id (c_keccak C) trial_A \<noteq> proposer_id (c_keccak C) trial_B" and dg: "digest32 (c_keccak C)"
  shows "state_wide (sn_state s) \<and> (\<forall>r \<in> set (sn_records s). state_wide (rd_state r) \<and>
     chain_state (c_keccak C) (approved_genesis (c_keccak C) l) (rd_state r) \<and> si_credits (cs_data (rd_state r)) \<noteq> [])"
  using assms(1)
proof induction
  case replay_start
  then show ?case using initial_state_wide [OF dg] by (simp add: snapshot_initial_def)
next
  case (replay_append s e s')
  let ?K = "c_keccak C" and ?g = "approved_genesis (c_keccak C) l"
  obtain r view native applied v h where i: "snapshot_insert ?K r s = Inr s'"
    and n: "stage_native C view (cb_transactions (ce_block e)) = Inr (native, applied)" "sv_state view = sn_state s"
    and v: "v \<in> set (si_validators (cs_data (sn_state s)))" and d: "cs_data (rd_state r) = next_data (cs_data (sn_state s)) native v h"
    by (rule replay_step_facts [OF replay_append.hyps(1) ids replay_append.hyps(2,3)])
  have s': "sn_state s' = rd_state r" "sn_records s' = sn_records s @ [r]" using i by (auto elim: snapshot_insert_Inr)
  have rep': "replayed C ?g s'" by (rule replayed.replay_append [OF replay_append.hyps])
  note ch = replayed_chain_state [OF replay_append.hyps(1) ids] and ch' = replayed_chain_state [OF rep' ids]
  have keys: "fst ` set (ts_accounts (native_state (sn_state s))) = pa_address ` set (si_accounts (cs_data (sn_state s)))"
    using ch native_accounts(1) [of "sn_state s"]
    by (simp add: chain_state_def snapshot_ok_def sorted_snapshot_def image_image)
  have "length (pa_address a) = 20" if "a \<in> set (si_accounts (cs_data (rd_state r)))" for a
    using that stage_native_keys [OF n(1)] keys replay_append.IH unfolding d n(2)
    by (force simp: state_wide_def)
  moreover have "length (va_id v) = 7"
  proof (rule chain_rows [of ?K l "cs_data (sn_state s)"])
    show "snapshot_ok (ge_policy ?g) (cs_data (sn_state s))" using ch by (simp add: chain_state_def)
  qed (use v in \<open>auto simp: str_def\<close>)
  moreover have "length (po_hash (state_position (rd_state r))) = 32"
    using replayed_tip_hash [OF rep' dg] by (simp add: sn_tip_def s')
  ultimately have "state_wide (rd_state r)"
    using replay_append.IH by (auto simp: state_wide_def d)
  with replay_append.IH ch' show ?case by (auto simp: s' d)
qed

section \<open>The audit accepts what commits write\<close>

lemma replay_row_again:
  assumes ins: "snapshot_insert (c_keccak C) r s = Inr s'" and ok: "c1_envelope_ok (c_keccak C) (rd_envelope r)"
    and step: "replay_step C g (rd_envelope r) s = Inr s'" and slots: "slots_agree r"
    and body: "map (\<lambda>t. t ! 5) (filter (\<lambda>t. t ! 1 = be_bytes (po_slot (rd_position r))) txs) = cb_transactions (rd_block r)"
    and net: "ce_network (rd_envelope r) = pol_network (ge_policy g)"
  shows "replay_row C g txs (block_row (c_keccak C) r) s = Inr s'"
proof -
  let ?K = "c_keccak C" and ?b = "rd_block r"
  have bok: "c1_block_ok ?K ?b" using ok by (simp add: c1_envelope_ok_def)
  note k = c1_block_okD [OF bok]
  have slot: "po_slot (rd_position r) = po_slot (sn_tip s) + 1"
    using ins by (auto elim!: snapshot_insert_Inr simp: checked_add_def split: if_splits)
  have row: "block_row ?K r ! 0 = be_bytes (po_slot (rd_position r))" "block_row ?K r ! 3 = header_bytes (hc_header (cb_claim ?b))"
    "block_row ?K r ! 4 = hc_producer (cb_claim ?b)" "block_row ?K r ! 5 = protocol_data_bytes (cb_protocol ?b)"
    "block_row ?K r ! 6 = ce_signature (rd_envelope r)"
    using slots by (simp_all add: block_row_def Let_def slots_agree_def)
  have pd: "protocol_data_from_bytes (protocol_data_bytes (cb_protocol ?b)) = Some (cb_protocol ?b)"
    using k(6) by (intro protocol_data_dec_enc) (simp add: wf_simps)
  have parts: "block_from_parts ?K (hc_header (cb_claim ?b)) (hc_producer (cb_claim ?b)) (cb_protocol ?b) (cb_transactions ?b) = Inr ?b"
    using bok by (simp add: c1_block_ok_def)
  have env: "\<lparr>ce_block = ?b, ce_network = pol_network (ge_policy g), ce_signature = ce_signature (rd_envelope r)\<rparr> = rd_envelope r"
    by (simp flip: net)
  have "replay_row C g txs (block_row ?K r) s =
      replay_step C g \<lparr>ce_block = ?b, ce_network = pol_network (ge_policy g), ce_signature = ce_signature (rd_envelope r)\<rparr> s"
    unfolding replay_row_def Let_def row body by (simp add: slot header_dec_enc [OF k(1)] pd k(5) parts)
  with step show ?thesis unfolding env by simp
qed

lemma replay_rows_append:
  "replay_rows C g txs (rows @ rows') s = try_res (replay_rows C g txs rows s) (replay_rows C g txs rows')"
  by (induction rows arbitrary: s) (auto simp: try_res_def split: sum.splits)

lemma replay_rows_again:
  assumes "replayed C (approved_genesis (c_keccak C) l) s"
    and ids: "proposer_id (c_keccak C) trial_A \<noteq> proposer_id (c_keccak C) trial_B"
    and "\<forall>r \<in> set (sn_records s). map (\<lambda>t. t ! 5) (filter (\<lambda>t. t ! 1 = be_bytes (po_slot (rd_position r))) txs) = cb_transactions (rd_block r)"
  shows "replay_rows C (approved_genesis (c_keccak C) l) txs (map (block_row (c_keccak C)) (sn_records s))
     (snapshot_initial (approved_genesis (c_keccak C) l)) = Inr s"
  using assms(1,3)
proof induction
  case replay_start
  then show ?case by (simp add: snapshot_initial_def)
next
  case (replay_append s e s')
  let ?K = "c_keccak C" and ?g = "approved_genesis (c_keccak C) l"
  obtain r view native applied where i: "snapshot_insert ?K r s = Inr s'" "rd_envelope r = e" "slots_agree r"
    "stage_native C view (cb_transactions (ce_block e)) = Inr (native, applied)"
    by (rule replay_step_facts [OF replay_append.hyps(1) ids replay_append.hyps(2,3)])
  have s': "sn_records s' = sn_records s @ [r]" using i(1) by (auto elim: snapshot_insert_Inr)
  from replay_append.hyps(3) obtain pf where "c1_envelope_authenticate C e ?g = Inr pf" by (rule replay_step_Inr)
  then have "ce_network (rd_envelope r) = pol_network (ge_policy ?g)"
    by (auto simp: i(2) c1_envelope_authenticate_def claim_authenticate_def try_res_Inr_iff split: if_splits)
  then have "replay_row C ?g txs (block_row ?K r) s = Inr s'"
    using replay_append.hyps replay_append.prems s' i by (intro replay_row_again) simp_all
  with replay_append.IH replay_append.prems show ?case by (simp add: s' replay_rows_append)
qed

lemma replayed_length:
  assumes "replayed C (approved_genesis (c_keccak C) l) s"
    and "proposer_id (c_keccak C) trial_A \<noteq> proposer_id (c_keccak C) trial_B"
  shows "length (sn_records s) \<le> 200"
  using replayed_tip [OF assms(1)] replayed_chain_state [OF assms]
  by (simp add: chain_state_def snapshot_ok_def sn_tip_def MAX_SLOTS_def word_le_nat_alt)

lemma chain_payload_bounds:
  assumes "chain_state K (approved_genesis K l) st" "state_wide st" "digest32 K"
  shows "fits (table_widths States) (state_row st)"
proof -
  have b: "3 \<le> length (si_accounts (cs_data st))" "length (si_accounts (cs_data st)) \<le> 3203" "length (si_credits (cs_data st)) \<le> 200"
    using assms(1) by (auto simp: chain_state_def snapshot_ok_def MAX_ACCOUNTS_def MAX_SLOTS_def MAX_ENTRIES_def word_le_nat_alt)
  have "cs_id st = cs_id (sealed K (ge_policy (approved_genesis K l)) (cs_data st))"
    using assms(1) unfolding chain_state_def by metis
  then have "length (cs_id st) = 32" using assms(3) by (simp add: sealed_def hash_with_domain_def digest32_def)
  with b length_state_payload [OF assms(1,2)] assms(2) show ?thesis
    by (simp add: state_row_def state_wide_def)
qed

lemma record_fits:
  assumes rep: "replayed C (approved_genesis (c_keccak C) l) s"
    and ids: "proposer_id (c_keccak C) trial_A \<noteq> proposer_id (c_keccak C) trial_B" and dg: "digest32 (c_keccak C)"
    and r: "r \<in> set (sn_records s)"
  shows "fits (table_widths Blocks) (block_row (c_keccak C) r)" "fits (table_widths Bodies) (body_row r)"
    "fits (table_widths Rewards) (reward_row r)" "fits (table_widths States) (state_row (rd_state r))"
    "\<forall>row \<in> set (transaction_rows r). fits (table_widths Transactions) row" "length (transaction_rows r) \<le> 16"
proof -
  let ?K = "c_keccak C" and ?b = "rd_block r"
  have env: "c1_envelope_ok ?K (rd_envelope r)" using replayed_records [OF rep] r by blast
  then have bok: "c1_block_ok ?K ?b" by (simp add: c1_envelope_ok_def)
  note k = c1_block_okD [OF bok]
  have kl: "length (?K x) = 32" for x using dg by (simp add: digest32_def)
  have pd: "length (protocol_data_bytes (cb_protocol ?b)) = 10" using k(6) by (simp add: protocol_data_bytes_def)
  show "fits (table_widths Blocks) (block_row ?K r)"
    using k env pd kl length_header_bytes [OF k(1)]
    by (simp add: block_row_def Let_def c1_block_hash_def claim_hash_def header_hash_def c1_envelope_id_def hash_with_domain_def
        header_wf_def c1_envelope_ok_def BLOCK_HEADER_LEN_def)
  have "table_widths Bodies = [(8, 8), (8, 8), (8, 8), (8, 8)]" by (simp add: eval_nat_numeral)
  then show "fits (table_widths Bodies) (body_row r)" by (simp add: body_row_def del: table_widths.simps)
  note w = replayed_wide [OF rep ids dg]
  with r have wr: "state_wide (rd_state r)" "chain_state ?K (approved_genesis ?K l) (rd_state r)" "si_credits (cs_data (rd_state r)) \<noteq> []"
    by blast+
  then have "length (rc_validator (last (si_credits (cs_data (rd_state r))))) = 7" by (simp add: state_wide_def)
  then show "fits (table_widths Rewards) (reward_row r)" by (simp add: reward_row_def Let_def)
  show "fits (table_widths States) (state_row (rd_state r))" by (rule chain_payload_bounds [OF wr(2,1) dg])
  have match: "map (hash_with_domain ?K ID_DOMAIN) (cb_transactions ?b) = bo_transaction_ids (rd_outcome r)"
    using replayed_records [OF rep] r by (auto simp: block_match_outcome_def split: if_splits)
  have ent: "length tx = 199 \<and> length ident = 32" if "(tx, ident) \<in> set (record_entries ?b (rd_outcome r))" for tx ident
  proof -
    from that have "tx \<in> set (cb_transactions ?b)" "ident \<in> set (map (hash_with_domain ?K ID_DOMAIN) (cb_transactions ?b))"
      unfolding record_entries_def match [symmetric] by (meson set_zip_leftD set_zip_rightD)+
    with k(2) kl show ?thesis by (auto simp: native_lens hash_with_domain_def)
  qed
  have en: "snd p \<in> set (record_entries ?b (rd_outcome r))" if "p \<in> set (List.enumerate 0 (record_entries ?b (rd_outcome r)))" for p
    using that nth_mem [of "fst p" "record_entries ?b (rd_outcome r)"] by (simp add: in_set_enumerate_eq)
  have "fits (table_widths Transactions) (transaction_row r i e)" if "(i, e) \<in> set (List.enumerate 0 (record_entries ?b (rd_outcome r)))" for i e
  proof -
    from that en [of "(i, e)"] ent [of "fst e" "snd e"] have "length (fst e) = 199" "length (snd e) = 32" by auto
    then show ?thesis by (cases e) (simp add: transaction_row_def sender_nonce_def)
  qed
  then show "\<forall>row \<in> set (transaction_rows r). fits (table_widths Transactions) row"
    by (auto simp: transaction_rows_def)
  show "length (transaction_rows r) \<le> 16" using k(3) by (simp add: transaction_rows_def record_entries_def)
qed

lemma expected_fits:
  assumes rep: "replayed C (approved_genesis (c_keccak C) l) s"
    and ids: "proposer_id (c_keccak C) trial_A \<noteq> proposer_id (c_keccak C) trial_B" and dg: "digest32 (c_keccak C)"
    and acc: "accounting_row (sn_state s) = Inr acc" and t: "t \<noteq> Metadata"
  defines "rows \<equiv> expected_rows (c_keccak C) (approved_genesis (c_keccak C) l) s acc t"
  shows "(\<forall>row \<in> set rows. fits (table_widths t) row) \<and> length rows \<le> table_limit t"
proof -
  let ?K = "c_keccak C" and ?g = "approved_genesis (c_keccak C) l"
  note rf = record_fits [OF rep ids dg] and ch = replayed_chain_state [OF rep ids] and w = replayed_wide [OF rep ids dg]
  note n = replayed_length [OF rep ids]
  have init: "fits (table_widths States) (state_row (ge_initial ?g))"
    by (rule chain_payload_bounds [OF initial_chain_state initial_state_wide [OF dg] dg])
  have a: "length (si_accounts (cs_data (sn_state s))) \<le> MAX_ACCOUNTS" using ch by (simp add: chain_state_def snapshot_ok_def)
  have accw: "fits (table_widths Accounting) acc" using acc by (auto simp: accounting_row_def Let_def try_res_Inr_iff)
  have year: "length year_bytes = 120" by (simp add: year_bytes_def year_zero_encode_def)
  have "length (concat (map transaction_rows rs)) \<le> 16 * length rs" if "set rs \<subseteq> set (sn_records s)" for rs
    using that rf(6) by (induction rs) (auto simp: add_mono)
  then have tl: "length (concat (map transaction_rows (sn_records s))) \<le> 3200" using n by fastforce
  have tip: "length (po_hash (sn_tip s)) = 32" by (rule replayed_tip_hash [OF rep dg])
  show ?thesis
    unfolding rows_def using t rf(1-5) init a accw year tl tip n w
    by (cases t) (auto simp: account_row_def state_wide_def MAX_SLOTS_def MAX_ENTRIES_def)
qed

text \<open>A database that answers every query with its content.\<close>

definition answers :: "'w sqlite \<Rightarrow> (string \<Rightarrow> string) \<Rightarrow> 'w \<Rightarrow> sqldb \<Rightarrow> bool" where
  "answers S ddl w db \<longleftrightarrow> schema S ddl w = Inr () \<and> sq_count_metadata S w = Some (int (length (db Metadata))) \<and>
     (\<forall>t. sq_select S t w = Some (map Some (db t)))"

lemma audit_complete:
  assumes ans: "answers S ddl w db" and st: "stored (c_keccak C) (approved_genesis (c_keccak C) l) s db"
    and rep: "replayed C (approved_genesis (c_keccak C) l) s"
    and ids: "proposer_id (c_keccak C) trial_A \<noteq> proposer_id (c_keccak C) trial_B" and dg: "digest32 (c_keccak C)"
    and gb: "1 \<le> length (ge_bytes (approved_genesis (c_keccak C) l))" "length (ge_bytes (approved_genesis (c_keccak C) l)) \<le> MAX_GENESIS_BYTES"
  shows "audit_body S ddl C (approved_genesis (c_keccak C) l) w = Inr s"
    and "sql_verify S ddl (c_keccak C) (approved_genesis (c_keccak C) l) s w = Inr ()"
proof -
  let ?K = "c_keccak C" and ?g = "approved_genesis (c_keccak C) l"
  from st obtain acc barrier where acc: "accounting_row (sn_state s) = Inr acc" and bar: "length barrier = 8"
    and meta: "db Metadata = [[Blob sql_version, Text sql_mode, Blob (ge_bytes ?g), Blob (be_bytes (po_slot (sn_tip s))), Blob barrier, Integer 1]]"
    and tabs: "\<And>t. t \<noteq> Metadata \<Longrightarrow> db t = map (map Blob) (expected_rows ?K ?g s acc t)"
    by (auto simp: stored_def)
  have pol: "sql_policy S ?g w = Inr (po_slot (sn_tip s))"
    using ans meta bar gb by (simp add: sql_policy_def answers_def policy_row_def blob_cell_def sql_version_def)
  have rd: "read_table S w t = Inr (expected_rows ?K ?g s acc t)" if "t \<noteq> Metadata" for t
    using ans tabs [OF that] expected_fits [OF rep ids dg acc that]
    by (simp add: answers_def read_table_def sql_rows_def collect_rows_iff)
  have each: "verify_tables S w (expected_rows ?K ?g s acc) ts = Inr ()" if "Metadata \<notin> set ts" for ts
    using that by (induction ts) (auto simp: rd)
  have vt: "verify_tables S w (expected_rows ?K ?g s acc) verified_tables = Inr ()"
    by (rule each) (simp add: verified_tables_def)
  show ver: "sql_verify S ddl ?K ?g s w = Inr ()"
    using ans pol acc vt by (simp add: sql_verify_def answers_def)
  have "replay_rows C ?g (concat (map transaction_rows (sn_records s))) (map (block_row ?K) (sn_records s)) (snapshot_initial ?g) = Inr s"
    by (rule replay_rows_again [OF rep ids]) (use stored_body [OF rep] in blast)
  moreover have "po_slot (sn_tip s) \<le> MAX_SLOTS"
    using replayed_chain_state [OF rep ids] by (simp add: chain_state_def snapshot_ok_def sn_tip_def)
  ultimately show "audit_body S ddl C ?g w = Inr s"
    using ans pol ver rd by (simp add: audit_body_def answers_def not_less)
qed

end
