(* ===== verification/Poash_Schema.thy ===== *)
theory Poash_Schema
  imports Poash_Recovery
begin

text \<open>
  The constraints of schema 4 (\<open>TABLES\<close> and \<open>triggers\<close> of \<open>src/src/native_poash/storage/sql.rs\<close>): which statements
  SQLite lets through on given tables, and which foreign keys it checks at the \<open>COMMIT\<close>. The rows of a replayed history
  satisfy them, provided that no two headers and no two envelopes of the history have the same digest: the indexes in
  memory do not check this, the \<open>UNIQUE\<close> columns do.
\<close>

section \<open>Constraints\<close>

text \<open>The columns that must not repeat: \<open>PRIMARY KEY\<close>, \<open>UNIQUE\<close> and the \<open>no_replace\<close> triggers. A table with
  \<open>CHECK(id=1)\<close> has the empty key, so that it holds one row.\<close>

fun unique_keys :: "sql_table \<Rightarrow> cell list \<Rightarrow> cell list list" where
  "unique_keys Blocks q = [[q ! 0], [q ! 1], [q ! 7]]"
| "unique_keys States q = [[q ! 0], [q ! 1]]"
| "unique_keys Transactions q = [[q ! 0], [q ! 1, q ! 2], [q ! 3, q ! 4]]"
| "unique_keys Accounts q = [[q ! 0]]"
| "unique_keys Bodies q = [[q ! 0]]"
| "unique_keys Rewards q = [[q ! 0]]"
| "unique_keys _ q = [[]]"

definition sql_apart :: "sql_table \<Rightarrow> cell list \<Rightarrow> cell list \<Rightarrow> bool" where
  "sql_apart t p q \<longleftrightarrow> list_all2 (\<noteq>) (unique_keys t p) (unique_keys t q)"

text \<open>The foreign keys that are checked with the statement, and the \<open>CHECK\<close> that is not a width.\<close>

fun sql_refers :: "sql_table \<Rightarrow> bytes list \<Rightarrow> sqldb \<Rightarrow> bool" where
  "sql_refers Transactions row db \<longleftrightarrow> (\<exists>q \<in> set (db Bodies). q ! 0 = Blob (row ! 1))"
| "sql_refers Rewards row db \<longleftrightarrow> (\<exists>q \<in> set (db Blocks). q ! 0 = Blob (row ! 0))"
| "sql_refers Canonical_tip row db \<longleftrightarrow> (\<exists>q \<in> set (db States). q ! 0 = Blob (row ! 0) \<and> q ! 1 = Blob (row ! 1))"
| "sql_refers Blocks row db \<longleftrightarrow> row ! 0 > be_bytes (0 :: u64)"
| "sql_refers _ row db \<longleftrightarrow> True"

text \<open>The statements that the constraints let through. Nothing is said of a declaration (\<open>Execute\<close>): no
  operation after the creation makes one.\<close>

fun sql_allowed :: "sql_write \<Rightarrow> sqldb \<Rightarrow> bool" where
  "sql_allowed (Execute _) db \<longleftrightarrow> False"
| "sql_allowed (Insert_metadata mode g revision bar) db \<longleftrightarrow> db Metadata = [] \<and> mode = sql_mode \<and>
     1 \<le> length g \<and> length g \<le> MAX_GENESIS_BYTES \<and> length revision = 8 \<and> length bar = 8"
| "sql_allowed Set_initialized db \<longleftrightarrow> True"
| "sql_allowed (Upsert t row) db \<longleftrightarrow> t \<in> {Accounts, Accounting} \<and> fits (table_widths t) row"
| "sql_allowed (Insert t row) db \<longleftrightarrow> fits (table_widths t) row \<and> (\<forall>q \<in> set (db t). sql_apart t q (map Blob row)) \<and> sql_refers t row db"
| "sql_allowed (Update_revision new old) db \<longleftrightarrow> length new = 8"
| "sql_allowed (Update_tip slot h oslot oh) db \<longleftrightarrow> fits (table_widths Canonical_tip) [slot, h] \<and> sql_refers Canonical_tip [slot, h] db"
| "sql_allowed (Update_barrier new old) db \<longleftrightarrow> length new = 8"

text \<open>The deferred foreign keys, checked at the \<open>COMMIT\<close>; and all of them, which \<open>PRAGMA foreign_key_check\<close> reports on.\<close>

definition sql_linked :: "sqldb \<Rightarrow> bool" where
  "sql_linked db \<longleftrightarrow> (\<forall>b \<in> set (db Blocks). (\<exists>d \<in> set (db Bodies). d ! 0 = b ! 0) \<and> (\<exists>q \<in> set (db States). q ! 0 = b ! 0 \<and> q ! 1 = b ! 1)) \<and>
     (\<forall>d \<in> set (db Bodies). \<exists>b \<in> set (db Blocks). b ! 0 = d ! 0)"

definition fk_holds :: "sqldb \<Rightarrow> bool" where
  "fk_holds db \<longleftrightarrow> sql_linked db \<and> (\<forall>x \<in> set (db Transactions). \<exists>d \<in> set (db Bodies). d ! 0 = x ! 1) \<and>
     (\<forall>x \<in> set (db Rewards). \<exists>b \<in> set (db Blocks). b ! 0 = x ! 0) \<and>
     (\<forall>x \<in> set (db Canonical_tip). \<exists>q \<in> set (db States). q ! 0 = x ! 0 \<and> q ! 1 = x ! 1)"

section \<open>Digests\<close>

text \<open>The strings whose digests the \<open>UNIQUE\<close> columns of a history hold.\<close>

definition header_preimages :: "genesis \<Rightarrow> c1_record list \<Rightarrow> bytes set" where
  "header_preimages g rs = (\<lambda>h. BLOCK_HEADER_DOMAIN @ header_bytes h) `
     insert (pol_anchor (ge_policy g)) ((\<lambda>r. hc_header (cb_claim (rd_block r))) ` set rs)"

definition envelope_preimages :: "hasher \<Rightarrow> c1_record list \<Rightarrow> bytes set" where
  "envelope_preimages K rs = (\<lambda>r. ENVELOPE_ID_DOMAIN @ c1_envelope_wire_bytes K (rd_envelope r)) ` set rs"

definition no_collision :: "hasher \<Rightarrow> genesis \<Rightarrow> c1_record list \<Rightarrow> bool" where
  "no_collision K g rs \<longleftrightarrow> inj_on K (header_preimages g rs) \<and> inj_on K (envelope_preimages K rs)"

lemma header_bytes_slot: "header_bytes h = header_bytes h' \<Longrightarrow> bh_slot h = bh_slot h'"
proof -
  assume "header_bytes h = header_bytes h'"
  then have "field 8 (header_bytes h) 12 = field 8 (header_bytes h') 12" by simp
  moreover have "field 8 (header_bytes k) 12 = be_bytes (bh_slot k)" for k by (simp add: header_bytes_def field_def)
  ultimately show ?thesis by simp
qed

lemma header_hash_apart:
  assumes "no_collision K g rs" "bh_slot h \<noteq> bh_slot h'"
    and "{h, h'} \<subseteq> insert (pol_anchor (ge_policy g)) ((\<lambda>r. hc_header (cb_claim (rd_block r))) ` set rs)"
  shows "header_hash K h \<noteq> header_hash K h'"
proof
  assume "header_hash K h = header_hash K h'"
  moreover have "BLOCK_HEADER_DOMAIN @ header_bytes h \<in> header_preimages g rs" "BLOCK_HEADER_DOMAIN @ header_bytes h' \<in> header_preimages g rs"
    using assms(3) unfolding header_preimages_def by blast+
  ultimately have "header_bytes h = header_bytes h'"
    using assms(1) by (auto simp: no_collision_def header_hash_def hash_with_domain_def dest: inj_onD)
  with header_bytes_slot assms(2) show False by blast
qed

lemma envelope_id_apart:
  assumes "no_collision K g rs" "digest32 K" "r \<in> set rs" "q \<in> set rs" "rd_envelope r \<noteq> rd_envelope q"
    and "c1_envelope_ok K (rd_envelope r)" "c1_envelope_ok K (rd_envelope q)"
  shows "c1_envelope_id K (rd_envelope r) \<noteq> c1_envelope_id K (rd_envelope q)"
proof
  assume "c1_envelope_id K (rd_envelope r) = c1_envelope_id K (rd_envelope q)"
  then have "c1_envelope_wire_bytes K (rd_envelope r) = c1_envelope_wire_bytes K (rd_envelope q)"
    using assms(1,3,4) by (auto simp: no_collision_def envelope_preimages_def c1_envelope_id_def hash_with_domain_def dest: inj_onD)
  with c1_envelope_canonical [OF assms(2)] assms(5-7) show False by (metis sum.inject(2))
qed

section \<open>The rows of a history\<close>

lemma sorted_wrt_differ: "sorted_wrt (\<lambda>x y. f x \<noteq> f y) xs \<longleftrightarrow> distinct (map f xs)"
  by (induction xs) auto

lemma sorted_wrt_both: "sorted_wrt (\<lambda>x y. P x y \<and> Q x y) xs \<longleftrightarrow> sorted_wrt P xs \<and> sorted_wrt Q xs"
  by (induction xs) auto

lemma distinct_concat_keys:
  assumes "distinct (map slot rs)" "\<And>r q. r \<in> set rs \<Longrightarrow> q \<in> set (f r) \<Longrightarrow> fst (key q) = slot r" "\<And>r. r \<in> set rs \<Longrightarrow> distinct (map key (f r))"
  shows "distinct (map key (concat (map f rs)))"
  using assms
proof (induction rs)
  case (Cons r rs)
  have "key q \<noteq> key p" if "q \<in> set (f r)" "x \<in> set rs" "p \<in> set (f x)" for q p x
  proof
    assume "key q = key p"
    with that Cons.prems(2) have "slot r = slot x" by (metis list.set_intros(1,2))
    with Cons.prems(1) that(2) show False by (auto simp: image_iff)
  qed
  then have "set (map key (f r)) \<inter> set (map key (concat (map f rs))) = {}" by force
  moreover have "distinct (map key (concat (map f rs)))" "distinct (map key (f r))" using Cons by simp_all
  ultimately show ?case by (simp only: list.map concat.simps map_append distinct_append)
qed simp

text \<open>The identifier, the sender and the nonce of the rows are those of the entries.\<close>

lemma transaction_rows_entries:
  "map (\<lambda>q. (q ! 0, q ! 3, q ! 4)) (transaction_rows r) =
     map (\<lambda>(tx, ident, m). (ident, fst (sender_nonce tx), be_bytes (snd (sender_nonce tx)))) (located (rd_position r) 0 (record_entries (rd_block r) (rd_outcome r)))"
proof -
  have "map (\<lambda>q. (q ! 0, q ! 3, q ! 4)) (map (\<lambda>(i, e). transaction_row r i e) (List.enumerate n es)) =
      map (\<lambda>(tx, ident, m). (ident, fst (sender_nonce tx), be_bytes (snd (sender_nonce tx)))) (located p n es)" for n es p
    by (induction es arbitrary: n) (auto simp: transaction_row_def split: prod.splits)
  then show ?thesis by (simp only: transaction_rows_def)
qed

lemma history_entries:
  "map (\<lambda>q. (q ! 0, q ! 3, q ! 4)) (concat (map transaction_rows (sn_records s))) =
     map (\<lambda>(tx, ident, m). (ident, fst (sender_nonce tx), be_bytes (snd (sender_nonce tx)))) (snapshot_entries s)"
  by (simp add: snapshot_entries_def map_concat transaction_rows_entries comp_def)

lemma history_rows_distinct:
  assumes "replayed C (approved_genesis (c_keccak C) l) s" "proposer_id (c_keccak C) trial_A \<noteq> proposer_id (c_keccak C) trial_B"
  defines "rows \<equiv> concat (map transaction_rows (sn_records s))"
  shows "distinct (map (\<lambda>q. q ! 0) rows)" "distinct (map (\<lambda>q. (q ! 3, q ! 4)) rows)" "distinct (map (\<lambda>q. (q ! 1, q ! 2)) rows)"
proof -
  have i: "index_ok (sn_transactions s) (sn_sender_nonces s) (snapshot_entries s)" by (rule replayed_index [OF assms(1)])
  have "map fst (map (\<lambda>q. (q ! 0, q ! 3, q ! 4)) rows) = map (\<lambda>(tx, ident, m). ident) (snapshot_entries s)"
    unfolding rows_def history_entries by (simp add: comp_def case_prod_beta')
  then have "map (\<lambda>q. q ! 0) rows = map (\<lambda>(tx, ident, m). ident) (snapshot_entries s)" by (simp add: comp_def)
  with i show "distinct (map (\<lambda>q. q ! 0) rows)" by (simp add: index_ok_def)
  have "map snd (map (\<lambda>q. (q ! 0, q ! 3, q ! 4)) rows) = map (\<lambda>n. (fst n, be_bytes (snd n))) (map (\<lambda>(tx, ident, m). sender_nonce tx) (snapshot_entries s))"
    unfolding rows_def history_entries by (simp add: comp_def case_prod_beta')
  then have "map (\<lambda>q. (q ! 3, q ! 4)) rows = map (\<lambda>n. (fst n, be_bytes (snd n))) (map (\<lambda>(tx, ident, m). sender_nonce tx) (snapshot_entries s))"
    by (simp only: map_map comp_def snd_conv)
  moreover have "distinct (map (\<lambda>(tx, ident, m). sender_nonce tx) (snapshot_entries s))" using i by (simp add: index_ok_def)
  moreover have "inj_on (\<lambda>n :: address \<times> u64. (fst n, be_bytes (snd n))) A" for A by (auto simp: inj_on_def prod_eq_iff)
  ultimately show "distinct (map (\<lambda>q. (q ! 3, q ! 4)) rows)" by (simp only: distinct_map [of "\<lambda>n. (fst n, be_bytes (snd n))"])
  show "distinct (map (\<lambda>q. (q ! 1, q ! 2)) rows)"
    unfolding rows_def
  proof (rule distinct_concat_keys [OF replayed_positions(2) [OF assms(1)]])
    show "fst (q ! 1, q ! 2) = be_bytes (po_slot (rd_position r))" if "r \<in> set (sn_records s)" "q \<in> set (transaction_rows r)" for r q
      using transaction_rows_body(2) [OF replayed_ids [OF assms(1) that(1)] that(2)] by simp
    show "distinct (map (\<lambda>q. (q ! 1, q ! 2)) (transaction_rows r))" if "r \<in> set (sn_records s)" for r
    proof -
      have "length (cb_transactions (rd_block r)) \<le> 16" using c1_block_okD(3) [OF replayed_block_ok [OF assms(1) that]] .
      then have "length (record_entries (rd_block r) (rd_outcome r)) \<le> 16" by (simp add: record_entries_def)
      from transaction_rows_sorted [OF this] have "distinct (map (row_key Transactions) (map (map Blob) (transaction_rows r)))"
        by (simp add: strict_sorted_iff del: row_key.simps)
      then have "distinct (map (\<lambda>q. [cell_bytes (map Blob q ! 1), cell_bytes (map Blob q ! 2)]) (transaction_rows r))" by (simp add: comp_def)
      moreover have "length q = 6" if "q \<in> set (transaction_rows r)" for q
        using that by (auto simp: transaction_rows_def transaction_row_def split: prod.splits)
      ultimately show ?thesis by (auto simp: distinct_map inj_on_def)
    qed
  qed
qed


text \<open>The position of a record is its slot and the hash of its block.\<close>

lemma history_position:
  assumes "replayed C (approved_genesis (c_keccak C) l) s" "r \<in> set (sn_records s)"
  shows "po_hash (rd_position r) = header_hash (c_keccak C) (hc_header (cb_claim (rd_block r)))"
    "bh_slot (hc_header (cb_claim (rd_block r))) = po_slot (rd_position r)" "po_slot (rd_position r) \<noteq> 0"
proof -
  from assms(2) obtain i where i: "i < length (sn_records s)" "r = sn_records s ! i" by (auto simp: in_set_conv_nth)
  have p: "rd_position r = \<lparr>po_slot = of_nat (Suc i), po_hash = c1_block_hash (c_keccak C) (rd_block r)\<rparr>"
    "bh_slot (hc_header (cb_claim (rd_block r))) = of_nat (Suc i)"
    using replayed_record [OF assms(1) i(1)] i(2) by metis+
  then show "po_hash (rd_position r) = header_hash (c_keccak C) (hc_header (cb_claim (rd_block r)))"
    "bh_slot (hc_header (cb_claim (rd_block r))) = po_slot (rd_position r)"
    by (simp_all add: c1_block_hash_def claim_hash_def)
  have "length (sn_records s) < 2 ^ 64" using replayed_tip [OF assms(1)] unat_bound [of "po_slot (sn_tip s)"] by simp
  with i have "unat (of_nat (Suc i) :: u64) = Suc i" by (intro unat_of_nat_small) simp
  with p show "po_slot (rd_position r) \<noteq> 0" by (metis Zero_neq_Suc position.select_convs(1) unat_0)
qed

lemma genesis_position:
  "state_position (ge_initial (approved_genesis K l)) =
     \<lparr>po_slot = 0, po_hash = header_hash K (pol_anchor (ge_policy (approved_genesis K l)))\<rparr>"
  "bh_slot (pol_anchor (ge_policy (approved_genesis K l))) = 0"
  by (simp_all add: approved_genesis_def sealed_def approved_policy_def approved_snapshot_def initial_snapshot_def anchor_def)

text \<open>No key of a table repeats.\<close>

lemma history_unique:
  assumes rep: "replayed C (approved_genesis (c_keccak C) l) s" and ids: "proposer_id (c_keccak C) trial_A \<noteq> proposer_id (c_keccak C) trial_B"
    and dg: "digest32 (c_keccak C)" and nc: "no_collision (c_keccak C) (approved_genesis (c_keccak C) l) (sn_records s)"
    and t: "t \<in> {Blocks, Bodies, Transactions, Rewards, States}"
  shows "sorted_wrt (sql_apart t) (map (map Blob) (expected_rows (c_keccak C) (approved_genesis (c_keccak C) l) s acc t))"
proof -
  let ?K = "c_keccak C" and ?g = "approved_genesis (c_keccak C) l" and ?rs = "sn_records s"
  have slots: "sorted_wrt (\<lambda>r q. be_bytes (po_slot (rd_position r)) \<noteq> be_bytes (po_slot (rd_position q))) ?rs"
    unfolding sorted_wrt_differ by (rule replayed_positions(2) [OF rep])
  have rc: "rc_slot (last (si_credits (cs_data (rd_state r)))) = po_slot (rd_position r)" if "r \<in> set ?rs" for r
    using replayed_slots_agree [OF rep ids] that by (simp add: slots_agree_def)
  note pos = history_position [OF rep]
  have hash: "header_hash ?K (hc_header (cb_claim (rd_block r))) \<noteq> header_hash ?K (hc_header (cb_claim (rd_block q)))"
    if "r \<in> set ?rs" "q \<in> set ?rs" "po_slot (rd_position r) \<noteq> po_slot (rd_position q)" for r q
    by (rule header_hash_apart [OF nc]) (use that pos in auto)
  have anchor: "header_hash ?K (pol_anchor (ge_policy ?g)) \<noteq> header_hash ?K (hc_header (cb_claim (rd_block r)))" if "r \<in> set ?rs" for r
    by (rule header_hash_apart [OF nc]) (use that pos genesis_position(2) [of ?K l] in auto)
  have env: "c1_envelope_id ?K (rd_envelope r) \<noteq> c1_envelope_id ?K (rd_envelope q)"
    if "r \<in> set ?rs" "q \<in> set ?rs" "po_slot (rd_position r) \<noteq> po_slot (rd_position q)" for r q
  proof (rule envelope_id_apart [OF nc dg that(1,2)])
    show "rd_envelope r \<noteq> rd_envelope q" using that(3) pos(2) [OF that(1)] pos(2) [OF that(2)] by auto
    show "c1_envelope_ok ?K (rd_envelope r)" "c1_envelope_ok ?K (rd_envelope q)" using replayed_records [OF rep] that by blast+
  qed
  consider "t = Blocks" | "t = Bodies" | "t = Rewards" | "t = States" | "t = Transactions" using t by blast
  then show ?thesis
  proof cases
    case 1
    show ?thesis unfolding 1 expected_rows.simps sorted_wrt_map
      by (rule sorted_wrt_mono_rel [OF _ slots])
        (use hash env pos in \<open>simp add: sql_apart_def block_row_def Let_def c1_block_hash_def claim_hash_def\<close>)
  next
    case 2
    show ?thesis unfolding 2 expected_rows.simps sorted_wrt_map
      by (rule sorted_wrt_mono_rel [OF _ slots]) (simp add: sql_apart_def body_row_def)
  next
    case 3
    show ?thesis unfolding 3 expected_rows.simps sorted_wrt_map
      by (rule sorted_wrt_mono_rel [OF _ slots]) (use rc in \<open>simp add: sql_apart_def reward_row_def Let_def\<close>)
  next
    case 4
    have "sorted_wrt (sql_apart States) (map (map Blob) (map (\<lambda>r. state_row (rd_state r)) ?rs))"
      unfolding sorted_wrt_map by (rule sorted_wrt_mono_rel [OF _ slots]) (use hash pos in \<open>simp add: sql_apart_def state_row_def\<close>)
    moreover have "sql_apart States (map Blob (state_row (ge_initial ?g))) (map Blob (state_row (rd_state r)))" if "r \<in> set ?rs" for r
      using anchor [OF that] pos(1,3) [OF that] by (auto simp: sql_apart_def state_row_def genesis_position)
    ultimately show ?thesis unfolding 4 by simp
  next
    case 5
    let ?rows = "concat (map transaction_rows ?rs)"
    note d = history_rows_distinct [OF rep ids, folded sorted_wrt_differ]
    have apart: "sorted_wrt (\<lambda>p q. p ! 0 \<noteq> q ! 0 \<and> (p ! 3, p ! 4) \<noteq> (q ! 3, q ! 4) \<and> (p ! 1, p ! 2) \<noteq> (q ! 1, q ! 2)) ?rows"
      unfolding sorted_wrt_both using d by blast
    have len: "length q = 6" if "q \<in> set ?rows" for q
      using that by (auto simp: transaction_rows_def transaction_row_def split: prod.splits)
    show ?thesis unfolding 5 expected_rows.simps sorted_wrt_map
    proof (rule sorted_wrt_mono_rel [OF _ apart])
      fix p q assume "p \<in> set ?rows" "q \<in> set ?rows"
      then have "length p = 6" "length q = 6" by (simp_all only: len)
      moreover assume "p ! 0 \<noteq> q ! 0 \<and> (p ! 3, p ! 4) \<noteq> (q ! 3, q ! 4) \<and> (p ! 1, p ! 2) \<noteq> (q ! 1, q ! 2)"
      ultimately show "sql_apart Transactions (map Blob p) (map Blob q)" by (simp add: sql_apart_def)
    qed
  qed
qed

text \<open>Every reference has its target.\<close>

lemma stored_references:
  assumes rep: "replayed C (approved_genesis (c_keccak C) l) s" and ids: "proposer_id (c_keccak C) trial_A \<noteq> proposer_id (c_keccak C) trial_B"
    and st: "stored (c_keccak C) (approved_genesis (c_keccak C) l) s db"
  shows "fk_holds db"
proof -
  let ?K = "c_keccak C" and ?g = "approved_genesis (c_keccak C) l" and ?rs = "sn_records s"
  from st obtain acc where tabs: "\<And>t. t \<noteq> Metadata \<Longrightarrow> db t = map (map Blob) (expected_rows ?K ?g s acc t)" by (auto simp: stored_def)
  note pos = history_position [OF rep]
  have rc: "rc_slot (last (si_credits (cs_data (rd_state r)))) = po_slot (rd_position r)" if "r \<in> set ?rs" for r
    using replayed_slots_agree [OF rep ids] that by (simp add: slots_agree_def)
  have tip: "sn_tip s \<in> insert (state_position (ge_initial ?g)) (rd_position ` set ?rs)"
    using rep by cases (auto simp: snapshot_initial_def sn_tip_def elim!: replay_step_Inr snapshot_insert_Inr)
  have "\<exists>q \<in> set (db States). q ! 0 = Blob (be_bytes (po_slot (sn_tip s))) \<and> q ! 1 = Blob (po_hash (sn_tip s))"
    using tip by (auto simp: tabs state_row_def)
  moreover have "sql_linked db"
    using pos by (fastforce simp: sql_linked_def tabs block_row_def body_row_def state_row_def Let_def c1_block_hash_def claim_hash_def)
  moreover have "\<exists>d \<in> set (db Bodies). d ! 0 = x ! 1" if "x \<in> set (db Transactions)" for x
  proof -
    from that obtain r row where r: "r \<in> set ?rs" "row \<in> set (transaction_rows r)" "x = map Blob row" by (auto simp: tabs)
    have "length row = 6" using r(2) by (auto simp: transaction_rows_def transaction_row_def split: prod.splits)
    with transaction_rows_body(2) [OF replayed_ids [OF rep r(1)] r(2)] r(1,3) show ?thesis
      by (auto simp: tabs body_row_def intro!: bexI [of _ r])
  qed
  moreover have "\<exists>b \<in> set (db Blocks). b ! 0 = x ! 0" if "x \<in> set (db Rewards)" for x
    using that pos rc by (fastforce simp: tabs reward_row_def block_row_def Let_def)
  ultimately show ?thesis unfolding fk_holds_def by (simp add: tabs)
qed


section \<open>The rows of a new block\<close>

fun new_rows :: "hasher \<Rightarrow> c1_record \<Rightarrow> sql_table \<Rightarrow> bytes list list" where
  "new_rows K r Blocks = [block_row K r]"
| "new_rows K r Bodies = [body_row r]"
| "new_rows K r Transactions = transaction_rows r"
| "new_rows K r Rewards = [reward_row r]"
| "new_rows K r States = [state_row (rd_state r)]"
| "new_rows K r _ = []"

text \<open>They have the declared widths, and repeat no key of the stored rows or of one another.\<close>

lemma new_rows_allowed:
  assumes st: "stored (c_keccak C) (approved_genesis (c_keccak C) l) s db" and rep: "replayed C (approved_genesis (c_keccak C) l) s'"
    and ids: "proposer_id (c_keccak C) trial_A \<noteq> proposer_id (c_keccak C) trial_B" and dg: "digest32 (c_keccak C)"
    and nc: "no_collision (c_keccak C) (approved_genesis (c_keccak C) l) (sn_records s')" and rs: "sn_records s' = sn_records s @ [r]"
    and t: "t \<in> {Blocks, Bodies, Transactions, Rewards, States}"
  shows "\<forall>row \<in> set (new_rows (c_keccak C) r t). fits (table_widths t) row"
    "\<forall>q \<in> set (db t). \<forall>row \<in> set (new_rows (c_keccak C) r t). sql_apart t q (map Blob row)"
    "sorted_wrt (sql_apart t) (map (map Blob) (new_rows (c_keccak C) r t))"
proof -
  let ?K = "c_keccak C" and ?g = "approved_genesis (c_keccak C) l"
  have rows: "expected_rows ?K ?g s' acc t = expected_rows ?K ?g s acc t @ new_rows ?K r t" for acc using t by (auto simp: rs)
  have db: "db t = map (map Blob) (expected_rows ?K ?g s [] t)" using st t by (fastforce simp: stored_def)
  have "sorted_wrt (sql_apart t) (db t @ map (map Blob) (new_rows ?K r t))"
    using history_unique [OF rep ids dg nc t, of "[]"] by (simp only: rows db map_append)
  then show "\<forall>q \<in> set (db t). \<forall>row \<in> set (new_rows ?K r t). sql_apart t q (map Blob row)"
    "sorted_wrt (sql_apart t) (map (map Blob) (new_rows ?K r t))" by (auto simp: sorted_wrt_append)
  have "r \<in> set (sn_records s')" by (simp add: rs)
  from record_fits [OF rep ids dg this] t show "\<forall>row \<in> set (new_rows ?K r t). fits (table_widths t) row"
    by (auto simp del: table_widths.simps)
qed

end
