(* ===== verification/Poash_Durability.thy ===== *)
theory Poash_Durability
  imports Poash_Schema
begin

text \<open>
  Runs of a durable owner: any interleaving of receiving, preparing, sealing, committing and recovering, over a
  disk that may fail at any call. The invariant ties the owner's memory to the durable content at
  every step; the properties of storage are its consequences. \<open>mem_disk\<close> is a concrete disk
  that enforces the constraints of the schema, with a fault switch on \<open>COMMIT\<close>; it satisfies the interfaces and serves
  the witnesses.
\<close>

section \<open>A concrete disk\<close>

record mem =
  mm_durable :: sqldb
  mm_schema :: "((string \<times> string) \<times> string) list"        \<comment> \<open>the declared objects, durable\<close>
  mm_open :: "sqldb option"
  mm_declared :: "((string \<times> string) \<times> string) list"      \<comment> \<open>the declared objects, as the open transaction sees them\<close>
  mm_fault :: "bool option"        \<comment> \<open>the next \<open>COMMIT\<close> after the first reports an error, having or not having taken effect\<close>

definition mem_content :: "mem \<Rightarrow> sqldb" where
  "mem_content w = (case mm_open w of None \<Rightarrow> mm_durable w | Some db \<Rightarrow> db)"

definition mem_objects :: "mem \<Rightarrow> ((string \<times> string) \<times> string) list" where
  "mem_objects w = (if mm_open w = None then mm_schema w else mm_declared w)"

text \<open>A declaration is its name; what it declares.\<close>

definition mem_ddl :: "string \<Rightarrow> string" where "mem_ddl n = n"

definition mem_declares :: "string \<Rightarrow> (string \<times> string) \<times> string" where
  "mem_declares d = ((if d \<in> set TABLES then ''table'' else ''trigger'', d), d)"

fun mem_write :: "sql_write \<Rightarrow> mem \<Rightarrow> nat option \<times> mem" where
  "mem_write (Execute d) w = (case mm_open w of None \<Rightarrow> (None, w)
     | Some _ \<Rightarrow> (Some 1, w\<lparr>mm_declared := mm_declared w @ [mem_declares d]\<rparr>))"
| "mem_write st w = (case mm_open w of None \<Rightarrow> (None, w)
     | Some db \<Rightarrow> if sql_allowed st db then (Some (affected st db), w\<lparr>mm_open := Some (apply_write st db)\<rparr>) else (None, w))"

definition mem_disk :: "mem disk" where
  "mem_disk = \<lparr>
     sq_schema_present = (\<lambda>w. Some ((''table'', ''metadata'') \<in> fst ` set (mem_objects w))), sq_schema_rows = (\<lambda>w. Some (mem_objects w)),
     sq_integrity = (\<lambda>_. Some ''ok''), sq_foreign_key_violation = (\<lambda>w. Some (\<not> fk_holds (mem_content w))),
     sq_count_metadata = (\<lambda>w. Some (int (length (mem_content w Metadata)))),
     sq_select = (\<lambda>t w. Some (map Some (mem_content w t))),
     sq_write = mem_write,
     sq_begin = (\<lambda>_ w. case mm_open w of None \<Rightarrow> (Some (), w\<lparr>mm_open := Some (mm_durable w), mm_declared := mm_schema w\<rparr>) | Some _ \<Rightarrow> (None, w)),
     sq_commit = (\<lambda>w. case mm_open w of None \<Rightarrow> (None, w)
       | Some db \<Rightarrow> if \<not> sql_linked db then (None, w)
           else (case (if mm_durable w Metadata = [] then None else mm_fault w) of
           None \<Rightarrow> (Some (), w\<lparr>mm_durable := db, mm_schema := mm_declared w, mm_open := None\<rparr>)
         | Some applied \<Rightarrow> (None, w\<lparr>mm_durable := (if applied then db else mm_durable w),
             mm_schema := (if applied then mm_declared w else mm_schema w), mm_open := None, mm_fault := None\<rparr>))),
     sq_rollback = (\<lambda>w. (Some (), w\<lparr>mm_open := None\<rparr>)),
     sq_autocommit = (\<lambda>w. mm_open w = None),
     dk_ddl = mem_ddl,
     dk_create_new = (\<lambda>w. (Created, w)),
     dk_exists = (\<lambda>_. Some True),
     dk_open = (\<lambda>w. (Some (), w\<lparr>mm_open := None\<rparr>)),
     dk_close = (\<lambda>w. w\<lparr>mm_open := None\<rparr>),
     dk_busy_timeout = (\<lambda>w. (Some (), w)),
     dk_set_pragmas = (\<lambda>w. (Some (), w)),
     dk_pragmas = (\<lambda>_. \<lparr>pg_journal_mode = Some ''delete'', pg_synchronous = Some 3, pg_foreign_keys = Some 1,
       pg_page_size = Some 4096, pg_cache_size = Some (-2000), pg_cache_spill = Some 1\<rparr>),
     dk_sync_path = (\<lambda>w. (Some (), w))\<rparr>"

lemma mem_write_effect:
  assumes "mm_open w \<noteq> None" "mem_write st w = (changed, w')"
  shows "mm_durable w' = mm_durable w \<and> mm_schema w' = mm_schema w \<and> mm_fault w' = mm_fault w \<and> (\<forall>n. changed = Some n \<longrightarrow>
     mm_open w' \<noteq> None \<and> mem_content w' = apply_write st (mem_content w) \<and> n = affected st (mem_content w))"
proof -
  have 1: "affected (Execute d) db = 1" for d db by simp
  show ?thesis using assms
    by (cases st) (auto simp: mem_content_def 1 simp del: apply_write.simps(2-) affected.simps sql_allowed.simps split: if_splits)
qed

interpretation mem: sqlite_engine mem_disk mem_content mm_durable
proof
  show "mm_durable w' = mm_durable w \<and> (\<forall>n. changed = Some n \<longrightarrow> \<not> sq_autocommit mem_disk w' \<and> mem_content w' = apply_write st (mem_content w) \<and>
      n = affected st (mem_content w))" if "\<not> sq_autocommit mem_disk w" "sq_write mem_disk st w = (changed, w')" for w st changed w'
    using mem_write_effect [of w st changed w'] that by (simp add: mem_disk_def)
qed (auto simp: mem_disk_def mem_content_def split: option.splits prod.splits if_splits)

section \<open>Runs\<close>

record 'w store =
  so_owner :: owner
  so_counter :: u64
  so_disk :: 'w
  so_prepared :: "prepared_block set"
  so_staged :: "staged_block set"

inductive store_step :: "'k crypto \<Rightarrow> 'w disk \<Rightarrow> 'w store \<Rightarrow> 'w store \<Rightarrow> bool" for C D where
  step_prepare: "prepare_next C (so_owner x) producer ticket body = Inr pb \<Longrightarrow>
     store_step C D x (x\<lparr>so_prepared := insert pb (so_prepared x)\<rparr>)"
| step_seal: "pb \<in> so_prepared x \<Longrightarrow> seal_prepared C (so_owner x) pb bs = (r, ow') \<Longrightarrow>
     store_step C D x (x\<lparr>so_owner := ow', so_staged := (case r of Inl _ \<Rightarrow> so_staged x | Inr sg \<Rightarrow> insert sg (so_staged x))\<rparr>)"
| step_receive: "stage_received C (so_owner x) bs = (r, ow') \<Longrightarrow>
     store_step C D x (x\<lparr>so_owner := ow', so_staged := (case r of Inl _ \<Rightarrow> so_staged x | Inr sg \<Rightarrow> insert sg (so_staged x))\<rparr>)"
| step_commit: "sg \<in> so_staged x \<Longrightarrow> commit (c_keccak C) D (so_owner x) sg (so_disk x) = (out, ow', w') \<Longrightarrow>
     store_step C D x (x\<lparr>so_owner := ow', so_disk := w'\<rparr>)"
| step_recover: "recover C D (so_owner x) (so_counter x) (so_disk x) = (r, ow', counter', w') \<Longrightarrow>
     store_step C D x (x\<lparr>so_owner := ow', so_counter := counter', so_disk := w'\<rparr>)"

inductive store_run :: "'k crypto \<Rightarrow> 'w disk \<Rightarrow> 'w store \<Rightarrow> 'w store \<Rightarrow> bool" for C D x where
  run_start: "store_run C D x x"
| run_step: "store_run C D x y \<Longrightarrow> store_step C D y z \<Longrightarrow> store_run C D x z"

text \<open>What is on disk when the owner holds an unresolved attempt.\<close>

definition attempt_ok :: "'k crypto \<Rightarrow> genesis \<Rightarrow> c1_snapshot \<Rightarrow> attempt \<Rightarrow> sqldb \<Rightarrow> bool" where
  "attempt_ok C g s a db \<longleftrightarrow> ba_snapshot (tr_base a) = s \<and>
     (\<exists>s'. snapshot_insert (c_keccak C) (tr_record a) s = Inr s' \<and> replayed C g s' \<and>
        (stored (c_keccak C) g s db \<or> stored (c_keccak C) g s' db))"

definition store_ok :: "'k crypto \<Rightarrow> 'w disk \<Rightarrow> ('w \<Rightarrow> sqldb) \<Rightarrow> genesis \<Rightarrow> 'w store \<Rightarrow> bool" where
  "store_ok C D durable g x \<longleftrightarrow>
     (let ow = so_owner x; s = ow_snapshot ow; db = durable (so_disk x) in
      ow_genesis ow = g \<and> replayed C g s \<and>
      (\<not> ow_poisoned ow \<longrightarrow> sq_autocommit D (so_disk x) \<and> ow_attempt ow = None) \<and>
      (ow_attempt ow = None \<longrightarrow> stored (c_keccak C) g s db) \<and> (\<forall>a. ow_attempt ow = Some a \<longrightarrow> attempt_ok C g s a db) \<and>
      (\<forall>pb \<in> so_prepared x. \<exists>ow0 producer ticket body. prepare_next C ow0 producer ticket body = Inr pb) \<and>
      (\<forall>sg \<in> so_staged x. \<exists>ow0. stage_ok C ow0 sg))"

lemma stage_ok_base:
  assumes "stage_ok C ow0 sg" "sg_base sg = owner_base ow"
  shows "stage_ok C ow sg"
  using assms by (auto simp: stage_ok_def owner_base_def)

lemma admit_owner: "admit K ow pf = (r, ow') \<Longrightarrow> ow' = ow \<or> ow' = ow\<lparr>ow_halted := True\<rparr>"
  by (auto simp: admit_def Let_def split: sum.splits option.splits if_splits)

lemma seal_owner: "seal_prepared C ow pb bs = (r, ow') \<Longrightarrow> ow' = ow \<or> ow' = ow\<lparr>ow_halted := True\<rparr>"
  by (auto simp: seal_prepared_def Let_def split: sum.splits prod.splits dest!: admit_owner)

lemma receive_owner: "stage_received C ow bs = (r, ow') \<Longrightarrow> ow' = ow \<or> ow' = ow\<lparr>ow_halted := True\<rparr>"
  by (auto simp: stage_received_def Let_def split: sum.splits prod.splits dest!: admit_owner)

text \<open>What the invariant says of a commit that passes the base check.\<close>

lemma staged_ready:
  assumes ok: "store_ok C D durable (approved_genesis (c_keccak C) l) x"
    and ids: "proposer_id (c_keccak C) trial_A \<noteq> proposer_id (c_keccak C) trial_B"
    and sg: "sg \<in> so_staged x" and cb: "check_base (so_owner x) (sg_base sg) = Inr ()"
  obtains s' where "\<not> ow_poisoned (so_owner x)" "ow_genesis (so_owner x) = approved_genesis (c_keccak C) l"
    "replayed C (approved_genesis (c_keccak C) l) (ow_snapshot (so_owner x))" "sq_autocommit D (so_disk x)"
    "stored (c_keccak C) (approved_genesis (c_keccak C) l) (ow_snapshot (so_owner x)) (durable (so_disk x))"
    "sg_base sg = owner_base (so_owner x)" "snapshot_insert (c_keccak C) (sg_record sg) (ow_snapshot (so_owner x)) = Inr s'"
    "replayed C (approved_genesis (c_keccak C) l) s'" "sn_records s' = sn_records (ow_snapshot (so_owner x)) @ [sg_record sg]"
    "\<forall>db acc. stored (c_keccak C) (approved_genesis (c_keccak C) l) (ow_snapshot (so_owner x)) db \<longrightarrow>
       accounting_row (rd_state (sg_record sg)) = Inr acc \<longrightarrow>
       stored (c_keccak C) (approved_genesis (c_keccak C) l) s' (committed_db (c_keccak C) (sg_record sg) (sn_tip (ow_snapshot (so_owner x))) acc db)"
proof -
  let ?K = "c_keccak C" and ?g = "approved_genesis (c_keccak C) l" and ?ow = "so_owner x" and ?s = "ow_snapshot (so_owner x)"
  note base = check_base_Inr [OF cb]
  have p: "\<not> ow_poisoned ?ow" using base(2) by (auto simp: work_ready_def owner_ready_def try_res_Inr_iff split: if_splits)
  with ok have s: "ow_genesis ?ow = ?g" "replayed C ?g ?s" "sq_autocommit D (so_disk x)" "stored ?K ?g ?s (durable (so_disk x))"
    by (auto simp: store_ok_def Let_def)
  from ok sg obtain ow0 where "stage_ok C ow0 sg" unfolding store_ok_def Let_def by blast
  then have st: "stage_ok C ?ow sg" using base(1) by (auto intro: stage_ok_base)
  then obtain s' where i: "snapshot_insert ?K (sg_record sg) ?s = Inr s'"
    and r: "c1_envelope_ok ?K (rd_envelope (sg_record sg))" "replay_step C ?g (rd_envelope (sg_record sg)) ?s = Inr s'"
    by (auto simp: stage_ok_def s(1))
  have rs: "sn_records s' = sn_records ?s @ [sg_record sg]" using i by (auto elim: snapshot_insert_Inr)
  show thesis
    by (rule that [OF p s base(1) i replay_append [OF s(2) r] rs]) (use stored_next [OF _ _ replayed_successor [OF s(2) ids r i]] in blast)
qed

section \<open>The invariant\<close>

abbreviation history :: "'w store \<Rightarrow> c1_record list" where
  "history x \<equiv> sn_records (ow_snapshot (so_owner x))"

context sqlite_engine
begin

lemma commit_keeps:
  assumes ok: "store_ok C D durable (approved_genesis (c_keccak C) l) x"
    and ids: "proposer_id (c_keccak C) trial_A \<noteq> proposer_id (c_keccak C) trial_B"
    and sg: "sg \<in> so_staged x" and run: "commit (c_keccak C) D (so_owner x) sg (so_disk x) = (out, ow', w')"
  shows "store_ok C D durable (approved_genesis (c_keccak C) l) (x\<lparr>so_owner := ow', so_disk := w'\<rparr>) \<and>
     (\<exists>more. sn_records (ow_snapshot ow') = history x @ more)"
proof (cases "check_base (so_owner x) (sg_base sg)")
  case (Inl e)
  with run ok show ?thesis by (simp add: commit_def store_ok_def)
next
  case (Inr u)
  let ?K = "c_keccak C" and ?g = "approved_genesis (c_keccak C) l" and ?ow = "so_owner x" and ?s = "ow_snapshot (so_owner x)"
  from Inr have cb: "check_base ?ow (sg_base sg) = Inr ()" by simp
  obtain s' where s: "ow_genesis ?ow = ?g" "replayed C ?g ?s"
    "sq_autocommit D (so_disk x)" "\<not> ow_poisoned ?ow" "stored ?K ?g ?s (durable (so_disk x))"
    and base: "sg_base sg = owner_base ?ow" and i: "snapshot_insert ?K (sg_record sg) ?s = Inr s'" and rep': "replayed C ?g s'"
    and rs: "sn_records s' = history x @ [sg_record sg]"
    and nxt: "\<forall>db acc. stored ?K ?g ?s db \<longrightarrow> accounting_row (rd_state (sg_record sg)) = Inr acc \<longrightarrow>
       stored ?K ?g s' (committed_db ?K (sg_record sg) (sn_tip ?s) acc db)"
    by (rule staged_ready [OF ok ids sg cb])
  have "ba_snapshot (sg_base sg) = ?s" using base by (simp add: owner_base_def)
  moreover from commit_cases [OF s(3) base i _ run] nxt s(1) have
    "case out of
     Committed p ident outcome \<Rightarrow> stored ?K ?g s' (durable w') \<and> ow' = ?ow\<lparr>ow_snapshot := s', ow_attempt := None\<rparr> \<and> sq_autocommit D w'
   | Aborted e \<Rightarrow> durable w' = durable (so_disk x) \<and> sq_autocommit D w' \<and>
       (ow' = ?ow \<or> ow' = ?ow\<lparr>ow_attempt := None\<rparr> \<or> ow' = ?ow\<lparr>ow_attempt := None, ow_poisoned := True\<rparr>)
   | RecoveryRequired e \<Rightarrow> ow' = ?ow\<lparr>ow_attempt := Some \<lparr>tr_base = sg_base sg, tr_record = sg_record sg\<rparr>, ow_poisoned := True\<rparr> \<and>
       (durable w' = durable (so_disk x) \<or> stored ?K ?g s' (durable w'))"
    by (cases out) auto
  ultimately show ?thesis
    using ok s i rep' rs by (cases out) (auto simp: store_ok_def Let_def attempt_ok_def)
qed

lemma recover_keeps:
  assumes ok: "store_ok C D durable (approved_genesis (c_keccak C) l) x" and dg: "digest32 (c_keccak C)"
    and run: "recover C D (so_owner x) (so_counter x) (so_disk x) = (r, ow', counter', w')"
  shows "store_ok C D durable (approved_genesis (c_keccak C) l) (x\<lparr>so_owner := ow', so_counter := counter', so_disk := w'\<rparr>) \<and>
     (\<exists>more. sn_records (ow_snapshot ow') = history x @ more)"
proof -
  let ?K = "c_keccak C" and ?g = "approved_genesis (c_keccak C) l" and ?ow = "so_owner x" and ?s = "ow_snapshot (so_owner x)"
  let ?db = "durable (so_disk x)"
  have s: "ow_genesis ?ow = ?g" "replayed C ?g ?s"
    and at: "ow_attempt ?ow = None \<longrightarrow> stored ?K ?g ?s ?db" "\<forall>a. ow_attempt ?ow = Some a \<longrightarrow> attempt_ok C ?g ?s a ?db"
    using ok by (simp_all add: store_ok_def Let_def)
  note same = stored_same [where C = C and g = ?g and l = l and db = ?db, OF _ _ refl]
  note rs = recover_sound [OF run, unfolded s(1), OF approved_network [OF dg]]
  show ?thesis
  proof (cases r)
    case (Inl e)
    with rs have p: "ow_poisoned ow'" "ow_snapshot ow' = ?s" "ow_attempt ow' = ow_attempt ?ow" "ow_genesis ow' = ?g"
      and d: "durable w' = ?db \<or> (\<exists>s0. replayed C ?g s0 \<and> stored ?K ?g s0 ?db \<and> stored ?K ?g s0 (durable w'))"
      by simp_all
    have keep: "stored ?K ?g t (durable w')" if "stored ?K ?g t ?db" "replayed C ?g t" for t
      using d same that by metis
    have "ow_attempt ow' = None \<longrightarrow> stored ?K ?g ?s (durable w')" "\<forall>a. ow_attempt ow' = Some a \<longrightarrow> attempt_ok C ?g ?s a (durable w')"
      using at keep s(2) p(3) by (auto simp: attempt_ok_def)
    with ok p s show ?thesis by (simp add: store_ok_def Let_def)
  next
    case (Inr rep)
    with rs obtain s0 where o: "ow' = ?ow\<lparr>ow_generation := so_counter x, ow_connected := True, ow_snapshot := s0, ow_attempt := None, ow_poisoned := False\<rparr>"
      and s0: "replayed C ?g s0" "stored ?K ?g s0 ?db" "stored ?K ?g s0 (durable w')" "sq_autocommit D w'" by auto
    have "\<exists>more. sn_records s0 = sn_records ?s @ more"
    proof (cases "ow_attempt ?ow")
      case None
      with at have "s0 = ?s" using same [OF s0(2) _ s0(1) s(2)] by simp
      then show ?thesis by simp
    next
      case (Some a)
      with at obtain s' where i: "snapshot_insert ?K (tr_record a) ?s = Inr s'" "replayed C ?g s'"
        and two: "stored ?K ?g ?s ?db \<or> stored ?K ?g s' ?db" by (auto simp: attempt_ok_def)
      from two have "s0 = ?s \<or> s0 = s'" using same [OF s0(2) _ s0(1)] s(2) i(2) by blast
      with i(1) show ?thesis by (auto elim!: snapshot_insert_Inr)
    qed
    with ok o s s0 show ?thesis by (simp add: store_ok_def Let_def)
  qed
qed

lemma step_keeps:
  assumes "store_step C D x y" and ok: "store_ok C D durable (approved_genesis (c_keccak C) l) x"
    and ids: "proposer_id (c_keccak C) trial_A \<noteq> proposer_id (c_keccak C) trial_B" and dg: "digest32 (c_keccak C)"
  shows "store_ok C D durable (approved_genesis (c_keccak C) l) y \<and> (\<exists>more. history y = history x @ more)"
  using assms(1)
proof cases
  case (step_prepare producer ticket body pb)
  with ok show ?thesis by (auto simp: store_ok_def Let_def)
next
  case (step_seal pb bs r ow')
  have "\<exists>ow0. stage_ok C ow0 sg" if "r = Inr sg" for sg
    using ok step_seal(2) step_seal(3) that by (auto simp: store_ok_def Let_def dest!: seal_prepared_replays)
  with ok seal_owner [OF step_seal(3)] show ?thesis
    unfolding step_seal(1) by (auto simp: store_ok_def Let_def split: sum.splits)
next
  case (step_receive bs r ow')
  have "\<exists>ow0. stage_ok C ow0 sg" if "r = Inr sg" for sg
    using step_receive(2) that by (auto dest!: stage_received_replays)
  with ok receive_owner [OF step_receive(2)] show ?thesis
    unfolding step_receive(1) by (auto simp: store_ok_def Let_def split: sum.splits)
next
  case (step_commit sg out ow' w')
  with commit_keeps [OF ok ids step_commit(2,3)] show ?thesis by simp
next
  case (step_recover r ow' counter' w')
  with recover_keeps [OF ok dg step_recover(2)] show ?thesis by simp
qed

lemma run_keeps:
  assumes "store_run C D x y" and ok: "store_ok C D durable (approved_genesis (c_keccak C) l) x"
    and ids: "proposer_id (c_keccak C) trial_A \<noteq> proposer_id (c_keccak C) trial_B" and dg: "digest32 (c_keccak C)"
  shows "store_ok C D durable (approved_genesis (c_keccak C) l) y \<and> (\<exists>more. history y = history x @ more)"
  using assms(1)
proof induction
  case run_start
  with ok show ?case by simp
next
  case (run_step y z)
  from run_step.IH have y: "store_ok C D durable (approved_genesis (c_keccak C) l) y" "\<exists>more. history y = history x @ more" by blast+
  from step_keeps [OF run_step.hyps(2) y(1) ids dg] y(2) show ?case by auto
qed

end

section \<open>Creation\<close>

definition initial_db :: "hasher \<Rightarrow> genesis \<Rightarrow> bytes list \<Rightarrow> sqldb \<Rightarrow> sqldb" where
  "initial_db K g acc db =
     apply_write Set_initialized
      (apply_write (Insert Canonical_tip [be_bytes (0 :: u64), header_hash K (pol_anchor (ge_policy g))])
      (apply_write (Insert States (state_row (ge_initial g)))
      (apply_write (Upsert Accounting acc)
      (foldl (\<lambda>db row. apply_write (Upsert Accounts row) db)
      (apply_write (Insert Year_zero [year_bytes])
      (apply_write (Insert_metadata sql_mode (ge_bytes g) (be_bytes (0 :: u64)) (be_bytes (0 :: u64))) db))
        (map account_row (si_accounts (cs_data (ge_initial g))))))))"

lemma stored_initial:
  assumes acc: "accounting_row (ge_initial (approved_genesis K l)) = Inr acc"
  shows "stored K (approved_genesis K l) (snapshot_initial (approved_genesis K l)) (initial_db K (approved_genesis K l) acc (\<lambda>_. []))"
proof -
  let ?g = "approved_genesis K l"
  have srt: "sorted_wrt (<) (map pa_address (si_accounts (cs_data (ge_initial ?g))))"
    by (rule chain_state_sorted [OF initial_chain_state])
  have accounts: "foldl (\<lambda>xs r. put_row (row_key Accounts) r xs) [] (map (map Blob) (map account_row (si_accounts (cs_data (ge_initial ?g))))) =
      map (map Blob) (map account_row (si_accounts (cs_data (ge_initial ?g))))"
    using srt by (intro put_all_rows) (auto simp: account_row_def sorted_wrt_map)
  have "initial_db K ?g acc (\<lambda>_. []) t = map (map Blob) (expected_rows K ?g (snapshot_initial ?g) acc t)" if "t \<noteq> Metadata" for t
    unfolding initial_db_def upsert_all using that
    by (cases t) (simp_all add: accounts snapshot_initial_def sn_tip_def genesis_position del: row_key.simps map_map)
  moreover have "initial_db K ?g acc (\<lambda>_. []) Metadata =
      [[Blob sql_version, Text sql_mode, Blob (ge_bytes ?g), Blob (be_bytes (0 :: u64)), Blob (be_bytes (0 :: u64)), Integer 1]]"
    unfolding initial_db_def upsert_all by simp
  ultimately show ?thesis
    using acc by (auto simp: stored_def snapshot_initial_def sn_tip_def genesis_position intro!: exI [of _ acc] exI [of _ "be_bytes (0 :: u64)"])
qed

context sqlite_engine
begin

lemma tx_schema:
  "\<not> sq_autocommit D w \<Longrightarrow> tx (exec_all (sql_of D) (map Execute ds) w) w (\<lambda>_ db db'. db' = db)"
proof (induction ds arbitrary: w)
  case (Cons d ds)
  show ?case unfolding list.map exec_all.simps
    by (rule does_mono [OF does_then [OF tx_exec [OF Cons.prems] Cons.IH]]) auto
qed (simp add: does_def)

lemma tx_initialize:
  assumes "\<not> sq_autocommit D w"
  shows "tx (sql_initialize (sql_of D) ddl K g w) w
     (\<lambda>_ db db'. \<exists>acc. accounting_row (ge_initial g) = Inr acc \<and> db' = initial_db K g acc db)"
proof -
  have sch: "map (\<lambda>n. Execute (ddl n)) ns = map Execute (map ddl ns)" for ns by simp
  show ?thesis
    unfolding sql_initialize_def initial_db_def sch
    by (rule does_mono [OF does_then [OF tx_schema [OF assms] does_then [OF tx_exec does_then [OF tx_insert does_then [OF tx_accounts
            does_then [OF tx_accounting does_then [OF tx_insert does_then [OF tx_insert does_then [OF tx_exec does_pure]]]]]]]]])
      (auto simp del: apply_write.simps)
qed

lemma create_ok:
  assumes new: "dk_create_new D w = (Created, w0)" "durable w0 = (\<lambda>_. [])"
    and run: "create_inner (c_keccak C) D (approved_genesis (c_keccak C) l) counter w = (Inr ow, counter', w')"
  shows "store_ok C D durable (approved_genesis (c_keccak C) l)
     \<lparr>so_owner = ow, so_counter = counter', so_disk = w', so_prepared = {}, so_staged = {}\<rparr>"
    and "sn_records (ow_snapshot ow) = [] \<and> \<not> ow_poisoned ow"
proof -
  let ?K = "c_keccak C" and ?g = "approved_genesis (c_keccak C) l"
  have op: "durable w2 = durable w1 \<and> (\<forall>u. r = Inr u \<longrightarrow> sq_autocommit D w2)" if "disk_open D w1 = (r, w2)" for w1 r w2
    using that open_effect by (auto simp: disk_open_def disk_call_def split: option.splits bool.splits prod.splits)
  have bu: "durable w2 = durable w1 \<and> sq_autocommit D w2 = sq_autocommit D w1" if "dk_busy_timeout D w1 = (r, w2)" for w1 r w2
    using settings_effect [of w1 r w2] that by blast
  have pr: "durable w2 = durable w1 \<and> sq_autocommit D w2 = sq_autocommit D w1" if "dk_set_pragmas D w1 = (r, w2)" for w1 r w2
    using settings_effect [of w1 r w2] that by blast
  have cf: "durable w2 = durable w1 \<and> sq_autocommit D w2 = sq_autocommit D w1" if "sql_configure D w1 = (r, w2)" for w1 r w2
    using that by (auto simp: sql_configure_def disk_configure_def disk_call_def then_do_def
        split: sum.splits prod.splits option.splits dest!: bu pr)
  from run new(1) obtain w1 w2 w3 w4 w5 where 1: "disk_open D w0 = (Inr (), w1)" "sql_configure D w1 = (Inr (), w2)"
    "sq_begin D True w2 = (Some (), w3)" and 2: "sql_initialize (sql_of D) (dk_ddl D) ?K ?g w3 = (Inr (), w4)"
    and 3: "sq_commit D w4 = (Some (), w5)" "dk_sync_path D w5 = (Some (), w')"
    and o: "new_owner ?g (snapshot_initial ?g) counter = (Inr ow, counter')"
    by (auto simp: create_inner_def then_do_def disk_call_def Let_def split: created.splits prod.splits sum.splits option.splits if_splits)
  have "durable w2 = (\<lambda>_. [])" "sq_autocommit D w2" using op [OF 1(1)] cf [OF 1(2)] new(2) by auto
  then have w3: "\<not> sq_autocommit D w3" "content w3 = (\<lambda>_. [])" using begin_effect [OF _ 1(3)] by auto
  from tx_initialize [OF w3(1), of "dk_ddl D" ?K ?g] 2 w3 obtain acc where
    "accounting_row (ge_initial ?g) = Inr acc" "content w4 = initial_db ?K ?g acc (\<lambda>_. [])" "\<not> sq_autocommit D w4"
    by (auto simp: does_def)
  then have "stored ?K ?g (snapshot_initial ?g) (durable w5)" "sq_autocommit D w5"
    using stored_initial commit_effect [OF _ 3(1)] by auto
  then have "stored ?K ?g (snapshot_initial ?g) (durable w')" "sq_autocommit D w'"
    using settings_effect [of w5 "Some ()" w'] 3(2) by auto
  moreover have ow: "ow_snapshot ow = snapshot_initial ?g" "ow_genesis ow = ?g" "ow_attempt ow = None" "\<not> ow_poisoned ow"
    using o by (auto simp: new_owner_def Let_def try_res_Inr_iff split: prod.splits)
  ultimately show "store_ok C D durable ?g \<lparr>so_owner = ow, so_counter = counter', so_disk = w', so_prepared = {}, so_staged = {}\<rparr>"
    using replay_start [of C ?g] by (simp add: store_ok_def)
  show "sn_records (ow_snapshot ow) = [] \<and> \<not> ow_poisoned ow" using ow by (simp add: snapshot_initial_def)
qed

end


text \<open>What the theorems assume of the hash function.\<close>

definition hash_ok :: "hasher \<Rightarrow> bool" where
  "hash_ok K \<longleftrightarrow> digest32 K \<and> proposer_id K trial_A \<noteq> proposer_id K trial_B"

section \<open>A disk that responds\<close>

text \<open>An engine whose queries do not fail. \<open>objects\<close> are the declared tables and triggers, as the connection sees
  them; they need not be those of the schema, and then nothing is said of the tables. \<open>PRAGMA integrity_check\<close>
  reports, but not necessarily \<open>ok\<close>.\<close>

locale responsive_engine = sqlite_engine +
  fixes objects :: "'a \<Rightarrow> ((string \<times> string) \<times> string) set"
  assumes present_ok: "sq_schema_present D w = Some ((''table'', ''metadata'') \<in> fst ` objects w)"
    and objects_ok: "\<exists>rows. sq_schema_rows D w = Some rows \<and> set rows = objects w"
    and integrity_ok: "\<exists>report. sq_integrity D w = Some report"
    and references_ok: "objects w = set (expected_schema (dk_ddl D)) \<Longrightarrow> sq_foreign_key_violation D w = Some (\<not> fk_holds (content w))"
    and count_ok: "objects w = set (expected_schema (dk_ddl D)) \<Longrightarrow> sq_count_metadata D w = Some (int (length (content w Metadata)))"
    and select_ok: "objects w = set (expected_schema (dk_ddl D)) \<Longrightarrow> sq_select D t w = Some (map Some (content w t))"
begin

lemma schema_iff:
  "schema (sql_of D) (dk_ddl D) w = Inr () \<longleftrightarrow>
     objects w = set (expected_schema (dk_ddl D)) \<and> sq_integrity D w = Some ''ok'' \<and> fk_holds (content w)"
proof -
  obtain rows report where "sq_schema_rows D w = Some rows" "set rows = objects w" "sq_integrity D w = Some report"
    using objects_ok integrity_ok by blast
  moreover have "(''table'', ''metadata'') \<in> fst ` set (expected_schema ddl)" for ddl
    by (force simp: expected_schema_def TABLES_def)
  ultimately show ?thesis
    using references_ok [of w] present_ok [of w]
    by (cases "objects w = set (expected_schema (dk_ddl D))") (auto simp: schema_def try_res_Inr_iff split: if_splits)
qed

lemma answers_declared:
  assumes "objects w = set (expected_schema (dk_ddl D))" "sq_integrity D w = Some ''ok''" "fk_holds (content w)"
  shows "answers (sql_of D) (dk_ddl D) w (content w)"
  using assms schema_iff [of w] count_ok [of w] select_ok [of w] by (simp add: answers_def)

end

text \<open>An engine that works, in the states that \<open>P\<close> marks: the file carries the declared schema and is sound, \<open>BEGIN\<close> succeeds, and so does
  every statement that the constraints of the schema let through. \<open>COMMIT\<close> still may fail.\<close>

locale writing_engine = responsive_engine +
  fixes P :: "'a \<Rightarrow> bool"
  assumes P_schema: "P w \<Longrightarrow> objects w = set (expected_schema (dk_ddl D))"
    and P_integrity: "P w \<Longrightarrow> sq_integrity D w = Some ''ok''"
    and P_begin: "P w \<Longrightarrow> sq_autocommit D w \<Longrightarrow> \<exists>w'. sq_begin D b w = (Some (), w') \<and> P w'"
    and P_write: "P w \<Longrightarrow> \<not> sq_autocommit D w \<Longrightarrow> sql_allowed st (content w) \<Longrightarrow> \<exists>n w'. sq_write D st w = (Some n, w') \<and> P w'"

lemma set_put_row: "set (put_row k r xs) \<subseteq> insert r (set xs)" "r \<in> set (put_row k r xs)"
  by (induction xs) auto

text \<open>The references of a row do not depend on its own table.\<close>

lemma refers_other: "sql_refers t row (db(t := rows)) = sql_refers t row db"
  by (cases t) simp_all

context writing_engine
begin

lemma P_answers:
  assumes "P w" "stored (c_keccak C) (approved_genesis (c_keccak C) l) s (content w)" "replayed C (approved_genesis (c_keccak C) l) s" "hash_ok (c_keccak C)"
  shows "answers (sql_of D) (dk_ddl D) w (content w)"
  by (rule answers_declared [OF P_schema P_integrity stored_references]) (use assms in \<open>simp_all add: hash_ok_def\<close>)

lemma exec_succeeds:
  assumes "P w" "\<not> sq_autocommit D w" "sql_allowed st (content w)"
  shows "\<exists>w'. sql_exec (sql_of D) st w = (Inr (affected st (content w)), w') \<and> P w' \<and> \<not> sq_autocommit D w' \<and>
     content w' = apply_write st (content w)"
proof -
  obtain n w' where "sq_write D st w = (Some n, w')" "P w'" using P_write [OF assms] by blast
  with write_effect [OF assms(2) this(1)] show ?thesis by (simp add: sql_exec_def)
qed

lemma insert_succeeds:
  assumes "P w" "\<not> sq_autocommit D w" "sql_allowed (Insert t row) (content w)"
  shows "\<exists>w'. sql_insert (sql_of D) t row w = (Inr (), w') \<and> P w' \<and> \<not> sq_autocommit D w' \<and> content w' = apply_write (Insert t row) (content w)"
  using exec_succeeds [OF assms] by (auto simp: sql_insert_def then_do_def)

lemma accounts_succeed:
  assumes "P w" "\<not> sq_autocommit D w" "\<forall>a \<in> set as. fits (table_widths Accounts) (account_row a)"
  shows "\<exists>w'. write_accounts (sql_of D) as w = (Inr (), w') \<and> P w' \<and> \<not> sq_autocommit D w' \<and>
     content w' = foldl (\<lambda>db row. apply_write (Upsert Accounts row) db) (content w) (map account_row as)"
  using assms
proof (induction as arbitrary: w)
  case (Cons a as)
  obtain w1 n where "sql_exec (sql_of D) (Upsert Accounts (account_row a)) w = (Inr n, w1)" "P w1" "\<not> sq_autocommit D w1"
    "content w1 = apply_write (Upsert Accounts (account_row a)) (content w)"
    using exec_succeeds [OF Cons.prems(1,2), of "Upsert Accounts (account_row a)"] Cons.prems(3) by auto
  with Cons.IH [of w1] Cons.prems(3) show ?case by (auto simp: then_do_def simp del: apply_write.simps)
qed simp

lemma rows_succeed:
  assumes "P w" "\<not> sq_autocommit D w" "\<forall>row \<in> set rows. fits (table_widths t) row \<and> sql_refers t row (content w)"
    and "\<forall>q \<in> set (content w t). \<forall>row \<in> set rows. sql_apart t q (map Blob row)" "sorted_wrt (sql_apart t) (map (map Blob) rows)"
  shows "\<exists>w'. insert_rows (sql_of D) t rows w = (Inr (), w') \<and> P w' \<and> \<not> sq_autocommit D w' \<and>
     content w' = foldl (\<lambda>db row. apply_write (Insert t row) db) (content w) rows"
  using assms
proof (induction rows arbitrary: w)
  case (Cons row rows)
  obtain w1 where w1: "sql_insert (sql_of D) t row w = (Inr (), w1)" "P w1" "\<not> sq_autocommit D w1"
    "content w1 = apply_write (Insert t row) (content w)"
    using insert_succeeds [OF Cons.prems(1,2), of t row] Cons.prems(3,4) by auto
  have "set (content w1 t) \<subseteq> insert (map Blob row) (set (content w t))" using set_put_row(1) by (simp add: w1(4))
  then have "\<forall>q \<in> set (content w1 t). \<forall>row \<in> set rows. sql_apart t q (map Blob row)" using Cons.prems(4,5) by auto
  moreover have "\<forall>row \<in> set rows. fits (table_widths t) row \<and> sql_refers t row (content w1)" using Cons.prems(3) by (simp add: w1(4) refers_other)
  ultimately show ?case using Cons.IH [OF w1(2,3)] Cons.prems(5) w1 by (auto simp: then_do_def simp del: apply_write.simps)
qed simp

lemma cas_succeeds:
  assumes "P w" "\<not> sq_autocommit D w" "sql_allowed st (content w)" "affected st (content w) = 1"
  shows "\<exists>w'. sql_cas (sql_of D) st msg w = (Inr (), w') \<and> P w' \<and> \<not> sq_autocommit D w' \<and> content w' = apply_write st (content w)"
  using exec_succeeds [OF assms(1-3)] assms(4) by (auto simp: sql_cas_def then_do_def)

end

lemma chain_accounting:
  assumes "chain_state K g st"
  shows "\<exists>acc. accounting_row st = Inr acc"
proof -
  let ?d = "cs_data st"
  have s: "supply_ok ?d" "po_slot (si_position ?d) \<le> MAX_SLOTS" using assms by (simp_all add: chain_state_def snapshot_ok_def)
  then have "unat (si_base_issuance ?d) \<le> 2000000000" "unat (si_fees_burned ?d) \<le> 1752000000000000 + unat (si_base_issuance ?d)"
    by (auto simp: supply_ok_def word_le_nat_alt MAX_SLOTS_def)
  then have "checked_add INITIAL_SUPPLY (si_base_issuance ?d) = Some (INITIAL_SUPPLY + si_base_issuance ?d)"
    and "unat (si_fees_burned ?d) \<le> unat (INITIAL_SUPPLY + si_base_issuance ?d)"
    by (simp_all add: checked_add_unat_iff INITIAL_SUPPLY_def unat_word_ariths(1))
  then have "\<exists>n. checked_sub (INITIAL_SUPPLY + si_base_issuance ?d) (si_fees_burned ?d) = Some n"
    by (simp add: checked_sub_def word_le_nat_alt)
  with \<open>checked_add _ _ = _\<close> show ?thesis by (auto simp: accounting_row_def Let_def)
qed

lemma approved_size:
  assumes "digest32 K" "length l \<le> 64"
  shows "1 \<le> length (ge_bytes (approved_genesis K l))" "length (ge_bytes (approved_genesis K l)) \<le> MAX_GENESIS_BYTES"
  using length_genesis_encode [OF assms] assms(2) by (simp_all add: approved_genesis_def MAX_GENESIS_BYTES_def)

context writing_engine
begin

text \<open>An allowed statement changes its own table only.\<close>

lemma insert_one:
  assumes "P w" "\<not> sq_autocommit D w" "fits (table_widths t) row" "\<forall>q \<in> set (content w t). sql_apart t q (map Blob row)" "sql_refers t row (content w)"
  obtains w' where "sql_insert (sql_of D) t row w = (Inr (), w')" "P w'" "\<not> sq_autocommit D w'"
    "content w' = (content w)(t := content w' t)" "map Blob row \<in> set (content w' t)"
  using insert_succeeds [OF assms(1,2), of t row] assms(3-5) by (auto simp: set_put_row(2) simp del: table_widths.simps sql_refers.simps)

lemma accounts_written:
  assumes "P w" "\<not> sq_autocommit D w" "\<forall>a \<in> set as. fits (table_widths Accounts) (account_row a)"
  obtains w' where "write_accounts (sql_of D) as w = (Inr (), w')" "P w'" "\<not> sq_autocommit D w'" "content w' = (content w)(Accounts := content w' Accounts)"
proof -
  obtain w' where w': "write_accounts (sql_of D) as w = (Inr (), w')" "P w'" "\<not> sq_autocommit D w'"
    "content w' = foldl (\<lambda>db row. apply_write (Upsert Accounts row) db) (content w) (map account_row as)"
    using accounts_succeed [OF assms] by blast
  show thesis by (rule that [OF w'(1-3)]) (simp only: w'(4) upsert_all fun_upd_same)
qed

lemma rows_written:
  assumes "P w" "\<not> sq_autocommit D w" "\<forall>row \<in> set rows. fits (table_widths t) row \<and> sql_refers t row (content w)"
    and "\<forall>q \<in> set (content w t). \<forall>row \<in> set rows. sql_apart t q (map Blob row)" "sorted_wrt (sql_apart t) (map (map Blob) rows)"
  obtains w' where "insert_rows (sql_of D) t rows w = (Inr (), w')" "P w'" "\<not> sq_autocommit D w'" "content w' = (content w)(t := content w' t)"
proof -
  obtain w' where w': "insert_rows (sql_of D) t rows w = (Inr (), w')" "P w'" "\<not> sq_autocommit D w'"
    "content w' = foldl (\<lambda>db row. apply_write (Insert t row) db) (content w) rows"
    using rows_succeed [OF assms] by blast
  show thesis by (rule that [OF w'(1-3)]) (simp only: w'(4) insert_all fun_upd_same)
qed

lemma ledger_written:
  assumes w: "P w" "\<not> sq_autocommit D w" and acc: "accounting_row st = Inr acc" "fits (table_widths Accounting) acc"
    and fits: "\<forall>a \<in> set (si_accounts (cs_data st)). fits (table_widths Accounts) (account_row a)"
  obtains w1 w2 where "write_accounts (sql_of D) (si_accounts (cs_data st)) w = (Inr (), w1)" "write_accounting (sql_of D) st w1 = (Inr (), w2)"
    "P w2" "\<not> sq_autocommit D w2" "\<And>t. t \<notin> {Accounts, Accounting} \<Longrightarrow> content w2 t = content w t"
proof -
  obtain w1 where 1: "write_accounts (sql_of D) (si_accounts (cs_data st)) w = (Inr (), w1)" "P w1" "\<not> sq_autocommit D w1"
    "content w1 = (content w)(Accounts := content w1 Accounts)"
    by (rule accounts_written [OF w fits])
  have "sql_allowed (Upsert Accounting acc) (content w1)" using acc(2) by simp
  then obtain w2 where 2: "write_accounting (sql_of D) st w1 = (Inr (), w2)" "P w2" "\<not> sq_autocommit D w2"
    "content w2 = (content w1)(Accounting := content w2 Accounting)"
    using exec_succeeds [OF 1(2,3), of "Upsert Accounting acc"] acc(1) by (auto simp: write_accounting_def then_do_def simp del: sql_allowed.simps)
  have "content w2 t = content w t" if "t \<notin> {Accounts, Accounting}" for t
    using that by (subst 2(4), subst 1(4)) simp
  with 1(1) 2 show thesis by (intro that)
qed

text \<open>The rows of a block go in in the order of the code: a transaction refers to its body, a reward to its block.\<close>

lemma block_written:
  assumes w: "P w" "\<not> sq_autocommit D w"
    and new: "\<And>t. t \<in> {Blocks, Bodies, Transactions, Rewards, States} \<Longrightarrow> \<forall>row \<in> set (new_rows K r t). fits (table_widths t) row"
      "\<And>t. t \<in> {Blocks, Bodies, Transactions, Rewards, States} \<Longrightarrow> \<forall>q \<in> set (content w t). \<forall>row \<in> set (new_rows K r t). sql_apart t q (map Blob row)"
      "sorted_wrt (sql_apart Transactions) (map (map Blob) (transaction_rows r))"
    and slot: "block_row K r ! 0 > be_bytes (0 :: u64)" "\<forall>row \<in> set (transaction_rows r). row ! 1 = body_row r ! 0" "reward_row r ! 0 = block_row K r ! 0"
  obtains w3 w4 w5 w6 w7 where "sql_insert (sql_of D) Blocks (block_row K r) w = (Inr (), w3)" "sql_insert (sql_of D) Bodies (body_row r) w3 = (Inr (), w4)"
    "insert_rows (sql_of D) Transactions (transaction_rows r) w4 = (Inr (), w5)" "sql_insert (sql_of D) Rewards (reward_row r) w5 = (Inr (), w6)"
    "sql_insert (sql_of D) States (state_row (rd_state r)) w6 = (Inr (), w7)" "P w7" "\<not> sq_autocommit D w7"
    "map Blob (state_row (rd_state r)) \<in> set (content w7 States)" "\<And>t. t \<in> {Metadata, Canonical_tip} \<Longrightarrow> content w7 t = content w t"
proof -
  let ?S = "sql_of D"
  obtain w3 where 3: "sql_insert ?S Blocks (block_row K r) w = (Inr (), w3)" "P w3" "\<not> sq_autocommit D w3"
    "content w3 = (content w)(Blocks := content w3 Blocks)" "map Blob (block_row K r) \<in> set (content w3 Blocks)"
    by (rule insert_one [OF w, where t = Blocks and row = "block_row K r"])
      (use new(1,2) [of Blocks] slot(1) in \<open>simp_all del: table_widths.simps\<close>)
  have c3: "content w3 t = content w t" if "t \<noteq> Blocks" for t
    using that by (subst 3(4)) simp
  obtain w4 where 4: "sql_insert ?S Bodies (body_row r) w3 = (Inr (), w4)" "P w4" "\<not> sq_autocommit D w4"
    "content w4 = (content w3)(Bodies := content w4 Bodies)" "map Blob (body_row r) \<in> set (content w4 Bodies)"
    by (rule insert_one [OF 3(2,3), where t = Bodies and row = "body_row r"])
      (use new(1,2) [of Bodies] in \<open>simp_all add: c3 del: table_widths.simps\<close>)
  have c4: "content w4 t = content w t" if "t \<notin> {Blocks, Bodies}" for t
    using that c3 by (subst 4(4)) simp
  have b4: "content w4 Blocks = content w3 Blocks" by (subst 4(4)) simp
  have refs: "sql_refers Transactions row (content w4)" if "row \<in> set (transaction_rows r)" for row
    using 4(5) slot(2) that by (auto simp: body_row_def intro!: bexI [OF _ 4(5)])
  obtain w5 where 5: "insert_rows ?S Transactions (transaction_rows r) w4 = (Inr (), w5)" "P w5" "\<not> sq_autocommit D w5"
    "content w5 = (content w4)(Transactions := content w5 Transactions)"
    by (rule rows_written [OF 4(2,3), where rows = "transaction_rows r" and t = Transactions])
      (use new(1,2) [of Transactions] new(3) refs in \<open>simp_all add: c4 del: table_widths.simps sql_refers.simps\<close>)
  have c5: "content w5 t = content w t" if "t \<notin> {Blocks, Bodies, Transactions}" for t
    using that c4 by (subst 5(4)) simp
  have "content w5 Blocks = content w3 Blocks" by (subst 5(4)) (simp add: b4)
  then have "sql_refers Rewards (reward_row r) (content w5)"
    using slot(3) by (auto simp: block_row_def reward_row_def Let_def intro!: bexI [OF _ 3(5)])
  then obtain w6 where 6: "sql_insert ?S Rewards (reward_row r) w5 = (Inr (), w6)" "P w6" "\<not> sq_autocommit D w6"
    "content w6 = (content w5)(Rewards := content w6 Rewards)"
    by (rule insert_one [OF 5(2,3), where t = Rewards and row = "reward_row r", rotated 2])
      (use new(1,2) [of Rewards] in \<open>simp_all add: c5 del: table_widths.simps\<close>)
  have c6: "content w6 t = content w t" if "t \<notin> {Blocks, Bodies, Transactions, Rewards}" for t
    using that c5 by (subst 6(4)) simp
  obtain w7 where 7: "sql_insert ?S States (state_row (rd_state r)) w6 = (Inr (), w7)" "P w7" "\<not> sq_autocommit D w7"
    "content w7 = (content w6)(States := content w7 States)" "map Blob (state_row (rd_state r)) \<in> set (content w7 States)"
    by (rule insert_one [OF 6(2,3), where t = States and row = "state_row (rd_state r)"])
      (use new(1,2) [of States] in \<open>simp_all add: c6 del: table_widths.simps\<close>)
  have "content w7 t = content w t" if "t \<in> {Metadata, Canonical_tip}" for t
    using that c6 by (subst 7(4)) auto
  with 3(1) 4(1) 5(1) 6(1) 7 show thesis by (intro that)
qed

lemma commit_writes_succeed:
  assumes w: "P w" "\<not> sq_autocommit D w" and st: "stored (c_keccak C) (approved_genesis (c_keccak C) l) s (content w)"
    and rep: "replayed C (approved_genesis (c_keccak C) l) s'" and h: "hash_ok (c_keccak C)"
    and nc: "no_collision (c_keccak C) (approved_genesis (c_keccak C) l) (sn_records s')"
    and ver: "disk_verify D (c_keccak C) (approved_genesis (c_keccak C) l) s w = Inr ()"
    and base: "ba_snapshot (sg_base stage) = s" and ins: "snapshot_insert (c_keccak C) (sg_record stage) s = Inr s'"
  shows "\<exists>w'. commit_writes (c_keccak C) D (approved_genesis (c_keccak C) l) stage s' w = (Inr (), w') \<and> P w' \<and> \<not> sq_autocommit D w'"
proof -
  let ?S = "sql_of D" and ?r = "sg_record stage" and ?K = "c_keccak C" and ?g = "approved_genesis (c_keccak C) l"
  have ids: "proposer_id ?K trial_A \<noteq> proposer_id ?K trial_B" and dg: "digest32 ?K" using h by (simp_all add: hash_ok_def)
  have s': "sn_state s' = rd_state ?r" "sn_records s' = sn_records s @ [?r]" using ins by (auto elim!: snapshot_insert_Inr)
  then have r: "?r \<in> set (sn_records s')" by simp
  obtain acc where acc: "accounting_row (sn_state s') = Inr acc" using chain_accounting [OF replayed_chain_state [OF rep ids]] by blast
  have meta: "\<exists>bar. content w Metadata = [[Blob sql_version, Text sql_mode, Blob (ge_bytes ?g), Blob (be_bytes (po_slot (sn_tip s))), Blob bar, Integer 1]]"
    and tip: "content w Canonical_tip = [[Blob (be_bytes (po_slot (sn_tip s))), Blob (po_hash (sn_tip s))]]"
    using st by (auto simp: stored_def)
  note new = new_rows_allowed [OF st rep ids dg nc s'(2)] and ef = expected_fits [OF rep ids dg acc]
  obtain w1 w2 where 2: "write_accounts ?S (si_accounts (cs_data (sn_state s'))) w = (Inr (), w1)" "write_accounting ?S (sn_state s') w1 = (Inr (), w2)"
    "P w2" "\<not> sq_autocommit D w2" "\<And>t. t \<notin> {Accounts, Accounting} \<Longrightarrow> content w2 t = content w t"
    by (rule ledger_written [OF w acc]) (use ef [of Accounting] ef [of Accounts] in \<open>auto simp del: table_widths.simps\<close>)
  have slot: "bh_slot (hc_header (cb_claim (rd_block ?r))) = po_slot (rd_position ?r)" "po_slot (rd_position ?r) \<noteq> 0"
    "rc_slot (last (si_credits (cs_data (rd_state ?r)))) = po_slot (rd_position ?r)"
    using history_position [OF rep r] replayed_slots_agree [OF rep ids] r by (auto simp: slots_agree_def)
  have pos: "be_bytes (po_slot (rd_position ?r)) > be_bytes (0 :: u64)" using slot(2) by (intro be_bytes_less) (simp add: word_neq_0_conv)
  have n: "\<forall>row \<in> set (new_rows ?K ?r t). fits (table_widths t) row"
    "\<forall>q \<in> set (content w2 t). \<forall>row \<in> set (new_rows ?K ?r t). sql_apart t q (map Blob row)"
    if "t \<in> {Blocks, Bodies, Transactions, Rewards, States}" for t
    using new(1,2) [OF that] 2(5) [of t] that by auto
  have "sorted_wrt (sql_apart Transactions) (map (map Blob) (transaction_rows ?r))" using new(3) [of Transactions] by simp
  moreover have "block_row ?K ?r ! 0 > be_bytes (0 :: u64)" "reward_row ?r ! 0 = block_row ?K ?r ! 0"
    using pos slot by (simp_all add: block_row_def reward_row_def Let_def)
  moreover have "\<forall>row \<in> set (transaction_rows ?r). row ! 1 = body_row ?r ! 0"
    using transaction_rows_body(2) [OF replayed_ids [OF rep r]] by (simp add: body_row_def)
  ultimately obtain w3 w4 w5 w6 w7 where 7: "sql_insert ?S Blocks (block_row ?K ?r) w2 = (Inr (), w3)" "sql_insert ?S Bodies (body_row ?r) w3 = (Inr (), w4)"
    "insert_rows ?S Transactions (transaction_rows ?r) w4 = (Inr (), w5)" "sql_insert ?S Rewards (reward_row ?r) w5 = (Inr (), w6)"
    "sql_insert ?S States (state_row (rd_state ?r)) w6 = (Inr (), w7)"
    and w7: "P w7" "\<not> sq_autocommit D w7" "map Blob (state_row (rd_state ?r)) \<in> set (content w7 States)"
      "\<And>t. t \<in> {Metadata, Canonical_tip} \<Longrightarrow> content w7 t = content w2 t"
    using block_written [OF 2(3,4) n] by blast
  let ?u = "Update_revision (be_bytes (po_slot (sn_tip s'))) (be_bytes (po_slot (sn_tip s)))"
  have c7: "content w7 t = content w t" if "t \<in> {Metadata, Canonical_tip}" for t using w7(4) [OF that] 2(5) [of t] that by auto
  have "affected ?u (content w7) = 1" using meta by (auto simp: c7)
  then obtain w8 where 8: "sql_cas ?S ?u ''revision CAS'' w7 = (Inr (), w8)" "P w8" "\<not> sq_autocommit D w8"
    "content w8 = (content w7)(Metadata := content w8 Metadata)"
    using cas_succeeds [OF w7(1,2), of ?u "''revision CAS''"] by auto
  let ?t = "Update_tip (be_bytes (po_slot (sn_tip s'))) (po_hash (sn_tip s')) (be_bytes (po_slot (sn_tip s))) (po_hash (sn_tip s))"
  have c8: "content w8 Canonical_tip = content w Canonical_tip" "content w8 States = content w7 States" by (subst 8(4), simp add: c7)+
  have "affected ?t (content w8) = 1" using tip by (simp add: c8)
  moreover have "sql_allowed ?t (content w8)"
    using ef [of Canonical_tip] by (auto simp: c8 sn_tip_def state_row_def s'(1) intro!: bexI [OF _ w7(3)])
  ultimately obtain w9 where 9: "sql_cas ?S ?t ''tip CAS'' w8 = (Inr (), w9)" "P w9" "\<not> sq_autocommit D w9"
    using cas_succeeds [OF 8(2,3), of ?t "''tip CAS''"] by auto
  show ?thesis
    using ver 2(1,2) 7 8(1) 9 by (simp add: commit_writes_def base then_do_def s'(1))
qed

end

context writing_engine
begin

lemma commit_reaches_disk:
  assumes ok: "store_ok C D durable (approved_genesis (c_keccak C) l) x" and h: "hash_ok (c_keccak C)" "length l \<le> 64"
    and P: "P (so_disk x)" and nc: "no_collision (c_keccak C) (approved_genesis (c_keccak C) l) (history x @ [sg_record sg])"
    and sg: "sg \<in> so_staged x" and cb: "check_base (so_owner x) (sg_base sg) = Inr ()"
  obtains s' w0 w1 where "snapshot_insert (c_keccak C) (sg_record sg) (ow_snapshot (so_owner x)) = Inr s'"
     "sq_begin D True (so_disk x) = (Some (), w0)" "commit_writes (c_keccak C) D (ow_genesis (so_owner x)) sg s' w0 = (Inr (), w1)"
     "P w1" "\<not> sq_autocommit D w1" "sql_linked (content w1)"
     "commit (c_keccak C) D (so_owner x) sg (so_disk x) =
        (case sq_commit D w1 of
          (Some _, w') \<Rightarrow> (Committed (sn_tip s') (c1_envelope_id (c_keccak C) (rd_envelope (sg_record sg))) (rd_outcome (sg_record sg)),
             (so_owner x)\<lparr>ow_snapshot := s', ow_attempt := None\<rparr>, w')
        | (None, w') \<Rightarrow> (RecoveryRequired uncertain, (so_owner x)\<lparr>ow_attempt := Some \<lparr>tr_base = sg_base sg, tr_record = sg_record sg\<rparr>,
             ow_poisoned := True\<rparr>, w'))"
proof -
  let ?K = "c_keccak C" and ?g = "approved_genesis (c_keccak C) l" and ?ow = "so_owner x" and ?s = "ow_snapshot (so_owner x)"
  have ids: "proposer_id ?K trial_A \<noteq> proposer_id ?K trial_B" and dg: "digest32 ?K" using h(1) by (simp_all add: hash_ok_def)
  obtain s' where s: "ow_genesis ?ow = ?g" "replayed C ?g ?s" "sq_autocommit D (so_disk x)" "stored ?K ?g ?s (durable (so_disk x))"
    and base: "sg_base sg = owner_base ?ow" and i: "snapshot_insert ?K (sg_record sg) ?s = Inr s'" and rep': "replayed C ?g s'"
    and rs: "sn_records s' = history x @ [sg_record sg]"
    and nxt: "\<forall>db acc. stored ?K ?g ?s db \<longrightarrow> accounting_row (rd_state (sg_record sg)) = Inr acc \<longrightarrow>
       stored ?K ?g s' (committed_db ?K (sg_record sg) (sn_tip ?s) acc db)"
    by (rule staged_ready [OF ok ids sg cb])
  obtain w0 where b: "sq_begin D True (so_disk x) = (Some (), w0)" "P w0" using P_begin [OF P s(3)] by blast
  have w0: "\<not> sq_autocommit D w0" "content w0 = durable (so_disk x)" using begin_effect [OF s(3) b(1)] by auto
  have st: "stored ?K ?g ?s (content w0)" using s(4) w0(2) by simp
  have ver: "disk_verify D ?K ?g ?s w0 = Inr ()"
    by (rule audit_complete(2) [OF P_answers [OF b(2) st s(2) h(1)] st s(2) ids dg approved_size [OF dg h(2)]])
  have bs: "ba_snapshot (sg_base sg) = ?s" using base by (simp add: owner_base_def)
  obtain w1 where w1: "commit_writes ?K D ?g sg s' w0 = (Inr (), w1)" "P w1" "\<not> sq_autocommit D w1"
    using commit_writes_succeed [OF b(2) w0(1) st rep' h(1) _ ver bs i] nc by (auto simp: rs)
  have "sn_state s' = rd_state (sg_record sg)" using i by (auto elim!: snapshot_insert_Inr)
  from tx_commit_writes [OF w0(1) this, of ?K ?g] w1 bs nxt st have "stored ?K ?g s' (content w1)" by (auto simp: does_def)
  then have "sql_linked (content w1)" using stored_references [OF rep' ids] by (simp add: fk_holds_def)
  with w1 show thesis
    by (intro that [OF i b(1)]) (use i cb b w1 s(1) in \<open>auto simp: commit_def poison_def split: prod.splits option.splits\<close>)
qed

text \<open>After the declarations, the rows of the creation.\<close>

lemma initialize_succeeds:
  fixes C :: "'k crypto"
  assumes w: "P w" "\<not> sq_autocommit D w" "content w = (\<lambda>_. [])" and h: "hash_ok (c_keccak C)" "length l \<le> 64"
    and decl: "exec_all (sql_of D) (map (\<lambda>n. Execute (ddl n)) (TABLES @ triggers)) w' = (Inr (), w)"
  shows "\<exists>w''. sql_initialize (sql_of D) ddl (c_keccak C) (approved_genesis (c_keccak C) l) w' = (Inr (), w'') \<and> P w'' \<and> \<not> sq_autocommit D w''"
proof -
  let ?K = "c_keccak C" and ?g = "approved_genesis (c_keccak C) l" and ?S = "sql_of D"
  have ids: "proposer_id ?K trial_A \<noteq> proposer_id ?K trial_B" and dg: "digest32 ?K" using h(1) by (simp_all add: hash_ok_def)
  have rep: "replayed C ?g (snapshot_initial ?g)" by (rule replay_start)
  obtain acc where acc: "accounting_row (ge_initial ?g) = Inr acc" using chain_accounting [OF initial_chain_state] by blast
  have "accounting_row (sn_state (snapshot_initial ?g)) = Inr acc" using acc by (simp add: snapshot_initial_def)
  note ef = expected_fits [OF rep ids dg this]
  have init: "sn_state (snapshot_initial ?g) = ge_initial ?g" "sn_tip (snapshot_initial ?g) = state_position (ge_initial ?g)"
    by (simp_all add: snapshot_initial_def sn_tip_def)
  let ?m = "Insert_metadata sql_mode (ge_bytes ?g) (be_bytes (0 :: u64)) (be_bytes (0 :: u64))"
  have "sql_allowed ?m (content w)" using approved_size [OF dg h(2)] w(3) by simp
  then obtain w1 where 1: "sql_exec ?S ?m w = (Inr 1, w1)" "P w1" "\<not> sq_autocommit D w1" "content w1 = (content w)(Metadata := content w1 Metadata)"
    using exec_succeeds [OF w(1,2), of ?m] by (auto simp del: sql_allowed.simps)
  have c1: "content w1 t = []" if "t \<noteq> Metadata" for t using that w(3) by (subst 1(4)) simp
  obtain w2 where 2: "sql_insert ?S Year_zero [year_bytes] w1 = (Inr (), w2)" "P w2" "\<not> sq_autocommit D w2" "content w2 = (content w1)(Year_zero := content w2 Year_zero)"
    by (rule insert_one [OF 1(2,3), where t = Year_zero and row = "[year_bytes]"]) (use ef [of Year_zero] in \<open>simp_all add: c1\<close>)
  have c2: "content w2 t = []" if "t \<notin> {Metadata, Year_zero}" for t using that c1 by (subst 2(4)) simp
  obtain w3 where 3: "write_accounts ?S (si_accounts (cs_data (ge_initial ?g))) w2 = (Inr (), w3)" "P w3" "\<not> sq_autocommit D w3"
    "content w3 = (content w2)(Accounts := content w3 Accounts)"
    by (rule accounts_written [OF 2(2,3)]) (use ef [of Accounts] in \<open>auto simp: init\<close>)
  have "sql_allowed (Upsert Accounting acc) (content w3)" using ef [of Accounting] by simp
  then obtain w4 where 4: "write_accounting ?S (ge_initial ?g) w3 = (Inr (), w4)" "P w4" "\<not> sq_autocommit D w4"
    "content w4 = (content w3)(Accounting := content w4 Accounting)"
    using exec_succeeds [OF 3(2,3), of "Upsert Accounting acc"] acc by (auto simp: write_accounting_def then_do_def simp del: sql_allowed.simps)
  have c4: "content w4 t = []" if "t \<in> {States, Canonical_tip}" for t using that c2 by (subst 4(4), subst 3(4)) auto
  obtain w5 where 5: "sql_insert ?S States (state_row (ge_initial ?g)) w4 = (Inr (), w5)" "P w5" "\<not> sq_autocommit D w5"
    "content w5 = (content w4)(States := content w5 States)" "map Blob (state_row (ge_initial ?g)) \<in> set (content w5 States)"
    by (rule insert_one [OF 4(2,3), where t = States and row = "state_row (ge_initial ?g)"]) (use ef [of States] in \<open>simp_all add: c4\<close>)
  have c5: "content w5 Canonical_tip = []" using c4 by (subst 5(4)) simp
  let ?t = "[be_bytes (0 :: u64), header_hash ?K (pol_anchor (ge_policy ?g))]"
  have "sql_refers Canonical_tip ?t (content w5)" by (auto simp: state_row_def genesis_position intro!: bexI [OF _ 5(5)])
  then obtain w6 where 6: "sql_insert ?S Canonical_tip ?t w5 = (Inr (), w6)" "P w6" "\<not> sq_autocommit D w6"
    by (rule insert_one [OF 5(2,3), where t = Canonical_tip and row = ?t, rotated 2]) (use ef [of Canonical_tip] in \<open>simp_all add: c5 init genesis_position\<close>)
  obtain w7 n where "sql_exec ?S Set_initialized w6 = (Inr n, w7)" "P w7" "\<not> sq_autocommit D w7"
    using exec_succeeds [OF 6(2,3), of Set_initialized] by auto
  with decl 1 2 3 4 5 6 show ?thesis by (simp add: sql_initialize_def then_do_def)
qed

end

interpretation mem_r: responsive_engine mem_disk mem_content mm_durable "\<lambda>w. set (mem_objects w)"
  by unfold_locales (simp_all add: mem_disk_def)

text \<open>The file carries the declared schema.\<close>

abbreviation mem_sound :: "mem \<Rightarrow> bool" where
  "mem_sound w \<equiv> set (mem_objects w) = set (expected_schema mem_ddl)"

lemma mem_allowed:
  assumes "mm_open w \<noteq> None" "sql_allowed st (mem_content w)"
  shows "mem_write st w = (Some (affected st (mem_content w)), w\<lparr>mm_open := Some (apply_write st (mem_content w))\<rparr>)"
  using assms by (cases st) (auto simp: mem_content_def simp del: apply_write.simps affected.simps sql_allowed.simps(2-))

interpretation mem_w: writing_engine mem_disk mem_content mm_durable "\<lambda>w. set (mem_objects w)" mem_sound
proof
  show "\<exists>n w'. sq_write mem_disk st w = (Some n, w') \<and> mem_sound w'"
    if "mem_sound w" "\<not> sq_autocommit mem_disk w" "sql_allowed st (mem_content w)" for w st
  proof -
    have "mm_open w \<noteq> None" using that(2) by (simp add: mem_disk_def)
    then have "sq_write mem_disk st w = (Some (affected st (mem_content w)), w\<lparr>mm_open := Some (apply_write st (mem_content w))\<rparr>)"
      "mem_objects (w\<lparr>mm_open := Some (apply_write st (mem_content w))\<rparr>) = mem_objects w"
      using mem_allowed [OF _ that(3)] by (auto simp: mem_disk_def mem_objects_def simp del: apply_write.simps affected.simps)
    with that(1) show ?thesis by metis
  qed
qed (auto simp: mem_disk_def mem_objects_def)

section \<open>What the statements leave alone\<close>

text \<open>A predicate of the disk that every write statement keeps is kept by the writes of a commit and of the creation.\<close>

definition writes_keep :: "'w disk \<Rightarrow> ('w \<Rightarrow> bool) \<Rightarrow> bool" where
  "writes_keep D Q \<longleftrightarrow> (\<forall>st w. Q w \<longrightarrow> Q (snd (sq_write D st w)))"

definition kept :: "('w \<Rightarrow> bool) \<Rightarrow> 'v \<times> 'w \<Rightarrow> bool" where
  "kept Q res \<longleftrightarrow> Q (snd res)"

lemma kept_then: "kept Q res \<Longrightarrow> (\<And>v w. Q w \<Longrightarrow> kept Q (f v w)) \<Longrightarrow> kept Q (then_do res f)"
  by (auto simp: kept_def then_do_def split: prod.splits sum.splits)

lemma kept_pure: "Q w \<Longrightarrow> kept Q (r, w)"
  by (simp add: kept_def)

lemma kept_exec: "writes_keep D Q \<Longrightarrow> Q w \<Longrightarrow> kept Q (sql_exec (sql_of D) st w)"
  by (auto simp: kept_def writes_keep_def sql_exec_def split: prod.splits) (metis snd_conv)

lemma kept_accounts: "writes_keep D Q \<Longrightarrow> Q w \<Longrightarrow> kept Q (write_accounts (sql_of D) as w)"
  by (induction as arbitrary: w) (simp_all add: kept_pure kept_then kept_exec)

lemma kept_insert: "writes_keep D Q \<Longrightarrow> Q w \<Longrightarrow> kept Q (sql_insert (sql_of D) t row w)"
  unfolding sql_insert_def by (simp add: kept_pure kept_then kept_exec)

lemma kept_rows: "writes_keep D Q \<Longrightarrow> Q w \<Longrightarrow> kept Q (insert_rows (sql_of D) t rows w)"
  by (induction rows arbitrary: w) (simp_all add: kept_pure kept_then kept_insert)

lemma kept_exec_all: "writes_keep D Q \<Longrightarrow> Q w \<Longrightarrow> kept Q (exec_all (sql_of D) sts w)"
  by (induction sts arbitrary: w) (simp_all add: kept_pure kept_then kept_exec)

lemma commit_writes_keep:
  assumes "writes_keep D Q" "Q w" "commit_writes K D g stage s' w = (r, w')"
  shows "Q w'"
proof -
  have "kept Q (commit_writes K D g stage s' w)"
    unfolding commit_writes_def Let_def sql_cas_def write_accounting_def using assms(1,2)
    by (intro kept_then) (simp_all add: kept_pure kept_exec kept_accounts kept_rows kept_insert)
  with assms(3) show ?thesis by (simp add: kept_def)
qed

lemma initialize_keeps:
  assumes "writes_keep D Q" "Q w" "sql_initialize (sql_of D) ddl K g w = (r, w')"
  shows "Q w'"
proof -
  have "kept Q (sql_initialize (sql_of D) ddl K g w)"
    unfolding sql_initialize_def write_accounting_def using assms(1,2)
    by (intro kept_then) (simp_all add: kept_pure kept_exec kept_exec_all kept_accounts kept_insert)
  with assms(3) show ?thesis by (simp add: kept_def)
qed

text \<open>On the concrete disk a statement changes the open copy only.\<close>

lemma mem_writes_keep: "writes_keep mem_disk (\<lambda>w. mm_fault w = f \<and> mm_durable w = d \<and> mm_schema w = declared)"
proof -
  have "mm_fault w' = mm_fault w \<and> mm_durable w' = mm_durable w \<and> mm_schema w' = mm_schema w" if "mem_write st w = (n, w')" for st w n w'
    using that by (cases st) (auto simp del: apply_write.simps affected.simps sql_allowed.simps split: option.splits if_splits)
  then show ?thesis by (simp add: writes_keep_def mem_disk_def) (metis prod.collapse)
qed

section \<open>A concrete run\<close>

definition new_mem :: "bool option \<Rightarrow> mem" where
  "new_mem fault = \<lparr>mm_durable = (\<lambda>_. []), mm_schema = [], mm_open = None, mm_declared = [], mm_fault = fault\<rparr>"

text \<open>The store that creation leaves.\<close>

abbreviation new_store :: "owner \<Rightarrow> u64 \<Rightarrow> 'w \<Rightarrow> 'w store" where
  "new_store ow counter w \<equiv> \<lparr>so_owner = ow, so_counter = counter, so_disk = w, so_prepared = {}, so_staged = {}\<rparr>"

lemma mem_declare:
  "mm_open w \<noteq> None \<Longrightarrow> exec_all (sql_of mem_disk) (map (\<lambda>n. Execute (mem_ddl n)) ns) w = (Inr (), w\<lparr>mm_declared := mm_declared w @ map mem_declares ns\<rparr>)"
proof (induction ns arbitrary: w)
  case (Cons n ns)
  from Cons.prems have "sql_exec (sql_of mem_disk) (Execute (mem_ddl n)) w = (Inr 1, w\<lparr>mm_declared := mm_declared w @ [mem_declares n]\<rparr>)"
    by (auto simp: sql_exec_def mem_disk_def mem_ddl_def)
  with Cons.IH [of "w\<lparr>mm_declared := mm_declared w @ [mem_declares n]\<rparr>"] Cons.prems show ?case by (simp add: then_do_def)
qed simp

lemma mem_declared_schema: "set (map mem_declares (TABLES @ triggers)) = set (expected_schema mem_ddl)"
proof -
  have "\<forall>n \<in> set triggers. n \<notin> set TABLES" by (simp add: triggers_def TABLES_def)
  then show ?thesis by (auto simp: expected_schema_def mem_declares_def mem_ddl_def image_iff)
qed

abbreviation mem_metadata :: "cell list" where
  "mem_metadata \<equiv> [Blob sql_version, Text sql_mode, Blob (ge_bytes trial_genesis), Blob (be_bytes (0 :: u64)),
     Blob (be_bytes (0 :: u64)), Integer 1]"

lemma trial_hash_ok: "hash_ok (c_keccak trial_crypto)"
  using trial_facts by (simp add: hash_ok_def)

lemma mem_create:
  "\<exists>w. create_inner (c_keccak trial_crypto) mem_disk trial_genesis 7 (new_mem fault) =
     (Inr (idle_owner (snapshot_initial trial_genesis)), 8, w) \<and> mm_fault w = fault \<and> mm_open w = None \<and>
     mm_durable w Metadata = [mem_metadata] \<and> mem_sound w"
proof -
  let ?w = "new_mem fault" and ?K = "c_keccak trial_crypto"
  let ?w1 = "?w\<lparr>mm_open := Some (\<lambda>_. []), mm_declared := []\<rparr>" and ?w2 = "?w\<lparr>mm_open := Some (\<lambda>_. []), mm_declared := map mem_declares (TABLES @ triggers)\<rparr>"
  have d: "sq_begin mem_disk True ?w = (Some (), ?w1)" "dk_create_new mem_disk ?w = (Created, ?w)" "disk_open mem_disk ?w = (Inr (), ?w)"
    "sql_configure mem_disk ?w = (Inr (), ?w)" "dk_sync_path mem_disk w = (Some (), w)" "dk_ddl mem_disk = mem_ddl" for w
    by (simp_all add: mem_disk_def new_mem_def disk_open_def disk_call_def sql_configure_def disk_configure_def then_do_def)
  have decl: "exec_all (sql_of mem_disk) (map (\<lambda>n. Execute (mem_ddl n)) (TABLES @ triggers)) ?w1 = (Inr (), ?w2)"
    using mem_declare [of ?w1 "TABLES @ triggers"] by simp
  have w2: "mem_sound ?w2" "\<not> sq_autocommit mem_disk ?w2" "mem_content ?w2 = (\<lambda>_. [])"
    using mem_declared_schema by (simp_all add: mem_objects_def mem_disk_def mem_content_def)
  obtain w3 where i: "sql_initialize (sql_of mem_disk) mem_ddl ?K trial_genesis ?w1 = (Inr (), w3)" "mem_sound w3" "\<not> sq_autocommit mem_disk w3"
    using mem_w.initialize_succeeds [OF w2 trial_hash_ok _ decl, of "[65]"] by auto
  then obtain db where db: "mm_open w3 = Some db" by (auto simp: mem_disk_def)
  have k: "mm_fault w3 = fault \<and> mm_durable w3 = (\<lambda>_. []) \<and> mm_schema w3 = []"
    by (rule initialize_keeps [OF mem_writes_keep _ i(1)]) (simp add: new_mem_def)
  have "\<not> sq_autocommit mem_disk ?w1" by (simp add: mem_disk_def)
  from mem.tx_initialize [OF this, of mem_ddl ?K trial_genesis] i(1) db
  obtain acc where acc: "accounting_row (ge_initial trial_genesis) = Inr acc" "db = initial_db ?K trial_genesis acc (\<lambda>_. [])"
    by (auto simp: does_def mem_content_def simp del: apply_write.simps)
  then have st: "stored ?K trial_genesis (snapshot_initial trial_genesis) db" using stored_initial by simp
  have meta: "db Metadata = [mem_metadata]" unfolding acc(2) initial_db_def upsert_all by simp
  have "sql_linked db" using stored_references [OF replay_start trial_facts(2) st] by (simp add: fk_holds_def)
  then have c: "sq_commit mem_disk w3 = (Some (), w3\<lparr>mm_durable := db, mm_schema := mm_declared w3, mm_open := None\<rparr>)"
    using k db by (simp add: mem_disk_def)
  have o: "new_owner trial_genesis (snapshot_initial trial_genesis) 7 = (Inr (idle_owner (snapshot_initial trial_genesis)), 8)"
    by (simp add: new_owner_def next_generation_def checked_add_def idle_owner_def)
  have "mem_sound (w3\<lparr>mm_durable := db, mm_schema := mm_declared w3, mm_open := None\<rparr>)" using i(2) db by (simp add: mem_objects_def)
  then show ?thesis
    by (intro exI [of _ "w3\<lparr>mm_durable := db, mm_schema := mm_declared w3, mm_open := None\<rparr>"])
      (use d i(1) c o meta k in \<open>simp add: create_inner_def then_do_def disk_call_def\<close>)
qed


section \<open>Reachable stores\<close>

text \<open>Everything an owner created in an empty database can come to.\<close>

definition store_reached :: "'k crypto \<Rightarrow> 'w disk \<Rightarrow> ('w \<Rightarrow> sqldb) \<Rightarrow> text_bytes \<Rightarrow> 'w store \<Rightarrow> bool" where
  "store_reached C D durable l x \<longleftrightarrow> (\<exists>w w0 counter ow counter' w'. dk_create_new D w = (Created, w0) \<and> durable w0 = (\<lambda>_. []) \<and>
     create_inner (c_keccak C) D (approved_genesis (c_keccak C) l) counter w = (Inr ow, counter', w') \<and>
     store_run C D (new_store ow counter' w') x)"

lemma store_reached_run: "store_reached C D durable l x \<Longrightarrow> store_step C D x y \<Longrightarrow> store_reached C D durable l y"
  unfolding store_reached_def using run_step by blast

lemma store_reached_ok:
  assumes "sqlite_engine D content durable" "hash_ok (c_keccak C)" "store_reached C D durable l x"
  shows "store_ok C D durable (approved_genesis (c_keccak C) l) x"
  using assms sqlite_engine.create_ok(1) [OF assms(1)] sqlite_engine.run_keeps [OF assms(1)]
  unfolding store_reached_def hash_ok_def by blast

text \<open>The digest of the concrete run tells the header of its first block from the anchor.\<close>

lemma trial_no_collision:
  assumes rep: "replayed trial_crypto trial_genesis s" and rs: "sn_records s = [r]"
  shows "no_collision (c_keccak trial_crypto) trial_genesis [r]"
proof -
  let ?K = "c_keccak trial_crypto" and ?a = "pol_anchor (ge_policy trial_genesis)" and ?h = "hc_header (cb_claim (rd_block r))"
  have r: "r \<in> set (sn_records s)" by (simp add: rs)
  have "header_wf ?a" using length_anchor [OF trial_facts(1)] trial_facts(1)
    by (simp add: approved_genesis_def sealed_def approved_policy_def header_wf_def anchor_def)
  then have a: "header_hash ?K ?a = be_bytes (bh_slot ?a) @ drop 8 (bh_protocol_data_root ?a)" by (rule trial_header_hash)
  have h: "header_hash ?K ?h = be_bytes (bh_slot ?h) @ drop 8 (bh_protocol_data_root ?h)"
    by (rule trial_header_hash [OF c1_block_okD(1) [OF replayed_block_ok [OF rep r]]])
  have "bh_slot ?a \<noteq> bh_slot ?h" using history_position(2,3) [OF rep r] genesis_position(2) [of ?K "[65]"] by simp
  then have "header_hash ?K ?a \<noteq> header_hash ?K ?h" unfolding a h by simp
  then show ?thesis
    by (auto simp: no_collision_def header_preimages_def envelope_preimages_def inj_on_def header_hash_def hash_with_domain_def)
qed

lemma mem_reached:
  obtains x sg s' where "store_reached trial_crypto mem_disk mm_durable [65] x" "mm_fault (so_disk x) = fault"
    "so_owner x = idle_owner (snapshot_initial trial_genesis)" "sg \<in> so_staged x" "mm_open (so_disk x) = None"
    "check_base (so_owner x) (sg_base sg) = Inr ()"
    "snapshot_insert (c_keccak trial_crypto) (sg_record sg) (snapshot_initial trial_genesis) = Inr s'" "length (sn_records s') = 1"
    "so_counter x = 8" "mm_durable (so_disk x) Metadata = [mem_metadata]"
    "mem_sound (so_disk x)" "no_collision (c_keccak trial_crypto) trial_genesis [sg_record sg]"
proof -
  let ?ow = "idle_owner (snapshot_initial trial_genesis)"
  obtain w where w: "create_inner (c_keccak trial_crypto) mem_disk trial_genesis 7 (new_mem fault) = (Inr ?ow, 8, w)"
    "mm_fault w = fault" "mm_open w = None" "mm_durable w Metadata = [mem_metadata]" "mem_sound w" using mem_create by blast
  obtain e sg s' where sg: "stage_received trial_crypto ?ow (c1_envelope_wire_bytes (c_keccak trial_crypto) e) = (Inr sg, ?ow)"
    and s': "snapshot_insert (c_keccak trial_crypto) (sg_record sg) (snapshot_initial trial_genesis) = Inr s'" "length (sn_records s') = 1"
    and rep: "replayed trial_crypto trial_genesis s'"
    by (rule trial_first)
  have "sg_base sg = owner_base ?ow" using stage_received_replays [OF sg] by (simp add: stage_ok_def)
  then have cb: "check_base ?ow (sg_base sg) = Inr ()" by (simp add: check_base_def owner_base_def)
  have "sn_records s' = [sg_record sg]" using s'(1) by (auto elim!: snapshot_insert_Inr simp: snapshot_initial_def)
  note nc = trial_no_collision [OF rep this]
  have "store_run trial_crypto mem_disk (new_store ?ow 8 w) ((new_store ?ow 8 w)\<lparr>so_owner := ?ow, so_staged := {sg}\<rparr>)"
    by (rule run_step [OF run_start]) (use step_receive [of trial_crypto "new_store ?ow 8 w", simplified, OF sg] in simp)
  with w have "store_reached trial_crypto mem_disk mm_durable [65] ((new_store ?ow 8 w)\<lparr>so_owner := ?ow, so_staged := {sg}\<rparr>)"
    unfolding store_reached_def
    by (intro exI [of _ "new_mem fault"] exI [of _ 7] exI conjI) (auto simp: mem_disk_def new_mem_def)
  then show thesis by (rule that) (use w cb s' nc in simp_all)
qed

end
