(* ===== verification/Poash_Store.thy ===== *)
theory Poash_Store
  imports Poash_Durability
begin

text \<open>
  The properties of the durable store: what holds of every reachable store, what a commit does, what recovery
  does after an interrupted commit, and that both succeed on a disk that works and enforces the schema.
\<close>

text \<open>What is found on disk reconciles with what the owner remembers.\<close>

lemma replayed_last_state: "replayed C g s \<Longrightarrow> sn_records s \<noteq> [] \<Longrightarrow> rd_state (last (sn_records s)) = sn_state s"
  by (induction rule: replayed.induct) (auto simp: snapshot_initial_def replay_step_def Let_def try_res_Inr_iff elim!: snapshot_insert_Inr)

lemma loaded_reconciles:
  assumes ok: "store_ok C D durable (approved_genesis (c_keccak C) l) x"
  shows "\<exists>s present. replayed C (approved_genesis (c_keccak C) l) s \<and>
     stored (c_keccak C) (approved_genesis (c_keccak C) l) s (durable (so_disk x)) \<and>
     reconcile (ow_attempt (so_owner x)) (ow_snapshot (so_owner x)) s = Inr present"
proof (cases "ow_attempt (so_owner x)")
  case None
  with ok show ?thesis by (intro exI [of _ "ow_snapshot (so_owner x)"]) (auto simp: store_ok_def Let_def reconcile_def)
next
  case (Some a)
  let ?g = "approved_genesis (c_keccak C) l" and ?s = "ow_snapshot (so_owner x)"
  from ok Some obtain s' where s: "replayed C ?g ?s" "ba_snapshot (tr_base a) = ?s" "snapshot_insert (c_keccak C) (tr_record a) ?s = Inr s'"
    "replayed C ?g s'" and two: "stored (c_keccak C) ?g ?s (durable (so_disk x)) \<or> stored (c_keccak C) ?g s' (durable (so_disk x))"
    by (auto simp: store_ok_def Let_def attempt_ok_def)
  have rs: "sn_records s' = sn_records ?s @ [tr_record a]" using s(3) by (auto elim!: snapshot_insert_Inr)
  have last: "rd_state (sn_records ?s ! (length (sn_records ?s) - 1)) = sn_state ?s" if "sn_records ?s \<noteq> []"
    using replayed_last_state [OF s(1) that] that by (simp add: last_conv_nth)
  then have "rd_state (sn_records s' ! (length (sn_records ?s) - 1)) = sn_state ?s" if "sn_records ?s \<noteq> []"
    using that by (simp add: rs nth_append)
  with last have "reconcile (Some a) ?s ?s = Inr (Some False)" "reconcile (Some a) ?s s' = Inr (Some True)"
    using s(2) rs by (auto simp: reconcile_def Let_def)
  with two s Some show ?thesis by auto
qed

section \<open>A disk that works\<close>

text \<open>On top of \<open>writing_engine\<close>: in the states that \<open>P\<close> marks the file can be closed, opened, configured and
  synchronised, a transaction can be rolled back, and a \<open>COMMIT\<close> succeeds when the deferred foreign keys hold.\<close>

locale healthy_engine = writing_engine +
  assumes P_close: "P w \<Longrightarrow> P (dk_close D w)"
    and P_open: "P w \<Longrightarrow> dk_exists D w = Some True \<and> (\<exists>w'. dk_open D w = (Some (), w') \<and> P w')"
    and P_timeout: "P w \<Longrightarrow> \<exists>w'. dk_busy_timeout D w = (Some (), w') \<and> P w'"
    and P_pragmas: "P w \<Longrightarrow> \<exists>w'. dk_set_pragmas D w = (Some (), w') \<and> P w' \<and>
       pg_journal_mode (dk_pragmas D w') = Some ''delete'' \<and> pg_synchronous (dk_pragmas D w') = Some 3 \<and>
       pg_foreign_keys (dk_pragmas D w') = Some 1 \<and> pg_cache_size (dk_pragmas D w') = Some (-2000) \<and>
       pg_cache_spill (dk_pragmas D w') = Some 1"
    and P_sync: "P w \<Longrightarrow> \<exists>w'. dk_sync_path D w = (Some (), w') \<and> P w'"
    and P_rollback: "P w \<Longrightarrow> \<exists>w'. sq_rollback D w = (Some (), w') \<and> P w'"
    and P_commit: "P w \<Longrightarrow> \<not> sq_autocommit D w \<Longrightarrow> sql_linked (content w) \<Longrightarrow> \<exists>w'. sq_commit D w = (Some (), w') \<and> P w'"
begin

lemma reopen_succeeds:
  assumes "P w"
  shows "\<exists>w'. then_do (disk_open D (dk_close D w)) (\<lambda>_ w. sql_configure D w) = (Inr (), w') \<and> P w'"
proof -
  obtain w1 where 1: "dk_exists D (dk_close D w) = Some True" "dk_open D (dk_close D w) = (Some (), w1)" "P w1"
    using P_open [OF P_close [OF assms]] by blast
  obtain w2 where 2: "dk_busy_timeout D w1 = (Some (), w2)" "P w2" using P_timeout [OF 1(3)] by blast
  with 1 P_pragmas [OF 2(2)] show ?thesis
    by (auto simp: disk_open_def disk_call_def sql_configure_def disk_configure_def then_do_def)
qed

lemma audit_succeeds:
  assumes "P w" "sq_autocommit D w" "stored (c_keccak C) (approved_genesis (c_keccak C) l) s (durable w)"
    and "replayed C (approved_genesis (c_keccak C) l) s" "hash_ok (c_keccak C)" "length l \<le> 64"
  shows "\<exists>w'. sql_audit (sql_of D) (dk_ddl D) C (approved_genesis (c_keccak C) l) w = (Inr s, w') \<and> P w'"
proof -
  obtain w1 where 1: "sq_begin D False w = (Some (), w1)" "P w1" using P_begin [OF assms(1,2)] by blast
  obtain w2 where 2: "sq_rollback D w1 = (Some (), w2)" "P w2" using P_rollback [OF 1(2)] by blast
  have st: "stored (c_keccak C) (approved_genesis (c_keccak C) l) s (content w1)" using begin_effect [OF assms(2) 1(1)] assms(3) by simp
  from audit_complete(1) [OF P_answers [OF 1(2) st assms(4,5)] st assms(4)] assms(5,6)
  have "audit_body (sql_of D) (dk_ddl D) C (approved_genesis (c_keccak C) l) w1 = Inr s"
    using approved_size by (simp add: hash_ok_def)
  with 1 2 show ?thesis by (auto simp: sql_audit_def)
qed

text \<open>The write barrier advances unless its counter is at the end.\<close>

lemma barrier_succeeds:
  assumes "P w" "sq_autocommit D w" "stored (c_keccak C) (approved_genesis (c_keccak C) l) s (durable w)"
    and "replayed C (approved_genesis (c_keccak C) l) s" "hash_ok (c_keccak C)" "length l \<le> 64"
    and bar: "durable w Metadata = [[v, m, gb, r, Blob b, i]]" "be_word b \<noteq> (-1 :: u64)"
  shows "\<exists>w'. sql_barrier (sql_of D) (dk_ddl D) (c_keccak C) (approved_genesis (c_keccak C) l) s (dk_sync_path D) w = (Inr (), w')"
proof -
  let ?K = "c_keccak C" and ?g = "approved_genesis (c_keccak C) l"
  obtain w1 where 1: "sq_begin D True w = (Some (), w1)" "P w1" using P_begin [OF assms(1,2)] by blast
  have w1: "\<not> sq_autocommit D w1" "content w1 = durable w" using begin_effect [OF assms(2) 1(1)] by auto
  then have st: "stored ?K ?g s (content w1)" using assms(3) by simp
  note ans = P_answers [OF 1(2) st assms(4,5)]
  have ver: "sql_verify (sql_of D) (dk_ddl D) ?K ?g s w1 = Inr ()"
    using audit_complete(2) [OF ans st assms(4)] assms(5,6) approved_size by (simp add: hash_ok_def)
  have b: "length b = 8" using assms(3) bar by (auto simp: stored_def)
  then have old: "read_barrier (sql_of D) w1 = Inr b"
    using ans bar w1(2) by (simp add: read_barrier_def answers_def)
  obtain n where n: "checked_add (be_word b :: u64) 1 = Some n"
    using bar(2) checked_add_one by blast
  let ?u = "Update_barrier (be_bytes n) b"
  have "affected ?u (content w1) = 1" using bar w1(2) by simp
  then obtain w2 where w2: "sql_cas (sql_of D) ?u ''barrier CAS'' w1 = (Inr (), w2)" "P w2" "\<not> sq_autocommit D w2"
    "content w2 = apply_write ?u (content w1)"
    using cas_succeeds [OF 1(2) w1(1), of ?u "''barrier CAS''"] by auto
  have "sql_linked (content w1)" using stored_references [OF assms(4) _ st] assms(5) by (simp add: hash_ok_def fk_holds_def)
  then have "sql_linked (content w2)" by (simp add: w2(4) sql_linked_def)
  then obtain w3 where w3: "sq_commit D w2 = (Some (), w3)" "P w3" using P_commit [OF w2(2,3)] by blast
  obtain w4 where "dk_sync_path D w3 = (Some (), w4)" using P_sync [OF w3(2)] by blast
  with 1 ver old n w2 w3 show ?thesis by (simp add: sql_barrier_def then_do_def)
qed

lemma recover_succeeds:
  assumes ok: "store_ok C D durable (approved_genesis (c_keccak C) l) x" and h: "hash_ok (c_keccak C)" "length l \<le> 64"
    and P: "P (so_disk x)" and cnt: "so_counter x \<noteq> -1"
    and bar: "durable (so_disk x) Metadata = [[v, m, gb, r, Blob b, i]]" "be_word b \<noteq> (-1 :: u64)"
  shows "\<exists>rep ow' counter' w'. recover C D (so_owner x) (so_counter x) (so_disk x) = (Inr rep, ow', counter', w')"
proof -
  let ?K = "c_keccak C" and ?g = "approved_genesis (c_keccak C) l" and ?ow = "so_owner x" and ?s = "ow_snapshot (so_owner x)"
  obtain counter' where c: "checked_add (so_counter x) 1 = Some counter'" using cnt checked_add_one by blast
  have g: "ow_genesis ?ow = ?g" using ok by (simp add: store_ok_def Let_def)
  obtain s0 present where s0: "replayed C ?g s0" "stored ?K ?g s0 (durable (so_disk x))" "reconcile (ow_attempt ?ow) ?s s0 = Inr present"
    using loaded_reconciles [OF ok] by blast
  obtain w1 where o: "then_do (disk_open D (dk_close D (so_disk x))) (\<lambda>_ w. sql_configure D w) = (Inr (), w1)" "P w1"
    using reopen_succeeds [OF P] by blast
  have w1: "durable w1 = durable (so_disk x)" "sq_autocommit D w1" using open_keeps [OF o(1)] by simp_all
  obtain w2 where a: "sql_audit (sql_of D) (dk_ddl D) C ?g w1 = (Inr s0, w2)" "P w2"
    using audit_succeeds [OF o(2) w1(2) _ s0(1) h] s0(2) w1(1) by auto
  have net: "length (pol_network (ge_policy ?g)) = 32" using approved_network h(1) by (simp add: hash_ok_def)
  have w2: "durable w2 = durable (so_disk x)" "sq_autocommit D w2" using audit_sound [OF a(1) w1(2) net] w1(1) by auto
  obtain w3 where "sql_barrier (sql_of D) (dk_ddl D) ?K ?g s0 (dk_sync_path D) w2 = (Inr (), w3)"
    using barrier_succeeds [OF a(2) w2(2) _ s0(1) h] s0(2) w2(1) bar by auto
  with c g s0 o a show ?thesis by (simp add: recover_def next_generation_def then_do_def)
qed

end

abbreviation mem_well :: "mem \<Rightarrow> bool" where
  "mem_well w \<equiv> mem_sound w \<and> set (mm_schema w) = set (expected_schema mem_ddl) \<and> mm_fault w = None"

interpretation mem_h: healthy_engine mem_disk mem_content mm_durable "\<lambda>w. set (mem_objects w)" mem_well
proof
  show "\<exists>n w'. sq_write mem_disk st w = (Some n, w') \<and> mem_well w'"
    if "mem_well w" "\<not> sq_autocommit mem_disk w" "sql_allowed st (mem_content w)" for w st
  proof -
    from mem_w.P_write [OF _ that(2,3)] that(1) obtain n w' where w': "sq_write mem_disk st w = (Some n, w')" "mem_sound w'" by blast
    moreover from w'(1) have "mm_fault w' = None \<and> mm_schema w' = mm_schema w"
      using mem_writes_keep [of None "mm_durable w" "mm_schema w"] that(1) unfolding writes_keep_def by (metis snd_conv)
    ultimately show ?thesis using that(1) by metis
  qed
qed (auto simp: mem_disk_def mem_objects_def mem_content_def split: option.splits)

text \<open>An interrupted commit on the concrete disk.\<close>

lemma mem_interrupted:
  assumes x: "store_reached trial_crypto mem_disk mm_durable [65] x" "mm_fault (so_disk x) = Some applied"
    "sg \<in> so_staged x" "check_base (so_owner x) (sg_base sg) = Inr ()"
    and P: "mem_sound (so_disk x)" and nc: "no_collision (c_keccak trial_crypto) trial_genesis (history x @ [sg_record sg])"
  shows "\<exists>w'. commit (c_keccak trial_crypto) mem_disk (so_owner x) sg (so_disk x) = (RecoveryRequired uncertain,
     (so_owner x)\<lparr>ow_attempt := Some \<lparr>tr_base = sg_base sg, tr_record = sg_record sg\<rparr>, ow_poisoned := True\<rparr>, w') \<and>
     mem_well w' \<and> (\<not> applied \<longrightarrow> mm_durable w' = mm_durable (so_disk x))"
proof -
  let ?d = "mm_durable (so_disk x)"
  note ok = store_reached_ok [OF mem.sqlite_engine_axioms trial_hash_ok x(1)]
  obtain w0 w1 s' where w0: "sq_begin mem_disk True (so_disk x) = (Some (), w0)"
    and w1: "commit_writes (c_keccak trial_crypto) mem_disk (ow_genesis (so_owner x)) sg s' w0 = (Inr (), w1)" "mem_sound w1"
      "\<not> sq_autocommit mem_disk w1" "sql_linked (mem_content w1)"
    and c: "commit (c_keccak trial_crypto) mem_disk (so_owner x) sg (so_disk x) =
        (case sq_commit mem_disk w1 of
          (Some _, w') \<Rightarrow> (Committed (sn_tip s') (c1_envelope_id (c_keccak trial_crypto) (rd_envelope (sg_record sg))) (rd_outcome (sg_record sg)),
             (so_owner x)\<lparr>ow_snapshot := s', ow_attempt := None\<rparr>, w')
        | (None, w') \<Rightarrow> (RecoveryRequired uncertain, (so_owner x)\<lparr>ow_attempt := Some \<lparr>tr_base = sg_base sg, tr_record = sg_record sg\<rparr>,
             ow_poisoned := True\<rparr>, w'))"
    by (rule mem_w.commit_reaches_disk [OF ok trial_hash_ok _ P nc x(3,4)]) simp
  have m: "?d Metadata \<noteq> []" "mm_open (so_disk x) = None"
    by (rule staged_ready [OF ok trial_facts(2) x(3,4)], auto simp: stored_def mem_disk_def)+
  with w0 x(2) have "mm_fault w0 = Some applied \<and> mm_durable w0 = ?d \<and> mm_schema w0 = mm_schema (so_disk x)" by (auto simp: mem_disk_def)
  then have k: "mm_fault w1 = Some applied" "mm_durable w1 = ?d" "mm_schema w1 = mm_schema (so_disk x)"
    using commit_writes_keep [OF mem_writes_keep _ w1(1)] by blast+
  from w1(3) obtain db where db: "mm_open w1 = Some db" by (auto simp: mem_disk_def)
  have sch: "set (mm_schema w1) = set (expected_schema mem_ddl)" using P m(2) k(3) by (simp add: mem_objects_def)
  define w' where "w' = w1\<lparr>mm_durable := (if applied then db else ?d), mm_schema := (if applied then mm_declared w1 else mm_schema w1),
     mm_open := None, mm_fault := None\<rparr>"
  have "sq_commit mem_disk w1 = (None, w')" using k m db w1(4) by (simp add: mem_disk_def w'_def mem_content_def)
  moreover have "mem_well w'" using w1(2) db sch by (simp add: w'_def mem_objects_def)
  moreover have "\<not> applied \<longrightarrow> mm_durable w' = ?d" by (simp add: w'_def)
  ultimately show ?thesis using c by (intro exI [of _ w']) (simp only: prod.case option.case)
qed

section \<open>Properties\<close>

text \<open>C1. Whatever happens to a store, no accepted block is lost. From creation on, through any interleaving of
  preparing, sealing, receiving, committing and recovering, over a disk on which any call may fail and a failed
  \<open>COMMIT\<close> may or may not have taken effect: the owner's history is a replay of valid blocks, the durable
  tables are at every moment the exact image of one complete replayed history that extends the owner's, they
  are the image of the owner's own history whenever the owner is not poisoned, and histories only grow.\<close>

theorem store_runs_safe:
  assumes "sqlite_engine D content durable" "hash_ok (c_keccak C)"
    and "store_reached C D durable l x" "store_run C D x y"
  shows "replayed C (approved_genesis (c_keccak C) l) (ow_snapshot (so_owner y)) \<and>
     (\<exists>s. replayed C (approved_genesis (c_keccak C) l) s \<and>
        stored (c_keccak C) (approved_genesis (c_keccak C) l) s (durable (so_disk y)) \<and>
        (\<exists>more. sn_records s = history y @ more) \<and> (\<not> ow_poisoned (so_owner y) \<longrightarrow> s = ow_snapshot (so_owner y))) \<and>
     (\<exists>more. history y = history x @ more)"
proof -
  let ?K = "c_keccak C" and ?g = "approved_genesis (c_keccak C) l" and ?ow = "so_owner y"
  have x: "store_ok C D durable ?g x" by (rule store_reached_ok [OF assms(1-3)])
  from sqlite_engine.run_keeps [OF assms(1,4) x] assms(2)
  have y: "store_ok C D durable ?g y" "\<exists>more. history y = history x @ more" unfolding hash_ok_def by blast+
  then have r: "replayed C ?g (ow_snapshot ?ow)" by (simp add: store_ok_def Let_def)
  show ?thesis
  proof (cases "ow_attempt ?ow")
    case None
    with y(1) have "stored ?K ?g (ow_snapshot ?ow) (durable (so_disk y))" by (simp add: store_ok_def Let_def)
    with r y(2) show ?thesis by auto
  next
    case (Some a)
    with y(1) have "ow_poisoned ?ow" "attempt_ok C ?g (ow_snapshot ?ow) a (durable (so_disk y))" by (auto simp: store_ok_def Let_def)
    with r y(2) show ?thesis by (auto simp: attempt_ok_def elim!: snapshot_insert_Inr)
  qed
qed

theorem store_runs_safe_witness:
  "\<exists>x. store_reached trial_crypto mem_disk mm_durable [65] x \<and>
     stored (c_keccak trial_crypto) trial_genesis (ow_snapshot (so_owner x)) (mm_durable (so_disk x))"
proof -
  obtain x :: "mem store" where x: "store_reached trial_crypto mem_disk mm_durable [65] x"
    "so_owner x = idle_owner (snapshot_initial trial_genesis)" by (rule mem_reached)
  with store_runs_safe [OF mem.sqlite_engine_axioms trial_hash_ok x(1) run_start] show ?thesis
    by (auto simp: idle_owner_def)
qed

text \<open>C2. Committing is all or nothing, and the owner always knows which. In any reachable store, committing a
  staged block has one of three results. Committed: memory and the durable tables both hold the history
  extended by exactly the staged record, and the reported position and identifiers are those of the block.
  Aborted: the durable tables are untouched and the owner's history is what it was. Recovery required: the
  owner is poisoned, remembers the attempt, and the durable tables hold either the old history or the
  complete extended one.\<close>

theorem commit_crash_consistent:
  assumes "sqlite_engine D content durable" "hash_ok (c_keccak C)" "store_reached C D durable l x"
    and "sg \<in> so_staged x" "commit (c_keccak C) D (so_owner x) sg (so_disk x) = (out, ow', w')"
  shows "case out of
     Committed p ident outcome \<Rightarrow> \<exists>s'. snapshot_insert (c_keccak C) (sg_record sg) (ow_snapshot (so_owner x)) = Inr s' \<and>
       ow_snapshot ow' = s' \<and> sn_records s' = history x @ [sg_record sg] \<and> \<not> ow_poisoned ow' \<and> p = sn_tip s' \<and>
       ident = c1_envelope_id (c_keccak C) (rd_envelope (sg_record sg)) \<and> outcome = rd_outcome (sg_record sg) \<and>
       stored (c_keccak C) (approved_genesis (c_keccak C) l) s' (durable w')
   | Aborted e \<Rightarrow> ow_snapshot ow' = ow_snapshot (so_owner x) \<and> durable w' = durable (so_disk x)
   | RecoveryRequired e \<Rightarrow> \<exists>s'. snapshot_insert (c_keccak C) (sg_record sg) (ow_snapshot (so_owner x)) = Inr s' \<and>
       ow_poisoned ow' \<and> ow_snapshot ow' = ow_snapshot (so_owner x) \<and>
       ow_attempt ow' = Some \<lparr>tr_base = sg_base sg, tr_record = sg_record sg\<rparr> \<and>
       (stored (c_keccak C) (approved_genesis (c_keccak C) l) (ow_snapshot (so_owner x)) (durable w') \<or>
        stored (c_keccak C) (approved_genesis (c_keccak C) l) s' (durable w'))"
proof (cases "check_base (so_owner x) (sg_base sg)")
  case (Inl e)
  with assms(5) show ?thesis by (auto simp: commit_def)
next
  case (Inr u)
  let ?K = "c_keccak C" and ?g = "approved_genesis (c_keccak C) l" and ?ow = "so_owner x" and ?s = "ow_snapshot (so_owner x)"
  have ok: "store_ok C D durable ?g x" by (rule store_reached_ok [OF assms(1-3)])
  have ids: "proposer_id ?K trial_A \<noteq> proposer_id ?K trial_B" using assms(2) by (simp add: hash_ok_def)
  from Inr have cb: "check_base ?ow (sg_base sg) = Inr ()" by simp
  obtain s' where s: "ow_genesis ?ow = ?g" "sq_autocommit D (so_disk x)" "\<not> ow_poisoned ?ow" "stored ?K ?g ?s (durable (so_disk x))"
    and base: "sg_base sg = owner_base ?ow" and i: "snapshot_insert ?K (sg_record sg) ?s = Inr s'"
    and rs: "sn_records s' = history x @ [sg_record sg]"
    and nxt: "\<forall>db acc. stored ?K ?g ?s db \<longrightarrow> accounting_row (rd_state (sg_record sg)) = Inr acc \<longrightarrow>
       stored ?K ?g s' (committed_db ?K (sg_record sg) (sn_tip ?s) acc db)"
    by (rule staged_ready [OF ok ids assms(4) cb])
  from sqlite_engine.commit_cases [OF assms(1) s(2) base i _ assms(5)] nxt s i rs show ?thesis
    by (cases out) auto
qed

theorem commit_crash_consistent_witness:
  "\<exists>x sg e ow' w'. store_reached trial_crypto mem_disk mm_durable [65] x \<and>
     commit (c_keccak trial_crypto) mem_disk (so_owner x) sg (so_disk x) = (RecoveryRequired e, ow', w') \<and> ow_poisoned ow'"
proof -
  obtain x sg where x: "store_reached trial_crypto mem_disk mm_durable [65] x" "mm_fault (so_disk x) = Some True"
    "sg \<in> so_staged x" "check_base (so_owner x) (sg_base sg) = Inr ()"
    and P: "mem_sound (so_disk x)" and nc: "no_collision (c_keccak trial_crypto) trial_genesis [sg_record sg]"
      "so_owner x = idle_owner (snapshot_initial trial_genesis)"
    by (rule mem_reached)
  from mem_interrupted [OF x] P nc obtain ow' w' where
    c: "commit (c_keccak trial_crypto) mem_disk (so_owner x) sg (so_disk x) = (RecoveryRequired uncertain, ow', w')"
    by (auto simp: idle_owner_def snapshot_initial_def)
  from commit_crash_consistent [OF mem.sqlite_engine_axioms trial_hash_ok x(1,3) c] have "ow_poisoned ow'" by auto
  with x c show ?thesis by blast
qed

text \<open>C7. Recovery resolves an interrupted commit, both ways and never wrongly. In any reachable store whose owner
  remembers an unresolved attempt (also after failed recoveries), a recovery that succeeds installs a ready
  owner over durable tables that are exactly the image of its history, and reports the truth: either the
  attempted block is absent and the history is the one before the attempt, or it is present and the
  history is that one extended by exactly the attempted record.\<close>

theorem interrupted_commit_recovered:
  assumes "sqlite_engine D content durable" "hash_ok (c_keccak C)" "store_reached C D durable l x"
    and "ow_attempt (so_owner x) = Some a"
    and "recover C D (so_owner x) (so_counter x) (so_disk x) = (Inr rep, ow', counter', w')"
  shows "\<not> ow_poisoned ow' \<and> ow_attempt ow' = None \<and> rr_position rep = sn_tip (ow_snapshot ow') \<and>
     stored (c_keccak C) (approved_genesis (c_keccak C) l) (ow_snapshot ow') (durable w') \<and>
     (rr_attempted_present rep = Some False \<and> ow_snapshot ow' = ow_snapshot (so_owner x) \<or>
      rr_attempted_present rep = Some True \<and> sn_records (ow_snapshot ow') = history x @ [tr_record a] \<and>
        snapshot_insert (c_keccak C) (tr_record a) (ow_snapshot (so_owner x)) = Inr (ow_snapshot ow'))"
proof -
  let ?K = "c_keccak C" and ?g = "approved_genesis (c_keccak C) l" and ?ow = "so_owner x" and ?s = "ow_snapshot (so_owner x)"
  have ok: "store_ok C D durable ?g x" by (rule store_reached_ok [OF assms(1-3)])
  then have g: "ow_genesis ?ow = ?g" and s: "replayed C ?g ?s" by (simp_all add: store_ok_def Let_def)
  from ok assms(4) obtain s' where i: "snapshot_insert ?K (tr_record a) ?s = Inr s'" "replayed C ?g s'" "ba_snapshot (tr_base a) = ?s"
    and two: "stored ?K ?g ?s (durable (so_disk x)) \<or> stored ?K ?g s' (durable (so_disk x))"
    by (auto simp: store_ok_def Let_def attempt_ok_def)
  have "length (pol_network (ge_policy ?g)) = 32" using approved_network assms(2) by (simp add: hash_ok_def)
  with sqlite_engine.recover_sound [OF assms(1,5)] g obtain s0 present where
    o: "ow' = ?ow\<lparr>ow_generation := so_counter x, ow_connected := True, ow_snapshot := s0, ow_attempt := None, ow_poisoned := False\<rparr>"
    and s0: "replayed C ?g s0" "stored ?K ?g s0 (durable (so_disk x))" "stored ?K ?g s0 (durable w')"
    and rc: "reconcile (ow_attempt ?ow) ?s s0 = Inr present" and rep: "rep = \<lparr>rr_position = sn_tip s0, rr_attempted_present = present\<rparr>"
    by auto
  note att = reconcile_attempt [of "tr_base a" "tr_record a" ?s s0 present ?s, OF _ i(3)]
  have "s0 = ?s \<or> s0 = s'" using two stored_same [OF s0(2) _ refl s0(1)] s i(2) by blast
  then show ?thesis
  proof
    assume "s0 = ?s"
    with att(1) rc assms(4) o s0(3) rep show ?thesis by (cases a) auto
  next
    assume "s0 = s'"
    moreover have "sn_records s' = history x @ [tr_record a]" using i(1) by (auto elim!: snapshot_insert_Inr)
    ultimately show ?thesis using att(2) rc assms(4) o s0(3) rep i(1) by (cases a) auto
  qed
qed

theorem interrupted_commit_recovered_witness:
  "\<exists>x a rep ow' counter' w'. store_reached trial_crypto mem_disk mm_durable [65] x \<and> ow_attempt (so_owner x) = Some a \<and>
     recover trial_crypto mem_disk (so_owner x) (so_counter x) (so_disk x) = (Inr rep, ow', counter', w') \<and> \<not> ow_poisoned ow'"
proof -
  obtain x sg where x: "store_reached trial_crypto mem_disk mm_durable [65] x" "mm_fault (so_disk x) = Some False"
    "sg \<in> so_staged x" "check_base (so_owner x) (sg_base sg) = Inr ()"
    and y: "so_counter x = 8" "mm_durable (so_disk x) Metadata = [mem_metadata]"
    and P: "mem_sound (so_disk x)" and nc: "no_collision (c_keccak trial_crypto) trial_genesis [sg_record sg]"
      "so_owner x = idle_owner (snapshot_initial trial_genesis)"
    by (rule mem_reached)
  let ?a = "\<lparr>tr_base = sg_base sg, tr_record = sg_record sg\<rparr>"
  from mem_interrupted [OF x] P nc obtain w' where c: "commit (c_keccak trial_crypto) mem_disk (so_owner x) sg (so_disk x) =
      (RecoveryRequired uncertain, (so_owner x)\<lparr>ow_attempt := Some ?a, ow_poisoned := True\<rparr>, w')"
    and w': "mem_well w'" "mm_durable w' = mm_durable (so_disk x)" by (auto simp: idle_owner_def snapshot_initial_def)
  define z where "z = x\<lparr>so_owner := (so_owner x)\<lparr>ow_attempt := Some ?a, ow_poisoned := True\<rparr>, so_disk := w'\<rparr>"
  have z: "store_reached trial_crypto mem_disk mm_durable [65] z"
    unfolding z_def by (rule store_reached_run [OF x(1) step_commit [OF x(3) c]])
  have a: "ow_attempt (so_owner z) = Some ?a" by (simp add: z_def)
  obtain rep ow' counter' v where r: "recover trial_crypto mem_disk (so_owner z) (so_counter z) (so_disk z) = (Inr rep, ow', counter', v)"
    using mem_h.recover_succeeds [OF store_reached_ok [OF mem.sqlite_engine_axioms trial_hash_ok z] trial_hash_ok] w' y
    by (auto simp: z_def)
  from interrupted_commit_recovered [OF mem.sqlite_engine_axioms trial_hash_ok z a r] have "\<not> ow_poisoned ow'" by (rule conjunct1)
  with z a r show ?thesis by blast
qed

text \<open>C26. Recovery does not get stuck. On a disk that works again and enforces the constraints of the schema, a
  reachable store always recovers, whatever state a crash left its owner in: reopening, auditing the whole stored
  history from the genesis, reconciling with the remembered attempt and advancing the write barrier all succeed: the
  schema lets the update of the barrier through and no deferred reference hinders its \<open>COMMIT\<close>. It needs that the two
  counters involved (the generation and the barrier) are not at their last value.\<close>

theorem recovery_succeeds:
  assumes "healthy_engine D content durable objects P" "hash_ok (c_keccak C)" "length l \<le> 64"
    and "store_reached C D durable l x" "P (so_disk x)" "so_counter x \<noteq> -1"
    and "durable (so_disk x) Metadata = [[version, mode, genesis, revision, Blob barrier, initialized]]"
    and "be_word barrier \<noteq> (-1 :: u64)"
  shows "\<exists>rep ow' counter' w'. recover C D (so_owner x) (so_counter x) (so_disk x) = (Inr rep, ow', counter', w') \<and>
     \<not> ow_poisoned ow' \<and> replayed C (approved_genesis (c_keccak C) l) (ow_snapshot ow') \<and>
     (\<exists>more. sn_records (ow_snapshot ow') = history x @ more)"
proof -
  have e: "sqlite_engine D content durable"
    using assms(1) by (simp add: healthy_engine_def writing_engine_def responsive_engine_def)
  note ok = store_reached_ok [OF e assms(2,4)]
  obtain rep ow' counter' w' where r: "recover C D (so_owner x) (so_counter x) (so_disk x) = (Inr rep, ow', counter', w')"
    using healthy_engine.recover_succeeds [OF assms(1) ok assms(2,3,5-8)] by blast
  have dg: "digest32 (c_keccak C)" using assms(2) by (simp add: hash_ok_def)
  have "\<not> ow_poisoned ow'"
    using sqlite_engine.recover_sound [OF e r] approved_network [OF dg] ok by (auto simp: store_ok_def Let_def)
  with sqlite_engine.recover_keeps [OF e ok dg r] r show ?thesis by (auto simp: store_ok_def Let_def)
qed

theorem recovery_succeeds_witness:
  "\<exists>x rep ow' counter' w'. store_reached trial_crypto mem_disk mm_durable [65] x \<and>
     recover trial_crypto mem_disk (so_owner x) (so_counter x) (so_disk x) = (Inr rep, ow', counter', w')"
proof -
  obtain x :: "mem store" where x: "store_reached trial_crypto mem_disk mm_durable [65] x"
    and w: "mm_fault (so_disk x) = None" "mem_sound (so_disk x)" "mm_open (so_disk x) = None"
    and y: "so_counter x = 8" "mm_durable (so_disk x) Metadata = [mem_metadata]"
    by (rule mem_reached)
  from w have "mem_well (so_disk x)" by (simp add: mem_objects_def)
  with y recovery_succeeds [OF mem_h.healthy_engine_axioms trial_hash_ok _ x] x show ?thesis by auto
qed

text \<open>C27. A staged block gets committed. On a disk that works and enforces the constraints of the schema (widths,
  primary and unique keys, the triggers against replacement, foreign keys with the statement or at the \<open>COMMIT\<close>),
  committing a block staged on the owner's current base reports it committed: in the order in which the code
  makes them every one of its statements is let through, and at the \<open>COMMIT\<close> no reference dangles. The base check is
  the only check of a commit that a block staged by this owner can fail, unless two headers or two envelopes of the extended
  history have one digest, which the \<open>UNIQUE\<close> columns refuse.\<close>

theorem staged_block_commits:
  assumes "healthy_engine D content durable objects P" "hash_ok (c_keccak C)" "length l \<le> 64"
    and "store_reached C D durable l x" "P (so_disk x)"
    and "sg \<in> so_staged x" "check_base (so_owner x) (sg_base sg) = Inr ()"
    and "no_collision (c_keccak C) (approved_genesis (c_keccak C) l) (history x @ [sg_record sg])"
  shows "\<exists>s' w'. commit (c_keccak C) D (so_owner x) sg (so_disk x) =
     (Committed (sn_tip s') (c1_envelope_id (c_keccak C) (rd_envelope (sg_record sg))) (rd_outcome (sg_record sg)),
      (so_owner x)\<lparr>ow_snapshot := s', ow_attempt := None\<rparr>, w') \<and> sn_records s' = history x @ [sg_record sg]"
proof -
  have w: "writing_engine D content durable objects P" and e: "sqlite_engine D content durable"
    using assms(1) by (simp_all add: healthy_engine_def writing_engine_def responsive_engine_def)
  note ok = store_reached_ok [OF e assms(2,4)]
  obtain s' w0 w1 where i: "snapshot_insert (c_keccak C) (sg_record sg) (ow_snapshot (so_owner x)) = Inr s'"
    and w1: "P w1" "\<not> sq_autocommit D w1" "sql_linked (content w1)"
    and c: "commit (c_keccak C) D (so_owner x) sg (so_disk x) =
        (case sq_commit D w1 of
          (Some _, w') \<Rightarrow> (Committed (sn_tip s') (c1_envelope_id (c_keccak C) (rd_envelope (sg_record sg))) (rd_outcome (sg_record sg)),
             (so_owner x)\<lparr>ow_snapshot := s', ow_attempt := None\<rparr>, w')
        | (None, w') \<Rightarrow> (RecoveryRequired uncertain, (so_owner x)\<lparr>ow_attempt := Some \<lparr>tr_base = sg_base sg, tr_record = sg_record sg\<rparr>,
             ow_poisoned := True\<rparr>, w'))"
    by (rule writing_engine.commit_reaches_disk [OF w ok assms(2,3,5,8,6,7)])
  obtain w' where "sq_commit D w1 = (Some (), w')" using healthy_engine.P_commit [OF assms(1) w1] by blast
  with c i show ?thesis by (auto elim!: snapshot_insert_Inr)
qed

theorem staged_block_commits_witness:
  "\<exists>x sg s' w'. store_reached trial_crypto mem_disk mm_durable [65] x \<and> snd (snd (commit (c_keccak trial_crypto) mem_disk (so_owner x) sg (so_disk x))) = w' \<and>
     ow_snapshot (fst (snd (commit (c_keccak trial_crypto) mem_disk (so_owner x) sg (so_disk x)))) = s' \<and> sn_records s' = [sg_record sg]"
proof -
  obtain x sg where x: "store_reached trial_crypto mem_disk mm_durable [65] x"
    "sg \<in> so_staged x" "check_base (so_owner x) (sg_base sg) = Inr ()" "so_owner x = idle_owner (snapshot_initial trial_genesis)"
    and w: "mm_fault (so_disk x) = None" "mem_sound (so_disk x)" "mm_open (so_disk x) = None"
    and nc: "no_collision (c_keccak trial_crypto) trial_genesis [sg_record sg]"
    by (rule mem_reached)
  from w have "mem_well (so_disk x)" by (simp add: mem_objects_def)
  from staged_block_commits [OF mem_h.healthy_engine_axioms trial_hash_ok _ x(1) this x(2,3)] nc x show ?thesis
    by (intro exI [of _ x] exI [of _ sg]) (auto simp: snapshot_initial_def idle_owner_def)
qed

text \<open>C25. The audit of a database accepts exactly what commits write. On an engine that answers queries, whatever
  tables and triggers its file declares, the full audit of a database (schema, integrity, policy row, replay of every stored
  block from the genesis, comparison of every table) succeeds with a snapshot if and only if the declared
  tables and triggers are exactly those of the schema, the integrity check reports \<open>ok\<close>, the snapshot is a replayed
  history and the tables are its exact image: nothing tampered with is accepted, nothing committed is refused.\<close>

theorem audit_accepts_exactly:
  assumes "responsive_engine D content durable objects" "hash_ok (c_keccak C)" "length l \<le> 64"
  shows "audit_body (sql_of D) (dk_ddl D) C (approved_genesis (c_keccak C) l) w = Inr s \<longleftrightarrow>
     objects w = set (expected_schema (dk_ddl D)) \<and> sq_integrity D w = Some ''ok'' \<and>
     replayed C (approved_genesis (c_keccak C) l) s \<and> stored (c_keccak C) (approved_genesis (c_keccak C) l) s (content w)"
proof -
  have h: "proposer_id (c_keccak C) trial_A \<noteq> proposer_id (c_keccak C) trial_B" and dg: "digest32 (c_keccak C)"
    using assms(2) by (simp_all add: hash_ok_def)
  have e: "sqlite_engine D content durable" using assms(1) by (simp add: responsive_engine_def)
  let ?g = "approved_genesis (c_keccak C) l"
  note sound = audit_body_sound [of "sql_of D" "dk_ddl D" C ?g w s, OF _ approved_network [OF dg]]
  show ?thesis
  proof
    assume a: "audit_body (sql_of D) (dk_ddl D) C ?g w = Inr s"
    from a have "schema (sql_of D) (dk_ddl D) w = Inr ()" by (simp add: audit_body_def try_res_Inr_iff Let_def)
    with responsive_engine.schema_iff [OF assms(1)] sound(1) [OF a] sqlite_engine.verify_stored [OF e sound(2) [OF a]]
    show "objects w = set (expected_schema (dk_ddl D)) \<and> sq_integrity D w = Some ''ok'' \<and>
       replayed C ?g s \<and> stored (c_keccak C) ?g s (content w)" by blast
  next
    assume r: "objects w = set (expected_schema (dk_ddl D)) \<and> sq_integrity D w = Some ''ok'' \<and>
       replayed C ?g s \<and> stored (c_keccak C) ?g s (content w)"
    then have "answers (sql_of D) (dk_ddl D) w (content w)"
      using responsive_engine.answers_declared [OF assms(1)] stored_references [OF _ h] by blast
    with r audit_complete(1) [OF this _ _ h dg approved_size [OF dg assms(3)]]
    show "audit_body (sql_of D) (dk_ddl D) C ?g w = Inr s" by simp
  qed
qed

theorem audit_accepts_exactly_witness:
  "\<exists>w. audit_body (sql_of mem_disk) (dk_ddl mem_disk) trial_crypto trial_genesis w = Inr (snapshot_initial trial_genesis)"
proof -
  obtain x :: "mem store" where x: "store_reached trial_crypto mem_disk mm_durable [65] x"
    "so_owner x = idle_owner (snapshot_initial trial_genesis)" "mm_open (so_disk x) = None" "mem_sound (so_disk x)" by (rule mem_reached)
  from store_reached_ok [OF mem.sqlite_engine_axioms trial_hash_ok x(1)] x(2,3)
  have "replayed trial_crypto trial_genesis (snapshot_initial trial_genesis)"
    "stored (c_keccak trial_crypto) trial_genesis (snapshot_initial trial_genesis) (mem_content (so_disk x))"
    by (auto simp: store_ok_def Let_def mem_content_def idle_owner_def)
  moreover have "sq_integrity mem_disk w = Some ''ok''" "dk_ddl mem_disk = mem_ddl" for w by (simp_all add: mem_disk_def)
  ultimately show ?thesis
    using audit_accepts_exactly [OF mem_r.responsive_engine_axioms trial_hash_ok, of "[65]" "so_disk x"] x(4)
    by (intro exI [of _ "so_disk x"]) simp
qed

end
