(* ===== verification/Poash_Journal.thy ===== *)
theory Poash_Journal
  imports Poash_Store
begin

text \<open>
  \<open>src/src/native_poash/signing/journal.rs\<close>: the signing journal. Two tables that only grow: a reservation per
  slot, written and synchronized before the slot is signed, and the signed original, written and synchronized
  before it is returned. The journal is a second database file; \<open>journal_disk\<close> offers the calls of \<open>disk\<close>
  on it, with the statements on the journal's own tables. What the statements mean is the interface
  \<open>journal_engine\<close>.
\<close>

section \<open>Errors and intents\<close>

datatype sign_error =
    SOwned
  | SMissing
  | SExists
  | SBlocked
  | SIncomplete u64
  | SConflict u64
  | SApplication app_error
  | SSigning auth_error
  | SInvalid string

definition RESERVATION_DOMAIN :: bytes where
  "RESERVATION_DOMAIN = str ''ETERNIX_C1_SIGN_RESERVATION'' @ [0]"

definition MAX_RESERVATION_BYTES :: nat where
  "MAX_RESERVATION_BYTES = C1_MAX_BLOCK_BYTES + 512"

record intent =
  in_reservation :: bytes
  in_original :: "bytes option"

type_synonym intents = "(u64 \<times> intent) list"

section \<open>The journal's database\<close>

datatype journal_table = J_metadata | Reservations | Originals

datatype journal_write =
    J_execute string
  | Insert_authority bytes bytes
  | Insert_reservation bytes bytes
  | Insert_original bytes bytes bytes bytes
  | J_update_barrier bytes bytes

record 'w journal_disk = "'w disk" +
  jd_select :: "journal_table \<Rightarrow> 'w \<Rightarrow> cell list option list option"
  jd_write :: "journal_write \<Rightarrow> 'w \<Rightarrow> nat option \<times> 'w"
  jd_try_lock :: "'w \<Rightarrow> bool option \<times> 'w"      \<comment> \<open>opening and locking the fence: an error, taken, or acquired\<close>

abbreviation disk_of :: "'w journal_disk \<Rightarrow> 'w disk" where
  "disk_of J \<equiv> disk.truncate J"

lemma disk_of_simps [simp]:
  "dk_exists (disk_of J) = dk_exists J" "dk_open (disk_of J) = dk_open J" "dk_busy_timeout (disk_of J) = dk_busy_timeout J"
  "dk_set_pragmas (disk_of J) = dk_set_pragmas J" "dk_pragmas (disk_of J) = dk_pragmas J"
  by (simp_all add: disk.defs)

abbreviation s_invalid :: "string \<Rightarrow> 'e + 'a \<Rightarrow> sign_error + 'a" where
  "s_invalid msg \<equiv> map_err (\<lambda>_. SInvalid msg)"

definition journal_call :: "unit option \<times> 'w \<Rightarrow> (sign_error + unit) \<times> 'w" where
  "journal_call m = (let (r, w) = m in (ok_or (SInvalid ''sqlite'') r, w))"

definition journal_exec :: "'w journal_disk \<Rightarrow> journal_write \<Rightarrow> 'w \<Rightarrow> (sign_error + nat) \<times> 'w" where
  "journal_exec J st w = (let (r, w') = jd_write J st w in (ok_or (SInvalid ''sqlite'') r, w'))"

definition JOURNAL_TABLES :: "string list" where
  "JOURNAL_TABLES = [''metadata'', ''reservations'', ''originals'']"

definition journal_triggers :: "string list" where
  "journal_triggers = concat (map (\<lambda>t. [''immutable_'' @ t @ ''_update'', ''immutable_'' @ t @ ''_delete'', ''no_replace_'' @ t])
       [''reservations'', ''originals'']) @ [''metadata_policy'', ''metadata_delete'', ''metadata_replace'']"

definition signing_identity :: "genesis \<Rightarrow> text_bytes \<Rightarrow> bytes \<Rightarrow> bytes" where
  "signing_identity g producer key =
     str ''ETERNIX_C1_SIGN_AUTHORITY'' @ [0] @ be_bytes (1 :: u32) @ pol_network (ge_policy g) @ be_bytes POASH_RULES @
     be_bytes HEADER_PROFILE @ [INNER_WIRE, OUTER_WIRE, AUTH_ENCODING] @ be_bytes AUTH_RULES @ key @ text_field producer"

definition journal_configure :: "'w journal_disk \<Rightarrow> 'w \<Rightarrow> (sign_error + unit) \<times> 'w" where
  "journal_configure J w =
     (let (r, w) = disk_configure (disk_of J) w in
      then_do (s_invalid ''configure'' r, w) (\<lambda>_ w.
      (try_res (ok_or (SInvalid ''sqlite'') (pg_cache_size (dk_pragmas J w))) (\<lambda>cache.
       try_res (ok_or (SInvalid ''sqlite'') (pg_cache_spill (dk_pragmas J w))) (\<lambda>spill.
       if cache \<noteq> -2000 \<or> spill \<le> 0 then Inl (SInvalid ''signer default cache/spill'') else Inr ())), w)))"

definition journal_schema :: "'w journal_disk \<Rightarrow> 'w \<Rightarrow> sign_error + unit" where
  "journal_schema J w =
     try_res (ok_or (SInvalid ''sqlite'') (sq_schema_rows J w)) (\<lambda>actual.
     if set actual \<noteq> set (map (\<lambda>n. ((''table'', n), dk_ddl J n)) JOURNAL_TABLES @
          map (\<lambda>n. ((''trigger'', n), dk_ddl J n)) journal_triggers) then Inl (SInvalid ''exact signing schema1'')
     else try_res (ok_or (SInvalid ''sqlite'') (sq_integrity J w)) (\<lambda>integrity.
     if integrity \<noteq> ''ok'' then Inl (SInvalid ''signer integrity'')
     else try_res (ok_or (SInvalid ''sqlite'') (sq_foreign_key_violation J w)) (\<lambda>violated.
     if violated then Inl (SInvalid ''signer foreign keys'') else Inr ())))"

definition journal_blob :: "cell \<Rightarrow> nat \<Rightarrow> nat \<Rightarrow> sign_error + bytes" where
  "journal_blob c lo hi = (case c of
     Blob b \<Rightarrow> if lo \<le> length b \<and> length b \<le> hi then Inr b else Inl (SInvalid ''bounded signing BLOB'')
   | _ \<Rightarrow> Inl (SInvalid ''bounded signing BLOB''))"

definition journal_policy :: "'w journal_disk \<Rightarrow> genesis \<Rightarrow> text_bytes \<Rightarrow> bytes \<Rightarrow> 'w \<Rightarrow> sign_error + unit" where
  "journal_policy J g producer key w =
     try_res (ok_or (SInvalid ''sqlite'') (sq_count_metadata J w)) (\<lambda>count.
     if count \<noteq> 1 then Inl (SInvalid ''signing identity singleton'')
     else try_res (ok_or (SInvalid ''sqlite'') (jd_select J J_metadata w)) (\<lambda>cursor.
     case cursor of
       [] \<Rightarrow> Inl (SInvalid ''signing metadata absent'')
     | Some [version, mode, identity, barrier] # _ \<Rightarrow>
         try_res (journal_blob version 4 4) (\<lambda>v.
         if v \<noteq> be_bytes (1 :: u32) \<or> mode \<noteq> Text (str ''c1-signing-authority'') then Inl (SInvalid ''independent authority identity'')
         else try_res (journal_blob identity 1 256) (\<lambda>i.
         if i \<noteq> signing_identity g producer key then Inl (SInvalid ''independent authority identity'')
         else try_res (journal_blob barrier 8 8) (\<lambda>_. Inr ())))
     | _ \<Rightarrow> Inl (SInvalid ''sqlite'')))"

fun journal_execs :: "'w journal_disk \<Rightarrow> journal_write list \<Rightarrow> 'w \<Rightarrow> (sign_error + unit) \<times> 'w" where
  "journal_execs J [] w = (Inr (), w)"
| "journal_execs J (st # sts) w = then_do (journal_exec J st w) (\<lambda>_ w. journal_execs J sts w)"

definition journal_initialize :: "'w journal_disk \<Rightarrow> genesis \<Rightarrow> text_bytes \<Rightarrow> bytes \<Rightarrow> 'w \<Rightarrow> (sign_error + unit) \<times> 'w" where
  "journal_initialize J g producer key w =
     then_do (journal_call (sq_begin J True w)) (\<lambda>_ w.
     then_do (journal_execs J (map (\<lambda>n. J_execute (dk_ddl J n)) (JOURNAL_TABLES @ journal_triggers)) w) (\<lambda>_ w.
     then_do (journal_exec J (Insert_authority (signing_identity g producer key) (be_bytes (0 :: u64))) w) (\<lambda>_ w.
     journal_call (sq_commit J w))))"

section \<open>Reservations\<close>

definition decode_fields :: "hasher \<Rightarrow> bytes \<Rightarrow> genesis \<Rightarrow> text_bytes \<Rightarrow> bytes \<Rightarrow> app_error + c1_block \<times> hash" where
  "decode_fields K bs g producer key =
     (if length bs > MAX_RESERVATION_BYTES then Inl (ACodec ''reservation bound'')
      else
      let context = (\<lambda>b c. if b then c else Inl (ACodec ''reservation context'')) in
      try_res (app_take (length RESERVATION_DOMAIN) (start_cursor bs)) (\<lambda>(domain, d). context (domain = RESERVATION_DOMAIN) (
      try_res (app_take 4 d) (\<lambda>(version, d). context (be_word version = (1 :: u32)) (
      try_res (app_take 32 d) (\<lambda>(network, d). context (network = pol_network (ge_policy g)) (
      try_res (app_take 4 d) (\<lambda>(rules, d). context (be_word rules = POASH_RULES) (
      try_res (app_take 4 d) (\<lambda>(profile, d). context (be_word profile = HEADER_PROFILE) (
      try_res (app_take 3 d) (\<lambda>(wires, d). context (wires = [INNER_WIRE, OUTER_WIRE, AUTH_ENCODING]) (
      try_res (app_take 4 d) (\<lambda>(auth, d). context (be_word auth = AUTH_RULES) (
      try_res (app_take 33 d) (\<lambda>(k, d). context (k = key) (
      try_res (map_err AProtocol (poash_text 7 d)) (\<lambda>(p, d). context (p = producer) (
      try_res (app_take 8 d) (\<lambda>(slot, d).
      try_res (app_take 32 d) (\<lambda>(hash, d).
      try_res (app_take 32 d) (\<lambda>(parent, d).
      try_res (app_take (32 * 4) d) (\<lambda>(_, d).
      try_res (app_take 32 d) (\<lambda>(candidate, d).
      try_res (app_take 4 d) (\<lambda>(len, d).
      let len = unat (be_word len :: u32) in
      if \<not> (295 \<le> len \<and> len \<le> C1_MAX_BLOCK_BYTES) then Inl (ACodec ''reserved block length'')
      else try_res (app_take len d) (\<lambda>(inner, d).
      try_res (block_from_wire_bytes K inner) (\<lambda>block.
      if at d \<noteq> length bs \<or> c1_block_hash K block \<noteq> hash \<or> bh_slot (hc_header (cb_claim block)) \<noteq> be_word slot \<or>
         bh_parent_hash (hc_header (cb_claim block)) \<noteq> parent \<or> hc_producer (cb_claim block) \<noteq> producer
      then Inl (ACodec ''exact reserved block'')
      else Inr (block, candidate))))))))))))))))))))))))))))"

definition decode_reservation :: "hasher \<Rightarrow> bytes \<Rightarrow> genesis \<Rightarrow> text_bytes \<Rightarrow> bytes \<Rightarrow> sign_error + c1_block \<times> hash" where
  "decode_reservation K bs g producer key = map_err SApplication (decode_fields K bs g producer key)"

section \<open>Reading the journal\<close>

text \<open>The two loops of \<open>read\<close>, over the rows of a cursor.\<close>

definition read_reservation :: "hasher \<Rightarrow> genesis \<Rightarrow> text_bytes \<Rightarrow> bytes \<Rightarrow> cell list \<Rightarrow> intents \<Rightarrow> sign_error + intents" where
  "read_reservation K g producer key row ints = (case row of
     [slot, res] \<Rightarrow>
       if length ints \<ge> unat MAX_SLOTS then Inl (SInvalid ''reservation row bound'')
       else try_res (journal_blob slot 8 8) (\<lambda>slot.
       try_res (journal_blob res 295 MAX_RESERVATION_BYTES) (\<lambda>bs.
       try_res (decode_reservation K bs g producer key) (\<lambda>(block, _).
       if bh_slot (hc_header (cb_claim block)) \<noteq> be_word slot then Inl (SInvalid ''reservation slot index'')
       else Inr (bm_insert (be_word slot) \<lparr>in_reservation = bs, in_original = None\<rparr> ints))))
   | _ \<Rightarrow> Inl (SInvalid ''sqlite''))"

fun read_reservations :: "hasher \<Rightarrow> genesis \<Rightarrow> text_bytes \<Rightarrow> bytes \<Rightarrow> cell list option list \<Rightarrow> intents \<Rightarrow> sign_error + intents" where
  "read_reservations K g producer key [] ints = Inr ints"
| "read_reservations K g producer key (None # rows) ints = Inl (SInvalid ''sqlite'')"
| "read_reservations K g producer key (Some row # rows) ints =
     try_res (read_reservation K g producer key row ints) (read_reservations K g producer key rows)"

definition read_original :: "'k crypto \<Rightarrow> genesis \<Rightarrow> text_bytes \<Rightarrow> bytes \<Rightarrow> bool \<Rightarrow> cell list \<Rightarrow> intents \<Rightarrow> sign_error + intents" where
  "read_original C g producer key auth row ints = (let K = c_keccak C in case row of
     [slot, env, sig, ident] \<Rightarrow>
       try_res (journal_blob slot 8 8) (\<lambda>slot.
       try_res (journal_blob env 402 C1_MAX_ENVELOPE_BYTES) (\<lambda>bs.
       try_res (map_err SApplication (c1_envelope_from_wire_bytes K bs)) (\<lambda>e.
       try_res (ok_or (SInvalid ''original without reservation'') (map_of ints (be_word slot))) (\<lambda>i.
       try_res (decode_reservation K (in_reservation i) g producer key) (\<lambda>(reserved, _).
       if ce_block e \<noteq> reserved \<or> ce_network e \<noteq> pol_network (ge_policy g) then Inl (SInvalid ''original exact reservation/S/E-ID'')
       else try_res (journal_blob sig 65 65) (\<lambda>s.
       if ce_signature e \<noteq> s then Inl (SInvalid ''original exact reservation/S/E-ID'')
       else try_res (journal_blob ident 32 32) (\<lambda>h.
       if c1_envelope_id K e \<noteq> h then Inl (SInvalid ''original exact reservation/S/E-ID'')
       else try_res (if auth then try_res (map_err SApplication (c1_envelope_authenticate C e g)) (\<lambda>_. Inr ()) else Inr ()) (\<lambda>_.
       Inr (bm_insert (be_word slot) (i\<lparr>in_original := Some bs\<rparr>) ints)))))))))
   | _ \<Rightarrow> Inl (SInvalid ''sqlite''))"

fun read_originals :: "'k crypto \<Rightarrow> genesis \<Rightarrow> text_bytes \<Rightarrow> bytes \<Rightarrow> bool \<Rightarrow> u64 \<Rightarrow> cell list option list \<Rightarrow> intents \<Rightarrow> sign_error + intents" where
  "read_originals C g producer key auth n [] ints = Inr ints"
| "read_originals C g producer key auth n (None # rows) ints = Inl (SInvalid ''sqlite'')"
| "read_originals C g producer key auth n (Some row # rows) ints =
     (if n + 1 > MAX_SLOTS then Inl (SInvalid ''original row bound'')
      else try_res (read_original C g producer key auth row ints) (read_originals C g producer key auth (n + 1) rows))"

definition journal_read :: "'k crypto \<Rightarrow> 'w journal_disk \<Rightarrow> genesis \<Rightarrow> text_bytes \<Rightarrow> bytes \<Rightarrow> bool \<Rightarrow> 'w \<Rightarrow> sign_error + intents" where
  "journal_read C J g producer key auth w =
     try_res (journal_schema J w) (\<lambda>_.
     try_res (journal_policy J g producer key w) (\<lambda>_.
     try_res (ok_or (SInvalid ''sqlite'') (jd_select J Reservations w)) (\<lambda>rows.
     try_res (read_reservations (c_keccak C) g producer key rows []) (\<lambda>ints.
     try_res (ok_or (SInvalid ''sqlite'') (jd_select J Originals w)) (\<lambda>rows.
     read_originals C g producer key auth 0 rows ints)))))"

definition journal_verify :: "'k crypto \<Rightarrow> 'w journal_disk \<Rightarrow> genesis \<Rightarrow> text_bytes \<Rightarrow> bytes \<Rightarrow> intents \<Rightarrow> 'w \<Rightarrow> sign_error + unit" where
  "journal_verify C J g producer key known w =
     try_res (journal_read C J g producer key False w) (\<lambda>ints.
     if ints \<noteq> known then Inl (SInvalid ''exact known signing base'') else Inr ())"

definition journal_load :: "'k crypto \<Rightarrow> 'w journal_disk \<Rightarrow> genesis \<Rightarrow> text_bytes \<Rightarrow> bytes \<Rightarrow> 'w \<Rightarrow> (sign_error + intents) \<times> 'w" where
  "journal_load C J g producer key w =
     then_do (journal_call (sq_begin J False w)) (\<lambda>_ w.
     let result = journal_read C J g producer key True w; (end_r, w) = journal_call (sq_rollback J w) in
     (try_res result (\<lambda>v. try_res end_r (\<lambda>_. Inr v)), w))"

definition journal_barrier ::
  "'k crypto \<Rightarrow> 'w journal_disk \<Rightarrow> genesis \<Rightarrow> text_bytes \<Rightarrow> bytes \<Rightarrow> intents \<Rightarrow> 'w \<Rightarrow> (sign_error + unit) \<times> 'w" where
  "journal_barrier C J g producer key known w =
     then_do (journal_call (sq_begin J True w)) (\<lambda>_ w.
     then_do (journal_verify C J g producer key known w, w) (\<lambda>_ w.
     then_do (try_res (ok_or (SInvalid ''sqlite'') (jd_select J J_metadata w)) (\<lambda>cursor.
        case cursor of Some [_, _, _, Blob old] # _ \<Rightarrow> (if length old = 8 then Inr old else Inl (SInvalid ''sqlite''))
        | _ \<Rightarrow> Inl (SInvalid ''sqlite'')), w) (\<lambda>old w.
     then_do (ok_or (SInvalid ''signer barrier exhausted'') (checked_add (be_word old :: u64) 1), w) (\<lambda>next w.
     then_do (journal_exec J (J_update_barrier (be_bytes next) old) w) (\<lambda>n w.
     then_do (if n \<noteq> 1 then Inl (SInvalid ''signer barrier CAS'') else Inr (), w) (\<lambda>_ w.
     then_do (journal_call (sq_commit J w)) (\<lambda>_ w. journal_call (dk_sync_path J w))))))))"

end
