(* ===== verification/Poash_Signing.thy ===== *)
theory Poash_Signing
  imports Poash_Journal
begin

text \<open>
  \<open>src/src/native_poash/signing.rs\<close>: the signing authority, which reserves a slot durably before signing it and
  retains the signed original durably before returning it. It works on two databases: the owner's (state \<open>w\<close>, the
  parameter \<open>D\<close>) and its own journal (state \<open>v\<close>, the parameter \<open>J\<close>). The retry loop inside the prehash
  signer may not end, so that \<open>sign_prepared\<close> returns an option. Timings are left out.
\<close>

section \<open>Reservations\<close>

definition reservation :: "hasher \<Rightarrow> slot_start_view \<Rightarrow> hash \<Rightarrow> bytes \<Rightarrow> c1_block \<Rightarrow> hash \<Rightarrow> bytes" where
  "reservation K view evidence key block candidate =
     (let inner = block_wire_bytes K block in
      RESERVATION_DOMAIN @ be_bytes (1 :: u32) @ pol_network (ge_policy (sv_genesis view)) @ be_bytes POASH_RULES @
      be_bytes HEADER_PROFILE @ [INNER_WIRE, OUTER_WIRE, AUTH_ENCODING] @ be_bytes AUTH_RULES @ key @
      text_field (hc_producer (cb_claim block)) @ be_bytes (sv_slot view) @ c1_block_hash K block @ po_hash (sv_parent view) @
      cs_id (sv_state view) @ pc_id (sv_prefix view) @ sv_id view @ evidence @ candidate @
      be_bytes (of_nat (length inner) :: u32) @ inner)"

record sign_report =
  sr_committed :: "u64 list"
  sr_pending :: "u64 list"
  sr_incomplete :: "u64 list"
  sr_attempted_present :: "bool option"

text \<open>One intent of \<open>reconcile\<close>, then the loop over all of them.\<close>

definition reconcile_intent ::
  "hasher \<Rightarrow> genesis \<Rightarrow> text_bytes \<Rightarrow> bytes \<Rightarrow> owner \<Rightarrow> c1_snapshot \<Rightarrow> u64 \<Rightarrow> intent \<Rightarrow> sign_report \<Rightarrow> sign_error + sign_report" where
  "reconcile_intent K g producer key ow s slot i report =
     try_res (map_err SApplication (signing_history K ow slot)) (\<lambda>(view, evidence).
     if sv_genesis view \<noteq> g then Inl (SInvalid ''independent signer/owner genesis differs'')
     else try_res (decode_reservation K (in_reservation i) g producer key) (\<lambda>(block, candidate).
     try_res (map_err (\<lambda>e. SApplication (AProtocol e)) (view_select K view)) (\<lambda>selection.
     if reservation K view evidence key block candidate \<noteq> in_reservation i \<or> sl_owner selection \<noteq> producer \<or>
        sl_ticket selection \<noteq> bh_ticket_id (hc_header (cb_claim block))
     then Inl (SConflict slot)
     else
       let n = unat (slot - 1) in
       (case (in_original i, if n < length (sn_records s) then Some (sn_records s ! n) else None) of
          (None, None) \<Rightarrow> Inr (report\<lparr>sr_incomplete := sr_incomplete report @ [slot]\<rparr>)
        | (Some bs, Some r) \<Rightarrow>
            if bs \<noteq> c1_envelope_wire_bytes K (rd_envelope r) \<or> candidate \<noteq> cs_id (rd_state r) then Inl (SConflict slot)
            else Inr (report\<lparr>sr_committed := sr_committed report @ [slot]\<rparr>)
        | (Some _, None) \<Rightarrow> Inr (report\<lparr>sr_pending := sr_pending report @ [slot]\<rparr>)
        | (None, Some _) \<Rightarrow> Inl (SInvalid ''canonical signature absent from protection'')))))"

fun reconcile_intents ::
  "hasher \<Rightarrow> genesis \<Rightarrow> text_bytes \<Rightarrow> bytes \<Rightarrow> owner \<Rightarrow> c1_snapshot \<Rightarrow> intents \<Rightarrow> sign_report \<Rightarrow> sign_error + sign_report" where
  "reconcile_intents K g producer key ow s [] report = Inr report"
| "reconcile_intents K g producer key ow s ((slot, i) # ints) report =
     try_res (reconcile_intent K g producer key ow s slot i report) (reconcile_intents K g producer key ow s ints)"

definition sign_reconcile ::
  "hasher \<Rightarrow> intents \<Rightarrow> genesis \<Rightarrow> text_bytes \<Rightarrow> bytes \<Rightarrow> owner \<Rightarrow> sign_error + sign_report" where
  "sign_reconcile K ints g producer key ow =
     try_res (map_err SApplication (owner_view ow)) (\<lambda>s.
     try_res (map_err SApplication (signing_history K ow 1)) (\<lambda>(view, _).
     if sv_genesis view \<noteq> g then Inl (SInvalid ''independent signer/owner genesis differs'')
     else try_res (reconcile_intents K g producer key ow s ints
            \<lparr>sr_committed = [], sr_pending = [], sr_incomplete = [], sr_attempted_present = None\<rparr>) (\<lambda>report.
     if \<exists>r \<in> set (sn_records s). hc_producer (cb_claim (rd_block r)) = producer \<and> map_of ints (po_slot (rd_position r)) = None
     then Inl (SInvalid ''own-key canonical history lacks original signing protection'')
     else Inr report)))"

section \<open>The authority\<close>

record authority =
  sa_genesis :: genesis
  sa_producer :: text_bytes
  sa_public_key :: bytes
  sa_key :: signer
  sa_connected :: bool
  sa_intents :: intents
  sa_poisoned :: bool
  sa_generation :: u64
  sa_signing_calls :: u64
  sa_attempt :: "(intents \<times> intents) option"    \<comment> \<open>\<open>before\<close> and \<open>after\<close>\<close>

record signed_original =
  og_bytes :: bytes
  og_id :: hash

definition sign_ready :: "authority \<Rightarrow> owner \<Rightarrow> sign_error + unit" where
  "sign_ready sa ow =
     (if sa_poisoned sa \<or> ow_poisoned ow \<or> ow_halted ow \<or> sa_generation sa \<noteq> ow_generation ow then Inl SBlocked else Inr ())"

abbreviation authority_reconcile :: "hasher \<Rightarrow> authority \<Rightarrow> owner \<Rightarrow> sign_error + sign_report" where
  "authority_reconcile K sa ow \<equiv> sign_reconcile K (sa_intents sa) (sa_genesis sa) (sa_producer sa) (sa_public_key sa) ow"

definition sign_status :: "hasher \<Rightarrow> authority \<Rightarrow> owner \<Rightarrow> sign_error + sign_report" where
  "sign_status K sa ow = try_res (sign_ready sa ow) (\<lambda>_. authority_reconcile K sa ow)"

definition make_original :: "hasher \<Rightarrow> bytes \<Rightarrow> sign_error + signed_original" where
  "make_original K bs =
     try_res (map_err SApplication (c1_envelope_from_wire_bytes K bs)) (\<lambda>e. Inr \<lparr>og_bytes = bs, og_id = c1_envelope_id K e\<rparr>)"

text \<open>\<open>persist\<close>. The lookup of \<open>slot\<close> in \<open>next\<close> cannot fail where it is called; the source indexes there.\<close>

definition persist_insert ::
  "'k crypto \<Rightarrow> 'w journal_disk \<Rightarrow> intent \<Rightarrow> u64 \<Rightarrow> bool \<Rightarrow> 'w \<Rightarrow> (sign_error + unit) \<times> 'w" where
  "persist_insert C J i slot completed v =
     (if completed then
        (case in_original i of
           None \<Rightarrow> (Inl (SInvalid ''complete original''), v)
         | Some bs \<Rightarrow>
             then_do (map_err SApplication (c1_envelope_from_wire_bytes (c_keccak C) bs), v) (\<lambda>e v.
             then_do (journal_exec J (Insert_original (be_bytes slot) bs (ce_signature e) (c1_envelope_id (c_keccak C) e)) v) (\<lambda>_ v.
             (Inr (), v))))
      else then_do (journal_exec J (Insert_reservation (be_bytes slot) (in_reservation i)) v) (\<lambda>_ v. (Inr (), v)))"

definition persist ::
  "'k crypto \<Rightarrow> 'w journal_disk \<Rightarrow> authority \<Rightarrow> intents \<Rightarrow> u64 \<Rightarrow> bool \<Rightarrow> 'w \<Rightarrow> (sign_error + unit) \<times> authority \<times> 'w" where
  "persist C J sa next slot completed v =
     (let sa = sa\<lparr>sa_attempt := Some (sa_intents sa, next)\<rparr>;
          (r, v) =
            then_do (journal_call (sq_begin J True v)) (\<lambda>_ v.
            then_do (journal_verify C J (sa_genesis sa) (sa_producer sa) (sa_public_key sa) (sa_intents sa) v, v) (\<lambda>_ v.
            then_do (ok_or (SInvalid ''slot'') (map_of next slot), v) (\<lambda>i v.
            then_do (persist_insert C J i slot completed v) (\<lambda>_ v.
            then_do (journal_call (sq_commit J v)) (\<lambda>_ v.
            journal_call (dk_sync_path J v))))))
      in case r of Inl e \<Rightarrow> (Inl e, sa, v) | Inr _ \<Rightarrow> (Inr (), sa\<lparr>sa_intents := next, sa_attempt := None\<rparr>, v))"

text \<open>The closure of \<open>sign_prepared\<close>, from the reservation on; every error in it poisons the authority.\<close>

definition sign_reserved ::
  "'k crypto \<Rightarrow> 'w journal_disk \<Rightarrow> authority \<Rightarrow> prepared_block \<Rightarrow> u64 \<Rightarrow> bytes \<Rightarrow> 'w \<Rightarrow>
   ((sign_error + signed_original) \<times> authority \<times> 'w) option" where
  "sign_reserved C J sa pb slot res v =
     (case persist C J sa (bm_insert slot \<lparr>in_reservation = res, in_original = None\<rparr> (sa_intents sa)) slot False v of
        (Inl e, sa, v) \<Rightarrow> Some (Inl e, sa, v)
      | (Inr _, sa, v) \<Rightarrow>
     (case checked_add (sa_signing_calls sa) 1 of
        None \<Rightarrow> Some (Inl (SInvalid ''signing diagnostic counter exhausted''), sa, v)
      | Some calls \<Rightarrow>
     let sa = sa\<lparr>sa_signing_calls := calls\<rparr>; network = pol_network (ge_policy (sa_genesis sa)) in
     (case sign_digest C (sa_key sa) (claim_signing_digest (c_keccak C) (cb_claim (pb_block pb)) network) of
        None \<Rightarrow> None
      | Some (Inl e) \<Rightarrow> Some (Inl (SSigning e), sa, v)
      | Some (Inr signature) \<Rightarrow>
     let bs = c1_envelope_wire_bytes (c_keccak C) \<lparr>ce_block = pb_block pb, ce_network = network, ce_signature = signature\<rparr> in
     (case map_of (sa_intents sa) slot of
        None \<Rightarrow> Some (Inl (SInvalid ''durable reservation''), sa, v)
      | Some i \<Rightarrow>
     (case persist C J sa (bm_insert slot (i\<lparr>in_original := Some bs\<rparr>) (sa_intents sa)) slot True v of
        (Inl e, sa, v) \<Rightarrow> Some (Inl e, sa, v)
      | (Inr _, sa, v) \<Rightarrow> Some (make_original (c_keccak C) bs, sa, v))))))"

definition poison_authority ::
  "(sign_error + signed_original) \<times> authority \<times> 'w \<Rightarrow> (sign_error + signed_original) \<times> authority \<times> 'w" where
  "poison_authority res = (case res of (Inl e, sa, v) \<Rightarrow> (Inl e, sa\<lparr>sa_poisoned := True\<rparr>, v) | (Inr og, sa, v) \<Rightarrow> (Inr og, sa, v))"

text \<open>The checks of \<open>sign_prepared\<close> before the reservation: the slot and the exact bytes to reserve.\<close>

definition sign_checks ::
  "hasher \<Rightarrow> 'u disk \<Rightarrow> authority \<Rightarrow> owner \<Rightarrow> prepared_block \<Rightarrow> 'u \<Rightarrow> (sign_error + u64 \<times> bytes) \<times> 'u" where
  "sign_checks K D sa ow pb w =
     then_do (sign_ready sa ow, w) (\<lambda>_ w.
     then_do (let (r, w) = signing_view K D ow pb w in (map_err SApplication r, w)) (\<lambda>view w.
     then_do (authority_reconcile K sa ow, w) (\<lambda>_ w.
     then_do (if hc_producer (cb_claim (pb_block pb)) \<noteq> sa_producer sa then Inl (SInvalid ''not configured selected producer'') else Inr (), w) (\<lambda>_ w.
     then_do (map_err SApplication (signing_history K ow (sv_slot view)), w) (\<lambda>(_, evidence) w.
     (Inr (sv_slot view, reservation K view evidence (sa_public_key sa) (pb_block pb) (cs_id (pb_candidate pb))), w))))))"

definition sign_prepared ::
  "'k crypto \<Rightarrow> 'u disk \<Rightarrow> 'w journal_disk \<Rightarrow> authority \<Rightarrow> owner \<Rightarrow> prepared_block \<Rightarrow> 'u \<Rightarrow> 'w \<Rightarrow>
   ((sign_error + signed_original) \<times> authority \<times> 'u \<times> 'w) option" where
  "sign_prepared C D J sa ow pb w v =
     (case sign_checks (c_keccak C) D sa ow pb w of
        (Inl e, w) \<Rightarrow> Some (Inl e, sa, w, v)
      | (Inr (slot, res), w) \<Rightarrow>
     (case map_of (sa_intents sa) slot of
        Some old \<Rightarrow>
          Some (if in_reservation old \<noteq> res then Inl (SConflict slot)
                else try_res (ok_or (SIncomplete slot) (in_original old)) (make_original (c_keccak C)), sa, w, v)
      | None \<Rightarrow>
     (case find (\<lambda>(_, i). in_original i = None) (sa_intents sa) of
        Some (s, _) \<Rightarrow> Some (Inl (SIncomplete s), sa, w, v)
      | None \<Rightarrow>
          map_option (\<lambda>res. let (r, sa, v) = poison_authority res in (r, sa, w, v)) (sign_reserved C J sa pb slot res v))))"

definition authority_original :: "hasher \<Rightarrow> authority \<Rightarrow> owner \<Rightarrow> u64 \<Rightarrow> sign_error + signed_original" where
  "authority_original K sa ow slot =
     try_res (sign_ready sa ow) (\<lambda>_.
     try_res (authority_reconcile K sa ow) (\<lambda>_.
     try_res (ok_or (SInvalid ''no retained slot'') (map_of (sa_intents sa) slot)) (\<lambda>i.
     try_res (ok_or (SIncomplete slot) (in_original i)) (make_original K))))"

definition check_application :: "hasher \<Rightarrow> authority \<Rightarrow> owner \<Rightarrow> u64 \<Rightarrow> staged_block \<Rightarrow> sign_error + unit" where
  "check_application K sa ow slot stage =
     try_res (sign_ready sa ow) (\<lambda>_.
     try_res (authority_reconcile K sa ow) (\<lambda>_.
     try_res (ok_or (SInvalid ''unreserved application'') (map_of (sa_intents sa) slot)) (\<lambda>i.
     try_res (decode_reservation K (in_reservation i) (sa_genesis sa) (sa_producer sa) (sa_public_key sa)) (\<lambda>(_, candidate).
     if in_original i \<noteq> Some (c1_envelope_wire_bytes K (rd_envelope (sg_record stage))) \<or>
        cs_id (rd_state (sg_record stage)) \<noteq> candidate
     then Inl (SConflict slot) else Inr ()))))"

definition reconcile_attempt_with :: "authority \<Rightarrow> intents \<Rightarrow> sign_error + bool option" where
  "reconcile_attempt_with sa loaded = (case sa_attempt sa of
     Some (before, after) \<Rightarrow>
       if loaded = after then Inr (Some True) else if loaded = before then Inr (Some False)
       else Inl (SInvalid ''different exact signing attempt'')
   | None \<Rightarrow> if loaded \<noteq> sa_intents sa then Inl (SInvalid ''known signing originals/reservations changed'') else Inr None)"

definition sign_recover ::
  "'k crypto \<Rightarrow> 'w journal_disk \<Rightarrow> authority \<Rightarrow> owner \<Rightarrow> 'w \<Rightarrow> (sign_error + sign_report) \<times> authority \<times> 'w" where
  "sign_recover C J sa ow v =
     (let sa = sa\<lparr>sa_poisoned := True, sa_connected := False\<rparr>; g = sa_genesis sa; p = sa_producer sa; k = sa_public_key sa;
          (r, v) = disk_open (disk_of J) (dk_close J v) in
      case then_do (s_invalid ''open'' r, v) (\<lambda>_ v. journal_configure J v) of
        (Inl e, v) \<Rightarrow> (Inl e, sa, v)
      | (Inr _, v) \<Rightarrow>
      let sa = sa\<lparr>sa_connected := True\<rparr> in
      (case then_do (journal_load C J g p k v) (\<lambda>loaded v.
            then_do (reconcile_attempt_with sa loaded, v) (\<lambda>present v.
            then_do (sign_reconcile (c_keccak C) loaded g p k ow, v) (\<lambda>report v.
            then_do (journal_barrier C J g p k loaded v) (\<lambda>_ v.
            (Inr (loaded, report\<lparr>sr_attempted_present := present\<rparr>), v))))) of
         (Inl e, v) \<Rightarrow> (Inl e, sa, v)
       | (Inr (loaded, report), v) \<Rightarrow>
           (Inr report, sa\<lparr>sa_intents := loaded, sa_attempt := None, sa_generation := ow_generation ow, sa_poisoned := False\<rparr>, v)))"

definition open_authority ::
  "'k crypto \<Rightarrow> 'w journal_disk \<Rightarrow> genesis \<Rightarrow> text_bytes \<Rightarrow> 'k \<Rightarrow> signer \<Rightarrow> owner \<Rightarrow> bool \<Rightarrow> 'w \<Rightarrow> (sign_error + authority) \<times> 'w" where
  "open_authority C J g producer verifying_key key ow create v =
     then_do (ok_or (SInvalid ''unknown signer'') (find (\<lambda>c. vc_id c = producer) (pol_configs (ge_policy g))), v) (\<lambda>configured v.
     let pk = vc_public_key configured in
     then_do (if c_to_encoded_point C verifying_key True \<noteq> pk then Inl (SInvalid ''configured signer key mismatch'') else Inr (), v) (\<lambda>_ v.
     then_do (case jd_try_lock J v of (None, v) \<Rightarrow> (Inl (SInvalid ''fence''), v) | (Some False, v) \<Rightarrow> (Inl SOwned, v) | (Some True, v) \<Rightarrow> (Inr (), v)) (\<lambda>_ v.
     then_do (if create then
         then_do (map_err SApplication (owner_view ow), v) (\<lambda>s v.
         if po_slot (sn_tip s) \<noteq> 0 then (Inl (SInvalid ''fresh signing protection requires independent slot0''), v)
         else (case dk_create_new J v of (Created, v) \<Rightarrow> (Inr (), v) | (Already_exists, v) \<Rightarrow> (Inl SExists, v)
               | (Not_created, v) \<Rightarrow> (Inl (SInvalid ''create''), v)))
       else (case dk_exists J v of None \<Rightarrow> (Inl (SInvalid ''exists''), v) | Some False \<Rightarrow> (Inl SMissing, v) | Some True \<Rightarrow> (Inr (), v))) (\<lambda>_ v.
     then_do (let (r, v) = disk_open (disk_of J) v in (s_invalid ''open'' r, v)) (\<lambda>_ v.
     then_do (journal_configure J v) (\<lambda>_ v.
     then_do (if create then then_do (journal_initialize J g producer pk v) (\<lambda>_ v. journal_call (dk_sync_path J v)) else (Inr (), v)) (\<lambda>_ v.
     then_do (journal_load C J g producer pk v) (\<lambda>ints v.
     then_do (sign_reconcile (c_keccak C) ints g producer pk ow, v) (\<lambda>_ v.
     then_do (journal_barrier C J g producer pk ints v) (\<lambda>_ v.
     (Inr \<lparr>sa_genesis = g, sa_producer = producer, sa_public_key = pk, sa_key = key, sa_connected = True, sa_intents = ints,
           sa_poisoned = False, sa_generation = ow_generation ow, sa_signing_calls = 0, sa_attempt = None\<rparr>, v)))))))))))"

end
