(* ===== verification/Signing_Safety.thy ===== *)
theory Signing_Safety
  imports Poash_Signing
begin

text \<open>
  What the signing authority of \<open>src/src/native_poash/signing.rs\<close> guarantees over its whole life, through crashes,
  restarts and recoveries: it signs at most one block per slot, and every original it ever returns for a slot is the
  same. \<open>journal_engine\<close> is what it relies on of the journal's database; runs of the authority are sequences
  of steps beside a log of the signed claims and of the returned originals.
\<close>

section \<open>The interface of the journal's database\<close>

type_synonym jdb = "journal_table \<Rightarrow> cell list list"

definition first_blob :: "cell list \<Rightarrow> bytes" where
  "first_blob row = (case row of c # _ \<Rightarrow> cell_bytes c | [] \<Rightarrow> [])"

fun journal_apply :: "journal_write \<Rightarrow> jdb \<Rightarrow> jdb" where
  "journal_apply (J_execute _) db = db"
| "journal_apply (Insert_authority ident bar) db =
     db(J_metadata := db J_metadata @ [[Blob (be_bytes (1 :: u32)), Text (str ''c1-signing-authority''), Blob ident, Blob bar]])"
| "journal_apply (Insert_reservation slot res) db =
     db(Reservations := put_row first_blob [Blob slot, Blob res] (db Reservations))"
| "journal_apply (Insert_original slot bs sig ident) db =
     db(Originals := put_row first_blob [Blob slot, Blob bs, Blob sig, Blob ident] (db Originals))"
| "journal_apply (J_update_barrier new old) db =
     db(J_metadata := map (\<lambda>r. if r ! 3 = Blob old then r[3 := Blob new] else r) (db J_metadata))"

locale journal_engine =
  fixes J :: "'w journal_disk" and content :: "'w \<Rightarrow> jdb" and durable :: "'w \<Rightarrow> jdb"
  assumes j_select: "jd_select J t v = Some rows \<Longrightarrow> None \<notin> set rows \<Longrightarrow> rows = map Some (content v t)"
    and j_write: "\<not> sq_autocommit J v \<Longrightarrow> jd_write J st v = (changed, v') \<Longrightarrow> durable v' = durable v \<and>
      (changed \<noteq> None \<longrightarrow> \<not> sq_autocommit J v' \<and> content v' = journal_apply st (content v))"
    and j_begin: "sq_autocommit J v \<Longrightarrow> sq_begin J b v = (r, v') \<Longrightarrow> durable v' = durable v \<and>
      (r = None \<longrightarrow> sq_autocommit J v') \<and> (r = Some () \<longrightarrow> \<not> sq_autocommit J v' \<and> content v' = durable v')"
    and j_commit: "\<not> sq_autocommit J v \<Longrightarrow> sq_commit J v = (r, v') \<Longrightarrow>
      (r = Some () \<longrightarrow> durable v' = content v \<and> sq_autocommit J v') \<and>
      (r = None \<longrightarrow> durable v' = durable v \<or> durable v' = content v)"
    and j_rollback: "sq_rollback J v = (r, v') \<Longrightarrow> durable v' = durable v \<and> (r = Some () \<longrightarrow> sq_autocommit J v')"
    and j_close: "durable (dk_close J v) = durable v"
    and j_open: "dk_open J v = (r, v') \<Longrightarrow> durable v' = durable v \<and> (r = Some () \<longrightarrow> sq_autocommit J v')"
    and j_settings: "dk_busy_timeout J v = (r, v') \<or> dk_set_pragmas J v = (r, v') \<or> dk_sync_path J v = (r, v') \<Longrightarrow>
      durable v' = durable v \<and> sq_autocommit J v' = sq_autocommit J v"
    and j_lock: "jd_try_lock J v = (q, v') \<Longrightarrow> durable v' = durable v"
    and j_create: "dk_create_new J v = (c, v') \<Longrightarrow> durable v' = durable v \<and> (c = Created \<longrightarrow> durable v = (\<lambda>_. []))"

section \<open>What a read says of the tables\<close>

definition reserved :: "jdb \<Rightarrow> u64 \<Rightarrow> bool" where
  "reserved db s \<longleftrightarrow> (\<exists>row \<in> set (db Reservations). first_blob row = be_bytes s)"

definition original_in :: "jdb \<Rightarrow> u64 \<Rightarrow> bytes \<Rightarrow> bool" where
  "original_in db s bs \<longleftrightarrow> (\<exists>sig ident. [Blob (be_bytes s), Blob bs, Blob sig, Blob ident] \<in> set (db Originals))"

definition same_rows :: "jdb \<Rightarrow> jdb \<Rightarrow> bool" where
  "same_rows db db' \<longleftrightarrow> db' Reservations = db Reservations \<and> db' Originals = db Originals"

lemma same_rows_facts:
  assumes "same_rows db db'"
  shows "reserved db' = reserved db" "original_in db' = original_in db"
  using assms by (auto simp: same_rows_def reserved_def original_in_def fun_eq_iff)

lemma journal_blob_Inr: "journal_blob c lo hi = Inr b \<longleftrightarrow> c = Blob b \<and> lo \<le> length b \<and> length b \<le> hi"
  by (cases c) (auto simp: journal_blob_def)

lemma be_slot [simp]: "length b = 8 \<Longrightarrow> be_bytes (be_word b :: u64) = b"
  by (simp add: be_bytes_be_word)

lemma read_reservation_Inr:
  assumes "read_reservation K g p k row ints = Inr ints'"
  obtains s r where "row = [Blob (be_bytes s), Blob r]" "ints' = bm_insert s \<lparr>in_reservation = r, in_original = None\<rparr> ints"
proof -
  from assms obtain b r where "row = [Blob b, Blob r]" "length b = 8"
    "ints' = bm_insert (be_word b) \<lparr>in_reservation = r, in_original = None\<rparr> ints"
    unfolding read_reservation_def
    by (auto simp: try_res_Inr_iff journal_blob_Inr split: list.splits if_splits prod.splits)
  then show thesis by (intro that [of "be_word b"]) simp_all
qed

lemma read_reservations_Inr:
  assumes "read_reservations K g p k (map Some rows) ints = Inr ints'" "\<forall>i \<in> ran (map_of ints). in_original i = None"
  shows "(\<forall>row \<in> set rows. \<exists>s. first_blob row = be_bytes s \<and> map_of ints' s \<noteq> None) \<and>
     dom (map_of ints) \<subseteq> dom (map_of ints') \<and> (\<forall>i \<in> ran (map_of ints'). in_original i = None)"
  using assms
proof (induction rows arbitrary: ints)
  case (Cons row rows)
  from Cons.prems(1) obtain mid where m: "read_reservation K g p k row ints = Inr mid" and
    r: "read_reservations K g p k (map Some rows) mid = Inr ints'" by (auto simp: try_res_Inr_iff)
  from m obtain s r where sr: "row = [Blob (be_bytes s), Blob r]" "mid = bm_insert s \<lparr>in_reservation = r, in_original = None\<rparr> ints"
    by (rule read_reservation_Inr)
  have "\<forall>i \<in> ran (map_of mid). in_original i = None"
    using Cons.prems(2) by (auto simp: sr(2) map_of_bm_insert ran_def)
  from Cons.IH [OF r this] have ih: "\<forall>row \<in> set rows. \<exists>s. first_blob row = be_bytes s \<and> map_of ints' s \<noteq> None"
    "dom (map_of mid) \<subseteq> dom (map_of ints')" "\<forall>i \<in> ran (map_of ints'). in_original i = None" by blast+
  have "map_of ints' s \<noteq> None" "dom (map_of ints) \<subseteq> dom (map_of ints')" using ih(2) by (auto simp: sr(2) map_of_bm_insert)
  with ih sr(1) show ?case by (auto simp: first_blob_def)
qed simp

text \<open>The originals read so far are exactly those recorded in the intents.\<close>

definition originals_match :: "intents \<Rightarrow> cell list list \<Rightarrow> bool" where
  "originals_match ints rows \<longleftrightarrow>
     (\<forall>row \<in> set rows. \<exists>(s :: u64) bs sig ident. row = [Blob (be_bytes s), Blob bs, Blob sig, Blob ident]) \<and>
     (\<forall>s i. map_of ints s = Some i \<longrightarrow>
        (\<forall>bs. in_original i = Some bs \<longrightarrow> (\<exists>sig ident. [Blob (be_bytes s), Blob bs, Blob sig, Blob ident] \<in> set rows)) \<and>
        (in_original i = None \<longrightarrow> (\<forall>row \<in> set rows. first_blob row \<noteq> be_bytes s)))"

lemma be_bytes_u64_inj [simp]: "be_bytes (a :: u64) = be_bytes b \<longleftrightarrow> a = b"
proof
  assume "be_bytes a = be_bytes b"
  then have "(be_word (be_bytes a) :: u64) = be_word (be_bytes b)" by simp
  then show "a = b" by simp
qed simp

lemma read_original_match:
  assumes "read_original C g p k auth row ints = Inr ints'" "originals_match ints rows"
  shows "originals_match ints' (rows @ [row]) \<and> dom (map_of ints) \<subseteq> dom (map_of ints')"
proof -
  from assms(1) obtain b bs sig ident i where row: "row = [Blob b, Blob bs, Blob sig, Blob ident]" "length b = 8"
    and i: "map_of ints (be_word b) = Some i" "ints' = bm_insert (be_word b) (i\<lparr>in_original := Some bs\<rparr>) ints"
    unfolding read_original_def Let_def
    by (auto simp: try_res_Inr_iff journal_blob_Inr split: list.splits if_splits prod.splits)
  define s :: u64 where "s = be_word b"
  have b: "b = be_bytes s" using row(2) by (simp add: s_def)
  have i': "map_of ints s = Some i" "ints' = bm_insert s (i\<lparr>in_original := Some bs\<rparr>) ints" using i by (simp_all add: s_def)
  show ?thesis
    using assms(2) unfolding originals_match_def row(1) b i'(2) map_of_bm_insert
    by (auto simp: first_blob_def)
qed

lemma read_originals_match:
  assumes "read_originals C g p k auth n (map Some rows) ints = Inr ints'" "originals_match ints before"
  shows "originals_match ints' (before @ rows) \<and> dom (map_of ints) \<subseteq> dom (map_of ints')"
  using assms
proof (induction rows arbitrary: n ints before)
  case (Cons row rows)
  from Cons.prems(1) obtain mid where m: "read_original C g p k auth row ints = Inr mid"
    and r: "read_originals C g p k auth (n + 1) (map Some rows) mid = Inr ints'" by (auto simp: try_res_Inr_iff split: if_splits)
  from read_original_match [OF m Cons.prems(2)] Cons.IH [OF r, of "before @ [row]"] show ?case by auto
qed simp

lemma read_reservations_rows:
  "read_reservations K g p k rows ints = Inr ints' \<Longrightarrow> None \<notin> set rows"
proof (induction rows arbitrary: ints)
  case (Cons r rows)
  then show ?case by (cases r) (auto simp: try_res_Inr_iff)
qed simp

lemma read_originals_rows:
  "read_originals C g p k auth n rows ints = Inr ints' \<Longrightarrow> None \<notin> set rows"
proof (induction rows arbitrary: ints n)
  case (Cons r rows)
  then show ?case by (cases r) (auto simp: try_res_Inr_iff split: if_splits)
qed simp

section \<open>Effects of the journal's operations\<close>

lemma put_row_set: "set (put_row k r xs) \<subseteq> insert r (set xs)" "r \<in> set (put_row k r xs)"
  "x \<in> set xs \<Longrightarrow> k x \<noteq> k r \<Longrightarrow> x \<in> set (put_row k r xs)"
  by (induction xs) auto

lemma reserved_insert: "reserved (journal_apply (Insert_reservation (be_bytes s) res) db) t \<longleftrightarrow> reserved db t \<or> t = s"
proof
  assume "reserved (journal_apply (Insert_reservation (be_bytes s) res) db) t"
  then show "reserved db t \<or> t = s"
    using put_row_set(1) [of first_blob "[Blob (be_bytes s), Blob res]" "db Reservations"]
    by (fastforce simp: reserved_def first_blob_def)
next
  assume t: "reserved db t \<or> t = s"
  show "reserved (journal_apply (Insert_reservation (be_bytes s) res) db) t"
  proof (cases "t = s")
    case True
    then show ?thesis using put_row_set(2) [of "[Blob (be_bytes s), Blob res]" first_blob "db Reservations"]
      by (auto simp: reserved_def first_blob_def intro!: bexI)
  next
    case False
    with t obtain row where "row \<in> set (db Reservations)" "first_blob row = be_bytes t" by (auto simp: reserved_def)
    with False put_row_set(3) [of row "db Reservations" first_blob "[Blob (be_bytes s), Blob res]"] show ?thesis
      by (auto simp: reserved_def first_blob_def)
  qed
qed

lemma original_insert:
  assumes "originals_match ints (db Originals)" "map_of ints s = Some i" "in_original i = None"
  shows "original_in (journal_apply (Insert_original (be_bytes s) bs sig ident) db) t bs' \<longleftrightarrow> original_in db t bs' \<or> t = s \<and> bs' = bs"
proof -
  let ?r = "[Blob (be_bytes s), Blob bs, Blob sig, Blob ident]"
  have fresh: "first_blob row \<noteq> be_bytes s" if "row \<in> set (db Originals)" for row
    using assms that by (auto simp: originals_match_def)
  then have "set (put_row first_blob ?r (db Originals)) = insert ?r (set (db Originals))"
    using put_row_set [where k = first_blob and r = ?r and xs = "db Originals"] by (auto simp: first_blob_def)
  then show ?thesis by (auto simp: original_in_def)
qed

text \<open>Verified under the write lock, one row is inserted; whatever fails afterwards, the durable tables are
  the old ones or hold exactly that row more.\<close>

definition inserts :: "authority \<Rightarrow> intents \<Rightarrow> u64 \<Rightarrow> bool \<Rightarrow> jdb \<Rightarrow> jdb \<Rightarrow> bool" where
  "inserts sa next slot completed db db' \<longleftrightarrow>
     (\<forall>s. reserved db s \<longrightarrow> map_of (sa_intents sa) s \<noteq> None) \<and> originals_match (sa_intents sa) (db Originals) \<and>
     (\<exists>i. map_of next slot = Some i \<and>
       (if completed then \<exists>bs sig ident. in_original i = Some bs \<and> db' = journal_apply (Insert_original (be_bytes slot) bs sig ident) db
        else db' = journal_apply (Insert_reservation (be_bytes slot) (in_reservation i)) db))"

context journal_engine
begin

lemma read_facts:
  assumes "journal_read C J g p k auth v = Inr ints"
  shows "reserved (content v) s \<Longrightarrow> map_of ints s \<noteq> None" and "originals_match ints (content v Originals)"
proof -
  from assms obtain rs os mid where r: "jd_select J Reservations v = Some rs" "read_reservations (c_keccak C) g p k rs [] = Inr mid"
    and o: "jd_select J Originals v = Some os" "read_originals C g p k auth 0 os mid = Inr ints"
    unfolding journal_read_def by (auto simp: try_res_Inr_iff)
  have rs: "rs = map Some (content v Reservations)" using j_select [OF r(1)] read_reservations_rows [OF r(2)] by blast
  have os: "os = map Some (content v Originals)" using j_select [OF o(1)] read_originals_rows [OF o(2)] by blast
  from read_reservations_Inr [OF r(2) [unfolded rs]] have 1: "\<forall>row \<in> set (content v Reservations). \<exists>s. first_blob row = be_bytes s \<and> map_of mid s \<noteq> None"
    "\<forall>i \<in> ran (map_of mid). in_original i = None" by simp_all
  have "originals_match mid []" using 1(2) by (auto simp: originals_match_def ran_def)
  from read_originals_match [OF o(2) [unfolded os] this]
  have 2: "originals_match ints (content v Originals)" "dom (map_of mid) \<subseteq> dom (map_of ints)" by simp_all
  show "originals_match ints (content v Originals)" by (rule 2)
  show "map_of ints s \<noteq> None" if "reserved (content v) s"
    using that 1(1) 2(2) by (fastforce simp: reserved_def)
qed

lemma persist_insert_effect:
  assumes "\<not> sq_autocommit J v" "persist_insert C J i slot completed v = (r, v')"
  shows "durable v' = durable v \<and> (r = Inr () \<longrightarrow> \<not> sq_autocommit J v' \<and>
     (if completed then \<exists>bs sig ident. in_original i = Some bs \<and> content v' = journal_apply (Insert_original (be_bytes slot) bs sig ident) (content v)
      else content v' = journal_apply (Insert_reservation (be_bytes slot) (in_reservation i)) (content v)))"
  using assms(2) j_write [OF assms(1)] unfolding persist_insert_def
  by (auto simp: then_do_def journal_exec_def Let_def split: if_splits option.splits prod.splits sum.splits)

end

section \<open>Growth of the journal\<close>

definition functional :: "jdb \<Rightarrow> bool" where
  "functional db \<longleftrightarrow> (\<forall>s bs bs'. original_in db s bs \<longrightarrow> original_in db s bs' \<longrightarrow> bs = bs')"

definition grows :: "jdb \<Rightarrow> jdb \<Rightarrow> bool" where
  "grows db db' \<longleftrightarrow> (\<forall>s. reserved db s \<longrightarrow> reserved db' s) \<and> (\<forall>s bs. original_in db s bs \<longrightarrow> original_in db' s bs) \<and>
     (functional db \<longrightarrow> functional db')"

definition remembers :: "intents \<Rightarrow> jdb \<Rightarrow> bool" where
  "remembers ints db \<longleftrightarrow> (\<forall>s i bs. map_of ints s = Some i \<longrightarrow> in_original i = Some bs \<longrightarrow> original_in db s bs)"

lemma grows_refl [simp]: "grows db db"
  by (simp add: grows_def)

lemma grows_trans [trans]: "grows a b \<Longrightarrow> grows b c \<Longrightarrow> grows a c"
  by (auto simp: grows_def)

lemma same_rows_grows: "same_rows a b \<Longrightarrow> grows a b"
  by (simp add: grows_def functional_def same_rows_facts)

lemma remembers_grows: "remembers ints a \<Longrightarrow> grows a b \<Longrightarrow> remembers ints b"
  by (auto simp: remembers_def grows_def)

lemma match_remembers: "originals_match ints (db Originals) \<Longrightarrow> remembers ints db"
  by (auto simp: originals_match_def remembers_def original_in_def)

lemma inserts_reservation:
  assumes "inserts sa next slot False db db'"
  shows "grows db db'" "reserved db' slot" "reserved db slot \<Longrightarrow> map_of (sa_intents sa) slot \<noteq> None"
    "remembers (sa_intents sa) db" "db' Originals = db Originals"
proof -
  from assms obtain i :: intent where a: "\<forall>s. reserved db s \<longrightarrow> map_of (sa_intents sa) s \<noteq> None" "originals_match (sa_intents sa) (db Originals)"
    and d: "db' = journal_apply (Insert_reservation (be_bytes slot) (in_reservation i)) db"
    unfolding inserts_def by (auto simp del: journal_apply.simps)
  show o: "db' Originals = db Originals" by (simp add: d)
  then have oi: "original_in db' = original_in db" by (simp add: original_in_def fun_eq_iff)
  show "grows db db'" using oi by (simp add: grows_def functional_def) (simp add: d reserved_insert del: journal_apply.simps)
  show "reserved db' slot" by (simp add: d reserved_insert del: journal_apply.simps)
  show "map_of (sa_intents sa) slot \<noteq> None" if "reserved db slot" using a(1) that by blast
  show "remembers (sa_intents sa) db" by (rule match_remembers [where db = db, OF a(2)])
qed

lemma inserts_original:
  assumes "inserts sa (bm_insert slot (i\<lparr>in_original := Some bs\<rparr>) (sa_intents sa)) slot True db db'"
    and i: "map_of (sa_intents sa) slot = Some i" "in_original i = None"
  shows "grows db db'" "original_in db' slot bs" "remembers (bm_insert slot (i\<lparr>in_original := Some bs\<rparr>) (sa_intents sa)) db'"
proof -
  from assms(1) obtain sig ident where m: "originals_match (sa_intents sa) (db Originals)"
    and d: "db' = journal_apply (Insert_original (be_bytes slot) bs sig ident) db"
    unfolding inserts_def by (auto simp: map_of_bm_insert simp del: journal_apply.simps)
  have oi: "original_in db' t b \<longleftrightarrow> original_in db t b \<or> t = slot \<and> b = bs" for t b
    unfolding d by (rule original_insert [where db = db, OF m i])
  have none: "\<not> original_in db slot b" for b using m i by (force simp: originals_match_def original_in_def first_blob_def)
  have "reserved db' = reserved db" by (simp add: d reserved_def fun_eq_iff)
  then show "grows db db'" using none by (auto simp: grows_def functional_def oi)
  show "original_in db' slot bs" by (simp add: oi)
  show "remembers (bm_insert slot (i\<lparr>in_original := Some bs\<rparr>) (sa_intents sa)) db'"
    using match_remembers [where db = db, OF m] by (auto simp: remembers_def oi map_of_bm_insert)
qed

context journal_engine
begin

lemma persist_effect:
  assumes idle: "sq_autocommit J v" and run: "persist C J sa next slot completed v = (r, sa', v')"
  shows "(durable v' = durable v \<or> inserts sa next slot completed (durable v) (durable v')) \<and>
     (case r of Inl e \<Rightarrow> sa' = sa\<lparr>sa_attempt := Some (sa_intents sa, next)\<rparr>
      | Inr _ \<Rightarrow> inserts sa next slot completed (durable v) (durable v') \<and> sq_autocommit J v' \<and>
          sa' = sa\<lparr>sa_intents := next, sa_attempt := None\<rparr>)"
proof -
  let ?sa = "sa\<lparr>sa_attempt := Some (sa_intents sa, next)\<rparr>"
  obtain r1 v1 where b: "sq_begin J True v = (r1, v1)" by force
  note be = j_begin [OF idle b]
  show ?thesis
  proof (cases "r1 = Some () \<and> journal_verify C J (sa_genesis sa) (sa_producer sa) (sa_public_key sa) (sa_intents sa) v1 = Inr () \<and> map_of next slot \<noteq> None")
    case False
    with run b be show ?thesis
      by (auto simp: persist_def then_do_def journal_call_def Let_def split: option.splits sum.splits)
  next
    case True
    then obtain i where i: "map_of next slot = Some i" by blast
    from True have rd: "journal_read C J (sa_genesis sa) (sa_producer sa) (sa_public_key sa) False v1 = Inr (sa_intents sa)"
      by (auto simp: journal_verify_def try_res_Inr_iff split: if_splits)
    from True be have v1: "\<not> sq_autocommit J v1" "content v1 = durable v" "durable v1 = durable v" by auto
    obtain r2 v2 where p: "persist_insert C J i slot completed v1 = (r2, v2)" by force
    note pe = persist_insert_effect [OF v1(1) p]
    show ?thesis
    proof (cases r2)
      case (Inl e)
      with run b p True i pe v1 show ?thesis by (auto simp: persist_def then_do_def journal_call_def Let_def)
    next
      case (Inr u)
      with pe have v2: "\<not> sq_autocommit J v2" "durable v2 = durable v" using v1 by auto
      have ins: "inserts sa next slot completed (durable v) (content v2)"
        using pe Inr read_facts [OF rd] i v1(2) by (auto simp: inserts_def)
      obtain r3 v3 where c: "sq_commit J v2 = (r3, v3)" by force
      note ce = j_commit [OF v2(1) c]
      obtain r4 v4 where y: "dk_sync_path J v3 = (r4, v4)" by force
      have se: "durable v4 = durable v3" "sq_autocommit J v4 = sq_autocommit J v3" using j_settings y by blast+
      show ?thesis
        using run b p c y True i Inr ce se ins v2
        by (cases r3; cases r4) (auto simp: persist_def then_do_def journal_call_def Let_def)
    qed
  qed
qed

end

context journal_engine
begin

lemma sign_reserved_effect:
  assumes idle: "sq_autocommit J v" and none: "map_of (sa_intents sa) slot = None"
    and run: "sign_reserved C J sa pb slot res v = Some (r, sa', v')"
  shows "grows (durable v) (durable v') \<and>
     (sa_signing_calls sa' \<noteq> sa_signing_calls sa \<longrightarrow> \<not> reserved (durable v) slot \<and> reserved (durable v') slot) \<and>
     (\<forall>og. r = Inr og \<longrightarrow> original_in (durable v') slot (og_bytes og) \<and> sq_autocommit J v' \<and> remembers (sa_intents sa') (durable v'))"
proof -
  let ?next = "bm_insert slot \<lparr>in_reservation = res, in_original = None\<rparr> (sa_intents sa)"
  obtain r1 sa1 v1 where p: "persist C J sa ?next slot False v = (r1, sa1, v1)" by (metis prod_cases3)
  note pe = persist_effect [OF idle p]
  have g1: "grows (durable v) (durable v1)" using pe inserts_reservation(1) by auto
  show ?thesis
  proof (cases r1)
    case (Inl e)
    with run p pe g1 show ?thesis by (auto simp: sign_reserved_def)
  next
    case (Inr u)
    with pe have ins: "inserts sa ?next slot False (durable v) (durable v1)" and v1: "sq_autocommit J v1"
      and sa1: "sa1 = sa\<lparr>sa_intents := ?next, sa_attempt := None\<rparr>" by simp_all
    note res = inserts_reservation [OF ins]
    have fresh: "\<not> reserved (durable v) slot" using res(3) none by blast
    show ?thesis
    proof (cases "\<exists>calls sig. checked_add (sa_signing_calls sa1) 1 = Some calls \<and>
        sign_digest C (sa_key sa1) (claim_signing_digest (c_keccak C) (cb_claim (pb_block pb)) (pol_network (ge_policy (sa_genesis sa1)))) = Some (Inr sig)")
      case False
      with run p Inr g1 res(2) fresh show ?thesis
        by (auto simp: sign_reserved_def Let_def split: option.splits sum.splits)
    next
      case True
      then obtain calls sig where cs: "checked_add (sa_signing_calls sa1) 1 = Some calls"
        "sign_digest C (sa_key sa1) (claim_signing_digest (c_keccak C) (cb_claim (pb_block pb)) (pol_network (ge_policy (sa_genesis sa1)))) = Some (Inr sig)"
        by blast
      let ?sa = "sa1\<lparr>sa_signing_calls := calls\<rparr>"
      let ?i = "\<lparr>in_reservation = res, in_original = None\<rparr>"
      have i: "map_of (sa_intents ?sa) slot = Some ?i" by (simp add: sa1 map_of_bm_insert)
      define bs where "bs = c1_envelope_wire_bytes (c_keccak C) \<lparr>ce_block = pb_block pb,
        ce_network = pol_network (ge_policy (sa_genesis sa1)), ce_signature = sig\<rparr>"
      let ?next2 = "bm_insert slot (?i\<lparr>in_original := Some bs\<rparr>) (sa_intents ?sa)"
      obtain r2 sa2 v2 where p2: "persist C J ?sa ?next2 slot True v1 = (r2, sa2, v2)" by (metis prod_cases3)
      note pe2 = persist_effect [OF v1 p2]
      have g2: "grows (durable v1) (durable v2)" using pe2 inserts_original(1) [OF _ i] by auto
      have g: "grows (durable v) (durable v2)" and rv: "reserved (durable v2) slot"
        using g1 g2 res(2) by (auto simp: grows_def)
      have run2: "(r, sa', v') = (case r2 of Inl e \<Rightarrow> (Inl e, sa2, v2) | Inr _ \<Rightarrow> (make_original (c_keccak C) bs, sa2, v2))"
        using run p Inr cs i p2 by (simp add: sign_reserved_def Let_def sa1 bs_def split: sum.splits)
      show ?thesis
      proof (cases r2)
        case (Inl e)
        with run2 g rv fresh show ?thesis by simp
      next
        case (Inr u2)
        with pe2 have ins2: "inserts ?sa ?next2 slot True (durable v1) (durable v2)" and v2: "sq_autocommit J v2"
          and sa2: "sa2 = ?sa\<lparr>sa_intents := ?next2, sa_attempt := None\<rparr>" by simp_all
        from run2 Inr have "\<forall>og. r = Inr og \<longrightarrow> og_bytes og = bs" by (auto simp: make_original_def try_res_Inr_iff)
        with inserts_original(2,3) [OF ins2 i] run2 Inr g rv fresh v2 sa2 show ?thesis by simp
      qed
    qed
  qed
qed

lemma sign_reserved_keeps:
  assumes "sign_reserved C J sa pb slot res v = Some (r, sa', v')"
  shows "sa_poisoned sa' = sa_poisoned sa" "sa_genesis sa' = sa_genesis sa"
  using assms
  by (auto simp: sign_reserved_def persist_def Let_def split: option.splits sum.splits prod.splits)

lemma barrier_effect:
  assumes idle: "sq_autocommit J v" and run: "journal_barrier C J g p k ints v = (r, v')"
  shows "same_rows (durable v) (durable v') \<and> (r = Inr () \<longrightarrow> sq_autocommit J v' \<and> remembers ints (durable v'))"
proof -
  obtain r1 v1 where b: "sq_begin J True v = (r1, v1)" by force
  note be = j_begin [OF idle b]
  have same: "same_rows db db" for db by (simp add: same_rows_def)
  show ?thesis
  proof (cases "\<exists>old next cursor. r1 = Some () \<and> journal_verify C J g p k ints v1 = Inr () \<and> jd_select J J_metadata v1 = Some cursor \<and>
      (case cursor of Some [_, _, _, Blob b] # _ \<Rightarrow> (if length b = 8 then Inr b else Inl (SInvalid ''sqlite''))
        | _ \<Rightarrow> Inl (SInvalid ''sqlite'')) = Inr old \<and> checked_add (be_word old :: u64) 1 = Some next")
    case False
    have "v' = v1 \<and> (\<exists>e. r = Inl e)"
      using run b False unfolding journal_barrier_def
      by (auto simp: then_do_def journal_call_def Let_def try_res_def split: sum.splits option.splits) (metis)
    with be same show ?thesis by auto
  next
    case True
    then obtain old "next" cursor where t: "r1 = Some ()" "journal_verify C J g p k ints v1 = Inr ()"
      "jd_select J J_metadata v1 = Some cursor" "(case cursor of Some [_, _, _, Blob b] # _ \<Rightarrow> (if length b = 8 then Inr b else Inl (SInvalid ''sqlite''))
        | _ \<Rightarrow> Inl (SInvalid ''sqlite'')) = Inr old" "checked_add (be_word old :: u64) 1 = Some next" by blast
    from t(1) be have v1: "\<not> sq_autocommit J v1" "content v1 = durable v" "durable v1 = durable v" by auto
    from t(2) have rd: "journal_read C J g p k False v1 = Inr ints"
      by (auto simp: journal_verify_def try_res_Inr_iff split: if_splits)
    have rem: "remembers ints (durable v)" using match_remembers [where db = "content v1", OF read_facts(2) [OF rd]] v1(2) by simp
    let ?u = "J_update_barrier (be_bytes next) old"
    obtain n v2 where w: "jd_write J ?u v1 = (n, v2)" by force
    note we = j_write [OF v1(1) w]
    obtain r3 v3 where c: "sq_commit J v2 = (r3, v3)" by force
    obtain r4 v4 where y: "dk_sync_path J v3 = (r4, v4)" by force
    have se: "durable v4 = durable v3" "sq_autocommit J v4 = sq_autocommit J v3" using j_settings y by blast+
    have sm: "same_rows (durable v) (journal_apply ?u (durable v))" by (simp add: same_rows_def)
    have rm: "remembers ints (journal_apply ?u (durable v))" using remembers_grows [OF rem same_rows_grows [OF sm]] .
    show ?thesis
    proof (cases "n = Some 1")
      case True
      with we v1 have v2: "\<not> sq_autocommit J v2" "content v2 = journal_apply ?u (durable v)" "durable v2 = durable v" by auto
      note ce = j_commit [OF v2(1) c]
      have "(r, v') = (case r3 of None \<Rightarrow> (Inl (SInvalid ''sqlite''), v3) | Some _ \<Rightarrow> (case r4 of None \<Rightarrow> (Inl (SInvalid ''sqlite''), v4) | Some _ \<Rightarrow> (Inr (), v4)))"
        using run b t w True c y unfolding journal_barrier_def journal_exec_def
        by (cases r3; cases r4) (auto simp: then_do_def journal_call_def)
      with ce se v2 sm rm same show ?thesis by (cases r3; cases r4) auto
    next
      case False
      have "v' = v2 \<and> (\<exists>e. r = Inl e)"
        using run b t w False unfolding journal_barrier_def journal_exec_def
        by (cases n) (auto simp: then_do_def journal_call_def)
      with we v1 same show ?thesis by auto
    qed
  qed
qed

lemma load_effect:
  assumes idle: "sq_autocommit J v" and run: "journal_load C J g p k v = (r, v')"
  shows "durable v' = durable v \<and> (\<forall>ints. r = Inr ints \<longrightarrow> sq_autocommit J v' \<and> remembers ints (durable v'))"
proof -
  obtain r1 v1 where b: "sq_begin J False v = (r1, v1)" by force
  note be = j_begin [OF idle b]
  obtain r2 v2 where e: "sq_rollback J v1 = (r2, v2)" by force
  note re = j_rollback [OF e]
  show ?thesis
  proof (cases r1)
    case None
    with run b be show ?thesis by (auto simp: journal_load_def journal_call_def then_do_def)
  next
    case (Some u)
    with be have v1: "content v1 = durable v" "durable v1 = durable v" by auto
    have rr: "v' = v2" "\<And>ints. r = Inr ints \<Longrightarrow> journal_read C J g p k True v1 = Inr ints \<and> r2 = Some ()"
      using run b e Some by (auto simp: journal_load_def journal_call_def then_do_def try_res_Inr_iff)
    have "remembers ints (durable v)" if "r = Inr ints" for ints
      using match_remembers [where db = "content v1", OF read_facts(2)] rr(2) [OF that] v1(1) by auto
    with rr re v1 show ?thesis by auto
  qed
qed

end

context journal_engine
begin

lemma configure_effect:
  assumes "journal_configure J v = (r, v')"
  shows "durable v' = durable v \<and> sq_autocommit J v' = sq_autocommit J v"
proof -
  have b: "durable v2 = durable v1 \<and> sq_autocommit J v2 = sq_autocommit J v1" if "dk_busy_timeout J v1 = (q, v2)" for v1 q v2
    using j_settings that by blast
  have p: "durable v2 = durable v1 \<and> sq_autocommit J v2 = sq_autocommit J v1" if "dk_set_pragmas J v1 = (q, v2)" for v1 q v2
    using j_settings that by blast
  show ?thesis using assms
    by (auto simp: journal_configure_def disk_configure_def disk_call_def then_do_def Let_def
        split: prod.splits sum.splits option.splits dest!: b p)
qed

lemma reopen_effect:
  assumes "disk_open (disk_of J) v = (r, v')"
  shows "durable v' = durable v \<and> (r = Inr () \<longrightarrow> sq_autocommit J v')"
  using assms j_open by (auto simp: disk_open_def disk_call_def split: option.splits bool.splits prod.splits)

lemma execs_effect:
  "\<not> sq_autocommit J v \<Longrightarrow> journal_execs J (map J_execute ds) v = (r, v') \<Longrightarrow>
     durable v' = durable v \<and> (r = Inr () \<longrightarrow> \<not> sq_autocommit J v' \<and> content v' = content v)"
proof (induction ds arbitrary: v)
  case (Cons d ds)
  obtain n v1 where w: "jd_write J (J_execute d) v = (n, v1)" by force
  note we = j_write [OF Cons.prems(1) w]
  show ?case
  proof (cases n)
    case None
    with Cons.prems(2) w we show ?thesis by (auto simp: then_do_def journal_exec_def)
  next
    case (Some k)
    with we have "\<not> sq_autocommit J v1" "content v1 = content v" "durable v1 = durable v" by auto
    with Cons.IH [of v1] Cons.prems(2) w Some show ?thesis by (auto simp: then_do_def journal_exec_def)
  qed
qed auto

lemma initialize_effect:
  assumes idle: "sq_autocommit J v" and run: "journal_initialize J g p k v = (r, v')"
  shows "same_rows (durable v) (durable v') \<and> (r = Inr () \<longrightarrow> sq_autocommit J v')"
proof -
  have same: "same_rows db db" for db by (simp add: same_rows_def)
  let ?ds = "map (\<lambda>n. J_execute (dk_ddl J n)) (JOURNAL_TABLES @ journal_triggers)"
  have ds: "?ds = map J_execute (map (dk_ddl J) (JOURNAL_TABLES @ journal_triggers))" by simp
  let ?a = "Insert_authority (signing_identity g p k) (be_bytes (0 :: u64))"
  obtain r1 v1 where b: "sq_begin J True v = (r1, v1)" by force
  note be = j_begin [OF idle b]
  obtain r2 v2 where x: "journal_execs J ?ds v1 = (r2, v2)" by force
  obtain n v3 where w: "jd_write J ?a v2 = (n, v3)" by force
  obtain r4 v4 where c: "sq_commit J v3 = (r4, v4)" by force
  have run': "(r, v') = (case r1 of None \<Rightarrow> (Inl (SInvalid ''sqlite''), v1) | Some _ \<Rightarrow>
      (case r2 of Inl e \<Rightarrow> (Inl e, v2) | Inr _ \<Rightarrow> (case n of None \<Rightarrow> (Inl (SInvalid ''sqlite''), v3) | Some _ \<Rightarrow>
      (case r4 of None \<Rightarrow> (Inl (SInvalid ''sqlite''), v4) | Some _ \<Rightarrow> (Inr (), v4)))))"
    using run b x w c by (cases r1; cases r2; cases n; cases r4) (auto simp: journal_initialize_def then_do_def journal_call_def journal_exec_def)
  show ?thesis
  proof (cases "r1 = Some () \<and> r2 = Inr () \<and> n \<noteq> None")
    case True
    with be have v1: "\<not> sq_autocommit J v1" "content v1 = durable v" "durable v1 = durable v" by auto
    with execs_effect [OF v1(1) x [unfolded ds]] True have v2: "\<not> sq_autocommit J v2" "content v2 = durable v" "durable v2 = durable v" by auto
    with j_write [OF v2(1) w] True have v3: "\<not> sq_autocommit J v3" "content v3 = journal_apply ?a (durable v)" "durable v3 = durable v" by auto
    have sm: "same_rows (durable v) (journal_apply ?a (durable v))" by (simp add: same_rows_def)
    with run' True v3 same j_commit [OF v3(1) c] show ?thesis by (cases r4) auto
  next
    case False
    have "durable v' = durable v \<and> (\<exists>e. r = Inl e)"
    proof (cases "r1 = Some ()")
      case r1: True
      with be have v1: "\<not> sq_autocommit J v1" "durable v1 = durable v" by auto
      note xe = execs_effect [OF v1(1) x [unfolded ds]]
      show ?thesis
      proof (cases r2)
        case (Inl e)
        with run' r1 xe v1 show ?thesis by auto
      next
        case (Inr u)
        with xe v1 have v2: "\<not> sq_autocommit J v2" "durable v2 = durable v" by auto
        with run' r1 Inr False j_write [OF v2(1) w] show ?thesis by auto
      qed
    qed (use run' be in \<open>auto split: option.splits\<close>)
    with same show ?thesis by auto
  qed
qed

lemma recover_effect:
  assumes run: "sign_recover C J sa ow v = (r, sa', v')"
  shows "same_rows (durable v) (durable v') \<and> sa_genesis sa' = sa_genesis sa \<and> sa_signing_calls sa' = sa_signing_calls sa \<and>
     (\<not> sa_poisoned sa' \<longrightarrow> sq_autocommit J v' \<and> remembers (sa_intents sa') (durable v'))"
proof -
  have same: "same_rows db db" for db by (simp add: same_rows_def)
  let ?g = "sa_genesis sa" and ?p = "sa_producer sa" and ?k = "sa_public_key sa"
  obtain r0 v0 where o: "disk_open (disk_of J) (dk_close J v) = (r0, v0)" by force
  have oe: "durable v0 = durable v" "r0 = Inr () \<longrightarrow> sq_autocommit J v0" using reopen_effect [OF o] j_close by auto
  obtain rc vc where c: "journal_configure J v0 = (rc, vc)" by force
  note ce = configure_effect [OF c]
  obtain rl vl where l: "journal_load C J ?g ?p ?k vc = (rl, vl)" by force
  let ?sa = "sa\<lparr>sa_poisoned := True, sa_connected := True\<rparr>"
  show ?thesis
  proof (cases "\<exists>loaded present report. r0 = Inr () \<and> rc = Inr () \<and> rl = Inr loaded \<and> reconcile_attempt_with ?sa loaded = Inr present \<and>
      sign_reconcile (c_keccak C) loaded ?g ?p ?k ow = Inr report")
    case True
    then obtain loaded present report where t: "r0 = Inr ()" "rc = Inr ()" "rl = Inr loaded" "reconcile_attempt_with ?sa loaded = Inr present"
      "sign_reconcile (c_keccak C) loaded ?g ?p ?k ow = Inr report" by blast
    have vc: "sq_autocommit J vc" "durable vc = durable v" using oe ce t by auto
    from load_effect [OF vc(1) l] t vc have vl: "sq_autocommit J vl" "durable vl = durable v" by auto
    obtain rb vb where b: "journal_barrier C J ?g ?p ?k loaded vl = (rb, vb)" by force
    note bar = barrier_effect [OF vl(1) b]
    have "(r, sa', v') = (case rb of Inl e \<Rightarrow> (Inl e, ?sa, vb) | Inr _ \<Rightarrow> (Inr (report\<lparr>sr_attempted_present := present\<rparr>),
        ?sa\<lparr>sa_intents := loaded, sa_attempt := None, sa_generation := ow_generation ow, sa_poisoned := False\<rparr>, vb))"
      using run o c l t b by (simp add: sign_recover_def then_do_def Let_def split: sum.splits)
    with bar vl show ?thesis by (cases rb) auto
  next
    case False
    have "sa_poisoned sa' \<and> sa_genesis sa' = ?g \<and> sa_signing_calls sa' = sa_signing_calls sa \<and> durable v' = durable v"
    proof (cases "r0 = Inr () \<and> rc = Inr ()")
      case r: True
      then have vc: "sq_autocommit J vc" "durable vc = durable v" using oe ce by auto
      have "v' = vl \<and> sa' = ?sa"
        using run o c l r False by (auto simp: sign_recover_def then_do_def Let_def split: sum.splits)
      with load_effect [OF vc(1) l] vc(2) show ?thesis by simp
    next
      case r: False
      then show ?thesis using run o c oe ce by (auto simp: sign_recover_def then_do_def Let_def split: sum.splits)
    qed
    with same show ?thesis by auto
  qed
qed

end

text \<open>Sequences that leave the rows of the journal alone.\<close>

definition row_safe :: "('w \<Rightarrow> jdb) \<Rightarrow> ('a \<Rightarrow> 'w \<Rightarrow> bool) \<Rightarrow> ('e + 'a) \<times> 'w \<Rightarrow> 'w \<Rightarrow> bool" where
  "row_safe durable Q m v \<longleftrightarrow> same_rows (durable v) (durable (snd m)) \<and> (\<forall>x. fst m = Inr x \<longrightarrow> Q x (snd m))"

lemma same_rows_trans: "same_rows a b \<Longrightarrow> same_rows b c \<Longrightarrow> same_rows a c"
  by (simp add: same_rows_def)

lemma same_rows_refl [simp]: "same_rows a a"
  by (simp add: same_rows_def)

lemma row_safe_then:
  assumes "row_safe durable Q m v" "\<And>x v1. Q x v1 \<Longrightarrow> row_safe durable R (f x v1) v1"
  shows "row_safe durable R (then_do m f) v"
proof (cases m)
  case (Pair r v1)
  show ?thesis
  proof (cases r)
    case (Inl e)
    with assms(1) Pair show ?thesis by (simp add: row_safe_def then_do_def)
  next
    case (Inr x)
    with assms(1) Pair have "Q x v1" "same_rows (durable v) (durable v1)" by (simp_all add: row_safe_def)
    with assms(2) [of x v1] Pair Inr show ?thesis by (auto simp: row_safe_def then_do_def intro: same_rows_trans)
  qed
qed

lemma row_safe_pure: "(\<And>x. r = Inr x \<Longrightarrow> Q x v) \<Longrightarrow> row_safe durable Q (r, v) v"
  by (simp add: row_safe_def)

context journal_engine
begin

lemma open_authority_effect:
  assumes run: "open_authority C J g producer vk key ow create v = (r, v')"
  shows "same_rows (durable v) (durable v') \<and> (\<forall>sa. r = Inr sa \<longrightarrow> sq_autocommit J v' \<and> remembers (sa_intents sa) (durable v') \<and>
     \<not> sa_poisoned sa \<and> sa_genesis sa = g)"
proof -
  let ?idle = "\<lambda>_ v. sq_autocommit J v" and ?any = "\<lambda>_ _. True"
  have lock: "row_safe durable ?any (case jd_try_lock J v of (None, v) \<Rightarrow> (Inl (SInvalid ''fence''), v)
      | (Some False, v) \<Rightarrow> (Inl SOwned, v) | (Some True, v) \<Rightarrow> (Inr (), v)) v" for v
    using j_lock [of v] by (auto simp: row_safe_def same_rows_def split: prod.splits option.splits bool.splits)
  have new: "row_safe durable ?any (case dk_create_new J v of (Created, v) \<Rightarrow> (Inr (), v) | (Already_exists, v) \<Rightarrow> (Inl SExists, v)
      | (Not_created, v) \<Rightarrow> (Inl (SInvalid ''create''), v)) v" for v
    using j_create [of v] by (auto simp: row_safe_def same_rows_def split: prod.splits created.splits)
  have ex: "row_safe durable ?any (case dk_exists J v of None \<Rightarrow> (Inl (SInvalid ''exists''), v) | Some False \<Rightarrow> (Inl SMissing, v)
      | Some True \<Rightarrow> (Inr (), v)) v" for v by (auto simp: row_safe_def split: option.splits bool.splits)
  have opn: "row_safe durable ?idle (let (r, v) = disk_open (disk_of J) v in (s_invalid ''open'' r, v)) v" for v
    using reopen_effect [of v] by (auto simp: row_safe_def same_rows_def split: prod.splits)
  have cfg: "row_safe durable ?idle (journal_configure J v) v" if "sq_autocommit J v" for v
    using configure_effect [of v] that by (cases "journal_configure J v") (auto simp: row_safe_def same_rows_def)
  have init: "row_safe durable ?idle (journal_initialize J g p k v) v" if "sq_autocommit J v" for p k v
    using initialize_effect [OF that prod.collapse [symmetric], of g p k] by (auto simp: row_safe_def)
  have sync: "row_safe durable ?idle (journal_call (dk_sync_path J v)) v" if "sq_autocommit J v" for v
    using j_settings [of v "fst (dk_sync_path J v)" "snd (dk_sync_path J v)"] that
    by (cases "dk_sync_path J v") (auto simp: row_safe_def journal_call_def same_rows_def)
  have ld: "row_safe durable ?idle (journal_load C J g p k v) v" if "sq_autocommit J v" for p k v
    using load_effect [OF that prod.collapse [symmetric], of C g p k] by (auto simp: row_safe_def same_rows_def)
  have bar: "row_safe durable (\<lambda>_ v. sq_autocommit J v \<and> remembers ints (durable v)) (journal_barrier C J g p k ints v) v"
    if "sq_autocommit J v" for p k ints v
    using barrier_effect [OF that prod.collapse [symmetric], of C g p k ints] by (auto simp: row_safe_def)
  have "row_safe durable (\<lambda>sa v. sq_autocommit J v \<and> remembers (sa_intents sa) (durable v) \<and> \<not> sa_poisoned sa \<and> sa_genesis sa = g)
      (open_authority C J g producer vk key ow create v) v"
    unfolding open_authority_def Let_def [where s = "vc_public_key c" for c]
    apply (rule row_safe_then [OF row_safe_pure [where Q = ?any]], simp)
    apply (rule row_safe_then [OF row_safe_pure [where Q = ?any]], simp)
    apply (rule row_safe_then [OF lock])
    apply (rule row_safe_then [where Q = ?any])
     apply (cases create; simp only: if_True if_False)
      apply (rule row_safe_then [OF row_safe_pure [where Q = ?any]], simp)
      apply (simp add: new row_safe_def [where m = "(Inl e, w)" for e w])
     apply (rule ex)
    apply (rule row_safe_then [OF opn])
    apply (rule row_safe_then [OF cfg], assumption)
    apply (rule row_safe_then [where Q = ?idle])
     apply (cases create; simp only: if_True if_False)
      apply (rule row_safe_then [OF init], assumption)
      apply (erule sync)
     apply (rule row_safe_pure, simp)
    apply (rule row_safe_then [OF ld], assumption)
    apply (rule row_safe_then [OF row_safe_pure [where Q = ?idle]], simp)
    apply (rule row_safe_then [OF bar], assumption)
    apply (rule row_safe_pure, auto)
    done
  then show ?thesis unfolding run row_safe_def fst_conv snd_conv .
qed

end

section \<open>Runs of the authority\<close>

text \<open>The process may stop at any time and start again; it may be given any owner, in any state. Preparations
  come from \<open>prepare_next\<close>, the only constructor of the type. \<open>sn_signed\<close> logs the claims for which the
  prehash signer was called and \<open>sn_released\<close> the originals that were returned.\<close>

record 'w signing =
  sn_authority :: "authority option"
  sn_journal :: 'w
  sn_signed :: "header_claim list"
  sn_released :: "(u64 \<times> bytes) list"

abbreviation claim_slot :: "header_claim \<Rightarrow> u64" where
  "claim_slot c \<equiv> bh_slot (hc_header c)"

definition released_by :: "u64 \<Rightarrow> sign_error + signed_original \<Rightarrow> (u64 \<times> bytes) list" where
  "released_by slot r = (case r of Inl _ \<Rightarrow> [] | Inr og \<Rightarrow> [(slot, og_bytes og)])"

inductive signing_step ::
  "'k crypto \<Rightarrow> 'u disk \<Rightarrow> 'w journal_disk \<Rightarrow> genesis \<Rightarrow> text_bytes \<Rightarrow> 'w signing \<Rightarrow> 'w signing \<Rightarrow> bool" for C D J g producer where
  step_open: "sn_authority x = None \<Longrightarrow> open_authority C J g producer vk key ow create (sn_journal x) = (r, v) \<Longrightarrow>
     signing_step C D J g producer x (case r of
       Inl _ \<Rightarrow> x\<lparr>sn_authority := None, sn_journal := dk_close J v\<rparr>
     | Inr sa \<Rightarrow> x\<lparr>sn_authority := Some sa, sn_journal := v\<rparr>)"
| step_sign: "sn_authority x = Some sa \<Longrightarrow> prepare_next C ow0 producer0 ticket body = Inr pb \<Longrightarrow>
     sign_prepared C D J sa ow pb w (sn_journal x) = Some (r, sa', w', v) \<Longrightarrow>
     signing_step C D J g producer x (x\<lparr>sn_authority := Some sa', sn_journal := v,
       sn_signed := (if sa_signing_calls sa' = sa_signing_calls sa then [] else [cb_claim (pb_block pb)]) @ sn_signed x,
       sn_released := released_by (claim_slot (cb_claim (pb_block pb))) r @ sn_released x\<rparr>)"
| step_original: "sn_authority x = Some sa \<Longrightarrow>
     signing_step C D J g producer x (x\<lparr>sn_released := released_by slot (authority_original (c_keccak C) sa ow slot) @ sn_released x\<rparr>)"
| step_sign_recover: "sn_authority x = Some sa \<Longrightarrow> sign_recover C J sa ow (sn_journal x) = (r, sa', v) \<Longrightarrow>
     signing_step C D J g producer x (x\<lparr>sn_authority := Some sa', sn_journal := v\<rparr>)"
| step_stop: "signing_step C D J g producer x (x\<lparr>sn_authority := None, sn_journal := dk_close J (sn_journal x)\<rparr>)"

inductive signing_run ::
  "'k crypto \<Rightarrow> 'u disk \<Rightarrow> 'w journal_disk \<Rightarrow> genesis \<Rightarrow> text_bytes \<Rightarrow> 'w signing \<Rightarrow> 'w signing \<Rightarrow> bool" for C D J g producer x where
  signing_start: "signing_run C D J g producer x x"
| signing_more: "signing_run C D J g producer x y \<Longrightarrow> signing_step C D J g producer y z \<Longrightarrow> signing_run C D J g producer x z"

definition fresh_signing :: "'w \<Rightarrow> 'w signing" where
  "fresh_signing v = \<lparr>sn_authority = None, sn_journal = v, sn_signed = [], sn_released = []\<rparr>"

definition signing_ok :: "'w journal_disk \<Rightarrow> ('w \<Rightarrow> jdb) \<Rightarrow> 'w signing \<Rightarrow> bool" where
  "signing_ok J durable x \<longleftrightarrow> (let db = durable (sn_journal x) in
     (\<forall>c \<in> set (sn_signed x). reserved db (claim_slot c)) \<and> distinct (map claim_slot (sn_signed x)) \<and>
     (\<forall>(s, bs) \<in> set (sn_released x). original_in db s bs) \<and> functional db \<and>
     (\<forall>sa. sn_authority x = Some sa \<longrightarrow> \<not> sa_poisoned sa \<longrightarrow> sq_autocommit J (sn_journal x) \<and> remembers (sa_intents sa) db))"

text \<open>The log and the journal grow together.\<close>

lemma signing_ok_grows:
  assumes "signing_ok J durable x" "grows (durable (sn_journal x)) (durable v)"
    and "set rel \<subseteq> {(s, bs). original_in (durable v) s bs}"
    and "\<forall>c \<in> set new. \<not> reserved (durable (sn_journal x)) (claim_slot c) \<and> reserved (durable v) (claim_slot c)" "distinct (map claim_slot new)"
    and "\<forall>sa. a = Some sa \<longrightarrow> \<not> sa_poisoned sa \<longrightarrow> sq_autocommit J v \<and> remembers (sa_intents sa) (durable v)"
  shows "signing_ok J durable (x\<lparr>sn_authority := a, sn_journal := v, sn_signed := new @ sn_signed x, sn_released := rel @ sn_released x\<rparr>)"
  using assms unfolding signing_ok_def Let_def by (fastforce simp: grows_def)

lemma sign_checks_slot:
  assumes "prepare_next C ow0 producer ticket body = Inr pb" "sign_checks (c_keccak C) D sa ow pb w = (Inr (slot, res), w')"
  shows "slot = claim_slot (cb_claim (pb_block pb))" "sign_ready sa ow = Inr ()"
proof -
  from assms(2) obtain view where r: "sign_ready sa ow = Inr ()" and cb: "check_base ow (pb_base pb) = Inr ()"
    and v: "owner_slot_start (c_keccak C) ow = Inr view" "slot = sv_slot view"
    unfolding sign_checks_def signing_view_def
    by (auto simp: then_do_def Let_def split: sum.splits prod.splits if_splits)
  show "sign_ready sa ow = Inr ()" by (rule r)
  from assms(1) show "slot = claim_slot (cb_claim (pb_block pb))"
  proof (rule prepare_next_Inr)
    fix view' sel native and applied :: applied_body
    assume s: "snapshot_start (c_keccak C) (ow_snapshot ow0) (ow_genesis ow0) = Inr view'"
      and c: "compound (c_keccak C) view' (pb_block pb) native (ab_outcome applied) = Inr (pb_candidate pb)"
      and p: "pb = \<lparr>pb_base = owner_base ow0, pb_block = pb_block pb, pb_candidate = pb_candidate pb, pb_outcome = ab_outcome applied\<rparr>"
    have "pb_base pb = owner_base ow0" by (subst p) simp
    with cb have "ow_snapshot ow = ow_snapshot ow0" "ow_genesis ow = ow_genesis ow0"
      by (auto simp: check_base_def owner_base_def try_res_Inr_iff split: if_splits)
    with v(1) s have "view = view'" by (simp add: owner_slot_start_def try_res_Inr_iff)
    with c v(2) show ?thesis by (auto elim!: compound_Inr)
  qed
qed

context journal_engine
begin

lemma sign_prepared_effect:
  assumes prep: "prepare_next C ow0 producer0 ticket body = Inr pb"
    and run: "sign_prepared C D J sa ow pb w v = Some (r, sa', w', v')"
    and ok: "\<not> sa_poisoned sa \<Longrightarrow> sq_autocommit J v \<and> remembers (sa_intents sa) (durable v)"
  defines "slot \<equiv> claim_slot (cb_claim (pb_block pb))"
  shows "grows (durable v) (durable v') \<and>
     (sa_signing_calls sa' \<noteq> sa_signing_calls sa \<longrightarrow> \<not> reserved (durable v) slot \<and> reserved (durable v') slot) \<and>
     (\<forall>og. r = Inr og \<longrightarrow> original_in (durable v') slot (og_bytes og)) \<and>
     (\<not> sa_poisoned sa' \<longrightarrow> sq_autocommit J v' \<and> remembers (sa_intents sa') (durable v'))"
proof (cases "sign_checks (c_keccak C) D sa ow pb w")
  case (Pair q w1)
  show ?thesis
  proof (cases q)
    case (Inl e)
    with run Pair ok show ?thesis by (auto simp: sign_prepared_def)
  next
    case (Inr sr)
    with Pair obtain s res where c0: "sign_checks (c_keccak C) D sa ow pb w = (Inr (s, res), w1)" by (cases sr) simp
    then have c: "sign_checks (c_keccak C) D sa ow pb w = (Inr (slot, res), w1)"
      using sign_checks_slot(1) [OF prep c0] by (simp add: slot_def)
    have np: "\<not> sa_poisoned sa" using sign_checks_slot(2) [OF prep c] by (auto simp: sign_ready_def split: if_splits)
    show ?thesis
    proof (cases "map_of (sa_intents sa) slot = None \<and> find (\<lambda>(_, i). in_original i = None) (sa_intents sa) = None")
      case False
      then show ?thesis
        using run c ok [OF np] np
        by (auto simp: sign_prepared_def try_res_Inr_iff make_original_def remembers_def split: option.splits if_splits)
    next
      case True
      with run c obtain r0 sa0 v0 where sr: "sign_reserved C J sa pb slot res v = Some (r0, sa0, v0)"
        and ro: "(let (r, sa, v) = poison_authority (r0, sa0, v0) in (r, sa, w1, v)) = (r, sa', w', v')"
        by (auto simp: sign_prepared_def)
      note eff = sign_reserved_effect [OF _ _ sr]
      show ?thesis using eff True ok [OF np] ro
        by (cases r0) (auto simp: poison_authority_def)
    qed
  qed
qed

lemma signing_step_keeps:
  assumes "signing_step C D J g producer x y" "signing_ok J durable x"
  shows "signing_ok J durable y"
  using assms(1)
proof cases
  case (step_open vk key ow create r v)
  note oe = open_authority_effect [OF step_open(3)]
  show ?thesis
  proof (cases r)
    case (Inl e)
    have "grows (durable (sn_journal x)) (durable (dk_close J v))" using oe same_rows_grows j_close by auto
    from signing_ok_grows [OF assms(2) this, of "[]" "[]" None] show ?thesis unfolding step_open(1) Inl by simp
  next
    case (Inr sa)
    have "grows (durable (sn_journal x)) (durable v)" using oe same_rows_grows by auto
    moreover have "sq_autocommit J v" "remembers (sa_intents sa) (durable v)" using oe Inr by blast+
    ultimately show ?thesis using signing_ok_grows [OF assms(2), of v "[]" "[]" "Some sa"] unfolding step_open(1) Inr by simp
  qed
next
  case (step_sign sa ow0 producer0 ticket body pb ow w r sa' w' v)
  have "\<not> sa_poisoned sa \<Longrightarrow> sq_autocommit J (sn_journal x) \<and> remembers (sa_intents sa) (durable (sn_journal x))"
    using assms(2) step_sign(2) by (simp add: signing_ok_def Let_def)
  note eff = sign_prepared_effect [OF step_sign(3,4) this]
  show ?thesis unfolding step_sign(1)
    by (rule signing_ok_grows [OF assms(2)]) (use eff in \<open>auto simp: released_by_def split: sum.splits\<close>)
next
  case (step_original sa slot ow)
  have "original_in (durable (sn_journal x)) slot (og_bytes og)" if "authority_original (c_keccak C) sa ow slot = Inr og" for og
    using that assms(2) step_original(2)
    by (auto simp: authority_original_def try_res_Inr_iff sign_ready_def make_original_def signing_ok_def Let_def remembers_def split: if_splits)
  then have "set (released_by slot (authority_original (c_keccak C) sa ow slot)) \<subseteq> {(s, bs). original_in (durable (sn_journal x)) s bs}"
    by (auto simp: released_by_def split: sum.splits)
  with assms(2) show ?thesis unfolding step_original(1) by (auto simp: signing_ok_def Let_def)
next
  case (step_sign_recover sa ow r sa' v)
  note re = recover_effect [OF step_sign_recover(3)]
  have "grows (durable (sn_journal x)) (durable v)" using re same_rows_grows by auto
  from signing_ok_grows [OF assms(2) this, of "[]" "[]" "Some sa'"] re show ?thesis unfolding step_sign_recover(1) by simp
next
  case step_stop
  have "grows (durable (sn_journal x)) (durable (dk_close J (sn_journal x)))" by (simp add: j_close)
  from signing_ok_grows [OF assms(2) this, of "[]" "[]" None] show ?thesis using step_stop by simp
qed

lemma signing_run_keeps:
  assumes "signing_run C D J g producer x y" "signing_ok J durable x"
  shows "signing_ok J durable y"
  using assms by (induction rule: signing_run.induct) (auto intro: signing_step_keeps)

lemma fresh_signing_ok: "durable v = (\<lambda>_. []) \<Longrightarrow> signing_ok J durable (fresh_signing v)"
  by (simp add: signing_ok_def fresh_signing_def functional_def original_in_def)

end

end
