(* ===== verification/Signing_Progress.thy ===== *)
theory Signing_Progress
  imports Signing_Safety
begin

text \<open>
  On disks that work the signing authority makes progress: the prepared block of its slot is reserved, signed and
  returned, and what it returns is admitted by every owner on the same history. The reservation codec round
  trips, and the journal reads back what was written.
\<close>

section \<open>Reservations round trip\<close>

definition view_widths :: "slot_start_view \<Rightarrow> bool" where
  "view_widths view \<longleftrightarrow> length (pol_network (ge_policy (sv_genesis view))) = 32 \<and> length (po_hash (sv_parent view)) = 32 \<and>
     length (cs_id (sv_state view)) = 32 \<and> length (pc_id (sv_prefix view)) = 32 \<and> length (sv_id view) = 32"

lemma length_reservation:
  assumes "c1_block_ok K block" "digest32 K" "view_widths view" "length evidence = 32" "length key = 33" "length candidate = 32"
  shows "length (reservation K view evidence key block candidate) = 28 + 4 + 32 + 4 + 4 + 3 + 4 + 33 + 9 + 8 + 32 * 7 + 4 + length (block_wire_bytes K block)"
proof -
  have "length (c1_block_hash K block) = 32"
    using assms(2) by (simp add: c1_block_hash_def claim_hash_def header_hash_def hash_with_domain_def digest32_def)
  moreover have "length (hc_producer (cb_claim block)) = 7" using c1_block_okD [OF assms(1)] by auto
  ultimately show ?thesis using assms(3-6) by (simp add: reservation_def Let_def view_widths_def RESERVATION_DOMAIN_def)
qed

lemma decode_reservation_enc:
  assumes ok: "c1_block_ok K block" and dg: "digest32 K" and w: "view_widths view" "length evidence = 32" "length key = 33" "length candidate = 32"
    and s: "bh_slot (hc_header (cb_claim block)) = sv_slot view" "bh_parent_hash (hc_header (cb_claim block)) = po_hash (sv_parent view)"
  shows "decode_reservation K (reservation K view evidence key block candidate) (sv_genesis view) (hc_producer (cb_claim block)) key =
     Inr (block, candidate)"
proof -
  let ?inner = "block_wire_bytes K block" and ?p = "hc_producer (cb_claim block)"
  have h: "length (c1_block_hash K block) = 32"
    using dg by (simp add: c1_block_hash_def claim_hash_def header_hash_def hash_with_domain_def digest32_def)
  have p: "length ?p = 7" "utf8_valid ?p" using c1_block_okD [OF ok] by auto
  have l: "length ?inner = 295 + 203 * length (cb_transactions block)" by (rule length_block_wire_bytes [OF ok dg])
  have n: "length (cb_transactions block) \<le> 16" using c1_block_okD [OF ok] by simp
  have u: "unat (of_nat (length ?inner) :: u32) = length ?inner" using l n by (intro unat_of_nat_small) simp
  have t: "app_take (length ?inner) (cur q ?inner) = Inr (?inner, cur (q @ ?inner) [])" if "length q < 10000" for q
    using app_reader.rd_all [of ?inner "length ?inner" q] that l n by (simp add: usize_limit_def)
  have skip: "app_take 128 (cur q (a @ b @ c @ d @ rest)) = Inr (a @ b @ c @ d, cur (q @ a @ b @ c @ d) rest)"
    if "length q < 10000" "length a = 32" "length b = 32" "length c = 32" "length d = 32" for q a b c d rest
    using app_reader.rd_prefix [of "a @ b @ c @ d" 128 q rest] that by (simp add: usize_limit_def)
  have total: "length (reservation K view evidence key block candidate) \<le> MAX_RESERVATION_BYTES"
    using length_reservation [OF ok dg w] l n by (simp add: MAX_RESERVATION_BYTES_def C1_MAX_BLOCK_BYTES_def MAX_ENTRIES_def)
  have dom: "length RESERVATION_DOMAIN = 28" by (simp add: RESERVATION_DOMAIN_def)
  have wires: "app_take 3 (cur q (a # b # c # rest)) = Inr ([a, b, c], cur (q @ [a, b, c]) rest)" if "length q < 10000" for q a b c rest
    using app_reader.rd_prefix [of "[a, b, c]" 3 q rest] that by (simp add: usize_limit_def)
  show ?thesis
    using w h p l n u t skip total dom wires block_dec_enc [OF ok dg] s
    by (simp add: decode_reservation_def decode_fields_def reservation_def Let_def start_cursor_cur codec_simps usize_limit_def
        view_widths_def C1_MAX_BLOCK_BYTES_def MAX_ENTRIES_def)
qed

section \<open>What the journal reads back\<close>

definition journal_holds :: "'k crypto \<Rightarrow> genesis \<Rightarrow> text_bytes \<Rightarrow> bytes \<Rightarrow> intents \<Rightarrow> jdb \<Rightarrow> bool" where
  "journal_holds C g p k ints db \<longleftrightarrow>
     (\<exists>bar. length bar = 8 \<and> db J_metadata = [[Blob (be_bytes (1 :: u32)), Text (str ''c1-signing-authority''), Blob (signing_identity g p k), Blob bar]]) \<and>
     length (signing_identity g p k) \<le> 256 \<and>
     (\<exists>mid. read_reservations (c_keccak C) g p k (map Some (db Reservations)) [] = Inr mid \<and>
        read_originals C g p k False 0 (map Some (db Originals)) mid = Inr ints)"

lemma identity_size: "1 \<le> length (signing_identity g p k)"
  by (simp add: signing_identity_def)

lemma read_reservations_append:
  "read_reservations K g p k (map Some (rows @ [row])) ints =
     try_res (read_reservations K g p k (map Some rows) ints) (read_reservation K g p k row)"
  by (induction rows arbitrary: ints) (auto simp: try_res_def split: sum.splits)

lemma bm_insert_end: "\<forall>x \<in> fst ` set m. x < k \<Longrightarrow> bm_insert k v m = m @ [(k, v)]"
  by (induction m) auto

lemma bm_insert_before: "s < k \<Longrightarrow> bm_insert s v (m @ [(k, i)]) = bm_insert s v m @ [(k, i)]"
  by (induction m) auto

lemma bm_insert_keys:
  assumes "bm_wf m" "map_of m k = Some w"
  shows "map fst (bm_insert k v m) = map fst m"
  using assms
proof (induction m)
  case (Cons e m)
  obtain k' v' where e: "e = (k', v')" by (cases e)
  have "k' < k" if "k \<noteq> k'" using Cons.prems that e by (auto simp: bm_wf_def dest!: map_of_SomeD)
  then show ?case using Cons e by (auto simp: bm_wf_def)
qed simp

lemma read_reservations_wf:
  "read_reservations K g p k (map Some rows) ints = Inr ints' \<Longrightarrow> bm_wf ints \<Longrightarrow> bm_wf ints'"
proof (induction rows arbitrary: ints)
  case (Cons row rows)
  then show ?case by (auto simp: try_res_Inr_iff elim!: read_reservation_Inr intro: bm_wf_insert)
qed simp

lemma read_original_Inr:
  assumes "read_original C g p k auth row ints = Inr ints'"
  obtains s i bs where "map_of ints s = Some i" "ints' = bm_insert s (i\<lparr>in_original := Some bs\<rparr>) ints"
    "\<And>slot j. s < slot \<Longrightarrow> read_original C g p k auth row (ints @ [(slot, j)]) = Inr (ints' @ [(slot, j)])"
proof -
  from assms obtain b bs sig ident i e cand where row: "row = [Blob b, Blob bs, Blob sig, Blob ident]"
    and i: "map_of ints (be_word b) = Some i" "ints' = bm_insert (be_word b) (i\<lparr>in_original := Some bs\<rparr>) ints"
    and e: "length b = 8" "402 \<le> length bs \<and> length bs \<le> C1_MAX_ENVELOPE_BYTES" "c1_envelope_from_wire_bytes (c_keccak C) bs = Inr e"
      "decode_reservation (c_keccak C) (in_reservation i) g p k = Inr (ce_block e, cand)" "ce_network e = pol_network (ge_policy g)"
      "sig = ce_signature e \<and> length sig = 65" "ident = c1_envelope_id (c_keccak C) e \<and> length ident = 32"
      "auth \<longrightarrow> is_ok (c1_envelope_authenticate C e g)"
    unfolding read_original_def Let_def
    by (auto simp: try_res_Inr_iff journal_blob_Inr is_ok_iff split: list.splits if_splits prod.splits)
  have "read_original C g p k auth row (ints @ [(slot, j)]) = Inr (ints' @ [(slot, j)])" if "be_word b < slot" for slot j
    using i e that by (auto simp: row read_original_def Let_def journal_blob_def bm_insert_before is_ok_iff)
  with i show thesis by (intro that)
qed

lemma read_originals_extra:
  assumes "read_originals C g p k auth n (map Some rows) ints = Inr ints'" "bm_wf ints" "\<forall>x \<in> fst ` set ints. x < slot"
  shows "read_originals C g p k auth n (map Some rows) (ints @ [(slot, j)]) = Inr (ints' @ [(slot, j)]) \<and> map fst ints' = map fst ints"
  using assms
proof (induction rows arbitrary: n ints)
  case (Cons row rows)
  from Cons.prems(1) obtain mid where m: "read_original C g p k auth row ints = Inr mid"
    and r: "read_originals C g p k auth (n + 1) (map Some rows) mid = Inr ints'" and n: "\<not> n + 1 > MAX_SLOTS"
    by (auto simp: try_res_Inr_iff split: if_splits)
  from m obtain s i bs where s: "map_of ints s = Some i" "mid = bm_insert s (i\<lparr>in_original := Some bs\<rparr>) ints"
    and e: "\<And>slot j. s < slot \<Longrightarrow> read_original C g p k auth row (ints @ [(slot, j)]) = Inr (mid @ [(slot, j)])"
    by (rule read_original_Inr) blast
  have "s < slot" using s(1) Cons.prems(3) by (force dest: map_of_SomeD)
  note e' = e [OF this]
  have k: "map fst mid = map fst ints" unfolding s(2) by (rule bm_insert_keys [OF Cons.prems(2) s(1)])
  have "bm_wf mid" unfolding s(2) by (rule bm_wf_insert [OF Cons.prems(2)])
  moreover have "\<forall>x \<in> fst ` set mid. x < slot" using k Cons.prems(3) by (metis image_set)
  ultimately show ?case using Cons.IH [OF r] e' n k by simp
qed simp

lemma holds_insert:
  assumes h: "journal_holds C g p k ints db" and lt: "\<forall>x \<in> fst ` set ints. x < slot" and len: "length ints < 200"
    and d: "decode_reservation (c_keccak C) res g p k = Inr (block, cand)" "bh_slot (hc_header (cb_claim block)) = slot"
    and w: "295 \<le> length res" "length res \<le> MAX_RESERVATION_BYTES"
  shows "journal_holds C g p k (ints @ [(slot, \<lparr>in_reservation = res, in_original = None\<rparr>)])
     (journal_apply (Insert_reservation (be_bytes slot) res) db)"
proof -
  let ?row = "[Blob (be_bytes slot), Blob res]" and ?i = "\<lparr>in_reservation = res, in_original = None\<rparr>"
  from h obtain mid where m: "read_reservations (c_keccak C) g p k (map Some (db Reservations)) [] = Inr mid"
    and o: "read_originals C g p k False 0 (map Some (db Originals)) mid = Inr ints" by (auto simp: journal_holds_def)
  have wf: "bm_wf mid" by (rule read_reservations_wf [OF m]) (simp add: bm_wf_def)
  obtain top where top: "\<forall>x \<in> fst ` set mid. x < slot" "map fst ints = map fst mid"
  proof -
    have "originals_match mid []" using read_reservations_Inr [OF m] by (auto simp: originals_match_def ran_def)
    from read_originals_match [OF o this] have dm: "dom (map_of mid) \<subseteq> dom (map_of ints)" by blast
    then have lt': "\<forall>x \<in> fst ` set mid. x < slot" using lt unfolding dom_map_of_conv_image_fst by blast
    from read_originals_extra [OF o wf this] that lt' show thesis by auto
  qed
  have keys: "first_blob r < first_blob ?row" if "r \<in> set (db Reservations)" for r
  proof -
    from read_reservations_Inr [OF m] that obtain s where s: "first_blob r = be_bytes s" "map_of mid s \<noteq> None" by auto
    then have "s < slot" using top(1) by (force dest: map_of_SomeD)
    with s(1) show ?thesis by (simp add: first_blob_def be_bytes_less)
  qed
  have "put_row first_blob ?row (db Reservations) = db Reservations @ [?row]" using keys by (intro put_row_last) blast
  moreover have "length mid < 200" using len arg_cong [OF top(2), of length] by simp
  then have "read_reservation (c_keccak C) g p k ?row mid = Inr (mid @ [(slot, ?i)])"
    using d w bm_insert_end [OF top(1)]
    by (simp add: read_reservation_def journal_blob_def MAX_SLOTS_def)
  ultimately show ?thesis
    using h m read_originals_extra [OF o wf top(1), of ?i]
    by (simp add: journal_holds_def read_reservations_append del: map_append)
qed

section \<open>The schema of the journal\<close>

text \<open>The statements that the constraints of \<open>TABLES\<close> and \<open>triggers\<close> let through: widths, keys that do not
  repeat, an original only beside its reservation. Nothing is said of a declaration.\<close>

fun journal_allowed :: "journal_write \<Rightarrow> jdb \<Rightarrow> bool" where
  "journal_allowed (J_execute _) db \<longleftrightarrow> False"
| "journal_allowed (Insert_authority ident bar) db \<longleftrightarrow> db J_metadata = [] \<and> 1 \<le> length ident \<and> length ident \<le> 256 \<and> length bar = 8"
| "journal_allowed (Insert_reservation slot res) db \<longleftrightarrow> length slot = 8 \<and> slot > be_bytes (0 :: u64) \<and>
     295 \<le> length res \<and> length res \<le> 4055 \<and> (\<forall>q \<in> set (db Reservations). q ! 0 \<noteq> Blob slot)"
| "journal_allowed (Insert_original slot bs sig ident) db \<longleftrightarrow> length slot = 8 \<and> 402 \<le> length bs \<and> length bs \<le> 3650 \<and>
     length sig = 65 \<and> length ident = 32 \<and> (\<exists>q \<in> set (db Reservations). q ! 0 = Blob slot) \<and>
     (\<forall>q \<in> set (db Originals). q ! 0 \<noteq> Blob slot \<and> q ! 3 \<noteq> Blob ident)"
| "journal_allowed (J_update_barrier new old) db \<longleftrightarrow> length new = 8"

definition journal_linked :: "jdb \<Rightarrow> bool" where
  "journal_linked db \<longleftrightarrow> (\<forall>q \<in> set (db Originals). \<exists>r \<in> set (db Reservations). r ! 0 = q ! 0)"

text \<open>What the rows of a journal that reads are.\<close>

definition intent_slots :: "hasher \<Rightarrow> genesis \<Rightarrow> text_bytes \<Rightarrow> bytes \<Rightarrow> intents \<Rightarrow> bool" where
  "intent_slots K g p k ints \<longleftrightarrow> (\<forall>s i. map_of ints s = Some i \<longrightarrow>
     (\<exists>b c. decode_reservation K (in_reservation i) g p k = Inr (b, c) \<and> bh_slot (hc_header (cb_claim b)) = s))"

lemma reservation_rows:
  assumes "read_reservations K g p k (map Some rows) ints = Inr ints'" "intent_slots K g p k ints"
  shows "intent_slots K g p k ints' \<and> (\<forall>row \<in> set rows. \<exists>s r. row = [Blob (be_bytes (s :: u64)), Blob r] \<and> s \<in> dom (map_of ints')) \<and>
     dom (map_of ints) \<subseteq> dom (map_of ints') \<and>
     (\<forall>s \<in> dom (map_of ints'). s \<in> dom (map_of ints) \<or> (\<exists>row \<in> set rows. row ! 0 = Blob (be_bytes s)))"
  using assms
proof (induction rows arbitrary: ints)
  case (Cons row rows)
  from Cons.prems(1) obtain mid where m: "read_reservation K g p k row ints = Inr mid" and
    r: "read_reservations K g p k (map Some rows) mid = Inr ints'" by (auto simp: try_res_Inr_iff)
  from m obtain s :: u64 and res b c where row: "row = [Blob (be_bytes s), Blob res]"
    and mid: "mid = bm_insert s \<lparr>in_reservation = res, in_original = None\<rparr> ints"
    and d: "decode_reservation K res g p k = Inr (b, c)" "bh_slot (hc_header (cb_claim b)) = s"
    unfolding read_reservation_def
    by (auto simp: try_res_Inr_iff journal_blob_Inr split: list.splits if_splits prod.splits) (metis be_slot)
  have "intent_slots K g p k mid" using Cons.prems(2) d by (auto simp: intent_slots_def mid map_of_bm_insert)
  note ih = Cons.IH [OF r this]
  have dom: "dom (map_of mid) = insert s (dom (map_of ints))" by (auto simp: mid map_of_bm_insert)
  have "t \<in> dom (map_of ints) \<or> (\<exists>row \<in> set (row # rows). row ! 0 = Blob (be_bytes t))" if "t \<in> dom (map_of ints')" for t
    using ih that unfolding dom row by (metis insert_iff list.set_intros nth_Cons_0)
  moreover have "s \<in> dom (map_of ints')" "dom (map_of ints) \<subseteq> dom (map_of ints')" using ih unfolding dom by blast+
  ultimately show ?case using ih row unfolding list.set by blast
qed simp

lemma original_rows:
  assumes "read_originals C g p k auth n (map Some rows) ints = Inr ints'" "intent_slots (c_keccak C) g p k ints"
  shows "\<forall>row \<in> set rows. \<exists>s bs sig e. row = [Blob (be_bytes (s :: u64)), Blob bs, Blob sig, Blob (c1_envelope_id (c_keccak C) e)] \<and>
     c1_envelope_from_wire_bytes (c_keccak C) bs = Inr e \<and> bh_slot (hc_header (cb_claim (ce_block e))) = s \<and> s \<in> dom (map_of ints)"
  using assms
proof (induction rows arbitrary: n ints)
  case (Cons row rows)
  let ?K = "c_keccak C"
  from Cons.prems(1) obtain mid where m: "read_original C g p k auth row ints = Inr mid"
    and r: "read_originals C g p k auth (n + 1) (map Some rows) mid = Inr ints'" by (auto simp: try_res_Inr_iff split: if_splits)
  from m obtain s :: u64 and i e bs c sig where row: "row = [Blob (be_bytes s), Blob bs, Blob sig, Blob (c1_envelope_id ?K e)]"
    and s: "map_of ints s = Some i" and e: "c1_envelope_from_wire_bytes ?K bs = Inr e"
      "decode_reservation ?K (in_reservation i) g p k = Inr (ce_block e, c)" and mid: "mid = bm_insert s (i\<lparr>in_original := Some bs\<rparr>) ints"
    unfolding read_original_def Let_def
    by (auto simp: try_res_Inr_iff journal_blob_Inr is_ok_iff split: list.splits if_splits prod.splits) (metis be_slot)+
  have "intent_slots ?K g p k mid" using Cons.prems(2) s by (auto simp: intent_slots_def mid map_of_bm_insert)
  moreover have "dom (map_of mid) = dom (map_of ints)" using s by (auto simp: mid map_of_bm_insert)
  moreover have "bh_slot (hc_header (cb_claim (ce_block e))) = s"
    using Cons.prems(2) [unfolded intent_slots_def, rule_format, OF s] e(2) by auto
  ultimately show ?case using Cons.IH [OF r] row e(1) s by auto
qed simp

lemma holds_rows:
  assumes "journal_holds C g p k ints db"
  shows "\<forall>row \<in> set (db Reservations). \<exists>s r. row = [Blob (be_bytes (s :: u64)), Blob r] \<and> s \<in> fst ` set ints"
    "\<forall>row \<in> set (db Originals). \<exists>s bs sig e. row = [Blob (be_bytes (s :: u64)), Blob bs, Blob sig, Blob (c1_envelope_id (c_keccak C) e)] \<and>
       c1_envelope_from_wire_bytes (c_keccak C) bs = Inr e \<and> bh_slot (hc_header (cb_claim (ce_block e))) = s \<and> s \<in> fst ` set ints"
    "journal_linked db"
proof -
  from assms obtain mid where m: "read_reservations (c_keccak C) g p k (map Some (db Reservations)) [] = Inr mid"
    and o: "read_originals C g p k False 0 (map Some (db Originals)) mid = Inr ints" by (auto simp: journal_holds_def)
  have rs: "intent_slots (c_keccak C) g p k mid" "\<forall>row \<in> set (db Reservations). \<exists>s r. row = [Blob (be_bytes (s :: u64)), Blob r] \<and> s \<in> dom (map_of mid)"
    "\<forall>s \<in> dom (map_of mid). \<exists>row \<in> set (db Reservations). row ! 0 = Blob (be_bytes s)"
    using reservation_rows [OF m] by (simp_all add: intent_slots_def)
  have "originals_match mid []" using read_reservations_Inr [OF m] by (auto simp: originals_match_def ran_def)
  then have sub: "dom (map_of mid) \<subseteq> fst ` set ints" using read_originals_match [OF o] by (auto simp: dom_map_of_conv_image_fst)
  note os = original_rows [OF o rs(1)]
  show "\<forall>row \<in> set (db Reservations). \<exists>s r. row = [Blob (be_bytes (s :: u64)), Blob r] \<and> s \<in> fst ` set ints" using rs(2) sub by blast
  show "\<forall>row \<in> set (db Originals). \<exists>s bs sig e. row = [Blob (be_bytes (s :: u64)), Blob bs, Blob sig, Blob (c1_envelope_id (c_keccak C) e)] \<and>
     c1_envelope_from_wire_bytes (c_keccak C) bs = Inr e \<and> bh_slot (hc_header (cb_claim (ce_block e))) = s \<and> s \<in> fst ` set ints"
    using os subsetD [OF sub] by meson
  show "journal_linked db" unfolding journal_linked_def
  proof
    fix q assume "q \<in> set (db Originals)"
    from bspec [OF os this] obtain s :: u64 where "q ! 0 = Blob (be_bytes s)" "s \<in> dom (map_of mid)" by (metis nth_Cons_0)
    with rs(3) show "\<exists>r \<in> set (db Reservations). r ! 0 = q ! 0" by metis
  qed
qed

text \<open>The strings whose digests the \<open>UNIQUE\<close> column of the originals holds.\<close>

definition original_preimages :: "jdb \<Rightarrow> bytes set" where
  "original_preimages db = {ENVELOPE_ID_DOMAIN @ bs | bs. \<exists>q \<in> set (db Originals). q ! 1 = Blob bs}"

text \<open>The two insertions of a signature are let through, in this order.\<close>

lemma reservation_allowed:
  assumes h: "journal_holds C g p k ints db" and lt: "\<forall>x \<in> fst ` set ints. x < slot" and slot: "slot \<noteq> 0"
    and w: "295 \<le> length res" "length res \<le> MAX_RESERVATION_BYTES"
  shows "journal_allowed (Insert_reservation (be_bytes slot) res) db"
proof -
  have "q ! 0 \<noteq> Blob (be_bytes slot)" if "q \<in> set (db Reservations)" for q
    using holds_rows(1) [OF h] lt that by fastforce
  moreover have "be_bytes slot > be_bytes (0 :: u64)" using slot by (intro be_bytes_less) (simp add: word_neq_0_conv)
  ultimately show ?thesis using w by (simp add: MAX_RESERVATION_BYTES_def C1_MAX_BLOCK_BYTES_def MAX_ENTRIES_def)
qed

lemma original_allowed:
  fixes C :: "'k crypto"
  assumes h: "journal_holds C g p k ints db" and lt: "\<forall>x \<in> fst ` set ints. x < slot"
    and e: "c1_envelope_ok (c_keccak C) e" "bh_slot (hc_header (cb_claim (ce_block e))) = slot" "digest32 (c_keccak C)"
    and nc: "inj_on (c_keccak C) (insert (ENVELOPE_ID_DOMAIN @ c1_envelope_wire_bytes (c_keccak C) e) (original_preimages db))"
  shows "journal_allowed (Insert_original (be_bytes slot) (c1_envelope_wire_bytes (c_keccak C) e) (ce_signature e) (c1_envelope_id (c_keccak C) e))
     (journal_apply (Insert_reservation (be_bytes slot) res) db)"
proof -
  let ?K = "c_keccak C"
  have "length (c1_envelope_wire_bytes ?K e) = 107 + length (block_wire_bytes ?K (ce_block e))" "length (ce_signature e) = 65"
    using e(1) by (simp_all add: c1_envelope_ok_def c1_envelope_wire_bytes_def Let_def native_lens)
  moreover have "c1_block_ok ?K (ce_block e)" using e(1) by (simp add: c1_envelope_ok_def)
  ultimately have w: "402 \<le> length (c1_envelope_wire_bytes ?K e)" "length (c1_envelope_wire_bytes ?K e) \<le> 3650" "length (ce_signature e) = 65"
    using length_block_wire_bytes [OF _ e(3)] c1_block_okD(3) by fastforce+
  have "q ! 0 \<noteq> Blob (be_bytes slot) \<and> q ! 3 \<noteq> Blob (c1_envelope_id ?K e)" if q: "q \<in> set (db Originals)" for q
  proof -
    from holds_rows(2) [OF h] q lt obtain s :: u64 and bs sig e' where
      row: "q = [Blob (be_bytes s), Blob bs, Blob sig, Blob (c1_envelope_id ?K e')]" "s < slot"
      and e': "c1_envelope_from_wire_bytes ?K bs = Inr e'" "bh_slot (hc_header (cb_claim (ce_block e'))) = s" by metis
    have bs: "c1_envelope_wire_bytes ?K e' = bs" using e'(1) c1_envelope_canonical [OF e(3)] by blast
    have "e' \<noteq> e" using e'(2) e(2) row(2) by auto
    then have "bs \<noteq> c1_envelope_wire_bytes ?K e" using e'(1) c1_envelope_dec_enc [OF e(1,3)] by auto
    moreover have "ENVELOPE_ID_DOMAIN @ bs \<in> original_preimages db" using q row(1) by (auto simp: original_preimages_def intro!: bexI [of _ q])
    ultimately have "c1_envelope_id ?K e' \<noteq> c1_envelope_id ?K e"
      using inj_onD [OF nc] by (auto simp: c1_envelope_id_def hash_with_domain_def bs)
    with row show ?thesis by simp
  qed
  moreover have "\<exists>q \<in> set (put_row first_blob [Blob (be_bytes slot), Blob res] (db Reservations)). q ! 0 = Blob (be_bytes slot)"
    using put_row_set(2) [of "[Blob (be_bytes slot), Blob res]" first_blob "db Reservations"] by force
  moreover have "length (c1_envelope_id ?K e) = 32" using e(3) by (simp add: c1_envelope_id_def hash_with_domain_def digest32_def)
  ultimately show ?thesis using w by simp
qed

section \<open>A journal that works\<close>

text \<open>In the states that \<open>P\<close> marks the journal's file carries the declared schema and is sound, and every call
  succeeds, a write if the constraints of the schema let it through.\<close>

locale journal_healthy = journal_engine +
  fixes P :: "'a \<Rightarrow> bool"
  assumes jh_begin: "P v \<Longrightarrow> sq_autocommit J v \<Longrightarrow> \<exists>v'. sq_begin J b v = (Some (), v') \<and> P v'"
    and jh_write: "P v \<Longrightarrow> \<not> sq_autocommit J v \<Longrightarrow> journal_allowed st (content v) \<Longrightarrow> \<exists>n v'. jd_write J st v = (Some n, v') \<and> P v'"
    and jh_commit: "P v \<Longrightarrow> \<not> sq_autocommit J v \<Longrightarrow> \<exists>v'. sq_commit J v = (Some (), v') \<and> P v'"
    and jh_sync: "P v \<Longrightarrow> \<exists>v'. dk_sync_path J v = (Some (), v') \<and> P v'"
    and jh_objects: "P v \<Longrightarrow> \<exists>rows. sq_schema_rows J v = Some rows \<and> set rows = set (map (\<lambda>n. ((''table'', n), dk_ddl J n)) JOURNAL_TABLES @
          map (\<lambda>n. ((''trigger'', n), dk_ddl J n)) journal_triggers)"
    and jh_integrity: "P v \<Longrightarrow> sq_integrity J v = Some ''ok''"
    and jh_references: "P v \<Longrightarrow> sq_foreign_key_violation J v = Some (\<not> journal_linked (content v))"
    and jh_count: "P v \<Longrightarrow> sq_count_metadata J v = Some (int (length (content v J_metadata)))"
    and jh_select: "P v \<Longrightarrow> jd_select J t v = Some (map Some (content v t))"
begin

lemma holds_read:
  assumes "P v" "journal_holds C g p k ints (content v)"
  shows "journal_read C J g p k False v = Inr ints"
proof -
  have "journal_policy J g p k v = Inr ()"
    using assms jh_count [OF assms(1)] jh_select [OF assms(1)] identity_size [of g p k]
    by (auto simp: journal_policy_def journal_holds_def journal_blob_def)
  moreover have "journal_schema J v = Inr ()"
    using jh_objects [OF assms(1)] jh_integrity [OF assms(1)] jh_references [OF assms(1)] holds_rows(3) [OF assms(2)]
    by (auto simp: journal_schema_def)
  ultimately show ?thesis
    using assms jh_select [OF assms(1)]
    by (auto simp: journal_read_def journal_holds_def)
qed

text \<open>One insertion, from the verified base to the synchronized commit.\<close>

lemma persist_succeeds:
  assumes P: "P v" and idle: "sq_autocommit J v"
    and h: "journal_holds C (sa_genesis sa) (sa_producer sa) (sa_public_key sa) (sa_intents sa) (durable v)"
    and i: "map_of next slot = Some i" and al: "journal_allowed st (durable v)"
    and st: "\<And>v1. \<not> sq_autocommit J v1 \<Longrightarrow> persist_insert C J i slot completed v1 = then_do (journal_exec J st v1) (\<lambda>_ v. (Inr (), v))"
  shows "\<exists>v'. persist C J sa next slot completed v = (Inr (), sa\<lparr>sa_intents := next, sa_attempt := None\<rparr>, v') \<and>
     P v' \<and> sq_autocommit J v' \<and> durable v' = journal_apply st (durable v)"
proof -
  obtain v1 where b: "sq_begin J True v = (Some (), v1)" "P v1" using jh_begin [OF P idle] by blast
  have v1: "\<not> sq_autocommit J v1" "content v1 = durable v" "durable v1 = durable v" using j_begin [OF idle b(1)] by auto
  have ver: "journal_verify C J (sa_genesis sa) (sa_producer sa) (sa_public_key sa) (sa_intents sa) v1 = Inr ()"
    using holds_read [OF b(2), of C "sa_genesis sa" "sa_producer sa" "sa_public_key sa" "sa_intents sa"] h v1(2)
    by (simp add: journal_verify_def)
  obtain n v2 where w: "jd_write J st v1 = (Some n, v2)" "P v2" using jh_write [OF b(2) v1(1)] al v1(2) by metis
  have v2: "\<not> sq_autocommit J v2" "content v2 = journal_apply st (durable v)" using j_write [OF v1(1) w(1)] v1(2) by auto
  obtain v3 where c: "sq_commit J v2 = (Some (), v3)" "P v3" using jh_commit [OF w(2) v2(1)] by blast
  have v3: "durable v3 = journal_apply st (durable v)" "sq_autocommit J v3" using j_commit [OF v2(1) c(1)] v2(2) by auto
  obtain v4 where y: "dk_sync_path J v3 = (Some (), v4)" "P v4" using jh_sync [OF c(2)] by blast
  have v4: "durable v4 = durable v3" "sq_autocommit J v4 = sq_autocommit J v3" using j_settings y(1) by blast+
  have "persist_insert C J i slot completed v1 = (Inr (), v2)" using st [OF v1(1)] w(1) by (simp add: journal_exec_def then_do_def)
  then show ?thesis using b ver i c y v3 v4
    by (intro exI [of _ v4]) (simp add: persist_def then_do_def journal_call_def)
qed

lemma sign_reserved_succeeds:
  assumes P: "P v" and idle: "sq_autocommit J v"
    and h: "journal_holds C (sa_genesis sa) (sa_producer sa) (sa_public_key sa) (sa_intents sa) (durable v)"
    and lt: "\<forall>x \<in> fst ` set (sa_intents sa). x < slot" "slot \<noteq> 0" and len: "length (sa_intents sa) < 200"
    and d: "decode_reservation (c_keccak C) res (sa_genesis sa) (sa_producer sa) (sa_public_key sa) = Inr (pb_block pb, cand)"
      "claim_slot (cb_claim (pb_block pb)) = slot" "295 \<le> length res" "length res \<le> MAX_RESERVATION_BYTES"
    and calls: "sa_signing_calls sa \<noteq> -1"
    and sig: "sign_digest C (sa_key sa) (claim_signing_digest (c_keccak C) (cb_claim (pb_block pb)) (pol_network (ge_policy (sa_genesis sa)))) = Some (Inr signature)"
      "length signature = 65" "length (pol_network (ge_policy (sa_genesis sa))) = 32" "c1_block_ok (c_keccak C) (pb_block pb)" "digest32 (c_keccak C)"
    and nc: "inj_on (c_keccak C) (insert (ENVELOPE_ID_DOMAIN @ c1_envelope_wire_bytes (c_keccak C) \<lparr>ce_block = pb_block pb,
       ce_network = pol_network (ge_policy (sa_genesis sa)), ce_signature = signature\<rparr>) (original_preimages (durable v)))"
  defines "e \<equiv> \<lparr>ce_block = pb_block pb, ce_network = pol_network (ge_policy (sa_genesis sa)), ce_signature = signature\<rparr>"
  shows "\<exists>sa' v'. sign_reserved C J sa pb slot res v =
     Some (Inr \<lparr>og_bytes = c1_envelope_wire_bytes (c_keccak C) e, og_id = c1_envelope_id (c_keccak C) e\<rparr>, sa', v') \<and>
     sa_signing_calls sa' = sa_signing_calls sa + 1"
proof -
  let ?i = "\<lparr>in_reservation = res, in_original = None\<rparr>" and ?bs = "c1_envelope_wire_bytes (c_keccak C) e"
  let ?n1 = "bm_insert slot ?i (sa_intents sa)"
  have n1: "?n1 = sa_intents sa @ [(slot, ?i)]" by (rule bm_insert_end [OF lt(1)])
  have m1: "map_of ?n1 slot = Some ?i" by (simp add: map_of_bm_insert)
  obtain v1 where p1: "persist C J sa ?n1 slot False v = (Inr (), sa\<lparr>sa_intents := ?n1, sa_attempt := None\<rparr>, v1)"
    and v1: "P v1" "sq_autocommit J v1" "durable v1 = journal_apply (Insert_reservation (be_bytes slot) res) (durable v)"
    using persist_succeeds [OF P idle h m1 reservation_allowed [OF h lt d(3,4)], of False]
    by (auto simp: persist_insert_def)
  obtain c where c: "checked_add (sa_signing_calls sa) 1 = Some c" using checked_add_one [OF calls] by blast
  then have c': "c = sa_signing_calls sa + 1" by (auto simp: checked_add_def split: if_splits)
  let ?sa = "sa\<lparr>sa_intents := ?n1, sa_attempt := None, sa_signing_calls := c\<rparr>"
  have h1: "journal_holds C (sa_genesis ?sa) (sa_producer ?sa) (sa_public_key ?sa) (sa_intents ?sa) (durable v1)"
    using holds_insert [OF h lt(1) len d] v1(3) n1 by simp
  have ok: "c1_envelope_ok (c_keccak C) e" using sig by (simp add: c1_envelope_ok_def e_def)
  note eok = c1_envelope_dec_enc [OF ok sig(5)]
  have "bh_slot (hc_header (cb_claim (ce_block e))) = slot" using d(2) by (simp add: e_def)
  from original_allowed [OF h lt(1) ok this sig(5) nc [folded e_def], of res]
  have al: "journal_allowed (Insert_original (be_bytes slot) ?bs (ce_signature e) (c1_envelope_id (c_keccak C) e)) (durable v1)" by (simp only: v1(3))
  let ?n2 = "bm_insert slot (?i\<lparr>in_original := Some ?bs\<rparr>) ?n1"
  have m2: "map_of ?n2 slot = Some (?i\<lparr>in_original := Some ?bs\<rparr>)" by (simp add: map_of_bm_insert)
  obtain sa2 v2 where p2: "persist C J ?sa ?n2 slot True v1 = (Inr (), sa2, v2)" and s2: "sa_signing_calls sa2 = c"
    using persist_succeeds [OF v1(1,2) h1 m2 al, of True] eok
    by (auto simp: persist_insert_def then_do_def)
  show ?thesis
    using p1 c c' sig(1) m1 p2 s2 eok
    by (intro exI [of _ sa2] exI [of _ v2]) (simp add: sign_reserved_def make_original_def e_def)
qed

end

section \<open>A concrete journal\<close>

record jmem =
  jm_durable :: jdb
  jm_open :: "jdb option"

definition jm_content :: "jmem \<Rightarrow> jdb" where
  "jm_content v = (case jm_open v of None \<Rightarrow> jm_durable v | Some db \<Rightarrow> db)"

text \<open>Its file carries the schema from the start.\<close>

definition jm_affected :: "journal_write \<Rightarrow> jdb \<Rightarrow> nat" where
  "jm_affected st db = (case st of
     J_execute _ \<Rightarrow> 0 | J_update_barrier new old \<Rightarrow> length (filter (\<lambda>r. r ! 3 = Blob old) (db J_metadata)) | _ \<Rightarrow> 1)"

definition jm_accepts :: "journal_write \<Rightarrow> jdb \<Rightarrow> bool" where
  "jm_accepts st db \<longleftrightarrow> (case st of J_execute _ \<Rightarrow> True | _ \<Rightarrow> journal_allowed st db)"

lemma jm_accepts_simps [simp]:
  "jm_accepts (J_execute d) db" "journal_allowed st db \<Longrightarrow> jm_accepts st db"
  by (cases st; simp add: jm_accepts_def)+

definition mem_journal :: "jmem journal_disk" where
  "mem_journal = \<lparr>
     sq_schema_present = (\<lambda>_. Some True),
     sq_schema_rows = (\<lambda>_. Some (map (\<lambda>n. ((''table'', n), n)) JOURNAL_TABLES @ map (\<lambda>n. ((''trigger'', n), n)) journal_triggers)),
     sq_integrity = (\<lambda>_. Some ''ok''), sq_foreign_key_violation = (\<lambda>v. Some (\<not> journal_linked (jm_content v))),
     sq_count_metadata = (\<lambda>v. Some (int (length (jm_content v J_metadata)))),
     sq_select = (\<lambda>_ _. None),
     sq_write = (\<lambda>_ v. (None, v)),
     sq_begin = (\<lambda>_ v. case jm_open v of None \<Rightarrow> (Some (), v\<lparr>jm_open := Some (jm_durable v)\<rparr>) | Some _ \<Rightarrow> (None, v)),
     sq_commit = (\<lambda>v. case jm_open v of None \<Rightarrow> (None, v) | Some db \<Rightarrow> (Some (), v\<lparr>jm_durable := db, jm_open := None\<rparr>)),
     sq_rollback = (\<lambda>v. (Some (), v\<lparr>jm_open := None\<rparr>)),
     sq_autocommit = (\<lambda>v. jm_open v = None),
     dk_ddl = mem_ddl,
     dk_create_new = (\<lambda>v. (if jm_durable v J_metadata = [] \<and> jm_durable v Reservations = [] \<and> jm_durable v Originals = []
        then Created else Already_exists, v)),
     dk_exists = (\<lambda>_. Some True),
     dk_open = (\<lambda>v. (Some (), v\<lparr>jm_open := None\<rparr>)),
     dk_close = (\<lambda>v. v\<lparr>jm_open := None\<rparr>),
     dk_busy_timeout = (\<lambda>v. (Some (), v)),
     dk_set_pragmas = (\<lambda>v. (Some (), v)),
     dk_pragmas = (\<lambda>_. \<lparr>pg_journal_mode = Some ''delete'', pg_synchronous = Some 3, pg_foreign_keys = Some 1,
       pg_page_size = Some 4096, pg_cache_size = Some (-2000), pg_cache_spill = Some 1\<rparr>),
     dk_sync_path = (\<lambda>v. (Some (), v)),
     jd_select = (\<lambda>t v. Some (map Some (jm_content v t))),
     jd_write = (\<lambda>st v. case jm_open v of None \<Rightarrow> (None, v)
       | Some db \<Rightarrow> if jm_accepts st db
           then (Some (jm_affected st db), v\<lparr>jm_open := Some (journal_apply st db)\<rparr>) else (None, v)),
     jd_try_lock = (\<lambda>v. (Some True, v))\<rparr>"

lemma jdb_empty: "db J_metadata = [] \<Longrightarrow> db Reservations = [] \<Longrightarrow> db Originals = [] \<Longrightarrow> (db :: jdb) = (\<lambda>_. [])"
proof
  fix t assume "db J_metadata = []" "db Reservations = []" "db Originals = []"
  then show "db t = []" by (cases t) simp_all
qed

interpretation jmem: journal_engine mem_journal jm_content jm_durable
  by unfold_locales
    (auto simp: mem_journal_def jm_content_def simp del: journal_apply.simps intro: jdb_empty split: option.splits prod.splits if_splits)

interpretation jmem_h: journal_healthy mem_journal jm_content jm_durable "\<lambda>_. True"
  by unfold_locales (auto simp: mem_journal_def jm_content_def mem_ddl_def simp del: journal_apply.simps journal_allowed.simps split: option.splits)

section \<open>The checks pass\<close>

lemma start_widths:
  assumes rep: "replayed C (approved_genesis (c_keccak C) l) s" and h: "hash_ok (c_keccak C)"
    and v: "snapshot_start (c_keccak C) s (approved_genesis (c_keccak C) l) = Inr view"
  shows "view_widths view"
proof -
  let ?K = "c_keccak C" and ?g = "approved_genesis (c_keccak C) l"
  have h': "digest32 ?K" "proposer_id ?K trial_A \<noteq> proposer_id ?K trial_B" using h by (simp_all add: hash_ok_def)
  note f = snapshot_start_Inr [OF v]
  have "sn_state s = sealed ?K (ge_policy ?g) (cs_data (sn_state s))"
    using replayed_chain_state [OF rep h'(2)] by (simp add: chain_state_def)
  then have "length (cs_id (sn_state s)) = 32"
    using h'(1) by (metis closed_state.select_convs(4) sealed_def hash_with_domain_def digest32_def)
  moreover have "length (pc_id (sv_prefix view)) = 32" "length (sv_id view) = 32"
    using v h'(1) unfolding snapshot_start_def snapshot_prefix_def slot_start_def
    by (auto simp: try_res_Inr_iff from_trusted_history_Inr_iff prefix_id_def hash_with_domain_def digest32_def split: if_splits)
  moreover have "length (pol_network (ge_policy ?g)) = 32"
    using h'(1) by (simp add: approved_genesis_def approved_policy_def keccak256_def digest32_def)
  ultimately show ?thesis using f replayed_tip_hash [OF rep h'(1)] by (simp add: view_widths_def)
qed

lemma history_succeeds:
  assumes "replayed C (approved_genesis (c_keccak C) l) (ow_snapshot ow)" "ow_genesis ow = approved_genesis (c_keccak C) l"
    and "work_ready ow = Inr ()" "hash_ok (c_keccak C)"
    and "snapshot_start (c_keccak C) (ow_snapshot ow) (ow_genesis ow) = Inr view"
  shows "\<exists>ev. signing_history (c_keccak C) ow (sv_slot view) = Inr (view, ev) \<and> length ev = 32"
proof -
  let ?s = "ow_snapshot ow" and ?K = "c_keccak C"
  have n: "unat (sv_slot view) = Suc (length (sn_records ?s))"
    using snapshot_start_Inr(2) [OF assms(5)] replayed_tip [OF assms(1)] by (simp add: checked_add_unat_iff)
  have m: "sv_slot view \<le> MAX_SLOTS"
    using assms(5) by (auto simp: snapshot_start_def slot_start_def try_res_Inr_iff split: if_splits)
  have ge: "1 \<le> sv_slot view" using n by (simp add: word_le_nat_alt)
  then have "unat (sv_slot view - 1) = length (sn_records ?s)" using n by (simp add: unat_sub)
  then have "take (unat (sv_slot view - 1)) (sn_records ?s) = sn_records ?s" by simp
  moreover have "\<not> sv_slot view > po_slot (sn_tip ?s) + 1"
  proof -
    have "sv_slot view = po_slot (sn_tip ?s) + 1"
      using snapshot_start_Inr(2) [OF assms(5)] by (auto simp: checked_add_def split: if_splits)
    then show ?thesis by simp
  qed
  ultimately show ?thesis
    using assms replayed_insert_records [OF assms(1)] m ge
    by (auto simp: signing_history_def Let_def hash_with_domain_def digest32_def hash_ok_def)
qed

context healthy_engine
begin

lemma signing_view_succeeds:
  assumes "P w" "sq_autocommit D w" "stored (c_keccak C) (approved_genesis (c_keccak C) l) (ow_snapshot ow) (durable w)"
    and "replayed C (approved_genesis (c_keccak C) l) (ow_snapshot ow)" "hash_ok (c_keccak C)" "length l \<le> 64"
    and "ow_genesis ow = approved_genesis (c_keccak C) l" "check_base ow (pb_base pb) = Inr ()"
    and "owner_slot_start (c_keccak C) ow = Inr view"
  shows "\<exists>w'. signing_view (c_keccak C) D ow pb w = (Inr view, w')"
proof -
  obtain w1 where 1: "sq_begin D False w = (Some (), w1)" "P w1" using P_begin [OF assms(1,2)] by blast
  obtain w2 where 2: "sq_rollback D w1 = (Some (), w2)" using P_rollback [OF 1(2)] by blast
  have st: "stored (c_keccak C) (approved_genesis (c_keccak C) l) (ow_snapshot ow) (content w1)"
    using begin_effect [OF assms(2) 1(1)] assms(3) by simp
  have "sql_verify (sql_of D) (dk_ddl D) (c_keccak C) (ow_genesis ow) (ow_snapshot ow) w1 = Inr ()"
    using audit_complete(2) [OF P_answers [OF 1(2) st assms(4,5)] st assms(4)] assms(5,6,7) approved_size by (simp add: hash_ok_def)
  with 1 2 assms(8,9) show ?thesis by (simp add: signing_view_def then_do_def disk_call_def)
qed

end

lemma sign_checks_succeed:
  assumes e: "healthy_engine D content durable objects P" and P: "P w" "sq_autocommit D w"
    and st: "stored (c_keccak C) (approved_genesis (c_keccak C) l) (ow_snapshot ow) (durable w)"
    and rep: "replayed C (approved_genesis (c_keccak C) l) (ow_snapshot ow)" and h: "hash_ok (c_keccak C)" "length l \<le> 64"
    and g: "ow_genesis ow = approved_genesis (c_keccak C) l" and prep: "prepare_next C ow producer ticket body = Inr pb"
    and sa: "sign_ready sa ow = Inr ()" "authority_reconcile (c_keccak C) sa ow = Inr report" "sa_producer sa = producer"
  shows "\<exists>view ev w'. snapshot_start (c_keccak C) (ow_snapshot ow) (ow_genesis ow) = Inr view \<and> length ev = 32 \<and>
     sv_slot view = claim_slot (cb_claim (pb_block pb)) \<and> po_hash (sv_parent view) = bh_parent_hash (hc_header (cb_claim (pb_block pb))) \<and>
     hc_producer (cb_claim (pb_block pb)) = producer \<and>
     sign_checks (c_keccak C) D sa ow pb w =
       (Inr (sv_slot view, reservation (c_keccak C) view ev (sa_public_key sa) (pb_block pb) (cs_id (pb_candidate pb))), w')"
  using prep
proof (rule prepare_next_Inr)
  fix view sel native and applied :: applied_body
  assume ready: "work_ready ow = Inr ()" and v: "snapshot_start (c_keccak C) (ow_snapshot ow) (ow_genesis ow) = Inr view"
    and sel: "view_select (c_keccak C) view = Inr sel" "producer = sl_owner sel"
    and c: "compound (c_keccak C) view (pb_block pb) native (ab_outcome applied) = Inr (pb_candidate pb)"
    and pb: "pb = \<lparr>pb_base = owner_base ow, pb_block = pb_block pb, pb_candidate = pb_candidate pb, pb_outcome = ab_outcome applied\<rparr>"
  have "pb_base pb = owner_base ow" by (subst pb) simp
  then have "check_base ow (pb_base pb) = Inr ()" using ready by (simp add: check_base_def owner_base_def)
  moreover have os: "owner_slot_start (c_keccak C) ow = Inr view" using ready v by (simp add: owner_slot_start_def)
  ultimately obtain w' where sv: "signing_view (c_keccak C) D ow pb w = (Inr view, w')"
    using healthy_engine.signing_view_succeeds [OF e P st rep h g] by blast
  obtain ev where ev: "signing_history (c_keccak C) ow (sv_slot view) = Inr (view, ev)" "length ev = 32"
    using history_succeeds [OF rep g ready h(1) v] by blast
  from c sel have facts: "sv_slot view = claim_slot (cb_claim (pb_block pb))"
    "po_hash (sv_parent view) = bh_parent_hash (hc_header (cb_claim (pb_block pb)))" "hc_producer (cb_claim (pb_block pb)) = producer"
    by (auto elim!: compound_Inr)
  have "sign_checks (c_keccak C) D sa ow pb w =
     (Inr (sv_slot view, reservation (c_keccak C) view ev (sa_public_key sa) (pb_block pb) (cs_id (pb_candidate pb))), w')"
    using sa sv ev(1) facts(3) by (simp add: sign_checks_def then_do_def)
  with v ev(2) facts show ?thesis by blast
qed

lemma candidate_id:
  assumes "prepare_next C ow producer ticket body = Inr pb" "digest32 (c_keccak C)"
  shows "length (cs_id (pb_candidate pb)) = 32"
  using assms(1)
proof (rule prepare_next_Inr)
  fix view native and applied :: applied_body
  assume "compound (c_keccak C) view (pb_block pb) native (ab_outcome applied) = Inr (pb_candidate pb)"
  then show ?thesis using assms(2) unfolding compound_def Let_def
    by (auto simp: try_res_Inr_iff checked_Inr_iff sealed_def hash_with_domain_def digest32_def split: if_splits)
qed

lemma sign_prepared_succeeds:
  assumes "healthy_engine D content durable objects P" "journal_healthy J jcontent jdurable Q" "hash_ok (c_keccak C)" "length l \<le> 64"
    and "store_reached C D durable l x" "P (so_disk x)" "prepare_next C (so_owner x) producer ticket body = Inr pb"
    and "Q v" "sq_autocommit J v"
      "journal_holds C (sa_genesis sa) (sa_producer sa) (sa_public_key sa) (sa_intents sa) (jdurable v)"
    and "sign_ready sa (so_owner x) = Inr ()" "authority_reconcile (c_keccak C) sa (so_owner x) = Inr report"
      "sa_genesis sa = approved_genesis (c_keccak C) l" "sa_producer sa = producer" "length (sa_public_key sa) = 33"
      "sa_signing_calls sa \<noteq> -1"
    and "\<forall>(s, i) \<in> set (sa_intents sa). s < claim_slot (cb_claim (pb_block pb)) \<and> in_original i \<noteq> None" "length (sa_intents sa) < 200"
    and "sign_digest C (sa_key sa) (claim_signing_digest (c_keccak C) (cb_claim (pb_block pb)) (pol_network (ge_policy (sa_genesis sa)))) =
      Some (Inr signature)"
      "claim_authenticate C (cb_claim (pb_block pb)) (sa_genesis sa) (pol_network (ge_policy (sa_genesis sa))) signature = Inr ah"
    and "inj_on (c_keccak C) (insert (ENVELOPE_ID_DOMAIN @ c1_envelope_wire_bytes (c_keccak C) \<lparr>ce_block = pb_block pb,
       ce_network = pol_network (ge_policy (sa_genesis sa)), ce_signature = signature\<rparr>) (original_preimages (jdurable v)))"
  defines "e \<equiv> \<lparr>ce_block = pb_block pb, ce_network = pol_network (ge_policy (sa_genesis sa)), ce_signature = signature\<rparr>"
  shows "\<exists>sa' w' v'. sign_prepared C D J sa (so_owner x) pb (so_disk x) v =
     Some (Inr \<lparr>og_bytes = c1_envelope_wire_bytes (c_keccak C) e, og_id = c1_envelope_id (c_keccak C) e\<rparr>, sa', w', v') \<and>
     sa_signing_calls sa' = sa_signing_calls sa + 1"
proof -
  let ?K = "c_keccak C" and ?g = "approved_genesis (c_keccak C) l" and ?ow = "so_owner x"
  have dg: "digest32 ?K" using assms(3) by (simp add: hash_ok_def)
  have eng: "sqlite_engine D content durable" using assms(1) by (simp add: healthy_engine_def writing_engine_def responsive_engine_def)
  have np: "\<not> ow_poisoned ?ow" using assms(11) by (auto simp: sign_ready_def split: if_splits)
  from store_reached_ok [OF eng assms(3,5)] np have ok: "sq_autocommit D (so_disk x)" "stored ?K ?g (ow_snapshot ?ow) (durable (so_disk x))"
    "replayed C ?g (ow_snapshot ?ow)" "ow_genesis ?ow = ?g" by (auto simp: store_ok_def Let_def)
  obtain view ev w' where v: "snapshot_start ?K (ow_snapshot ?ow) (ow_genesis ?ow) = Inr view" "length ev = 32"
      "sv_slot view = claim_slot (cb_claim (pb_block pb))" "po_hash (sv_parent view) = bh_parent_hash (hc_header (cb_claim (pb_block pb)))"
      "hc_producer (cb_claim (pb_block pb)) = producer"
    and sc: "sign_checks ?K D sa ?ow pb (so_disk x) =
       (Inr (sv_slot view, reservation ?K view ev (sa_public_key sa) (pb_block pb) (cs_id (pb_candidate pb))), w')"
    using sign_checks_succeed [OF assms(1,6) ok(1-3) assms(3,4) ok(4) assms(7,11,12,14)] by blast
  let ?res = "reservation ?K view ev (sa_public_key sa) (pb_block pb) (cs_id (pb_candidate pb))"
  have bok: "c1_block_ok ?K (pb_block pb)" by (rule prepared_block_ok [OF assms(7) ok(3) dg])
  have vw: "view_widths view" using start_widths [OF ok(3) assms(3)] v(1) ok(4) by simp
  note cid = candidate_id [OF assms(7) dg]
  have sg: "sv_genesis view = sa_genesis sa" using snapshot_start_Inr(3) [OF v(1)] ok(4) assms(13) by simp
  have dec: "decode_reservation ?K ?res (sa_genesis sa) (sa_producer sa) (sa_public_key sa) = Inr (pb_block pb, cs_id (pb_candidate pb))"
    using decode_reservation_enc [OF bok dg vw v(2) assms(15) cid] v(3-5) sg assms(14) by simp
  have len: "295 \<le> length ?res" "length ?res \<le> MAX_RESERVATION_BYTES"
    using length_reservation [OF bok dg vw v(2) assms(15) cid] length_block_wire_bytes [OF bok dg] c1_block_okD [OF bok]
    by (auto simp: MAX_RESERVATION_BYTES_def C1_MAX_BLOCK_BYTES_def MAX_ENTRIES_def)
  let ?e = "\<lparr>ce_block = pb_block pb, ce_network = pol_network (ge_policy (sa_genesis sa)), ce_signature = signature\<rparr>"
  have lens: "length signature = 65" "length (pol_network (ge_policy (sa_genesis sa))) = 32"
    using assms(20) vw sg
    by (auto simp: view_widths_def claim_authenticate_def Let_def try_res_Inr_iff signature_from_bytes_Inr_iff signature_wf_def
        native_lens split: if_splits)
  have lt: "\<forall>y \<in> fst ` set (sa_intents sa). y < sv_slot view" using assms(17) unfolding v(3) by fastforce
  have pos: "sv_slot view \<noteq> 0" using snapshot_start_Inr(2) [OF v(1)] by (auto simp: checked_add_unat_iff)
  obtain sa' v' where sr: "sign_reserved C J sa pb (sv_slot view) ?res v =
     Some (Inr \<lparr>og_bytes = c1_envelope_wire_bytes ?K ?e, og_id = c1_envelope_id ?K ?e\<rparr>, sa', v')"
     "sa_signing_calls sa' = sa_signing_calls sa + 1"
    using journal_healthy.sign_reserved_succeeds [OF assms(2,8,9,10) lt pos assms(18) dec v(3) [symmetric] len assms(16,19) lens bok dg assms(21)]
    by blast
  have none: "map_of (sa_intents sa) (sv_slot view) = None"
    using lt by (cases "map_of (sa_intents sa) (sv_slot view)") (auto dest!: map_of_SomeD)
  have all: "find (\<lambda>(_, i). in_original i = None) (sa_intents sa) = None" using assms(17) by (auto simp: find_None_iff)
  show ?thesis
    using sc none all sr unfolding e_def by (simp add: sign_prepared_def poison_authority_def)
qed

section \<open>A run of the authority\<close>

text \<open>For the witnesses: the authority of either validator opens on an empty journal beside a fresh owner, signs the
  first block and, after a restart, returns the same original again.\<close>

abbreviation trial_key :: "text_bytes \<Rightarrow> signer" where
  "trial_key p \<equiv> \<lambda>_ _. Inr (replicate 64 (if p = trial_A then 1 else 2), 0)"

abbreviation first_owner :: owner where
  "first_owner \<equiv> idle_owner (snapshot_initial trial_genesis)"

definition trial_pk :: "text_bytes \<Rightarrow> bytes" where
  "trial_pk p = (if p = trial_A then key_a else key_b)"

definition trial_authority :: "text_bytes \<Rightarrow> authority" where
  "trial_authority p = \<lparr>sa_genesis = trial_genesis, sa_producer = p, sa_public_key = trial_pk p, sa_key = trial_key p,
     sa_connected = True, sa_intents = [], sa_poisoned = False, sa_generation = 7, sa_signing_calls = 0, sa_attempt = None\<rparr>"

definition opened_journal :: "text_bytes \<Rightarrow> jdb" where
  "opened_journal p = (\<lambda>_. [])(J_metadata := [[Blob (be_bytes (1 :: u32)), Text (str ''c1-signing-authority''),
     Blob (signing_identity trial_genesis p (trial_pk p)), Blob (be_bytes (1 :: u64))]])"

abbreviation empty_journal :: jmem where
  "empty_journal \<equiv> \<lparr>jm_durable = \<lambda>_. [], jm_open = None\<rparr>"

lemma first_history: "\<exists>view ev. signing_history (c_keccak trial_crypto) first_owner 1 = Inr (view, ev) \<and> sv_genesis view = trial_genesis"
proof -
  obtain producer ticket pb where "prepare_next trial_crypto first_owner producer ticket [] = Inr pb" by (rule trial_first)
  then obtain view where v: "snapshot_start (c_keccak trial_crypto) (snapshot_initial trial_genesis) trial_genesis = Inr view"
    by (auto elim: prepare_next_Inr)
  have rep: "replayed trial_crypto trial_genesis (snapshot_initial trial_genesis)" by (rule replay_start)
  have "po_slot (sn_tip (snapshot_initial trial_genesis)) = 0" using replayed_tip [OF rep]
    by (simp add: snapshot_initial_def unat_eq_0)
  with snapshot_start_Inr(2) [OF v] have "sv_slot view = 1" by (auto simp: checked_add_def split: if_splits)
  with history_succeeds [of trial_crypto "[65]" first_owner view] rep v trial_hash_ok snapshot_start_Inr(3) [OF v]
  show ?thesis by auto
qed

lemma first_reconcile: "\<exists>report. sign_reconcile (c_keccak trial_crypto) [] trial_genesis p k first_owner = Inr report"
  using first_history
  by (auto simp: sign_reconcile_def owner_view_def owner_ready_def idle_owner_def snapshot_initial_def)

lemma mem_journal_simps:
  "sq_count_metadata mem_journal v = Some (int (length (jm_content v J_metadata)))"
  "sq_begin mem_journal b \<lparr>jm_durable = d, jm_open = None\<rparr> = (Some (), \<lparr>jm_durable = d, jm_open = Some d\<rparr>)"
  "sq_commit mem_journal \<lparr>jm_durable = d, jm_open = Some db\<rparr> = (Some (), \<lparr>jm_durable = db, jm_open = None\<rparr>)"
  "sq_rollback mem_journal \<lparr>jm_durable = d, jm_open = q\<rparr> = (Some (), \<lparr>jm_durable = d, jm_open = None\<rparr>)"
  "dk_open mem_journal \<lparr>jm_durable = d, jm_open = q\<rparr> = (Some (), \<lparr>jm_durable = d, jm_open = None\<rparr>)"
  "dk_close mem_journal \<lparr>jm_durable = d, jm_open = q\<rparr> = \<lparr>jm_durable = d, jm_open = None\<rparr>"
  "dk_exists mem_journal v = Some True" "dk_sync_path mem_journal v = (Some (), v)"
  "dk_create_new mem_journal \<lparr>jm_durable = \<lambda>_. [], jm_open = q\<rparr> = (Created, \<lparr>jm_durable = \<lambda>_. [], jm_open = q\<rparr>)"
  "jd_select mem_journal t v = Some (map Some (jm_content v t))" "jd_try_lock mem_journal v = (Some True, v)"
  "jm_accepts st db \<Longrightarrow> jd_write mem_journal st \<lparr>jm_durable = d, jm_open = Some db\<rparr> =
     (Some (jm_affected st db), \<lparr>jm_durable = d, jm_open = Some (journal_apply st db)\<rparr>)"
  "jm_content \<lparr>jm_durable = d, jm_open = Some db\<rparr> = db"
  by (simp_all add: mem_journal_def jm_content_def)

lemma mem_journal_ready: "journal_linked (jm_content v) \<Longrightarrow> journal_schema mem_journal v = Inr ()" "journal_configure mem_journal v = (Inr (), v)"
  by (simp_all add: mem_journal_def journal_schema_def mem_ddl_def journal_configure_def disk_configure_def disk_call_def
      then_do_def disk.truncate_def)

lemma execs_skip:
  "journal_execs mem_journal (map (\<lambda>n. J_execute (f n)) ns) \<lparr>jm_durable = d, jm_open = Some db\<rparr> = (Inr (), \<lparr>jm_durable = d, jm_open = Some db\<rparr>)"
  by (induction ns) (simp_all add: then_do_def journal_exec_def mem_journal_simps)

lemma identity_size_trial: "p \<in> {trial_A, trial_B} \<Longrightarrow> length (signing_identity trial_genesis p (trial_pk p)) \<le> 256"
  using trial_facts(1)
  by (auto simp: signing_identity_def trial_pk_def approved_genesis_def approved_policy_def keccak256_def digest32_def key_a_def key_b_def)

lemma trial_initializes:
  assumes "1 \<le> length (signing_identity g p k)" "length (signing_identity g p k) \<le> 256"
  shows "journal_initialize mem_journal g p k empty_journal = (Inr (), \<lparr>jm_durable = (\<lambda>_. [])(J_metadata :=
     [[Blob (be_bytes (1 :: u32)), Text (str ''c1-signing-authority''), Blob (signing_identity g p k), Blob (be_bytes (0 :: u64))]]), jm_open = None\<rparr>)"
  using assms
  by (simp add: journal_initialize_def then_do_def journal_call_def journal_exec_def mem_journal_simps execs_skip
      del: map_append)

lemma trial_opens:
  assumes "p \<in> {trial_A, trial_B}"
  shows "open_authority trial_crypto mem_journal trial_genesis p (trial_signature p) (trial_key p) first_owner True empty_journal =
     (Inr (trial_authority p), \<lparr>jm_durable = opened_journal p, jm_open = None\<rparr>)"
proof -
  let ?pk = "trial_pk p" and ?g = trial_genesis
  obtain c where c: "find (\<lambda>c. vc_id c = p) (pol_configs (ge_policy ?g)) = Some c" "vc_public_key c = ?pk"
    using assms by (auto simp: approved_configs_def trial_pk_def)
  have key: "c_to_encoded_point trial_crypto (trial_signature p) True = ?pk"
    using assms by (auto simp: trial_crypto_def trial_pk_def nth_append)
  have slot: "po_slot (sn_tip (snapshot_initial ?g)) = 0"
    using replayed_tip [OF replay_start, of trial_crypto "[65]"] by (simp add: snapshot_initial_def unat_eq_0)
  obtain report where rep: "sign_reconcile (c_keccak trial_crypto) [] ?g p ?pk first_owner = Inr report" using first_reconcile by blast
  let ?row = "\<lambda>b. [Blob (be_bytes (1 :: u32)), Text (str ''c1-signing-authority''), Blob (signing_identity ?g p ?pk), Blob (be_bytes (b :: u64))]"
  let ?v = "\<lambda>b. \<lparr>jm_durable = (\<lambda>_. [])(J_metadata := [?row b]), jm_open = None\<rparr>"
  have read: "journal_read trial_crypto mem_journal ?g p ?pk auth \<lparr>jm_durable = d, jm_open = Some ((\<lambda>_. [])(J_metadata := [?row b]))\<rparr> = Inr []" for auth b d
    using identity_size_trial [OF assms] identity_size [of ?g p ?pk]
    by (simp add: journal_read_def mem_journal_ready journal_policy_def mem_journal_simps journal_blob_def journal_linked_def)
  have load: "journal_load trial_crypto mem_journal ?g p ?pk (?v b) = (Inr [], ?v b)" for b
    by (simp add: journal_load_def then_do_def journal_call_def mem_journal_simps read)
  have bar: "journal_barrier trial_crypto mem_journal ?g p ?pk [] (?v 0) = (Inr (), ?v 1)"
    by (simp add: journal_barrier_def then_do_def journal_call_def journal_verify_def journal_exec_def mem_journal_simps read checked_add_def
        jm_affected_def)
  have "owner_view first_owner = Inr (snapshot_initial ?g)" "ow_generation first_owner = 7"
    by (simp_all add: owner_view_def owner_ready_def idle_owner_def)
  with c key slot rep load bar show ?thesis
    by (simp add: open_authority_def then_do_def Let_def mem_journal_simps mem_journal_ready disk_open_def disk_call_def
        trial_initializes [OF identity_size identity_size_trial [OF assms]] journal_call_def trial_authority_def opened_journal_def)
qed

lemma trial_holds: "p \<in> {trial_A, trial_B} \<Longrightarrow> journal_holds trial_crypto trial_genesis p (trial_pk p) [] (opened_journal p)"
  using identity_size_trial by (simp add: journal_holds_def opened_journal_def)

lemma trial_digest: "sign_digest trial_crypto (trial_key p) d = Some (Inr (trial_signature p))"
proof -
  have s: "signature_wf trial_crypto (trial_signature p)"
    by (simp add: signature_wf_def trial_crypto_def tail_crypto_def demo_crypto_def native_lens nth_append)
  have "block_signature_from_bytes trial_crypto (trial_signature p) = Inr (trial_signature p)"
    using s by (simp add: block_signature_from_bytes_def signature_from_bytes_Inr_iff)
  then show ?thesis
    by (simp add: sign_digest_def block_sign_with_retry.simps copy_at_def native_lens)
qed

lemma trial_ready:
  assumes "p \<in> {trial_A, trial_B}"
  shows "sign_ready (trial_authority p) first_owner = Inr ()"
    "\<exists>report. authority_reconcile (c_keccak trial_crypto) (trial_authority p) first_owner = Inr report"
    "length (sa_public_key (trial_authority p)) = 33"
  using assms first_reconcile
  by (auto simp: sign_ready_def trial_authority_def idle_owner_def trial_pk_def key_a_def key_b_def)

text \<open>A reachable store, the block prepared on it, and the authority that will sign it.\<close>

lemma trial_prepared:
  obtains x p ticket pb ah where "store_reached trial_crypto mem_disk mm_durable [65] x" "mem_well (so_disk x)"
    "so_owner x = first_owner" "prepare_next trial_crypto first_owner p ticket [] = Inr pb" "p \<in> {trial_A, trial_B}"
    "claim_authenticate trial_crypto (cb_claim (pb_block pb)) trial_genesis (pol_network (ge_policy trial_genesis)) (trial_signature p) = Inr ah"
proof -
  obtain x where x: "store_reached trial_crypto mem_disk mm_durable [65] x" "mm_fault (so_disk x) = None" "so_owner x = first_owner"
    "mem_sound (so_disk x)" "mm_open (so_disk x) = None" by (rule mem_reached)
  from x(2,4,5) have w: "mem_well (so_disk x)" by (simp add: mem_objects_def)
  obtain p ticket pb where pb: "prepare_next trial_crypto first_owner p ticket [] = Inr pb" by (rule trial_first)
  have "replayed trial_crypto trial_genesis (ow_snapshot first_owner)" by (simp add: replay_start)
  from prepared_block_ok [OF pb this trial_facts(1)]
  have in_ab: "hc_producer (cb_claim (pb_block pb)) \<in> {trial_A, trial_B}"
    using block_from_parts_Inr(6) unfolding c1_block_ok_def by blast
  moreover have "hc_producer (cb_claim (pb_block pb)) = p"
    using pb by (auto elim!: prepare_next_Inr compound_Inr)
  ultimately have p: "p \<in> {trial_A, trial_B}" and hp: "hc_producer (cb_claim (pb_block pb)) = p" by auto
  then obtain ah where "claim_authenticate trial_crypto (cb_claim (pb_block pb)) trial_genesis (pol_network (ge_policy trial_genesis))
      (trial_signature p) = Inr ah" using trial_signs [OF in_ab] by auto
  then show thesis by (rule that [OF x(1) w x(3) pb p])
qed

lemma trial_run:
  obtains x s bs c p where "signing_run trial_crypto mem_disk mem_journal trial_genesis p (fresh_signing empty_journal) x"
    "sn_signed x = [c]" "sn_released x = [(s, bs)]"
proof -
  let ?C = trial_crypto and ?g = trial_genesis
  obtain x p ticket pb ah where x: "store_reached ?C mem_disk mm_durable [65] x" "mem_well (so_disk x)" "so_owner x = first_owner"
    and pb: "prepare_next ?C first_owner p ticket [] = Inr pb" and p: "p \<in> {trial_A, trial_B}"
    and ah: "claim_authenticate ?C (cb_claim (pb_block pb)) ?g (pol_network (ge_policy ?g)) (trial_signature p) = Inr ah"
    by (rule trial_prepared)
  let ?sa = "trial_authority p" and ?v = "\<lparr>jm_durable = opened_journal p, jm_open = None\<rparr>"
  have sa: "sa_genesis ?sa = ?g" "sa_producer ?sa = p" "sa_intents ?sa = []" "sa_signing_calls ?sa = 0" "sa_key ?sa = trial_key p"
      "sa_public_key ?sa = trial_pk p" by (simp_all add: trial_authority_def)
  obtain report where rep: "authority_reconcile (c_keccak ?C) ?sa (so_owner x) = Inr report" using trial_ready(2) [OF p] x(3) by auto
  have hold: "journal_holds ?C (sa_genesis ?sa) (sa_producer ?sa) (sa_public_key ?sa) (sa_intents ?sa) (jm_durable ?v)"
    using trial_holds [OF p] sa by simp
  have idle: "sq_autocommit mem_journal ?v" by (simp add: mem_journal_def)
  have none: "original_preimages (jm_durable ?v) = {}" by (simp add: original_preimages_def opened_journal_def)
  obtain og sa' w' v' where sp: "sign_prepared ?C mem_disk mem_journal ?sa first_owner pb (so_disk x) ?v = Some (Inr og, sa', w', v')"
    "sa_signing_calls sa' = 1"
    using sign_prepared_succeeds [OF mem_h.healthy_engine_axioms jmem_h.journal_healthy_axioms trial_hash_ok _ x(1,2) _ TrueI idle hold _ rep,
        of p ticket "[]" pb "trial_signature p" ah] sa x(3) pb trial_ready [OF p] ah trial_digest none
    by auto
  let ?x1 = "(fresh_signing empty_journal)\<lparr>sn_authority := Some ?sa, sn_journal := ?v\<rparr>"
  have o: "open_authority ?C mem_journal ?g p (trial_signature p) (trial_key p) first_owner True (sn_journal (fresh_signing empty_journal)) =
     (Inr ?sa, ?v)" using trial_opens [OF p] by (simp add: fresh_signing_def)
  have 1: "signing_step ?C mem_disk mem_journal ?g p (fresh_signing empty_journal) ?x1"
    using step_open [of "fresh_signing empty_journal", OF _ o] by (simp add: fresh_signing_def)
  have sp': "sign_prepared ?C mem_disk mem_journal ?sa first_owner pb (so_disk x) (sn_journal ?x1) = Some (Inr og, sa', w', v')"
    using sp(1) by simp
  have "sn_authority ?x1 = Some ?sa" by simp
  note 2 = step_sign [OF this pb sp', of ?g p]
  show thesis
    by (rule that [OF signing_more [OF signing_more [OF signing_start 1] 2]])
      (simp_all add: fresh_signing_def released_by_def sa(4) sp(2))
qed

section \<open>Properties\<close>

text \<open>C3. The authority never signs two blocks for one slot. Over its whole life, from an empty journal through
  any number of restarts, crashes, failed transactions and recoveries, and whatever owners and preparations it
  is given, the claims on which the prehash signer is called have pairwise different slots. It
  relies on the journal's database only in that committed rows stay and that a failed \<open>COMMIT\<close> keeps or applies
  the transaction as a whole.\<close>

theorem slot_signed_once:
  assumes "journal_engine J content durable" "durable v = (\<lambda>_. [])" "signing_run C D J g producer (fresh_signing v) x"
  shows "distinct (map claim_slot (sn_signed x))"
  using journal_engine.signing_run_keeps [OF assms(1,3)] journal_engine.fresh_signing_ok [OF assms(1,2)]
  by (simp add: signing_ok_def Let_def)

text \<open>C4. Every original ever returned for a slot is the same byte string: by the signing call itself, by a
  repeated request, or by a later retrieval, before or after restarts and recoveries; and a returned original is
  durably in the journal.\<close>

theorem original_returned_unique:
  assumes "journal_engine J content durable" "durable v = (\<lambda>_. [])" "signing_run C D J g producer (fresh_signing v) x"
    and "(s, bs) \<in> set (sn_released x)" "(s, bs') \<in> set (sn_released x)"
  shows "bs = bs' \<and> original_in (durable (sn_journal x)) s bs"
proof -
  from journal_engine.signing_run_keeps [OF assms(1,3)] journal_engine.fresh_signing_ok [OF assms(1,2)]
  have ok: "signing_ok J durable x" by blast
  with assms(4,5) have "original_in (durable (sn_journal x)) s bs" "original_in (durable (sn_journal x)) s bs'"
    by (auto simp: signing_ok_def Let_def)
  with ok show ?thesis unfolding signing_ok_def Let_def functional_def by blast
qed

text \<open>C5. The selected producer gets its block signed and admitted. On disks that work and enforce the constraints of
  their schemas, when the owner of a reachable store has prepared a block and the authority agrees with that owner, has no
  unfinished reservation and none for this slot or a later one, \<open>sign_prepared\<close> returns an original; sealing the
  preparation with its bytes, or receiving them, yields one and the same staged block. The signature only has to be one
  that the registered key verifies. The journal lets the reservation through and then the original beside it: their
  widths fit, no slot repeats, and the identifier of the original does not repeat unless the digest of its bytes collides
  with that of an earlier original.\<close>

theorem signed_block_admitted:
  assumes "healthy_engine D content durable objects P" "journal_healthy J jcontent jdurable Q" "hash_ok (c_keccak C)" "length l \<le> 64"
    and "store_reached C D durable l x" "P (so_disk x)" "prepare_next C (so_owner x) producer ticket body = Inr pb"
    and "\<forall>r \<in> set (history x). c1_block_hash (c_keccak C) (rd_block r) \<noteq> c1_block_hash (c_keccak C) (pb_block pb)"
    and "Q v" "sq_autocommit J v"
      "journal_holds C (sa_genesis sa) (sa_producer sa) (sa_public_key sa) (sa_intents sa) (jdurable v)"
    and "sign_ready sa (so_owner x) = Inr ()" "authority_reconcile (c_keccak C) sa (so_owner x) = Inr report"
      "sa_genesis sa = approved_genesis (c_keccak C) l" "sa_producer sa = producer" "length (sa_public_key sa) = 33"
      "sa_signing_calls sa \<noteq> -1"
    and "\<forall>(s, i) \<in> set (sa_intents sa). s < claim_slot (cb_claim (pb_block pb)) \<and> in_original i \<noteq> None" "length (sa_intents sa) < 200"
    and "sign_digest C (sa_key sa) (claim_signing_digest (c_keccak C) (cb_claim (pb_block pb)) (pol_network (ge_policy (sa_genesis sa)))) =
      Some (Inr signature)"
      "claim_authenticate C (cb_claim (pb_block pb)) (sa_genesis sa) (pol_network (ge_policy (sa_genesis sa))) signature = Inr ah"
    and "inj_on (c_keccak C) (insert (ENVELOPE_ID_DOMAIN @ c1_envelope_wire_bytes (c_keccak C) \<lparr>ce_block = pb_block pb,
       ce_network = pol_network (ge_policy (sa_genesis sa)), ce_signature = signature\<rparr>) (original_preimages (jdurable v)))"
  shows "\<exists>og sa' w' v' sg. sign_prepared C D J sa (so_owner x) pb (so_disk x) v = Some (Inr og, sa', w', v') \<and>
     seal_prepared C (so_owner x) pb (og_bytes og) = (Inr sg, so_owner x) \<and>
     stage_received C (so_owner x) (og_bytes og) = (Inr sg, so_owner x) \<and>
     sa_signing_calls sa' = sa_signing_calls sa + 1 \<and> sg_base sg = owner_base (so_owner x)"
proof -
  let ?K = "c_keccak C" and ?g = "approved_genesis (c_keccak C) l" and ?ow = "so_owner x"
  have eng: "sqlite_engine D content durable" using assms(1) by (simp add: healthy_engine_def writing_engine_def responsive_engine_def)
  have ok: "replayed C ?g (ow_snapshot ?ow)" "ow_genesis ?ow = ?g"
    using store_reached_ok [OF eng assms(3,5)] by (auto simp: store_ok_def Let_def)
  have dg: "digest32 ?K" using assms(3) by (simp add: hash_ok_def)
  have "claim_authenticate C (cb_claim (pb_block pb)) (ow_genesis ?ow) (pol_network (ge_policy (ow_genesis ?ow))) signature = Inr ah"
    using assms(14,21) ok(2) by simp
  note ha = honest_accepted [OF assms(7) ok dg assms(8) this]
  obtain sa' w' v' where "sign_prepared C D J sa ?ow pb (so_disk x) v = Some (Inr \<lparr>og_bytes = c1_envelope_wire_bytes ?K
     \<lparr>ce_block = pb_block pb, ce_network = pol_network (ge_policy (sa_genesis sa)), ce_signature = signature\<rparr>,
     og_id = c1_envelope_id ?K \<lparr>ce_block = pb_block pb, ce_network = pol_network (ge_policy (sa_genesis sa)), ce_signature = signature\<rparr>\<rparr>, sa', w', v')"
     "sa_signing_calls sa' = sa_signing_calls sa + 1"
    using sign_prepared_succeeds [OF assms(1-7,9-22)] by blast
  with ha show ?thesis using assms(14) ok(2) by (intro exI conjI) auto
qed

theorem signed_block_admitted_witness:
  "\<exists>x p pb og sa' w' v' sg. store_reached trial_crypto mem_disk mm_durable [65] x \<and> p \<in> {trial_A, trial_B} \<and>
     sign_prepared trial_crypto mem_disk mem_journal (trial_authority p) (so_owner x) pb (so_disk x)
       \<lparr>jm_durable = opened_journal p, jm_open = None\<rparr> = Some (Inr og, sa', w', v') \<and>
     stage_received trial_crypto (so_owner x) (og_bytes og) = (Inr sg, so_owner x)"
proof -
  let ?C = trial_crypto and ?g = trial_genesis
  obtain x p ticket pb ah where x: "store_reached ?C mem_disk mm_durable [65] x" "mem_well (so_disk x)" "so_owner x = first_owner"
    and pb: "prepare_next ?C first_owner p ticket [] = Inr pb" and p: "p \<in> {trial_A, trial_B}"
    and ah: "claim_authenticate ?C (cb_claim (pb_block pb)) ?g (pol_network (ge_policy ?g)) (trial_signature p) = Inr ah"
    by (rule trial_prepared)
  let ?sa = "trial_authority p" and ?v = "\<lparr>jm_durable = opened_journal p, jm_open = None\<rparr>"
  have sa: "sa_genesis ?sa = ?g" "sa_producer ?sa = p" "sa_intents ?sa = []" "sa_signing_calls ?sa = 0" "sa_key ?sa = trial_key p"
      "sa_public_key ?sa = trial_pk p" by (simp_all add: trial_authority_def)
  obtain report where rep: "authority_reconcile (c_keccak ?C) ?sa (so_owner x) = Inr report" using trial_ready(2) [OF p] x(3) by auto
  have hold: "journal_holds ?C (sa_genesis ?sa) (sa_producer ?sa) (sa_public_key ?sa) (sa_intents ?sa) (jm_durable ?v)"
    using trial_holds [OF p] sa by simp
  have idle: "sq_autocommit mem_journal ?v" by (simp add: mem_journal_def)
  have none: "original_preimages (jm_durable ?v) = {}" by (simp add: original_preimages_def opened_journal_def)
  obtain og sa' w' v' sg where "sign_prepared ?C mem_disk mem_journal ?sa (so_owner x) pb (so_disk x) ?v = Some (Inr og, sa', w', v')"
    "stage_received ?C (so_owner x) (og_bytes og) = (Inr sg, so_owner x)"
    using signed_block_admitted [OF mem_h.healthy_engine_axioms jmem_h.journal_healthy_axioms trial_hash_ok _ x(1,2) _ _ TrueI idle hold _ rep,
        of p ticket "[]" pb "trial_signature p" ah] sa x(3) pb trial_ready [OF p] ah trial_digest none
    by (auto simp: snapshot_initial_def)
  with x(1) p show ?thesis by blast
qed

theorem slot_signed_once_witness:
  "\<exists>p x c. signing_run trial_crypto mem_disk mem_journal trial_genesis p (fresh_signing empty_journal) x \<and> sn_signed x = [c] \<and>
     distinct (map claim_slot (sn_signed x))"
proof -
  obtain x s bs c p where x: "signing_run trial_crypto mem_disk mem_journal trial_genesis p (fresh_signing empty_journal) x"
    "sn_signed x = [c]" by (rule trial_run)
  have "distinct (map claim_slot (sn_signed x))"
    by (rule slot_signed_once [OF jmem.journal_engine_axioms _ x(1)]) simp
  with x show ?thesis by blast
qed

theorem original_returned_unique_witness:
  "\<exists>p x s bs. signing_run trial_crypto mem_disk mem_journal trial_genesis p (fresh_signing empty_journal) x \<and>
     (s, bs) \<in> set (sn_released x) \<and> original_in (jm_durable (sn_journal x)) s bs"
proof -
  obtain x s bs c p where x: "signing_run trial_crypto mem_disk mem_journal trial_genesis p (fresh_signing empty_journal) x"
    "sn_released x = [(s, bs)]" by (rule trial_run)
  have "bs = bs \<and> original_in (jm_durable (sn_journal x)) s bs"
    by (rule original_returned_unique [OF jmem.journal_engine_axioms _ x(1)]) (simp_all add: x(2))
  with x show ?thesis by (intro exI [of _ p] exI [of _ x] exI [of _ s] exI [of _ bs]) simp
qed

end
