(* ===== verification/Poash_Peer.thy ===== *)
theory Poash_Peer
  imports Poash_Application
begin

text \<open>
  \<open>src/src/native_poash/peer.rs\<close>: the messages of the closed experiment's peers and their framing.
  The socket functions are modelled by what they read and write: \<open>read_exact\<close> draws from a list of
  chunks, the results of the successive \<open>read\<close> calls, and the deadline is a chunk that never comes.
  Error texts are kept as strings.
\<close>

section \<open>Messages\<close>

definition PEER_MAGIC :: bytes where "PEER_MAGIC = str ''ETXC1P3'' @ [0]"
definition HEADER_BYTES :: nat where "HEADER_BYTES = 128"
definition MAX_FRAME_BYTES :: nat where "MAX_FRAME_BYTES = HEADER_BYTES + C1_MAX_ENVELOPE_BYTES"

datatype peer_kind = KStatus | KTip | KPush | KGet | KEnvelope | KAck | KReject

fun kind_code :: "peer_kind \<Rightarrow> u8" where
  "kind_code KStatus = 1" | "kind_code KTip = 2" | "kind_code KPush = 3" | "kind_code KGet = 4"
| "kind_code KEnvelope = 5" | "kind_code KAck = 6" | "kind_code KReject = 7"

definition kind_decode :: "u8 \<Rightarrow> string + peer_kind" where
  "kind_decode n =
     (if n = 1 then Inr KStatus else if n = 2 then Inr KTip else if n = 3 then Inr KPush
      else if n = 4 then Inr KGet else if n = 5 then Inr KEnvelope else if n = 6 then Inr KAck
      else if n = 7 then Inr KReject else Inl ''unknown C1 peer kind'')"

fun kind_check :: "peer_kind \<Rightarrow> nat \<Rightarrow> bool" where
  "kind_check KStatus n \<longleftrightarrow> n = 0"
| "kind_check KTip n \<longleftrightarrow> n = 72"
| "kind_check KPush n \<longleftrightarrow> 402 \<le> n \<and> n \<le> C1_MAX_ENVELOPE_BYTES"
| "kind_check KEnvelope n \<longleftrightarrow> 402 \<le> n \<and> n \<le> C1_MAX_ENVELOPE_BYTES"
| "kind_check KGet n \<longleftrightarrow> n = 8"
| "kind_check KAck n \<longleftrightarrow> n = 73"
| "kind_check KReject n \<longleftrightarrow> n = 1"

record peer_message =
  pm_kind :: peer_kind
  pm_request :: u64
  pm_body :: bytes

definition message_new :: "peer_kind \<Rightarrow> u64 \<Rightarrow> bytes \<Rightarrow> string + peer_message" where
  "message_new kind request body =
     (if request = 0 \<or> \<not> kind_check kind (length body) then Inl ''C1 message width/request''
      else let slot = be_word (take 8 body) :: u64 in
      if kind \<in> {KGet, KTip, KAck} \<and> (slot > MAX_SLOTS \<or> (kind \<noteq> KTip \<and> slot = 0))
        then Inl ''C1 message slot bound''
      else if kind = KAck \<and> body ! 72 > 1 then Inl ''C1 acknowledgement flag''
      else if kind = KReject \<and> \<not> (1 \<le> body ! 0 \<and> body ! 0 \<le> 4) then Inl ''C1 rejection code''
      else Inr \<lparr>pm_kind = kind, pm_request = request, pm_body = body\<rparr>)"

definition message_bytes :: "peer_message \<Rightarrow> genesis \<Rightarrow> bytes" where
  "message_bytes m g =
     (let out = replicate HEADER_BYTES 0;
          out = copy_at 0 PEER_MAGIC out;
          out = out[8 := 3];
          out = out[9 := kind_code (pm_kind m)];
          out = copy_at 12 (be_bytes HEADER_PROFILE) out;
          out = copy_at 16 (be_bytes AUTH_RULES) out;
          out = copy_at 20 (be_bytes POASH_RULES) out;
          out = copy_at 24 (be_bytes CHAIN_ID) out;
          out = copy_at 32 (pol_network (ge_policy g)) out;
          out = copy_at 64 (be_bytes (pm_request m)) out;
          out = copy_at 72 (be_bytes (of_nat (length (pm_body m)) :: u32)) out
      in out @ pm_body m)"

definition peer_header :: "bytes \<Rightarrow> genesis \<Rightarrow> string + peer_kind \<times> u64 \<times> nat" where
  "peer_header h g =
     (if length h \<noteq> HEADER_BYTES \<or> take 8 h \<noteq> PEER_MAGIC \<or> h ! 8 \<noteq> 3 \<or> field 2 h 10 \<noteq> replicate 2 0 \<or>
         drop 76 h \<noteq> replicate 52 0 \<or> field 4 h 12 \<noteq> be_bytes HEADER_PROFILE \<or>
         field 4 h 16 \<noteq> be_bytes AUTH_RULES \<or> field 4 h 20 \<noteq> be_bytes POASH_RULES \<or>
         field 8 h 24 \<noteq> be_bytes CHAIN_ID \<or> field 32 h 32 \<noteq> pol_network (ge_policy g)
        then Inl ''C1 peer context/header''
      else try_res (kind_decode (h ! 9)) (\<lambda>kind.
        let request = be_word (field 8 h 64) :: u64; len = unat (be_word (field 4 h 72) :: u32) in
        if request = 0 \<or> \<not> kind_check kind len then Inl ''C1 peer declared body bound''
        else Inr (kind, request, len)))"

definition message_from_bytes :: "bytes \<Rightarrow> genesis \<Rightarrow> string + peer_message" where
  "message_from_bytes bs g =
     (if length bs < HEADER_BYTES \<or> length bs > MAX_FRAME_BYTES then Inl ''C1 peer frame bound''
      else try_res (peer_header (take HEADER_BYTES bs) g) (\<lambda>(kind, request, len).
        if length bs \<noteq> HEADER_BYTES + len then Inl ''C1 exact peer frame length''
        else message_new kind request (drop HEADER_BYTES bs)))"

section \<open>Reading from a connection\<close>

text \<open>
  One element of the stream is the outcome of one \<open>set_read_timeout\<close>/\<open>read\<close> round: an error (deadline
  or I/O), or the bytes delivered, of which the call takes at most as many as the buffer
  still needs. An empty chunk is a closed connection.
\<close>

type_synonym peer_stream = "(string + bytes) list"

fun read_exact :: "nat \<Rightarrow> peer_stream \<Rightarrow> string + bytes \<times> peer_stream" where
  "read_exact 0 s = Inr ([], s)"
| "read_exact (Suc n) [] = Inl ''C1 whole-frame I/O deadline''"
| "read_exact (Suc n) (Inl e # s) = Inl e"
| "read_exact (Suc n) (Inr [] # s) = Inl ''C1 truncated connection''"
| "read_exact (Suc n) (Inr (b # bs) # s) =
     (if length bs \<le> n
      then try_res (read_exact (n - length bs) s) (\<lambda>(r, s). Inr ((b # bs) @ r, s))
      else Inr (take (Suc n) (b # bs), Inr (drop (Suc n) (b # bs)) # s))"

definition peer_read :: "genesis \<Rightarrow> peer_stream \<Rightarrow> string + peer_message \<times> peer_stream" where
  "peer_read g s =
     try_res (read_exact HEADER_BYTES s) (\<lambda>(h, s).
     try_res (peer_header h g) (\<lambda>(kind, request, len).
     try_res (read_exact len s) (\<lambda>(body, s).
     try_res (message_new kind request body) (\<lambda>m. Inr (m, s)))))"

text \<open>A round of \<open>write\<close> fails or takes some of the bytes that are left, none when the connection is closed.\<close>

fun write_all :: "nat \<Rightarrow> (string + nat) list \<Rightarrow> string + unit" where
  "write_all 0 s = Inr ()"
| "write_all (Suc n) [] = Inl ''C1 whole-frame I/O deadline''"
| "write_all (Suc n) (Inl e # s) = Inl e"
| "write_all (Suc n) (Inr 0 # s) = Inl ''C1 closed writer''"
| "write_all (Suc n) (Inr (Suc k) # s) = write_all (n - k) s"

definition peer_write :: "genesis \<Rightarrow> peer_message \<Rightarrow> (string + nat) list \<Rightarrow> string + unit" where
  "peer_write g m s = write_all (length (message_bytes m g)) s"

text \<open>One request and its reply. The address, and what connecting to it gives.\<close>

datatype ip_addr = V4 u8 u8 u8 u8 | V6 "128 word"

fun is_loopback :: "ip_addr \<Rightarrow> bool" where
  "is_loopback (V4 a b c d) \<longleftrightarrow> a = 127"
| "is_loopback (V6 x) \<longleftrightarrow> x = 1"

record connection =
  co_connect :: "string + unit"
  co_nodelay :: "string + unit"
  co_writes :: "(string + nat) list"
  co_reads :: peer_stream

definition peer_exchange :: "ip_addr \<Rightarrow> genesis \<Rightarrow> peer_message \<Rightarrow> connection \<Rightarrow> string + peer_message" where
  "peer_exchange address g m c =
     (if \<not> is_loopback address then Inl ''C1 experiment requires explicit loopback peer''
      else try_res (co_connect c) (\<lambda>_.
      try_res (co_nodelay c) (\<lambda>_.
      try_res (peer_write g m (co_writes c)) (\<lambda>_.
      try_res (peer_read g (co_reads c)) (\<lambda>(reply, _).
      if pm_request reply \<noteq> pm_request m then Inl ''C1 response correlation'' else Inr reply)))))"

section \<open>The frame is canonical\<close>

lemma kind_decode_code [simp]: "kind_decode (kind_code k) = Inr k"
  by (cases k) (simp_all add: kind_decode_def)

lemma kind_decode_Inr: "kind_decode n = Inr k \<Longrightarrow> kind_code k = n"
  by (auto simp: kind_decode_def split: if_splits)

lemma kind_check_bound: "kind_check k n \<Longrightarrow> n \<le> C1_MAX_ENVELOPE_BYTES"
  by (cases k) (auto simp: C1_MAX_ENVELOPE_BYTES_def C1_MAX_BLOCK_BYTES_def)

definition message_ok :: "peer_message \<Rightarrow> bool" where
  "message_ok m \<longleftrightarrow> message_new (pm_kind m) (pm_request m) (pm_body m) = Inr m"

lemma message_new_Inr:
  assumes "message_new k r b = Inr m"
  shows "m = \<lparr>pm_kind = k, pm_request = r, pm_body = b\<rparr>" "message_ok m" "r \<noteq> 0" "kind_check k (length b)"
proof -
  from assms show m: "m = \<lparr>pm_kind = k, pm_request = r, pm_body = b\<rparr>" "r \<noteq> 0" "kind_check k (length b)"
    by (auto simp: message_new_def Let_def split: if_splits)
  with assms show "message_ok m" by (simp add: message_ok_def)
qed

text \<open>The header of a frame, laid out.\<close>

definition frame_header :: "peer_kind \<Rightarrow> u64 \<Rightarrow> nat \<Rightarrow> genesis \<Rightarrow> bytes" where
  "frame_header k r n g = PEER_MAGIC @ [3, kind_code k, 0, 0] @ be_bytes HEADER_PROFILE @ be_bytes AUTH_RULES @
     be_bytes POASH_RULES @ be_bytes CHAIN_ID @ pol_network (ge_policy g) @ be_bytes r @
     be_bytes (of_nat n :: u32) @ replicate 52 0"

lemma length_magic [simp]: "length PEER_MAGIC = 8" by (simp add: PEER_MAGIC_def)

lemma length_frame_header: "length (pol_network (ge_policy g)) = 32 \<Longrightarrow> length (frame_header k r n g) = 128"
  by (simp add: frame_header_def)

text \<open>Filling past a gap, and setting single bytes.\<close>

lemma copy_at_gap:
  "length p \<le> off \<Longrightarrow> off - length p + length xs \<le> k \<Longrightarrow> copy_at off xs (filled p k) =
     filled (p @ replicate (off - length p) 0 @ xs) (k - (off - length p) - length xs)"
  by (simp add: copy_at_def filled_def)

lemma update_filled: "i = length p \<Longrightarrow> 0 < k \<Longrightarrow> (filled p k)[i := x] = filled (p @ [x]) (k - 1)"
  by (cases k) (simp_all add: filled_def list_update_append)

lemma message_bytes_layout:
  assumes "length (pol_network (ge_policy g)) = 32"
  shows "message_bytes m g = frame_header (pm_kind m) (pm_request m) (length (pm_body m)) g @ pm_body m"
  using assms
  by (simp add: message_bytes_def Let_def HEADER_BYTES_def frame_header_def replicate_filled [of 128] copy_at_gap
      update_filled) (simp add: filled_def numeral_eq_Suc)

lemma peer_header_frame:
  assumes "length (pol_network (ge_policy g)) = 32" "r \<noteq> 0" "kind_check k n"
  shows "peer_header (frame_header k r n g) g = Inr (k, r, n)"
proof -
  let ?h = "frame_header k r n g"
  have n: "unat (of_nat n :: u32) = n"
    using kind_check_bound [OF assms(3)]
    by (intro unat_of_nat_small) (simp add: C1_MAX_ENVELOPE_BYTES_def C1_MAX_BLOCK_BYTES_def MAX_ENTRIES_def)
  have "take 8 ?h = PEER_MAGIC" "?h ! 8 = 3" "?h ! 9 = kind_code k" "field 2 ?h 10 = replicate 2 0"
    "drop 76 ?h = replicate 52 0" "field 4 ?h 12 = be_bytes HEADER_PROFILE" "field 4 ?h 16 = be_bytes AUTH_RULES"
    "field 4 ?h 20 = be_bytes POASH_RULES" "field 8 ?h 24 = be_bytes CHAIN_ID" "field 32 ?h 32 = pol_network (ge_policy g)"
    "field 8 ?h 64 = be_bytes r" "field 4 ?h 72 = be_bytes (of_nat n :: u32)"
    using assms(1) by (simp_all add: frame_header_def field_def nth_append drop_Cons' take_Cons' numeral_2_eq_2)
  with assms n length_frame_header [OF assms(1), of k r n] show ?thesis
    by (simp add: peer_header_def HEADER_BYTES_def Let_def)
qed

lemma peer_header_Inr:
  assumes "peer_header h g = Inr (k, r, n)"
  shows "h = frame_header k r n g \<and> r \<noteq> 0 \<and> kind_check k n"
proof -
  let ?r = "be_word (field 8 h 64) :: u64" and ?n = "be_word (field 4 h 72) :: u32"
  from assms have f: "length h = 128" "take 8 h = PEER_MAGIC" "h ! 8 = 3" "field 2 h 10 = replicate 2 0"
    "drop 76 h = replicate 52 0" "field 4 h 12 = be_bytes HEADER_PROFILE" "field 4 h 16 = be_bytes AUTH_RULES"
    "field 4 h 20 = be_bytes POASH_RULES" "field 8 h 24 = be_bytes CHAIN_ID" "field 32 h 32 = pol_network (ge_policy g)"
    and k: "kind_decode (h ! 9) = Inr k" and rn: "r = ?r" "n = unat ?n" "r \<noteq> 0" "kind_check k n"
    by (auto simp: peer_header_def HEADER_BYTES_def Let_def try_res_Inr_iff split: if_splits)
  have w: "be_bytes r = field 8 h 64" "be_bytes (of_nat n :: u32) = field 4 h 72"
    using f(1) by (auto simp: rn(1,2) be_bytes_be_word)
  have "h = take 8 h @ h ! 8 # h ! 9 # field 2 h 10 @ field 4 h 12 @ field 4 h 16 @ field 4 h 20 @ field 8 h 24 @
      field 32 h 32 @ field 8 h 64 @ field 4 h 72 @ drop 76 h"
    using f(1) by (simp add: field_drop nth_drop_join)
  also have "\<dots> = frame_header k r n g"
    unfolding frame_header_def w using f kind_decode_Inr [OF k] by (simp add: numeral_2_eq_2)
  finally show ?thesis using rn by simp
qed

lemma message_canonical:
  assumes "length (pol_network (ge_policy g)) = 32"
  shows "message_from_bytes bs g = Inr m \<longleftrightarrow> message_ok m \<and> message_bytes m g = bs"
proof
  assume "message_from_bytes bs g = Inr m"
  then obtain k r n where l: "128 \<le> length bs" and h: "peer_header (take 128 bs) g = Inr (k, r, n)"
    and n: "length bs = 128 + n" and m: "message_new k r (drop 128 bs) = Inr m"
    by (auto simp: message_from_bytes_def HEADER_BYTES_def try_res_Inr_iff not_less split: if_splits)
  from peer_header_Inr [OF h] message_new_Inr [OF m] n
  show "message_ok m \<and> message_bytes m g = bs"
    by (simp add: message_bytes_layout [OF assms]) (metis append_take_drop_id)
next
  assume a: "message_ok m \<and> message_bytes m g = bs"
  then have m: "message_new (pm_kind m) (pm_request m) (pm_body m) = Inr m" by (simp add: message_ok_def)
  note ok = message_new_Inr(3,4) [OF m]
  have bs: "bs = frame_header (pm_kind m) (pm_request m) (length (pm_body m)) g @ pm_body m"
    using a message_bytes_layout [OF assms] by simp
  have "length (pm_body m) \<le> C1_MAX_ENVELOPE_BYTES" by (rule kind_check_bound [OF ok(2)])
  then show "message_from_bytes bs g = Inr m"
    using peer_header_frame [OF assms ok] m length_frame_header [OF assms]
    by (simp add: message_from_bytes_def bs HEADER_BYTES_def MAX_FRAME_BYTES_def)
qed

section \<open>Segmentation of the stream\<close>

lemma read_exact_chunks:
  assumes "\<forall>c \<in> set cs. c \<noteq> []" "n \<le> length (concat cs)"
  shows "\<exists>cs'. read_exact n (map Inr cs) = Inr (take n (concat cs), map Inr cs') \<and>
     concat cs' = drop n (concat cs) \<and> (\<forall>c \<in> set cs'. c \<noteq> [])"
  using assms
proof (induction cs arbitrary: n)
  case Nil
  then show ?case by (intro exI [of _ "[]"]) simp
next
  case (Cons c cs)
  show ?case
  proof (cases n)
    case 0
    with Cons.prems show ?thesis by (intro exI [of _ "c # cs"]) simp
  next
    case (Suc k)
    from Cons.prems obtain b bs where c: "c = b # bs" by (cases c) auto
    show ?thesis
    proof (cases "length bs \<le> k")
      case True
      have "k - length bs \<le> length (concat cs)" using Cons.prems(2) True by (simp add: c Suc)
      with Cons.IH [of "k - length bs"] Cons.prems(1) obtain cs' where
        "read_exact (k - length bs) (map Inr cs) = Inr (take (k - length bs) (concat cs), map Inr cs')"
        "concat cs' = drop (k - length bs) (concat cs)" "\<forall>c \<in> set cs'. c \<noteq> []"
        by (meson list.set_intros(2))
      with True show ?thesis by (intro exI [of _ cs']) (simp add: Suc c)
    next
      case False
      with Cons.prems show ?thesis
        by (intro exI [of _ "drop (Suc k) c # cs"]) (simp add: Suc c)
    qed
  qed
qed

lemma read_exact_short:
  assumes "length (concat cs) < n"
  shows "\<exists>e. read_exact n (map Inr cs) = Inl e"
  using assms
proof (induction cs arbitrary: n)
  case Nil
  then show ?case by (cases n) simp_all
next
  case (Cons c cs)
  from Cons.prems obtain k where n: "n = Suc k" by (cases n) auto
  show ?case
  proof (cases c)
    case (Cons b bs)
    with Cons.prems n have "length bs \<le> k" "length (concat cs) < k - length bs" by auto
    with Cons.IH [of "k - length bs"] show ?thesis by (auto simp: n Cons)
  qed (simp add: n)
qed

lemma peer_read_chunks:
  assumes net: "length (pol_network (ge_policy g)) = 32" and ok: "message_ok m"
    and cs: "\<forall>c \<in> set cs. c \<noteq> []" "concat cs = message_bytes m g @ rest"
  shows "\<exists>cs'. peer_read g (map Inr cs) = Inr (m, map Inr cs') \<and> concat cs' = rest"
proof -
  let ?h = "frame_header (pm_kind m) (pm_request m) (length (pm_body m)) g"
  have m: "message_new (pm_kind m) (pm_request m) (pm_body m) = Inr m" using ok by (simp add: message_ok_def)
  have all: "concat cs = ?h @ pm_body m @ rest" using cs(2) by (simp add: message_bytes_layout [OF net])
  have len: "length ?h = 128" by (rule length_frame_header [OF net])
  obtain cs1 where 1: "read_exact 128 (map Inr cs) = Inr (?h, map Inr cs1)" "concat cs1 = pm_body m @ rest"
    "\<forall>c \<in> set cs1. c \<noteq> []"
    using read_exact_chunks [OF cs(1), of 128] len by (auto simp: all)
  obtain cs2 where 2: "read_exact (length (pm_body m)) (map Inr cs1) = Inr (pm_body m, map Inr cs2)" "concat cs2 = rest"
    using read_exact_chunks [OF 1(3), of "length (pm_body m)"] by (auto simp: 1(2))
  have "peer_header ?h g = Inr (pm_kind m, pm_request m, length (pm_body m))"
    by (rule peer_header_frame [OF net message_new_Inr(3,4) [OF m]])
  with 1 2 m show ?thesis by (simp add: peer_read_def HEADER_BYTES_def)
qed

lemma peer_read_truncated:
  assumes net: "length (pol_network (ge_policy g)) = 32" and ok: "message_ok m"
    and cs: "\<forall>c \<in> set cs. c \<noteq> []" "k < length (message_bytes m g)" "concat cs = take k (message_bytes m g)"
  shows "\<exists>e. peer_read g (map Inr cs) = Inl e"
proof -
  let ?h = "frame_header (pm_kind m) (pm_request m) (length (pm_body m)) g"
  have m: "message_new (pm_kind m) (pm_request m) (pm_body m) = Inr m" using ok by (simp add: message_ok_def)
  have len: "length ?h = 128" by (rule length_frame_header [OF net])
  have all: "concat cs = take k ?h @ take (k - 128) (pm_body m)"
    using cs(3) len by (simp add: message_bytes_layout [OF net])
  show ?thesis
  proof (cases "k < 128")
    case True
    then have "length (concat cs) < 128" using all len by simp
    from read_exact_short [OF this] show ?thesis by (auto simp: peer_read_def HEADER_BYTES_def)
  next
    case False
    with all len have c: "concat cs = ?h @ take (k - 128) (pm_body m)" by simp
    obtain cs1 where 1: "read_exact 128 (map Inr cs) = Inr (?h, map Inr cs1)" "concat cs1 = take (k - 128) (pm_body m)"
      using read_exact_chunks [OF cs(1), of 128] len by (auto simp: c)
    have "length (concat cs1) < length (pm_body m)"
      using cs(2) len False by (simp add: 1(2) message_bytes_layout [OF net])
    from read_exact_short [OF this] obtain e where "read_exact (length (pm_body m)) (map Inr cs1) = Inl e" by blast
    with 1(1) peer_header_frame [OF net message_new_Inr(3,4) [OF m]] show ?thesis
      by (simp add: peer_read_def HEADER_BYTES_def)
  qed
qed

section \<open>Properties\<close>

text \<open>C40. Messages of the closed experiment have exactly one frame: the decoder accepts a byte string
  exactly when it is the frame of a message that the constructor accepts, so kinds, widths, slot
  bounds, reserved zero bytes and the network are all enforced, and a message always decodes to itself.\<close>

theorem peer_codec_canonical:
  assumes "length (pol_network (ge_policy g)) = 32"
  shows "message_from_bytes bs g = Inr m \<longleftrightarrow> message_ok m \<and> message_bytes m g = bs"
  by (rule message_canonical [OF assms])

lemma demo_network: "length (pol_network (ge_policy (approved_genesis (c_keccak demo_crypto) [65]))) = 32"
  using demo_digest32 by (simp add: approved_genesis_def approved_policy_def keccak256_def digest32_def)

abbreviation demo_message :: peer_message where
  "demo_message \<equiv> \<lparr>pm_kind = KGet, pm_request = 7, pm_body = be_bytes (3 :: u64)\<rparr>"

lemma demo_message_ok: "message_ok demo_message"
  by (simp add: message_ok_def message_new_def MAX_SLOTS_def)

theorem peer_codec_canonical_witness:
  "message_from_bytes (message_bytes demo_message (approved_genesis (c_keccak demo_crypto) [65]))
     (approved_genesis (c_keccak demo_crypto) [65]) = Inr demo_message"
  unfolding peer_codec_canonical [OF demo_network] using demo_message_ok by simp

text \<open>How the transport cuts a frame into segments does not matter: whatever non-empty segments deliver
  a message's frame (and possibly more), reading returns that message and leaves exactly the bytes
  that follow it; and if the stream stops anywhere inside the frame, reading fails instead of
  returning a partial message.\<close>

theorem peer_read_segmentation:
  assumes "length (pol_network (ge_policy g)) = 32" "message_ok m" "\<forall>c \<in> set cs. c \<noteq> []"
  shows "(\<forall>rest. concat cs = message_bytes m g @ rest \<longrightarrow>
       (\<exists>cs'. peer_read g (map Inr cs) = Inr (m, map Inr cs') \<and> concat cs' = rest)) \<and>
     (\<forall>k < length (message_bytes m g). concat cs = take k (message_bytes m g) \<longrightarrow>
       (\<exists>e. peer_read g (map Inr cs) = Inl e))"
  using peer_read_chunks [OF assms] peer_read_truncated [OF assms] by blast

theorem peer_read_segmentation_witness:
  "\<exists>cs'. peer_read (approved_genesis (c_keccak demo_crypto) [65])
       (map Inr [take 5 (message_bytes demo_message (approved_genesis (c_keccak demo_crypto) [65])),
          drop 5 (message_bytes demo_message (approved_genesis (c_keccak demo_crypto) [65])) @ [1, 2]]) =
     Inr (demo_message, map Inr cs') \<and> concat cs' = [1, 2]"
proof -
  let ?b = "message_bytes demo_message (approved_genesis (c_keccak demo_crypto) [65])"
  have "length ?b = 136"
    using length_frame_header [OF demo_network] by (simp add: message_bytes_layout [OF demo_network])
  then have "\<forall>c \<in> set [take 5 ?b, drop 5 ?b @ [1, 2]]. c \<noteq> []" by auto
  from peer_read_segmentation [OF demo_network demo_message_ok this] show ?thesis by simp
qed

end
