(* ===== verification/Durable_Fixture.thy ===== *)
theory Durable_Fixture
  imports Poash_Storage
begin

text \<open>
  \<open>src/src/durable_fixture.rs\<close>: the file-backed ledger of native transfer bodies. An owner stages a body in
  memory, commits it in one SQLite transaction, and only then installs it; an uncertain outcome poisons
  the owner until an explicit recovery has audited the file from its immutable seed and forced it to stable
  storage. The file is the parameter \<open>fixture_disk\<close>, which adds the statements of this schema to the calls of \<open>disk\<close>.
  The instants of \<open>CommitTimings\<close> are not modelled, and the test hooks (\<open>point\<close>) are compiled out.
\<close>

section \<open>The database\<close>

datatype fx_table = Fx_metadata | Seed_accounts | Fx_accounts | Fx_accounting | Fx_bodies | Fx_transactions

text \<open>A whole table in the order of its key, or the entries of one body ordered by position, with the columns
  id, position, sender, nonce and signed bytes.\<close>

datatype fx_query = Fx_all fx_table | Body_entries bytes

datatype fx_statement =
    Fx_create string
  | Fx_insert fx_table "cell list"
  | Fx_upsert_account "cell list"
  | Fx_update_accounting bytes bytes
  | Fx_set_provenance bytes
  | Fx_set_initialized
  | Fx_update_revision bytes
  | Fx_update_barrier bytes

record 'w fixture_disk = "'w disk" +
  fx_metadata_tables :: "'w \<Rightarrow> int option"
  fx_table_sql :: "string \<Rightarrow> 'w \<Rightarrow> string option"
  fx_select :: "fx_query \<Rightarrow> 'w \<Rightarrow> cell list option list option"
  fx_write :: "fx_statement \<Rightarrow> 'w \<Rightarrow> nat option \<times> 'w"

abbreviation fx_disk :: "'w fixture_disk \<Rightarrow> 'w disk" where
  "fx_disk D \<equiv> disk.truncate D"

definition fx_TABLES :: "string list" where
  "fx_TABLES = [''metadata'', ''seed_accounts'', ''accounts'', ''accounting'', ''bodies'', ''transactions'']"

definition SCHEMA_VERSION :: u32 where "SCHEMA_VERSION = 1"

text \<open>The errors of this module, which the PoAsh store wraps.\<close>

definition durable_of :: "app_error \<Rightarrow> durable_error" where
  "durable_of e = (case e of AStorage d \<Rightarrow> d | _ \<Rightarrow> DInvalid)"

definition fx_open :: "'w fixture_disk \<Rightarrow> 'w \<Rightarrow> (durable_error + unit) \<times> 'w" where
  "fx_open D w = (let (r, w) = disk_open (fx_disk D) w in (map_err durable_of r, w))"

definition fx_configure :: "'w fixture_disk \<Rightarrow> 'w \<Rightarrow> (durable_error + unit) \<times> 'w" where
  "fx_configure D w = (let (r, w) = disk_configure (fx_disk D) w in (map_err durable_of r, w))"

definition fx_generation :: "u64 \<Rightarrow> (durable_error + u64) \<times> u64" where
  "fx_generation counter = (let (r, counter) = next_generation counter in (map_err durable_of r, counter))"

definition fx_call :: "durable_error \<Rightarrow> 'a option \<times> 'w \<Rightarrow> (durable_error + 'a) \<times> 'w" where
  "fx_call e m = (ok_or e (fst m), snd m)"

definition fx_exec :: "'w fixture_disk \<Rightarrow> fx_statement \<Rightarrow> 'w \<Rightarrow> (durable_error + nat) \<times> 'w" where
  "fx_exec D st w = fx_call DInvalid (fx_write D st w)"

section \<open>Snapshots and owners\<close>

record fx_snapshot =
  fs_state :: transfer_state
  fs_revision :: u64
  fs_bodies :: "applied_body list"
  fs_transaction_index :: "(hash \<times> u64 \<times> u64) list"
  fs_canonical_tip :: "(u64 \<times> hash) option"
  fs_provenance :: text_bytes

record overlay =
  ol_generation :: u64
  ol_revision :: u64
  ol_base :: transfer_state
  ol_candidate :: transfer_state
  ol_record :: applied_body

datatype fx_outcome = Fx_committed body_outcome | Fx_aborted durable_error | Fx_recovery_required durable_error

record fx_report =
  fr_revision :: u64
  fr_attempted_revision_present :: "bool option"

record fixture_store =
  fo_context :: auth_context
  fo_connected :: bool
  fo_snapshot :: fx_snapshot
  fo_generation :: u64
  fo_poisoned :: bool
  fo_attempted_revision :: "u64 option"

definition fx_ready :: "fixture_store \<Rightarrow> durable_error + unit" where
  "fx_ready ow = (if fo_poisoned ow then Inl DBlocked else Inr ())"

definition fx_snapshot_of :: "fixture_store \<Rightarrow> durable_error + fx_snapshot" where
  "fx_snapshot_of ow = try_res (fx_ready ow) (\<lambda>_. Inr (fo_snapshot ow))"

definition fx_is_ready :: "fixture_store \<Rightarrow> bool" where
  "fx_is_ready ow \<longleftrightarrow> \<not> fo_poisoned ow"

definition fx_settings :: "'w fixture_disk \<Rightarrow> fixture_store \<Rightarrow> 'w \<Rightarrow> durable_error + storage_settings" where
  "fx_settings D ow w = try_res (fx_ready ow) (\<lambda>_. map_err durable_of (sql_settings (fx_disk D) w))"

definition fx_stage :: "'k crypto \<Rightarrow> fixture_store \<Rightarrow> u64 \<Rightarrow> bytes list \<Rightarrow> durable_error + overlay" where
  "fx_stage C ow slot body =
     try_res (fx_ready ow) (\<lambda>_.
     try_res (map_err (\<lambda>_. DBody) (stage_body C (fs_state (fo_snapshot ow)) (fo_context ow) slot body)) (\<lambda>staged.
     Inr \<lparr>ol_generation = fo_generation ow, ol_revision = fs_revision (fo_snapshot ow), ol_base = sb_base staged,
          ol_candidate = sb_candidate staged, ol_record = sb_record staged\<rparr>))"

section \<open>Reading\<close>

definition fx_blob :: "nat \<Rightarrow> cell \<Rightarrow> durable_error + bytes" where
  "fx_blob n c = (case c of Blob b \<Rightarrow> if length b = n then Inr b else Inl DInvalid | _ \<Rightarrow> Inl DInvalid)"

definition fx_text :: "cell \<Rightarrow> durable_error + text_bytes" where
  "fx_text c = (case c of Text t \<Rightarrow> if utf8_valid t then Inr t else Inl DInvalid | _ \<Rightarrow> Inl DInvalid)"

definition fx_integer :: "cell \<Rightarrow> durable_error + int" where
  "fx_integer c = (case c of Integer i \<Rightarrow> if - (2 ^ 63) \<le> i \<and> i < 2 ^ 63 then Inr i else Inl DInvalid | _ \<Rightarrow> Inl DInvalid)"

definition fx_byte :: "cell \<Rightarrow> durable_error + int" where
  "fx_byte c = (case c of Integer i \<Rightarrow> if 0 \<le> i \<and> i < 256 then Inr i else Inl DInvalid | _ \<Rightarrow> Inl DInvalid)"

definition fx_optional_blob :: "cell \<Rightarrow> durable_error + bytes option" where
  "fx_optional_blob c = (case c of Null \<Rightarrow> Inr None | Blob b \<Rightarrow> Inr (Some b) | _ \<Rightarrow> Inl DInvalid)"

text \<open>\<open>query_row(..).optional()\<close>: only the first row is fetched.\<close>

definition first_row :: "cell list option list option \<Rightarrow> durable_error + cell list option" where
  "first_row cursor = (case cursor of
     None \<Rightarrow> Inl DInvalid
   | Some [] \<Rightarrow> Inr None
   | Some (None # _) \<Rightarrow> Inl DInvalid
   | Some (Some row # _) \<Rightarrow> Inr (Some row))"

definition one_row :: "cell list option list option \<Rightarrow> durable_error + cell list" where
  "one_row cursor = try_res (first_row cursor) (ok_or DInvalid)"

definition fx_metadata_ok :: "auth_context \<Rightarrow> u64 option \<Rightarrow> cell list \<Rightarrow> durable_error + u64" where
  "fx_metadata_ok cx want row = (case row of
     [_, version, mode, chain, network, rules, provenance, _, _, _, revision, _, tip, initialized] \<Rightarrow>
       try_res (fx_blob 4 version) (\<lambda>version.
       try_res (fx_blob 8 chain) (\<lambda>chain.
       try_res (fx_blob 32 network) (\<lambda>network.
       try_res (fx_blob 4 rules) (\<lambda>rules.
       try_res (fx_blob 8 revision) (\<lambda>revision.
       try_res (fx_optional_blob tip) (\<lambda>tip.
       try_res (fx_integer initialized) (\<lambda>initialized.
       try_res (fx_text mode) (\<lambda>mode.
       try_res (fx_text provenance) (\<lambda>provenance.
       if initialized \<noteq> 1 then Inl DUninitialized
       else if be_word version \<noteq> SCHEMA_VERSION \<or> be_word chain \<noteq> ac_chain_id cx \<or> network \<noteq> ac_network_id cx \<or>
         be_word rules \<noteq> ac_native_rules_version cx \<or> tip \<noteq> None \<or> mode \<noteq> str ''fixture-only'' \<or> provenance = []
       then Inl DInvalid
       else if (case want of None \<Rightarrow> False | Some r \<Rightarrow> r \<noteq> be_word revision) then Inl DStale
       else Inr (be_word revision))))))))))
   | _ \<Rightarrow> Inl DInvalid)"

definition verify_metadata :: "'w fixture_disk \<Rightarrow> auth_context \<Rightarrow> u64 option \<Rightarrow> 'w \<Rightarrow> durable_error + u64" where
  "verify_metadata D cx want w =
     try_res (first_row (fx_select D (Fx_all Fx_metadata) w)) (\<lambda>row.
     case row of None \<Rightarrow> Inl DUninitialized | Some row \<Rightarrow> fx_metadata_ok cx want row)"

definition fx_account_of :: "cell list \<Rightarrow> durable_error + address \<times> transfer_account" where
  "fx_account_of row = (case row of
     [address, balance, nonce] \<Rightarrow>
       try_res (fx_blob 20 address) (\<lambda>address.
       try_res (fx_blob 16 balance) (\<lambda>balance.
       try_res (fx_blob 8 nonce) (\<lambda>nonce.
       Inr (address, \<lparr>ta_balance_quarks = be_word balance, ta_nonce = be_word nonce\<rparr>))))
   | _ \<Rightarrow> Inl DInvalid)"

fun fx_collect_accounts :: "cell list option list \<Rightarrow> (address \<times> transfer_account) list \<Rightarrow>
    durable_error + (address \<times> transfer_account) list" where
  "fx_collect_accounts [] m = Inr m"
| "fx_collect_accounts (None # rs) m = Inl DInvalid"
| "fx_collect_accounts (Some row # rs) m =
     try_res (fx_account_of row) (\<lambda>(address, a). fx_collect_accounts rs (bm_insert address a m))"

definition read_accounts :: "'w fixture_disk \<Rightarrow> fx_table \<Rightarrow> 'w \<Rightarrow> durable_error + (address \<times> transfer_account) list" where
  "read_accounts D t w = try_res (ok_or DInvalid (fx_select D (Fx_all t) w)) (\<lambda>cursor. fx_collect_accounts cursor [])"

definition fx_totals :: "cell list \<Rightarrow> durable_error + u64 \<times> u128" where
  "fx_totals row = (case row of
     [_, gas, burn] \<Rightarrow> try_res (fx_blob 8 gas) (\<lambda>gas. try_res (fx_blob 16 burn) (\<lambda>burn. Inr (be_word gas, be_word burn)))
   | _ \<Rightarrow> Inl DInvalid)"

definition read_state :: "'w fixture_disk \<Rightarrow> 'w \<Rightarrow> durable_error + transfer_state" where
  "read_state D w =
     try_res (one_row (fx_select D (Fx_all Fx_accounting) w)) (\<lambda>row.
     try_res (fx_totals row) (\<lambda>(gas, burn).
     try_res (read_accounts D Fx_accounts w) (\<lambda>accounts.
     Inr \<lparr>ts_accounts = accounts, ts_gas_used_total = gas, ts_fees_burned_total = burn\<rparr>)))"

section \<open>The audit\<close>

definition fx_entry :: "cell list \<Rightarrow> durable_error + hash \<times> u64 \<times> address \<times> u64 \<times> bytes" where
  "fx_entry row = (case row of
     [ident, position, sender, nonce, wire] \<Rightarrow>
       try_res (fx_blob 32 ident) (\<lambda>ident.
       try_res (fx_blob 8 position) (\<lambda>position.
       try_res (fx_blob 20 sender) (\<lambda>sender.
       try_res (fx_blob 8 nonce) (\<lambda>nonce.
       try_res (fx_blob SIGNED_LEN wire) (\<lambda>wire.
       Inr (ident, be_word position, sender, be_word nonce, wire))))))
   | _ \<Rightarrow> Inl DInvalid)"

fun fx_read_entries :: "'k crypto \<Rightarrow> u64 \<Rightarrow> cell list option list \<Rightarrow> bytes list \<Rightarrow> hash list \<Rightarrow>
    (hash \<times> u64 \<times> u64) list \<Rightarrow> durable_error + bytes list \<times> hash list \<times> (hash \<times> u64 \<times> u64) list" where
  "fx_read_entries C revision [] bs ids index = Inr (bs, ids, index)"
| "fx_read_entries C revision (None # rs) bs ids index = Inl DInvalid"
| "fx_read_entries C revision (Some row # rs) bs ids index =
     try_res (fx_entry row) (\<lambda>(ident, position, sender, nonce, wire).
     try_res (map_err (\<lambda>_. DInvalid) (signed_from_bytes C wire)) (\<lambda>tx.
     if position \<noteq> of_nat (length bs) \<or> sender \<noteq> ut_sender (st_unsigned tx) \<or> nonce \<noteq> ut_nonce (st_unsigned tx)
     then Inl DInvalid
     else try_res (map_err (\<lambda>_. DInvalid) (transaction_id C tx)) (\<lambda>actual.
     if actual \<noteq> ident \<or> map_of index ident \<noteq> None then Inl DInvalid
     else fx_read_entries C revision rs (bs @ [wire]) (ids @ [ident]) (bm_insert ident (revision, position) index))))"

definition fx_body :: "cell list \<Rightarrow> durable_error + u64 \<times> u64 \<times> int \<times> u32 \<times> u64 \<times> u64 \<times> u64" where
  "fx_body row = (case row of
     [revision, slot, encoding, rules, entries, gas, burn] \<Rightarrow>
       try_res (fx_blob 8 revision) (\<lambda>revision.
       try_res (fx_blob 8 slot) (\<lambda>slot.
       try_res (fx_byte encoding) (\<lambda>encoding.
       try_res (fx_blob 4 rules) (\<lambda>rules.
       try_res (fx_blob 8 entries) (\<lambda>entries.
       try_res (fx_blob 8 gas) (\<lambda>gas.
       try_res (fx_blob 8 burn) (\<lambda>burn.
       Inr (be_word revision, be_word slot, encoding, be_word rules, be_word entries, be_word gas, be_word burn))))))))
   | _ \<Rightarrow> Inl DInvalid)"

definition fx_audit_body :: "'k crypto \<Rightarrow> 'w fixture_disk \<Rightarrow> auth_context \<Rightarrow> 'w \<Rightarrow> cell list \<Rightarrow>
    applied_body list \<times> (hash \<times> u64 \<times> u64) list \<times> transfer_state \<Rightarrow>
    durable_error + applied_body list \<times> (hash \<times> u64 \<times> u64) list \<times> transfer_state" where
  "fx_audit_body C D cx w row = (\<lambda>(bodies, index, audit).
     try_res (fx_body row) (\<lambda>(revision, slot, encoding, rules, entries, gas, burn).
     try_res (ok_or DInvalid (checked_add (of_nat (length bodies)) 1)) (\<lambda>next.
     if revision \<noteq> next \<or> encoding \<noteq> 2 \<or> rules \<noteq> ac_native_rules_version cx then Inl DInvalid
     else try_res (ok_or DInvalid (fx_select D (Body_entries (be_bytes revision)) w)) (\<lambda>cursor.
     try_res (fx_read_entries C revision cursor [] [] index) (\<lambda>(bs, ids, index).
     if entries \<noteq> of_nat (length bs) then Inl DInvalid
     else try_res (map_err (\<lambda>_. DInvalid) (stage_body C audit cx slot bs)) (\<lambda>staged.
     if ab_outcome (sb_record staged) \<noteq> \<lparr>bo_transaction_ids = ids, bo_gas_used = gas, bo_fees_burned = burn\<rparr> then Inl DInvalid
     else Inr (bodies @ [sb_record staged], index, sb_candidate staged)))))))"

fun fx_audit_bodies :: "'k crypto \<Rightarrow> 'w fixture_disk \<Rightarrow> auth_context \<Rightarrow> 'w \<Rightarrow> cell list option list \<Rightarrow>
    applied_body list \<times> (hash \<times> u64 \<times> u64) list \<times> transfer_state \<Rightarrow>
    durable_error + applied_body list \<times> (hash \<times> u64 \<times> u64) list \<times> transfer_state" where
  "fx_audit_bodies C D cx w [] x = Inr x"
| "fx_audit_bodies C D cx w (None # rs) x = Inl DInvalid"
| "fx_audit_bodies C D cx w (Some row # rs) x = try_res (fx_audit_body C D cx w row x) (fx_audit_bodies C D cx w rs)"

fun fx_check_tables :: "'w fixture_disk \<Rightarrow> 'w \<Rightarrow> string list \<Rightarrow> durable_error + unit" where
  "fx_check_tables D w [] = Inr ()"
| "fx_check_tables D w (n # ns) =
     try_res (ok_or DInvalid (fx_table_sql D n w)) (\<lambda>sql. if sql \<noteq> dk_ddl D n then Inl DInvalid else fx_check_tables D w ns)"

definition fx_check_schema :: "'w fixture_disk \<Rightarrow> 'w \<Rightarrow> durable_error + unit" where
  "fx_check_schema D w =
     try_res (ok_or DInvalid (fx_metadata_tables D w)) (\<lambda>tables.
     if tables = 0 then Inl DUninitialized
     else try_res (fx_check_tables D w fx_TABLES) (\<lambda>_.
     try_res (ok_or DInvalid (sq_integrity D w)) (\<lambda>integrity.
     if integrity \<noteq> ''ok'' then Inl DInvalid
     else try_res (ok_or DInvalid (sq_foreign_key_violation D w)) (\<lambda>violated. if violated then Inl DInvalid else Inr ()))))"

definition fx_seed :: "cell list \<Rightarrow> durable_error + u64 \<times> u128 \<times> text_bytes \<times> u64" where
  "fx_seed row = (case row of
     [_, _, _, _, _, _, provenance, gas, burn, entries, _, _, _, _] \<Rightarrow>
       try_res (fx_blob 8 gas) (\<lambda>gas.
       try_res (fx_blob 16 burn) (\<lambda>burn.
       try_res (fx_text provenance) (\<lambda>provenance.
       try_res (fx_blob 8 entries) (\<lambda>entries.
       Inr (be_word gas, be_word burn, provenance, be_word entries)))))
   | _ \<Rightarrow> Inl DInvalid)"

definition load_snapshot_transaction :: "'k crypto \<Rightarrow> 'w fixture_disk \<Rightarrow> auth_context \<Rightarrow> 'w \<Rightarrow> durable_error + fx_snapshot" where
  "load_snapshot_transaction C D cx w =
     try_res (fx_check_schema D w) (\<lambda>_.
     try_res (verify_metadata D cx None w) (\<lambda>revision.
     try_res (one_row (fx_select D (Fx_all Fx_metadata) w)) (\<lambda>row.
     try_res (fx_seed row) (\<lambda>(seed_gas, seed_burn, provenance, seed_count).
     try_res (read_accounts D Seed_accounts w) (\<lambda>seeds.
     if of_nat (length seeds) \<noteq> seed_count then Inl DInvalid
     else try_res (read_state D w) (\<lambda>state.
     try_res (ok_or DInvalid (fx_select D (Fx_all Fx_bodies) w)) (\<lambda>rows.
     try_res (fx_audit_bodies C D cx w rows
        ([], [], \<lparr>ts_accounts = seeds, ts_gas_used_total = seed_gas, ts_fees_burned_total = seed_burn\<rparr>)) (\<lambda>(bodies, index, audit).
     if revision \<noteq> of_nat (length bodies) \<or> audit \<noteq> state then Inl DInvalid
     else Inr \<lparr>fs_state = state, fs_revision = revision, fs_bodies = bodies, fs_transaction_index = index,
               fs_canonical_tip = None, fs_provenance = provenance\<rparr>))))))))"

definition load_snapshot :: "'k crypto \<Rightarrow> 'w fixture_disk \<Rightarrow> auth_context \<Rightarrow> 'w \<Rightarrow> (durable_error + fx_snapshot) \<times> 'w" where
  "load_snapshot C D cx w =
     then_do (fx_call DInvalid (sq_begin D False w)) (\<lambda>_ w.
     let result = load_snapshot_transaction C D cx w; (end_r, w) = fx_call DInvalid (sq_rollback D w) in
     (try_res result (\<lambda>s. try_res end_r (\<lambda>_. Inr s)), w))"

definition fx_barrier :: "'w fixture_disk \<Rightarrow> auth_context \<Rightarrow> u64 \<Rightarrow> 'w \<Rightarrow> (durable_error + unit) \<times> 'w" where
  "fx_barrier D cx revision w =
     then_do (fx_call DRecoveryRequired (sq_begin D True w)) (\<lambda>_ w.
     let (r, w) =
       then_do (verify_metadata D cx (Some revision) w, w) (\<lambda>_ w.
       then_do (try_res (one_row (fx_select D (Fx_all Fx_metadata) w)) (\<lambda>row.
          if length row = 14 then fx_blob 8 (row ! 11) else Inl DInvalid), w) (\<lambda>old w.
       then_do (ok_or DInvalid (checked_add (be_word old :: u64) 1), w) (\<lambda>next w.
       then_do (fx_exec D (Fx_update_barrier (be_bytes next)) w) (\<lambda>_ w.
       then_do (fx_call DInvalid (sq_commit D w)) (\<lambda>_ w.
       fx_call DInvalid (dk_sync_path D w))))))
     in (map_err (\<lambda>_. DRecoveryRequired) r, w))"

section \<open>Writing\<close>

definition fx_account_row :: "address \<times> transfer_account \<Rightarrow> cell list" where
  "fx_account_row = (\<lambda>(address, a). [Blob address, Blob (be_bytes (ta_balance_quarks a)), Blob (be_bytes (ta_nonce a))])"

fun write_changed_accounts :: "'w fixture_disk \<Rightarrow> (address \<times> transfer_account) list \<Rightarrow> (address \<times> transfer_account) list \<Rightarrow>
    'w \<Rightarrow> (durable_error + unit) \<times> 'w" where
  "write_changed_accounts D base [] w = (Inr (), w)"
| "write_changed_accounts D base ((address, a) # as) w =
     (if map_of base address \<noteq> Some a then
        then_do (fx_exec D (Fx_upsert_account (fx_account_row (address, a))) w) (\<lambda>_ w. write_changed_accounts D base as w)
      else write_changed_accounts D base as w)"

definition fx_write_accounting :: "'w fixture_disk \<Rightarrow> transfer_state \<Rightarrow> 'w \<Rightarrow> (durable_error + unit) \<times> 'w" where
  "fx_write_accounting D st w =
     then_do (fx_exec D (Fx_update_accounting (be_bytes (ts_gas_used_total st)) (be_bytes (ts_fees_burned_total st))) w)
       (\<lambda>n w. (if n \<noteq> 1 then Inl DInvalid else Inr (), w))"

definition fx_body_row :: "auth_context \<Rightarrow> u64 \<Rightarrow> applied_body \<Rightarrow> cell list" where
  "fx_body_row cx revision r =
     [Blob (be_bytes revision), Blob (be_bytes (ab_slot r)), Integer 2, Blob (be_bytes (ac_native_rules_version cx)),
      Blob (be_bytes (of_nat (length (ab_transactions r)) :: u64)), Blob (be_bytes (bo_gas_used (ab_outcome r))),
      Blob (be_bytes (bo_fees_burned (ab_outcome r)))]"

definition fx_entry_row :: "u64 \<Rightarrow> nat \<Rightarrow> bytes \<Rightarrow> hash \<Rightarrow> unsigned_tx \<Rightarrow> cell list" where
  "fx_entry_row revision i bs ident t =
     [Blob ident, Blob (be_bytes revision), Blob (be_bytes (of_nat i :: u64)), Blob (ut_sender t), Blob (be_bytes (ut_nonce t)), Blob bs]"

fun write_entries :: "'k crypto \<Rightarrow> 'w fixture_disk \<Rightarrow> u64 \<Rightarrow> nat \<Rightarrow> (bytes \<times> hash) list \<Rightarrow> 'w \<Rightarrow> (durable_error + unit) \<times> 'w" where
  "write_entries C D revision i [] w = (Inr (), w)"
| "write_entries C D revision i ((bs, ident) # es) w =
     then_do (map_err (\<lambda>_. DInvalid) (signed_from_bytes C bs), w) (\<lambda>tx w.
     then_do (fx_exec D (Fx_insert Fx_transactions (fx_entry_row revision i bs ident (st_unsigned tx))) w) (\<lambda>_ w.
     write_entries C D revision (Suc i) es w))"

definition fx_commit_writes :: "'k crypto \<Rightarrow> 'w fixture_disk \<Rightarrow> auth_context \<Rightarrow> overlay \<Rightarrow> u64 \<Rightarrow> 'w \<Rightarrow> (durable_error + unit) \<times> 'w" where
  "fx_commit_writes C D cx ol revision w =
     then_do (verify_metadata D cx (Some (ol_revision ol)) w, w) (\<lambda>_ w.
     then_do (try_res (read_state D w) (\<lambda>persisted. if persisted \<noteq> ol_base ol then Inl DStale else Inr ()), w) (\<lambda>_ w.
     then_do (write_changed_accounts D (ts_accounts (ol_base ol)) (ts_accounts (ol_candidate ol)) w) (\<lambda>_ w.
     then_do (fx_write_accounting D (ol_candidate ol) w) (\<lambda>_ w.
     then_do (fx_exec D (Fx_insert Fx_bodies (fx_body_row cx revision (ol_record ol))) w) (\<lambda>_ w.
     then_do (write_entries C D revision 0
        (zip (ab_transactions (ol_record ol)) (bo_transaction_ids (ab_outcome (ol_record ol)))) w) (\<lambda>_ w.
     then_do (fx_exec D (Fx_update_revision (be_bytes revision)) w) (\<lambda>_ w. (Inr (), w))))))))"

section \<open>The owner's durable operations\<close>

definition fx_poison :: "fixture_store \<Rightarrow> fx_outcome \<times> fixture_store" where
  "fx_poison ow = (Fx_recovery_required DRecoveryRequired, ow\<lparr>fo_poisoned := True\<rparr>)"

definition fx_abort :: "'k crypto \<Rightarrow> 'w fixture_disk \<Rightarrow> fixture_store \<Rightarrow> 'w \<Rightarrow> fx_outcome \<times> fixture_store \<times> 'w" where
  "fx_abort C D ow w =
     (let (failed, w) = (if sq_autocommit D w then (False, w)
        else case sq_rollback D w of (None, w) \<Rightarrow> (True, w) | (Some _, w) \<Rightarrow> (False, w)) in
      if failed \<or> \<not> sq_autocommit D w then (let (out, ow) = fx_poison ow in (out, ow, w))
      else (case load_snapshot C D (fo_context ow) w of (r, w) \<Rightarrow>
        if r = Inr (fo_snapshot ow) then (Fx_aborted DAborted, ow\<lparr>fo_attempted_revision := None\<rparr>, w)
        else (let (out, ow) = fx_poison ow in (out, ow, w))))"

fun fx_index_body :: "u64 \<Rightarrow> nat \<Rightarrow> hash list \<Rightarrow> (hash \<times> u64 \<times> u64) list \<Rightarrow> (hash \<times> u64 \<times> u64) list option" where
  "fx_index_body revision i [] index = Some index"
| "fx_index_body revision i (ident # ids) index =
     (if map_of index ident \<noteq> None then None
      else fx_index_body revision (Suc i) ids (bm_insert ident (revision, of_nat i) index))"

definition fx_prepared :: "overlay \<Rightarrow> u64 \<Rightarrow> fx_snapshot \<Rightarrow> fx_snapshot option" where
  "fx_prepared ol revision s =
     map_option (\<lambda>index. \<lparr>fs_state = ol_candidate ol, fs_revision = revision, fs_bodies = fs_bodies s @ [ol_record ol],
         fs_transaction_index = index, fs_canonical_tip = None, fs_provenance = fs_provenance s\<rparr>)
       (fx_index_body revision 0 (bo_transaction_ids (ab_outcome (ol_record ol))) (fs_transaction_index s))"

definition fx_commit :: "'k crypto \<Rightarrow> 'w fixture_disk \<Rightarrow> fixture_store \<Rightarrow> overlay \<Rightarrow> 'w \<Rightarrow> fx_outcome \<times> fixture_store \<times> 'w" where
  "fx_commit C D ow ol w =
     (case fx_ready ow of Inl e \<Rightarrow> (Fx_aborted e, ow, w) | Inr _ \<Rightarrow>
      if ol_generation ol \<noteq> fo_generation ow \<or> ol_revision ol \<noteq> fs_revision (fo_snapshot ow) \<or>
         ol_base ol \<noteq> fs_state (fo_snapshot ow) then (Fx_aborted DStale, ow, w)
      else
     (case checked_add (ol_revision ol) 1 of None \<Rightarrow> (Fx_aborted DInvalid, ow, w) | Some revision \<Rightarrow>
     (case fx_prepared ol revision (fo_snapshot ow) of None \<Rightarrow> (Fx_aborted DInvalid, ow, w) | Some prepared \<Rightarrow>
     (case sq_begin D True w of (None, w) \<Rightarrow> fx_abort C D ow w | (Some _, w) \<Rightarrow>
      let ow = ow\<lparr>fo_attempted_revision := Some revision\<rparr> in
     (case fx_commit_writes C D (fo_context ow) ol revision w of
        (Inl e, w) \<Rightarrow>
          if e = DStale then
            (let (r, w) = sq_rollback D w in
             if r \<noteq> None \<and> sq_autocommit D w then (Fx_aborted DStale, ow\<lparr>fo_attempted_revision := None\<rparr>, w)
             else (let (out, ow) = fx_poison ow in (out, ow, w)))
          else fx_abort C D ow w
      | (Inr _, w) \<Rightarrow>
          (case sq_commit D w of
             (None, w) \<Rightarrow> (let (out, ow) = fx_poison ow in (out, ow, w))
           | (Some _, w) \<Rightarrow> (Fx_committed (ab_outcome (ol_record ol)),
                ow\<lparr>fo_snapshot := prepared, fo_attempted_revision := None\<rparr>, w)))))))"

definition fx_recover :: "'k crypto \<Rightarrow> 'w fixture_disk \<Rightarrow> fixture_store \<Rightarrow> u64 \<Rightarrow> 'w \<Rightarrow>
    (durable_error + fx_report) \<times> fixture_store \<times> u64 \<times> 'w" where
  "fx_recover C D ow counter w =
     (let ow = ow\<lparr>fo_poisoned := True\<rparr>; (gen, counter) = fx_generation counter in
      case gen of Inl e \<Rightarrow> (Inl e, ow, counter, w) | Inr gen \<Rightarrow>
      let ow = ow\<lparr>fo_generation := gen, fo_connected := False\<rparr> in
      (case then_do (fx_open D (dk_close D w)) (\<lambda>_ w. fx_configure D w) of
         (Inl e, w) \<Rightarrow> (Inl e, ow, counter, w)
       | (Inr _, w) \<Rightarrow>
         let ow = ow\<lparr>fo_connected := True\<rparr> in
         (case then_do (load_snapshot C D (fo_context ow) w) (\<lambda>s w.
               then_do (fx_barrier D (fo_context ow) (fs_revision s) w) (\<lambda>_ w. (Inr s, w))) of
            (Inl e, w) \<Rightarrow> (Inl e, ow, counter, w)
          | (Inr s, w) \<Rightarrow>
              (Inr \<lparr>fr_revision = fs_revision s,
                 fr_attempted_revision_present = map_option (\<lambda>r. fs_revision s \<ge> r) (fo_attempted_revision ow)\<rparr>,
               ow\<lparr>fo_snapshot := s, fo_attempted_revision := None, fo_poisoned := False\<rparr>, counter, w))))"

definition fx_owner :: "auth_context \<Rightarrow> fx_snapshot \<Rightarrow> u64 \<Rightarrow> (durable_error + fixture_store) \<times> u64" where
  "fx_owner cx s counter =
     (let (gen, counter) = fx_generation counter in
      (try_res gen (\<lambda>gen. Inr \<lparr>fo_context = cx, fo_connected = True, fo_snapshot = s, fo_generation = gen,
         fo_poisoned = False, fo_attempted_revision = None\<rparr>), counter))"

section \<open>Creation and opening\<close>

fun fx_exec_all :: "'w fixture_disk \<Rightarrow> fx_statement list \<Rightarrow> 'w \<Rightarrow> (durable_error + unit) \<times> 'w" where
  "fx_exec_all D [] w = (Inr (), w)"
| "fx_exec_all D (st # sts) w = then_do (fx_exec D st w) (\<lambda>_ w. fx_exec_all D sts w)"

definition fx_metadata_row :: "auth_context \<Rightarrow> transfer_state \<Rightarrow> text_bytes \<Rightarrow> u64 \<Rightarrow> bytes \<Rightarrow> int \<Rightarrow> cell list" where
  "fx_metadata_row cx seed provenance revision bar initialized =
     [Integer 1, Blob (be_bytes SCHEMA_VERSION), Text (str ''fixture-only''), Blob (be_bytes (ac_chain_id cx)), Blob (ac_network_id cx),
      Blob (be_bytes (ac_native_rules_version cx)), Text provenance, Blob (be_bytes (ts_gas_used_total seed)),
      Blob (be_bytes (ts_fees_burned_total seed)), Blob (be_bytes (of_nat (length (ts_accounts seed)) :: u64)),
      Blob (be_bytes revision), Blob bar, Null, Integer initialized]"

definition fx_initialize :: "'w fixture_disk \<Rightarrow> auth_context \<Rightarrow> transfer_state \<Rightarrow> text_bytes \<Rightarrow> 'w \<Rightarrow> (durable_error + unit) \<times> 'w" where
  "fx_initialize D cx initial provenance w =
     then_do (fx_exec_all D (map (\<lambda>n. Fx_create (dk_ddl D n)) fx_TABLES) w) (\<lambda>_ w.
     then_do (fx_exec D (Fx_insert Fx_metadata (fx_metadata_row cx initial (str ''initializing'') 0 (be_bytes (0 :: u64)) 0)) w) (\<lambda>_ w.
     then_do (fx_exec_all D (concat (map (\<lambda>a. [Fx_insert Seed_accounts (fx_account_row a), Fx_insert Fx_accounts (fx_account_row a)])
        (ts_accounts initial))) w) (\<lambda>_ w.
     then_do (fx_exec D (Fx_insert Fx_accounting [Integer 1, Blob (be_bytes (ts_gas_used_total initial)),
        Blob (be_bytes (ts_fees_burned_total initial))]) w) (\<lambda>_ w.
     then_do (fx_exec D (Fx_set_provenance provenance) w) (\<lambda>_ w.
     then_do (fx_exec D Fx_set_initialized w) (\<lambda>_ w. (Inr (), w)))))))"

definition fx_initial :: "transfer_state \<Rightarrow> text_bytes \<Rightarrow> fx_snapshot" where
  "fx_initial initial provenance = \<lparr>fs_state = initial, fs_revision = 0, fs_bodies = [], fs_transaction_index = [],
     fs_canonical_tip = None, fs_provenance = provenance\<rparr>"

definition fx_create_inner :: "'k crypto \<Rightarrow> 'w fixture_disk \<Rightarrow> auth_context \<Rightarrow> transfer_state \<Rightarrow> text_bytes \<Rightarrow> u64 \<Rightarrow> 'w \<Rightarrow>
    (durable_error + fixture_store) \<times> u64 \<times> 'w" where
  "fx_create_inner C D cx initial provenance counter w =
     (if provenance = [] then (Inl DInvalid, counter, w) else
     (case dk_create_new D w of
        (Already_exists, w) \<Rightarrow> (Inl DAlreadyExists, counter, w)
      | (Not_created, w) \<Rightarrow> (Inl DInvalid, counter, w)
      | (Created, w) \<Rightarrow>
     (case then_do (fx_open D w) (\<lambda>_ w.
           then_do (let (r, w) = fx_configure D w in (map_err (\<lambda>_. DAborted) r, w)) (\<lambda>_ w.
           fx_call DAborted (sq_begin D True w))) of
        (Inl e, w) \<Rightarrow> (Inl e, counter, w)
      | (Inr _, w) \<Rightarrow>
     (case fx_initialize D cx initial provenance w of
        (Inl e, w) \<Rightarrow>
          (case (if sq_autocommit D w then (Some (), w) else sq_rollback D w) of
             (None, w) \<Rightarrow> (Inl DRecoveryRequired, counter, w)
           | (Some _, w) \<Rightarrow>
               (case load_snapshot C D cx w of (r, w) \<Rightarrow>
                  (Inl (if r = Inl DUninitialized then DAborted else DRecoveryRequired), counter, w)))
      | (Inr _, w) \<Rightarrow>
     (case then_do (fx_call DRecoveryRequired (sq_commit D w)) (\<lambda>_ w. fx_call DRecoveryRequired (dk_sync_path D w)) of
        (Inl e, w) \<Rightarrow> (Inl e, counter, w)
      | (Inr _, w) \<Rightarrow> let (ow, counter) = fx_owner cx (fx_initial initial provenance) counter in (ow, counter, w))))))"

definition fx_load :: "'k crypto \<Rightarrow> 'w fixture_disk \<Rightarrow> auth_context \<Rightarrow> u64 \<Rightarrow> 'w \<Rightarrow> (durable_error + fixture_store) \<times> u64 \<times> 'w" where
  "fx_load C D cx counter w =
     (case then_do (fx_open D w) (\<lambda>_ w. then_do (fx_configure D w) (\<lambda>_ w.
           then_do (load_snapshot C D cx w) (\<lambda>s w. then_do (fx_barrier D cx (fs_revision s) w) (\<lambda>_ w. (Inr s, w))))) of
        (Inl e, w) \<Rightarrow> (Inl e, counter, w)
      | (Inr s, w) \<Rightarrow> let (ow, counter) = fx_owner cx s counter in (ow, counter, w))"

definition create_fixture :: "'k crypto \<Rightarrow> 'w fixture_disk \<Rightarrow> auth_context \<Rightarrow> transfer_state \<Rightarrow> text_bytes \<Rightarrow> u64 \<Rightarrow> 'w \<Rightarrow>
    (durable_error + fixture_store) \<times> u64 \<times> 'w" where
  "create_fixture = fx_create_inner"

definition fx_reopen :: "'k crypto \<Rightarrow> 'w fixture_disk \<Rightarrow> auth_context \<Rightarrow> u64 \<Rightarrow> 'w \<Rightarrow> (durable_error + fixture_store) \<times> u64 \<times> 'w" where
  "fx_reopen = fx_load"

definition recover_existing :: "'k crypto \<Rightarrow> 'w fixture_disk \<Rightarrow> auth_context \<Rightarrow> u64 \<Rightarrow> 'w \<Rightarrow> (durable_error + fixture_store) \<times> u64 \<times> 'w" where
  "recover_existing = fx_load"

end
