(* ===== verification/Canonical_Fixture.thy ===== *)
theory Canonical_Fixture
  imports Durable_Fixture
begin

text \<open>
  \<open>src/src/canonical_fixture.rs\<close>: the anchored, append-only archive of native blocks. An owner holds the ledger after
  its last block with the whole archive and four indexes. A producer prepares the next block from a body, a
  receiver stages a block from the wire, and both need a grant that names the data set, the base and the block. A
  commit writes block, body, ledger, indexes and tip in one SQLite transaction; recovery audits the file from its
  anchor and reconciles it with the block of an uncertain commit. The file is the parameter \<open>canonical_disk\<close>, which adds
  the statements of this schema to those of \<open>fixture_disk\<close>. Durations and test hooks (\<open>point\<close>) are not modelled, so
  \<open>commit\<close> and \<open>commit_profiled\<close> are one function.
\<close>

section \<open>The database\<close>

text \<open>Tables that schema 1 has too are reached by the statements of \<open>fixture_disk\<close>; \<open>blocks\<close> and \<open>canonical_tip\<close> are new. The
  archive is the join of blocks and bodies ordered by revision, in the sixteen columns that the audit selects.\<close>

datatype cn_query = Cn_tip | Cn_archive

datatype cn_statement =
    Cn_insert_block "cell list"
  | Cn_insert_tip "cell list"
  | Cn_update_revision bytes bytes
  | Cn_update_tip "bytes \<times> bytes \<times> bytes" "bytes \<times> bytes \<times> bytes"
  | Cn_set_initialized

datatype cn_counted = Count_blocks | Count_bodies

record 'w canonical_disk = "'w fixture_disk" +
  cn_metadata_present :: "'w \<Rightarrow> bool option"
  cn_set_cache :: "'w \<Rightarrow> unit option \<times> 'w"
  cn_select :: "cn_query \<Rightarrow> 'w \<Rightarrow> cell list option list option"
  cn_block_present :: "bytes \<Rightarrow> bytes \<Rightarrow> 'w \<Rightarrow> bool option"
  cn_transaction_present :: "bytes \<Rightarrow> bytes \<Rightarrow> bytes \<Rightarrow> 'w \<Rightarrow> bool option"
  cn_count :: "cn_counted \<Rightarrow> 'w \<Rightarrow> int option"
  cn_write :: "cn_statement \<Rightarrow> 'w \<Rightarrow> nat option \<times> 'w"

abbreviation cn_fixture :: "'w canonical_disk \<Rightarrow> 'w fixture_disk" where
  "cn_fixture D \<equiv> fixture_disk.truncate D"

definition cn_TABLES :: "string list" where
  "cn_TABLES = [''metadata'', ''seed_accounts'', ''accounts'', ''accounting'', ''blocks'', ''bodies'', ''transactions'', ''canonical_tip'']"

definition cn_SCHEMA_VERSION :: u32 where "cn_SCHEMA_VERSION = 2"

section \<open>Blocks, grants and snapshots\<close>

datatype cache_policy = ExistingDefault | Trial32MiB

definition pragma_value :: "cache_policy \<Rightarrow> int" where
  "pragma_value p = (case p of ExistingDefault \<Rightarrow> - 2000 | Trial32MiB \<Rightarrow> - 32768)"

record tip =
  tp_hash :: hash
  tp_slot :: u64
  tp_revision :: u64

definition tip_at :: "hasher \<Rightarrow> native_block \<Rightarrow> u64 \<Rightarrow> tip" where
  "tip_at K b revision = \<lparr>tp_hash = nb_hash K b, tp_slot = bh_slot (nb_header b), tp_revision = revision\<rparr>"

datatype cn_error =
    CStorage durable_error | CBlock block_error | CBody body_error | CBlocked | CStale | CAlreadyCommitted tip
  | CSlotConflict | CSlot | CParent | CGrant | COverflow | CDuplicateTransaction nat | CInvalid

definition cn_sql :: cn_error where "cn_sql = CStorage DInvalid"

definition recovery_error :: cn_error where "recovery_error = CStorage DRecoveryRequired"

record fixture_manifest =
  mf_context :: auth_context
  mf_anchor :: native_block
  mf_initial :: transfer_state
  mf_provenance :: text_bytes

definition manifest_new :: "hasher \<Rightarrow> auth_context \<Rightarrow> native_block \<Rightarrow> transfer_state \<Rightarrow> text_bytes \<Rightarrow> cn_error + fixture_manifest" where
  "manifest_new K cx anc initial provenance =
     try_res (map_err CBlock (preflight K anc cx)) (\<lambda>_.
     if provenance = [] \<or> nb_transactions anc \<noteq> [] \<or> bh_gas_used (nb_header anc) \<noteq> 0 \<or>
        pd_fees_burned (nb_protocol_data anc) \<noteq> 0 \<or>
        bh_slot (nb_header anc) = 0 \<and> bh_parent_hash (nb_header anc) \<noteq> replicate 32 0
     then Inl CInvalid
     else Inr \<lparr>mf_context = cx, mf_anchor = anc, mf_initial = initial, mf_provenance = provenance\<rparr>)"

record admission_grant =
  ag_context :: auth_context
  ag_anchor :: hash
  ag_base :: tip
  ag_hash :: hash
  ag_slot :: u64

definition explicit_offline :: "auth_context \<Rightarrow> hash \<Rightarrow> tip \<Rightarrow> hash \<Rightarrow> u64 \<Rightarrow> admission_grant" where
  "explicit_offline cx anc tp h slot = \<lparr>ag_context = cx, ag_anchor = anc, ag_base = tp, ag_hash = h, ag_slot = slot\<rparr>"

definition grant_matches :: "hasher \<Rightarrow> admission_grant \<Rightarrow> auth_context \<Rightarrow> hash \<Rightarrow> tip \<Rightarrow> native_block \<Rightarrow> bool" where
  "grant_matches K g cx anc tp block \<longleftrightarrow> ag_context g = cx \<and> ag_anchor g = anc \<and> ag_base g = tp \<and>
     ag_hash g = nb_hash K block \<and> ag_slot g = bh_slot (nb_header block)"

record committed_block =
  cm_tip :: tip
  cm_block :: native_block
  cm_outcome :: body_outcome

record cn_membership =
  mb_tip :: tip
  mb_position :: u64

record cn_snapshot =
  ns_state :: transfer_state
  ns_tip :: tip
  ns_blocks :: "committed_block list"
  ns_transactions :: "(hash \<times> cn_membership) list"
  ns_sender_nonces :: "((address \<times> u64) \<times> cn_membership) list"
  ns_slots :: "(u64 \<times> hash) list"
  ns_hashes :: "(hash \<times> tip) list"

fun cn_insert_entries :: "tip \<Rightarrow> nat \<Rightarrow> (bytes \<times> hash) list \<Rightarrow> (hash \<times> cn_membership) list \<Rightarrow> ((address \<times> u64) \<times> cn_membership) list \<Rightarrow>
    cn_error + (hash \<times> cn_membership) list \<times> ((address \<times> u64) \<times> cn_membership) list" where
  "cn_insert_entries tp i [] ts ns = Inr (ts, ns)"
| "cn_insert_entries tp i ((tx, ident) # es) ts ns =
     (let m = \<lparr>mb_tip = tp, mb_position = of_nat i\<rparr> in
      if map_of ts ident \<noteq> None \<or> map_of ns (sender_nonce tx) \<noteq> None then Inl (CDuplicateTransaction i)
      else cn_insert_entries tp (Suc i) es (bm_insert ident m ts) (bm_insert (sender_nonce tx) m ns))"

definition cn_entries :: "native_block \<Rightarrow> body_outcome \<Rightarrow> (bytes \<times> hash) list" where
  "cn_entries b outcome = zip (nb_transactions b) (bo_transaction_ids outcome)"

definition insert_record :: "committed_block \<Rightarrow> cn_snapshot \<Rightarrow> cn_error + cn_snapshot" where
  "insert_record r s =
     (let tp = cm_tip r in
      try_res (cn_insert_entries tp 0 (cn_entries (cm_block r) (cm_outcome r)) (ns_transactions s) (ns_sender_nonces s)) (\<lambda>(ts, ns).
      if map_of (ns_slots s) (tp_slot tp) \<noteq> None \<or> map_of (ns_hashes s) (tp_hash tp) \<noteq> None then Inl CInvalid
      else Inr (s\<lparr>ns_tip := tp, ns_blocks := ns_blocks s @ [r], ns_transactions := ts, ns_sender_nonces := ns,
                  ns_slots := bm_insert (tp_slot tp) (tp_hash tp) (ns_slots s), ns_hashes := bm_insert (tp_hash tp) tp (ns_hashes s)\<rparr>)))"

definition cn_empty :: "transfer_state \<Rightarrow> tip \<Rightarrow> cn_snapshot" where
  "cn_empty st tp = \<lparr>ns_state = st, ns_tip = tp, ns_blocks = [], ns_transactions = [], ns_sender_nonces = [], ns_slots = [], ns_hashes = []\<rparr>"

section \<open>The owner in memory\<close>

record cn_base =
  cnb_generation :: u64
  cnb_context :: auth_context
  cnb_anchor :: hash
  cnb_tip :: tip
  cnb_state :: transfer_state

record prepared_native_block =
  pn_base :: cn_base
  pn_candidate :: transfer_state
  pn_record :: committed_block

record staged_native_block =
  sx_prepared :: prepared_native_block
  sx_grant :: admission_grant

record cn_attempt =
  ca_base :: tip
  ca_record :: committed_block

record canonical_store =
  co_manifest :: fixture_manifest
  co_connected :: bool
  co_snapshot :: cn_snapshot
  co_generation :: u64
  co_poisoned :: bool
  co_attempted :: "cn_attempt option"
  co_cache_policy :: cache_policy

definition cn_ready :: "canonical_store \<Rightarrow> cn_error + unit" where
  "cn_ready ow = (if co_poisoned ow then Inl CBlocked else Inr ())"

definition cn_is_ready :: "canonical_store \<Rightarrow> bool" where
  "cn_is_ready ow \<longleftrightarrow> \<not> co_poisoned ow"

definition cn_snapshot_of :: "canonical_store \<Rightarrow> cn_error + cn_snapshot" where
  "cn_snapshot_of ow = try_res (cn_ready ow) (\<lambda>_. Inr (co_snapshot ow))"

definition cache_policy_of :: "canonical_store \<Rightarrow> cn_error + cache_policy" where
  "cache_policy_of ow = try_res (cn_ready ow) (\<lambda>_. Inr (co_cache_policy ow))"

definition cn_settings :: "'w canonical_disk \<Rightarrow> canonical_store \<Rightarrow> 'w \<Rightarrow> cn_error + storage_settings" where
  "cn_settings D ow w = try_res (cn_ready ow) (\<lambda>_. map_err (\<lambda>_. cn_sql) (sql_settings (fx_disk (cn_fixture D)) w))"

definition authorize :: "hasher \<Rightarrow> prepared_native_block \<Rightarrow> admission_grant \<Rightarrow> cn_error + staged_native_block" where
  "authorize K p g =
     (if \<not> grant_matches K g (cnb_context (pn_base p)) (cnb_anchor (pn_base p)) (cnb_tip (pn_base p)) (cm_block (pn_record p))
      then Inl CGrant else Inr \<lparr>sx_prepared = p, sx_grant = g\<rparr>)"

definition cn_base_of :: "hasher \<Rightarrow> canonical_store \<Rightarrow> transfer_state \<Rightarrow> cn_base" where
  "cn_base_of K ow st = \<lparr>cnb_generation = co_generation ow, cnb_context = mf_context (co_manifest ow),
     cnb_anchor = nb_hash K (mf_anchor (co_manifest ow)), cnb_tip = ns_tip (co_snapshot ow), cnb_state = st\<rparr>"

definition check_append :: "hasher \<Rightarrow> canonical_store \<Rightarrow> native_block \<Rightarrow> admission_grant option \<Rightarrow> cn_error + unit" where
  "check_append K ow block grant =
     (let s = co_snapshot ow; m = co_manifest ow; h = nb_header block in
      case map_of (ns_hashes s) (nb_hash K block) of
        Some tp \<Rightarrow>
          if unat (tp_revision tp) < length (ns_blocks s) \<and> cm_block (ns_blocks s ! unat (tp_revision tp)) = block
          then Inl (CAlreadyCommitted tp) else Inl CInvalid
      | None \<Rightarrow>
          if map_of (ns_slots s) (bh_slot h) \<noteq> None then Inl CSlotConflict
          else try_res (ok_or COverflow (checked_add (tp_slot (ns_tip s)) 1)) (\<lambda>next.
          if bh_slot h \<noteq> next then Inl CSlot
          else if bh_parent_hash h \<noteq> tp_hash (ns_tip s) then Inl CParent
          else try_res (ok_or COverflow (checked_add (tp_revision (ns_tip s)) 1)) (\<lambda>_.
          if (case grant of None \<Rightarrow> False | Some g \<Rightarrow> \<not> grant_matches K g (mf_context m) (nb_hash K (mf_anchor m)) (ns_tip s) block)
          then Inl CGrant else Inr ())))"

fun cn_check_entries :: "cn_snapshot \<Rightarrow> nat \<Rightarrow> (bytes \<times> hash) list \<Rightarrow> hash set \<Rightarrow> (address \<times> u64) set \<Rightarrow> cn_error + unit" where
  "cn_check_entries s i [] ids pairs = Inr ()"
| "cn_check_entries s i ((tx, ident) # es) ids pairs =
     (if map_of (ns_transactions s) ident \<noteq> None \<or> ident \<in> ids then Inl (CDuplicateTransaction i)
      else if map_of (ns_sender_nonces s) (sender_nonce tx) \<noteq> None \<or> sender_nonce tx \<in> pairs then Inl (CDuplicateTransaction i)
      else cn_check_entries s (Suc i) es (insert ident ids) (insert (sender_nonce tx) pairs))"

definition cn_check_transactions :: "canonical_store \<Rightarrow> native_block \<Rightarrow> body_outcome \<Rightarrow> cn_error + unit" where
  "cn_check_transactions ow block outcome = cn_check_entries (co_snapshot ow) 0 (cn_entries block outcome) {} {}"

fun first_wrong_length :: "nat \<Rightarrow> bytes list \<Rightarrow> nat option" where
  "first_wrong_length i [] = None"
| "first_wrong_length i (b # bs) = (if length b \<noteq> SIGNED_LEN then Some i else first_wrong_length (Suc i) bs)"

definition cn_prepare_next :: "'k crypto \<Rightarrow> canonical_store \<Rightarrow> text_bytes \<Rightarrow> u64 \<Rightarrow> bytes list \<Rightarrow> cn_error + prepared_native_block" where
  "cn_prepare_next C ow proposer ticket body =
     (let K = c_keccak C; s = co_snapshot ow; cx = mf_context (co_manifest ow) in
      try_res (cn_ready ow) (\<lambda>_.
      if length proposer > MAX_PROPOSER_BYTES \<or> length body > MAX_TRANSACTIONS then Inl CInvalid
      else (case first_wrong_length 0 body of Some i \<Rightarrow> Inl (CBlock (Frame ''signed length'' (Some i))) | None \<Rightarrow>
      if proposer = [] \<or> proposer = str ''protocol'' then Inl (CBlock ProposerError)
      else if ticket = 0 then Inl (CBlock TicketError)
      else try_res (ok_or COverflow (checked_add (tp_slot (ns_tip s)) 1)) (\<lambda>slot.
      try_res (ok_or COverflow (checked_add (tp_revision (ns_tip s)) 1)) (\<lambda>revision.
      try_res (map_err CBody (stage_body C (ns_state s) cx slot body)) (\<lambda>sb.
      let txs = ab_transactions (sb_record sb); outcome = ab_outcome (sb_record sb) in
      try_res (map_err CBlock (build K cx slot (tp_hash (ns_tip s)) proposer ticket txs outcome)) (\<lambda>block.
      try_res (map_err CBlock (preflight K block cx)) (\<lambda>ids.
      try_res (map_err CBlock (match_outcome block txs ids outcome)) (\<lambda>_.
      try_res (cn_check_transactions ow block outcome) (\<lambda>_.
      Inr \<lparr>pn_base = cn_base_of K ow (sb_base sb), pn_candidate = sb_candidate sb,
           pn_record = \<lparr>cm_tip = tip_at K block revision, cm_block = block, cm_outcome = outcome\<rparr>\<rparr>))))))))))"

definition cn_stage_received :: "'k crypto \<Rightarrow> canonical_store \<Rightarrow> bytes \<Rightarrow> admission_grant \<Rightarrow> cn_error + staged_native_block" where
  "cn_stage_received C ow bs grant =
     (let K = c_keccak C; s = co_snapshot ow; cx = mf_context (co_manifest ow) in
      try_res (cn_ready ow) (\<lambda>_.
      try_res (map_err CBlock (nb_from_wire_bytes bs)) (\<lambda>block.
      try_res (map_err CBlock (preflight K block cx)) (\<lambda>ids.
      try_res (check_append K ow block (Some grant)) (\<lambda>_.
      try_res (map_err CBody (stage_body C (ns_state s) cx (bh_slot (nb_header block)) (nb_transactions block))) (\<lambda>sb.
      let outcome = ab_outcome (sb_record sb) in
      try_res (map_err CBlock (match_outcome block (ab_transactions (sb_record sb)) ids outcome)) (\<lambda>_.
      try_res (cn_check_transactions ow block outcome) (\<lambda>_.
      try_res (ok_or COverflow (checked_add (tp_revision (ns_tip s)) 1)) (\<lambda>revision.
      Inr \<lparr>sx_prepared = \<lparr>pn_base = cn_base_of K ow (sb_base sb), pn_candidate = sb_candidate sb,
              pn_record = \<lparr>cm_tip = tip_at K block revision, cm_block = block, cm_outcome = outcome\<rparr>\<rparr>,
           sx_grant = grant\<rparr>)))))))))"

definition cn_reconcile :: "cn_attempt option \<Rightarrow> cn_snapshot \<Rightarrow> cn_error + bool option" where
  "cn_reconcile att s = (case att of None \<Rightarrow> Inr None | Some a \<Rightarrow>
     let i = unat (tp_revision (cm_tip (ca_record a))); j = unat (tp_revision (ca_base a)) in
     if i < length (ns_blocks s) then
       (if ns_blocks s ! i \<noteq> ca_record a \<or> \<not> (j < length (ns_blocks s) \<and> cm_tip (ns_blocks s ! j) = ca_base a)
        then Inl recovery_error else Inr (Some True))
     else if ns_tip s = ca_base a then Inr (Some False)
     else Inl recovery_error)"

section \<open>Connections\<close>

definition on_err :: "('e \<Rightarrow> 'f) \<Rightarrow> ('e + 'a) \<times> 'w \<Rightarrow> ('f + 'a) \<times> 'w" where
  "on_err f m = (map_err f (fst m), snd m)"

definition cn_call :: "cn_error \<Rightarrow> 'a option \<times> 'w \<Rightarrow> (cn_error + 'a) \<times> 'w" where
  "cn_call e m = (ok_or e (fst m), snd m)"

definition cn_exec :: "'w canonical_disk \<Rightarrow> cn_statement \<Rightarrow> 'w \<Rightarrow> (cn_error + nat) \<times> 'w" where
  "cn_exec D st w = cn_call cn_sql (cn_write D st w)"

definition cn_shared :: "'w canonical_disk \<Rightarrow> fx_statement \<Rightarrow> 'w \<Rightarrow> (cn_error + nat) \<times> 'w" where
  "cn_shared D st w = on_err CStorage (fx_exec (cn_fixture D) st w)"

definition configure_cache :: "'w canonical_disk \<Rightarrow> cache_policy \<Rightarrow> 'w \<Rightarrow> (cn_error + unit) \<times> 'w" where
  "configure_cache D policy w =
     then_do (on_err CStorage (fx_configure (cn_fixture D) w)) (\<lambda>_ w.
     then_do (ok_or cn_sql (pg_cache_spill (dk_pragmas D w)), w) (\<lambda>before w.
     then_do (if policy = Trial32MiB then cn_call cn_sql (cn_set_cache D w) else (Inr (), w)) (\<lambda>_ w.
     (try_res (ok_or cn_sql (pg_cache_size (dk_pragmas D w))) (\<lambda>actual.
      try_res (ok_or cn_sql (pg_cache_spill (dk_pragmas D w))) (\<lambda>after.
      if actual \<noteq> pragma_value policy \<or> (before > 0) \<noteq> (after > 0) then Inl CInvalid else Inr ())), w))))"

section \<open>Reading\<close>

definition cn_blob :: "nat \<Rightarrow> cell \<Rightarrow> cn_error + bytes" where
  "cn_blob n c = map_err CStorage (fx_blob n c)"

definition cn_check :: "nat \<Rightarrow> cell \<Rightarrow> (bytes \<Rightarrow> bool) \<Rightarrow> cn_error + unit" where
  "cn_check n c P = try_res (cn_blob n c) (\<lambda>b. if P b then Inr () else Inl CInvalid)"

definition cn_bytes :: "cell \<Rightarrow> cn_error + bytes" where
  "cn_bytes c = (case c of Blob b \<Rightarrow> Inr b | _ \<Rightarrow> Inl cn_sql)"

definition cn_tip_of :: "cell list \<Rightarrow> cn_error + tip" where
  "cn_tip_of row = (case row of
     [h, slot, revision] \<Rightarrow>
       try_res (cn_blob 32 h) (\<lambda>h.
       try_res (cn_blob 8 slot) (\<lambda>slot.
       try_res (cn_blob 8 revision) (\<lambda>revision.
       Inr \<lparr>tp_hash = h, tp_slot = be_word slot, tp_revision = be_word revision\<rparr>)))
   | _ \<Rightarrow> Inl cn_sql)"

definition read_tip :: "'w canonical_disk \<Rightarrow> 'w \<Rightarrow> cn_error + tip" where
  "read_tip D w = try_res (map_err CStorage (one_row (cn_select D Cn_tip w))) cn_tip_of"

definition cn_metadata_ok :: "hasher \<Rightarrow> fixture_manifest \<Rightarrow> u64 option \<Rightarrow> cell list \<Rightarrow> cn_error + u64" where
  "cn_metadata_ok K m want row = (case row of
     [_, version, mode, chain, network, rules, provenance, gas, burn, seeds, revision, _, anc, wire, profile, initialized] \<Rightarrow>
       let cx = mf_context m; st = mf_initial m in
       try_res (cn_blob 4 version) (\<lambda>version.
       try_res (map_err CStorage (fx_text mode)) (\<lambda>mode.
       try_res (cn_blob 8 chain) (\<lambda>chain.
       try_res (cn_blob 32 network) (\<lambda>network.
       try_res (cn_blob 4 rules) (\<lambda>rules.
       try_res (map_err CStorage (fx_text provenance)) (\<lambda>provenance.
       try_res (cn_blob 8 gas) (\<lambda>gas.
       try_res (cn_blob 16 burn) (\<lambda>burn.
       try_res (cn_blob 8 seeds) (\<lambda>seeds.
       try_res (cn_blob 8 revision) (\<lambda>revision.
       try_res (cn_blob 32 anc) (\<lambda>anc.
       try_res (cn_blob 1 wire) (\<lambda>wire.
       try_res (cn_blob 4 profile) (\<lambda>profile.
       try_res (map_err CStorage (fx_integer initialized)) (\<lambda>initialized.
       if initialized \<noteq> 1 then Inl (CStorage DUninitialized)
       else if be_word version \<noteq> cn_SCHEMA_VERSION \<or> mode \<noteq> str ''offline-native-blocks'' \<or> be_word chain \<noteq> ac_chain_id cx \<or>
         network \<noteq> ac_network_id cx \<or> be_word rules \<noteq> ac_native_rules_version cx \<or> provenance \<noteq> mf_provenance m \<or>
         be_word gas \<noteq> ts_gas_used_total st \<or> be_word burn \<noteq> ts_fees_burned_total st \<or>
         be_word seeds \<noteq> (of_nat (length (ts_accounts st)) :: u64) \<or> anc \<noteq> nb_hash K (mf_anchor m) \<or> wire \<noteq> [2] \<or>
         be_word profile \<noteq> (2 :: u32)
       then Inl CInvalid
       else if (case want of None \<Rightarrow> False | Some r \<Rightarrow> r \<noteq> be_word revision) then Inl CStale
       else Inr (be_word revision)))))))))))))))
   | _ \<Rightarrow> Inl cn_sql)"

definition cn_verify_metadata :: "hasher \<Rightarrow> 'w canonical_disk \<Rightarrow> fixture_manifest \<Rightarrow> u64 option \<Rightarrow> 'w \<Rightarrow> cn_error + u64" where
  "cn_verify_metadata K D m want w =
     try_res (map_err CStorage (first_row (fx_select D (Fx_all Fx_metadata) w))) (\<lambda>row.
     case row of None \<Rightarrow> Inl (CStorage DUninitialized) | Some row \<Rightarrow> cn_metadata_ok K m want row)"

section \<open>The audit\<close>

fun cn_check_tables :: "'w canonical_disk \<Rightarrow> 'w \<Rightarrow> string list \<Rightarrow> cn_error + unit" where
  "cn_check_tables D w [] = Inr ()"
| "cn_check_tables D w (n # ns) =
     try_res (ok_or cn_sql (fx_table_sql D n w)) (\<lambda>ddl. if ddl \<noteq> dk_ddl D n then Inl CInvalid else cn_check_tables D w ns)"

definition cn_check_schema :: "'w canonical_disk \<Rightarrow> 'w \<Rightarrow> cn_error + unit" where
  "cn_check_schema D w =
     try_res (ok_or cn_sql (cn_metadata_present D w)) (\<lambda>present.
     if \<not> present then Inl (CStorage DUninitialized)
     else try_res (cn_check_tables D w cn_TABLES) (\<lambda>_.
     try_res (ok_or cn_sql (sq_integrity D w)) (\<lambda>integrity.
     if integrity \<noteq> ''ok'' then Inl CInvalid
     else try_res (ok_or cn_sql (sq_foreign_key_violation D w)) (\<lambda>violated. if violated then Inl CInvalid else Inr ()))))"

fun cn_read_entries :: "hasher \<Rightarrow> cell list option list \<Rightarrow> bytes list \<Rightarrow> hash list \<Rightarrow> cn_error + bytes list \<times> hash list" where
  "cn_read_entries K [] bs ids = Inr (bs, ids)"
| "cn_read_entries K (None # rs) bs ids = Inl cn_sql"
| "cn_read_entries K (Some row # rs) bs ids =
     try_res (map_err CStorage (fx_entry row)) (\<lambda>(ident, position, sender, nonce, wire).
     if position \<noteq> of_nat (length bs) \<or> sender_nonce wire \<noteq> (sender, nonce) \<or> hash_with_domain K ID_DOMAIN wire \<noteq> ident
     then Inl CInvalid
     else cn_read_entries K rs (bs @ [wire]) (ids @ [ident]))"

text \<open>The columns of an archive row, checked against each other: tip, header, proposer, protocol data, the number of entries, gas and
  burn.\<close>

definition cn_archive_row :: "hasher \<Rightarrow> nat \<Rightarrow> cell list \<Rightarrow>
    cn_error + tip \<times> block_header \<times> text_bytes \<times> protocol_data \<times> u64 \<times> u64 \<times> u64" where
  "cn_archive_row K n row = (case row of
     [h, slot, revision, header, proposer, pd, parent, body_revision, is_anchor, block_hash, body_slot, encoding, rules, entries, gas, burn] \<Rightarrow>
       try_res (cn_blob 32 h) (\<lambda>h.
       try_res (cn_blob 8 slot) (\<lambda>slot. let slot = be_word slot in
       try_res (cn_blob 8 revision) (\<lambda>revision. let revision = be_word revision in
       if revision \<noteq> of_nat n then Inl CInvalid
       else try_res (cn_blob 229 header) (\<lambda>header.
       try_res (ok_or CInvalid (header_from_bytes header)) (\<lambda>header.
       try_res (cn_bytes proposer) (\<lambda>proposer.
       if \<not> utf8_valid proposer then Inl CInvalid
       else try_res (cn_blob 10 pd) (\<lambda>pd.
       try_res (ok_or CInvalid (protocol_data_from_bytes pd)) (\<lambda>pd.
       if bh_slot header \<noteq> slot \<or> header_hash K header \<noteq> h then Inl CInvalid
       else try_res (cn_check 32 parent (\<lambda>b. b = bh_parent_hash header)) (\<lambda>_.
       try_res (cn_check 8 body_revision (\<lambda>b. be_word b = revision)) (\<lambda>_.
       try_res (map_err CStorage (fx_integer is_anchor)) (\<lambda>is_anchor.
       if is_anchor \<noteq> (if revision = 0 then 1 else 0) then Inl CInvalid
       else try_res (cn_check 32 block_hash (\<lambda>b. b = h)) (\<lambda>_.
       try_res (cn_check 8 body_slot (\<lambda>b. be_word b = slot)) (\<lambda>_.
       try_res (cn_check 1 encoding (\<lambda>b. b = [2])) (\<lambda>_.
       try_res (cn_check 4 rules (\<lambda>b. be_word b = (1 :: u32))) (\<lambda>_.
       try_res (cn_blob 8 entries) (\<lambda>entries.
       if be_word entries > (of_nat MAX_TRANSACTIONS :: u64) then Inl CInvalid
       else try_res (cn_blob 8 gas) (\<lambda>gas.
       try_res (cn_blob 8 burn) (\<lambda>burn.
       Inr (\<lparr>tp_hash = h, tp_slot = slot, tp_revision = revision\<rparr>, header, proposer, pd, be_word entries, be_word gas, be_word burn)))))))))))))))))))
   | _ \<Rightarrow> Inl cn_sql)"

text \<open>A decoded block against the audited prefix, and its insertion.\<close>

definition cn_audit_block :: "'k crypto \<Rightarrow> fixture_manifest \<Rightarrow> committed_block \<Rightarrow> hash list \<Rightarrow> cn_snapshot \<times> transfer_state \<Rightarrow>
    cn_error + cn_snapshot \<times> transfer_state" where
  "cn_audit_block C m r raw_ids = (\<lambda>(s, audit).
     let block = cm_block r; slot = tp_slot (cm_tip r) in
     try_res (if tp_revision (cm_tip r) = 0 then
         (if block \<noteq> mf_anchor m \<or> cm_outcome r \<noteq> default_outcome then Inl CInvalid else Inr audit)
       else if checked_add (tp_slot (ns_tip s)) 1 \<noteq> Some slot \<or> tp_hash (ns_tip s) \<noteq> bh_parent_hash (nb_header block) then Inl CInvalid
       else try_res (map_err CBody (stage_body C audit (mf_context m) slot (nb_transactions block))) (\<lambda>sb.
         try_res (map_err CBlock (match_outcome block (ab_transactions (sb_record sb)) raw_ids (ab_outcome (sb_record sb)))) (\<lambda>_.
         if ab_outcome (sb_record sb) \<noteq> cm_outcome r then Inl CInvalid else Inr (sb_candidate sb)))) (\<lambda>audit.
     try_res (insert_record r s) (\<lambda>s. Inr (s, audit))))"

definition cn_audit_row :: "'k crypto \<Rightarrow> 'w canonical_disk \<Rightarrow> fixture_manifest \<Rightarrow> 'w \<Rightarrow> cell list \<Rightarrow> cn_snapshot \<times> transfer_state \<Rightarrow>
    cn_error + cn_snapshot \<times> transfer_state" where
  "cn_audit_row C D m w row x =
     (let K = c_keccak C in
      try_res (cn_archive_row K (length (ns_blocks (fst x))) row) (\<lambda>(tp, header, proposer, pd, entries, gas, burn).
      try_res (ok_or cn_sql (fx_select D (Body_entries (be_bytes (tp_revision tp))) w)) (\<lambda>cursor.
      try_res (cn_read_entries K cursor [] []) (\<lambda>(bs, ids).
      if entries \<noteq> of_nat (length bs) then Inl CInvalid
      else try_res (map_err CBlock (nb_from_parts K header proposer pd bs)) (\<lambda>block.
      try_res (map_err CBlock (preflight K block (mf_context m))) (\<lambda>raw_ids.
      cn_audit_block C m \<lparr>cm_tip = tp, cm_block = block,
        cm_outcome = \<lparr>bo_transaction_ids = ids, bo_gas_used = gas, bo_fees_burned = burn\<rparr>\<rparr> raw_ids x))))))"

fun cn_audit_rows :: "'k crypto \<Rightarrow> 'w canonical_disk \<Rightarrow> fixture_manifest \<Rightarrow> 'w \<Rightarrow> cell list option list \<Rightarrow> cn_snapshot \<times> transfer_state \<Rightarrow>
    cn_error + cn_snapshot \<times> transfer_state" where
  "cn_audit_rows C D m w [] x = Inr x"
| "cn_audit_rows C D m w (None # rows) x = Inl cn_sql"
| "cn_audit_rows C D m w (Some row # rows) x = try_res (cn_audit_row C D m w row x) (cn_audit_rows C D m w rows)"

definition cn_check_count :: "'w canonical_disk \<Rightarrow> cn_counted \<Rightarrow> nat \<Rightarrow> 'w \<Rightarrow> cn_error + unit" where
  "cn_check_count D t n w = try_res (ok_or cn_sql (cn_count D t w)) (\<lambda>i. if i \<noteq> int n then Inl CInvalid else Inr ())"

definition load_transaction :: "'k crypto \<Rightarrow> 'w canonical_disk \<Rightarrow> fixture_manifest \<Rightarrow> 'w \<Rightarrow> cn_error + cn_snapshot" where
  "load_transaction C D m w =
     try_res (cn_check_schema D w) (\<lambda>_.
     try_res (cn_verify_metadata (c_keccak C) D m None w) (\<lambda>revision.
     try_res (read_tip D w) (\<lambda>tp.
     try_res (map_err CStorage (read_accounts (cn_fixture D) Seed_accounts w)) (\<lambda>accounts.
     let seeds = \<lparr>ts_accounts = accounts, ts_gas_used_total = ts_gas_used_total (mf_initial m), ts_fees_burned_total = ts_fees_burned_total (mf_initial m)\<rparr> in
     if seeds \<noteq> mf_initial m then Inl CInvalid
     else try_res (map_err CStorage (read_state (cn_fixture D) w)) (\<lambda>state.
     try_res (ok_or cn_sql (cn_select D Cn_archive w)) (\<lambda>rows.
     try_res (cn_audit_rows C D m w rows (cn_empty state tp, seeds)) (\<lambda>(s, audit).
     if ns_blocks s = [] \<or> ns_tip s \<noteq> tp \<or> tp_revision (ns_tip s) \<noteq> revision then Inl CInvalid
     else try_res (cn_check_count D Count_blocks (length (ns_blocks s)) w) (\<lambda>_.
     try_res (cn_check_count D Count_bodies (length (ns_blocks s)) w) (\<lambda>_.
     if audit \<noteq> ns_state s then Inl CInvalid else Inr s)))))))))"

definition cn_load_snapshot :: "'k crypto \<Rightarrow> 'w canonical_disk \<Rightarrow> fixture_manifest \<Rightarrow> 'w \<Rightarrow> (cn_error + cn_snapshot) \<times> 'w" where
  "cn_load_snapshot C D m w =
     then_do (cn_call cn_sql (sq_begin D False w)) (\<lambda>_ w.
     let result = load_transaction C D m w; (end_r, w) = cn_call cn_sql (sq_rollback D w) in
     (try_res result (\<lambda>s. try_res end_r (\<lambda>_. Inr s)), w))"

definition cn_barrier :: "hasher \<Rightarrow> 'w canonical_disk \<Rightarrow> fixture_manifest \<Rightarrow> tip \<Rightarrow> 'w \<Rightarrow> (cn_error + unit) \<times> 'w" where
  "cn_barrier K D m tp w =
     then_do (cn_call recovery_error (sq_begin D True w)) (\<lambda>_ w.
     on_err (\<lambda>_. recovery_error)
      (then_do (cn_verify_metadata K D m (Some (tp_revision tp)) w, w) (\<lambda>_ w.
       then_do (try_res (read_tip D w) (\<lambda>t. if t \<noteq> tp then Inl CStale else Inr ()), w) (\<lambda>_ w.
       then_do (try_res (map_err CStorage (one_row (fx_select D (Fx_all Fx_metadata) w))) (\<lambda>row.
          if length row = 16 then cn_blob 8 (row ! 11) else Inl cn_sql), w) (\<lambda>old w.
       then_do (ok_or COverflow (checked_add (be_word old :: u64) 1), w) (\<lambda>next w.
       then_do (cn_shared D (Fx_update_barrier (be_bytes next)) w) (\<lambda>_ w.
       then_do (cn_call cn_sql (sq_commit D w)) (\<lambda>_ w.
       cn_call cn_sql (dk_sync_path D w)))))))))"

section \<open>Writing\<close>

definition cn_block_row :: "committed_block \<Rightarrow> cell list" where
  "cn_block_row r = (let b = cm_block r; tp = cm_tip r in
     [Blob (tp_hash tp), Blob (be_bytes (tp_slot tp)), Blob (be_bytes (tp_revision tp)), Blob (header_bytes (nb_header b)),
      Blob (nb_proposer b), Blob (protocol_data_bytes (nb_protocol_data b)), Blob (bh_parent_hash (nb_header b)),
      Blob (be_bytes (tp_revision tp)), Integer (if tp_revision tp = 0 then 1 else 0)])"

definition cn_body_row :: "committed_block \<Rightarrow> cell list" where
  "cn_body_row r = (let tp = cm_tip r in
     [Blob (be_bytes (tp_revision tp)), Blob (tp_hash tp), Blob (be_bytes (tp_slot tp)), Blob [2], Blob [0, 0, 0, 1],
      Blob (be_bytes (of_nat (length (nb_transactions (cm_block r))) :: u64)), Blob (be_bytes (bo_gas_used (cm_outcome r))),
      Blob (be_bytes (bo_fees_burned (cm_outcome r)))])"

definition cn_entry_row :: "u64 \<Rightarrow> nat \<Rightarrow> bytes \<Rightarrow> hash \<Rightarrow> cell list" where
  "cn_entry_row revision i b ident = (let (sender, nonce) = sender_nonce b in
     [Blob ident, Blob (be_bytes revision), Blob (be_bytes (of_nat i :: u64)), Blob sender, Blob (be_bytes nonce), Blob b])"

definition insert_block :: "'w canonical_disk \<Rightarrow> committed_block \<Rightarrow> 'w \<Rightarrow> (cn_error + nat) \<times> 'w" where
  "insert_block D r w = cn_exec D (Cn_insert_block (cn_block_row r)) w"

definition insert_body :: "'w canonical_disk \<Rightarrow> committed_block \<Rightarrow> 'w \<Rightarrow> (cn_error + nat) \<times> 'w" where
  "insert_body D r w = cn_shared D (Fx_insert Fx_bodies (cn_body_row r)) w"

fun cn_insert_rows :: "'w canonical_disk \<Rightarrow> u64 \<Rightarrow> nat \<Rightarrow> (bytes \<times> hash) list \<Rightarrow> 'w \<Rightarrow> (cn_error + unit) \<times> 'w" where
  "cn_insert_rows D revision i [] w = (Inr (), w)"
| "cn_insert_rows D revision i ((b, ident) # es) w =
     then_do (cn_shared D (Fx_insert Fx_transactions (cn_entry_row revision i b ident)) w) (\<lambda>_ w.
     cn_insert_rows D revision (Suc i) es w)"

definition insert_transactions :: "'w canonical_disk \<Rightarrow> committed_block \<Rightarrow> 'w \<Rightarrow> (cn_error + unit) \<times> 'w" where
  "insert_transactions D r w = cn_insert_rows D (tp_revision (cm_tip r)) 0 (cn_entries (cm_block r) (cm_outcome r)) w"

fun cn_probe :: "'w canonical_disk \<Rightarrow> (bytes \<times> hash) list \<Rightarrow> 'w \<Rightarrow> cn_error + unit" where
  "cn_probe D [] w = Inr ()"
| "cn_probe D ((b, ident) # es) w =
     try_res (ok_or cn_sql (cn_transaction_present D ident (fst (sender_nonce b)) (be_bytes (snd (sender_nonce b))) w)) (\<lambda>present.
     if present then Inl CStale else cn_probe D es w)"

definition cn_cas :: "'w canonical_disk \<Rightarrow> cn_statement \<Rightarrow> 'w \<Rightarrow> (cn_error + unit) \<times> 'w" where
  "cn_cas D st w = then_do (cn_exec D st w) (\<lambda>n w. (if n \<noteq> 1 then Inl CInvalid else Inr (), w))"

abbreviation tip_columns :: "tip \<Rightarrow> bytes \<times> bytes \<times> bytes" where
  "tip_columns tp \<equiv> (tp_hash tp, be_bytes (tp_slot tp), be_bytes (tp_revision tp))"

text \<open>Everything between \<open>BEGIN IMMEDIATE\<close> and \<open>COMMIT\<close>: the stored base is compared and uniqueness probed before the first write.\<close>

definition cn_commit_writes :: "hasher \<Rightarrow> 'w canonical_disk \<Rightarrow> fixture_manifest \<Rightarrow> prepared_native_block \<Rightarrow> 'w \<Rightarrow> (cn_error + unit) \<times> 'w" where
  "cn_commit_writes K D m p w =
     (let r = pn_record p; tp = cm_tip r; old = cnb_tip (pn_base p); st = cnb_state (pn_base p) in
      then_do (cn_verify_metadata K D m (Some (tp_revision old)) w, w) (\<lambda>_ w.
      then_do (try_res (read_tip D w) (\<lambda>t. if t \<noteq> old then Inl CStale else Inr ()), w) (\<lambda>_ w.
      then_do (try_res (map_err CStorage (read_state (cn_fixture D) w)) (\<lambda>s. if s \<noteq> st then Inl CStale else Inr ()), w) (\<lambda>_ w.
      then_do (try_res (ok_or cn_sql (cn_block_present D (tp_hash tp) (be_bytes (tp_slot tp)) w)) (\<lambda>present. if present then Inl CStale else Inr ()), w) (\<lambda>_ w.
      then_do (cn_probe D (cn_entries (cm_block r) (cm_outcome r)) w, w) (\<lambda>_ w.
      then_do (on_err CStorage (write_changed_accounts (cn_fixture D) (ts_accounts st) (ts_accounts (pn_candidate p)) w)) (\<lambda>_ w.
      then_do (on_err CStorage (fx_write_accounting (cn_fixture D) (pn_candidate p) w)) (\<lambda>_ w.
      then_do (insert_block D r w) (\<lambda>_ w.
      then_do (insert_body D r w) (\<lambda>_ w.
      then_do (insert_transactions D r w) (\<lambda>_ w.
      then_do (cn_cas D (Cn_update_revision (be_bytes (tp_revision tp)) (be_bytes (tp_revision old))) w) (\<lambda>_ w.
      cn_cas D (Cn_update_tip (tip_columns tp) (tip_columns old)) w))))))))))))"

section \<open>The owner's durable operations\<close>

datatype cn_outcome = Cn_committed tip body_outcome | Cn_aborted cn_error | Cn_recovery_required cn_error

record cn_report =
  cr_tip :: tip
  cr_attempted_present :: "bool option"

definition cn_poison :: "canonical_store \<Rightarrow> cn_outcome \<times> canonical_store" where
  "cn_poison ow = (Cn_recovery_required recovery_error, ow\<lparr>co_poisoned := True\<rparr>)"

definition cn_abort :: "'k crypto \<Rightarrow> 'w canonical_disk \<Rightarrow> canonical_store \<Rightarrow> cn_error \<Rightarrow> 'w \<Rightarrow> cn_outcome \<times> canonical_store \<times> 'w" where
  "cn_abort C D ow e w =
     (let (failed, w) = (if sq_autocommit D w then (False, w)
        else case sq_rollback D w of (None, w) \<Rightarrow> (True, w) | (Some _, w) \<Rightarrow> (False, w)) in
      if failed \<or> \<not> sq_autocommit D w then (let (out, ow) = cn_poison ow in (out, ow, w))
      else (case cn_load_snapshot C D (co_manifest ow) w of (r, w) \<Rightarrow>
        if r = Inr (co_snapshot ow) then (Cn_aborted e, ow\<lparr>co_attempted := None\<rparr>, w)
        else (let (out, ow) = cn_poison ow in (out, ow, w))))"

definition cn_stale :: "hasher \<Rightarrow> canonical_store \<Rightarrow> cn_base \<Rightarrow> bool" where
  "cn_stale K ow b \<longleftrightarrow> cnb_generation b \<noteq> co_generation ow \<or> cnb_context b \<noteq> mf_context (co_manifest ow) \<or>
     cnb_anchor b \<noteq> nb_hash K (mf_anchor (co_manifest ow)) \<or> cnb_tip b \<noteq> ns_tip (co_snapshot ow) \<or> cnb_state b \<noteq> ns_state (co_snapshot ow)"

definition commit_inner :: "'k crypto \<Rightarrow> 'w canonical_disk \<Rightarrow> canonical_store \<Rightarrow> staged_native_block \<Rightarrow> 'w \<Rightarrow> cn_outcome \<times> canonical_store \<times> 'w" where
  "commit_inner C D ow stage w =
     (let K = c_keccak C; p = sx_prepared stage; r = pn_record p in
      case cn_ready ow of Inl e \<Rightarrow> (Cn_aborted e, ow, w) | Inr _ \<Rightarrow>
      if cn_stale K ow (pn_base p) then (Cn_aborted CStale, ow, w) else
     (case check_append K ow (cm_block r) (Some (sx_grant stage)) of Inl e \<Rightarrow> (Cn_aborted e, ow, w) | Inr _ \<Rightarrow>
     (case insert_record r ((co_snapshot ow)\<lparr>ns_state := pn_candidate p\<rparr>) of Inl e \<Rightarrow> (Cn_aborted e, ow, w) | Inr prepared \<Rightarrow>
     (case sq_begin D True w of (None, w) \<Rightarrow> (Cn_aborted cn_sql, ow, w) | (Some _, w) \<Rightarrow>
      let ow = ow\<lparr>co_attempted := Some \<lparr>ca_base = cnb_tip (pn_base p), ca_record = r\<rparr>\<rparr> in
     (case cn_commit_writes K D (co_manifest ow) p w of
        (Inl e, w) \<Rightarrow>
          if e = CStale then
            (let (q, w) = sq_rollback D w in
             if q \<noteq> None \<and> sq_autocommit D w then (Cn_aborted CStale, ow\<lparr>co_attempted := None, co_poisoned := True\<rparr>, w)
             else (let (out, ow) = cn_poison ow in (out, ow, w)))
          else cn_abort C D ow e w
      | (Inr _, w) \<Rightarrow>
          (case sq_commit D w of
             (None, w) \<Rightarrow> (let (out, ow) = cn_poison ow in (out, ow, w))
           | (Some _, w) \<Rightarrow> (Cn_committed (cm_tip r) (cm_outcome r), ow\<lparr>co_snapshot := prepared, co_attempted := None\<rparr>, w)))))))"

definition cn_recover :: "'k crypto \<Rightarrow> 'w canonical_disk \<Rightarrow> canonical_store \<Rightarrow> u64 \<Rightarrow> 'w \<Rightarrow>
    (cn_error + cn_report) \<times> canonical_store \<times> u64 \<times> 'w" where
  "cn_recover C D ow counter w =
     (let m = co_manifest ow; ow = ow\<lparr>co_poisoned := True\<rparr>; (gen, counter) = fx_generation counter in
      case gen of Inl e \<Rightarrow> (Inl (CStorage e), ow, counter, w) | Inr gen \<Rightarrow>
      let ow = ow\<lparr>co_generation := gen, co_connected := False\<rparr> in
      (case then_do (on_err CStorage (fx_open (cn_fixture D) (dk_close D w))) (\<lambda>_ w. configure_cache D (co_cache_policy ow) w) of
         (Inl e, w) \<Rightarrow> (Inl e, ow, counter, w)
       | (Inr _, w) \<Rightarrow>
         let ow = ow\<lparr>co_connected := True\<rparr> in
         (case then_do (cn_load_snapshot C D m w) (\<lambda>s w.
               then_do (cn_reconcile (co_attempted ow) s, w) (\<lambda>present w.
               then_do (cn_barrier (c_keccak C) D m (ns_tip s) w) (\<lambda>_ w. (Inr (s, present), w)))) of
            (Inl e, w) \<Rightarrow> (Inl e, ow, counter, w)
          | (Inr (s, present), w) \<Rightarrow>
              (Inr \<lparr>cr_tip = ns_tip s, cr_attempted_present = present\<rparr>,
               ow\<lparr>co_snapshot := s, co_attempted := None, co_poisoned := False\<rparr>, counter, w))))"

definition cn_owner :: "fixture_manifest \<Rightarrow> cn_snapshot \<Rightarrow> cache_policy \<Rightarrow> u64 \<Rightarrow> (cn_error + canonical_store) \<times> u64" where
  "cn_owner m s policy counter =
     (let (gen, counter) = fx_generation counter in
      (try_res (map_err CStorage gen) (\<lambda>gen. Inr \<lparr>co_manifest = m, co_connected = True, co_snapshot = s, co_generation = gen,
         co_poisoned = False, co_attempted = None, co_cache_policy = policy\<rparr>), counter))"

section \<open>Creation and opening\<close>

definition anchor_record :: "hasher \<Rightarrow> fixture_manifest \<Rightarrow> committed_block" where
  "anchor_record K m = \<lparr>cm_tip = tip_at K (mf_anchor m) 0, cm_block = mf_anchor m, cm_outcome = default_outcome\<rparr>"

definition cn_metadata_row :: "hasher \<Rightarrow> fixture_manifest \<Rightarrow> u64 \<Rightarrow> bytes \<Rightarrow> int \<Rightarrow> cell list" where
  "cn_metadata_row K m revision bar initialized =
     (let cx = mf_context m; st = mf_initial m in
     [Integer 1, Blob (be_bytes cn_SCHEMA_VERSION), Text (str ''offline-native-blocks''), Blob (be_bytes (ac_chain_id cx)), Blob (ac_network_id cx),
      Blob (be_bytes (ac_native_rules_version cx)), Text (mf_provenance m), Blob (be_bytes (ts_gas_used_total st)),
      Blob (be_bytes (ts_fees_burned_total st)), Blob (be_bytes (of_nat (length (ts_accounts st)) :: u64)),
      Blob (be_bytes revision), Blob bar, Blob (nb_hash K (mf_anchor m)), Blob [2], Blob [0, 0, 0, 2], Integer initialized])"

definition cn_tip_row :: "tip \<Rightarrow> cell list" where
  "cn_tip_row tp = [Integer 1, Blob (tp_hash tp), Blob (be_bytes (tp_slot tp)), Blob (be_bytes (tp_revision tp))]"

definition cn_initialize :: "hasher \<Rightarrow> 'w canonical_disk \<Rightarrow> fixture_manifest \<Rightarrow> 'w \<Rightarrow> (cn_error + unit) \<times> 'w" where
  "cn_initialize K D m w =
     (let st = mf_initial m; a = anchor_record K m; F = cn_fixture D in
      then_do (on_err CStorage (fx_exec_all F (map (\<lambda>n. Fx_create (dk_ddl D n)) cn_TABLES) w)) (\<lambda>_ w.
      then_do (cn_shared D (Fx_insert Fx_metadata (cn_metadata_row K m 0 (be_bytes (0 :: u64)) 0)) w) (\<lambda>_ w.
      then_do (on_err CStorage (fx_exec_all F (concat (map (\<lambda>a. [Fx_insert Seed_accounts (fx_account_row a), Fx_insert Fx_accounts (fx_account_row a)])
         (ts_accounts st))) w)) (\<lambda>_ w.
      then_do (cn_shared D (Fx_insert Fx_accounting [Integer 1, Blob (be_bytes (ts_gas_used_total st)), Blob (be_bytes (ts_fees_burned_total st))]) w) (\<lambda>_ w.
      then_do (insert_block D a w) (\<lambda>_ w.
      then_do (insert_body D a w) (\<lambda>_ w.
      then_do (cn_exec D (Cn_insert_tip (cn_tip_row (cm_tip a))) w) (\<lambda>_ w.
      then_do (cn_exec D Cn_set_initialized w) (\<lambda>_ w. (Inr (), w))))))))))"

definition create_inner_with_cache :: "'k crypto \<Rightarrow> 'w canonical_disk \<Rightarrow> fixture_manifest \<Rightarrow> cache_policy \<Rightarrow> u64 \<Rightarrow> 'w \<Rightarrow>
    (cn_error + canonical_store) \<times> u64 \<times> 'w" where
  "create_inner_with_cache C D m policy counter w =
     (let K = c_keccak C; a = anchor_record K m in
     (case dk_create_new D w of
        (Already_exists, w) \<Rightarrow> (Inl (CStorage DAlreadyExists), counter, w)
      | (Not_created, w) \<Rightarrow> (Inl (CStorage DInvalid), counter, w)
      | (Created, w) \<Rightarrow>
     (case then_do (on_err CStorage (fx_open (cn_fixture D) w)) (\<lambda>_ w.
           then_do (on_err (\<lambda>_. CStorage DAborted) (configure_cache D policy w)) (\<lambda>_ w.
           (insert_record a (cn_empty (mf_initial m) (cm_tip a)), w))) of
        (Inl e, w) \<Rightarrow> (Inl e, counter, w)
      | (Inr s, w) \<Rightarrow>
     (case cn_owner m s policy counter of
        (Inl e, counter) \<Rightarrow> (Inl e, counter, w)
      | (Inr ow, counter) \<Rightarrow>
     (case sq_begin D True w of
        (None, w) \<Rightarrow> (Inl cn_sql, counter, w)
      | (Some _, w) \<Rightarrow>
     (case cn_initialize K D m w of
        (Inl e, w) \<Rightarrow>
          (case (if sq_autocommit D w then (Some (), w) else sq_rollback D w) of
             (None, w) \<Rightarrow> (Inl recovery_error, counter, w)
           | (Some _, w) \<Rightarrow>
               (case cn_load_snapshot C D m w of (r, w) \<Rightarrow>
                  (Inl (if r = Inl (CStorage DUninitialized) then CStorage DAborted else recovery_error), counter, w)))
      | (Inr _, w) \<Rightarrow>
     (case then_do (cn_call recovery_error (sq_commit D w)) (\<lambda>_ w. cn_call recovery_error (dk_sync_path D w)) of
        (Inl e, w) \<Rightarrow> (Inl e, counter, w)
      | (Inr _, w) \<Rightarrow> (Inr ow, counter, w))))))))"

definition load_with_cache :: "'k crypto \<Rightarrow> 'w canonical_disk \<Rightarrow> fixture_manifest \<Rightarrow> cache_policy \<Rightarrow> u64 \<Rightarrow> 'w \<Rightarrow>
    (cn_error + canonical_store) \<times> u64 \<times> 'w" where
  "load_with_cache C D m policy counter w =
     (case then_do (then_do (on_err CStorage (fx_open (cn_fixture D) w)) (\<lambda>_ w. configure_cache D policy w)) (\<lambda>_ w.
           then_do (cn_load_snapshot C D m w) (\<lambda>s w. then_do (cn_barrier (c_keccak C) D m (ns_tip s) w) (\<lambda>_ w. (Inr s, w)))) of
        (Inl e, w) \<Rightarrow> (Inl e, counter, w)
      | (Inr s, w) \<Rightarrow> let (ow, counter) = cn_owner m s policy counter in (ow, counter, w))"

definition create_anchored_fixture :: "'k crypto \<Rightarrow> 'w canonical_disk \<Rightarrow> fixture_manifest \<Rightarrow> u64 \<Rightarrow> 'w \<Rightarrow>
    (cn_error + canonical_store) \<times> u64 \<times> 'w" where
  "create_anchored_fixture C D m = create_inner_with_cache C D m ExistingDefault"

definition create_anchored_fixture_with_cache_policy :: "'k crypto \<Rightarrow> 'w canonical_disk \<Rightarrow> fixture_manifest \<Rightarrow> cache_policy \<Rightarrow> u64 \<Rightarrow> 'w \<Rightarrow>
    (cn_error + canonical_store) \<times> u64 \<times> 'w" where
  "create_anchored_fixture_with_cache_policy = create_inner_with_cache"

definition cn_reopen :: "'k crypto \<Rightarrow> 'w canonical_disk \<Rightarrow> fixture_manifest \<Rightarrow> u64 \<Rightarrow> 'w \<Rightarrow> (cn_error + canonical_store) \<times> u64 \<times> 'w" where
  "cn_reopen C D m = load_with_cache C D m ExistingDefault"

definition cn_recover_existing :: "'k crypto \<Rightarrow> 'w canonical_disk \<Rightarrow> fixture_manifest \<Rightarrow> u64 \<Rightarrow> 'w \<Rightarrow> (cn_error + canonical_store) \<times> u64 \<times> 'w" where
  "cn_recover_existing C D m = load_with_cache C D m ExistingDefault"

definition reopen_with_cache_policy :: "'k crypto \<Rightarrow> 'w canonical_disk \<Rightarrow> fixture_manifest \<Rightarrow> cache_policy \<Rightarrow> u64 \<Rightarrow> 'w \<Rightarrow>
    (cn_error + canonical_store) \<times> u64 \<times> 'w" where
  "reopen_with_cache_policy = load_with_cache"

definition recover_existing_with_cache_policy :: "'k crypto \<Rightarrow> 'w canonical_disk \<Rightarrow> fixture_manifest \<Rightarrow> cache_policy \<Rightarrow> u64 \<Rightarrow> 'w \<Rightarrow>
    (cn_error + canonical_store) \<times> u64 \<times> 'w" where
  "recover_existing_with_cache_policy = load_with_cache"

end
