(* ===== verification/Durable_Safety.thy ===== *)
theory Durable_Safety
  imports Durable_Fixture
begin

text \<open>
  What the file-backed ledger of \<open>Durable_Fixture\<close> guarantees over any engine that satisfies the interface
  \<open>fixture_engine\<close>: a file that loads at all loads to exactly the snapshot it stores, a commit is atomic under
  every failure, and every run of an owner, with recoveries and restarts, keeps memory and file in agreement
  with the replay of the committed bodies from the seed.
\<close>

section \<open>What the statements mean\<close>

type_synonym fxdb = "fx_table \<Rightarrow> cell list list"

fun fx_rows :: "fx_query \<Rightarrow> fxdb \<Rightarrow> cell list list" where
  "fx_rows (Fx_all t) db = db t"
| "fx_rows (Body_entries revision) db =
     map (\<lambda>r. [r ! 0, r ! 2, r ! 3, r ! 4, r ! 5]) (filter (\<lambda>r. r ! 1 = Blob revision) (db Fx_transactions))"

fun fx_key :: "fx_table \<Rightarrow> cell list \<Rightarrow> bytes list" where
  "fx_key Seed_accounts row = [cell_bytes (row ! 0)]"
| "fx_key Fx_accounts row = [cell_bytes (row ! 0)]"
| "fx_key Fx_bodies row = [cell_bytes (row ! 0)]"
| "fx_key Fx_transactions row = [cell_bytes (row ! 1), cell_bytes (row ! 2)]"
| "fx_key _ row = []"

fun fx_apply :: "fx_statement \<Rightarrow> fxdb \<Rightarrow> fxdb" where
  "fx_apply (Fx_create sql) db = db"
| "fx_apply (Fx_insert t row) db = db(t := put_row (fx_key t) row (db t))"
| "fx_apply (Fx_upsert_account row) db = db(Fx_accounts := put_row (fx_key Fx_accounts) row (db Fx_accounts))"
| "fx_apply (Fx_update_accounting gas burn) db = db(Fx_accounting := map (\<lambda>r. [r ! 0, Blob gas, Blob burn]) (db Fx_accounting))"
| "fx_apply (Fx_set_provenance p) db = db(Fx_metadata := map (\<lambda>r. r[6 := Text p]) (db Fx_metadata))"
| "fx_apply Fx_set_initialized db = db(Fx_metadata := map (\<lambda>r. r[13 := Integer 1]) (db Fx_metadata))"
| "fx_apply (Fx_update_revision v) db = db(Fx_metadata := map (\<lambda>r. r[10 := Blob v]) (db Fx_metadata))"
| "fx_apply (Fx_update_barrier v) db = db(Fx_metadata := map (\<lambda>r. r[11 := Blob v]) (db Fx_metadata))"

text \<open>The same promises as \<open>sqlite_engine\<close>, for this schema; a file that was newly created is empty.\<close>

locale fixture_engine =
  fixes D :: "'w fixture_disk" and content :: "'w \<Rightarrow> fxdb" and durable :: "'w \<Rightarrow> fxdb"
  assumes fx_select_row: "fx_select D q w = Some rows \<Longrightarrow> i < length rows \<Longrightarrow> rows ! i = Some row \<Longrightarrow>
      i < length (fx_rows q (content w)) \<and> fx_rows q (content w) ! i = row"
    and fx_select_all: "fx_select D q w = Some rows \<Longrightarrow> None \<notin> set rows \<Longrightarrow> length rows = length (fx_rows q (content w))"
    and fx_write_effect: "\<not> sq_autocommit D w \<Longrightarrow> fx_write D st w = (changed, w') \<Longrightarrow> durable w' = durable w \<and>
      (changed \<noteq> None \<longrightarrow> \<not> sq_autocommit D w' \<and> content w' = fx_apply st (content w))"
    and fx_begin_effect: "sq_autocommit D w \<Longrightarrow> sq_begin D b w = (r, w') \<Longrightarrow> durable w' = durable w \<and>
      (r = None \<longrightarrow> sq_autocommit D w') \<and> (r = Some () \<longrightarrow> \<not> sq_autocommit D w' \<and> content w' = durable w')"
    and fx_commit_effect: "\<not> sq_autocommit D w \<Longrightarrow> sq_commit D w = (r, w') \<Longrightarrow>
      (r = Some () \<longrightarrow> durable w' = content w \<and> sq_autocommit D w') \<and>
      (r = None \<longrightarrow> durable w' = durable w \<or> durable w' = content w)"
    and fx_rollback_effect: "sq_rollback D w = (r, w') \<Longrightarrow> durable w' = durable w \<and> (r = Some () \<longrightarrow> sq_autocommit D w')"
    and fx_close_effect: "durable (dk_close D w) = durable w"
    and fx_open_effect: "dk_open D w = (r, w') \<Longrightarrow> durable w' = durable w \<and> (r = Some () \<longrightarrow> sq_autocommit D w')"
    and fx_settings_effect: "dk_busy_timeout D w = (r, w') \<or> dk_set_pragmas D w = (r, w') \<or> dk_sync_path D w = (r, w') \<Longrightarrow>
      durable w' = durable w \<and> sq_autocommit D w' = sq_autocommit D w"
    and fx_created_empty: "dk_create_new D w = (Created, w') \<Longrightarrow> durable w' = (\<lambda>_. [])"

section \<open>Stored and replayed snapshots\<close>

definition unsigned_of :: "'k crypto \<Rightarrow> bytes \<Rightarrow> unsigned_tx" where
  "unsigned_of C bs = (case signed_from_bytes C bs of Inr t \<Rightarrow> st_unsigned t | Inl _ \<Rightarrow> undefined)"

definition body_entries :: "applied_body \<Rightarrow> (bytes \<times> hash) list" where
  "body_entries r = zip (ab_transactions r) (bo_transaction_ids (ab_outcome r))"

definition fx_entry_rows :: "'k crypto \<Rightarrow> u64 \<Rightarrow> nat \<Rightarrow> (bytes \<times> hash) list \<Rightarrow> cell list list" where
  "fx_entry_rows C revision i es = map (\<lambda>(i, bs, ident). fx_entry_row revision i bs ident (unsigned_of C bs)) (List.enumerate i es)"

fun fx_body_rows :: "auth_context \<Rightarrow> nat \<Rightarrow> applied_body list \<Rightarrow> cell list list" where
  "fx_body_rows cx n [] = []"
| "fx_body_rows cx n (r # rs) = fx_body_row cx (of_nat (Suc n)) r # fx_body_rows cx (Suc n) rs"

fun fx_transaction_rows :: "'k crypto \<Rightarrow> nat \<Rightarrow> applied_body list \<Rightarrow> cell list list" where
  "fx_transaction_rows C n [] = []"
| "fx_transaction_rows C n (r # rs) = fx_entry_rows C (of_nat (Suc n)) 0 (body_entries r) @ fx_transaction_rows C (Suc n) rs"

definition fx_accounting_row :: "transfer_state \<Rightarrow> cell list" where
  "fx_accounting_row st = [Integer 1, Blob (be_bytes (ts_gas_used_total st)), Blob (be_bytes (ts_fees_burned_total st))]"

definition fx_stored :: "'k crypto \<Rightarrow> auth_context \<Rightarrow> transfer_state \<Rightarrow> fx_snapshot \<Rightarrow> fxdb \<Rightarrow> bool" where
  "fx_stored C cx seed s db \<longleftrightarrow>
     (\<exists>bar. length bar = 8 \<and> db Fx_metadata = [fx_metadata_row cx seed (fs_provenance s) (fs_revision s) bar 1]) \<and>
     db Seed_accounts = map fx_account_row (ts_accounts seed) \<and>
     db Fx_accounts = map fx_account_row (ts_accounts (fs_state s)) \<and>
     db Fx_accounting = [fx_accounting_row (fs_state s)] \<and>
     db Fx_bodies = fx_body_rows cx 0 (fs_bodies s) \<and>
     db Fx_transactions = fx_transaction_rows C 0 (fs_bodies s)"

fun fx_index_bodies :: "nat \<Rightarrow> applied_body list \<Rightarrow> (hash \<times> u64 \<times> u64) list \<Rightarrow> (hash \<times> u64 \<times> u64) list option" where
  "fx_index_bodies n [] index = Some index"
| "fx_index_bodies n (r # rs) index =
     Option.bind (fx_index_body (of_nat (Suc n)) 0 (bo_transaction_ids (ab_outcome r)) index) (fx_index_bodies (Suc n) rs)"

definition fx_replayed :: "'k crypto \<Rightarrow> auth_context \<Rightarrow> transfer_state \<Rightarrow> fx_snapshot \<Rightarrow> bool" where
  "fx_replayed C cx seed s \<longleftrightarrow> replay C seed (fs_bodies s) = Some (fs_state s) \<and>
     fs_revision s = of_nat (length (fs_bodies s)) \<and> length (fs_bodies s) < 2 ^ 64 \<and>
     (\<forall>r \<in> set (fs_bodies s). ab_context r = cx) \<and>
     fx_index_bodies 0 (fs_bodies s) [] = Some (fs_transaction_index s) \<and> fs_canonical_tip s = None"

section \<open>Reading back\<close>

lemma fx_blob_Inr_iff [simp]: "fx_blob n c = Inr b \<longleftrightarrow> c = Blob b \<and> length b = n"
  by (auto simp: fx_blob_def split: cell.splits)

lemma fx_text_Inr_iff [simp]: "fx_text c = Inr t \<longleftrightarrow> c = Text t \<and> utf8_valid t"
  by (auto simp: fx_text_def split: cell.splits)

lemma fx_collect_Inr:
  assumes "fx_collect_accounts rows m = Inr m'"
  shows "\<exists>as. rows = map (Some \<circ> fx_account_row) as \<and> m' = foldl (\<lambda>m (a, x). bm_insert a x m) m as"
  using assms
proof (induction rows m rule: fx_collect_accounts.induct)
  case (3 row rs m)
  then obtain a x where r: "fx_account_of row = Inr (a, x)" and "fx_collect_accounts rs (bm_insert a x m) = Inr m'"
    by (auto simp: try_res_Inr_iff)
  with 3 obtain as where "rs = map (Some \<circ> fx_account_row) as" "m' = foldl (\<lambda>m (a, x). bm_insert a x m) (bm_insert a x m) as"
    by force
  moreover from r have "row = fx_account_row (a, x)"
    by (auto simp: fx_account_of_def fx_account_row_def try_res_Inr_iff be_bytes_be_word split: list.splits)
  ultimately show ?case by (intro exI [of _ "(a, x) # as"]) simp
qed auto

lemma fx_account_row_inj: "fx_account_row a = fx_account_row b \<longleftrightarrow> a = b"
  by (cases a, cases b) (auto simp: fx_account_row_def intro: transfer_account.equality)

lemma foldl_bm_sorted: "bm_wf (m @ as) \<Longrightarrow> foldl (\<lambda>m (a, x). bm_insert a x m) m as = m @ as"
proof (induction as arbitrary: m)
  case (Cons p as)
  have "\<forall>x \<in> fst ` set m. x < fst p" using Cons.prems by (auto simp: bm_wf_def sorted_wrt_append)
  then have "bm_insert (fst p) (snd p) m = m @ [p]" by (simp add: bm_insert_last)
  with Cons show ?case by (cases p) simp
qed simp

text \<open>What a row cursor that was read without an error says of the content.\<close>

context fixture_engine
begin

lemma cursor_content: "fx_select D q w = Some (map Some rows) \<Longrightarrow> rows = fx_rows q (content w)"
  using fx_select_all [of q w "map Some rows"] fx_select_row [of q w "map Some rows"]
  by (intro nth_equalityI) auto

lemma first_row_content:
  assumes "first_row (fx_select D q w) = Inr row"
  shows "row = (case fx_rows q (content w) of [] \<Rightarrow> None | r # _ \<Rightarrow> Some r)"
proof -
  from assms consider "fx_select D q w = Some []" "row = None"
    | r rows where "fx_select D q w = Some (Some r # rows)" "row = Some r"
    by (auto simp: first_row_def split: option.splits list.splits)
  then show ?thesis
  proof cases
    case 1
    then have "fx_rows q (content w) = []" using fx_select_all [OF 1(1)] by simp
    with 1 show ?thesis by simp
  next
    case (2 r rows)
    then have "0 < length (fx_rows q (content w)) \<and> fx_rows q (content w) ! 0 = r" using fx_select_row [OF 2(1), of 0 r] by simp
    with 2 show ?thesis by (cases "fx_rows q (content w)") simp_all
  qed
qed

lemma one_row_content: "one_row (fx_select D q w) = Inr row \<Longrightarrow> \<exists>rows. fx_rows q (content w) = row # rows"
  by (auto simp: one_row_def try_res_Inr_iff dest!: first_row_content split: list.splits)

lemma read_accounts_content:
  assumes "read_accounts D t w = Inr m" "content w t = map fx_account_row as" "bm_wf as"
  shows "m = as"
proof -
  from assms(1) obtain bs where "fx_select D (Fx_all t) w = Some (map (Some \<circ> fx_account_row) bs)"
    and m: "m = foldl (\<lambda>m (a, x). bm_insert a x m) [] bs"
    by (auto simp: read_accounts_def try_res_Inr_iff dest!: fx_collect_Inr)
  then have "map fx_account_row bs = content w t" using cursor_content [of "Fx_all t" w "map fx_account_row bs"] by simp
  with assms(2) have "bs = as" by (simp add: inj_on_def inj_map_eq_map fx_account_row_inj inj_def)
  with m foldl_bm_sorted [of "[]" as] assms(3) show ?thesis by simp
qed

lemma read_state_content:
  assumes "read_state D w = Inr st'" "content w Fx_accounts = map fx_account_row (ts_accounts st)"
    "content w Fx_accounting = [fx_accounting_row st]" "bm_wf (ts_accounts st)"
  shows "st' = st"
proof -
  from assms(1) obtain row gas burn as where r: "one_row (fx_select D (Fx_all Fx_accounting) w) = Inr row"
    and t: "fx_totals row = Inr (gas, burn)" and a: "read_accounts D Fx_accounts w = Inr as"
    and st': "st' = \<lparr>ts_accounts = as, ts_gas_used_total = gas, ts_fees_burned_total = burn\<rparr>"
    by (auto simp: read_state_def try_res_Inr_iff)
  from one_row_content [OF r] assms(3) have "row = fx_accounting_row st" by simp
  with t have "gas = ts_gas_used_total st" "burn = ts_fees_burned_total st"
    by (auto simp: fx_totals_def fx_accounting_row_def try_res_Inr_iff)
  with st' read_accounts_content [OF a assms(2,4)] show ?thesis by simp
qed

end

section \<open>The audit returns what is stored\<close>

lemma staged_entries:
  assumes "stage_body C s cx slot body = Inr sb"
  shows "length (bo_transaction_ids (ab_outcome (sb_record sb))) = length (ab_transactions (sb_record sb))"
    and "1000 * length (ab_transactions (sb_record sb)) < 2 ^ 64"
    and "ab_context (sb_record sb) = cx" "ab_slot (sb_record sb) = slot" "ab_transactions (sb_record sb) = body"
proof -
  from assms obtain ps out where l: "list_all2 (\<lambda>b p. authenticate C b cx None = Inr p) body ps"
    and e: "execute_proofs 0 s default_outcome slot ps = Inr (sb_candidate sb, out)"
    and r: "sb_record sb = \<lparr>ab_context = cx, ab_slot = slot, ab_transactions = body, ab_outcome = out\<rparr>"
    by (rule stage_body_elim)
  from execute_proofs_refines [OF e] have x: "bo_transaction_ids out = map at_transaction_id ps" "unat (bo_gas_used out) = 1000 * length ps"
    by (simp_all add: default_outcome_def)
  have "1000 * length body < 2 ^ 64" using x(2) unat_bound [of "bo_gas_used out"] list_all2_lengthD [OF l] by simp
  with x r list_all2_lengthD [OF l] show "length (bo_transaction_ids (ab_outcome (sb_record sb))) = length (ab_transactions (sb_record sb))"
    "1000 * length (ab_transactions (sb_record sb)) < 2 ^ 64" "ab_context (sb_record sb) = cx" "ab_slot (sb_record sb) = slot"
    "ab_transactions (sb_record sb) = body"
    by simp_all
qed

lemma replay_entries:
  assumes "replay C s rs = Some s'" "r \<in> set rs"
  shows "length (bo_transaction_ids (ab_outcome r)) = length (ab_transactions r)" "1000 * length (ab_transactions r) < 2 ^ 64"
  using assms
  by (induction rs arbitrary: s) (auto elim!: replay_step dest: staged_entries(1,2) simp del: replay.simps(2))

lemma body_entries_parts:
  assumes "length (bo_transaction_ids (ab_outcome r)) = length (ab_transactions r)"
  shows "map fst (body_entries r) = ab_transactions r" "map snd (body_entries r) = bo_transaction_ids (ab_outcome r)"
  using assms by (simp_all add: body_entries_def)

abbreviation entry_columns :: "cell list \<Rightarrow> cell list" where
  "entry_columns r \<equiv> [r ! 0, r ! 2, r ! 3, r ! 4, r ! 5]"

lemma no_pair_iff [simp]: "(\<forall>a b. m \<noteq> Some (a, b)) \<longleftrightarrow> m = None"
  by (cases m) auto

lemma fx_read_entries_rows: "fx_read_entries C revision rows bs ids index = Inr x \<Longrightarrow> \<exists>rs. rows = map Some rs"
proof (induction C revision rows bs ids index rule: fx_read_entries.induct)
  case (3 C revision row rs bs ids index)
  from "3.prems" obtain ident position sender nonce wire tx actual where
    "fx_entry row = Inr (ident, position, sender, nonce, wire)"
    "signed_from_bytes C wire = Inr tx" "transaction_id C tx = Inr actual"
    "fx_read_entries C revision rs (bs @ [wire]) (ids @ [ident]) (bm_insert ident (revision, position) index) = Inr x"
    "position = of_nat (length bs)" "sender = ut_sender (st_unsigned tx)" "nonce = ut_nonce (st_unsigned tx)"
    "actual = ident" "map_of index ident = None"
    by (auto simp: try_res_Inr_iff split: if_splits)
  with "3.IH" obtain rs' where "rs = map Some rs'" by fastforce
  then show ?case by (intro exI [of _ "row # rs'"]) simp
qed auto

lemma fx_read_entries_unique:
  assumes "fx_read_entries C revision (map Some (map entry_columns (fx_entry_rows C revision (length bs) es))) bs ids index = Inr (bs', ids', index')"
  shows "bs' = bs @ map fst es \<and> ids' = ids @ map snd es \<and> fx_index_body revision (length bs) (map snd es) index = Some index'"
  using assms
proof (induction es arbitrary: bs ids index)
  case (Cons e es)
  obtain b ident where e: "e = (b, ident)" by force
  from Cons.prems have n: "map_of index ident = None" and
    "fx_read_entries C revision (map Some (map entry_columns (fx_entry_rows C revision (length (bs @ [b])) es))) (bs @ [b]) (ids @ [ident])
       (bm_insert ident (revision, of_nat (length bs)) index) = Inr (bs', ids', index')"
    by (auto simp: fx_entry_rows_def e fx_entry_def fx_entry_row_def try_res_Inr_iff split: if_splits)
  from Cons.IH [OF this(2)] n show ?case by (simp add: e)
qed (simp add: fx_entry_rows_def)

lemma fx_entry_rows_revision: "r \<in> set (fx_entry_rows C revision i es) \<Longrightarrow> r ! 1 = Blob (be_bytes revision)"
  by (auto simp: fx_entry_rows_def fx_entry_row_def)

lemma of_nat_Suc_u64: "i < 2 ^ 64 - 1 \<Longrightarrow> j < 2 ^ 64 - 1 \<Longrightarrow> of_nat (Suc i) = (of_nat (Suc j) :: u64) \<longleftrightarrow> i = j"
proof -
  assume "i < 2 ^ 64 - 1" "j < 2 ^ 64 - 1"
  then have "unat (of_nat (Suc i) :: u64) = Suc i" "unat (of_nat (Suc j) :: u64) = Suc j"
    by (auto intro!: unat_of_nat_small simp del: of_nat_Suc)
  then show ?thesis by (metis Suc_inject)
qed

lemma filter_transaction_rows:
  assumes "n + length rs < 2 ^ 64" "k < 2 ^ 64 - 1"
  shows "filter (\<lambda>r. r ! 1 = Blob (be_bytes (of_nat (Suc k) :: u64))) (fx_transaction_rows C n rs) =
    (if n \<le> k \<and> k < n + length rs then fx_entry_rows C (of_nat (Suc k)) 0 (body_entries (rs ! (k - n))) else [])"
  using assms
proof (induction rs arbitrary: n)
  case (Cons r rs)
  have f: "filter (\<lambda>r. r ! 1 = Blob (be_bytes (of_nat (Suc k) :: u64))) (fx_entry_rows C (of_nat (Suc n)) 0 (body_entries r)) =
      (if n = k then fx_entry_rows C (of_nat (Suc n)) 0 (body_entries r) else [])"
  proof -
    have "of_nat (Suc n) = (of_nat (Suc k) :: u64) \<longleftrightarrow> n = k" by (rule of_nat_Suc_u64) (use Cons.prems in simp_all)
    then show ?thesis by (auto simp: filter_empty_conv filter_id_conv dest: fx_entry_rows_revision simp del: of_nat_Suc)
  qed
  have "Suc n + length rs < 2 ^ 64" using Cons.prems(1) by simp
  note ih = Cons.IH [OF this Cons.prems(2)]
  show ?case using f ih by (auto simp: nth_Cons' Suc_eq_plus1 [symmetric] simp del: of_nat_Suc One_nat_def)
qed auto

context fixture_engine
begin

lemma audit_body_content:
  assumes run: "fx_audit_body C D cx w (fx_body_row cx (of_nat (Suc n)) r) (rs, index, st) = Inr (rs', index', st')"
    and n: "length rs = n" "n + length qs < 2 ^ 64 - 1"
    and c: "content w Fx_transactions = fx_transaction_rows C 0 (rs @ r # qs)"
    and st: "stage_body C st cx (ab_slot r) (ab_transactions r) = Inr sb" "sb_record sb = r"
  shows "rs' = rs @ [r] \<and> st' = sb_candidate sb \<and> fx_index_body (of_nat (Suc n)) 0 (bo_transaction_ids (ab_outcome r)) index = Some index'"
proof -
  note ent = staged_entries(1) [OF st(1), unfolded st(2)]
  note parts = body_entries_parts [OF ent]
  from run obtain revision slot encoding rules entries gas burn cursor bs ids staged where
    b: "fx_body (fx_body_row cx (of_nat (Suc n)) r) = Inr (revision, slot, encoding, rules, entries, gas, burn)"
    and q: "fx_select D (Body_entries (be_bytes revision)) w = Some cursor"
    and e: "fx_read_entries C revision cursor [] [] index = Inr (bs, ids, index')"
    and s: "stage_body C st cx slot bs = Inr staged" and o: "rs' = rs @ [sb_record staged]" "st' = sb_candidate staged"
    by (auto simp: fx_audit_body_def try_res_Inr_iff split: if_splits)
  from b have v: "revision = of_nat (Suc n)" "slot = ab_slot r"
    by (auto simp: fx_body_def fx_body_row_def try_res_Inr_iff simp del: of_nat_Suc)
  from fx_read_entries_rows [OF e] obtain rows where rows: "cursor = map Some rows" by blast
  have "filter (\<lambda>r. r ! 1 = Blob (be_bytes revision)) (content w Fx_transactions) = fx_entry_rows C revision 0 (body_entries r)"
    unfolding c v(1) by (subst filter_transaction_rows) (use n in \<open>simp_all add: nth_append del: of_nat_Suc\<close>)
  with cursor_content [OF q [unfolded rows]] have "rows = map entry_columns (fx_entry_rows C revision 0 (body_entries r))" by simp
  with e rows have "fx_read_entries C revision (map Some (map entry_columns (fx_entry_rows C revision (length ([] :: bytes list)) (body_entries r)))) [] [] index =
      Inr (bs, ids, index')" by simp
  from fx_read_entries_unique [OF this] parts have "bs = ab_transactions r" "fx_index_body revision 0 (bo_transaction_ids (ab_outcome r)) index = Some index'"
    by simp_all
  with s v o st show ?thesis by (auto simp del: of_nat_Suc)
qed

lemma audit_bodies_content:
  assumes "fx_audit_bodies C D cx w (map Some (fx_body_rows cx n rs)) (done, index, st) = Inr (bodies, index', st')"
    and "length done = n" "n + length rs < 2 ^ 64"
    and "content w Fx_transactions = fx_transaction_rows C 0 (done @ rs)"
    and "replay C st rs = Some end_st" "\<forall>r \<in> set rs. ab_context r = cx"
  shows "bodies = done @ rs \<and> st' = end_st \<and> fx_index_bodies n rs index = Some index'"
  using assms
proof (induction rs arbitrary: n "done" index st)
  case (Cons r rs)
  from Cons.prems(5) obtain sb where sb: "stage_body C st (ab_context r) (ab_slot r) (ab_transactions r) = Inr sb"
    "sb_record sb = r" "replay C (sb_candidate sb) rs = Some end_st" by (rule replay_step)
  have cx: "ab_context r = cx" using Cons.prems(6) by simp
  from Cons.prems(1) obtain d1 i1 s1 where a: "fx_audit_body C D cx w (fx_body_row cx (of_nat (Suc n)) r) (done, index, st) = Inr (d1, i1, s1)"
    and m: "fx_audit_bodies C D cx w (map Some (fx_body_rows cx (Suc n) rs)) (d1, i1, s1) = Inr (bodies, index', st')"
    by (auto simp: try_res_Inr_iff simp del: of_nat_Suc)
  have n: "n + length rs < 2 ^ 64 - 1" using Cons.prems(3) by simp
  have x: "d1 = done @ [r]" "s1 = sb_candidate sb"
    "fx_index_body (of_nat (Suc n)) 0 (bo_transaction_ids (ab_outcome r)) index = Some i1"
    using audit_body_content [OF a Cons.prems(2) n Cons.prems(4) sb(1) [unfolded cx] sb(2)] by simp_all
  from Cons.IH [OF m] Cons.prems sb(3) x have "bodies = d1 @ rs \<and> st' = end_st \<and> fx_index_bodies (Suc n) rs i1 = Some index'" by simp
  with x show ?case by (simp del: of_nat_Suc)
qed simp

lemma metadata_content:
  assumes "verify_metadata D cx want w = Inr v" "content w Fx_metadata = [fx_metadata_row cx seed p revision bar initialized]"
  shows "v = revision"
proof -
  from assms(1) obtain row where r: "first_row (fx_select D (Fx_all Fx_metadata) w) = Inr row"
    and m: "(case row of None \<Rightarrow> Inl DUninitialized | Some row \<Rightarrow> fx_metadata_ok cx want row) = Inr v"
    by (auto simp: verify_metadata_def try_res_Inr_iff)
  from first_row_content [OF r] assms(2) have "row = Some (fx_metadata_row cx seed p revision bar initialized)" by simp
  with m have "fx_metadata_ok cx want (fx_metadata_row cx seed p revision bar initialized) = Inr v" by simp
  then show ?thesis by (auto simp: fx_metadata_ok_def fx_metadata_row_def try_res_Inr_iff split: if_splits)
qed

lemma audit_rows: "fx_audit_bodies C D cx w rows x = Inr y \<Longrightarrow> \<exists>rs. rows = map Some rs"
proof (induction C D cx w rows x rule: fx_audit_bodies.induct)
  case (3 C D cx w row rs x)
  then obtain rs' where "rs = map Some rs'" by (fastforce simp: try_res_Inr_iff)
  then show ?case by (intro exI [of _ "row # rs'"]) simp
qed auto

lemma load_unique:
  assumes load: "load_snapshot_transaction C D cx w = Inr s'" and st: "fx_stored C cx seed s (content w)"
    and rep: "fx_replayed C cx seed s" and wf: "bm_wf (ts_accounts seed)"
  shows "s' = s"
proof -
  from load obtain revision row gas burn p cnt seeds state rows bodies index audit where
    v: "verify_metadata D cx None w = Inr revision" and r: "one_row (fx_select D (Fx_all Fx_metadata) w) = Inr row"
    and sd: "fx_seed row = Inr (gas, burn, p, cnt)" and ra: "read_accounts D Seed_accounts w = Inr seeds"
    and rs: "read_state D w = Inr state" and q: "fx_select D (Fx_all Fx_bodies) w = Some rows"
    and a: "fx_audit_bodies C D cx w rows ([], [], \<lparr>ts_accounts = seeds, ts_gas_used_total = gas, ts_fees_burned_total = burn\<rparr>) =
       Inr (bodies, index, audit)"
    and s': "s' = \<lparr>fs_state = state, fs_revision = revision, fs_bodies = bodies, fs_transaction_index = index,
               fs_canonical_tip = None, fs_provenance = p\<rparr>"
    by (auto simp: load_snapshot_transaction_def try_res_Inr_iff split: if_splits)
  from st obtain bar where meta: "content w Fx_metadata = [fx_metadata_row cx seed (fs_provenance s) (fs_revision s) bar 1]"
    by (auto simp: fx_stored_def)
  have wf': "bm_wf (ts_accounts (fs_state s))" using rep replay_conserves [OF _ wf] by (auto simp: fx_replayed_def)
  have "row = fx_metadata_row cx seed (fs_provenance s) (fs_revision s) bar 1" using one_row_content [OF r] meta by simp
  with sd have g: "gas = ts_gas_used_total seed" "burn = ts_fees_burned_total seed" "p = fs_provenance s"
    by (auto simp: fx_seed_def fx_metadata_row_def try_res_Inr_iff)
  have seeds: "seeds = ts_accounts seed" using read_accounts_content [OF ra _ wf] st by (simp add: fx_stored_def)
  have state: "state = fs_state s" using read_state_content [OF rs _ _ wf'] st by (simp add: fx_stored_def)
  from audit_rows [OF a] obtain rows' where rows': "rows = map Some rows'" by blast
  with cursor_content [OF q [unfolded rows']] st have "rows' = fx_body_rows cx 0 (fs_bodies s)" by (simp add: fx_stored_def)
  with a rows' g seeds have "fx_audit_bodies C D cx w (map Some (fx_body_rows cx 0 (fs_bodies s))) ([], [], seed) = Inr (bodies, index, audit)"
    by (cases seed) simp
  from audit_bodies_content [OF this] st rep have "bodies = fs_bodies s" "index = fs_transaction_index s"
    by (auto simp: fx_stored_def fx_replayed_def)
  with s' g state metadata_content [OF v meta] rep show ?thesis by (simp add: fx_replayed_def)
qed

end

section \<open>The rows after a commit\<close>

lemma put_account_row:
  assumes "t = Fx_accounts \<or> t = Seed_accounts"
  shows "put_row (fx_key t) (fx_account_row p) (map fx_account_row m) = map fx_account_row (bm_insert (fst p) (snd p) m)"
  using assms by (induction m) (auto simp: fx_account_row_def split: prod.splits)

lemma put_account_rows:
  "foldl (\<lambda>rows p. put_row (fx_key Fx_accounts) (fx_account_row p) rows) (map fx_account_row m) ps =
     map fx_account_row (foldl (\<lambda>m p. bm_insert (fst p) (snd p) m) m ps)"
  by (induction ps arbitrary: m) (simp_all add: put_account_row del: fx_key.simps)

lemma foldl_bm_pairs:
  assumes "bm_wf m" "distinct (map fst ps)"
  shows "bm_wf (foldl (\<lambda>m p. bm_insert (fst p) (snd p) m) m ps) \<and>
     map_of (foldl (\<lambda>m p. bm_insert (fst p) (snd p) m) m ps) = map_of m ++ map_of ps"
  using assms
proof (induction ps arbitrary: m)
  case (Cons p ps)
  then have n: "map_of ps (fst p) = None" by (auto simp: map_of_eq_None_iff)
  have d: "distinct (map fst ps)" using Cons.prems(2) by simp
  have eq: "map_of (bm_insert (fst p) (snd p) m) ++ map_of ps = map_of m ++ map_of (p # ps)"
    unfolding map_of_bm_insert map_add_upd_fresh [of "map_of ps", OF n] by (cases p) simp
  show ?case unfolding foldl_Cons eq [symmetric] by (rule Cons.IH [OF bm_wf_insert [OF Cons.prems(1)] d])
qed simp

lemma map_of_filtered:
  "distinct (map fst ps) \<Longrightarrow> map_of (filter P ps) a = (case map_of ps a of None \<Rightarrow> None | Some x \<Rightarrow> if P (a, x) then Some x else None)"
proof (induction ps)
  case (Cons p ps)
  have "map_of ps (fst p) = None" using Cons.prems by (auto simp: map_of_eq_None_iff)
  with Cons show ?case by (cases p) (auto split: option.splits)
qed simp

abbreviation changed_accounts :: "(address \<times> transfer_account) list \<Rightarrow> (address \<times> transfer_account) list \<Rightarrow> (address \<times> transfer_account) list" where
  "changed_accounts base as \<equiv> filter (\<lambda>(a, x). map_of base a \<noteq> Some x) as"

lemma changed_accounts_applied:
  assumes "bm_wf base" "bm_wf as" "fst ` set base \<subseteq> fst ` set as"
  shows "foldl (\<lambda>m p. bm_insert (fst p) (snd p) m) base (changed_accounts base as) = as"
proof (rule bm_unique [OF _ assms(2)])
  have d: "distinct (map fst as)" using assms(2) by (rule bm_wf_distinct)
  then have d': "distinct (map fst (changed_accounts base as))" by (rule distinct_map_filter)
  note f = foldl_bm_pairs [OF assms(1) d']
  show "bm_wf (foldl (\<lambda>m p. bm_insert (fst p) (snd p) m) base (changed_accounts base as))" using f by simp
  have "(map_of base ++ map_of (changed_accounts base as)) a = map_of as a" for a
  proof (cases "map_of as a")
    case None
    then have "map_of base a = None" using assms(3) by (auto simp: map_of_eq_None_iff)
    with None map_of_filtered [OF d] show ?thesis by (simp add: map_add_def)
  next
    case (Some x)
    with map_of_filtered [OF d] show ?thesis by (simp add: map_add_def)
  qed
  with f show "map_of (foldl (\<lambda>m p. bm_insert (fst p) (snd p) m) base (changed_accounts base as)) = map_of as" by auto
qed

definition fx_committed_db :: "'k crypto \<Rightarrow> auth_context \<Rightarrow> overlay \<Rightarrow> u64 \<Rightarrow> fxdb \<Rightarrow> fxdb" where
  "fx_committed_db C cx ol revision db =
     (let db = db(Fx_accounts := foldl (\<lambda>rows p. put_row (fx_key Fx_accounts) (fx_account_row p) rows) (db Fx_accounts)
                 (changed_accounts (ts_accounts (ol_base ol)) (ts_accounts (ol_candidate ol))));
          db = fx_apply (Fx_update_accounting (be_bytes (ts_gas_used_total (ol_candidate ol))) (be_bytes (ts_fees_burned_total (ol_candidate ol)))) db;
          db = fx_apply (Fx_insert Fx_bodies (fx_body_row cx revision (ol_record ol))) db;
          db = db(Fx_transactions := foldl (\<lambda>rows r. put_row (fx_key Fx_transactions) r rows) (db Fx_transactions)
                 (fx_entry_rows C revision 0 (body_entries (ol_record ol))))
      in fx_apply (Fx_update_revision (be_bytes revision)) db)"

lemma fx_body_rows_append: "fx_body_rows cx n (rs @ qs) = fx_body_rows cx n rs @ fx_body_rows cx (n + length rs) qs"
  by (induction rs arbitrary: n) simp_all

lemma fx_transaction_rows_append:
  "fx_transaction_rows C n (rs @ qs) = fx_transaction_rows C n rs @ fx_transaction_rows C (n + length rs) qs"
  by (induction rs arbitrary: n) simp_all

lemma fx_index_bodies_append:
  "fx_index_bodies n (rs @ qs) index = Option.bind (fx_index_bodies n rs index) (fx_index_bodies (n + length rs) qs)"
  by (induction rs arbitrary: n index) (auto split: Option.bind_splits)

lemma be_bytes_nat_less: "i < j \<Longrightarrow> j < 2 ^ 64 \<Longrightarrow> be_bytes (of_nat i :: u64) < be_bytes (of_nat j :: u64)"
  by (rule be_bytes_less) (simp add: word_less_nat_alt unat_of_nat_small)

lemma fx_body_rows_keys:
  assumes "r \<in> set (fx_body_rows cx n rs)" "n + length rs < m" "m < 2 ^ 64"
  shows "fx_key Fx_bodies r < [be_bytes (of_nat m :: u64)]"
  using assms
proof (induction rs arbitrary: n)
  case (Cons b rs)
  have "be_bytes (of_nat (Suc n) :: u64) < be_bytes (of_nat m :: u64)" using Cons.prems by (intro be_bytes_nat_less) simp_all
  with Cons show ?case by (auto simp: fx_body_row_def simp del: of_nat_Suc)
qed simp

lemma fx_entry_rows_Cons [simp]:
  "fx_entry_rows C revision i ((bs, ident) # es) = fx_entry_row revision i bs ident (unsigned_of C bs) # fx_entry_rows C revision (Suc i) es"
  by (simp add: fx_entry_rows_def)

lemma fx_entry_rows_key:
  assumes "r \<in> set (fx_entry_rows C revision i es)"
  obtains j where "i \<le> j" "j < i + length es" "fx_key Fx_transactions r = [be_bytes revision, be_bytes (of_nat j :: u64)]"
  using assms by (auto simp: fx_entry_rows_def fx_entry_row_def in_set_enumerate_eq)

lemma fx_transaction_rows_keys:
  assumes "r \<in> set (fx_transaction_rows C n rs)" "n + length rs < m" "m < 2 ^ 64"
  shows "fx_key Fx_transactions r < [be_bytes (of_nat m :: u64), p]"
  using assms
proof (induction rs arbitrary: n)
  case (Cons b rs)
  have "be_bytes (of_nat (Suc n) :: u64) < be_bytes (of_nat m :: u64)" using Cons.prems by (intro be_bytes_nat_less) simp_all
  with Cons show ?case by (auto elim!: fx_entry_rows_key simp del: of_nat_Suc fx_key.simps)
qed simp

lemma fx_entry_rows_sorted:
  "i + length es < 2 ^ 64 \<Longrightarrow> sorted_wrt (<) (map (fx_key Fx_transactions) (fx_entry_rows C revision i es))"
proof (induction es arbitrary: i)
  case (Cons e es)
  obtain bs ident where e: "e = (bs, ident)" by force
  have "be_bytes (of_nat i :: u64) < be_bytes (of_nat j :: u64)" if "Suc i \<le> j" "j < Suc i + length es" for j
    using that Cons.prems by (intro be_bytes_nat_less) simp_all
  moreover have "fx_key Fx_transactions (fx_entry_row revision i bs ident (unsigned_of C bs)) = [be_bytes revision, be_bytes (of_nat i :: u64)]"
    by (simp add: fx_entry_row_def)
  ultimately show ?case using Cons by (auto simp: e elim!: fx_entry_rows_key simp del: fx_key.simps)
qed (simp add: fx_entry_rows_def)

text \<open>A body staged on the state of a stored snapshot leaves the rows of the next one.\<close>

lemma fx_stored_next:
  assumes st: "fx_stored C cx seed s db" and rep: "fx_replayed C cx seed s" and wf: "bm_wf (ts_accounts seed)"
    and sb: "stage_body C (fs_state s) cx slot body = Inr sb"
    and ol: "ol_base ol = sb_base sb" "ol_candidate ol = sb_candidate sb" "ol_record ol = sb_record sb"
    and rev: "checked_add (fs_revision s) 1 = Some revision" and p: "fx_prepared ol revision s = Some s'"
  shows "fx_replayed C cx seed s'" and "fx_stored C cx seed s' (fx_committed_db C cx ol revision db)"
    and "fs_bodies s' = fs_bodies s @ [sb_record sb]" "fs_revision s' = revision" "revision = of_nat (Suc (length (fs_bodies s)))"
proof -
  let ?n = "length (fs_bodies s)"
  from rep have r: "replay C seed (fs_bodies s) = Some (fs_state s)" "fs_revision s = of_nat ?n" "?n < 2 ^ 64"
    "\<forall>r \<in> set (fs_bodies s). ab_context r = cx" "fx_index_bodies 0 (fs_bodies s) [] = Some (fs_transaction_index s)"
    by (simp_all add: fx_replayed_def)
  have base: "sb_base sb = fs_state s" using sb by (auto elim: stage_body_elim)
  have un: "unat (fs_revision s) = ?n" using r(2,3) by (simp add: unat_of_nat_small)
  have nb: "Suc ?n < 2 ^ 64" and rv: "revision = of_nat (Suc ?n)"
    using rev checked_add_Some [OF rev] unat_bound [of revision] un r(2)
    by (auto simp: checked_add_def split: if_splits)
  from p obtain index where ix: "fx_index_body revision 0 (bo_transaction_ids (ab_outcome (sb_record sb))) (fs_transaction_index s) = Some index"
    and s': "s' = \<lparr>fs_state = sb_candidate sb, fs_revision = revision, fs_bodies = fs_bodies s @ [sb_record sb],
         fs_transaction_index = index, fs_canonical_tip = None, fs_provenance = fs_provenance s\<rparr>"
    by (auto simp: fx_prepared_def ol)
  show "fs_bodies s' = fs_bodies s @ [sb_record sb]" "fs_revision s' = revision" "revision = of_nat (Suc ?n)" using s' rv by simp_all
  show "fx_replayed C cx seed s'"
    using r nb rv ix stage_body_replays [OF sb] staged_entries(3) [OF sb]
    by (auto simp: fx_replayed_def s' Native_Transfer.replay_append fx_index_bodies_append simp del: replay.simps(2) of_nat_Suc)
  have wf1: "bm_wf (ts_accounts (fs_state s))" using replay_conserves [OF r(1) wf] by simp
  note gr = stage_body_growth [OF sb wf1]
  have acc: "foldl (\<lambda>rows p. put_row (fx_key Fx_accounts) (fx_account_row p) rows) (map fx_account_row (ts_accounts (fs_state s)))
      (changed_accounts (ts_accounts (fs_state s)) (ts_accounts (sb_candidate sb))) = map fx_account_row (ts_accounts (sb_candidate sb))"
    unfolding put_account_rows using changed_accounts_applied [OF wf1, of "ts_accounts (sb_candidate sb)"] gr by simp
  have bod: "put_row (fx_key Fx_bodies) (fx_body_row cx revision (sb_record sb)) (fx_body_rows cx 0 (fs_bodies s)) =
      fx_body_rows cx 0 (fs_bodies s @ [sb_record sb])"
  proof (subst put_row_last)
    have "fx_key Fx_bodies (fx_body_row cx revision (sb_record sb)) = [be_bytes (of_nat (Suc ?n) :: u64)]" by (simp add: fx_body_row_def rv)
    then show "\<forall>x \<in> set (fx_body_rows cx 0 (fs_bodies s)). fx_key Fx_bodies x < fx_key Fx_bodies (fx_body_row cx revision (sb_record sb))"
      using fx_body_rows_keys [OF _ _ nb, of _ cx 0 "fs_bodies s"] by (simp del: fx_key.simps of_nat_Suc)
  qed (simp add: fx_body_rows_append rv)
  have tx: "foldl (\<lambda>rows r. put_row (fx_key Fx_transactions) r rows) (fx_transaction_rows C 0 (fs_bodies s))
      (fx_entry_rows C revision 0 (body_entries (sb_record sb))) = fx_transaction_rows C 0 (fs_bodies s @ [sb_record sb])"
  proof (subst put_rows_last)
    show "sorted_wrt (<) (map (fx_key Fx_transactions) (fx_entry_rows C revision 0 (body_entries (sb_record sb))))"
      by (rule fx_entry_rows_sorted) (use staged_entries(1,2) [OF sb] in \<open>simp add: body_entries_def\<close>)
    show "\<forall>x \<in> set (fx_transaction_rows C 0 (fs_bodies s)). \<forall>r \<in> set (fx_entry_rows C revision 0 (body_entries (sb_record sb))).
        fx_key Fx_transactions x < fx_key Fx_transactions r"
      using fx_transaction_rows_keys [OF _ _ nb, of _ C 0 "fs_bodies s"]
      by (auto elim!: fx_entry_rows_key simp: rv simp del: fx_key.simps of_nat_Suc)
  qed (simp add: fx_transaction_rows_append rv)
  from st show "fx_stored C cx seed s' (fx_committed_db C cx ol revision db)"
    by (auto simp: fx_stored_def fx_committed_db_def Let_def s' ol base acc bod tx fx_metadata_row_def fx_accounting_row_def)
qed

section \<open>Crash consistency of a commit\<close>

context fixture_engine
begin

abbreviation ftx :: "('e + 'a) \<times> 'w \<Rightarrow> 'w \<Rightarrow> ('a \<Rightarrow> fxdb \<Rightarrow> fxdb \<Rightarrow> bool) \<Rightarrow> bool" where
  "ftx \<equiv> does (sq_autocommit D) durable content"

lemma ftx_exec: "\<not> sq_autocommit D w \<Longrightarrow> ftx (fx_exec D st w) w (\<lambda>_ db db'. db' = fx_apply st db)"
  using fx_write_effect [of w st "fst (fx_write D st w)" "snd (fx_write D st w)"]
  by (auto simp: does_def fx_exec_def fx_call_def)

lemma ftx_pure: "\<not> sq_autocommit D w \<Longrightarrow> ftx (r, w) w (\<lambda>x db db'. r = Inr x \<and> db' = db)"
  by (rule does_pure)

lemma ftx_read: "\<not> sq_autocommit D w \<Longrightarrow> ftx (r, w) w (\<lambda>x db db'. db' = db)"
  by (rule does_mono [OF ftx_pure]) auto

lemma ftx_changed:
  "\<not> sq_autocommit D w \<Longrightarrow> ftx (write_changed_accounts D base as w) w
     (\<lambda>_ db db'. db' = db(Fx_accounts := foldl (\<lambda>rows p. put_row (fx_key Fx_accounts) (fx_account_row p) rows) (db Fx_accounts) (changed_accounts base as)))"
proof (induction as arbitrary: w)
  case (Cons p as)
  obtain a x where p: "p = (a, x)" by force
  show ?case
  proof (cases "map_of base a = Some x")
    case True
    with Cons show ?thesis by (simp add: p)
  next
    case False
    then have u: "write_changed_accounts D base (p # as) w =
        then_do (fx_exec D (Fx_upsert_account (fx_account_row (a, x))) w) (\<lambda>_ w. write_changed_accounts D base as w)"
      by (simp add: p)
    show ?thesis unfolding u by (rule does_mono [OF does_then [OF ftx_exec [OF Cons.prems] Cons.IH]]) (use False in \<open>auto simp: p simp del: fx_key.simps\<close>)
  qed
qed (simp add: does_def)

lemma ftx_accounting:
  "\<not> sq_autocommit D w \<Longrightarrow> ftx (fx_write_accounting D st w) w
     (\<lambda>_ db db'. db' = fx_apply (Fx_update_accounting (be_bytes (ts_gas_used_total st)) (be_bytes (ts_fees_burned_total st))) db)"
  unfolding fx_write_accounting_def by (rule does_mono [OF does_then [OF ftx_exec ftx_pure]]) (auto split: if_splits)

lemma ftx_entries:
  "\<not> sq_autocommit D w \<Longrightarrow> ftx (write_entries C D revision i es w) w
     (\<lambda>_ db db'. db' = db(Fx_transactions := foldl (\<lambda>rows r. put_row (fx_key Fx_transactions) r rows) (db Fx_transactions) (fx_entry_rows C revision i es)))"
proof (induction es arbitrary: i w)
  case (Cons e es)
  obtain bs ident where e: "e = (bs, ident)" by force
  show ?case unfolding e write_entries.simps
    by (rule does_mono [OF does_then [OF ftx_pure [OF Cons.prems] does_then [OF ftx_exec Cons.IH]]])
      (auto simp: unsigned_of_def simp del: fx_key.simps)
qed (simp add: does_def fx_entry_rows_def)

lemma ftx_commit_writes:
  assumes w: "\<not> sq_autocommit D w"
  shows "ftx (fx_commit_writes C D cx ol revision w) w (\<lambda>_ db db'. db' = fx_committed_db C cx ol revision db)"
  unfolding fx_commit_writes_def fx_committed_db_def Let_def body_entries_def
  by (rule does_mono [OF does_then [OF ftx_read [OF w] does_then [OF ftx_read does_then [OF ftx_changed does_then [OF ftx_accounting
          does_then [OF ftx_exec does_then [OF ftx_entries does_then [OF ftx_exec ftx_pure]]]]]]]])
    (auto simp del: fx_apply.simps)

lemma load_snapshot_effect:
  assumes "sq_autocommit D w" "load_snapshot C D cx w = (r, w')"
  shows "durable w' = durable w" and "r = Inr s \<Longrightarrow> sq_autocommit D w' \<and> (\<exists>w1. content w1 = durable w \<and> load_snapshot_transaction C D cx w1 = Inr s)"
proof -
  obtain b w1 where b: "sq_begin D False w = (b, w1)" by force
  obtain e w2 where e: "sq_rollback D w1 = (e, w2)" by force
  note be = fx_begin_effect [OF assms(1) b] and re = fx_rollback_effect [OF e]
  show "durable w' = durable w" using assms(2) b e be re
    by (cases b) (auto simp: load_snapshot_def then_do_def fx_call_def Let_def)
  show "sq_autocommit D w' \<and> (\<exists>w1. content w1 = durable w \<and> load_snapshot_transaction C D cx w1 = Inr s)" if "r = Inr s"
    using assms(2) b e be re that
    by (cases b) (auto simp: load_snapshot_def then_do_def fx_call_def Let_def try_res_Inr_iff)
qed

text \<open>An abort either restores a file whose audit is the owner's snapshot, or poisons.\<close>

lemma fx_abort_effect:
  assumes run: "fx_abort C D ow w = (out, ow', w')"
  shows "durable w' = durable w"
    and "out = Fx_aborted DAborted \<and> ow' = ow\<lparr>fo_attempted_revision := None\<rparr> \<and> sq_autocommit D w' \<or>
       out = Fx_recovery_required DRecoveryRequired \<and> ow' = ow\<lparr>fo_poisoned := True\<rparr>"
proof -
  obtain e w1 where e: "sq_rollback D w = (e, w1)" by force
  note re = fx_rollback_effect [OF e]
  let ?w = "if sq_autocommit D w then w else w1"
  have d: "durable ?w = durable w" using re by simp
  obtain r w2 where l: "load_snapshot C D (fo_context ow) ?w = (r, w2)" by force
  have x: "durable w2 = durable w" "r = Inr s \<Longrightarrow> sq_autocommit D w2" if "sq_autocommit D ?w" for s
    using load_snapshot_effect [OF that l] d by auto
  have c: "(out, ow', w') =
     (if \<not> sq_autocommit D ?w \<or> (\<not> sq_autocommit D w \<and> e = None) then (Fx_recovery_required DRecoveryRequired, ow\<lparr>fo_poisoned := True\<rparr>, ?w)
      else if r = Inr (fo_snapshot ow) then (Fx_aborted DAborted, ow\<lparr>fo_attempted_revision := None\<rparr>, w2)
      else (Fx_recovery_required DRecoveryRequired, ow\<lparr>fo_poisoned := True\<rparr>, w2))"
    unfolding run [symmetric] using e l by (cases e) (auto simp: fx_abort_def fx_poison_def Let_def split: if_splits)
  show "durable w' = durable w" "out = Fx_aborted DAborted \<and> ow' = ow\<lparr>fo_attempted_revision := None\<rparr> \<and> sq_autocommit D w' \<or>
       out = Fx_recovery_required DRecoveryRequired \<and> ow' = ow\<lparr>fo_poisoned := True\<rparr>"
    using c d x by (auto split: if_splits)
qed

lemma fx_commit_cases:
  assumes idle: "sq_autocommit D w" and att: "fo_attempted_revision ow = None" "\<not> fo_poisoned ow"
    and run: "fx_commit C D ow ol w = (out, ow', w')"
  shows "case out of
     Fx_committed outcome \<Rightarrow> (\<exists>revision s'. checked_add (fs_revision (fo_snapshot ow)) 1 = Some revision \<and>
        ol_revision ol = fs_revision (fo_snapshot ow) \<and> ol_base ol = fs_state (fo_snapshot ow) \<and>
        fx_prepared ol revision (fo_snapshot ow) = Some s' \<and> durable w' = fx_committed_db C (fo_context ow) ol revision (durable w) \<and>
        ow' = ow\<lparr>fo_snapshot := s'\<rparr> \<and> outcome = ab_outcome (ol_record ol) \<and> sq_autocommit D w')
   | Fx_aborted e \<Rightarrow> durable w' = durable w \<and> sq_autocommit D w' \<and> ow' = ow
   | Fx_recovery_required e \<Rightarrow> (\<exists>revision s'. checked_add (fs_revision (fo_snapshot ow)) 1 = Some revision \<and>
        ol_revision ol = fs_revision (fo_snapshot ow) \<and> ol_base ol = fs_state (fo_snapshot ow) \<and>
        fx_prepared ol revision (fo_snapshot ow) = Some s' \<and>
        (ow' = ow\<lparr>fo_poisoned := True\<rparr> \<and> durable w' = durable w \<or>
         ow' = ow\<lparr>fo_attempted_revision := Some revision, fo_poisoned := True\<rparr> \<and>
         (durable w' = durable w \<or> durable w' = fx_committed_db C (fo_context ow) ol revision (durable w))))"
proof (cases "ol_generation ol = fo_generation ow \<and> ol_revision ol = fs_revision (fo_snapshot ow) \<and> ol_base ol = fs_state (fo_snapshot ow)")
  case False
  with run att idle show ?thesis by (auto simp: fx_commit_def fx_ready_def)
next
  case True
  have id: "ow\<lparr>fo_attempted_revision := None\<rparr> = ow" using att by simp
  show ?thesis
  proof (cases "\<exists>revision s'. checked_add (ol_revision ol) 1 = Some revision \<and> fx_prepared ol revision (fo_snapshot ow) = Some s'")
    case False
    with run att idle True show ?thesis by (auto simp: fx_commit_def fx_ready_def split: option.splits)
  next
    case t: True
    then obtain revision s' where p: "checked_add (ol_revision ol) 1 = Some revision" "fx_prepared ol revision (fo_snapshot ow) = Some s'" by blast
    let ?ow = "ow\<lparr>fo_attempted_revision := Some revision\<rparr>"
    obtain b w1 where b: "sq_begin D True w = (b, w1)" by force
    note be = fx_begin_effect [OF idle b]
    show ?thesis
    proof (cases b)
      case None
      then have "fx_abort C D ow w1 = (out, ow', w')" using run True att p b by (simp add: fx_commit_def fx_ready_def)
      from fx_abort_effect [OF this] be p True id None show ?thesis by auto
    next
      case (Some u)
      then have w1: "\<not> sq_autocommit D w1" "content w1 = durable w" "durable w1 = durable w" using be by simp_all
      obtain r2 w2 where cw: "fx_commit_writes C D (fo_context ow) ol revision w1 = (r2, w2)" by force
      from ftx_commit_writes [OF w1(1), of C "fo_context ow" ol revision] cw w1
      have d2: "durable w2 = durable w"
        and c2: "\<And>x. r2 = Inr x \<Longrightarrow> \<not> sq_autocommit D w2 \<and> content w2 = fx_committed_db C (fo_context ow) ol revision (durable w)"
        by (auto simp: does_def)
      show ?thesis
      proof (cases r2)
        case (Inl e)
        obtain q w3 where q: "sq_rollback D w2 = (q, w3)" by force
        note rb = fx_rollback_effect [OF q]
        have r: "(out, ow', w') = (if e = DStale then (if q \<noteq> None \<and> sq_autocommit D w3 then (Fx_aborted DStale, ow, w3)
            else (Fx_recovery_required DRecoveryRequired, ?ow\<lparr>fo_poisoned := True\<rparr>, w3)) else fx_abort C D ?ow w2)"
          unfolding run [symmetric] using True att p b Some cw Inl q id
          by (simp add: fx_commit_def fx_ready_def fx_poison_def Let_def)
        show ?thesis
        proof (cases "e = DStale")
          case True
          with r rb d2 p \<open>ol_generation ol = fo_generation ow \<and> _\<close> show ?thesis by (auto split: if_splits)
        next
          case False
          with r have "fx_abort C D ?ow w2 = (out, ow', w')" by simp
          from fx_abort_effect [OF this] d2 p True id show ?thesis by auto
        qed
      next
        case (Inr x)
        obtain q w3 where q: "sq_commit D w2 = (q, w3)" by force
        note ce = fx_commit_effect [OF _ q]
        have r: "(out, ow', w') = (case q of None \<Rightarrow> (Fx_recovery_required DRecoveryRequired, ?ow\<lparr>fo_poisoned := True\<rparr>, w3)
            | Some _ \<Rightarrow> (Fx_committed (ab_outcome (ol_record ol)), ow\<lparr>fo_snapshot := s'\<rparr>, w3))"
          unfolding run [symmetric] using True att p b Some cw Inr q
          by (cases q) (simp_all add: fx_commit_def fx_ready_def fx_poison_def Let_def)
        show ?thesis using r ce c2 [OF Inr] d2 p True by (cases q) auto
      qed
    qed
  qed
qed

end

section \<open>Opening, the barrier and creation\<close>

lemma fx_disk_simps [simp]:
  "dk_exists (fx_disk D) = dk_exists D" "dk_open (fx_disk D) = dk_open D" "dk_busy_timeout (fx_disk D) = dk_busy_timeout D"
  "dk_set_pragmas (fx_disk D) = dk_set_pragmas D" "dk_pragmas (fx_disk D) = dk_pragmas D"
  by (simp_all add: disk.defs)

context fixture_engine
begin

lemma fx_open_keeps: "fx_open D w = (r, w') \<Longrightarrow> durable w' = durable w \<and> (r = Inr x \<longrightarrow> sq_autocommit D w')"
  using fx_open_effect [of w "fst (dk_open D w)" "snd (dk_open D w)"]
  by (auto simp: fx_open_def disk_open_def disk_call_def split: option.splits bool.splits prod.splits)

lemma fx_configure_keeps: "fx_configure D w = (r, w') \<Longrightarrow> durable w' = durable w \<and> sq_autocommit D w' = sq_autocommit D w"
proof -
  assume r: "fx_configure D w = (r, w')"
  obtain a w1 where a: "dk_busy_timeout D w = (a, w1)" by force
  obtain b w2 where b: "dk_set_pragmas D w1 = (b, w2)" by force
  have "durable w1 = durable w \<and> sq_autocommit D w1 = sq_autocommit D w" "durable w2 = durable w1 \<and> sq_autocommit D w2 = sq_autocommit D w1"
    using fx_settings_effect [of w a w1] fx_settings_effect [of w1 b w2] a b by simp_all
  with r a b show ?thesis
    by (auto simp: fx_configure_def disk_configure_def then_do_def disk_call_def split: option.splits prod.splits)
qed

lemma ftx_barrier_writes:
  assumes "\<not> sq_autocommit D w"
  shows "ftx (then_do (r1, w) (\<lambda>_ w. then_do (q1 w, w) (\<lambda>old w. then_do (q2 old, w) (\<lambda>next w. fx_exec D (Fx_update_barrier (be_bytes (next :: u64))) w)))) w
     (\<lambda>_ db db'. \<exists>bar. length bar = 8 \<and> db' = fx_apply (Fx_update_barrier bar) db)"
  by (rule does_mono [OF does_then [OF ftx_read [OF assms] does_then [OF ftx_read does_then [OF ftx_pure ftx_exec]]]])
    (use length_be_bytes [where 'a = 64] in \<open>auto simp del: fx_apply.simps length_be_bytes\<close>)

lemma fx_barrier_effect:
  assumes idle: "sq_autocommit D w" and run: "fx_barrier D cx revision w = (r, w')"
  shows "durable w' = durable w \<or> (\<exists>bar. length bar = 8 \<and> durable w' = fx_apply (Fx_update_barrier bar) (durable w))"
    and "r = Inr x \<Longrightarrow> sq_autocommit D w'"
proof -
  obtain b w1 where b: "sq_begin D True w = (b, w1)" by force
  note be = fx_begin_effect [OF idle b]
  let ?q1 = "\<lambda>w. try_res (one_row (fx_select D (Fx_all Fx_metadata) w)) (\<lambda>row. if length row = 14 then fx_blob 8 (row ! 11) else Inl DInvalid)"
  let ?q2 = "\<lambda>old. ok_or DInvalid (checked_add (be_word old :: u64) 1)"
  let ?v = "verify_metadata D cx (Some revision) w1"
  let ?m = "then_do (?v, w1) (\<lambda>_ w. then_do (?q1 w, w) (\<lambda>old w. then_do (?q2 old, w) (\<lambda>next w.
      fx_exec D (Fx_update_barrier (be_bytes next)) w)))"
  obtain r2 w2 where m: "?m = (r2, w2)" by force
  obtain c w3 where c: "sq_commit D w2 = (c, w3)" by force
  obtain s w4 where s: "dk_sync_path D w3 = (s, w4)" by force
  have assoc: "then_do (then_do a f) g = then_do a (\<lambda>x w. then_do (f x w) g)" for a f g by (auto simp: then_do_def split: prod.splits sum.splits)
  have u: "fx_barrier D cx revision w = (case b of None \<Rightarrow> (Inl DRecoveryRequired, w1) | Some _ \<Rightarrow>
      (case r2 of Inl e \<Rightarrow> (Inl DRecoveryRequired, w2) | Inr _ \<Rightarrow> (case c of None \<Rightarrow> (Inl DRecoveryRequired, w3)
        | Some _ \<Rightarrow> (case s of None \<Rightarrow> (Inl DRecoveryRequired, w4) | Some _ \<Rightarrow> (Inr (), w4)))))"
  proof (cases b)
    case (Some a)
    have "fx_barrier D cx revision w = (let (r, w) = then_do ?m (\<lambda>_ w. then_do (fx_call DInvalid (sq_commit D w)) (\<lambda>_ w. fx_call DInvalid (dk_sync_path D w)))
        in (map_err (\<lambda>_. DRecoveryRequired) r, w))"
      unfolding fx_barrier_def assoc by (simp add: b Some then_do_def fx_call_def)
    also have "\<dots> = (case r2 of Inl e \<Rightarrow> (Inl DRecoveryRequired, w2) | Inr _ \<Rightarrow> (case c of None \<Rightarrow> (Inl DRecoveryRequired, w3)
        | Some _ \<Rightarrow> (case s of None \<Rightarrow> (Inl DRecoveryRequired, w4) | Some _ \<Rightarrow> (Inr (), w4))))"
      unfolding m by (cases r2; cases c; cases s) (simp_all add: then_do_def fx_call_def c s)
    finally show ?thesis using Some by simp
  qed (simp add: fx_barrier_def b then_do_def fx_call_def)
  show "durable w' = durable w \<or> (\<exists>bar. length bar = 8 \<and> durable w' = fx_apply (Fx_update_barrier bar) (durable w))"
  proof (cases b)
    case (Some a)
    then have w1: "\<not> sq_autocommit D w1" "content w1 = durable w" "durable w1 = durable w" using be by simp_all
    from ftx_barrier_writes [OF w1(1), of ?v ?q1 ?q2] m w1
    have d2: "durable w2 = durable w" and c2: "\<And>x. r2 = Inr x \<Longrightarrow> \<not> sq_autocommit D w2 \<and> (\<exists>bar. length bar = 8 \<and> content w2 = fx_apply (Fx_update_barrier bar) (durable w))"
      by (auto simp: does_def simp del: fx_apply.simps)
    have d3: "durable w3 = durable w \<or> (\<exists>bar. length bar = 8 \<and> durable w3 = fx_apply (Fx_update_barrier bar) (durable w))" if "r2 = Inr x" for x
      using fx_commit_effect [OF _ c] c2 [OF that] d2 by (cases c) auto
    moreover have "durable w4 = durable w3" using fx_settings_effect [of w3 s w4] s by simp
    ultimately show ?thesis using run u Some d2 by (cases r2; cases c; cases s) (auto simp del: fx_apply.simps)
  qed (use run u be in \<open>auto simp del: fx_apply.simps\<close>)
  show "sq_autocommit D w'" if "r = Inr x"
  proof -
    from that run u obtain a y where a: "b = Some a" "r2 = Inr y" "c = Some ()" "w' = w4" by (auto split: option.splits sum.splits)
    then have w1: "\<not> sq_autocommit D w1" "content w1 = durable w" using be by simp_all
    from ftx_barrier_writes [OF w1(1), of ?v ?q1 ?q2] m a have "\<not> sq_autocommit D w2" by (auto simp: does_def)
    with fx_commit_effect [OF _ c] a have "sq_autocommit D w3" by simp
    moreover have "sq_autocommit D w4 = sq_autocommit D w3" using fx_settings_effect [of w3 s w4] s by simp
    ultimately show ?thesis using a w1 by auto
  qed
qed

end

lemma fx_stored_barrier: "length bar = 8 \<Longrightarrow> fx_stored C cx seed s db \<Longrightarrow> fx_stored C cx seed s (fx_apply (Fx_update_barrier bar) db)"
  by (auto simp: fx_stored_def fx_metadata_row_def)

text \<open>The rows of a new ledger.\<close>

lemma fx_seed_rows:
  assumes "bm_wf (as @ bs)"
  shows "foldl (\<lambda>db st. fx_apply st db) (db(Seed_accounts := map fx_account_row as, Fx_accounts := map fx_account_row as))
     (concat (map (\<lambda>a. [Fx_insert Seed_accounts (fx_account_row a), Fx_insert Fx_accounts (fx_account_row a)]) bs)) =
     db(Seed_accounts := map fx_account_row (as @ bs), Fx_accounts := map fx_account_row (as @ bs))"
  using assms
proof (induction bs arbitrary: as)
  case (Cons p bs)
  have "\<forall>x \<in> fst ` set as. x < fst p" using Cons.prems by (auto simp: bm_wf_def sorted_wrt_append)
  then have "bm_insert (fst p) (snd p) as = as @ [p]" by (simp add: bm_insert_last)
  then have "put_row (fx_key t) (fx_account_row p) (map fx_account_row as) = map fx_account_row (as @ [p])" if "t = Fx_accounts \<or> t = Seed_accounts" for t
    using put_account_row [OF that] by metis
  then have two: "foldl (\<lambda>db st. fx_apply st db) (db(Seed_accounts := map fx_account_row as, Fx_accounts := map fx_account_row as))
      [Fx_insert Seed_accounts (fx_account_row p), Fx_insert Fx_accounts (fx_account_row p)] =
      db(Seed_accounts := map fx_account_row (as @ [p]), Fx_accounts := map fx_account_row (as @ [p]))"
    by (simp add: fun_eq_iff del: fx_key.simps)
  show ?case
    unfolding list.map concat.simps foldl_append two using Cons.IH [of "as @ [p]"] Cons.prems by (simp only: append_assoc append.simps)
qed simp

context fixture_engine
begin

lemma ftx_exec_all: "\<not> sq_autocommit D w \<Longrightarrow> ftx (fx_exec_all D sts w) w (\<lambda>_ db db'. db' = foldl (\<lambda>db st. fx_apply st db) db sts)"
proof (induction sts arbitrary: w)
  case (Cons st sts)
  show ?case unfolding fx_exec_all.simps by (rule does_mono [OF does_then [OF ftx_exec [OF Cons.prems] Cons.IH]]) auto
qed (simp add: does_def)

lemma fx_initialize_stored:
  assumes w: "\<not> sq_autocommit D w" "content w = (\<lambda>_. [])" and wf: "bm_wf (ts_accounts initial)"
    and run: "fx_initialize D cx initial provenance w = (Inr x, w')"
  shows "\<not> sq_autocommit D w' \<and> fx_stored C cx initial (fx_initial initial provenance) (content w')"
proof -
  let ?m = "fx_metadata_row cx initial (str ''initializing'') 0 (be_bytes (0 :: u64)) 0"
  let ?sts = "concat (map (\<lambda>a. [Fx_insert Seed_accounts (fx_account_row a), Fx_insert Fx_accounts (fx_account_row a)]) (ts_accounts initial))"
  have cr: "foldl (\<lambda>db st. fx_apply st db) db (map (\<lambda>n. Fx_create (dk_ddl D n)) ns) = db" for db ns by (induction ns) simp_all
  have "ftx (fx_initialize D cx initial provenance w) w (\<lambda>_ db db'. db' = fx_apply Fx_set_initialized (fx_apply (Fx_set_provenance provenance)
      (fx_apply (Fx_insert Fx_accounting (fx_accounting_row initial)) (foldl (\<lambda>db st. fx_apply st db)
        (fx_apply (Fx_insert Fx_metadata ?m) db) ?sts))))"
    unfolding fx_initialize_def fx_accounting_row_def
    by (rule does_mono [OF does_then [OF ftx_exec_all [OF w(1)] does_then [OF ftx_exec does_then [OF ftx_exec_all does_then [OF ftx_exec
        does_then [OF ftx_exec does_then [OF ftx_exec ftx_pure]]]]]]]) (auto simp: cr simp del: fx_apply.simps)
  with run have a: "\<not> sq_autocommit D w'" and c: "content w' = fx_apply Fx_set_initialized (fx_apply (Fx_set_provenance provenance)
      (fx_apply (Fx_insert Fx_accounting (fx_accounting_row initial)) (foldl (\<lambda>db st. fx_apply st db)
        (fx_apply (Fx_insert Fx_metadata ?m) (content w)) ?sts)))"
    by (simp_all add: does_def del: fx_apply.simps)
  have s: "foldl (\<lambda>db st. fx_apply st db) ((\<lambda>_. [])(Fx_metadata := [?m])) ?sts =
      (\<lambda>_. [])(Fx_metadata := [?m], Seed_accounts := map fx_account_row (ts_accounts initial), Fx_accounts := map fx_account_row (ts_accounts initial))"
  proof -
    have e: "((\<lambda>_. [])(Fx_metadata := [?m])) = ((\<lambda>_. [])(Fx_metadata := [?m]))(Seed_accounts := map fx_account_row [], Fx_accounts := map fx_account_row [])"
      by (simp add: fun_eq_iff)
    show ?thesis by (subst e, subst fx_seed_rows) (use wf in simp_all)
  qed
  have "content w' = (\<lambda>_. [])(Fx_metadata := [fx_metadata_row cx initial provenance 0 (be_bytes (0 :: u64)) 1],
      Seed_accounts := map fx_account_row (ts_accounts initial), Fx_accounts := map fx_account_row (ts_accounts initial),
      Fx_accounting := [fx_accounting_row initial])"
  proof -
    have "fx_apply (Fx_insert Fx_metadata ?m) (content w) = (\<lambda>_. [])(Fx_metadata := [?m])" by (simp add: w(2))
    then show ?thesis unfolding c by (simp only: s) (simp add: fx_metadata_row_def fun_eq_iff)
  qed
  with a show ?thesis by (simp add: fx_stored_def fx_initial_def) (intro exI [of _ "be_bytes (0 :: u64)"], simp)
qed

end

section \<open>Runs\<close>

text \<open>An owner with the process-wide counter, the file, and the overlays that its callers hold. A restart drops
  the owner and its overlays at any moment and opens the file again in a process with a counter of its own.\<close>

record 'w fixture =
  fx_own :: fixture_store
  fx_counter :: u64
  fx_file :: 'w
  fx_overlays :: "overlay set"

inductive fixture_step :: "'k crypto \<Rightarrow> 'w fixture_disk \<Rightarrow> 'w fixture \<Rightarrow> 'w fixture \<Rightarrow> bool" for C D where
  fx_step_stage: "fx_stage C (fx_own x) slot body = Inr ol \<Longrightarrow> fixture_step C D x (x\<lparr>fx_overlays := insert ol (fx_overlays x)\<rparr>)"
| fx_step_commit: "ol \<in> fx_overlays x \<Longrightarrow> fx_commit C D (fx_own x) ol (fx_file x) = (out, ow', w') \<Longrightarrow>
     fixture_step C D x (x\<lparr>fx_own := ow', fx_file := w'\<rparr>)"
| fx_step_recover: "fx_recover C D (fx_own x) (fx_counter x) (fx_file x) = (r, ow', counter', w') \<Longrightarrow>
     fixture_step C D x (x\<lparr>fx_own := ow', fx_counter := counter', fx_file := w'\<rparr>)"
| fx_step_restart: "fx_load C D (fo_context (fx_own x)) counter (dk_close D (fx_file x)) = (Inr ow', counter', w') \<Longrightarrow>
     fixture_step C D x \<lparr>fx_own = ow', fx_counter = counter', fx_file = w', fx_overlays = {}\<rparr>"

inductive fixture_run :: "'k crypto \<Rightarrow> 'w fixture_disk \<Rightarrow> 'w fixture \<Rightarrow> 'w fixture \<Rightarrow> bool" for C D x where
  fx_run_start: "fixture_run C D x x"
| fx_run_step: "fixture_run C D x y \<Longrightarrow> fixture_step C D y z \<Longrightarrow> fixture_run C D x z"

definition overlay_ok :: "'k crypto \<Rightarrow> auth_context \<Rightarrow> overlay \<Rightarrow> bool" where
  "overlay_ok C cx ol \<longleftrightarrow> (\<exists>slot body sb. stage_body C (ol_base ol) cx slot body = Inr sb \<and>
     ol_candidate ol = sb_candidate sb \<and> ol_record ol = sb_record sb)"

text \<open>The snapshot that the file may hold while the owner is blocked: the owner's, or the one after it.\<close>

definition fx_extends :: "fixture_store \<Rightarrow> fx_snapshot \<Rightarrow> bool" where
  "fx_extends ow t \<longleftrightarrow> t = fo_snapshot ow \<or>
     fo_poisoned ow \<and> fs_provenance t = fs_provenance (fo_snapshot ow) \<and> (\<exists>r. fs_bodies t = fs_bodies (fo_snapshot ow) @ [r]) \<and> fo_attempted_revision ow = Some (fs_revision t)"

definition fixture_ok :: "'k crypto \<Rightarrow> 'w fixture_disk \<Rightarrow> ('w \<Rightarrow> fxdb) \<Rightarrow> auth_context \<Rightarrow> transfer_state \<Rightarrow> 'w fixture \<Rightarrow> bool" where
  "fixture_ok C D durable cx seed x \<longleftrightarrow>
     (let ow = fx_own x; s = fo_snapshot ow in
      fo_context ow = cx \<and> bm_wf (ts_accounts seed) \<and> fx_replayed C cx seed s \<and>
      (\<exists>t. fx_replayed C cx seed t \<and> fx_stored C cx seed t (durable (fx_file x)) \<and> fx_extends ow t) \<and>
      (\<not> fo_poisoned ow \<longrightarrow> sq_autocommit D (fx_file x) \<and> fo_attempted_revision ow = None) \<and>
      (\<forall>v. fo_attempted_revision ow = Some v \<longrightarrow> unat v = Suc (length (fs_bodies s))) \<and>
      (\<forall>ol \<in> fx_overlays x. overlay_ok C cx ol))"

lemma fx_stage_overlay:
  assumes "fx_stage C ow slot body = Inr ol"
  shows "overlay_ok C (fo_context ow) ol" "ol_base ol = fs_state (fo_snapshot ow)" "\<not> fo_poisoned ow"
proof -
  from assms obtain sb where r: "\<not> fo_poisoned ow" and sb: "stage_body C (fs_state (fo_snapshot ow)) (fo_context ow) slot body = Inr sb"
    and ol: "ol_base ol = sb_base sb" "ol_candidate ol = sb_candidate sb" "ol_record ol = sb_record sb"
    by (auto simp: fx_stage_def fx_ready_def try_res_Inr_iff split: if_splits)
  moreover have "sb_base sb = fs_state (fo_snapshot ow)" using sb by (auto elim: stage_body_elim)
  ultimately show "overlay_ok C (fo_context ow) ol" "ol_base ol = fs_state (fo_snapshot ow)" "\<not> fo_poisoned ow"
    by (auto simp: overlay_ok_def)
qed

context fixture_engine
begin

text \<open>Loading and the barrier, as recovery and reopening run them: a file that stores \<open>t\<close> keeps it, and only \<open>t\<close>
  can be returned.\<close>

lemma fx_reload_sound:
  assumes idle: "sq_autocommit D w" and st: "fx_stored C cx seed t (durable w)" and rep: "fx_replayed C cx seed t" and wf: "bm_wf (ts_accounts seed)"
    and run: "then_do (load_snapshot C D cx w) (\<lambda>s w. then_do (fx_barrier D cx (fs_revision s) w) (\<lambda>_ w. (Inr s, w))) = (r, w')"
  shows "fx_stored C cx seed t (durable w')" and "r = Inr s \<Longrightarrow> s = t \<and> sq_autocommit D w'"
proof -
  obtain l w1 where l: "load_snapshot C D cx w = (l, w1)" by force
  note le = load_snapshot_effect [OF idle l]
  have st1: "fx_stored C cx seed t (durable w1)" using le(1) st by simp
  have "fx_stored C cx seed t (durable w') \<and> (r = Inr s \<longrightarrow> s = t \<and> sq_autocommit D w')"
  proof (cases l)
    case (Inl e)
    with l run st1 show ?thesis by (auto simp: then_do_def)
  next
    case (Inr s1)
    with le(2) obtain w0 where w0: "sq_autocommit D w1" "content w0 = durable w" "load_snapshot_transaction C D cx w0 = Inr s1" by blast
    then have s1: "s1 = t" using load_unique [OF w0(3) _ rep wf] st by simp
    obtain b w2 where b: "fx_barrier D cx (fs_revision s1) w1 = (b, w2)" by force
    note be = fx_barrier_effect [OF w0(1) b]
    have "fx_stored C cx seed t (durable w2)" using be(1) st1 fx_stored_barrier by metis
    with l Inr b run be(2) s1 show ?thesis by (cases b) (auto simp: then_do_def)
  qed
  then show "fx_stored C cx seed t (durable w')" "r = Inr s \<Longrightarrow> s = t \<and> sq_autocommit D w'" by simp_all
qed

lemma fx_reopen_idle:
  assumes "then_do (fx_open D w) (\<lambda>_ w. fx_configure D w) = (r, w')"
  shows "durable w' = durable w" and "r = Inr x \<Longrightarrow> sq_autocommit D w'"
proof -
  obtain a w1 where a: "fx_open D w = (a, w1)" by force
  obtain b w2 where b: "fx_configure D w1 = (b, w2)" by force
  have o: "durable w1 = durable w" "a = Inr () \<Longrightarrow> sq_autocommit D w1" using fx_open_keeps [OF a] by auto
  note k = fx_configure_keeps [OF b]
  show "durable w' = durable w" "r = Inr x \<Longrightarrow> sq_autocommit D w'"
    using assms a b o k by (cases a; auto simp: then_do_def)+
qed

lemma fx_recover_sound:
  assumes run: "fx_recover C D ow counter w = (r, ow', counter', w')"
    and st: "fx_stored C (fo_context ow) seed t (durable w)" and rep: "fx_replayed C (fo_context ow) seed t" and wf: "bm_wf (ts_accounts seed)"
  shows "fx_stored C (fo_context ow) seed t (durable w')"
    and "r = Inl e \<Longrightarrow> fo_poisoned ow' \<and> fo_snapshot ow' = fo_snapshot ow \<and> fo_attempted_revision ow' = fo_attempted_revision ow \<and> fo_context ow' = fo_context ow"
    and "r = Inr report \<Longrightarrow> sq_autocommit D w' \<and>
       ow' = ow\<lparr>fo_generation := counter, fo_connected := True, fo_snapshot := t, fo_attempted_revision := None, fo_poisoned := False\<rparr> \<and>
       report = \<lparr>fr_revision = fs_revision t, fr_attempted_revision_present = map_option (\<lambda>r. fs_revision t \<ge> r) (fo_attempted_revision ow)\<rparr>"
proof -
  obtain gen c1 where g: "fx_generation counter = (gen, c1)" by force
  obtain r1 w1 where o: "then_do (fx_open D (dk_close D w)) (\<lambda>_ w. fx_configure D w) = (r1, w1)" by force
  note oe = fx_reopen_idle [OF o]
  have st1: "fx_stored C (fo_context ow) seed t (durable w1)" using oe(1) fx_close_effect st by simp
  obtain r2 w2 where l: "then_do (load_snapshot C D (fo_context ow) w1) (\<lambda>s w. then_do (fx_barrier D (fo_context ow) (fs_revision s) w) (\<lambda>_ w. (Inr s, w))) = (r2, w2)"
    by force
  have gc: "gen = Inr v \<Longrightarrow> v = counter" for v using g by (auto simp: fx_generation_def next_generation_def split: option.splits)
  have l2: "fx_stored C (fo_context ow) seed t (durable w2)" "r2 = Inr s \<Longrightarrow> s = t \<and> sq_autocommit D w2" if "r1 = Inr x" for x s
    using fx_reload_sound [OF oe(2) [OF that] st1 rep wf l] by auto
  have u: "(r, ow', counter', w') = (case gen of Inl e \<Rightarrow> (Inl e, ow\<lparr>fo_poisoned := True\<rparr>, c1, w) | Inr gen \<Rightarrow>
      (case r1 of Inl e \<Rightarrow> (Inl e, ow\<lparr>fo_poisoned := True, fo_generation := gen, fo_connected := False\<rparr>, c1, w1) | Inr _ \<Rightarrow>
      (case r2 of Inl e \<Rightarrow> (Inl e, ow\<lparr>fo_poisoned := True, fo_generation := gen, fo_connected := True\<rparr>, c1, w2)
       | Inr s \<Rightarrow> (Inr \<lparr>fr_revision = fs_revision s, fr_attempted_revision_present = map_option (\<lambda>r. fs_revision s \<ge> r) (fo_attempted_revision ow)\<rparr>,
           ow\<lparr>fo_poisoned := False, fo_generation := gen, fo_connected := True, fo_snapshot := s, fo_attempted_revision := None\<rparr>, c1, w2))))"
    unfolding run [symmetric] fx_recover_def by (simp add: g o l split: sum.splits prod.splits)
  show "fx_stored C (fo_context ow) seed t (durable w')"
    using u st st1 l2(1) by (cases gen; cases r1; cases r2) auto
  show "fo_poisoned ow' \<and> fo_snapshot ow' = fo_snapshot ow \<and> fo_attempted_revision ow' = fo_attempted_revision ow \<and> fo_context ow' = fo_context ow" if "r = Inl e"
    using u that by (auto split: sum.splits)
  show "sq_autocommit D w' \<and>
       ow' = ow\<lparr>fo_generation := counter, fo_connected := True, fo_snapshot := t, fo_attempted_revision := None, fo_poisoned := False\<rparr> \<and>
       report = \<lparr>fr_revision = fs_revision t, fr_attempted_revision_present = map_option (\<lambda>r. fs_revision t \<ge> r) (fo_attempted_revision ow)\<rparr>" if "r = Inr report"
    using u that l2(2) gc by (auto split: sum.splits)
qed

lemma fx_load_sound:
  assumes run: "fx_load C D cx counter w = (Inr ow', counter', w')"
    and st: "fx_stored C cx seed t (durable w)" and rep: "fx_replayed C cx seed t" and wf: "bm_wf (ts_accounts seed)"
  shows "fx_stored C cx seed t (durable w') \<and> sq_autocommit D w' \<and> fo_snapshot ow' = t \<and> fo_context ow' = cx \<and>
     \<not> fo_poisoned ow' \<and> fo_attempted_revision ow' = None"
proof -
  have assoc: "then_do a (\<lambda>x w. then_do (f x w) g) = then_do (then_do a f) g" for a f g by (auto simp: then_do_def split: prod.splits sum.splits)
  obtain r1 w1 where o: "then_do (fx_open D w) (\<lambda>_ w. fx_configure D w) = (r1, w1)" by force
  note oe = fx_reopen_idle [OF o]
  obtain r2 w2 where l: "then_do (load_snapshot C D cx w1) (\<lambda>s w. then_do (fx_barrier D cx (fs_revision s) w) (\<lambda>_ w. (Inr s, w))) = (r2, w2)" by force
  have u: "fx_load C D cx counter w = (case r1 of Inl e \<Rightarrow> (Inl e, counter, w1) | Inr _ \<Rightarrow> (case r2 of Inl e \<Rightarrow> (Inl e, counter, w2)
      | Inr s \<Rightarrow> (let (ow, counter) = fx_owner cx s counter in (ow, counter, w2))))"
    unfolding fx_load_def assoc o by (cases r1) (simp_all add: then_do_def l [unfolded then_do_def] split: sum.splits)
  from run u obtain x s where r: "r1 = Inr x" "r2 = Inr s" and w: "fx_owner cx s counter = (Inr ow', counter')" "w' = w2"
    by (auto split: sum.splits prod.splits)
  have st1: "fx_stored C cx seed t (durable w1)" using oe(1) st by simp
  from fx_reload_sound [OF oe(2) [OF r(1)] st1 rep wf l] r(2) w show ?thesis
    by (auto simp: fx_owner_def try_res_Inr_iff split: prod.splits)
qed

end

text \<open>What each outcome of a commit means for the owner and the file.\<close>

definition fx_commit_post :: "'k crypto \<Rightarrow> auth_context \<Rightarrow> transfer_state \<Rightarrow> fixture_store \<Rightarrow> overlay \<Rightarrow> fxdb \<Rightarrow>
    fx_outcome \<Rightarrow> fixture_store \<Rightarrow> fxdb \<Rightarrow> bool" where
  "fx_commit_post C cx seed ow ol db out ow' db' = (case out of
       Fx_committed outcome \<Rightarrow> \<not> fo_poisoned ow \<and> outcome = ab_outcome (ol_record ol) \<and>
         (\<exists>s'. ow' = ow\<lparr>fo_snapshot := s'\<rparr> \<and> fs_bodies s' = fs_bodies (fo_snapshot ow) @ [ol_record ol] \<and> fs_state s' = ol_candidate ol \<and>
            fs_provenance s' = fs_provenance (fo_snapshot ow) \<and> fx_stored C cx seed s' db')
     | Fx_aborted e \<Rightarrow> ow' = ow \<and> db' = db
     | Fx_recovery_required e \<Rightarrow> fo_poisoned ow' \<and> fo_snapshot ow' = fo_snapshot ow \<and>
         (db' = db \<or> (\<exists>t. fx_replayed C cx seed t \<and> fx_stored C cx seed t db' \<and> fs_bodies t = fs_bodies (fo_snapshot ow) @ [ol_record ol])))"

context fixture_engine
begin

lemma fx_commit_keeps:
  assumes ok: "fixture_ok C D durable cx seed x" and ol: "ol \<in> fx_overlays x"
    and run: "fx_commit C D (fx_own x) ol (fx_file x) = (out, ow', w')"
  shows "fixture_ok C D durable cx seed (x\<lparr>fx_own := ow', fx_file := w'\<rparr>)"
    and "fx_commit_post C cx seed (fx_own x) ol (durable (fx_file x)) out ow' (durable w')"
proof -
  let ?ow = "fx_own x" and ?s = "fo_snapshot (fx_own x)"
  have "fixture_ok C D durable cx seed (x\<lparr>fx_own := ow', fx_file := w'\<rparr>) \<and> fx_commit_post C cx seed (fx_own x) ol (durable (fx_file x)) out ow' (durable w')"
  proof (cases "fo_poisoned ?ow")
    case True
    with run have "out = Fx_aborted DBlocked" "ow' = ?ow" "w' = fx_file x" by (auto simp: fx_commit_def fx_ready_def)
    with ok show ?thesis by (simp add: fx_commit_post_def)
  next
    case False
    with ok have i: "sq_autocommit D (fx_file x)" "fo_attempted_revision ?ow = None" "fo_context ?ow = cx" "bm_wf (ts_accounts seed)"
      and rep: "fx_replayed C cx seed ?s" and st: "fx_stored C cx seed ?s (durable (fx_file x))"
      by (auto simp: fixture_ok_def Let_def fx_extends_def)
    from ok ol obtain slot body sb where sb: "stage_body C (ol_base ol) cx slot body = Inr sb" "ol_candidate ol = sb_candidate sb" "ol_record ol = sb_record sb"
      by (force simp: fixture_ok_def Let_def overlay_ok_def)
    have nxt: "fx_replayed C cx seed s'" "fx_stored C cx seed s' (fx_committed_db C cx ol revision (durable (fx_file x)))"
      "fs_bodies s' = fs_bodies ?s @ [ol_record ol]" "fs_revision s' = revision" "unat revision = Suc (length (fs_bodies ?s))" "fs_state s' = ol_candidate ol"
      "fs_provenance s' = fs_provenance ?s"
      if p: "checked_add (fs_revision ?s) 1 = Some revision" "ol_base ol = fs_state ?s" "fx_prepared ol revision ?s = Some s'" for revision s'
    proof -
      have b: "ol_base ol = sb_base sb" using sb(1) by (auto elim: stage_body_elim)
      note n = fx_stored_next [OF st rep i(4) sb(1) [unfolded p(2)] b sb(2,3) p(1,3)]
      show "fx_replayed C cx seed s'" "fx_stored C cx seed s' (fx_committed_db C cx ol revision (durable (fx_file x)))"
        "fs_bodies s' = fs_bodies ?s @ [ol_record ol]" "fs_revision s' = revision" using n sb(3) by simp_all
      show "fs_state s' = ol_candidate ol" "fs_provenance s' = fs_provenance ?s" using p(3) by (auto simp: fx_prepared_def)
      have "Suc (length (fs_bodies ?s)) < 2 ^ 64" using n(1,3) by (simp add: fx_replayed_def)
      then show "unat revision = Suc (length (fs_bodies ?s))" unfolding n(5) by (intro unat_of_nat_small) simp
    qed
    note c = fx_commit_cases [OF i(1,2) False run]
    show ?thesis
    proof (cases out)
      case (Fx_committed outcome)
      with c obtain revision s' where p: "checked_add (fs_revision ?s) 1 = Some revision" "ol_base ol = fs_state ?s" "fx_prepared ol revision ?s = Some s'"
        and w: "durable w' = fx_committed_db C cx ol revision (durable (fx_file x))" "ow' = ?ow\<lparr>fo_snapshot := s'\<rparr>" "outcome = ab_outcome (ol_record ol)"
          "sq_autocommit D w'" by (auto simp: i(3))
      from nxt [OF p] w ok i False Fx_committed show ?thesis by (auto simp: fixture_ok_def Let_def fx_extends_def fx_commit_post_def)
    next
      case (Fx_aborted e)
      with c ok show ?thesis by (simp add: fixture_ok_def Let_def fx_commit_post_def)
    next
      case (Fx_recovery_required e)
      with c obtain revision s' where p: "checked_add (fs_revision ?s) 1 = Some revision" "ol_base ol = fs_state ?s" "fx_prepared ol revision ?s = Some s'"
        and w: "ow' = ?ow\<lparr>fo_poisoned := True\<rparr> \<and> durable w' = durable (fx_file x) \<or>
         ow' = ?ow\<lparr>fo_attempted_revision := Some revision, fo_poisoned := True\<rparr> \<and>
         (durable w' = durable (fx_file x) \<or> durable w' = fx_committed_db C cx ol revision (durable (fx_file x)))" by (auto simp: i(3))
      note n = nxt [OF p]
      have t: "\<exists>t. fx_replayed C cx seed t \<and> fx_stored C cx seed t (durable w') \<and> fx_extends ow' t"
        using w n rep st by (auto simp: fx_extends_def)
      have "fixture_ok C D durable cx seed (x\<lparr>fx_own := ow', fx_file := w'\<rparr>)"
        using ok t w n(5) i False by (auto simp: fixture_ok_def Let_def)
      moreover have "fo_poisoned ow'" "fo_snapshot ow' = ?s" "durable w' = durable (fx_file x) \<or> (\<exists>t. fx_replayed C cx seed t \<and>
          fx_stored C cx seed t (durable w') \<and> fs_bodies t = fs_bodies ?s @ [ol_record ol])"
        using w n by auto
      ultimately show ?thesis using Fx_recovery_required by (simp add: fx_commit_post_def)
    qed
  qed
  then show "fixture_ok C D durable cx seed (x\<lparr>fx_own := ow', fx_file := w'\<rparr>)"
    and "fx_commit_post C cx seed (fx_own x) ol (durable (fx_file x)) out ow' (durable w')" by simp_all
qed

end

context fixture_engine
begin

lemma fx_step_keeps:
  assumes "fixture_step C D x y" and ok: "fixture_ok C D durable cx seed x"
  shows "fixture_ok C D durable cx seed y \<and> (\<exists>more. fs_bodies (fo_snapshot (fx_own y)) = fs_bodies (fo_snapshot (fx_own x)) @ more) \<and>
     fs_provenance (fo_snapshot (fx_own y)) = fs_provenance (fo_snapshot (fx_own x))"
  using assms(1)
proof cases
  case (fx_step_stage slot body ol)
  with ok fx_stage_overlay [OF fx_step_stage(2)] show ?thesis by (auto simp: fixture_ok_def Let_def)
next
  case (fx_step_commit ol out ow' w')
  from fx_commit_keeps [OF ok fx_step_commit(2,3)] fx_step_commit(1) show ?thesis
    by (cases out) (auto simp: fx_commit_post_def)
next
  case (fx_step_recover r ow' counter' w')
  let ?ow = "fx_own x"
  from ok obtain t where cx: "fo_context ?ow = cx" "bm_wf (ts_accounts seed)" and t: "fx_replayed C cx seed t" "fx_stored C cx seed t (durable (fx_file x))" "fx_extends ?ow t"
    by (auto simp: fixture_ok_def Let_def)
  note rs = fx_recover_sound [OF fx_step_recover(2), unfolded cx(1), OF t(2,1) cx(2)]
  have more: "\<exists>more. fs_bodies t = fs_bodies (fo_snapshot ?ow) @ more" "fs_provenance t = fs_provenance (fo_snapshot ?ow)" using t(3) by (auto simp: fx_extends_def)
  show ?thesis
  proof (cases r)
    case (Inl e)
    with rs(2) have "fo_poisoned ow'" "fo_snapshot ow' = fo_snapshot ?ow" "fo_attempted_revision ow' = fo_attempted_revision ?ow" "fo_context ow' = cx" by simp_all
    with ok t rs(1) fx_step_recover(1) show ?thesis by (auto simp: fixture_ok_def Let_def fx_extends_def)
  next
    case (Inr report)
    with rs(3) ok t rs(1) more fx_step_recover(1) show ?thesis by (auto simp: fixture_ok_def Let_def fx_extends_def)
  qed
next
  case (fx_step_restart counter ow' counter' w')
  let ?ow = "fx_own x"
  from ok obtain t where cx: "fo_context ?ow = cx" "bm_wf (ts_accounts seed)" and t: "fx_replayed C cx seed t" "fx_stored C cx seed t (durable (fx_file x))" "fx_extends ?ow t"
    by (auto simp: fixture_ok_def Let_def)
  have t': "fx_stored C cx seed t (durable (dk_close D (fx_file x)))" using t(2) fx_close_effect by simp
  note ls = fx_load_sound [OF fx_step_restart(2) [unfolded cx(1)] t' t(1) cx(2)]
  have more: "\<exists>more. fs_bodies t = fs_bodies (fo_snapshot ?ow) @ more" "fs_provenance t = fs_provenance (fo_snapshot ?ow)" using t(3) by (auto simp: fx_extends_def)
  with ls ok t fx_step_restart(1) show ?thesis by (auto simp: fixture_ok_def Let_def fx_extends_def)
qed

lemma fx_run_keeps:
  assumes "fixture_run C D x y" and "fixture_ok C D durable cx seed x"
  shows "fixture_ok C D durable cx seed y \<and> (\<exists>more. fs_bodies (fo_snapshot (fx_own y)) = fs_bodies (fo_snapshot (fx_own x)) @ more) \<and>
     fs_provenance (fo_snapshot (fx_own y)) = fs_provenance (fo_snapshot (fx_own x))"
  using assms by (induction rule: fixture_run.induct) (auto dest!: fx_step_keeps)

lemma fx_create_ok:
  assumes run: "fx_create_inner C D cx seed provenance counter w = (Inr ow, counter', w')" and wf: "bm_wf (ts_accounts seed)"
  shows "fixture_ok C D durable cx seed \<lparr>fx_own = ow, fx_counter = counter', fx_file = w', fx_overlays = {}\<rparr>"
    and "fo_snapshot ow = fx_initial seed provenance"
proof -
  obtain cr w1 where c: "dk_create_new D w = (cr, w1)" by force
  have assoc: "then_do a (\<lambda>x w. then_do (f x w) g) = then_do (then_do a f) g" for a f g by (auto simp: then_do_def split: prod.splits sum.splits)
  obtain o1 w2 where o: "fx_open D w1 = (o1, w2)" by force
  obtain c1 w3 where cf: "fx_configure D w2 = (c1, w3)" by force
  obtain b w4 where b: "sq_begin D True w3 = (b, w4)" by force
  obtain i w5 where i: "fx_initialize D cx seed provenance w4 = (i, w5)" by force
  obtain q w6 where q: "sq_commit D w5 = (q, w6)" by force
  obtain s w7 where s: "dk_sync_path D w6 = (s, w7)" by force
  from run obtain x where cr: "cr = Created" and x: "o1 = Inr ()" "c1 = Inr ()" "b = Some ()" "i = Inr x" "q = Some ()" "w' = w7"
    and ow: "fx_owner cx (fx_initial seed provenance) counter = (Inr ow, counter')"
    by (auto simp: fx_create_inner_def c o cf b i q s then_do_def fx_call_def Let_def
      split: if_splits created.splits sum.splits option.splits prod.splits)
  have d1: "durable w1 = (\<lambda>_. [])" using fx_created_empty c cr by simp
  have d2: "durable w2 = (\<lambda>_. [])" "sq_autocommit D w2" using fx_open_keeps [OF o] d1 x by auto
  have d3: "durable w3 = (\<lambda>_. [])" "sq_autocommit D w3" using fx_configure_keeps [OF cf] d2 by simp_all
  have d4: "\<not> sq_autocommit D w4" "content w4 = (\<lambda>_. [])" using fx_begin_effect [OF d3(2) b] d3 x by simp_all
  have d5: "\<not> sq_autocommit D w5" "fx_stored C cx seed (fx_initial seed provenance) (content w5)"
    using fx_initialize_stored [OF d4 wf, of cx provenance x w5 C] i x by simp_all
  have d6: "sq_autocommit D w6" "fx_stored C cx seed (fx_initial seed provenance) (durable w6)" using fx_commit_effect [OF d5(1) q] d5(2) x by simp_all
  have d7: "sq_autocommit D w7" "fx_stored C cx seed (fx_initial seed provenance) (durable w7)" using fx_settings_effect [of w6 s w7] s d6 by simp_all
  have "fx_replayed C cx seed (fx_initial seed provenance)" by (simp add: fx_replayed_def fx_initial_def)
  moreover have o: "fo_context ow = cx" "fo_snapshot ow = fx_initial seed provenance" "\<not> fo_poisoned ow" "fo_attempted_revision ow = None"
    using ow by (auto simp: fx_owner_def try_res_Inr_iff split: prod.splits)
  ultimately show "fixture_ok C D durable cx seed \<lparr>fx_own = ow, fx_counter = counter', fx_file = w', fx_overlays = {}\<rparr>"
    "fo_snapshot ow = fx_initial seed provenance"
    using d7 x wf by (auto simp: fixture_ok_def fx_extends_def)
qed

end

text \<open>Everything an owner created on a fresh path can come to.\<close>

definition fixture_reached :: "'k crypto \<Rightarrow> 'w fixture_disk \<Rightarrow> auth_context \<Rightarrow> transfer_state \<Rightarrow> text_bytes \<Rightarrow> 'w fixture \<Rightarrow> bool" where
  "fixture_reached C D cx seed provenance x \<longleftrightarrow> (\<exists>counter w ow counter' w'.
     create_fixture C D cx seed provenance counter w = (Inr ow, counter', w') \<and>
     fixture_run C D \<lparr>fx_own = ow, fx_counter = counter', fx_file = w', fx_overlays = {}\<rparr> x)"

lemma fixture_reached_ok:
  assumes "fixture_engine D content durable" "bm_wf (ts_accounts seed)" "fixture_reached C D cx seed provenance x"
  shows "fixture_ok C D durable cx seed x" and "fs_provenance (fo_snapshot (fx_own x)) = provenance"
proof -
  from assms(3) obtain counter w ow counter' w' where c: "fx_create_inner C D cx seed provenance counter w = (Inr ow, counter', w')"
    and r: "fixture_run C D \<lparr>fx_own = ow, fx_counter = counter', fx_file = w', fx_overlays = {}\<rparr> x"
    by (auto simp: fixture_reached_def create_fixture_def)
  note k = fixture_engine.fx_create_ok [OF assms(1) c assms(2)]
  from fixture_engine.fx_run_keeps [OF assms(1) r k(1)] k(2) show "fixture_ok C D durable cx seed x" "fs_provenance (fo_snapshot (fx_own x)) = provenance"
    by (simp_all add: fx_initial_def)
qed

lemma fixture_reached_step: "fixture_reached C D cx seed p x \<Longrightarrow> fixture_step C D x y \<Longrightarrow> fixture_reached C D cx seed p y"
  unfolding fixture_reached_def using fx_run_step by metis

end
