(* ===== verification/Canonical_Safety.thy ===== *)
theory Canonical_Safety
  imports Canonical_Fixture Durable_Safety
begin

text \<open>
  What the archive of \<open>Canonical_Fixture\<close> guarantees over any engine that satisfies the interface
  \<open>canonical_engine\<close>: a file that loads at all loads to exactly the snapshot it stores, a commit is atomic under every
  failure, and every run of an owner keeps memory and file in agreement with the replay of the archive from its anchor.
\<close>

section \<open>What the statements mean\<close>

record cndb =
  cd_tables :: fxdb
  cd_blocks :: "cell list list"
  cd_tip :: "cell list list"

fun cn_rows :: "cn_query \<Rightarrow> cndb \<Rightarrow> cell list list" where
  "cn_rows Cn_tip db = map (\<lambda>r. [r ! 1, r ! 2, r ! 3]) (cd_tip db)"
| "cn_rows Cn_archive db = concat (map (\<lambda>b. map (\<lambda>d. b @ tl d) (filter (\<lambda>d. d ! 0 = b ! 2) (cd_tables db Fx_bodies))) (cd_blocks db))"

text \<open>\<open>blocks\<close> in the order in which it is read, by revision.\<close>

fun cn_apply :: "cn_statement \<Rightarrow> cndb \<Rightarrow> cndb" where
  "cn_apply (Cn_insert_block row) db = db\<lparr>cd_blocks := put_row (\<lambda>r. cell_bytes (r ! 2)) row (cd_blocks db)\<rparr>"
| "cn_apply (Cn_insert_tip row) db = db\<lparr>cd_tip := cd_tip db @ [row]\<rparr>"
| "cn_apply (Cn_update_revision new old) db = db\<lparr>cd_tables := (cd_tables db)
     (Fx_metadata := map (\<lambda>r. if r ! 10 = Blob old then r[10 := Blob new] else r) (cd_tables db Fx_metadata))\<rparr>"
| "cn_apply (Cn_update_tip (h, s, v) (h0, s0, v0)) db = db\<lparr>cd_tip :=
     map (\<lambda>r. if r ! 1 = Blob h0 \<and> r ! 2 = Blob s0 \<and> r ! 3 = Blob v0 then [r ! 0, Blob h, Blob s, Blob v] else r) (cd_tip db)\<rparr>"
| "cn_apply Cn_set_initialized db = db\<lparr>cd_tables := (cd_tables db)(Fx_metadata := map (\<lambda>r. r[15 := Integer 1]) (cd_tables db Fx_metadata))\<rparr>"

abbreviation fx_effect :: "fx_statement \<Rightarrow> cndb \<Rightarrow> cndb" where
  "fx_effect st db \<equiv> db\<lparr>cd_tables := fx_apply st (cd_tables db)\<rparr>"

text \<open>The same promises as \<open>sqlite_engine\<close> and \<open>fixture_engine\<close>, for this schema.\<close>

locale canonical_engine =
  fixes D :: "'w canonical_disk" and content :: "'w \<Rightarrow> cndb" and durable :: "'w \<Rightarrow> cndb"
  assumes cn_fx_row: "fx_select D q w = Some rows \<Longrightarrow> i < length rows \<Longrightarrow> rows ! i = Some row \<Longrightarrow>
      i < length (fx_rows q (cd_tables (content w))) \<and> fx_rows q (cd_tables (content w)) ! i = row"
    and cn_fx_all: "fx_select D q w = Some rows \<Longrightarrow> None \<notin> set rows \<Longrightarrow> length rows = length (fx_rows q (cd_tables (content w)))"
    and cn_select_row: "cn_select D p w = Some rows \<Longrightarrow> i < length rows \<Longrightarrow> rows ! i = Some row \<Longrightarrow>
      i < length (cn_rows p (content w)) \<and> cn_rows p (content w) ! i = row"
    and cn_select_all: "cn_select D p w = Some rows \<Longrightarrow> None \<notin> set rows \<Longrightarrow> length rows = length (cn_rows p (content w))"
    and cn_fx_effect: "\<not> sq_autocommit D w \<Longrightarrow> fx_write D st w = (changed, w') \<Longrightarrow> durable w' = durable w \<and>
      (changed \<noteq> None \<longrightarrow> \<not> sq_autocommit D w' \<and> content w' = fx_effect st (content w))"
    and cn_write_effect: "\<not> sq_autocommit D w \<Longrightarrow> cn_write D s w = (changed, w') \<Longrightarrow> durable w' = durable w \<and>
      (changed \<noteq> None \<longrightarrow> \<not> sq_autocommit D w' \<and> content w' = cn_apply s (content w))"
    and cn_begin_effect: "sq_autocommit D w \<Longrightarrow> sq_begin D b w = (r, w') \<Longrightarrow> durable w' = durable w \<and>
      (r = None \<longrightarrow> sq_autocommit D w') \<and> (r = Some () \<longrightarrow> \<not> sq_autocommit D w' \<and> content w' = durable w')"
    and cn_commit_effect: "\<not> sq_autocommit D w \<Longrightarrow> sq_commit D w = (r, w') \<Longrightarrow>
      (r = Some () \<longrightarrow> durable w' = content w \<and> sq_autocommit D w') \<and>
      (r = None \<longrightarrow> durable w' = durable w \<or> durable w' = content w)"
    and cn_rollback_effect: "sq_rollback D w = (r, w') \<Longrightarrow> durable w' = durable w \<and> (r = Some () \<longrightarrow> sq_autocommit D w')"
    and cn_close_effect: "durable (dk_close D w) = durable w"
    and cn_open_effect: "dk_open D w = (r, w') \<Longrightarrow> durable w' = durable w \<and> (r = Some () \<longrightarrow> sq_autocommit D w')"
    and cn_settings_effect: "dk_busy_timeout D w = (r, w') \<or> dk_set_pragmas D w = (r, w') \<or> dk_sync_path D w = (r, w') \<or> cn_set_cache D w = (r, w') \<Longrightarrow>
      durable w' = durable w \<and> sq_autocommit D w' = sq_autocommit D w"
    and cn_created_empty: "dk_create_new D w = (Created, w') \<Longrightarrow> durable w' = \<lparr>cd_tables = (\<lambda>_. []), cd_blocks = [], cd_tip = []\<rparr>"

lemma cn_fixture_simps [simp]:
  "fx_select (cn_fixture D) = fx_select D" "fx_write (cn_fixture D) = fx_write D" "sq_autocommit (cn_fixture D) = sq_autocommit D"
  "sq_begin (cn_fixture D) = sq_begin D" "sq_commit (cn_fixture D) = sq_commit D" "sq_rollback (cn_fixture D) = sq_rollback D"
  "dk_close (cn_fixture D) = dk_close D" "dk_open (cn_fixture D) = dk_open D" "dk_busy_timeout (cn_fixture D) = dk_busy_timeout D"
  "dk_set_pragmas (cn_fixture D) = dk_set_pragmas D" "dk_sync_path (cn_fixture D) = dk_sync_path D"
  "dk_create_new (cn_fixture D) = dk_create_new D" "dk_pragmas (cn_fixture D) = dk_pragmas D" "dk_exists (cn_fixture D) = dk_exists D"
  by (simp_all add: fixture_disk.defs)

text \<open>The tables that both schemas have obey the interface of the first.\<close>

sublocale canonical_engine \<subseteq> tables: fixture_engine "cn_fixture D" "\<lambda>w. cd_tables (content w)" "\<lambda>w. cd_tables (durable w)"
proof
  fix w st r w' b q rows i row changed
  show "fx_select (cn_fixture D) q w = Some rows \<Longrightarrow> i < length rows \<Longrightarrow> rows ! i = Some row \<Longrightarrow>
      i < length (fx_rows q (cd_tables (content w))) \<and> fx_rows q (cd_tables (content w)) ! i = row"
    using cn_fx_row by simp
  show "fx_select (cn_fixture D) q w = Some rows \<Longrightarrow> None \<notin> set rows \<Longrightarrow> length rows = length (fx_rows q (cd_tables (content w)))"
    using cn_fx_all by simp
  show "\<not> sq_autocommit (cn_fixture D) w \<Longrightarrow> fx_write (cn_fixture D) st w = (changed, w') \<Longrightarrow> cd_tables (durable w') = cd_tables (durable w) \<and>
      (changed \<noteq> None \<longrightarrow> \<not> sq_autocommit (cn_fixture D) w' \<and> cd_tables (content w') = fx_apply st (cd_tables (content w)))"
    using cn_fx_effect [of w st changed w'] by (auto simp del: fx_apply.simps)
  show "sq_autocommit (cn_fixture D) w \<Longrightarrow> sq_begin (cn_fixture D) b w = (r, w') \<Longrightarrow> cd_tables (durable w') = cd_tables (durable w) \<and>
      (r = None \<longrightarrow> sq_autocommit (cn_fixture D) w') \<and>
      (r = Some () \<longrightarrow> \<not> sq_autocommit (cn_fixture D) w' \<and> cd_tables (content w') = cd_tables (durable w'))"
    using cn_begin_effect [of w b r w'] by auto
  show "\<not> sq_autocommit (cn_fixture D) w \<Longrightarrow> sq_commit (cn_fixture D) w = (r, w') \<Longrightarrow>
      (r = Some () \<longrightarrow> cd_tables (durable w') = cd_tables (content w) \<and> sq_autocommit (cn_fixture D) w') \<and>
      (r = None \<longrightarrow> cd_tables (durable w') = cd_tables (durable w) \<or> cd_tables (durable w') = cd_tables (content w))"
    using cn_commit_effect [of w r w'] by auto
  show "sq_rollback (cn_fixture D) w = (r, w') \<Longrightarrow> cd_tables (durable w') = cd_tables (durable w) \<and> (r = Some () \<longrightarrow> sq_autocommit (cn_fixture D) w')"
    using cn_rollback_effect [of w r w'] by simp
  show "cd_tables (durable (dk_close (cn_fixture D) w)) = cd_tables (durable w)" using cn_close_effect by simp
  show "dk_open (cn_fixture D) w = (r, w') \<Longrightarrow> cd_tables (durable w') = cd_tables (durable w) \<and> (r = Some () \<longrightarrow> sq_autocommit (cn_fixture D) w')"
    using cn_open_effect [of w r w'] by simp
  show "dk_busy_timeout (cn_fixture D) w = (r, w') \<or> dk_set_pragmas (cn_fixture D) w = (r, w') \<or> dk_sync_path (cn_fixture D) w = (r, w') \<Longrightarrow>
      cd_tables (durable w') = cd_tables (durable w) \<and> sq_autocommit (cn_fixture D) w' = sq_autocommit (cn_fixture D) w"
    using cn_settings_effect [of w r w'] by auto
  show "dk_create_new (cn_fixture D) w = (Created, w') \<Longrightarrow> cd_tables (durable w') = (\<lambda>_. [])" using cn_created_empty [of w w'] by simp
qed

section \<open>Stored and replayed snapshots\<close>

definition cn_entry_rows :: "u64 \<Rightarrow> nat \<Rightarrow> (bytes \<times> hash) list \<Rightarrow> cell list list" where
  "cn_entry_rows revision i es = map (\<lambda>(i, b, ident). cn_entry_row revision i b ident) (List.enumerate i es)"

abbreviation cn_record_rows :: "committed_block \<Rightarrow> cell list list" where
  "cn_record_rows r \<equiv> cn_entry_rows (tp_revision (cm_tip r)) 0 (cn_entries (cm_block r) (cm_outcome r))"

definition cn_stored :: "hasher \<Rightarrow> fixture_manifest \<Rightarrow> cn_snapshot \<Rightarrow> cndb \<Rightarrow> bool" where
  "cn_stored K m s db \<longleftrightarrow>
     (\<exists>bar. length bar = 8 \<and> cd_tables db Fx_metadata = [cn_metadata_row K m (tp_revision (ns_tip s)) bar 1]) \<and>
     cd_tables db Seed_accounts = map fx_account_row (ts_accounts (mf_initial m)) \<and>
     cd_tables db Fx_accounts = map fx_account_row (ts_accounts (ns_state s)) \<and>
     cd_tables db Fx_accounting = [fx_accounting_row (ns_state s)] \<and>
     cd_blocks db = map cn_block_row (ns_blocks s) \<and> cd_tables db Fx_bodies = map cn_body_row (ns_blocks s) \<and>
     cd_tables db Fx_transactions = concat (map cn_record_rows (ns_blocks s)) \<and> cd_tip db = [cn_tip_row (ns_tip s)]"

definition block_ok :: "hasher \<Rightarrow> committed_block \<Rightarrow> bool" where
  "block_ok K r \<longleftrightarrow> nb_wf (cm_block r) \<and> nb_claimed_hash (cm_block r) = nb_hash K (cm_block r) \<and>
     cm_tip r = tip_at K (cm_block r) (tp_revision (cm_tip r)) \<and>
     bo_transaction_ids (cm_outcome r) = map (hash_with_domain K ID_DOMAIN) (nb_transactions (cm_block r))"

definition cn_replay_block :: "'k crypto \<Rightarrow> fixture_manifest \<Rightarrow> committed_block \<Rightarrow> cn_snapshot \<times> transfer_state \<Rightarrow> cn_error + cn_snapshot \<times> transfer_state" where
  "cn_replay_block C m r x = try_res (map_err CBlock (preflight (c_keccak C) (cm_block r) (mf_context m))) (\<lambda>ids. cn_audit_block C m r ids x)"

fun cn_replay :: "'k crypto \<Rightarrow> fixture_manifest \<Rightarrow> committed_block list \<Rightarrow> cn_snapshot \<times> transfer_state \<Rightarrow> cn_error + cn_snapshot \<times> transfer_state" where
  "cn_replay C m [] x = Inr x"
| "cn_replay C m (r # rs) x = try_res (cn_replay_block C m r x) (cn_replay C m rs)"

text \<open>The archive, replayed from the anchor, gives the snapshot with its ledger, tip and indexes.\<close>

definition cn_replayed :: "'k crypto \<Rightarrow> fixture_manifest \<Rightarrow> cn_snapshot \<Rightarrow> bool" where
  "cn_replayed C m s \<longleftrightarrow> ns_blocks s \<noteq> [] \<and> length (ns_blocks s) \<le> 2 ^ 64 \<and>
     (\<forall>i < length (ns_blocks s). block_ok (c_keccak C) (ns_blocks s ! i) \<and> tp_revision (cm_tip (ns_blocks s ! i)) = of_nat i) \<and>
     cn_replay C m (ns_blocks s) (cn_empty (ns_state s) (ns_tip s), mf_initial m) = Inr (s, ns_state s)"

text \<open>A manifest that \<open>manifest_new\<close> accepted, with the widths that Rust's types fix.\<close>

definition manifest_ok :: "'k crypto \<Rightarrow> fixture_manifest \<Rightarrow> bool" where
  "manifest_ok C m \<longleftrightarrow> digest32 (c_keccak C) \<and> nb_wf (mf_anchor m) \<and> bm_wf (ts_accounts (mf_initial m)) \<and>
     manifest_new (c_keccak C) (mf_context m) (mf_anchor m) (mf_initial m) (mf_provenance m) = Inr m"

section \<open>Reading back\<close>

lemma cn_blob_Inr_iff [simp]: "cn_blob n c = Inr b \<longleftrightarrow> c = Blob b \<and> length b = n"
  by (simp add: cn_blob_def)

lemma cn_check_Inr_iff [simp]: "cn_check n c P = Inr u \<longleftrightarrow> (\<exists>b. c = Blob b \<and> length b = n \<and> P b)"
  by (auto simp: cn_check_def try_res_Inr_iff)

lemma fx_blob_Blob: "length b = n \<Longrightarrow> fx_blob n (Blob b) = Inr b"
  by simp

lemma sender_nonce_width: "length b = SIGNED_LEN \<Longrightarrow> length (fst (sender_nonce b)) = 20"
  by (simp add: sender_nonce_def field_def native_lens)

lemma cn_read_entries_back:
  assumes "digest32 K" "\<forall>b \<in> set bs. length b = SIGNED_LEN" "length acc + length bs < 2 ^ 64"
  shows "cn_read_entries K (map Some (map entry_columns (cn_entry_rows revision (length acc) (zip bs (map (hash_with_domain K ID_DOMAIN) bs))))) acc ids =
     Inr (acc @ bs, ids @ map (hash_with_domain K ID_DOMAIN) bs)"
  using assms
proof (induction bs arbitrary: acc ids)
  case (Cons b bs)
  obtain sender nonce where sn: "sender_nonce b = (sender, nonce)" by force
  have l: "length sender = 20" "length b = SIGNED_LEN" "length (hash_with_domain K ID_DOMAIN b) = 32"
    using sender_nonce_width [of b] Cons.prems sn by (simp_all add: hash_with_domain_def digest32_def)
  then have e: "fx_entry [Blob (hash_with_domain K ID_DOMAIN b), Blob (be_bytes (of_nat (length acc) :: u64)), Blob sender, Blob (be_bytes nonce), Blob b] =
      Inr (hash_with_domain K ID_DOMAIN b, of_nat (length acc), sender, nonce, b)"
    by (simp add: fx_entry_def fx_blob_Blob)
  from Cons.IH [of "acc @ [b]" "ids @ [hash_with_domain K ID_DOMAIN b]"] Cons.prems e sn show ?case
    by (simp add: cn_entry_rows_def cn_entry_row_def)
qed (simp add: cn_entry_rows_def)

lemma cn_read_entries_rows: "cn_read_entries K rows bs ids = Inr x \<Longrightarrow> \<exists>rs. rows = map Some rs"
proof (induction K rows bs ids rule: cn_read_entries.induct)
  case (3 K row rs bs ids)
  then obtain rs' where "rs = map Some rs'" by (fastforce simp: try_res_Inr_iff split: if_splits)
  then show ?case by (intro exI [of _ "row # rs'"]) simp
qed auto

lemma cn_audit_rows_rows: "cn_audit_rows C D m w rows x = Inr y \<Longrightarrow> \<exists>rs. rows = map Some rs"
proof (induction C D m w rows x rule: cn_audit_rows.induct)
  case (3 C D m w row rows x)
  then obtain rs where "rows = map Some rs" by (fastforce simp: try_res_Inr_iff)
  then show ?case by (intro exI [of _ "row # rs"]) simp
qed auto

abbreviation cn_archive :: "committed_block \<Rightarrow> cell list" where
  "cn_archive r \<equiv> cn_block_row r @ tl (cn_body_row r)"

lemma u64_revisions: "i < 2 ^ 64 \<Longrightarrow> j < 2 ^ 64 \<Longrightarrow> (of_nat i :: u64) = of_nat j \<longleftrightarrow> i = j"
proof -
  assume "i < 2 ^ 64" "j < 2 ^ 64"
  then have "unat (of_nat i :: u64) = i" "unat (of_nat j :: u64) = j" by (auto intro!: unat_of_nat_small)
  then show ?thesis by metis
qed

lemma distinct_filter_single: "distinct (map f xs) \<Longrightarrow> x \<in> set xs \<Longrightarrow> filter (\<lambda>y. f y = f x) xs = [x]"
proof (induction xs)
  case (Cons a xs)
  have n: "filter (\<lambda>y. f y = f a) xs = []" using Cons.prems(1) by (metis (mono_tags, lifting) distinct.simps(2) filter_False image_eqI list.set_map list.simps(9))
  show ?case
  proof (cases "x = a")
    case False
    then have "x \<in> set xs" using Cons.prems(2) by simp
    then have "f a \<noteq> f x" using Cons.prems(1) by (auto simp: image_iff)
    with Cons \<open>x \<in> set xs\<close> show ?thesis by simp
  qed (simp add: n)
qed simp

lemma cn_join:
  assumes "distinct (map (\<lambda>r. tp_revision (cm_tip r)) rs)"
  shows "cn_rows Cn_archive \<lparr>cd_tables = tables(Fx_bodies := map cn_body_row rs), cd_blocks = map cn_block_row rs, cd_tip = tips\<rparr> = map cn_archive rs"
proof -
  have f: "filter (\<lambda>d. d ! 0 = cn_block_row r ! 2) (map cn_body_row rs) = [cn_body_row r]" if "r \<in> set rs" for r
  proof -
    have "filter (\<lambda>d. d ! 0 = cn_block_row r ! 2) (map cn_body_row rs) = map cn_body_row (filter (\<lambda>y. tp_revision (cm_tip y) = tp_revision (cm_tip r)) rs)"
      by (simp add: filter_map comp_def cn_body_row_def cn_block_row_def Let_def)
    then show ?thesis using distinct_filter_single [OF assms that] by simp
  qed
  have "concat (map (\<lambda>r. map (\<lambda>d. cn_block_row r @ tl d) (filter (\<lambda>d. d ! 0 = cn_block_row r ! 2) (map cn_body_row rs))) qs) = map cn_archive qs"
    if "set qs \<subseteq> set rs" for qs using that by (induction qs) (simp_all add: f)
  from this [of rs] show ?thesis by (simp add: comp_def)
qed

lemma cn_archive_row_back:
  assumes "block_ok K r" "tp_revision (cm_tip r) = of_nat n"
  shows "cn_archive_row K n (cn_archive r) = Inr (cm_tip r, nb_header (cm_block r), nb_proposer (cm_block r), nb_protocol_data (cm_block r),
     of_nat (length (nb_transactions (cm_block r))), bo_gas_used (cm_outcome r), bo_fees_burned (cm_outcome r))"
proof -
  let ?b = "cm_block r" and ?tp = "cm_tip r"
  from assms have wf: "nb_wf ?b" and cl: "nb_claimed_hash ?b = nb_hash K ?b" and tp: "?tp = tip_at K ?b (tp_revision ?tp)" by (auto simp: block_ok_def)
  have h: "tp_hash ?tp = nb_hash K ?b" "tp_slot ?tp = bh_slot (nb_header ?b)" by (subst tp, simp add: tip_at_def)+
  have l: "length (nb_hash K ?b) = 32" using wf cl by (simp add: nb_wf_def)
  have hb: "length (header_bytes (nb_header ?b)) = 229" "header_from_bytes (header_bytes (nb_header ?b)) = Some (nb_header ?b)"
    "length (bh_parent_hash (nb_header ?b)) = 32"
    using wf by (simp_all add: nb_wf_def length_header_bytes BLOCK_HEADER_LEN_def header_dec_enc header_wf_def)
  have pd: "protocol_data_from_bytes (protocol_data_bytes (nb_protocol_data ?b)) = Some (nb_protocol_data ?b)"
    "length (protocol_data_bytes (nb_protocol_data ?b)) = 10"
    using wf by (simp_all add: nb_wf_def protocol_data_dec_enc wf_simps length_protocol_data_bytes)
  have cnt: "\<not> (of_nat MAX_TRANSACTIONS :: u64) < of_nat (length (nb_transactions ?b))"
    using wf by (simp add: nb_wf_def word_less_nat_alt unat_of_nat_small block_bounds)
  have t: "\<lparr>tp_hash = nb_hash K ?b, tp_slot = bh_slot (nb_header ?b), tp_revision = of_nat n\<rparr> = ?tp" using tp assms(2) by (simp add: tip_at_def)
  have w1: "be_word [0, 0, 0, 1 :: u8] = (1 :: u32)" by (simp add: be_word_def from_be_def)
  have cb: "length b = k \<Longrightarrow> cn_blob k (Blob b) = Inr b" for k b by simp
  have cc: "length b = k \<Longrightarrow> P b \<Longrightarrow> cn_check k (Blob b) P = Inr ()" for k b P by simp
  show ?thesis
    using wf l hb pd cnt t w1 assms(2)
    by (simp add: cn_archive_row_def cn_block_row_def cn_body_row_def Let_def h cb cc cn_bytes_def fx_integer_def nb_wf_def
        nb_hash_def del: cn_blob_Inr_iff cn_check_Inr_iff)
qed

lemma cn_audit_row_replays:
  assumes ok: "block_ok (c_keccak C) r" and dg: "digest32 (c_keccak C)" and rev: "tp_revision (cm_tip r) = of_nat (length (ns_blocks (fst x)))"
    and q: "fx_select D (Body_entries (be_bytes (tp_revision (cm_tip r)))) w = Some (map Some (map entry_columns (cn_record_rows r)))"
  shows "cn_audit_row C D m w (cn_archive r) x = cn_replay_block C m r x"
proof -
  let ?K = "c_keccak C" and ?b = "cm_block r"
  let ?txs = "nb_transactions (cm_block r)" and ?ids = "map (hash_with_domain (c_keccak C) ID_DOMAIN) (nb_transactions (cm_block r))"
  from ok have wf: "nb_wf ?b" and cl: "nb_claimed_hash ?b = nb_hash ?K ?b" and ids: "bo_transaction_ids (cm_outcome r) = ?ids" by (auto simp: block_ok_def)
  have txs: "\<forall>b \<in> set ?txs. length b = SIGNED_LEN" "length ?txs \<le> 3000" using wf by (simp_all add: nb_wf_def MAX_TRANSACTIONS_def)
  have e: "cn_read_entries ?K (map Some (map entry_columns (cn_record_rows r))) [] [] = Inr (?txs, ?ids)"
    using cn_read_entries_back [OF dg txs(1), of "[]" "tp_revision (cm_tip r)" "[]"] txs(2) ids by (simp add: cn_entries_def)
  have p: "nb_from_parts ?K (nb_header ?b) (nb_proposer ?b) (nb_protocol_data ?b) ?txs = Inr ?b"
    using wf cl by (simp add: nb_from_parts_def nb_wf_def nb_hash_def)
  have o: "\<lparr>bo_transaction_ids = ?ids, bo_gas_used = bo_gas_used (cm_outcome r), bo_fees_burned = bo_fees_burned (cm_outcome r)\<rparr> = cm_outcome r"
    using ids by simp
  have r: "\<lparr>cm_tip = cm_tip r, cm_block = cm_block r, cm_outcome = cm_outcome r\<rparr> = r" by simp
  show ?thesis
    unfolding cn_audit_row_def Let_def cn_archive_row_back [OF ok rev] try_res_simps prod.case q ok_or_simps e p map_err_simps o r cn_replay_block_def by simp
qed

lemma cn_entry_rows_revision: "x \<in> set (cn_entry_rows revision i es) \<Longrightarrow> x ! 1 = Blob (be_bytes revision)"
  by (auto simp: cn_entry_rows_def cn_entry_row_def split: prod.splits)

lemma filter_record_rows:
  assumes "distinct (map (\<lambda>r. tp_revision (cm_tip r)) rs)" "r \<in> set rs"
  shows "filter (\<lambda>x. x ! 1 = Blob (be_bytes (tp_revision (cm_tip r)))) (concat (map cn_record_rows rs)) = cn_record_rows r"
  using assms
proof (induction rs)
  case (Cons a rs)
  have f: "filter (\<lambda>x. x ! 1 = Blob (be_bytes (tp_revision (cm_tip r)))) (cn_record_rows q) = (if tp_revision (cm_tip q) = tp_revision (cm_tip r) then cn_record_rows q else [])" for q
    by (auto simp: filter_id_conv filter_empty_conv cn_entry_rows_revision [simplified])
  have z: "filter (\<lambda>x. x ! 1 = Blob (be_bytes (tp_revision (cm_tip r)))) (concat (map cn_record_rows qs)) = []" if "tp_revision (cm_tip r) \<notin> (\<lambda>r. tp_revision (cm_tip r)) ` set qs" for qs
    using that by (induction qs) (auto simp: f simp del: One_nat_def)
  show ?case
  proof (cases "r = a")
    case True
    with Cons.prems z [of rs] f [of a] show ?thesis by (simp del: One_nat_def)
  next
    case False
    with Cons.prems have "r \<in> set rs" "tp_revision (cm_tip a) \<noteq> tp_revision (cm_tip r)" by (auto simp: image_iff)
    with Cons f [of a] show ?thesis by (simp del: One_nat_def)
  qed
qed simp

text \<open>What the replay of a block does to the snapshot.\<close>

lemma insert_record_Inr:
  assumes "insert_record r s = Inr s'"
  shows "ns_blocks s' = ns_blocks s @ [r]" "ns_tip s' = cm_tip r" "ns_state s' = ns_state s"
  using assms by (auto simp: insert_record_def Let_def try_res_Inr_iff split: if_splits)

lemma cn_replay_block_Inr:
  assumes "cn_replay_block C m r (s, a) = Inr (s', a')"
  shows "insert_record r s = Inr s'"
  using assms by (auto simp: cn_replay_block_def cn_audit_block_def Let_def try_res_Inr_iff)

lemma cn_revisions_distinct:
  assumes "\<forall>i < length rs. tp_revision (cm_tip (rs ! i)) = of_nat i" "length rs \<le> 2 ^ 64"
  shows "distinct (map (\<lambda>r. tp_revision (cm_tip r)) rs)"
  using assms by (auto simp: distinct_conv_nth u64_revisions)

context canonical_engine
begin

lemma cn_cursor_content: "cn_select D q w = Some (map Some rows) \<Longrightarrow> rows = cn_rows q (content w)"
  using cn_select_all [of q w "map Some rows"] cn_select_row [of q w "map Some rows"]
  by (intro nth_equalityI) auto

lemma cn_one_row:
  assumes "one_row (cn_select D q w) = Inr row"
  shows "\<exists>rows. cn_rows q (content w) = row # rows"
proof -
  from assms obtain rows where "cn_select D q w = Some (Some row # rows)"
    by (auto simp: one_row_def first_row_def try_res_Inr_iff split: option.splits list.splits)
  from cn_select_row [OF this, of 0 row] show ?thesis by (cases "cn_rows q (content w)") simp_all
qed

lemma read_tip_content:
  assumes "read_tip D w = Inr tp" "cd_tip (content w) = [cn_tip_row t]"
  shows "tp = t"
proof -
  from assms(1) obtain row where r: "one_row (cn_select D Cn_tip w) = Inr row" "cn_tip_of row = Inr tp"
    by (auto simp: read_tip_def try_res_Inr_iff)
  from cn_one_row [OF r(1)] assms(2) have "row = [Blob (tp_hash t), Blob (be_bytes (tp_slot t)), Blob (be_bytes (tp_revision t))]"
    by (simp add: cn_tip_row_def)
  with r(2) show ?thesis by (auto simp: cn_tip_of_def try_res_Inr_iff)
qed

lemma cn_metadata_content:
  assumes "cn_verify_metadata K D m want w = Inr v" "cd_tables (content w) Fx_metadata = [cn_metadata_row K' m' revision bar initialized]"
  shows "v = revision" "want = None \<or> want = Some revision" "initialized = 1"
proof -
  from assms(1) obtain row where r: "first_row (fx_select D (Fx_all Fx_metadata) w) = Inr row"
    and m: "(case row of None \<Rightarrow> Inl (CStorage DUninitialized) | Some row \<Rightarrow> cn_metadata_ok K m want row) = Inr v"
    by (auto simp: cn_verify_metadata_def try_res_Inr_iff)
  from tables.first_row_content [of "Fx_all Fx_metadata" w row] r assms(2) have "row = Some (cn_metadata_row K' m' revision bar initialized)" by simp
  with m have "cn_metadata_ok K m want (cn_metadata_row K' m' revision bar initialized) = Inr v" by simp
  then show "v = revision" "want = None \<or> want = Some revision" "initialized = 1"
    by (auto simp: cn_metadata_ok_def cn_metadata_row_def Let_def try_res_Inr_iff fx_integer_def split: if_splits option.splits)
qed

lemma cn_audit_content:
  assumes "cn_audit_rows C D m w (map Some (map cn_archive qs)) x = Inr y" "digest32 (c_keccak C)"
    and "cd_tables (content w) Fx_transactions = concat (map cn_record_rows (ns_blocks (fst x) @ qs))"
    and "\<forall>i < length (ns_blocks (fst x) @ qs). block_ok (c_keccak C) ((ns_blocks (fst x) @ qs) ! i) \<and> tp_revision (cm_tip ((ns_blocks (fst x) @ qs) ! i)) = of_nat i"
    and "length (ns_blocks (fst x) @ qs) \<le> 2 ^ 64"
  shows "cn_replay C m qs x = Inr y"
  using assms
proof (induction qs arbitrary: x)
  case (Cons r qs)
  let ?n = "length (ns_blocks (fst x))"
  have r: "block_ok (c_keccak C) r" "tp_revision (cm_tip r) = of_nat ?n" using Cons.prems(4) by (auto dest!: spec [of _ ?n])
  have d: "distinct (map (\<lambda>r. tp_revision (cm_tip r)) (ns_blocks (fst x) @ r # qs))" by (rule cn_revisions_distinct) (use Cons.prems(4,5) in auto)
  from Cons.prems(1) obtain z where z: "cn_audit_row C D m w (cn_archive r) x = Inr z" "cn_audit_rows C D m w (map Some (map cn_archive qs)) z = Inr y"
    by (auto simp: try_res_Inr_iff)
  from z(1) obtain cursor e where c: "fx_select D (Body_entries (be_bytes (tp_revision (cm_tip r)))) w = Some cursor" and e: "cn_read_entries (c_keccak C) cursor [] [] = Inr e"
    unfolding cn_audit_row_def Let_def cn_archive_row_back [OF r] by (auto simp: try_res_Inr_iff)
  from cn_read_entries_rows [OF e] obtain rows where rows: "cursor = map Some rows" by blast
  have "rows = map entry_columns (cn_record_rows r)"
    using tables.cursor_content [of "Body_entries (be_bytes (tp_revision (cm_tip r)))" w rows] c rows Cons.prems(3) filter_record_rows [OF d, of r]
    by (simp del: map_append concat_append filter_append filter.simps map_map)
  with c rows have q: "fx_select D (Body_entries (be_bytes (tp_revision (cm_tip r)))) w = Some (map Some (map entry_columns (cn_record_rows r)))" by simp
  have rep: "cn_replay_block C m r x = Inr z" using z(1) cn_audit_row_replays [OF r(1) Cons.prems(2) r(2) q] by simp
  then have b: "ns_blocks (fst z) = ns_blocks (fst x) @ [r]" using insert_record_Inr(1) cn_replay_block_Inr by (cases x, cases z) fastforce
  have "cn_replay C m qs z = Inr y" by (rule Cons.IH [OF z(2) Cons.prems(2)]) (use Cons.prems(3-5) b in simp_all)
  with rep show ?case by simp
qed simp

lemma cn_load_unique:
  assumes load: "load_transaction C D m w = Inr s'" and st: "cn_stored (c_keccak C) m s (content w)"
    and rep: "cn_replayed C m s" and m: "manifest_ok C m" and wf': "bm_wf (ts_accounts (ns_state s))"
  shows "s' = s"
proof -
  from load obtain revision tp accounts state rows audit where
    v: "cn_verify_metadata (c_keccak C) D m None w = Inr revision" and tp: "read_tip D w = Inr tp"
    and seeds: "\<lparr>ts_accounts = accounts, ts_gas_used_total = ts_gas_used_total (mf_initial m), ts_fees_burned_total = ts_fees_burned_total (mf_initial m)\<rparr> = mf_initial m"
    and rs: "read_state (cn_fixture D) w = Inr state" and q: "cn_select D Cn_archive w = Some rows"
    and a: "cn_audit_rows C D m w rows (cn_empty state tp, mf_initial m) = Inr (s', audit)"
    by (auto simp: load_transaction_def Let_def try_res_Inr_iff split: if_splits)
  have state: "state = ns_state s" using tables.read_state_content [OF rs _ _ wf'] st by (simp add: cn_stored_def)
  have t: "tp = ns_tip s" using read_tip_content [OF tp] st by (simp add: cn_stored_def)
  from rep have ok: "\<forall>i < length (ns_blocks s). block_ok (c_keccak C) (ns_blocks s ! i) \<and> tp_revision (cm_tip (ns_blocks s ! i)) = of_nat i"
    "length (ns_blocks s) \<le> 2 ^ 64" by (auto simp: cn_replayed_def)
  from cn_audit_rows_rows [OF a] obtain rows' where rows': "rows = map Some rows'" by blast
  have d: "distinct (map (\<lambda>r. tp_revision (cm_tip r)) (ns_blocks s))" by (rule cn_revisions_distinct) (use ok in auto)
  have "content w = \<lparr>cd_tables = (cd_tables (content w))(Fx_bodies := map cn_body_row (ns_blocks s)), cd_blocks = map cn_block_row (ns_blocks s), cd_tip = cd_tip (content w)\<rparr>"
    using st by (auto simp: cn_stored_def fun_upd_idem)
  then have "cn_rows Cn_archive (content w) = map cn_archive (ns_blocks s)" using cn_join [OF d] by metis
  with cn_cursor_content [OF q [unfolded rows']] have "rows' = map cn_archive (ns_blocks s)" by simp
  with a rows' state t have a': "cn_audit_rows C D m w (map Some (map cn_archive (ns_blocks s))) (cn_empty (ns_state s) (ns_tip s), mf_initial m) = Inr (s', audit)" by simp
  have "cn_replay C m (ns_blocks s) (cn_empty (ns_state s) (ns_tip s), mf_initial m) = Inr (s', audit)"
    by (rule cn_audit_content [OF a']) (use st ok m in \<open>auto simp: cn_stored_def cn_empty_def manifest_ok_def\<close>)
  with rep show ?thesis by (simp add: cn_replayed_def)
qed

end

section \<open>Replayed archives\<close>

lemma cn_replay_append: "cn_replay C m (rs @ qs) x = try_res (cn_replay C m rs x) (cn_replay C m qs)"
  by (induction rs arbitrary: x) (auto simp: try_res_def split: sum.splits)

text \<open>The replay never reads the ledger that the snapshot carries, nor, before the anchor, its tip.\<close>

lemma insert_record_state: "insert_record r (s\<lparr>ns_state := st\<rparr>) = map_sum id (\<lambda>s. s\<lparr>ns_state := st\<rparr>) (insert_record r s)"
  by (auto simp: insert_record_def Let_def try_res_def split: sum.splits prod.splits)

lemma insert_record_tip: "insert_record r (s\<lparr>ns_tip := tp\<rparr>) = insert_record r s"
  by (simp add: insert_record_def Let_def cong: if_cong)

lemma audit_then_insert: "try_res A (\<lambda>a. try_res I (\<lambda>s. Inr (s, a))) = Inr (s', a') \<longleftrightarrow> A = Inr a' \<and> I = Inr s'"
  by (auto simp: try_res_Inr_iff)

lemma cn_replay_block_state:
  "cn_replay_block C m r (s, a) = Inr (s', a') \<Longrightarrow> cn_replay_block C m r (s\<lparr>ns_state := st\<rparr>, a) = Inr (s'\<lparr>ns_state := st\<rparr>, a')"
  unfolding cn_replay_block_def cn_audit_block_def Let_def prod.case try_res_Inr_iff [of "map_err CBlock p" for p] audit_then_insert
  by (elim exE conjE) (simp add: insert_record_state cong: if_cong)

lemma cn_replay_state: "cn_replay C m rs (s, a) = Inr (s', a') \<Longrightarrow> cn_replay C m rs (s\<lparr>ns_state := st\<rparr>, a) = Inr (s'\<lparr>ns_state := st\<rparr>, a')"
proof (induction rs arbitrary: s a)
  case (Cons r rs)
  then obtain s1 a1 where "cn_replay_block C m r (s, a) = Inr (s1, a1)" "cn_replay C m rs (s1, a1) = Inr (s', a')" by (auto simp: try_res_Inr_iff)
  with cn_replay_block_state Cons.IH show ?case by (metis cn_replay.simps(2) try_res_simps(2))
qed simp

lemma cn_replay_tip:
  "tp_revision (cm_tip r) = 0 \<Longrightarrow> cn_replay C m (r # rs) (s\<lparr>ns_tip := tp\<rparr>, a) = cn_replay C m (r # rs) (s, a)"
  by (simp add: cn_replay_block_def cn_audit_block_def insert_record_tip)

definition body_of :: "fixture_manifest \<Rightarrow> committed_block \<Rightarrow> applied_body" where
  "body_of m r = \<lparr>ab_context = mf_context m, ab_slot = bh_slot (nb_header (cm_block r)), ab_transactions = nb_transactions (cm_block r), ab_outcome = cm_outcome r\<rparr>"

lemma cn_replay_block_ledger:
  assumes "cn_replay_block C m r (s, a) = Inr (s', a')" "tp_revision (cm_tip r) \<noteq> 0" "block_ok (c_keccak C) r"
  shows "replay C a [body_of m r] = Some a'" "checked_add (tp_slot (ns_tip s)) 1 = Some (bh_slot (nb_header (cm_block r)))"
    "bh_parent_hash (nb_header (cm_block r)) = tp_hash (ns_tip s)"
proof -
  have sl: "tp_slot (cm_tip r) = bh_slot (nb_header (cm_block r))"
  proof -
    have "cm_tip r = tip_at (c_keccak C) (cm_block r) (tp_revision (cm_tip r))" using assms(3) by (simp add: block_ok_def)
    then show ?thesis by (metis tip.select_convs(2) tip_at_def)
  qed
  from assms(1,2) obtain sb where sb: "stage_body C a (mf_context m) (tp_slot (cm_tip r)) (nb_transactions (cm_block r)) = Inr sb" "sb_candidate sb = a'"
    "ab_outcome (sb_record sb) = cm_outcome r" "checked_add (tp_slot (ns_tip s)) 1 = Some (tp_slot (cm_tip r))" "tp_hash (ns_tip s) = bh_parent_hash (nb_header (cm_block r))"
    by (auto simp: cn_replay_block_def cn_audit_block_def Let_def try_res_Inr_iff split: if_splits)
  have "sb_record sb = body_of m r" using staged_entries(3-5) [OF sb(1)] sb(3) sl by (simp add: body_of_def)
  with stage_body_replays [OF sb(1)] sb sl show "replay C a [body_of m r] = Some a'" "checked_add (tp_slot (ns_tip s)) 1 = Some (bh_slot (nb_header (cm_block r)))"
    "bh_parent_hash (nb_header (cm_block r)) = tp_hash (ns_tip s)" by (auto simp del: replay.simps(2))
qed

lemma cn_replay_ledger:
  assumes "cn_replay C m rs (s, a) = Inr (s', a')" "\<forall>r \<in> set rs. tp_revision (cm_tip r) \<noteq> 0 \<and> block_ok (c_keccak C) r"
  shows "replay C a (map (body_of m) rs) = Some a'"
  using assms
proof (induction rs arbitrary: s a)
  case (Cons r rs)
  then obtain s1 a1 where r: "cn_replay_block C m r (s, a) = Inr (s1, a1)" "cn_replay C m rs (s1, a1) = Inr (s', a')" by (auto simp: try_res_Inr_iff)
  have "replay C a ([body_of m r] @ map (body_of m) rs) = Some a'"
    unfolding Native_Transfer.replay_append using cn_replay_block_ledger(1) [OF r(1)] Cons.IH [OF r(2)] Cons.prems(2) by simp
  then show ?case by simp
qed simp

lemma cn_replay_tips:
  assumes "cn_replay C m rs (s, a) = Inr (s', a')" "rs \<noteq> []"
  shows "ns_tip s' = cm_tip (last rs)" "ns_blocks s' = ns_blocks s @ rs"
proof -
  have "ns_tip s' = (if rs = [] then ns_tip s else cm_tip (last rs)) \<and> ns_blocks s' = ns_blocks s @ rs"
    using assms(1)
  proof (induction rs arbitrary: s a)
    case (Cons r rs)
    then obtain s1 a1 where r: "cn_replay_block C m r (s, a) = Inr (s1, a1)" "cn_replay C m rs (s1, a1) = Inr (s', a')" by (auto simp: try_res_Inr_iff)
    with Cons.IH [OF r(2)] insert_record_Inr [OF cn_replay_block_Inr [OF r(1)]] show ?case by simp
  qed simp
  with assms(2) show "ns_tip s' = cm_tip (last rs)" "ns_blocks s' = ns_blocks s @ rs" by simp_all
qed

lemma cn_replayed_anchor:
  assumes "cn_replayed C m s"
  obtains rs where "ns_blocks s = anchor_record (c_keccak C) m # rs" "replay C (mf_initial m) (map (body_of m) rs) = Some (ns_state s)"
proof -
  from assms have b: "ns_blocks s \<noteq> []" "length (ns_blocks s) \<le> 2 ^ 64"
    "\<And>i. i < length (ns_blocks s) \<Longrightarrow> block_ok (c_keccak C) (ns_blocks s ! i) \<and> tp_revision (cm_tip (ns_blocks s ! i)) = of_nat i"
    and rp: "cn_replay C m (ns_blocks s) (cn_empty (ns_state s) (ns_tip s), mf_initial m) = Inr (s, ns_state s)"
    by (auto simp: cn_replayed_def)
  from b(1) obtain r rs where rs: "ns_blocks s = r # rs" by (cases "ns_blocks s") auto
  have r0: "tp_revision (cm_tip r) = 0" "block_ok (c_keccak C) r" using b(3) [of 0] rs by simp_all
  from rp rs obtain s1 a1 where 1: "cn_replay_block C m r (cn_empty (ns_state s) (ns_tip s), mf_initial m) = Inr (s1, a1)"
    and 2: "cn_replay C m rs (s1, a1) = Inr (s, ns_state s)" by (auto simp: try_res_Inr_iff)
  from 1 r0 have a: "a1 = mf_initial m" "cm_block r = mf_anchor m" "cm_outcome r = default_outcome"
    by (auto simp: cn_replay_block_def cn_audit_block_def Let_def try_res_Inr_iff split: if_splits)
  have nz: "tp_revision (cm_tip q) \<noteq> 0 \<and> block_ok (c_keccak C) q" if "q \<in> set rs" for q
  proof -
    from that obtain i where i: "i < length rs" "q = rs ! i" by (auto simp: in_set_conv_nth)
    then have "tp_revision (cm_tip q) = of_nat (Suc i)" "block_ok (c_keccak C) q" using b(3) [of "Suc i"] rs by simp_all
    moreover have "(of_nat (Suc i) :: u64) \<noteq> of_nat 0" using i b(2) rs by (subst u64_revisions) simp_all
    ultimately show ?thesis by simp
  qed
  have "r = anchor_record (c_keccak C) m"
    using r0 a by (auto simp: block_ok_def anchor_record_def intro: committed_block.equality)
  with that rs cn_replay_ledger [OF 2] nz a show thesis by blast
qed

lemma cn_replayed_facts:
  assumes "cn_replayed C m s" "manifest_ok C m"
  shows "bm_wf (ts_accounts (ns_state s))" "ns_tip s = cm_tip (last (ns_blocks s))" "tp_revision (ns_tip s) = of_nat (length (ns_blocks s) - 1)"
    "length (tp_hash (ns_tip s)) = 32"
proof -
  from assms(1) have b: "ns_blocks s \<noteq> []" "length (ns_blocks s) \<le> 2 ^ 64"
    "\<And>i. i < length (ns_blocks s) \<Longrightarrow> block_ok (c_keccak C) (ns_blocks s ! i) \<and> tp_revision (cm_tip (ns_blocks s ! i)) = of_nat i"
    and rp: "cn_replay C m (ns_blocks s) (cn_empty (ns_state s) (ns_tip s), mf_initial m) = Inr (s, ns_state s)"
    by (auto simp: cn_replayed_def)
  show t: "ns_tip s = cm_tip (last (ns_blocks s))" by (rule cn_replay_tips(1) [OF rp b(1)])
  show "tp_revision (ns_tip s) = of_nat (length (ns_blocks s) - 1)" using b t by (simp add: last_conv_nth)
  have "block_ok (c_keccak C) (last (ns_blocks s))" using b by (simp add: last_conv_nth)
  then have "tp_hash (ns_tip s) = nb_hash (c_keccak C) (cm_block (last (ns_blocks s)))" unfolding t block_ok_def by (metis tip.select_convs(1) tip_at_def)
  then show "length (tp_hash (ns_tip s)) = 32" using assms(2) by (simp add: manifest_ok_def digest32_def nb_hash_def header_hash_def hash_with_domain_def)
  from cn_replayed_anchor [OF assms(1)] obtain rs where "replay C (mf_initial m) (map (body_of m) rs) = Some (ns_state s)" by blast
  with replay_conserves [OF this] assms(2) show "bm_wf (ts_accounts (ns_state s))" by (simp add: manifest_ok_def)
qed

section \<open>Prepared and staged blocks\<close>

text \<open>What preparing and receiving establish, whatever happens to the owner afterwards.\<close>

definition prepared_ok :: "'k crypto \<Rightarrow> fixture_manifest \<Rightarrow> prepared_native_block \<Rightarrow> bool" where
  "prepared_ok C m p \<longleftrightarrow> (let r = pn_record p; b = cm_block r; cx = mf_context m in
     block_ok (c_keccak C) r \<and> checked_add (tp_revision (cnb_tip (pn_base p))) 1 = Some (tp_revision (cm_tip r)) \<and>
     (\<exists>ids sb. preflight (c_keccak C) b cx = Inr ids \<and> stage_body C (cnb_state (pn_base p)) cx (bh_slot (nb_header b)) (nb_transactions b) = Inr sb \<and>
        match_outcome b (ab_transactions (sb_record sb)) ids (ab_outcome (sb_record sb)) = Inr () \<and>
        cm_outcome r = ab_outcome (sb_record sb) \<and> pn_candidate p = sb_candidate sb))"

lemma transaction_root_width: "ordered_transaction_root K ids = Some root \<Longrightarrow> digest32 K \<Longrightarrow> length root = 32"
  by (auto simp: ordered_transaction_root_def digest32_def bind_eq_Some_conv)

lemma cn_build_block:
  assumes "build K cx slot parent proposer ticket txs outcome = Inr b" "digest32 K" "length parent = 32" "utf8_valid proposer"
    and "\<forall>tx \<in> set txs. length tx = SIGNED_LEN"
  shows "nb_wf b" "nb_transactions b = txs" "bh_slot (nb_header b) = slot" "bh_parent_hash (nb_header b) = parent"
    "pd_fees_burned (nb_protocol_data b) = bo_fees_burned outcome" "bh_gas_used (nb_header b) = bo_gas_used outcome"
  using assms transaction_root_width [OF _ assms(2), of "bo_transaction_ids outcome"]
  by (auto simp: build_def Let_def try_res_Inr_iff nb_from_parts_def nb_wf_def header_wf_def digest32_def proposer_id_def protocol_data_root_def
      hash_with_domain_def header_hash_def EMPTY_RECEIPTS_ROOT_def keccak256_def PLACEHOLDER_STATE_ROOT_def split: if_splits)

lemma match_outcome_Inr:
  "match_outcome b txs ids outcome = Inr u \<longleftrightarrow> txs = nb_transactions b \<and> ids = bo_transaction_ids outcome \<and>
     bh_gas_used (nb_header b) = bo_gas_used outcome \<and> pd_fees_burned (nb_protocol_data b) = bo_fees_burned outcome"
  by (auto simp: match_outcome_def)

lemma cn_prepare_Inr:
  assumes "cn_prepare_next C ow proposer ticket body = Inr p"
  obtains slot revision sb block ids where "\<not> co_poisoned ow" "checked_add (tp_slot (ns_tip (co_snapshot ow))) 1 = Some slot"
    "checked_add (tp_revision (ns_tip (co_snapshot ow))) 1 = Some revision"
    "stage_body C (ns_state (co_snapshot ow)) (mf_context (co_manifest ow)) slot body = Inr sb"
    "build (c_keccak C) (mf_context (co_manifest ow)) slot (tp_hash (ns_tip (co_snapshot ow))) proposer ticket body (ab_outcome (sb_record sb)) = Inr block"
    "preflight (c_keccak C) block (mf_context (co_manifest ow)) = Inr ids"
    "match_outcome block body ids (ab_outcome (sb_record sb)) = Inr ()" "cn_check_transactions ow block (ab_outcome (sb_record sb)) = Inr ()"
    "p = \<lparr>pn_base = cn_base_of (c_keccak C) ow (ns_state (co_snapshot ow)), pn_candidate = sb_candidate sb,
           pn_record = \<lparr>cm_tip = tip_at (c_keccak C) block revision, cm_block = block, cm_outcome = ab_outcome (sb_record sb)\<rparr>\<rparr>"
proof -
  from assms obtain slot revision sb block ids where *: "\<not> co_poisoned ow" "checked_add (tp_slot (ns_tip (co_snapshot ow))) 1 = Some slot"
    "checked_add (tp_revision (ns_tip (co_snapshot ow))) 1 = Some revision"
    and sb: "stage_body C (ns_state (co_snapshot ow)) (mf_context (co_manifest ow)) slot body = Inr sb"
    and b: "build (c_keccak C) (mf_context (co_manifest ow)) slot (tp_hash (ns_tip (co_snapshot ow))) proposer ticket (ab_transactions (sb_record sb)) (ab_outcome (sb_record sb)) = Inr block"
    "preflight (c_keccak C) block (mf_context (co_manifest ow)) = Inr ids"
    "match_outcome block (ab_transactions (sb_record sb)) ids (ab_outcome (sb_record sb)) = Inr ()" "cn_check_transactions ow block (ab_outcome (sb_record sb)) = Inr ()"
    "p = \<lparr>pn_base = cn_base_of (c_keccak C) ow (sb_base sb), pn_candidate = sb_candidate sb,
           pn_record = \<lparr>cm_tip = tip_at (c_keccak C) block revision, cm_block = block, cm_outcome = ab_outcome (sb_record sb)\<rparr>\<rparr>"
    by (auto simp: cn_prepare_next_def Let_def cn_ready_def try_res_Inr_iff split: if_splits option.splits)
  have "ab_transactions (sb_record sb) = body" "sb_base sb = ns_state (co_snapshot ow)" using staged_entries(5) [OF sb] sb by (auto elim: stage_body_elim)
  with that * sb b show thesis by auto
qed

lemma cn_received_Inr:
  assumes "cn_stage_received C ow bs g = Inr st"
  obtains revision sb block ids where "\<not> co_poisoned ow" "nb_from_wire_bytes bs = Inr block"
    "preflight (c_keccak C) block (mf_context (co_manifest ow)) = Inr ids" "check_append (c_keccak C) ow block (Some g) = Inr ()"
    "stage_body C (ns_state (co_snapshot ow)) (mf_context (co_manifest ow)) (bh_slot (nb_header block)) (nb_transactions block) = Inr sb"
    "match_outcome block (nb_transactions block) ids (ab_outcome (sb_record sb)) = Inr ()"
    "checked_add (tp_revision (ns_tip (co_snapshot ow))) 1 = Some revision"
    "st = \<lparr>sx_prepared = \<lparr>pn_base = cn_base_of (c_keccak C) ow (ns_state (co_snapshot ow)), pn_candidate = sb_candidate sb,
           pn_record = \<lparr>cm_tip = tip_at (c_keccak C) block revision, cm_block = block, cm_outcome = ab_outcome (sb_record sb)\<rparr>\<rparr>, sx_grant = g\<rparr>"
proof -
  from assms obtain revision sb block ids where *: "\<not> co_poisoned ow" "nb_from_wire_bytes bs = Inr block"
    "preflight (c_keccak C) block (mf_context (co_manifest ow)) = Inr ids" "check_append (c_keccak C) ow block (Some g) = Inr ()"
    and sb: "stage_body C (ns_state (co_snapshot ow)) (mf_context (co_manifest ow)) (bh_slot (nb_header block)) (nb_transactions block) = Inr sb"
    and b: "match_outcome block (ab_transactions (sb_record sb)) ids (ab_outcome (sb_record sb)) = Inr ()"
    "checked_add (tp_revision (ns_tip (co_snapshot ow))) 1 = Some revision"
    "st = \<lparr>sx_prepared = \<lparr>pn_base = cn_base_of (c_keccak C) ow (sb_base sb), pn_candidate = sb_candidate sb,
           pn_record = \<lparr>cm_tip = tip_at (c_keccak C) block revision, cm_block = block, cm_outcome = ab_outcome (sb_record sb)\<rparr>\<rparr>, sx_grant = g\<rparr>"
    by (auto simp: cn_stage_received_def Let_def cn_ready_def try_res_Inr_iff split: if_splits option.splits)
  have "ab_transactions (sb_record sb) = nb_transactions block" "sb_base sb = ns_state (co_snapshot ow)" using staged_entries(5) [OF sb] sb by (auto elim: stage_body_elim)
  with that * sb b show thesis by auto
qed

lemma cn_prepared_block_ok:
  assumes "digest32 (c_keccak C)" "nb_wf block" "preflight (c_keccak C) block cx = Inr ids"
    "match_outcome block txs ids outcome = Inr ()"
  shows "block_ok (c_keccak C) \<lparr>cm_tip = tip_at (c_keccak C) block revision, cm_block = block, cm_outcome = outcome\<rparr>"
  using assms by (auto simp: block_ok_def preflight_Inr_iff match_outcome_Inr tip_at_def)

lemma cn_prepare_ok:
  assumes p: "cn_prepare_next C ow proposer ticket body = Inr p" and m: "manifest_ok C (co_manifest ow)" and rep: "cn_replayed C (co_manifest ow) (co_snapshot ow)"
    and u: "utf8_valid proposer"
  shows "prepared_ok C (co_manifest ow) p"
proof -
  from p obtain slot revision sb block ids where
    *: "checked_add (tp_slot (ns_tip (co_snapshot ow))) 1 = Some slot" "checked_add (tp_revision (ns_tip (co_snapshot ow))) 1 = Some revision"
    and sb: "stage_body C (ns_state (co_snapshot ow)) (mf_context (co_manifest ow)) slot body = Inr sb"
    and b: "build (c_keccak C) (mf_context (co_manifest ow)) slot (tp_hash (ns_tip (co_snapshot ow))) proposer ticket body (ab_outcome (sb_record sb)) = Inr block"
    and pf: "preflight (c_keccak C) block (mf_context (co_manifest ow)) = Inr ids"
    and mo: "match_outcome block body ids (ab_outcome (sb_record sb)) = Inr ()"
    and p: "p = \<lparr>pn_base = cn_base_of (c_keccak C) ow (ns_state (co_snapshot ow)), pn_candidate = sb_candidate sb,
           pn_record = \<lparr>cm_tip = tip_at (c_keccak C) block revision, cm_block = block, cm_outcome = ab_outcome (sb_record sb)\<rparr>\<rparr>"
    by (rule cn_prepare_Inr)
  have dg: "digest32 (c_keccak C)" using m by (simp add: manifest_ok_def)
  note w = cn_build_block [OF b dg cn_replayed_facts(4) [OF rep m] u staged_body_entries(1) [OF sb]]
  have ok: "block_ok (c_keccak C) \<lparr>cm_tip = tip_at (c_keccak C) block revision, cm_block = block, cm_outcome = ab_outcome (sb_record sb)\<rparr>"
    by (rule cn_prepared_block_ok [OF dg w(1) pf mo])
  have "ab_transactions (sb_record sb) = body" by (rule staged_entries(5) [OF sb])
  with * sb pf mo ok w(2,3) show ?thesis
    by (auto simp: prepared_ok_def p Let_def cn_base_of_def tip_at_def)
qed

lemma cn_received_ok:
  assumes p: "cn_stage_received C ow bs g = Inr st" and m: "manifest_ok C (co_manifest ow)"
  shows "prepared_ok C (co_manifest ow) (sx_prepared st)"
proof -
  from p obtain revision sb block ids where wire: "nb_from_wire_bytes bs = Inr block"
    and pf: "preflight (c_keccak C) block (mf_context (co_manifest ow)) = Inr ids"
    and sb: "stage_body C (ns_state (co_snapshot ow)) (mf_context (co_manifest ow)) (bh_slot (nb_header block)) (nb_transactions block) = Inr sb"
    and mo: "match_outcome block (nb_transactions block) ids (ab_outcome (sb_record sb)) = Inr ()"
    and rv: "checked_add (tp_revision (ns_tip (co_snapshot ow))) 1 = Some revision"
    and st: "st = \<lparr>sx_prepared = \<lparr>pn_base = cn_base_of (c_keccak C) ow (ns_state (co_snapshot ow)), pn_candidate = sb_candidate sb,
           pn_record = \<lparr>cm_tip = tip_at (c_keccak C) block revision, cm_block = block, cm_outcome = ab_outcome (sb_record sb)\<rparr>\<rparr>, sx_grant = g\<rparr>"
    by (rule cn_received_Inr)
  have dg: "digest32 (c_keccak C)" using m by (simp add: manifest_ok_def)
  have ok: "block_ok (c_keccak C) \<lparr>cm_tip = tip_at (c_keccak C) block revision, cm_block = block, cm_outcome = ab_outcome (sb_record sb)\<rparr>"
    by (rule cn_prepared_block_ok [OF dg _ pf mo]) (use nb_enc_dec [OF wire] in simp)
  have "ab_transactions (sb_record sb) = nb_transactions block" by (rule staged_entries(5) [OF sb])
  with pf sb mo rv ok show ?thesis by (auto simp: prepared_ok_def st Let_def cn_base_of_def tip_at_def)
qed

lemma check_append_Inr:
  assumes "check_append K ow block (Some g) = Inr u"
  shows "checked_add (tp_slot (ns_tip (co_snapshot ow))) 1 = Some (bh_slot (nb_header block))" "bh_parent_hash (nb_header block) = tp_hash (ns_tip (co_snapshot ow))"
    "map_of (ns_hashes (co_snapshot ow)) (nb_hash K block) = None" "map_of (ns_slots (co_snapshot ow)) (bh_slot (nb_header block)) = None"
    "grant_matches K g (mf_context (co_manifest ow)) (nb_hash K (mf_anchor (co_manifest ow))) (ns_tip (co_snapshot ow)) block"
  using assms by (auto simp: check_append_def Let_def try_res_Inr_iff split: option.splits if_splits)

text \<open>Appending such a block to a replayed archive gives a replayed archive.\<close>

lemma cn_replayed_next:
  assumes rep: "cn_replayed C m s" and m: "manifest_ok C m" and p: "prepared_ok C m p"
    and base: "cnb_tip (pn_base p) = ns_tip s" "cnb_state (pn_base p) = ns_state s"
    and app: "checked_add (tp_slot (ns_tip s)) 1 = Some (bh_slot (nb_header (cm_block (pn_record p))))" "bh_parent_hash (nb_header (cm_block (pn_record p))) = tp_hash (ns_tip s)"
    and ins: "insert_record (pn_record p) (s\<lparr>ns_state := pn_candidate p\<rparr>) = Inr s'"
  shows "cn_replayed C m s'" "ns_blocks s' = ns_blocks s @ [pn_record p]" "ns_tip s' = cm_tip (pn_record p)" "ns_state s' = pn_candidate p"
    "tp_revision (cm_tip (pn_record p)) = of_nat (length (ns_blocks s))" "length (ns_blocks s) < 2 ^ 64"
proof -
  let ?r = "pn_record p" and ?n = "length (ns_blocks s)"
  note ir = insert_record_Inr [OF ins]
  show b': "ns_blocks s' = ns_blocks s @ [?r]" and t': "ns_tip s' = cm_tip ?r" and st': "ns_state s' = pn_candidate p" using ir by simp_all
  from rep have b: "ns_blocks s \<noteq> []" "?n \<le> 2 ^ 64"
    "\<And>i. i < ?n \<Longrightarrow> block_ok (c_keccak C) (ns_blocks s ! i) \<and> tp_revision (cm_tip (ns_blocks s ! i)) = of_nat i"
    and rp: "cn_replay C m (ns_blocks s) (cn_empty (ns_state s) (ns_tip s), mf_initial m) = Inr (s, ns_state s)"
    by (auto simp: cn_replayed_def)
  from p have ok: "block_ok (c_keccak C) ?r" and rv: "checked_add (tp_revision (ns_tip s)) 1 = Some (tp_revision (cm_tip ?r))" by (auto simp: prepared_ok_def Let_def base)
  have "?n - 1 < 2 ^ 64" using b(1,2) by (cases "ns_blocks s") simp_all
  then have un: "unat (tp_revision (ns_tip s)) = ?n - 1" using cn_replayed_facts(3) [OF rep m] by (simp add: unat_of_nat_small)
  have v: "unat (tp_revision (cm_tip ?r)) = ?n" using checked_add_Some [OF rv] un b(1) by (cases "ns_blocks s") simp_all
  show lim: "?n < 2 ^ 64" using v unat_bound [of "tp_revision (cm_tip ?r)"] by simp
  show rev: "tp_revision (cm_tip ?r) = of_nat ?n" using v lim by (simp add: word_unat_eq_iff unat_of_nat_small)
  have nz: "tp_revision (cm_tip ?r) \<noteq> 0" using v b(1) by auto
  from b(1) obtain r0 rs0 where r0: "ns_blocks s = r0 # rs0" by (cases "ns_blocks s") auto
  have z0: "tp_revision (cm_tip r0) = 0" using b(3) [of 0] r0 by simp
  have e: "cn_empty (pn_candidate p) (cm_tip ?r) = (cn_empty (ns_state s) (ns_tip s))\<lparr>ns_state := pn_candidate p\<rparr>\<lparr>ns_tip := cm_tip ?r\<rparr>" by (simp add: cn_empty_def)
  have rp': "cn_replay C m (ns_blocks s) (cn_empty (pn_candidate p) (cm_tip ?r), mf_initial m) = Inr (s\<lparr>ns_state := pn_candidate p\<rparr>, ns_state s)"
    unfolding e r0 cn_replay_tip [OF z0] using cn_replay_state [OF rp [unfolded r0]] .
  have sl: "tp_slot (cm_tip ?r) = bh_slot (nb_header (cm_block ?r))" using ok unfolding block_ok_def by (metis tip.select_convs(2) tip_at_def)
  from p obtain ids sb where q: "preflight (c_keccak C) (cm_block ?r) (mf_context m) = Inr ids"
    "stage_body C (ns_state s) (mf_context m) (bh_slot (nb_header (cm_block ?r))) (nb_transactions (cm_block ?r)) = Inr sb"
    "match_outcome (cm_block ?r) (ab_transactions (sb_record sb)) ids (ab_outcome (sb_record sb)) = Inr ()"
    "cm_outcome ?r = ab_outcome (sb_record sb)" "pn_candidate p = sb_candidate sb" by (auto simp: prepared_ok_def Let_def base)
  have one: "cn_replay_block C m ?r (s\<lparr>ns_state := pn_candidate p\<rparr>, ns_state s) = Inr (s', pn_candidate p)"
    using q nz app ins by (simp add: cn_replay_block_def cn_audit_block_def Let_def sl)
  have "\<forall>i < length (ns_blocks s'). block_ok (c_keccak C) (ns_blocks s' ! i) \<and> tp_revision (cm_tip (ns_blocks s' ! i)) = of_nat i"
    using b(3) ok rev by (auto simp: b' nth_append less_Suc_eq)
  moreover have "cn_replay C m (ns_blocks s') (cn_empty (ns_state s') (ns_tip s'), mf_initial m) = Inr (s', ns_state s')"
    unfolding b' t' st' cn_replay_append rp' using one by simp
  ultimately show "cn_replayed C m s'" using lim by (simp add: cn_replayed_def b')
qed

section \<open>The rows after a commit\<close>

definition cn_committed_db :: "prepared_native_block \<Rightarrow> cndb \<Rightarrow> cndb" where
  "cn_committed_db p db =
     (let r = pn_record p; tp = cm_tip r; old = cnb_tip (pn_base p);
          db = db\<lparr>cd_tables := (cd_tables db)(Fx_accounts := foldl (\<lambda>rows p. put_row (fx_key Fx_accounts) (fx_account_row p) rows) (cd_tables db Fx_accounts)
                 (changed_accounts (ts_accounts (cnb_state (pn_base p))) (ts_accounts (pn_candidate p))))\<rparr>;
          db = fx_effect (Fx_update_accounting (be_bytes (ts_gas_used_total (pn_candidate p))) (be_bytes (ts_fees_burned_total (pn_candidate p)))) db;
          db = cn_apply (Cn_insert_block (cn_block_row r)) db;
          db = fx_effect (Fx_insert Fx_bodies (cn_body_row r)) db;
          db = db\<lparr>cd_tables := (cd_tables db)(Fx_transactions := foldl (\<lambda>rows r. put_row (fx_key Fx_transactions) r rows) (cd_tables db Fx_transactions) (cn_record_rows r))\<rparr>;
          db = cn_apply (Cn_update_revision (be_bytes (tp_revision tp)) (be_bytes (tp_revision old))) db
      in cn_apply (Cn_update_tip (tip_columns tp) (tip_columns old)) db)"

lemma cn_entry_rows_Cons [simp]:
  "cn_entry_rows revision i ((b, ident) # es) = cn_entry_row revision i b ident # cn_entry_rows revision (Suc i) es"
  by (simp add: cn_entry_rows_def)

lemma cn_entry_row_key: "fx_key Fx_transactions (cn_entry_row revision i b ident) = [be_bytes revision, be_bytes (of_nat i :: u64)]"
  by (simp add: cn_entry_row_def split: prod.splits)

lemma cn_entry_rows_key:
  assumes "r \<in> set (cn_entry_rows revision i es)"
  obtains j where "i \<le> j" "j < i + length es" "fx_key Fx_transactions r = [be_bytes revision, be_bytes (of_nat j :: u64)]"
  using assms by (auto simp: cn_entry_rows_def in_set_enumerate_eq cn_entry_row_key simp del: fx_key.simps)

lemma cn_entry_rows_sorted:
  "i + length es < 2 ^ 64 \<Longrightarrow> sorted_wrt (<) (map (fx_key Fx_transactions) (cn_entry_rows revision i es))"
proof (induction es arbitrary: i)
  case (Cons e es)
  obtain bs ident where e: "e = (bs, ident)" by force
  have "be_bytes (of_nat i :: u64) < be_bytes (of_nat j :: u64)" if "Suc i \<le> j" "j < Suc i + length es" for j
    using that Cons.prems by (intro be_bytes_nat_less) simp_all
  then show ?case using Cons by (auto simp: e cn_entry_row_key elim!: cn_entry_rows_key simp del: fx_key.simps)
qed (simp add: cn_entry_rows_def)

lemma cn_earlier_revisions:
  assumes "cn_replayed C m s" "r \<in> set (ns_blocks s)" "length (ns_blocks s) < 2 ^ 64"
  shows "be_bytes (tp_revision (cm_tip r)) < be_bytes (of_nat (length (ns_blocks s)) :: u64)"
proof -
  from assms(2) obtain i where i: "i < length (ns_blocks s)" "r = ns_blocks s ! i" by (auto simp: in_set_conv_nth)
  then have "tp_revision (cm_tip r) = of_nat i" using assms(1) by (auto simp: cn_replayed_def)
  with be_bytes_nat_less [OF i(1) assms(3)] show ?thesis by simp
qed

lemma cn_stored_next:
  assumes st: "cn_stored (c_keccak C) m s db" and rep: "cn_replayed C m s" and m: "manifest_ok C m" and p: "prepared_ok C m p"
    and base: "cnb_tip (pn_base p) = ns_tip s" "cnb_state (pn_base p) = ns_state s"
    and app: "checked_add (tp_slot (ns_tip s)) 1 = Some (bh_slot (nb_header (cm_block (pn_record p))))" "bh_parent_hash (nb_header (cm_block (pn_record p))) = tp_hash (ns_tip s)"
    and ins: "insert_record (pn_record p) (s\<lparr>ns_state := pn_candidate p\<rparr>) = Inr s'"
  shows "cn_stored (c_keccak C) m s' (cn_committed_db p db)"
proof -
  let ?r = "pn_record p" and ?n = "length (ns_blocks s)"
  note nx = cn_replayed_next [OF rep m p base app ins]
  note wf1 = cn_replayed_facts(1) [OF rep m]
  from p obtain sb where sb: "stage_body C (ns_state s) (mf_context m) (bh_slot (nb_header (cm_block ?r))) (nb_transactions (cm_block ?r)) = Inr sb" "pn_candidate p = sb_candidate sb"
    and wf: "nb_wf (cm_block ?r)" by (auto simp: prepared_ok_def Let_def base block_ok_def)
  note gr = stage_body_growth [OF sb(1) wf1]
  have acc: "foldl (\<lambda>rows p. put_row (fx_key Fx_accounts) (fx_account_row p) rows) (map fx_account_row (ts_accounts (ns_state s)))
      (changed_accounts (ts_accounts (ns_state s)) (ts_accounts (sb_candidate sb))) = map fx_account_row (ts_accounts (sb_candidate sb))"
    unfolding put_account_rows using changed_accounts_applied [OF wf1, of "ts_accounts (sb_candidate sb)"] gr by simp
  have early: "be_bytes (tp_revision (cm_tip x)) < be_bytes (of_nat ?n :: u64)" if "x \<in> set (ns_blocks s)" for x
    by (rule cn_earlier_revisions [OF rep that nx(6)])
  have blk: "put_row (\<lambda>r. cell_bytes (r ! 2)) (cn_block_row ?r) (map cn_block_row (ns_blocks s)) = map cn_block_row (ns_blocks s @ [?r])"
    by (subst put_row_last) (use early nx(5) in \<open>auto simp: cn_block_row_def Let_def\<close>)
  have bod: "put_row (fx_key Fx_bodies) (cn_body_row ?r) (map cn_body_row (ns_blocks s)) = map cn_body_row (ns_blocks s @ [?r])"
    by (subst put_row_last) (use early nx(5) in \<open>auto simp: cn_body_row_def Let_def\<close>)
  have tx: "foldl (\<lambda>rows r. put_row (fx_key Fx_transactions) r rows) (concat (map cn_record_rows (ns_blocks s))) (cn_record_rows ?r) =
      concat (map cn_record_rows (ns_blocks s @ [?r]))"
  proof (subst put_rows_last)
    have "length (cn_entries (cm_block ?r) (cm_outcome ?r)) \<le> 3000" using wf by (simp add: cn_entries_def nb_wf_def MAX_TRANSACTIONS_def min.coboundedI1)
    then show "sorted_wrt (<) (map (fx_key Fx_transactions) (cn_record_rows ?r))" by (intro cn_entry_rows_sorted) simp
    show "\<forall>x \<in> set (concat (map cn_record_rows (ns_blocks s))). \<forall>r \<in> set (cn_record_rows ?r). fx_key Fx_transactions x < fx_key Fx_transactions r"
      using early nx(5) by (auto elim!: cn_entry_rows_key simp del: fx_key.simps)
  qed simp
  show ?thesis
    using st nx(2-4) acc blk bod tx sb(2) base
    by (auto simp: cn_stored_def cn_committed_db_def Let_def cn_metadata_row_def fx_accounting_row_def cn_tip_row_def simp del: fx_key.simps)
qed

section \<open>Crash consistency of a commit\<close>

lemma on_err_Inr: "does idle durable content (on_err f m) w F \<longleftrightarrow> does idle durable content m w F"
  by (simp add: does_def on_err_def)

context canonical_engine
begin

abbreviation ctx :: "('e + 'a) \<times> 'w \<Rightarrow> 'w \<Rightarrow> ('a \<Rightarrow> cndb \<Rightarrow> cndb \<Rightarrow> bool) \<Rightarrow> bool" where
  "ctx \<equiv> does (sq_autocommit D) durable content"

lemma ctx_lift: "ctx a w F \<Longrightarrow> ctx (on_err f a) w F"
  by (simp add: on_err_Inr)

lemma ctx_exec: "\<not> sq_autocommit D w \<Longrightarrow> ctx (cn_exec D st w) w (\<lambda>_ db db'. db' = cn_apply st db)"
  using cn_write_effect [of w st "fst (cn_write D st w)" "snd (cn_write D st w)"]
  by (auto simp: does_def cn_exec_def cn_call_def)

lemma ctx_fx: "\<not> sq_autocommit D w \<Longrightarrow> ctx (fx_exec (cn_fixture D) st w) w (\<lambda>_ db db'. db' = fx_effect st db)"
  using cn_fx_effect [of w st "fst (fx_write D st w)" "snd (fx_write D st w)"]
  by (auto simp: does_def fx_exec_def fx_call_def simp del: fx_apply.simps)

lemma ctx_shared: "\<not> sq_autocommit D w \<Longrightarrow> ctx (cn_shared D st w) w (\<lambda>_ db db'. db' = fx_effect st db)"
  unfolding cn_shared_def on_err_Inr by (rule ctx_fx)

lemma ctx_pure: "\<not> sq_autocommit D w \<Longrightarrow> ctx (r, w) w (\<lambda>x db db'. r = Inr x \<and> db' = db)"
  by (rule does_pure)

lemma ctx_read: "\<not> sq_autocommit D w \<Longrightarrow> ctx (r, w) w (\<lambda>x db db'. db' = db)"
  by (rule does_mono [OF ctx_pure]) auto

lemma ctx_changed:
  "\<not> sq_autocommit D w \<Longrightarrow> ctx (write_changed_accounts (cn_fixture D) base as w) w
     (\<lambda>_ db db'. db' = db\<lparr>cd_tables := (cd_tables db)(Fx_accounts := foldl (\<lambda>rows p. put_row (fx_key Fx_accounts) (fx_account_row p) rows)
        (cd_tables db Fx_accounts) (changed_accounts base as))\<rparr>)"
proof (induction as arbitrary: w)
  case (Cons p as)
  obtain a x where p: "p = (a, x)" by force
  show ?case
  proof (cases "map_of base a = Some x")
    case True
    with Cons show ?thesis by (simp add: p)
  next
    case False
    then have u: "write_changed_accounts (cn_fixture D) base (p # as) w =
        then_do (fx_exec (cn_fixture D) (Fx_upsert_account (fx_account_row (a, x))) w) (\<lambda>_ w. write_changed_accounts (cn_fixture D) base as w)"
      by (simp add: p)
    show ?thesis unfolding u by (rule does_mono [OF does_then [OF ctx_fx [OF Cons.prems] Cons.IH]]) (use False in \<open>auto simp: p simp del: fx_key.simps cong: if_cong\<close>)
  qed
qed (simp add: does_def)

lemma ctx_accounting:
  "\<not> sq_autocommit D w \<Longrightarrow> ctx (fx_write_accounting (cn_fixture D) st w) w
     (\<lambda>_ db db'. db' = fx_effect (Fx_update_accounting (be_bytes (ts_gas_used_total st)) (be_bytes (ts_fees_burned_total st))) db)"
  unfolding fx_write_accounting_def by (rule does_mono [OF does_then [OF ctx_fx ctx_pure]]) (auto split: if_splits)

lemma ctx_rows:
  "\<not> sq_autocommit D w \<Longrightarrow> ctx (cn_insert_rows D revision i es w) w
     (\<lambda>_ db db'. db' = db\<lparr>cd_tables := (cd_tables db)(Fx_transactions := foldl (\<lambda>rows r. put_row (fx_key Fx_transactions) r rows)
        (cd_tables db Fx_transactions) (cn_entry_rows revision i es))\<rparr>)"
proof (induction es arbitrary: i w)
  case (Cons e es)
  obtain bs ident where e: "e = (bs, ident)" by force
  show ?case unfolding e cn_insert_rows.simps
    by (rule does_mono [OF does_then [OF ctx_shared [OF Cons.prems] Cons.IH]]) (auto simp del: fx_key.simps cong: if_cong)
qed (simp add: does_def cn_entry_rows_def)

lemma ctx_cas: "\<not> sq_autocommit D w \<Longrightarrow> ctx (cn_cas D st w) w (\<lambda>_ db db'. db' = cn_apply st db)"
  unfolding cn_cas_def by (rule does_mono [OF does_then [OF ctx_exec ctx_pure]]) (auto split: if_splits)

lemma ctx_commit_writes:
  assumes w: "\<not> sq_autocommit D w"
  shows "ctx (cn_commit_writes K D m p w) w (\<lambda>_ db db'. db' = cn_committed_db p db)"
  unfolding cn_commit_writes_def cn_committed_db_def Let_def insert_block_def insert_body_def insert_transactions_def
  by (rule does_mono [OF does_then [OF ctx_read [OF w] does_then [OF ctx_read does_then [OF ctx_read does_then [OF ctx_read does_then [OF ctx_read
      does_then [OF ctx_changed [THEN ctx_lift] does_then [OF ctx_accounting [THEN ctx_lift]
      does_then [OF ctx_exec does_then [OF ctx_shared does_then [OF ctx_rows does_then [OF ctx_cas ctx_cas]]]]]]]]]]]])
    (auto simp del: fx_apply.simps cn_apply.simps fx_key.simps)

end

text \<open>A commit that gets as far as the file has passed the checks in memory.\<close>

definition cn_admitted :: "'k crypto \<Rightarrow> canonical_store \<Rightarrow> staged_native_block \<Rightarrow> cn_snapshot \<Rightarrow> bool" where
  "cn_admitted C ow stage s' \<longleftrightarrow> \<not> cn_stale (c_keccak C) ow (pn_base (sx_prepared stage)) \<and>
     check_append (c_keccak C) ow (cm_block (pn_record (sx_prepared stage))) (Some (sx_grant stage)) = Inr () \<and>
     insert_record (pn_record (sx_prepared stage)) ((co_snapshot ow)\<lparr>ns_state := pn_candidate (sx_prepared stage)\<rparr>) = Inr s'"

context canonical_engine
begin

lemma cn_load_effect:
  assumes "sq_autocommit D w" "cn_load_snapshot C D m w = (r, w')"
  shows "durable w' = durable w" and "r = Inr s \<Longrightarrow> sq_autocommit D w' \<and> (\<exists>w1. content w1 = durable w \<and> load_transaction C D m w1 = Inr s)"
proof -
  obtain b w1 where b: "sq_begin D False w = (b, w1)" by force
  obtain e w2 where e: "sq_rollback D w1 = (e, w2)" by force
  note be = cn_begin_effect [OF assms(1) b] and re = cn_rollback_effect [OF e]
  show "durable w' = durable w" using assms(2) b e be re
    by (cases b) (auto simp: cn_load_snapshot_def then_do_def cn_call_def Let_def)
  show "sq_autocommit D w' \<and> (\<exists>w1. content w1 = durable w \<and> load_transaction C D m w1 = Inr s)" if "r = Inr s"
    using assms(2) b e be re that
    by (cases b) (auto simp: cn_load_snapshot_def then_do_def cn_call_def Let_def try_res_Inr_iff)
qed

lemma cn_abort_effect:
  assumes run: "cn_abort C D ow e w = (out, ow', w')"
  shows "durable w' = durable w"
    and "out = Cn_aborted e \<and> ow' = ow\<lparr>co_attempted := None\<rparr> \<and> sq_autocommit D w' \<or>
       out = Cn_recovery_required recovery_error \<and> ow' = ow\<lparr>co_poisoned := True\<rparr>"
proof -
  obtain q w1 where q: "sq_rollback D w = (q, w1)" by force
  note re = cn_rollback_effect [OF q]
  let ?w = "if sq_autocommit D w then w else w1"
  have d: "durable ?w = durable w" using re by simp
  obtain r w2 where l: "cn_load_snapshot C D (co_manifest ow) ?w = (r, w2)" by force
  have x: "durable w2 = durable w" "r = Inr s \<Longrightarrow> sq_autocommit D w2" if "sq_autocommit D ?w" for s
    using cn_load_effect [OF that l] d by auto
  have c: "(out, ow', w') =
     (if \<not> sq_autocommit D ?w \<or> (\<not> sq_autocommit D w \<and> q = None) then (Cn_recovery_required recovery_error, ow\<lparr>co_poisoned := True\<rparr>, ?w)
      else if r = Inr (co_snapshot ow) then (Cn_aborted e, ow\<lparr>co_attempted := None\<rparr>, w2)
      else (Cn_recovery_required recovery_error, ow\<lparr>co_poisoned := True\<rparr>, w2))"
    unfolding run [symmetric] using q l by (cases q) (auto simp: cn_abort_def cn_poison_def Let_def split: if_splits)
  show "durable w' = durable w" "out = Cn_aborted e \<and> ow' = ow\<lparr>co_attempted := None\<rparr> \<and> sq_autocommit D w' \<or>
       out = Cn_recovery_required recovery_error \<and> ow' = ow\<lparr>co_poisoned := True\<rparr>"
    using c d x by (auto split: if_splits)
qed

lemma cn_commit_cases:
  assumes idle: "sq_autocommit D w" and att: "co_attempted ow = None" "\<not> co_poisoned ow"
    and run: "commit_inner C D ow stage w = (out, ow', w')"
  defines "p \<equiv> sx_prepared stage"
  defines "a \<equiv> \<lparr>ca_base = cnb_tip (pn_base p), ca_record = pn_record p\<rparr>"
  shows "case out of
     Cn_committed tp outcome \<Rightarrow> tp = cm_tip (pn_record p) \<and> outcome = cm_outcome (pn_record p) \<and>
        (\<exists>s'. cn_admitted C ow stage s' \<and> ow' = ow\<lparr>co_snapshot := s'\<rparr>) \<and> durable w' = cn_committed_db p (durable w) \<and> sq_autocommit D w'
   | Cn_aborted e \<Rightarrow> durable w' = durable w \<and> sq_autocommit D w' \<and> (ow' = ow \<or> e = CStale \<and> ow' = ow\<lparr>co_poisoned := True\<rparr>)
   | Cn_recovery_required e \<Rightarrow> (\<exists>s'. cn_admitted C ow stage s') \<and> ow' = ow\<lparr>co_attempted := Some a, co_poisoned := True\<rparr> \<and>
        (durable w' = durable w \<or> durable w' = cn_committed_db p (durable w))"
proof (cases "\<exists>s'. cn_admitted C ow stage s'")
  case False
  with run att idle show ?thesis by (auto simp: commit_inner_def cn_ready_def cn_admitted_def Let_def split: sum.splits if_splits)
next
  case True
  then obtain s' where s': "cn_admitted C ow stage s'" by blast
  then have ad: "\<not> cn_stale (c_keccak C) ow (pn_base p)" "check_append (c_keccak C) ow (cm_block (pn_record p)) (Some (sx_grant stage)) = Inr ()"
    "insert_record (pn_record p) ((co_snapshot ow)\<lparr>ns_state := pn_candidate p\<rparr>) = Inr s'" by (simp_all add: cn_admitted_def p_def)
  have id: "ow\<lparr>co_attempted := None\<rparr> = ow" using att by simp
  let ?ow = "ow\<lparr>co_attempted := Some a\<rparr>"
  obtain b w1 where b: "sq_begin D True w = (b, w1)" by force
  note be = cn_begin_effect [OF idle b]
  obtain r2 w2 where cw: "cn_commit_writes (c_keccak C) D (co_manifest ow) p w1 = (r2, w2)" by force
  obtain q w3 where q: "sq_rollback D w2 = (q, w3)" by force
  note rb = cn_rollback_effect [OF q]
  obtain c w4 where c: "sq_commit D w2 = (c, w4)" by force
  note ce = cn_commit_effect [OF _ c]
  have u: "(out, ow', w') = (case b of None \<Rightarrow> (Cn_aborted cn_sql, ow, w1) | Some _ \<Rightarrow> (case r2 of
      Inl e \<Rightarrow> if e = CStale then (if q \<noteq> None \<and> sq_autocommit D w3 then (Cn_aborted CStale, ow\<lparr>co_poisoned := True\<rparr>, w3)
            else (Cn_recovery_required recovery_error, ?ow\<lparr>co_poisoned := True\<rparr>, w3)) else cn_abort C D ?ow e w2
    | Inr _ \<Rightarrow> (case c of None \<Rightarrow> (Cn_recovery_required recovery_error, ?ow\<lparr>co_poisoned := True\<rparr>, w4)
        | Some _ \<Rightarrow> (Cn_committed (cm_tip (pn_record p)) (cm_outcome (pn_record p)), ow\<lparr>co_snapshot := s'\<rparr>, w4))))"
    unfolding run [symmetric] using ad att b cw q c id
    by (cases b; cases r2; cases c) (simp_all add: commit_inner_def cn_ready_def cn_poison_def Let_def p_def [symmetric] a_def [symmetric])
  show ?thesis
  proof (cases b)
    case None
    with u be show ?thesis by simp
  next
    case (Some x)
    then have w1: "\<not> sq_autocommit D w1" "content w1 = durable w" "durable w1 = durable w" using be by simp_all
    from ctx_commit_writes [OF w1(1), of "c_keccak C" "co_manifest ow" p] cw w1
    have d2: "durable w2 = durable w" and c2: "\<And>x. r2 = Inr x \<Longrightarrow> \<not> sq_autocommit D w2 \<and> content w2 = cn_committed_db p (durable w)"
      by (auto simp: does_def)
    show ?thesis
    proof (cases r2)
      case (Inl e)
      show ?thesis
      proof (cases "e = CStale")
        case True
        with u Some Inl rb d2 s' show ?thesis by (auto split: if_splits)
      next
        case False
        with u Some Inl have "cn_abort C D ?ow e w2 = (out, ow', w')" by simp
        from cn_abort_effect [OF this] d2 id s' show ?thesis by auto
      qed
    next
      case (Inr y)
      with u Some ce c2 [OF Inr] d2 s' show ?thesis by (cases c) auto
    qed
  qed
qed

end

section \<open>Opening, the barrier and creation\<close>

context canonical_engine
begin

lemma cn_configure_keeps: "configure_cache D policy w = (r, w') \<Longrightarrow> durable w' = durable w \<and> sq_autocommit D w' = sq_autocommit D w"
proof -
  assume r: "configure_cache D policy w = (r, w')"
  obtain a w1 where a: "dk_busy_timeout D w = (a, w1)" by force
  obtain b w2 where b: "dk_set_pragmas D w1 = (b, w2)" by force
  obtain c w3 where c: "cn_set_cache D w2 = (c, w3)" by force
  have "durable w1 = durable w \<and> sq_autocommit D w1 = sq_autocommit D w" "durable w2 = durable w1 \<and> sq_autocommit D w2 = sq_autocommit D w1"
    "durable w3 = durable w2 \<and> sq_autocommit D w3 = sq_autocommit D w2"
    using cn_settings_effect [of w a w1] cn_settings_effect [of w1 b w2] cn_settings_effect [of w2 c w3] a b c by simp_all
  with r a b c show ?thesis
    by (auto simp: configure_cache_def fx_configure_def disk_configure_def on_err_def then_do_def disk_call_def cn_call_def
        split: option.splits prod.splits sum.splits if_splits)
qed

lemma cn_reopen_idle:
  assumes "then_do (on_err CStorage (fx_open (cn_fixture D) w)) (\<lambda>_ w. configure_cache D policy w) = (r, w')"
  shows "durable w' = durable w" and "r = Inr x \<Longrightarrow> sq_autocommit D w'"
proof -
  obtain a w1 where a: "dk_open D w = (a, w1)" by force
  obtain b w2 where b: "configure_cache D policy w1 = (b, w2)" by force
  note o = cn_open_effect [OF a] and k = cn_configure_keeps [OF b]
  show "durable w' = durable w" "r = Inr x \<Longrightarrow> sq_autocommit D w'"
    using assms a b o k
    by (auto simp: then_do_def on_err_def fx_open_def disk_open_def disk_call_def split: option.splits bool.splits prod.splits)
qed

end

lemma then_do_assoc: "then_do (then_do a f) g = then_do a (\<lambda>x w. then_do (f x w) g)"
  by (auto simp: then_do_def split: prod.splits sum.splits)

lemma cn_stored_barrier: "length bar = 8 \<Longrightarrow> cn_stored K m s db \<Longrightarrow> cn_stored K m s (fx_effect (Fx_update_barrier bar) db)"
  by (auto simp: cn_stored_def cn_metadata_row_def Let_def)

text \<open>The rows of a new archive.\<close>

definition cn_initial_db :: "hasher \<Rightarrow> fixture_manifest \<Rightarrow> cndb" where
  "cn_initial_db K m = (let st = mf_initial m; a = anchor_record K m in
     \<lparr>cd_tables = (\<lambda>_. [])(Fx_metadata := [cn_metadata_row K m 0 (be_bytes (0 :: u64)) 1], Seed_accounts := map fx_account_row (ts_accounts st),
        Fx_accounts := map fx_account_row (ts_accounts st), Fx_accounting := [fx_accounting_row st], Fx_bodies := [cn_body_row a]),
      cd_blocks = [cn_block_row a], cd_tip = [cn_tip_row (cm_tip a)]\<rparr>)"

lemma fx_effect_all: "foldl (\<lambda>db st. fx_effect st db) db sts = db\<lparr>cd_tables := foldl (\<lambda>db st. fx_apply st db) (cd_tables db) sts\<rparr>"
  by (induction sts arbitrary: db) (simp_all del: fx_apply.simps)

context canonical_engine
begin

lemma commit_sync_effect:
  assumes m: "ctx a w F" and run: "then_do a (\<lambda>_ w. then_do (cn_call e (sq_commit D w)) (\<lambda>_ w. cn_call e' (dk_sync_path D w))) = (r, w')"
  shows "durable w' = durable w \<or> (\<exists>x. F x (content w) (durable w'))"
    and "r = Inr u \<Longrightarrow> sq_autocommit D w' \<and> (\<exists>x. F x (content w) (durable w'))"
proof -
  obtain r1 w1 where a: "a = (r1, w1)" by force
  obtain c w2 where c: "sq_commit D w1 = (c, w2)" by force
  obtain s w3 where s: "dk_sync_path D w2 = (s, w3)" by force
  have d: "durable w1 = durable w" "\<And>x. r1 = Inr x \<Longrightarrow> \<not> sq_autocommit D w1 \<and> F x (content w) (content w1)" using m a by (auto simp: does_def)
  note ce = cn_commit_effect [OF _ c]
  have se: "durable w3 = durable w2" "sq_autocommit D w3 = sq_autocommit D w2" using cn_settings_effect [of w2 s w3] s by simp_all
  have v: "(r, w') = (case r1 of Inl e \<Rightarrow> (Inl e, w1) | Inr _ \<Rightarrow> (case c of None \<Rightarrow> (Inl e, w2) | Some _ \<Rightarrow> (ok_or e' s, w3)))"
    unfolding run [symmetric] a by (cases r1; cases c) (simp_all add: then_do_def cn_call_def c s)
  show "durable w' = durable w \<or> (\<exists>x. F x (content w) (durable w'))"
    using v d ce se by (cases r1; cases c) auto
  show "sq_autocommit D w' \<and> (\<exists>x. F x (content w) (durable w'))" if "r = Inr u"
    using v d ce se that by (cases r1; cases c) auto
qed

lemma cn_barrier_effect:
  assumes idle: "sq_autocommit D w" and run: "cn_barrier K D m tp w = (r, w')"
  shows "durable w' = durable w \<or> (\<exists>bar. length bar = 8 \<and> durable w' = fx_effect (Fx_update_barrier bar) (durable w))"
    and "r = Inr x \<Longrightarrow> sq_autocommit D w'"
proof -
  obtain b w1 where b: "sq_begin D True w = (b, w1)" by force
  note be = cn_begin_effect [OF idle b]
  let ?q = "try_res (map_err CStorage (one_row (fx_select D (Fx_all Fx_metadata) w1))) (\<lambda>row. if length row = 16 then cn_blob 8 (row ! 11) else Inl cn_sql)"
  let ?t = "try_res (read_tip D w1) (\<lambda>t. if t \<noteq> tp then Inl CStale else Inr ())"
  let ?m = "then_do (cn_verify_metadata K D m (Some (tp_revision tp)) w1, w1) (\<lambda>_ w.
       then_do (try_res (read_tip D w) (\<lambda>t. if t \<noteq> tp then Inl CStale else Inr ()), w) (\<lambda>_ w.
       then_do (try_res (map_err CStorage (one_row (fx_select D (Fx_all Fx_metadata) w))) (\<lambda>row.
          if length row = 16 then cn_blob 8 (row ! 11) else Inl cn_sql), w) (\<lambda>old w.
       then_do (ok_or COverflow (checked_add (be_word old :: u64) 1), w) (\<lambda>next w.
       cn_shared D (Fx_update_barrier (be_bytes next)) w))))"
  let ?z = "then_do ?m (\<lambda>_ w. then_do (cn_call cn_sql (sq_commit D w)) (\<lambda>_ w. cn_call cn_sql (dk_sync_path D w)))"
  obtain r2 w2 where z: "?z = (r2, w2)" by force
  have u: "cn_barrier K D m tp w = (case b of None \<Rightarrow> (Inl recovery_error, w1) | Some _ \<Rightarrow> (map_err (\<lambda>_. recovery_error) r2, w2))"
    using z unfolding cn_barrier_def then_do_assoc by (cases b) (simp_all add: then_do_def [of "(Inl _, _)"] then_do_def [of "(Inr _, _)"] cn_call_def b on_err_def)
  have k: "ctx ?m w1 (\<lambda>_ db db'. \<exists>bar. length bar = 8 \<and> db' = fx_effect (Fx_update_barrier bar) db)" if "\<not> sq_autocommit D w1"
    by (rule does_mono [OF does_then [OF ctx_read [OF that] does_then [OF ctx_read does_then [OF ctx_read does_then [OF ctx_pure ctx_shared]]]]])
      (use length_be_bytes [where 'a = 64] in \<open>auto simp del: fx_apply.simps length_be_bytes\<close>)
  show "durable w' = durable w \<or> (\<exists>bar. length bar = 8 \<and> durable w' = fx_effect (Fx_update_barrier bar) (durable w))"
    using commit_sync_effect(1) [OF k z] run u be by (cases b) (auto simp del: fx_apply.simps)
  show "sq_autocommit D w'" if "r = Inr x"
    using commit_sync_effect(2) [OF k z] run u be that by (cases b) (auto simp: map_err_def split: sum.splits)
qed

lemma ctx_exec_all:
  "\<not> sq_autocommit D w \<Longrightarrow> ctx (fx_exec_all (cn_fixture D) sts w) w (\<lambda>_ db db'. db' = db\<lparr>cd_tables := foldl (\<lambda>db st. fx_apply st db) (cd_tables db) sts\<rparr>)"
proof (induction sts arbitrary: w)
  case (Cons st sts)
  show ?case unfolding fx_exec_all.simps by (rule does_mono [OF does_then [OF ctx_fx [OF Cons.prems] Cons.IH]]) (auto simp del: fx_apply.simps)
qed (simp add: does_def)

lemma ctx_initialize:
  assumes w: "\<not> sq_autocommit D w" "content w = \<lparr>cd_tables = (\<lambda>_. []), cd_blocks = [], cd_tip = []\<rparr>" and wf: "bm_wf (ts_accounts (mf_initial m))"
  shows "ctx (cn_initialize K D m w) w (\<lambda>_ db db'. db' = cn_initial_db K m)"
proof -
  let ?st = "mf_initial m" and ?a = "anchor_record K m"
  let ?m = "cn_metadata_row K m 0 (be_bytes (0 :: u64)) 0"
  let ?sts = "concat (map (\<lambda>a. [Fx_insert Seed_accounts (fx_account_row a), Fx_insert Fx_accounts (fx_account_row a)]) (ts_accounts (mf_initial m)))"
  have cr: "foldl (\<lambda>db st. fx_apply st db) db (map (\<lambda>n. Fx_create (dk_ddl D n)) ns) = db" for db ns by (induction ns) simp_all
  have run: "ctx (cn_initialize K D m w) w (\<lambda>_ db db'. db' = cn_apply Cn_set_initialized (cn_apply (Cn_insert_tip (cn_tip_row (cm_tip ?a)))
      (fx_effect (Fx_insert Fx_bodies (cn_body_row ?a)) (cn_apply (Cn_insert_block (cn_block_row ?a)) (fx_effect (Fx_insert Fx_accounting (fx_accounting_row ?st))
        (let db = fx_effect (Fx_insert Fx_metadata ?m) db in db\<lparr>cd_tables := foldl (\<lambda>db st. fx_apply st db) (cd_tables db) ?sts\<rparr>))))))"
    unfolding cn_initialize_def fx_accounting_row_def Let_def insert_block_def insert_body_def
    by (rule does_mono [OF does_then [OF ctx_exec_all [THEN ctx_lift, OF w(1)] does_then [OF ctx_shared does_then [OF ctx_exec_all [THEN ctx_lift] does_then [OF ctx_shared
        does_then [OF ctx_exec does_then [OF ctx_shared does_then [OF ctx_exec does_then [OF ctx_exec ctx_pure]]]]]]]]])
      (auto simp: cr simp del: fx_apply.simps cn_apply.simps)
  have s: "foldl (\<lambda>db st. fx_apply st db) ((\<lambda>_. [])(Fx_metadata := [?m])) ?sts =
      (\<lambda>_. [])(Fx_metadata := [?m], Seed_accounts := map fx_account_row (ts_accounts ?st), Fx_accounts := map fx_account_row (ts_accounts ?st))"
  proof -
    have e: "((\<lambda>_. [])(Fx_metadata := [?m])) = ((\<lambda>_. [])(Fx_metadata := [?m]))(Seed_accounts := map fx_account_row [], Fx_accounts := map fx_account_row [])"
      by (simp add: fun_eq_iff)
    show ?thesis by (subst e, subst fx_seed_rows) (use wf in simp_all)
  qed
  have i: "fx_apply (Fx_insert Fx_metadata ?m) (\<lambda>_. []) = (\<lambda>_. [])(Fx_metadata := [?m])" by simp
  have "cn_apply Cn_set_initialized (cn_apply (Cn_insert_tip (cn_tip_row (cm_tip ?a)))
      (fx_effect (Fx_insert Fx_bodies (cn_body_row ?a)) (cn_apply (Cn_insert_block (cn_block_row ?a)) (fx_effect (Fx_insert Fx_accounting (fx_accounting_row ?st))
        (let db = fx_effect (Fx_insert Fx_metadata ?m) (content w) in db\<lparr>cd_tables := foldl (\<lambda>db st. fx_apply st db) (cd_tables db) ?sts\<rparr>))))) = cn_initial_db K m"
    unfolding w(2) Let_def cndb.simps i s by (simp add: cn_initial_db_def Let_def cn_metadata_row_def fun_eq_iff)
  with run show ?thesis by (simp add: does_def del: fx_apply.simps cn_apply.simps)
qed

end

lemma cn_initial_replayed:
  assumes m: "manifest_ok C m" and i: "insert_record (anchor_record (c_keccak C) m) (cn_empty (mf_initial m) (cm_tip (anchor_record (c_keccak C) m))) = Inr s"
  shows "cn_replayed C m s" "cn_stored (c_keccak C) m s (cn_initial_db (c_keccak C) m)"
proof -
  let ?K = "c_keccak C" and ?a = "anchor_record (c_keccak C) m"
  note ir = insert_record_Inr [OF i]
  from m obtain ids where pf: "preflight ?K (mf_anchor m) (mf_context m) = Inr ids" and tx: "nb_transactions (mf_anchor m) = []" and wf: "nb_wf (mf_anchor m)"
    by (auto simp: manifest_ok_def manifest_new_def try_res_Inr_iff split: if_splits)
  have ok: "block_ok ?K ?a" using pf tx wf by (simp add: block_ok_def anchor_record_def tip_at_def preflight_Inr_iff default_outcome_def)
  have s: "ns_blocks s = [?a]" "ns_tip s = cm_tip ?a" "ns_state s = mf_initial m" using ir by (simp_all add: cn_empty_def)
  have a: "tp_revision (cm_tip ?a) = 0" "cm_block ?a = mf_anchor m" "cm_outcome ?a = default_outcome" by (simp_all add: anchor_record_def tip_at_def)
  have "cn_replay_block C m ?a (cn_empty (mf_initial m) (cm_tip ?a), mf_initial m) = Inr (s, mf_initial m)"
    using i a pf by (simp add: cn_replay_block_def cn_audit_block_def Let_def)
  with s ok a show "cn_replayed C m s" by (simp add: cn_replayed_def)
  have "\<exists>bar. length bar = 8 \<and> cn_metadata_row ?K m 0 (be_bytes (0 :: u64)) 1 = cn_metadata_row ?K m 0 bar 1"
    by (rule exI [of _ "be_bytes (0 :: u64)"]) simp
  then show "cn_stored ?K m s (cn_initial_db ?K m)"
    using s a tx by (auto simp: cn_stored_def cn_initial_db_def Let_def cn_entries_def cn_entry_rows_def default_outcome_def)
qed

section \<open>Runs\<close>

text \<open>An owner with the process-wide counter, the file, and the blocks that its callers hold, prepared and staged. Grants are
  whatever the callers make up. A restart drops the owner and all of these at any moment and opens the file again, under any cache
  policy, in a process with a counter of its own.\<close>

record 'w archive =
  ar_own :: canonical_store
  ar_counter :: u64
  ar_file :: 'w
  ar_prepared :: "prepared_native_block set"
  ar_staged :: "staged_native_block set"

inductive archive_step :: "'k crypto \<Rightarrow> 'w canonical_disk \<Rightarrow> 'w archive \<Rightarrow> 'w archive \<Rightarrow> bool" for C D where
  ar_prepare: "utf8_valid proposer \<Longrightarrow> cn_prepare_next C (ar_own x) proposer ticket body = Inr p \<Longrightarrow>
     archive_step C D x (x\<lparr>ar_prepared := insert p (ar_prepared x)\<rparr>)"
| ar_authorize: "p \<in> ar_prepared x \<Longrightarrow> authorize (c_keccak C) p g = Inr st \<Longrightarrow> archive_step C D x (x\<lparr>ar_staged := insert st (ar_staged x)\<rparr>)"
| ar_receive: "cn_stage_received C (ar_own x) bs g = Inr st \<Longrightarrow> archive_step C D x (x\<lparr>ar_staged := insert st (ar_staged x)\<rparr>)"
| ar_commit: "st \<in> ar_staged x \<Longrightarrow> commit_inner C D (ar_own x) st (ar_file x) = (out, ow', w') \<Longrightarrow>
     archive_step C D x (x\<lparr>ar_own := ow', ar_file := w'\<rparr>)"
| ar_recover: "cn_recover C D (ar_own x) (ar_counter x) (ar_file x) = (r, ow', counter', w') \<Longrightarrow>
     archive_step C D x (x\<lparr>ar_own := ow', ar_counter := counter', ar_file := w'\<rparr>)"
| ar_restart: "load_with_cache C D (co_manifest (ar_own x)) policy counter (dk_close D (ar_file x)) = (Inr ow', counter', w') \<Longrightarrow>
     archive_step C D x \<lparr>ar_own = ow', ar_counter = counter', ar_file = w', ar_prepared = {}, ar_staged = {}\<rparr>"

inductive archive_run :: "'k crypto \<Rightarrow> 'w canonical_disk \<Rightarrow> 'w archive \<Rightarrow> 'w archive \<Rightarrow> bool" for C D x where
  ar_run_start: "archive_run C D x x"
| ar_run_step: "archive_run C D x y \<Longrightarrow> archive_step C D y z \<Longrightarrow> archive_run C D x z"

text \<open>The snapshot that the file may hold: the owner's, or, after an uncertain commit, the one with the attempted block.\<close>

definition cn_extends :: "canonical_store \<Rightarrow> cn_snapshot \<Rightarrow> bool" where
  "cn_extends ow t \<longleftrightarrow> t = co_snapshot ow \<or>
     co_poisoned ow \<and> (\<exists>a. co_attempted ow = Some a \<and> ns_blocks t = ns_blocks (co_snapshot ow) @ [ca_record a])"

definition archive_ok :: "'k crypto \<Rightarrow> 'w canonical_disk \<Rightarrow> ('w \<Rightarrow> cndb) \<Rightarrow> fixture_manifest \<Rightarrow> 'w archive \<Rightarrow> bool" where
  "archive_ok C D durable m x \<longleftrightarrow>
     (let ow = ar_own x; s = co_snapshot ow in
      co_manifest ow = m \<and> manifest_ok C m \<and> cn_replayed C m s \<and>
      (\<exists>t. cn_replayed C m t \<and> cn_stored (c_keccak C) m t (durable (ar_file x)) \<and> cn_extends ow t) \<and>
      (\<not> co_poisoned ow \<longrightarrow> sq_autocommit D (ar_file x) \<and> co_attempted ow = None) \<and>
      (\<forall>a. co_attempted ow = Some a \<longrightarrow> ca_base a = ns_tip s \<and> unat (tp_revision (cm_tip (ca_record a))) = length (ns_blocks s)) \<and>
      (\<forall>p \<in> ar_prepared x \<union> sx_prepared ` ar_staged x. prepared_ok C m p))"

text \<open>What each outcome of a commit means for the owner and the file.\<close>

definition cn_commit_post :: "'k crypto \<Rightarrow> fixture_manifest \<Rightarrow> canonical_store \<Rightarrow> prepared_native_block \<Rightarrow> cndb \<Rightarrow> cn_outcome \<Rightarrow> canonical_store \<Rightarrow> cndb \<Rightarrow> bool" where
  "cn_commit_post C m ow p db out ow' db' = (case out of
       Cn_committed tp outcome \<Rightarrow> \<not> co_poisoned ow \<and> tp = cm_tip (pn_record p) \<and> outcome = cm_outcome (pn_record p) \<and>
         (\<exists>s'. ow' = ow\<lparr>co_snapshot := s'\<rparr> \<and> ns_blocks s' = ns_blocks (co_snapshot ow) @ [pn_record p] \<and> ns_state s' = pn_candidate p \<and>
            ns_tip s' = tp \<and> cn_stored (c_keccak C) m s' db')
     | Cn_aborted e \<Rightarrow> db' = db \<and> (ow' = ow \<or> e = CStale \<and> ow' = ow\<lparr>co_poisoned := True\<rparr>)
     | Cn_recovery_required e \<Rightarrow> co_poisoned ow' \<and> co_snapshot ow' = co_snapshot ow \<and>
         (db' = db \<or> (\<exists>t. cn_replayed C m t \<and> cn_stored (c_keccak C) m t db' \<and> ns_blocks t = ns_blocks (co_snapshot ow) @ [pn_record p])))"

lemma authorize_Inr: "authorize K p g = Inr st \<Longrightarrow> sx_prepared st = p"
  by (auto simp: authorize_def split: if_splits)

context canonical_engine
begin

lemma cn_reload_sound:
  assumes "sq_autocommit D w" "cn_load_snapshot C D m w = (l, w1)" "cn_stored (c_keccak C) m t (durable w)" "cn_replayed C m t" "manifest_ok C m"
  shows "cn_stored (c_keccak C) m t (durable w1)" and "l = Inr s \<Longrightarrow> s = t \<and> sq_autocommit D w1"
proof -
  note le = cn_load_effect [OF assms(1,2)]
  show "cn_stored (c_keccak C) m t (durable w1)" using le(1) assms(3) by simp
  show "s = t \<and> sq_autocommit D w1" if l: "l = Inr s"
  proof -
    from le(2) [OF l] obtain w0 where w0: "sq_autocommit D w1" "content w0 = durable w" "load_transaction C D m w0 = Inr s" by blast
    with cn_load_unique [OF w0(3) _ assms(4,5) cn_replayed_facts(1) [OF assms(4,5)]] assms(3) show ?thesis by simp
  qed
qed

lemma cn_barrier_sound:
  assumes "sq_autocommit D w" "cn_barrier K D m tp w = (r, w')" "cn_stored K' m' t (durable w)"
  shows "cn_stored K' m' t (durable w')" and "r = Inr x \<Longrightarrow> sq_autocommit D w'"
  using cn_barrier_effect [OF assms(1,2)] assms(3) cn_stored_barrier by metis+

lemma cn_recover_sound:
  assumes run: "cn_recover C D ow counter w = (r, ow', counter', w')"
    and st: "cn_stored (c_keccak C) (co_manifest ow) t (durable w)" and rep: "cn_replayed C (co_manifest ow) t" and m: "manifest_ok C (co_manifest ow)"
  shows "cn_stored (c_keccak C) (co_manifest ow) t (durable w')"
    and "r = Inl e \<Longrightarrow> co_poisoned ow' \<and> co_snapshot ow' = co_snapshot ow \<and> co_attempted ow' = co_attempted ow \<and> co_manifest ow' = co_manifest ow"
    and "r = Inr report \<Longrightarrow> sq_autocommit D w' \<and>
       ow' = ow\<lparr>co_generation := counter, co_connected := True, co_snapshot := t, co_attempted := None, co_poisoned := False\<rparr> \<and>
       cr_tip report = ns_tip t \<and> cn_reconcile (co_attempted ow) t = Inr (cr_attempted_present report)"
proof -
  obtain gen c1 where g: "fx_generation counter = (gen, c1)" by force
  have gc: "gen = Inr v \<Longrightarrow> v = counter" for v using g by (auto simp: fx_generation_def next_generation_def split: option.splits)
  obtain r1 w1 where o: "then_do (on_err CStorage (fx_open (cn_fixture D) (dk_close D w))) (\<lambda>_ w. configure_cache D (co_cache_policy ow) w) = (r1, w1)" by force
  note oe = cn_reopen_idle [OF o]
  have st1: "cn_stored (c_keccak C) (co_manifest ow) t (durable w1)" using oe(1) cn_close_effect st by simp
  obtain l w2 where l: "cn_load_snapshot C D (co_manifest ow) w1 = (l, w2)" by force
  have ls: "cn_stored (c_keccak C) (co_manifest ow) t (durable w2)" "l = Inr s \<Longrightarrow> s = t \<and> sq_autocommit D w2" if "r1 = Inr y" for y s
    using cn_reload_sound [OF oe(2) [OF that] l st1 rep m] by auto
  obtain b w3 where b: "cn_barrier (c_keccak C) D (co_manifest ow) (ns_tip t) w2 = (b, w3)" by force
  have bs: "cn_stored (c_keccak C) (co_manifest ow) t (durable w3)" "b = Inr z \<Longrightarrow> sq_autocommit D w3" if "r1 = Inr y" "l = Inr s" for y s z
    using cn_barrier_sound [OF _ b ls(1) [OF that(1)]] ls(2) [OF that] by auto
  have u: "(r, ow', counter', w') = (case gen of Inl e \<Rightarrow> (Inl (CStorage e), ow\<lparr>co_poisoned := True\<rparr>, c1, w) | Inr gen \<Rightarrow>
      (case r1 of Inl e \<Rightarrow> (Inl e, ow\<lparr>co_poisoned := True, co_generation := gen, co_connected := False\<rparr>, c1, w1) | Inr _ \<Rightarrow>
      let ow1 = ow\<lparr>co_poisoned := True, co_generation := gen, co_connected := True\<rparr> in
      (case l of Inl e \<Rightarrow> (Inl e, ow1, c1, w2) | Inr s \<Rightarrow>
      (case cn_reconcile (co_attempted ow) t of Inl e \<Rightarrow> (Inl e, ow1, c1, w2) | Inr present \<Rightarrow>
      (case b of Inl e \<Rightarrow> (Inl e, ow1, c1, w3) | Inr _ \<Rightarrow> (Inr \<lparr>cr_tip = ns_tip t, cr_attempted_present = present\<rparr>,
         ow1\<lparr>co_snapshot := t, co_attempted := None, co_poisoned := False\<rparr>, c1, w3))))))"
  proof (cases gen)
    case (Inl e)
    with g show ?thesis unfolding run [symmetric] cn_recover_def by simp
  next
    case (Inr v)
    show ?thesis
    proof (cases r1)
      case (Inl e)
      with g Inr o show ?thesis unfolding run [symmetric] cn_recover_def by (simp add: Let_def)
    next
      case r1: (Inr y)
      show ?thesis
      proof (cases l)
        case (Inl e)
        with g Inr o r1 l show ?thesis unfolding run [symmetric] cn_recover_def by (simp add: Let_def then_do_def [of "(Inl _, _)"])
      next
        case ll: (Inr s)
        with ls(2) [OF r1 ll] have "s = t" by simp
        with g Inr o r1 l ll b show ?thesis unfolding run [symmetric] cn_recover_def
          by (cases "cn_reconcile (co_attempted ow) t"; cases b) (simp_all add: Let_def then_do_def [of "(Inl _, _)"] then_do_def [of "(Inr _, _)"])
      qed
    qed
  qed
  show "cn_stored (c_keccak C) (co_manifest ow) t (durable w')"
    using u st st1 ls(1) bs(1) by (auto simp: Let_def split: sum.splits)
  show "co_poisoned ow' \<and> co_snapshot ow' = co_snapshot ow \<and> co_attempted ow' = co_attempted ow \<and> co_manifest ow' = co_manifest ow" if "r = Inl e"
    using u that by (auto simp: Let_def split: sum.splits)
  show "sq_autocommit D w' \<and>
       ow' = ow\<lparr>co_generation := counter, co_connected := True, co_snapshot := t, co_attempted := None, co_poisoned := False\<rparr> \<and>
       cr_tip report = ns_tip t \<and> cn_reconcile (co_attempted ow) t = Inr (cr_attempted_present report)" if "r = Inr report"
    using u that bs(2) gc by (auto simp: Let_def split: sum.splits)
qed

lemma cn_load_sound:
  assumes run: "load_with_cache C D m policy counter w = (Inr ow', counter', w')"
    and st: "cn_stored (c_keccak C) m t (durable w)" and rep: "cn_replayed C m t" and m: "manifest_ok C m"
  shows "cn_stored (c_keccak C) m t (durable w') \<and> sq_autocommit D w' \<and> co_snapshot ow' = t \<and> co_manifest ow' = m \<and>
     \<not> co_poisoned ow' \<and> co_attempted ow' = None"
proof -
  obtain r1 w1 where o: "then_do (on_err CStorage (fx_open (cn_fixture D) w)) (\<lambda>_ w. configure_cache D policy w) = (r1, w1)" by force
  note oe = cn_reopen_idle [OF o]
  obtain l w2 where l: "cn_load_snapshot C D m w1 = (l, w2)" by force
  obtain b w3 where b: "cn_barrier (c_keccak C) D m (ns_tip t) w2 = (b, w3)" by force
  have st1: "cn_stored (c_keccak C) m t (durable w1)" using oe(1) st by simp
  from run obtain y where r1: "r1 = Inr y" unfolding load_with_cache_def o by (cases r1) (auto simp: then_do_def)
  note ls = cn_reload_sound [OF oe(2) [OF r1] l st1 rep m]
  from run r1 obtain s where ll: "l = Inr s" unfolding load_with_cache_def o by (cases l) (auto simp: then_do_def l)
  with ls(2) have s: "s = t" "sq_autocommit D w2" by simp_all
  note bs = cn_barrier_sound [OF s(2) b ls(1)]
  have "load_with_cache C D m policy counter w = (case b of Inl e \<Rightarrow> (Inl e, counter, w3) | Inr _ \<Rightarrow> let (ow, counter) = cn_owner m t policy counter in (ow, counter, w3))"
    unfolding load_with_cache_def o r1 by (cases b) (simp_all add: then_do_def [of "(Inr _, _)"] then_do_def [of "(Inl _, _)"] l ll s b)
  with run bs show ?thesis
    by (cases b) (auto simp: cn_owner_def try_res_Inr_iff split: prod.splits)
qed

end

context canonical_engine
begin

lemma cn_admitted_next:
  assumes "cn_admitted C ow stage s'" "cn_replayed C (co_manifest ow) (co_snapshot ow)" "manifest_ok C (co_manifest ow)"
    and "prepared_ok C (co_manifest ow) (sx_prepared stage)" "cn_stored (c_keccak C) (co_manifest ow) (co_snapshot ow) db"
  defines "r \<equiv> pn_record (sx_prepared stage)"
  shows "cn_replayed C (co_manifest ow) s'" "cn_stored (c_keccak C) (co_manifest ow) s' (cn_committed_db (sx_prepared stage) db)"
    "ns_blocks s' = ns_blocks (co_snapshot ow) @ [r]" "ns_tip s' = cm_tip r" "ns_state s' = pn_candidate (sx_prepared stage)"
    "unat (tp_revision (cm_tip r)) = length (ns_blocks (co_snapshot ow))" "cnb_tip (pn_base (sx_prepared stage)) = ns_tip (co_snapshot ow)"
proof -
  from assms(1) have ad: "cnb_tip (pn_base (sx_prepared stage)) = ns_tip (co_snapshot ow)" "cnb_state (pn_base (sx_prepared stage)) = ns_state (co_snapshot ow)"
    and ca: "check_append (c_keccak C) ow (cm_block (pn_record (sx_prepared stage))) (Some (sx_grant stage)) = Inr ()"
    and ins: "insert_record (pn_record (sx_prepared stage)) ((co_snapshot ow)\<lparr>ns_state := pn_candidate (sx_prepared stage)\<rparr>) = Inr s'"
    by (auto simp: cn_admitted_def cn_stale_def)
  note app = check_append_Inr(1,2) [OF ca]
  note nx = cn_replayed_next [OF assms(2-4) ad app ins]
  show "cn_replayed C (co_manifest ow) s'" "ns_blocks s' = ns_blocks (co_snapshot ow) @ [r]" "ns_tip s' = cm_tip r" "ns_state s' = pn_candidate (sx_prepared stage)"
    using nx by (simp_all add: r_def)
  show "cn_stored (c_keccak C) (co_manifest ow) s' (cn_committed_db (sx_prepared stage) db)"
    by (rule cn_stored_next [OF assms(5,2-4) ad app ins])
  show "unat (tp_revision (cm_tip r)) = length (ns_blocks (co_snapshot ow))" using nx(5,6) by (simp add: r_def unat_of_nat_small)
  show "cnb_tip (pn_base (sx_prepared stage)) = ns_tip (co_snapshot ow)" by (rule ad)
qed

lemma cn_commit_keeps:
  assumes ok: "archive_ok C D durable m x" and stg: "stage \<in> ar_staged x"
    and run: "commit_inner C D (ar_own x) stage (ar_file x) = (out, ow', w')"
  shows "archive_ok C D durable m (x\<lparr>ar_own := ow', ar_file := w'\<rparr>)"
    and "cn_commit_post C m (ar_own x) (sx_prepared stage) (durable (ar_file x)) out ow' (durable w')"
proof -
  let ?ow = "ar_own x" and ?s = "co_snapshot (ar_own x)" and ?p = "sx_prepared stage"
  have "archive_ok C D durable m (x\<lparr>ar_own := ow', ar_file := w'\<rparr>) \<and> cn_commit_post C m ?ow ?p (durable (ar_file x)) out ow' (durable w')"
  proof (cases "co_poisoned ?ow")
    case True
    with run have "out = Cn_aborted CBlocked" "ow' = ?ow" "w' = ar_file x" by (auto simp: commit_inner_def cn_ready_def)
    with ok show ?thesis by (simp add: cn_commit_post_def)
  next
    case False
    with ok have i: "sq_autocommit D (ar_file x)" "co_attempted ?ow = None" "co_manifest ?ow = m" "manifest_ok C m"
      and rep: "cn_replayed C m ?s" and st: "cn_stored (c_keccak C) m ?s (durable (ar_file x))" and p: "prepared_ok C m ?p"
      using stg by (auto simp: archive_ok_def Let_def cn_extends_def)
    note nxt = cn_admitted_next [of C ?ow stage _ "durable (ar_file x)", unfolded i(3), OF _ rep i(4) p st]
    note c = cn_commit_cases [OF i(1,2) False run]
    show ?thesis
    proof (cases out)
      case (Cn_committed tp outcome)
      with c obtain s' where a: "cn_admitted C ?ow stage s'" and w: "ow' = ?ow\<lparr>co_snapshot := s'\<rparr>" "durable w' = cn_committed_db ?p (durable (ar_file x))" "sq_autocommit D w'"
        "tp = cm_tip (pn_record ?p)" "outcome = cm_outcome (pn_record ?p)" by auto
      from nxt [OF a] w ok i False Cn_committed show ?thesis by (auto simp: archive_ok_def Let_def cn_extends_def cn_commit_post_def)
    next
      case (Cn_aborted e)
      with c have w: "durable w' = durable (ar_file x)" "sq_autocommit D w'" "ow' = ?ow \<or> e = CStale \<and> ow' = ?ow\<lparr>co_poisoned := True\<rparr>" by simp_all
      from w(3) have "archive_ok C D durable m (x\<lparr>ar_own := ow', ar_file := w'\<rparr>)"
        using w(1,2) ok i rep st by (elim disjE) (auto simp: archive_ok_def Let_def cn_extends_def)
      with w Cn_aborted show ?thesis by (simp add: cn_commit_post_def)
    next
      case (Cn_recovery_required e)
      with c obtain s' where a: "cn_admitted C ?ow stage s'"
        and w: "ow' = ?ow\<lparr>co_attempted := Some \<lparr>ca_base = cnb_tip (pn_base ?p), ca_record = pn_record ?p\<rparr>, co_poisoned := True\<rparr>"
          "durable w' = durable (ar_file x) \<or> durable w' = cn_committed_db ?p (durable (ar_file x))" by auto
      note n = nxt [OF a]
      have t: "\<exists>t. cn_replayed C m t \<and> cn_stored (c_keccak C) m t (durable w') \<and> cn_extends ow' t"
        using w n(1-3) rep st by (auto simp: cn_extends_def)
      have "archive_ok C D durable m (x\<lparr>ar_own := ow', ar_file := w'\<rparr>)"
        using ok t w(1) n(6,7) i by (auto simp: archive_ok_def Let_def)
      moreover have "cn_commit_post C m ?ow ?p (durable (ar_file x)) out ow' (durable w')"
        using w n(1-3) Cn_recovery_required by (auto simp: cn_commit_post_def)
      ultimately show ?thesis by simp
    qed
  qed
  then show "archive_ok C D durable m (x\<lparr>ar_own := ow', ar_file := w'\<rparr>)"
    and "cn_commit_post C m (ar_own x) (sx_prepared stage) (durable (ar_file x)) out ow' (durable w')" by simp_all
qed

lemma cn_extends_blocks: "cn_extends ow t \<Longrightarrow> \<exists>more. ns_blocks t = ns_blocks (co_snapshot ow) @ more"
  by (auto simp: cn_extends_def)

lemma archive_step_keeps:
  assumes "archive_step C D x y" and ok: "archive_ok C D durable m x"
  shows "archive_ok C D durable m y \<and> (\<exists>more. ns_blocks (co_snapshot (ar_own y)) = ns_blocks (co_snapshot (ar_own x)) @ more)"
  using assms(1)
proof cases
  case (ar_prepare proposer ticket body p)
  have "prepared_ok C m p" using cn_prepare_ok [OF ar_prepare(3) _ _ ar_prepare(2)] ok by (auto simp: archive_ok_def Let_def)
  with ok ar_prepare(1) show ?thesis by (auto simp: archive_ok_def Let_def)
next
  case (ar_authorize p g st)
  with ok authorize_Inr [OF ar_authorize(3)] show ?thesis by (auto simp: archive_ok_def Let_def)
next
  case (ar_receive bs g st)
  have "prepared_ok C m (sx_prepared st)" using cn_received_ok [OF ar_receive(2)] ok by (auto simp: archive_ok_def Let_def)
  with ok ar_receive(1) show ?thesis by (auto simp: archive_ok_def Let_def)
next
  case (ar_commit st out ow' w')
  from cn_commit_keeps [OF ok ar_commit(2,3)] ar_commit(1) show ?thesis
    by (cases out) (auto simp: cn_commit_post_def)
next
  case (ar_recover r ow' counter' w')
  let ?ow = "ar_own x"
  from ok obtain t where m: "co_manifest ?ow = m" "manifest_ok C m" and t: "cn_replayed C m t" "cn_stored (c_keccak C) m t (durable (ar_file x))" "cn_extends ?ow t"
    by (auto simp: archive_ok_def Let_def)
  note rs = cn_recover_sound [OF ar_recover(2), unfolded m(1), OF t(2,1) m(2)]
  note more = cn_extends_blocks [OF t(3)]
  show ?thesis
  proof (cases r)
    case (Inl e)
    with rs(2) have "co_poisoned ow'" "co_snapshot ow' = co_snapshot ?ow" "co_attempted ow' = co_attempted ?ow" "co_manifest ow' = m" by simp_all
    with ok t rs(1) ar_recover(1) show ?thesis by (auto simp: archive_ok_def Let_def cn_extends_def)
  next
    case (Inr report)
    with rs(3) ok t rs(1) more ar_recover(1) show ?thesis by (auto simp: archive_ok_def Let_def cn_extends_def)
  qed
next
  case (ar_restart policy counter ow' counter' w')
  let ?ow = "ar_own x"
  from ok obtain t where m: "co_manifest ?ow = m" "manifest_ok C m" and t: "cn_replayed C m t" "cn_stored (c_keccak C) m t (durable (ar_file x))" "cn_extends ?ow t"
    by (auto simp: archive_ok_def Let_def)
  have t': "cn_stored (c_keccak C) m t (durable (dk_close D (ar_file x)))" using t(2) cn_close_effect by simp
  note ls = cn_load_sound [OF ar_restart(2) [unfolded m(1)] t' t(1) m(2)]
  note more = cn_extends_blocks [OF t(3)]
  with ls ok t ar_restart(1) show ?thesis by (auto simp: archive_ok_def Let_def cn_extends_def)
qed

lemma archive_run_keeps:
  assumes "archive_run C D x y" and "archive_ok C D durable m x"
  shows "archive_ok C D durable m y \<and> (\<exists>more. ns_blocks (co_snapshot (ar_own y)) = ns_blocks (co_snapshot (ar_own x)) @ more)"
  using assms by (induction rule: archive_run.induct) (auto dest!: archive_step_keeps)

lemma cn_create_ok:
  assumes run: "create_inner_with_cache C D m policy counter w = (Inr ow, counter', w')" and m: "manifest_ok C m"
  shows "archive_ok C D durable m \<lparr>ar_own = ow, ar_counter = counter', ar_file = w', ar_prepared = {}, ar_staged = {}\<rparr>"
    and "ns_blocks (co_snapshot ow) = [anchor_record (c_keccak C) m]" "durable w' = cn_initial_db (c_keccak C) m"
proof -
  let ?K = "c_keccak C" and ?a = "anchor_record (c_keccak C) m"
  obtain cr w1 where c: "dk_create_new D w = (cr, w1)" by force
  obtain r1 w2 where o: "then_do (on_err CStorage (fx_open (cn_fixture D) w1)) (\<lambda>_ w. configure_cache D policy w) = (r1, w2)" by force
  note oe = cn_reopen_idle [OF o]
  have assoc: "fst (then_do (on_err CStorage (fx_open (cn_fixture D) w1)) (\<lambda>_ w. then_do (on_err (\<lambda>_. CStorage DAborted) (configure_cache D policy w)) (\<lambda>_ w. (i, w)))) = Inr s \<Longrightarrow>
      (\<exists>y. r1 = Inr y) \<and> i = Inr s" for i s
    using o by (auto simp: then_do_def on_err_def split: prod.splits sum.splits)
  have snd_o: "snd (then_do (on_err CStorage (fx_open (cn_fixture D) w1)) (\<lambda>_ w. then_do (on_err (\<lambda>_. CStorage DAborted) (configure_cache D policy w)) (\<lambda>_ w. (i, w)))) = w2" for i :: "cn_error + cn_snapshot"
    using o by (auto simp: then_do_def on_err_def map_err_def split: prod.splits sum.splits)
  obtain b w4 where b: "sq_begin D True w2 = (b, w4)" by force
  obtain r5 w5 where q: "then_do (cn_initialize ?K D m w4) (\<lambda>_ w. then_do (cn_call recovery_error (sq_commit D w)) (\<lambda>_ w. cn_call recovery_error (dk_sync_path D w))) = (r5, w5)" by force
  from run obtain s y where cr: "cr = Created" and x: "r1 = Inr y" "b = Some ()" "r5 = Inr ()" "w' = w5"
    and i: "insert_record ?a (cn_empty (mf_initial m) (cm_tip ?a)) = Inr s" and ow: "cn_owner m s policy counter = (Inr ow, counter')"
    using assoc [of "insert_record ?a (cn_empty (mf_initial m) (cm_tip ?a))"] snd_o [of "insert_record ?a (cn_empty (mf_initial m) (cm_tip ?a))"] q b
    by (auto simp: create_inner_with_cache_def c Let_def then_do_def [of "cn_initialize ?K D m w4"] split: created.splits sum.splits option.splits prod.splits)
  have d1: "durable w1 = \<lparr>cd_tables = (\<lambda>_. []), cd_blocks = [], cd_tip = []\<rparr>" using cn_created_empty c cr by simp
  have d2: "durable w2 = durable w1" "sq_autocommit D w2" using oe x by auto
  have d4: "\<not> sq_autocommit D w4" "content w4 = \<lparr>cd_tables = (\<lambda>_. []), cd_blocks = [], cd_tip = []\<rparr>" using cn_begin_effect [OF d2(2) b] d1 d2 x by simp_all
  have wf: "bm_wf (ts_accounts (mf_initial m))" using m by (simp add: manifest_ok_def)
  from commit_sync_effect(2) [OF ctx_initialize [OF d4 wf] q] x have d5: "sq_autocommit D w5" "durable w5 = cn_initial_db ?K m" by auto
  note ini = cn_initial_replayed [OF m i]
  have o: "co_manifest ow = m" "co_snapshot ow = s" "\<not> co_poisoned ow" "co_attempted ow = None"
    using ow by (auto simp: cn_owner_def try_res_Inr_iff split: prod.splits)
  from o ini d5 x m show "archive_ok C D durable m \<lparr>ar_own = ow, ar_counter = counter', ar_file = w', ar_prepared = {}, ar_staged = {}\<rparr>"
    by (auto simp: archive_ok_def cn_extends_def)
  show "ns_blocks (co_snapshot ow) = [?a]" using insert_record_Inr(1) [OF i] o by (simp add: cn_empty_def)
  show "durable w' = cn_initial_db ?K m" using d5(2) x(4) by simp
qed

end

text \<open>Everything an owner created on a fresh path can come to.\<close>

definition archive_reached :: "'k crypto \<Rightarrow> 'w canonical_disk \<Rightarrow> fixture_manifest \<Rightarrow> 'w archive \<Rightarrow> bool" where
  "archive_reached C D m x \<longleftrightarrow> (\<exists>policy counter w ow counter' w'.
     create_anchored_fixture_with_cache_policy C D m policy counter w = (Inr ow, counter', w') \<and>
     archive_run C D \<lparr>ar_own = ow, ar_counter = counter', ar_file = w', ar_prepared = {}, ar_staged = {}\<rparr> x)"

lemma archive_reached_ok:
  assumes "canonical_engine D content durable" "manifest_ok C m" "archive_reached C D m x"
  shows "archive_ok C D durable m x"
proof -
  from assms(3) obtain policy counter w ow counter' w' where c: "create_inner_with_cache C D m policy counter w = (Inr ow, counter', w')"
    and r: "archive_run C D \<lparr>ar_own = ow, ar_counter = counter', ar_file = w', ar_prepared = {}, ar_staged = {}\<rparr> x"
    by (auto simp: archive_reached_def create_anchored_fixture_with_cache_policy_def)
  from canonical_engine.archive_run_keeps [OF assms(1) r canonical_engine.cn_create_ok(1) [OF assms(1) c assms(2)]] show ?thesis by simp
qed

lemma archive_reached_step: "archive_reached C D m x \<Longrightarrow> archive_step C D x y \<Longrightarrow> archive_reached C D m y"
  unfolding archive_reached_def using ar_run_step by metis

end
