(* ===== verification/Durable_Store.thy ===== *)
theory Durable_Store
  imports Durable_Safety Poash_Recovery
begin

text \<open>
  The properties of the file-backed ledger. On an engine whose calls succeed, with the key, uniqueness and width
  constraints of the schema enforced, a staged body commits: the constraints never stand in the way of a
  valid body. \<open>fx_mem\<close> is a concrete file with a fault switch on \<open>COMMIT\<close> for the witnesses.
\<close>

section \<open>The transaction index\<close>

fun fx_positions :: "nat \<Rightarrow> applied_body list \<Rightarrow> (hash \<times> u64 \<times> u64) list" where
  "fx_positions n [] = []"
| "fx_positions n (r # rs) = (let ids = bo_transaction_ids (ab_outcome r) in
     zip ids (map (\<lambda>j. (of_nat (Suc n), of_nat j)) [0..<length ids])) @ fx_positions (Suc n) rs"

abbreviation committed_ids :: "applied_body list \<Rightarrow> hash list" where
  "committed_ids rs \<equiv> concat (map (\<lambda>r. bo_transaction_ids (ab_outcome r)) rs)"

lemma fst_positions: "map fst (fx_positions n rs) = committed_ids rs"
  by (induction rs arbitrary: n) (simp_all add: Let_def)

lemma fx_index_body_spec:
  "fx_index_body revision i ids index = Some index' \<longleftrightarrow>
     distinct ids \<and> (\<forall>ident \<in> set ids. map_of index ident = None) \<and>
     index' = foldl (\<lambda>m (ident, p). bm_insert ident p m) index (zip ids (map (\<lambda>j. (revision, of_nat j)) [i..<i + length ids]))"
proof (induction ids arbitrary: i index)
  case (Cons ident ids)
  have u: "[i..<i + length (ident # ids)] = i # [Suc i..<Suc i + length ids]" by (simp add: upt_rec)
  show ?case unfolding fx_index_body.simps u using Cons by (auto simp: map_of_bm_insert)
qed auto

lemma map_of_positions:
  assumes "fx_index_body revision i ids index = Some index'"
  shows "map_of index' = map_of index ++ map_of (zip ids (map (\<lambda>j. (revision, of_nat j)) [i..<i + length ids]))"
  using assms
proof (induction ids arbitrary: i index)
  case (Cons ident ids)
  have u: "[i..<i + length (ident # ids)] = i # [Suc i..<Suc i + length ids]" by (simp add: upt_rec)
  let ?z = "zip ids (map (\<lambda>j. (revision, of_nat j :: u64)) [Suc i..<Suc i + length ids])"
  from Cons.prems have "fx_index_body revision (Suc i) ids (bm_insert ident (revision, of_nat i) index) = Some index'"
    by (simp split: if_splits)
  note ih = Cons.IH [OF this]
  have "ident \<notin> set ids" using Cons.prems by (auto simp: fx_index_body_spec simp del: fx_index_body.simps)
  then have "map_of ?z ident = None" by (auto simp: map_of_eq_None_iff dest: set_zip_leftD)
  note fresh = map_add_upd_fresh [of "map_of ?z" ident "map_of index" "(revision, of_nat i)", OF this]
  have z: "map_of (zip (ident # ids) (map (\<lambda>j. (revision, of_nat j)) (i # [Suc i..<Suc i + length ids]))) = (map_of ?z)(ident \<mapsto> (revision, of_nat i))"
    unfolding list.map zip_Cons_Cons map_of.simps fst_conv snd_conv by (rule refl)
  show ?case unfolding ih u z map_of_bm_insert by (rule fresh)
qed auto

lemma fx_index_bodies_spec:
  assumes "fx_index_bodies n rs index = Some index'"
  shows "distinct (committed_ids rs)" "\<forall>ident \<in> set (committed_ids rs). map_of index ident = None"
    "map_of index' = map_of index ++ map_of (fx_positions n rs)"
proof -
  have "distinct (committed_ids rs) \<and> (\<forall>ident \<in> set (committed_ids rs). map_of index ident = None) \<and>
     map_of index' = map_of index ++ map_of (fx_positions n rs)"
    using assms
  proof (induction rs arbitrary: n index)
    case (Cons r rs)
    let ?ids = "bo_transaction_ids (ab_outcome r)"
    from Cons.prems obtain i1 where i1: "fx_index_body (of_nat (Suc n)) 0 ?ids index = Some i1" "fx_index_bodies (Suc n) rs i1 = Some index'"
      by (auto simp: bind_eq_Some_conv simp del: of_nat_Suc)
    note s = i1(1) [unfolded fx_index_body_spec] and p = map_of_positions [OF i1(1)] and ih = Cons.IH [OF i1(2)]
    let ?z = "zip ?ids (map (\<lambda>j. (of_nat (Suc n) :: u64, of_nat j :: u64)) [0..<length ?ids])"
    have z: "map_of ?z ident \<noteq> None \<longleftrightarrow> ident \<in> set ?ids" for ident
      using map_of_eq_None_iff [of ?z ident] by (simp add: set_map [symmetric] del: set_map of_nat_Suc)
    have d: "\<forall>ident \<in> set (committed_ids rs). ident \<notin> set ?ids \<and> map_of index ident = None"
    proof
      fix ident assume "ident \<in> set (committed_ids rs)"
      with ih have "map_of i1 ident = None" by blast
      then have "(map_of index ++ map_of ?z) ident = None" unfolding p by simp
      with z [of ident] show "ident \<notin> set ?ids \<and> map_of index ident = None" by (simp add: map_add_None del: of_nat_Suc)
    qed
    have "map_of index ++ map_of ?z ++ map_of (fx_positions (Suc n) rs) = map_of index ++ map_of (fx_positions n (r # rs))"
    proof -
      have disj: "dom (map_of ?z) \<inter> dom (map_of (fx_positions (Suc n) rs)) = {}"
      proof -
        have "dom (map_of (fx_positions (Suc n) rs)) = set (committed_ids rs)" by (simp only: dom_map_of_conv_image_fst set_map [symmetric] fst_positions)
        moreover have "dom (map_of ?z) = set ?ids" using z by (auto simp: dom_def)
        ultimately show ?thesis using d by auto
      qed
      show ?thesis unfolding map_add_assoc [symmetric] map_add_comm [OF disj] by (simp add: Let_def del: of_nat_Suc)
    qed
    with ih p s d show ?case by (auto simp del: of_nat_Suc)
  qed (simp add: map_add_def)
  then show "distinct (committed_ids rs)" "\<forall>ident \<in> set (committed_ids rs). map_of index ident = None"
    "map_of index' = map_of index ++ map_of (fx_positions n rs)" by simp_all
qed

lemma replayed_index_exact:
  assumes "fx_replayed C cx seed s"
  shows "map_of (fs_transaction_index s) = map_of (fx_positions 0 (fs_bodies s))" "distinct (committed_ids (fs_bodies s))"
  using fx_index_bodies_spec [of 0 "fs_bodies s" "[]" "fs_transaction_index s"] assms
  by (auto simp: fx_replayed_def)

section \<open>Constraints\<close>

text \<open>The \<open>CHECK\<close> widths of the columns that a commit writes, with \<open>None\<close> for a column without one.\<close>

fun fx_columns :: "fx_table \<Rightarrow> nat option list" where
  "fx_columns Fx_accounts = [Some 20, Some 16, Some 8]"
| "fx_columns Seed_accounts = [Some 20, Some 16, Some 8]"
| "fx_columns Fx_bodies = [Some 8, Some 8, None, Some 4, Some 8, Some 8, Some 8]"
| "fx_columns Fx_transactions = [Some 32, Some 8, Some 8, Some 20, Some 8, Some 199]"
| "fx_columns Fx_accounting = [None, Some 8, Some 16]"
| "fx_columns Fx_metadata = [None, Some 4, None, Some 8, Some 32, Some 4, None, Some 8, Some 16, Some 8, Some 8, Some 8, None, None]"

definition fx_typed :: "fx_table \<Rightarrow> cell list \<Rightarrow> bool" where
  "fx_typed t row \<longleftrightarrow> list_all2 (\<lambda>n c. case n of None \<Rightarrow> True | Some n \<Rightarrow> (case c of Blob b \<Rightarrow> length b = n | _ \<Rightarrow> False)) (fx_columns t) row"

text \<open>\<open>PRIMARY KEY\<close>, \<open>UNIQUE(revision,position)\<close>, \<open>UNIQUE(sender,nonce)\<close> and the foreign key of an entry. Nothing is said
  of the statements that only the creation makes.\<close>

fun fx_allowed :: "fx_statement \<Rightarrow> fxdb \<Rightarrow> bool" where
  "fx_allowed (Fx_insert t row) db \<longleftrightarrow> fx_typed t row \<and> (\<forall>r \<in> set (db t). fx_key t r \<noteq> fx_key t row) \<and>
     (t = Fx_transactions \<longrightarrow> (\<forall>r \<in> set (db t). r ! 0 \<noteq> row ! 0 \<and> (r ! 3, r ! 4) \<noteq> (row ! 3, row ! 4)) \<and>
        (\<exists>r \<in> set (db Fx_bodies). r ! 0 = row ! 1))"
| "fx_allowed (Fx_upsert_account row) db \<longleftrightarrow> fx_typed Fx_accounts row"
| "fx_allowed (Fx_update_accounting gas burn) db \<longleftrightarrow> length gas = 8 \<and> length burn = 16"
| "fx_allowed (Fx_update_revision v) db \<longleftrightarrow> length v = 8"
| "fx_allowed (Fx_update_barrier v) db \<longleftrightarrow> length v = 8"
| "fx_allowed _ db \<longleftrightarrow> False"

fun fx_affected :: "fx_statement \<Rightarrow> fxdb \<Rightarrow> nat" where
  "fx_affected (Fx_update_accounting gas burn) db = length (db Fx_accounting)"
| "fx_affected st db = 1"

text \<open>An engine whose queries succeed.\<close>

locale fixture_reading = fixture_engine +
  assumes fh_select: "fx_select D q w = Some (map Some (fx_rows q (content w)))"
begin

lemma h_accounts:
  assumes "content w t = map fx_account_row as" "bm_wf as" "\<forall>a \<in> fst ` set as. length a = 20"
  shows "read_accounts D t w = Inr as"
proof -
  have "\<exists>m'. fx_collect_accounts (map Some (map fx_account_row as)) m = Inr m'" for m
    using assms(3) by (induction as arbitrary: m) (auto simp: fx_account_of_def fx_account_row_def fx_blob_def)
  then obtain m' where "read_accounts D t w = Inr m'" using assms(1) by (auto simp: read_accounts_def fh_select)
  with read_accounts_content [OF this assms(1,2)] show ?thesis by simp
qed

lemma h_state:
  assumes "content w Fx_accounts = map fx_account_row (ts_accounts st)" "content w Fx_accounting = [fx_accounting_row st]"
    "bm_wf (ts_accounts st)" "\<forall>a \<in> fst ` set (ts_accounts st). length a = 20"
  shows "read_state D w = Inr st"
  using h_accounts [OF assms(1,3,4)] assms(2)
  by (cases st) (simp add: read_state_def fh_select one_row_def first_row_def fx_totals_def fx_accounting_row_def fx_blob_def)

end

text \<open>An engine whose calls succeed: statements within the constraints, beginning, and committing.\<close>

locale fixture_healthy = fixture_reading +
  assumes fh_write: "\<not> sq_autocommit D w \<Longrightarrow> fx_allowed st (content w) \<Longrightarrow> \<exists>w'. fx_write D st w = (Some (fx_affected st (content w)), w')"
    and fh_begin: "sq_autocommit D w \<Longrightarrow> \<exists>w'. sq_begin D b w = (Some (), w')"
    and fh_commit: "\<not> sq_autocommit D w \<Longrightarrow> \<exists>w'. sq_commit D w = (Some (), w')"
begin

lemma h_exec:
  assumes "\<not> sq_autocommit D w" "fx_allowed st (content w)"
  shows "\<exists>w'. fx_exec D st w = (Inr (fx_affected st (content w)), w') \<and> \<not> sq_autocommit D w' \<and> content w' = fx_apply st (content w)"
proof -
  obtain w' where w': "fx_write D st w = (Some (fx_affected st (content w)), w')" using fh_write [OF assms] by blast
  with fx_write_effect [OF assms(1) w'] show ?thesis by (simp add: fx_exec_def fx_call_def)
qed

lemma h_metadata_any:
  assumes "content w Fx_metadata = [fx_metadata_row cx seed p revision bar 1]" "length (ac_network_id cx) = 32" "utf8_valid p" "p \<noteq> []"
    and "want = None \<or> want = Some revision"
  shows "verify_metadata D cx want w = Inr revision"
proof -
  have "utf8_valid (str ''fixture-only'')" by (simp add: str_def)
  with assms show ?thesis
    by (auto simp: verify_metadata_def fh_select first_row_def fx_metadata_ok_def fx_metadata_row_def fx_blob_def fx_text_def fx_integer_def fx_optional_blob_def)
qed

lemmas h_metadata = h_metadata_any [where want = "Some revision" for revision, simplified]

lemma h_changed:
  assumes "\<not> sq_autocommit D w" "\<forall>a \<in> fst ` set as. length a = 20"
  shows "\<exists>w'. write_changed_accounts D base as w = (Inr (), w') \<and> \<not> sq_autocommit D w' \<and> (\<forall>t. t \<noteq> Fx_accounts \<longrightarrow> content w' t = content w t)"
  using assms
proof (induction as arbitrary: w)
  case (Cons p as)
  obtain a x where p: "p = (a, x)" by force
  show ?case
  proof (cases "map_of base a = Some x")
    case True
    with Cons show ?thesis by (simp add: p)
  next
    case False
    have "fx_allowed (Fx_upsert_account (fx_account_row (a, x))) (content w)" using Cons.prems(2) by (simp add: p fx_typed_def fx_account_row_def)
    then obtain w1 where w1: "fx_exec D (Fx_upsert_account (fx_account_row (a, x))) w = (Inr 1, w1)" "\<not> sq_autocommit D w1"
      "content w1 = fx_apply (Fx_upsert_account (fx_account_row (a, x))) (content w)"
    using h_exec [OF Cons.prems(1), of "Fx_upsert_account (fx_account_row (a, x))"] by (auto simp del: fx_apply.simps fx_allowed.simps)
    from Cons.IH [OF w1(2)] Cons.prems(2) obtain w2 where "write_changed_accounts D base as w1 = (Inr (), w2)" "\<not> sq_autocommit D w2"
      "\<forall>t. t \<noteq> Fx_accounts \<longrightarrow> content w2 t = content w1 t" by auto
    with w1 False show ?thesis by (intro exI [of _ w2]) (simp add: p then_do_def)
  qed
qed simp

text \<open>Entries whose identifiers and sender--nonce pairs are fresh all go in.\<close>

lemma h_entries:
  assumes "\<not> sq_autocommit D w" "\<exists>r \<in> set (content w Fx_bodies). r ! 0 = Blob (be_bytes revision)"
    and "\<forall>(bs, ident) \<in> set es. \<exists>tx. signed_from_bytes C bs = Inr tx \<and> length ident = 32 \<and> length bs = 199 \<and> length (ut_sender (st_unsigned tx)) = 20"
    and "distinct (map snd es)" "distinct (map (\<lambda>(bs, _). (ut_sender (unsigned_of C bs), ut_nonce (unsigned_of C bs))) es)"
    and "i + length es < 2 ^ 64"
    and "\<forall>r \<in> set (content w Fx_transactions). fx_key Fx_transactions r < [be_bytes revision, be_bytes (of_nat i :: u64)]"
    and "\<forall>r \<in> set (content w Fx_transactions). r ! 0 \<notin> Blob ` set (map snd es)"
    and "\<forall>r \<in> set (content w Fx_transactions). \<forall>(bs, _) \<in> set es. (r ! 3, r ! 4) \<noteq> (Blob (ut_sender (unsigned_of C bs)), Blob (be_bytes (ut_nonce (unsigned_of C bs))))"
  shows "\<exists>w'. write_entries C D revision i es w = (Inr (), w') \<and> \<not> sq_autocommit D w'"
  using assms
proof (induction es arbitrary: w i)
  case (Cons e es)
  obtain bs ident where e: "e = (bs, ident)" by force
  from Cons.prems(3) obtain tx where tx: "signed_from_bytes C bs = Inr tx" "length ident = 32" "length bs = 199" "length (ut_sender (st_unsigned tx)) = 20"
    by (auto simp: e)
  let ?row = "fx_entry_row revision i bs ident (st_unsigned tx)"
  have un: "unsigned_of C bs = st_unsigned tx" by (simp add: unsigned_of_def tx)
  have key: "fx_key Fx_transactions ?row = [be_bytes revision, be_bytes (of_nat i :: u64)]" by (simp add: fx_entry_row_def)
  have "fx_typed Fx_transactions ?row" using tx by (simp add: fx_typed_def fx_entry_row_def)
  moreover have "\<forall>r \<in> set (content w Fx_transactions). fx_key Fx_transactions r \<noteq> fx_key Fx_transactions ?row"
    using Cons.prems(7) unfolding key by (metis less_irrefl)
  moreover have "\<forall>r \<in> set (content w Fx_transactions). r ! 0 \<noteq> ?row ! 0 \<and> (r ! 3, r ! 4) \<noteq> (?row ! 3, ?row ! 4)"
    using Cons.prems(8,9) by (fastforce simp: e un fx_entry_row_def)
  moreover have "\<exists>r \<in> set (content w Fx_bodies). r ! 0 = ?row ! 1" using Cons.prems(2) by (simp add: fx_entry_row_def)
  ultimately have "fx_allowed (Fx_insert Fx_transactions ?row) (content w)" by simp
  then obtain w1 where w1: "fx_exec D (Fx_insert Fx_transactions ?row) w = (Inr 1, w1)" "\<not> sq_autocommit D w1"
    "content w1 = fx_apply (Fx_insert Fx_transactions ?row) (content w)"
    using h_exec [OF Cons.prems(1), of "Fx_insert Fx_transactions ?row"] by (auto simp del: fx_apply.simps fx_allowed.simps)
  have "put_row (fx_key Fx_transactions) ?row (content w Fx_transactions) = content w Fx_transactions @ [?row]"
    by (rule put_row_last) (use Cons.prems(7) key in metis)
  then have c1: "content w1 Fx_bodies = content w Fx_bodies" "content w1 Fx_transactions = content w Fx_transactions @ [?row]"
    by (simp_all add: w1(3) del: fx_key.simps)
  have lt: "be_bytes (of_nat i :: u64) < be_bytes (of_nat (Suc i) :: u64)" using Cons.prems(6) by (intro be_bytes_nat_less) simp_all
  have "\<exists>w2. write_entries C D revision (Suc i) es w1 = (Inr (), w2) \<and> \<not> sq_autocommit D w2"
  proof (rule Cons.IH [OF w1(2)])
    show "\<exists>r \<in> set (content w1 Fx_bodies). r ! 0 = Blob (be_bytes revision)" using Cons.prems(2) c1 by simp
    show "\<forall>r \<in> set (content w1 Fx_transactions). fx_key Fx_transactions r < [be_bytes revision, be_bytes (of_nat (Suc i) :: u64)]"
    proof
      fix r assume "r \<in> set (content w1 Fx_transactions)"
      then consider "r \<in> set (content w Fx_transactions)" | "r = ?row" using c1 by auto
      then show "fx_key Fx_transactions r < [be_bytes revision, be_bytes (of_nat (Suc i) :: u64)]"
      proof cases
        case 1
        with Cons.prems(7) have "fx_key Fx_transactions r < [be_bytes revision, be_bytes (of_nat i :: u64)]" by blast
        also have "\<dots> < [be_bytes revision, be_bytes (of_nat (Suc i) :: u64)]" using lt by simp
        finally show ?thesis .
      next
        case 2
        then show ?thesis using key lt by simp
      qed
    qed
    show "\<forall>r \<in> set (content w1 Fx_transactions). r ! 0 \<notin> Blob ` set (map snd es)"
      using Cons.prems(4,8) c1 by (auto simp: e fx_entry_row_def)
    show "\<forall>r \<in> set (content w1 Fx_transactions). \<forall>(bs, _) \<in> set es. (r ! 3, r ! 4) \<noteq> (Blob (ut_sender (unsigned_of C bs)), Blob (be_bytes (ut_nonce (unsigned_of C bs))))"
      using Cons.prems(5,9) c1 by (fastforce simp: e fx_entry_row_def un image_iff)
  qed (use Cons.prems in auto)
  then show ?case using tx w1 by (auto simp: e then_do_def)
qed simp

end

section \<open>A staged body commits\<close>

lemma in_turn_pairs: "in_turn N ts \<Longrightarrow> distinct (map (\<lambda>t. (ut_sender (st_unsigned t), ut_nonce (st_unsigned t))) ts)"
proof (induction ts arbitrary: N)
  case (Cons t ts)
  let ?N = "N(ut_sender (st_unsigned t) := Suc (N (ut_sender (st_unsigned t))))"
  have "(ut_sender (st_unsigned t), ut_nonce (st_unsigned t)) \<noteq> (ut_sender (st_unsigned u), ut_nonce (st_unsigned u))" if "u \<in> set ts" for u
    using in_turn_bound [of ?N ts u] Cons.prems that by auto
  with Cons show ?case by force
qed simp

lemma map_lift: "map f xs = map Inr ts \<Longrightarrow> (\<And>x t. f x = Inr t \<Longrightarrow> g x = h t) \<Longrightarrow> map g xs = map h ts"
  by (induction xs arbitrary: ts) (auto simp: map_eq_Cons_conv Cons_eq_map_conv)

lemma replay_pairs:
  assumes "replay C s rs = Some s'"
  shows "distinct (map (\<lambda>bs. (ut_sender (unsigned_of C bs), ut_nonce (unsigned_of C bs))) (concat (map ab_transactions rs)))"
proof -
  from replay_in_turn [OF assms] obtain ts where ts: "map (signed_from_bytes C) (concat (map ab_transactions rs)) = map Inr ts" "in_turn (nonces s) ts"
    by blast
  have "map (\<lambda>bs. (ut_sender (unsigned_of C bs), ut_nonce (unsigned_of C bs))) (concat (map ab_transactions rs)) =
      map (\<lambda>t. (ut_sender (st_unsigned t), ut_nonce (st_unsigned t))) ts"
    by (rule map_lift [OF ts(1)]) (simp add: unsigned_of_def)
  with in_turn_pairs [OF ts(2)] show ?thesis by simp
qed

lemma stage_body_widths:
  assumes "stage_body C s cx slot body = Inr sb" "\<forall>a \<in> fst ` set (ts_accounts s). length a = 20"
  shows "\<forall>a \<in> fst ` set (ts_accounts (sb_candidate sb)). length a = 20"
proof -
  from assms(1) obtain ps out where l: "list_all2 (\<lambda>b p. authenticate C b cx None = Inr p) body ps"
    and e: "execute_proofs 0 s default_outcome slot ps = Inr (sb_candidate sb, out)"
    by (rule stage_body_elim)
  from execute_proofs_keys [OF e l] assms(2) show ?thesis by blast
qed

lemma replay_widths:
  assumes "replay C s rs = Some s'" "\<forall>a \<in> fst ` set (ts_accounts s). length a = 20"
  shows "\<forall>a \<in> fst ` set (ts_accounts s'). length a = 20"
  using assms
proof (induction rs arbitrary: s)
  case (Cons r rs)
  from Cons.prems(1) obtain sb where "stage_body C s (ab_context r) (ab_slot r) (ab_transactions r) = Inr sb" "replay C (sb_candidate sb) rs = Some s'"
    by (rule replay_step)
  with Cons.IH stage_body_widths [OF this(1) Cons.prems(2)] show ?case by blast
qed simp

lemma fx_transaction_rows_origin:
  assumes "r \<in> set (fx_transaction_rows C n rs)"
  shows "\<exists>bs ident. bs \<in> set (concat (map ab_transactions rs)) \<and> ident \<in> set (committed_ids rs) \<and> r ! 0 = Blob ident \<and>
    r ! 3 = Blob (ut_sender (unsigned_of C bs)) \<and> r ! 4 = Blob (be_bytes (ut_nonce (unsigned_of C bs)))"
  using assms
proof (induction rs arbitrary: n)
  case (Cons b rs)
  from Cons.prems consider "r \<in> set (fx_entry_rows C (of_nat (Suc n)) 0 (body_entries b))" | "r \<in> set (fx_transaction_rows C (Suc n) rs)"
    by (auto simp del: of_nat_Suc)
  then show ?case
  proof cases
    case 1
    then obtain i bs ident where e: "(bs, ident) \<in> set (body_entries b)" "r = fx_entry_row (of_nat (Suc n)) i bs ident (unsigned_of C bs)"
      by (auto simp: fx_entry_rows_def in_set_enumerate_eq simp del: of_nat_Suc) (metis nth_mem)
    then have "bs \<in> set (ab_transactions b)" "ident \<in> set (bo_transaction_ids (ab_outcome b))" by (auto simp: body_entries_def dest: set_zip_leftD set_zip_rightD)
    with e show ?thesis by (intro exI [of _ bs] exI [of _ ident]) (auto simp: fx_entry_row_def)
  next
    case 2
    from Cons.IH [OF 2] show ?thesis by fastforce
  qed
qed simp

lemma authenticated_id_width: "authenticate C b cx None = Inr p \<Longrightarrow> digest32 (c_keccak C) \<Longrightarrow> length (at_transaction_id p) = 32"
  by (auto simp: authenticate_def transaction_id_def try_res_Inr_iff digest32_def split: if_splits)

lemma staged_entry:
  assumes "stage_body C s cx slot body = Inr sb" "digest32 (c_keccak C)" "(bs, ident) \<in> set (body_entries (sb_record sb))"
  shows "\<exists>tx. signed_from_bytes C bs = Inr tx \<and> length ident = 32 \<and> length bs = 199 \<and> length (ut_sender (st_unsigned tx)) = 20"
proof -
  from assms(1) obtain ps out where l: "list_all2 (\<lambda>b p. authenticate C b cx None = Inr p) body ps"
    and e: "execute_proofs 0 s default_outcome slot ps = Inr (sb_candidate sb, out)"
    and r: "sb_record sb = \<lparr>ab_context = cx, ab_slot = slot, ab_transactions = body, ab_outcome = out\<rparr>"
    by (rule stage_body_elim)
  have ids: "bo_transaction_ids out = map at_transaction_id ps" using execute_proofs_refines [OF e] by (simp add: default_outcome_def)
  from assms(3) obtain i where i: "i < length body" "i < length ps" "bs = body ! i" "ident = at_transaction_id (ps ! i)"
    by (auto simp: body_entries_def r ids in_set_zip)
  have a: "authenticate C bs cx None = Inr (ps ! i)" using list_all2_nthD2 [OF l i(2)] i(3) by simp
  note w = authenticated_widths [OF a] and s = authenticated_profile(2) [OF a]
  have "length bs = 199" using s by (auto simp: signed_from_bytes_def require_length_def native_lens try_res_Inr_iff split: if_splits)
  moreover have "length (at_transaction_id (ps ! i)) = 32"
    by (rule authenticated_id_width [OF a assms(2)])
  ultimately show ?thesis using s w i(4) by auto
qed

lemma fx_prepared_Some:
  assumes "fx_replayed C cx seed s" "distinct (committed_ids (fs_bodies s @ [ol_record ol]))"
  shows "\<exists>s'. fx_prepared ol revision s = Some s'"
proof -
  have "map_of (fs_transaction_index s) ident = None" if "ident \<in> set (bo_transaction_ids (ab_outcome (ol_record ol)))" for ident
  proof -
    have "ident \<notin> set (committed_ids (fs_bodies s))" using assms(2) that by auto
    then show ?thesis unfolding replayed_index_exact(1) [OF assms(1)] map_of_eq_None_iff set_map [symmetric] fst_positions .
  qed
  moreover have "distinct (bo_transaction_ids (ab_outcome (ol_record ol)))" using assms(2) by simp
  ultimately show ?thesis by (auto simp: fx_prepared_def fx_index_body_spec simp del: fx_index_body.simps)
qed

text \<open>The widths that Rust's types fix: 20-byte addresses, a 32-byte network and UTF-8 provenance.\<close>

definition fixture_widths :: "'k crypto \<Rightarrow> auth_context \<Rightarrow> transfer_state \<Rightarrow> text_bytes \<Rightarrow> bool" where
  "fixture_widths C cx seed provenance \<longleftrightarrow> digest32 (c_keccak C) \<and> (\<forall>a \<in> fst ` set (ts_accounts seed). length a = 20) \<and>
     length (ac_network_id cx) = 32 \<and> utf8_valid provenance \<and> provenance \<noteq> []"

context fixture_healthy
begin

lemma h_commit_writes:
  assumes w: "\<not> sq_autocommit D w" and st: "fx_stored C cx seed s (content w)" and rep: "fx_replayed C cx seed s" and wf: "bm_wf (ts_accounts seed)"
    and wd: "fixture_widths C cx seed (fs_provenance s)" and sb: "stage_body C (fs_state s) cx slot body = Inr sb"
    and ol: "ol_base ol = fs_state s" "ol_revision ol = fs_revision s" "ol_candidate ol = sb_candidate sb" "ol_record ol = sb_record sb"
    and rev: "checked_add (fs_revision s) 1 = Some revision" and ids: "distinct (committed_ids (fs_bodies s @ [sb_record sb]))"
  shows "\<exists>w'. fx_commit_writes C D cx ol revision w = (Inr (), w') \<and> \<not> sq_autocommit D w'"
proof -
  let ?n = "length (fs_bodies s)" and ?r = "sb_record sb"
  from rep have r: "replay C seed (fs_bodies s) = Some (fs_state s)" by (simp add: fx_replayed_def)
  have wf1: "bm_wf (ts_accounts (fs_state s))" using replay_conserves [OF r wf] by simp
  have w20: "\<forall>a \<in> fst ` set (ts_accounts (fs_state s)). length a = 20" using replay_widths [OF r] wd by (simp add: fixture_widths_def)
  have base: "ol_base ol = sb_base sb" using sb ol(1) by (auto elim: stage_body_elim)
  obtain s' where s': "fx_prepared ol revision s = Some s'" using fx_prepared_Some [OF rep, of ol revision] ids by (auto simp: ol(4))
  note nx = fx_stored_next [OF st rep wf sb base ol(3,4) rev s']
  have rv: "revision = of_nat (Suc ?n)" by (rule nx(5))
  have nb: "Suc ?n < 2 ^ 64" using nx(1,3) by (simp add: fx_replayed_def)
  have v: "verify_metadata D cx (Some (ol_revision ol)) w = Inr (fs_revision s)"
    using st wd h_metadata by (auto simp: fx_stored_def fixture_widths_def ol)
  have rs: "read_state D w = Inr (ol_base ol)" using h_state [OF _ _ wf1 w20] st by (simp add: fx_stored_def ol)
  from h_changed [OF w stage_body_widths [OF sb w20], of "ts_accounts (ol_base ol)"] obtain w1 where
    1: "write_changed_accounts D (ts_accounts (ol_base ol)) (ts_accounts (sb_candidate sb)) w = (Inr (), w1)" "\<not> sq_autocommit D w1"
      "\<And>t. t \<noteq> Fx_accounts \<Longrightarrow> content w1 t = content w t" by blast
  let ?u = "Fx_update_accounting (be_bytes (ts_gas_used_total (sb_candidate sb))) (be_bytes (ts_fees_burned_total (sb_candidate sb)))"
  have "length (content w1 Fx_accounting) = 1" using 1(3) st by (simp add: fx_stored_def)
  with h_exec [OF 1(2), of ?u] obtain w2 where 2: "fx_write_accounting D (sb_candidate sb) w1 = (Inr (), w2)" "\<not> sq_autocommit D w2"
    "content w2 = fx_apply ?u (content w1)" by (auto simp: fx_write_accounting_def then_do_def)
  have c2: "content w2 Fx_bodies = fx_body_rows cx 0 (fs_bodies s)" "content w2 Fx_transactions = fx_transaction_rows C 0 (fs_bodies s)"
    using 2(3) 1(3) st by (simp_all add: fx_stored_def)
  let ?row = "fx_body_row cx revision ?r" and ?b = "Fx_insert Fx_bodies (fx_body_row cx revision (sb_record sb))"
  have key: "fx_key Fx_bodies ?row = [be_bytes (of_nat (Suc ?n) :: u64)]" by (simp add: fx_body_row_def rv)
  have lt: "\<forall>x \<in> set (content w2 Fx_bodies). fx_key Fx_bodies x < fx_key Fx_bodies ?row"
    unfolding key c2 using fx_body_rows_keys [OF _ _ nb, of _ cx 0 "fs_bodies s"] by simp
  have "fx_typed Fx_bodies ?row" by (simp add: fx_typed_def fx_body_row_def)
  with lt have "fx_allowed ?b (content w2)" by (auto simp del: fx_key.simps)
  with h_exec [OF 2(2), of ?b] obtain w3 where 3: "fx_exec D ?b w2 = (Inr 1, w3)" "\<not> sq_autocommit D w3" "content w3 = fx_apply ?b (content w2)"
    by (auto simp del: fx_apply.simps fx_allowed.simps)
  have c3: "?row \<in> set (content w3 Fx_bodies)" "content w3 Fx_transactions = fx_transaction_rows C 0 (fs_bodies s)"
    using 3(3) c2 put_row_last [OF lt] by (simp_all del: fx_key.simps)
  let ?es = "body_entries ?r"
  have parts: "map fst ?es = ab_transactions ?r" "map snd ?es = bo_transaction_ids (ab_outcome ?r)"
    using body_entries_parts [OF staged_entries(1) [OF sb]] by simp_all
  have all: "replay C seed (fs_bodies s @ [?r]) = Some (sb_candidate sb)"
    using r stage_body_replays [OF sb] by (simp add: Native_Transfer.replay_append del: replay.simps(2))
  let ?pair = "\<lambda>bs. (ut_sender (unsigned_of C bs), ut_nonce (unsigned_of C bs))"
  have pairs: "distinct (map ?pair (concat (map ab_transactions (fs_bodies s))) @ map ?pair (map fst ?es))"
    using replay_pairs [OF all] by (simp add: parts)
  have "\<exists>w'. write_entries C D revision 0 ?es w3 = (Inr (), w') \<and> \<not> sq_autocommit D w'"
  proof (rule h_entries [OF 3(2)])
    show "\<exists>r \<in> set (content w3 Fx_bodies). r ! 0 = Blob (be_bytes revision)" using c3(1) by (intro bexI [of _ ?row]) (simp_all add: fx_body_row_def)
    show "\<forall>(bs, ident) \<in> set ?es. \<exists>tx. signed_from_bytes C bs = Inr tx \<and> length ident = 32 \<and> length bs = 199 \<and> length (ut_sender (st_unsigned tx)) = 20"
      using staged_entry [OF sb] wd by (auto simp: fixture_widths_def)
    show "distinct (map snd ?es)" using ids by (simp add: parts)
    show "distinct (map (\<lambda>(bs, _). ?pair bs) ?es)" using pairs by (simp add: case_prod_beta' comp_def)
    show "0 + length ?es < 2 ^ 64" using staged_entries(1,2) [OF sb] by (simp add: body_entries_def)
    show "\<forall>r \<in> set (content w3 Fx_transactions). fx_key Fx_transactions r < [be_bytes revision, be_bytes (of_nat 0 :: u64)]"
      unfolding c3(2) rv using fx_transaction_rows_keys [OF _ _ nb, of _ C 0 "fs_bodies s"] by simp
    show "\<forall>r \<in> set (content w3 Fx_transactions). r ! 0 \<notin> Blob ` set (map snd ?es)"
      unfolding c3(2) parts using ids by (fastforce dest!: fx_transaction_rows_origin)
    show "\<forall>r \<in> set (content w3 Fx_transactions). \<forall>(bs, _) \<in> set ?es. (r ! 3, r ! 4) \<noteq> (Blob (ut_sender (unsigned_of C bs)), Blob (be_bytes (ut_nonce (unsigned_of C bs))))"
    proof (intro ballI, clarify)
      fix r bs ident assume "r \<in> set (content w3 Fx_transactions)" and e: "(bs, ident) \<in> set ?es"
        and eq: "r ! 3 = Blob (ut_sender (unsigned_of C bs))" "r ! 4 = Blob (be_bytes (ut_nonce (unsigned_of C bs)))"
      then obtain b where b: "b \<in> set (concat (map ab_transactions (fs_bodies s)))" "?pair b = ?pair bs"
        unfolding c3(2) using fx_transaction_rows_origin by fastforce
      have "bs \<in> set (map fst ?es)" using e by force
      with b pairs show False unfolding distinct_append by (metis (no_types, lifting) disjoint_iff image_eqI list.set_map)
    qed
  qed
  then obtain w4 where 4: "write_entries C D revision 0 ?es w3 = (Inr (), w4)" "\<not> sq_autocommit D w4" by blast
  from h_exec [OF 4(2), of "Fx_update_revision (be_bytes revision)"] obtain w5 where
    5: "fx_exec D (Fx_update_revision (be_bytes revision)) w4 = (Inr 1, w5)" "\<not> sq_autocommit D w5" by auto
  show ?thesis
    using v rs 1(1) 2(1) 3(1) 4(1) 5 by (simp add: fx_commit_writes_def then_do_def ol body_entries_def)
qed

lemma h_commit:
  assumes ok: "fixture_ok C D durable cx seed x" and stage: "fx_stage C (fx_own x) slot body = Inr ol"
    and wd: "fixture_widths C cx seed (fs_provenance (fo_snapshot (fx_own x)))" and room: "fs_revision (fo_snapshot (fx_own x)) \<noteq> - 1"
    and ids: "distinct (committed_ids (fs_bodies (fo_snapshot (fx_own x)) @ [ol_record ol]))"
  shows "\<exists>w' s'. fx_commit C D (fx_own x) ol (fx_file x) = (Fx_committed (ab_outcome (ol_record ol)), (fx_own x)\<lparr>fo_snapshot := s'\<rparr>, w') \<and>
     fs_bodies s' = fs_bodies (fo_snapshot (fx_own x)) @ [ol_record ol] \<and> fs_state s' = ol_candidate ol"
proof -
  let ?ow = "fx_own x" and ?s = "fo_snapshot (fx_own x)"
  from stage obtain sb where p: "\<not> fo_poisoned ?ow" and sb: "stage_body C (fs_state ?s) (fo_context ?ow) slot body = Inr sb"
    and ol: "ol_generation ol = fo_generation ?ow" "ol_revision ol = fs_revision ?s" "ol_base ol = sb_base sb" "ol_candidate ol = sb_candidate sb" "ol_record ol = sb_record sb"
    by (auto simp: fx_stage_def fx_ready_def try_res_Inr_iff split: if_splits)
  from ok p have cx: "fo_context ?ow = cx" and i: "sq_autocommit D (fx_file x)" "fo_attempted_revision ?ow = None" "bm_wf (ts_accounts seed)"
    and rep: "fx_replayed C cx seed ?s" and st: "fx_stored C cx seed ?s (durable (fx_file x))"
    by (auto simp: fixture_ok_def Let_def fx_extends_def)
  have base: "ol_base ol = fs_state ?s" using sb ol by (auto elim: stage_body_elim)
  obtain revision where rv: "checked_add (fs_revision ?s) 1 = Some revision" using checked_add_one [OF room] by blast
  obtain s' where s': "fx_prepared ol revision ?s = Some s'" using fx_prepared_Some [OF rep ids] by blast
  obtain w1 where b: "sq_begin D True (fx_file x) = (Some (), w1)" using fh_begin [OF i(1)] by blast
  have w1: "\<not> sq_autocommit D w1" "content w1 = durable (fx_file x)" using fx_begin_effect [OF i(1) b] by simp_all
  obtain w2 where w2: "fx_commit_writes C D cx ol revision w1 = (Inr (), w2)" "\<not> sq_autocommit D w2"
    using h_commit_writes [OF w1(1) _ rep i(3) wd sb [unfolded cx] base ol(2,4,5) rv] st w1(2) ids ol(5) by auto
  obtain w3 where w3: "sq_commit D w2 = (Some (), w3)" using fh_commit [OF w2(2)] by blast
  have "fx_commit C D ?ow ol (fx_file x) = (Fx_committed (ab_outcome (ol_record ol)), ?ow\<lparr>fo_snapshot := s'\<rparr>, w3)"
    using p ol(1,2) base rv s' b w2(1) w3 i(2) cx by (simp add: fx_commit_def fx_ready_def)
  moreover have "fs_bodies s' = fs_bodies ?s @ [ol_record ol]" "fs_state s' = ol_candidate ol" using s' by (auto simp: fx_prepared_def)
  ultimately show ?thesis by blast
qed

end

section \<open>A recovery succeeds\<close>

text \<open>Moreover the file is there, its schema is the expected one, and opening and syncing work.\<close>

locale fixture_recoverable = fixture_healthy +
  assumes fh_open: "\<exists>w'. then_do (fx_open D w) (\<lambda>_ w. fx_configure D w) = (Inr (), w')"
    and fh_schema: "content w Fx_metadata \<noteq> [] \<Longrightarrow> fx_check_schema D w = Inr ()"
    and fh_rollback: "\<exists>w'. sq_rollback D w = (Some (), w')"
    and fh_sync: "\<exists>w'. dk_sync_path D w = (Some (), w')"

lemma authenticated_id: "authenticate C b cx None = Inr p \<Longrightarrow> transaction_id C (at_transaction p) = Inr (at_transaction_id p)"
  by (auto simp: authenticate_def try_res_Inr_iff split: if_splits)

lemma staged_entry_id:
  assumes "stage_body C s cx slot body = Inr sb" "(bs, ident) \<in> set (body_entries (sb_record sb))" "signed_from_bytes C bs = Inr tx"
  shows "transaction_id C tx = Inr ident"
proof -
  from assms(1) obtain ps out where l: "list_all2 (\<lambda>b p. authenticate C b cx None = Inr p) body ps"
    and e: "execute_proofs 0 s default_outcome slot ps = Inr (sb_candidate sb, out)"
    and r: "sb_record sb = \<lparr>ab_context = cx, ab_slot = slot, ab_transactions = body, ab_outcome = out\<rparr>"
    by (rule stage_body_elim)
  have ids: "bo_transaction_ids out = map at_transaction_id ps" using execute_proofs_refines [OF e] by (simp add: default_outcome_def)
  from assms(2) obtain i where i: "i < length body" "i < length ps" "bs = body ! i" "ident = at_transaction_id (ps ! i)"
    by (auto simp: body_entries_def r ids in_set_zip)
  have a: "authenticate C bs cx None = Inr (ps ! i)" using list_all2_nthD2 [OF l i(2)] i(3) by simp
  from authenticated_id [OF a] authenticated_profile(2) [OF a] assms(3) i(4) show ?thesis by simp
qed

lemma read_entries_succeed:
  assumes "\<forall>(b, ident) \<in> set es. \<exists>tx. signed_from_bytes C b = Inr tx \<and> transaction_id C tx = Inr ident \<and> length ident = 32 \<and> length b = 199 \<and> length (ut_sender (st_unsigned tx)) = 20"
    and "fx_index_body revision (length bs) (map snd es) index \<noteq> None"
  shows "\<exists>x. fx_read_entries C revision (map Some (map entry_columns (fx_entry_rows C revision (length bs) es))) bs ids index = Inr x"
  using assms
proof (induction es arbitrary: bs ids index)
  case (Cons e es)
  obtain b ident where e: "e = (b, ident)" by force
  from Cons.prems(1) obtain tx where tx: "signed_from_bytes C b = Inr tx" "transaction_id C tx = Inr ident" "length ident = 32" "length b = 199" "length (ut_sender (st_unsigned tx)) = 20"
    by (auto simp: e)
  have un: "unsigned_of C b = st_unsigned tx" by (simp add: unsigned_of_def tx)
  from Cons.prems(2) have n: "map_of index ident = None"
    "fx_index_body revision (length (bs @ [b])) (map snd es) (bm_insert ident (revision, of_nat (length bs)) index) \<noteq> None"
    by (auto simp: e split: if_splits)
  have es: "\<forall>(b, ident) \<in> set es. \<exists>tx. signed_from_bytes C b = Inr tx \<and> transaction_id C tx = Inr ident \<and> length ident = 32 \<and> length b = 199 \<and>
      length (ut_sender (st_unsigned tx)) = 20" using Cons.prems(1) by simp
  obtain x where
    "fx_read_entries C revision (map Some (map entry_columns (fx_entry_rows C revision (length (bs @ [b])) es))) (bs @ [b]) (ids @ [ident])
       (bm_insert ident (revision, of_nat (length bs)) index) = Inr x" using Cons.IH [OF es n(2), of "ids @ [ident]"] by blast
  with tx n(1) show ?case
    by (cases x) (simp add: e fx_entry_row_def fx_entry_def fx_blob_def native_lens un)
qed (simp add: fx_entry_rows_def)

context fixture_recoverable
begin

lemma h_audit_body:
  assumes n: "length rs = n" "n + length qs < 2 ^ 64 - 1" and dg: "digest32 (c_keccak C)"
    and c: "content w Fx_transactions = fx_transaction_rows C 0 (rs @ r # qs)"
    and st: "stage_body C st cx (ab_slot r) (ab_transactions r) = Inr sb" "sb_record sb = r"
    and ix: "fx_index_body (of_nat (Suc n)) 0 (bo_transaction_ids (ab_outcome r)) index = Some index'"
  shows "fx_audit_body C D cx w (fx_body_row cx (of_nat (Suc n)) r) (rs, index, st) = Inr (rs @ [r], index', sb_candidate sb)"
proof -
  let ?rev = "of_nat (Suc n) :: u64" and ?es = "body_entries r"
  note parts = body_entries_parts [OF staged_entries(1) [OF st(1), unfolded st(2)]]
  have rows: "fx_rows (Body_entries (be_bytes ?rev)) (content w) = map entry_columns (fx_entry_rows C ?rev 0 ?es)"
    unfolding fx_rows.simps c by (subst filter_transaction_rows) (use n in \<open>simp_all add: nth_append del: of_nat_Suc\<close>)
  have "\<forall>(b, ident) \<in> set ?es. \<exists>tx. signed_from_bytes C b = Inr tx \<and> transaction_id C tx = Inr ident \<and> length ident = 32 \<and> length b = 199 \<and> length (ut_sender (st_unsigned tx)) = 20"
    using staged_entry [OF st(1) dg] staged_entry_id [OF st(1)] unfolding st(2) by blast
  then obtain bs ids i2 where e: "fx_read_entries C ?rev (map Some (map entry_columns (fx_entry_rows C ?rev (length ([] :: bytes list)) ?es))) [] [] index = Inr (bs, ids, i2)"
    using read_entries_succeed [of ?es C ?rev "[]" index "[]"] ix by (auto simp: parts simp del: of_nat_Suc)
  from fx_read_entries_unique [OF e] ix have v: "bs = ab_transactions r" "ids = bo_transaction_ids (ab_outcome r)" "i2 = index'"
    by (simp_all add: parts del: of_nat_Suc)
  have b: "fx_body (fx_body_row cx ?rev r) = Inr (?rev, ab_slot r, 2, ac_native_rules_version cx, of_nat (length (ab_transactions r)),
      bo_gas_used (ab_outcome r), bo_fees_burned (ab_outcome r))"
    by (simp add: fx_body_def fx_body_row_def fx_blob_def fx_byte_def del: of_nat_Suc)
  have nx: "checked_add (of_nat (length rs) :: u64) 1 = Some ?rev"
  proof -
    have "unat (of_nat (length rs) :: u64) = n" using n by (simp add: unat_of_nat_small)
    moreover have "unat (- 1 :: u64) = 2 ^ 64 - 1" by (simp add: unsigned_minus_1_eq_mask mask_eq_exp_minus_1)
    ultimately have "(of_nat (length rs) :: u64) \<noteq> - 1" using n by auto
    from checked_add_one [OF this] obtain v where v: "checked_add (of_nat (length rs) :: u64) 1 = Some v" by blast
    then have "v = of_nat (length rs) + 1" by (auto simp: checked_add_def split: if_splits)
    with v n(1) show ?thesis by (simp add: add.commute)
  qed
  have "ab_outcome r = \<lparr>bo_transaction_ids = bo_transaction_ids (ab_outcome r), bo_gas_used = bo_gas_used (ab_outcome r), bo_fees_burned = bo_fees_burned (ab_outcome r)\<rparr>"
    by simp
  then show ?thesis
    unfolding fx_audit_body_def prod.case b try_res_simps nx ok_or_simps fh_select rows
    using e v st by (simp del: of_nat_Suc)
qed

lemma h_audit_bodies:
  assumes "length done = n" "n + length rs < 2 ^ 64" "digest32 (c_keccak C)"
    and "content w Fx_transactions = fx_transaction_rows C 0 (done @ rs)"
    and "replay C st rs = Some end_st" "\<forall>r \<in> set rs. ab_context r = cx" "fx_index_bodies n rs index = Some index'"
  shows "fx_audit_bodies C D cx w (map Some (fx_body_rows cx n rs)) (done, index, st) = Inr (done @ rs, index', end_st)"
  using assms
proof (induction rs arbitrary: n "done" index st)
  case (Cons r rs)
  from Cons.prems(5) obtain sb where sb: "stage_body C st (ab_context r) (ab_slot r) (ab_transactions r) = Inr sb"
    "sb_record sb = r" "replay C (sb_candidate sb) rs = Some end_st" by (rule replay_step)
  have cx: "ab_context r = cx" using Cons.prems(6) by simp
  from Cons.prems(7) obtain i1 where i1: "fx_index_body (of_nat (Suc n)) 0 (bo_transaction_ids (ab_outcome r)) index = Some i1"
    "fx_index_bodies (Suc n) rs i1 = Some index'" by (auto simp: bind_eq_Some_conv simp del: of_nat_Suc)
  have n: "n + length rs < 2 ^ 64 - 1" using Cons.prems(2) by simp
  have "fx_audit_bodies C D cx w (map Some (fx_body_rows cx (Suc n) rs)) (done @ [r], i1, sb_candidate sb) = Inr ((done @ [r]) @ rs, index', end_st)"
    by (rule Cons.IH) (use Cons.prems sb(3) i1(2) in simp_all)
  with h_audit_body [OF Cons.prems(1) n Cons.prems(3,4) sb(1) [unfolded cx] sb(2) i1(1)] show ?case by (simp del: of_nat_Suc)
qed simp

lemma h_load:
  assumes st: "fx_stored C cx seed s (content w)" and rep: "fx_replayed C cx seed s" and wf: "bm_wf (ts_accounts seed)"
    and wd: "fixture_widths C cx seed (fs_provenance s)"
  shows "load_snapshot_transaction C D cx w = Inr s"
proof -
  from st obtain bar where meta: "content w Fx_metadata = [fx_metadata_row cx seed (fs_provenance s) (fs_revision s) bar 1]"
    by (auto simp: fx_stored_def)
  from rep have r: "replay C seed (fs_bodies s) = Some (fs_state s)" "fs_revision s = of_nat (length (fs_bodies s))" "fs_canonical_tip s = None" by (simp_all add: fx_replayed_def)
  have wf1: "bm_wf (ts_accounts (fs_state s))" using replay_conserves [OF r(1) wf] by simp
  have w20: "\<forall>a \<in> fst ` set (ts_accounts (fs_state s)). length a = 20" using replay_widths [OF r(1)] wd by (simp add: fixture_widths_def)
  have v: "verify_metadata D cx None w = Inr (fs_revision s)" using h_metadata_any [OF meta, of None] wd by (simp add: fixture_widths_def)
  have sd: "fx_seed (fx_metadata_row cx seed (fs_provenance s) (fs_revision s) bar 1) =
      Inr (ts_gas_used_total seed, ts_fees_burned_total seed, fs_provenance s, of_nat (length (ts_accounts seed)))"
    using wd by (simp add: fx_seed_def fx_metadata_row_def fx_blob_def fx_text_def fixture_widths_def)
  have acc: "read_accounts D Seed_accounts w = Inr (ts_accounts seed)" using h_accounts [OF _ wf] st wd by (simp add: fx_stored_def fixture_widths_def)
  have rs: "read_state D w = Inr (fs_state s)" using h_state [OF _ _ wf1 w20] st by (simp add: fx_stored_def)
  have au: "fx_audit_bodies C D cx w (map Some (fx_body_rows cx 0 (fs_bodies s))) ([], [], seed) = Inr ([] @ fs_bodies s, fs_transaction_index s, fs_state s)"
    by (rule h_audit_bodies) (use st rep wd in \<open>auto simp: fx_stored_def fx_replayed_def fixture_widths_def\<close>)
  have seed: "\<lparr>ts_accounts = ts_accounts seed, ts_gas_used_total = ts_gas_used_total seed, ts_fees_burned_total = ts_fees_burned_total seed\<rparr> = seed" by simp
  have bod: "content w Fx_bodies = fx_body_rows cx 0 (fs_bodies s)" using st by (simp add: fx_stored_def)
  show ?thesis
    using fh_schema [of w] meta v sd acc rs au r bod
    by (simp add: load_snapshot_transaction_def fh_select one_row_def first_row_def seed)
qed

end

context fixture_recoverable
begin

lemma h_load_snapshot:
  assumes "sq_autocommit D w" "fx_stored C cx seed s (durable w)" "fx_replayed C cx seed s" "bm_wf (ts_accounts seed)"
    and "fixture_widths C cx seed (fs_provenance s)"
  shows "\<exists>w'. load_snapshot C D cx w = (Inr s, w') \<and> sq_autocommit D w' \<and> durable w' = durable w"
proof -
  obtain w1 where b: "sq_begin D False w = (Some (), w1)" using fh_begin [OF assms(1)] by blast
  have "content w1 = durable w" using fx_begin_effect [OF assms(1) b] by simp
  with assms(2) have l: "load_snapshot_transaction C D cx w1 = Inr s" by (intro h_load [OF _ assms(3-5)]) simp
  obtain w2 where r: "sq_rollback D w1 = (Some (), w2)" using fh_rollback by blast
  have "load_snapshot C D cx w = (Inr s, w2)" by (simp add: load_snapshot_def then_do_def fx_call_def b l r)
  with fx_rollback_effect [OF r] fx_begin_effect [OF assms(1) b] show ?thesis by simp
qed

lemma h_barrier:
  assumes "sq_autocommit D w" "durable w Fx_metadata = [fx_metadata_row cx seed p revision bar 1]" "length bar = 8" "(be_word bar :: u64) \<noteq> - 1"
    and "length (ac_network_id cx) = 32" "utf8_valid p" "p \<noteq> []"
  shows "\<exists>w'. fx_barrier D cx revision w = (Inr (), w')"
proof -
  obtain w1 where b: "sq_begin D True w = (Some (), w1)" using fh_begin [OF assms(1)] by blast
  have w1: "\<not> sq_autocommit D w1" "content w1 = durable w" using fx_begin_effect [OF assms(1) b] by simp_all
  have v: "verify_metadata D cx (Some revision) w1 = Inr revision" by (rule h_metadata_any) (use assms w1 in simp_all)
  have q: "try_res (one_row (fx_select D (Fx_all Fx_metadata) w1)) (\<lambda>row. if length row = 14 then fx_blob 8 (row ! 11) else Inl DInvalid) = Inr bar"
    using assms(2,3) w1(2) by (simp add: fh_select one_row_def first_row_def fx_metadata_row_def fx_blob_def)
  obtain v' where n: "checked_add (be_word bar :: u64) 1 = Some v'" using checked_add_one [OF assms(4)] by blast
  from h_exec [OF w1(1), of "Fx_update_barrier (be_bytes v')"] obtain w2 where w2: "fx_exec D (Fx_update_barrier (be_bytes v')) w1 = (Inr 1, w2)" "\<not> sq_autocommit D w2"
    by auto
  obtain w3 where w3: "sq_commit D w2 = (Some (), w3)" using fh_commit [OF w2(2)] by blast
  obtain w4 where w4: "dk_sync_path D w3 = (Some (), w4)" using fh_sync by blast
  show ?thesis by (simp add: fx_barrier_def then_do_def fx_call_def b v q n w2(1) w3 w4)
qed

lemma h_recover:
  assumes ok: "fixture_ok C D durable cx seed x" and wd: "fixture_widths C cx seed (fs_provenance (fo_snapshot (fx_own x)))"
    and room: "fx_counter x \<noteq> - 1" and bar: "durable (fx_file x) Fx_metadata ! 0 ! 11 \<noteq> Blob (be_bytes (- 1 :: u64))"
  shows "\<exists>report ow' counter' w'. fx_recover C D (fx_own x) (fx_counter x) (fx_file x) = (Inr report, ow', counter', w')"
proof -
  let ?ow = "fx_own x"
  from ok obtain t where cx: "fo_context ?ow = cx" "bm_wf (ts_accounts seed)" and t: "fx_replayed C cx seed t" "fx_stored C cx seed t (durable (fx_file x))" "fx_extends ?ow t"
    by (auto simp: fixture_ok_def Let_def)
  have wt: "fixture_widths C cx seed (fs_provenance t)" using wd t(3) by (auto simp: fx_extends_def)
  obtain w1 where o: "then_do (fx_open D (dk_close D (fx_file x))) (\<lambda>_ w. fx_configure D w) = (Inr (), w1)" using fh_open by blast
  have d1: "durable w1 = durable (fx_file x)" "sq_autocommit D w1" using fx_reopen_idle [OF o] fx_close_effect by auto
  obtain w2 where l: "load_snapshot C D cx w1 = (Inr t, w2)" "sq_autocommit D w2" "durable w2 = durable w1"
    using h_load_snapshot [OF d1(2) _ t(1) cx(2) wt] t(2) d1(1) by auto
  from t(2) obtain b where b: "length b = 8" "durable (fx_file x) Fx_metadata = [fx_metadata_row cx seed (fs_provenance t) (fs_revision t) b 1]"
    by (auto simp: fx_stored_def)
  then have "b \<noteq> be_bytes (- 1 :: u64)" using bar by (simp add: fx_metadata_row_def)
  then have "(be_word b :: u64) \<noteq> - 1" using be_bytes_be_word [of b, where 'a = 64] b(1) by auto
  then obtain w3 where w3: "fx_barrier D cx (fs_revision t) w2 = (Inr (), w3)"
    using h_barrier [OF l(2), of cx seed "fs_provenance t" "fs_revision t" b] b l(3) d1(1) wt by (auto simp: fixture_widths_def)
  obtain c where g: "fx_generation (fx_counter x) = (Inr (fx_counter x), c)"
    using checked_add_one [OF room] by (auto simp: fx_generation_def next_generation_def)
  show ?thesis using o l(1) w3 cx(1) by (simp add: fx_recover_def g then_do_def [of "(Inr _, _)"])
qed

end

section \<open>A concrete file\<close>

record fxmem =
  fm_durable :: fxdb
  fm_open :: "fxdb option"
  fm_fault :: "bool option"        \<comment> \<open>the next \<open>COMMIT\<close> after the first reports an error, having or not having taken effect\<close>

definition fm_content :: "fxmem \<Rightarrow> fxdb" where
  "fm_content w = (case fm_open w of None \<Rightarrow> fm_durable w | Some db \<Rightarrow> db)"

text \<open>The flag says whether the fault switch is heeded.\<close>

definition fx_mem :: "bool \<Rightarrow> fxmem fixture_disk" where
  "fx_mem faulty = \<lparr>
     sq_schema_present = (\<lambda>_. Some True), sq_schema_rows = (\<lambda>_. Some []),
     sq_integrity = (\<lambda>_. Some ''ok''), sq_foreign_key_violation = (\<lambda>_. Some False),
     sq_count_metadata = (\<lambda>_. Some 1), sq_select = (\<lambda>_ _. None), sq_write = (\<lambda>_ w. (None, w)),
     sq_begin = (\<lambda>_ w. case fm_open w of None \<Rightarrow> (Some (), w\<lparr>fm_open := Some (fm_durable w)\<rparr>) | Some _ \<Rightarrow> (None, w)),
     sq_commit = (\<lambda>w. case fm_open w of None \<Rightarrow> (None, w)
       | Some db \<Rightarrow> (case (if faulty \<and> fm_durable w Fx_metadata \<noteq> [] then fm_fault w else None) of
           None \<Rightarrow> (Some (), w\<lparr>fm_durable := db, fm_open := None\<rparr>)
         | Some applied \<Rightarrow> (None, w\<lparr>fm_durable := (if applied then db else fm_durable w), fm_open := None, fm_fault := None\<rparr>))),
     sq_rollback = (\<lambda>w. (Some (), w\<lparr>fm_open := None\<rparr>)),
     sq_autocommit = (\<lambda>w. fm_open w = None),
     dk_ddl = (\<lambda>n. n),
     dk_create_new = (\<lambda>w. (Created, w\<lparr>fm_durable := \<lambda>_. [], fm_open := None\<rparr>)),
     dk_exists = (\<lambda>_. Some True),
     dk_open = (\<lambda>w. (Some (), w\<lparr>fm_open := None\<rparr>)),
     dk_close = (\<lambda>w. w\<lparr>fm_open := None\<rparr>),
     dk_busy_timeout = (\<lambda>w. (Some (), w)),
     dk_set_pragmas = (\<lambda>w. (Some (), w)),
     dk_pragmas = (\<lambda>_. \<lparr>pg_journal_mode = Some ''delete'', pg_synchronous = Some 3, pg_foreign_keys = Some 1,
       pg_page_size = Some 4096, pg_cache_size = Some (-2000), pg_cache_spill = Some 1\<rparr>),
     dk_sync_path = (\<lambda>w. (Some (), w)),
     fx_metadata_tables = (\<lambda>_. Some 1), fx_table_sql = (\<lambda>n _. Some n),
     fx_select = (\<lambda>q w. Some (map Some (fx_rows q (fm_content w)))),
     fx_write = (\<lambda>st w. case fm_open w of None \<Rightarrow> (None, w)
       | Some db \<Rightarrow> (Some (fx_affected st db), w\<lparr>fm_open := Some (fx_apply st db)\<rparr>))\<rparr>"

interpretation fm: fixture_engine "fx_mem faulty" fm_content fm_durable
  by unfold_locales (auto simp: fx_mem_def fm_content_def split: option.splits prod.splits if_splits)

interpretation fmr: fixture_recoverable "fx_mem False" fm_content fm_durable
  by unfold_locales
    (auto simp: fx_mem_def fm_content_def fx_check_schema_def fx_TABLES_def fx_open_def fx_configure_def disk_open_def disk_call_def
      disk_configure_def then_do_def disk.defs split: option.splits)

definition new_fxmem :: "bool option \<Rightarrow> fxmem" where
  "new_fxmem fault = \<lparr>fm_durable = (\<lambda>_. []), fm_open = None, fm_fault = fault\<rparr>"

lemma fm_exec [simp]: "fm_open w = Some db \<Longrightarrow> fx_exec (fx_mem b) st w = (Inr (fx_affected st db), w\<lparr>fm_open := Some (fx_apply st db)\<rparr>)"
  by (simp add: fx_exec_def fx_call_def fx_mem_def)

lemma fm_exec_all [simp]:
  "fm_open w = Some db \<Longrightarrow> fx_exec_all (fx_mem b) sts w = (Inr (), w\<lparr>fm_open := Some (foldl (\<lambda>db st. fx_apply st db) db sts)\<rparr>)"
  by (induction sts arbitrary: w db) (simp_all add: then_do_def)

lemma fm_seed_metadata:
  "foldl (\<lambda>db st. fx_apply st db) db (concat (map (\<lambda>a. [Fx_insert Seed_accounts (fx_account_row a), Fx_insert Fx_accounts (fx_account_row a)]) as)) Fx_metadata =
     db Fx_metadata"
  by (induction as arbitrary: db) simp_all

lemma fm_create:
  obtains w where "create_fixture C (fx_mem b) cx seed (str ''demo'') 7 (new_fxmem fault) =
     (Inr \<lparr>fo_context = cx, fo_connected = True, fo_snapshot = fx_initial seed (str ''demo''), fo_generation = 7, fo_poisoned = False,
        fo_attempted_revision = None\<rparr>, 8, w)" "fm_fault w = fault" "fm_open w = None" "fm_durable w Fx_metadata = [fx_metadata_row cx seed (str ''demo'') 0 (be_bytes (0 :: u64)) 1]"
proof -
  let ?w = "new_fxmem fault"
  have d: "dk_create_new (fx_mem b) ?w = (Created, ?w)" "fx_open (fx_mem b) ?w = (Inr (), ?w)" "fx_configure (fx_mem b) ?w = (Inr (), ?w)"
    "sq_begin (fx_mem b) True ?w = (Some (), ?w\<lparr>fm_open := Some (\<lambda>_. [])\<rparr>)" "dk_sync_path (fx_mem b) w = (Some (), w)" for w
    by (simp_all add: fx_mem_def new_fxmem_def fx_open_def fx_configure_def disk_open_def disk_call_def disk_configure_def then_do_def disk.defs)
  obtain db where i: "fx_initialize (fx_mem b) cx seed (str ''demo'') (?w\<lparr>fm_open := Some (\<lambda>_. [])\<rparr>) = (Inr (), ?w\<lparr>fm_open := Some db\<rparr>)"
    and m: "db Fx_metadata = [fx_metadata_row cx seed (str ''demo'') 0 (be_bytes (0 :: u64)) 1]"
    by (simp add: fx_initialize_def then_do_def fx_TABLES_def fm_seed_metadata) (simp add: fx_metadata_row_def)
  have c: "sq_commit (fx_mem b) (?w\<lparr>fm_open := Some db\<rparr>) = (Some (), ?w\<lparr>fm_durable := db, fm_open := None\<rparr>)"
    by (simp add: fx_mem_def new_fxmem_def)
  have "str ''demo'' \<noteq> []" by (simp add: str_def)
  then show thesis
    by (intro that [of "?w\<lparr>fm_durable := db, fm_open := None\<rparr>"])
      (simp_all add: m create_fixture_def fx_create_inner_def d then_do_def fx_call_def i c fx_owner_def fx_generation_def next_generation_def checked_add_def
        new_fxmem_def [THEN arg_cong, of fm_fault])
qed

text \<open>The demonstration ledger, created and with one body staged.\<close>

abbreviation demo_fixture :: "bool \<Rightarrow> fxmem fixture \<Rightarrow> bool" where
  "demo_fixture b x \<equiv> fixture_reached demo_crypto (fx_mem b) demo_context demo_state (str ''demo'') x"

lemma demo_widths: "fixture_widths demo_crypto demo_context demo_state (str ''demo'')"
  by (auto simp: fixture_widths_def demo_context_def demo_state_def str_def digest32_def demo_crypto_def)

lemma demo_fixture_staged:
  obtains x ol where "demo_fixture b x" "fx_stage demo_crypto (fx_own x) 0 [signed_concat (demo_signed 0 5)] = Inr ol" "ol \<in> fx_overlays x"
    "fo_snapshot (fx_own x) = fx_initial demo_state (str ''demo'')" "\<not> fo_poisoned (fx_own x)" "length (bo_transaction_ids (ab_outcome (ol_record ol))) = 1"
    "fm_fault (fx_file x) = fault" "fx_counter x = 8" "fm_durable (fx_file x) Fx_metadata = [fx_metadata_row demo_context demo_state (str ''demo'') 0 (be_bytes (0 :: u64)) 1]"
proof -
  let ?ow = "\<lparr>fo_context = demo_context, fo_connected = True, fo_snapshot = fx_initial demo_state (str ''demo''), fo_generation = 7, fo_poisoned = False,
        fo_attempted_revision = None\<rparr>"
  obtain w where w: "create_fixture demo_crypto (fx_mem b) demo_context demo_state (str ''demo'') 7 (new_fxmem fault) = (Inr ?ow, 8, w)" "fm_fault w = fault"
    "fm_durable w Fx_metadata = [fx_metadata_row demo_context demo_state (str ''demo'') 0 (be_bytes (0 :: u64)) 1]" by (rule fm_create)
  obtain sb where sb: "stage_body demo_crypto demo_state demo_context 0 [signed_concat (demo_signed 0 5)] = Inr sb" using demo_stages by blast
  obtain ol where ol: "fx_stage demo_crypto ?ow 0 [signed_concat (demo_signed 0 5)] = Inr ol" "ol_record ol = sb_record sb"
    by (simp add: fx_stage_def fx_ready_def fx_initial_def sb)
  let ?x = "\<lparr>fx_own = ?ow, fx_counter = 8, fx_file = w, fx_overlays = {}\<rparr>"
  have "demo_fixture b ?x" unfolding fixture_reached_def using w(1) fx_run_start by blast
  moreover have "fixture_step demo_crypto (fx_mem b) ?x (?x\<lparr>fx_overlays := {ol}\<rparr>)"
    using fx_step_stage [of demo_crypto ?x 0 "[signed_concat (demo_signed 0 5)]" ol "fx_mem b"] ol by simp
  ultimately have "demo_fixture b (?x\<lparr>fx_overlays := {ol}\<rparr>)" by (rule fixture_reached_step)
  then show thesis
    by (rule that [of "?x\<lparr>fx_overlays := {ol}\<rparr>" ol]) (use ol staged_entries(1,5) [OF sb] w(2,3) in simp_all)
qed

section \<open>Properties\<close>

text \<open>C15. Every run of a file-backed ledger, over a file that may fail at any call and with restarts and recoveries at any moment: the
  owner's state is the replay of its bodies from the seed, its revision counts them, no native identifier was committed
  twice and the index gives for each one its body and position; balances plus burnt fees are what the seed held. When the owner is ready the file
  stores exactly this snapshot; when it is blocked, this one or the one after it.\<close>

theorem fixture_runs_safe:
  assumes "fixture_engine D content durable" "bm_wf (ts_accounts seed)" "fixture_reached C D cx seed provenance x"
  defines "s \<equiv> fo_snapshot (fx_own x)"
  shows "replay C seed (fs_bodies s) = Some (fs_state s) \<and> unat (fs_revision s) = length (fs_bodies s) \<and>
     distinct (committed_ids (fs_bodies s)) \<and> map_of (fs_transaction_index s) = map_of (fx_positions 0 (fs_bodies s)) \<and>
     total_balance (fs_state s) + unat (ts_fees_burned_total (fs_state s)) = total_balance seed + unat (ts_fees_burned_total seed) \<and>
     fs_provenance s = provenance \<and> (fx_is_ready (fx_own x) \<longrightarrow> fx_stored C cx seed s (durable (fx_file x))) \<and>
     (\<exists>t. fx_extends (fx_own x) t \<and> fx_replayed C cx seed t \<and> fx_stored C cx seed t (durable (fx_file x)))"
proof -
  note ok = fixture_reached_ok [OF assms(1-3)]
  then have rep: "fx_replayed C cx seed s" by (simp add: fixture_ok_def Let_def s_def)
  then have r: "replay C seed (fs_bodies s) = Some (fs_state s)" "unat (fs_revision s) = length (fs_bodies s)"
    by (simp_all add: fx_replayed_def unat_of_nat_small)
  moreover have "fx_is_ready (fx_own x) \<longrightarrow> fx_stored C cx seed s (durable (fx_file x))"
    using ok(1) by (auto simp: fixture_ok_def Let_def fx_extends_def s_def fx_is_ready_def)
  moreover have "\<exists>t. fx_extends (fx_own x) t \<and> fx_replayed C cx seed t \<and> fx_stored C cx seed t (durable (fx_file x))"
    using ok(1) by (auto simp: fixture_ok_def Let_def)
  ultimately show ?thesis
    using replay_conserves [OF r(1) assms(2)] replayed_index_exact [OF rep] ok(2) by (simp add: s_def)
qed

theorem fixture_runs_safe_witness:
  "\<exists>x. demo_fixture True x \<and> total_balance (fs_state (fo_snapshot (fx_own x))) + unat (ts_fees_burned_total (fs_state (fo_snapshot (fx_own x)))) =
     total_balance demo_state + unat (ts_fees_burned_total demo_state) \<and>
     fx_stored demo_crypto demo_context demo_state (fo_snapshot (fx_own x)) (fm_durable (fx_file x))"
proof -
  obtain x ol where x: "demo_fixture True x" "\<not> fo_poisoned (fx_own x)" by (rule demo_fixture_staged)
  with fixture_runs_safe [OF fm.fixture_engine_axioms demo_state_wf x(1)] show ?thesis by (auto simp: fx_is_ready_def)
qed

text \<open>C16. A commit is atomic whatever fails. \<open>Committed\<close>: exactly the staged body was appended, in the file and in memory; \<open>Aborted\<close>:
  owner and file are as before; \<open>RecoveryRequired\<close>: the file holds the old snapshot or the old one with this body, and the owner, its
  memory unchanged, refuses to give a snapshot, to stage and to commit until it is recovered.\<close>

theorem fixture_commit_atomic:
  assumes "fixture_engine D content durable" "bm_wf (ts_accounts seed)" "fixture_reached C D cx seed provenance x" "ol \<in> fx_overlays x"
    and "fx_commit C D (fx_own x) ol (fx_file x) = (out, ow', w')"
  shows "case out of
       Fx_committed outcome \<Rightarrow> fx_is_ready (fx_own x) \<and> outcome = ab_outcome (ol_record ol) \<and>
         (\<exists>s'. ow' = (fx_own x)\<lparr>fo_snapshot := s'\<rparr> \<and> fs_bodies s' = fs_bodies (fo_snapshot (fx_own x)) @ [ol_record ol] \<and>
            fs_state s' = ol_candidate ol \<and> fx_stored C cx seed s' (durable w'))
     | Fx_aborted e \<Rightarrow> ow' = fx_own x \<and> durable w' = durable (fx_file x)
     | Fx_recovery_required e \<Rightarrow>
         (durable w' = durable (fx_file x) \<or>
          (\<exists>t. fx_replayed C cx seed t \<and> fx_stored C cx seed t (durable w') \<and> fs_bodies t = fs_bodies (fo_snapshot (fx_own x)) @ [ol_record ol])) \<and>
         fo_snapshot ow' = fo_snapshot (fx_own x) \<and> fx_snapshot_of ow' = Inl DBlocked \<and> (\<forall>slot body. fx_stage C ow' slot body = Inl DBlocked) \<and>
         (\<forall>ol' w. fx_commit C D ow' ol' w = (Fx_aborted DBlocked, ow', w))"
  using fixture_engine.fx_commit_keeps(2) [OF assms(1) fixture_reached_ok(1) [OF assms(1-3)] assms(4,5)]
  by (cases out) (auto simp: fx_commit_post_def fx_is_ready_def fx_snapshot_of_def fx_stage_def fx_commit_def fx_ready_def)

theorem fixture_commit_atomic_witness:
  "\<exists>x ol w' s'. demo_fixture False x \<and> ol \<in> fx_overlays x \<and>
     fx_commit demo_crypto (fx_mem False) (fx_own x) ol (fx_file x) = (Fx_committed (ab_outcome (ol_record ol)), (fx_own x)\<lparr>fo_snapshot := s'\<rparr>, w') \<and>
     fs_bodies s' = [ol_record ol] \<and> fx_stored demo_crypto demo_context demo_state s' (fm_durable w')"
proof -
  obtain x ol where x: "demo_fixture False x" "fx_stage demo_crypto (fx_own x) 0 [signed_concat (demo_signed 0 5)] = Inr ol" "ol \<in> fx_overlays x"
    "fo_snapshot (fx_own x) = fx_initial demo_state (str ''demo'')" "length (bo_transaction_ids (ab_outcome (ol_record ol))) = 1"
    by (rule demo_fixture_staged)
  have "distinct (bo_transaction_ids (ab_outcome (ol_record ol)))" using x(5) by (cases "bo_transaction_ids (ab_outcome (ol_record ol))") auto
  with fmr.h_commit [OF fixture_reached_ok(1) [OF fm.fixture_engine_axioms [of False] demo_state_wf x(1)] x(2)] demo_widths obtain w' s' where
    c: "fx_commit demo_crypto (fx_mem False) (fx_own x) ol (fx_file x) = (Fx_committed (ab_outcome (ol_record ol)), (fx_own x)\<lparr>fo_snapshot := s'\<rparr>, w')"
    by (auto simp: x(4) fx_initial_def)
  from fixture_commit_atomic [OF fm.fixture_engine_axioms [of False] demo_state_wf x(1,3) c] obtain s1 where
    "(fx_own x)\<lparr>fo_snapshot := s'\<rparr> = (fx_own x)\<lparr>fo_snapshot := s1\<rparr>" "fs_bodies s1 = [ol_record ol]"
    "fx_stored demo_crypto demo_context demo_state s1 (fm_durable w')" by (auto simp: x(4) fx_initial_def)
  with x(1,3) c show ?thesis by (intro exI [of _ x] exI [of _ ol] exI [of _ w'] exI [of _ s1]) simp
qed

text \<open>C17. A recovery that succeeds makes the owner ready on a snapshot that the file stores, and tells the truth about an interrupted
  commit: \<open>Some(true)\<close> when the attempted body is in the file, \<open>Some(false)\<close> when the ledger is as before; nothing else can have
  changed. One that fails leaves the owner blocked and the file's ledger untouched.\<close>

theorem fixture_recovery_exact:
  assumes "fixture_engine D content durable" "bm_wf (ts_accounts seed)" "fixture_reached C D cx seed provenance x"
    and "fx_recover C D (fx_own x) (fx_counter x) (fx_file x) = (r, ow', counter', w')"
  defines "s \<equiv> fo_snapshot (fx_own x)"
  shows "case r of
     Inl e \<Rightarrow> \<not> fx_is_ready ow' \<and> fo_snapshot ow' = s \<and> (\<exists>t. fx_extends (fx_own x) t \<and> fx_stored C cx seed t (durable (fx_file x)) \<and> fx_stored C cx seed t (durable w'))
   | Inr report \<Rightarrow> fx_is_ready ow' \<and> fo_attempted_revision ow' = None \<and> fr_revision report = fs_revision (fo_snapshot ow') \<and>
       fx_stored C cx seed (fo_snapshot ow') (durable (fx_file x)) \<and> fx_stored C cx seed (fo_snapshot ow') (durable w') \<and>
       (case fr_attempted_revision_present report of
          None \<Rightarrow> fo_attempted_revision (fx_own x) = None \<and> fo_snapshot ow' = s
        | Some present \<Rightarrow> fo_attempted_revision (fx_own x) \<noteq> None \<and>
            (if present then \<exists>b. fs_bodies (fo_snapshot ow') = fs_bodies s @ [b] else fo_snapshot ow' = s))"
proof -
  let ?ow = "fx_own x"
  note ok = fixture_reached_ok(1) [OF assms(1-3)]
  from ok obtain t where cx: "fo_context ?ow = cx" "bm_wf (ts_accounts seed)" and t: "fx_replayed C cx seed t" "fx_stored C cx seed t (durable (fx_file x))" "fx_extends ?ow t"
    by (auto simp: fixture_ok_def Let_def)
  from ok have rep: "fx_replayed C cx seed s" and att: "\<And>v. fo_attempted_revision ?ow = Some v \<Longrightarrow> unat v = Suc (length (fs_bodies s))"
    by (auto simp: fixture_ok_def Let_def s_def)
  note rs = fixture_engine.fx_recover_sound [OF assms(1) assms(4), unfolded cx(1), OF t(2,1) cx(2)]
  have len: "unat (fs_revision t) = length (fs_bodies t)" "unat (fs_revision s) = length (fs_bodies s)"
    using t(1) rep by (simp_all add: fx_replayed_def unat_of_nat_small)
  show ?thesis
  proof (cases r)
    case (Inl e)
    with rs(1,2) t show ?thesis by (auto simp: fx_is_ready_def s_def)
  next
    case (Inr report)
    note q = rs(3) [OF Inr]
    have "case fr_attempted_revision_present report of
          None \<Rightarrow> fo_attempted_revision ?ow = None \<and> t = s
        | Some present \<Rightarrow> fo_attempted_revision ?ow \<noteq> None \<and> (if present then \<exists>b. fs_bodies t = fs_bodies s @ [b] else t = s)"
    proof (cases "fo_attempted_revision ?ow")
      case None
      with q t(3) show ?thesis by (auto simp: fx_extends_def s_def)
    next
      case (Some v)
      have "fs_revision t \<ge> v \<longleftrightarrow> Suc (length (fs_bodies s)) \<le> length (fs_bodies t)" using att [OF Some] len by (simp add: word_le_nat_alt)
      with q t(3) Some show ?thesis by (auto simp: fx_extends_def s_def)
    qed
    moreover from q have "fo_snapshot ow' = t" "\<not> fo_poisoned ow'" "fo_attempted_revision ow' = None" "fr_revision report = fs_revision t" by simp_all
    ultimately show ?thesis using Inr t rs(1) by (cases "fr_attempted_revision_present report") (simp_all add: fx_is_ready_def)
  qed
qed

theorem fixture_recovery_exact_witness:
  "\<exists>x report ow' counter' w'. demo_fixture False x \<and>
     fx_recover demo_crypto (fx_mem False) (fx_own x) (fx_counter x) (fx_file x) = (Inr report, ow', counter', w') \<and>
     fx_is_ready ow' \<and> fx_stored demo_crypto demo_context demo_state (fo_snapshot ow') (fm_durable w')"
proof -
  obtain x ol where x: "demo_fixture False x" "fo_snapshot (fx_own x) = fx_initial demo_state (str ''demo'')" "fx_counter x = 8"
    "fm_durable (fx_file x) Fx_metadata = [fx_metadata_row demo_context demo_state (str ''demo'') 0 (be_bytes (0 :: u64)) 1]"
    by (rule demo_fixture_staged)
  note e = fm.fixture_engine_axioms [of False]
  obtain report ow' counter' w' where r: "fx_recover demo_crypto (fx_mem False) (fx_own x) (fx_counter x) (fx_file x) = (Inr report, ow', counter', w')"
    using fmr.h_recover [OF fixture_reached_ok(1) [OF e demo_state_wf x(1)]] demo_widths x
    by (auto simp: fx_initial_def fx_metadata_row_def)
  from fixture_recovery_exact [OF e demo_state_wf x(1) r] r x(1) show ?thesis by auto
qed

text \<open>C18. Progress. On a file whose calls succeed, with the widths, keys, uniqueness and foreign keys of the schema enforced: a body that the ready owner has
  just staged, with identifiers not seen before, commits; and a blocked or a ready owner recovers, as long as the generation and barrier
  counters are not exhausted.\<close>

theorem fixture_progress:
  assumes "fixture_recoverable D content durable" "bm_wf (ts_accounts seed)" "fixture_reached C D cx seed provenance x"
    and "fixture_widths C cx seed provenance"
  shows "(\<forall>slot body ol. fx_stage C (fx_own x) slot body = Inr ol \<longrightarrow> fs_revision (fo_snapshot (fx_own x)) \<noteq> - 1 \<longrightarrow>
        distinct (committed_ids (fs_bodies (fo_snapshot (fx_own x)) @ [ol_record ol])) \<longrightarrow>
        (\<exists>w' s'. fx_commit C D (fx_own x) ol (fx_file x) = (Fx_committed (ab_outcome (ol_record ol)), (fx_own x)\<lparr>fo_snapshot := s'\<rparr>, w') \<and>
           fs_bodies s' = fs_bodies (fo_snapshot (fx_own x)) @ [ol_record ol])) \<and>
     (fx_counter x \<noteq> - 1 \<longrightarrow> durable (fx_file x) Fx_metadata ! 0 ! 11 \<noteq> Blob (be_bytes (- 1 :: u64)) \<longrightarrow>
        (\<exists>report ow' counter' w'. fx_recover C D (fx_own x) (fx_counter x) (fx_file x) = (Inr report, ow', counter', w') \<and> fx_is_ready ow'))"
proof -
  have h: "fixture_healthy D content durable" using assms(1) by (simp add: fixture_recoverable_def)
  then have e: "fixture_engine D content durable" by (simp add: fixture_healthy_def fixture_reading_def)
  note ok = fixture_reached_ok [OF e assms(2,3)]
  have wd: "fixture_widths C cx seed (fs_provenance (fo_snapshot (fx_own x)))" using assms(4) ok(2) by simp
  have "fx_is_ready ow'" if "fx_recover C D (fx_own x) (fx_counter x) (fx_file x) = (Inr report, ow', counter', w')" for report ow' counter' w'
    using that by (auto simp: fx_recover_def fx_is_ready_def Let_def split: sum.splits prod.splits)
  with fixture_healthy.h_commit [OF h ok(1) _ wd] fixture_recoverable.h_recover [OF assms(1) ok(1) wd] show ?thesis by meson
qed

theorem fixture_progress_witness:
  "\<exists>x ol w' s'. demo_fixture False x \<and> fx_commit demo_crypto (fx_mem False) (fx_own x) ol (fx_file x) =
     (Fx_committed (ab_outcome (ol_record ol)), (fx_own x)\<lparr>fo_snapshot := s'\<rparr>, w') \<and> fs_bodies s' = [ol_record ol]"
proof -
  obtain x ol where x: "demo_fixture False x" "fx_stage demo_crypto (fx_own x) 0 [signed_concat (demo_signed 0 5)] = Inr ol"
    "fo_snapshot (fx_own x) = fx_initial demo_state (str ''demo'')" "length (bo_transaction_ids (ab_outcome (ol_record ol))) = 1"
    by (rule demo_fixture_staged)
  have "distinct (bo_transaction_ids (ab_outcome (ol_record ol)))" using x(4) by (cases "bo_transaction_ids (ab_outcome (ol_record ol))") auto
  with fixture_progress [OF fmr.fixture_recoverable_axioms demo_state_wf x(1) demo_widths] x(2) have
    "\<exists>w' s'. fx_commit demo_crypto (fx_mem False) (fx_own x) ol (fx_file x) = (Fx_committed (ab_outcome (ol_record ol)), (fx_own x)\<lparr>fo_snapshot := s'\<rparr>, w') \<and>
       fs_bodies s' = [ol_record ol]" by (auto simp: x(3) fx_initial_def)
  with x(1) show ?thesis by blast
qed

end
