(* ===== verification/Canonical_Store.thy ===== *)
theory Canonical_Store
  imports Canonical_Safety Durable_Store
begin

text \<open>
  The archive beyond its safety: its four indexes are exact; its blocks form one chain from the anchor; a receiver stages what a
  producer prepared; and on an engine whose calls succeed, with the constraints of the schema enforced, an admitted block
  commits.
\<close>

section \<open>The indexes\<close>

text \<open>The memberships of the entries with a given property, over the whole archive.\<close>

definition cn_member :: "committed_block list \<Rightarrow> (bytes \<times> hash \<Rightarrow> bool) \<Rightarrow> cn_membership \<Rightarrow> bool" where
  "cn_member rs P mb \<longleftrightarrow> (\<exists>r \<in> set rs. \<exists>j < length (cn_entries (cm_block r) (cm_outcome r)).
     P (cn_entries (cm_block r) (cm_outcome r) ! j) \<and> mb = \<lparr>mb_tip = cm_tip r, mb_position = of_nat j\<rparr>)"

definition cn_indexed :: "cn_snapshot \<Rightarrow> bool" where
  "cn_indexed s \<longleftrightarrow>
     (\<forall>ident mb. map_of (ns_transactions s) ident = Some mb \<longleftrightarrow> cn_member (ns_blocks s) (\<lambda>e. snd e = ident) mb) \<and>
     (\<forall>pair mb. map_of (ns_sender_nonces s) pair = Some mb \<longleftrightarrow> cn_member (ns_blocks s) (\<lambda>e. sender_nonce (fst e) = pair) mb) \<and>
     (\<forall>slot h. map_of (ns_slots s) slot = Some h \<longleftrightarrow> (\<exists>r \<in> set (ns_blocks s). tp_slot (cm_tip r) = slot \<and> tp_hash (cm_tip r) = h)) \<and>
     (\<forall>h tp. map_of (ns_hashes s) h = Some tp \<longleftrightarrow> (\<exists>r \<in> set (ns_blocks s). tp_hash (cm_tip r) = h \<and> cm_tip r = tp))"

lemma cn_insert_entries_spec:
  assumes "cn_insert_entries tp i es ts ns = Inr (ts', ns')"
  shows "map_of ts' ident = Some mb \<longleftrightarrow> map_of ts ident = Some mb \<or> (\<exists>j < length es. snd (es ! j) = ident \<and> mb = \<lparr>mb_tip = tp, mb_position = of_nat (i + j)\<rparr>)"
    and "map_of ns' pair = Some mb \<longleftrightarrow> map_of ns pair = Some mb \<or> (\<exists>j < length es. sender_nonce (fst (es ! j)) = pair \<and> mb = \<lparr>mb_tip = tp, mb_position = of_nat (i + j)\<rparr>)"
    and "\<forall>e \<in> set es. map_of ts (snd e) = None \<and> map_of ns (sender_nonce (fst e)) = None"
    and "distinct (map snd es)" "distinct (map (\<lambda>e. sender_nonce (fst e)) es)"
proof -
  have split: "(\<exists>j < Suc n. Q j) \<longleftrightarrow> Q 0 \<or> (\<exists>j < n. Q (Suc j))" for n and Q :: "nat \<Rightarrow> bool" by (auto simp: less_Suc_eq_0_disj)
  have "(map_of ts' ident = Some mb \<longleftrightarrow> map_of ts ident = Some mb \<or> (\<exists>j < length es. snd (es ! j) = ident \<and> mb = \<lparr>mb_tip = tp, mb_position = of_nat (i + j)\<rparr>)) \<and>
      (map_of ns' pair = Some mb \<longleftrightarrow> map_of ns pair = Some mb \<or> (\<exists>j < length es. sender_nonce (fst (es ! j)) = pair \<and> mb = \<lparr>mb_tip = tp, mb_position = of_nat (i + j)\<rparr>)) \<and>
      (\<forall>e \<in> set es. map_of ts (snd e) = None \<and> map_of ns (sender_nonce (fst e)) = None) \<and>
      distinct (map snd es) \<and> distinct (map (\<lambda>e. sender_nonce (fst e)) es)"
    using assms
  proof (induction es arbitrary: i ts ns)
    case (Cons e es)
    obtain b ident' where e: "e = (b, ident')" by force
    let ?m = "\<lparr>mb_tip = tp, mb_position = of_nat i\<rparr>"
    from Cons.prems have f: "map_of ts ident' = None" "map_of ns (sender_nonce b) = None"
      and r: "cn_insert_entries tp (Suc i) es (bm_insert ident' ?m ts) (bm_insert (sender_nonce b) ?m ns) = Inr (ts', ns')"
      by (auto simp: e Let_def split: if_splits)
    from Cons.IH [OF r] f show ?case unfolding length_Cons split
      by (auto simp: e map_of_bm_insert split: if_splits)
  qed simp
  then show "map_of ts' ident = Some mb \<longleftrightarrow> map_of ts ident = Some mb \<or> (\<exists>j < length es. snd (es ! j) = ident \<and> mb = \<lparr>mb_tip = tp, mb_position = of_nat (i + j)\<rparr>)"
    and "map_of ns' pair = Some mb \<longleftrightarrow> map_of ns pair = Some mb \<or> (\<exists>j < length es. sender_nonce (fst (es ! j)) = pair \<and> mb = \<lparr>mb_tip = tp, mb_position = of_nat (i + j)\<rparr>)"
    and "\<forall>e \<in> set es. map_of ts (snd e) = None \<and> map_of ns (sender_nonce (fst e)) = None"
    and "distinct (map snd es)" "distinct (map (\<lambda>e. sender_nonce (fst e)) es)" by blast+
qed

lemma insert_record_indexed:
  assumes "insert_record r s = Inr s'" "cn_indexed s"
  shows "cn_indexed s'"
proof -
  let ?es = "cn_entries (cm_block r) (cm_outcome r)" and ?tp = "cm_tip r"
  from assms(1) obtain ts ns where e: "cn_insert_entries ?tp 0 ?es (ns_transactions s) (ns_sender_nonces s) = Inr (ts, ns)"
    and f: "map_of (ns_slots s) (tp_slot ?tp) = None" "map_of (ns_hashes s) (tp_hash ?tp) = None"
    and s': "s' = s\<lparr>ns_tip := ?tp, ns_blocks := ns_blocks s @ [r], ns_transactions := ts, ns_sender_nonces := ns,
       ns_slots := bm_insert (tp_slot ?tp) (tp_hash ?tp) (ns_slots s), ns_hashes := bm_insert (tp_hash ?tp) ?tp (ns_hashes s)\<rparr>"
    by (auto simp: insert_record_def Let_def try_res_Inr_iff split: if_splits)
  have mem: "cn_member (ns_blocks s @ [r]) P mb \<longleftrightarrow> cn_member (ns_blocks s) P mb \<or> (\<exists>j < length ?es. P (?es ! j) \<and> mb = \<lparr>mb_tip = ?tp, mb_position = of_nat j\<rparr>)" for P mb
    by (auto simp: cn_member_def)
  note sp = cn_insert_entries_spec [OF e, simplified]
  have i: "map_of (ns_transactions s) ident = Some mb \<longleftrightarrow> cn_member (ns_blocks s) (\<lambda>e. snd e = ident) mb"
    "map_of (ns_sender_nonces s) pair = Some mb \<longleftrightarrow> cn_member (ns_blocks s) (\<lambda>e. sender_nonce (fst e) = pair) mb"
    "map_of (ns_slots s) slot = Some h \<longleftrightarrow> (\<exists>r \<in> set (ns_blocks s). tp_slot (cm_tip r) = slot \<and> tp_hash (cm_tip r) = h)"
    "map_of (ns_hashes s) h = Some tp \<longleftrightarrow> (\<exists>r \<in> set (ns_blocks s). tp_hash (cm_tip r) = h \<and> cm_tip r = tp)" for ident mb pair slot h tp
    using assms(2) unfolding cn_indexed_def by blast+
  have "map_of ts ident = Some mb \<longleftrightarrow> cn_member (ns_blocks s @ [r]) (\<lambda>e. snd e = ident) mb"
    "map_of ns pair = Some mb \<longleftrightarrow> cn_member (ns_blocks s @ [r]) (\<lambda>e. sender_nonce (fst e) = pair) mb" for ident mb pair
    unfolding mem sp(1) sp(2) i by (simp_all only:)
  moreover have "map_of (bm_insert (tp_slot ?tp) (tp_hash ?tp) (ns_slots s)) slot = Some h \<longleftrightarrow> (\<exists>q \<in> set (ns_blocks s @ [r]). tp_slot (cm_tip q) = slot \<and> tp_hash (cm_tip q) = h)" for slot h
  proof (cases "slot = tp_slot ?tp")
    case True
    with f(1) i(3) have "\<not> (\<exists>q \<in> set (ns_blocks s). tp_slot (cm_tip q) = slot \<and> tp_hash (cm_tip q) = h)" by (metis option.distinct(1))
    with True show ?thesis by (auto simp: map_of_bm_insert)
  next
    case False
    then show ?thesis using i(3) [of slot h] by (auto simp: map_of_bm_insert)
  qed
  moreover have "map_of (bm_insert (tp_hash ?tp) ?tp (ns_hashes s)) h = Some tp \<longleftrightarrow> (\<exists>q \<in> set (ns_blocks s @ [r]). tp_hash (cm_tip q) = h \<and> cm_tip q = tp)" for h tp
  proof (cases "h = tp_hash ?tp")
    case True
    with f(2) i(4) have "\<not> (\<exists>q \<in> set (ns_blocks s). tp_hash (cm_tip q) = h \<and> cm_tip q = tp)" by (metis option.distinct(1))
    with True show ?thesis by (auto simp: map_of_bm_insert)
  next
    case False
    then show ?thesis using i(4) [of h tp] by (auto simp: map_of_bm_insert)
  qed
  ultimately show ?thesis by (simp add: cn_indexed_def s')
qed

lemma cn_replay_indexed: "cn_replay C m rs (s, a) = Inr (s', a') \<Longrightarrow> cn_indexed s \<Longrightarrow> cn_indexed s'"
proof (induction rs arbitrary: s a)
  case (Cons r rs)
  then obtain s1 a1 where r: "cn_replay_block C m r (s, a) = Inr (s1, a1)" "cn_replay C m rs (s1, a1) = Inr (s', a')" by (auto simp: try_res_Inr_iff)
  with Cons insert_record_indexed [OF cn_replay_block_Inr [OF r(1)]] show ?case by blast
qed simp

lemma cn_replayed_indexed: "cn_replayed C m s \<Longrightarrow> cn_indexed s"
  unfolding cn_replayed_def by (rule cn_replay_indexed) (auto simp: cn_indexed_def cn_empty_def cn_member_def)

section \<open>The chain\<close>

lemma cn_replay_linked:
  assumes "cn_replay C m rs (s, a) = Inr (s', a')" "\<forall>r \<in> set rs. tp_revision (cm_tip r) \<noteq> 0 \<and> block_ok (c_keccak C) r" "i < length rs"
  shows "checked_add (tp_slot (if i = 0 then ns_tip s else cm_tip (rs ! (i - 1)))) 1 = Some (bh_slot (nb_header (cm_block (rs ! i))))"
    "bh_parent_hash (nb_header (cm_block (rs ! i))) = tp_hash (if i = 0 then ns_tip s else cm_tip (rs ! (i - 1)))"
proof -
  have "checked_add (tp_slot (if i = 0 then ns_tip s else cm_tip (rs ! (i - 1)))) 1 = Some (bh_slot (nb_header (cm_block (rs ! i)))) \<and>
      bh_parent_hash (nb_header (cm_block (rs ! i))) = tp_hash (if i = 0 then ns_tip s else cm_tip (rs ! (i - 1)))"
    using assms
  proof (induction rs arbitrary: s a i)
    case (Cons r rs)
    then obtain s1 a1 where r: "cn_replay_block C m r (s, a) = Inr (s1, a1)" "cn_replay C m rs (s1, a1) = Inr (s', a')" by (auto simp: try_res_Inr_iff)
    have t: "ns_tip s1 = cm_tip r" using insert_record_Inr(2) [OF cn_replay_block_Inr [OF r(1)]] .
    show ?case
    proof (cases i)
      case 0
      with cn_replay_block_ledger(2,3) [OF r(1)] Cons.prems(2) show ?thesis by simp
    next
      case (Suc j)
      with Cons.IH [OF r(2), of j] Cons.prems t show ?thesis by (auto simp: nth_Cons' split: if_splits)
    qed
  qed simp
  then show "checked_add (tp_slot (if i = 0 then ns_tip s else cm_tip (rs ! (i - 1)))) 1 = Some (bh_slot (nb_header (cm_block (rs ! i))))"
    "bh_parent_hash (nb_header (cm_block (rs ! i))) = tp_hash (if i = 0 then ns_tip s else cm_tip (rs ! (i - 1)))" by simp_all
qed

lemma cn_tip_fields: "block_ok K r \<Longrightarrow> tp_hash (cm_tip r) = nb_hash K (cm_block r) \<and> tp_slot (cm_tip r) = bh_slot (nb_header (cm_block r))"
  unfolding block_ok_def by (metis tip.select_convs(1,2) tip_at_def)

lemma cn_replayed_linked:
  assumes "cn_replayed C m s" "Suc i < length (ns_blocks s)"
  shows "unat (bh_slot (nb_header (cm_block (ns_blocks s ! Suc i)))) = Suc (unat (bh_slot (nb_header (cm_block (ns_blocks s ! i)))))"
    "bh_parent_hash (nb_header (cm_block (ns_blocks s ! Suc i))) = nb_hash (c_keccak C) (cm_block (ns_blocks s ! i))"
proof -
  from assms(1) have b: "length (ns_blocks s) \<le> 2 ^ 64"
    "\<And>i. i < length (ns_blocks s) \<Longrightarrow> block_ok (c_keccak C) (ns_blocks s ! i) \<and> tp_revision (cm_tip (ns_blocks s ! i)) = of_nat i"
    and rp: "cn_replay C m (ns_blocks s) (cn_empty (ns_state s) (ns_tip s), mf_initial m) = Inr (s, ns_state s)"
    by (auto simp: cn_replayed_def)
  from assms(2) obtain r rs where rs: "ns_blocks s = r # rs" by (cases "ns_blocks s") auto
  from rp rs obtain s1 a1 where 1: "cn_replay_block C m r (cn_empty (ns_state s) (ns_tip s), mf_initial m) = Inr (s1, a1)"
    and 2: "cn_replay C m rs (s1, a1) = Inr (s, ns_state s)" by (auto simp: try_res_Inr_iff)
  have t: "ns_tip s1 = cm_tip r" using insert_record_Inr(2) [OF cn_replay_block_Inr [OF 1]] .
  have nz: "\<forall>q \<in> set rs. tp_revision (cm_tip q) \<noteq> 0 \<and> block_ok (c_keccak C) q"
  proof
    fix q assume "q \<in> set rs"
    then obtain j where j: "j < length rs" "q = rs ! j" by (auto simp: in_set_conv_nth)
    then have "tp_revision (cm_tip q) = of_nat (Suc j)" "block_ok (c_keccak C) q" using b(2) [of "Suc j"] rs by simp_all
    moreover have "(of_nat (Suc j) :: u64) \<noteq> of_nat 0" using j b(1) rs by (subst u64_revisions) simp_all
    ultimately show "tp_revision (cm_tip q) \<noteq> 0 \<and> block_ok (c_keccak C) q" by simp
  qed
  have i: "i < length rs" using assms(2) rs by simp
  have p: "(if i = 0 then ns_tip s1 else cm_tip (rs ! (i - 1))) = cm_tip (ns_blocks s ! i)" using t rs by (cases i) simp_all
  note l = cn_replay_linked [OF 2 nz i, unfolded p]
  have f: "tp_hash (cm_tip (ns_blocks s ! i)) = nb_hash (c_keccak C) (cm_block (ns_blocks s ! i))" "tp_slot (cm_tip (ns_blocks s ! i)) = bh_slot (nb_header (cm_block (ns_blocks s ! i)))"
    using cn_tip_fields b(2) [of i] assms(2) by auto
  show "bh_parent_hash (nb_header (cm_block (ns_blocks s ! Suc i))) = nb_hash (c_keccak C) (cm_block (ns_blocks s ! i))" using l(2) f rs by simp
  show "unat (bh_slot (nb_header (cm_block (ns_blocks s ! Suc i)))) = Suc (unat (bh_slot (nb_header (cm_block (ns_blocks s ! i)))))"
    using checked_add_Some [OF l(1)] f rs by simp
qed

lemma cn_slots_increase:
  assumes "cn_replayed C m s" "i < length (ns_blocks s)"
  shows "unat (bh_slot (nb_header (cm_block (ns_blocks s ! i)))) = unat (bh_slot (nb_header (cm_block (ns_blocks s ! 0)))) + i"
  using assms(2)
proof (induction i)
  case (Suc i)
  with cn_replayed_linked(1) [OF assms(1) Suc.prems] show ?case by simp
qed simp

text \<open>The next slot is free.\<close>

lemma cn_next_slot_free:
  assumes "cn_replayed C m s" "checked_add (tp_slot (ns_tip s)) 1 = Some slot"
  shows "map_of (ns_slots s) slot = None"
proof (rule ccontr)
  assume "map_of (ns_slots s) slot \<noteq> None"
  then obtain h where "map_of (ns_slots s) slot = Some h" by blast
  then have "\<exists>r \<in> set (ns_blocks s). tp_slot (cm_tip r) = slot \<and> tp_hash (cm_tip r) = h"
    using cn_replayed_indexed [OF assms(1)] by (simp add: cn_indexed_def)
  then obtain i where i: "i < length (ns_blocks s)" "tp_slot (cm_tip (ns_blocks s ! i)) = slot" by (auto simp: in_set_conv_nth)
  from assms(1) have b: "ns_blocks s \<noteq> []" "\<And>i. i < length (ns_blocks s) \<Longrightarrow> block_ok (c_keccak C) (ns_blocks s ! i)"
    and rp: "cn_replay C m (ns_blocks s) (cn_empty (ns_state s) (ns_tip s), mf_initial m) = Inr (s, ns_state s)" by (auto simp: cn_replayed_def)
  let ?k = "length (ns_blocks s) - 1"
  have k: "?k < length (ns_blocks s)" using b(1) by simp
  have "ns_tip s = cm_tip (ns_blocks s ! ?k)" using cn_replay_tips(1) [OF rp b(1)] b(1) by (simp add: last_conv_nth)
  then have "unat slot = Suc (unat (bh_slot (nb_header (cm_block (ns_blocks s ! ?k)))))"
    using checked_add_Some [OF assms(2)] cn_tip_fields [OF b(2) [OF k]] by simp
  moreover have "unat slot = unat (bh_slot (nb_header (cm_block (ns_blocks s ! i))))" using i cn_tip_fields [OF b(2) [OF i(1)]] by simp
  ultimately show False using cn_slots_increase [OF assms(1) i(1)] cn_slots_increase [OF assms(1) k] i(1) by simp
qed

section \<open>A receiver accepts what a producer prepared\<close>

lemma cn_check_entries_Inr:
  assumes "cn_check_entries s i es ids pairs = Inr ()"
  shows "\<forall>e \<in> set es. map_of (ns_transactions s) (snd e) = None \<and> map_of (ns_sender_nonces s) (sender_nonce (fst e)) = None"
    "distinct (map snd es)" "distinct (map (\<lambda>e. sender_nonce (fst e)) es)" "\<forall>e \<in> set es. snd e \<notin> ids \<and> sender_nonce (fst e) \<notin> pairs"
proof -
  have "(\<forall>e \<in> set es. map_of (ns_transactions s) (snd e) = None \<and> map_of (ns_sender_nonces s) (sender_nonce (fst e)) = None) \<and>
    distinct (map snd es) \<and> distinct (map (\<lambda>e. sender_nonce (fst e)) es) \<and> (\<forall>e \<in> set es. snd e \<notin> ids \<and> sender_nonce (fst e) \<notin> pairs)"
    using assms
  proof (induction es arbitrary: i ids pairs)
    case (Cons e es)
    obtain b ident where e: "e = (b, ident)" by force
    from Cons.prems have n: "map_of (ns_transactions s) ident = None" "ident \<notin> ids" "map_of (ns_sender_nonces s) (sender_nonce b) = None" "sender_nonce b \<notin> pairs"
      and r: "cn_check_entries s (Suc i) es (insert ident ids) (insert (sender_nonce b) pairs) = Inr ()"
      by (auto simp: e split: if_splits)
    from Cons.IH [OF r] n show ?case by (auto simp: e)
  qed simp
  then show "\<forall>e \<in> set es. map_of (ns_transactions s) (snd e) = None \<and> map_of (ns_sender_nonces s) (sender_nonce (fst e)) = None"
    "distinct (map snd es)" "distinct (map (\<lambda>e. sender_nonce (fst e)) es)" "\<forall>e \<in> set es. snd e \<notin> ids \<and> sender_nonce (fst e) \<notin> pairs" by simp_all
qed

lemma cn_insert_entries_fresh:
  assumes "\<forall>e \<in> set es. map_of ts (snd e) = None \<and> map_of ns (sender_nonce (fst e)) = None" "distinct (map snd es)" "distinct (map (\<lambda>e. sender_nonce (fst e)) es)"
  shows "\<exists>x. cn_insert_entries tp i es ts ns = Inr x"
  using assms
proof (induction es arbitrary: i ts ns)
  case (Cons e es)
  obtain b ident where e: "e = (b, ident)" by force
  let ?m = "\<lparr>mb_tip = tp, mb_position = of_nat i\<rparr>"
  have "\<exists>x. cn_insert_entries tp (Suc i) es (bm_insert ident ?m ts) (bm_insert (sender_nonce b) ?m ns) = Inr x"
  proof (rule Cons.IH)
    have "snd q \<noteq> ident" "sender_nonce (fst q) \<noteq> sender_nonce b" if "q \<in> set es" for q
      using Cons.prems(2,3) that unfolding e list.map distinct.simps set_map fst_conv snd_conv by (metis (mono_tags, lifting) image_eqI)+
    then show "\<forall>q \<in> set es. map_of (bm_insert ident ?m ts) (snd q) = None \<and> map_of (bm_insert (sender_nonce b) ?m ns) (sender_nonce (fst q)) = None"
      using Cons.prems(1) by (simp add: map_of_bm_insert)
  qed (use Cons.prems in simp_all)
  with Cons.prems(1) show ?case by (simp add: e Let_def)
qed simp

lemma cn_insert_admitted:
  assumes "cn_check_transactions ow block outcome = Inr ()" "map_of (ns_slots (co_snapshot ow)) (tp_slot tp) = None" "map_of (ns_hashes (co_snapshot ow)) (tp_hash tp) = None"
  shows "\<exists>s'. insert_record \<lparr>cm_tip = tp, cm_block = block, cm_outcome = outcome\<rparr> ((co_snapshot ow)\<lparr>ns_state := st\<rparr>) = Inr s'"
proof -
  note c = cn_check_entries_Inr [OF assms(1) [unfolded cn_check_transactions_def]]
  from cn_insert_entries_fresh [OF c(1-3)] obtain ts ns where
    "cn_insert_entries tp 0 (cn_entries block outcome) (ns_transactions (co_snapshot ow)) (ns_sender_nonces (co_snapshot ow)) = Inr (ts, ns)" by force
  with assms(2,3) show ?thesis by (simp add: insert_record_def)
qed

text \<open>Producer and receiver hold the same archive and the grant names the block: staging from the wire gives the prepared
  record and candidate, on a base that differs in the generation only.\<close>

lemma cn_prepared_received:
  assumes p: "cn_prepare_next C ow proposer ticket body = Inr p" and u: "utf8_valid proposer"
    and m: "manifest_ok C (co_manifest ow)" and rep: "cn_replayed C (co_manifest ow) (co_snapshot ow)"
    and g: "authorize (c_keccak C) p g = Inr st"
    and peer: "co_manifest ow' = co_manifest ow" "co_snapshot ow' = co_snapshot ow" "\<not> co_poisoned ow'"
    and fresh: "map_of (ns_hashes (co_snapshot ow)) (tp_hash (cm_tip (pn_record p))) = None"
  shows "cn_stage_received C ow' (nb_wire_bytes (cm_block (pn_record p))) g = Inr \<lparr>sx_prepared = p\<lparr>pn_base := (pn_base p)\<lparr>cnb_generation := co_generation ow'\<rparr>\<rparr>, sx_grant = g\<rparr>"
    and "check_append (c_keccak C) ow (cm_block (pn_record p)) (Some g) = Inr ()"
    and "\<exists>s'. insert_record (pn_record p) ((co_snapshot ow)\<lparr>ns_state := pn_candidate p\<rparr>) = Inr s'"
    and "pn_base p = cn_base_of (c_keccak C) ow (ns_state (co_snapshot ow))" "sx_prepared st = p" "sx_grant st = g"
proof -
  let ?K = "c_keccak C" and ?s = "co_snapshot ow" and ?m = "co_manifest ow"
  from p obtain slot revision sb block ids where
    ad: "checked_add (tp_slot (ns_tip ?s)) 1 = Some slot" "checked_add (tp_revision (ns_tip ?s)) 1 = Some revision"
    and sb: "stage_body C (ns_state ?s) (mf_context ?m) slot body = Inr sb"
    and b: "build ?K (mf_context ?m) slot (tp_hash (ns_tip ?s)) proposer ticket body (ab_outcome (sb_record sb)) = Inr block"
    and pf: "preflight ?K block (mf_context ?m) = Inr ids"
    and mo: "match_outcome block body ids (ab_outcome (sb_record sb)) = Inr ()" and ct: "cn_check_transactions ow block (ab_outcome (sb_record sb)) = Inr ()"
    and p': "p = \<lparr>pn_base = cn_base_of ?K ow (ns_state ?s), pn_candidate = sb_candidate sb,
           pn_record = \<lparr>cm_tip = tip_at ?K block revision, cm_block = block, cm_outcome = ab_outcome (sb_record sb)\<rparr>\<rparr>"
    by (rule cn_prepare_Inr)
  have dg: "digest32 ?K" using m by (simp add: manifest_ok_def)
  note w = cn_build_block [OF b dg cn_replayed_facts(4) [OF rep m] u staged_body_entries(1) [OF sb]]
  have body: "ab_transactions (sb_record sb) = body" "sb_base sb = ns_state ?s" using staged_entries(5) [OF sb] sb by (auto elim: stage_body_elim)
  have gr: "grant_matches ?K g (mf_context ?m) (nb_hash ?K (mf_anchor ?m)) (ns_tip ?s) block" and st: "sx_prepared st = p" "sx_grant st = g"
    using g by (auto simp: authorize_def p' cn_base_of_def split: if_splits)
  have sf: "map_of (ns_slots ?s) slot = None" by (rule cn_next_slot_free [OF rep ad(1)])
  have hf: "map_of (ns_hashes ?s) (nb_hash ?K block) = None" using fresh by (simp add: p' tip_at_def)
  have ca: "check_append ?K o1 block (Some g) = Inr ()" if "co_snapshot o1 = ?s" "co_manifest o1 = ?m" for o1
    using that w(3,4) hf sf ad gr by (simp add: check_append_def Let_def)
  have ct': "cn_check_transactions ow' block (ab_outcome (sb_record sb)) = Inr ()" using ct peer by (simp add: cn_check_transactions_def)
  show "cn_stage_received C ow' (nb_wire_bytes (cm_block (pn_record p))) g = Inr \<lparr>sx_prepared = p\<lparr>pn_base := (pn_base p)\<lparr>cnb_generation := co_generation ow'\<rparr>\<rparr>, sx_grant = g\<rparr>"
    using peer pf ca [of ow'] sb mo ct' ad w(2,3) body nb_dec_enc [OF w(1)]
    by (simp add: cn_stage_received_def p' Let_def cn_ready_def cn_base_of_def)
  show "check_append ?K ow (cm_block (pn_record p)) (Some g) = Inr ()" using ca [of ow] by (simp add: p')
  show "\<exists>s'. insert_record (pn_record p) (?s\<lparr>ns_state := pn_candidate p\<rparr>) = Inr s'"
    using cn_insert_admitted [OF ct, of "tip_at ?K block revision" "sb_candidate sb"] sf hf w(3) by (simp add: p' tip_at_def)
  show "pn_base p = cn_base_of ?K ow (ns_state ?s)" "sx_prepared st = p" "sx_grant st = g" using p' st by simp_all
qed

section \<open>Constraints\<close>

text \<open>The \<open>CHECK\<close> widths, keys and uniqueness of schema 2, the foreign keys that are checked at once, and those that are
  deferred to the \<open>COMMIT\<close>. Nothing is said of the statements that only the creation makes.\<close>

definition cn_typed :: "nat option list \<Rightarrow> cell list \<Rightarrow> bool" where
  "cn_typed cols row \<longleftrightarrow> list_all2 (\<lambda>n c. case n of None \<Rightarrow> True | Some n \<Rightarrow> (case c of Blob b \<Rightarrow> length b = n | _ \<Rightarrow> False)) cols row"

fun cn_fx_allowed :: "fx_statement \<Rightarrow> fxdb \<Rightarrow> bool" where
  "cn_fx_allowed (Fx_insert t row) tables \<longleftrightarrow> (case t of
     Fx_bodies \<Rightarrow> cn_typed [Some 8, None, Some 8, Some 1, Some 4, Some 8, Some 8, Some 8] row \<and> row ! 3 = Blob [2] \<and> row ! 4 = Blob [0, 0, 0, 1] \<and>
       (\<forall>r \<in> set (tables Fx_bodies). r ! 0 \<noteq> row ! 0 \<and> r ! 1 \<noteq> row ! 1)
   | Fx_transactions \<Rightarrow> cn_typed [Some 32, Some 8, Some 8, Some 20, Some 8, Some 199] row \<and>
       (\<forall>r \<in> set (tables Fx_transactions). r ! 0 \<noteq> row ! 0 \<and> (r ! 1, r ! 2) \<noteq> (row ! 1, row ! 2) \<and> (r ! 3, r ! 4) \<noteq> (row ! 3, row ! 4)) \<and>
       (\<exists>r \<in> set (tables Fx_bodies). r ! 0 = row ! 1)
   | Fx_metadata \<Rightarrow> tables t = [] | Fx_accounting \<Rightarrow> tables t = []
   | _ \<Rightarrow> cn_typed [Some 20, Some 16, Some 8] row \<and> (\<forall>r \<in> set (tables t). r ! 0 \<noteq> row ! 0))"
| "cn_fx_allowed (Fx_upsert_account row) tables \<longleftrightarrow> cn_typed [Some 20, Some 16, Some 8] row"
| "cn_fx_allowed (Fx_update_accounting gas burn) tables \<longleftrightarrow> length gas = 8 \<and> length burn = 16"
| "cn_fx_allowed (Fx_update_revision v) tables \<longleftrightarrow> length v = 8"
| "cn_fx_allowed (Fx_update_barrier v) tables \<longleftrightarrow> length v = 8"
| "cn_fx_allowed _ tables \<longleftrightarrow> False"

fun cn_allowed :: "cn_statement \<Rightarrow> cndb \<Rightarrow> bool" where
  "cn_allowed (Cn_insert_block row) db \<longleftrightarrow> cn_typed [Some 32, Some 8, Some 8, Some 229, None, Some 10, Some 32, Some 8, None] row \<and>
     (\<exists>b. row ! 4 = Blob b \<and> 1 \<le> length b \<and> length b \<le> 256) \<and> row ! 7 = row ! 2 \<and>
     row ! 8 = Integer (if row ! 2 = Blob (be_bytes (0 :: u64)) then 1 else 0) \<and>
     (\<forall>r \<in> set (cd_blocks db). r ! 0 \<noteq> row ! 0 \<and> r ! 1 \<noteq> row ! 1 \<and> r ! 2 \<noteq> row ! 2)"
| "cn_allowed (Cn_insert_tip row) db \<longleftrightarrow> cd_tip db = [] \<and> (\<exists>r \<in> set (cd_blocks db). r ! 0 = row ! 1 \<and> r ! 1 = row ! 2 \<and> r ! 2 = row ! 3)"
| "cn_allowed (Cn_update_tip (h, s, v) old) db \<longleftrightarrow> (\<exists>r \<in> set (cd_blocks db). r ! 0 = Blob h \<and> r ! 1 = Blob s \<and> r ! 2 = Blob v)"
| "cn_allowed (Cn_update_revision new old) db \<longleftrightarrow> length new = 8"
| "cn_allowed Cn_set_initialized db \<longleftrightarrow> False"

fun cn_affected :: "cn_statement \<Rightarrow> cndb \<Rightarrow> nat" where
  "cn_affected (Cn_update_revision new old) db = length (filter (\<lambda>r. r ! 10 = Blob old) (cd_tables db Fx_metadata))"
| "cn_affected (Cn_update_tip new (h0, s0, v0)) db = length (filter (\<lambda>r. r ! 1 = Blob h0 \<and> r ! 2 = Blob s0 \<and> r ! 3 = Blob v0) (cd_tip db))"
| "cn_affected st db = 1"

definition cn_linked :: "cndb \<Rightarrow> bool" where
  "cn_linked db \<longleftrightarrow> (\<forall>b \<in> set (cd_blocks db). \<exists>d \<in> set (cd_tables db Fx_bodies). d ! 0 = b ! 7) \<and>
     (\<forall>d \<in> set (cd_tables db Fx_bodies). \<exists>b \<in> set (cd_blocks db). b ! 0 = d ! 1 \<and> b ! 1 = d ! 2 \<and> b ! 2 = d ! 0)"

lemma cn_stored_linked: "cn_stored K m s db \<Longrightarrow> cn_linked db"
  by (auto simp: cn_linked_def cn_stored_def cn_block_row_def cn_body_row_def Let_def)

locale canonical_healthy = canonical_engine +
  assumes ch_select: "fx_select D q w = Some (map Some (fx_rows q (cd_tables (content w))))"
    and ch_cn_select: "cn_select D p w = Some (map Some (cn_rows p (content w)))"
    and ch_block_present: "cn_block_present D h slot w = Some (\<exists>r \<in> set (cd_blocks (content w)). r ! 0 = Blob h \<or> r ! 1 = Blob slot)"
    and ch_transaction_present: "cn_transaction_present D ident sender nonce w =
      Some (\<exists>r \<in> set (cd_tables (content w) Fx_transactions). r ! 0 = Blob ident \<or> r ! 3 = Blob sender \<and> r ! 4 = Blob nonce)"
    and ch_fx_write: "\<not> sq_autocommit D w \<Longrightarrow> cn_fx_allowed st (cd_tables (content w)) \<Longrightarrow>
      \<exists>w'. fx_write D st w = (Some (fx_affected st (cd_tables (content w))), w')"
    and ch_write: "\<not> sq_autocommit D w \<Longrightarrow> cn_allowed s (content w) \<Longrightarrow> \<exists>w'. cn_write D s w = (Some (cn_affected s (content w)), w')"
    and ch_begin: "sq_autocommit D w \<Longrightarrow> \<exists>w'. sq_begin D b w = (Some (), w')"
    and ch_commit: "\<not> sq_autocommit D w \<Longrightarrow> cn_linked (content w) \<Longrightarrow> \<exists>w'. sq_commit D w = (Some (), w')"

sublocale canonical_healthy \<subseteq> reading: fixture_reading "cn_fixture D" "\<lambda>w. cd_tables (content w)" "\<lambda>w. cd_tables (durable w)"
  by unfold_locales (simp add: ch_select)

text \<open>The widths of the manifest that Rust's types fix, beside those of \<open>manifest_ok\<close>.\<close>

definition manifest_widths :: "fixture_manifest \<Rightarrow> bool" where
  "manifest_widths m \<longleftrightarrow> length (ac_network_id (mf_context m)) = 32 \<and> utf8_valid (mf_provenance m) \<and> (\<forall>a \<in> fst ` set (ts_accounts (mf_initial m)). length a = 20)"

lemma cn_row_origin:
  assumes "x \<in> set (concat (map cn_record_rows rs))"
  shows "\<exists>b ident mb. cn_member rs (\<lambda>e. e = (b, ident)) mb \<and> x ! 0 = Blob ident \<and> x ! 3 = Blob (fst (sender_nonce b)) \<and> x ! 4 = Blob (be_bytes (snd (sender_nonce b)))"
proof -
  from assms obtain r j b ident where r: "r \<in> set rs" "j < length (cn_entries (cm_block r) (cm_outcome r))" "cn_entries (cm_block r) (cm_outcome r) ! j = (b, ident)"
    "x = cn_entry_row (tp_revision (cm_tip r)) j b ident"
    by (auto simp: cn_entry_rows_def in_set_enumerate_eq)
  then have "cn_member rs (\<lambda>e. e = (b, ident)) \<lparr>mb_tip = cm_tip r, mb_position = of_nat j\<rparr>" by (auto simp: cn_member_def)
  with r(4) show ?thesis by (intro exI [of _ b] exI [of _ ident] exI) (auto simp: cn_entry_row_def split: prod.splits)
qed

lemma cn_member_mono: "cn_member rs P mb \<Longrightarrow> (\<And>e. P e \<Longrightarrow> Q e) \<Longrightarrow> cn_member rs Q mb"
  unfolding cn_member_def by blast

text \<open>An entry that is not in the indexes is in no row.\<close>

lemma cn_fresh_rows:
  assumes "cn_indexed s" "x \<in> set (concat (map cn_record_rows (ns_blocks s)))"
    and "map_of (ns_transactions s) ident = None" "map_of (ns_sender_nonces s) (sender, nonce) = None"
  shows "x ! 0 \<noteq> Blob ident" "\<not> (x ! 3 = Blob sender \<and> x ! 4 = Blob (be_bytes nonce))"
proof -
  from cn_row_origin [OF assms(2)] obtain b i mb where b: "cn_member (ns_blocks s) (\<lambda>e. e = (b, i)) mb" "x ! 0 = Blob i"
    "x ! 3 = Blob (fst (sender_nonce b))" "x ! 4 = Blob (be_bytes (snd (sender_nonce b)))" by blast
  have m: "map_of (ns_transactions s) i = Some mb" "map_of (ns_sender_nonces s) (sender_nonce b) = Some mb"
  proof -
    have "cn_member (ns_blocks s) (\<lambda>e. snd e = i) mb" "cn_member (ns_blocks s) (\<lambda>e. sender_nonce (fst e) = sender_nonce b) mb"
      by (rule cn_member_mono [OF b(1)], simp)+
    with assms(1) show "map_of (ns_transactions s) i = Some mb" "map_of (ns_sender_nonces s) (sender_nonce b) = Some mb"
      unfolding cn_indexed_def by blast+
  qed
  show "x ! 0 \<noteq> Blob ident" using b(2) m(1) assms(3) by auto
  have "sender_nonce b \<noteq> (sender, nonce)" using m(2) assms(4) by auto
  then show "\<not> (x ! 3 = Blob sender \<and> x ! 4 = Blob (be_bytes nonce))" using b(3,4) by (cases "sender_nonce b") auto
qed

lemma cn_fresh_blocks:
  assumes "cn_indexed s" "r \<in> set (ns_blocks s)" "map_of (ns_hashes s) h = None" "map_of (ns_slots s) slot = None"
  shows "tp_hash (cm_tip r) \<noteq> h" "tp_slot (cm_tip r) \<noteq> slot"
  using assms unfolding cn_indexed_def by (metis option.distinct(1))+

section \<open>An admitted block commits\<close>

lemma cn_replayed_widths:
  assumes "cn_replayed C m s" "manifest_widths m"
  shows "\<forall>a \<in> fst ` set (ts_accounts (ns_state s)). length a = 20"
proof -
  from cn_replayed_anchor [OF assms(1)] obtain rs where "replay C (mf_initial m) (map (body_of m) rs) = Some (ns_state s)" by blast
  from replay_widths [OF this] assms(2) show ?thesis by (simp add: manifest_widths_def)
qed

text \<open>What an insertion in memory shows of the record.\<close>

lemma insert_record_fresh:
  assumes "insert_record r s = Inr s'"
  shows "\<forall>e \<in> set (cn_entries (cm_block r) (cm_outcome r)). map_of (ns_transactions s) (snd e) = None \<and> map_of (ns_sender_nonces s) (sender_nonce (fst e)) = None"
    and "distinct (map snd (cn_entries (cm_block r) (cm_outcome r)))" "distinct (map (\<lambda>e. sender_nonce (fst e)) (cn_entries (cm_block r) (cm_outcome r)))"
    and "map_of (ns_slots s) (tp_slot (cm_tip r)) = None" "map_of (ns_hashes s) (tp_hash (cm_tip r)) = None"
proof -
  from assms obtain ts ns where e: "cn_insert_entries (cm_tip r) 0 (cn_entries (cm_block r) (cm_outcome r)) (ns_transactions s) (ns_sender_nonces s) = Inr (ts, ns)"
    and f: "map_of (ns_slots s) (tp_slot (cm_tip r)) = None" "map_of (ns_hashes s) (tp_hash (cm_tip r)) = None"
    by (auto simp: insert_record_def Let_def try_res_Inr_iff split: if_splits)
  from cn_insert_entries_spec(3-5) [OF e] f show
    "\<forall>e \<in> set (cn_entries (cm_block r) (cm_outcome r)). map_of (ns_transactions s) (snd e) = None \<and> map_of (ns_sender_nonces s) (sender_nonce (fst e)) = None"
    "distinct (map snd (cn_entries (cm_block r) (cm_outcome r)))" "distinct (map (\<lambda>e. sender_nonce (fst e)) (cn_entries (cm_block r) (cm_outcome r)))"
    "map_of (ns_slots s) (tp_slot (cm_tip r)) = None" "map_of (ns_hashes s) (tp_hash (cm_tip r)) = None" by blast+
qed

lemma cn_record_unseen:
  assumes ix: "cn_indexed s" and ins: "insert_record r (s\<lparr>ns_state := st\<rparr>) = Inr s'"
  shows "x \<in> set (ns_blocks s) \<Longrightarrow> tp_hash (cm_tip x) \<noteq> tp_hash (cm_tip r) \<and> tp_slot (cm_tip x) \<noteq> tp_slot (cm_tip r)"
    and "\<forall>(b, ident) \<in> set (cn_entries (cm_block r) (cm_outcome r)). \<forall>x \<in> set (concat (map cn_record_rows (ns_blocks s))). x ! 0 \<noteq> Blob ident \<and>
      \<not> (x ! 3 = Blob (fst (sender_nonce b)) \<and> x ! 4 = Blob (be_bytes (snd (sender_nonce b))))"
proof -
  note fr = insert_record_fresh [OF ins, simplified]
  show "tp_hash (cm_tip x) \<noteq> tp_hash (cm_tip r) \<and> tp_slot (cm_tip x) \<noteq> tp_slot (cm_tip r)" if "x \<in> set (ns_blocks s)"
    using cn_fresh_blocks [OF ix that] fr(4,5) by simp
  show "\<forall>(b, ident) \<in> set (cn_entries (cm_block r) (cm_outcome r)). \<forall>x \<in> set (concat (map cn_record_rows (ns_blocks s))). x ! 0 \<noteq> Blob ident \<and>
      \<not> (x ! 3 = Blob (fst (sender_nonce b)) \<and> x ! 4 = Blob (be_bytes (snd (sender_nonce b))))"
  proof clarify
    fix b ident x assume e: "(b, ident) \<in> set (cn_entries (cm_block r) (cm_outcome r))" and x: "x \<in> set (concat (map cn_record_rows (ns_blocks s)))"
    have "map_of (ns_transactions s) ident = None" "map_of (ns_sender_nonces s) (fst (sender_nonce b), snd (sender_nonce b)) = None" using fr(1) e by force+
    from cn_fresh_rows [OF ix x this] show "x ! 0 \<noteq> Blob ident \<and> \<not> (x ! 3 = Blob (fst (sender_nonce b)) \<and> x ! 4 = Blob (be_bytes (snd (sender_nonce b))))" by blast
  qed
qed

text \<open>The rows of a checked record have the columns that the schema asks for.\<close>

lemma cn_record_typed:
  assumes "block_ok K r" "digest32 K" "preflight K (cm_block r) cx = Inr ids"
  shows "cn_typed [Some 32, Some 8, Some 8, Some 229, None, Some 10, Some 32, Some 8, None] (cn_block_row r)"
    and "1 \<le> length (nb_proposer (cm_block r)) \<and> length (nb_proposer (cm_block r)) \<le> 256"
    and "cn_typed [Some 8, None, Some 8, Some 1, Some 4, Some 8, Some 8, Some 8] (cn_body_row r)"
    and "\<forall>(b, ident) \<in> set (cn_entries (cm_block r) (cm_outcome r)). length ident = 32 \<and> length b = 199"
    and "length (cn_entries (cm_block r) (cm_outcome r)) < 2 ^ 64"
proof -
  from assms(1) have wf: "nb_wf (cm_block r)" and ids: "bo_transaction_ids (cm_outcome r) = map (hash_with_domain K ID_DOMAIN) (nb_transactions (cm_block r))"
    by (simp_all add: block_ok_def)
  have h: "length (tp_hash (cm_tip r)) = 32" using cn_tip_fields [OF assms(1)] assms(2) by (simp add: nb_hash_def header_hash_def hash_with_domain_def digest32_def)
  have hb: "length (header_bytes (nb_header (cm_block r))) = 229" "length (protocol_data_bytes (nb_protocol_data (cm_block r))) = 10" "length (bh_parent_hash (nb_header (cm_block r))) = 32"
    using wf length_header_bytes [of "nb_header (cm_block r)"] by (simp_all add: nb_wf_def protocol_data_bytes_def header_wf_def BLOCK_HEADER_LEN_def)
  show "cn_typed [Some 32, Some 8, Some 8, Some 229, None, Some 10, Some 32, Some 8, None] (cn_block_row r)"
    using h hb by (simp add: cn_typed_def cn_block_row_def Let_def)
  have "nb_proposer (cm_block r) \<noteq> []" using assms(3) by (auto simp: preflight_def Let_def split: if_splits)
  then show "1 \<le> length (nb_proposer (cm_block r)) \<and> length (nb_proposer (cm_block r)) \<le> 256"
    using wf by (cases "nb_proposer (cm_block r)") (simp_all add: nb_wf_def MAX_PROPOSER_BYTES_def)
  show "cn_typed [Some 8, None, Some 8, Some 1, Some 4, Some 8, Some 8, Some 8] (cn_body_row r)" by (simp add: cn_typed_def cn_body_row_def Let_def)
  show "\<forall>(b, ident) \<in> set (cn_entries (cm_block r) (cm_outcome r)). length ident = 32 \<and> length b = 199"
    using wf assms(2) by (auto simp: cn_entries_def ids zip_map2 nb_wf_def native_lens hash_with_domain_def digest32_def dest!: set_zip_rightD set_zip_leftD in_set_zipE)
  show "length (cn_entries (cm_block r) (cm_outcome r)) < 2 ^ 64" using wf by (simp add: cn_entries_def nb_wf_def MAX_TRANSACTIONS_def min_less_iff_disj)
qed

context canonical_healthy
begin

lemma ch_fx_exec:
  assumes "\<not> sq_autocommit D w" "cn_fx_allowed st (cd_tables (content w))"
  shows "\<exists>w'. fx_exec (cn_fixture D) st w = (Inr (fx_affected st (cd_tables (content w))), w') \<and> \<not> sq_autocommit D w' \<and> content w' = fx_effect st (content w)"
proof -
  obtain w' where w': "fx_write D st w = (Some (fx_affected st (cd_tables (content w))), w')" using ch_fx_write [OF assms] by blast
  with cn_fx_effect [OF assms(1) w'] show ?thesis by (simp add: fx_exec_def fx_call_def del: fx_apply.simps)
qed

lemma ch_exec:
  assumes "\<not> sq_autocommit D w" "cn_allowed st (content w)"
  shows "\<exists>w'. cn_exec D st w = (Inr (cn_affected st (content w)), w') \<and> \<not> sq_autocommit D w' \<and> content w' = cn_apply st (content w)"
proof -
  obtain w' where w': "cn_write D st w = (Some (cn_affected st (content w)), w')" using ch_write [OF assms] by blast
  with cn_write_effect [OF assms(1) w'] show ?thesis by (simp add: cn_exec_def cn_call_def del: cn_apply.simps)
qed

lemma ch_metadata:
  assumes "cd_tables (content w) Fx_metadata = [cn_metadata_row (c_keccak C) m revision bar 1]" "manifest_ok C m" "manifest_widths m" "want = None \<or> want = Some revision"
  shows "cn_verify_metadata (c_keccak C) D m want w = Inr revision"
proof -
  have u: "utf8_valid (str ''offline-native-blocks'')" by (simp add: str_def)
  have p: "be_word [0, 0, 0, 2 :: u8] = (2 :: u32)" by (simp add: be_word_def from_be_def)
  have h: "length (nb_hash (c_keccak C) (mf_anchor m)) = 32" using assms(2) by (simp add: manifest_ok_def digest32_def nb_hash_def header_hash_def hash_with_domain_def)
  have cb: "length b = k \<Longrightarrow> cn_blob k (Blob b) = Inr b" for k b by simp
  have ft: "utf8_valid t \<Longrightarrow> fx_text (Text t) = Inr t" for t by simp
  show ?thesis
    using assms(1,3,4) u p h
    by (auto simp: cn_verify_metadata_def ch_select first_row_def cn_metadata_ok_def cn_metadata_row_def Let_def cb ft manifest_widths_def fx_integer_def
        simp del: cn_blob_Inr_iff fx_text_Inr_iff)
qed

lemma ch_tip:
  assumes "cd_tip (content w) = [cn_tip_row tp]" "length (tp_hash tp) = 32"
  shows "read_tip D w = Inr tp"
proof -
  have cb: "length b = k \<Longrightarrow> cn_blob k (Blob b) = Inr b" for k b by simp
  show ?thesis using assms by (simp add: read_tip_def ch_cn_select one_row_def first_row_def cn_tip_of_def cn_tip_row_def cb del: cn_blob_Inr_iff)
qed

lemma ch_probe:
  assumes "\<forall>(b, ident) \<in> set es. \<forall>x \<in> set (cd_tables (content w) Fx_transactions). x ! 0 \<noteq> Blob ident \<and>
      \<not> (x ! 3 = Blob (fst (sender_nonce b)) \<and> x ! 4 = Blob (be_bytes (snd (sender_nonce b))))"
  shows "cn_probe D es w = Inr ()"
  using assms
proof (induction es)
  case (Cons e es)
  obtain b ident where e: "e = (b, ident)" by force
  from Cons.prems have "\<not> (\<exists>r \<in> set (cd_tables (content w) Fx_transactions). r ! 0 = Blob ident \<or> r ! 3 = Blob (fst (sender_nonce b)) \<and> r ! 4 = Blob (be_bytes (snd (sender_nonce b))))"
    by (auto simp: e)
  with Cons show ?case by (simp add: e ch_transaction_present)
qed simp

lemma ch_changed:
  assumes "\<not> sq_autocommit D w" "\<forall>a \<in> fst ` set as. length a = 20"
  shows "\<exists>w'. write_changed_accounts (cn_fixture D) base as w = (Inr (), w') \<and> \<not> sq_autocommit D w'"
  using assms
proof (induction as arbitrary: w)
  case (Cons p as)
  obtain a x where p: "p = (a, x)" by force
  show ?case
  proof (cases "map_of base a = Some x")
    case True
    with Cons show ?thesis by (simp add: p)
  next
    case False
    have "cn_fx_allowed (Fx_upsert_account (fx_account_row (a, x))) (cd_tables (content w))" using Cons.prems(2) by (simp add: p cn_typed_def fx_account_row_def)
    from ch_fx_exec [OF Cons.prems(1) this] obtain w1 where w1: "fx_exec (cn_fixture D) (Fx_upsert_account (fx_account_row (a, x))) w = (Inr 1, w1)" "\<not> sq_autocommit D w1"
      by (auto simp del: fx_apply.simps)
    from Cons.IH [OF w1(2)] Cons.prems(2) w1 False show ?thesis by (auto simp: p then_do_def)
  qed
qed simp

lemma ch_rows:
  assumes "\<not> sq_autocommit D w" "\<exists>r \<in> set (cd_tables (content w) Fx_bodies). r ! 0 = Blob (be_bytes revision)"
    and "\<forall>(b, ident) \<in> set es. length ident = 32 \<and> length b = 199"
    and "distinct (map snd es)" "distinct (map (\<lambda>e. sender_nonce (fst e)) es)" "i + length es < 2 ^ 64"
    and "\<forall>x \<in> set (cd_tables (content w) Fx_transactions). fx_key Fx_transactions x < [be_bytes revision, be_bytes (of_nat i :: u64)]"
    and "\<forall>x \<in> set (cd_tables (content w) Fx_transactions). (\<exists>v p. x ! 1 = Blob v \<and> x ! 2 = Blob p)"
    and "\<forall>(b, ident) \<in> set es. \<forall>x \<in> set (cd_tables (content w) Fx_transactions). x ! 0 \<noteq> Blob ident \<and>
      \<not> (x ! 3 = Blob (fst (sender_nonce b)) \<and> x ! 4 = Blob (be_bytes (snd (sender_nonce b))))"
  shows "\<exists>w'. cn_insert_rows D revision i es w = (Inr (), w') \<and> \<not> sq_autocommit D w'"
  using assms
proof (induction es arbitrary: w i)
  case (Cons e es)
  obtain b ident where e: "e = (b, ident)" by force
  let ?row = "cn_entry_row revision i b ident" and ?T = "cd_tables (content w) Fx_transactions"
  have wd: "length ident = 32" "length b = 199" using Cons.prems(3) by (auto simp: e)
  note key = cn_entry_row_key [of revision i b ident]
  have row: "?row ! 0 = Blob ident" "?row ! 1 = Blob (be_bytes revision)" "?row ! 2 = Blob (be_bytes (of_nat i :: u64))" "?row ! 3 = Blob (fst (sender_nonce b))" "?row ! 4 = Blob (be_bytes (snd (sender_nonce b)))"
    by (simp_all add: cn_entry_row_def split: prod.splits)
  have "cn_typed [Some 32, Some 8, Some 8, Some 20, Some 8, Some 199] ?row"
    using wd sender_nonce_width [of b] by (cases "sender_nonce b") (simp add: cn_typed_def cn_entry_row_def native_lens)
  moreover have "x ! 0 \<noteq> ?row ! 0 \<and> (x ! 1, x ! 2) \<noteq> (?row ! 1, ?row ! 2) \<and> (x ! 3, x ! 4) \<noteq> (?row ! 3, ?row ! 4)" if "x \<in> set ?T" for x
  proof -
    have "(x ! 1, x ! 2) \<noteq> (?row ! 1, ?row ! 2)" using Cons.prems(7) that key row by (auto simp: less_irrefl)
    moreover have "x ! 0 \<noteq> ?row ! 0" "(x ! 3, x ! 4) \<noteq> (?row ! 3, ?row ! 4)" using Cons.prems(9) that row by (auto simp: e)
    ultimately show ?thesis by simp
  qed
  moreover have "\<exists>r \<in> set (cd_tables (content w) Fx_bodies). r ! 0 = ?row ! 1" using Cons.prems(2) row by simp
  ultimately have al: "cn_fx_allowed (Fx_insert Fx_transactions ?row) (cd_tables (content w))" by simp
  from ch_fx_exec [OF Cons.prems(1) al] obtain w1 where w1: "fx_exec (cn_fixture D) (Fx_insert Fx_transactions ?row) w = (Inr 1, w1)" "\<not> sq_autocommit D w1"
    "content w1 = fx_effect (Fx_insert Fx_transactions ?row) (content w)" by (auto simp del: fx_apply.simps)
  have "put_row (fx_key Fx_transactions) ?row ?T = ?T @ [?row]" by (rule put_row_last) (use Cons.prems(7) key in metis)
  then have c1: "cd_tables (content w1) Fx_bodies = cd_tables (content w) Fx_bodies" "cd_tables (content w1) Fx_transactions = ?T @ [?row]"
    by (simp_all add: w1(3) del: fx_key.simps)
  have lt: "be_bytes (of_nat i :: u64) < be_bytes (of_nat (Suc i) :: u64)" using Cons.prems(6) by (intro be_bytes_nat_less) simp_all
  have "\<exists>w2. cn_insert_rows D revision (Suc i) es w1 = (Inr (), w2) \<and> \<not> sq_autocommit D w2"
  proof (rule Cons.IH [OF w1(2)])
    have "fx_key Fx_transactions x < [be_bytes revision, be_bytes (of_nat (Suc i) :: u64)]" if "x \<in> set ?T" for x
    proof -
      have "fx_key Fx_transactions x < [be_bytes revision, be_bytes (of_nat i :: u64)]" using Cons.prems(7) that by blast
      also have "\<dots> < [be_bytes revision, be_bytes (of_nat (Suc i) :: u64)]" using lt by simp
      finally show ?thesis .
    qed
    then show "\<forall>x \<in> set (cd_tables (content w1) Fx_transactions). fx_key Fx_transactions x < [be_bytes revision, be_bytes (of_nat (Suc i) :: u64)]"
      using c1(2) key lt by (auto simp del: fx_key.simps)
    show "\<forall>x \<in> set (cd_tables (content w1) Fx_transactions). (\<exists>v p. x ! 1 = Blob v \<and> x ! 2 = Blob p)" using c1(2) Cons.prems(8) row by auto
    have "ident' \<noteq> ident \<and> sender_nonce b' \<noteq> sender_nonce b" if "(b', ident') \<in> set es" for b' ident'
    proof -
      have "ident' \<in> snd ` set es" "sender_nonce b' \<in> (\<lambda>e. sender_nonce (fst e)) ` set es" using that by force+
      moreover have "ident \<notin> snd ` set es" "sender_nonce b \<notin> (\<lambda>e. sender_nonce (fst e)) ` set es" using Cons.prems(4,5) by (simp_all add: e)
      ultimately show ?thesis by metis
    qed
    then show "\<forall>(b, ident) \<in> set es. \<forall>x \<in> set (cd_tables (content w1) Fx_transactions). x ! 0 \<noteq> Blob ident \<and>
      \<not> (x ! 3 = Blob (fst (sender_nonce b)) \<and> x ! 4 = Blob (be_bytes (snd (sender_nonce b))))"
      using c1(2) Cons.prems(9) row by (fastforce simp: e prod_eq_iff)
  qed (use Cons.prems c1 in auto)
  then show ?case using w1 by (auto simp: e then_do_def cn_shared_def on_err_def)
qed simp

lemma ch_block_inserted:
  assumes w: "\<not> sq_autocommit D w" and blocks: "cd_blocks (content w) = map cn_block_row (ns_blocks s)" and bodies: "cd_tables (content w) Fx_bodies = map cn_body_row (ns_blocks s)"
    and rep: "cn_replayed C m s" and n: "length (ns_blocks s) < 2 ^ 64"
    and r: "block_ok (c_keccak C) r" "digest32 (c_keccak C)" "preflight (c_keccak C) (cm_block r) cx = Inr ids" "tp_revision (cm_tip r) = of_nat (length (ns_blocks s))"
    and fresh: "\<And>x. x \<in> set (ns_blocks s) \<Longrightarrow> tp_hash (cm_tip x) \<noteq> tp_hash (cm_tip r) \<and> tp_slot (cm_tip x) \<noteq> tp_slot (cm_tip r)"
  shows "\<exists>w1 w2. insert_block D r w = (Inr 1, w1) \<and> insert_body D r w1 = (Inr 1, w2) \<and> \<not> sq_autocommit D w2 \<and>
     content w2 = fx_effect (Fx_insert Fx_bodies (cn_body_row r)) (cn_apply (Cn_insert_block (cn_block_row r)) (content w)) \<and>
     cn_block_row r \<in> set (cd_blocks (content w2)) \<and> cn_body_row r \<in> set (cd_tables (content w2) Fx_bodies)"
proof -
  note ty = cn_record_typed [OF r(1-3)]
  have early: "be_bytes (tp_revision (cm_tip x)) < be_bytes (tp_revision (cm_tip r))" if "x \<in> set (ns_blocks s)" for x
    using cn_earlier_revisions [OF rep that n] r(4) by simp
  have al: "cn_allowed (Cn_insert_block (cn_block_row r)) (content w)"
    using ty(1,2) fresh early r(4) by (fastforce simp: blocks cn_block_row_def Let_def)
  obtain w1 where 1: "cn_exec D (Cn_insert_block (cn_block_row r)) w = (Inr 1, w1)" "\<not> sq_autocommit D w1" "content w1 = cn_apply (Cn_insert_block (cn_block_row r)) (content w)"
    using ch_exec [OF w al] by (auto simp del: cn_apply.simps)
  have bd: "cd_tables (content w1) Fx_bodies = map cn_body_row (ns_blocks s)" using 1(3) bodies by simp
  have al2: "cn_fx_allowed (Fx_insert Fx_bodies (cn_body_row r)) (cd_tables (content w1))"
    using ty(3) fresh early by (fastforce simp: bd cn_body_row_def Let_def)
  obtain w2 where 2: "fx_exec (cn_fixture D) (Fx_insert Fx_bodies (cn_body_row r)) w1 = (Inr 1, w2)" "\<not> sq_autocommit D w2"
    "content w2 = fx_effect (Fx_insert Fx_bodies (cn_body_row r)) (content w1)"
    using ch_fx_exec [OF 1(2) al2] by (auto simp del: fx_apply.simps)
  have "put_row (\<lambda>r. cell_bytes (r ! 2)) (cn_block_row r) (map cn_block_row (ns_blocks s)) = map cn_block_row (ns_blocks s @ [r])"
    by (subst put_row_last) (use early in \<open>auto simp: cn_block_row_def Let_def\<close>)
  moreover have "put_row (fx_key Fx_bodies) (cn_body_row r) (map cn_body_row (ns_blocks s)) = map cn_body_row (ns_blocks s @ [r])"
    by (subst put_row_last) (use early in \<open>auto simp: cn_body_row_def Let_def\<close>)
  ultimately have "cn_block_row r \<in> set (cd_blocks (content w2))" "cn_body_row r \<in> set (cd_tables (content w2) Fx_bodies)"
    using bd by (simp_all add: 2(3) 1(3) blocks bodies del: fx_key.simps)
  then show ?thesis using 1 2 by (simp add: insert_block_def insert_body_def cn_shared_def on_err_def del: fx_apply.simps cn_apply.simps)
qed

lemma ch_state_written:
  assumes w: "\<not> sq_autocommit D w" and a: "\<forall>a \<in> fst ` set as. length a = 20" "length (cd_tables (content w) Fx_accounting) = 1"
  shows "\<exists>w1 w2. write_changed_accounts (cn_fixture D) base as w = (Inr (), w1) \<and> fx_write_accounting (cn_fixture D) st w1 = (Inr (), w2) \<and> \<not> sq_autocommit D w2 \<and>
     (\<forall>t. t \<noteq> Fx_accounts \<longrightarrow> t \<noteq> Fx_accounting \<longrightarrow> cd_tables (content w2) t = cd_tables (content w) t) \<and>
     cd_blocks (content w2) = cd_blocks (content w) \<and> cd_tip (content w2) = cd_tip (content w)"
proof -
  obtain w1 where 1: "write_changed_accounts (cn_fixture D) base as w = (Inr (), w1)" "\<not> sq_autocommit D w1" using ch_changed [OF w a(1)] by blast
  have t1: "\<And>t. t \<noteq> Fx_accounts \<Longrightarrow> cd_tables (content w1) t = cd_tables (content w) t" "cd_blocks (content w1) = cd_blocks (content w)" "cd_tip (content w1) = cd_tip (content w)"
    using ctx_changed [OF w, of base as] 1 by (simp_all add: does_def)
  let ?u = "Fx_update_accounting (be_bytes (ts_gas_used_total st)) (be_bytes (ts_fees_burned_total st))"
  have "\<exists>w2. fx_write_accounting (cn_fixture D) st w1 = (Inr (), w2) \<and> \<not> sq_autocommit D w2 \<and> content w2 = fx_effect ?u (content w1)"
    using ch_fx_exec [OF 1(2), of ?u] t1(1) [of Fx_accounting] a(2) by (auto simp: fx_write_accounting_def then_do_def)
  with 1 t1 show ?thesis by fastforce
qed

lemma ch_commit_writes:
  assumes w: "\<not> sq_autocommit D w" and st: "cn_stored (c_keccak C) m s (content w)" and rep: "cn_replayed C m s"
    and m: "manifest_ok C m" "manifest_widths m" and p: "prepared_ok C m p"
    and base: "cnb_tip (pn_base p) = ns_tip s" "cnb_state (pn_base p) = ns_state s"
    and app: "checked_add (tp_slot (ns_tip s)) 1 = Some (bh_slot (nb_header (cm_block (pn_record p))))" "bh_parent_hash (nb_header (cm_block (pn_record p))) = tp_hash (ns_tip s)"
    and ins: "insert_record (pn_record p) (s\<lparr>ns_state := pn_candidate p\<rparr>) = Inr s'"
  shows "\<exists>w'. cn_commit_writes (c_keccak C) D m p w = (Inr (), w')"
proof -
  let ?K = "c_keccak C" and ?r = "pn_record p" and ?es = "cn_entries (cm_block (pn_record p)) (cm_outcome (pn_record p))"
  note nx = cn_replayed_next [OF rep m(1) p base app ins] and f = cn_replayed_facts [OF rep m(1)] and ix = cn_replayed_indexed [OF rep]
  note fr = insert_record_fresh [OF ins, simplified] and w20 = cn_replayed_widths [OF rep m(2)]
  have dg: "digest32 ?K" using m(1) by (simp add: manifest_ok_def)
  from p obtain ids sb where ok: "block_ok ?K ?r" and pf: "preflight ?K (cm_block ?r) (mf_context m) = Inr ids"
    and sb: "stage_body C (ns_state s) (mf_context m) (bh_slot (nb_header (cm_block ?r))) (nb_transactions (cm_block ?r)) = Inr sb" "pn_candidate p = sb_candidate sb"
    by (auto simp: prepared_ok_def Let_def base)
  note ty = cn_record_typed [OF ok dg pf]
  from st obtain bar where md: "cd_tables (content w) Fx_metadata = [cn_metadata_row ?K m (tp_revision (ns_tip s)) bar 1]"
    and rows: "cd_tables (content w) Fx_accounts = map fx_account_row (ts_accounts (ns_state s))" "cd_tables (content w) Fx_accounting = [fx_accounting_row (ns_state s)]"
      "cd_blocks (content w) = map cn_block_row (ns_blocks s)" "cd_tables (content w) Fx_bodies = map cn_body_row (ns_blocks s)"
      "cd_tables (content w) Fx_transactions = concat (map cn_record_rows (ns_blocks s))" "cd_tip (content w) = [cn_tip_row (ns_tip s)]"
    by (auto simp: cn_stored_def)
  note unseen = cn_record_unseen(1) [OF ix ins] and entries = cn_record_unseen(2) [OF ix ins]
  have r1: "cn_verify_metadata ?K D m (Some (tp_revision (ns_tip s))) w = Inr (tp_revision (ns_tip s))" using ch_metadata [OF md m] by simp
  have r2: "read_tip D w = Inr (ns_tip s)" by (rule ch_tip [OF rows(6) f(4)])
  have r3: "read_state (cn_fixture D) w = Inr (ns_state s)" by (rule reading.h_state [OF rows(1,2) f(1) w20])
  have r4: "cn_block_present D (tp_hash (cm_tip ?r)) (be_bytes (tp_slot (cm_tip ?r))) w = Some False"
    using unseen by (auto simp: ch_block_present rows(3) cn_block_row_def Let_def)
  have r5: "cn_probe D ?es w = Inr ()" by (rule ch_probe) (use entries rows(5) in simp)
  from ch_state_written [OF w, of "ts_accounts (pn_candidate p)" "ts_accounts (ns_state s)" "pn_candidate p"] stage_body_widths [OF sb(1) w20] sb(2) rows(2)
  obtain w1 w2 where 1: "write_changed_accounts (cn_fixture D) (ts_accounts (ns_state s)) (ts_accounts (pn_candidate p)) w = (Inr (), w1)"
    and 2: "fx_write_accounting (cn_fixture D) (pn_candidate p) w1 = (Inr (), w2)" "\<not> sq_autocommit D w2"
    and t2: "\<And>t. t \<noteq> Fx_accounts \<Longrightarrow> t \<noteq> Fx_accounting \<Longrightarrow> cd_tables (content w2) t = cd_tables (content w) t"
    and b2: "cd_blocks (content w2) = cd_blocks (content w)" "cd_tip (content w2) = cd_tip (content w)" by auto
  from ch_block_inserted [OF 2(2) _ _ rep nx(6) ok dg pf nx(5) unseen] rows(3,4) t2 b2 obtain w3 w4 where
    3: "insert_block D ?r w2 = (Inr 1, w3)" "insert_body D ?r w3 = (Inr 1, w4)" "\<not> sq_autocommit D w4"
      "content w4 = fx_effect (Fx_insert Fx_bodies (cn_body_row ?r)) (cn_apply (Cn_insert_block (cn_block_row ?r)) (content w2))"
      "cn_block_row ?r \<in> set (cd_blocks (content w4))" "cn_body_row ?r \<in> set (cd_tables (content w4) Fx_bodies)" by auto
  have t4: "cd_tables (content w4) Fx_transactions = concat (map cn_record_rows (ns_blocks s))"
    "cd_tables (content w4) Fx_metadata = [cn_metadata_row ?K m (tp_revision (ns_tip s)) bar 1]" "cd_tip (content w4) = [cn_tip_row (ns_tip s)]"
    using rows(5,6) t2 b2 md by (simp_all add: 3(4))
  have "\<exists>w5. cn_insert_rows D (tp_revision (cm_tip ?r)) 0 ?es w4 = (Inr (), w5) \<and> \<not> sq_autocommit D w5"
  proof (rule ch_rows [OF 3(3)])
    show "\<exists>r \<in> set (cd_tables (content w4) Fx_bodies). r ! 0 = Blob (be_bytes (tp_revision (cm_tip ?r)))"
      using 3(6) by (intro bexI [of _ "cn_body_row ?r"]) (simp_all add: cn_body_row_def Let_def)
    show "\<forall>x \<in> set (cd_tables (content w4) Fx_transactions). fx_key Fx_transactions x < [be_bytes (tp_revision (cm_tip ?r)), be_bytes (of_nat 0 :: u64)]"
      unfolding t4(1) nx(5) using cn_earlier_revisions [OF rep _ nx(6)] by (auto elim!: cn_entry_rows_key simp del: fx_key.simps)
    show "\<forall>x \<in> set (cd_tables (content w4) Fx_transactions). \<exists>v q. x ! 1 = Blob v \<and> x ! 2 = Blob q"
      unfolding t4(1) by (auto simp: cn_entry_rows_def cn_entry_row_def split: prod.splits)
    show "\<forall>(b, ident) \<in> set ?es. \<forall>x \<in> set (cd_tables (content w4) Fx_transactions). x ! 0 \<noteq> Blob ident \<and>
      \<not> (x ! 3 = Blob (fst (sender_nonce b)) \<and> x ! 4 = Blob (be_bytes (snd (sender_nonce b))))" unfolding t4(1) by (rule entries)
  qed (use fr(2,3) ty(4,5) in simp_all)
  then obtain w5 where 5: "insert_transactions D ?r w4 = (Inr (), w5)" "\<not> sq_autocommit D w5" by (auto simp: insert_transactions_def)
  have c5: "cd_blocks (content w5) = cd_blocks (content w4)" "cd_tip (content w5) = cd_tip (content w4)" "cd_tables (content w5) Fx_metadata = cd_tables (content w4) Fx_metadata"
    using ctx_rows [OF 3(3), of "tp_revision (cm_tip ?r)" 0 ?es] 5 by (simp_all add: does_def insert_transactions_def)
  let ?cr = "Cn_update_revision (be_bytes (tp_revision (cm_tip ?r))) (be_bytes (tp_revision (ns_tip s)))" and ?ct = "Cn_update_tip (tip_columns (cm_tip ?r)) (tip_columns (ns_tip s))"
  have "cn_affected ?cr (content w5) = 1" by (simp add: c5 t4 cn_metadata_row_def Let_def)
  with ch_exec [OF 5(2), of ?cr] obtain w6 where 6: "cn_cas D ?cr w5 = (Inr (), w6)" "\<not> sq_autocommit D w6" "content w6 = cn_apply ?cr (content w5)"
    by (auto simp: cn_cas_def then_do_def)
  have "cn_affected ?ct (content w6) = 1" using c5 t4 by (simp add: 6(3) cn_tip_row_def)
  moreover have "cn_allowed ?ct (content w6)" using 3(5) c5 by (simp add: 6(3)) (intro bexI [of _ "cn_block_row ?r"], simp_all add: cn_block_row_def Let_def)
  ultimately obtain w7 where 7: "cn_cas D ?ct w6 = (Inr (), w7)" using ch_exec [OF 6(2), of ?ct] by (auto simp: cn_cas_def then_do_def)
  show ?thesis
    using r1 r2 r3 r4 r5 1 2(1) 3(1,2) 5(1) 6(1) 7
    by (simp add: cn_commit_writes_def Let_def then_do_def base on_err_def)
qed

text \<open>An idle owner commits what its memory admits.\<close>

lemma ch_commit_succeeds:
  assumes ok: "archive_ok C D durable m x" "\<not> co_poisoned (ar_own x)" and mw: "manifest_widths m" and stg: "stage \<in> ar_staged x"
    and ad: "cn_admitted C (ar_own x) stage s'"
  shows "\<exists>w'. commit_inner C D (ar_own x) stage (ar_file x) =
     (Cn_committed (cm_tip (pn_record (sx_prepared stage))) (cm_outcome (pn_record (sx_prepared stage))), (ar_own x)\<lparr>co_snapshot := s'\<rparr>, w')"
proof -
  let ?ow = "ar_own x" and ?s = "co_snapshot (ar_own x)" and ?p = "sx_prepared stage"
  from ok stg have i: "sq_autocommit D (ar_file x)" "co_attempted ?ow = None" "co_manifest ?ow = m" "manifest_ok C m"
    and rep: "cn_replayed C m ?s" and st: "cn_stored (c_keccak C) m ?s (durable (ar_file x))" and p: "prepared_ok C m ?p"
    by (auto simp: archive_ok_def Let_def cn_extends_def)
  from ad have base: "cnb_tip (pn_base ?p) = ns_tip ?s" "cnb_state (pn_base ?p) = ns_state ?s"
    and ca: "check_append (c_keccak C) ?ow (cm_block (pn_record ?p)) (Some (sx_grant stage)) = Inr ()"
    and ins: "insert_record (pn_record ?p) (?s\<lparr>ns_state := pn_candidate ?p\<rparr>) = Inr s'" and ns: "\<not> cn_stale (c_keccak C) ?ow (pn_base ?p)"
    by (auto simp: cn_admitted_def cn_stale_def)
  obtain w1 where 1: "sq_begin D True (ar_file x) = (Some (), w1)" using ch_begin [OF i(1)] by blast
  with cn_begin_effect [OF i(1) 1] have w1: "\<not> sq_autocommit D w1" "content w1 = durable (ar_file x)" by simp_all
  from ch_commit_writes [OF w1(1) _ rep i(4) mw p base check_append_Inr(1,2) [OF ca] ins] st w1(2) obtain w2 where
    2: "cn_commit_writes (c_keccak C) D m ?p w1 = (Inr (), w2)" by auto
  have w2: "\<not> sq_autocommit D w2" "content w2 = cn_committed_db ?p (content w1)" using ctx_commit_writes [OF w1(1), of "c_keccak C" m ?p] 2 by (simp_all add: does_def)
  have "cn_linked (content w2)"
    unfolding w2(2) w1(2) by (rule cn_stored_linked [OF cn_stored_next [OF st rep i(4) p base check_append_Inr(1,2) [OF ca] ins]])
  with ch_commit [OF w2(1)] obtain w3 where 3: "sq_commit D w2 = (Some (), w3)" by blast
  have "?ow\<lparr>co_snapshot := s', co_attempted := None\<rparr> = ?ow\<lparr>co_snapshot := s'\<rparr>" using i(2) by (cases ?ow) simp
  then show ?thesis
    using ns ca ins 1 2 3 ok(2) i(3) by (intro exI [of _ w3]) (simp add: commit_inner_def cn_ready_def Let_def)
qed

end

end
