(* ===== verification/Canonical_Recovery.thy ===== *)
theory Canonical_Recovery
  imports Canonical_Store
begin

text \<open>
  The properties of the block archive over every run. On an engine that can be reopened, a stored snapshot loads to itself and a
  blocked owner recovers. \<open>cn_mem\<close> is a concrete file with a fault switch on \<open>COMMIT\<close>, on which all interfaces are
  interpreted and the properties witnessed.
\<close>

section \<open>Loading back\<close>

fun cn_counted_rows :: "cn_counted \<Rightarrow> cndb \<Rightarrow> nat" where
  "cn_counted_rows Count_blocks db = length (cd_blocks db)"
| "cn_counted_rows Count_bodies db = length (cd_tables db Fx_bodies)"

locale canonical_recoverable = canonical_healthy +
  assumes ch_open: "\<exists>w'. then_do (on_err CStorage (fx_open (cn_fixture D) w)) (\<lambda>_ w. configure_cache D policy w) = (Inr (), w')"
    and ch_schema: "cd_tables (content w) Fx_metadata \<noteq> [] \<Longrightarrow> cn_check_schema D w = Inr ()"
    and ch_count: "cn_count D t w = Some (int (cn_counted_rows t (content w)))"
    and ch_rollback: "\<exists>w'. sq_rollback D w = (Some (), w')"
    and ch_sync: "\<exists>w'. dk_sync_path D w = (Some (), w')"
begin

lemma ch_audit_rows:
  assumes "digest32 (c_keccak C)"
    and "cd_tables (content w) Fx_transactions = concat (map cn_record_rows (ns_blocks (fst x) @ qs))"
    and "\<forall>i < length (ns_blocks (fst x) @ qs). block_ok (c_keccak C) ((ns_blocks (fst x) @ qs) ! i) \<and> tp_revision (cm_tip ((ns_blocks (fst x) @ qs) ! i)) = of_nat i"
    and "length (ns_blocks (fst x) @ qs) \<le> 2 ^ 64" "cn_replay C m qs x = Inr y"
  shows "cn_audit_rows C D m w (map Some (map cn_archive qs)) x = Inr y"
  using assms
proof (induction qs arbitrary: x)
  case (Cons r qs)
  let ?n = "length (ns_blocks (fst x))"
  have r: "block_ok (c_keccak C) r" "tp_revision (cm_tip r) = of_nat ?n" using Cons.prems(3) by (auto dest!: spec [of _ ?n])
  have d: "distinct (map (\<lambda>r. tp_revision (cm_tip r)) (ns_blocks (fst x) @ r # qs))" by (rule cn_revisions_distinct) (use Cons.prems(3,4) in auto)
  have q: "fx_select D (Body_entries (be_bytes (tp_revision (cm_tip r)))) w = Some (map Some (map entry_columns (cn_record_rows r)))"
    using Cons.prems(2) filter_record_rows [OF d, of r] by (simp add: ch_select del: map_append concat_append filter_append filter.simps map_map)
  from Cons.prems(5) obtain z where z: "cn_replay_block C m r x = Inr z" "cn_replay C m qs z = Inr y" by (auto simp: try_res_Inr_iff)
  then have b: "ns_blocks (fst z) = ns_blocks (fst x) @ [r]" using insert_record_Inr(1) cn_replay_block_Inr by (cases x, cases z) fastforce
  have "cn_audit_rows C D m w (map Some (map cn_archive qs)) z = Inr y" by (rule Cons.IH) (use Cons.prems z(2) b in simp_all)
  with z(1) cn_audit_row_replays [OF r(1) Cons.prems(1) r(2) q] show ?case by simp
qed simp

lemma ch_load:
  assumes st: "cn_stored (c_keccak C) m s (content w)" and rep: "cn_replayed C m s" and m: "manifest_ok C m" "manifest_widths m"
  shows "load_transaction C D m w = Inr s"
proof -
  let ?K = "c_keccak C"
  note f = cn_replayed_facts [OF rep m(1)]
  from st obtain bar where md: "cd_tables (content w) Fx_metadata = [cn_metadata_row ?K m (tp_revision (ns_tip s)) bar 1]"
    and rows: "cd_tables (content w) Seed_accounts = map fx_account_row (ts_accounts (mf_initial m))"
      "cd_tables (content w) Fx_accounts = map fx_account_row (ts_accounts (ns_state s))" "cd_tables (content w) Fx_accounting = [fx_accounting_row (ns_state s)]"
      "cd_blocks (content w) = map cn_block_row (ns_blocks s)" "cd_tables (content w) Fx_bodies = map cn_body_row (ns_blocks s)"
      "cd_tables (content w) Fx_transactions = concat (map cn_record_rows (ns_blocks s))" "cd_tip (content w) = [cn_tip_row (ns_tip s)]"
    by (auto simp: cn_stored_def)
  from rep have b: "ns_blocks s \<noteq> []" "length (ns_blocks s) \<le> 2 ^ 64"
    "\<forall>i < length (ns_blocks s). block_ok ?K (ns_blocks s ! i) \<and> tp_revision (cm_tip (ns_blocks s ! i)) = of_nat i"
    and rp: "cn_replay C m (ns_blocks s) (cn_empty (ns_state s) (ns_tip s), mf_initial m) = Inr (s, ns_state s)" by (auto simp: cn_replayed_def)
  have wf: "bm_wf (ts_accounts (mf_initial m))" "digest32 ?K" "\<forall>a \<in> fst ` set (ts_accounts (mf_initial m)). length a = 20"
    using m by (simp_all add: manifest_ok_def manifest_widths_def)
  have seeds: "\<lparr>ts_accounts = ts_accounts (mf_initial m), ts_gas_used_total = ts_gas_used_total (mf_initial m), ts_fees_burned_total = ts_fees_burned_total (mf_initial m)\<rparr> = mf_initial m"
    by simp
  have d: "distinct (map (\<lambda>r. tp_revision (cm_tip r)) (ns_blocks s))" by (rule cn_revisions_distinct) (use b in auto)
  have "content w = \<lparr>cd_tables = (cd_tables (content w))(Fx_bodies := map cn_body_row (ns_blocks s)), cd_blocks = map cn_block_row (ns_blocks s), cd_tip = cd_tip (content w)\<rparr>"
    using rows by (simp add: fun_upd_idem)
  then have "cn_rows Cn_archive (content w) = map cn_archive (ns_blocks s)" using cn_join [OF d] by metis
  then have q: "cn_select D Cn_archive w = Some (map Some (map cn_archive (ns_blocks s)))" by (simp add: ch_cn_select)
  have a: "cn_audit_rows C D m w (map Some (map cn_archive (ns_blocks s))) (cn_empty (ns_state s) (ns_tip s), mf_initial m) = Inr (s, ns_state s)"
    by (rule ch_audit_rows [OF wf(2) _ _ _ rp]) (use rows(6) b in \<open>simp_all add: cn_empty_def\<close>)
  have c: "cn_check_count D Count_blocks (length (ns_blocks s)) w = Inr ()" "cn_check_count D Count_bodies (length (ns_blocks s)) w = Inr ()"
    using rows(4,5) by (simp_all add: cn_check_count_def ch_count)
  show ?thesis
    unfolding load_transaction_def
    using ch_schema [of w] md ch_metadata [OF md m, of None] ch_tip [OF rows(7) f(4)] reading.h_accounts [OF rows(1) wf(1,3)]
      reading.h_state [OF rows(2,3) f(1) cn_replayed_widths [OF rep m(2)]] q a c b(1) by (simp add: seeds del: map_map)
qed

lemma ch_load_snapshot:
  assumes "sq_autocommit D w" "cn_stored (c_keccak C) m s (durable w)" "cn_replayed C m s" "manifest_ok C m" "manifest_widths m"
  shows "\<exists>w'. cn_load_snapshot C D m w = (Inr s, w') \<and> sq_autocommit D w' \<and> durable w' = durable w"
proof -
  obtain w1 where b: "sq_begin D False w = (Some (), w1)" using ch_begin [OF assms(1)] by blast
  have "content w1 = durable w" using cn_begin_effect [OF assms(1) b] by simp
  with assms(2) have l: "load_transaction C D m w1 = Inr s" by (intro ch_load [OF _ assms(3-5)]) simp
  obtain w2 where r: "sq_rollback D w1 = (Some (), w2)" using ch_rollback by blast
  have "cn_load_snapshot C D m w = (Inr s, w2)" by (simp add: cn_load_snapshot_def then_do_def cn_call_def b l r)
  with cn_rollback_effect [OF r] cn_begin_effect [OF assms(1) b] show ?thesis by simp
qed

lemma ch_barrier:
  assumes "sq_autocommit D w" and st: "cn_stored (c_keccak C) m s (durable w)" and rep: "cn_replayed C m s" and m: "manifest_ok C m" "manifest_widths m"
    and room: "cd_tables (durable w) Fx_metadata ! 0 ! 11 \<noteq> Blob (be_bytes (- 1 :: u64))"
  shows "\<exists>w'. cn_barrier (c_keccak C) D m (ns_tip s) w = (Inr (), w')"
proof -
  obtain w1 where b: "sq_begin D True w = (Some (), w1)" using ch_begin [OF assms(1)] by blast
  have w1: "\<not> sq_autocommit D w1" "content w1 = durable w" using cn_begin_effect [OF assms(1) b] by simp_all
  from st obtain bar where bar: "length bar = 8" "cd_tables (content w1) Fx_metadata = [cn_metadata_row (c_keccak C) m (tp_revision (ns_tip s)) bar 1]"
    and tp: "cd_tip (content w1) = [cn_tip_row (ns_tip s)]" by (auto simp: cn_stored_def w1)
  have "bar \<noteq> be_bytes (- 1 :: u64)" using room bar(2) by (simp add: w1 cn_metadata_row_def Let_def)
  then have "(be_word bar :: u64) \<noteq> - 1" using be_bytes_be_word [of bar, where 'a = 64] bar(1) by auto
  then obtain v where n: "checked_add (be_word bar :: u64) 1 = Some v" using checked_add_one by blast
  have q: "try_res (map_err CStorage (one_row (fx_select D (Fx_all Fx_metadata) w1))) (\<lambda>row. if length row = 16 then cn_blob 8 (row ! 11) else Inl cn_sql) = Inr bar"
    using bar by (simp add: ch_select one_row_def first_row_def cn_metadata_row_def Let_def)
  obtain w2 where w2: "fx_exec (cn_fixture D) (Fx_update_barrier (be_bytes v)) w1 = (Inr 1, w2)" "\<not> sq_autocommit D w2"
      "content w2 = fx_effect (Fx_update_barrier (be_bytes v)) (content w1)"
    using ch_fx_exec [OF w1(1), of "Fx_update_barrier (be_bytes v)"] by auto
  have "cn_linked (content w2)" using cn_stored_linked [OF st] by (simp add: w2(3) w1(2) cn_linked_def)
  then obtain w3 where w3: "sq_commit D w2 = (Some (), w3)" using ch_commit [OF w2(2)] by blast
  obtain w4 where w4: "dk_sync_path D w3 = (Some (), w4)" using ch_sync by blast
  show ?thesis
    using ch_metadata [OF bar(2) m, of "Some (tp_revision (ns_tip s))"] ch_tip [OF tp cn_replayed_facts(4) [OF rep m(1)]] q
    by (simp add: cn_barrier_def then_do_def cn_call_def on_err_def cn_shared_def b n w2(1) w3 w4)
qed

end

text \<open>Against a snapshot that the file may hold, reconciliation succeeds and tells whether the attempted block is there.\<close>

lemma cn_reconcile_exact:
  assumes rep: "cn_replayed C m (co_snapshot ow)" and m: "manifest_ok C m" and t: "cn_extends ow t"
    and att: "\<And>a. co_attempted ow = Some a \<Longrightarrow> ca_base a = ns_tip (co_snapshot ow) \<and> unat (tp_revision (cm_tip (ca_record a))) = length (ns_blocks (co_snapshot ow))"
  shows "cn_reconcile (co_attempted ow) t =
     Inr (map_option (\<lambda>a. ns_blocks t = ns_blocks (co_snapshot ow) @ [ca_record a]) (co_attempted ow))"
proof (cases "co_attempted ow")
  case (Some a)
  let ?s = "co_snapshot ow"
  note a = att [OF Some] and f = cn_replayed_facts(2,3) [OF rep m]
  from rep have b: "ns_blocks ?s \<noteq> []" "length (ns_blocks ?s) \<le> 2 ^ 64" by (simp_all add: cn_replayed_def)
  then have j: "unat (tp_revision (ns_tip ?s)) = length (ns_blocks ?s) - 1" unfolding f(2) by (intro unat_of_nat_small) (cases "ns_blocks ?s"; simp)
  have l: "cm_tip (ns_blocks ?s ! (length (ns_blocks ?s) - 1)) = ns_tip ?s" using f(1) b(1) by (simp add: last_conv_nth)
  from t Some consider "t = ?s" | "ns_blocks t = ns_blocks ?s @ [ca_record a]" by (auto simp: cn_extends_def)
  then show ?thesis
  proof cases
    case 1
    with Some a show ?thesis by (simp add: cn_reconcile_def)
  next
    case 2
    with Some a b(1) j l show ?thesis by (simp add: cn_reconcile_def nth_append Let_def)
  qed
qed (simp add: cn_reconcile_def)

context canonical_recoverable
begin

lemma ch_recover:
  assumes ok: "archive_ok C D durable m x" and mw: "manifest_widths m"
    and room: "ar_counter x \<noteq> - 1" "cd_tables (durable (ar_file x)) Fx_metadata ! 0 ! 11 \<noteq> Blob (be_bytes (- 1 :: u64))"
  shows "\<exists>report ow' counter' w'. cn_recover C D (ar_own x) (ar_counter x) (ar_file x) = (Inr report, ow', counter', w')"
proof -
  let ?ow = "ar_own x"
  from ok obtain t where m: "co_manifest ?ow = m" "manifest_ok C m" "cn_replayed C m (co_snapshot ?ow)"
    and t: "cn_replayed C m t" "cn_stored (c_keccak C) m t (durable (ar_file x))" "cn_extends ?ow t"
    and att: "\<And>a. co_attempted ?ow = Some a \<Longrightarrow> ca_base a = ns_tip (co_snapshot ?ow) \<and> unat (tp_revision (cm_tip (ca_record a))) = length (ns_blocks (co_snapshot ?ow))"
    by (auto simp: archive_ok_def Let_def)
  obtain w1 where o: "then_do (on_err CStorage (fx_open (cn_fixture D) (dk_close D (ar_file x)))) (\<lambda>_ w. configure_cache D (co_cache_policy ?ow) w) = (Inr (), w1)"
    using ch_open by blast
  have d1: "durable w1 = durable (ar_file x)" "sq_autocommit D w1" using cn_reopen_idle [OF o] cn_close_effect by auto
  obtain w2 where l: "cn_load_snapshot C D m w1 = (Inr t, w2)" "sq_autocommit D w2" "durable w2 = durable w1"
    using ch_load_snapshot [OF d1(2) _ t(1) m(2) mw] t(2) d1(1) by auto
  obtain w3 where b: "cn_barrier (c_keccak C) D m (ns_tip t) w2 = (Inr (), w3)"
    using ch_barrier [OF l(2) _ t(1) m(2) mw] t(2) room(2) l(3) d1(1) by auto
  obtain c where g: "fx_generation (ar_counter x) = (Inr (ar_counter x), c)"
    using checked_add_one [OF room(1)] by (auto simp: fx_generation_def next_generation_def)
  show ?thesis
    using o l(1) b cn_reconcile_exact [OF m(3,2) t(3) att] m(1) by (simp add: cn_recover_def Let_def g then_do_def [of "(Inr _, _)"])
qed

lemma ch_reopen:
  assumes ok: "archive_ok C D durable m x" and mw: "manifest_widths m"
    and room: "counter \<noteq> - 1" "cd_tables (durable (ar_file x)) Fx_metadata ! 0 ! 11 \<noteq> Blob (be_bytes (- 1 :: u64))"
  shows "\<exists>ow' counter' w'. load_with_cache C D m policy counter (dk_close D (ar_file x)) = (Inr ow', counter', w')"
proof -
  from ok obtain t where m: "manifest_ok C m" and t: "cn_replayed C m t" "cn_stored (c_keccak C) m t (durable (ar_file x))" by (auto simp: archive_ok_def Let_def)
  obtain w1 where o: "then_do (on_err CStorage (fx_open (cn_fixture D) (dk_close D (ar_file x)))) (\<lambda>_ w. configure_cache D policy w) = (Inr (), w1)"
    using ch_open by blast
  have d1: "durable w1 = durable (ar_file x)" "sq_autocommit D w1" using cn_reopen_idle [OF o] cn_close_effect by auto
  obtain w2 where l: "cn_load_snapshot C D m w1 = (Inr t, w2)" "sq_autocommit D w2" "durable w2 = durable w1"
    using ch_load_snapshot [OF d1(2) _ t(1) m mw] t(2) d1(1) by auto
  obtain w3 where b: "cn_barrier (c_keccak C) D m (ns_tip t) w2 = (Inr (), w3)"
    using ch_barrier [OF l(2) _ t(1) m mw] t(2) room(2) l(3) d1(1) by auto
  obtain c where g: "fx_generation counter = (Inr counter, c)"
    using checked_add_one [OF room(1)] by (auto simp: fx_generation_def next_generation_def)
  show ?thesis using o l(1) b by (simp add: load_with_cache_def cn_owner_def g then_do_def [of "(Inr _, _)"])
qed

end


section \<open>A concrete file\<close>

record cnmem =
  nm_durable :: cndb
  nm_open :: "cndb option"
  nm_fault :: "bool option"        \<comment> \<open>the next \<open>COMMIT\<close> after the first reports an error, having or not having taken effect\<close>
  nm_cache :: int

definition nm_content :: "cnmem \<Rightarrow> cndb" where
  "nm_content w = (case nm_open w of None \<Rightarrow> nm_durable w | Some db \<Rightarrow> db)"

definition cn_blank :: cndb where
  "cn_blank = \<lparr>cd_tables = (\<lambda>_. []), cd_blocks = [], cd_tip = []\<rparr>"

text \<open>The flag says whether the fault switch is heeded. Constraints are not enforced, so that every write goes through.\<close>

definition cn_mem :: "bool \<Rightarrow> cnmem canonical_disk" where
  "cn_mem faulty = \<lparr>
     sq_schema_present = (\<lambda>_. Some True), sq_schema_rows = (\<lambda>_. Some []),
     sq_integrity = (\<lambda>_. Some ''ok''), sq_foreign_key_violation = (\<lambda>_. Some False),
     sq_count_metadata = (\<lambda>_. Some 1), sq_select = (\<lambda>_ _. None), sq_write = (\<lambda>_ w. (None, w)),
     sq_begin = (\<lambda>_ w. case nm_open w of None \<Rightarrow> (Some (), w\<lparr>nm_open := Some (nm_durable w)\<rparr>) | Some _ \<Rightarrow> (None, w)),
     sq_commit = (\<lambda>w. case nm_open w of None \<Rightarrow> (None, w)
       | Some db \<Rightarrow> (case (if faulty \<and> cd_tip (nm_durable w) \<noteq> [] then nm_fault w else None) of
           None \<Rightarrow> (Some (), w\<lparr>nm_durable := db, nm_open := None\<rparr>)
         | Some applied \<Rightarrow> (None, w\<lparr>nm_durable := (if applied then db else nm_durable w), nm_open := None, nm_fault := None\<rparr>))),
     sq_rollback = (\<lambda>w. (Some (), w\<lparr>nm_open := None\<rparr>)),
     sq_autocommit = (\<lambda>w. nm_open w = None),
     dk_ddl = (\<lambda>n. n),
     dk_create_new = (\<lambda>w. (Created, w\<lparr>nm_durable := cn_blank, nm_open := None\<rparr>)),
     dk_exists = (\<lambda>_. Some True),
     dk_open = (\<lambda>w. (Some (), w\<lparr>nm_open := None, nm_cache := - 2000\<rparr>)),
     dk_close = (\<lambda>w. w\<lparr>nm_open := None\<rparr>),
     dk_busy_timeout = (\<lambda>w. (Some (), w)),
     dk_set_pragmas = (\<lambda>w. (Some (), w)),
     dk_pragmas = (\<lambda>w. \<lparr>pg_journal_mode = Some ''delete'', pg_synchronous = Some 3, pg_foreign_keys = Some 1,
       pg_page_size = Some 4096, pg_cache_size = Some (nm_cache w), pg_cache_spill = Some 1\<rparr>),
     dk_sync_path = (\<lambda>w. (Some (), w)),
     fx_metadata_tables = (\<lambda>_. Some 1), fx_table_sql = (\<lambda>n _. Some n),
     fx_select = (\<lambda>q w. Some (map Some (fx_rows q (cd_tables (nm_content w))))),
     fx_write = (\<lambda>st w. case nm_open w of None \<Rightarrow> (None, w)
       | Some db \<Rightarrow> (Some (fx_affected st (cd_tables db)), w\<lparr>nm_open := Some (fx_effect st db)\<rparr>)),
     cn_metadata_present = (\<lambda>_. Some True),
     cn_set_cache = (\<lambda>w. (Some (), w\<lparr>nm_cache := - 32768\<rparr>)),
     cn_select = (\<lambda>p w. Some (map Some (cn_rows p (nm_content w)))),
     cn_block_present = (\<lambda>h slot w. Some (\<exists>r \<in> set (cd_blocks (nm_content w)). r ! 0 = Blob h \<or> r ! 1 = Blob slot)),
     cn_transaction_present = (\<lambda>ident sender nonce w. Some (\<exists>r \<in> set (cd_tables (nm_content w) Fx_transactions).
       r ! 0 = Blob ident \<or> r ! 3 = Blob sender \<and> r ! 4 = Blob nonce)),
     cn_count = (\<lambda>t w. Some (int (cn_counted_rows t (nm_content w)))),
     cn_write = (\<lambda>st w. case nm_open w of None \<Rightarrow> (None, w)
       | Some db \<Rightarrow> (Some (cn_affected st db), w\<lparr>nm_open := Some (cn_apply st db)\<rparr>))\<rparr>"

interpretation cm: canonical_engine "cn_mem faulty" nm_content nm_durable
  by unfold_locales
    (auto simp: cn_mem_def nm_content_def cn_blank_def simp del: fx_apply.simps cn_apply.simps fx_rows.simps cn_rows.simps split: option.splits prod.splits if_splits)

interpretation cmr: canonical_recoverable "cn_mem False" nm_content nm_durable
proof unfold_locales
  fix w :: cnmem and policy
  have "fx_open (cn_fixture (cn_mem False)) w = (Inr (), w\<lparr>nm_open := None, nm_cache := - 2000\<rparr>)"
    "fx_configure (cn_fixture (cn_mem False)) v = (Inr (), v)" for v
    by (simp_all add: cn_mem_def fx_open_def fx_configure_def disk_open_def disk_call_def disk_configure_def then_do_def disk.defs fixture_disk.defs)
  then show "\<exists>w'. then_do (on_err CStorage (fx_open (cn_fixture (cn_mem False)) w)) (\<lambda>_ w. configure_cache (cn_mem False) policy w) = (Inr (), w')"
    by (cases policy) (simp_all add: configure_cache_def then_do_def on_err_def cn_call_def pragma_value_def, simp_all add: cn_mem_def)
qed (auto simp: cn_mem_def nm_content_def cn_check_schema_def cn_TABLES_def simp del: fx_apply.simps cn_apply.simps fx_rows.simps cn_rows.simps split: option.splits)

definition new_cnmem :: "bool option \<Rightarrow> cnmem" where
  "new_cnmem fault = \<lparr>nm_durable = cn_blank, nm_open = None, nm_fault = fault, nm_cache = - 2000\<rparr>"


lemma nm_exec [simp]:
  "nm_open w = Some db \<Longrightarrow> fx_exec (cn_fixture (cn_mem b)) st w = (Inr (fx_affected st (cd_tables db)), w\<lparr>nm_open := Some (fx_effect st db)\<rparr>)"
  "nm_open w = Some db \<Longrightarrow> cn_exec (cn_mem b) s w = (Inr (cn_affected s db), w\<lparr>nm_open := Some (cn_apply s db)\<rparr>)"
  by (simp_all add: fx_exec_def fx_call_def cn_exec_def cn_call_def cn_mem_def fixture_disk.defs del: fx_apply.simps cn_apply.simps)

lemma nm_exec_all:
  "nm_open w = Some db \<Longrightarrow> \<exists>db'. fx_exec_all (cn_fixture (cn_mem b)) sts w = (Inr (), w\<lparr>nm_open := Some db'\<rparr>)"
proof (induction sts arbitrary: w db)
  case Nil
  then show ?case by (cases w) auto
next
  case (Cons st sts)
  from Cons.IH [of "w\<lparr>nm_open := Some (fx_effect st db)\<rparr>"] Cons.prems show ?case by (auto simp: then_do_def simp del: fx_apply.simps)
qed

lemma nm_initialize:
  assumes "nm_open w = Some db"
  shows "\<exists>db'. cn_initialize K (cn_mem b) m w = (Inr (), w\<lparr>nm_open := Some db'\<rparr>)"
proof -
  let ?F = "cn_fixture (cn_mem b)"
  obtain d1 where 1: "fx_exec_all ?F (map (\<lambda>n. Fx_create (dk_ddl (cn_mem b) n)) cn_TABLES) w = (Inr (), w\<lparr>nm_open := Some d1\<rparr>)"
    using nm_exec_all [OF assms] by blast
  let ?m = "fx_effect (Fx_insert Fx_metadata (cn_metadata_row K m 0 (be_bytes (0 :: u64)) 0)) d1"
  obtain d2 where 2: "fx_exec_all ?F (concat (map (\<lambda>a. [Fx_insert Seed_accounts (fx_account_row a), Fx_insert Fx_accounts (fx_account_row a)]) (ts_accounts (mf_initial m))))
      (w\<lparr>nm_open := Some ?m\<rparr>) = (Inr (), w\<lparr>nm_open := Some d2\<rparr>)"
    using nm_exec_all [of "w\<lparr>nm_open := Some ?m\<rparr>" ?m] by fastforce
  show ?thesis
    using 1 2 by (simp add: cn_initialize_def Let_def then_do_def on_err_def cn_shared_def insert_block_def insert_body_def del: fx_apply.simps cn_apply.simps) (rule exI, rule refl)
qed

lemma nm_create:
  assumes "insert_record (anchor_record (c_keccak C) m) (cn_empty (mf_initial m) (cm_tip (anchor_record (c_keccak C) m))) = Inr s"
  obtains w where "create_anchored_fixture_with_cache_policy C (cn_mem b) m ExistingDefault 7 (new_cnmem fault) =
     (Inr \<lparr>co_manifest = m, co_connected = True, co_snapshot = s, co_generation = 7, co_poisoned = False, co_attempted = None, co_cache_policy = ExistingDefault\<rparr>, 8, w)"
    "nm_fault w = fault"
proof -
  let ?w = "new_cnmem fault" and ?D = "cn_mem b"
  have o: "fx_open (cn_fixture ?D) ?w = (Inr (), ?w)" "fx_configure (cn_fixture ?D) ?w = (Inr (), ?w)"
    by (simp_all add: cn_mem_def new_cnmem_def fx_open_def fx_configure_def disk_open_def disk_call_def disk_configure_def then_do_def disk.defs fixture_disk.defs)
  then have c: "configure_cache ?D ExistingDefault ?w = (Inr (), ?w)"
    by (simp add: configure_cache_def then_do_def on_err_def pragma_value_def) (simp add: cn_mem_def new_cnmem_def)
  have d: "dk_create_new ?D ?w = (Created, ?w)" "sq_begin ?D True ?w = (Some (), ?w\<lparr>nm_open := Some cn_blank\<rparr>)"
    "\<And>v. dk_sync_path ?D v = (Some (), v)" by (simp_all add: cn_mem_def new_cnmem_def)
  obtain db where i: "cn_initialize (c_keccak C) ?D m (?w\<lparr>nm_open := Some cn_blank\<rparr>) = (Inr (), ?w\<lparr>nm_open := Some db\<rparr>)"
    using nm_initialize [of "?w\<lparr>nm_open := Some cn_blank\<rparr>" cn_blank "c_keccak C" b m] by auto
  have k: "sq_commit ?D (?w\<lparr>nm_open := Some db\<rparr>) = (Some (), ?w\<lparr>nm_durable := db, nm_open := None\<rparr>)"
    by (simp add: cn_mem_def new_cnmem_def cn_blank_def)
  show thesis
    by (rule that [of "?w\<lparr>nm_durable := db, nm_open := None\<rparr>"])
      (simp_all add: create_anchored_fixture_with_cache_policy_def create_inner_with_cache_def Let_def d o c i k assms then_do_def on_err_def cn_call_def
        cn_owner_def fx_generation_def next_generation_def checked_add_def new_cnmem_def [THEN arg_cong, of nm_fault])
qed


text \<open>A hasher under which the header hashes of different slots differ, and with it an archive of the demonstration ledger that has its
  anchor at slot 0 and one prepared, authorized block at slot 1.\<close>

definition archive_crypto :: "bytes crypto" where
  "archive_crypto = demo_crypto\<lparr>c_keccak := (\<lambda>b. take 32 ((if take 23 b = BLOCK_HEADER_DOMAIN then drop 35 b else b) @ replicate 32 0))\<rparr>"

lemma archive_keccak: "take 23 b \<noteq> BLOCK_HEADER_DOMAIN \<Longrightarrow> c_keccak archive_crypto b = c_keccak demo_crypto b"
  by (simp add: archive_crypto_def demo_crypto_def)

lemma archive_digest32: "digest32 (c_keccak archive_crypto)"
  by (auto simp: digest32_def archive_crypto_def min_def)

lemma archive_header_hash: "take 8 (header_hash (c_keccak archive_crypto) h) = be_bytes (bh_slot h)"
  by (simp add: header_hash_def hash_with_domain_def archive_crypto_def BLOCK_HEADER_DOMAIN_def str_def header_bytes_def)

lemma archive_authenticates:
  assumes "n \<noteq> - 1"
  shows "authenticate archive_crypto (signed_concat (demo_signed n v)) demo_context None = Inr (demo_proof n v)"
proof -
  have k: "c_keccak archive_crypto (ID_DOMAIN @ b) = c_keccak demo_crypto (ID_DOMAIN @ b)" "c_keccak archive_crypto (SIGNING_DOMAIN @ b) = c_keccak demo_crypto (SIGNING_DOMAIN @ b)"
    for b by (rule archive_keccak, simp add: ID_DOMAIN_def SIGNING_DOMAIN_def BLOCK_HEADER_DOMAIN_def str_def)+
  have "take 23 (replicate 64 (7 :: u8)) ! 0 \<noteq> BLOCK_HEADER_DOMAIN ! 0" by (simp add: BLOCK_HEADER_DOMAIN_def str_def)
  then have k7: "c_keccak archive_crypto (replicate 64 7) = c_keccak demo_crypto (replicate 64 7)" by (metis archive_keccak)
  have wf: "signed_wf archive_crypto (demo_signed n v)" using demo_signed_wf [of n v] by (simp add: signed_wf_def signature_wf_def archive_crypto_def)
  have "address_from_public_key archive_crypto (replicate 65 7) = replicate 20 7"
    using demo_address k7 by (simp add: address_from_public_key_def) (simp add: archive_crypto_def demo_crypto_def)
  moreover have "field 65 (replicate 65 (7 :: u8)) 0 = replicate 65 7" by (simp add: field_def)
  moreover have "c_recover_from_prehash archive_crypto d sig i = Some (replicate 65 7)" "c_to_encoded_point archive_crypto q False = q" for d sig i q
    by (simp_all add: archive_crypto_def demo_crypto_def)
  moreover have "validate_profile (st_unsigned (demo_signed n v)) demo_context = Inr ()" "ut_sender (st_unsigned (demo_signed n v)) = replicate 20 7"
    using assms by (simp_all add: demo_signed_def demo_profile) (simp add: demo_unsigned_def)
  ultimately show ?thesis by (subst authenticate_decoded [OF signed_dec_enc [OF wf]]) (simp add: demo_proof_def Let_def k)
qed

lemma archive_stages: "\<exists>sb. stage_body archive_crypto demo_state demo_context 1 [signed_concat (demo_signed 0 5)] = Inr sb"
proof -
  have "\<exists>s out. apply_transfer demo_state default_outcome (demo_proof 0 5) 1 = Inr (s, out)"
    by (rule apply_transfer_progress)
      (simp_all add: spec_enabled_def widths_suffice_def demo_proof_def Let_def demo_signed_def
        demo_unsigned_def ledger_of_def default_outcome_def demo_state_def [THEN arg_cong, of ts_gas_used_total]
        demo_state_def [THEN arg_cong, of ts_fees_burned_total] TRANSFER_KIND_def ETX_TOKEN_ID_def INTRINSIC_GAS_def)
  then obtain s out where "execute_proofs 0 demo_state default_outcome 1 [demo_proof 0 5] = Inr (s, out)" by auto
  then show ?thesis
    using stage_body_intro [of archive_crypto demo_context "[signed_concat (demo_signed 0 5)]" "[demo_proof 0 5]"]
      archive_authenticates [of 0 5] by (intro exI) simp
qed

lemma archive_buildable:
  assumes "length parent = 32" "length body \<le> MAX_TRANSACTIONS"
  shows "buildable (c_keccak archive_crypto) parent [65] 1 body"
proof -
  have "proposer_id (c_keccak archive_crypto) [65] ! 0 = 69"
    by (simp add: proposer_id_def hash_with_domain_def archive_crypto_def PROPOSER_ID_DOMAIN_def BLOCK_HEADER_DOMAIN_def str_def)
  then have "proposer_id (c_keccak archive_crypto) [65] \<noteq> replicate 32 0" by auto
  with assms show ?thesis by (simp add: buildable_def str_def block_bounds)
qed


lemma demo_manifest:
  obtains m s where "manifest_ok archive_crypto m" "manifest_widths m" "mf_context m = demo_context" "mf_initial m = demo_state" "bh_slot (nb_header (mf_anchor m)) = 0"
    "insert_record (anchor_record (c_keccak archive_crypto) m) (cn_empty (mf_initial m) (cm_tip (anchor_record (c_keccak archive_crypto) m))) = Inr s"
    "ns_state s = demo_state" "ns_tip s = cm_tip (anchor_record (c_keccak archive_crypto) m)" "ns_transactions s = []" "ns_sender_nonces s = []"
    "ns_hashes s = [(nb_hash (c_keccak archive_crypto) (mf_anchor m), ns_tip s)]"
proof -
  let ?K = "c_keccak archive_crypto"
  have st: "stage_body archive_crypto demo_state demo_context 0 [] = Inr \<lparr>sb_base = demo_state, sb_candidate = demo_state,
      sb_record = \<lparr>ab_context = demo_context, ab_slot = 0, ab_transactions = [], ab_outcome = default_outcome\<rparr>\<rparr>"
    by (simp add: stage_body_def)
  obtain b where b: "nb_wf b" "nb_transactions b = []" "preflight ?K b demo_context = Inr (bo_transaction_ids default_outcome)"
    "bh_gas_used (nb_header b) = 0" "pd_fees_burned (nb_protocol_data b) = 0" "bh_parent_hash (nb_header b) = replicate 32 0" "bh_slot (nb_header b) = 0"
    by (rule build_returns [OF archive_digest32 st archive_buildable [of "replicate 32 0"]]) (simp_all add: default_outcome_def)
  let ?m = "\<lparr>mf_context = demo_context, mf_anchor = b, mf_initial = demo_state, mf_provenance = str ''demo''\<rparr>"
  have "manifest_new ?K demo_context b demo_state (str ''demo'') = Inr ?m" using b by (simp add: manifest_new_def str_def)
  then have ok: "manifest_ok archive_crypto ?m" using b(1) archive_digest32 demo_state_wf by (simp add: manifest_ok_def)
  have wd: "manifest_widths ?m" by (auto simp: manifest_widths_def demo_context_def demo_state_def str_def)
  let ?tp = "cm_tip (anchor_record ?K ?m)"
  let ?s = "\<lparr>ns_state = demo_state, ns_tip = ?tp, ns_blocks = [anchor_record ?K ?m], ns_transactions = [], ns_sender_nonces = [],
     ns_slots = [(0, nb_hash ?K b)], ns_hashes = [(nb_hash ?K b, ?tp)]\<rparr>"
  have "insert_record (anchor_record ?K ?m) (cn_empty (mf_initial ?m) ?tp) = Inr ?s"
    using b(2,7) by (simp add: anchor_record_def insert_record_def cn_empty_def cn_entries_def Let_def tip_at_def)
  then show thesis by (rule that [OF ok wd, rotated 3]) (use b(7) in simp_all)
qed


abbreviation demo_body :: "bytes list" where
  "demo_body \<equiv> [signed_concat (demo_signed 0 5)]"

lemma demo_prepared:
  assumes "mf_context (co_manifest ow) = demo_context" "\<not> co_poisoned ow" "ns_state (co_snapshot ow) = demo_state" "ns_transactions (co_snapshot ow) = []"
    "ns_sender_nonces (co_snapshot ow) = []" "tp_slot (ns_tip (co_snapshot ow)) = 0" "tp_revision (ns_tip (co_snapshot ow)) = 0"
    "length (tp_hash (ns_tip (co_snapshot ow))) = 32"
  obtains p where "cn_prepare_next archive_crypto ow [65] 1 demo_body = Inr p" "nb_transactions (cm_block (pn_record p)) = demo_body" "bh_slot (nb_header (cm_block (pn_record p))) = 1"
    "pn_base p = cn_base_of (c_keccak archive_crypto) ow demo_state" "cm_tip (pn_record p) = tip_at (c_keccak archive_crypto) (cm_block (pn_record p)) 1"
proof -
  let ?K = "c_keccak archive_crypto"
  obtain sb where sb: "stage_body archive_crypto demo_state demo_context 1 demo_body = Inr sb" using archive_stages by blast
  note e = staged_body_entries [OF sb] and t = staged_entries(5) [OF sb]
  obtain b where b: "build ?K demo_context 1 (tp_hash (ns_tip (co_snapshot ow))) [65] 1 demo_body (ab_outcome (sb_record sb)) = Inr b" "nb_transactions b = demo_body"
    "preflight ?K b demo_context = Inr (bo_transaction_ids (ab_outcome (sb_record sb)))" "bh_gas_used (nb_header b) = bo_gas_used (ab_outcome (sb_record sb))"
    "pd_fees_burned (nb_protocol_data b) = bo_fees_burned (ab_outcome (sb_record sb))" "bh_slot (nb_header b) = 1"
    by (rule build_returns [OF archive_digest32 sb archive_buildable [OF assms(8)]]) (simp_all add: block_bounds)
  have ct: "cn_check_transactions ow b (ab_outcome (sb_record sb)) = Inr ()"
    using e(2) assms(4,5) by (simp add: cn_check_transactions_def cn_entries_def b(2))
  have base: "sb_base sb = demo_state" using sb by (auto elim: stage_body_elim)
  have "cn_prepare_next archive_crypto ow [65] 1 demo_body =
      Inr \<lparr>pn_base = cn_base_of ?K ow demo_state, pn_candidate = sb_candidate sb, pn_record = \<lparr>cm_tip = tip_at ?K b 1, cm_block = b, cm_outcome = ab_outcome (sb_record sb)\<rparr>\<rparr>"
    using assms sb t b ct e(1) base
    by (simp add: cn_prepare_next_def cn_ready_def Let_def checked_add_def str_def block_bounds match_outcome_def)
  then show thesis by (rule that) (use b in simp_all)
qed

lemma demo_archive:
  obtains m x p g st where "manifest_ok archive_crypto m" "manifest_widths m" "mf_initial m = demo_state" "archive_reached archive_crypto (cn_mem b) m x"
    "cn_prepare_next archive_crypto (ar_own x) [65] 1 demo_body = Inr p" "authorize (c_keccak archive_crypto) p g = Inr st" "p \<in> ar_prepared x" "st \<in> ar_staged x"
    "ns_blocks (co_snapshot (ar_own x)) = [anchor_record (c_keccak archive_crypto) m]" "\<not> co_poisoned (ar_own x)" "ar_counter x = 8" "nm_fault (ar_file x) = fault"
    "nm_durable (ar_file x) = cn_initial_db (c_keccak archive_crypto) m"
    "map_of (ns_hashes (co_snapshot (ar_own x))) (tp_hash (cm_tip (pn_record p))) = None"
    "nb_hash (c_keccak archive_crypto) (cm_block (pn_record p)) \<noteq> nb_hash (c_keccak archive_crypto) (mf_anchor m)"
proof -
  let ?C = archive_crypto and ?K = "c_keccak archive_crypto" and ?D = "cn_mem b"
  obtain m s where m: "manifest_ok ?C m" "manifest_widths m" "mf_context m = demo_context" "mf_initial m = demo_state" "bh_slot (nb_header (mf_anchor m)) = 0"
    and i: "insert_record (anchor_record ?K m) (cn_empty (mf_initial m) (cm_tip (anchor_record ?K m))) = Inr s"
    and s: "ns_state s = demo_state" "ns_tip s = cm_tip (anchor_record ?K m)" "ns_transactions s = []" "ns_sender_nonces s = []" "ns_hashes s = [(nb_hash ?K (mf_anchor m), ns_tip s)]"
    by (rule demo_manifest)
  let ?ow = "\<lparr>co_manifest = m, co_connected = True, co_snapshot = s, co_generation = 7, co_poisoned = False, co_attempted = None, co_cache_policy = ExistingDefault\<rparr>"
  obtain w where w: "create_anchored_fixture_with_cache_policy ?C ?D m ExistingDefault 7 (new_cnmem fault) = (Inr ?ow, 8, w)" "nm_fault w = fault" by (rule nm_create [OF i])
  note c = cm.cn_create_ok [OF w(1) [unfolded create_anchored_fixture_with_cache_policy_def] m(1)]
  let ?x = "\<lparr>ar_own = ?ow, ar_counter = 8, ar_file = w, ar_prepared = {}, ar_staged = {}\<rparr>"
  have r0: "archive_reached ?C ?D m ?x" unfolding archive_reached_def using w(1) ar_run_start by blast
  have tp: "tp_slot (ns_tip s) = 0" "tp_revision (ns_tip s) = 0" "tp_hash (ns_tip s) = nb_hash ?K (mf_anchor m)" using s(2) m(5) by (simp_all add: anchor_record_def tip_at_def)
  have "length (tp_hash (ns_tip s)) = 32" using archive_digest32 by (simp add: tp(3) nb_hash_def header_hash_def hash_with_domain_def digest32_def)
  then obtain p where p: "cn_prepare_next ?C ?ow [65] 1 demo_body = Inr p" "bh_slot (nb_header (cm_block (pn_record p))) = 1"
    "pn_base p = cn_base_of ?K ?ow demo_state" "cm_tip (pn_record p) = tip_at ?K (cm_block (pn_record p)) 1"
    using s m(3) tp by (auto intro: demo_prepared [of ?ow])
  let ?g = "explicit_offline demo_context (nb_hash ?K (mf_anchor m)) (ns_tip s) (nb_hash ?K (cm_block (pn_record p))) 1"
  have a: "authorize ?K p ?g = Inr \<lparr>sx_prepared = p, sx_grant = ?g\<rparr>" using p(2,3) m(3) by (simp add: authorize_def grant_matches_def explicit_offline_def cn_base_of_def)
  have r1: "archive_reached ?C ?D m (?x\<lparr>ar_prepared := {p}\<rparr>)"
    by (rule archive_reached_step [OF r0]) (use ar_prepare [of "[65]" ?C ?x 1 demo_body p ?D] p(1) in simp)
  have r2: "archive_reached ?C ?D m (?x\<lparr>ar_prepared := {p}, ar_staged := {\<lparr>sx_prepared = p, sx_grant = ?g\<rparr>}\<rparr>)"
    by (rule archive_reached_step [OF r1]) (use ar_authorize [of p "?x\<lparr>ar_prepared := {p}\<rparr>" ?C ?g "\<lparr>sx_prepared = p, sx_grant = ?g\<rparr>" ?D] a in simp)
  have "be_bytes (1 :: u64) \<noteq> be_bytes (0 :: u64)" by simp
  then have h: "nb_hash ?K (cm_block (pn_record p)) \<noteq> nb_hash ?K (mf_anchor m)"
    using archive_header_hash [of "nb_header (cm_block (pn_record p))"] archive_header_hash [of "nb_header (mf_anchor m)"] p(2) m(5) by (metis nb_hash_def)
  with s(5) p(4) have f: "map_of (ns_hashes s) (tp_hash (cm_tip (pn_record p))) = None" by (simp add: tip_at_def)
  show thesis by (rule that [OF m(1,2,4) r2]) (use p(1) a c(2,3) w(2) f h in simp_all)
qed


section \<open>Admission of a prepared block\<close>

lemma cn_prepared_body:
  assumes "cn_prepare_next C ow proposer ticket body = Inr p"
  shows "nb_transactions (cm_block (pn_record p)) = body"
  using assms by (rule cn_prepare_Inr) (auto simp: match_outcome_def split: if_splits)

text \<open>A block with a header hash of its own is in no index of the archive.\<close>

lemma cn_hash_fresh:
  assumes "cn_replayed C m (co_snapshot ow)"
    and "nb_hash (c_keccak C) (cm_block (pn_record p)) \<notin> (\<lambda>r. nb_hash (c_keccak C) (cm_block r)) ` set (ns_blocks (co_snapshot ow))"
    and "cn_prepare_next C ow proposer ticket body = Inr p"
  shows "map_of (ns_hashes (co_snapshot ow)) (tp_hash (cm_tip (pn_record p))) = None"
proof (rule ccontr)
  assume "map_of (ns_hashes (co_snapshot ow)) (tp_hash (cm_tip (pn_record p))) \<noteq> None"
  then obtain r where r: "r \<in> set (ns_blocks (co_snapshot ow))" "tp_hash (cm_tip r) = tp_hash (cm_tip (pn_record p))"
    using cn_replayed_indexed [OF assms(1)] by (auto simp: cn_indexed_def)
  have "block_ok (c_keccak C) r" using assms(1) r(1) by (auto simp: cn_replayed_def in_set_conv_nth)
  moreover have "tp_hash (cm_tip (pn_record p)) = nb_hash (c_keccak C) (cm_block (pn_record p))" using assms(3) by (rule cn_prepare_Inr) (simp add: tip_at_def)
  ultimately show False using assms(2) r cn_tip_fields [of "c_keccak C" r] by (metis image_eqI)
qed

text \<open>On the owner that prepared it, an authorized block with a hash not seen before is admitted.\<close>

lemma cn_prepared_admitted:
  assumes ok: "archive_ok C D durable m x" and p: "cn_prepare_next C (ar_own x) proposer ticket body = Inr p" "utf8_valid proposer"
    and g: "authorize (c_keccak C) p g = Inr st"
    and fresh: "map_of (ns_hashes (co_snapshot (ar_own x))) (tp_hash (cm_tip (pn_record p))) = None"
  shows "\<exists>s'. cn_admitted C (ar_own x) st s' \<and> \<not> co_poisoned (ar_own x) \<and> sx_prepared st = p \<and>
     insert_record (pn_record p) ((co_snapshot (ar_own x))\<lparr>ns_state := pn_candidate p\<rparr>) = Inr s'"
proof -
  let ?ow = "ar_own x"
  from ok have m: "co_manifest ?ow = m" "manifest_ok C m" "cn_replayed C m (co_snapshot ?ow)" by (auto simp: archive_ok_def Let_def)
  have nb: "\<not> co_poisoned ?ow" using p(1) by (auto simp: cn_prepare_next_def cn_ready_def Let_def split: if_splits)
  note r = cn_prepared_received [OF p, unfolded m(1), OF m(2,3) g _ _ nb fresh, unfolded m(1), OF refl refl]
  from r(3) obtain s' where s': "insert_record (pn_record p) ((co_snapshot ?ow)\<lparr>ns_state := pn_candidate p\<rparr>) = Inr s'" by blast
  have "cn_admitted C ?ow st s'" using r(2,4-6) s' by (simp add: cn_admitted_def cn_stale_def cn_base_of_def)
  with nb r(5) s' show ?thesis by blast
qed

section \<open>Properties\<close>

text \<open>C19. Every run of a block archive, over a file that may fail at any call and with restarts and recoveries at any moment: the archive begins
  with the manifest's anchor and every later block has the next slot and the previous block's hash as its parent; block \<open>i\<close> has revision
  \<open>i\<close>; the ledger is the replay of the bodies from the manifest's state and conserves its balances plus burnt fees; the four indexes hold exactly the archive's
  transactions, sender--nonce pairs, slots and hashes. When the owner is ready the file stores exactly this snapshot; when it is blocked,
  this one or the one with the attempted block.\<close>

theorem canonical_runs_safe:
  assumes "canonical_engine D content durable" "manifest_ok C m" "archive_reached C D m x"
  defines "s \<equiv> co_snapshot (ar_own x)"
  shows "\<exists>rs. ns_blocks s = anchor_record (c_keccak C) m # rs \<and> replay C (mf_initial m) (map (body_of m) rs) = Some (ns_state s) \<and>
     (\<forall>i. Suc i < length (ns_blocks s) \<longrightarrow>
        unat (bh_slot (nb_header (cm_block (ns_blocks s ! Suc i)))) = Suc (unat (bh_slot (nb_header (cm_block (ns_blocks s ! i))))) \<and>
        bh_parent_hash (nb_header (cm_block (ns_blocks s ! Suc i))) = nb_hash (c_keccak C) (cm_block (ns_blocks s ! i))) \<and>
     (\<forall>i < length (ns_blocks s). unat (tp_revision (cm_tip (ns_blocks s ! i))) = i) \<and> ns_tip s = cm_tip (last (ns_blocks s)) \<and>
     total_balance (ns_state s) + unat (ts_fees_burned_total (ns_state s)) = total_balance (mf_initial m) + unat (ts_fees_burned_total (mf_initial m)) \<and>
     cn_indexed s \<and> (cn_is_ready (ar_own x) \<longrightarrow> cn_stored (c_keccak C) m s (durable (ar_file x))) \<and>
     (\<exists>t. cn_extends (ar_own x) t \<and> cn_replayed C m t \<and> cn_stored (c_keccak C) m t (durable (ar_file x)))"
proof -
  note ok = archive_reached_ok [OF assms(1-3)]
  then have rep: "cn_replayed C m s" by (simp add: archive_ok_def Let_def s_def)
  from cn_replayed_anchor [OF rep] obtain rs where rs: "ns_blocks s = anchor_record (c_keccak C) m # rs"
    and r: "replay C (mf_initial m) (map (body_of m) rs) = Some (ns_state s)" by blast
  have wf: "bm_wf (ts_accounts (mf_initial m))" using assms(2) by (simp add: manifest_ok_def)
  from rep have "length (ns_blocks s) \<le> 2 ^ 64" "\<forall>i < length (ns_blocks s). tp_revision (cm_tip (ns_blocks s ! i)) = of_nat i" by (auto simp: cn_replayed_def)
  then have rev: "\<forall>i < length (ns_blocks s). unat (tp_revision (cm_tip (ns_blocks s ! i))) = i" by (auto intro!: unat_of_nat_small)
  have rd: "cn_is_ready (ar_own x) \<longrightarrow> cn_stored (c_keccak C) m s (durable (ar_file x))"
    and ex: "\<exists>t. cn_extends (ar_own x) t \<and> cn_replayed C m t \<and> cn_stored (c_keccak C) m t (durable (ar_file x))"
    using ok by (auto simp: archive_ok_def Let_def cn_extends_def cn_is_ready_def s_def)
  show ?thesis
    using cn_replayed_linked [OF rep] rev cn_replayed_facts(2) [OF rep assms(2)] replay_conserves [OF r wf] cn_replayed_indexed [OF rep] rd ex
    by (intro exI [of _ rs] conjI allI impI rs r) simp_all
qed

theorem canonical_runs_safe_witness:
  "\<exists>m x. manifest_ok archive_crypto m \<and> archive_reached archive_crypto (cn_mem True) m x \<and> ar_staged x \<noteq> {} \<and>
     cn_indexed (co_snapshot (ar_own x)) \<and> cn_stored (c_keccak archive_crypto) m (co_snapshot (ar_own x)) (nm_durable (ar_file x))"
proof -
  obtain m x p g st where x: "manifest_ok archive_crypto m" "archive_reached archive_crypto (cn_mem True) m x" "st \<in> ar_staged x" "\<not> co_poisoned (ar_own x)"
    by (rule demo_archive)
  from canonical_runs_safe [OF cm.canonical_engine_axioms x(1,2)] x show ?thesis by (auto simp: cn_is_ready_def)
qed

text \<open>C20. A commit is atomic whatever fails. \<open>Committed\<close>: exactly the staged block was appended, in the file and in memory. \<open>Aborted\<close>: the
  file is as before and so is the owner, except that one that found the file changed behind its back is blocked. \<open>RecoveryRequired\<close>: the file holds the
  old archive or the old one with this block, and the owner, its memory unchanged, refuses to give a snapshot, to prepare, to receive and to
  commit until it is recovered.\<close>

theorem canonical_commit_atomic:
  assumes "canonical_engine D content durable" "manifest_ok C m" "archive_reached C D m x" "st \<in> ar_staged x"
    and "commit_inner C D (ar_own x) st (ar_file x) = (out, ow', w')"
  defines "r \<equiv> pn_record (sx_prepared st)"
  shows "case out of
       Cn_committed tp outcome \<Rightarrow> cn_is_ready (ar_own x) \<and> tp = cm_tip r \<and> outcome = cm_outcome r \<and>
         (\<exists>s'. ow' = (ar_own x)\<lparr>co_snapshot := s'\<rparr> \<and> ns_blocks s' = ns_blocks (co_snapshot (ar_own x)) @ [r] \<and>
            ns_state s' = pn_candidate (sx_prepared st) \<and> ns_tip s' = tp \<and> cn_stored (c_keccak C) m s' (durable w'))
     | Cn_aborted e \<Rightarrow> durable w' = durable (ar_file x) \<and> (ow' = ar_own x \<or> e = CStale \<and> ow' = (ar_own x)\<lparr>co_poisoned := True\<rparr>)
     | Cn_recovery_required e \<Rightarrow>
         (durable w' = durable (ar_file x) \<or>
          (\<exists>t. cn_replayed C m t \<and> cn_stored (c_keccak C) m t (durable w') \<and> ns_blocks t = ns_blocks (co_snapshot (ar_own x)) @ [r])) \<and>
         co_snapshot ow' = co_snapshot (ar_own x) \<and> cn_snapshot_of ow' = Inl CBlocked \<and>
         (\<forall>proposer ticket body. cn_prepare_next C ow' proposer ticket body = Inl CBlocked) \<and> (\<forall>bs g. cn_stage_received C ow' bs g = Inl CBlocked) \<and>
         (\<forall>st' w. commit_inner C D ow' st' w = (Cn_aborted CBlocked, ow', w))"
  using canonical_engine.cn_commit_keeps(2) [OF assms(1) archive_reached_ok [OF assms(1-3)] assms(4,5)]
  by (cases out) (auto simp: cn_commit_post_def cn_is_ready_def cn_snapshot_of_def cn_prepare_next_def cn_stage_received_def commit_inner_def cn_ready_def Let_def r_def)

theorem canonical_commit_atomic_witness:
  "\<exists>m x st w' s'. archive_reached archive_crypto (cn_mem False) m x \<and> st \<in> ar_staged x \<and> nb_transactions (cm_block (pn_record (sx_prepared st))) = demo_body \<and>
     commit_inner archive_crypto (cn_mem False) (ar_own x) st (ar_file x) =
       (Cn_committed (cm_tip (pn_record (sx_prepared st))) (cm_outcome (pn_record (sx_prepared st))), (ar_own x)\<lparr>co_snapshot := s'\<rparr>, w') \<and>
     ns_blocks s' = [anchor_record (c_keccak archive_crypto) m, pn_record (sx_prepared st)] \<and> cn_stored (c_keccak archive_crypto) m s' (nm_durable w')"
proof -
  obtain m x p g st where x: "manifest_ok archive_crypto m" "manifest_widths m" "archive_reached archive_crypto (cn_mem False) m x"
    "cn_prepare_next archive_crypto (ar_own x) [65] 1 demo_body = Inr p" "authorize (c_keccak archive_crypto) p g = Inr st" "st \<in> ar_staged x"
    "ns_blocks (co_snapshot (ar_own x)) = [anchor_record (c_keccak archive_crypto) m]"
    "map_of (ns_hashes (co_snapshot (ar_own x))) (tp_hash (cm_tip (pn_record p))) = None" by (rule demo_archive)
  note ok = archive_reached_ok [OF cm.canonical_engine_axioms [of False] x(1,3)]
  from cn_prepared_admitted [OF ok x(4) _ x(5,8)] obtain s' where ad: "cn_admitted archive_crypto (ar_own x) st s'" "\<not> co_poisoned (ar_own x)" "sx_prepared st = p" by auto
  from cmr.ch_commit_succeeds [OF ok ad(2) x(2,6) ad(1)] obtain w' where
    c: "commit_inner archive_crypto (cn_mem False) (ar_own x) st (ar_file x) =
       (Cn_committed (cm_tip (pn_record (sx_prepared st))) (cm_outcome (pn_record (sx_prepared st))), (ar_own x)\<lparr>co_snapshot := s'\<rparr>, w')" by blast
  have tx: "nb_transactions (cm_block (pn_record (sx_prepared st))) = demo_body" using cn_prepared_body [OF x(4)] ad(3) by simp
  from canonical_commit_atomic [OF cm.canonical_engine_axioms [of False] x(1,3,6) c] obtain s1 where
    "(ar_own x)\<lparr>co_snapshot := s'\<rparr> = (ar_own x)\<lparr>co_snapshot := s1\<rparr>" "ns_blocks s1 = [anchor_record (c_keccak archive_crypto) m, pn_record (sx_prepared st)]"
    "cn_stored (c_keccak archive_crypto) m s1 (nm_durable w')" by (auto simp: x(7))
  with x(3,6) c tx show ?thesis by (intro exI [of _ m] exI [of _ x] exI [of _ st] exI [of _ w'] exI [of _ s1]) simp
qed

text \<open>C22. A recovery that succeeds makes the owner ready on the snapshot that the file stores, and tells the truth about an interrupted commit:
  \<open>Some(true)\<close> when the attempted block, exactly, is the archive's new last block, \<open>Some(false)\<close> when the archive is as before. One that
  fails leaves the owner blocked with its memory, and the file's archive untouched.\<close>

theorem canonical_recovery_exact:
  assumes "canonical_engine D content durable" "manifest_ok C m" "archive_reached C D m x"
    and "cn_recover C D (ar_own x) (ar_counter x) (ar_file x) = (r, ow', counter', w')"
  defines "s \<equiv> co_snapshot (ar_own x)"
  shows "case r of
     Inl e \<Rightarrow> \<not> cn_is_ready ow' \<and> co_snapshot ow' = s \<and>
       (\<exists>t. cn_extends (ar_own x) t \<and> cn_stored (c_keccak C) m t (durable (ar_file x)) \<and> cn_stored (c_keccak C) m t (durable w'))
   | Inr report \<Rightarrow> cn_is_ready ow' \<and> co_attempted ow' = None \<and> cr_tip report = ns_tip (co_snapshot ow') \<and>
       cn_stored (c_keccak C) m (co_snapshot ow') (durable (ar_file x)) \<and> cn_stored (c_keccak C) m (co_snapshot ow') (durable w') \<and>
       (case cr_attempted_present report of
          None \<Rightarrow> co_attempted (ar_own x) = None \<and> co_snapshot ow' = s
        | Some present \<Rightarrow> (\<exists>a. co_attempted (ar_own x) = Some a \<and>
            (if present then ns_blocks (co_snapshot ow') = ns_blocks s @ [ca_record a] else co_snapshot ow' = s)))"
proof -
  let ?ow = "ar_own x"
  from archive_reached_ok [OF assms(1-3)] obtain t where m: "co_manifest ?ow = m" "cn_replayed C m s"
    and t: "cn_replayed C m t" "cn_stored (c_keccak C) m t (durable (ar_file x))" "cn_extends ?ow t"
    and att: "\<And>a. co_attempted ?ow = Some a \<Longrightarrow> ca_base a = ns_tip s \<and> unat (tp_revision (cm_tip (ca_record a))) = length (ns_blocks s)"
    by (auto simp: archive_ok_def Let_def s_def)
  note rs = canonical_engine.cn_recover_sound [OF assms(1) assms(4), unfolded m(1), OF t(2,1) assms(2)]
  note rc = cn_reconcile_exact [OF m(2) [unfolded s_def] assms(2) t(3) att [unfolded s_def]]
  show ?thesis
  proof (cases r)
    case (Inl e)
    with rs(1,2) t show ?thesis by (auto simp: cn_is_ready_def s_def)
  next
    case (Inr report)
    note q = rs(3) [OF Inr]
    then have "cr_attempted_present report = map_option (\<lambda>a. ns_blocks t = ns_blocks s @ [ca_record a]) (co_attempted ?ow)" using rc by (simp add: s_def)
    moreover have "co_snapshot ow' = t" "\<not> co_poisoned ow'" "co_attempted ow' = None" "cr_tip report = ns_tip t" using q by simp_all
    ultimately show ?thesis using Inr t rs(1) by (cases "co_attempted ?ow") (auto simp: cn_is_ready_def cn_extends_def s_def)
  qed
qed


theorem canonical_recovery_exact_witness:
  "\<exists>m x report ow' counter' w'. archive_reached archive_crypto (cn_mem False) m x \<and>
     cn_recover archive_crypto (cn_mem False) (ar_own x) (ar_counter x) (ar_file x) = (Inr report, ow', counter', w') \<and>
     cn_is_ready ow' \<and> cn_stored (c_keccak archive_crypto) m (co_snapshot ow') (nm_durable w')"
proof -
  obtain m x p g st where x: "manifest_ok archive_crypto m" "manifest_widths m" "archive_reached archive_crypto (cn_mem False) m x" "ar_counter x = 8"
    "nm_durable (ar_file x) = cn_initial_db (c_keccak archive_crypto) m" by (rule demo_archive)
  note e = cm.canonical_engine_axioms [of False]
  obtain report ow' counter' w' where r: "cn_recover archive_crypto (cn_mem False) (ar_own x) (ar_counter x) (ar_file x) = (Inr report, ow', counter', w')"
    using cmr.ch_recover [OF archive_reached_ok [OF e x(1,3)] x(2)] x(4,5) by (auto simp: cn_initial_db_def cn_metadata_row_def Let_def)
  from canonical_recovery_exact [OF e x(1,3) r] have "cn_is_ready ow'" "cn_stored (c_keccak archive_crypto) m (co_snapshot ow') (nm_durable w')" by auto
  with r x(3) show ?thesis by blast
qed

text \<open>C21. Relay. On files whose calls succeed, with the constraints of the schema enforced: when a producer prepares a block and an admission grant authorizes it,
  and a receiver with the same manifest holds the same archive, then the receiver stages the block from its wire bytes, both commit it,
  and both end with the same snapshot, the old archive with this block. The block's hash must not be that of a block already in the archive.\<close>

theorem canonical_relay:
  assumes "canonical_healthy D content durable" "canonical_healthy D' content' durable'" "manifest_ok C m" "manifest_widths m"
    and "archive_reached C D m x" "archive_reached C D' m y" "co_snapshot (ar_own y) = co_snapshot (ar_own x)" "cn_is_ready (ar_own y)"
    and "utf8_valid proposer" "cn_prepare_next C (ar_own x) proposer ticket body = Inr p" "authorize (c_keccak C) p g = Inr st"
    and "nb_hash (c_keccak C) (cm_block (pn_record p)) \<notin> (\<lambda>r. nb_hash (c_keccak C) (cm_block r)) ` set (ns_blocks (co_snapshot (ar_own x)))"
  shows "\<exists>st' s' w w'. cn_stage_received C (ar_own y) (nb_wire_bytes (cm_block (pn_record p))) g = Inr st' \<and>
     commit_inner C D (ar_own x) st (ar_file x) = (Cn_committed (cm_tip (pn_record p)) (cm_outcome (pn_record p)), (ar_own x)\<lparr>co_snapshot := s'\<rparr>, w) \<and>
     commit_inner C D' (ar_own y) st' (ar_file y) = (Cn_committed (cm_tip (pn_record p)) (cm_outcome (pn_record p)), (ar_own y)\<lparr>co_snapshot := s'\<rparr>, w') \<and>
     ns_blocks s' = ns_blocks (co_snapshot (ar_own x)) @ [pn_record p] \<and> nb_transactions (cm_block (pn_record p)) = body \<and>
     ns_state s' = pn_candidate p"
proof -
  let ?K = "c_keccak C" and ?r = "pn_record p" and ?s = "co_snapshot (ar_own x)"
  let ?st' = "\<lparr>sx_prepared = p\<lparr>pn_base := (pn_base p)\<lparr>cnb_generation := co_generation (ar_own y)\<rparr>\<rparr>, sx_grant = g\<rparr>"
  have e: "canonical_engine D content durable" "canonical_engine D' content' durable'" using assms(1,2) by (simp_all add: canonical_healthy_def)
  let ?x = "x\<lparr>ar_prepared := insert p (ar_prepared x)\<rparr>\<lparr>ar_staged := insert st (ar_staged x)\<rparr>"
  have "archive_reached C D m ?x"
    by (rule archive_reached_step [OF archive_reached_step [OF assms(5) ar_prepare [OF assms(9,10)]]]) (use ar_authorize [of p "x\<lparr>ar_prepared := insert p (ar_prepared x)\<rparr>" C g st D] assms(11) in simp)
  note okx = archive_reached_ok [OF e(1) assms(3) assms(5)] archive_reached_ok [OF e(1) assms(3) this] and oky = archive_reached_ok [OF e(2) assms(3) assms(6)]
  from okx oky have m: "co_manifest (ar_own x) = m" "co_manifest (ar_own y) = m" and rep: "cn_replayed C m ?s" by (auto simp: archive_ok_def Let_def)
  have fresh: "map_of (ns_hashes ?s) (tp_hash (cm_tip ?r)) = None" by (rule cn_hash_fresh [OF rep assms(12,10)])
  from cn_prepared_admitted [OF okx(1) assms(10,9,11) fresh] obtain s' where ad: "cn_admitted C (ar_own x) st s'" "\<not> co_poisoned (ar_own x)" "sx_prepared st = p"
    and s': "insert_record ?r (?s\<lparr>ns_state := pn_candidate p\<rparr>) = Inr s'" by blast
  note pr = cn_prepared_received [OF assms(10,9), unfolded m(1), OF assms(3) rep assms(11) m(2) assms(7) _ fresh]
  have rc: "cn_stage_received C (ar_own y) (nb_wire_bytes (cm_block ?r)) g = Inr ?st'" using pr(1) assms(8) by (simp add: cn_is_ready_def)
  let ?y = "y\<lparr>ar_staged := insert ?st' (ar_staged y)\<rparr>"
  note oky' = archive_reached_ok [OF e(2) assms(3) archive_reached_step [OF assms(6) ar_receive [OF rc]]]
  have "check_append ?K (ar_own y) (cm_block ?r) (Some g) = Inr ()"
    using pr(2) assms(7,8) m by (simp add: cn_is_ready_def check_append_def)
  then have "cn_admitted C (ar_own y) ?st' s'" using pr(4) s' assms(7,8) m by (simp add: cn_is_ready_def cn_admitted_def cn_stale_def cn_base_of_def)
  from canonical_healthy.ch_commit_succeeds [OF assms(2) oky' _ assms(4), of ?st' s'] this assms(8) obtain w' where
    cy: "commit_inner C D' (ar_own y) ?st' (ar_file y) = (Cn_committed (cm_tip ?r) (cm_outcome ?r), (ar_own y)\<lparr>co_snapshot := s'\<rparr>, w')" by (auto simp: cn_is_ready_def)
  from canonical_healthy.ch_commit_succeeds [OF assms(1) okx(2) _ assms(4), of st s'] ad obtain w where
    cx: "commit_inner C D (ar_own x) st (ar_file x) = (Cn_committed (cm_tip ?r) (cm_outcome ?r), (ar_own x)\<lparr>co_snapshot := s'\<rparr>, w)" by auto
  show ?thesis using rc cx cy insert_record_Inr [OF s'] cn_prepared_body [OF assms(10)] by auto
qed

theorem canonical_relay_witness:
  "\<exists>m x p g st st' s' w w'. archive_reached archive_crypto (cn_mem False) m x \<and> cn_prepare_next archive_crypto (ar_own x) [65] 1 demo_body = Inr p \<and>
     cn_stage_received archive_crypto (ar_own x) (nb_wire_bytes (cm_block (pn_record p))) g = Inr st' \<and>
     commit_inner archive_crypto (cn_mem False) (ar_own x) st (ar_file x) = (Cn_committed (cm_tip (pn_record p)) (cm_outcome (pn_record p)), (ar_own x)\<lparr>co_snapshot := s'\<rparr>, w) \<and>
     commit_inner archive_crypto (cn_mem False) (ar_own x) st' (ar_file x) = (Cn_committed (cm_tip (pn_record p)) (cm_outcome (pn_record p)), (ar_own x)\<lparr>co_snapshot := s'\<rparr>, w') \<and>
     ns_blocks s' = [anchor_record (c_keccak archive_crypto) m, pn_record p]"
proof -
  obtain m x p g st where x: "manifest_ok archive_crypto m" "manifest_widths m" "archive_reached archive_crypto (cn_mem False) m x"
    "cn_prepare_next archive_crypto (ar_own x) [65] 1 demo_body = Inr p" "authorize (c_keccak archive_crypto) p g = Inr st"
    "ns_blocks (co_snapshot (ar_own x)) = [anchor_record (c_keccak archive_crypto) m]" "\<not> co_poisoned (ar_own x)"
    "nb_hash (c_keccak archive_crypto) (cm_block (pn_record p)) \<noteq> nb_hash (c_keccak archive_crypto) (mf_anchor m)" by (rule demo_archive)
  have "utf8_valid [65]" by simp
  from canonical_relay [OF cmr.canonical_healthy_axioms cmr.canonical_healthy_axioms x(1,2,3,3) refl _ this x(4,5)] x(6,7,8) obtain st' s' w w' where
    "cn_stage_received archive_crypto (ar_own x) (nb_wire_bytes (cm_block (pn_record p))) g = Inr st'"
    "commit_inner archive_crypto (cn_mem False) (ar_own x) st (ar_file x) = (Cn_committed (cm_tip (pn_record p)) (cm_outcome (pn_record p)), (ar_own x)\<lparr>co_snapshot := s'\<rparr>, w)"
    "commit_inner archive_crypto (cn_mem False) (ar_own x) st' (ar_file x) = (Cn_committed (cm_tip (pn_record p)) (cm_outcome (pn_record p)), (ar_own x)\<lparr>co_snapshot := s'\<rparr>, w')"
    "ns_blocks s' = [anchor_record (c_keccak archive_crypto) m, pn_record p]" by (auto simp: cn_is_ready_def anchor_record_def)
  with x(3,4) show ?thesis by blast
qed


text \<open>C23. Recovery succeeds. On a file that can be reopened and whose calls succeed, every owner, ready or blocked, recovers, and the file opens in a new process
  under either cache policy, as long as the generation and barrier counters are not exhausted. The owner is then ready and the
  file stores its snapshot, which is the old one or the old one with the attempted block.\<close>

theorem canonical_recovers:
  assumes "canonical_recoverable D content durable" "manifest_ok C m" "manifest_widths m" "archive_reached C D m x"
    and "ar_counter x \<noteq> - 1" "counter \<noteq> - 1" "cd_tables (durable (ar_file x)) Fx_metadata ! 0 ! 11 \<noteq> Blob (be_bytes (- 1 :: u64))"
  shows "(\<exists>report ow' counter' w'. cn_recover C D (ar_own x) (ar_counter x) (ar_file x) = (Inr report, ow', counter', w') \<and>
        cn_is_ready ow' \<and> cn_extends (ar_own x) (co_snapshot ow') \<and> cn_stored (c_keccak C) m (co_snapshot ow') (durable w')) \<and>
     (\<exists>ow' counter' w'. reopen_with_cache_policy C D m policy counter (dk_close D (ar_file x)) = (Inr ow', counter', w') \<and>
        cn_is_ready ow' \<and> cn_extends (ar_own x) (co_snapshot ow') \<and> cn_stored (c_keccak C) m (co_snapshot ow') (durable w'))"
proof -
  have e: "canonical_engine D content durable" using assms(1) by (simp add: canonical_recoverable_def canonical_healthy_def)
  note ok = archive_reached_ok [OF e assms(2,4)]
  from ok obtain t where m: "co_manifest (ar_own x) = m" and t: "cn_replayed C m t" "cn_stored (c_keccak C) m t (durable (ar_file x))" "cn_extends (ar_own x) t"
    by (auto simp: archive_ok_def Let_def)
  obtain report ow' c' w' where r: "cn_recover C D (ar_own x) (ar_counter x) (ar_file x) = (Inr report, ow', c', w')"
    using canonical_recoverable.ch_recover [OF assms(1) ok assms(3,5,7)] by blast
  note rs = canonical_engine.cn_recover_sound [OF e r, unfolded m, OF t(2,1) assms(2)]
  have "cn_is_ready ow'" "co_snapshot ow' = t" using rs(3) [OF refl] by (simp_all add: cn_is_ready_def)
  moreover obtain ow1 c1 w1 where l: "load_with_cache C D m policy counter (dk_close D (ar_file x)) = (Inr ow1, c1, w1)"
    using canonical_recoverable.ch_reopen [OF assms(1) ok assms(3,6,7)] by blast
  have "cn_stored (c_keccak C) m t (durable (dk_close D (ar_file x)))" using t(2) canonical_engine.cn_close_effect [OF e] by simp
  from canonical_engine.cn_load_sound [OF e l this t(1) assms(2)] have "cn_is_ready ow1" "co_snapshot ow1 = t" "cn_stored (c_keccak C) m t (durable w1)"
    by (simp_all add: cn_is_ready_def)
  ultimately show ?thesis using r l rs(1) t(3) by (auto simp: reopen_with_cache_policy_def)
qed

theorem canonical_recovers_witness:
  "\<exists>m x ow' counter' w'. archive_reached archive_crypto (cn_mem False) m x \<and>
     reopen_with_cache_policy archive_crypto (cn_mem False) m Trial32MiB 3 (dk_close (cn_mem False) (ar_file x)) = (Inr ow', counter', w') \<and> cn_is_ready ow' \<and>
     cn_stored (c_keccak archive_crypto) m (co_snapshot ow') (nm_durable w')"
proof -
  obtain m x p g st where x: "manifest_ok archive_crypto m" "manifest_widths m" "archive_reached archive_crypto (cn_mem False) m x" "ar_counter x = 8"
    "nm_durable (ar_file x) = cn_initial_db (c_keccak archive_crypto) m" by (rule demo_archive)
  have "ar_counter x \<noteq> - 1" "(3 :: u64) \<noteq> - 1" "cd_tables (nm_durable (ar_file x)) Fx_metadata ! 0 ! 11 \<noteq> Blob (be_bytes (- 1 :: u64))"
    using x(4,5) by (simp_all add: cn_initial_db_def cn_metadata_row_def Let_def)
  from canonical_recovers [OF cmr.canonical_recoverable_axioms x(1-3) this, of Trial32MiB] x(3) show ?thesis by blast
qed

end
