(* ===== verification/Node_Models.thy ===== *)
theory Node_Models
  imports Block_Commitment
begin

text \<open>
  \<open>src/src/models.rs\<close>: the data of the prototype node, with the constants of \<open>src/src/app/mod.rs\<close>. Rust
  strings are their UTF-8 bytes; a hash map is a list sorted by its keys, whose order nothing modelled depends on.
  Wall-clock fields (\<open>slot_started\<close>, \<open>anchor_time\<close>), the socket addresses of peers and the
  percentage shown by the dashboard are left out. A diagnostic event is a value of \<open>event\<close> instead of its text.
\<close>

section \<open>Constants\<close>

definition SLOT_MS :: u64 where "SLOT_MS = 3000"
definition SUB_EPOCH_SLOTS :: u64 where "SUB_EPOCH_SLOTS = 1200"
definition EPOCH_SUB_EPOCHS :: u64 where "EPOCH_SUB_EPOCHS = 24"
definition TOKEN_ETX_ID :: u64 where "TOKEN_ETX_ID = 0"
definition TICKET_COST_QUARKS :: u128 where "TICKET_COST_QUARKS = 10000000000000"
definition INITIAL_VALIDATOR_VAULT_QUARKS :: u128 where "INITIAL_VALIDATOR_VAULT_QUARKS = 500000000000000"
definition INFLATION_RATE_DENOMINATOR :: u128 where "INFLATION_RATE_DENOMINATOR = 1000000000"
definition EPOCHS_PER_YEAR :: u64 where "EPOCHS_PER_YEAR = 365"
definition SLOTS_PER_YEAR :: u128 where "SLOTS_PER_YEAR = 365 * 24 * 60 * 60 div 3"
definition REWARD_UNLOCK_DELAY_EPOCHS :: u64 where "REWARD_UNLOCK_DELAY_EPOCHS = 4"
definition PBM_VALID_AFTER_SLOTS :: u64 where "PBM_VALID_AFTER_SLOTS = 20"
definition PBM_PENDING_PER_ACCOUNT_LIMIT :: nat where "PBM_PENDING_PER_ACCOUNT_LIMIT = 3"

section \<open>Transactions and blocks\<close>

datatype tx_kind =
  Transfer | Contract | System | Pbm | RegisterValidator | BuyTicket | WalletToVault | VaultToWallet | BurnTicket

record tx =
  tx_chain_id :: u64
  tx_from :: text_bytes
  tx_nonce :: u64
  tx_to :: text_bytes
  tx_token_id :: u64
  tx_value :: u128
  tx_gas :: u64
  tx_fee_quarks :: u64
  tx_max_fee_per_gas :: u64
  tx_kind_of :: tx_kind
  tx_valid_after_slot :: u64
  tx_fee_token_id :: u64
  tx_data :: text_bytes
  tx_signature_hex :: text_bytes

record block =
  bk_header :: block_header
  bk_proposer :: "text_bytes option"
  bk_transactions :: "tx list"
  bk_protocol_data :: protocol_data

section \<open>Validators, tickets and accounts\<close>

datatype validator_state = Active | PausedLowVault | PunishedCooldown | Inactive | Jailed

record node_validator =
  nv_id :: text_bytes
  nv_owner_account :: "text_bytes option"
  nv_validator_pubkey :: "text_bytes option"
  nv_reward_address :: "text_bytes option"
  nv_state :: validator_state
  nv_vault_quarks :: u128
  nv_locked_reward_quarks :: u128
  nv_miss_counter :: u32
  nv_double_sign_offenses :: u32
  nv_blocks_this_sub_epoch :: u32
  nv_cooldown_until_epoch :: "u64 option"

record node_ticket =
  nt_id :: u64
  nt_owner :: text_bytes
  nt_bucket :: u8
  nt_muted :: bool
  nt_dead :: bool
  nt_retiring :: bool
  nt_retire_requested_epoch :: "u64 option"
  nt_retire_effective_epoch :: "u64 option"

record node_account =
  na_id :: text_bytes
  na_private_key_hex :: text_bytes
  na_public_key_hex :: text_bytes
  na_address :: text_bytes
  na_nonce :: u64
  na_balances :: "(u64 \<times> u128) list"

record raw_tx_record =
  rx_hash :: hash
  rx_raw :: text_bytes
  rx_from :: text_bytes
  rx_to :: "text_bytes option"
  rx_nonce :: u64
  rx_gas :: u64
  rx_input :: text_bytes
  rx_value :: u128
  rx_fee_quarks :: u64
  rx_chain_id :: u64
  rx_tx_type :: text_bytes
  rx_v :: text_bytes
  rx_r :: text_bytes
  rx_s :: text_bytes
  rx_block_number :: "u64 option"
  rx_block_hash :: "hash option"
  rx_tx_index :: "u64 option"
  rx_success :: "bool option"

section \<open>The protocol state\<close>

datatype mode = Normal | Pbm_mode
datatype exec_status = Idle | Executing | Posted | Missed
datatype node_mode = Standard | Validator_node

datatype event =
    Ev_started
  | Ev_remote_rejected u64
  | Ev_deferred u64
  | Ev_rejected u64 string
  | Ev_discarded u64 string
  | Ev_pbm_deactivated
  | Ev_sub_epoch u64
  | Ev_epoch u64
  | Ev_block_rejected hash
  | Ev_corrected u64 block_kind
  | Ev_ingress_rejected string
  | Ev_discovered text_bytes
  | Ev_bootstrapped u64
  | Ev_retire string
  | Ev_faucet text_bytes u128

record protocol_state =
  ps_slot :: u64
  ps_validators :: "node_validator list"
  ps_tickets :: "node_ticket list"
  ps_mempool :: "tx list"
  ps_pbm_pool :: "tx list"
  ps_history :: "block list"
  ps_events :: "event list"
  ps_burn_this_sub_epoch :: u128
  ps_fees_burned_total :: u128
  ps_ticket_burned_total :: u128
  ps_base_issuance_total :: u128
  ps_burn_offset_total :: u128
  ps_sub_epoch_issued_quarks :: u128
  ps_sub_epoch_burned_quarks :: u128
  ps_epoch_issued_quarks :: u128
  ps_epoch_burned_quarks :: u128
  ps_annual_inflation_ppb :: u64
  ps_base_reward_per_block_quarks :: u128
  ps_burn_offset_k_permille :: u64
  ps_epoch_validator_blocks :: u64
  ps_epoch_total_slots :: u64
  ps_mode :: mode
  ps_current_leader :: text_bytes
  ps_current_ticket_id :: u64
  ps_exec_status :: exec_status
  ps_current_result :: "block option"
  ps_nonce_tracker :: "(text_bytes \<times> u64) list"
  ps_mode_local :: node_mode
  ps_local_validator_id :: "text_bytes option"
  ps_local_validator_bootstrap :: bool
  ps_accounts :: "(text_bytes \<times> node_account) list"
  ps_wallet_addresses :: "text_bytes list"
  ps_bootstrapped_from_peer :: bool
  ps_remote_slot_results :: "(u64 \<times> block) list"
  ps_history_synced :: bool
  ps_liveness_epoch :: u64
  ps_liveness_counted_slots :: "u64 set"
  ps_liveness_total_slots :: u64
  ps_liveness_validator_slots :: u64
  ps_epoch_index :: u64
  ps_sub_epoch_index :: u64
  ps_epoch_seed :: hash
  ps_blocks_this_sub_epoch :: "text_bytes option list"
  ps_retire_finalize :: "(u64 \<times> u64 list) list"
  ps_reward_unlocks :: "(u64 \<times> (text_bytes \<times> u128) list) list"
  ps_raw_txs :: "(hash \<times> raw_tx_record) list"
  ps_blocks :: "(u64 \<times> block) list"
  ps_block_hash_to_number :: "(hash \<times> u64) list"

end
