(* ===== verification/Consensus_Hash.thy ===== *)
theory Consensus_Hash
  imports Node_Models
begin

text \<open>
  \<open>src/src/consensus_hash.rs\<close>: canonical transaction bytes, block commitments and the wire format of the
  prototype node. The crates \<open>hex\<close> and \<open>serde_json\<close> are the parameter \<open>X\<close>, Keccak-256 the parameter \<open>K\<close>.
\<close>

section \<open>Text crates\<close>

text \<open>\<open>tc_json\<close> is \<open>serde_json::from_str\<close> followed by \<open>get\<close> and \<open>as_str\<close> on the members; \<open>tc_json_object\<close> prints an
  object of string members.\<close>

record text_crates =
  tc_hex_encode :: "bytes \<Rightarrow> text_bytes"
  tc_hex_decode :: "text_bytes \<Rightarrow> bytes option"
  tc_json :: "text_bytes \<Rightarrow> (text_bytes \<Rightarrow> text_bytes option) option"
  tc_json_object :: "(text_bytes \<times> text_bytes) list \<Rightarrow> text_bytes"

text \<open>What the crates document: both printers are undone by their parsers and print UTF-8.\<close>

definition crates_ok :: "text_crates \<Rightarrow> bool" where
  "crates_ok X \<longleftrightarrow> (\<forall>b. tc_hex_decode X (tc_hex_encode X b) = Some b \<and> utf8_valid (tc_hex_encode X b)) \<and>
     (\<forall>ms. distinct (map fst ms) \<longrightarrow> (\<forall>(k, v) \<in> set ms. utf8_valid k \<and> utf8_valid v) \<longrightarrow>
        tc_json X (tc_json_object X ms) = Some (map_of ms) \<and> utf8_valid (tc_json_object X ms)) \<and>
     (\<forall>t f k v. tc_json X t = Some f \<longrightarrow> f k = Some v \<longrightarrow> utf8_valid v)"

section \<open>Constants\<close>

definition PROTOCOL_VERSION :: u32 where "PROTOCOL_VERSION = 1"
definition CHAIN_ID :: u64 where "CHAIN_ID = 1162"
definition ZERO_HASH :: hash where "ZERO_HASH = replicate 32 0"
definition ZERO_PROPOSER_ID :: hash where "ZERO_PROPOSER_ID = replicate 32 0"
definition ZERO_TICKET_ID :: u64 where "ZERO_TICKET_ID = 0"
definition MAX_BLOCK_TRANSACTIONS :: nat where "MAX_BLOCK_TRANSACTIONS = 3000"
definition MAX_BLOCK_GAS :: u64 where "MAX_BLOCK_GAS = 16000000"
definition TX_DOMAIN :: bytes where "TX_DOMAIN = str ''ETERNIX_TX_V1''"
definition GENESIS_DOMAIN :: bytes where "GENESIS_DOMAIN = str ''ETERNIX_GENESIS_V1''"
definition LEGACY_TICKET_ID_DOMAIN :: bytes where "LEGACY_TICKET_ID_DOMAIN = str ''ETERNIX_LEGACY_TICKET_ID_V1''"
definition EPOCH_SEED_DOMAIN :: bytes where "EPOCH_SEED_DOMAIN = str ''ETERNIX_EPOCH_SEED_V1''"
definition TX_ENCODING_VERSION :: u8 where "TX_ENCODING_VERSION = 1"
definition BLOCK_WIRE_VERSION :: u8 where "BLOCK_WIRE_VERSION = 1"

definition GENESIS_HASH :: "hasher \<Rightarrow> hash" where
  "GENESIS_HASH K = keccak256 K (GENESIS_DOMAIN @ be_bytes PROTOCOL_VERSION @ be_bytes CHAIN_ID)"

fun tx_kind_code :: "tx_kind \<Rightarrow> u8" where
  "tx_kind_code Transfer = 0x00"
| "tx_kind_code Contract = 0x01"
| "tx_kind_code System = 0x02"
| "tx_kind_code Pbm = 0x03"
| "tx_kind_code RegisterValidator = 0x10"
| "tx_kind_code BuyTicket = 0x11"
| "tx_kind_code WalletToVault = 0x12"
| "tx_kind_code VaultToWallet = 0x13"
| "tx_kind_code BurnTicket = 0x14"

definition tx_kind_from_code :: "u8 \<Rightarrow> tx_kind option" where
  "tx_kind_from_code c =
     (if c = 0x00 then Some Transfer else if c = 0x01 then Some Contract else if c = 0x02 then Some System
      else if c = 0x03 then Some Pbm else if c = 0x10 then Some RegisterValidator else if c = 0x11 then Some BuyTicket
      else if c = 0x12 then Some WalletToVault else if c = 0x13 then Some VaultToWallet
      else if c = 0x14 then Some BurnTicket else None)"

section \<open>Fields\<close>

definition strip_prefix :: "text_bytes \<Rightarrow> text_bytes \<Rightarrow> text_bytes option" where
  "strip_prefix p s = (if take (length p) s = p then Some (drop (length p) s) else None)"

definition registration_fields :: "text_crates \<Rightarrow> text_bytes \<Rightarrow> (text_bytes \<times> text_bytes) option" where
  "registration_fields X data = do {
     value \<leftarrow> tc_json X data;
     key \<leftarrow> value (str ''validator_pubkey'');
     reward \<leftarrow> value (str ''reward_address'');
     Some (key, reward) }"

definition registration_text :: "text_crates \<Rightarrow> text_bytes \<Rightarrow> text_bytes \<Rightarrow> text_bytes" where
  "registration_text X key reward = tc_json_object X [(str ''validator_pubkey'', key), (str ''reward_address'', reward)]"

definition decode_hex_bytes :: "text_crates \<Rightarrow> text_bytes \<Rightarrow> bytes option" where
  "decode_hex_bytes X value =
     (if value = [] then Some []
      else tc_hex_decode X (case strip_prefix (str ''0x'') value of Some v \<Rightarrow> v
             | None \<Rightarrow> (case strip_prefix (str ''0X'') value of Some v \<Rightarrow> v | None \<Rightarrow> value)))"

definition append_bytes :: "bytes \<Rightarrow> bytes option" where
  "append_bytes b = do { len \<leftarrow> (try_from_nat (length b) :: u32 option); Some (be_bytes len @ b) }"

definition ch_take :: "nat \<Rightarrow> cursor \<Rightarrow> (bytes \<times> cursor) option" where
  "ch_take n d = do { _ \<leftarrow> usize_checked_add (at d) n; slice_read n d }"

definition ch_u8 :: "cursor \<Rightarrow> (u8 \<times> cursor) option" where
  "ch_u8 d = do { (b, d) \<leftarrow> ch_take 1 d; Some (hd b, d) }"

definition ch_u32 :: "cursor \<Rightarrow> (u32 \<times> cursor) option" where
  "ch_u32 d = do { (b, d) \<leftarrow> ch_take 4 d; Some (be_word b, d) }"

definition ch_u64 :: "cursor \<Rightarrow> (u64 \<times> cursor) option" where
  "ch_u64 d = do { (b, d) \<leftarrow> ch_take 8 d; Some (be_word b, d) }"

definition ch_u128 :: "cursor \<Rightarrow> (u128 \<times> cursor) option" where
  "ch_u128 d = do { (b, d) \<leftarrow> ch_take 16 d; Some (be_word b, d) }"

definition ch_bytes :: "cursor \<Rightarrow> (bytes \<times> cursor) option" where
  "ch_bytes d = do { (len, d) \<leftarrow> ch_u32 d; ch_take (unat len) d }"

definition ch_string :: "cursor \<Rightarrow> (text_bytes \<times> cursor) option" where
  "ch_string d = do { (b, d) \<leftarrow> ch_bytes d; if utf8_valid b then Some (b, d) else None }"

section \<open>Transactions\<close>

definition tx_data_bytes :: "text_crates \<Rightarrow> tx \<Rightarrow> bytes option" where
  "tx_data_bytes X t =
     (if tx_kind_of t = RegisterValidator then do {
        (key, reward) \<leftarrow> registration_fields X (tx_data t);
        k \<leftarrow> append_bytes key;
        r \<leftarrow> append_bytes reward;
        Some ([1] @ k @ r) }
      else do { d \<leftarrow> append_bytes (tx_data t); Some ([0] @ d) })"

definition canonical_bytes :: "text_crates \<Rightarrow> tx \<Rightarrow> bytes option" where
  "canonical_bytes X t = do {
     from_b \<leftarrow> append_bytes (tx_from t);
     to_b \<leftarrow> append_bytes (tx_to t);
     data_b \<leftarrow> tx_data_bytes X t;
     signature \<leftarrow> decode_hex_bytes X (tx_signature_hex t);
     sig_b \<leftarrow> append_bytes signature;
     Some ([TX_ENCODING_VERSION, tx_kind_code (tx_kind_of t)] @ be_bytes (tx_chain_id t) @ from_b @ be_bytes (tx_nonce t) @
       to_b @ be_bytes (tx_token_id t) @ be_bytes (tx_value t) @ be_bytes (tx_gas t) @ be_bytes (tx_fee_quarks t) @
       be_bytes (tx_max_fee_per_gas t) @ be_bytes (tx_valid_after_slot t) @ be_bytes (tx_fee_token_id t) @ data_b @ sig_b) }"

definition ch_data :: "text_crates \<Rightarrow> tx_kind \<Rightarrow> u8 \<Rightarrow> cursor \<Rightarrow> (text_bytes \<times> cursor) option" where
  "ch_data X kind encoding d =
     (if kind = RegisterValidator then
        (if encoding = 1 then do {
           (key, d) \<leftarrow> ch_string d;
           (reward, d) \<leftarrow> ch_string d;
           Some (registration_text X key reward, d) }
         else None)
      else if encoding = 0 then ch_string d else None)"

definition signature_text :: "text_crates \<Rightarrow> bytes \<Rightarrow> text_bytes" where
  "signature_text X signature = (if signature = [] then [] else str ''0x'' @ tc_hex_encode X signature)"

definition from_canonical_bytes :: "text_crates \<Rightarrow> bytes \<Rightarrow> tx option" where
  "from_canonical_bytes X b = do {
     (version, d) \<leftarrow> ch_u8 (start_cursor b);
     if version \<noteq> TX_ENCODING_VERSION then None else do {
       (code, d) \<leftarrow> ch_u8 d;
       kind \<leftarrow> tx_kind_from_code code;
       (chain, d) \<leftarrow> ch_u64 d;
       (from, d) \<leftarrow> ch_string d;
       (nonce, d) \<leftarrow> ch_u64 d;
       (to, d) \<leftarrow> ch_string d;
       (token, d) \<leftarrow> ch_u64 d;
       (value, d) \<leftarrow> ch_u128 d;
       (gas, d) \<leftarrow> ch_u64 d;
       (fee, d) \<leftarrow> ch_u64 d;
       (max_fee, d) \<leftarrow> ch_u64 d;
       (after, d) \<leftarrow> ch_u64 d;
       (fee_token, d) \<leftarrow> ch_u64 d;
       (encoding, d) \<leftarrow> ch_u8 d;
       (data, d) \<leftarrow> ch_data X kind encoding d;
       (signature, d) \<leftarrow> ch_bytes d;
       if finished d then Some \<lparr>tx_chain_id = chain, tx_from = from, tx_nonce = nonce, tx_to = to, tx_token_id = token,
         tx_value = value, tx_gas = gas, tx_fee_quarks = fee, tx_max_fee_per_gas = max_fee, tx_kind_of = kind,
         tx_valid_after_slot = after, tx_fee_token_id = fee_token, tx_data = data,
         tx_signature_hex = signature_text X signature\<rparr>
       else None } }"

definition tx_hash :: "hasher \<Rightarrow> text_crates \<Rightarrow> tx \<Rightarrow> hash option" where
  "tx_hash K X t = do { b \<leftarrow> canonical_bytes X t; Some (hash_with_domain K TX_DOMAIN b) }"

fun collect_some :: "'a option list \<Rightarrow> 'a list option" where
  "collect_some [] = Some []"
| "collect_some (x # xs) = do { y \<leftarrow> x; ys \<leftarrow> collect_some xs; Some (y # ys) }"

definition transaction_root :: "hasher \<Rightarrow> text_crates \<Rightarrow> tx list \<Rightarrow> hash option" where
  "transaction_root K X ts = do { ids \<leftarrow> collect_some (map (tx_hash K X) ts); ordered_transaction_root K ids }"

section \<open>Blocks\<close>

fun try_sum :: "u64 \<Rightarrow> u64 list \<Rightarrow> u64 option" where
  "try_sum acc [] = Some acc"
| "try_sum acc (x # xs) = do { s \<leftarrow> checked_add acc x; try_sum s xs }"

definition block_slot :: "block \<Rightarrow> u64" where "block_slot b = bh_slot (bk_header b)"
definition block_kind_of :: "block \<Rightarrow> block_kind" where "block_kind_of b = bh_block_kind (bk_header b)"
definition block_hash :: "hasher \<Rightarrow> block \<Rightarrow> hash" where "block_hash K b = header_hash K (bk_header b)"

definition block_leader :: "block \<Rightarrow> text_bytes" where
  "block_leader b = (case bk_proposer b of Some p \<Rightarrow> p
     | None \<Rightarrow> (case pd_missed_proposer (bk_protocol_data b) of Some p \<Rightarrow> p | None \<Rightarrow> str ''protocol''))"

definition transaction_hashes :: "hasher \<Rightarrow> text_crates \<Rightarrow> block \<Rightarrow> hash list option" where
  "transaction_hashes K X b = collect_some (map (tx_hash K X) (bk_transactions b))"

definition validate_parent :: "block \<Rightarrow> hash \<Rightarrow> bool" where
  "validate_parent b parent \<longleftrightarrow> bh_parent_hash (bk_header b) = parent"

definition validate_role :: "hasher \<Rightarrow> block \<Rightarrow> bool" where
  "validate_role K b = (let h = bk_header b; missed = pd_missed_proposer (bk_protocol_data b) in
     case bh_block_kind h of
       Validator \<Rightarrow> (case bk_proposer b of None \<Rightarrow> False | Some p \<Rightarrow>
         bh_proposer_id h = proposer_id K p \<and> bh_proposer_id h \<noteq> ZERO_PROPOSER_ID \<and> bh_ticket_id h \<noteq> ZERO_TICKET_ID \<and> missed = None)
     | ProtocolMiss \<Rightarrow> bk_proposer b = None \<and> bh_proposer_id h = ZERO_PROPOSER_ID \<and> bh_ticket_id h = ZERO_TICKET_ID \<and>
         (case missed of None \<Rightarrow> False | Some i \<Rightarrow> i \<noteq> [] \<and> i \<noteq> str ''protocol'') \<and> bk_transactions b = []
     | ProtocolNoTickets \<Rightarrow> bk_proposer b = None \<and> bh_proposer_id h = ZERO_PROPOSER_ID \<and> bh_ticket_id h = ZERO_TICKET_ID \<and>
         missed = None \<and> length (bk_transactions b) \<le> 1
     | ProtocolCollision \<Rightarrow> bk_proposer b = None \<and> bh_proposer_id h = ZERO_PROPOSER_ID \<and> bh_ticket_id h = ZERO_TICKET_ID \<and>
         missed = None \<and> bk_transactions b = [])"

definition validate_commitments :: "hasher \<Rightarrow> text_crates \<Rightarrow> block \<Rightarrow> bool" where
  "validate_commitments K X b = (let h = bk_header b; ts = bk_transactions b in
     case transaction_root K X ts of None \<Rightarrow> False | Some root \<Rightarrow>
     if bh_protocol_version h \<noteq> PROTOCOL_VERSION \<or> bh_chain_id h \<noteq> CHAIN_ID \<or> bh_state_root h \<noteq> PLACEHOLDER_STATE_ROOT \<or>
        bh_receipts_root h \<noteq> EMPTY_RECEIPTS_ROOT K \<or> bh_transaction_root h \<noteq> root \<or>
        bh_protocol_data_root h \<noteq> protocol_data_root K (bk_protocol_data b) then False
     else case try_sum 0 (map tx_gas ts) of None \<Rightarrow> False | Some gas \<Rightarrow>
     case try_sum 0 (map tx_fee_quarks ts) of None \<Rightarrow> False | Some fees \<Rightarrow>
     if gas \<noteq> bh_gas_used h \<or> fees \<noteq> pd_fees_burned (bk_protocol_data b) then False
     else if length ts > MAX_BLOCK_TRANSACTIONS \<or> gas > MAX_BLOCK_GAS then False
     else if \<exists>t \<in> set ts. tx_chain_id t \<noteq> CHAIN_ID \<or> tx_valid_after_slot t > bh_slot h then False
     else validate_role K b)"

definition block_new ::
  "hasher \<Rightarrow> text_crates \<Rightarrow> u64 \<Rightarrow> block_kind \<Rightarrow> hash \<Rightarrow> text_bytes option \<Rightarrow> u64 \<Rightarrow> tx list \<Rightarrow> u64 \<Rightarrow> protocol_data \<Rightarrow> block option" where
  "block_new K X slot kind parent proposer ticket ts gas pd = do {
     root \<leftarrow> transaction_root K X ts;
     let b = \<lparr>bk_header = \<lparr>bh_protocol_version = PROTOCOL_VERSION, bh_chain_id = CHAIN_ID, bh_slot = slot, bh_block_kind = kind,
           bh_parent_hash = parent, bh_proposer_id = (case proposer of Some p \<Rightarrow> proposer_id K p | None \<Rightarrow> ZERO_PROPOSER_ID),
           bh_ticket_id = ticket, bh_transaction_root = root, bh_state_root = PLACEHOLDER_STATE_ROOT,
           bh_receipts_root = EMPTY_RECEIPTS_ROOT K, bh_gas_used = gas, bh_protocol_data_root = protocol_data_root K pd\<rparr>,
         bk_proposer = proposer, bk_transactions = ts, bk_protocol_data = pd\<rparr>;
     if validate_commitments K X b then Some b else None }"

definition wire_transactions :: "text_crates \<Rightarrow> tx list \<Rightarrow> bytes option" where
  "wire_transactions X ts = map_option concat (collect_some (map (\<lambda>t. do { b \<leftarrow> canonical_bytes X t; append_bytes b }) ts))"

definition wire_bytes :: "hasher \<Rightarrow> text_crates \<Rightarrow> block \<Rightarrow> bytes option" where
  "wire_bytes K X b =
     (if \<not> validate_commitments K X b then None else do {
       proposer \<leftarrow> append_bytes (case bk_proposer b of Some p \<Rightarrow> p | None \<Rightarrow> []);
       pd \<leftarrow> append_bytes (protocol_data_bytes (bk_protocol_data b));
       n \<leftarrow> (try_from_nat (length (bk_transactions b)) :: u64 option);
       ts \<leftarrow> wire_transactions X (bk_transactions b);
       Some ([BLOCK_WIRE_VERSION] @ block_hash K b @ header_bytes (bk_header b) @ proposer @ pd @ be_bytes n @ ts) })"

fun ch_transactions :: "text_crates \<Rightarrow> nat \<Rightarrow> cursor \<Rightarrow> (tx list \<times> cursor) option" where
  "ch_transactions X 0 d = Some ([], d)"
| "ch_transactions X (Suc n) d = do {
     (b, d) \<leftarrow> ch_bytes d;
     t \<leftarrow> from_canonical_bytes X b;
     (ts, d) \<leftarrow> ch_transactions X n d;
     Some (t # ts, d) }"

definition wire_proposer :: "text_bytes \<Rightarrow> text_bytes option" where
  "wire_proposer p = (if p = [] then None else Some p)"

definition from_wire_bytes :: "hasher \<Rightarrow> text_crates \<Rightarrow> bytes \<Rightarrow> block option" where
  "from_wire_bytes K X b = do {
     (version, d) \<leftarrow> ch_u8 (start_cursor b);
     if version \<noteq> BLOCK_WIRE_VERSION then None else do {
       (claimed, d) \<leftarrow> ch_take 32 d;
       (hb, d) \<leftarrow> ch_take BLOCK_HEADER_LEN d;
       header \<leftarrow> header_from_bytes hb;
       (p, d) \<leftarrow> ch_string d;
       (pdb, d) \<leftarrow> ch_bytes d;
       pd \<leftarrow> protocol_data_from_bytes pdb;
       (n, d) \<leftarrow> ch_u64 d;
       if unat n > MAX_BLOCK_TRANSACTIONS then None else do {
         (ts, d) \<leftarrow> ch_transactions X (unat n) d;
         if \<not> finished d then None else
         (let block = \<lparr>bk_header = header, bk_proposer = wire_proposer p, bk_transactions = ts,
                       bk_protocol_data = pd\<rparr> in
          if block_hash K block = claimed \<and> validate_commitments K X block then Some block else None) } } }"



definition historical_block_slot :: "u64 \<Rightarrow> u64" where
  "historical_block_slot slot = saturating_sub slot 32"

definition historical_block_hash :: "hasher \<Rightarrow> (u64 \<times> block) list \<Rightarrow> u64 \<Rightarrow> hash option" where
  "historical_block_hash K blocks slot =
     (if slot < 32 then Some (GENESIS_HASH K) else map_option (block_hash K) (map_of blocks (historical_block_slot slot)))"

section \<open>Reading encoded fields\<close>

interpretation ch: byte_reader "\<lambda>n d. ok_or () (ch_take n d)"
  by unfold_locales (auto simp: ch_take_def usize_checked_add_def slice_read_cur split: if_splits)

lemmas ch_take_prefix = ch.rd_prefix [unfolded ok_or_Inr_iff]
lemmas ch_take_cases = ch.rd_cases [unfolded ok_or_Inr_iff]

lemma ch_u8_prefix: "length p + 1 < usize_limit \<Longrightarrow> ch_u8 (cur p (b # rest)) = Some (b, cur (p @ [b]) rest)"
  using ch_take_prefix [of "[b]" 1 p rest] by (simp add: ch_u8_def)

lemma ch_word_prefix:
  "length p + 4 < usize_limit \<Longrightarrow> ch_u32 (cur p (be_bytes v @ rest)) = Some (v, cur (p @ be_bytes v) rest)"
  "length p + 8 < usize_limit \<Longrightarrow> ch_u64 (cur p (be_bytes w @ rest)) = Some (w, cur (p @ be_bytes w) rest)"
  "length p + 16 < usize_limit \<Longrightarrow> ch_u128 (cur p (be_bytes x @ rest)) = Some (x, cur (p @ be_bytes x) rest)"
  by (simp_all add: ch_u32_def ch_u64_def ch_u128_def ch_take_prefix)

lemma append_bytes_Some: "append_bytes b = Some f \<longleftrightarrow> length b < 2 ^ 32 \<and> f = be_bytes (of_nat (length b) :: u32) @ b"
  by (auto simp: append_bytes_def bind_eq_Some_conv try_from_nat_def)

lemma append_bytes_length: "append_bytes b = Some f \<Longrightarrow> length f = 4 + length b \<and> length f < 2 ^ 32 + 4"
  by (auto simp: append_bytes_Some)

lemma ch_bytes_prefix:
  assumes "append_bytes b = Some f" "length p + length f < usize_limit"
  shows "ch_bytes (cur p (f @ rest)) = Some (b, cur (p @ f) rest)"
proof -
  from assms(1) have f: "length b < 2 ^ 32" "f = be_bytes (of_nat (length b) :: u32) @ b" by (auto simp: append_bytes_Some)
  then have "unat (of_nat (length b) :: u32) = length b" by (simp add: unat_of_nat_small)
  with f assms(2) show ?thesis by (simp add: ch_bytes_def ch_word_prefix ch_take_prefix)
qed

lemma ch_string_prefix:
  "append_bytes b = Some f \<Longrightarrow> utf8_valid b \<Longrightarrow> length p + length f < usize_limit \<Longrightarrow> ch_string (cur p (f @ rest)) = Some (b, cur (p @ f) rest)"
  by (simp add: ch_string_def ch_bytes_prefix)

lemma ch_u8_cases:
  assumes "ch_u8 (cur p q) = Some (b, d)"
  obtains rest where "q = b # rest" "d = cur (p @ [b]) rest"
proof -
  from assms obtain x where x: "ch_take 1 (cur p q) = Some (x, d)" "b = hd x" by (auto simp: ch_u8_def bind_eq_Some_conv)
  from x(1) obtain rest where "q = x @ rest" "length x = 1" "d = cur (p @ x) rest" by (rule ch_take_cases)
  with x(2) that show thesis by (auto simp: length_Suc_conv)
qed

lemma ch_word_cases:
  "ch_u32 (cur p q) = Some (v, d) \<Longrightarrow> \<exists>rest. q = be_bytes v @ rest \<and> d = cur (p @ be_bytes v) rest"
  "ch_u64 (cur p q) = Some (w, d) \<Longrightarrow> \<exists>rest. q = be_bytes w @ rest \<and> d = cur (p @ be_bytes w) rest"
  "ch_u128 (cur p q) = Some (x, d) \<Longrightarrow> \<exists>rest. q = be_bytes x @ rest \<and> d = cur (p @ be_bytes x) rest"
  by (auto simp: ch_u32_def ch_u64_def ch_u128_def bind_eq_Some_conv be_bytes_be_word elim!: ch_take_cases)

lemma ch_u32_cases: "ch_u32 (cur p q) = Some (v, d) \<Longrightarrow> (\<And>rest. q = be_bytes v @ rest \<Longrightarrow> d = cur (p @ be_bytes v) rest \<Longrightarrow> R) \<Longrightarrow> R"
  using ch_word_cases(1) by blast

lemma ch_u64_cases: "ch_u64 (cur p q) = Some (v, d) \<Longrightarrow> (\<And>rest. q = be_bytes v @ rest \<Longrightarrow> d = cur (p @ be_bytes v) rest \<Longrightarrow> R) \<Longrightarrow> R"
  using ch_word_cases(2) by blast

lemma ch_u128_cases: "ch_u128 (cur p q) = Some (v, d) \<Longrightarrow> (\<And>rest. q = be_bytes v @ rest \<Longrightarrow> d = cur (p @ be_bytes v) rest \<Longrightarrow> R) \<Longrightarrow> R"
  using ch_word_cases(3) by blast

lemma ch_bytes_cases:
  assumes "ch_bytes (cur p q) = Some (b, d)"
  obtains f rest where "append_bytes b = Some f" "q = f @ rest" "d = cur (p @ f) rest"
proof -
  from assms obtain len d' where l: "ch_u32 (cur p q) = Some (len, d')" and t: "ch_take (unat len) d' = Some (b, d)"
    by (auto simp: ch_bytes_def bind_eq_Some_conv)
  from l obtain r where r: "q = be_bytes len @ r" "d' = cur (p @ be_bytes len) r" by (rule ch_u32_cases)
  from t [unfolded r(2)] obtain rest where b: "r = b @ rest" "length b = unat len" "d = cur ((p @ be_bytes len) @ b) rest"
    by (rule ch_take_cases)
  have "length b < 2 ^ 32" using b(2) unat_bound [of len] by simp
  moreover have "(of_nat (length b) :: u32) = len" using b(2) by simp
  ultimately have "append_bytes b = Some (be_bytes len @ b)" by (simp add: append_bytes_Some)
  with r(1) b that show thesis by (auto simp del: cur_eq_iff)
qed

lemma ch_string_cases:
  assumes "ch_string (cur p q) = Some (b, d)"
  obtains f rest where "append_bytes b = Some f" "utf8_valid b" "q = f @ rest" "d = cur (p @ f) rest"
  using assms by (auto simp: ch_string_def bind_eq_Some_conv split: if_splits elim!: ch_bytes_cases)

lemmas ch_prefix = ch_u8_prefix ch_word_prefix ch_bytes_prefix ch_string_prefix

section \<open>Canonical transactions\<close>

text \<open>The transactions that survive a round trip: a registration's data is what the encoder of this node prints,
  and the signature text is empty or lower-case hexadecimal after \<open>0x\<close>.\<close>

definition tx_canonical :: "text_crates \<Rightarrow> tx \<Rightarrow> bool" where
  "tx_canonical X t \<longleftrightarrow> utf8_valid (tx_from t) \<and> utf8_valid (tx_to t) \<and>
     (if tx_kind_of t = RegisterValidator
      then \<exists>key reward. utf8_valid key \<and> utf8_valid reward \<and> tx_data t = registration_text X key reward
      else utf8_valid (tx_data t)) \<and>
     (\<exists>signature. tx_signature_hex t = signature_text X signature)"

lemma tx_kind_code_from [simp]: "tx_kind_from_code (tx_kind_code k) = Some k"
  by (cases k) (simp_all add: tx_kind_from_code_def)

lemma tx_kind_from_code_Some: "tx_kind_from_code c = Some k \<Longrightarrow> tx_kind_code k = c"
  by (auto simp: tx_kind_from_code_def split: if_splits)

lemma registration_round:
  assumes "crates_ok X" "utf8_valid key" "utf8_valid reward"
  shows "registration_fields X (registration_text X key reward) = Some (key, reward)"
proof -
  let ?ms = "[(str ''validator_pubkey'', key), (str ''reward_address'', reward)]"
  have n: "str ''validator_pubkey'' \<noteq> str ''reward_address''" by (simp add: str_def)
  have u: "utf8_valid (str ''validator_pubkey'')" "utf8_valid (str ''reward_address'')" by code_simp+
  have "tc_json X (tc_json_object X ?ms) = Some (map_of ?ms)"
    by (rule assms(1) [unfolded crates_ok_def, THEN conjunct2, THEN conjunct1, THEN spec, THEN mp, THEN mp, THEN conjunct1])
      (use assms(2,3) n u in auto)
  with n show ?thesis by (simp add: registration_fields_def registration_text_def)
qed

lemma signature_round: "crates_ok X \<Longrightarrow> decode_hex_bytes X (signature_text X s) = Some s"
  by (simp add: decode_hex_bytes_def signature_text_def strip_prefix_def crates_ok_def str_def)

lemma ch_data_round:
  assumes "crates_ok X" "tx_canonical X t" "tx_data_bytes X t = Some f"
  obtains e g where "f = e # g" "length g < 2 * (2 ^ 32 + 4)"
    "\<forall>q rest. length q + length g < usize_limit \<longrightarrow> ch_data X (tx_kind_of t) e (cur q (g @ rest)) = Some (tx_data t, cur (q @ g) rest)"
proof (cases "tx_kind_of t = RegisterValidator")
  case True
  with assms(2) obtain key reward where d: "utf8_valid key" "utf8_valid reward" "tx_data t = registration_text X key reward"
    by (auto simp: tx_canonical_def)
  with assms True obtain k r where f: "append_bytes key = Some k" "append_bytes reward = Some r" "f = 1 # k @ r"
    by (auto simp: tx_data_bytes_def registration_round bind_eq_Some_conv)
  have "length (k @ r) < 2 * (2 ^ 32 + 4)" using append_bytes_length [OF f(1)] append_bytes_length [OF f(2)] by simp
  with f d True show thesis by (intro that [of 1 "k @ r"]) (simp_all add: ch_data_def ch_prefix)
next
  case False
  with assms(2,3) obtain k where f: "append_bytes (tx_data t) = Some k" "f = 0 # k" "utf8_valid (tx_data t)"
    by (auto simp: tx_data_bytes_def bind_eq_Some_conv tx_canonical_def)
  have "length k < 2 * (2 ^ 32 + 4)" using append_bytes_length [OF f(1)] by simp
  with f False show thesis by (intro that [of 0 k]) (simp_all add: ch_data_def ch_prefix)
qed

lemma tx_dec_enc:
  assumes X: "crates_ok X" and c: "tx_canonical X t" and e: "canonical_bytes X t = Some b"
  shows "from_canonical_bytes X b = Some t"
proof -
  from c obtain sg where sg: "tx_signature_hex t = signature_text X sg" and u: "utf8_valid (tx_from t)" "utf8_valid (tx_to t)"
    by (auto simp: tx_canonical_def)
  from e obtain fb tb db sb where f: "append_bytes (tx_from t) = Some fb" "append_bytes (tx_to t) = Some tb"
      "tx_data_bytes X t = Some db" "append_bytes sg = Some sb"
    and b: "b = [TX_ENCODING_VERSION, tx_kind_code (tx_kind_of t)] @ be_bytes (tx_chain_id t) @ fb @ be_bytes (tx_nonce t) @
       tb @ be_bytes (tx_token_id t) @ be_bytes (tx_value t) @ be_bytes (tx_gas t) @ be_bytes (tx_fee_quarks t) @
       be_bytes (tx_max_fee_per_gas t) @ be_bytes (tx_valid_after_slot t) @ be_bytes (tx_fee_token_id t) @ db @ sb"
    by (auto simp: canonical_bytes_def bind_eq_Some_conv sg signature_round [OF X])
  from X c f(3) obtain en g where d: "db = en # g" "length g < 2 * (2 ^ 32 + 4)"
    "\<forall>q rest. length q + length g < usize_limit \<longrightarrow> ch_data X (tx_kind_of t) en (cur q (g @ rest)) = Some (tx_data t, cur (q @ g) rest)"
    by (rule ch_data_round)
  note l = append_bytes_length [OF f(1)] append_bytes_length [OF f(2)] append_bytes_length [OF f(4)]
  have last: "ch_bytes (cur q sb) = Some (sg, cur (q @ sb) [])" if "length q + length sb < usize_limit" for q
    using ch_bytes_prefix [OF f(4) that, of "[]"] by simp
  show ?thesis unfolding b d(1) from_canonical_bytes_def start_cursor_cur
    using l d(2,3) u f last by (simp add: ch_prefix usize_limit_def sg [symmetric])
qed

lemma tx_enc_dec:
  assumes X: "crates_ok X" and d: "from_canonical_bytes X b = Some t"
  shows "tx_canonical X t \<and> canonical_bytes X t = Some b"
  using d unfolding from_canonical_bytes_def start_cursor_cur
  by (auto simp: bind_eq_Some_conv ch_data_def tx_canonical_def canonical_bytes_def tx_data_bytes_def signature_round [OF X]
      registration_round [OF X]
      split: if_splits prod.splits dest!: tx_kind_from_code_Some
      elim!: ch_u8_cases ch_u64_cases ch_u128_cases ch_bytes_cases ch_string_cases)
    blast

section \<open>Blocks on the wire\<close>

text \<open>The blocks that survive a round trip: the widths of the Rust types, canonical transactions, and no empty
  proposer name, which the wire does not tell from an absent one.\<close>

definition block_canonical :: "text_crates \<Rightarrow> block \<Rightarrow> bool" where
  "block_canonical X b \<longleftrightarrow> header_wf (bk_header b) \<and> protocol_data_wf (bk_protocol_data b) \<and>
     (\<forall>p. bk_proposer b = Some p \<longrightarrow> p \<noteq> [] \<and> utf8_valid p) \<and> (\<forall>t \<in> set (bk_transactions b). tx_canonical X t)"

lemma wire_transactions_Cons:
  "wire_transactions X (t # ts) = do { b \<leftarrow> canonical_bytes X t; f \<leftarrow> append_bytes b; g \<leftarrow> wire_transactions X ts; Some (f @ g) }"
  unfolding wire_transactions_def
  by (cases "canonical_bytes X t"; cases "append_bytes (the (canonical_bytes X t))";
      cases "collect_some (map (\<lambda>t. do { b \<leftarrow> canonical_bytes X t; append_bytes b }) ts)") simp_all

lemma wire_transactions_Nil [simp]: "wire_transactions X [] = Some []"
  by (simp add: wire_transactions_def)

lemma wire_transactions_length:
  "wire_transactions X ts = Some g \<Longrightarrow> length g \<le> length ts * (2 ^ 32 + 4)"
proof (induction ts arbitrary: g)
  case (Cons t ts)
  then obtain b f g' where "append_bytes b = Some f" "wire_transactions X ts = Some g'" "g = f @ g'"
    by (auto simp: wire_transactions_Cons bind_eq_Some_conv)
  with Cons.IH [of g'] append_bytes_length [of b f] show ?case by simp
qed simp

lemma ch_transactions_prefix:
  assumes "crates_ok X" "\<forall>t \<in> set ts. tx_canonical X t" "wire_transactions X ts = Some g" "length p + length g < usize_limit"
  shows "ch_transactions X (length ts) (cur p (g @ rest)) = Some (ts, cur (p @ g) rest)"
  using assms
proof (induction ts arbitrary: g p)
  case (Cons t ts)
  from Cons.prems(3) obtain b f h where b: "canonical_bytes X t = Some b" "append_bytes b = Some f" "wire_transactions X ts = Some h" "g = f @ h"
    by (auto simp: wire_transactions_Cons bind_eq_Some_conv)
  have "from_canonical_bytes X b = Some t" using tx_dec_enc b(1) Cons.prems(1,2) by simp
  with b Cons.prems Cons.IH [of h "p @ f"] show ?case by (simp add: ch_prefix)
qed simp

lemma ch_transactions_cases:
  assumes "crates_ok X" "ch_transactions X n (cur p q) = Some (ts, d)"
  obtains g rest where "length ts = n" "\<forall>t \<in> set ts. tx_canonical X t" "wire_transactions X ts = Some g" "q = g @ rest" "d = cur (p @ g) rest"
  using assms(2)
proof (induction n arbitrary: p q ts thesis)
  case 0
  then show ?case by simp
next
  case (Suc n)
  from Suc.prems(2) obtain b d1 t us where b: "ch_bytes (cur p q) = Some (b, d1)" "from_canonical_bytes X b = Some t"
    and u: "ch_transactions X n d1 = Some (us, d)" "ts = t # us"
    by (auto simp: bind_eq_Some_conv)
  from b(1) obtain f r where f: "append_bytes b = Some f" "q = f @ r" "d1 = cur (p @ f) r" by (rule ch_bytes_cases)
  from Suc.IH [OF _ u(1) [unfolded f(3)]] obtain g rest where
    g: "length us = n" "\<forall>t \<in> set us. tx_canonical X t" "wire_transactions X us = Some g" "r = g @ rest" "d = cur ((p @ f) @ g) rest" by blast
  from tx_enc_dec [OF assms(1) b(2)] g f u(2) show ?case
    by (intro Suc.prems(1) [of "f @ g" rest]) (simp_all add: wire_transactions_Cons)
qed

lemma block_dec_enc_v1:
  assumes X: "crates_ok X" and K: "digest32 K" and c: "block_canonical X b" and w: "wire_bytes K X b = Some bs"
  shows "from_wire_bytes K X bs = Some b"
proof -
  let ?p = "case bk_proposer b of Some p \<Rightarrow> p | None \<Rightarrow> []"
  from w obtain pb db n tb where v: "validate_commitments K X b" and f: "append_bytes ?p = Some pb"
      "append_bytes (protocol_data_bytes (bk_protocol_data b)) = Some db" "wire_transactions X (bk_transactions b) = Some tb"
    and n: "try_from_nat (length (bk_transactions b)) = Some (n :: u64)"
    and bs: "bs = [BLOCK_WIRE_VERSION] @ block_hash K b @ header_bytes (bk_header b) @ pb @ db @ be_bytes n @ tb"
    by (auto simp: wire_bytes_def bind_eq_Some_conv split: if_splits)
  have len: "length (bk_transactions b) \<le> 3000" using v
    by (auto simp: validate_commitments_def Let_def MAX_BLOCK_TRANSACTIONS_def split: option.splits if_splits)
  have un: "unat n = length (bk_transactions b)" by (rule try_from_nat_Some [OF n])
  have hh: "length (block_hash K b) = 32" using K by (simp add: block_hash_def header_hash_def hash_with_domain_def digest32_def)
  have hl: "length (header_bytes (bk_header b)) = BLOCK_HEADER_LEN" using c by (simp add: block_canonical_def length_header_bytes)
  have tl: "length tb \<le> 3000 * (2 ^ 32 + 4)" using wire_transactions_length [OF f(3)] len
    by (meson le_trans mult_le_mono1)
  have cp: "utf8_valid ?p" "wire_proposer ?p = bk_proposer b"
    using c by (auto simp: block_canonical_def wire_proposer_def split: option.splits)
  have last: "ch_transactions X (length (bk_transactions b)) (cur q tb) = Some (bk_transactions b, cur (q @ tb) [])"
    if "length q + length tb < usize_limit" for q
    using ch_transactions_prefix [OF X _ f(3) that, of "[]"] c by (simp add: block_canonical_def)
  have eq: "\<lparr>bk_header = bk_header b, bk_proposer = bk_proposer b, bk_transactions = bk_transactions b, bk_protocol_data = bk_protocol_data b\<rparr> = b" by simp
  show ?thesis
    unfolding bs from_wire_bytes_def start_cursor_cur
    using append_bytes_length [OF f(1)] append_bytes_length [OF f(2)] hh hl tl un len last f v cp c
    by (simp add: ch_prefix ch_take_prefix usize_limit_def BLOCK_HEADER_LEN_def MAX_BLOCK_TRANSACTIONS_def block_canonical_def
        header_dec_enc protocol_data_dec_enc eq del: block.surjective)
qed

lemma block_enc_dec_v1:
  assumes X: "crates_ok X" and d: "from_wire_bytes K X bs = Some b"
  shows "block_canonical X b \<and> wire_bytes K X b = Some bs"
proof -
  from d obtain d1 hb d2 header p d3 pdb d4 pd n d5 ts d6 where
    s: "ch_u8 (cur [] bs) = Some (BLOCK_WIRE_VERSION, d1)" "ch_take 32 d1 = Some (block_hash K b, d2)" "ch_take BLOCK_HEADER_LEN d2 = Some (hb, d3)"
      "header_from_bytes hb = Some header" "ch_string d3 = Some (p, d4)"
    and r: "ch_bytes d4 = Some (pdb, d5)" "protocol_data_from_bytes pdb = Some pd" "ch_u64 d5 = Some (n, d6)"
    and t: "\<exists>d7. ch_transactions X (unat n) d6 = Some (ts, d7) \<and> finished d7"
    and b: "b = \<lparr>bk_header = header, bk_proposer = wire_proposer p, bk_transactions = ts, bk_protocol_data = pd\<rparr>"
      "validate_commitments K X b"
    unfolding from_wire_bytes_def start_cursor_cur
    by (clarsimp simp: bind_eq_Some_conv Let_def split: if_splits)
  from s(1) obtain r1 where 1: "bs = BLOCK_WIRE_VERSION # r1" "d1 = cur [BLOCK_WIRE_VERSION] r1" by (rule ch_u8_cases) simp
  from s(2) [unfolded 1(2)] obtain r2 where 2: "r1 = block_hash K b @ r2" "d2 = cur ([BLOCK_WIRE_VERSION] @ block_hash K b) r2" by (rule ch_take_cases)
  from s(3) [unfolded 2(2)] obtain r3 where 3: "r2 = hb @ r3" "d3 = cur (([BLOCK_WIRE_VERSION] @ block_hash K b) @ hb) r3" by (rule ch_take_cases)
  from s(5) [unfolded 3(2)] obtain pf r4 q4 where 4: "append_bytes p = Some pf" "utf8_valid p" "r3 = pf @ r4" "d4 = cur q4 r4" by (rule ch_string_cases) blast
  from r(1) [unfolded 4(4)] obtain df r5 q5 where 5: "append_bytes pdb = Some df" "r4 = df @ r5" "d5 = cur q5 r5" by (rule ch_bytes_cases) blast
  from r(3) [unfolded 5(3)] obtain r6 q6 where 6: "r5 = be_bytes n @ r6" "d6 = cur q6 r6" by (rule ch_u64_cases) blast
  from t obtain d7 where t': "ch_transactions X (unat n) (cur q6 r6) = Some (ts, d7)" "finished d7" using 6(2) by auto
  from X t'(1) obtain g rest where 7: "length ts = unat n" "\<forall>t \<in> set ts. tx_canonical X t" "wire_transactions X ts = Some g" "r6 = g @ rest" "d7 = cur (q6 @ g) rest"
    by (rule ch_transactions_cases)
  have rest: "rest = []" using t'(2) 7(5) by simp
  have h: "header_wf header" "header_bytes header = hb" using header_enc_dec [OF s(4)] by auto
  have pd: "protocol_data_wf pd" "protocol_data_bytes pd = pdb" using protocol_data_enc_dec [OF r(2)] by auto
  have n: "try_from_nat (length ts) = Some n" using 7(1) unat_bound [of n] by (simp add: try_from_nat_def)
  have pr: "append_bytes (case bk_proposer b of Some p \<Rightarrow> p | None \<Rightarrow> []) = Some pf" using 4(1) by (auto simp: b(1) wire_proposer_def)
  have "block_canonical X b" using h pd 4(2) 7(2) by (auto simp: block_canonical_def b(1) wire_proposer_def)
  moreover have "wire_bytes K X b = Some ([BLOCK_WIRE_VERSION] @ block_hash K b @ header_bytes (bk_header b) @ pf @ df @ be_bytes n @ g)"
    using b(2) pr 5(1) n 7(3) pd(2) by (simp add: wire_bytes_def) (simp add: b(1))
  ultimately show ?thesis using 1(1) 2(1) 3(1) 4(3) 5(2) 6(1) 7(4) rest h(2) by (simp add: b(1))
qed

section \<open>Concrete crates\<close>

text \<open>For the witnesses: hexadecimal as the crate prints it, and objects as the hexadecimal of their length-marked
  members.\<close>

definition hex_digit :: "nat \<Rightarrow> u8" where
  "hex_digit n = of_nat (if n < 10 then 48 + n else 87 + n)"

definition hex_value :: "u8 \<Rightarrow> nat option" where
  "hex_value c = (let n = unat c in if 48 \<le> n \<and> n < 58 then Some (n - 48) else if 97 \<le> n \<and> n < 103 then Some (n - 87) else None)"

definition demo_hex :: "bytes \<Rightarrow> text_bytes" where
  "demo_hex b = concat (map (\<lambda>x. [hex_digit (unat x div 16), hex_digit (unat x mod 16)]) b)"

fun demo_unhex :: "text_bytes \<Rightarrow> bytes option" where
  "demo_unhex [] = Some []"
| "demo_unhex [c] = None"
| "demo_unhex (c # d # s) = do { h \<leftarrow> hex_value c; l \<leftarrow> hex_value d; b \<leftarrow> demo_unhex s; Some (of_nat (16 * h + l) # b) }"

lemma unat_hex_digit: "n < 16 \<Longrightarrow> unat (hex_digit n) = (if n < 10 then 48 + n else 87 + n)"
  by (simp add: hex_digit_def unat_of_nat_small)

lemma hex_value_digit [simp]: "n < 16 \<Longrightarrow> hex_value (hex_digit n) = Some n"
  by (auto simp: hex_value_def Let_def unat_hex_digit)

lemma nibbles: "unat (x :: u8) div 16 < 16" "of_nat (16 * (unat x div 16) + unat x mod 16) = x"
  using unat_u8_bound [of x] by (simp_all add: less_mult_imp_div_less flip: mult_div_mod_eq)

lemma demo_hex_round: "demo_unhex (demo_hex b) = Some b"
proof (induction b)
  case (Cons x b)
  then show ?case using nibbles [of x] by (simp add: demo_hex_def del: of_nat_add of_nat_mult)
qed (simp add: demo_hex_def)

lemma utf8_ascii: "\<forall>c \<in> set s. unat c < 128 \<Longrightarrow> utf8_valid s"
  by (induction s rule: utf8_valid.induct) (auto simp: word_less_nat_alt)

lemma demo_hex_utf8: "utf8_valid (demo_hex b)"
proof (rule utf8_ascii, rule ballI)
  fix c assume "c \<in> set (demo_hex b)"
  then obtain x :: u8 where "c = hex_digit (unat x div 16) \<or> c = hex_digit (unat x mod 16)" by (auto simp: demo_hex_def)
  moreover have "unat x mod 16 < 16" by simp
  ultimately show "unat c < 128" using nibbles(1) [of x] by (auto simp: unat_hex_digit)
qed

fun demo_texts :: "text_bytes list \<Rightarrow> bytes" where
  "demo_texts [] = []"
| "demo_texts (t # ts) = replicate (length t) 1 @ [0] @ t @ demo_texts ts"

function demo_untexts :: "bytes \<Rightarrow> text_bytes list option" where
  "demo_untexts [] = Some []"
| "demo_untexts (c # b) =
     (let n = length (takeWhile (\<lambda>x. x = 1) (c # b)); r = drop n (c # b) in
      if r = [] \<or> length (tl r) < n then None
      else do { ts \<leftarrow> demo_untexts (drop n (tl r)); Some (take n (tl r) # ts) })"
  by pat_completeness auto
termination by (relation "measure length") auto

lemma demo_texts_round: "demo_untexts (demo_texts ts) = Some ts"
proof (induction ts)
  case (Cons t ts)
  let ?b = "demo_texts (t # ts)"
  have n: "length (takeWhile (\<lambda>x. x = 1) ?b) = length t" by (simp add: takeWhile_append)
  obtain c b where cb: "?b = c # b" by (cases ?b) simp_all
  have r: "drop (length t) ?b = 0 # t @ demo_texts ts" by simp
  show ?case unfolding cb
    by (subst demo_untexts.simps(2)) (simp only: cb [symmetric] n r Let_def, simp add: Cons.IH)
qed simp

fun pair_up :: "'a list \<Rightarrow> ('a \<times> 'a) list" where
  "pair_up (a # b # xs) = (a, b) # pair_up xs"
| "pair_up _ = []"

lemma pair_up_concat: "pair_up (concat (map (\<lambda>(k, v). [k, v]) ms)) = ms"
  by (induction ms) auto

definition demo_crates :: text_crates where
  "demo_crates = \<lparr>tc_hex_encode = demo_hex, tc_hex_decode = demo_unhex,
     tc_json = (\<lambda>t. do { b \<leftarrow> demo_unhex t; ts \<leftarrow> demo_untexts b; if list_all utf8_valid ts then Some (map_of (pair_up ts)) else None }),
     tc_json_object = (\<lambda>ms. demo_hex (demo_texts (concat (map (\<lambda>(k, v). [k, v]) ms))))\<rparr>"

lemma pair_up_mem: "(k, v) \<in> set (pair_up ts) \<Longrightarrow> v \<in> set ts"
  by (induction ts rule: pair_up.induct) auto

lemma demo_crates_ok: "crates_ok demo_crates"
  unfolding crates_ok_def
proof (intro conjI allI impI)
  fix ms :: "(text_bytes \<times> text_bytes) list"
  assume "\<forall>(k, v) \<in> set ms. utf8_valid k \<and> utf8_valid v"
  then have "list_all utf8_valid (concat (map (\<lambda>(k, v). [k, v]) ms))" by (induction ms) auto
  then show "tc_json demo_crates (tc_json_object demo_crates ms) = Some (map_of ms)"
    by (simp add: demo_crates_def demo_hex_round demo_texts_round pair_up_concat)
next
  fix t f k v assume "tc_json demo_crates t = Some f" "f k = Some v"
  then obtain ts where "list_all utf8_valid ts" "map_of (pair_up ts) k = Some v"
    by (auto simp: demo_crates_def bind_eq_Some_conv split: if_splits)
  then show "utf8_valid v" by (auto simp: list_all_iff dest!: map_of_SomeD pair_up_mem)
qed (simp_all add: demo_crates_def demo_hex_round demo_hex_utf8)

section \<open>Properties\<close>

text \<open>C33. The wire format of the prototype node is canonical. A byte string decodes to a block exactly when
  the block's commitments hold, its transactions are canonical, its proposer name is not empty, and the string is its
  encoding. So an accepted block has one encoding, and whatever \<open>wire_bytes\<close> prints of a canonical block is
  read back unchanged.\<close>

theorem v1_wire_canonical:
  assumes "crates_ok X" "digest32 K"
  shows "from_wire_bytes K X bs = Some b \<longleftrightarrow> block_canonical X b \<and> wire_bytes K X b = Some bs"
  using block_dec_enc_v1 [OF assms] block_enc_dec_v1 [OF assms(1)] by blast

definition demo_K :: hasher where "demo_K b = replicate 32 7"

definition demo_block :: block where
  "demo_block = \<lparr>bk_header = \<lparr>bh_protocol_version = 1, bh_chain_id = 1162, bh_slot = 0, bh_block_kind = ProtocolNoTickets,
       bh_parent_hash = ZERO_HASH, bh_proposer_id = ZERO_PROPOSER_ID, bh_ticket_id = 0, bh_transaction_root = replicate 32 7,
       bh_state_root = PLACEHOLDER_STATE_ROOT, bh_receipts_root = replicate 32 7, bh_gas_used = 0,
       bh_protocol_data_root = replicate 32 7\<rparr>,
     bk_proposer = None, bk_transactions = [], bk_protocol_data = protocol_data_empty\<rparr>"

lemma demo_block_new: "block_new demo_K demo_crates 0 ProtocolNoTickets ZERO_HASH None ZERO_TICKET_ID [] 0 protocol_data_empty = Some demo_block"
  by (simp add: block_new_def demo_block_def transaction_root_def ordered_transaction_root_def try_from_nat_def demo_K_def
      protocol_data_root_def hash_with_domain_def EMPTY_RECEIPTS_ROOT_def keccak256_def PROTOCOL_VERSION_def CHAIN_ID_def
      ZERO_TICKET_ID_def validate_commitments_def Let_def protocol_data_empty_def MAX_BLOCK_GAS_def validate_role_def)

theorem v1_wire_canonical_witness:
  "\<exists>bs. wire_bytes demo_K demo_crates demo_block = Some bs \<and> from_wire_bytes demo_K demo_crates bs = Some demo_block"
proof -
  have "block_canonical demo_crates demo_block"
    by (simp add: block_canonical_def demo_block_def header_wf_def protocol_data_wf_def protocol_data_empty_def ZERO_HASH_def
        ZERO_PROPOSER_ID_def PLACEHOLDER_STATE_ROOT_def)
  moreover have "validate_commitments demo_K demo_crates demo_block"
    using demo_block_new by (auto simp: block_new_def bind_eq_Some_conv Let_def split: if_splits)
  then obtain bs where "wire_bytes demo_K demo_crates demo_block = Some bs"
    by (auto simp: wire_bytes_def demo_block_def append_bytes_def try_from_nat_def length_protocol_data_bytes protocol_data_empty_def)
  moreover have "digest32 demo_K" by (simp add: digest32_def demo_K_def)
  ultimately show ?thesis using v1_wire_canonical [OF demo_crates_ok] by blast
qed

end
