(* ===== verification/Leader_Selection.thy ===== *)
theory Leader_Selection
  imports Node_Models
begin

text \<open>
  \<open>src/src/leader_selection.rs\<close>: the leader of a slot of the prototype node. A seed from a historical block hash
  draws an offset below the number of active tickets by rejection sampling, the offset picks a bucket, and the
  least score picks the ticket. The rejection loop counts its retries in 64 bits and gives up at the last one, so it
  always ends.
\<close>

section \<open>The draw\<close>

definition LEADER_SELECTION_DOMAIN :: bytes where "LEADER_SELECTION_DOMAIN = str ''eternix:leader-selection:v1''"
definition BUCKET_SELECTION_DOMAIN :: bytes where "BUCKET_SELECTION_DOMAIN = str ''eternix:bucket-selection:v1''"
definition TICKET_SELECTION_DOMAIN :: bytes where "TICKET_SELECTION_DOMAIN = str ''eternix:ticket-selection:v1''"

definition slot_randomness :: "hasher \<Rightarrow> hash \<Rightarrow> u64 \<Rightarrow> hash" where
  "slot_randomness K historical slot = K (LEADER_SELECTION_DOMAIN @ historical @ be_bytes slot)"

definition bucket_raw :: "hasher \<Rightarrow> hash \<Rightarrow> u64 \<Rightarrow> u64" where
  "bucket_raw K seed retry = be_word (take 8 (K (BUCKET_SELECTION_DOMAIN @ seed @ be_bytes retry)))"

function uniform_loop :: "hasher \<Rightarrow> hash \<Rightarrow> u64 \<Rightarrow> u64 \<Rightarrow> u64 \<Rightarrow> u64 option" where
  "uniform_loop K seed bound threshold retry =
     (let raw = bucket_raw K seed retry in
      if raw \<ge> threshold then Some (raw mod bound)
      else (case checked_add retry 1 of None \<Rightarrow> None | Some r \<Rightarrow> uniform_loop K seed bound threshold r))"
  by pat_completeness auto

termination
proof (relation "measure (\<lambda>(_, _, _, _, retry). 2 ^ 64 - unat retry)")
  fix K seed bound threshold raw and retry r :: u64
  assume "checked_add retry 1 = Some r"
  then have "unat r = Suc (unat retry)" by (auto dest!: checked_add_Some)
  then show "((K, seed, bound, threshold, r), K, seed, bound, threshold, retry) \<in> measure (\<lambda>(_, _, _, _, retry). 2 ^ 64 - unat retry)"
    using unat_bound [of r] by simp
qed simp

declare uniform_loop.simps [simp del]

definition uniform_below :: "hasher \<Rightarrow> hash \<Rightarrow> u64 \<Rightarrow> u64 option" where
  "uniform_below K seed bound = (if bound = 0 then None else uniform_loop K seed bound ((- bound) mod bound) 0)"

section \<open>The bucket\<close>

text \<open>\<open>counts\<close> is the array of 256 counters; both loops run over the buckets 2 to 255.\<close>

definition active_buckets :: "nat list" where "active_buckets = [2..<256]"

lemma active_buckets_set: "b \<in> set active_buckets \<longleftrightarrow> 2 \<le> b \<and> b < 256" "distinct active_buckets"
  unfolding active_buckets_def set_upt atLeastLessThan_iff by (rule refl, rule distinct_upt)

fun bucket_walk :: "u64 list \<Rightarrow> nat list \<Rightarrow> u64 \<Rightarrow> u8 option" where
  "bucket_walk counts [] offset = None"
| "bucket_walk counts (b # bs) offset =
     (let count = counts ! b in
      if offset < count then Some (of_nat b)
      else (case checked_sub offset count of None \<Rightarrow> None | Some o' \<Rightarrow> bucket_walk counts bs o'))"

definition bucket_for_offset :: "u64 list \<Rightarrow> u64 \<Rightarrow> u8 option" where
  "bucket_for_offset counts offset = bucket_walk counts active_buckets offset"

fun active_total :: "u64 list \<Rightarrow> nat list \<Rightarrow> u64 \<Rightarrow> u64 option" where
  "active_total counts [] acc = Some acc"
| "active_total counts (b # bs) acc = do { s \<leftarrow> checked_add acc (counts ! b); active_total counts bs s }"

definition select_bucket :: "hasher \<Rightarrow> hash \<Rightarrow> u64 list \<Rightarrow> u8 option" where
  "select_bucket K seed counts = do {
     total \<leftarrow> active_total counts active_buckets 0;
     offset \<leftarrow> uniform_below K seed total;
     bucket_for_offset counts offset }"

section \<open>The ticket\<close>

definition ticket_score :: "hasher \<Rightarrow> hash \<Rightarrow> u64 \<Rightarrow> hash" where
  "ticket_score K seed ticket = K (TICKET_SELECTION_DOMAIN @ seed @ be_bytes ticket)"

text \<open>\<open>best\<close> holds the two optional variables of the loop, which are always set together.\<close>

fun best_ticket :: "hasher \<Rightarrow> hash \<Rightarrow> u64 list \<Rightarrow> (hash \<times> u64) option \<Rightarrow> u64 option" where
  "best_ticket K seed [] best = map_option snd best"
| "best_ticket K seed (t # ts) best =
     (let h = ticket_score K seed t in
      best_ticket K seed ts (case best of None \<Rightarrow> Some (h, t) | Some (c, b) \<Rightarrow> if (h, t) < (c, b) then Some (h, t) else best))"

definition select_ticket :: "hasher \<Rightarrow> hash \<Rightarrow> u64 list \<Rightarrow> u64 option" where
  "select_ticket K seed ids = best_ticket K seed ids None"

fun count_buckets :: "node_ticket list \<Rightarrow> u64 list \<Rightarrow> u64 list option" where
  "count_buckets [] counts = Some counts"
| "count_buckets (t # ts) counts =
     (if nt_bucket t < 2 then count_buckets ts counts
      else do { n \<leftarrow> checked_add (counts ! unat (nt_bucket t)) 1; count_buckets ts (counts[unat (nt_bucket t) := n]) })"

definition select_leader_ticket :: "hasher \<Rightarrow> hash \<Rightarrow> u64 \<Rightarrow> node_ticket list \<Rightarrow> (text_bytes \<times> u64) option" where
  "select_leader_ticket K historical slot eligible =
     (if eligible = [] then None
      else let seed = slot_randomness K historical slot in do {
        counts \<leftarrow> count_buckets eligible (replicate 256 0);
        bucket \<leftarrow> select_bucket K seed counts;
        winner \<leftarrow> select_ticket K seed (map nt_id (filter (\<lambda>t. nt_bucket t = bucket) eligible));
        t \<leftarrow> find (\<lambda>t. nt_id t = winner) eligible;
        Some (nt_owner t, nt_id t) })"

section \<open>What each stage returns\<close>

text \<open>The draw returns the first accepted output, reduced; it fails only when every output is rejected.\<close>

lemma uniform_loop_Some:
  assumes "uniform_loop K seed bound threshold retry = Some v"
  shows "\<exists>n. v = bucket_raw K seed (retry + of_nat n) mod bound \<and> threshold \<le> bucket_raw K seed (retry + of_nat n) \<and>
     (\<forall>m < n. bucket_raw K seed (retry + of_nat m) < threshold)"
  using assms
proof (induction K seed bound threshold retry rule: uniform_loop.induct)
  case (1 K seed bound threshold retry)
  show ?case
  proof (cases "threshold \<le> bucket_raw K seed retry")
    case True
    with 1(2) show ?thesis by (intro exI [of _ 0]) (simp add: uniform_loop.simps)
  next
    case False
    with 1(2) obtain r where r: "checked_add retry 1 = Some r" "uniform_loop K seed bound threshold r = Some v"
      by (auto simp: uniform_loop.simps [of _ _ _ _ retry] Let_def split: option.splits)
    then have r': "r = retry + 1" by (auto simp: checked_add_def split: if_splits)
    from 1(1) [OF refl False r] obtain n where n: "v = bucket_raw K seed (r + of_nat n) mod bound"
      "threshold \<le> bucket_raw K seed (r + of_nat n)" "\<forall>m < n. bucket_raw K seed (r + of_nat m) < threshold" by blast
    have "bucket_raw K seed (retry + of_nat m) < threshold" if "m < Suc n" for m
      using that n(3) False by (cases m) (auto simp: r' algebra_simps not_le)
    with n show ?thesis by (intro exI [of _ "Suc n"]) (simp add: r' algebra_simps)
  qed
qed

lemma uniform_loop_None:
  assumes "uniform_loop K seed bound threshold retry = None" "retry \<le> r"
  shows "bucket_raw K seed r < threshold"
  using assms
proof (induction K seed bound threshold retry rule: uniform_loop.induct)
  case (1 K seed bound threshold retry)
  have f: "\<not> threshold \<le> bucket_raw K seed retry" using 1(2) by (auto simp: uniform_loop.simps Let_def)
  show ?case
  proof (cases "checked_add retry 1")
    case None
    then have "2 ^ 64 \<le> unat retry + 1" using checked_add_None_iff [of retry 1] by simp
    with 1(3) unat_bound [of r] have "unat r = unat retry" by (simp add: word_le_nat_alt)
    then have "r = retry" by (rule unsigned_word_eqI)
    with f show ?thesis by simp
  next
    case (Some n)
    with 1(2) f have "uniform_loop K seed bound threshold n = None" by (simp add: uniform_loop.simps [of _ _ _ _ retry] Let_def)
    moreover have "n \<le> r" if "r \<noteq> retry"
      using that 1(3) Some checked_add_Some [of retry 1 n] by (auto simp: word_le_nat_alt word_unat_eq_iff)
    ultimately show ?thesis using 1(1) [OF refl f Some] f by (cases "r = retry") auto
  qed
qed

text \<open>The counters are the bucket sizes, the total is the number of active tickets, and the walk returns the bucket
  of the ticket at the drawn place when the active tickets are listed bucket by bucket.\<close>

definition in_bucket :: "nat \<Rightarrow> node_ticket list \<Rightarrow> node_ticket list" where
  "in_bucket b ts = filter (\<lambda>t. unat (nt_bucket t) = b) ts"

definition by_bucket :: "nat list \<Rightarrow> node_ticket list \<Rightarrow> node_ticket list" where
  "by_bucket bs ts = concat (map (\<lambda>b. in_bucket b ts) bs)"

lemma count_buckets_spec:
  assumes "length cs = 256" "\<forall>b < 256. unat (cs ! b) + length ts < 2 ^ 64"
  shows "\<exists>cs'. count_buckets ts cs = Some cs' \<and> length cs' = 256 \<and>
     (\<forall>b. 2 \<le> b \<longrightarrow> b < 256 \<longrightarrow> unat (cs' ! b) = unat (cs ! b) + length (in_bucket b ts))"
  using assms
proof (induction ts arbitrary: cs)
  case (Cons t ts)
  let ?b = "unat (nt_bucket t)"
  have lt: "?b < 256" by (rule unat_u8_bound)
  show ?case
  proof (cases "nt_bucket t < 2")
    case True
    then have "?b < 2" by (simp add: word_less_nat_alt)
    with True Cons show ?thesis by (fastforce simp: in_bucket_def)
  next
    case False
    have "unat (cs ! ?b) + unat (1 :: u64) < 2 ^ LENGTH(64)" using Cons.prems(2) lt by fastforce
    then obtain n where n: "checked_add (cs ! ?b) 1 = Some n" "unat n = unat (cs ! ?b) + unat (1 :: u64)" by (rule checked_add_fits)
    have "\<forall>b < 256. unat (cs[?b := n] ! b) + length ts < 2 ^ 64"
      using Cons.prems n(2) lt by (auto simp: nth_list_update less_Suc_eq)
    from Cons.IH [OF _ this] Cons.prems(1) obtain cs' where cs': "count_buckets ts (cs[?b := n]) = Some cs'" "length cs' = 256"
      "\<forall>b. 2 \<le> b \<longrightarrow> b < 256 \<longrightarrow> unat (cs' ! b) = unat (cs[?b := n] ! b) + length (in_bucket b ts)" by auto
    with False n lt Cons.prems(1) show ?thesis by (auto simp: in_bucket_def nth_list_update)
  qed
qed (simp add: in_bucket_def)

lemma active_total_spec:
  assumes "\<forall>b \<in> set bs. unat (cs ! b) = length (in_bucket b ts)" "unat acc + length (by_bucket bs ts) < 2 ^ 64"
  shows "\<exists>n. active_total cs bs acc = Some n \<and> unat n = unat acc + length (by_bucket bs ts)"
  using assms
proof (induction bs arbitrary: acc)
  case (Cons b bs)
  have "unat acc + unat (cs ! b) < 2 ^ LENGTH(64)" using Cons.prems by (simp add: by_bucket_def)
  then obtain s where "checked_add acc (cs ! b) = Some s" "unat s = unat acc + unat (cs ! b)" by (rule checked_add_fits)
  with Cons.IH [of s] Cons.prems show ?case by (auto simp: by_bucket_def)
qed (simp add: by_bucket_def)

lemma bucket_walk_spec:
  assumes "\<forall>b \<in> set bs. unat (cs ! b) = length (in_bucket b ts) \<and> b < 256" "unat x < length (by_bucket bs ts)"
  shows "bucket_walk cs bs x = Some (nt_bucket (by_bucket bs ts ! unat x))"
  using assms
proof (induction bs arbitrary: x)
  case (Cons b bs)
  let ?n = "length (in_bucket b ts)"
  have n: "unat (cs ! b) = ?n" using Cons.prems(1) by simp
  show ?case
  proof (cases "x < cs ! b")
    case True
    then have "unat x < ?n" using n by (simp add: word_less_nat_alt)
    moreover from this have "unat (nt_bucket (in_bucket b ts ! unat x)) = b"
      using nth_mem [of "unat x" "in_bucket b ts"] by (auto simp: in_bucket_def)
    then have "nt_bucket (in_bucket b ts ! unat x) = of_nat b" by (metis word_of_nat_eq_iff unat_of_nat word_unat_eq_iff of_nat_unat ucast_id)
    ultimately show ?thesis using True by (simp add: by_bucket_def nth_append)
  next
    case False
    then have "?n \<le> unat x" using n by (simp add: word_less_nat_alt)
    moreover have "checked_sub x (cs ! b) = Some (x - cs ! b)" using False by (simp add: checked_sub_def)
    moreover have "unat (x - cs ! b) = unat x - ?n" using False n by (simp add: unat_sub)
    ultimately show ?thesis using False Cons by (simp add: by_bucket_def nth_append)
  qed
qed (simp add: by_bucket_def)

lemma best_ticket_least:
  "\<exists>w. best_ticket K seed ts (Some (ticket_score K seed b, b)) = Some w \<and> w \<in> insert b (set ts) \<and>
     (\<forall>u \<in> insert b (set ts). (ticket_score K seed w, w) \<le> (ticket_score K seed u, u))"
proof (induction ts arbitrary: b)
  case (Cons t ts)
  let ?s = "\<lambda>t. (ticket_score K seed t, t)"
  show ?case
  proof (cases "?s t < ?s b")
    case True
    from Cons.IH [of t] obtain w where w: "best_ticket K seed ts (Some (?s t)) = Some w" "w \<in> insert t (set ts)"
      "\<forall>u \<in> insert t (set ts). ?s w \<le> ?s u" by blast
    moreover have "?s w \<le> ?s b" using w(3) True by (meson insertI1 le_less_trans less_imp_le)
    ultimately show ?thesis using True by (intro exI [of _ w]) auto
  next
    case False
    from Cons.IH [of b] obtain w where w: "best_ticket K seed ts (Some (?s b)) = Some w" "w \<in> insert b (set ts)"
      "\<forall>u \<in> insert b (set ts). ?s w \<le> ?s u" by blast
    moreover have "?s w \<le> ?s t" using w(3) False by (meson insertI1 order_trans not_less)
    ultimately show ?thesis using False by (intro exI [of _ w]) auto
  qed
qed simp

lemma select_ticket_least:
  assumes "ids \<noteq> []"
  shows "\<exists>w. select_ticket K seed ids = Some w \<and> w \<in> set ids \<and>
     (\<forall>u \<in> set ids. (ticket_score K seed w, w) \<le> (ticket_score K seed u, u))"
proof (cases ids)
  case (Cons b ts)
  then show ?thesis using best_ticket_least [of K seed ts b] by (simp add: select_ticket_def)
qed (use assms in simp)

section \<open>Properties\<close>

lemma uniform_below_less: "uniform_below K seed n = Some x \<Longrightarrow> x < n"
  by (auto simp: uniform_below_def split: if_splits dest!: uniform_loop_Some
      intro: word_mod_less_divisor simp: word_gt_0)

lemma by_bucket_mem: "t \<in> set (by_bucket active_buckets ts) \<longleftrightarrow> t \<in> set ts \<and> \<not> nt_bucket t < 2"
  using unat_u8_bound [of "nt_bucket t"] by (auto simp: by_bucket_def in_bucket_def word_less_nat_alt active_buckets_set)

lemma length_by_bucket: "length (by_bucket active_buckets ts) \<le> length ts"
proof -
  have "length (by_bucket bs ts) = length (filter (\<lambda>t. unat (nt_bucket t) \<in> set bs) ts)" if "distinct bs" for bs
    using that
  proof (induction bs)
    case (Cons b bs)
    have "length (filter (\<lambda>t. unat (nt_bucket t) \<in> set (b # bs)) ts) =
        length (filter (\<lambda>t. unat (nt_bucket t) = b) ts) + length (filter (\<lambda>t. unat (nt_bucket t) \<in> set bs) ts)"
      using Cons.prems by (induction ts) auto
    with Cons show ?case by (simp add: by_bucket_def in_bucket_def)
  qed (simp add: by_bucket_def)
  from this [of "active_buckets"] show ?thesis by (simp add: active_buckets_set)
qed

text \<open>Selection in one equation: the drawn place in the list of active tickets names the bucket.\<close>

lemma select_leader_unfold:
  fixes K :: hasher and historical :: hash and slot :: u64
  assumes "length ts < 2 ^ 64" "distinct (map nt_id ts)"
  defines "seed \<equiv> slot_randomness K historical slot" and "active \<equiv> by_bucket active_buckets ts"
  shows "case uniform_below K seed (of_nat (length active)) of
      None \<Rightarrow> select_leader_ticket K historical slot ts = None
    | Some x \<Rightarrow> \<exists>t \<in> set ts. select_leader_ticket K historical slot ts = Some (nt_owner t, nt_id t) \<and>
        unat x < length active \<and> nt_bucket t = nt_bucket (active ! unat x) \<and>
        (\<forall>u \<in> set ts. nt_bucket u = nt_bucket t \<longrightarrow>
           (ticket_score K seed (nt_id t), nt_id t) \<le> (ticket_score K seed (nt_id u), nt_id u))"
proof -
  have "\<forall>b < 256. unat (replicate 256 (0 :: u64) ! b) + length ts < 2 ^ 64" using assms(1) by simp
  from count_buckets_spec [OF _ this] obtain cs where c: "count_buckets ts (replicate 256 0) = Some cs"
    and cs: "\<forall>b \<in> set active_buckets. unat (cs ! b) = length (in_bucket b ts) \<and> b < 256" by (auto simp: active_buckets_set)
  have l: "length active < 2 ^ 64" using length_by_bucket [of ts] assms(1) by (simp add: active_def)
  have "\<exists>n. active_total cs active_buckets 0 = Some n \<and> unat n = length active"
    using active_total_spec [of "active_buckets" cs ts 0] cs l by (simp add: active_def)
  then obtain n where n: "active_total cs active_buckets 0 = Some n" "unat n = length active" by blast
  then have n': "n = of_nat (length active)" by (metis word_of_nat_eq_iff unat_of_nat word_unat_eq_iff of_nat_unat ucast_id)
  show ?thesis
  proof (cases "uniform_below K seed (of_nat (length active))")
    case None
    then show ?thesis using c n n' by (simp add: select_leader_ticket_def Let_def select_bucket_def seed_def)
  next
    case (Some x)
    have x: "unat x < length active" using uniform_below_less [OF Some] n n' by (simp add: word_less_nat_alt)
    let ?b = "nt_bucket (active ! unat x)"
    have b: "bucket_for_offset cs x = Some ?b"
      unfolding bucket_for_offset_def active_def by (rule bucket_walk_spec) (use cs x active_def in simp_all)
    have mem: "active ! unat x \<in> set ts" using x by_bucket_mem nth_mem unfolding active_def by blast
    let ?ids = "map nt_id (filter (\<lambda>t. nt_bucket t = ?b) ts)"
    have "?ids \<noteq> []" using mem by (auto simp: filter_empty_conv)
    then obtain w where w: "select_ticket K seed ?ids = Some w" "w \<in> set ?ids"
      "\<forall>u \<in> set ?ids. (ticket_score K seed w, w) \<le> (ticket_score K seed u, u)" using select_ticket_least by blast
    then obtain t where t: "t \<in> set ts" "nt_id t = w" "nt_bucket t = ?b" by auto
    have "find (\<lambda>u. nt_id u = w) ts = Some t"
      using t(1,2) assms(2) by (auto simp: find_Some_iff in_set_conv_nth distinct_conv_nth)
    then have "select_leader_ticket K historical slot ts = Some (nt_owner t, nt_id t)"
      using c n(1) Some b w(1) t(1) unfolding n' [symmetric]
      by (auto simp: select_leader_ticket_def Let_def select_bucket_def seed_def)
    with Some x t w(3) show ?thesis by (auto intro!: bexI [of _ t])
  qed
qed

text \<open>C31. The leader of a slot. With at most \<open>2^64 - 1\<close> tickets of distinct identifiers, the draw is taken below the
  number of tickets in the active buckets; when it returns a place, the leader is the ticket of least
  score in the bucket that holds this place, and the leader's ticket is never in a dead or muted bucket. Without a
  draw there is no leader.\<close>

theorem leader_selected:
  assumes "length ts < 2 ^ 64" "distinct (map nt_id ts)"
  shows "(case uniform_below K (slot_randomness K historical slot) (of_nat (length (by_bucket active_buckets ts))) of
      None \<Rightarrow> select_leader_ticket K historical slot ts = None
    | Some x \<Rightarrow> \<exists>t \<in> set ts. select_leader_ticket K historical slot ts = Some (nt_owner t, nt_id t) \<and>
        nt_bucket t = nt_bucket (by_bucket active_buckets ts ! unat x) \<and> \<not> nt_bucket t < 2 \<and>
        (\<forall>u \<in> set ts. nt_bucket u = nt_bucket t \<longrightarrow>
           (ticket_score K (slot_randomness K historical slot) (nt_id t), nt_id t) \<le>
           (ticket_score K (slot_randomness K historical slot) (nt_id u), nt_id u)))"
proof (cases "uniform_below K (slot_randomness K historical slot) (of_nat (length (by_bucket active_buckets ts)))")
  case None
  then show ?thesis using select_leader_unfold [OF assms, of K historical slot] by simp
next
  case (Some x)
  have "\<not> nt_bucket (by_bucket active_buckets ts ! i) < 2" if "i < length (by_bucket active_buckets ts)" for i
    using nth_mem [OF that] by_bucket_mem by blast
  then show ?thesis using select_leader_unfold [OF assms, of K historical slot] Some by auto
qed

definition demo_ticket :: node_ticket where
  "demo_ticket = \<lparr>nt_id = 9, nt_owner = str ''val-1'', nt_bucket = 5, nt_muted = False, nt_dead = False, nt_retiring = False,
     nt_retire_requested_epoch = None, nt_retire_effective_epoch = None\<rparr>"

theorem leader_selected_witness:
  "select_leader_ticket (\<lambda>_. replicate 32 7) [] 3 [demo_ticket] = Some (str ''val-1'', 9)"
proof -
  let ?K = "\<lambda>_ :: bytes. replicate 32 (7 :: u8)"
  have a: "by_bucket active_buckets [demo_ticket] = [demo_ticket]"
  proof -
    have "by_bucket bs [demo_ticket] = replicate (length (filter (\<lambda>b. b = 5) bs)) demo_ticket" for bs
      by (induction bs) (auto simp: by_bucket_def in_bucket_def demo_ticket_def)
    moreover have "length (filter (\<lambda>b. b = 5) active_buckets) = 1" by (simp add: active_buckets_def)
    ultimately show ?thesis by simp
  qed
  have "\<exists>x. uniform_below ?K (slot_randomness ?K [] 3) 1 = Some x"
    by (simp add: uniform_below_def uniform_loop.simps)
  then show ?thesis
    using leader_selected [of "[demo_ticket]" ?K "[]" 3] unfolding a by (auto simp: demo_ticket_def)
qed

text \<open>C34. Drawing always ends, within the bound. The rejection loop returns a value below its bound, the first
  accepted output reduced modulo the bound; it returns nothing exactly when the bound is zero or each of the \<open>2^64\<close>
  outputs lies below the rejection threshold.\<close>

theorem uniform_below_total:
  "case uniform_below K seed n of
     None \<Rightarrow> n = 0 \<or> (\<forall>r. bucket_raw K seed r < (- n) mod n)
   | Some x \<Rightarrow> x < n \<and> (\<exists>k. x = bucket_raw K seed (of_nat k) mod n \<and> (- n) mod n \<le> bucket_raw K seed (of_nat k) \<and>
       (\<forall>j < k. bucket_raw K seed (of_nat j) < (- n) mod n))"
proof (cases "uniform_below K seed n")
  case None
  have "bucket_raw K seed r < (- n) mod n" if "n \<noteq> 0" for r
    using None that uniform_loop_None [of K seed n "(- n) mod n" 0 r] by (simp add: uniform_below_def)
  with None show ?thesis by auto
next
  case (Some x)
  then have "uniform_loop K seed n ((- n) mod n) 0 = Some x" by (simp add: uniform_below_def split: if_splits)
  from uniform_loop_Some [OF this] uniform_below_less [OF Some] Some show ?thesis by simp
qed

theorem uniform_below_total_witness:
  "\<exists>x. uniform_below (\<lambda>_. replicate 32 7) [] 10 = Some x \<and> x < 10"
proof -
  let ?K = "\<lambda>_ :: bytes. replicate 32 (7 :: u8)"
  have "replicate 8 (7 :: u8) = [7, 7, 7, 7, 7, 7, 7, 7]" by code_simp
  then have "bucket_raw ?K [] r = 0x0707070707070707" for r
    by (simp add: bucket_raw_def be_word_def from_be_def)
  then have "uniform_below ?K [] 10 \<noteq> None" by (simp add: uniform_below_def uniform_loop.simps)
  then show ?thesis using uniform_below_total [where K = ?K and seed = "[]" and n = 10] by auto
qed

end
