(* ===== verification/Node_Accounts.thy ===== *)
theory Node_Accounts
  imports Consensus_Hash Leader_Selection
begin

text \<open>
  \<open>src/src/app/accounts.rs\<close>: balances, vaults, tickets and the activation of validators in the prototype node.
  An unchecked \<open>+=\<close> or \<open>-=\<close> wraps, as it does in a release build. Reading the genesis file is left out.

  The parameter \<open>E\<close> holds what is not in the repository: Keccak-256, the text crates, the Unicode tables behind
  \<open>trim\<close> and \<open>to_lowercase\<close>, the test for a SEC1 public key, prehash signing, and the outcomes of the random generator.
\<close>

record node_env =
  ne_keccak :: hasher
  ne_crates :: text_crates
  ne_trim :: "text_bytes \<Rightarrow> text_bytes"
  ne_lower :: "text_bytes \<Rightarrow> text_bytes"
  ne_sec1 :: "bytes \<Rightarrow> bool"
  ne_sign :: "bytes \<Rightarrow> hash \<Rightarrow> bytes option"    \<comment> \<open>\<open>SigningKey::from_slice\<close>, \<open>sign_prehash\<close> and \<open>to_bytes\<close>\<close>
  ne_coin :: "nat \<Rightarrow> bool"              \<comment> \<open>\<open>gen_bool(0.07)\<close> of the successive generator states\<close>

section \<open>Text\<close>

definition normalize_address :: "node_env \<Rightarrow> text_bytes \<Rightarrow> text_bytes" where
  "normalize_address E input =
     (let s = ne_trim E input in
      if take 2 s = str ''0x'' \<or> take 2 s = str ''0X'' then str ''0x'' @ ne_lower E (drop 2 s) else ne_lower E s)"

text \<open>Lower-casing and trimming an address twice is the same as once.\<close>

definition norm_ok :: "node_env \<Rightarrow> bool" where
  "norm_ok E \<longleftrightarrow> (\<forall>a. normalize_address E (normalize_address E a) = normalize_address E a)"

definition normalize_validator_pubkey :: "node_env \<Rightarrow> text_bytes \<Rightarrow> text_bytes option" where
  "normalize_validator_pubkey E pubkey =
     (let s = ne_trim E pubkey; raw = (case strip_prefix (str ''0x'') s of Some r \<Rightarrow> r | None \<Rightarrow> s) in do {
      b \<leftarrow> tc_hex_decode (ne_crates E) raw;
      if \<not> ne_sec1 E b then None else Some (str ''0x'' @ tc_hex_encode (ne_crates E) b) })"

text \<open>\<open>format!("val-{next:04}")\<close> and its inverse on suffixes of four digits.\<close>

fun decimal :: "nat \<Rightarrow> text_bytes" where
  "decimal n = (if n < 10 then [of_nat (48 + n)] else decimal (n div 10) @ [of_nat (48 + n mod 10)])"

declare decimal.simps [simp del]

definition ascii_digit :: "u8 \<Rightarrow> bool" where
  "ascii_digit c \<longleftrightarrow> 48 \<le> c \<and> c \<le> 57"

definition parse_digits :: "text_bytes \<Rightarrow> nat" where
  "parse_digits s = foldl (\<lambda>a c. a * 10 + (unat c - 48)) 0 s"

definition validator_number :: "text_bytes \<Rightarrow> u64 option" where
  "validator_number i = do {
     suffix \<leftarrow> strip_prefix (str ''val-'') i;
     if length suffix \<noteq> 4 \<or> \<not> list_all ascii_digit suffix then None else Some (of_nat (parse_digits suffix)) }"

definition validator_name :: "u64 \<Rightarrow> text_bytes" where
  "validator_name n = (let d = decimal (unat n) in str ''val-'' @ replicate (4 - length d) 48 @ d)"

section \<open>Supply\<close>

definition etx_of :: "node_account \<Rightarrow> u128 option" where
  "etx_of a = map_of (na_balances a) TOKEN_ETX_ID"

definition total_supply_quarks :: "protocol_state \<Rightarrow> u128" where
  "total_supply_quarks s =
     (let account_supply = foldl saturating_add 0 (List.map_filter (\<lambda>(_, a). etx_of a) (ps_accounts s));
          vault_supply = foldl saturating_add 0 (map nv_vault_quarks (ps_validators s)) in
      saturating_add account_supply vault_supply)"

definition recompute_base_reward_per_block :: "protocol_state \<Rightarrow> protocol_state" where
  "recompute_base_reward_per_block s = s\<lparr>ps_base_reward_per_block_quarks :=
     saturating_mul (total_supply_quarks s) (ucast (ps_annual_inflation_ppb s)) div INFLATION_RATE_DENOMINATOR div SLOTS_PER_YEAR\<rparr>"

section \<open>Vaults\<close>

definition validator_ticket_count :: "protocol_state \<Rightarrow> text_bytes \<Rightarrow> nat" where
  "validator_ticket_count s i = length (filter (\<lambda>t. nt_owner t = i \<and> \<not> nt_dead t) (ps_tickets s))"

definition validator_vault_minimum_quarks :: "protocol_state \<Rightarrow> text_bytes \<Rightarrow> u128" where
  "validator_vault_minimum_quarks s i =
     (let n = validator_ticket_count s i in
      if n = 0 then 0
      else saturating_add (saturating_mul TICKET_COST_QUARKS 5) (saturating_mul (TICKET_COST_QUARKS div 2) (of_nat n)))"

definition find_validator :: "protocol_state \<Rightarrow> text_bytes \<Rightarrow> node_validator option" where
  "find_validator s i = find (\<lambda>v. nv_id v = i) (ps_validators s)"

abbreviation update_validator :: "text_bytes \<Rightarrow> (node_validator \<Rightarrow> node_validator) \<Rightarrow> protocol_state \<Rightarrow> protocol_state" where
  "update_validator i f s \<equiv> s\<lparr>ps_validators := update_first (\<lambda>v. nv_id v = i) f (ps_validators s)\<rparr>"

abbreviation has_validator :: "protocol_state \<Rightarrow> text_bytes \<Rightarrow> bool" where
  "has_validator s i \<equiv> \<exists>v \<in> set (ps_validators s). nv_id v = i"

definition validator_locked_reward_quarks :: "protocol_state \<Rightarrow> text_bytes \<Rightarrow> u128" where
  "validator_locked_reward_quarks s i = (case find_validator s i of Some v \<Rightarrow> nv_locked_reward_quarks v | None \<Rightarrow> 0)"

definition validator_withdrawable_vault_quarks :: "protocol_state \<Rightarrow> text_bytes \<Rightarrow> u128" where
  "validator_withdrawable_vault_quarks s i = (case find_validator s i of
     None \<Rightarrow> 0
   | Some v \<Rightarrow> saturating_sub (saturating_sub (nv_vault_quarks v) (nv_locked_reward_quarks v)) (validator_vault_minimum_quarks s i))"

text \<open>\<open>entry(k).or_default().push(x)\<close>\<close>

definition push_entry :: "'k::linorder \<Rightarrow> 'a \<Rightarrow> ('k \<times> 'a list) list \<Rightarrow> ('k \<times> 'a list) list" where
  "push_entry k x m = bm_insert k ((case map_of m k of Some xs \<Rightarrow> xs | None \<Rightarrow> []) @ [x]) m"

abbreviation bm_remove :: "'k \<Rightarrow> ('k \<times> 'v) list \<Rightarrow> ('k \<times> 'v) list" where
  "bm_remove k m \<equiv> filter (\<lambda>(k', _). k' \<noteq> k) m"

definition lock_validator_reward :: "text_bytes \<Rightarrow> u128 \<Rightarrow> protocol_state \<Rightarrow> protocol_state" where
  "lock_validator_reward i amount s =
     (if amount = 0 \<or> find_validator s i = None then s
      else (update_validator i (\<lambda>v. v\<lparr>nv_vault_quarks := saturating_add (nv_vault_quarks v) amount,
                nv_locked_reward_quarks := saturating_add (nv_locked_reward_quarks v) amount\<rparr>) s)
        \<lparr>ps_reward_unlocks := push_entry (saturating_add (ps_epoch_index s) REWARD_UNLOCK_DELAY_EPOCHS) (i, amount) (ps_reward_unlocks s)\<rparr>)"

fun unlock_rewards :: "(text_bytes \<times> u128) list \<Rightarrow> protocol_state \<Rightarrow> protocol_state" where
  "unlock_rewards [] s = s"
| "unlock_rewards ((i, amount) # rs) s = unlock_rewards rs (update_validator i
     (\<lambda>v. v\<lparr>nv_locked_reward_quarks := saturating_sub (nv_locked_reward_quarks v) amount\<rparr>) s)"

definition unlock_rewards_for_epoch :: "u64 \<Rightarrow> protocol_state \<Rightarrow> protocol_state" where
  "unlock_rewards_for_epoch epoch s = (case map_of (ps_reward_unlocks s) epoch of
     None \<Rightarrow> s
   | Some rs \<Rightarrow> unlock_rewards rs (s\<lparr>ps_reward_unlocks := bm_remove epoch (ps_reward_unlocks s)\<rparr>))"

section \<open>Balances\<close>

definition new_account :: "text_bytes \<Rightarrow> node_account" where
  "new_account key = \<lparr>na_id = key, na_private_key_hex = [], na_public_key_hex = [], na_address = key, na_nonce = 0, na_balances = []\<rparr>"

definition ensure_account_exists :: "node_env \<Rightarrow> text_bytes \<Rightarrow> protocol_state \<Rightarrow> protocol_state" where
  "ensure_account_exists E i s =
     (let key = normalize_address E i in
      if map_of (ps_accounts s) key \<noteq> None then s
      else s\<lparr>ps_accounts := bm_insert key (new_account key) (ps_accounts s)\<rparr>)"

definition balance_or_zero :: "node_account \<Rightarrow> u64 \<Rightarrow> u128" where
  "balance_or_zero a token = (case map_of (na_balances a) token of Some b \<Rightarrow> b | None \<Rightarrow> 0)"

definition credit_balance :: "node_env \<Rightarrow> text_bytes \<Rightarrow> u64 \<Rightarrow> u128 \<Rightarrow> protocol_state \<Rightarrow> protocol_state" where
  "credit_balance E i token amount s =
     (let k = normalize_address E i; s = ensure_account_exists E k s in
      case map_of (ps_accounts s) k of
        None \<Rightarrow> s
      | Some a \<Rightarrow> s\<lparr>ps_accounts := bm_insert k (a\<lparr>na_balances := bm_insert token (balance_or_zero a token + amount) (na_balances a)\<rparr>) (ps_accounts s)\<rparr>)"

text \<open>A failed debit leaves the zero entry behind that \<open>or_insert\<close> made.\<close>

definition debit_balance :: "node_env \<Rightarrow> text_bytes \<Rightarrow> u64 \<Rightarrow> u128 \<Rightarrow> protocol_state \<Rightarrow> bool \<times> protocol_state" where
  "debit_balance E i token amount s =
     (let k = normalize_address E i; s = ensure_account_exists E k s in
      case map_of (ps_accounts s) k of
        None \<Rightarrow> (False, s)
      | Some a \<Rightarrow>
          let bal = balance_or_zero a token;
              put = (\<lambda>b. s\<lparr>ps_accounts := bm_insert k (a\<lparr>na_balances := bm_insert token b (na_balances a)\<rparr>) (ps_accounts s)\<rparr>) in
          if bal < amount then (False, put bal) else (True, put (bal - amount)))"

definition can_pay_fee :: "node_env \<Rightarrow> protocol_state \<Rightarrow> text_bytes \<Rightarrow> u64 \<Rightarrow> u128 \<Rightarrow> bool" where
  "can_pay_fee E s i token amount =
     (case map_of (ps_accounts s) (normalize_address E i) of
        None \<Rightarrow> False
      | Some a \<Rightarrow> (case map_of (na_balances a) token of None \<Rightarrow> False | Some bal \<Rightarrow> bal \<ge> amount))"

definition can_pay_value :: "node_env \<Rightarrow> protocol_state \<Rightarrow> text_bytes \<Rightarrow> u64 \<Rightarrow> u128 \<Rightarrow> bool" where
  "can_pay_value E s i token value =
     (case map_of (ps_accounts s) (normalize_address E i) of
        None \<Rightarrow> False
      | Some a \<Rightarrow> (case map_of (na_balances a) token of None \<Rightarrow> False | Some bal \<Rightarrow> bal \<ge> value))"

section \<open>Validators\<close>

definition validator_owner_account :: "protocol_state \<Rightarrow> text_bytes \<Rightarrow> text_bytes option" where
  "validator_owner_account s i = (case find_validator s i of None \<Rightarrow> None | Some v \<Rightarrow> nv_owner_account v)"

definition validator_pubkey_registered :: "protocol_state \<Rightarrow> text_bytes \<Rightarrow> bool" where
  "validator_pubkey_registered s key \<longleftrightarrow> (\<exists>v \<in> set (ps_validators s). nv_validator_pubkey v = Some key)"

definition next_pending_validator_id :: "protocol_state \<Rightarrow> text_bytes" where
  "next_pending_validator_id s =
     (let ids = map nv_id (ps_validators s) @
            map tx_to (filter (\<lambda>t. tx_kind_of t = RegisterValidator) (ps_mempool s @ ps_pbm_pool s));
          next_id = saturating_add (foldl max 0 (List.map_filter validator_number ids)) 1 in
      validator_name next_id)"

definition register_validator_record :: "node_env \<Rightarrow> text_bytes \<Rightarrow> text_bytes \<Rightarrow> text_bytes \<Rightarrow> text_bytes \<Rightarrow> protocol_state \<Rightarrow> protocol_state" where
  "register_validator_record E i owner key reward s = s\<lparr>ps_validators := ps_validators s @
     [\<lparr>nv_id = i, nv_owner_account = Some (normalize_address E owner), nv_validator_pubkey = Some key,
       nv_reward_address = Some (normalize_address E reward), nv_state = Inactive, nv_vault_quarks = 0, nv_locked_reward_quarks = 0,
       nv_miss_counter = 0, nv_double_sign_offenses = 0, nv_blocks_this_sub_epoch = 0, nv_cooldown_until_epoch = None\<rparr>]\<rparr>"

definition activation :: "u128 \<Rightarrow> bool \<Rightarrow> node_validator \<Rightarrow> node_validator" where
  "activation minimum live v =
     (if nv_state v = Jailed \<or> nv_state v = PunishedCooldown then v
      else if nv_vault_quarks v < minimum then (if nv_state v = Active then v\<lparr>nv_state := PausedLowVault\<rparr> else v)
      else if live then (if nv_state v = Inactive \<or> nv_state v = PausedLowVault then v\<lparr>nv_state := Active\<rparr> else v)
      else if nv_state v = Active then v\<lparr>nv_state := Inactive\<rparr> else v)"

definition refresh_validator_activation :: "text_bytes \<Rightarrow> protocol_state \<Rightarrow> protocol_state" where
  "refresh_validator_activation i s =
     (let minimum = validator_vault_minimum_quarks s i;
          live = (\<exists>t \<in> set (ps_tickets s). nt_owner t = i \<and> \<not> nt_dead t \<and> \<not> nt_muted t \<and> \<not> nt_retiring t) in
      update_validator i (activation minimum live) s)"

section \<open>Tickets\<close>

definition ticket_bucket :: "u64 \<Rightarrow> u8" where
  "ticket_bucket i = ucast (i mod 254) + 2"

definition new_ticket :: "u64 \<Rightarrow> text_bytes \<Rightarrow> node_ticket" where
  "new_ticket i owner = \<lparr>nt_id = i, nt_owner = owner, nt_bucket = ticket_bucket i, nt_muted = False, nt_dead = False,
     nt_retiring = False, nt_retire_requested_epoch = None, nt_retire_effective_epoch = None\<rparr>"

fun mint_tickets :: "nat \<Rightarrow> text_bytes \<Rightarrow> node_ticket list \<Rightarrow> node_ticket list" where
  "mint_tickets 0 i ts = ts"
| "mint_tickets (Suc n) i ts =
     (let next_id = saturating_add (foldl max 0 (map nt_id ts)) 1 in mint_tickets n i (ts @ [new_ticket next_id i]))"

definition burn_and_mint_tickets :: "text_bytes \<Rightarrow> u64 \<Rightarrow> protocol_state \<Rightarrow> protocol_state" where
  "burn_and_mint_tickets i count s =
     (let burned = saturating_mul TICKET_COST_QUARKS (ucast count);
          s = s\<lparr>ps_ticket_burned_total := saturating_add (ps_ticket_burned_total s) burned,
                ps_sub_epoch_burned_quarks := saturating_add (ps_sub_epoch_burned_quarks s) burned,
                ps_epoch_burned_quarks := saturating_add (ps_epoch_burned_quarks s) burned,
                ps_tickets := mint_tickets (unat count) i (ps_tickets s)\<rparr> in
      if has_validator s i then s
      else s\<lparr>ps_validators := ps_validators s @ [\<lparr>nv_id = i, nv_owner_account = None, nv_validator_pubkey = None, nv_reward_address = None,
             nv_state = Active, nv_vault_quarks = 0, nv_locked_reward_quarks = 0, nv_miss_counter = 0, nv_double_sign_offenses = 0,
             nv_blocks_this_sub_epoch = 0, nv_cooldown_until_epoch = None\<rparr>]\<rparr>)"

section \<open>Eligibility and queues\<close>

definition validator_active :: "protocol_state \<Rightarrow> text_bytes \<Rightarrow> bool" where
  "validator_active s i \<longleftrightarrow> (\<exists>v \<in> set (ps_validators s). nv_id v = i \<and> nv_state v = Active)"

definition eligible_tickets :: "protocol_state \<Rightarrow> node_ticket list" where
  "eligible_tickets s = filter (\<lambda>t. \<not> nt_dead t \<and> \<not> nt_muted t \<and> validator_active s (nt_owner t)) (ps_tickets s)"

definition total_eligible_tickets :: "protocol_state \<Rightarrow> nat" where
  "total_eligible_tickets s = length (eligible_tickets s)"

definition pbm_allowed_kind :: "tx_kind \<Rightarrow> bool" where
  "pbm_allowed_kind k \<longleftrightarrow> k = RegisterValidator \<or> k = WalletToVault \<or> k = BuyTicket"

datatype enqueue_error = Kind_not_allowed | Pbm_limit | Not_encodable

definition enqueue_standard_or_pbm :: "node_env \<Rightarrow> tx \<Rightarrow> protocol_state \<Rightarrow> (enqueue_error + hash \<times> u64 \<times> tx) \<times> protocol_state" where
  "enqueue_standard_or_pbm E t s =
     (if total_eligible_tickets s = 0 then
        (if \<not> pbm_allowed_kind (tx_kind_of t) then (Inl Kind_not_allowed, s)
         else let pending = length (filter (\<lambda>p. tx_from p = tx_from t) (ps_pbm_pool s)) in
         if pending \<ge> PBM_PENDING_PER_ACCOUNT_LIMIT then (Inl Pbm_limit, s)
         else let t = t\<lparr>tx_valid_after_slot := saturating_add (saturating_add (ps_slot s) PBM_VALID_AFTER_SLOTS) (of_nat pending)\<rparr> in
         (case tx_hash (ne_keccak E) (ne_crates E) t of
            None \<Rightarrow> (Inl Not_encodable, s)
          | Some h \<Rightarrow> (Inr (h, tx_valid_after_slot t, t), s\<lparr>ps_pbm_pool := ps_pbm_pool s @ [t]\<rparr>)))
      else let t = t\<lparr>tx_valid_after_slot := 0\<rparr> in
        (case tx_hash (ne_keccak E) (ne_crates E) t of
           None \<Rightarrow> (Inl Not_encodable, s)
         | Some h \<Rightarrow> (Inr (h, 0, t), s\<lparr>ps_mempool := ps_mempool s @ [t]\<rparr>)))"

end
