(* ===== verification/Node_Consensus.thy ===== *)
theory Node_Consensus
  imports Node_Accounts
begin

text \<open>
  \<open>src/src/app/consensus.rs\<close>: the slot engine of the prototype node. A slot is executed on a staged copy of the
  state, recorded, and installed in one assignment, or discarded. \<open>None\<close> as the result of a block builder is the panic
  of its \<open>expect\<close>; \<open>rng\<close> counts the draws from the random generator. The hooks that only tests set
  are left out.
\<close>

section \<open>Leaders and blocks\<close>

definition canonical_parent_hash :: "node_env \<Rightarrow> protocol_state \<Rightarrow> u64 \<Rightarrow> hash option" where
  "canonical_parent_hash E s slot =
     (if slot = 0 then Some ZERO_HASH
      else map_option (block_hash (ne_keccak E)) (map_of (ps_blocks s) (saturating_sub slot 1)))"

definition select_leader :: "node_env \<Rightarrow> protocol_state \<Rightarrow> text_bytes \<times> u64" where
  "select_leader E s =
     (case historical_block_hash (ne_keccak E) (ps_blocks s) (ps_slot s) of
        None \<Rightarrow> (str ''protocol'', ZERO_TICKET_ID)
      | Some h \<Rightarrow> (case select_leader_ticket (ne_keccak E) h (ps_slot s) (eligible_tickets s) of
          Some l \<Rightarrow> l | None \<Rightarrow> (str ''protocol'', ZERO_TICKET_ID)))"

definition start_next_slot :: "node_env \<Rightarrow> protocol_state \<Rightarrow> protocol_state" where
  "start_next_slot E s =
     (let s = s\<lparr>ps_slot := ps_slot s + 1, ps_current_result := None\<rparr>;
          s = s\<lparr>ps_mode := (if total_eligible_tickets s = 0 then Pbm_mode else Normal)\<rparr>;
          (leader, ticket) = select_leader E s in
      s\<lparr>ps_current_leader := leader, ps_current_ticket_id := ticket, ps_exec_status := Executing\<rparr>)"

definition is_local_leader :: "protocol_state \<Rightarrow> bool" where
  "is_local_leader s = (case ps_local_validator_id s of None \<Rightarrow> False | Some i \<Rightarrow> ps_current_leader s = i)"

definition build_block ::
  "node_env \<Rightarrow> protocol_state \<Rightarrow> block_kind \<Rightarrow> text_bytes option \<Rightarrow> u64 \<Rightarrow> tx list \<Rightarrow> u64 \<Rightarrow> protocol_data \<Rightarrow> block option" where
  "build_block E s kind proposer ticket ts gas pd = do {
     parent \<leftarrow> canonical_parent_hash E s (ps_slot s);
     block_new (ne_keccak E) (ne_crates E) (ps_slot s) kind parent proposer ticket ts gas pd }"

section \<open>Executing transactions\<close>

text \<open>The five branches of \<open>validator_block\<close>: whether the transaction was executed, and the state after it. A transaction
  that is dropped leaves the state as it was. \<open>execute_pbm_tx\<close> runs the first three in the same way.\<close>

definition execute_register :: "node_env \<Rightarrow> tx \<Rightarrow> protocol_state \<Rightarrow> bool \<times> protocol_state" where
  "execute_register E t s =
     (case registration_fields (ne_crates E) (tx_data t) of None \<Rightarrow> (False, s) | Some (key, reward) \<Rightarrow>
      case normalize_validator_pubkey E key of None \<Rightarrow> (False, s) | Some key \<Rightarrow>
      if has_validator s (tx_to t) \<or> validator_pubkey_registered s key \<or> \<not> can_pay_fee E s (tx_from t) TOKEN_ETX_ID (ucast (tx_fee_quarks t))
      then (False, s)
      else (case debit_balance E (tx_from t) TOKEN_ETX_ID (ucast (tx_fee_quarks t)) s of
          (False, s) \<Rightarrow> (False, s)
        | (True, s) \<Rightarrow> (True, register_validator_record E (tx_to t) (tx_from t) key reward s)))"

definition execute_buy :: "node_env \<Rightarrow> tx \<Rightarrow> protocol_state \<Rightarrow> bool \<times> protocol_state" where
  "execute_buy E t s =
     (let fee = ucast (tx_fee_quarks t) in
      if \<not> (unat (tx_value t) < 2 ^ 64 \<and> tx_value t > 0) then (False, s)
      else let cost = saturating_mul TICKET_COST_QUARKS (tx_value t); required = saturating_add cost fee in
      if validator_owner_account s (tx_to t) \<noteq> Some (tx_from t) \<or> \<not> can_pay_fee E s (tx_from t) TOKEN_ETX_ID required
      then (False, s)
      else (case debit_balance E (tx_from t) TOKEN_ETX_ID cost s of
          (False, s) \<Rightarrow> (False, s)
        | (True, s) \<Rightarrow> (case debit_balance E (tx_from t) TOKEN_ETX_ID fee s of
            (False, s) \<Rightarrow> (False, credit_balance E (tx_from t) TOKEN_ETX_ID cost s)
          | (True, s) \<Rightarrow> (True, refresh_validator_activation (tx_to t) (burn_and_mint_tickets (tx_to t) (ucast (tx_value t)) s)))))"

definition execute_deposit :: "node_env \<Rightarrow> tx \<Rightarrow> protocol_state \<Rightarrow> bool \<times> protocol_state" where
  "execute_deposit E t s =
     (let fee = ucast (tx_fee_quarks t); required = saturating_add (tx_value t) fee in
      if validator_owner_account s (tx_to t) \<noteq> Some (tx_from t) \<or> \<not> can_pay_fee E s (tx_from t) TOKEN_ETX_ID required \<or>
         \<not> has_validator s (tx_to t)
      then (False, s)
      else (case debit_balance E (tx_from t) TOKEN_ETX_ID (tx_value t) s of
          (False, s) \<Rightarrow> (False, s)
        | (True, s) \<Rightarrow> (case debit_balance E (tx_from t) TOKEN_ETX_ID fee s of
            (False, s) \<Rightarrow> (False, credit_balance E (tx_from t) TOKEN_ETX_ID (tx_value t) s)
          | (True, s) \<Rightarrow>
              if has_validator s (tx_to t)
              then (True, refresh_validator_activation (tx_to t)
                      (update_validator (tx_to t) (\<lambda>v. v\<lparr>nv_vault_quarks := saturating_add (nv_vault_quarks v) (tx_value t)\<rparr>) s))
              else (False, credit_balance E (tx_from t) TOKEN_ETX_ID (tx_value t) s))))"

definition execute_withdraw :: "node_env \<Rightarrow> tx \<Rightarrow> protocol_state \<Rightarrow> bool \<times> protocol_state" where
  "execute_withdraw E t s =
     (let fee = ucast (tx_fee_quarks t) in
      if validator_owner_account s (tx_to t) \<noteq> Some (tx_from t) \<or> \<not> can_pay_fee E s (tx_from t) TOKEN_ETX_ID fee \<or>
         tx_value t > validator_withdrawable_vault_quarks s (tx_to t)
      then (False, s)
      else (case debit_balance E (tx_from t) TOKEN_ETX_ID fee s of
          (False, s) \<Rightarrow> (False, s)
        | (True, s) \<Rightarrow>
            if has_validator s (tx_to t)
            then (True, refresh_validator_activation (tx_to t) (credit_balance E (tx_from t) TOKEN_ETX_ID (tx_value t)
                    (update_validator (tx_to t) (\<lambda>v. v\<lparr>nv_vault_quarks := nv_vault_quarks v - tx_value t\<rparr>) s)))
            else (False, s)))"

definition execute_transfer :: "node_env \<Rightarrow> tx \<Rightarrow> protocol_state \<Rightarrow> bool \<times> protocol_state" where
  "execute_transfer E t s =
     (let fee = ucast (tx_fee_quarks t);
          can_pay = (if tx_token_id t = tx_fee_token_id t then can_pay_fee E s (tx_from t) (tx_token_id t) (saturating_add (tx_value t) fee)
                     else can_pay_value E s (tx_from t) (tx_token_id t) (tx_value t) \<and> can_pay_fee E s (tx_from t) (tx_fee_token_id t) fee) in
      if \<not> can_pay then (False, s)
      else (case debit_balance E (tx_from t) (tx_token_id t) (tx_value t) s of
          (False, s) \<Rightarrow> (False, s)
        | (True, s) \<Rightarrow>
            let s = credit_balance E (tx_to t) (tx_token_id t) (tx_value t) s in
            (case debit_balance E (tx_from t) (tx_fee_token_id t) fee s of
               (False, s) \<Rightarrow>
                 (False, credit_balance E (tx_from t) (tx_token_id t) (tx_value t) (snd (debit_balance E (tx_to t) (tx_token_id t) (tx_value t) s)))
             | (True, s) \<Rightarrow> (True, s))))"

definition execute_tx :: "node_env \<Rightarrow> tx \<Rightarrow> protocol_state \<Rightarrow> bool \<times> protocol_state" where
  "execute_tx E t s = (case tx_kind_of t of
     RegisterValidator \<Rightarrow> execute_register E t s
   | BuyTicket \<Rightarrow> execute_buy E t s
   | WalletToVault \<Rightarrow> execute_deposit E t s
   | VaultToWallet \<Rightarrow> execute_withdraw E t s
   | _ \<Rightarrow> execute_transfer E t s)"

text \<open>The loop over the mempool; its last argument is the mempool of the state. The first transaction that is not yet
  valid, or that would exceed the gas limit or overflow the fees, ends it, and so does a coin toss after an
  executed one.\<close>

fun validator_loop :: "node_env \<Rightarrow> nat \<Rightarrow> protocol_state \<Rightarrow> u64 \<Rightarrow> u64 \<Rightarrow> tx list \<Rightarrow> tx list \<Rightarrow> nat \<times> protocol_state \<times> u64 \<times> u64 \<times> tx list" where
  "validator_loop E rng s gas fees ts [] = (rng, s, gas, fees, ts)"
| "validator_loop E rng s gas fees ts (t # pool) =
     (if length ts \<ge> MAX_BLOCK_TRANSACTIONS then (rng, s, gas, fees, ts)
      else if tx_chain_id t \<noteq> CHAIN_ID then validator_loop E rng (s\<lparr>ps_mempool := pool\<rparr>) gas fees ts pool
      else if tx_valid_after_slot t > ps_slot s then (rng, s, gas, fees, ts)
      else case checked_add gas (tx_gas t) of None \<Rightarrow> (rng, s, gas, fees, ts) | Some next_gas \<Rightarrow>
      if next_gas > MAX_BLOCK_GAS then (rng, s, gas, fees, ts)
      else case checked_add fees (tx_fee_quarks t) of None \<Rightarrow> (rng, s, gas, fees, ts) | Some next_fees \<Rightarrow>
      (case execute_tx E t (s\<lparr>ps_mempool := pool\<rparr>) of
         (False, s) \<Rightarrow> validator_loop E rng s gas fees ts pool
       | (True, s) \<Rightarrow>
           if ne_coin E rng then (Suc rng, s, next_gas, next_fees, ts @ [t])
           else validator_loop E (Suc rng) s next_gas next_fees (ts @ [t]) pool))"

section \<open>Producing a block\<close>

definition add_burn :: "u128 \<Rightarrow> protocol_state \<Rightarrow> protocol_state" where
  "add_burn fees s = s\<lparr>ps_fees_burned_total := saturating_add (ps_fees_burned_total s) fees,
     ps_burn_this_sub_epoch := saturating_add (ps_burn_this_sub_epoch s) fees,
     ps_sub_epoch_burned_quarks := saturating_add (ps_sub_epoch_burned_quarks s) fees,
     ps_epoch_burned_quarks := saturating_add (ps_epoch_burned_quarks s) fees\<rparr>"

definition reward_leader :: "protocol_state \<Rightarrow> protocol_state" where
  "reward_leader s =
     (let base_reward = ps_base_reward_per_block_quarks s; leader = ps_current_leader s;
          s = update_validator leader (\<lambda>v. v\<lparr>nv_blocks_this_sub_epoch := nv_blocks_this_sub_epoch v + 1,
                nv_miss_counter := (if nv_miss_counter v > 0 then nv_miss_counter v - 1 else nv_miss_counter v)\<rparr>) s in
      if has_validator s leader then
        let s = lock_validator_reward leader base_reward s in
        s\<lparr>ps_base_issuance_total := saturating_add (ps_base_issuance_total s) base_reward,
          ps_sub_epoch_issued_quarks := saturating_add (ps_sub_epoch_issued_quarks s) base_reward,
          ps_epoch_issued_quarks := saturating_add (ps_epoch_issued_quarks s) base_reward\<rparr>
      else s)"

definition validator_block :: "node_env \<Rightarrow> nat \<Rightarrow> protocol_state \<Rightarrow> (block \<times> nat \<times> protocol_state) option" where
  "validator_block E rng s =
     (let (rng, s, gas, fees, ts) = validator_loop E rng s 0 0 [] (ps_mempool s);
          s = reward_leader (add_burn (ucast fees) s) in do {
      b \<leftarrow> build_block E s Validator (Some (ps_current_leader s)) (ps_current_ticket_id s) ts gas
             \<lparr>pd_missed_proposer = None, pd_fees_burned = fees\<rparr>;
      Some (b, rng, s) })"

definition miss_validator :: "u64 \<Rightarrow> node_validator \<Rightarrow> node_validator" where
  "miss_validator epoch v =
     (let v = v\<lparr>nv_miss_counter := nv_miss_counter v + 1\<rparr> in
      if nv_miss_counter v \<ge> 10 then v\<lparr>nv_state := PunishedCooldown, nv_cooldown_until_epoch := Some (epoch + 1)\<rparr> else v)"

definition protocol_miss_block :: "node_env \<Rightarrow> protocol_state \<Rightarrow> (block \<times> protocol_state) option" where
  "protocol_miss_block E s =
     (let leader = ps_current_leader s;
          s = (if ps_local_validator_id s \<noteq> Some leader then s else update_validator leader (miss_validator (ps_epoch_index s)) s) in do {
      b \<leftarrow> build_block E s ProtocolMiss None ZERO_TICKET_ID [] 0 \<lparr>pd_missed_proposer = Some leader, pd_fees_burned = 0\<rparr>;
      Some (b, s) })"

definition protocol_collision_block :: "node_env \<Rightarrow> protocol_state \<Rightarrow> block option" where
  "protocol_collision_block E s = build_block E s ProtocolCollision None ZERO_TICKET_ID [] 0 protocol_data_empty"

text \<open>The candidates are sorted by validity slot and hash with a stable sort; the first one is the least, the earliest among equals.\<close>

definition select_pbm_tx_index :: "node_env \<Rightarrow> protocol_state \<Rightarrow> nat option" where
  "select_pbm_tx_index E s =
     (let candidates = List.map_filter (\<lambda>(i, t). if pbm_allowed_kind (tx_kind_of t) \<and> tx_valid_after_slot t \<le> ps_slot s
            then map_option (\<lambda>h. (i, tx_valid_after_slot t, h)) (tx_hash (ne_keccak E) (ne_crates E) t) else None)
            (zip [0..<length (ps_pbm_pool s)] (ps_pbm_pool s)) in
      case sort_key (\<lambda>(i, after, h). (after, h)) candidates of [] \<Rightarrow> None | (i, _, _) # _ \<Rightarrow> Some i)"

definition execute_pbm_tx :: "node_env \<Rightarrow> tx \<Rightarrow> protocol_state \<Rightarrow> (u64 \<times> u64) option \<times> protocol_state" where
  "execute_pbm_tx E t s =
     (let (done, s) = (case tx_kind_of t of
            RegisterValidator \<Rightarrow> execute_register E t s
          | WalletToVault \<Rightarrow> execute_deposit E t s
          | BuyTicket \<Rightarrow> execute_buy E t s
          | _ \<Rightarrow> (False, s)) in
      (if done then Some (tx_gas t, tx_fee_quarks t) else None, s))"

definition deactivate_pbm_if_ready :: "protocol_state \<Rightarrow> protocol_state" where
  "deactivate_pbm_if_ready s =
     (if total_eligible_tickets s = 0 then s
      else s\<lparr>ps_mode := Normal, ps_mempool := ps_mempool s @ ps_pbm_pool s, ps_pbm_pool := [], ps_events := Ev_pbm_deactivated # ps_events s\<rparr>)"

definition protocol_no_tickets_block :: "node_env \<Rightarrow> protocol_state \<Rightarrow> (block \<times> protocol_state) option" where
  "protocol_no_tickets_block E s =
     (let (gas, fees, ts, s) = (case select_pbm_tx_index E s of
            None \<Rightarrow> (0, 0, [], s)
          | Some i \<Rightarrow>
              let t = ps_pbm_pool s ! i; s = s\<lparr>ps_pbm_pool := take i (ps_pbm_pool s) @ drop (Suc i) (ps_pbm_pool s)\<rparr> in
              (case execute_pbm_tx E t s of
                 (None, s) \<Rightarrow> (0, 0, [], s)
               | (Some (gas, fees), s) \<Rightarrow> (gas, fees, [t], add_burn (ucast fees) s)));
          s = deactivate_pbm_if_ready s in do {
      b \<leftarrow> build_block E s ProtocolNoTickets None ZERO_TICKET_ID ts gas \<lparr>pd_missed_proposer = None, pd_fees_burned = fees\<rparr>;
      Some (b, s) })"

section \<open>Boundaries\<close>

fun mint_offsets :: "text_bytes list \<Rightarrow> u128 \<Rightarrow> protocol_state \<Rightarrow> protocol_state" where
  "mint_offsets [] opb s = s"
| "mint_offsets (i # is) opb s = mint_offsets is opb
     (if has_validator s i then
        let s = lock_validator_reward i opb s in
        s\<lparr>ps_burn_offset_total := ps_burn_offset_total s + opb, ps_epoch_issued_quarks := saturating_add (ps_epoch_issued_quarks s) opb\<rparr>
      else s)"

definition close_sub_epoch :: "protocol_state \<Rightarrow> protocol_state" where
  "close_sub_epoch s =
     (let proposers = List.map_filter id (ps_blocks_this_sub_epoch s);
          produced = (of_nat (length proposers) :: u64);
          s = (if produced > 0 then
                 let opb = ucast (ps_burn_offset_k_permille s) * ps_burn_this_sub_epoch s div 1000 div ucast produced in mint_offsets proposers opb s
               else s);
          s = s\<lparr>ps_validators := map (\<lambda>v. v\<lparr>nv_blocks_this_sub_epoch := 0\<rparr>) (ps_validators s), ps_burn_this_sub_epoch := 0,
                ps_sub_epoch_issued_quarks := 0, ps_sub_epoch_burned_quarks := 0, ps_blocks_this_sub_epoch := [],
                ps_sub_epoch_index := ps_sub_epoch_index s + 1\<rparr> in
      s\<lparr>ps_events := Ev_sub_epoch (ps_sub_epoch_index s) # ps_events s\<rparr>)"

definition rotate_epoch_seed :: "node_env \<Rightarrow> protocol_state \<Rightarrow> protocol_state" where
  "rotate_epoch_seed E s = s\<lparr>ps_epoch_seed := hash_with_domain (ne_keccak E) EPOCH_SEED_DOMAIN (ps_epoch_seed s @ be_bytes (ps_epoch_index s))\<rparr>"

definition end_cooldown :: "u64 \<Rightarrow> (text_bytes \<Rightarrow> u128) \<Rightarrow> node_validator \<Rightarrow> node_validator \<times> bool" where
  "end_cooldown epoch minimum v =
     (if nv_state v = Jailed then (v, False)
      else case nv_cooldown_until_epoch v of
        Some until \<Rightarrow>
          if nv_state v = PunishedCooldown \<and> epoch \<ge> until then
            (if nv_vault_quarks v \<ge> minimum (nv_id v) then (v\<lparr>nv_cooldown_until_epoch := None, nv_state := Inactive\<rparr>, True)
             else (v\<lparr>nv_cooldown_until_epoch := None, nv_state := PausedLowVault\<rparr>, False))
          else (v, False)
      | None \<Rightarrow> (v, False))"

definition process_epoch_validator_transitions :: "protocol_state \<Rightarrow> protocol_state" where
  "process_epoch_validator_transitions s =
     (let rs = map (end_cooldown (ps_epoch_index s) (validator_vault_minimum_quarks s)) (ps_validators s);
          refresh_ids = map (nv_id \<circ> fst) (filter snd rs) in
      fold refresh_validator_activation refresh_ids (s\<lparr>ps_validators := map fst rs\<rparr>))"

definition kill_ticket :: "node_ticket \<Rightarrow> node_ticket" where
  "kill_ticket t = t\<lparr>nt_dead := True, nt_muted := False, nt_retiring := False, nt_bucket := 0\<rparr>"

fun kill_tickets :: "u64 list \<Rightarrow> node_ticket list \<Rightarrow> text_bytes list \<times> node_ticket list" where
  "kill_tickets [] ts = ([], ts)"
| "kill_tickets (i # is) ts = (case find (\<lambda>t. nt_id t = i) ts of
     None \<Rightarrow> kill_tickets is ts
   | Some t \<Rightarrow> (let (owners, ts) = kill_tickets is (update_first (\<lambda>t. nt_id t = i) kill_ticket ts) in (nt_owner t # owners, ts)))"

definition finalize_retire_for_epoch :: "u64 \<Rightarrow> protocol_state \<Rightarrow> protocol_state" where
  "finalize_retire_for_epoch epoch s = (case map_of (ps_retire_finalize s) epoch of
     None \<Rightarrow> s
   | Some ids \<Rightarrow>
       let (owners, ts) = kill_tickets ids (ps_tickets s) in
       fold refresh_validator_activation (remdups_adj (sort owners))
         (s\<lparr>ps_retire_finalize := bm_remove epoch (ps_retire_finalize s), ps_tickets := ts\<rparr>))"

definition close_epoch :: "node_env \<Rightarrow> protocol_state \<Rightarrow> protocol_state" where
  "close_epoch E s =
     (let next_epoch = ps_epoch_index s + 1;
          s = (if next_epoch mod EPOCHS_PER_YEAR = 0
               then recompute_base_reward_per_block (s\<lparr>ps_annual_inflation_ppb := max (ps_annual_inflation_ppb s * 9 div 10) 5000000\<rparr>)
               else s);
          s = unlock_rewards_for_epoch next_epoch (s\<lparr>ps_epoch_index := next_epoch\<rparr>);
          s = s\<lparr>ps_epoch_issued_quarks := 0, ps_epoch_burned_quarks := 0\<rparr>;
          s = finalize_retire_for_epoch (ps_epoch_index s) s;
          s = process_epoch_validator_transitions (rotate_epoch_seed E s) in
      s\<lparr>ps_events := Ev_epoch (ps_epoch_index s) # ps_events s\<rparr>)"

definition run_boundaries :: "node_env \<Rightarrow> protocol_state \<Rightarrow> protocol_state" where
  "run_boundaries E s =
     (let s = (if ps_slot s > 0 \<and> ps_slot s mod SUB_EPOCH_SLOTS = 0 then close_sub_epoch s else s) in
      if ps_slot s > 0 \<and> ps_slot s mod (SUB_EPOCH_SLOTS * EPOCH_SUB_EPOCHS) = 0 then close_epoch E s else s)"

section \<open>Recording a block\<close>

definition validate_block_commitments_and_parent :: "node_env \<Rightarrow> protocol_state \<Rightarrow> block \<Rightarrow> bool" where
  "validate_block_commitments_and_parent E s b \<longleftrightarrow> validate_commitments (ne_keccak E) (ne_crates E) b \<and>
     (case canonical_parent_hash E s (block_slot b) of None \<Rightarrow> False | Some parent \<Rightarrow> validate_parent b parent)"

fun index_transactions :: "u64 \<Rightarrow> hash \<Rightarrow> nat \<Rightarrow> hash list \<Rightarrow> (hash \<times> raw_tx_record) list \<Rightarrow> (hash \<times> raw_tx_record) list" where
  "index_transactions number h i [] m = m"
| "index_transactions number h i (th # ths) m = index_transactions number h (Suc i) ths
     (case map_of m th of
        None \<Rightarrow> m
      | Some r \<Rightarrow> bm_insert th (r\<lparr>rx_block_number := Some number, rx_block_hash := Some h, rx_tx_index := try_from_nat i, rx_success := Some True\<rparr>) m)"

definition record_block :: "node_env \<Rightarrow> block \<Rightarrow> protocol_state \<Rightarrow> bool \<times> protocol_state" where
  "record_block E b s =
     (if \<not> validate_block_commitments_and_parent E s b then (False, s)
      else let number = block_slot b; h = block_hash (ne_keccak E) b;
          index = (case map_of (ps_blocks s) number of
             Some old \<Rightarrow> bm_remove (block_hash (ne_keccak E) old) (ps_block_hash_to_number s) | None \<Rightarrow> ps_block_hash_to_number s);
          s = s\<lparr>ps_block_hash_to_number := bm_insert h number index, ps_blocks := bm_insert number b (ps_blocks s)\<rparr> in
      (True, case transaction_hashes (ne_keccak E) (ne_crates E) b of
         None \<Rightarrow> s | Some ths \<Rightarrow> s\<lparr>ps_raw_txs := index_transactions number h 0 ths (ps_raw_txs s)\<rparr>))"

definition update_liveness :: "block \<Rightarrow> protocol_state \<Rightarrow> protocol_state" where
  "update_liveness b s =
     (let epoch = block_slot b div (SUB_EPOCH_SLOTS * EPOCH_SUB_EPOCHS);
          s = (if epoch \<noteq> ps_liveness_epoch s
               then s\<lparr>ps_liveness_epoch := epoch, ps_liveness_counted_slots := {}, ps_liveness_total_slots := 0, ps_liveness_validator_slots := 0\<rparr>
               else s) in
      if block_slot b \<in> ps_liveness_counted_slots s then s
      else let s = s\<lparr>ps_liveness_counted_slots := insert (block_slot b) (ps_liveness_counted_slots s),
                     ps_liveness_total_slots := ps_liveness_total_slots s + 1,
                     ps_liveness_validator_slots := ps_liveness_validator_slots s + (if block_kind_of b = Validator then 1 else 0)\<rparr> in
        s\<lparr>ps_epoch_total_slots := ps_liveness_total_slots s, ps_epoch_validator_blocks := ps_liveness_validator_slots s\<rparr>)"

text \<open>Neither the slot nor the expected successor is checked with an option: no block at all means slot 0.\<close>

definition prevalidate_active_linear_slot :: "protocol_state \<Rightarrow> string + unit" where
  "prevalidate_active_linear_slot s =
     (let expected_slot = (if ps_blocks s = [] then 0 else saturating_add (foldl max 0 (map fst (ps_blocks s))) 1) in
      if ps_slot s \<noteq> expected_slot then Inl ''active slot is not the next canonical slot''
      else if map_of (ps_blocks s) (ps_slot s) \<noteq> None then Inl ''active slot already has a canonical block''
      else Inr ())"

definition prevalidate_linear_tip :: "node_env \<Rightarrow> block \<Rightarrow> protocol_state \<Rightarrow> string + unit" where
  "prevalidate_linear_tip E b s =
     (let K = ne_keccak E; X = ne_crates E in
      try_res (ok_or ''candidate has invalid canonical block encoding'' (wire_bytes K X b)) (\<lambda>wire.
      try_res (ok_or ''candidate failed claimed-hash or canonical decoding validation'' (from_wire_bytes K X wire)) (\<lambda>decoded.
      if decoded \<noteq> b \<or> \<not> validate_commitments K X b then Inl ''candidate failed block commitment validation''
      else try_res (prevalidate_active_linear_slot s) (\<lambda>_.
      if block_slot b \<noteq> ps_slot s then Inl ''candidate slot does not match the active local slot''
      else try_res (if ps_slot s = 0 then Inr ZERO_HASH
             else ok_or ''canonical tip block is unavailable'' (map_option (block_hash K) (map_of (ps_blocks s) (saturating_sub (ps_slot s) 1)))) (\<lambda>parent.
      if bh_parent_hash (bk_header b) \<noteq> parent then Inl ''candidate parent is not the canonical tip'' else Inr ())))))"

definition push_history :: "block \<Rightarrow> protocol_state \<Rightarrow> protocol_state" where
  "push_history b s = (let h = b # ps_history s in s\<lparr>ps_history := (if length h > 50 then butlast h else h)\<rparr>)"

text \<open>An error leaves the node as the steps before it made it: the caller has to undo them.\<close>

definition record_linear_tip :: "node_env \<Rightarrow> block \<Rightarrow> protocol_state \<Rightarrow> (string + unit) \<times> protocol_state" where
  "record_linear_tip E b s =
     (case prevalidate_linear_tip E b s of
        Inl e \<Rightarrow> (Inl e, s)
      | Inr _ \<Rightarrow>
     if ps_current_result s \<noteq> None then (Inl ''active slot already has a recorded result'', s)
     else let s = update_liveness b (s\<lparr>ps_current_result := Some b\<rparr>);
         s = s\<lparr>ps_blocks_this_sub_epoch := ps_blocks_this_sub_epoch s @ [if block_kind_of b = Validator then bk_proposer b else None]\<rparr>;
         (recorded, s) = record_block E b s in
     if \<not> recorded then (Inl ''candidate block persistence index rejected the canonical tip'', s)
     else (Inr (), push_history b s))"

section \<open>Finishing a slot\<close>

definition produce_block :: "node_env \<Rightarrow> nat \<Rightarrow> protocol_state \<Rightarrow> (block \<times> nat \<times> protocol_state) option" where
  "produce_block E rng s =
     (if total_eligible_tickets s = 0 then map_option (\<lambda>(b, s). (b, rng, s)) (protocol_no_tickets_block E s)
      else if is_local_leader s then validator_block E rng s
      else map_option (\<lambda>(b, s). (b, rng, s)) (protocol_miss_block E s))"

text \<open>\<open>pr_seen\<close> is the set of seen messages of \<open>P2p\<close>.\<close>

record protocol =
  pr_rng :: nat
  pr_state :: protocol_state
  pr_seen :: "hash set"

text \<open>The closure of \<open>stage_local_slot\<close>: it runs on the node itself, and an error comes with the node as the steps
  before it left it. \<open>None\<close> is a panic.\<close>

definition staged_execution :: "node_env \<Rightarrow> protocol \<Rightarrow> ((string + block) \<times> protocol) option" where
  "staged_execution E p =
     (case prevalidate_active_linear_slot (pr_state p) of
        Inl e \<Rightarrow> Some (Inl e, p)
      | Inr _ \<Rightarrow>
     (case produce_block E (pr_rng p) (pr_state p) of
        None \<Rightarrow> None
      | Some (b, rng, s) \<Rightarrow>
          let p = p\<lparr>pr_rng := rng, pr_state := s\<rparr> in
          (case prevalidate_linear_tip E b (pr_state p) of
             Inl e \<Rightarrow> Some (Inl e, p)
           | Inr _ \<Rightarrow>
          (case record_linear_tip E b (pr_state p) of
             (Inl e, s) \<Rightarrow> Some (Inl e, p\<lparr>pr_state := s\<rparr>)
           | (Inr _, s) \<Rightarrow>
               let p = p\<lparr>pr_state := s\<rparr> in
               Some (Inr b, p\<lparr>pr_state := run_boundaries E (pr_state p)\<rparr>)))))"

text \<open>The live state and generator are cloned, the closure runs, and \<open>mem::replace\<close> takes the candidates out and
  puts the live ones back, on success and on error.\<close>

definition stage_local_slot ::
  "node_env \<Rightarrow> protocol \<Rightarrow> ((string + block \<times> protocol_state \<times> nat) \<times> protocol) option" where
  "stage_local_slot E p =
     (let live_state = pr_state p;
          live_rng = pr_rng p in
      case staged_execution E p of
        None \<Rightarrow> None
      | Some (result, p) \<Rightarrow>
          let candidate_state = pr_state p;
              p = p\<lparr>pr_state := live_state\<rparr>;
              candidate_rng = pr_rng p;
              p = p\<lparr>pr_rng := live_rng\<rparr> in
          Some (case result of Inl e \<Rightarrow> Inl e | Inr b \<Rightarrow> Inr (b, candidate_state, candidate_rng), p))"

datatype slot_outcome = Finished bytes | Unfinished

definition push_event :: "event \<Rightarrow> protocol \<Rightarrow> protocol" where
  "push_event e p = p\<lparr>pr_state := (pr_state p)\<lparr>ps_events := e # ps_events (pr_state p)\<rparr>\<rparr>"

definition drop_remote_result :: "protocol \<Rightarrow> protocol" where
  "drop_remote_result p =
     (let s = pr_state p in
      if map_of (ps_remote_slot_results s) (ps_slot s) = None then p
      else push_event (Ev_remote_rejected (ps_slot s))
             (p\<lparr>pr_state := s\<lparr>ps_remote_slot_results := bm_remove (ps_slot s) (ps_remote_slot_results s)\<rparr>\<rparr>))"

definition finish_slot :: "node_env \<Rightarrow> protocol \<Rightarrow> (slot_outcome \<times> protocol) option" where
  "finish_slot E p =
     (let p = drop_remote_result p; s = pr_state p in
      if canonical_parent_hash E s (ps_slot s) = None then Some (Unfinished, push_event (Ev_deferred (ps_slot s)) p)
      else (case prevalidate_active_linear_slot s of
        Inl e \<Rightarrow> Some (Unfinished, push_event (Ev_rejected (ps_slot s) e) p)
      | Inr _ \<Rightarrow>
     (case stage_local_slot E p of
        None \<Rightarrow> None
      | Some (Inl e, p) \<Rightarrow> Some (Unfinished, push_event (Ev_discarded (ps_slot (pr_state p)) e) p)
      | Some (Inr (b, candidate, rng), p) \<Rightarrow>
          map_option (\<lambda>wire. (Finished wire, p\<lparr>pr_rng := rng, pr_state := candidate\<rparr>)) (wire_bytes (ne_keccak E) (ne_crates E) b))))"

section \<open>Replacing results\<close>

definition revert_replaced_result :: "block \<Rightarrow> block \<Rightarrow> protocol_state \<Rightarrow> protocol_state" where
  "revert_replaced_result old new s =
     (if block_kind_of old \<noteq> ProtocolMiss \<or> block_kind_of new \<noteq> Validator \<or> block_leader old \<noteq> block_leader new then s
      else case find_validator s (block_leader old) of None \<Rightarrow> s | Some v \<Rightarrow>
      let v1 = v\<lparr>nv_miss_counter := (if nv_miss_counter v > 0 then nv_miss_counter v - 1 else nv_miss_counter v)\<rparr>;
          restored = (nv_state v1 = PunishedCooldown \<and> nv_miss_counter v1 < 10);
          v2 = (if restored then v1\<lparr>nv_cooldown_until_epoch := None, nv_state := Inactive\<rparr> else v1);
          s = update_validator (block_leader old) (\<lambda>_. v2) s in
      if restored then refresh_validator_activation (nv_id v) s else s)"

definition count_liveness :: "block \<Rightarrow> protocol_state \<Rightarrow> protocol_state" where
  "count_liveness b s =
     (if block_slot b div (SUB_EPOCH_SLOTS * EPOCH_SUB_EPOCHS) \<noteq> ps_liveness_epoch s \<or> block_slot b \<in> ps_liveness_counted_slots s then s
      else s\<lparr>ps_liveness_counted_slots := insert (block_slot b) (ps_liveness_counted_slots s),
             ps_liveness_total_slots := ps_liveness_total_slots s + 1,
             ps_liveness_validator_slots := ps_liveness_validator_slots s + (if block_kind_of b = Validator then 1 else 0)\<rparr>)"

definition rebuild_liveness_from_history :: "protocol_state \<Rightarrow> protocol_state" where
  "rebuild_liveness_from_history s =
     (let s = s\<lparr>ps_liveness_counted_slots := {}, ps_liveness_total_slots := 0, ps_liveness_validator_slots := 0\<rparr>;
          entries = sort_key block_slot (ps_history s);
          s = (if entries = [] then s else s\<lparr>ps_liveness_epoch := block_slot (last entries) div (SUB_EPOCH_SLOTS * EPOCH_SUB_EPOCHS)\<rparr>);
          s = fold count_liveness entries s in
      s\<lparr>ps_epoch_total_slots := ps_liveness_total_slots s, ps_epoch_validator_blocks := ps_liveness_validator_slots s\<rparr>)"

abbreviation without_slot :: "u64 \<Rightarrow> protocol_state \<Rightarrow> protocol_state" where
  "without_slot slot s \<equiv> s\<lparr>ps_history := filter (\<lambda>h. block_slot h \<noteq> slot) (ps_history s)\<rparr>"

definition record_slot :: "node_env \<Rightarrow> block \<Rightarrow> protocol_state \<Rightarrow> bool \<times> protocol_state" where
  "record_slot E b s =
     (if \<not> validate_block_commitments_and_parent E s b
      then (False, s\<lparr>ps_events := Ev_block_rejected (block_hash (ne_keccak E) b) # ps_events s\<rparr>)
      else let s = s\<lparr>ps_current_result := Some b\<rparr>;
          replaced = find (\<lambda>h. block_slot h = block_slot b) (ps_history s);
          s = without_slot (block_slot b) s;
          s = (case replaced of Some old \<Rightarrow> revert_replaced_result old b s | None \<Rightarrow> s);
          s = update_liveness b s;
          s = s\<lparr>ps_blocks_this_sub_epoch := ps_blocks_this_sub_epoch s @ [if block_kind_of b = Validator then bk_proposer b else None]\<rparr>;
          (recorded, s) = record_block E b s in
      if \<not> recorded then (False, s)
      else let s = push_history b s in
        (True, if replaced \<noteq> None then rebuild_liveness_from_history s else s))"

definition merge_slot_result :: "node_env \<Rightarrow> block \<Rightarrow> protocol_state \<Rightarrow> protocol_state" where
  "merge_slot_result E b s =
     (let existing = find (\<lambda>h. block_slot h = block_slot b) (ps_history s);
          should_apply = (case existing of None \<Rightarrow> True
             | Some old \<Rightarrow> block_kind_of old \<noteq> Validator \<and> block_kind_of b = Validator) in
      if \<not> should_apply then s
      else if \<exists>(slot, _) \<in> set (ps_blocks s). slot > block_slot b then s
      else if \<not> validate_block_commitments_and_parent E s b then s
      else let s = without_slot (block_slot b) s;
          s = (case existing of Some old \<Rightarrow> revert_replaced_result old b s | None \<Rightarrow> s);
          (recorded, s) = record_block E b s in
      if \<not> recorded then s
      else let s = s\<lparr>ps_history := take 50 (rev (sort_key block_slot (rev (b # ps_history s))))\<rparr>;
          s = rebuild_liveness_from_history s in
        s\<lparr>ps_events := Ev_corrected (block_slot b) (block_kind_of b) # ps_events s\<rparr>)"

end
