(* ===== verification/Node_Network.thy ===== *)
theory Node_Network
  imports Node_Consensus
begin

text \<open>
  \<open>src/src/app/network.rs\<close> with the message formats of \<open>src/src/app/utils.rs\<close> and \<open>src/src/p2p.rs\<close>: what a datagram
  from a peer does to the prototype node. The socket, the addresses and the outgoing datagrams are left out; clock
  readings are arguments.
\<close>

section \<open>Texts\<close>

fun split_on :: "u8 \<Rightarrow> text_bytes \<Rightarrow> text_bytes list" where
  "split_on c [] = [[]]"
| "split_on c (x # xs) = (if x = c then [] # split_on c xs else (case split_on c xs of p # ps \<Rightarrow> (x # p) # ps | [] \<Rightarrow> [[x]]))"

definition bar :: u8 where "bar = 124"
definition comma :: u8 where "comma = 44"
definition dash :: text_bytes where "dash = [45]"

text \<open>\<open>parse\<close> of an unsigned integer: an optional plus sign, then digits, within the width.\<close>

definition parse_uint :: "text_bytes \<Rightarrow> 'a::len word option" where
  "parse_uint s =
     (let d = (case s of c # r \<Rightarrow> if c = 43 \<and> r \<noteq> [] then r else s | [] \<Rightarrow> s) in
      if d = [] \<or> \<not> list_all ascii_digit d then None else try_from_nat (parse_digits d))"

definition parse_hash :: "text_crates \<Rightarrow> text_bytes \<Rightarrow> hash option" where
  "parse_hash X value =
     (let v = (case strip_prefix (str ''0x'') value of Some v \<Rightarrow> v
            | None \<Rightarrow> (case strip_prefix (str ''0X'') value of Some v \<Rightarrow> v | None \<Rightarrow> value)) in do {
      b \<leftarrow> tc_hex_decode X v;
      if length b = 32 then Some b else None })"

definition format_hash :: "text_crates \<Rightarrow> hash \<Rightarrow> text_bytes" where
  "format_hash X h = str ''0x'' @ tc_hex_encode X h"

definition parse_tx_msg :: "hasher \<Rightarrow> text_crates \<Rightarrow> text_bytes \<Rightarrow> (hash \<times> tx) option" where
  "parse_tx_msg K X msg = (case split_on bar msg of
     [tag, claimed, body] \<Rightarrow>
       if tag \<noteq> str ''TX'' then None else do {
         h \<leftarrow> parse_hash X claimed;
         b \<leftarrow> tc_hex_decode X body;
         t \<leftarrow> from_canonical_bytes X b;
         h' \<leftarrow> tx_hash K X t;
         if h' = h then Some (h, t) else None }
   | _ \<Rightarrow> None)"

definition tx_message :: "hasher \<Rightarrow> text_crates \<Rightarrow> tx \<Rightarrow> text_bytes option" where
  "tx_message K X t = do {
     b \<leftarrow> canonical_bytes X t;
     h \<leftarrow> tx_hash K X t;
     Some (str ''TX|'' @ format_hash X h @ [bar] @ tc_hex_encode X b) }"

section \<open>State snapshots\<close>

record state_snapshot =
  ss_slot :: u64
  ss_validators :: "node_validator list"
  ss_tickets :: "node_ticket list"
  ss_accounts :: "node_account list"
  ss_fees_burned_total :: u128
  ss_ticket_burned_total :: u128
  ss_base_issuance_total :: u128
  ss_burn_offset_total :: u128
  ss_sub_epoch_issued_quarks :: u128
  ss_sub_epoch_burned_quarks :: u128
  ss_epoch_issued_quarks :: u128
  ss_epoch_burned_quarks :: u128
  ss_burn_this_sub_epoch :: u128
  ss_reward_unlocks :: "(u64 \<times> (text_bytes \<times> u128) list) list"

definition decode_opt :: "text_bytes \<Rightarrow> text_bytes option" where
  "decode_opt v = (if v = dash then None else Some v)"

definition decode_validator_state :: "text_bytes \<Rightarrow> validator_state option" where
  "decode_validator_state v =
     (if v = str ''active'' then Some Active else if v = str ''paused_low_vault'' then Some PausedLowVault
      else if v = str ''punished_cooldown'' then Some PunishedCooldown else if v = str ''inactive'' then Some Inactive
      else if v = str ''jailed'' then Some Jailed else None)"

fun parse_balances :: "text_bytes list \<Rightarrow> (u64 \<times> u128) list \<Rightarrow> (u64 \<times> u128) list option" where
  "parse_balances [] m = Some m"
| "parse_balances (e # es) m =
     (if 58 \<notin> set e then None
      else let k = takeWhile (\<lambda>c. c \<noteq> 58) e; v = drop (Suc (length k)) e in do {
        token \<leftarrow> parse_uint k;
        amount \<leftarrow> parse_uint v;
        parse_balances es (bm_insert token amount m) })"

definition parse_snapshot_balances :: "text_bytes \<Rightarrow> (u64 \<times> u128) list option" where
  "parse_snapshot_balances raw = (if raw = dash then Some [] else parse_balances (split_on 59 raw) [])"

definition parse_chunk :: "node_env \<Rightarrow> text_bytes \<Rightarrow> state_snapshot \<Rightarrow> state_snapshot option" where
  "parse_chunk E chunk ss = (case split_on comma chunk of
     [tag, a, b, c, d, e, f, g, h, i, j] \<Rightarrow>
       if tag = str ''E'' then do {
         slot \<leftarrow> parse_uint a; fees \<leftarrow> parse_uint b; ticket \<leftarrow> parse_uint c; base \<leftarrow> parse_uint d; offset \<leftarrow> parse_uint e;
         sub_issued \<leftarrow> parse_uint f; sub_burned \<leftarrow> parse_uint g; issued \<leftarrow> parse_uint h; burned \<leftarrow> parse_uint i; burn \<leftarrow> parse_uint j;
         Some (ss\<lparr>ss_slot := slot, ss_fees_burned_total := fees, ss_ticket_burned_total := ticket, ss_base_issuance_total := base,
                  ss_burn_offset_total := offset, ss_sub_epoch_issued_quarks := sub_issued, ss_sub_epoch_burned_quarks := sub_burned,
                  ss_epoch_issued_quarks := issued, ss_epoch_burned_quarks := burned, ss_burn_this_sub_epoch := burn\<rparr>) }
       else Some ss
   | [tag, i, owner, key, reward, st, vault, locked, miss, until] \<Rightarrow>
       if tag = str ''V'' then do {
         state \<leftarrow> decode_validator_state st; vault \<leftarrow> parse_uint vault; locked \<leftarrow> parse_uint locked; miss \<leftarrow> parse_uint miss;
         Some (ss\<lparr>ss_validators := ss_validators ss @ [\<lparr>nv_id = i, nv_owner_account = map_option (normalize_address E) (decode_opt owner),
           nv_validator_pubkey = decode_opt key, nv_reward_address = map_option (normalize_address E) (decode_opt reward), nv_state = state,
           nv_vault_quarks = vault, nv_locked_reward_quarks = locked, nv_miss_counter = miss, nv_double_sign_offenses = 0,
           nv_blocks_this_sub_epoch = 0, nv_cooldown_until_epoch = Option.bind (decode_opt until) parse_uint\<rparr>]\<rparr>) }
       else Some ss
   | [tag, i, owner, bucket, muted, dead, retiring, requested, effective] \<Rightarrow>
       if tag = str ''T'' then do {
         i \<leftarrow> parse_uint i; bucket \<leftarrow> parse_uint bucket;
         Some (ss\<lparr>ss_tickets := ss_tickets ss @ [\<lparr>nt_id = i, nt_owner = owner, nt_bucket = bucket, nt_muted = (muted = str ''1''),
           nt_dead = (dead = str ''1''), nt_retiring = (retiring = str ''1''), nt_retire_requested_epoch = Option.bind (decode_opt requested) parse_uint,
           nt_retire_effective_epoch = Option.bind (decode_opt effective) parse_uint\<rparr>]\<rparr>) }
       else Some ss
   | [tag, a, b, c] \<Rightarrow>
       if tag = str ''U'' then do {
         epoch \<leftarrow> parse_uint a; amount \<leftarrow> parse_uint c;
         Some (ss\<lparr>ss_reward_unlocks := push_entry epoch (b, amount) (ss_reward_unlocks ss)\<rparr>) }
       else if tag = str ''A'' then do {
         nonce \<leftarrow> parse_uint b; balances \<leftarrow> parse_snapshot_balances c;
         Some (ss\<lparr>ss_accounts := ss_accounts ss @ [\<lparr>na_id = normalize_address E a, na_private_key_hex = [], na_public_key_hex = [],
           na_address = normalize_address E a, na_nonce = nonce, na_balances = balances\<rparr>]\<rparr>) }
       else Some ss
   | _ \<Rightarrow> Some ss)"

fun parse_chunks :: "node_env \<Rightarrow> text_bytes list \<Rightarrow> state_snapshot \<Rightarrow> state_snapshot option" where
  "parse_chunks E [] ss = Some ss"
| "parse_chunks E (c # cs) ss = do { ss \<leftarrow> parse_chunk E c ss; parse_chunks E cs ss }"

definition empty_snapshot :: state_snapshot where
  "empty_snapshot = \<lparr>ss_slot = 0, ss_validators = [], ss_tickets = [], ss_accounts = [], ss_fees_burned_total = 0, ss_ticket_burned_total = 0,
     ss_base_issuance_total = 0, ss_burn_offset_total = 0, ss_sub_epoch_issued_quarks = 0, ss_sub_epoch_burned_quarks = 0,
     ss_epoch_issued_quarks = 0, ss_epoch_burned_quarks = 0, ss_burn_this_sub_epoch = 0, ss_reward_unlocks = []\<rparr>"

definition parse_state_snapshot :: "node_env \<Rightarrow> text_bytes \<Rightarrow> state_snapshot option" where
  "parse_state_snapshot E msg = (case split_on bar msg of
     tag # chunks \<Rightarrow> if tag \<noteq> str ''STATE'' then None else parse_chunks E chunks empty_snapshot
   | [] \<Rightarrow> None)"

text \<open>Merging a validator, then an account, as the loops of \<open>merge_state_snapshot\<close> do; the first component says whether something changed.\<close>

definition merge_validator :: "bool \<Rightarrow> node_validator \<Rightarrow> bool \<times> protocol_state \<Rightarrow> bool \<times> protocol_state" where
  "merge_validator economy v cs = (case cs of (changed, s) \<Rightarrow>
     (case find_validator s (nv_id v) of
        None \<Rightarrow> (True, s\<lparr>ps_validators := ps_validators s @ [v]\<rparr>)
      | Some local \<Rightarrow>
          let fill = (\<lambda>mine theirs. case mine of None \<Rightarrow> theirs | Some x \<Rightarrow> Some x) in
          (changed \<or> nv_vault_quarks v > nv_vault_quarks local,
           update_validator (nv_id v) (\<lambda>local. local\<lparr>
             nv_owner_account := fill (nv_owner_account local) (nv_owner_account v),
             nv_validator_pubkey := fill (nv_validator_pubkey local) (nv_validator_pubkey v),
             nv_reward_address := fill (nv_reward_address local) (nv_reward_address v),
             nv_vault_quarks := max (nv_vault_quarks local) (nv_vault_quarks v),
             nv_locked_reward_quarks := (if economy then nv_locked_reward_quarks v else nv_locked_reward_quarks local)\<rparr>) s)))"

definition merge_ticket :: "node_ticket \<Rightarrow> protocol_state \<Rightarrow> protocol_state" where
  "merge_ticket t s =
     (if find (\<lambda>u. nt_id u = nt_id t) (ps_tickets s) = None then s\<lparr>ps_tickets := ps_tickets s @ [t]\<rparr>
      else s\<lparr>ps_tickets := update_first (\<lambda>u. nt_id u = nt_id t) (\<lambda>_. t) (ps_tickets s)\<rparr>)"

definition tracked_nonce :: "protocol_state \<Rightarrow> text_bytes \<Rightarrow> u64" where
  "tracked_nonce s i = (case map_of (ps_nonce_tracker s) i of Some n \<Rightarrow> n | None \<Rightarrow> 0)"

definition merge_account :: "node_account \<Rightarrow> protocol_state \<Rightarrow> protocol_state" where
  "merge_account a s =
     (let i = na_address a;
          merged = (case map_of (ps_accounts s) i of Some local \<Rightarrow> local\<lparr>na_balances := na_balances a, na_nonce := na_nonce a\<rparr> | None \<Rightarrow> a) in
      s\<lparr>ps_accounts := bm_insert i merged (ps_accounts s),
        ps_nonce_tracker := bm_insert i (max (tracked_nonce s i) (na_nonce a)) (ps_nonce_tracker s)\<rparr>)"

definition reselect_leader :: "node_env \<Rightarrow> protocol_state \<Rightarrow> protocol_state" where
  "reselect_leader E s = (let (leader, ticket) = select_leader E s in s\<lparr>ps_current_leader := leader, ps_current_ticket_id := ticket\<rparr>)"

definition merge_state_snapshot :: "node_env \<Rightarrow> state_snapshot \<Rightarrow> protocol_state \<Rightarrow> protocol_state" where
  "merge_state_snapshot E ss s =
     (if saturating_add (ss_slot ss) 2 < ps_slot s then s
      else let local_progress = ps_fees_burned_total s + ps_ticket_burned_total s + ps_base_issuance_total s + ps_burn_offset_total s;
          snapshot_progress = ss_fees_burned_total ss + ss_ticket_burned_total ss + ss_base_issuance_total ss + ss_burn_offset_total ss;
          economy = (snapshot_progress \<ge> local_progress);
          s = (if economy then s\<lparr>ps_fees_burned_total := ss_fees_burned_total ss, ps_ticket_burned_total := ss_ticket_burned_total ss,
                 ps_base_issuance_total := ss_base_issuance_total ss, ps_burn_offset_total := ss_burn_offset_total ss,
                 ps_sub_epoch_issued_quarks := ss_sub_epoch_issued_quarks ss, ps_sub_epoch_burned_quarks := ss_sub_epoch_burned_quarks ss,
                 ps_epoch_issued_quarks := ss_epoch_issued_quarks ss, ps_epoch_burned_quarks := ss_epoch_burned_quarks ss,
                 ps_burn_this_sub_epoch := ss_burn_this_sub_epoch ss, ps_reward_unlocks := ss_reward_unlocks ss\<rparr> else s);
          (changed, s) = fold (merge_validator economy) (ss_validators ss) (False, s);
          changed = (changed \<or> ss_tickets ss \<noteq> []);
          s = fold merge_ticket (ss_tickets ss) s;
          s = (if economy then fold merge_account (ss_accounts ss) s else s) in
      if changed \<or> economy then reselect_leader E (fold refresh_validator_activation (map nv_id (ps_validators s)) s) else s)"

section \<open>Peers\<close>

definition deterministic_ticket_id :: "node_env \<Rightarrow> text_bytes \<Rightarrow> u64" where
  "deterministic_ticket_id E i = be_word (take 8 (hash_with_domain (ne_keccak E) LEGACY_TICKET_ID_DOMAIN i))"

definition learn_validator_from_hello :: "node_env \<Rightarrow> text_bytes \<Rightarrow> text_bytes option \<Rightarrow> text_bytes option \<Rightarrow> bool \<Rightarrow> protocol_state \<Rightarrow> protocol_state" where
  "learn_validator_from_hello E mode vid account bootstrap s =
     (if mode \<noteq> str ''validator'' then s
      else case vid of None \<Rightarrow> s | Some i \<Rightarrow>
      let owner = map_option (normalize_address E) account in
      if find_validator s i \<noteq> None
      then update_validator i (\<lambda>v. if nv_owner_account v = None then v\<lparr>nv_owner_account := owner\<rparr> else v) s
      else let s = s\<lparr>ps_validators := ps_validators s @ [\<lparr>nv_id = i, nv_owner_account = owner, nv_validator_pubkey = None,
              nv_reward_address = None, nv_state = (if bootstrap then Active else Inactive),
              nv_vault_quarks = (if bootstrap then INITIAL_VALIDATOR_VAULT_QUARKS else 0), nv_locked_reward_quarks = 0, nv_miss_counter = 0,
              nv_double_sign_offenses = 0, nv_blocks_this_sub_epoch = 0, nv_cooldown_until_epoch = None\<rparr>]\<rparr>;
          s = (if bootstrap then s\<lparr>ps_tickets := ps_tickets s @ [new_ticket (deterministic_ticket_id E i) i]\<rparr> else s) in
        s\<lparr>ps_events := Ev_discovered i # ps_events s\<rparr>)"

definition accept_gossiped_tx :: "tx \<Rightarrow> protocol_state \<Rightarrow> protocol_state" where
  "accept_gossiped_tx t s =
     (if total_eligible_tickets s = 0 \<and> pbm_allowed_kind (tx_kind_of t) then
        (if length (filter (\<lambda>p. tx_from p = tx_from t) (ps_pbm_pool s)) < PBM_PENDING_PER_ACCOUNT_LIMIT
         then s\<lparr>ps_pbm_pool := ps_pbm_pool s @ [t]\<rparr> else s)
      else s\<lparr>ps_mempool := ps_mempool s @ [t]\<rparr>)"

fun seed_chain :: "node_env \<Rightarrow> nat \<Rightarrow> hash" where
  "seed_chain E 0 = replicate 32 0x45"
| "seed_chain E (Suc n) = hash_with_domain (ne_keccak E) EPOCH_SEED_DOMAIN (seed_chain E n @ be_bytes (of_nat (Suc n) :: u64))"

definition derive_epoch_seed :: "node_env \<Rightarrow> u64 \<Rightarrow> hash" where
  "derive_epoch_seed E epoch = seed_chain E (unat epoch)"

text \<open>\<open>elapsed\<close> is the wall-clock time since the peer's slot began, in milliseconds.\<close>

definition bootstrap_slot_from_peer :: "node_env \<Rightarrow> u64 \<Rightarrow> u128 \<Rightarrow> u128 \<Rightarrow> protocol_state \<Rightarrow> protocol_state" where
  "bootstrap_slot_from_peer E slot started elapsed s =
     (if started = 0 then s
      else let target = saturating_add slot (ucast (elapsed div ucast SLOT_MS)) in
      if target \<le> ps_slot s then s
      else if canonical_parent_hash E s target = None then s
      else let s = s\<lparr>ps_slot := target, ps_epoch_index := target div (SUB_EPOCH_SLOTS * EPOCH_SUB_EPOCHS),
              ps_sub_epoch_index := target div SUB_EPOCH_SLOTS\<rparr>;
          s = s\<lparr>ps_epoch_seed := derive_epoch_seed E (ps_epoch_index s)\<rparr>;
          s = (reselect_leader E s)\<lparr>ps_bootstrapped_from_peer := True\<rparr> in
        s\<lparr>ps_events := Ev_bootstrapped target # ps_events s\<rparr>)"

record hello_msg =
  hm_slot :: u64
  hm_started :: u128
  hm_mode :: text_bytes
  hm_validator_id :: "text_bytes option"
  hm_validator_account :: "text_bytes option"
  hm_bootstrap :: bool

text \<open>The second field is a socket address; whether it parses is the argument \<open>addr_ok\<close>.\<close>

definition parse_hello :: "(text_bytes \<Rightarrow> bool) \<Rightarrow> text_bytes \<Rightarrow> hello_msg option" where
  "parse_hello addr_ok msg =
     (let p = split_on bar msg in
      if length p < 6 \<or> p ! 0 \<noteq> str ''HELLO'' then None
      else if \<not> addr_ok (p ! 1) then None else do {
        slot \<leftarrow> parse_uint (p ! 2);
        started \<leftarrow> parse_uint (p ! 3);
        Some \<lparr>hm_slot = slot, hm_started = started, hm_mode = p ! 4,
          hm_validator_id = (if p ! 5 = [] then None else Some (p ! 5)),
          hm_validator_account = (if length p \<ge> 7 \<and> p ! 6 \<noteq> [] then Some (p ! 6) else None),
          hm_bootstrap = (length p \<ge> 8 \<and> p ! 7 = str ''1'')\<rparr> })"

definition reject_unsupported_canonical_ingress :: "text_bytes \<Rightarrow> protocol \<Rightarrow> bool \<times> protocol" where
  "reject_unsupported_canonical_ingress msg p =
     (let tag = hd (split_on bar msg) in
      if tag = str ''HIST'' then (True, push_event (Ev_ingress_rejected ''HIST'') p)
      else if tag = str ''BLOCK'' then (True, push_event (Ev_ingress_rejected ''BLOCK'') p)
      else (False, p))"

definition on_state :: "(protocol_state \<Rightarrow> protocol_state) \<Rightarrow> protocol \<Rightarrow> protocol" where
  "on_state f p = p\<lparr>pr_state := f (pr_state p)\<rparr>"

text \<open>One message of \<open>p2p_pump\<close>.\<close>

definition handle_message :: "node_env \<Rightarrow> (text_bytes \<Rightarrow> bool) \<Rightarrow> (u128 \<Rightarrow> u128) \<Rightarrow> text_bytes \<Rightarrow> protocol \<Rightarrow> protocol" where
  "handle_message E addr_ok elapsed msg p =
     (case reject_unsupported_canonical_ingress msg p of
        (True, p) \<Rightarrow> p
      | (False, p) \<Rightarrow>
     (case parse_hello addr_ok msg of
        Some hello \<Rightarrow>
          let p = on_state (learn_validator_from_hello E (hm_mode hello) (hm_validator_id hello) (hm_validator_account hello) (hm_bootstrap hello)) p in
          if \<not> ps_bootstrapped_from_peer (pr_state p) \<and> (hm_mode hello = str ''standard'' \<or> hm_mode hello = str ''validator'')
          then on_state (bootstrap_slot_from_peer E (hm_slot hello) (hm_started hello) (elapsed (hm_started hello))) p else p
      | None \<Rightarrow>
     (case parse_state_snapshot E msg of
        Some ss \<Rightarrow> on_state (merge_state_snapshot E ss) p
      | None \<Rightarrow>
     (case parse_tx_msg (ne_keccak E) (ne_crates E) msg of
        Some (i, t) \<Rightarrow> if i \<in> pr_seen p then p else on_state (accept_gossiped_tx t) (p\<lparr>pr_seen := insert i (pr_seen p)\<rparr>)
      | None \<Rightarrow> p))))"

section \<open>Judging a remote block\<close>

definition expected_leader_for_slot :: "node_env \<Rightarrow> protocol_state \<Rightarrow> u64 \<Rightarrow> (text_bytes \<times> u64) option" where
  "expected_leader_for_slot E s slot =
     (if slot = ps_slot s then Some (ps_current_leader s, ps_current_ticket_id s)
      else do {
        h \<leftarrow> historical_block_hash (ne_keccak E) (ps_blocks s) slot;
        Some (case select_leader_ticket (ne_keccak E) h slot (eligible_tickets s) of Some l \<Rightarrow> l | None \<Rightarrow> (str ''protocol'', ZERO_TICKET_ID)) })"

definition validate_block_consensus_role :: "node_env \<Rightarrow> protocol_state \<Rightarrow> block \<Rightarrow> bool" where
  "validate_block_consensus_role E s b = (case expected_leader_for_slot E s (block_slot b) of
     None \<Rightarrow> False
   | Some (leader, ticket) \<Rightarrow> (case block_kind_of b of
       Validator \<Rightarrow> bk_proposer b = Some leader \<and> bh_ticket_id (bk_header b) = ticket \<and> leader \<noteq> str ''protocol''
     | ProtocolNoTickets \<Rightarrow> leader = str ''protocol'' \<and>
         (\<forall>t \<in> set (bk_transactions b). pbm_allowed_kind (tx_kind_of t) \<and> tx_valid_after_slot t \<le> block_slot b)
     | ProtocolMiss \<Rightarrow> pd_missed_proposer (bk_protocol_data b) = Some leader \<and> leader \<noteq> str ''protocol''
     | ProtocolCollision \<Rightarrow> True))"

definition accept_late_cooldown_correction :: "protocol_state \<Rightarrow> block \<Rightarrow> bool" where
  "accept_late_cooldown_correction s b =
     (if block_slot b \<ge> ps_slot s then False
      else case bk_proposer b of None \<Rightarrow> False | Some p \<Rightarrow>
      case find_validator s p of None \<Rightarrow> False | Some v \<Rightarrow>
      if nv_state v \<noteq> PunishedCooldown then False
      else \<exists>t \<in> set (ps_tickets s). nt_owner t = p \<and> nt_id t = bh_ticket_id (bk_header b) \<and> \<not> nt_dead t \<and> \<not> nt_muted t)"

definition accept_remote_slot_result :: "node_env \<Rightarrow> protocol_state \<Rightarrow> block \<Rightarrow> bool" where
  "accept_remote_slot_result E s b =
     (if \<not> validate_block_commitments_and_parent E s b then False
      else if block_slot b > saturating_add (ps_slot s) 1 then False
      else if block_slot b < ps_slot s \<and> block_kind_of b \<noteq> Validator then False
      else if block_slot b < ps_slot s \<and> saturating_add (block_slot b) 64 < ps_slot s then False
      else if block_slot b = ps_slot s \<and> ps_current_result s \<noteq> None then False
      else case expected_leader_for_slot E s (block_slot b) of None \<Rightarrow> False | Some (leader, _) \<Rightarrow>
      if ps_local_validator_id s = Some leader \<and> block_kind_of b \<noteq> Validator then False
      else validate_block_consensus_role E s b \<or> (block_kind_of b = Validator \<and> accept_late_cooldown_correction s b))"

end
