(* ===== verification/Node_Core.thy ===== *)
theory Node_Core
  imports Node_Network
begin

text \<open>
  \<open>src/src/app/core.rs\<close>: the initial state of the prototype node, its tick, and the requests that enqueue
  transactions, retire tickets or fund accounts. A JSON reply is a value of \<open>reply\<close>. Account creation and import,
  the queries and the Ethereum-style JSON-RPC are left out.
\<close>

section \<open>Start and tick\<close>

text \<open>\<open>port_name\<close> is the default validator name made from the port.\<close>

definition initial_validator :: "node_env \<Rightarrow> bool \<Rightarrow> text_bytes option \<Rightarrow> text_bytes \<Rightarrow> node_validator" where
  "initial_validator E bootstrap account i = \<lparr>nv_id = i, nv_owner_account = account, nv_validator_pubkey = None, nv_reward_address = account,
     nv_state = (if bootstrap then Active else Inactive), nv_vault_quarks = (if bootstrap then INITIAL_VALIDATOR_VAULT_QUARKS else 0),
     nv_locked_reward_quarks = 0, nv_miss_counter = 0, nv_double_sign_offenses = 0, nv_blocks_this_sub_epoch = 0, nv_cooldown_until_epoch = None\<rparr>"

definition initial_state :: "node_env \<Rightarrow> node_mode \<Rightarrow> text_bytes option \<Rightarrow> text_bytes option \<Rightarrow> text_bytes \<Rightarrow> protocol_state" where
  "initial_state E mode vid account port_name =
     (let bootstrap = (mode = Validator_node \<and> vid = None);
          local_id = (if mode = Validator_node then Some (case vid of Some i \<Rightarrow> i | None \<Rightarrow> port_name) else None);
          owner = map_option (normalize_address E) account;
          validators = (case local_id of Some i \<Rightarrow> [initial_validator E bootstrap owner i] | None \<Rightarrow> []);
          tickets = (case local_id of Some i \<Rightarrow> if bootstrap then [new_ticket (deterministic_ticket_id E i) i] else [] | None \<Rightarrow> []) in
      \<lparr>ps_slot = 0, ps_validators = validators, ps_tickets = tickets, ps_mempool = [], ps_pbm_pool = [], ps_history = [], ps_events = [],
       ps_burn_this_sub_epoch = 0, ps_fees_burned_total = 0, ps_ticket_burned_total = 0, ps_base_issuance_total = 0, ps_burn_offset_total = 0,
       ps_sub_epoch_issued_quarks = 0, ps_sub_epoch_burned_quarks = 0, ps_epoch_issued_quarks = 0, ps_epoch_burned_quarks = 0,
       ps_annual_inflation_ppb = 60000000, ps_base_reward_per_block_quarks = 0, ps_burn_offset_k_permille = 500,
       ps_epoch_validator_blocks = 0, ps_epoch_total_slots = 0, ps_mode = Normal, ps_current_leader = str ''protocol'',
       ps_current_ticket_id = ZERO_TICKET_ID, ps_exec_status = Idle, ps_current_result = None, ps_nonce_tracker = [], ps_mode_local = mode,
       ps_local_validator_id = local_id, ps_local_validator_bootstrap = bootstrap, ps_accounts = [], ps_wallet_addresses = [],
       ps_bootstrapped_from_peer = False, ps_remote_slot_results = [], ps_history_synced = False, ps_liveness_epoch = 0,
       ps_liveness_counted_slots = {}, ps_liveness_total_slots = 0, ps_liveness_validator_slots = 0, ps_epoch_index = 0,
       ps_sub_epoch_index = 0, ps_epoch_seed = replicate 32 0x45, ps_blocks_this_sub_epoch = [], ps_retire_finalize = [],
       ps_reward_unlocks = [], ps_raw_txs = [], ps_blocks = [], ps_block_hash_to_number = []\<rparr>)"

text \<open>\<open>Protocol::new\<close>; \<open>funded\<close> are the accounts of the genesis file, as \<open>bootstrap_accounts\<close> credits them.\<close>

fun fund_accounts :: "node_env \<Rightarrow> (text_bytes \<times> u64 \<times> u128) list \<Rightarrow> protocol_state \<Rightarrow> protocol_state" where
  "fund_accounts E [] s = s"
| "fund_accounts E ((i, token, amount) # fs) s = fund_accounts E fs (credit_balance E i token amount (ensure_account_exists E i s))"

definition protocol_new ::
  "node_env \<Rightarrow> node_mode \<Rightarrow> text_bytes option \<Rightarrow> text_bytes option \<Rightarrow> text_bytes \<Rightarrow> (text_bytes \<times> u64 \<times> u128) list \<Rightarrow> nat \<Rightarrow> protocol" where
  "protocol_new E mode vid account port_name funded seed =
     (let s = (reselect_leader E (initial_state E mode vid account port_name))\<lparr>ps_exec_status := Executing\<rparr> in
      push_event Ev_started \<lparr>pr_rng = seed, pr_state = recompute_base_reward_per_block (fund_accounts E funded s), pr_seen = {}\<rparr>)"

text \<open>The slot loop of \<open>tick\<close>, for a slot whose time is over; \<open>None\<close> is a panic.\<close>

definition tick_slot :: "node_env \<Rightarrow> protocol \<Rightarrow> protocol option" where
  "tick_slot E p = (case finish_slot E p of
     None \<Rightarrow> None
   | Some (Unfinished, p) \<Rightarrow> Some p
   | Some (Finished _, p) \<Rightarrow> Some (on_state (start_next_slot E) p))"

section \<open>Requests\<close>

datatype reply =
    Refused string
  | Accepted hash u64
  | Funded text_bytes u128

fun kind_text :: "tx_kind \<Rightarrow> text_bytes" where
  "kind_text Transfer = str ''transfer''"
| "kind_text Contract = str ''contract''"
| "kind_text System = str ''system''"
| "kind_text Pbm = str ''pbm_tx''"
| "kind_text RegisterValidator = str ''registerValidator''"
| "kind_text BuyTicket = str ''buyTicket''"
| "kind_text WalletToVault = str ''walletToVault''"
| "kind_text VaultToWallet = str ''vaultToWallet''"
| "kind_text BurnTicket = str ''burnTicket''"

definition tx_message_bytes :: "node_env \<Rightarrow> tx \<Rightarrow> text_bytes \<Rightarrow> bytes" where
  "tx_message_bytes E t tx_type =
     decimal (unat (tx_chain_id t)) @ [bar] @ normalize_address E (tx_from t) @ [bar] @ decimal (unat (tx_nonce t)) @ [bar] @
     normalize_address E (tx_to t) @ [bar] @ decimal (unat (tx_token_id t)) @ [bar] @ decimal (unat (tx_value t)) @ [bar] @
     decimal (unat (tx_gas t)) @ [bar] @ decimal (unat (tx_max_fee_per_gas t)) @ [bar] @ decimal (unat (tx_fee_token_id t)) @ [bar] @
     tx_data t @ [bar] @ tx_type"

definition derive_signature_for_sender :: "node_env \<Rightarrow> tx \<Rightarrow> text_bytes \<Rightarrow> protocol_state \<Rightarrow> text_bytes option" where
  "derive_signature_for_sender E t tx_type s = do {
     a \<leftarrow> map_of (ps_accounts s) (normalize_address E (tx_from t));
     if na_private_key_hex a = [] then None else do {
       key \<leftarrow> tc_hex_decode (ne_crates E) (case strip_prefix (str ''0x'') (na_private_key_hex a) of Some r \<Rightarrow> r | None \<Rightarrow> na_private_key_hex a);
       sig \<leftarrow> ne_sign E key (keccak256 (ne_keccak E) (tx_message_bytes E t tx_type));
       Some (str ''0x'' @ tc_hex_encode (ne_crates E) sig) } }"

definition mark_seen :: "hash \<Rightarrow> protocol \<Rightarrow> protocol" where
  "mark_seen h p = p\<lparr>pr_seen := insert h (pr_seen p)\<rparr>"

definition track_nonce :: "text_bytes \<Rightarrow> u64 \<Rightarrow> protocol \<Rightarrow> protocol" where
  "track_nonce i n p = on_state (\<lambda>s. s\<lparr>ps_nonce_tracker := bm_insert i n (ps_nonce_tracker s)\<rparr>) p"

text \<open>Signing with the account's own key, unless the request carries a signature, then enqueueing.\<close>

definition submit ::
  "node_env \<Rightarrow> string \<Rightarrow> tx \<Rightarrow> text_bytes \<Rightarrow> text_bytes option \<Rightarrow> protocol \<Rightarrow> reply \<times> protocol" where
  "submit E no_key t tx_type signature p =
     (case (case signature of Some sig \<Rightarrow> Some sig | None \<Rightarrow> derive_signature_for_sender E t tx_type (pr_state p)) of
        None \<Rightarrow> (Refused no_key, p)
      | Some sig \<Rightarrow>
     (case enqueue_standard_or_pbm E (t\<lparr>tx_signature_hex := sig\<rparr>) (pr_state p) of
        (Inl _, s) \<Rightarrow> (Refused ''not enqueued'', p\<lparr>pr_state := s\<rparr>)
      | (Inr (h, after, _), s) \<Rightarrow>
          (Accepted h after, mark_seen h (track_nonce (tx_from t) (saturating_add (tx_nonce t) 1) (p\<lparr>pr_state := s\<rparr>)))))"

definition enqueue_validator_system_tx ::
  "node_env \<Rightarrow> text_bytes \<Rightarrow> u128 \<Rightarrow> tx_kind \<Rightarrow> u64 option \<Rightarrow> text_bytes option \<Rightarrow> protocol \<Rightarrow> reply \<times> protocol" where
  "enqueue_validator_system_tx E vid value kind nonce signature p =
     (let s = pr_state p; fee = 1000 * 10 in
      if \<not> (kind = WalletToVault \<or> kind = VaultToWallet \<or> kind = BuyTicket) then (Refused ''invalid validator system tx type'', p)
      else if value = 0 then (Refused ''value must be greater than zero'', p)
      else if \<not> has_validator s vid then (Refused ''validator not found'', p)
      else case validator_owner_account s vid of None \<Rightarrow> (Refused ''validator account not configured'', p) | Some owner \<Rightarrow>
      let expected = tracked_nonce s owner; nonce = (case nonce of Some n \<Rightarrow> n | None \<Rightarrow> expected) in
      if nonce < expected then (Refused ''invalid nonce'', p)
      else let required = (case kind of WalletToVault \<Rightarrow> saturating_add value (ucast fee)
             | BuyTicket \<Rightarrow> saturating_add (saturating_mul TICKET_COST_QUARKS value) (ucast fee) | _ \<Rightarrow> ucast fee) in
      if \<not> can_pay_fee E s owner TOKEN_ETX_ID required then (Refused ''insufficient validator account balance'', p)
      else if kind = VaultToWallet \<and> \<not> value \<le> validator_withdrawable_vault_quarks s vid
        then (Refused ''withdrawal exceeds unlocked vault balance or would leave vault below minimum'', p)
      else submit E ''cannot derive signature for validator account''
        \<lparr>tx_chain_id = CHAIN_ID, tx_from = owner, tx_nonce = nonce, tx_to = vid, tx_token_id = TOKEN_ETX_ID, tx_value = value, tx_gas = 1000,
         tx_fee_quarks = fee, tx_max_fee_per_gas = 10, tx_kind_of = kind, tx_valid_after_slot = 0, tx_fee_token_id = TOKEN_ETX_ID,
         tx_data = [], tx_signature_hex = []\<rparr> (kind_text kind) signature p)"

definition pending_registration :: "node_env \<Rightarrow> protocol_state \<Rightarrow> text_bytes \<Rightarrow> bool" where
  "pending_registration E s key \<longleftrightarrow> (\<exists>t \<in> set (ps_mempool s @ ps_pbm_pool s). tx_kind_of t = RegisterValidator \<and>
     (case registration_fields (ne_crates E) (tx_data t) of None \<Rightarrow> False | Some (k, _) \<Rightarrow> k = key))"

definition enqueue_register_validator_tx ::
  "node_env \<Rightarrow> text_bytes \<Rightarrow> text_bytes \<Rightarrow> text_bytes option \<Rightarrow> u64 option \<Rightarrow> text_bytes option \<Rightarrow> protocol \<Rightarrow> reply \<times> protocol" where
  "enqueue_register_validator_tx E from pubkey reward nonce signature p =
     (let from = normalize_address E from; p = on_state (ensure_account_exists E from) p; s = pr_state p; fee = 1000 * 10 in
      case normalize_validator_pubkey E pubkey of None \<Rightarrow> (Refused ''invalid validator_pubkey'', p) | Some key \<Rightarrow>
      if validator_pubkey_registered s key \<or> pending_registration E s key then (Refused ''validator_pubkey already registered'', p)
      else let reward = (case reward of Some a \<Rightarrow> normalize_address E a | None \<Rightarrow> from);
          expected = tracked_nonce s from; nonce = (case nonce of Some n \<Rightarrow> n | None \<Rightarrow> expected) in
      if nonce < expected then (Refused ''invalid nonce'', p)
      else if \<not> can_pay_fee E s from TOKEN_ETX_ID (ucast (fee :: u64)) then (Refused ''insufficient account balance'', p)
      else submit E ''cannot derive signature for sender''
        \<lparr>tx_chain_id = CHAIN_ID, tx_from = from, tx_nonce = nonce, tx_to = next_pending_validator_id s, tx_token_id = TOKEN_ETX_ID, tx_value = 0,
         tx_gas = 1000, tx_fee_quarks = fee, tx_max_fee_per_gas = 10, tx_kind_of = RegisterValidator, tx_valid_after_slot = 0,
         tx_fee_token_id = TOKEN_ETX_ID, tx_data = registration_text (ne_crates E) key reward, tx_signature_hex = []\<rparr>
        (str ''registerValidator'') signature p)"

text \<open>\<open>SendTx\<close>: a transfer goes to the mempool with whatever signature text the request carries.\<close>

definition send_tx :: "node_env \<Rightarrow> tx \<Rightarrow> text_bytes \<Rightarrow> text_bytes option \<Rightarrow> protocol \<Rightarrow> reply \<times> protocol" where
  "send_tx E t tx_type signature p =
     (if tx_chain_id t \<noteq> CHAIN_ID then (Refused ''invalid chain_id'', p)
      else if tx_type \<noteq> str ''normal_transfer'' then (Refused ''invalid tx_type'', p)
      else if tx_gas t < 1000 then (Refused ''gas_limit must be >= 1000'', p)
      else let p = on_state (ensure_account_exists E (tx_from t)) p; s = pr_state p in
      if tx_nonce t < tracked_nonce s (tx_from t) then (Refused ''invalid nonce'', p)
      else case (case signature of Some sig \<Rightarrow> Some sig | None \<Rightarrow> derive_signature_for_sender E t tx_type s) of
        None \<Rightarrow> (Refused ''cannot derive signature for sender'', p)
      | Some sig \<Rightarrow>
      let t = t\<lparr>tx_fee_quarks := saturating_mul (tx_gas t) (tx_max_fee_per_gas t), tx_kind_of := Transfer, tx_valid_after_slot := 0, tx_signature_hex := sig\<rparr> in
      case tx_hash (ne_keccak E) (ne_crates E) t of
        None \<Rightarrow> (Refused ''transaction cannot be canonically encoded'', p)
      | Some h \<Rightarrow> (Accepted h 0, on_state (\<lambda>s. s\<lparr>ps_mempool := ps_mempool s @ [t]\<rparr>)
          (mark_seen h (track_nonce (tx_from t) (saturating_add (tx_nonce t) 1) p))))"

definition faucet :: "node_env \<Rightarrow> text_bytes \<Rightarrow> u128 option \<Rightarrow> protocol \<Rightarrow> reply \<times> protocol" where
  "faucet E to amount p =
     (let amount = (case amount of Some a \<Rightarrow> a | None \<Rightarrow> 10000000000000); to = normalize_address E to;
          p = on_state (credit_balance E to TOKEN_ETX_ID amount) p in
      (Funded to (case map_of (ps_accounts (pr_state p)) to of Some a \<Rightarrow> balance_or_zero a TOKEN_ETX_ID | None \<Rightarrow> 0),
       push_event (Ev_faucet to amount) p))"

section \<open>Retiring tickets\<close>

definition retire_ticket :: "u64 \<Rightarrow> u64 \<Rightarrow> node_ticket \<Rightarrow> node_ticket" where
  "retire_ticket request finalize t = t\<lparr>nt_retiring := True, nt_muted := True, nt_bucket := 1,
     nt_retire_requested_epoch := Some request, nt_retire_effective_epoch := Some finalize\<rparr>"

fun retire_tickets :: "u64 list \<Rightarrow> u64 \<Rightarrow> u64 \<Rightarrow> protocol_state \<Rightarrow> protocol_state" where
  "retire_tickets [] request finalize s = s"
| "retire_tickets (i # is) request finalize s = retire_tickets is request finalize
     (s\<lparr>ps_tickets := update_first (\<lambda>t. nt_id t = i) (retire_ticket request finalize) (ps_tickets s),
        ps_retire_finalize := push_entry finalize i (ps_retire_finalize s)\<rparr>)"

definition request_local_ticket_retire :: "nat \<Rightarrow> protocol_state \<Rightarrow> protocol_state" where
  "request_local_ticket_retire count s = (case ps_local_validator_id s of
     None \<Rightarrow> s\<lparr>ps_events := Ev_retire ''not a validator node'' # ps_events s\<rparr>
   | Some i \<Rightarrow>
       let eligible = take count (sort (map nt_id (filter (\<lambda>t. nt_owner t = i \<and> \<not> nt_dead t \<and> \<not> nt_muted t \<and> \<not> nt_retiring t \<and>
             validator_active s (nt_owner t)) (ps_tickets s)))) in
       if eligible = [] then s\<lparr>ps_events := Ev_retire ''no eligible local tickets'' # ps_events s\<rparr>
       else let request = ps_epoch_index s;
           s = refresh_validator_activation i (retire_tickets eligible request (request + 2) s) in
         s\<lparr>ps_events := Ev_retire ''started'' # ps_events s\<rparr>)"

end
