(* ===== verification/Node_Chain.thy ===== *)
theory Node_Chain
  imports Node_Core
begin

text \<open>
  The chain of the prototype node. Only \<open>record_block\<close> writes blocks; every other operation leaves the part of the
  state that holds the chain alone. From this follow the atomicity of \<open>finish_slot\<close> and the invariant that the
  stored blocks form one gapless linked chain whose length is the slot number.
\<close>

section \<open>What leaves the chain alone\<close>

named_theorems chain_frame

definition chain_view :: "protocol_state \<Rightarrow> u64 \<times> (u64 \<times> block) list \<times> block list \<times> block option" where
  "chain_view s = (ps_slot s, ps_blocks s, ps_history s, ps_current_result s)"

lemma chain_view_eq:
  "chain_view s = chain_view t \<longleftrightarrow>
     ps_slot s = ps_slot t \<and> ps_blocks s = ps_blocks t \<and> ps_history s = ps_history t \<and> ps_current_result s = ps_current_result t"
  by (auto simp: chain_view_def)

text \<open>A slot's execution also leaves the leader alone.\<close>

named_theorems exec_frame

definition exec_view where
  "exec_view s = (chain_view s, ps_current_leader s, ps_current_ticket_id s, ps_local_validator_id s)"

lemma exec_chain: "exec_view s = exec_view t \<Longrightarrow> chain_view s = chain_view t"
  by (simp add: exec_view_def)

lemma exec_view_updates [exec_frame]:
  "exec_view (s\<lparr>ps_validators := v1\<rparr>) = exec_view s" "exec_view (s\<lparr>ps_tickets := v2\<rparr>) = exec_view s"
  "exec_view (s\<lparr>ps_mempool := v3\<rparr>) = exec_view s" "exec_view (s\<lparr>ps_pbm_pool := v4\<rparr>) = exec_view s"
  "exec_view (s\<lparr>ps_events := v5\<rparr>) = exec_view s" "exec_view (s\<lparr>ps_burn_this_sub_epoch := v6\<rparr>) = exec_view s"
  "exec_view (s\<lparr>ps_fees_burned_total := v7\<rparr>) = exec_view s" "exec_view (s\<lparr>ps_ticket_burned_total := v8\<rparr>) = exec_view s"
  "exec_view (s\<lparr>ps_base_issuance_total := v9\<rparr>) = exec_view s" "exec_view (s\<lparr>ps_burn_offset_total := v10\<rparr>) = exec_view s"
  "exec_view (s\<lparr>ps_sub_epoch_issued_quarks := v11\<rparr>) = exec_view s" "exec_view (s\<lparr>ps_sub_epoch_burned_quarks := v12\<rparr>) = exec_view s"
  "exec_view (s\<lparr>ps_epoch_issued_quarks := v13\<rparr>) = exec_view s" "exec_view (s\<lparr>ps_epoch_burned_quarks := v14\<rparr>) = exec_view s"
  "exec_view (s\<lparr>ps_annual_inflation_ppb := v15\<rparr>) = exec_view s" "exec_view (s\<lparr>ps_base_reward_per_block_quarks := v16\<rparr>) = exec_view s"
  "exec_view (s\<lparr>ps_epoch_validator_blocks := v17\<rparr>) = exec_view s" "exec_view (s\<lparr>ps_epoch_total_slots := v18\<rparr>) = exec_view s"
  "exec_view (s\<lparr>ps_mode := v19\<rparr>) = exec_view s" "exec_view (s\<lparr>ps_exec_status := v22\<rparr>) = exec_view s"
  "exec_view (s\<lparr>ps_nonce_tracker := v23\<rparr>) = exec_view s" "exec_view (s\<lparr>ps_accounts := v24\<rparr>) = exec_view s"
  "exec_view (s\<lparr>ps_bootstrapped_from_peer := v25\<rparr>) = exec_view s" "exec_view (s\<lparr>ps_remote_slot_results := v26\<rparr>) = exec_view s"
  "exec_view (s\<lparr>ps_liveness_epoch := v27\<rparr>) = exec_view s" "exec_view (s\<lparr>ps_liveness_counted_slots := v28\<rparr>) = exec_view s"
  "exec_view (s\<lparr>ps_liveness_total_slots := v29\<rparr>) = exec_view s" "exec_view (s\<lparr>ps_liveness_validator_slots := v30\<rparr>) = exec_view s"
  "exec_view (s\<lparr>ps_epoch_index := v31\<rparr>) = exec_view s" "exec_view (s\<lparr>ps_sub_epoch_index := v32\<rparr>) = exec_view s"
  "exec_view (s\<lparr>ps_epoch_seed := v33\<rparr>) = exec_view s" "exec_view (s\<lparr>ps_blocks_this_sub_epoch := v34\<rparr>) = exec_view s"
  "exec_view (s\<lparr>ps_retire_finalize := v35\<rparr>) = exec_view s" "exec_view (s\<lparr>ps_reward_unlocks := v36\<rparr>) = exec_view s"
  "exec_view (s\<lparr>ps_raw_txs := v37\<rparr>) = exec_view s" "exec_view (s\<lparr>ps_block_hash_to_number := v38\<rparr>) = exec_view s"
  by (simp_all add: exec_view_def chain_view_def)

subsection \<open>Execution\<close>

text \<open>Executing a transaction touches the accounts, the validators, the tickets, the queues and the burn counters;
  \<open>exec_rest\<close> is everything else.\<close>

named_theorems rest_frame

definition exec_rest :: "protocol_state \<Rightarrow> protocol_state" where
  "exec_rest s = s\<lparr>ps_accounts := [], ps_validators := [], ps_tickets := [], ps_mempool := [], ps_pbm_pool := [], ps_ticket_burned_total := 0,
     ps_sub_epoch_burned_quarks := 0, ps_epoch_burned_quarks := 0\<rparr>"

lemma rest_exec: "exec_rest s = exec_rest t \<Longrightarrow> exec_view s = exec_view t"
  by (drule arg_cong [of _ _ exec_view]) (simp add: exec_rest_def exec_view_def chain_view_def)

lemma exec_rest_updates [rest_frame]:
  "exec_rest (s\<lparr>ps_accounts := v1\<rparr>) = exec_rest s" "exec_rest (s\<lparr>ps_validators := v2\<rparr>) = exec_rest s"
  "exec_rest (s\<lparr>ps_tickets := v3\<rparr>) = exec_rest s" "exec_rest (s\<lparr>ps_mempool := v4\<rparr>) = exec_rest s"
  "exec_rest (s\<lparr>ps_pbm_pool := v5\<rparr>) = exec_rest s" "exec_rest (s\<lparr>ps_ticket_burned_total := v6\<rparr>) = exec_rest s"
  "exec_rest (s\<lparr>ps_sub_epoch_burned_quarks := v7\<rparr>) = exec_rest s" "exec_rest (s\<lparr>ps_epoch_burned_quarks := v8\<rparr>) = exec_rest s"
  by (simp_all add: exec_rest_def)

lemma ensure_account_view [rest_frame]: "exec_rest (ensure_account_exists E i s) = exec_rest s"
  by (simp add: ensure_account_exists_def Let_def rest_frame)

lemma credit_view [rest_frame]: "exec_rest (credit_balance E i token amount s) = exec_rest s"
  by (simp add: credit_balance_def Let_def rest_frame split: option.split)

lemma debit_view [rest_frame]: "exec_rest (snd (debit_balance E i token amount s)) = exec_rest s"
  by (simp add: debit_balance_def Let_def rest_frame split: option.split)

lemma refresh_view [rest_frame]: "exec_rest (refresh_validator_activation i s) = exec_rest s"
  by (simp add: refresh_validator_activation_def Let_def rest_frame)

lemma refresh_fold_view [rest_frame]: "exec_rest (fold refresh_validator_activation is s) = exec_rest s"
  by (induction "is" arbitrary: s) (simp_all add: rest_frame)

lemma burn_mint_view [rest_frame]: "exec_rest (burn_and_mint_tickets i n s) = exec_rest s"
  by (simp add: burn_and_mint_tickets_def Let_def rest_frame)

lemma register_view [rest_frame]: "exec_rest (register_validator_record E i owner key reward s) = exec_rest s"
  by (simp add: register_validator_record_def rest_frame)

lemma enqueue_view [rest_frame]: "exec_rest (snd (enqueue_standard_or_pbm E t s)) = exec_rest s"
  by (simp add: enqueue_standard_or_pbm_def Let_def rest_frame split: option.split)

lemma debit_pair_view: "debit_balance E i token amount s = (r, s') \<Longrightarrow> exec_rest s' = exec_rest s"
  using debit_view [of E i token amount s] by simp

lemma execute_register_view: "exec_rest (snd (execute_register E t s)) = exec_rest s"
  by (auto simp: execute_register_def rest_frame dest!: debit_pair_view split: option.splits prod.splits bool.splits)

lemma execute_buy_view: "exec_rest (snd (execute_buy E t s)) = exec_rest s"
  by (auto simp: execute_buy_def Let_def rest_frame dest!: debit_pair_view split: prod.splits bool.splits)

lemma execute_deposit_view: "exec_rest (snd (execute_deposit E t s)) = exec_rest s"
  by (auto simp: execute_deposit_def Let_def rest_frame dest!: debit_pair_view split: prod.splits bool.splits)

lemma execute_withdraw_view: "exec_rest (snd (execute_withdraw E t s)) = exec_rest s"
  by (auto simp: execute_withdraw_def Let_def rest_frame dest!: debit_pair_view split: prod.splits bool.splits)

lemma execute_transfer_view: "exec_rest (snd (execute_transfer E t s)) = exec_rest s"
  by (auto simp: execute_transfer_def Let_def rest_frame dest!: debit_pair_view split: prod.splits bool.splits)

lemmas execute_views = execute_register_view execute_buy_view execute_deposit_view execute_withdraw_view execute_transfer_view

lemma execute_tx_view [rest_frame]: "exec_rest (snd (execute_tx E t s)) = exec_rest s"
  by (simp add: execute_tx_def execute_views split: tx_kind.split)

lemma execute_pbm_view [rest_frame]: "exec_rest (snd (execute_pbm_tx E t s)) = exec_rest s"
  using execute_views [of E t s] by (auto simp: execute_pbm_tx_def split: tx_kind.splits prod.splits)

lemma validator_loop_view:
  "validator_loop E rng s gas fees ts pool = (rng', s', gas', fees', ts') \<Longrightarrow> exec_rest s' = exec_rest s"
proof (induction E rng s gas fees ts pool rule: validator_loop.induct)
  case (2 E rng s gas fees ts t pool)
  have x: "exec_rest s1 = exec_rest s" if "execute_tx E t (s\<lparr>ps_mempool := pool\<rparr>) = (r, s1)" for r s1
    using execute_tx_view [of E t "s\<lparr>ps_mempool := pool\<rparr>"] that by (simp add: rest_frame)
  from 2 show ?case
    by (auto simp: rest_frame dest: x split: if_splits option.splits prod.splits bool.splits)
qed simp

subsection \<open>Rewards and boundaries\<close>

lemmas rest_exec_frames [exec_frame] = rest_frame [THEN rest_exec]

lemma lock_reward_view [exec_frame]: "exec_view (lock_validator_reward i amount s) = exec_view s"
  by (simp add: lock_validator_reward_def exec_frame)

lemma unlock_rewards_view [exec_frame]: "exec_view (unlock_rewards rs s) = exec_view s"
  by (induction rs s rule: unlock_rewards.induct) (simp_all add: exec_frame)

lemma unlock_epoch_view [exec_frame]: "exec_view (unlock_rewards_for_epoch epoch s) = exec_view s"
  by (simp add: unlock_rewards_for_epoch_def exec_frame split: option.split)

lemma recompute_view [exec_frame]: "exec_view (recompute_base_reward_per_block s) = exec_view s"
  by (simp add: recompute_base_reward_per_block_def exec_frame)

lemma add_burn_view [exec_frame]: "exec_view (add_burn fees s) = exec_view s"
  by (simp add: add_burn_def exec_frame)

lemma reward_leader_view [exec_frame]: "exec_view (reward_leader s) = exec_view s"
  by (simp add: reward_leader_def Let_def exec_frame)

lemma deactivate_view [exec_frame]: "exec_view (deactivate_pbm_if_ready s) = exec_view s"
  by (simp add: deactivate_pbm_if_ready_def exec_frame)

lemma mint_offsets_view [exec_frame]: "exec_view (mint_offsets is opb s) = exec_view s"
  by (induction "is" opb s rule: mint_offsets.induct) (simp_all add: Let_def exec_frame)

lemma close_sub_epoch_view [exec_frame]: "exec_view (close_sub_epoch s) = exec_view s"
  by (simp add: close_sub_epoch_def Let_def exec_frame)

lemma transitions_view [exec_frame]: "exec_view (process_epoch_validator_transitions s) = exec_view s"
  by (simp add: process_epoch_validator_transitions_def Let_def exec_frame)

lemma finalize_view [exec_frame]: "exec_view (finalize_retire_for_epoch epoch s) = exec_view s"
  by (simp add: finalize_retire_for_epoch_def exec_frame split: option.split prod.split)

lemma close_epoch_view [exec_frame]: "exec_view (close_epoch E s) = exec_view s"
  by (simp add: close_epoch_def rotate_epoch_seed_def Let_def exec_frame)

lemma run_boundaries_view [exec_frame]: "exec_view (run_boundaries E s) = exec_view s"
  by (simp add: run_boundaries_def Let_def exec_frame)

lemma update_liveness_view [exec_frame]: "exec_view (update_liveness b s) = exec_view s"
  by (simp add: update_liveness_def Let_def exec_frame)

subsection \<open>The chain part\<close>

lemmas exec_chain_frames [chain_frame] = exec_frame [THEN exec_chain]

lemma chain_view_leader [chain_frame]:
  "chain_view (s\<lparr>ps_current_leader := l\<rparr>) = chain_view s" "chain_view (s\<lparr>ps_current_ticket_id := i\<rparr>) = chain_view s"
  by (simp_all add: chain_view_def)

lemma chain_view_fold:
  "(\<And>x s. chain_view (f x s) = chain_view s) \<Longrightarrow> chain_view (fold f xs s) = chain_view s"
  by (induction xs arbitrary: s) simp_all

section \<open>Producing, recording, finishing\<close>

lemma canonical_parent_view: "chain_view s = chain_view t \<Longrightarrow> canonical_parent_hash E s = canonical_parent_hash E t"
  by (auto simp: canonical_parent_hash_def chain_view_eq)

lemma build_block_Some:
  assumes "build_block E s kind proposer ticket ts gas pd = Some b"
  obtains parent where "canonical_parent_hash E s (ps_slot s) = Some parent"
    and "block_new (ne_keccak E) (ne_crates E) (ps_slot s) kind parent proposer ticket ts gas pd = Some b"
    and "block_slot b = ps_slot s" "block_kind_of b = kind" "bh_parent_hash (bk_header b) = parent" "bk_transactions b = ts"
    and "validate_commitments (ne_keccak E) (ne_crates E) b"
  using assms by (auto simp: build_block_def block_new_def block_slot_def block_kind_of_def bind_eq_Some_conv Let_def split: if_splits)

lemma produce_block_view:
  assumes "produce_block E rng s = Some (b, rng', s')"
  shows "exec_view s' = exec_view s" "block_slot b = ps_slot s"
    and "canonical_parent_hash E s (ps_slot s) = Some (bh_parent_hash (bk_header b))"
    and "validate_commitments (ne_keccak E) (ne_crates E) b"
proof -
  consider (none) "protocol_no_tickets_block E s = Some (b, s')" | (local) "validator_block E rng s = Some (b, rng', s')"
      | (miss) "protocol_miss_block E s = Some (b, s')"
    using assms by (auto simp: produce_block_def split: if_splits)
  then obtain kind proposer ticket ts gas pd where b: "build_block E s' kind proposer ticket ts gas pd = Some b"
      and v: "exec_view s' = exec_view s"
  proof cases
    case none
    have x: "exec_view s1 = exec_view s" if "execute_pbm_tx E t (s\<lparr>ps_pbm_pool := q\<rparr>) = (r, s1)" for t q r s1
      using rest_exec [OF execute_pbm_view [of E t "s\<lparr>ps_pbm_pool := q\<rparr>"]] that by (simp add: exec_frame)
    from none have "exec_view s' = exec_view s"
      by (auto simp: protocol_no_tickets_block_def Let_def exec_frame bind_eq_Some_conv dest!: x split: option.splits prod.splits)
    with none show ?thesis
      by (auto simp: protocol_no_tickets_block_def Let_def bind_eq_Some_conv split: option.splits prod.splits intro: that)
  next
    case local
    then have "exec_view s' = exec_view s"
      by (auto simp: validator_block_def Let_def exec_frame bind_eq_Some_conv dest!: validator_loop_view [THEN rest_exec] split: prod.splits)
    with local show ?thesis
      by (auto simp: validator_block_def Let_def bind_eq_Some_conv split: prod.splits intro: that)
  next
    case miss
    then show ?thesis
      by (auto simp: protocol_miss_block_def Let_def exec_frame bind_eq_Some_conv split: if_splits intro: that)
  qed
  from b obtain parent where "canonical_parent_hash E s' (ps_slot s') = Some parent" "block_slot b = ps_slot s'"
      "bh_parent_hash (bk_header b) = parent" "validate_commitments (ne_keccak E) (ne_crates E) b"
    by (rule build_block_Some)
  with v canonical_parent_view [OF exec_chain [OF v], of E] exec_chain [OF v] show "exec_view s' = exec_view s" "block_slot b = ps_slot s"
      "canonical_parent_hash E s (ps_slot s) = Some (bh_parent_hash (bk_header b))"
      "validate_commitments (ne_keccak E) (ne_crates E) b"
    by (auto simp: chain_view_eq)
qed

lemma prevalidate_tip_ok:
  assumes "prevalidate_linear_tip E b s = Inr ()"
  shows "prevalidate_active_linear_slot s = Inr ()" "block_slot b = ps_slot s"
    and "canonical_parent_hash E s (ps_slot s) = Some (bh_parent_hash (bk_header b))"
    and "validate_commitments (ne_keccak E) (ne_crates E) b"
    and "\<exists>wire. wire_bytes (ne_keccak E) (ne_crates E) b = Some wire \<and> from_wire_bytes (ne_keccak E) (ne_crates E) wire = Some b"
  using assms
  by (auto simp: prevalidate_linear_tip_def Let_def try_res_Inr_iff ok_or_Inr_iff canonical_parent_hash_def split: if_splits)

lemma record_tip_ok:
  assumes "record_linear_tip E b s = (Inr (), s')"
  shows "prevalidate_linear_tip E b s = Inr ()" "ps_current_result s = None"
    and "ps_slot s' = ps_slot s" "ps_blocks s' = bm_insert (block_slot b) b (ps_blocks s)"
    and "ps_history s' = take 50 (b # ps_history s) \<or> length (ps_history s) > 50"
proof -
  let ?s1 = "update_liveness b (s\<lparr>ps_current_result := Some b\<rparr>)"
  let ?s2 = "?s1\<lparr>ps_blocks_this_sub_epoch := ps_blocks_this_sub_epoch ?s1 @ [if block_kind_of b = Validator then bk_proposer b else None]\<rparr>"
  from assms obtain s3 where p: "prevalidate_linear_tip E b s = Inr ()" "ps_current_result s = None"
      and r: "record_block E b ?s2 = (True, s3)" and s': "s' = push_history b s3"
    by (auto simp: record_linear_tip_def Let_def split: if_splits prod.splits sum.splits)
  have v: "ps_slot ?s2 = ps_slot s" "ps_blocks ?s2 = ps_blocks s" "ps_history ?s2 = ps_history s"
    using exec_chain [OF update_liveness_view [of b "s\<lparr>ps_current_result := Some b\<rparr>"]] by (simp_all add: chain_view_eq)
  have "ps_slot s3 = ps_slot s" "ps_blocks s3 = bm_insert (block_slot b) b (ps_blocks s)" "ps_history s3 = ps_history s"
    using r v by (auto simp: record_block_def Let_def split: if_splits option.splits)
  moreover have "ps_history s' = take 50 (b # ps_history s3) \<or> length (ps_history s3) > 50"
    by (cases "length (ps_history s3) = 50") (auto simp: s' push_history_def Let_def butlast_conv_take take_Cons' not_less)
  ultimately show "prevalidate_linear_tip E b s = Inr ()" "ps_current_result s = None"
      "ps_slot s' = ps_slot s" "ps_blocks s' = bm_insert (block_slot b) b (ps_blocks s)"
      "ps_history s' = take 50 (b # ps_history s) \<or> length (ps_history s) > 50"
    using p by (simp_all add: s' push_history_def Let_def)
qed

lemma drop_remote_view [chain_frame]: "chain_view (pr_state (drop_remote_result p)) = chain_view (pr_state p)"
  by (simp add: drop_remote_result_def push_event_def Let_def chain_frame)

lemma finish_slot_finished:
  assumes "finish_slot E p = Some (Finished wire, p')"
  obtains b rng s1 s2 where "produce_block E (pr_rng p) (pr_state (drop_remote_result p)) = Some (b, rng, s1)"
    and "record_linear_tip E b s1 = (Inr (), s2)" "prevalidate_active_linear_slot (pr_state (drop_remote_result p)) = Inr ()"
    and "p' = p\<lparr>pr_rng := rng, pr_state := run_boundaries E s2\<rparr>" "wire_bytes (ne_keccak E) (ne_crates E) b = Some wire"
proof -
  have rng: "pr_rng (drop_remote_result p) = pr_rng p" "(drop_remote_result p)\<lparr>pr_rng := x, pr_state := y\<rparr> = p\<lparr>pr_rng := x, pr_state := y\<rparr>" for x y
    by (simp_all add: drop_remote_result_def push_event_def Let_def)
  from assms obtain b rng s1 s2 where *: "produce_block E (pr_rng p) (pr_state (drop_remote_result p)) = Some (b, rng, s1)"
      "record_linear_tip E b s1 = (Inr (), s2)" "prevalidate_active_linear_slot (pr_state (drop_remote_result p)) = Inr ()"
      "p' = p\<lparr>pr_rng := rng, pr_state := run_boundaries E s2\<rparr>" "wire_bytes (ne_keccak E) (ne_crates E) b = Some wire"
    by (auto simp: finish_slot_def stage_local_slot_def staged_execution_def Let_def rng split: if_splits option.splits sum.splits prod.splits)
  show ?thesis by (rule that [OF *])
qed

section \<open>Linear chains\<close>

text \<open>A chain: slots 0, 1, 2, \<dots> without gap, every block with valid commitments, stored under its own slot, readable
  back from its encoding, and linked to its predecessor by hash.\<close>

definition chain_link :: "node_env \<Rightarrow> (u64 \<times> block) list \<Rightarrow> nat \<Rightarrow> block \<Rightarrow> bool" where
  "chain_link E bs i b \<longleftrightarrow> block_slot b = of_nat i \<and> validate_commitments (ne_keccak E) (ne_crates E) b \<and>
     (\<exists>wire. wire_bytes (ne_keccak E) (ne_crates E) b = Some wire \<and> from_wire_bytes (ne_keccak E) (ne_crates E) wire = Some b) \<and>
     bh_parent_hash (bk_header b) = (if i = 0 then ZERO_HASH else block_hash (ne_keccak E) (snd (bs ! (i - 1))))"

definition linear_chain :: "node_env \<Rightarrow> (u64 \<times> block) list \<Rightarrow> bool" where
  "linear_chain E bs \<longleftrightarrow> length bs \<le> 2 ^ 64 \<and> map fst bs = map of_nat [0..<length bs] \<and>
     (\<forall>i < length bs. chain_link E bs i (snd (bs ! i)))"

text \<open>The chain part of the node's state between slots: the history shows the last fifty blocks, no result is pending,
  and the slot number is the length of the chain.\<close>

definition node_chain :: "node_env \<Rightarrow> protocol_state \<Rightarrow> bool" where
  "node_chain E s \<longleftrightarrow> linear_chain E (ps_blocks s) \<and> ps_history s = take 50 (rev (map snd (ps_blocks s))) \<and>
     ps_current_result s = None \<and> (length (ps_blocks s) < 2 ^ 64 \<longrightarrow> ps_slot s = of_nat (length (ps_blocks s)))"

lemma linear_chain_Nil [simp]: "linear_chain E []"
  by (simp add: linear_chain_def)

lemma chain_key: "linear_chain E bs \<Longrightarrow> i < length bs \<Longrightarrow> fst (bs ! i) = of_nat i"
  using nth_map [of i bs fst] by (simp add: linear_chain_def)

lemma chain_keys: "linear_chain E bs \<Longrightarrow> fst ` set bs = of_nat ` {..<length bs}"
  using image_set [of fst bs] image_set [of "of_nat :: nat \<Rightarrow> u64" "[0..<length bs]"]
  by (simp add: linear_chain_def atLeast0LessThan)

lemma unat_of_nat_u64: "i < 2 ^ 64 \<Longrightarrow> unat (of_nat i :: u64) = i"
  by (simp add: unat_of_nat take_bit_nat_eq_self)

lemma saturating_succ_u64: "Suc n < 2 ^ 64 \<Longrightarrow> saturating_add (of_nat n :: u64) 1 = of_nat (Suc n)"
proof -
  assume n: "Suc n < 2 ^ 64"
  have "unat (saturating_add (of_nat n :: u64) 1) = Suc n"
    unfolding saturating_add_unat using n unat_of_nat_u64 [of n] by simp
  moreover have "unat (of_nat (Suc n) :: u64) = Suc n" by (rule unat_of_nat_u64 [OF n])
  ultimately show ?thesis by (metis word_unat_eq_iff)
qed

lemma saturating_top_u64: "saturating_add (of_nat (2 ^ 64 - 1) :: u64) 1 = of_nat (2 ^ 64 - 1)"
proof -
  have u: "unat (of_nat (2 ^ 64 - 1) :: u64) = 2 ^ 64 - 1" by (rule unat_of_nat_u64) simp
  have "unat (saturating_add (of_nat (2 ^ 64 - 1) :: u64) 1) = 2 ^ 64 - 1"
    unfolding saturating_add_unat u by simp
  with u show ?thesis by (metis word_unat_eq_iff)
qed

lemma saturating_pred_u64: "Suc n < 2 ^ 64 \<Longrightarrow> saturating_sub (of_nat (Suc n) :: u64) 1 = of_nat n"
  using unat_of_nat_u64 [of n] unat_of_nat_u64 [of "Suc n"] by (simp add: saturating_sub_def word_le_nat_alt)

lemma of_nat_u64_less: "i < 2 ^ 64 \<Longrightarrow> j < 2 ^ 64 \<Longrightarrow> (of_nat i :: u64) < of_nat j \<longleftrightarrow> i < j"
  by (simp add: word_less_nat_alt unat_of_nat_u64)

lemma chain_lookup:
  assumes "linear_chain E bs" "i < length bs"
  shows "map_of bs (of_nat i) = Some (snd (bs ! i))"
proof -
  have "distinct (map fst bs)"
    using assms(1) by (auto simp: linear_chain_def distinct_map inj_on_def dest!: arg_cong [of _ _ unat] simp: unat_of_nat_u64)
  moreover have "(of_nat i, snd (bs ! i)) \<in> set bs"
    using chain_key [OF assms] assms(2) by (metis nth_mem prod.collapse)
  ultimately show ?thesis by simp
qed

lemma chain_max:
  assumes "linear_chain E bs" "bs \<noteq> []"
  shows "foldl max 0 (map fst bs) = (of_nat (length bs - 1) :: u64)"
proof -
  have m: "foldl max 0 (map of_nat [0..<Suc n]) = (of_nat n :: u64)" if "n < 2 ^ 64" for n
    using that
  proof (induction n)
    case (Suc n)
    then have "(of_nat n :: u64) \<le> of_nat (Suc n)" using of_nat_u64_less [of n "Suc n"] by (simp add: less_imp_le)
    with Suc show ?case by (simp add: max_def)
  qed simp
  from assms obtain n where n: "length bs = Suc n" by (cases bs) auto
  with assms(1) have "map fst bs = map of_nat [0..<Suc n]" "n < 2 ^ 64" unfolding linear_chain_def by (metis, simp)
  with m [of n] show ?thesis by (simp only: n diff_Suc_1)
qed

text \<open>A slot that passes the first check is the length of the chain.\<close>

lemma active_slot_is_length:
  assumes c: "linear_chain E (ps_blocks s)" and p: "prevalidate_active_linear_slot s = Inr ()"
  shows "length (ps_blocks s) < 2 ^ 64" "ps_slot s = of_nat (length (ps_blocks s))"
proof -
  let ?bs = "ps_blocks s"
  have "length ?bs < 2 ^ 64 \<and> ps_slot s = of_nat (length ?bs)"
  proof (cases "?bs = []")
    case True
    with p show ?thesis by (auto simp: prevalidate_active_linear_slot_def Let_def split: if_splits)
  next
    case False
    then obtain n where n: "length ?bs = Suc n" by (cases ?bs) auto
    have le: "n < 2 ^ 64" using c n by (simp add: linear_chain_def)
    have slot: "ps_slot s = saturating_add (of_nat n) 1" and none: "map_of ?bs (ps_slot s) = None"
      using p chain_max [OF c False] False n by (auto simp: prevalidate_active_linear_slot_def Let_def split: if_splits)
    have "Suc n < 2 ^ 64"
    proof (rule ccontr)
      assume "\<not> Suc n < 2 ^ 64"
      with le have "n = 2 ^ 64 - 1" by simp
      with slot saturating_top_u64 have "ps_slot s = of_nat n" by simp
      with chain_lookup [OF c, of n] n none show False by simp
    qed
    with slot n saturating_succ_u64 [of n] show ?thesis by simp
  qed
  then show "length ?bs < 2 ^ 64" "ps_slot s = of_nat (length ?bs)" by simp_all
qed

lemma parent_at_length:
  assumes c: "linear_chain E (ps_blocks s)" and n: "length (ps_blocks s) < 2 ^ 64" "ps_slot s = of_nat (length (ps_blocks s))"
    and p: "canonical_parent_hash E s (ps_slot s) = Some parent"
  shows "parent = (if ps_blocks s = [] then ZERO_HASH else block_hash (ne_keccak E) (snd (last (ps_blocks s))))"
proof (cases "ps_blocks s = []")
  case True
  with n p show ?thesis by (simp add: canonical_parent_hash_def)
next
  case False
  then obtain k where k: "length (ps_blocks s) = Suc k" by (cases "ps_blocks s") auto
  have "ps_slot s \<noteq> 0" using n k of_nat_u64_less [of 0 "Suc k"] by auto
  moreover have "saturating_sub (ps_slot s) 1 = of_nat k"
    using n k saturating_pred_u64 [of k] by simp
  ultimately show ?thesis
    using p k chain_lookup [OF c, of k] False by (auto simp: canonical_parent_hash_def last_conv_nth)
qed

lemma chain_extend:
  assumes c: "linear_chain E bs" and n: "length bs < 2 ^ 64"
    and b: "block_slot b = of_nat (length bs)" "validate_commitments (ne_keccak E) (ne_crates E) b"
      "\<exists>wire. wire_bytes (ne_keccak E) (ne_crates E) b = Some wire \<and> from_wire_bytes (ne_keccak E) (ne_crates E) wire = Some b"
      "bh_parent_hash (bk_header b) = (if bs = [] then ZERO_HASH else block_hash (ne_keccak E) (snd (last bs)))"
  shows "bm_insert (block_slot b) b bs = bs @ [(block_slot b, b)]" "linear_chain E (bs @ [(block_slot b, b)])"
proof -
  have "\<forall>x \<in> fst ` set bs. x < block_slot b"
    using n by (auto simp: chain_keys [OF c] b(1) of_nat_u64_less)
  then show "bm_insert (block_slot b) b bs = bs @ [(block_slot b, b)]" by (rule bm_insert_last)
  have "chain_link E (bs @ [(block_slot b, b)]) i (snd ((bs @ [(block_slot b, b)]) ! i))" if "i < Suc (length bs)" for i
  proof (cases "i = length bs")
    case True
    with b show ?thesis by (auto simp: chain_link_def nth_append last_conv_nth)
  next
    case False
    with that have "i < length bs" by simp
    moreover then have "i - 1 < length bs" by simp
    ultimately show ?thesis using c by (auto simp: linear_chain_def chain_link_def nth_append)
  qed
  with c n b(1) show "linear_chain E (bs @ [(block_slot b, b)])" by (auto simp: linear_chain_def)
qed

section \<open>Messages and requests\<close>

lemma merge_validator_view [chain_frame]: "chain_view (snd (merge_validator economy v cs)) = chain_view (snd cs)"
  by (auto simp: merge_validator_def Let_def chain_frame split: prod.split option.split)

lemma merge_validators_view [chain_frame]: "chain_view (snd (fold (merge_validator economy) vs cs)) = chain_view (snd cs)"
  by (induction vs arbitrary: cs) (simp_all add: chain_frame)

lemma merge_tickets_view [chain_frame]: "chain_view (fold merge_ticket ts s) = chain_view s"
  by (rule chain_view_fold) (simp add: merge_ticket_def chain_frame)

lemma merge_accounts_view [chain_frame]: "chain_view (fold merge_account as s) = chain_view s"
  by (rule chain_view_fold) (simp add: merge_account_def Let_def chain_frame)

lemma reselect_view [chain_frame]: "chain_view (reselect_leader E s) = chain_view s"
  by (simp add: reselect_leader_def chain_frame split: prod.split)

lemma merge_snapshot_view [chain_frame]: "chain_view (merge_state_snapshot E ss s) = chain_view s"
proof -
  have f: "chain_view s2 = chain_view s1" if "fold (merge_validator economy) vs (c, s1) = (c', s2)" for economy vs c c' s1 s2
    using merge_validators_view [of economy vs "(c, s1)"] that by simp
  show ?thesis
    by (auto simp: merge_state_snapshot_def Let_def chain_frame dest!: f split: prod.split)
qed

lemma learn_view [chain_frame]: "chain_view (learn_validator_from_hello E m vid account bootstrap s) = chain_view s"
  by (simp add: learn_validator_from_hello_def Let_def chain_frame split: option.split)

lemma gossip_view [chain_frame]: "chain_view (accept_gossiped_tx t s) = chain_view s"
  by (simp add: accept_gossiped_tx_def chain_frame)

lemma pr_state_on_state [simp]: "pr_state (on_state f p) = f (pr_state p)"
  by (simp add: on_state_def)

lemma retire_tickets_view [chain_frame]: "chain_view (retire_tickets is request finalize s) = chain_view s"
  by (induction "is" request finalize s rule: retire_tickets.induct) (simp_all add: chain_frame)

lemma retire_view [chain_frame]: "chain_view (request_local_ticket_retire n s) = chain_view s"
  by (simp add: request_local_ticket_retire_def Let_def chain_frame split: option.split)

lemma push_event_view [chain_frame]: "chain_view (pr_state (push_event e p)) = chain_view (pr_state p)"
  by (simp add: push_event_def chain_frame)

lemma enqueue_pair_view: "enqueue_standard_or_pbm E t s = (r, s') \<Longrightarrow> chain_view s' = chain_view s"
  using exec_chain [OF rest_exec [OF enqueue_view [of E t s]]] by simp

lemma submit_view [chain_frame]: "chain_view (pr_state (snd (submit E no_key t tx_type signature p))) = chain_view (pr_state p)"
  by (auto simp: submit_def mark_seen_def track_nonce_def chain_frame dest!: enqueue_pair_view split: option.splits prod.splits sum.splits)

lemma system_tx_view [chain_frame]:
  "chain_view (pr_state (snd (enqueue_validator_system_tx E vid value kind nonce signature p))) = chain_view (pr_state p)"
  by (simp add: enqueue_validator_system_tx_def Let_def chain_frame split: option.split)

lemma register_tx_view [chain_frame]:
  "chain_view (pr_state (snd (enqueue_register_validator_tx E from key reward nonce signature p))) = chain_view (pr_state p)"
  by (simp add: enqueue_register_validator_tx_def Let_def chain_frame split: option.split)

lemma send_tx_view [chain_frame]: "chain_view (pr_state (snd (send_tx E t tx_type signature p))) = chain_view (pr_state p)"
  by (simp add: send_tx_def Let_def mark_seen_def track_nonce_def chain_frame split: option.split)

lemma faucet_view [chain_frame]: "chain_view (pr_state (snd (faucet E to amount p))) = chain_view (pr_state p)"
  by (simp add: faucet_def Let_def chain_frame)

lemma fund_view [chain_frame]: "chain_view (fund_accounts E fs s) = chain_view s"
  by (induction E fs s rule: fund_accounts.induct) (simp_all add: chain_frame)

text \<open>A peer's clock never moves the slot: the block that would precede the target is not stored.\<close>

lemma bootstrap_slot_view:
  assumes "node_chain E s" "length (ps_blocks s) < 2 ^ 64"
  shows "bootstrap_slot_from_peer E slot started elapsed s = s"
proof -
  let ?n = "length (ps_blocks s)"
  have c: "linear_chain E (ps_blocks s)" and slot: "ps_slot s = of_nat ?n" using assms by (auto simp: node_chain_def)
  have "canonical_parent_hash E s target = None" if "ps_slot s < target" for target
  proof -
    have t: "?n < unat target" using that assms(2) by (simp add: slot word_less_nat_alt unat_of_nat_u64)
    have "saturating_sub target 1 \<notin> fst ` set (ps_blocks s)"
    proof
      assume "saturating_sub target 1 \<in> fst ` set (ps_blocks s)"
      then obtain i where "i < ?n" "saturating_sub target 1 = of_nat i" by (auto simp: chain_keys [OF c])
      then have "unat target - 1 = i" using assms(2) unat_of_nat_u64 [of i] saturating_sub_unat [of target 1] by simp
      with \<open>i < ?n\<close> t show False by simp
    qed
    moreover have "target \<noteq> 0" using t by auto
    ultimately show ?thesis by (simp add: canonical_parent_hash_def map_of_eq_None_iff)
  qed
  then show ?thesis by (auto simp: bootstrap_slot_from_peer_def Let_def not_le)
qed

lemma bootstrap_blocks:
  "ps_blocks (bootstrap_slot_from_peer E slot started elapsed s) = ps_blocks s"
  "ps_history (bootstrap_slot_from_peer E slot started elapsed s) = ps_history s"
  "ps_current_result (bootstrap_slot_from_peer E slot started elapsed s) = ps_current_result s"
  using reselect_view by (auto simp: bootstrap_slot_from_peer_def Let_def chain_view_eq)

lemma node_chain_cong: "chain_view s = chain_view t \<Longrightarrow> node_chain E s = node_chain E t"
  by (auto simp: chain_view_eq node_chain_def)

lemma bootstrap_chain: "node_chain E s \<Longrightarrow> node_chain E (bootstrap_slot_from_peer E slot started elapsed s)"
  using bootstrap_slot_view [of E s slot started elapsed]
  by (cases "length (ps_blocks s) < 2 ^ 64") (auto simp: node_chain_def bootstrap_blocks)

lemma reject_ingress:
  "reject_unsupported_canonical_ingress msg p = (False, p) \<or>
   (\<exists>tag. reject_unsupported_canonical_ingress msg p = (True, push_event (Ev_ingress_rejected tag) p))"
  by (auto simp: reject_unsupported_canonical_ingress_def Let_def)

lemma handle_message_cases:
  "chain_view (pr_state (handle_message E addr_ok elapsed msg p)) = chain_view (pr_state p) \<or>
   (\<exists>s slot started. chain_view s = chain_view (pr_state p) \<and>
      pr_state (handle_message E addr_ok elapsed msg p) = bootstrap_slot_from_peer E slot started (elapsed started) s)"
  using reject_ingress [of msg p]
proof
  assume r: "reject_unsupported_canonical_ingress msg p = (False, p)"
  show ?thesis
  proof (cases "parse_hello addr_ok msg")
    case None
    with r show ?thesis by (simp add: handle_message_def chain_frame split: option.split)
  next
    case (Some hello)
    let ?s = "learn_validator_from_hello E (hm_mode hello) (hm_validator_id hello) (hm_validator_account hello) (hm_bootstrap hello) (pr_state p)"
    have "pr_state (handle_message E addr_ok elapsed msg p) =
        bootstrap_slot_from_peer E (hm_slot hello) (hm_started hello) (elapsed (hm_started hello)) ?s \<or>
      pr_state (handle_message E addr_ok elapsed msg p) = ?s"
      by (simp add: handle_message_def r Some Let_def)
    with learn_view show ?thesis by metis
  qed
qed (auto simp: handle_message_def chain_frame)

lemma handle_message_chain:
  assumes "node_chain E (pr_state p)"
  shows "node_chain E (pr_state (handle_message E addr_ok elapsed msg p))"
  using handle_message_cases [of E addr_ok elapsed msg p]
proof
  assume "chain_view (pr_state (handle_message E addr_ok elapsed msg p)) = chain_view (pr_state p)"
  with assms show ?thesis using node_chain_cong by blast
next
  assume "\<exists>s slot started. chain_view s = chain_view (pr_state p) \<and>
      pr_state (handle_message E addr_ok elapsed msg p) = bootstrap_slot_from_peer E slot started (elapsed started) s"
  then obtain s slot started where "chain_view s = chain_view (pr_state p)"
      "pr_state (handle_message E addr_ok elapsed msg p) = bootstrap_slot_from_peer E slot started (elapsed started) s" by blast
  with assms show ?thesis using node_chain_cong [of s "pr_state p" E] bootstrap_chain by simp
qed

section \<open>Runs of the node\<close>

text \<open>One step of the node: a slot that is over, a datagram, or a request. The clock and the address parser may behave
  differently at every message.\<close>

inductive proto_step :: "node_env \<Rightarrow> protocol \<Rightarrow> protocol \<Rightarrow> bool" for E where
  tick: "tick_slot E p = Some p' \<Longrightarrow> proto_step E p p'"
| message: "proto_step E p (handle_message E addr_ok elapsed msg p)"
| send: "proto_step E p (snd (send_tx E t tx_type signature p))"
| system: "proto_step E p (snd (enqueue_validator_system_tx E vid value kind nonce signature p))"
| register: "proto_step E p (snd (enqueue_register_validator_tx E from key reward nonce signature p))"
| faucet: "proto_step E p (snd (faucet E to amount p))"
| retire: "proto_step E p (on_state (request_local_ticket_retire n) p)"

text \<open>The staged steps change the state and the generator only, and the restore undoes both.\<close>

lemma staged_execution_frame:
  assumes "staged_execution E p = Some (r, p')"
  shows "p' = p\<lparr>pr_state := pr_state p', pr_rng := pr_rng p'\<rparr>"
  using assms by (auto simp: staged_execution_def Let_def split: option.splits sum.splits prod.splits)

lemma stage_restores:
  assumes "stage_local_slot E p = Some (r, p')"
  shows "p' = p"
proof -
  from assms obtain q res where q: "staged_execution E p = Some (res, q)" and p': "p' = q\<lparr>pr_state := pr_state p, pr_rng := pr_rng p\<rparr>"
    by (auto simp: stage_local_slot_def Let_def split: option.splits prod.splits)
  show ?thesis unfolding p' by (subst staged_execution_frame [OF q]) simp
qed

lemma unfinished_cases:
  assumes "finish_slot E p = Some (Unfinished, p')"
  obtains e where "p' = push_event e (drop_remote_result p)"
  using assms by (auto simp: finish_slot_def Let_def split: if_splits option.splits sum.splits prod.splits dest!: stage_restores)

lemma finish_slot_chain:
  assumes c: "node_chain E (pr_state p)" and f: "finish_slot E p = Some (Finished wire, p')"
  obtains b where "from_wire_bytes (ne_keccak E) (ne_crates E) wire = Some b" "block_slot b = ps_slot (pr_state p)"
    and "ps_blocks (pr_state p') = ps_blocks (pr_state p) @ [(ps_slot (pr_state p), b)]"
    and "length (ps_blocks (pr_state p)) < 2 ^ 64" "ps_slot (pr_state p') = ps_slot (pr_state p)"
    and "linear_chain E (ps_blocks (pr_state p'))"
    and "ps_history (pr_state p') = take 50 (rev (map snd (ps_blocks (pr_state p'))))"
proof -
  let ?s = "pr_state p" and ?t = "pr_state (drop_remote_result p)"
  have v0: "chain_view ?t = chain_view ?s" by (rule drop_remote_view)
  have lin: "linear_chain E (ps_blocks ?s)" and hist: "ps_history ?s = take 50 (rev (map snd (ps_blocks ?s)))"
    using c by (simp_all add: node_chain_def)
  from f obtain b rng s1 s2 where pb: "produce_block E (pr_rng p) ?t = Some (b, rng, s1)" and rt: "record_linear_tip E b s1 = (Inr (), s2)"
      and act: "prevalidate_active_linear_slot ?t = Inr ()" and p': "p' = p\<lparr>pr_rng := rng, pr_state := run_boundaries E s2\<rparr>"
      and w: "wire_bytes (ne_keccak E) (ne_crates E) b = Some wire"
    by (rule finish_slot_finished)
  have v1: "chain_view s1 = chain_view ?s" using exec_chain [OF produce_block_view(1) [OF pb]] v0 by simp
  note tip = prevalidate_tip_ok [OF record_tip_ok(1) [OF rt]]
  have n: "length (ps_blocks ?s) < 2 ^ 64" "ps_slot ?s = of_nat (length (ps_blocks ?s))"
    using active_slot_is_length [of E s1] tip(1) lin v1 by (simp_all add: chain_view_eq)
  have parent: "bh_parent_hash (bk_header b) = (if ps_blocks ?s = [] then ZERO_HASH else block_hash (ne_keccak E) (snd (last (ps_blocks ?s))))"
    using parent_at_length [of E s1] tip(3) lin n v1 by (simp add: chain_view_eq)
  have slot: "block_slot b = ps_slot ?s" using tip(2) v1 by (simp add: chain_view_eq)
  have ext: "bm_insert (block_slot b) b (ps_blocks ?s) = ps_blocks ?s @ [(block_slot b, b)]" "linear_chain E (ps_blocks ?s @ [(block_slot b, b)])"
    using chain_extend [OF lin n(1), of b] slot n(2) tip(4,5) parent by simp_all
  have v2: "chain_view (pr_state p') = chain_view s2" by (simp add: p' chain_frame)
  have bl: "ps_blocks (pr_state p') = ps_blocks ?s @ [(ps_slot ?s, b)]"
    using record_tip_ok(4) [OF rt] ext(1) v1 v2 slot by (simp add: chain_view_eq)
  have "length (ps_history ?s) \<le> 50" by (simp add: hist)
  then have "ps_history (pr_state p') = take 50 (b # ps_history ?s)"
    using record_tip_ok(5) [OF rt] v1 v2 by (auto simp: chain_view_eq)
  then have h: "ps_history (pr_state p') = take 50 (rev (map snd (ps_blocks (pr_state p'))))"
    by (simp add: bl hist take_Cons' min_def)
  have "from_wire_bytes (ne_keccak E) (ne_crates E) wire = Some b" using tip(5) w by auto
  moreover have "ps_slot (pr_state p') = ps_slot ?s"
    using record_tip_ok(3) [OF rt] v1 v2 by (simp add: chain_view_eq)
  ultimately show ?thesis using that slot bl n(1) h ext(2) by metis
qed

lemma start_next_slot_chain:
  "ps_slot (start_next_slot E s) = ps_slot s + 1" "ps_current_result (start_next_slot E s) = None"
  "ps_blocks (start_next_slot E s) = ps_blocks s" "ps_history (start_next_slot E s) = ps_history s"
  by (simp_all add: start_next_slot_def Let_def split: prod.split)

lemma tick_slot_chain:
  assumes c: "node_chain E (pr_state p)" and t: "tick_slot E p = Some p'"
  shows "node_chain E (pr_state p') \<and> (\<exists>ext. ps_blocks (pr_state p') = ps_blocks (pr_state p) @ ext)"
proof -
  from t consider (stay) "finish_slot E p = Some (Unfinished, p')"
      | (go) wire p1 where "finish_slot E p = Some (Finished wire, p1)" "p' = on_state (start_next_slot E) p1"
    by (auto simp: tick_slot_def split: option.splits prod.splits slot_outcome.splits)
  then show ?thesis
  proof cases
    case stay
    then obtain e where "p' = push_event e (drop_remote_result p)" by (rule unfinished_cases)
    then have v: "chain_view (pr_state p') = chain_view (pr_state p)" by (simp add: chain_frame)
    with c node_chain_cong [OF v] show ?thesis by (simp add: chain_view_eq)
  next
    case go
    obtain b where "ps_blocks (pr_state p1) = ps_blocks (pr_state p) @ [(ps_slot (pr_state p), b)]"
        "length (ps_blocks (pr_state p)) < 2 ^ 64" "ps_slot (pr_state p1) = ps_slot (pr_state p)"
        "linear_chain E (ps_blocks (pr_state p1))" "ps_history (pr_state p1) = take 50 (rev (map snd (ps_blocks (pr_state p1))))"
      by (rule finish_slot_chain [OF c go(1)])
    with c go(2) show ?thesis by (simp add: node_chain_def start_next_slot_chain)
  qed
qed

lemma proto_step_chain:
  assumes "proto_step E p q" "node_chain E (pr_state p)"
  shows "node_chain E (pr_state q) \<and> (\<exists>ext. ps_blocks (pr_state q) = ps_blocks (pr_state p) @ ext)"
proof -
  have view: ?thesis if "chain_view (pr_state q) = chain_view (pr_state p)"
    using node_chain_cong [OF that, of E] assms(2) that by (simp add: chain_view_eq)
  from assms(1) show ?thesis
  proof cases
    case tick
    with assms(2) show ?thesis by (rule tick_slot_chain)
  next
    case (message addr_ok elapsed msg)
    have "ps_blocks (pr_state q) = ps_blocks (pr_state p)"
      using handle_message_cases [of E addr_ok elapsed msg p] by (auto simp: message chain_view_eq bootstrap_blocks)
    with handle_message_chain [OF assms(2)] message show ?thesis by simp
  qed (rule view, simp add: chain_frame)+
qed

lemma protocol_new_chain: "node_chain E (pr_state (protocol_new E m vid account port funded seed))"
proof -
  have "chain_view (pr_state (protocol_new E m vid account port funded seed)) = chain_view (initial_state E m vid account port)"
    by (simp add: protocol_new_def Let_def chain_frame)
  then show ?thesis by (simp add: chain_view_def node_chain_def initial_state_def Let_def)
qed

lemma node_run_chain:
  assumes "(proto_step E)\<^sup>*\<^sup>* p q" "node_chain E (pr_state p)"
  shows "node_chain E (pr_state q) \<and> (\<exists>ext. ps_blocks (pr_state q) = ps_blocks (pr_state p) @ ext)"
  using assms
proof (induction rule: rtranclp_induct)
  case (step q r)
  then show ?case using proto_step_chain [OF step.hyps(2)] by fastforce
qed simp

end
