(* ===== verification/Node_Liveness.thy ===== *)
theory Node_Liveness
  imports Node_Chain
begin

text \<open>
  When a slot of the prototype node finishes, and when it does not. The block a slot produces always satisfies
  its own checks if the leader is a proper name and the queued transactions survive their encoding; each of these
  conditions is needed, and nothing on the way into the queues establishes them.
\<close>

section \<open>Blocks that can be built\<close>

definition tx_wireable :: "text_crates \<Rightarrow> tx \<Rightarrow> bool" where
  "tx_wireable X t \<longleftrightarrow> tx_canonical X t \<and> (\<exists>b. canonical_bytes X t = Some b \<and> length b < 2 ^ 32)"

text \<open>The transactions, the gas and the fees of a block under construction.\<close>

definition body_ok :: "text_crates \<Rightarrow> u64 \<Rightarrow> tx list \<Rightarrow> u64 \<Rightarrow> u64 \<Rightarrow> bool" where
  "body_ok X slot ts gas fees \<longleftrightarrow> try_sum 0 (map tx_gas ts) = Some gas \<and> try_sum 0 (map tx_fee_quarks ts) = Some fees \<and>
     length ts \<le> MAX_BLOCK_TRANSACTIONS \<and> gas \<le> MAX_BLOCK_GAS \<and>
     (\<forall>t \<in> set ts. tx_wireable X t \<and> tx_chain_id t = CHAIN_ID \<and> tx_valid_after_slot t \<le> slot)"

definition name_ok :: "text_bytes \<Rightarrow> bool" where
  "name_ok i \<longleftrightarrow> i \<noteq> [] \<and> utf8_valid i \<and> length i < 2 ^ 31"

fun role_ok :: "hasher \<Rightarrow> block_kind \<Rightarrow> text_bytes option \<Rightarrow> u64 \<Rightarrow> text_bytes option \<Rightarrow> tx list \<Rightarrow> bool" where
  "role_ok K Validator proposer ticket missed ts \<longleftrightarrow>
     (\<exists>p. proposer = Some p \<and> name_ok p \<and> proposer_id K p \<noteq> ZERO_PROPOSER_ID) \<and> ticket \<noteq> ZERO_TICKET_ID \<and> missed = None"
| "role_ok K ProtocolMiss proposer ticket missed ts \<longleftrightarrow>
     proposer = None \<and> ticket = ZERO_TICKET_ID \<and> (\<exists>i. missed = Some i \<and> name_ok i \<and> i \<noteq> str ''protocol'') \<and> ts = []"
| "role_ok K ProtocolNoTickets proposer ticket missed ts \<longleftrightarrow> proposer = None \<and> ticket = ZERO_TICKET_ID \<and> missed = None \<and> length ts \<le> 1"
| "role_ok K ProtocolCollision proposer ticket missed ts \<longleftrightarrow> proposer = None \<and> ticket = ZERO_TICKET_ID \<and> missed = None \<and> ts = []"

lemma collect_some_map: "(\<And>x. x \<in> set xs \<Longrightarrow> f x \<noteq> None) \<Longrightarrow> collect_some (map f xs) = Some (map (\<lambda>x. the (f x)) xs)"
proof (induction xs)
  case (Cons x xs)
  then obtain y where "f x = Some y" by fastforce
  with Cons show ?case by simp
qed simp

lemma wire_transactions_returns:
  assumes "\<And>t. t \<in> set ts \<Longrightarrow> tx_wireable X t"
  shows "\<exists>g. wire_transactions X ts = Some g"
proof -
  have "do { b \<leftarrow> canonical_bytes X t; append_bytes b } \<noteq> None" if "t \<in> set ts" for t
    using assms [OF that] by (auto simp: tx_wireable_def append_bytes_def try_from_nat_def)
  then show ?thesis by (simp add: wire_transactions_def collect_some_map)
qed

lemma transaction_root_returns:
  assumes "\<And>t. t \<in> set ts \<Longrightarrow> tx_wireable X t" "length ts \<le> MAX_BLOCK_TRANSACTIONS" "digest32 K"
  shows "\<exists>root. transaction_root K X ts = Some root \<and> length root = 32"
proof -
  have "tx_hash K X t \<noteq> None" if "t \<in> set ts" for t using assms(1) [OF that] by (auto simp: tx_wireable_def tx_hash_def)
  then have "collect_some (map (tx_hash K X) ts) = Some (map (\<lambda>t. the (tx_hash K X t)) ts)" by (rule collect_some_map)
  with assms(2,3) show ?thesis
    by (simp add: transaction_root_def ordered_transaction_root_def try_from_nat_def digest32_def MAX_BLOCK_TRANSACTIONS_def)
qed

lemma block_new_returns:
  assumes X: "crates_ok X" and K: "digest32 K" and body: "body_ok X slot ts gas (pd_fees_burned pd)"
    and role: "role_ok K kind proposer ticket (pd_missed_proposer pd) ts" and parent: "length parent = 32"
  obtains b wire where "block_new K X slot kind parent proposer ticket ts gas pd = Some b"
    and "wire_bytes K X b = Some wire" "from_wire_bytes K X wire = Some b"
proof -
  from body have w: "\<And>t. t \<in> set ts \<Longrightarrow> tx_wireable X t" and n: "length ts \<le> MAX_BLOCK_TRANSACTIONS"
    by (simp_all add: body_ok_def)
  obtain root where root: "transaction_root K X ts = Some root" "length root = 32"
    using transaction_root_returns [OF w n K] by blast
  define b where "b = \<lparr>bk_header = \<lparr>bh_protocol_version = PROTOCOL_VERSION, bh_chain_id = CHAIN_ID, bh_slot = slot, bh_block_kind = kind,
      bh_parent_hash = parent, bh_proposer_id = (case proposer of Some p \<Rightarrow> proposer_id K p | None \<Rightarrow> ZERO_PROPOSER_ID),
      bh_ticket_id = ticket, bh_transaction_root = root, bh_state_root = PLACEHOLDER_STATE_ROOT,
      bh_receipts_root = EMPTY_RECEIPTS_ROOT K, bh_gas_used = gas, bh_protocol_data_root = protocol_data_root K pd\<rparr>,
    bk_proposer = proposer, bk_transactions = ts, bk_protocol_data = pd\<rparr>"
  have vr: "validate_role K b"
    using role by (cases kind) (auto simp: validate_role_def b_def Let_def name_ok_def)
  have vc: "validate_commitments K X b"
    using body root vr by (auto simp: validate_commitments_def b_def Let_def body_ok_def not_less)
  have new: "block_new K X slot kind parent proposer ticket ts gas pd = Some b"
    using root vc by (simp add: block_new_def b_def Let_def)
  have h: "length (hash_with_domain K d x) = 32" for d x using K by (simp add: hash_with_domain_def digest32_def)
  have can: "block_canonical X b"
    using role w root(2) parent K by (cases kind)
      (auto simp: block_canonical_def b_def header_wf_def protocol_data_wf_def name_ok_def tx_wireable_def proposer_id_def h
        ZERO_PROPOSER_ID_def PLACEHOLDER_STATE_ROOT_def EMPTY_RECEIPTS_ROOT_def keccak256_def protocol_data_root_def digest32_def)
  have "length (protocol_data_bytes pd) < 2 ^ 32" "length (case proposer of Some p \<Rightarrow> p | None \<Rightarrow> []) < 2 ^ 32"
    using role by (cases kind; auto simp: length_protocol_data_bytes name_ok_def)+
  moreover obtain g where "wire_transactions X ts = Some g" using wire_transactions_returns [OF w] by blast
  ultimately obtain wire where "wire_bytes K X b = Some wire"
    using vc n by (auto simp: wire_bytes_def b_def append_bytes_def try_from_nat_def MAX_BLOCK_TRANSACTIONS_def)
  with block_dec_enc_v1 [OF X K can] have "from_wire_bytes K X wire = Some b" by blast
  with new \<open>wire_bytes K X b = Some wire\<close> show ?thesis by (rule that)
qed

section \<open>The mempool loop\<close>

lemma try_sum_snoc: "try_sum a (xs @ [x]) = do { s \<leftarrow> try_sum a xs; checked_add s x }"
  by (induction a xs rule: try_sum.induct) (auto split: Option.bind_split)

text \<open>An invariant of the loop has to survive a dropped, a failed and an included transaction.\<close>

lemma validator_loop_inv:
  assumes "validator_loop E rng s gas fees ts pool = (rng', s', gas', fees', ts')" "I s gas fees ts pool"
    and "\<And>s gas fees ts t pool. I s gas fees ts (t # pool) \<Longrightarrow> I (s\<lparr>ps_mempool := pool\<rparr>) gas fees ts pool"
    and "\<And>s gas fees ts t pool s1. I s gas fees ts (t # pool) \<Longrightarrow> execute_tx E t (s\<lparr>ps_mempool := pool\<rparr>) = (False, s1) \<Longrightarrow> I s1 gas fees ts pool"
    and "\<And>s gas fees ts t pool s1 gas1 fees1. I s gas fees ts (t # pool) \<Longrightarrow> execute_tx E t (s\<lparr>ps_mempool := pool\<rparr>) = (True, s1) \<Longrightarrow>
      length ts < MAX_BLOCK_TRANSACTIONS \<Longrightarrow> tx_chain_id t = CHAIN_ID \<Longrightarrow> tx_valid_after_slot t \<le> ps_slot s \<Longrightarrow>
      checked_add gas (tx_gas t) = Some gas1 \<Longrightarrow> gas1 \<le> MAX_BLOCK_GAS \<Longrightarrow> checked_add fees (tx_fee_quarks t) = Some fees1 \<Longrightarrow>
      I s1 gas1 fees1 (ts @ [t]) pool"
  shows "\<exists>pool'. I s' gas' fees' ts' pool'"
  using assms(1,2)
proof (induction pool arbitrary: rng s gas fees ts)
  case (Cons t pool)
  let ?s = "s\<lparr>ps_mempool := pool\<rparr>"
  show ?case
  proof (cases "validator_loop E rng s gas fees ts (t # pool) = (rng, s, gas, fees, ts)")
    case True
    with Cons.prems show ?thesis by auto
  next
    case False
    then have n: "length ts < MAX_BLOCK_TRANSACTIONS" by (simp add: not_le split: if_splits)
    show ?thesis
    proof (cases "tx_chain_id t = CHAIN_ID")
      case False
      with Cons.prems n have "validator_loop E rng ?s gas fees ts pool = (rng', s', gas', fees', ts')" by simp
      then show ?thesis by (rule Cons.IH) (rule assms(3) [OF Cons.prems(2)])
    next
      case chain: True
      with False n obtain gas1 fees1 where c: "tx_valid_after_slot t \<le> ps_slot s" "checked_add gas (tx_gas t) = Some gas1"
          "gas1 \<le> MAX_BLOCK_GAS" "checked_add fees (tx_fee_quarks t) = Some fees1"
        by (auto simp: not_less split: if_splits option.splits)
      obtain r s1 where x: "execute_tx E t ?s = (r, s1)" by fastforce
      show ?thesis
      proof (cases r)
        case False
        with Cons.prems(1) n chain c c(1,3) [THEN leD] x have "validator_loop E rng s1 gas fees ts pool = (rng', s', gas', fees', ts')" by auto
        then show ?thesis by (rule Cons.IH) (use assms(4) [OF Cons.prems(2)] x False in simp)
      next
        case True
        then have i: "I s1 gas1 fees1 (ts @ [t]) pool" using assms(5) [OF Cons.prems(2) _ n chain c] x by simp
        have "(rng', s', gas', fees', ts') = (Suc rng, s1, gas1, fees1, ts @ [t]) \<or>
            validator_loop E (Suc rng) s1 gas1 fees1 (ts @ [t]) pool = (rng', s', gas', fees', ts')"
          using Cons.prems(1) n chain c c(1,3) [THEN leD] x True by (auto split: if_splits)
        then show ?thesis using i Cons.IH by blast
      qed
    qed
  qed
qed auto

lemma execute_tx_slot: "execute_tx E t s = (r, s') \<Longrightarrow> ps_slot s' = ps_slot s"
  using exec_chain [OF rest_exec [OF execute_tx_view [of E t s]]] by (simp add: chain_view_eq)

lemma validator_loop_body:
  assumes "validator_loop E rng s gas fees ts pool = (rng', s', gas', fees', ts')"
    and "body_ok (ne_crates E) (ps_slot s) ts gas fees" "\<And>t. t \<in> set pool \<Longrightarrow> tx_wireable (ne_crates E) t"
  shows "body_ok (ne_crates E) (ps_slot s) ts' gas' fees'"
proof -
  let ?I = "\<lambda>s1 gas fees ts pool. ps_slot s1 = ps_slot s \<and> body_ok (ne_crates E) (ps_slot s) ts gas fees \<and> (\<forall>t \<in> set pool. tx_wireable (ne_crates E) t)"
  have "\<exists>pool'. ?I s' gas' fees' ts' pool'"
    by (rule validator_loop_inv [where I = ?I, OF assms(1)])
      (use assms(2,3) in \<open>auto simp: body_ok_def try_sum_snoc dest: execute_tx_slot\<close>)
  then show ?thesis by blast
qed

section \<open>A slot that finishes\<close>

definition leader_ok :: "node_env \<Rightarrow> protocol_state \<Rightarrow> bool" where
  "leader_ok E s \<longleftrightarrow> total_eligible_tickets s = 0 \<or> name_ok (ps_current_leader s) \<and> ps_current_leader s \<noteq> str ''protocol'' \<and>
     (is_local_leader s \<longrightarrow> ps_current_ticket_id s \<noteq> ZERO_TICKET_ID \<and> proposer_id (ne_keccak E) (ps_current_leader s) \<noteq> ZERO_PROPOSER_ID)"

definition node_ready :: "node_env \<Rightarrow> protocol_state \<Rightarrow> bool" where
  "node_ready E s \<longleftrightarrow> leader_ok E s \<and> (\<forall>t \<in> set (ps_mempool s). tx_wireable (ne_crates E) t) \<and>
     (\<forall>t \<in> set (ps_pbm_pool s). tx_wireable (ne_crates E) t \<and> tx_chain_id t = CHAIN_ID \<and> tx_gas t \<le> MAX_BLOCK_GAS)"

lemma node_ready_updates [simp]:
  "node_ready E (s\<lparr>ps_events := es\<rparr>) = node_ready E s" "node_ready E (s\<lparr>ps_remote_slot_results := rs\<rparr>) = node_ready E s"
  by (simp_all add: node_ready_def leader_ok_def total_eligible_tickets_def eligible_tickets_def validator_active_def
      is_local_leader_def split: option.split)

lemma parent_length: "digest32 (ne_keccak E) \<Longrightarrow> canonical_parent_hash E s slot = Some parent \<Longrightarrow> length parent = 32"
  by (auto simp: canonical_parent_hash_def block_hash_def header_hash_def hash_with_domain_def digest32_def ZERO_HASH_def split: if_splits)

lemma build_block_returns:
  assumes "crates_ok (ne_crates E)" "digest32 (ne_keccak E)" "exec_view s' = exec_view s" "canonical_parent_hash E s (ps_slot s) = Some parent"
    and "body_ok (ne_crates E) (ps_slot s) ts gas (pd_fees_burned pd)"
    and "role_ok (ne_keccak E) kind proposer ticket (pd_missed_proposer pd) ts"
  shows "\<exists>b wire. build_block E s' kind proposer ticket ts gas pd = Some b \<and>
    wire_bytes (ne_keccak E) (ne_crates E) b = Some wire \<and> from_wire_bytes (ne_keccak E) (ne_crates E) wire = Some b"
proof -
  have "canonical_parent_hash E s' (ps_slot s') = Some parent" "ps_slot s' = ps_slot s"
    using exec_chain [OF assms(3)] canonical_parent_view [OF exec_chain [OF assms(3)], of E] assms(4) by (simp_all add: chain_view_eq)
  moreover obtain b wire where "block_new (ne_keccak E) (ne_crates E) (ps_slot s) kind parent proposer ticket ts gas pd = Some b"
      "wire_bytes (ne_keccak E) (ne_crates E) b = Some wire" "from_wire_bytes (ne_keccak E) (ne_crates E) wire = Some b"
    by (rule block_new_returns [OF assms(1,2,5,6) parent_length [OF assms(2,4)]])
  ultimately show ?thesis by (simp add: build_block_def)
qed

lemma execute_pbm_fee: "execute_pbm_tx E t s = (Some (gas, fees), s') \<Longrightarrow> gas = tx_gas t \<and> fees = tx_fee_quarks t"
  by (auto simp: execute_pbm_tx_def split: prod.splits if_splits)

lemma checked_add_zero [simp]: "checked_add 0 x = Some x"
  using unat_bound [of x] by (simp add: checked_add_def)

lemma select_pbm_index: "select_pbm_tx_index E s = Some i \<Longrightarrow>
  i < length (ps_pbm_pool s) \<and> tx_valid_after_slot (ps_pbm_pool s ! i) \<le> ps_slot s \<and> pbm_allowed_kind (tx_kind_of (ps_pbm_pool s ! i))"
proof -
  let ?f = "\<lambda>(i, t). if pbm_allowed_kind (tx_kind_of t) \<and> tx_valid_after_slot t \<le> ps_slot s
    then map_option (\<lambda>h. (i, tx_valid_after_slot t, h)) (tx_hash (ne_keccak E) (ne_crates E) t) else None"
  let ?xs = "List.map_filter ?f (zip [0..<length (ps_pbm_pool s)] (ps_pbm_pool s))"
  assume "select_pbm_tx_index E s = Some i"
  then obtain a h r where "sort_key (\<lambda>(i, after, h). (after, h)) ?xs = (i, a, h) # r"
    by (auto simp: select_pbm_tx_index_def Let_def split: list.splits)
  from arg_cong [OF this, of set] have "(i, a, h) \<in> set ?xs" unfolding set_sort by (simp only: list.set_intros)
  then show ?thesis by (auto simp: map_filter_def in_set_zip split: if_splits)
qed

lemma no_tickets_returns:
  assumes X: "crates_ok (ne_crates E)" and K: "digest32 (ne_keccak E)" and p: "canonical_parent_hash E s (ps_slot s) = Some parent"
    and r: "node_ready E s"
  shows "\<exists>b wire s'. protocol_no_tickets_block E s = Some (b, s') \<and>
    wire_bytes (ne_keccak E) (ne_crates E) b = Some wire \<and> from_wire_bytes (ne_keccak E) (ne_crates E) wire = Some b"
proof -
  note build = build_block_returns [OF X K _ p, of _ _ _ _ ProtocolNoTickets None ZERO_TICKET_ID]
  have empty: ?thesis if "protocol_no_tickets_block E s = map_option (\<lambda>b. (b, deactivate_pbm_if_ready s1))
      (build_block E (deactivate_pbm_if_ready s1) ProtocolNoTickets None ZERO_TICKET_ID [] 0 \<lparr>pd_missed_proposer = None, pd_fees_burned = 0\<rparr>)"
      "exec_view s1 = exec_view s" for s1
    using build [of "deactivate_pbm_if_ready s1" "[]" 0 "\<lparr>pd_missed_proposer = None, pd_fees_burned = 0\<rparr>"] that
    by (auto simp: exec_frame body_ok_def MAX_BLOCK_GAS_def)
  show ?thesis
  proof (cases "select_pbm_tx_index E s")
    case None
    then show ?thesis by (intro empty [of s]) (auto simp: protocol_no_tickets_block_def Let_def map_option_case split: option.split Option.bind_split)
  next
    case (Some i)
    let ?t = "ps_pbm_pool s ! i" and ?s = "s\<lparr>ps_pbm_pool := take i (ps_pbm_pool s) @ drop (Suc i) (ps_pbm_pool s)\<rparr>"
    obtain res s1 where x: "execute_pbm_tx E ?t ?s = (res, s1)" by fastforce
    have v: "exec_view s1 = exec_view s" using rest_exec [OF execute_pbm_view [of E ?t ?s]] x by (simp add: exec_frame)
    show ?thesis
    proof (cases res)
      case None
      with x Some v show ?thesis
        by (intro empty [of s1]) (auto simp: protocol_no_tickets_block_def Let_def map_option_case split: option.split Option.bind_split)
    next
      case (Some gf)
      then obtain gas fees where gf: "res = Some (gas, fees)" by (cases gf) auto
      then have g: "gas = tx_gas ?t" "fees = tx_fee_quarks ?t" using execute_pbm_fee x by blast+
      have "body_ok (ne_crates E) (ps_slot s) [?t] gas fees"
        using r select_pbm_index [OF \<open>select_pbm_tx_index E s = Some i\<close>]
        by (auto simp: body_ok_def node_ready_def g MAX_BLOCK_TRANSACTIONS_def)
      then show ?thesis
        using build [of "deactivate_pbm_if_ready (add_burn (ucast fees) s1)" "[?t]" gas "\<lparr>pd_missed_proposer = None, pd_fees_burned = fees\<rparr>"] v
        by (auto simp: protocol_no_tickets_block_def \<open>select_pbm_tx_index E s = Some i\<close> Let_def x gf exec_frame)
    qed
  qed
qed

lemma validator_block_returns:
  assumes X: "crates_ok (ne_crates E)" and K: "digest32 (ne_keccak E)" and p: "canonical_parent_hash E s (ps_slot s) = Some parent"
    and r: "node_ready E s" and l: "total_eligible_tickets s \<noteq> 0" "is_local_leader s"
  shows "\<exists>b wire rng' s'. validator_block E rng s = Some (b, rng', s') \<and>
    wire_bytes (ne_keccak E) (ne_crates E) b = Some wire \<and> from_wire_bytes (ne_keccak E) (ne_crates E) wire = Some b"
proof -
  obtain rng' s1 gas fees ts where loop: "validator_loop E rng s 0 0 [] (ps_mempool s) = (rng', s1, gas, fees, ts)"
    by (metis prod_cases5)
  let ?s = "reward_leader (add_burn (ucast fees) s1)"
  have v: "exec_view ?s = exec_view s" using rest_exec [OF validator_loop_view [OF loop]] by (simp add: exec_frame)
  have body: "body_ok (ne_crates E) (ps_slot s) ts gas fees"
    by (rule validator_loop_body [OF loop]) (use r in \<open>auto simp: body_ok_def node_ready_def MAX_BLOCK_GAS_def\<close>)
  have "role_ok (ne_keccak E) Validator (Some (ps_current_leader ?s)) (ps_current_ticket_id ?s) None ts"
    using r l v by (auto simp: node_ready_def leader_ok_def exec_view_def)
  with build_block_returns [OF X K v p, of ts gas "\<lparr>pd_missed_proposer = None, pd_fees_burned = fees\<rparr>" Validator] body show ?thesis
    by (fastforce simp: validator_block_def loop Let_def)
qed

lemma miss_block_returns:
  assumes X: "crates_ok (ne_crates E)" and K: "digest32 (ne_keccak E)" and p: "canonical_parent_hash E s (ps_slot s) = Some parent"
    and r: "node_ready E s" and l: "total_eligible_tickets s \<noteq> 0"
  shows "\<exists>b wire s'. protocol_miss_block E s = Some (b, s') \<and>
    wire_bytes (ne_keccak E) (ne_crates E) b = Some wire \<and> from_wire_bytes (ne_keccak E) (ne_crates E) wire = Some b"
proof -
  let ?s = "if ps_local_validator_id s \<noteq> Some (ps_current_leader s) then s else update_validator (ps_current_leader s) (miss_validator (ps_epoch_index s)) s"
  have v: "exec_view ?s = exec_view s" by (simp add: exec_frame)
  have "role_ok (ne_keccak E) ProtocolMiss None ZERO_TICKET_ID (Some (ps_current_leader s)) []"
    using r l by (auto simp: node_ready_def leader_ok_def)
  moreover have "body_ok (ne_crates E) (ps_slot s) [] 0 0" by (simp add: body_ok_def MAX_BLOCK_GAS_def)
  ultimately show ?thesis
    using build_block_returns [OF X K v p, of "[]" 0 "\<lparr>pd_missed_proposer = Some (ps_current_leader s), pd_fees_burned = 0\<rparr>" ProtocolMiss None ZERO_TICKET_ID]
    by (fastforce simp: protocol_miss_block_def Let_def)
qed

lemma produce_block_returns:
  assumes "crates_ok (ne_crates E)" "digest32 (ne_keccak E)" "canonical_parent_hash E s (ps_slot s) = Some parent" "node_ready E s"
  shows "\<exists>b wire rng' s'. produce_block E rng s = Some (b, rng', s') \<and>
    wire_bytes (ne_keccak E) (ne_crates E) b = Some wire \<and> from_wire_bytes (ne_keccak E) (ne_crates E) wire = Some b"
  using no_tickets_returns [OF assms] validator_block_returns [OF assms, of rng] miss_block_returns [OF assms]
  by (cases "total_eligible_tickets s = 0"; cases "is_local_leader s") (fastforce simp: produce_block_def)+

lemma active_slot_ok:
  assumes "node_chain E s" "length (ps_blocks s) < 2 ^ 64"
  shows "prevalidate_active_linear_slot s = Inr ()" "\<exists>parent. canonical_parent_hash E s (ps_slot s) = Some parent"
proof -
  let ?n = "length (ps_blocks s)"
  have c: "linear_chain E (ps_blocks s)" and slot: "ps_slot s = of_nat ?n" using assms by (auto simp: node_chain_def)
  have none: "map_of (ps_blocks s) (of_nat ?n) = None"
    using assms(2) by (auto simp: map_of_eq_None_iff chain_keys [OF c] dest!: arg_cong [of _ _ unat] simp: unat_of_nat_u64)
  have "prevalidate_active_linear_slot s = Inr () \<and> (\<exists>parent. canonical_parent_hash E s (ps_slot s) = Some parent)"
  proof (cases "ps_blocks s = []")
    case True
    with slot none show ?thesis by (simp add: prevalidate_active_linear_slot_def canonical_parent_hash_def)
  next
    case False
    then obtain k where k: "?n = Suc k" by (cases "ps_blocks s") auto
    have "prevalidate_active_linear_slot s = Inr ()"
      unfolding prevalidate_active_linear_slot_def Let_def chain_max [OF c False] slot
      using False none k assms(2) saturating_succ_u64 [of k] by simp
    moreover have "canonical_parent_hash E s (ps_slot s) \<noteq> None"
      using chain_lookup [OF c, of k] saturating_pred_u64 [of k] k assms(2) by (simp add: canonical_parent_hash_def slot)
    ultimately show ?thesis by auto
  qed
  then show "prevalidate_active_linear_slot s = Inr ()" "\<exists>parent. canonical_parent_hash E s (ps_slot s) = Some parent" by blast+
qed

lemma record_tip_returns:
  assumes p: "prevalidate_linear_tip E b s = Inr ()" and c: "ps_current_result s = None"
  shows "\<exists>s'. record_linear_tip E b s = (Inr (), s')"
proof -
  let ?s1 = "update_liveness b (s\<lparr>ps_current_result := Some b\<rparr>)"
  let ?s2 = "?s1\<lparr>ps_blocks_this_sub_epoch := ps_blocks_this_sub_epoch ?s1 @ [if block_kind_of b = Validator then bk_proposer b else None]\<rparr>"
  have "ps_slot ?s2 = ps_slot s" "ps_blocks ?s2 = ps_blocks s"
    using exec_chain [OF update_liveness_view [of b "s\<lparr>ps_current_result := Some b\<rparr>"]] by (simp_all add: chain_view_eq)
  then have "validate_block_commitments_and_parent E ?s2 b"
    using prevalidate_tip_ok(2,3,4) [OF p]
    by (auto simp: validate_block_commitments_and_parent_def canonical_parent_hash_def validate_parent_def split: if_splits)
  then have "fst (record_block E b ?s2)" by (simp add: record_block_def Let_def)
  then obtain s3 where "record_block E b ?s2 = (True, s3)" by (cases "record_block E b ?s2") auto
  with p c show ?thesis by (simp add: record_linear_tip_def Let_def)
qed

lemma tip_ok_produced:
  assumes "produce_block E rng s = Some (b, rng', s')" "prevalidate_active_linear_slot s = Inr ()"
    and "wire_bytes (ne_keccak E) (ne_crates E) b = Some wire" "from_wire_bytes (ne_keccak E) (ne_crates E) wire = Some b"
  shows "prevalidate_linear_tip E b s' = Inr ()"
proof -
  note v = produce_block_view [OF assms(1)]
  have "prevalidate_active_linear_slot s' = prevalidate_active_linear_slot s"
    using exec_chain [OF v(1)] by (simp add: prevalidate_active_linear_slot_def chain_view_eq)
  with assms v(2-4) exec_chain [OF v(1)] show ?thesis
    by (auto simp: prevalidate_linear_tip_def Let_def try_res_def ok_or_def canonical_parent_hash_def chain_view_eq split: if_splits)
qed

lemma finish_slot_returns:
  assumes X: "crates_ok (ne_crates E)" and K: "digest32 (ne_keccak E)" and c: "node_chain E (pr_state p)"
    and n: "length (ps_blocks (pr_state p)) < 2 ^ 64" and r: "node_ready E (pr_state p)"
  shows "\<exists>wire p'. finish_slot E p = Some (Finished wire, p')"
proof -
  let ?s = "pr_state (drop_remote_result p)"
  have v: "chain_view ?s = chain_view (pr_state p)" by (rule drop_remote_view)
  have r': "node_ready E ?s"
    using r by (simp add: drop_remote_result_def push_event_def Let_def)
  have c': "node_chain E ?s" using node_chain_cong [OF v] c by simp
  have "length (ps_blocks ?s) < 2 ^ 64" using n v by (simp add: chain_view_eq)
  note act = active_slot_ok [OF c' this]
  from act(2) obtain parent where parent: "canonical_parent_hash E ?s (ps_slot ?s) = Some parent" by blast
  obtain b wire rng' s' where b: "produce_block E (pr_rng p) ?s = Some (b, rng', s')"
      "wire_bytes (ne_keccak E) (ne_crates E) b = Some wire" "from_wire_bytes (ne_keccak E) (ne_crates E) wire = Some b"
    using produce_block_returns [OF X K parent r'] by blast
  have tip: "prevalidate_linear_tip E b s' = Inr ()" by (rule tip_ok_produced [OF b(1) act(1) b(2,3)])
  have "ps_current_result s' = None"
    using exec_chain [OF produce_block_view(1) [OF b(1)]] c' by (simp add: chain_view_eq node_chain_def)
  then obtain s2 where "record_linear_tip E b s' = (Inr (), s2)" using record_tip_returns [OF tip] by blast
  moreover have "pr_rng (drop_remote_result p) = pr_rng p" by (simp add: drop_remote_result_def push_event_def Let_def)
  ultimately show ?thesis using b tip act(1) parent by (simp add: finish_slot_def stage_local_slot_def staged_execution_def Let_def)
qed

section \<open>A slot that cannot finish\<close>

lemma drop_remote_none: "ps_remote_slot_results (pr_state p) = [] \<Longrightarrow> drop_remote_result p = p"
  by (simp add: drop_remote_result_def Let_def)

lemma finish_slot_panics:
  assumes "node_chain E (pr_state p)" "length (ps_blocks (pr_state p)) < 2 ^ 64" "ps_remote_slot_results (pr_state p) = []"
    and "produce_block E (pr_rng p) (pr_state p) = None"
  shows "finish_slot E p = None"
  using active_slot_ok [OF assms(1,2)] assms(4)
  by (auto simp: finish_slot_def stage_local_slot_def staged_execution_def Let_def drop_remote_none [OF assms(3)])

lemma protocol_leader_no_block:
  assumes "total_eligible_tickets s \<noteq> 0" "ps_current_leader s = str ''protocol''" "\<not> is_local_leader s"
  shows "produce_block E rng s = None"
proof -
  have "build_block E s' ProtocolMiss None ZERO_TICKET_ID [] 0 \<lparr>pd_missed_proposer = Some (str ''protocol''), pd_fees_burned = 0\<rparr> = None" for s'
    by (auto simp: build_block_def block_new_def Let_def validate_commitments_def validate_role_def split: option.split Option.bind_split)
  with assms show ?thesis by (simp add: produce_block_def protocol_miss_block_def Let_def)
qed

lemma foreign_pbm_no_block:
  assumes "total_eligible_tickets s = 0" "select_pbm_tx_index E s = Some i" "t = ps_pbm_pool s ! i"
    and "execute_pbm_tx E t (s\<lparr>ps_pbm_pool := take i (ps_pbm_pool s) @ drop (Suc i) (ps_pbm_pool s)\<rparr>) = (Some (gas, fees), s1)"
    and "tx_chain_id t \<noteq> CHAIN_ID \<or> tx_gas t > MAX_BLOCK_GAS"
  shows "produce_block E rng s = None"
proof -
  have g: "gas = tx_gas t" using execute_pbm_fee [OF assms(4)] by simp
  have "build_block E s' ProtocolNoTickets None ZERO_TICKET_ID [t] gas pd = None" for s' pd
    using assms(5)
    by (auto simp: g build_block_def block_new_def Let_def validate_commitments_def split: option.split Option.bind_split)
  with assms show ?thesis by (auto simp: produce_block_def protocol_no_tickets_block_def Let_def)
qed

lemma validator_loop_first:
  assumes "tx_chain_id t = CHAIN_ID" "tx_valid_after_slot t \<le> ps_slot s" "tx_gas t \<le> MAX_BLOCK_GAS"
    and "execute_tx E t (s\<lparr>ps_mempool := pool\<rparr>) = (True, s1)"
    and loop: "validator_loop E rng s 0 0 [] (t # pool) = (rng', s', gas', fees', ts')"
  shows "t \<in> set ts'"
proof -
  have "MAX_BLOCK_TRANSACTIONS > 0" by (simp add: MAX_BLOCK_TRANSACTIONS_def)
  with assms have "(rng', s', gas', fees', ts') = (Suc rng, s1, tx_gas t, tx_fee_quarks t, [t]) \<or>
      validator_loop E (Suc rng) s1 (tx_gas t) (tx_fee_quarks t) [t] pool = (rng', s', gas', fees', ts')"
    by (auto simp: not_less [symmetric] split: if_splits)
  then show ?thesis
  proof
    assume "validator_loop E (Suc rng) s1 (tx_gas t) (tx_fee_quarks t) [t] pool = (rng', s', gas', fees', ts')"
    from validator_loop_inv [where I = "\<lambda>s gas fees ts pool. t \<in> set ts", OF this] show ?thesis by simp
  qed simp
qed

lemma odd_signature_unfinished:
  assumes X: "crates_ok (ne_crates E)" and r: "ps_remote_slot_results (pr_state p) = []"
    and l: "total_eligible_tickets (pr_state p) \<noteq> 0" "is_local_leader (pr_state p)"
    and m: "ps_mempool (pr_state p) = t # pool" "\<not> tx_canonical (ne_crates E) t"
    and t: "tx_chain_id t = CHAIN_ID" "tx_valid_after_slot t \<le> ps_slot (pr_state p)" "tx_gas t \<le> MAX_BLOCK_GAS"
      "execute_tx E t ((pr_state p)\<lparr>ps_mempool := pool\<rparr>) = (True, s1)"
  shows "finish_slot E p \<noteq> Some (Finished wire, p')"
proof
  assume "finish_slot E p = Some (Finished wire, p')"
  then obtain b rng s2 s3 where b: "produce_block E (pr_rng p) (pr_state (drop_remote_result p)) = Some (b, rng, s2)"
      "record_linear_tip E b s2 = (Inr (), s3)" by (rule finish_slot_finished)
  have "validator_block E (pr_rng p) (pr_state p) = Some (b, rng, s2)"
    using b(1) l by (simp add: produce_block_def drop_remote_none [OF r])
  then obtain rng' s4 gas fees ts where "validator_loop E (pr_rng p) (pr_state p) 0 0 [] (t # pool) = (rng', s4, gas, fees, ts)"
      and "build_block E (reward_leader (add_burn (ucast fees) s4)) Validator (Some (ps_current_leader (reward_leader (add_burn (ucast fees) s4))))
        (ps_current_ticket_id (reward_leader (add_burn (ucast fees) s4))) ts gas \<lparr>pd_missed_proposer = None, pd_fees_burned = fees\<rparr> = Some b"
    by (auto simp: validator_block_def m(1) Let_def bind_eq_Some_conv split: prod.splits)
  then have "t \<in> set (bk_transactions b)" using validator_loop_first [OF t] by (auto elim: build_block_Some)
  moreover obtain wire' where "from_wire_bytes (ne_keccak E) (ne_crates E) wire' = Some b"
    using prevalidate_tip_ok(5) [OF record_tip_ok(1) [OF b(2)]] by blast
  then have "block_canonical (ne_crates E) b" using block_enc_dec_v1 [OF X] by blast
  ultimately show False using m(2) by (auto simp: block_canonical_def)
qed

lemma learned_validator_eligible:
  assumes "find_validator s i = None"
  shows "total_eligible_tickets (learn_validator_from_hello E (str ''validator'') (Some i) account True s) \<noteq> 0"
  using assms by (simp add: learn_validator_from_hello_def Let_def total_eligible_tickets_def eligible_tickets_def
      validator_active_def new_ticket_def filter_empty_conv)

lemma learned_leader:
  "ps_current_leader (learn_validator_from_hello E m vid account bootstrap s) = ps_current_leader s"
  "ps_local_validator_id (learn_validator_from_hello E m vid account bootstrap s) = ps_local_validator_id s"
  "ps_remote_slot_results (learn_validator_from_hello E m vid account bootstrap s) = ps_remote_slot_results s"
  by (simp_all add: learn_validator_from_hello_def Let_def split: option.split)

lemma hello_panics:
  assumes c: "node_chain E (pr_state p)" "length (ps_blocks (pr_state p)) < 2 ^ 64" "ps_remote_slot_results (pr_state p) = []"
    and s: "ps_current_leader (pr_state p) = str ''protocol''" "ps_local_validator_id (pr_state p) = None" "find_validator (pr_state p) i = None"
  shows "finish_slot E (on_state (learn_validator_from_hello E (str ''validator'') (Some i) account True) p) = None" (is "finish_slot E ?p = None")
proof (rule finish_slot_panics)
  have v: "chain_view (pr_state ?p) = chain_view (pr_state p)" by (simp add: chain_frame)
  then show "length (ps_blocks (pr_state ?p)) < 2 ^ 64" using c(2) by (simp only: chain_view_eq)
  show "node_chain E (pr_state ?p)" using node_chain_cong [OF v] c(1) by simp
  show "ps_remote_slot_results (pr_state ?p) = []" using c(3) by (simp add: learned_leader)
  show "produce_block E (pr_rng ?p) (pr_state ?p) = None"
    by (rule protocol_leader_no_block) (use s in \<open>simp_all add: learned_leader is_local_leader_def learned_validator_eligible\<close>)
qed

section \<open>Properties\<close>

text \<open>C9. From its start, through any sequence of finished and unfinished slots, datagrams and requests, the blocks of the
  prototype node form one chain: slots without gap from zero, commitments valid, every block linked to its
  predecessor by hash and readable from its encoding, the history its last fifty blocks, and the slot number its length.
  The chain only grows at its end: no datagram or request replaces or removes a block.\<close>

theorem node_chain_linear:
  assumes "(proto_step E)\<^sup>*\<^sup>* (protocol_new E m vid account port funded seed) p" "(proto_step E)\<^sup>*\<^sup>* p q"
  shows "node_chain E (pr_state q) \<and> (\<exists>ext. ps_blocks (pr_state q) = ps_blocks (pr_state p) @ ext)"
  using node_run_chain [OF assms(2)] node_run_chain [OF assms(1) protocol_new_chain] by blast

text \<open>C30. A slot that does not finish leaves nothing behind but log entries. The staged steps run on the node itself, and a failing
  step leaves what the steps before it changed; the state and the generator saved before are put back, so that the random
  generator, the balances, the validators, the queues and the chain are as before; only a stale remote result for the slot
  is dropped.\<close>

theorem finish_slot_atomic:
  assumes "finish_slot E p = Some (Unfinished, p')"
  shows "\<exists>es. p' = p\<lparr>pr_state := (pr_state p)\<lparr>ps_events := es @ ps_events (pr_state p),
    ps_remote_slot_results := bm_remove (ps_slot (pr_state p)) (ps_remote_slot_results (pr_state p))\<rparr>\<rparr>"
proof -
  have same: "bm_remove k m = m" if "map_of m k = None" for k :: u64 and m :: "(u64 \<times> block) list"
    using that by (force simp: map_of_eq_None_iff filter_id_conv)
  from assms obtain e where "p' = push_event e (drop_remote_result p)" by (rule unfinished_cases)
  then show ?thesis
    by (cases "map_of (ps_remote_slot_results (pr_state p)) (ps_slot (pr_state p)) = None")
      (auto simp: drop_remote_result_def push_event_def Let_def same intro: exI [of _ "[e]"] exI [of _ "[e, Ev_remote_rejected (ps_slot (pr_state p))]"])
qed

text \<open>C11. At every state the node reaches with fewer than \<open>2^64\<close> blocks, the slot finishes, and appends one block, if the leader is a
  proper name that matches the eligible tickets, every queued transaction survives its encoding, and the bootstrap
  transactions carry this chain's number and a gas that fits a block. No staged execution is then discarded and no
  \<open>expect\<close> fails.\<close>

theorem slot_finishes:
  assumes "crates_ok (ne_crates E)" "digest32 (ne_keccak E)" "(proto_step E)\<^sup>*\<^sup>* (protocol_new E m vid account port funded seed) p"
    and "length (ps_blocks (pr_state p)) < 2 ^ 64" "node_ready E (pr_state p)"
  shows "\<exists>wire b p'. finish_slot E p = Some (Finished wire, p') \<and> from_wire_bytes (ne_keccak E) (ne_crates E) wire = Some b \<and>
    ps_blocks (pr_state p') = ps_blocks (pr_state p) @ [(ps_slot (pr_state p), b)]"
proof -
  have c: "node_chain E (pr_state p)" using node_run_chain [OF assms(3) protocol_new_chain] by blast
  obtain wire p' where f: "finish_slot E p = Some (Finished wire, p')"
    using finish_slot_returns [OF assms(1,2) c assms(4,5)] by blast
  from finish_slot_chain [OF c f] f show ?thesis by metis
qed

text \<open>C29. The conditions are needed. (1) A node without validators that learns of a bootstrap validator from a HELLO message
  keeps the leader \<open>protocol\<close> and panics at the end of the slot. (2) A bootstrap transaction of another chain, or with more gas
  than a block may use, makes the node panic when its turn comes. (3) A transaction at the head of the mempool whose signature text
  is not the canonical one makes every candidate block of the local leader fail, so the slot never finishes.\<close>

theorem unready_slot_fails:
  assumes "crates_ok (ne_crates E)" "(proto_step E)\<^sup>*\<^sup>* (protocol_new E m vid account port funded seed) p"
    and "length (ps_blocks (pr_state p)) < 2 ^ 64" "ps_remote_slot_results (pr_state p) = []"
  shows "(ps_current_leader (pr_state p) = str ''protocol'' \<and> ps_local_validator_id (pr_state p) = None \<and> find_validator (pr_state p) i = None \<longrightarrow>
      finish_slot E (on_state (learn_validator_from_hello E (str ''validator'') (Some i) owner True) p) = None) \<and>
    (total_eligible_tickets (pr_state p) = 0 \<and> select_pbm_tx_index E (pr_state p) = Some k \<and> t = ps_pbm_pool (pr_state p) ! k \<and>
      execute_pbm_tx E t ((pr_state p)\<lparr>ps_pbm_pool := take k (ps_pbm_pool (pr_state p)) @ drop (Suc k) (ps_pbm_pool (pr_state p))\<rparr>)
        = (Some (gas, fees), s1) \<and>
      (tx_chain_id t \<noteq> CHAIN_ID \<or> tx_gas t > MAX_BLOCK_GAS) \<longrightarrow> finish_slot E p = None) \<and>
    (total_eligible_tickets (pr_state p) \<noteq> 0 \<and> is_local_leader (pr_state p) \<and> ps_mempool (pr_state p) = t # pool \<and>
      \<not> tx_canonical (ne_crates E) t \<and> tx_chain_id t = CHAIN_ID \<and> tx_valid_after_slot t \<le> ps_slot (pr_state p) \<and>
      tx_gas t \<le> MAX_BLOCK_GAS \<and> execute_tx E t ((pr_state p)\<lparr>ps_mempool := pool\<rparr>) = (True, s1) \<longrightarrow>
      finish_slot E p \<noteq> Some (Finished wire, p'))"
proof -
  have c: "node_chain E (pr_state p)" using node_run_chain [OF assms(2) protocol_new_chain] by blast
  show ?thesis
    using hello_panics [OF c assms(3,4), of i owner] finish_slot_panics [OF c assms(3,4)]
      foreign_pbm_no_block [of "pr_state p" E k t gas fees s1 "pr_rng p"]
      odd_signature_unfinished [OF assms(1,4), of t pool s1 wire p'] by blast
qed

section \<open>Witnesses\<close>

definition demo_env :: node_env where
  "demo_env = \<lparr>ne_keccak = demo_K, ne_crates = demo_crates, ne_trim = id, ne_lower = id, ne_sec1 = (\<lambda>_. True), ne_sign = (\<lambda>_ _. None), ne_coin = (\<lambda>_. False)\<rparr>"

definition demo_node :: protocol where "demo_node = protocol_new demo_env Standard None None [] [] 0"

lemma demo_started: "(proto_step demo_env)\<^sup>*\<^sup>* (protocol_new demo_env Standard None None [] [] 0) demo_node"
  by (simp add: demo_node_def)

lemma demo_env_fields [simp]: "ne_keccak demo_env = demo_K" "ne_crates demo_env = demo_crates"
  by (simp_all add: demo_env_def)

lemma demo_digest: "digest32 demo_K" by (simp add: digest32_def demo_K_def)

lemma demo_node_fields [simp]:
  "ps_validators (pr_state demo_node) = []" "ps_tickets (pr_state demo_node) = []" "ps_mempool (pr_state demo_node) = []"
  "ps_pbm_pool (pr_state demo_node) = []" "ps_blocks (pr_state demo_node) = []" "ps_local_validator_id (pr_state demo_node) = None"
  "ps_remote_slot_results (pr_state demo_node) = []" "ps_current_leader (pr_state demo_node) = str ''protocol''" "ps_slot (pr_state demo_node) = 0"
  by (simp_all add: demo_node_def protocol_new_def push_event_def initial_state_def reselect_leader_def recompute_base_reward_per_block_def
      Let_def select_leader_def historical_block_hash_def select_leader_ticket_def eligible_tickets_def)

lemma demo_node_ready: "node_ready demo_env (pr_state demo_node)"
  by (simp add: node_ready_def leader_ok_def total_eligible_tickets_def eligible_tickets_def)

theorem slot_finishes_witness:
  "\<exists>wire b p'. finish_slot demo_env demo_node = Some (Finished wire, p') \<and> ps_blocks (pr_state p') = [(0, b)]"
proof -
  have "\<exists>wire b p'. finish_slot demo_env demo_node = Some (Finished wire, p') \<and> from_wire_bytes (ne_keccak demo_env) (ne_crates demo_env) wire = Some b \<and>
    ps_blocks (pr_state p') = ps_blocks (pr_state demo_node) @ [(ps_slot (pr_state demo_node), b)]"
    by (rule slot_finishes [OF _ _ demo_started])
      (simp_all add: demo_node_ready demo_digest demo_crates_ok)
  then show ?thesis by auto
qed

lemma demo_tick: "\<exists>q b. proto_step demo_env demo_node q \<and> ps_blocks (pr_state q) = [(0, b)]"
proof -
  have c: "node_chain demo_env (pr_state demo_node)" unfolding demo_node_def by (rule protocol_new_chain)
  obtain wire p' where f: "finish_slot demo_env demo_node = Some (Finished wire, p')"
    using finish_slot_returns [OF _ _ c _ demo_node_ready] by (auto simp: demo_digest demo_crates_ok)
  then have "proto_step demo_env demo_node (on_state (start_next_slot demo_env) p')"
    by (intro proto_step.tick) (simp add: tick_slot_def)
  moreover have "\<exists>b. ps_blocks (pr_state p') = [(0, b)]" by (rule finish_slot_chain [OF c f]) auto
  ultimately show ?thesis by (auto simp: start_next_slot_chain)
qed

theorem node_chain_linear_witness:
  "\<exists>q b. (proto_step demo_env)\<^sup>*\<^sup>* demo_node q \<and> ps_blocks (pr_state q) = [(0, b)] \<and> node_chain demo_env (pr_state q)"
proof -
  obtain q b where q: "proto_step demo_env demo_node q" "ps_blocks (pr_state q) = [(0, b)]" using demo_tick by blast
  then have r: "(proto_step demo_env)\<^sup>*\<^sup>* demo_node q" by blast
  have "node_chain demo_env (pr_state q) \<and> (\<exists>ext. ps_blocks (pr_state q) = ps_blocks (pr_state demo_node) @ ext)"
    by (rule node_chain_linear [OF demo_started r])
  with q r show ?thesis by blast
qed

text \<open>A slot whose staged execution builds a block and is then discarded, because a result is recorded already.\<close>

theorem finish_slot_atomic_witness:
  "\<exists>b q p' es. staged_execution demo_env (on_state (\<lambda>s. s\<lparr>ps_current_result := Some demo_block\<rparr>) demo_node) =
       Some (Inl ''active slot already has a recorded result'', q) \<and>
     produce_block demo_env 0 (pr_state (on_state (\<lambda>s. s\<lparr>ps_current_result := Some demo_block\<rparr>) demo_node)) = Some (b, pr_rng q, pr_state q) \<and>
     finish_slot demo_env (on_state (\<lambda>s. s\<lparr>ps_current_result := Some demo_block\<rparr>) demo_node) = Some (Unfinished, p') \<and>
     p' = on_state (\<lambda>s. s\<lparr>ps_current_result := Some demo_block, ps_events := es @ ps_events s\<rparr>) demo_node"
proof -
  let ?p = "on_state (\<lambda>s. s\<lparr>ps_current_result := Some demo_block\<rparr>) demo_node" and ?msg = "''active slot already has a recorded result''"
  have d: "drop_remote_result ?p = ?p" by (rule drop_remote_none) simp
  have z: "pr_rng ?p = 0" by (simp add: demo_node_def protocol_new_def push_event_def Let_def on_state_def)
  have act: "prevalidate_active_linear_slot (pr_state ?p) = Inr ()" and par: "canonical_parent_hash demo_env (pr_state ?p) (ps_slot (pr_state ?p)) = Some ZERO_HASH"
    by (simp_all add: prevalidate_active_linear_slot_def canonical_parent_hash_def)
  have r: "node_ready demo_env (pr_state ?p)" by (simp add: node_ready_def leader_ok_def total_eligible_tickets_def eligible_tickets_def)
  obtain b wire rng' s' where b: "produce_block demo_env 0 (pr_state ?p) = Some (b, rng', s')"
      "wire_bytes demo_K demo_crates b = Some wire" "from_wire_bytes demo_K demo_crates wire = Some b"
    using produce_block_returns [OF _ _ par r, of 0] by (auto simp: demo_digest demo_crates_ok)
  have "prevalidate_linear_tip demo_env b s' = Inr ()"
    by (rule tip_ok_produced [OF b(1) act]) (use b in simp_all)
  moreover have "ps_current_result s' \<noteq> None"
    using exec_chain [OF produce_block_view(1) [OF b(1)]] by (simp add: chain_view_eq)
  ultimately have q: "staged_execution demo_env ?p = Some (Inl ?msg, ?p\<lparr>pr_rng := rng', pr_state := s'\<rparr>)"
    using b(1) act z by (simp add: staged_execution_def record_linear_tip_def)
  then obtain p' where p': "finish_slot demo_env ?p = Some (Unfinished, p')"
    using act par by (simp add: finish_slot_def stage_local_slot_def d Let_def)
  obtain es where "p' = ?p\<lparr>pr_state := (pr_state ?p)\<lparr>ps_events := es @ ps_events (pr_state ?p),
      ps_remote_slot_results := bm_remove (ps_slot (pr_state ?p)) (ps_remote_slot_results (pr_state ?p))\<rparr>\<rparr>"
    using finish_slot_atomic [OF p'] by blast
  moreover have "ps_remote_slot_results (pr_state demo_node) = []" by simp
  ultimately have "p' = on_state (\<lambda>s. s\<lparr>ps_current_result := Some demo_block, ps_events := es @ ps_events s\<rparr>) demo_node" by (simp add: on_state_def)
  with p' q b(1) show ?thesis by (intro exI [of _ b] exI [of _ "?p\<lparr>pr_rng := rng', pr_state := s'\<rparr>"] exI [of _ p'] exI [of _ es]) simp
qed

theorem unready_slot_fails_witness:
  "finish_slot demo_env (on_state (learn_validator_from_hello demo_env (str ''validator'') (Some (str ''val'')) None True) demo_node) = None"
  using unready_slot_fails [where E = demo_env and i = "str ''val''" and owner = None,
      OF _ demo_started, THEN conjunct1]
  by (simp add: demo_crates_ok find_validator_def)

end
