(* ===== verification/Node_Supply.thy ===== *)
theory Node_Supply
  imports Node_Liveness
begin

text \<open>
  The ETX supply of the prototype node in exact arithmetic: what the execution of a transaction, the rewards and the
  boundaries of a slot do to the sum of all balances and vaults, and what a withdrawal may take out of a vault.
\<close>

section \<open>Ledgers\<close>

text \<open>What the slot engine relies on when it moves tokens: \<open>etx\<close> is the part of an amount that counts as supply.\<close>

locale token_ledger =
  fixes ok_ledger :: "'s \<Rightarrow> bool"
    and wealth :: "'s \<Rightarrow> nat"
    and holding :: "'s \<Rightarrow> 'a \<Rightarrow> nat"
    and etx :: "'t \<Rightarrow> 'n \<Rightarrow> nat"
    and credit :: "'a \<Rightarrow> 't \<Rightarrow> 'n \<Rightarrow> 's \<Rightarrow> 's"
    and debit :: "'a \<Rightarrow> 't \<Rightarrow> 'n \<Rightarrow> 's \<Rightarrow> bool \<times> 's"
    and cap :: nat
  assumes credit_ok: "ok_ledger s \<Longrightarrow> ok_ledger (credit i k n s)"
    and debit_ok: "ok_ledger s \<Longrightarrow> debit i k n s = (r, s') \<Longrightarrow> ok_ledger s'"
    and holding_le: "ok_ledger s \<Longrightarrow> holding s i \<le> wealth s"
    and credit_supply: "ok_ledger s \<Longrightarrow> wealth s + etx k n < cap \<Longrightarrow> wealth (credit i k n s) = wealth s + etx k n"
    and credit_holding: "ok_ledger s \<Longrightarrow> wealth s + etx k n < cap \<Longrightarrow> holding (credit i k n s) i = holding s i + etx k n"
    and debit_supply: "ok_ledger s \<Longrightarrow> debit i k n s = (r, s') \<Longrightarrow> wealth s' + (if r then etx k n else 0) = wealth s"
    and debit_fail: "ok_ledger s \<Longrightarrow> debit i k n s = (False, s') \<Longrightarrow> holding s' j = holding s j"
    and debit_can: "ok_ledger s \<Longrightarrow> debit i k n s = (False, s') \<Longrightarrow> 0 < etx k n \<Longrightarrow> holding s i < etx k n"
begin

text \<open>A payment that is taken and given back changes nothing.\<close>

lemma refund:
  assumes "ok_ledger s" "wealth s < cap" "debit i k n s = (True, s1)" "ok_ledger s2" "wealth s2 = wealth s1"
  shows "wealth (credit i k n s2) = wealth s"
  using credit_supply [of s2 k n i] debit_supply [OF assms(1,3)] assms by simp

text \<open>A transfer whose fee cannot be charged is undone, even between an account and itself.\<close>

lemma undo_transfer:
  assumes s: "ok_ledger s" "wealth s < cap" and d: "debit i k n s = (True, s1)"
    and f: "debit i k' n' (credit j k n s1) = (False, s2)"
  shows "wealth (credit i k n (snd (debit j k n s2))) = wealth s"
proof -
  let ?c = "credit j k n s1"
  have s1: "ok_ledger s1" "wealth s1 + etx k n = wealth s" using debit_ok [OF s(1) d] debit_supply [OF s(1) d] by auto
  have c: "ok_ledger ?c" "wealth ?c = wealth s" "holding ?c j \<ge> etx k n"
    using credit_ok [OF s1(1)] credit_supply [OF s1(1)] credit_holding [OF s1(1)] s1(2) s(2) by simp_all
  have s2: "ok_ledger s2" "wealth s2 = wealth s" "holding s2 j \<ge> etx k n"
    using debit_ok [OF c(1) f] debit_supply [OF c(1) f] debit_fail [OF c(1) f] c by auto
  obtain r s3 where d3: "debit j k n s2 = (r, s3)" by fastforce
  have s3: "ok_ledger s3" "wealth s3 + etx k n = wealth s"
    using debit_ok [OF s2(1) d3] debit_supply [OF s2(1) d3] debit_can [OF s2(1), of j k n s3] s2(2,3) d3
    by (cases r; cases "etx k n = 0"; fastforce)+
  with credit_supply [OF s3(1), of k n i] d3 s(2) show ?thesis by simp
qed

end

section \<open>The node's ledger\<close>

abbreviation etx_held :: "node_account \<Rightarrow> nat" where
  "etx_held a \<equiv> unat (balance_or_zero a TOKEN_ETX_ID)"

definition supply_of :: "protocol_state \<Rightarrow> nat" where
  "supply_of s = bm_sum etx_held (ps_accounts s) + sum_list (map (unat \<circ> nv_vault_quarks) (ps_validators s))"

definition held :: "node_env \<Rightarrow> protocol_state \<Rightarrow> text_bytes \<Rightarrow> nat" where
  "held E s i = (case map_of (ps_accounts s) (normalize_address E i) of None \<Rightarrow> 0 | Some a \<Rightarrow> etx_held a)"

definition etx_part :: "u64 \<Rightarrow> u128 \<Rightarrow> nat" where
  "etx_part token amount = (if token = TOKEN_ETX_ID then unat amount else 0)"

definition ledger_ok :: "node_env \<Rightarrow> protocol_state \<Rightarrow> bool" where
  "ledger_ok E s \<longleftrightarrow> norm_ok E \<and> bm_wf (ps_accounts s)"

lemma balance_insert: "balance_or_zero (a\<lparr>na_balances := bm_insert k b (na_balances a)\<rparr>) k' = (if k' = k then b else balance_or_zero a k')"
  by (simp add: balance_or_zero_def map_of_bm_insert)

lemma ensure_account_ledger:
  assumes "bm_wf (ps_accounts s)"
  shows "bm_wf (ps_accounts (ensure_account_exists E i s))" "supply_of (ensure_account_exists E i s) = supply_of s"
    and "held E (ensure_account_exists E i s) j = held E s j"
  using assms bm.weigh_ins [OF assms, of etx_held "normalize_address E i" "new_account (normalize_address E i)"]
  by (auto simp: ensure_account_exists_def Let_def bm_wf_insert supply_of_def held_def map_of_bm_insert new_account_def balance_or_zero_def)

lemma ensure_account_found: "norm_ok E \<Longrightarrow> \<exists>a. map_of (ps_accounts (ensure_account_exists E (normalize_address E i) s)) (normalize_address E i) = Some a"
  by (auto simp: ensure_account_exists_def Let_def norm_ok_def map_of_bm_insert)

lemma put_account:
  assumes "bm_wf (ps_accounts s)" "map_of (ps_accounts s) k = Some a"
  shows "supply_of (s\<lparr>ps_accounts := bm_insert k a' (ps_accounts s)\<rparr>) + etx_held a = supply_of s + etx_held a'"
  using bm.weigh_replace [OF assms, of etx_held a'] by (simp add: supply_of_def)

lemma held_le: "bm_wf (ps_accounts s) \<Longrightarrow> map_of (ps_accounts s) k = Some a \<Longrightarrow> etx_held a \<le> supply_of s"
  using put_account [of s k a "new_account k"] by (simp add: new_account_def balance_or_zero_def)

lemma held_put:
  "map_of (ps_accounts s) (normalize_address E i) = Some a \<Longrightarrow>
   held E (s\<lparr>ps_accounts := bm_insert (normalize_address E i) a' (ps_accounts s)\<rparr>) j =
     (if normalize_address E j = normalize_address E i then etx_held a' else held E s j)"
  by (simp add: held_def map_of_bm_insert)

lemma unat_add_below: "unat (a :: u128) + unat b < 2 ^ 128 \<Longrightarrow> unat (a + b) = unat a + unat b"
  by (simp add: unat_word_ariths)

definition put_balance :: "text_bytes \<Rightarrow> node_account \<Rightarrow> u64 \<Rightarrow> u128 \<Rightarrow> protocol_state \<Rightarrow> protocol_state" where
  "put_balance key a token b s = s\<lparr>ps_accounts := bm_insert key (a\<lparr>na_balances := bm_insert token b (na_balances a)\<rparr>) (ps_accounts s)\<rparr>"

text \<open>Both operations write one balance of one account.\<close>

definition one_write :: "node_env \<Rightarrow> text_bytes \<Rightarrow> u64 \<Rightarrow> protocol_state \<Rightarrow> node_account \<Rightarrow> protocol_state \<Rightarrow> bool" where
  "one_write E i k s a t \<longleftrightarrow> held E s i = etx_held a \<and> etx_held a \<le> supply_of s \<and>
     (\<forall>b. ledger_ok E (put_balance (normalize_address E i) a k b t)) \<and>
     (\<forall>b. supply_of (put_balance (normalize_address E i) a k b t) + etx_held a = supply_of s + (if k = TOKEN_ETX_ID then unat b else etx_held a)) \<and>
     (\<forall>b j. held E (put_balance (normalize_address E i) a k b t) j =
        (if normalize_address E j = normalize_address E i then (if k = TOKEN_ETX_ID then unat b else etx_held a) else held E s j))"

lemma ledger_write:
  assumes s: "ledger_ok E s"
  obtains t a where "one_write E i k s a t"
    and "credit_balance E i k n s = put_balance (normalize_address E i) a k (balance_or_zero a k + n) t"
    and "debit_balance E i k n s = (if balance_or_zero a k < n then (False, put_balance (normalize_address E i) a k (balance_or_zero a k) t)
      else (True, put_balance (normalize_address E i) a k (balance_or_zero a k - n) t))"
proof -
  let ?k = "normalize_address E i" let ?s = "ensure_account_exists E ?k s"
  have wf: "bm_wf (ps_accounts ?s)" "supply_of ?s = supply_of s" "\<And>j. held E ?s j = held E s j"
    using s ensure_account_ledger [of s E ?k] by (simp_all add: ledger_ok_def)
  from s have "norm_ok E" by (simp add: ledger_ok_def)
  then obtain a where a: "map_of (ps_accounts ?s) ?k = Some a" using ensure_account_found [of E i s] by blast
  have "held E s i = etx_held a" using wf(3) [of i] a by (simp add: held_def)
  moreover have "etx_held a \<le> supply_of s" using held_le [OF wf(1) a] wf(2) by simp
  moreover have "ledger_ok E (put_balance ?k a k b ?s)" for b using s wf(1) by (simp add: put_balance_def ledger_ok_def bm_wf_insert)
  moreover have "supply_of (put_balance ?k a k b ?s) + etx_held a = supply_of s + (if k = TOKEN_ETX_ID then unat b else etx_held a)" for b
    using put_account [OF wf(1) a] wf(2) by (simp add: put_balance_def balance_insert)
  moreover have "held E (put_balance ?k a k b ?s) j =
      (if normalize_address E j = ?k then (if k = TOKEN_ETX_ID then unat b else etx_held a) else held E s j)" for b j
    using held_put [OF a, of "a\<lparr>na_balances := bm_insert k b (na_balances a)\<rparr>" j] wf(3) by (simp add: put_balance_def balance_insert)
  ultimately have "one_write E i k s a ?s" unfolding one_write_def by blast
  then show ?thesis by (rule that) (simp_all add: credit_balance_def debit_balance_def put_balance_def Let_def a)
qed

lemma credit_laws:
  assumes "ledger_ok E s"
  shows "ledger_ok E (credit_balance E i k n s)" "held E s i \<le> supply_of s"
    and "supply_of s + etx_part k n < 2 ^ 128 \<Longrightarrow> supply_of (credit_balance E i k n s) = supply_of s + etx_part k n"
    and "supply_of s + etx_part k n < 2 ^ 128 \<Longrightarrow> held E (credit_balance E i k n s) i = held E s i + etx_part k n"
proof -
  obtain t a where o: "one_write E i k s a t" and c: "credit_balance E i k n s = put_balance (normalize_address E i) a k (balance_or_zero a k + n) t"
    by (rule ledger_write [OF assms, where i = i and k = k and n = n])
  note w = c o [unfolded one_write_def]
  show "ledger_ok E (credit_balance E i k n s)" "held E s i \<le> supply_of s" using w by simp_all
  have "unat (balance_or_zero a k + n) = etx_held a + unat n" if "k = TOKEN_ETX_ID" "supply_of s + unat n < 2 ^ 128"
    using unat_add_below [of "balance_or_zero a k" n] w(2) that by simp
  then have add: "supply_of s + etx_part k n < 2 ^ 128 \<Longrightarrow>
      (if k = TOKEN_ETX_ID then unat (balance_or_zero a k + n) else etx_held a) = etx_held a + etx_part k n"
    by (cases "k = TOKEN_ETX_ID") (simp_all add: etx_part_def)
  have "supply_of (credit_balance E i k n s) + etx_held a = supply_of s + (if k = TOKEN_ETX_ID then unat (balance_or_zero a k + n) else etx_held a)"
    "held E (credit_balance E i k n s) i = (if k = TOKEN_ETX_ID then unat (balance_or_zero a k + n) else etx_held a)"
    using w by auto
  with add w(2) show "supply_of s + etx_part k n < 2 ^ 128 \<Longrightarrow> supply_of (credit_balance E i k n s) = supply_of s + etx_part k n"
      "supply_of s + etx_part k n < 2 ^ 128 \<Longrightarrow> held E (credit_balance E i k n s) i = held E s i + etx_part k n"
    by auto
qed

lemma debit_laws:
  assumes "ledger_ok E s" and d: "debit_balance E i k n s = (r, s')"
  shows "ledger_ok E s'" "supply_of s' + (if r then etx_part k n else 0) = supply_of s"
    and "\<not> r \<Longrightarrow> held E s' j = held E s j" "\<not> r \<Longrightarrow> 0 < etx_part k n \<Longrightarrow> held E s i < etx_part k n"
proof -
  obtain t a where o: "one_write E i k s a t"
      and c: "debit_balance E i k n s = (if balance_or_zero a k < n then (False, put_balance (normalize_address E i) a k (balance_or_zero a k) t)
        else (True, put_balance (normalize_address E i) a k (balance_or_zero a k - n) t))"
    by (rule ledger_write [OF assms(1), where i = i and k = k and n = n])
  let ?b = "if balance_or_zero a k < n then balance_or_zero a k else balance_or_zero a k - n"
  have d': "r \<longleftrightarrow> \<not> balance_or_zero a k < n" "s' = put_balance (normalize_address E i) a k ?b t" using c d by (auto split: if_splits)
  note w = o [unfolded one_write_def]
  show "ledger_ok E s'" unfolding d'(2) using w by blast
  have "unat ?b + (if r then unat n else 0) = unat (balance_or_zero a k)"
    by (auto simp: d'(1) unat_sub word_less_nat_alt word_le_nat_alt)
  moreover have "supply_of s' + etx_held a = supply_of s + (if k = TOKEN_ETX_ID then unat ?b else etx_held a)" unfolding d'(2) using w by blast
  ultimately show "supply_of s' + (if r then etx_part k n else 0) = supply_of s"
    by (cases "k = TOKEN_ETX_ID") (auto simp: etx_part_def)
  have "held E s' j = (if normalize_address E j = normalize_address E i then (if k = TOKEN_ETX_ID then unat ?b else etx_held a) else held E s j)"
    unfolding d'(2) using w by blast
  moreover have "held E s j = held E s i" if "normalize_address E j = normalize_address E i" using that by (simp add: held_def)
  ultimately show "\<not> r \<Longrightarrow> held E s' j = held E s j" using w d'(1) by (auto split: if_splits)
  show "\<not> r \<Longrightarrow> 0 < etx_part k n \<Longrightarrow> held E s i < etx_part k n"
    using w d'(1) by (auto simp: etx_part_def word_less_nat_alt split: if_splits)
qed

interpretation node_ledger: token_ledger "ledger_ok E" supply_of "held E" etx_part "credit_balance E" "debit_balance E" "2 ^ 128"
  by unfold_locales (blast intro: credit_laws debit_laws)+

section \<open>Vaults\<close>

lemma supply_of_updates [simp]:
  "supply_of (s\<lparr>ps_mempool := q\<rparr>) = supply_of s" "supply_of (s\<lparr>ps_pbm_pool := q\<rparr>) = supply_of s"
  "ledger_ok E (s\<lparr>ps_mempool := q\<rparr>) = ledger_ok E s" "ledger_ok E (s\<lparr>ps_pbm_pool := q\<rparr>) = ledger_ok E s"
  "ledger_ok E (s\<lparr>ps_validators := vs\<rparr>) = ledger_ok E s"
  by (simp_all add: supply_of_def ledger_ok_def)

lemma has_validator_find: "has_validator s i \<longleftrightarrow> (\<exists>v. find_validator s i = Some v)"
  using find_None_iff [of "\<lambda>v. nv_id v = i" "ps_validators s"] by (auto simp: find_validator_def)

lemma vault_update:
  assumes "find_validator s i = Some v"
  shows "supply_of (update_validator i f s) + unat (nv_vault_quarks v) = supply_of s + unat (nv_vault_quarks (f v))"
  using update_first_sum [of "\<lambda>v. nv_id v = i" "ps_validators s" v "unat \<circ> nv_vault_quarks" f] assms
  by (simp add: supply_of_def find_validator_def)

lemma vault_le:
  assumes "find_validator s i = Some v"
  shows "unat (nv_vault_quarks v) \<le> supply_of s"
  using vault_update [OF assms, of "\<lambda>v. v\<lparr>nv_vault_quarks := 0\<rparr>"] by simp

lemma vault_same: "(\<And>v. nv_vault_quarks (f v) = nv_vault_quarks v) \<Longrightarrow> supply_of (update_validator i f s) = supply_of s"
  by (simp add: supply_of_def map_update_first)

lemma activation_vault [simp]: "nv_vault_quarks (activation minimum live v) = nv_vault_quarks v"
  by (simp add: activation_def)

lemma refresh_supply [simp]:
  "supply_of (refresh_validator_activation i s) = supply_of s" "ledger_ok E (refresh_validator_activation i s) = ledger_ok E s"
  by (simp_all add: refresh_validator_activation_def Let_def vault_same)

lemma burn_mint_supply [simp]:
  "supply_of (burn_and_mint_tickets i n s) = supply_of s" "ledger_ok E (burn_and_mint_tickets i n s) = ledger_ok E s"
  by (simp_all add: burn_and_mint_tickets_def Let_def supply_of_def ledger_ok_def)

lemma register_supply [simp]:
  "supply_of (register_validator_record E i owner key reward s) = supply_of s"
  "ledger_ok E' (register_validator_record E i owner key reward s) = ledger_ok E' s"
  by (simp_all add: register_validator_record_def supply_of_def ledger_ok_def)

section \<open>Executing a transaction\<close>

text \<open>What an executed transaction takes out of the supply: its fee, if that is paid in ETX, and the price of tickets.\<close>

definition etx_burn :: "tx \<Rightarrow> nat" where
  "etx_burn t = (case tx_kind_of t of
     RegisterValidator \<Rightarrow> unat (tx_fee_quarks t)
   | WalletToVault \<Rightarrow> unat (tx_fee_quarks t)
   | VaultToWallet \<Rightarrow> unat (tx_fee_quarks t)
   | BuyTicket \<Rightarrow> unat (tx_fee_quarks t) + unat (saturating_mul TICKET_COST_QUARKS (tx_value t))
   | _ \<Rightarrow> if tx_fee_token_id t = TOKEN_ETX_ID then unat (tx_fee_quarks t) else 0)"

definition spends :: "node_env \<Rightarrow> nat \<Rightarrow> protocol_state \<Rightarrow> bool \<times> protocol_state \<Rightarrow> bool" where
  "spends E n s rs \<longleftrightarrow> ledger_ok E (snd rs) \<and> supply_of (snd rs) + (if fst rs then n else 0) = supply_of s"

lemma unat_fee [simp]: "unat (ucast (fee :: u64) :: u128) = unat fee"
  using unat_bound [of fee] by (simp add: unsigned_ucast_eq take_bit_eq_mod)

lemma etx_part_ETX [simp]: "etx_part TOKEN_ETX_ID n = unat n"
  by (simp add: etx_part_def)

lemma debit_spends: "ledger_ok E s \<Longrightarrow> spends E (etx_part k n) s (debit_balance E i k n s)"
  using node_ledger.debit_ok [of E s i k n] node_ledger.debit_supply [of E s i k n]
  by (cases "debit_balance E i k n s") (auto simp: spends_def)

lemma debit_validators: "debit_balance E i k n s = (r, s') \<Longrightarrow> ps_validators s' = ps_validators s"
  by (auto simp: debit_balance_def ensure_account_exists_def Let_def split: option.splits if_splits)

lemma execute_register_spends:
  assumes "ledger_ok E s"
  shows "spends E (unat (tx_fee_quarks t)) s (execute_register E t s)"
  using assms debit_spends [OF assms, of TOKEN_ETX_ID "ucast (tx_fee_quarks t)" "tx_from t"]
  by (auto simp: execute_register_def spends_def split: option.split prod.split bool.split)

lemma execute_buy_spends:
  assumes s: "ledger_ok E s" "supply_of s < 2 ^ 128"
  shows "spends E (unat (tx_fee_quarks t) + unat (saturating_mul TICKET_COST_QUARKS (tx_value t))) s (execute_buy E t s)"
proof -
  let ?cost = "saturating_mul TICKET_COST_QUARKS (tx_value t)"
  obtain r1 s1 where d1: "debit_balance E (tx_from t) TOKEN_ETX_ID ?cost s = (r1, s1)" by fastforce
  obtain r2 s2 where d2: "debit_balance E (tx_from t) TOKEN_ETX_ID (ucast (tx_fee_quarks t)) s1 = (r2, s2)" by fastforce
  have s1: "ledger_ok E s1" "supply_of s1 + (if r1 then unat ?cost else 0) = supply_of s"
    using debit_spends [OF s(1), of TOKEN_ETX_ID ?cost "tx_from t"] d1 by (simp_all add: spends_def)
  have s2: "ledger_ok E s2" "supply_of s2 + (if r2 then unat (tx_fee_quarks t) else 0) = supply_of s1"
    using debit_spends [OF s1(1), of TOKEN_ETX_ID "ucast (tx_fee_quarks t)" "tx_from t"] d2 by (simp_all add: spends_def)
  have refunded: "supply_of (credit_balance E (tx_from t) TOKEN_ETX_ID ?cost s2) = supply_of s" if "r1" "\<not> r2"
    using node_ledger.refund [OF s, of "tx_from t" TOKEN_ETX_ID ?cost s1 s2] d1 s2 that by simp
  show ?thesis
    using s s1 s2 refunded node_ledger.credit_ok [OF s2(1)]
    by (auto simp: execute_buy_def Let_def d1 d2 spends_def split: bool.split)
qed

lemma execute_deposit_spends:
  assumes s: "ledger_ok E s" "supply_of s < 2 ^ 128"
  shows "spends E (unat (tx_fee_quarks t)) s (execute_deposit E t s)"
proof -
  obtain r1 s1 where d1: "debit_balance E (tx_from t) TOKEN_ETX_ID (tx_value t) s = (r1, s1)" by fastforce
  obtain r2 s2 where d2: "debit_balance E (tx_from t) TOKEN_ETX_ID (ucast (tx_fee_quarks t)) s1 = (r2, s2)" by fastforce
  have s1: "ledger_ok E s1" "supply_of s1 + (if r1 then unat (tx_value t) else 0) = supply_of s"
    using debit_spends [OF s(1), of TOKEN_ETX_ID "tx_value t" "tx_from t"] d1 by (simp_all add: spends_def)
  have s2: "ledger_ok E s2" "supply_of s2 + (if r2 then unat (tx_fee_quarks t) else 0) = supply_of s1"
    using debit_spends [OF s1(1), of TOKEN_ETX_ID "ucast (tx_fee_quarks t)" "tx_from t"] d2 by (simp_all add: spends_def)
  have refunded: "supply_of (credit_balance E (tx_from t) TOKEN_ETX_ID (tx_value t) s2) = supply_of s2 + unat (tx_value t)" if "r1"
    using node_ledger.credit_supply [OF s2(1), of TOKEN_ETX_ID "tx_value t" "tx_from t"] s1(2) s2(2) s(2) that by simp
  have vault: "supply_of (update_validator (tx_to t) (\<lambda>v. v\<lparr>nv_vault_quarks := saturating_add (nv_vault_quarks v) (tx_value t)\<rparr>) s2)
      = supply_of s2 + unat (tx_value t)" if "r1" "has_validator s2 (tx_to t)"
  proof -
    from that(2) obtain v where v: "find_validator s2 (tx_to t) = Some v" using has_validator_find by blast
    have "unat (nv_vault_quarks v) + unat (tx_value t) < 2 ^ 128" using vault_le [OF v] s1(2) s2(2) s(2) that(1) by simp
    then show ?thesis
      using vault_update [OF v, of "\<lambda>v. v\<lparr>nv_vault_quarks := saturating_add (nv_vault_quarks v) (tx_value t)\<rparr>"]
      by (simp add: saturating_add_def unat_add_below)
  qed
  have "ps_validators s2 = ps_validators s" using debit_validators [OF d1] debit_validators [OF d2] by simp
  then show ?thesis
    using s s1 s2 refunded vault node_ledger.credit_ok [OF s2(1)]
    by (auto simp: execute_deposit_def Let_def d1 d2 spends_def split: bool.split)
qed

lemma owner_has_validator: "validator_owner_account s i = Some a \<Longrightarrow> has_validator s i"
  by (auto simp: validator_owner_account_def has_validator_find split: option.splits)

lemma withdrawable_le:
  assumes "find_validator s i = Some v" "n \<le> validator_withdrawable_vault_quarks s i"
  shows "unat n \<le> unat (nv_vault_quarks v) - unat (nv_locked_reward_quarks v) - unat (validator_vault_minimum_quarks s i)"
  using assms by (simp add: validator_withdrawable_vault_quarks_def word_le_nat_alt saturating_sub_unat)

lemma execute_withdraw_spends:
  assumes s: "ledger_ok E s" "supply_of s < 2 ^ 128"
  shows "spends E (unat (tx_fee_quarks t)) s (execute_withdraw E t s)"
proof -
  obtain r1 s1 where d1: "debit_balance E (tx_from t) TOKEN_ETX_ID (ucast (tx_fee_quarks t)) s = (r1, s1)" by fastforce
  have s1: "ledger_ok E s1" "supply_of s1 + (if r1 then unat (tx_fee_quarks t) else 0) = supply_of s"
    using debit_spends [OF s(1), of TOKEN_ETX_ID "ucast (tx_fee_quarks t)" "tx_from t"] d1 by (simp_all add: spends_def)
  have vs: "ps_validators s1 = ps_validators s" using debit_validators [OF d1] .
  let ?u = "update_validator (tx_to t) (\<lambda>v. v\<lparr>nv_vault_quarks := nv_vault_quarks v - tx_value t\<rparr>) s1"
  have moved: "supply_of (credit_balance E (tx_from t) TOKEN_ETX_ID (tx_value t) ?u) = supply_of s1"
    if "tx_value t \<le> validator_withdrawable_vault_quarks s (tx_to t)" "has_validator s1 (tx_to t)"
  proof -
    from that(2) obtain v where v: "find_validator s (tx_to t) = Some v" "find_validator s1 (tx_to t) = Some v"
      using has_validator_find vs by (auto simp: find_validator_def)
    have "unat (tx_value t) \<le> unat (nv_vault_quarks v)" using withdrawable_le [OF v(1) that(1)] by simp
    then have "supply_of ?u + unat (tx_value t) = supply_of s1"
      using vault_update [OF v(2), of "\<lambda>v. v\<lparr>nv_vault_quarks := nv_vault_quarks v - tx_value t\<rparr>"]
      by (simp add: unat_sub word_le_nat_alt)
    then show ?thesis
      using node_ledger.credit_supply [of E ?u TOKEN_ETX_ID "tx_value t" "tx_from t"] s1 s(2) by simp
  qed
  show ?thesis
    using s s1 vs moved node_ledger.credit_ok [of E ?u] owner_has_validator [of s "tx_to t" "tx_from t"]
    by (auto simp: execute_withdraw_def Let_def d1 spends_def not_less split: bool.split)
qed

lemma execute_transfer_spends:
  assumes s: "ledger_ok E s" "supply_of s < 2 ^ 128"
  shows "spends E (etx_part (tx_fee_token_id t) (ucast (tx_fee_quarks t))) s (execute_transfer E t s)"
proof -
  let ?k = "tx_token_id t" and ?n = "tx_value t" and ?k' = "tx_fee_token_id t" and ?fee = "ucast (tx_fee_quarks t) :: u128"
  obtain r1 s1 where d1: "debit_balance E (tx_from t) ?k ?n s = (r1, s1)" by fastforce
  let ?c = "credit_balance E (tx_to t) ?k ?n s1"
  obtain r2 s2 where d2: "debit_balance E (tx_from t) ?k' ?fee ?c = (r2, s2)" by fastforce
  have s1: "ledger_ok E s1" "supply_of s1 + (if r1 then etx_part ?k ?n else 0) = supply_of s"
    using debit_spends [OF s(1), of ?k ?n "tx_from t"] d1 by (simp_all add: spends_def)
  have c: "ledger_ok E ?c" "r1 \<Longrightarrow> supply_of ?c = supply_of s"
    using node_ledger.credit_ok [OF s1(1)] node_ledger.credit_supply [OF s1(1), of ?k ?n "tx_to t"] s1(2) s(2) by auto
  have s2: "ledger_ok E s2" "supply_of s2 + (if r2 then etx_part ?k' ?fee else 0) = supply_of ?c"
    using debit_spends [OF c(1), of ?k' ?fee "tx_from t"] d2 by (simp_all add: spends_def)
  have undone: "supply_of (credit_balance E (tx_from t) ?k ?n (snd (debit_balance E (tx_to t) ?k ?n s2))) = supply_of s"
    if "r1" "\<not> r2"
    using node_ledger.undo_transfer [OF s, of "tx_from t" ?k ?n s1 ?k' ?fee "tx_to t" s2] d1 d2 that by simp
  have "ledger_ok E (credit_balance E (tx_from t) ?k ?n (snd (debit_balance E (tx_to t) ?k ?n s2)))"
    using debit_spends [OF s2(1)] by (intro node_ledger.credit_ok) (simp add: spends_def)
  moreover have "execute_transfer E t s \<in> {(False, s), if \<not> r1 then (False, s1) else if r2 then (True, s2)
      else (False, credit_balance E (tx_from t) ?k ?n (snd (debit_balance E (tx_to t) ?k ?n s2)))}"
    unfolding execute_transfer_def Let_def d1 prod.case by (cases r1) (simp_all add: d2)
  ultimately show ?thesis using s s1 c s2 undone by (auto simp: spends_def split: if_splits)
qed

lemma execute_tx_spends:
  assumes "ledger_ok E s" "supply_of s < 2 ^ 128"
  shows "spends E (etx_burn t) s (execute_tx E t s)"
  using execute_register_spends [OF assms(1), of t] execute_buy_spends [OF assms, of t] execute_deposit_spends [OF assms, of t]
    execute_withdraw_spends [OF assms, of t] execute_transfer_spends [OF assms, of t]
  by (cases "tx_kind_of t"; cases "tx_fee_token_id t = TOKEN_ETX_ID") (simp_all add: execute_tx_def etx_burn_def etx_part_def)

lemma execute_pbm_spends:
  assumes "ledger_ok E s" "supply_of s < 2 ^ 128"
  shows "ledger_ok E (snd (execute_pbm_tx E t s))"
    and "supply_of (snd (execute_pbm_tx E t s)) + (if fst (execute_pbm_tx E t s) \<noteq> None then etx_burn t else 0) = supply_of s"
  using execute_register_spends [OF assms(1), of t] execute_buy_spends [OF assms, of t] execute_deposit_spends [OF assms, of t] assms
  by (cases "tx_kind_of t"; auto simp: execute_pbm_tx_def etx_burn_def spends_def split: prod.splits)+

section \<open>A whole slot\<close>

text \<open>The counters that a slot reads or advances beside the money itself.\<close>

definition issue_view :: "protocol_state \<Rightarrow> u128 \<times> u128 \<times> u128 \<times> u128 \<times> u64 \<times> text_bytes option list" where
  "issue_view s = (ps_base_issuance_total s, ps_burn_offset_total s, ps_base_reward_per_block_quarks s, ps_burn_this_sub_epoch s,
     ps_burn_offset_k_permille s, ps_blocks_this_sub_epoch s)"

lemma rest_issue: "exec_rest s = exec_rest t \<Longrightarrow> issue_view s = issue_view t"
  by (drule arg_cong [of _ _ issue_view]) (simp add: exec_rest_def issue_view_def)

lemma validator_loop_supply:
  assumes loop: "validator_loop E rng s gas fees [] pool = (rng', s', gas', fees', ts')"
    and s: "ledger_ok E s" "supply_of s < 2 ^ 128"
  shows "ledger_ok E s'" "supply_of s' + sum_list (map etx_burn ts') = supply_of s"
proof -
  let ?I = "\<lambda>s1 (gas :: u64) (fees :: u64) ts (pool :: tx list). ledger_ok E s1 \<and> supply_of s1 + sum_list (map etx_burn ts) = supply_of s"
  have sp: "spends E (etx_burn t) s2 (r, s1)"
    if "ledger_ok E s2" "supply_of s2 + n = supply_of s" "execute_tx E t (s2\<lparr>ps_mempool := pool\<rparr>) = (r, s1)" for s2 n t pool r s1
    using execute_tx_spends [of E "s2\<lparr>ps_mempool := pool\<rparr>" t] that s(2) by (simp add: spends_def)
  have "\<exists>pool'. ?I s' gas' fees' ts' pool'"
    by (rule validator_loop_inv [where I = ?I, OF loop]) (use s in \<open>auto dest!: sp simp: spends_def\<close>)
  then show "ledger_ok E s'" "supply_of s' + sum_list (map etx_burn ts') = supply_of s" by auto
qed

lemma lock_supply:
  assumes "supply_of s + unat n < 2 ^ 128"
  shows "supply_of (lock_validator_reward i n s) = supply_of s + (if has_validator s i then unat n else 0)"
    and "ledger_ok E (lock_validator_reward i n s) = ledger_ok E s"
proof -
  have *: "supply_of (t\<lparr>ps_reward_unlocks := u\<rparr>) = supply_of t" "ledger_ok E (t\<lparr>ps_reward_unlocks := u\<rparr>) = ledger_ok E t" for t u
    by (simp_all add: supply_of_def ledger_ok_def)
  show "ledger_ok E (lock_validator_reward i n s) = ledger_ok E s" by (simp add: lock_validator_reward_def *)
  show "supply_of (lock_validator_reward i n s) = supply_of s + (if has_validator s i then unat n else 0)"
  proof (cases "find_validator s i")
    case None
    then show ?thesis by (simp add: lock_validator_reward_def has_validator_find)
  next
    case (Some v)
    have "unat (nv_vault_quarks v) + unat n < 2 ^ 128" using vault_le [OF Some] assms by simp
    then show ?thesis
      using vault_update [OF Some, of "\<lambda>v. v\<lparr>nv_vault_quarks := saturating_add (nv_vault_quarks v) n,
          nv_locked_reward_quarks := saturating_add (nv_locked_reward_quarks v) n\<rparr>"] Some
      by (auto simp: lock_validator_reward_def has_validator_find * saturating_add_def unat_add_below)
  qed
qed

lemma lock_counters: "issue_view (lock_validator_reward i n s) = issue_view s"
  by (simp add: lock_validator_reward_def issue_view_def)

lemma reward_supply:
  assumes "supply_of s + unat (ps_base_reward_per_block_quarks s) < 2 ^ 128"
    and "unat (ps_base_issuance_total s) + unat (ps_base_reward_per_block_quarks s) < 2 ^ 128"
  shows "supply_of (reward_leader s) + unat (ps_base_issuance_total s) = supply_of s + unat (ps_base_issuance_total (reward_leader s))"
    and "supply_of (reward_leader s) \<le> supply_of s + unat (ps_base_reward_per_block_quarks s)"
    and "ledger_ok E (reward_leader s) = ledger_ok E s"
    and "issue_view (reward_leader s) = (ps_base_issuance_total (reward_leader s), snd (issue_view s))"
proof -
  let ?l = "ps_current_leader s" and ?n = "ps_base_reward_per_block_quarks s"
  let ?u = "update_validator ?l (\<lambda>v. v\<lparr>nv_blocks_this_sub_epoch := nv_blocks_this_sub_epoch v + 1,
      nv_miss_counter := (if nv_miss_counter v > 0 then nv_miss_counter v - 1 else nv_miss_counter v)\<rparr>) s"
  let ?k = "lock_validator_reward ?l ?n ?u"
  have u: "supply_of ?u = supply_of s" by (rule vault_same) simp
  have k: "supply_of ?k = supply_of s + (if has_validator ?u ?l then unat ?n else 0)" "ledger_ok E ?k = ledger_ok E s"
    using lock_supply [where s = ?u and n = ?n and i = ?l] assms(1) u by simp_all
  have iv: "issue_view ?k = issue_view s" using lock_counters by (simp add: issue_view_def)
  have same: "supply_of (t\<lparr>ps_base_issuance_total := x, ps_sub_epoch_issued_quarks := y, ps_epoch_issued_quarks := z\<rparr>) = supply_of t"
    "ledger_ok E (t\<lparr>ps_base_issuance_total := x, ps_sub_epoch_issued_quarks := y, ps_epoch_issued_quarks := z\<rparr>) = ledger_ok E t" for t x y z
    by (simp_all add: supply_of_def ledger_ok_def)
  have r: "reward_leader s = (if has_validator ?u ?l then ?k\<lparr>ps_base_issuance_total := saturating_add (ps_base_issuance_total ?k) ?n,
      ps_sub_epoch_issued_quarks := saturating_add (ps_sub_epoch_issued_quarks ?k) ?n,
      ps_epoch_issued_quarks := saturating_add (ps_epoch_issued_quarks ?k) ?n\<rparr> else ?u)"
    by (simp add: reward_leader_def Let_def)
  show "supply_of (reward_leader s) \<le> supply_of s + unat ?n" "ledger_ok E (reward_leader s) = ledger_ok E s"
    unfolding r using k u by (simp_all add: same)
  show "issue_view (reward_leader s) = (ps_base_issuance_total (reward_leader s), snd (issue_view s))"
    unfolding r using iv by (simp add: issue_view_def)
  show "supply_of (reward_leader s) + unat (ps_base_issuance_total s) = supply_of s + unat (ps_base_issuance_total (reward_leader s))"
    unfolding r using k(1) u assms(2) iv by (auto simp: same issue_view_def saturating_add_def unat_add_below)
qed

text \<open>What producing a block does, given room for one reward.\<close>

definition produced :: "node_env \<Rightarrow> protocol_state \<Rightarrow> tx list \<Rightarrow> protocol_state \<Rightarrow> bool" where
  "produced E s ts s' \<longleftrightarrow> ledger_ok E s' \<and>
     supply_of s' + sum_list (map etx_burn ts) + unat (ps_base_issuance_total s) = supply_of s + unat (ps_base_issuance_total s') \<and>
     supply_of s' \<le> supply_of s + unat (ps_base_reward_per_block_quarks s) \<and>
     ps_burn_offset_total s' = ps_burn_offset_total s \<and> ps_burn_offset_k_permille s' = ps_burn_offset_k_permille s \<and>
     ps_blocks_this_sub_epoch s' = ps_blocks_this_sub_epoch s \<and> unat (ps_burn_this_sub_epoch s') < unat (ps_burn_this_sub_epoch s) + 2 ^ 64"

lemma add_burn_simps [simp]:
  "supply_of (add_burn n s) = supply_of s" "ledger_ok E (add_burn n s) = ledger_ok E s"
  "ps_base_issuance_total (add_burn n s) = ps_base_issuance_total s" "ps_burn_offset_total (add_burn n s) = ps_burn_offset_total s"
  "ps_burn_offset_k_permille (add_burn n s) = ps_burn_offset_k_permille s" "ps_blocks_this_sub_epoch (add_burn n s) = ps_blocks_this_sub_epoch s"
  "ps_base_reward_per_block_quarks (add_burn n s) = ps_base_reward_per_block_quarks s"
  by (simp_all add: add_burn_def supply_of_def ledger_ok_def)

lemma add_burn_bound: "unat (ps_burn_this_sub_epoch (add_burn (ucast (fees :: u64)) s)) < unat (ps_burn_this_sub_epoch s) + 2 ^ 64"
  using unat_bound [of fees] by (simp add: add_burn_def saturating_add_unat min_def)

lemma deactivate_simps [simp]:
  "supply_of (deactivate_pbm_if_ready s) = supply_of s" "ledger_ok E (deactivate_pbm_if_ready s) = ledger_ok E s"
  "issue_view (deactivate_pbm_if_ready s) = issue_view s"
  by (simp_all add: deactivate_pbm_if_ready_def supply_of_def ledger_ok_def issue_view_def)

lemma validator_block_supply:
  assumes s: "ledger_ok E s" "supply_of s + unat (ps_base_reward_per_block_quarks s) < 2 ^ 128"
      "unat (ps_base_issuance_total s) + unat (ps_base_reward_per_block_quarks s) < 2 ^ 128"
    and b: "validator_block E rng s = Some (b, rng', s')"
  shows "produced E s (bk_transactions b) s'"
proof -
  obtain s1 gas fees ts where loop: "validator_loop E rng s 0 0 [] (ps_mempool s) = (rng', s1, gas, fees, ts)"
      and s': "s' = reward_leader (add_burn (ucast fees) s1)" and ts: "bk_transactions b = ts"
    using b by (auto simp: validator_block_def Let_def bind_eq_Some_conv split: prod.splits elim: build_block_Some)
  let ?s = "add_burn (ucast fees) s1"
  have l: "ledger_ok E s1" "supply_of s1 + sum_list (map etx_burn ts) = supply_of s"
    using validator_loop_supply [OF loop] s by simp_all
  have i: "issue_view s1 = issue_view s" by (rule rest_issue [OF validator_loop_view [OF loop]])
  have r: "supply_of ?s + unat (ps_base_reward_per_block_quarks ?s) < 2 ^ 128" "unat (ps_base_issuance_total ?s) + unat (ps_base_reward_per_block_quarks ?s) < 2 ^ 128"
    using l i s by (simp_all add: issue_view_def)
  have "unat (ps_burn_this_sub_epoch ?s) < unat (ps_burn_this_sub_epoch s) + 2 ^ 64"
    using add_burn_bound [of fees s1] i by (simp add: issue_view_def)
  then show ?thesis
    using reward_supply [OF r] l i unfolding s' ts produced_def by (simp add: issue_view_def)
qed

lemma no_tickets_supply:
  assumes s: "ledger_ok E s" "supply_of s < 2 ^ 128" and b: "protocol_no_tickets_block E s = Some (b, s')"
  shows "produced E s (bk_transactions b) s'"
proof -
  have idle: "produced E s [] (deactivate_pbm_if_ready s1)" if "ledger_ok E s1" "supply_of s1 = supply_of s" "issue_view s1 = issue_view s" for s1
    using that deactivate_simps [where s = s1] unfolding produced_def by (simp add: issue_view_def)
  show ?thesis
  proof (cases "select_pbm_tx_index E s")
    case None
    then have "bk_transactions b = []" "s' = deactivate_pbm_if_ready s"
      using b by (auto simp: protocol_no_tickets_block_def Let_def bind_eq_Some_conv elim!: build_block_Some)
    then show ?thesis using idle [OF s(1) refl refl] by simp
  next
    case (Some i)
    let ?t = "ps_pbm_pool s ! i" and ?s = "s\<lparr>ps_pbm_pool := take i (ps_pbm_pool s) @ drop (Suc i) (ps_pbm_pool s)\<rparr>"
    obtain res s1 where x: "execute_pbm_tx E ?t ?s = (res, s1)" by fastforce
    have l: "ledger_ok E s1" "supply_of s1 + (if res \<noteq> None then etx_burn ?t else 0) = supply_of s"
      using execute_pbm_spends [of E ?s ?t] s x by simp_all
    have i: "issue_view s1 = issue_view s" using rest_issue [OF execute_pbm_view [of E ?t ?s]] x by (simp add: issue_view_def)
    show ?thesis
    proof (cases res)
      case None
      then have "bk_transactions b = []" "s' = deactivate_pbm_if_ready s1"
        using b by (auto simp: protocol_no_tickets_block_def Some Let_def x bind_eq_Some_conv elim!: build_block_Some)
      then show ?thesis using idle [OF l(1) _ i] l(2) None by simp
    next
      case gf: (Some gf)
      then obtain gas fees where gf: "res = Some (gas, fees)" by (cases gf) auto
      let ?d = "add_burn (ucast fees) s1"
      have "produced E s [?t] (deactivate_pbm_if_ready ?d)"
        using l gf i add_burn_bound [of fees s1] deactivate_simps [where s = ?d] unfolding produced_def by (simp add: issue_view_def)
      moreover have "bk_transactions b = [?t]" "s' = deactivate_pbm_if_ready ?d"
        using b gf by (auto simp: protocol_no_tickets_block_def Some Let_def x bind_eq_Some_conv elim!: build_block_Some)
      ultimately show ?thesis by simp
    qed
  qed
qed

lemma produce_block_supply:
  assumes s: "ledger_ok E s" "supply_of s + unat (ps_base_reward_per_block_quarks s) < 2 ^ 128"
      "unat (ps_base_issuance_total s) + unat (ps_base_reward_per_block_quarks s) < 2 ^ 128"
    and b: "produce_block E rng s = Some (b, rng', s')"
  shows "produced E s (bk_transactions b) s'"
proof -
  consider "protocol_no_tickets_block E s = Some (b, s')" | "validator_block E rng s = Some (b, rng', s')"
      | (miss) "protocol_miss_block E s = Some (b, s')"
    using b by (auto simp: produce_block_def split: if_splits)
  then show ?thesis
  proof cases
    case miss
    have "supply_of (update_validator i (miss_validator n) s) = supply_of s" for i n
      by (rule vault_same) (simp add: miss_validator_def Let_def)
    with miss s(1) show ?thesis
      by (auto simp: protocol_miss_block_def Let_def bind_eq_Some_conv produced_def elim!: build_block_Some split: if_splits)
  qed (use no_tickets_supply validator_block_supply s b in auto)
qed

lemma record_tip_money:
  assumes "record_linear_tip E b s = (Inr (), s')"
  shows "supply_of s' = supply_of s" "ledger_ok E s' = ledger_ok E s"
    and "\<exists>x. issue_view s' = issue_view (s\<lparr>ps_blocks_this_sub_epoch := ps_blocks_this_sub_epoch s @ [x]\<rparr>)"
proof -
  let ?m = "\<lambda>s. (ps_accounts s, ps_validators s, issue_view s)"
  let ?s1 = "update_liveness b (s\<lparr>ps_current_result := Some b\<rparr>)"
  let ?x = "if block_kind_of b = Validator then bk_proposer b else None"
  let ?s2 = "?s1\<lparr>ps_blocks_this_sub_epoch := ps_blocks_this_sub_epoch ?s1 @ [?x]\<rparr>"
  have l: "?m (update_liveness b t) = ?m t" for t by (simp add: update_liveness_def Let_def issue_view_def)
  from assms obtain s3 where r: "record_block E b ?s2 = (True, s3)" and s': "s' = push_history b s3"
    by (auto simp: record_linear_tip_def Let_def split: if_splits prod.splits sum.splits)
  have "?m s3 = ?m ?s2" using r by (auto simp: record_block_def Let_def issue_view_def split: if_splits option.splits)
  then have m: "?m s' = ?m (s\<lparr>ps_blocks_this_sub_epoch := ps_blocks_this_sub_epoch s @ [?x]\<rparr>)"
    using l [of "s\<lparr>ps_current_result := Some b\<rparr>"] by (simp add: s' push_history_def Let_def issue_view_def)
  then show "supply_of s' = supply_of s" "ledger_ok E s' = ledger_ok E s" by (simp_all add: supply_of_def ledger_ok_def)
  from m show "\<exists>x. issue_view s' = issue_view (s\<lparr>ps_blocks_this_sub_epoch := ps_blocks_this_sub_epoch s @ [x]\<rparr>)" by blast
qed

lemma mint_offsets_supply:
  assumes "supply_of s + length is * unat opb < 2 ^ 128" "unat (ps_burn_offset_total s) + length is * unat opb < 2 ^ 128"
  shows "supply_of (mint_offsets is opb s) + unat (ps_burn_offset_total s) = supply_of s + unat (ps_burn_offset_total (mint_offsets is opb s))
    \<and> ledger_ok E (mint_offsets is opb s) = ledger_ok E s \<and> ps_base_issuance_total (mint_offsets is opb s) = ps_base_issuance_total s
    \<and> supply_of (mint_offsets is opb s) \<le> supply_of s + length is * unat opb"
  using assms
proof (induction "is" opb s rule: mint_offsets.induct)
  case (2 i "is" opb s)
  let ?k = "lock_validator_reward i opb s"
  let ?s = "?k\<lparr>ps_burn_offset_total := ps_burn_offset_total ?k + opb, ps_epoch_issued_quarks := saturating_add (ps_epoch_issued_quarks ?k) opb\<rparr>"
  have room: "supply_of s + unat opb + length is * unat opb < 2 ^ 128" "unat (ps_burn_offset_total s) + unat opb + length is * unat opb < 2 ^ 128"
    using 2(2,3) by (simp_all add: ac_simps)
  show ?case
  proof (cases "has_validator s i")
    case True
    have same: "supply_of (t\<lparr>ps_burn_offset_total := x, ps_epoch_issued_quarks := y\<rparr>) = supply_of t"
      "ledger_ok E (t\<lparr>ps_burn_offset_total := x, ps_epoch_issued_quarks := y\<rparr>) = ledger_ok E t" for t x y
      by (simp_all add: supply_of_def ledger_ok_def)
    have c: "ps_burn_offset_total ?k = ps_burn_offset_total s" "ps_base_issuance_total ?k = ps_base_issuance_total s"
      using lock_counters [of i opb s] by (simp_all add: issue_view_def)
    have k: "supply_of ?s = supply_of s + unat opb" "ledger_ok E ?s = ledger_ok E s"
      using lock_supply [where s = s and n = opb and i = i] True room(1) by (simp_all add: same)
    have o: "unat (ps_burn_offset_total ?s) = unat (ps_burn_offset_total s) + unat opb" using room(2) by (simp add: c unat_add_below)
    have "mint_offsets (i # is) opb s = mint_offsets is opb ?s" using True by (simp add: Let_def)
    moreover have "supply_of ?s + length is * unat opb < 2 ^ 128" "unat (ps_burn_offset_total ?s) + length is * unat opb < 2 ^ 128"
      using room k(1) o by simp_all
    ultimately show ?thesis using 2(1) True k o c by (simp add: Let_def)
  next
    case False
    with room have "supply_of s + length is * unat opb < 2 ^ 128" "unat (ps_burn_offset_total s) + length is * unat opb < 2 ^ 128" by simp_all
    with 2(1) False show ?thesis by simp
  qed
qed simp

text \<open>The offsets of a sub-epoch never exceed the burned amount they are a share of.\<close>

lemma offset_bound:
  fixes k :: u64 and burn :: u128 and n :: nat
  assumes "unat k * unat burn < 2 ^ 128" "n < 2 ^ 64"
  shows "n * unat (ucast k * burn div 1000 div ucast (of_nat n :: u64)) \<le> unat k * unat burn"
proof -
  have "unat (ucast k * burn) = unat k * unat burn" using assms(1) by (simp add: unat_word_ariths)
  moreover have "unat (ucast (of_nat n :: u64) :: u128) = n" using assms(2) by (simp add: unat_of_nat_u64)
  ultimately have eq: "unat (ucast k * burn div 1000 div ucast (of_nat n :: u64)) = unat k * unat burn div 1000 div n"
    by (simp add: unat_div)
  show ?thesis unfolding eq by (rule order_trans [OF times_div_less_eq_dividend div_le_dividend])
qed

text \<open>Closing an epoch moves no money.\<close>

named_theorems money_frame

definition money :: "protocol_state \<Rightarrow> (text_bytes \<times> node_account) list \<times> u128 list \<times> u128 \<times> u128" where
  "money s = (ps_accounts s, map nv_vault_quarks (ps_validators s), ps_base_issuance_total s, ps_burn_offset_total s)"

lemma money_supply: "money s = money t \<Longrightarrow> supply_of s = supply_of t \<and> ledger_ok E s = ledger_ok E t \<and>
    ps_base_issuance_total s = ps_base_issuance_total t \<and> ps_burn_offset_total s = ps_burn_offset_total t"
  by (simp add: money_def supply_of_def ledger_ok_def flip: map_map)

lemma money_updates [money_frame]:
  "money (s\<lparr>ps_annual_inflation_ppb := v1\<rparr>) = money s" "money (s\<lparr>ps_base_reward_per_block_quarks := v2\<rparr>) = money s"
  "money (s\<lparr>ps_epoch_index := v3\<rparr>) = money s" "money (s\<lparr>ps_epoch_issued_quarks := v4\<rparr>) = money s"
  "money (s\<lparr>ps_epoch_burned_quarks := v5\<rparr>) = money s" "money (s\<lparr>ps_epoch_seed := v6\<rparr>) = money s" "money (s\<lparr>ps_events := v7\<rparr>) = money s"
  "money (s\<lparr>ps_reward_unlocks := v8\<rparr>) = money s" "money (s\<lparr>ps_retire_finalize := v9\<rparr>) = money s" "money (s\<lparr>ps_tickets := v10\<rparr>) = money s"
  by (simp_all add: money_def)

lemma money_update_validator: "(\<And>v. nv_vault_quarks (f v) = nv_vault_quarks v) \<Longrightarrow> money (update_validator i f s) = money s"
  by (simp add: money_def map_update_first)

lemma refresh_money [money_frame]: "money (refresh_validator_activation i s) = money s"
  by (simp add: refresh_validator_activation_def Let_def money_update_validator)

lemma refresh_fold_money [money_frame]: "money (fold refresh_validator_activation is s) = money s"
  by (induction "is" arbitrary: s) (simp_all add: money_frame)

lemma unlock_money [money_frame]: "money (unlock_rewards rs s) = money s"
  by (induction rs s rule: unlock_rewards.induct) (simp_all add: money_update_validator)

lemma close_epoch_money: "money (close_epoch E s) = money s"
proof -
  have "nv_vault_quarks (fst (end_cooldown epoch minimum v)) = nv_vault_quarks v" for epoch minimum v
    by (simp add: end_cooldown_def split: option.split)
  then have t: "money (process_epoch_validator_transitions t) = money t" for t
    unfolding process_epoch_validator_transitions_def Let_def by (simp add: refresh_fold_money) (simp add: money_def comp_def)
  show ?thesis
    by (simp add: close_epoch_def recompute_base_reward_per_block_def unlock_rewards_for_epoch_def finalize_retire_for_epoch_def
        rotate_epoch_seed_def Let_def t money_frame split: option.split prod.split)
qed

lemma close_sub_epoch_supply:
  assumes "supply_of s + unat (ps_burn_offset_k_permille s) * unat (ps_burn_this_sub_epoch s) < 2 ^ 128"
    and "unat (ps_burn_offset_total s) + unat (ps_burn_offset_k_permille s) * unat (ps_burn_this_sub_epoch s) < 2 ^ 128"
    and "length (ps_blocks_this_sub_epoch s) < 2 ^ 64"
  shows "supply_of (close_sub_epoch s) + unat (ps_burn_offset_total s) = supply_of s + unat (ps_burn_offset_total (close_sub_epoch s))
    \<and> ledger_ok E (close_sub_epoch s) = ledger_ok E s \<and> ps_base_issuance_total (close_sub_epoch s) = ps_base_issuance_total s
    \<and> supply_of (close_sub_epoch s) \<le> supply_of s + unat (ps_burn_offset_k_permille s) * unat (ps_burn_this_sub_epoch s)"
proof -
  let ?ps = "List.map_filter id (ps_blocks_this_sub_epoch s)"
  let ?opb = "ucast (ps_burn_offset_k_permille s) * ps_burn_this_sub_epoch s div 1000 div ucast (of_nat (length ?ps) :: u64)"
  let ?m = "if (of_nat (length ?ps) :: u64) > 0 then mint_offsets ?ps ?opb s else s"
  have n: "length ?ps < 2 ^ 64" using le_less_trans [OF length_filter_le assms(3)] by (simp add: map_filter_def)
  have "length ?ps * unat ?opb \<le> unat (ps_burn_offset_k_permille s) * unat (ps_burn_this_sub_epoch s)"
    by (rule offset_bound [OF _ n]) (use assms(1) in linarith)
  then have m: "supply_of ?m + unat (ps_burn_offset_total s) = supply_of s + unat (ps_burn_offset_total ?m) \<and> ledger_ok E ?m = ledger_ok E s
      \<and> ps_base_issuance_total ?m = ps_base_issuance_total s
      \<and> supply_of ?m \<le> supply_of s + unat (ps_burn_offset_k_permille s) * unat (ps_burn_this_sub_epoch s)"
    using mint_offsets_supply [of s ?ps ?opb E] assms(1,2) by auto
  have "map nv_vault_quarks (map (\<lambda>v. v\<lparr>nv_blocks_this_sub_epoch := 0\<rparr>) vs) = map nv_vault_quarks vs" for vs by simp
  then have "money (close_sub_epoch s) = money ?m" by (simp add: close_sub_epoch_def Let_def money_def)
  with m money_supply [of "close_sub_epoch s" ?m E] show ?thesis by simp
qed

section \<open>Properties\<close>

text \<open>Room for the reward of a slot and the offsets of a sub-epoch, so that no counter saturates or wraps.\<close>

definition supply_room :: "protocol_state \<Rightarrow> bool" where
  "supply_room s \<longleftrightarrow>
     (let reward = unat (ps_base_reward_per_block_quarks s);
          offset = unat (ps_burn_offset_k_permille s) * (unat (ps_burn_this_sub_epoch s) + 2 ^ 64) in
      supply_of s + reward + offset < 2 ^ 128 \<and> unat (ps_base_issuance_total s) + reward < 2 ^ 128 \<and>
      unat (ps_burn_offset_total s) + offset < 2 ^ 128 \<and> Suc (length (ps_blocks_this_sub_epoch s)) < 2 ^ 64)"

lemma boundaries_supply:
  assumes "supply_of s + unat (ps_burn_offset_k_permille s) * unat (ps_burn_this_sub_epoch s) < 2 ^ 128"
    and "unat (ps_burn_offset_total s) + unat (ps_burn_offset_k_permille s) * unat (ps_burn_this_sub_epoch s) < 2 ^ 128"
    and "length (ps_blocks_this_sub_epoch s) < 2 ^ 64"
  shows "supply_of (run_boundaries E s) + unat (ps_burn_offset_total s) = supply_of s + unat (ps_burn_offset_total (run_boundaries E s))
    \<and> ledger_ok E' (run_boundaries E s) = ledger_ok E' s \<and> ps_base_issuance_total (run_boundaries E s) = ps_base_issuance_total s
    \<and> supply_of (run_boundaries E s) \<le> supply_of s + unat (ps_burn_offset_k_permille s) * unat (ps_burn_this_sub_epoch s)"
  using close_sub_epoch_supply [OF assms, of E'] money_supply [OF close_epoch_money, of E s E'] money_supply [OF close_epoch_money, of E "close_sub_epoch s" E']
  by (simp add: run_boundaries_def Let_def)

lemma finish_slot_supply:
  assumes f: "finish_slot E p = Some (Finished wire, p')" and w: "from_wire_bytes (ne_keccak E) (ne_crates E) wire = Some b"
    and l: "ledger_ok E (pr_state p)" and room: "supply_room (pr_state p)"
  shows "ledger_ok E (pr_state p')" "supply_of (pr_state p') < 2 ^ 128"
    and "supply_of (pr_state p') + sum_list (map etx_burn (bk_transactions b)) + unat (ps_base_issuance_total (pr_state p)) + unat (ps_burn_offset_total (pr_state p))
      = supply_of (pr_state p) + unat (ps_base_issuance_total (pr_state p')) + unat (ps_burn_offset_total (pr_state p'))"
proof -
  let ?s = "pr_state p" and ?t = "pr_state (drop_remote_result p)"
  have t: "supply_of ?t = supply_of ?s" "ledger_ok E ?t = ledger_ok E ?s" "issue_view ?t = issue_view ?s"
    by (simp_all add: drop_remote_result_def push_event_def Let_def supply_of_def ledger_ok_def issue_view_def)
  from f obtain b' rng s1 s2 where pb: "produce_block E (pr_rng p) ?t = Some (b', rng, s1)" and rt: "record_linear_tip E b' s1 = (Inr (), s2)"
      and p': "p' = p\<lparr>pr_rng := rng, pr_state := run_boundaries E s2\<rparr>" and wb: "wire_bytes (ne_keccak E) (ne_crates E) b' = Some wire"
    by (rule finish_slot_finished)
  have b: "b' = b" using prevalidate_tip_ok(5) [OF record_tip_ok(1) [OF rt]] wb w by auto
  let ?k = "unat (ps_burn_offset_k_permille ?s)"
  have r: "supply_of ?s + unat (ps_base_reward_per_block_quarks ?s) + ?k * (unat (ps_burn_this_sub_epoch ?s) + 2 ^ 64) < 2 ^ 128"
      "unat (ps_base_issuance_total ?s) + unat (ps_base_reward_per_block_quarks ?s) < 2 ^ 128"
      "unat (ps_burn_offset_total ?s) + ?k * (unat (ps_burn_this_sub_epoch ?s) + 2 ^ 64) < 2 ^ 128"
      "Suc (length (ps_blocks_this_sub_epoch ?s)) < 2 ^ 64"
    using room by (simp_all add: supply_room_def Let_def)
  have pr: "produced E ?t (bk_transactions b) s1"
    using produce_block_supply [OF _ _ _ pb] l t r(1,2) b by (simp add: issue_view_def)
  note pd = pr [unfolded produced_def]
  obtain x where m: "supply_of s2 = supply_of s1" "ledger_ok E s2 = ledger_ok E s1"
      "issue_view s2 = issue_view (s1\<lparr>ps_blocks_this_sub_epoch := ps_blocks_this_sub_epoch s1 @ [x]\<rparr>)"
    using record_tip_money [OF rt] by blast
  have burn: "?k * unat (ps_burn_this_sub_epoch s1) \<le> ?k * (unat (ps_burn_this_sub_epoch ?s) + 2 ^ 64)"
    using pd t(3) by (intro mult_le_mono2) (simp add: issue_view_def)
  have iv: "ps_burn_offset_k_permille s2 = ps_burn_offset_k_permille ?s" "ps_burn_this_sub_epoch s2 = ps_burn_this_sub_epoch s1"
      "ps_burn_offset_total s2 = ps_burn_offset_total ?s" "ps_base_issuance_total s2 = ps_base_issuance_total s1"
      "length (ps_blocks_this_sub_epoch s2) = Suc (length (ps_blocks_this_sub_epoch ?s))"
    using m(3) pd t(3) by (simp_all add: issue_view_def)
  have sup: "supply_of s2 \<le> supply_of ?s + unat (ps_base_reward_per_block_quarks ?s)"
    using pd t m(1) by (simp add: issue_view_def)
  have bounds: "supply_of s2 + unat (ps_burn_offset_k_permille s2) * unat (ps_burn_this_sub_epoch s2) < 2 ^ 128"
      "unat (ps_burn_offset_total s2) + unat (ps_burn_offset_k_permille s2) * unat (ps_burn_this_sub_epoch s2) < 2 ^ 128"
      "length (ps_blocks_this_sub_epoch s2) < 2 ^ 64"
    using r burn sup unfolding iv by linarith+
  note rb = boundaries_supply [OF bounds, of E E]
  show "supply_of (pr_state p') < 2 ^ 128" using rb bounds(1) by (simp add: p')
  show "ledger_ok E (pr_state p')" using rb m(2) pd by (simp add: p')
  show "supply_of (pr_state p') + sum_list (map etx_burn (bk_transactions b)) + unat (ps_base_issuance_total ?s) + unat (ps_burn_offset_total ?s)
      = supply_of ?s + unat (ps_base_issuance_total (pr_state p')) + unat (ps_burn_offset_total (pr_state p'))"
    using rb m(1) pd t iv by (simp add: p' issue_view_def)
qed

text \<open>The node's own supply figure is the exact sum, cut off at the largest word.\<close>

lemma saturating_fold: "unat (foldl saturating_add a xs) = min (unat (a :: u128) + sum_list (map unat xs)) (2 ^ 128 - 1)"
proof (induction xs arbitrary: a)
  case Nil
  then show ?case using unat_bound [of a] by simp
next
  case (Cons x xs)
  then show ?case by (simp add: saturating_add_unat)
qed

lemma total_supply_exact: "unat (total_supply_quarks s) = min (supply_of s) (2 ^ 128 - 1)"
proof -
  have "sum_list (map unat (List.map_filter (\<lambda>(_, a). etx_of a) m)) = bm_sum etx_held m" for m :: "(text_bytes \<times> node_account) list"
    by (induction m) (auto simp: map_filter_simps etx_of_def balance_or_zero_def split: option.split)
  then show ?thesis
    by (simp add: total_supply_quarks_def Let_def saturating_add_unat saturating_fold supply_of_def)
qed

lemma total_supply_room: "supply_of s < 2 ^ 128 \<Longrightarrow> unat (total_supply_quarks s) = supply_of s"
  by (simp add: total_supply_exact)

text \<open>C10. A finished slot changes the ETX supply exactly by what it issues and burns, in exact arithmetic: the supply
  after the slot, plus the ETX fees and ticket prices of the block's transactions, is the supply before plus the advance of
  the two issuance counters, whichever block kind was produced and whether or not a sub-epoch or an epoch closed. A fee paid in
  another token is not a burn of supply, although the counter \<open>fees_burned_total\<close> includes it.\<close>

theorem node_supply_exact:
  assumes "finish_slot E p = Some (Finished wire, p')" "from_wire_bytes (ne_keccak E) (ne_crates E) wire = Some b"
    and "norm_ok E" "bm_wf (ps_accounts (pr_state p))" "supply_room (pr_state p)"
  shows "bm_wf (ps_accounts (pr_state p')) \<and>
    unat (total_supply_quarks (pr_state p')) + sum_list (map etx_burn (bk_transactions b))
      + unat (ps_base_issuance_total (pr_state p)) + unat (ps_burn_offset_total (pr_state p))
    = unat (total_supply_quarks (pr_state p)) + unat (ps_base_issuance_total (pr_state p')) + unat (ps_burn_offset_total (pr_state p'))"
proof -
  have l: "ledger_ok E (pr_state p)" using assms by (simp add: ledger_ok_def)
  have "supply_of (pr_state p) < 2 ^ 128" using assms(5) by (simp add: supply_room_def Let_def)
  with finish_slot_supply [OF assms(1,2) l assms(5)] show ?thesis by (simp add: total_supply_room ledger_ok_def)
qed

text \<open>C32. A withdrawal that executes was asked by the validator's owner, takes exactly its value out of the vault, and leaves in it the
  locked rewards and the minimum that the validator's live tickets require.\<close>

theorem withdrawal_keeps_backing:
  assumes "execute_withdraw E t s = (True, s')" "0 < tx_value t"
  shows "\<exists>v v'. find_validator s (tx_to t) = Some v \<and> nv_owner_account v = Some (tx_from t) \<and> find_validator s' (tx_to t) = Some v' \<and>
    unat (nv_vault_quarks v') + unat (tx_value t) = unat (nv_vault_quarks v) \<and> nv_locked_reward_quarks v' = nv_locked_reward_quarks v \<and>
    unat (nv_locked_reward_quarks v') + unat (validator_vault_minimum_quarks s' (tx_to t)) \<le> unat (nv_vault_quarks v')"
proof -
  let ?i = "tx_to t" and ?f = "\<lambda>v. v\<lparr>nv_vault_quarks := nv_vault_quarks v - tx_value t\<rparr>"
  from assms obtain s1 where d: "debit_balance E (tx_from t) TOKEN_ETX_ID (ucast (tx_fee_quarks t)) s = (True, s1)"
      and own: "validator_owner_account s ?i = Some (tx_from t)" and w: "tx_value t \<le> validator_withdrawable_vault_quarks s ?i"
      and s': "s' = refresh_validator_activation ?i (credit_balance E (tx_from t) TOKEN_ETX_ID (tx_value t) (update_validator ?i ?f s1))"
    by (auto simp: execute_withdraw_def Let_def split: if_splits prod.splits bool.splits)
  from own obtain v where v: "find_validator s ?i = Some v" "nv_owner_account v = Some (tx_from t)"
    by (auto simp: validator_owner_account_def split: option.splits)
  have vs: "ps_validators s1 = ps_validators s" "ps_tickets s1 = ps_tickets s"
    using d by (auto simp: debit_balance_def ensure_account_exists_def Let_def split: option.splits if_splits)
  have cr: "ps_validators (credit_balance E i k n u) = ps_validators u" "ps_tickets (credit_balance E i k n u) = ps_tickets u" for i k n u
    by (simp_all add: credit_balance_def ensure_account_exists_def Let_def split: option.split)
  have id: "nv_id v = ?i" using v(1) by (auto simp: find_validator_def find_Some_iff)
  have f: "find (\<lambda>v. nv_id v = ?i) (update_first (\<lambda>v. nv_id v = ?i) ?f (ps_validators s)) = Some (?f v)"
    using v(1) id by (intro find_update_first) (simp_all add: find_validator_def)
  obtain m live where "ps_validators s' = update_first (\<lambda>v. nv_id v = ?i) (activation m live) (update_first (\<lambda>v. nv_id v = ?i) ?f (ps_validators s))"
    by (simp add: s' refresh_validator_activation_def Let_def cr vs)
  then have v': "find_validator s' ?i = Some (activation m live (?f v))"
    using find_update_first [OF f, of "activation m live"] id by (simp add: find_validator_def activation_def)
  have min: "validator_vault_minimum_quarks s' ?i = validator_vault_minimum_quarks s ?i"
    by (simp add: s' refresh_validator_activation_def Let_def cr vs validator_vault_minimum_quarks_def validator_ticket_count_def)
  have le: "unat (tx_value t) \<le> unat (nv_vault_quarks v) - unat (nv_locked_reward_quarks v) - unat (validator_vault_minimum_quarks s ?i)"
    by (rule withdrawable_le [OF v(1) w])
  moreover have "unat (tx_value t) > 0" using assms(2) by (simp add: word_less_nat_alt)
  ultimately have "unat (nv_vault_quarks v - tx_value t) = unat (nv_vault_quarks v) - unat (tx_value t)"
    by (simp add: unat_sub word_le_nat_alt)
  moreover have "nv_locked_reward_quarks (activation m live u) = nv_locked_reward_quarks u" for u by (simp add: activation_def)
  ultimately show ?thesis using v v' le \<open>unat (tx_value t) > 0\<close> by (auto simp: min)
qed

section \<open>Witnesses\<close>

lemma demo_norm: "normalize_address demo_env (str ''a'') = str ''a''" "norm_ok demo_env"
  by (auto simp: normalize_address_def demo_env_def norm_ok_def Let_def str_def)

lemma demo_node_money [simp]:
  "ps_accounts (pr_state demo_node) = []" "ps_base_reward_per_block_quarks (pr_state demo_node) = 0" "ps_base_issuance_total (pr_state demo_node) = 0"
  "ps_burn_offset_total (pr_state demo_node) = 0" "ps_burn_this_sub_epoch (pr_state demo_node) = 0"
  "ps_burn_offset_k_permille (pr_state demo_node) = 500" "ps_blocks_this_sub_epoch (pr_state demo_node) = []"
  by (simp_all add: demo_node_def protocol_new_def push_event_def initial_state_def reselect_leader_def recompute_base_reward_per_block_def
      total_supply_quarks_def saturating_add_def saturating_mul_def map_filter_def Let_def split: prod.split)

definition demo_holder :: node_account where "demo_holder = (new_account (str ''a''))\<lparr>na_balances := [(TOKEN_ETX_ID, 5)]\<rparr>"

definition demo_funded :: protocol where "demo_funded = on_state (\<lambda>s. s\<lparr>ps_accounts := [(str ''a'', demo_holder)]\<rparr>) demo_node"

lemma demo_funded_finishes: "\<exists>wire p' b. finish_slot demo_env demo_funded = Some (Finished wire, p') \<and>
    from_wire_bytes (ne_keccak demo_env) (ne_crates demo_env) wire = Some b"
proof -
  have v: "chain_view (pr_state demo_funded) = chain_view (pr_state demo_node)" by (simp add: demo_funded_def chain_frame)
  have c: "node_chain demo_env (pr_state demo_funded)"
    using node_chain_cong [OF v] protocol_new_chain by (simp add: demo_node_def)
  have r: "node_ready demo_env (pr_state demo_funded)"
    by (simp add: demo_funded_def node_ready_def leader_ok_def total_eligible_tickets_def eligible_tickets_def)
  obtain wire p' where f: "finish_slot demo_env demo_funded = Some (Finished wire, p')"
    using finish_slot_returns [OF _ _ c _ r] by (auto simp: demo_digest demo_crates_ok demo_funded_def)
  with finish_slot_chain [OF c f] show ?thesis by metis
qed

theorem node_supply_exact_witness:
  "\<exists>wire p' (b :: block). finish_slot demo_env demo_funded = Some (Finished wire, p') \<and>
     unat (total_supply_quarks (pr_state p')) + sum_list (map etx_burn (bk_transactions b))
       + unat (ps_base_issuance_total (pr_state demo_funded)) + unat (ps_burn_offset_total (pr_state demo_funded))
     = 5 + unat (ps_base_issuance_total (pr_state p')) + unat (ps_burn_offset_total (pr_state p'))"
proof -
  obtain wire p' b where f: "finish_slot demo_env demo_funded = Some (Finished wire, p')"
      "from_wire_bytes (ne_keccak demo_env) (ne_crates demo_env) wire = Some b" using demo_funded_finishes by blast
  have s: "supply_of (pr_state demo_funded) = 5"
    by (simp add: supply_of_def demo_funded_def demo_holder_def balance_or_zero_def)
  then have "supply_room (pr_state demo_funded)" by (simp add: supply_room_def demo_funded_def)
  moreover have "bm_wf (ps_accounts (pr_state demo_funded))" by (simp add: bm_wf_def demo_funded_def)
  ultimately have "bm_wf (ps_accounts (pr_state p')) \<and>
      unat (total_supply_quarks (pr_state p')) + sum_list (map etx_burn (bk_transactions b))
        + unat (ps_base_issuance_total (pr_state demo_funded)) + unat (ps_burn_offset_total (pr_state demo_funded))
      = unat (total_supply_quarks (pr_state demo_funded)) + unat (ps_base_issuance_total (pr_state p')) + unat (ps_burn_offset_total (pr_state p'))"
    by (intro node_supply_exact [OF f demo_norm(2)])
  moreover have "unat (total_supply_quarks (pr_state demo_funded)) = 5" using total_supply_room [of "pr_state demo_funded"] s by simp
  ultimately have "unat (total_supply_quarks (pr_state p')) + sum_list (map etx_burn (bk_transactions b))
      + unat (ps_base_issuance_total (pr_state demo_funded)) + unat (ps_burn_offset_total (pr_state demo_funded))
    = 5 + unat (ps_base_issuance_total (pr_state p')) + unat (ps_burn_offset_total (pr_state p'))" by simp
  with f(1) show ?thesis by blast
qed

definition demo_vault :: node_validator where
  "demo_vault = (initial_validator demo_env False (Some (str ''a'')) (str ''v''))\<lparr>nv_vault_quarks := 10\<rparr>"

definition demo_withdrawal :: tx where
  "demo_withdrawal = \<lparr>tx_chain_id = CHAIN_ID, tx_from = str ''a'', tx_nonce = 0, tx_to = str ''v'', tx_token_id = TOKEN_ETX_ID, tx_value = 3, tx_gas = 1000,
     tx_fee_quarks = 2, tx_max_fee_per_gas = 0, tx_kind_of = VaultToWallet, tx_valid_after_slot = 0, tx_fee_token_id = TOKEN_ETX_ID,
     tx_data = [], tx_signature_hex = []\<rparr>"

theorem withdrawal_keeps_backing_witness:
  "\<exists>s' v'. execute_withdraw demo_env demo_withdrawal ((pr_state demo_funded)\<lparr>ps_validators := [demo_vault]\<rparr>) = (True, s') \<and>
     find_validator s' (str ''v'') = Some v' \<and> unat (nv_vault_quarks v') = 7"
proof -
  let ?s = "(pr_state demo_funded)\<lparr>ps_validators := [demo_vault]\<rparr>"
  have v: "find_validator ?s (str ''v'') = Some demo_vault" by (simp add: find_validator_def demo_vault_def initial_validator_def)
  have a: "map_of (ps_accounts ?s) (str ''a'') = Some demo_holder" by (simp add: demo_funded_def)
  have "fst (execute_withdraw demo_env demo_withdrawal ?s)"
    using v a demo_norm(1)
    by (simp add: execute_withdraw_def demo_withdrawal_def Let_def validator_owner_account_def can_pay_fee_def
        validator_withdrawable_vault_quarks_def validator_vault_minimum_quarks_def validator_ticket_count_def debit_balance_def
        ensure_account_exists_def balance_or_zero_def demo_holder_def demo_vault_def initial_validator_def saturating_sub_def demo_funded_def)
  then obtain s' where x: "execute_withdraw demo_env demo_withdrawal ?s = (True, s')"
    by (cases "execute_withdraw demo_env demo_withdrawal ?s") auto
  have "0 < tx_value demo_withdrawal" by (simp add: demo_withdrawal_def)
  from withdrawal_keeps_backing [OF x this] v x show ?thesis by (auto simp: demo_withdrawal_def demo_vault_def)
qed

end
