(* ===== verification/Spec2Isabelle.thy ===== *)
theory Spec2Isabelle
  imports Signing_Progress Poash_Peer Canonical_Recovery Node_Supply
begin

text \<open>
  \<^bold>\<open>Verification of the Eternix testnet node.\<close>

  The repository holds a chain of protocol layers in Rust, each a file under \<open>src/src/\<close>. A native transfer is a
  signed byte string of fixed length; a body is an ordered list of them; a block commits to its body by a
  header; an envelope attributes the block to a producer by a signature over a domain-separated digest. The PoAsh
  layer adds a closed genesis with two validators, a leader selection per slot, the state transition that pays
  the selected producer, a durable store of the whole history in SQLite, a signing authority with a journal of its
  own, and the frames two peers exchange. Beside it the repository keeps the earlier fixtures and a prototype node, a
  complete slot engine with accounts, vaults, tickets and gossip but without durable storage.

  \<^bold>\<open>What models what.\<close> Each theory opens with a text that says which source it models.

  \<^item> \<open>Prelude\<close>: results (\<open>try_res\<close> is Rust's \<open>?\<close>, \<open>then_do\<close> the same over a threaded state), checked
    arithmetic at width, big-endian fields, fixed buffers, cursors over a byte slice, sorted association lists for
    \<open>BTreeMap\<close>; the locales of byte readers and of account tables.
  \<^item> \<open>Block_Commitment\<close>: \<open>block_commitment.rs\<close>, hashes and roots of headers and bodies.
  \<^item> \<open>Native_Transaction\<close>: \<open>native_transaction.rs\<close>, codec, authentication and signing.
  \<^item> \<open>Native_Transfer\<close>: \<open>native_transfer.rs\<close>, the transfer rule, staging of bodies and the store of
    \<open>examples/native_transfer_replay.rs\<close>.
  \<^item> \<open>Native_Block\<close>: \<open>native_block.rs\<close>. \<open>Block_Authentication\<close>: \<open>block_authentication.rs\<close>.
  \<^item> \<open>Poash_Selection\<close>: \<open>native_poash.rs\<close> and \<open>native_poash/selection.rs\<close>.
  \<^item> \<open>Poash_State\<close>: \<open>state.rs\<close> and \<open>genesis.rs\<close>. \<open>Poash_History\<close>: \<open>admission.rs\<close> and \<open>history.rs\<close>.
  \<^item> \<open>Poash_Application\<close>: \<open>application.rs\<close>; \<open>Poash_Chain\<close> composes selection, staging and transition into
    whole slots from the genesis.
  \<^item> \<open>Poash_Peer\<close>: \<open>peer.rs\<close>.
  \<^item> \<open>Poash_Snapshot\<close>, \<open>Poash_Storage\<close>, \<open>Poash_Sql\<close>: \<open>storage.rs\<close> and \<open>storage/sql.rs\<close>, with the parts of
    \<open>durable_fixture.rs\<close> they call. \<open>Poash_Schema\<close> states the constraints of the tables and triggers of
    \<open>storage/sql.rs\<close>. \<open>Poash_Admission\<close>, \<open>Poash_Recovery\<close>, \<open>Poash_Durability\<close> and \<open>Poash_Store\<close> prove their properties.
  \<^item> \<open>Poash_Journal\<close>, \<open>Poash_Signing\<close>: \<open>signing/journal.rs\<close> and \<open>signing.rs\<close>. \<open>Signing_Safety\<close> and
    \<open>Signing_Progress\<close> prove their properties.
  \<^item> \<open>Durable_Fixture\<close>: the store of \<open>durable_fixture.rs\<close>. \<open>Durable_Safety\<close> and \<open>Durable_Store\<close> prove its properties.
  \<^item> \<open>Canonical_Fixture\<close>: the block archive of \<open>canonical_fixture.rs\<close>, over the tables of the durable fixture.
    \<open>Canonical_Safety\<close>, \<open>Canonical_Store\<close> and \<open>Canonical_Recovery\<close> prove its properties.
  \<^item> The prototype node: \<open>Node_Models\<close> (\<open>models.rs\<close>), \<open>Consensus_Hash\<close> (\<open>consensus_hash.rs\<close>), \<open>Leader_Selection\<close>
    (\<open>leader_selection.rs\<close>), \<open>Node_Accounts\<close>, \<open>Node_Consensus\<close>, \<open>Node_Network\<close> and \<open>Node_Core\<close> (\<open>app/accounts.rs\<close>,
    \<open>app/consensus.rs\<close>, \<open>app/network.rs\<close> with the formats of \<open>p2p.rs\<close> and \<open>app/utils.rs\<close>, \<open>app/core.rs\<close>).
    \<open>Node_Chain\<close>, \<open>Node_Liveness\<close> and \<open>Node_Supply\<close> prove its properties.

  \<^bold>\<open>How code is represented.\<close> A struct is a record with a two-letter prefix on its fields, an enum a datatype, an
  unsigned integer a word of its width, a byte array a list of \<open>8 word\<close> whose length is a hypothesis or an
  invariant, a fallible function a sum with the error on the left. A \<open>BTreeMap\<close> is a list sorted by its
  keys. State is passed explicitly; a function that changes an owner, an authority or a database returns it.

  \<^bold>\<open>Parameters.\<close> Keccak-256 and secp256k1 are third-party: the record \<open>crypto\<close> holds their functions, and a
  theorem that needs more than that they are functions says so (\<open>digest32\<close>: a digest has 32 bytes; \<open>hash_ok\<close>: also
  the two proposer names have different identifiers). No theorem assumes that hashes are injective; where a collision
  matters it appears in the statement (\<open>no_collision\<close>: no two headers and no two envelopes of the history at hand have one
  digest, which the \<open>UNIQUE\<close> columns refuse). SQLite and the file system are the records \<open>disk\<close>, \<open>journal_disk\<close>, \<open>fixture_disk\<close> and
  \<open>canonical_disk\<close>; what is relied on is the locale \<open>sqlite_engine\<close> (respectively \<open>journal_engine\<close>, \<open>fixture_engine\<close>,
  \<open>canonical_engine\<close>): statements act on the open
  transaction, a failed \<open>COMMIT\<close> applies the transaction as a whole or not at all, and every other failure leaves the
  durable tables alone. \<open>writing_engine\<close>, \<open>healthy_engine\<close>, \<open>journal_healthy\<close>, \<open>fixture_healthy\<close>,
  \<open>fixture_recoverable\<close>, \<open>canonical_healthy\<close> and \<open>canonical_recoverable\<close> extend them by the success of
  calls and serve the liveness theorems only. In all of them a write succeeds only if the constraints of the schema let it
  through (\<open>sql_allowed\<close>, \<open>journal_allowed\<close>, \<open>fx_allowed\<close>, \<open>cn_fx_allowed\<close> and \<open>cn_allowed\<close>: widths, keys, triggers, immediate
  references), and a \<open>COMMIT\<close> only if the deferred references hold (\<open>sql_linked\<close>, \<open>cn_linked\<close>). \<open>responsive_engine\<close> says
  only that queries are answered; the declared tables and triggers may be any, and the audit has to find that out.
  \<open>canonical_engine\<close> contains a
  \<open>fixture_engine\<close> (a \<open>sublocale\<close>), so that the tables of both schemas are reasoned about once. All are interpreted on concrete disks in memory that enforce the
  constraints. For the prototype node the crates
  \<open>hex\<close> and \<open>serde_json\<close> are the record \<open>text_crates\<close> (\<open>crates_ok\<close>: what they print they read back), and \<open>node_env\<close> adds
  \<open>trim\<close> and \<open>to_lowercase\<close> (\<open>norm_ok\<close>: normalizing an address twice is the same as once), the test for a public
  key, prehash signing and the random generator's coin. Clock readings are arguments of the message handler.

  \<^bold>\<open>What is shown.\<close>

  \<^item> Codecs: decoding accepts exactly the encodings of well-formed values, for transactions, blocks,
    envelopes, genesis, snapshots, reservations and peer frames.
  \<^item> Authentication: what is accepted, exactly; what is signed authenticates; two attributed envelopes with one digest
    carry one block.
  \<^item> Transfers: \<open>apply_transfer\<close> and \<open>stage_body\<close> refine an abstract ledger over unbounded integers; supply is
    conserved; no transaction is ever recorded twice.
  \<^item> Selection: an exact draw, the same count of hash outputs for every offset, the least score of the bucket.
  \<^item> Chain: every state reached by whole slots is a valid snapshot with conserved supply, and before the last
    slot it can be extended by every body that passes staging.
  \<^item> Store: \<open>store_step\<close> is any interleaving of the owner's operations over a disk that may fail at any call. The
    durable tables are always the image of one replayed history; commits are atomic; recovery tells the truth; the
    audit accepts exactly what commits write; a staged block commits and an interrupted owner recovers on a disk that works and
    enforces the schema; an equivocation, and nothing else, halts an owner.
  \<^item> Fixtures: the same for the durable fixture (\<open>fixture_step\<close>) and the block archive (\<open>archive_step\<close>), whose state is the
    replay of its bodies, respectively of its blocks from the anchor; the four indexes of the archive are exact, its blocks form
    one chain, an admitted block commits, and a receiver stages and commits exactly what a producer prepared.
  \<^item> Signing: \<open>signing_step\<close> is any sequence of opening, signing, retrieving, recovering and stopping. At most one
    claim per slot is ever signed, and one original per slot is ever returned.
  \<^item> Prototype node: \<open>proto_step\<close> is any sequence of slots, datagrams and requests. The blocks form one linear chain whose
    length is the slot number; a slot that does not finish changes nothing but the log, since staging puts the cloned state and
    generator back; a slot finishes under conditions
    that are each needed; a finished slot accounts for the ETX supply exactly, proved over the locale \<open>token_ledger\<close> of what
    crediting and debiting promise.

  \<^bold>\<open>Loops and bounds.\<close> The retry loops of signing are \<open>partial_function (option)\<close>: \<open>None\<close> is a loop that never
  ends, and the round-trip theorems prove that it ends when some attempt is accepted. Rejection sampling has the
  source's own bound on the counter, and terminates by it. Every other loop is structural. PoAsh slots are bounded by 200,
  those of the prototype by the width of their counter, bodies by the source's own constants, and no fuel is used. In the prototype
  \<open>None\<close> as the outcome of a slot is a panic of \<open>expect\<close>, and unchecked sums wrap.

  \<^bold>\<open>Not modelled.\<close> Measurements and timings, error texts, threads, sockets, files and the processes around the library
  (\<open>trial.rs\<close>, the examples, the RPC and dashboard of the prototype). Of the prototype node also the outgoing messages, the
  reading of the genesis file, account creation and import, and the Ethereum transaction decoders. The authenticated fixture,
  the signed variant of the block archive, is an earlier store that the PoAsh store supersedes; its envelopes are those of
  \<open>Block_Authentication\<close>.
\<close>

end
